(* ===== verification/Prelude.thy ===== *)
theory Prelude
  imports Main "HOL-Library.Monad_Syntax"
begin

section \<open>Shared vocabulary of the development\<close>

text \<open>
  What the component theories share: Rust's unsigned 64-bit arithmetic on \<^typ>\<open>nat\<close> with the
  wrap-around written out, list and map lemmas, the lists of keyed costs every eviction policy
  is measured against, and the collections of rewrite rules the component proofs use.

  Integers. A \<^verbatim>\<open>u64\<close> (or \<^verbatim>\<open>usize\<close>, on the 64-bit targets the crates are built for) is
  a \<^typ>\<open>nat\<close> below \<^verbatim>\<open>2 ^ 64\<close>. \<^verbatim>\<open>a + b\<close> and \<^verbatim>\<open>a - b\<close> wrap in a release build, which
  is what \<open>u64_add\<close> and \<open>u64_sub\<close> compute; \<^verbatim>\<open>a.saturating_sub(b)\<close> is the truncating
  subtraction of \<^typ>\<open>nat\<close>. Panics (an index that is not there, \<^verbatim>\<open>unwrap\<close> of \<^verbatim>\<open>None\<close>) are
  the value \<^term>\<open>None\<close> of an option-valued operation.
\<close>

named_theorems rust_arith \<open>unfolding of the machine arithmetic\<close>
named_theorems costs_simps \<open>sums of costs of keyed lists\<close>

subsection \<open>Unsigned 64-bit arithmetic\<close>

definition u64_size :: nat where
  "u64_size = 2 ^ 64"

definition u64_max :: nat where
  "u64_max = 2 ^ 64 - 1"

definition u64_add :: "nat \<Rightarrow> nat \<Rightarrow> nat" where
  "u64_add a b = (a + b) mod 2 ^ 64"

definition u64_sub :: "nat \<Rightarrow> nat \<Rightarrow> nat" where
  "u64_sub a b = (a + (2 ^ 64 - b)) mod 2 ^ 64"

definition saturating_sub :: "nat \<Rightarrow> nat \<Rightarrow> nat" where
  "saturating_sub a b = a - b"

lemma u64_add_exact [simp]: "a + b < 2 ^ 64 \<Longrightarrow> u64_add a b = a + b"
  by (simp add: u64_add_def)

lemma u64_sub_exact [simp]: "b \<le> a \<Longrightarrow> a < 2 ^ 64 \<Longrightarrow> u64_sub a b = a - b"
proof -
  assume "b \<le> a" "a < 2 ^ 64"
  then have "a + (2 ^ 64 - b) = (a - b) + 2 ^ 64" by simp
  then have "u64_sub a b = ((a - b) + 2 ^ 64) mod 2 ^ 64" by (simp only: u64_sub_def)
  also have "\<dots> = (a - b) mod 2 ^ 64" by simp
  also have "\<dots> = a - b" using \<open>a < 2 ^ 64\<close> by simp
  finally show ?thesis .
qed

lemma u64_add_less: "u64_add a b < 2 ^ 64"
  by (simp add: u64_add_def)

lemma u64_sub_less: "u64_sub a b < 2 ^ 64"
  by (simp add: u64_sub_def)

declare saturating_sub_def [rust_arith]
declare u64_add_def [rust_arith]
declare u64_sub_def [rust_arith]

subsection \<open>First and last element as options\<close>

definition first :: "'a list \<Rightarrow> 'a option" where
  "first xs = (case xs of [] \<Rightarrow> None | x # _ \<Rightarrow> Some x)"

definition final :: "'a list \<Rightarrow> 'a option" where
  "final xs = (if xs = [] then None else Some (last xs))"

lemma first_simps [simp]: "first [] = None" "first (x # xs) = Some x"
  by (simp_all add: first_def)

lemma final_simps [simp]: "final [] = None" "final (xs @ [x]) = Some x"
  by (simp_all add: final_def)

lemma final_Cons: "final (x # xs) = (if xs = [] then Some x else final xs)"
  by (simp add: final_def)

lemma first_append: "first (xs @ ys) = (if xs = [] then first ys else first xs)"
  by (cases xs) simp_all

lemma final_append: "final (xs @ ys) = (if ys = [] then final xs else final ys)"
  by (simp add: final_def)

lemma first_rev [simp]: "first (rev xs) = final xs"
  by (cases xs rule: rev_cases) (simp_all add: final_def)

lemma final_rev [simp]: "final (rev xs) = first xs"
  by (cases xs) (simp_all add: final_def)

lemma first_None [simp]: "first xs = None \<longleftrightarrow> xs = []"
  by (cases xs) simp_all

lemma final_None [simp]: "final xs = None \<longleftrightarrow> xs = []"
  by (simp add: final_def)

lemma final_SomeD: "final xs = Some x \<Longrightarrow> \<exists>ys. xs = ys @ [x]"
  by (cases xs rule: rev_cases) simp_all

lemma first_SomeD: "first xs = Some x \<Longrightarrow> \<exists>ys. xs = x # ys"
  by (cases xs) simp_all

subsection \<open>Vectors\<close>

text \<open>
  \<^verbatim>\<open>v[i]\<close> panics out of range; \<^verbatim>\<open>v.remove(i)\<close> shifts the tail down; \<^verbatim>\<open>iter().position(..)\<close>
  finds the first index.
\<close>

definition vec_get :: "'a list \<Rightarrow> nat \<Rightarrow> 'a option" where
  "vec_get xs i = (if i < length xs then Some (xs ! i) else None)"

definition vec_remove :: "nat \<Rightarrow> 'a list \<Rightarrow> 'a list" where
  "vec_remove i xs = take i xs @ drop (Suc i) xs"

fun position :: "'a \<Rightarrow> 'a list \<Rightarrow> nat option" where
  "position x [] = None"
| "position x (y # ys) = (if x = y then Some 0 else map_option Suc (position x ys))"

lemma vec_get_Some [simp]: "i < length xs \<Longrightarrow> vec_get xs i = Some (xs ! i)"
  by (simp add: vec_get_def)

lemma length_vec_remove: "i < length xs \<Longrightarrow> length (vec_remove i xs) = length xs - 1"
  by (simp add: vec_remove_def)

lemma set_vec_remove: "distinct xs \<Longrightarrow> i < length xs \<Longrightarrow> set (vec_remove i xs) = set xs - {xs ! i}"
  and distinct_vec_remove: "distinct xs \<Longrightarrow> i < length xs \<Longrightarrow> distinct (vec_remove i xs)"
proof -
  assume d: "distinct xs" and i: "i < length xs"
  then have "xs = take i xs @ xs ! i # drop (Suc i) xs" by (simp add: id_take_nth_drop)
  with d have "distinct (take i xs @ xs ! i # drop (Suc i) xs)" by simp
  moreover from \<open>xs = _\<close> have "set xs = set (take i xs @ xs ! i # drop (Suc i) xs)" by simp
  ultimately show "set (vec_remove i xs) = set xs - {xs ! i}" "distinct (vec_remove i xs)"
    unfolding vec_remove_def by auto
qed

lemma position_Some: "position x xs = Some i \<Longrightarrow> i < length xs \<and> xs ! i = x"
  by (induction xs arbitrary: i) (auto split: if_splits)

lemma position_None [simp]: "position x xs = None \<longleftrightarrow> x \<notin> set xs"
  by (induction xs) auto

subsection \<open>Lists of keys with costs\<close>

text \<open>
  A policy's view of what it tracks is a list of \<open>(key, cost)\<close> pairs in its eviction order,
  with distinct keys.
\<close>

definition costs :: "('k \<times> nat) list \<Rightarrow> nat" where
  "costs xs = sum_list (map snd xs)"

definition keyed :: "('k \<times> nat) list \<Rightarrow> bool" where
  "keyed xs = distinct (map fst xs)"

definition drop_key :: "'k \<Rightarrow> ('k \<times> 'c) list \<Rightarrow> ('k \<times> 'c) list" where
  "drop_key k xs = filter (\<lambda>(k', _). k' \<noteq> k) xs"

lemma costs_Nil [simp, costs_simps]: "costs [] = 0"
  and costs_Cons [simp, costs_simps]: "costs (x # xs) = snd x + costs xs"
  and costs_append [simp, costs_simps]: "costs (xs @ ys) = costs xs + costs ys"
  and costs_rev [simp, costs_simps]: "costs (rev xs) = costs xs"
  by (simp_all add: costs_def rev_map [symmetric] sum_list_rev)

lemma keyed_Nil [simp]: "keyed []"
  and keyed_Cons [simp]: "keyed (x # xs) \<longleftrightarrow> fst x \<notin> fst ` set xs \<and> keyed xs"
  and keyed_append [simp]: "keyed (xs @ ys) \<longleftrightarrow> keyed xs \<and> keyed ys \<and> fst ` set xs \<inter> fst ` set ys = {}"
  by (auto simp: keyed_def)

lemma keyed_rev [simp]: "keyed (rev xs) = keyed xs"
  by (simp add: keyed_def rev_map [symmetric])

lemma drop_key_Nil [simp]: "drop_key k [] = []"
  and drop_key_Cons [simp]: "drop_key k (x # xs) = (if fst x = k then drop_key k xs else x # drop_key k xs)"
  and drop_key_append [simp]: "drop_key k (xs @ ys) = drop_key k xs @ drop_key k ys"
  by (simp_all add: drop_key_def split_beta)

lemma set_drop_key [simp]: "set (drop_key k xs) = {x \<in> set xs. fst x \<noteq> k}"
  by (auto simp: drop_key_def)

lemma drop_key_absent [simp]: "k \<notin> fst ` set xs \<Longrightarrow> drop_key k xs = xs"
  by (induction xs) auto

lemma keyed_drop_key [simp]: "keyed xs \<Longrightarrow> keyed (drop_key k xs)"
  by (induction xs) auto

lemma fst_set_drop_key [simp]: "fst ` set (drop_key k xs) = fst ` set xs - {k}"
  by auto

lemma costs_drop_key:
  "keyed xs \<Longrightarrow> (k, c) \<in> set xs \<Longrightarrow> costs xs = c + costs (drop_key k xs)"
  by (induction xs) (force simp: image_iff)+

lemma costs_drop_key_le: "costs (drop_key k xs) \<le> costs xs"
  by (induction xs) auto

lemma keyed_eq_key: "keyed xs \<Longrightarrow> (k, c) \<in> set xs \<Longrightarrow> (k, d) \<in> set xs \<Longrightarrow> c = d"
  by (induction xs) (auto simp: image_iff)

lemma drop_key_split:
  "keyed (xs @ (k, c) # ys) \<Longrightarrow> drop_key k (xs @ (k, c) # ys) = xs @ ys"
  by auto

lemma cost_le_costs: "(k, c) \<in> set xs \<Longrightarrow> c \<le> costs xs"
  by (induction xs) auto

lemma map_of_keyed_append:
  "keyed (xs @ (k, c) # ys) \<Longrightarrow> map_of (xs @ (k, c) # ys) k = Some c"
  by (auto simp: map_add_def split: option.splits dest!: map_of_SomeD) force

lemma map_of_drop_key [simp]: "map_of (drop_key k xs) k' = (if k' = k then None else map_of xs k')"
  by (induction xs) auto

lemma map_of_eq_Some_keyed: "keyed xs \<Longrightarrow> map_of xs k = Some c \<longleftrightarrow> (k, c) \<in> set xs"
  by (simp add: keyed_def)

text \<open>The keys of a list as an opaque set, for arguments that only compare key sets.\<close>

definition keys :: "('k \<times> 'c) list \<Rightarrow> 'k set" where
  "keys xs = fst ` set xs"

lemma keys_simps [simp]:
  "keys [] = {}" "keys (x # xs) = insert (fst x) (keys xs)" "keys (xs @ ys) = keys xs \<union> keys ys"
  "keys (drop_key k xs) = keys xs - {k}" "finite (keys xs)"
  by (auto simp: keys_def)

lemma keyed_keys: "keyed (x # xs) \<longleftrightarrow> fst x \<notin> keys xs \<and> keyed xs"
  "keyed (xs @ ys) \<longleftrightarrow> keyed xs \<and> keyed ys \<and> keys xs \<inter> keys ys = {}"
  by (auto simp: keys_def)

lemma map_of_None_keys: "map_of xs k = None \<longleftrightarrow> k \<notin> keys xs"
  by (simp add: map_of_eq_None_iff keys_def)

lemma map_of_keysE: "k \<in> keys xs \<Longrightarrow> (\<And>c. map_of xs k = Some c \<Longrightarrow> thesis) \<Longrightarrow> thesis"
  using map_of_None_keys [of xs k] by (cases "map_of xs k") simp_all

lemma drop_key_keys [simp]: "k \<notin> keys xs \<Longrightarrow> drop_key k xs = xs"
  by (simp add: keys_def)

end
