(* ===== verification/Dll.thy ===== *)
theory Dll
  imports Prelude
begin

section \<open>Doubly linked lists over pointer functions\<close>

text \<open>
  The repository links nodes by hand in several places: \<^verbatim>\<open>LruList\<close> and \<^verbatim>\<open>TimerWheel\<close> over a
  generational arena, \<^verbatim>\<open>Slab\<close> over vectors of \<^verbatim>\<open>u32\<close> links, \<^verbatim>\<open>WaitList\<close> over raw pointers. This
  theory states once what such a list is: a next function and a previous function, each a chain,
  one the reverse of the other, with a head and a tail. The two pointer surgeries the code
  performs, unlinking a node and linking one at the front, are lemmas about a single chain, used
  for the next chain and, on the reversed list, for the previous chain.
\<close>

fun chain :: "('i \<Rightarrow> 'i option) \<Rightarrow> 'i list \<Rightarrow> bool" where
  "chain f [] = True"
| "chain f (x # xs) = (f x = first xs \<and> chain f xs)"

definition dll :: "('i \<Rightarrow> 'i option) \<Rightarrow> ('i \<Rightarrow> 'i option) \<Rightarrow> 'i option \<Rightarrow> 'i option \<Rightarrow> 'i list \<Rightarrow> bool" where
  "dll nxt prv h t xs \<longleftrightarrow>
     distinct xs \<and> h = first xs \<and> t = final xs \<and> chain nxt xs \<and> chain prv (rev xs)"

subsection \<open>One chain\<close>

lemma chain_append: "chain f (xs @ ys) \<Longrightarrow> chain f ys"
  by (induction xs) auto

lemma chain_link: "chain f (xs @ i # ys) \<Longrightarrow> f i = first ys"
  using chain_append by fastforce

lemma chain_cong: "(\<And>x. x \<in> set xs \<Longrightarrow> f x = g x) \<Longrightarrow> chain f xs = chain g xs"
  by (induction xs) auto

lemma chain_upd [simp]: "i \<notin> set xs \<Longrightarrow> chain (f(i := v)) xs = chain f xs"
  by (rule chain_cong) auto

lemma chain_unlink:
  assumes "distinct (xs @ i # ys)" "chain f (xs @ i # ys)" "xs \<noteq> []"
  shows "chain (f(last xs := f i)) (xs @ ys)"
  using assms
proof (induction xs)
  case Nil
  then show ?case by simp
next
  case (Cons x xs)
  show ?case
  proof (cases "xs = []")
    case True
    with Cons.prems show ?thesis by (simp del: fun_upd_apply) (simp add: fun_upd_apply)
  next
    case False
    with Cons.prems have IH: "chain (f(last xs := f i)) (xs @ ys)" and l: "last xs \<noteq> x"
      by (auto intro!: Cons.IH)
    from Cons.prems False have "f x = first (xs @ ys)"
      by (cases xs) simp_all
    with IH l False show ?thesis by (simp del: fun_upd_apply) (simp add: fun_upd_apply)
  qed
qed

lemma chain_push_back:
  assumes "chain f xs" "xs \<noteq> []" "distinct xs" "i \<notin> set xs"
  shows "chain (f(i := None, last xs := Some i)) (xs @ [i])"
  using assms
proof (induction xs)
  case Nil
  then show ?case by simp
next
  case (Cons x xs)
  show ?case
  proof (cases "xs = []")
    case True
    with Cons.prems show ?thesis by simp
  next
    case False
    with Cons.prems have IH: "chain (f(i := None, last xs := Some i)) (xs @ [i])"
      and l: "last xs \<noteq> x" "i \<noteq> x"
      by (auto intro!: Cons.IH)
    from Cons.prems False have "f x = first (xs @ [i])"
      by (cases xs) simp_all
    with IH l False show ?thesis by (simp del: fun_upd_apply) (simp add: fun_upd_apply)
  qed
qed

text \<open>A chain determines its list: the walk from the head is unique.\<close>

lemma chain_unique: "chain f xs \<Longrightarrow> chain f ys \<Longrightarrow> first xs = first ys \<Longrightarrow> xs = ys"
proof (induction xs arbitrary: ys)
  case Nil
  then show ?case by (cases ys) simp_all
next
  case (Cons x xs)
  then obtain ys' where ys: "ys = x # ys'" by (cases ys) simp_all
  with Cons.prems have "chain f ys'" "first xs = first ys'" by simp_all
  with Cons ys show ?case by simp
qed

subsection \<open>Both chains\<close>

lemma dll_Nil [simp]: "dll nxt prv h t [] \<longleftrightarrow> h = None \<and> t = None"
  by (simp add: dll_def)

lemma dll_next: "dll nxt prv h t (xs @ i # ys) \<Longrightarrow> nxt i = first ys"
  by (auto simp: dll_def dest: chain_link)

lemma dll_prev: "dll nxt prv h t (xs @ i # ys) \<Longrightarrow> prv i = final xs"
  using chain_link [of prv "rev ys" i "rev xs"] by (simp add: dll_def)

lemma dll_cong:
  assumes "\<And>x. x \<in> set xs \<Longrightarrow> nxt x = nxt' x" "\<And>x. x \<in> set xs \<Longrightarrow> prv x = prv' x"
  shows "dll nxt prv h t xs = dll nxt' prv' h t xs"
  using chain_cong [of xs nxt nxt'] chain_cong [of "rev xs" prv prv'] assms by (simp add: dll_def)

lemma dll_upd [simp]:
  "i \<notin> set xs \<Longrightarrow> dll (nxt(i := v)) prv h t xs = dll nxt prv h t xs"
  "i \<notin> set xs \<Longrightarrow> dll nxt (prv(i := v)) h t xs = dll nxt prv h t xs"
  by (simp_all add: dll_def)

lemma dll_unique: "dll nxt prv h t xs \<Longrightarrow> dll nxt prv' h t' ys \<Longrightarrow> xs = ys"
  by (auto simp: dll_def intro: chain_unique)

text \<open>The pointer surgery of every \<^verbatim>\<open>unlink\<close>: the neighbours, or the ends, are joined.\<close>

lemma unlink_chain:
  assumes "distinct (xs @ i # ys)" "chain f (xs @ i # ys)"
  shows "chain (case final xs of None \<Rightarrow> f | Some p \<Rightarrow> f(p := first ys)) (xs @ ys)"
proof (cases "xs = []")
  case True
  with assms show ?thesis by simp
next
  case False
  with assms chain_unlink [of xs i ys f] chain_link [of f xs i ys] show ?thesis
    by (simp add: final_def)
qed

lemma dll_unlink:
  assumes "dll nxt prv h t (xs @ i # ys)"
  shows "dll (case final xs of None \<Rightarrow> nxt | Some p \<Rightarrow> nxt(p := first ys))
           (case first ys of None \<Rightarrow> prv | Some q \<Rightarrow> prv(q := final xs))
           (if final xs = None then first ys else h) (if first ys = None then final xs else t) (xs @ ys)"
proof -
  from assms have "chain (case final xs of None \<Rightarrow> nxt | Some p \<Rightarrow> nxt(p := first ys)) (xs @ ys)"
    by (intro unlink_chain) (auto simp: dll_def)
  moreover have "chain (case first ys of None \<Rightarrow> prv | Some q \<Rightarrow> prv(q := final xs)) (rev ys @ rev xs)"
    using assms unlink_chain [of "rev ys" i "rev xs" prv, unfolded first_rev final_rev]
    by (auto simp: dll_def)
  ultimately show ?thesis
    using assms by (auto simp: dll_def first_append final_append final_Cons)
qed

text \<open>The pointer surgery of every \<^verbatim>\<open>push_front\<close>.\<close>

lemma dll_push_front:
  assumes "dll nxt prv h t xs" "i \<notin> set xs"
  shows "dll (nxt(i := h)) (case h of None \<Rightarrow> prv(i := None) | Some o' \<Rightarrow> prv(i := None, o' := Some i))
           (Some i) (if t = None then Some i else t) (i # xs)"
proof (cases xs)
  case Nil
  with assms show ?thesis by (simp add: dll_def final_Cons)
next
  case (Cons x ys)
  have "chain (prv(i := None, last (rev xs) := Some i)) (rev xs @ [i])"
    using assms Cons by (intro chain_push_back) (auto simp: dll_def)
  then show ?thesis
    using assms Cons by (auto simp: dll_def final_Cons)
qed

end
