(* ===== verification/Arena.thy ===== *)
theory Arena
  imports Prelude
begin

section \<open>The generational arena\<close>

text \<open>
  \<^verbatim>\<open>LruList\<close> and \<^verbatim>\<open>TimerWheel\<close> keep their nodes in an \<^verbatim>\<open>Arena\<close> of the crate
  \<^verbatim>\<open>generational-arena\<close>, which is not part of the repository. It is a parameter of the model:
  \<open>arena_ops\<close> holds the operations the sources call, and \<open>arena_laws\<close> states what its
  documentation promises of them. An \<^verbatim>\<open>Index\<close> that is not live reads as \<^verbatim>\<open>None\<close> (and panics
  through \<^verbatim>\<open>arena[index]\<close>); an insertion returns an index that is not live and changes no other
  index; a removal returns the value and kills that index only. \<open>arena_issued\<close> is a history
  variable for the generational part of the promise: an index once issued is never issued again,
  so a stale handle stays dead.
\<close>

record ('a, 'i, 't) arena_ops =
  arena_new :: 'a
  arena_insert :: "'a \<Rightarrow> 't \<Rightarrow> 'i \<times> 'a"
  arena_get :: "'a \<Rightarrow> 'i \<Rightarrow> 't option"
  arena_set :: "'a \<Rightarrow> 'i \<Rightarrow> 't \<Rightarrow> 'a"
  arena_remove :: "'a \<Rightarrow> 'i \<Rightarrow> 't option \<times> 'a"
  arena_clear :: "'a \<Rightarrow> 'a"
  arena_issued :: "'a \<Rightarrow> 'i set"

definition arena_laws :: "('a, 'i, 't) arena_ops \<Rightarrow> bool" where
  "arena_laws A \<longleftrightarrow>
     (\<forall>i. arena_get A (arena_new A) i = None) \<and>
     (\<forall>a t. arena_get A a (fst (arena_insert A a t)) = None \<and>
            arena_get A (snd (arena_insert A a t)) = (arena_get A a)(fst (arena_insert A a t) \<mapsto> t)) \<and>
     (\<forall>a i t. arena_get A a i \<noteq> None \<longrightarrow> arena_get A (arena_set A a i t) = (arena_get A a)(i \<mapsto> t)) \<and>
     (\<forall>a i. fst (arena_remove A a i) = arena_get A a i \<and>
            arena_get A (snd (arena_remove A a i)) = (arena_get A a)(i := None)) \<and>
     (\<forall>a i. arena_get A (arena_clear A a) i = None) \<and>
     (\<forall>a t. fst (arena_insert A a t) \<notin> arena_issued A a) \<and>
     (\<forall>a t. arena_issued A (snd (arena_insert A a t)) = insert (fst (arena_insert A a t)) (arena_issued A a)) \<and>
     (\<forall>a i t. arena_issued A (arena_set A a i t) = arena_issued A a) \<and>
     (\<forall>a i. arena_issued A (snd (arena_remove A a i)) = arena_issued A a) \<and>
     (\<forall>a. arena_issued A (arena_clear A a) = arena_issued A a) \<and>
     (\<forall>a i. arena_get A a i \<noteq> None \<longrightarrow> i \<in> arena_issued A a)"

lemma arena_lawsD:
  assumes "arena_laws A"
  shows "\<And>i. arena_get A (arena_new A) i = None"
    and "\<And>a t. arena_get A a (fst (arena_insert A a t)) = None"
    and "\<And>a t. arena_get A (snd (arena_insert A a t)) = (arena_get A a)(fst (arena_insert A a t) \<mapsto> t)"
    and "\<And>a i t. arena_get A a i \<noteq> None \<Longrightarrow> arena_get A (arena_set A a i t) = (arena_get A a)(i \<mapsto> t)"
    and "\<And>a i. fst (arena_remove A a i) = arena_get A a i"
    and "\<And>a i. arena_get A (snd (arena_remove A a i)) = (arena_get A a)(i := None)"
    and "\<And>a i. arena_get A (arena_clear A a) i = None"
    and "\<And>a t. fst (arena_insert A a t) \<notin> arena_issued A a"
    and "\<And>a t. arena_issued A (snd (arena_insert A a t)) = insert (fst (arena_insert A a t)) (arena_issued A a)"
    and "\<And>a i t. arena_issued A (arena_set A a i t) = arena_issued A a"
    and "\<And>a i. arena_issued A (snd (arena_remove A a i)) = arena_issued A a"
    and "\<And>a. arena_issued A (arena_clear A a) = arena_issued A a"
    and "\<And>a i. arena_get A a i \<noteq> None \<Longrightarrow> i \<in> arena_issued A a"
  using assms [unfolded arena_laws_def] by simp_all

lemmas arena_get_new = arena_lawsD(1)
  and arena_get_set = arena_lawsD(4)
  and arena_get_clear = arena_lawsD(7)
  and arena_issued_set = arena_lawsD(10)
  and arena_issued_clear = arena_lawsD(12)
  and arena_live_issued = arena_lawsD(13)

lemma arena_insertD:
  assumes "arena_laws A" "arena_insert A a t = (i, a')"
  shows "arena_get A a i = None" "arena_get A a' = (arena_get A a)(i \<mapsto> t)"
    "i \<notin> arena_issued A a" "arena_issued A a' = insert i (arena_issued A a)"
  using arena_lawsD(2,3,8,9) [OF assms(1), of a t] assms(2) by simp_all

lemma arena_removeD:
  assumes "arena_laws A" "arena_remove A a i = (r, a')"
  shows "r = arena_get A a i" "arena_get A a' = (arena_get A a)(i := None)"
    "arena_issued A a' = arena_issued A a"
  using arena_lawsD(5,6,11) [OF assms(1), of a i] assms(2) by simp_all

text \<open>
  An arena that keeps its promise by never reusing a slot. It shows that the laws can hold and
  runs the concrete examples; nothing else depends on it.
\<close>

definition vec_arena :: "('t option list, nat, 't) arena_ops" where
  "vec_arena =
     \<lparr>arena_new = [],
      arena_insert = (\<lambda>a t. (length a, a @ [Some t])),
      arena_get = (\<lambda>a i. if i < length a then a ! i else None),
      arena_set = (\<lambda>a i t. a[i := Some t]),
      arena_remove = (\<lambda>a i. (if i < length a then a ! i else None, a[i := None])),
      arena_clear = map (\<lambda>_. None),
      arena_issued = (\<lambda>a. {..<length a})\<rparr>"

lemma vec_arena_simps [simp]:
  "arena_new vec_arena = []"
  "arena_insert vec_arena a t = (length a, a @ [Some t])"
  "arena_get vec_arena a i = (if i < length a then a ! i else None)"
  "arena_set vec_arena a i t = a[i := Some t]"
  "arena_remove vec_arena a i = (if i < length a then a ! i else None, a[i := None])"
  "arena_clear vec_arena a = map (\<lambda>_. None) a"
  "arena_issued vec_arena a = {..<length a}"
  by (simp_all add: vec_arena_def)

lemma vec_arena_laws: "arena_laws vec_arena"
  unfolding arena_laws_def
  by (auto simp: fun_eq_iff nth_append nth_list_update split: if_splits)

end
