(* ===== verification/Lru_List.thy ===== *)
theory Lru_List
  imports Dll Arena
begin

section \<open>LruList: a cost-based recency list\<close>

text \<open>
  \<^verbatim>\<open>cache/src/policy/lru_list.rs\<close>. The list threads \<^verbatim>\<open>prev\<close>/\<^verbatim>\<open>next\<close> pointers through nodes of a
  generational arena and keeps a hash map from keys to node indexes beside it. The model is the
  pointer code itself, over an arbitrary arena \<open>A\<close>. \<^term>\<open>None\<close> is the panic of
  \<^verbatim>\<open>self.nodes[index]\<close> on a dead index or of an \<^verbatim>\<open>unwrap\<close>.

  The theorems say that it implements a list of \<open>(key, cost)\<close> pairs, most recent first: every
  operation on a well-formed list returns (no panic), stays well-formed, and does to the pairs
  what its comment says.
\<close>

record ('k, 'i) node =
  nd_key :: 'k
  nd_cost :: nat
  nd_next :: "'i option"
  nd_prev :: "'i option"

record ('a, 'i, 'k) lru_list =
  ll_nodes :: 'a
  ll_lookup :: "'k \<rightharpoonup> 'i"
  ll_head :: "'i option"
  ll_tail :: "'i option"
  ll_cost :: nat

type_synonym ('a, 'i, 'k) node_arena = "('a, 'i, ('k, 'i) node) arena_ops"

definition lru_new :: "('a, 'i, 'k) node_arena \<Rightarrow> ('a, 'i, 'k) lru_list" where
  "lru_new A = \<lparr>ll_nodes = arena_new A, ll_lookup = Map.empty, ll_head = None, ll_tail = None, ll_cost = 0\<rparr>"

text \<open>\<^verbatim>\<open>self.nodes[i]\<close> read and written.\<close>

definition node_at :: "('a, 'i, 'k) node_arena \<Rightarrow> 'i \<Rightarrow> ('a, 'i, 'k) lru_list \<Rightarrow> ('k, 'i) node option" where
  "node_at A i l = arena_get A (ll_nodes l) i"

definition node_update ::
  "('a, 'i, 'k) node_arena \<Rightarrow> 'i \<Rightarrow> (('k, 'i) node \<Rightarrow> ('k, 'i) node) \<Rightarrow> ('a, 'i, 'k) lru_list \<Rightarrow> ('a, 'i, 'k) lru_list option" where
  "node_update A i f l =
     do { nd \<leftarrow> node_at A i l; Some (l\<lparr>ll_nodes := arena_set A (ll_nodes l) i (f nd)\<rparr>) }"

text \<open>The two halves of \<^verbatim>\<open>unlink\<close>: the previous node (or the head) and the next node (or the tail).\<close>

definition join_prev :: "('a, 'i, 'k) node_arena \<Rightarrow> 'i option \<Rightarrow> 'i option \<Rightarrow> ('a, 'i, 'k) lru_list \<Rightarrow> ('a, 'i, 'k) lru_list option" where
  "join_prev A prev_node_idx next_node_idx l =
     (case prev_node_idx of
        Some prev_idx \<Rightarrow> node_update A prev_idx (nd_next_update (\<lambda>_. next_node_idx)) l
      | None \<Rightarrow> Some (l\<lparr>ll_head := next_node_idx\<rparr>))"

definition join_next :: "('a, 'i, 'k) node_arena \<Rightarrow> 'i option \<Rightarrow> 'i option \<Rightarrow> ('a, 'i, 'k) lru_list \<Rightarrow> ('a, 'i, 'k) lru_list option" where
  "join_next A prev_node_idx next_node_idx l =
     (case next_node_idx of
        Some next_idx \<Rightarrow> node_update A next_idx (nd_prev_update (\<lambda>_. prev_node_idx)) l
      | None \<Rightarrow> Some (l\<lparr>ll_tail := prev_node_idx\<rparr>))"

definition lru_unlink :: "('a, 'i, 'k) node_arena \<Rightarrow> 'i \<Rightarrow> ('a, 'i, 'k) lru_list \<Rightarrow> ('a, 'i, 'k) lru_list option" where
  "lru_unlink A index l =
     do { node \<leftarrow> node_at A index l;
          l \<leftarrow> join_prev A (nd_prev node) (nd_next node) l;
          join_next A (nd_prev node) (nd_next node) l }"

definition lru_push_front_node :: "('a, 'i, 'k) node_arena \<Rightarrow> 'i \<Rightarrow> ('a, 'i, 'k) lru_list \<Rightarrow> ('a, 'i, 'k) lru_list option" where
  "lru_push_front_node A index l =
     do { let old_head_idx = ll_head l;
          l \<leftarrow> node_update A index (nd_next_update (\<lambda>_. old_head_idx)) l;
          l \<leftarrow> node_update A index (nd_prev_update (\<lambda>_. None)) l;
          let l = l\<lparr>ll_head := Some index\<rparr>;
          l \<leftarrow> (case old_head_idx of
                  Some old_head \<Rightarrow> node_update A old_head (nd_prev_update (\<lambda>_. Some index)) l
                | None \<Rightarrow> Some l);
          Some (if ll_tail l = None then l\<lparr>ll_tail := Some index\<rparr> else l) }"

definition lru_contains :: "'k \<Rightarrow> ('a, 'i, 'k) lru_list \<Rightarrow> bool" where
  "lru_contains key l = (ll_lookup l key \<noteq> None)"

definition lru_current_total_cost :: "('a, 'i, 'k) lru_list \<Rightarrow> nat" where
  "lru_current_total_cost l = ll_cost l"

definition lru_touch_index :: "('a, 'i, 'k) node_arena \<Rightarrow> 'i \<Rightarrow> nat \<Rightarrow> ('a, 'i, 'k) lru_list \<Rightarrow> ('a, 'i, 'k) lru_list option" where
  "lru_touch_index A index cost l =
     do { nd \<leftarrow> node_at A index l;
          let l = l\<lparr>ll_cost := u64_add (saturating_sub (ll_cost l) (nd_cost nd)) cost\<rparr>;
          l \<leftarrow> node_update A index (nd_cost_update (\<lambda>_. cost)) l;
          (if ll_head l \<noteq> Some index
           then do { l \<leftarrow> lru_unlink A index l; lru_push_front_node A index l }
           else Some l) }"

definition lru_push_new :: "('a, 'i, 'k) node_arena \<Rightarrow> 'k \<Rightarrow> nat \<Rightarrow> ('a, 'i, 'k) lru_list \<Rightarrow> ('a, 'i, 'k) lru_list option" where
  "lru_push_new A key cost l =
     (let (index, nodes) =
            arena_insert A (ll_nodes l) \<lparr>nd_key = key, nd_cost = cost, nd_next = None, nd_prev = None\<rparr>;
          l = l\<lparr>ll_nodes := nodes\<rparr>;
          l = l\<lparr>ll_lookup := (ll_lookup l)(key \<mapsto> index)\<rparr>;
          l = l\<lparr>ll_cost := u64_add (ll_cost l) cost\<rparr>
      in lru_push_front_node A index l)"

definition lru_push_front :: "('a, 'i, 'k) node_arena \<Rightarrow> 'k \<Rightarrow> nat \<Rightarrow> ('a, 'i, 'k) lru_list \<Rightarrow> ('a, 'i, 'k) lru_list option" where
  "lru_push_front A key cost l =
     (case ll_lookup l key of
        Some index \<Rightarrow> lru_touch_index A index cost l
      | None \<Rightarrow> lru_push_new A key cost l)"

definition lru_move_to_front :: "('a, 'i, 'k) node_arena \<Rightarrow> 'k \<Rightarrow> ('a, 'i, 'k) lru_list \<Rightarrow> ('a, 'i, 'k) lru_list option" where
  "lru_move_to_front A key l =
     (case ll_lookup l key of
        Some index \<Rightarrow>
          (if ll_head l \<noteq> Some index
           then do { l \<leftarrow> lru_unlink A index l; lru_push_front_node A index l }
           else Some l)
      | None \<Rightarrow> Some l)"

definition lru_remove :: "('a, 'i, 'k) node_arena \<Rightarrow> 'k \<Rightarrow> ('a, 'i, 'k) lru_list \<Rightarrow> (nat option \<times> ('a, 'i, 'k) lru_list) option" where
  "lru_remove A key l =
     (case ll_lookup l key of
        Some index \<Rightarrow>
          do { let l = l\<lparr>ll_lookup := (ll_lookup l)(key := None)\<rparr>;
               l \<leftarrow> lru_unlink A index l;
               let (removed, nodes) = arena_remove A (ll_nodes l) index;
               node \<leftarrow> removed;
               let l = l\<lparr>ll_nodes := nodes, ll_cost := saturating_sub (ll_cost l) (nd_cost node)\<rparr>;
               Some (Some (nd_cost node), l) }
      | None \<Rightarrow> Some (None, l))"

definition lru_pop_back :: "('a, 'i, 'k) node_arena \<Rightarrow> ('a, 'i, 'k) lru_list \<Rightarrow> (('k \<times> nat) option \<times> ('a, 'i, 'k) lru_list) option" where
  "lru_pop_back A l =
     (case ll_tail l of
        Some tail_index \<Rightarrow>
          do { tail_node \<leftarrow> node_at A tail_index l;
               let key = nd_key tail_node;
               let cost = nd_cost tail_node;
               (_, l) \<leftarrow> lru_remove A key l;
               Some (Some (key, cost), l) }
      | None \<Rightarrow> Some (None, l))"

definition lru_clear :: "('a, 'i, 'k) node_arena \<Rightarrow> ('a, 'i, 'k) lru_list \<Rightarrow> ('a, 'i, 'k) lru_list" where
  "lru_clear A l =
     \<lparr>ll_nodes = arena_clear A (ll_nodes l), ll_lookup = Map.empty, ll_head = None, ll_tail = None, ll_cost = 0\<rparr>"

text \<open>
  The key at the tail, which \<^verbatim>\<open>SlruState::peek_lru\<close> and \<^verbatim>\<open>ArcPolicy::evict\<close> read through the fields:
  \<^verbatim>\<open>self.tail.map(|i| self.nodes[i].key)\<close>. The outer option is the panic.
\<close>

definition lru_tail_key :: "('a, 'i, 'k) node_arena \<Rightarrow> ('a, 'i, 'k) lru_list \<Rightarrow> 'k option option" where
  "lru_tail_key A l =
     (case ll_tail l of
        Some tail_idx \<Rightarrow> do { nd \<leftarrow> node_at A tail_idx l; Some (Some (nd_key nd)) }
      | None \<Rightarrow> Some None)"


subsection \<open>The pointers of a list\<close>

definition nget :: "('a, 'i, 'k) node_arena \<Rightarrow> ('a, 'i, 'k) lru_list \<Rightarrow> 'i \<rightharpoonup> ('k, 'i) node" where
  "nget A l = arena_get A (ll_nodes l)"

definition nx :: "('i \<rightharpoonup> ('k, 'i) node) \<Rightarrow> 'i \<Rightarrow> 'i option" where
  "nx g i = Option.bind (g i) nd_next"

definition pv :: "('i \<rightharpoonup> ('k, 'i) node) \<Rightarrow> 'i \<Rightarrow> 'i option" where
  "pv g i = Option.bind (g i) nd_prev"

definition pair_of :: "('k, 'i) node \<Rightarrow> 'k \<times> nat" where
  "pair_of nd = (nd_key nd, nd_cost nd)"

definition data :: "('i \<rightharpoonup> ('k, 'i) node) \<Rightarrow> 'i \<rightharpoonup> 'k \<times> nat" where
  "data g i = map_option pair_of (g i)"

lemma node_at_nget [simp]: "node_at A i l = nget A l i"
  by (simp add: node_at_def nget_def)

lemma nget_updates [simp]:
  "nget A (l\<lparr>ll_head := h\<rparr>) = nget A l"
  "nget A (l\<lparr>ll_tail := t\<rparr>) = nget A l"
  "nget A (l\<lparr>ll_cost := c\<rparr>) = nget A l"
  "nget A (l\<lparr>ll_lookup := m\<rparr>) = nget A l"
  by (simp_all add: nget_def)

lemma node_update_Some:
  assumes "arena_laws A" "nget A l i = Some nd"
  obtains l' where "node_update A i f l = Some l'" "nget A l' = (nget A l)(i \<mapsto> f nd)"
    "ll_head l' = ll_head l" "ll_tail l' = ll_tail l" "ll_lookup l' = ll_lookup l" "ll_cost l' = ll_cost l"
  using assms by (auto simp: node_update_def nget_def arena_get_set)

lemma ptr_simps [simp]:
  "nx (g(i \<mapsto> nd)) = (nx g)(i := nd_next nd)"
  "pv (g(i \<mapsto> nd)) = (pv g)(i := nd_prev nd)"
  "data (g(i \<mapsto> nd)) = (data g)(i \<mapsto> pair_of nd)"
  by (auto simp: fun_eq_iff nx_def pv_def data_def)

lemma ptr_del [simp]:
  "nx (g(i := None)) = (nx g)(i := None)"
  "pv (g(i := None)) = (pv g)(i := None)"
  "data (g(i := None)) = (data g)(i := None)"
  by (auto simp: fun_eq_iff nx_def pv_def data_def)

lemma ptr_Some [simp]:
  "g i = Some nd \<Longrightarrow> nx g i = nd_next nd"
  "g i = Some nd \<Longrightarrow> pv g i = nd_prev nd"
  "g i = Some nd \<Longrightarrow> data g i = Some (pair_of nd)"
  by (simp_all add: nx_def pv_def data_def)

lemma ptr_idem [simp]:
  "g i = Some nd \<Longrightarrow> (nx g)(i := nd_next nd) = nx g"
  "g i = Some nd \<Longrightarrow> (pv g)(i := nd_prev nd) = pv g"
  "g i = Some nd \<Longrightarrow> (data g)(i \<mapsto> pair_of nd) = data g"
  by (rule fun_upd_idem, simp)+

lemma pair_of_updates [simp]:
  "pair_of (nd\<lparr>nd_next := n\<rparr>) = pair_of nd"
  "pair_of (nd\<lparr>nd_prev := p\<rparr>) = pair_of nd"
  "pair_of (nd\<lparr>nd_cost := c\<rparr>) = (nd_key nd, c)"
  by (simp_all add: pair_of_def)

lemma data_None [simp]: "data g i = None \<longleftrightarrow> g i = None"
  by (simp add: data_def)

text \<open>A node's neighbours are live when the nodes of its list are.\<close>

definition live_list :: "('a, 'i, 'k) node_arena \<Rightarrow> ('a, 'i, 'k) lru_list \<Rightarrow> 'i list \<Rightarrow> bool" where
  "live_list A l is \<longleftrightarrow>
     dll (nx (nget A l)) (pv (nget A l)) (ll_head l) (ll_tail l) is \<and> set is \<subseteq> dom (nget A l)"

lemma live_list_dll: "live_list A l is \<Longrightarrow> dll (nx (nget A l)) (pv (nget A l)) (ll_head l) (ll_tail l) is"
  by (simp add: live_list_def)

lemma live_listE:
  assumes "live_list A l is" "i \<in> set is"
  obtains nd where "nget A l i = Some nd"
  using assms by (auto simp: live_list_def)

text \<open>\<^verbatim>\<open>unlink\<close> performs the pointer surgery and touches neither keys nor costs.\<close>

definition same_rest :: "('a, 'i, 'k) node_arena \<Rightarrow> ('a, 'i, 'k) lru_list \<Rightarrow> ('a, 'i, 'k) lru_list \<Rightarrow> bool" where
  "same_rest A l l' \<longleftrightarrow>
     data (nget A l') = data (nget A l) \<and> ll_lookup l' = ll_lookup l \<and> ll_cost l' = ll_cost l"

lemma same_rest_refl [simp]: "same_rest A l l"
  by (simp add: same_rest_def)

lemma same_rest_trans: "same_rest A l m \<Longrightarrow> same_rest A m n \<Longrightarrow> same_rest A l n"
  by (simp add: same_rest_def)

lemma dom_data [simp]: "dom (data g) = dom g"
  by (auto simp: data_def)

lemma same_rest_dom: "same_rest A l l' \<Longrightarrow> dom (nget A l') = dom (nget A l)"
  by (metis dom_data same_rest_def)

lemma join_prev_ok:
  assumes "arena_laws A" and "\<And>q. p = Some q \<Longrightarrow> q \<in> dom (nget A l)"
  obtains l' where "join_prev A p n l = Some l'" "same_rest A l l'"
    "nx (nget A l') = (case p of None \<Rightarrow> nx (nget A l) | Some q \<Rightarrow> (nx (nget A l))(q := n))"
    "pv (nget A l') = pv (nget A l)" "ll_head l' = (if p = None then n else ll_head l)" "ll_tail l' = ll_tail l"
proof (cases p)
  case None
  then show ?thesis by (intro that [of "l\<lparr>ll_head := n\<rparr>"]) (simp_all add: join_prev_def same_rest_def)
next
  case (Some q)
  with assms obtain qd where qd: "nget A l q = Some qd" by auto
  with assms(1) obtain l' where l': "node_update A q (nd_next_update (\<lambda>_. n)) l = Some l'"
    "nget A l' = (nget A l)(q \<mapsto> qd\<lparr>nd_next := n\<rparr>)"
    "ll_head l' = ll_head l" "ll_tail l' = ll_tail l" "ll_lookup l' = ll_lookup l" "ll_cost l' = ll_cost l"
    by (rule node_update_Some)
  with Some qd show ?thesis
    by (intro that [of l']) (simp_all add: join_prev_def same_rest_def)
qed

lemma join_next_ok:
  assumes "arena_laws A" and "\<And>q. n = Some q \<Longrightarrow> q \<in> dom (nget A l)"
  obtains l' where "join_next A p n l = Some l'" "same_rest A l l'"
    "pv (nget A l') = (case n of None \<Rightarrow> pv (nget A l) | Some q \<Rightarrow> (pv (nget A l))(q := p))"
    "nx (nget A l') = nx (nget A l)" "ll_tail l' = (if n = None then p else ll_tail l)" "ll_head l' = ll_head l"
proof (cases n)
  case None
  then show ?thesis by (intro that [of "l\<lparr>ll_tail := p\<rparr>"]) (simp_all add: join_next_def same_rest_def)
next
  case (Some q)
  with assms obtain qd where qd: "nget A l q = Some qd" by auto
  with assms(1) obtain l' where l': "node_update A q (nd_prev_update (\<lambda>_. p)) l = Some l'"
    "nget A l' = (nget A l)(q \<mapsto> qd\<lparr>nd_prev := p\<rparr>)"
    "ll_head l' = ll_head l" "ll_tail l' = ll_tail l" "ll_lookup l' = ll_lookup l" "ll_cost l' = ll_cost l"
    by (rule node_update_Some)
  with Some qd show ?thesis
    by (intro that [of l']) (simp_all add: join_next_def same_rest_def)
qed

lemma lru_unlink_ok:
  assumes A: "arena_laws A" and live: "live_list A l (xs @ i # ys)"
  obtains l' where "lru_unlink A i l = Some l'" "live_list A l' (xs @ ys)" "same_rest A l l'"
proof -
  note D = live_list_dll [OF live]
  from live obtain nd where nd: "nget A l i = Some nd" by (auto simp: live_list_def)
  have n: "nd_next nd = first ys" and p: "nd_prev nd = final xs"
    using dll_next [OF D] dll_prev [OF D] nd by simp_all
  have lp: "q \<in> dom (nget A l)" if "final xs = Some q" for q
    using that live by (auto simp: live_list_def dest!: final_SomeD)
  have ln: "q \<in> dom (nget A l)" if "first ys = Some q" for q
    using that live by (cases ys) (auto simp: live_list_def)
  from A lp obtain l1 where l1: "join_prev A (final xs) (first ys) l = Some l1" "same_rest A l l1"
    "nx (nget A l1) = (case final xs of None \<Rightarrow> nx (nget A l) | Some q \<Rightarrow> (nx (nget A l))(q := first ys))"
    "pv (nget A l1) = pv (nget A l)" "ll_head l1 = (if final xs = None then first ys else ll_head l)"
    "ll_tail l1 = ll_tail l"
    by (rule join_prev_ok)
  from ln l1(2) have ln1: "q \<in> dom (nget A l1)" if "first ys = Some q" for q
    using that by (simp add: same_rest_dom)
  with A obtain l2 where l2: "join_next A (final xs) (first ys) l1 = Some l2" "same_rest A l1 l2"
    "pv (nget A l2) = (case first ys of None \<Rightarrow> pv (nget A l1) | Some q \<Rightarrow> (pv (nget A l1))(q := final xs))"
    "nx (nget A l2) = nx (nget A l1)" "ll_tail l2 = (if first ys = None then final xs else ll_tail l1)"
    "ll_head l2 = ll_head l1"
    by (rule join_next_ok)
  from l1(2) l2(2) have same: "same_rest A l l2" by (rule same_rest_trans)
  have "dll (nx (nget A l2)) (pv (nget A l2)) (ll_head l2) (ll_tail l2) (xs @ ys)"
    using dll_unlink [OF D] by (simp only: l1 l2)
  then have "live_list A l2 (xs @ ys)"
    using live same by (auto simp: live_list_def same_rest_dom)
  moreover from nd n p l1(1) l2(1) have "lru_unlink A i l = Some l2" by (simp add: lru_unlink_def)
  ultimately show thesis using same that by blast
qed

lemma lru_push_front_node_ok:
  assumes A: "arena_laws A" and live: "live_list A l is" and i: "i \<notin> set is" "i \<in> dom (nget A l)"
  obtains l' where "lru_push_front_node A i l = Some l'" "live_list A l' (i # is)" "same_rest A l l'"
proof -
  note D = live_list_dll [OF live]
  from i obtain nd where nd: "nget A l i = Some nd" by auto
  from A nd obtain l1 where l1: "node_update A i (nd_next_update (\<lambda>_. ll_head l)) l = Some l1"
    "nget A l1 = (nget A l)(i \<mapsto> nd\<lparr>nd_next := ll_head l\<rparr>)"
    "ll_head l1 = ll_head l" "ll_tail l1 = ll_tail l" "ll_lookup l1 = ll_lookup l" "ll_cost l1 = ll_cost l"
    by (rule node_update_Some)
  from l1(2) have "nget A l1 i = Some (nd\<lparr>nd_next := ll_head l\<rparr>)" by simp
  with A obtain l2 where l2: "node_update A i (nd_prev_update (\<lambda>_. None)) l1 = Some l2"
    "nget A l2 = (nget A l1)(i \<mapsto> nd\<lparr>nd_next := ll_head l, nd_prev := None\<rparr>)"
    "ll_head l2 = ll_head l1" "ll_tail l2 = ll_tail l1" "ll_lookup l2 = ll_lookup l1" "ll_cost l2 = ll_cost l1"
    by (rule node_update_Some)
  have g2: "nget A l2 = (nget A l)(i \<mapsto> nd\<lparr>nd_next := ll_head l, nd_prev := None\<rparr>)"
    using l1 l2 by simp
  define l3 where "l3 = l2\<lparr>ll_head := Some i\<rparr>"
  define k where "k = (case ll_head l of Some q \<Rightarrow> node_update A q (nd_prev_update (\<lambda>_. Some i)) l3 | None \<Rightarrow> Some l3)"
  have "\<exists>l4. k = Some l4 \<and> nx (nget A l4) = nx (nget A l2) \<and>
        pv (nget A l4) = (case ll_head l of None \<Rightarrow> pv (nget A l2) | Some q \<Rightarrow> (pv (nget A l2))(q := Some i)) \<and>
        same_rest A l l4 \<and> ll_head l4 = Some i \<and> ll_tail l4 = ll_tail l"
  proof (cases "ll_head l")
    case None
    with l1 l2 nd g2 show ?thesis by (simp add: k_def l3_def same_rest_def)
  next
    case (Some q)
    with D have q: "q \<in> set is" by (cases "is") (auto simp: dll_def)
    with live obtain qd where "nget A l q = Some qd" by (rule live_listE)
    with q i g2 have qd: "nget A l3 q = Some qd" and qi: "q \<noteq> i" and qd': "nget A l q = Some qd"
      by (auto simp: l3_def)
    have idem: "(nx (nget A l))(i := Some q, q := nd_next qd) = (nx (nget A l))(i := Some q)"
      using qi qd' by (intro fun_upd_idem) simp
    from A qd obtain l4 where "node_update A q (nd_prev_update (\<lambda>_. Some i)) l3 = Some l4"
      "nget A l4 = (nget A l3)(q \<mapsto> qd\<lparr>nd_prev := Some i\<rparr>)"
      "ll_head l4 = ll_head l3" "ll_tail l4 = ll_tail l3" "ll_lookup l4 = ll_lookup l3" "ll_cost l4 = ll_cost l3"
      by (rule node_update_Some)
    with Some nd l1 l2 g2 idem qd' show ?thesis by (simp add: k_def l3_def same_rest_def)
  qed
  then obtain l4 where l4: "k = Some l4" "nx (nget A l4) = nx (nget A l2)"
    "pv (nget A l4) = (case ll_head l of None \<Rightarrow> pv (nget A l2) | Some q \<Rightarrow> (pv (nget A l2))(q := Some i))"
    "same_rest A l l4" "ll_head l4 = Some i" "ll_tail l4 = ll_tail l"
    by blast
  define l5 where "l5 = (if ll_tail l4 = None then l4\<lparr>ll_tail := Some i\<rparr> else l4)"
  have "lru_push_front_node A i l = Some l5"
    using l1(1) l2(1) l4(1) [unfolded k_def l3_def]
    by (simp add: lru_push_front_node_def l5_def Let_def)
  moreover have "same_rest A l l5" using l4(4) by (simp add: l5_def same_rest_def)
  moreover have "live_list A l5 (i # is)"
    using dll_push_front [OF D i(1)] l4(2,3,5,6) same_rest_dom [OF l4(4)] g2 live i(2)
    by (auto simp: live_list_def l5_def split: option.splits)
  ultimately show thesis using that by blast
qed


subsection \<open>The list of keys and costs it stands for\<close>

text \<open>
  \<open>lru_rep A l xs\<close>: the structure \<open>l\<close> stands for the pairs \<open>xs\<close>, most recent first.
  The index list \<open>is\<close> is the walk along the next pointers; the arena holds those nodes and no
  others, the hash map sends each key to its node, and the running total is the sum of the costs.
\<close>

definition lru_rep_at :: "('a, 'i, 'k) node_arena \<Rightarrow> ('a, 'i, 'k) lru_list \<Rightarrow> 'i list \<Rightarrow> ('k \<times> nat) list \<Rightarrow> bool" where
  "lru_rep_at A l is xs \<longleftrightarrow>
     live_list A l is \<and> dom (nget A l) \<subseteq> set is \<and>
     map Some xs = map (data (nget A l)) is \<and> keyed xs \<and>
     (\<forall>k i. ll_lookup l k = Some i \<longleftrightarrow> (\<exists>c. data (nget A l) i = Some (k, c))) \<and>
     ll_cost l = costs xs \<and> costs xs < 2 ^ 64"

definition lru_rep :: "('a, 'i, 'k) node_arena \<Rightarrow> ('a, 'i, 'k) lru_list \<Rightarrow> ('k \<times> nat) list \<Rightarrow> bool" where
  "lru_rep A l xs \<longleftrightarrow> (\<exists>is. lru_rep_at A l is xs)"

lemma lru_rep_atD:
  assumes "lru_rep_at A l is xs"
  shows "live_list A l is" "dom (nget A l) = set is" "map Some xs = map (data (nget A l)) is"
    "keyed xs" "\<And>k i. ll_lookup l k = Some i \<longleftrightarrow> (\<exists>c. data (nget A l) i = Some (k, c))"
    "ll_cost l = costs xs" "costs xs < 2 ^ 64" "distinct is"
  using assms by (auto simp: lru_rep_at_def live_list_def dll_def)

text \<open>The pairs are determined by the structure.\<close>

lemma lru_rep_unique: "lru_rep A l xs \<Longrightarrow> lru_rep A l ys \<Longrightarrow> xs = ys"
proof -
  assume "lru_rep A l xs" "lru_rep A l ys"
  then obtain "is" js where i: "lru_rep_at A l is xs" "lru_rep_at A l js ys" by (auto simp: lru_rep_def)
  then have "is = js" by (auto simp: lru_rep_at_def live_list_def dest: dll_unique)
  with i have "map Some xs = map Some ys" by (simp add: lru_rep_at_def)
  then show ?thesis by (simp add: inj_map_eq_map)
qed

text \<open>Splitting the indexes and the pairs at a key.\<close>

lemma map_Some_split:
  assumes "map Some xs = map f is" "i \<in> set is"
  obtains is1 is2 xs1 x xs2 where "is = is1 @ i # is2" "xs = xs1 @ x # xs2"
    "map Some xs1 = map f is1" "f i = Some x" "map Some xs2 = map f is2"
proof -
  from assms(2) obtain is1 is2 where i: "is = is1 @ i # is2" by (auto dest: split_list)
  with assms(1) have "map Some xs = map f is1 @ f i # map f is2" by simp
  then obtain u v where u: "xs = u @ v" "map Some u = map f is1" "map Some v = f i # map f is2"
    by (auto simp: map_eq_append_conv)
  then obtain x w where "v = x # w" "f i = Some x" "map Some w = map f is2" by auto
  with u i that show thesis by simp
qed

lemma lru_rep_at_find:
  assumes "lru_rep_at A l is xs" "ll_lookup l k = Some i"
  obtains is1 is2 xs1 c xs2 where "is = is1 @ i # is2" "xs = xs1 @ (k, c) # xs2"
    "data (nget A l) i = Some (k, c)"
    "map Some xs1 = map (data (nget A l)) is1" "map Some xs2 = map (data (nget A l)) is2"
proof -
  note R = lru_rep_atD [OF assms(1)]
  from assms(2) obtain c where c: "data (nget A l) i = Some (k, c)" using R(5) by blast
  then have "i \<in> dom (data (nget A l))" by blast
  then have "i \<in> set is" by (simp add: R(2))
  with R(3) obtain is1 is2 xs1 x xs2 where "is = is1 @ i # is2" "xs = xs1 @ x # xs2"
    "map Some xs1 = map (data (nget A l)) is1" "data (nget A l) i = Some x"
    "map Some xs2 = map (data (nget A l)) is2"
    by (rule map_Some_split)
  with c that show thesis by auto
qed

lemma lru_lookup_iff: "lru_rep A l xs \<Longrightarrow> ll_lookup l k \<noteq> None \<longleftrightarrow> k \<in> fst ` set xs"
proof
  assume R: "lru_rep A l xs"
  then obtain "is" where R: "lru_rep_at A l is xs" by (auto simp: lru_rep_def)
  {
    assume "ll_lookup l k \<noteq> None"
    then obtain i where "ll_lookup l k = Some i" by auto
    with R show "k \<in> fst ` set xs" by (rule lru_rep_at_find) force
  }
  {
    assume "k \<in> fst ` set xs"
    then obtain c where "(k, c) \<in> set xs" by auto
    then have "Some (k, c) \<in> set (map (data (nget A l)) is)"
      using lru_rep_atD(3) [OF R] by (metis image_eqI set_map)
    then obtain i where "data (nget A l) i = Some (k, c)" by auto
    then have "ll_lookup l k = Some i" using lru_rep_atD(5) [OF R] by blast
    then show "ll_lookup l k \<noteq> None" by simp
  }
qed

lemma lru_contains_iff [simp]: "lru_rep A l xs \<Longrightarrow> lru_contains k l \<longleftrightarrow> k \<in> fst ` set xs"
  using lru_lookup_iff by (fastforce simp: lru_contains_def)

lemma lru_cost_eq [simp]: "lru_rep A l xs \<Longrightarrow> lru_current_total_cost l = costs xs"
  by (auto simp: lru_rep_def lru_rep_at_def lru_current_total_cost_def)

lemma lru_rep_keyed: "lru_rep A l xs \<Longrightarrow> keyed xs"
  and lru_rep_fits: "lru_rep A l xs \<Longrightarrow> costs xs < 2 ^ 64"
  by (auto simp: lru_rep_def lru_rep_at_def)

subsection \<open>Every operation refines its list operation\<close>

lemma lru_new_rep: "arena_laws A \<Longrightarrow> lru_rep A (lru_new A) []"
  by (auto simp: lru_rep_def lru_rep_at_def lru_new_def live_list_def nget_def arena_get_new data_def)

lemma lru_clear_rep: "arena_laws A \<Longrightarrow> lru_rep A (lru_clear A l) []"
  by (auto simp: lru_rep_def lru_rep_at_def lru_clear_def live_list_def nget_def arena_get_clear data_def)

text \<open>Moving a node to the front, shared by \<^verbatim>\<open>touch_index\<close> and \<^verbatim>\<open>move_to_front\<close>.\<close>

lemma lru_to_front_ok:
  assumes A: "arena_laws A" and live: "live_list A l (is1 @ i # is2)"
  obtains l' where
    "(if ll_head l \<noteq> Some i then do { l \<leftarrow> lru_unlink A i l; lru_push_front_node A i l } else Some l) = Some l'"
    "live_list A l' (i # is1 @ is2)" "same_rest A l l'"
proof (cases "ll_head l = Some i")
  case True
  with live have "is1 = []" by (cases is1) (auto simp: live_list_def dll_def)
  with True live that show ?thesis by simp
next
  case False
  from A live obtain l1 where l1: "lru_unlink A i l = Some l1" "live_list A l1 (is1 @ is2)" "same_rest A l l1"
    by (rule lru_unlink_ok)
  have "i \<notin> set (is1 @ is2)" using live by (auto simp: live_list_def dll_def)
  moreover have "i \<in> dom (nget A l1)" using live same_rest_dom [OF l1(3)] by (auto simp: live_list_def)
  ultimately obtain l2 where "lru_push_front_node A i l1 = Some l2" "live_list A l2 (i # is1 @ is2)" "same_rest A l1 l2"
    by (rule lru_push_front_node_ok [OF A l1(2)])
  with l1 False that show ?thesis by (auto intro: same_rest_trans)
qed


lemma lru_rep_move:
  assumes "lru_rep_at A l (is1 @ i # is2) (xs1 @ x # xs2)" "length is1 = length xs1"
    and "live_list A l' (i # is1 @ is2)" "same_rest A l l'"
  shows "lru_rep_at A l' (i # is1 @ is2) (x # xs1 @ xs2)"
proof -
  note R = lru_rep_atD [OF assms(1)]
  from R(3) assms(2) have "map Some (x # xs1 @ xs2) = map (data (nget A l)) (i # is1 @ is2)"
    by (auto simp: append_eq_append_conv)
  with R assms(3,4) same_rest_dom [OF assms(4)] show ?thesis
    by (auto simp: lru_rep_at_def same_rest_def)
qed

lemma lru_move_to_front_rep:
  assumes A: "arena_laws A" and R: "lru_rep A l xs"
  obtains l' where "lru_move_to_front A k l = Some l'"
    "lru_rep A l' (case map_of xs k of None \<Rightarrow> xs | Some c \<Rightarrow> (k, c) # drop_key k xs)"
proof (cases "ll_lookup l k")
  case None
  then have "k \<notin> fst ` set xs" using lru_lookup_iff [OF R, of k] by simp
  with None R that [of l] show ?thesis by (simp add: lru_move_to_front_def map_of_eq_None_iff [THEN iffD2])
next
  case (Some i)
  from R obtain "is" where R: "lru_rep_at A l is xs" by (auto simp: lru_rep_def)
  from R Some obtain is1 is2 xs1 c xs2 where s: "is = is1 @ i # is2" "xs = xs1 @ (k, c) # xs2"
    "data (nget A l) i = Some (k, c)" "map Some xs1 = map (data (nget A l)) is1" "map Some xs2 = map (data (nget A l)) is2"
    by (rule lru_rep_at_find)
  from A lru_rep_atD(1) [OF R] obtain l' where
    l': "(if ll_head l \<noteq> Some i then do { l \<leftarrow> lru_unlink A i l; lru_push_front_node A i l } else Some l) = Some l'"
    "live_list A l' (i # is1 @ is2)" "same_rest A l l'"
    unfolding s(1) by (rule lru_to_front_ok)
  from s(4) have "length is1 = length xs1" by (metis length_map)
  with R l' have "lru_rep_at A l' (i # is1 @ is2) ((k, c) # xs1 @ xs2)"
    unfolding s by (intro lru_rep_move)
  moreover from lru_rep_atD(4) [OF R] have "map_of xs k = Some c" "drop_key k xs = xs1 @ xs2"
    unfolding s by (rule map_of_keyed_append, rule drop_key_split)
  ultimately show ?thesis
    using Some l'(1) that [of l'] by (auto simp: lru_move_to_front_def lru_rep_def)
qed

text \<open>Writing a node's cost, the first half of \<^verbatim>\<open>touch_index\<close>.\<close>

lemma lru_set_cost_rep:
  assumes A: "arena_laws A" and R: "lru_rep_at A l (is1 @ i # is2) (xs1 @ (k, c) # xs2)" and len: "length is1 = length xs1"
    and fits: "costs (xs1 @ xs2) + cost < 2 ^ 64" and nd: "nget A l i = Some nd"
  obtains l' where
    "node_update A i (nd_cost_update (\<lambda>_. cost)) (l\<lparr>ll_cost := u64_add (saturating_sub (ll_cost l) (nd_cost nd)) cost\<rparr>) = Some l'"
    "lru_rep_at A l' (is1 @ i # is2) (xs1 @ (k, cost) # xs2)"
proof -
  note Rs = lru_rep_atD [OF R]
  let ?l = "l\<lparr>ll_cost := u64_add (saturating_sub (ll_cost l) (nd_cost nd)) cost\<rparr>"
  from len Rs(3) have m: "map Some xs1 = map (data (nget A l)) is1" "map Some xs2 = map (data (nget A l)) is2"
    and pair: "pair_of nd = (k, c)"
    using nd by (auto simp: append_eq_append_conv)
  from A nd obtain l' where l': "node_update A i (nd_cost_update (\<lambda>_. cost)) ?l = Some l'"
    "nget A l' = (nget A l)(i \<mapsto> nd\<lparr>nd_cost := cost\<rparr>)"
    "ll_head l' = ll_head l" "ll_tail l' = ll_tail l" "ll_lookup l' = ll_lookup l" "ll_cost l' = ll_cost ?l"
    using node_update_Some [of A ?l i nd] by auto
  have notin: "i \<notin> set is1" "i \<notin> set is2" using Rs(8) by auto
  have "map Some (xs1 @ (k, cost) # xs2) = map (data (nget A l')) (is1 @ i # is2)"
    using m notin pair by (auto simp: l'(2) pair_of_def)
  moreover have "live_list A l' (is1 @ i # is2)"
    using Rs(1) nd by (auto simp: live_list_def l')
  moreover have "ll_lookup l' k' = Some j \<longleftrightarrow> (\<exists>c'. data (nget A l') j = Some (k', c'))" for k' j
    using Rs(5) [of k' j] Rs(5) [of k' i] nd pair by (auto simp: l' pair_of_def)
  moreover have "ll_cost l' = costs (xs1 @ (k, cost) # xs2)"
    using Rs(6,7) fits pair by (simp add: l' saturating_sub_def pair_of_def)
  moreover have "dom (nget A l') \<subseteq> set (is1 @ i # is2)" using Rs(2) by (auto simp: l')
  moreover have "keyed (xs1 @ (k, cost) # xs2)" using Rs(4) by simp
  ultimately have "lru_rep_at A l' (is1 @ i # is2) (xs1 @ (k, cost) # xs2)"
    using fits unfolding lru_rep_at_def by simp
  with l'(1) that show thesis by blast
qed

lemma lru_touch_index_rep:
  assumes A: "arena_laws A" and R: "lru_rep A l xs" and k: "ll_lookup l k = Some i"
    and fits: "costs (drop_key k xs) + cost < 2 ^ 64"
  obtains l' where "lru_touch_index A i cost l = Some l'" "lru_rep A l' ((k, cost) # drop_key k xs)"
proof -
  from R obtain "is" where R: "lru_rep_at A l is xs" by (auto simp: lru_rep_def)
  from R k obtain is1 is2 xs1 c xs2 where s: "is = is1 @ i # is2" "xs = xs1 @ (k, c) # xs2"
    "data (nget A l) i = Some (k, c)" "map Some xs1 = map (data (nget A l)) is1" "map Some xs2 = map (data (nget A l)) is2"
    by (rule lru_rep_at_find)
  from s(3) obtain nd where nd: "nget A l i = Some nd" by (auto simp: data_def)
  from s(4) have len: "length is1 = length xs1" by (metis length_map)
  from lru_rep_atD(4) [OF R] have d: "drop_key k xs = xs1 @ xs2" unfolding s by (rule drop_key_split)
  with fits have "costs (xs1 @ xs2) + cost < 2 ^ 64" by simp
  with A R [unfolded s(1,2)] len obtain l1 where l1:
    "node_update A i (nd_cost_update (\<lambda>_. cost)) (l\<lparr>ll_cost := u64_add (saturating_sub (ll_cost l) (nd_cost nd)) cost\<rparr>) = Some l1"
    "lru_rep_at A l1 (is1 @ i # is2) (xs1 @ (k, cost) # xs2)"
    using nd by (rule lru_set_cost_rep)
  from A lru_rep_atD(1) [OF l1(2)] obtain l' where
    l': "(if ll_head l1 \<noteq> Some i then do { l \<leftarrow> lru_unlink A i l1; lru_push_front_node A i l } else Some l1) = Some l'"
    "live_list A l' (i # is1 @ is2)" "same_rest A l1 l'"
    by (rule lru_to_front_ok)
  from l1(2) len l'(2,3) have "lru_rep_at A l' (i # is1 @ is2) ((k, cost) # xs1 @ xs2)"
    by (rule lru_rep_move)
  moreover have "lru_touch_index A i cost l = Some l'"
    using nd l1(1) l'(1) by (simp add: lru_touch_index_def Let_def)
  ultimately show thesis using that d by (auto simp: lru_rep_def)
qed


lemma lru_push_new_rep:
  assumes A: "arena_laws A" and R: "lru_rep A l xs" and k: "k \<notin> fst ` set xs"
    and fits: "costs xs + cost < 2 ^ 64"
  obtains l' where "lru_push_new A k cost l = Some l'" "lru_rep A l' ((k, cost) # xs)"
proof -
  let ?nd = "\<lparr>nd_key = k, nd_cost = cost, nd_next = None, nd_prev = None\<rparr>"
  from R obtain "is" where R: "lru_rep_at A l is xs" by (auto simp: lru_rep_def)
  note Rs = lru_rep_atD [OF R]
  obtain i nodes where ins: "arena_insert A (ll_nodes l) ?nd = (i, nodes)" by (cases "arena_insert A (ll_nodes l) ?nd")
  define l1 where "l1 = l\<lparr>ll_nodes := nodes, ll_lookup := (ll_lookup l)(k \<mapsto> i), ll_cost := u64_add (ll_cost l) cost\<rparr>"
  from arena_insertD [OF A ins] have fresh: "nget A l i = None" and g1: "nget A l1 = (nget A l)(i \<mapsto> ?nd)"
    by (simp_all add: nget_def l1_def)
  have f1: "ll_head l1 = ll_head l" "ll_tail l1 = ll_tail l" "ll_lookup l1 = (ll_lookup l)(k \<mapsto> i)"
    "ll_cost l1 = u64_add (ll_cost l) cost" by (simp_all add: l1_def)
  from fresh Rs(2) have i: "i \<notin> set is" by (auto dest: domI)
  have "dll (nx (nget A l1)) (pv (nget A l1)) (ll_head l) (ll_tail l) is"
    using live_list_dll [OF Rs(1)] i by (simp add: g1)
  then have live: "live_list A l1 is"
    using Rs(1) by (auto simp: live_list_def f1 g1)
  obtain l' where l': "lru_push_front_node A i l1 = Some l'" "live_list A l' (i # is)" "same_rest A l1 l'"
    using A live i by (rule lru_push_front_node_ok) (simp add: g1)
  have look: "ll_lookup l k = None" using lru_lookup_iff [of A l xs k] k R by (auto simp: lru_rep_def)
  have "map Some ((k, cost) # xs) = map (data (nget A l1)) (i # is)"
    using i Rs(3) by (auto simp: g1 pair_of_def)
  moreover have "ll_lookup l1 k' = Some j \<longleftrightarrow> (\<exists>c. data (nget A l1) j = Some (k', c))" for k' j
    using Rs(5) [of k' j] Rs(5) [of k' i] fresh look by (auto simp: f1 g1 pair_of_def data_def)
  moreover have "dom (nget A l1) \<subseteq> set (i # is)" using Rs(2) by (auto simp: g1)
  ultimately have "lru_rep_at A l' (i # is) ((k, cost) # xs)"
    using l'(2,3) same_rest_dom [OF l'(3)] Rs(4,6,7) k fits
    by (simp add: lru_rep_at_def same_rest_def f1)
  moreover have "lru_push_new A k cost l = Some l'"
    using ins l'(1) by (simp add: lru_push_new_def l1_def Let_def)
  ultimately show thesis using that by (auto simp: lru_rep_def)
qed

lemma lru_push_front_rep:
  assumes A: "arena_laws A" and R: "lru_rep A l xs" and fits: "costs (drop_key k xs) + cost < 2 ^ 64"
  obtains l' where "lru_push_front A k cost l = Some l'" "lru_rep A l' ((k, cost) # drop_key k xs)"
proof (cases "ll_lookup l k")
  case None
  then have k: "k \<notin> fst ` set xs" using lru_lookup_iff [OF R, of k] by simp
  with A R fits obtain l' where "lru_push_new A k cost l = Some l'" "lru_rep A l' ((k, cost) # xs)"
    using lru_push_new_rep [of A l xs k cost] by auto
  with None k that show ?thesis by (simp add: lru_push_front_def)
next
  case (Some i)
  from A R Some fits obtain l' where "lru_touch_index A i cost l = Some l'" "lru_rep A l' ((k, cost) # drop_key k xs)"
    by (rule lru_touch_index_rep)
  with Some that show ?thesis by (simp add: lru_push_front_def)
qed

lemma lru_remove_rep:
  assumes A: "arena_laws A" and R: "lru_rep A l xs"
  obtains l' where "lru_remove A k l = Some (map_of xs k, l')" "lru_rep A l' (drop_key k xs)"
proof (cases "ll_lookup l k")
  case None
  then have "k \<notin> fst ` set xs" using lru_lookup_iff [OF R, of k] by simp
  with None R that [of l] show ?thesis by (simp add: lru_remove_def map_of_eq_None_iff [THEN iffD2])
next
  case (Some i)
  from R obtain "is" where R: "lru_rep_at A l is xs" by (auto simp: lru_rep_def)
  note Rs = lru_rep_atD [OF R]
  from R Some obtain is1 is2 xs1 c xs2 where s: "is = is1 @ i # is2" "xs = xs1 @ (k, c) # xs2"
    "data (nget A l) i = Some (k, c)" "map Some xs1 = map (data (nget A l)) is1" "map Some xs2 = map (data (nget A l)) is2"
    by (rule lru_rep_at_find)
  define l0 where "l0 = l\<lparr>ll_lookup := (ll_lookup l)(k := None)\<rparr>"
  have "live_list A l0 (is1 @ i # is2)" using Rs(1) by (simp add: l0_def live_list_def s)
  with A obtain l1 where l1: "lru_unlink A i l0 = Some l1" "live_list A l1 (is1 @ is2)" "same_rest A l0 l1"
    by (rule lru_unlink_ok)
  obtain removed nodes where rem: "arena_remove A (ll_nodes l1) i = (removed, nodes)" by fastforce
  from arena_removeD [OF A rem] have removed: "removed = nget A l1 i" by (simp add: nget_def)
  have d1: "data (nget A l1) = data (nget A l)" using l1(3) by (simp add: same_rest_def l0_def)
  with s(3) have "data (nget A l1) i = Some (k, c)" by simp
  then obtain nd where nd: "nget A l1 i = Some nd" "pair_of nd = (k, c)" by (auto simp: data_def)
  define l2 where "l2 = l1\<lparr>ll_nodes := nodes, ll_cost := saturating_sub (ll_cost l1) (nd_cost nd)\<rparr>"
  have g2: "nget A l2 = (nget A l1)(i := None)"
    using arena_removeD(2) [OF A rem] by (simp add: nget_def l2_def)
  have i: "i \<notin> set is1" "i \<notin> set is2" using Rs(8) s by auto
  have dom1: "dom (nget A l1) = set is" using same_rest_dom [OF l1(3)] Rs(2) by (simp add: l0_def)
  have f2: "ll_head l2 = ll_head l1" "ll_tail l2 = ll_tail l1" "ll_lookup l2 = (ll_lookup l)(k := None)"
    "ll_cost l2 = saturating_sub (ll_cost l) (nd_cost nd)"
    using l1(3) by (simp_all add: l2_def same_rest_def l0_def)
  have "live_list A l2 (is1 @ is2)"
    using l1(2) i by (auto simp: live_list_def g2 f2)
  moreover have d2: "data (nget A l2) = (data (nget A l))(i := None)" by (simp add: g2 d1)
  moreover have "map Some (xs1 @ xs2) = map (data (nget A l2)) (is1 @ is2)"
    using i s(4,5) by (simp add: d2)
  moreover have "ll_lookup l2 k' = Some j \<longleftrightarrow> (\<exists>c'. data (nget A l2) j = Some (k', c'))" for k' j
    using Rs(5) [of k' j] Rs(5) [of k j] Some s(3) by (auto simp: f2 d2)
  moreover have "ll_cost l2 = costs (xs1 @ xs2)"
    using Rs(6) nd(2) by (simp add: f2 s saturating_sub_def pair_of_def)
  ultimately have "lru_rep_at A l2 (is1 @ is2) (xs1 @ xs2)"
    using dom1 Rs(4,7) by (auto simp: lru_rep_at_def g2 s)
  moreover have "lru_remove A k l = Some (Some c, l2)"
    using Some l1(1) rem removed nd by (simp add: lru_remove_def l0_def l2_def pair_of_def Let_def)
  moreover from Rs(4) have "map_of xs k = Some c" "drop_key k xs = xs1 @ xs2"
    unfolding s by (rule map_of_keyed_append, rule drop_key_split)
  ultimately show ?thesis using that by (auto simp: lru_rep_def)
qed


lemma lru_tail_node:
  assumes "lru_rep A l xs"
  shows "ll_tail l = None \<longleftrightarrow> xs = []"
    and "ll_tail l = Some t \<Longrightarrow> \<exists>nd. nget A l t = Some nd \<and> final xs = Some (pair_of nd)"
proof -
  from assms obtain "is" where R: "lru_rep_at A l is xs" by (auto simp: lru_rep_def)
  note Rs = lru_rep_atD [OF R]
  have t: "ll_tail l = final is" using Rs(1) by (simp add: live_list_def dll_def)
  have len: "length xs = length is" using arg_cong [OF Rs(3), of length] by simp
  with t show "ll_tail l = None \<longleftrightarrow> xs = []" by (cases "is"; cases xs) simp_all
  assume "ll_tail l = Some t"
  with t have "final is = Some t" by simp
  from final_SomeD [OF this] obtain js where js: "is = js @ [t]" ..
  with len obtain ys y where ys: "xs = ys @ [y]" by (cases xs rule: rev_cases) auto
  with Rs(3) js have "data (nget A l) t = Some y" by simp
  then show "\<exists>nd. nget A l t = Some nd \<and> final xs = Some (pair_of nd)"
    by (auto simp: data_def ys)
qed

lemma lru_pop_back_rep:
  assumes A: "arena_laws A" and R: "lru_rep A l xs"
  obtains l' where "lru_pop_back A l = Some (final xs, l')" "lru_rep A l' (butlast xs)"
proof (cases "ll_tail l")
  case None
  with lru_tail_node(1) [OF R] R that show ?thesis by (simp add: lru_pop_back_def)
next
  case (Some t)
  with lru_tail_node(2) [OF R] obtain nd where nd: "nget A l t = Some nd" "final xs = Some (pair_of nd)" by blast
  then obtain ys where ys: "xs = ys @ [(nd_key nd, nd_cost nd)]" by (auto simp: pair_of_def dest: final_SomeD)
  from A R obtain l' where "lru_remove A (nd_key nd) l = Some (map_of xs (nd_key nd), l')"
    "lru_rep A l' (drop_key (nd_key nd) xs)" by (rule lru_remove_rep)
  moreover have "drop_key (nd_key nd) xs = butlast xs"
    using lru_rep_keyed [OF R] drop_key_split [of ys "nd_key nd" "nd_cost nd" "[]"] by (simp add: ys)
  ultimately show ?thesis using Some nd that by (simp add: lru_pop_back_def pair_of_def Let_def)
qed

lemma lru_tail_key_rep:
  assumes "lru_rep A l xs"
  shows "lru_tail_key A l = Some (map_option fst (final xs))"
proof (cases "ll_tail l")
  case None
  with lru_tail_node(1) [OF assms] show ?thesis by (simp add: lru_tail_key_def)
next
  case (Some t)
  with lru_tail_node(2) [OF assms] obtain nd where "nget A l t = Some nd" "final xs = Some (pair_of nd)" by blast
  with Some show ?thesis by (simp add: lru_tail_key_def pair_of_def)
qed

text \<open>The definitions of the list, to run concrete examples.\<close>

lemmas lru_list_defs = lru_new_def node_at_def node_update_def join_prev_def join_next_def lru_unlink_def
  lru_push_front_node_def lru_contains_def lru_current_total_cost_def lru_touch_index_def lru_push_new_def
  lru_push_front_def lru_move_to_front_def lru_remove_def lru_pop_back_def lru_clear_def lru_tail_key_def nget_def

subsection \<open>Sequences of operations\<close>

text \<open>
  The mutating operations as commands with their answers, run on the arena-linked list and on the
  plain list of pairs it stands for.
\<close>

datatype 'k lru_cmd = PushFront 'k nat | MoveToFront 'k | RemoveKey 'k | PopBack | ClearAll

datatype 'k lru_answer = Done | Removed "nat option" | Popped "('k \<times> nat) option"

fun lru_exec :: "('a, 'i, 'k) node_arena \<Rightarrow> 'k lru_cmd \<Rightarrow> ('a, 'i, 'k) lru_list \<Rightarrow> ('k lru_answer \<times> ('a, 'i, 'k) lru_list) option" where
  "lru_exec A (PushFront k c) l = do { l \<leftarrow> lru_push_front A k c l; Some (Done, l) }"
| "lru_exec A (MoveToFront k) l = do { l \<leftarrow> lru_move_to_front A k l; Some (Done, l) }"
| "lru_exec A (RemoveKey k) l = do { (r, l) \<leftarrow> lru_remove A k l; Some (Removed r, l) }"
| "lru_exec A PopBack l = do { (r, l) \<leftarrow> lru_pop_back A l; Some (Popped r, l) }"
| "lru_exec A ClearAll l = Some (Done, lru_clear A l)"

fun lru_run :: "('a, 'i, 'k) node_arena \<Rightarrow> 'k lru_cmd list \<Rightarrow> ('a, 'i, 'k) lru_list \<Rightarrow> ('k lru_answer list \<times> ('a, 'i, 'k) lru_list) option" where
  "lru_run A [] l = Some ([], l)"
| "lru_run A (c # cs) l = do { (r, l) \<leftarrow> lru_exec A c l; (rs, l) \<leftarrow> lru_run A cs l; Some (r # rs, l) }"

fun spec_exec :: "'k lru_cmd \<Rightarrow> ('k \<times> nat) list \<Rightarrow> 'k lru_answer \<times> ('k \<times> nat) list" where
  "spec_exec (PushFront k c) xs = (Done, (k, c) # drop_key k xs)"
| "spec_exec (MoveToFront k) xs =
     (Done, case map_of xs k of None \<Rightarrow> xs | Some c \<Rightarrow> (k, c) # drop_key k xs)"
| "spec_exec (RemoveKey k) xs = (Removed (map_of xs k), drop_key k xs)"
| "spec_exec PopBack xs = (Popped (final xs), butlast xs)"
| "spec_exec ClearAll xs = (Done, [])"

fun spec_run :: "'k lru_cmd list \<Rightarrow> ('k \<times> nat) list \<Rightarrow> 'k lru_answer list \<times> ('k \<times> nat) list" where
  "spec_run [] xs = ([], xs)"
| "spec_run (c # cs) xs = (let (r, ys) = spec_exec c xs; (rs, zs) = spec_run cs ys in (r # rs, zs))"

fun cmd_cost :: "'k lru_cmd \<Rightarrow> nat" where
  "cmd_cost (PushFront k c) = c"
| "cmd_cost _ = 0"

lemma costs_butlast_le: "costs (butlast xs) \<le> costs xs"
  by (cases xs rule: rev_cases) simp_all

lemma spec_exec_cost:
  assumes "keyed xs"
  shows "costs (snd (spec_exec c xs)) \<le> costs xs + cmd_cost c"
proof (cases c)
  case (MoveToFront k)
  then show ?thesis
    using assms costs_drop_key [of xs k] by (auto simp: map_of_eq_Some_keyed split: option.split)
qed (auto simp: costs_butlast_le intro: order_trans [OF costs_drop_key_le])

lemma lru_exec_rep:
  assumes A: "arena_laws A" and R: "lru_rep A l xs" and fits: "costs xs + cmd_cost c < 2 ^ 64"
  shows "\<exists>l'. lru_exec A c l = Some (fst (spec_exec c xs), l') \<and> lru_rep A l' (snd (spec_exec c xs))"
proof (cases c)
  case (PushFront k n)
  with fits have "costs (drop_key k xs) + n < 2 ^ 64" using costs_drop_key_le [of k xs] by simp
  with A R obtain l' where "lru_push_front A k n l = Some l'" "lru_rep A l' ((k, n) # drop_key k xs)"
    by (rule lru_push_front_rep)
  with PushFront show ?thesis by simp
next
  case (MoveToFront k)
  from A R obtain l' where "lru_move_to_front A k l = Some l'"
    "lru_rep A l' (case map_of xs k of None \<Rightarrow> xs | Some c \<Rightarrow> (k, c) # drop_key k xs)" by (rule lru_move_to_front_rep)
  with MoveToFront show ?thesis by simp
next
  case (RemoveKey k)
  from A R obtain l' where "lru_remove A k l = Some (map_of xs k, l')" "lru_rep A l' (drop_key k xs)"
    by (rule lru_remove_rep)
  with RemoveKey show ?thesis by simp
next
  case PopBack
  from A R obtain l' where "lru_pop_back A l = Some (final xs, l')" "lru_rep A l' (butlast xs)"
    by (rule lru_pop_back_rep)
  with PopBack show ?thesis by simp
next
  case ClearAll
  with A show ?thesis by (simp add: lru_clear_rep)
qed

lemma lru_run_rep:
  assumes A: "arena_laws A" and "lru_rep A l xs" "costs xs + sum_list (map cmd_cost cs) < 2 ^ 64"
  shows "\<exists>l'. lru_run A cs l = Some (fst (spec_run cs xs), l') \<and> lru_rep A l' (snd (spec_run cs xs))"
  using assms(2,3)
proof (induction cs arbitrary: l xs)
  case Nil
  then show ?case by simp
next
  case (Cons c cs)
  obtain r ys where ex: "spec_exec c xs = (r, ys)" by force
  obtain l1 where l1: "lru_exec A c l = Some (r, l1)" "lru_rep A l1 ys"
    using lru_exec_rep [OF A Cons.prems(1), of c] Cons.prems(2) ex by auto
  have "costs ys + sum_list (map cmd_cost cs) < 2 ^ 64"
    using spec_exec_cost [OF lru_rep_keyed [OF Cons.prems(1)], of c] Cons.prems(2) ex by simp
  from Cons.IH [OF l1(2) this] obtain l' where
    "lru_run A cs l1 = Some (fst (spec_run cs ys), l')" "lru_rep A l' (snd (spec_run cs ys))" by blast
  with l1(1) ex show ?case by (simp add: split_beta Let_def)
qed

text \<open>
  (C10) The linked list in the arena implements the plain list. For every sequence of
  \<^verbatim>\<open>push_front\<close>, \<^verbatim>\<open>move_to_front\<close>, \<^verbatim>\<open>remove\<close>, \<^verbatim>\<open>pop_back\<close> and \<^verbatim>\<open>clear\<close> calls on a new
  \<^verbatim>\<open>LruList\<close> whose pushed costs do not add up to \<^verbatim>\<open>2 ^ 64\<close>, no call panics, every answer is the one
  the plain list of (key, cost) pairs gives, and afterwards \<^verbatim>\<open>contains\<close>, \<^verbatim>\<open>current_total_cost\<close> and
  \<^verbatim>\<open>tail_key\<close> read that list: membership, the exact sum of the costs, the last key.
\<close>

theorem lru_list_refines_list:
  assumes "arena_laws A" "sum_list (map cmd_cost cs) < 2 ^ 64"
  shows "\<exists>l'. lru_run A cs (lru_new A) = Some (fst (spec_run cs []), l') \<and>
    (let xs = snd (spec_run cs []) in
      keyed xs \<and>
      (\<forall>k. lru_contains k l' \<longleftrightarrow> k \<in> fst ` set xs) \<and>
      lru_current_total_cost l' = costs xs \<and>
      lru_tail_key A l' = Some (map_option fst (final xs)))"
proof -
  obtain l' where "lru_run A cs (lru_new A) = Some (fst (spec_run cs []), l')" "lru_rep A l' (snd (spec_run cs []))"
    using lru_run_rep [OF assms(1) lru_new_rep [OF assms(1)], of cs] assms(2) by auto
  then show ?thesis by (auto simp: Let_def lru_rep_keyed lru_tail_key_rep)
qed

theorem lru_list_refines_list_witness:
  "\<exists>l'. lru_run vec_arena [PushFront 1 5, PushFront (2::nat) 7, MoveToFront 1, PushFront 1 4, RemoveKey 3, PopBack] (lru_new vec_arena) =
     Some ([Done, Done, Done, Done, Removed None, Popped (Some (2, 7))], l') \<and>
     lru_current_total_cost l' = 4 \<and> lru_tail_key vec_arena l' = Some (Some 1)"
  using lru_list_refines_list [OF vec_arena_laws,
      of "[PushFront 1 5, PushFront (2::nat) 7, MoveToFront 1, PushFront 1 4, RemoveKey 3, PopBack]"]
  by (auto simp: Let_def final_Cons)

end
