(* ===== verification/Policy.thy ===== *)
theory Policy
  imports Prelude
begin

section \<open>The CachePolicy interface\<close>

text \<open>
  \<^verbatim>\<open>cache/src/policy/mod.rs\<close>. A policy tracks the keys of a shard with their costs and names victims.
  Each implementation keeps its state behind one lock, so its operations are state transformers.
  \<^term>\<open>None\<close> is a panic.

  The trait is the locale \<open>cache_policy\<close>. \<open>tracks s m\<close> says that the state \<open>s\<close> is well
  formed and tracks the keys of \<open>m\<close> with the costs \<open>m\<close> gives them. The laws are what the shard
  relies on: no operation panics; an access keeps the set of tracked keys; an admitted key is
  tracked afterwards or named as a victim; a removed key is forgotten and no other key is; the
  victims of an eviction were tracked, are distinct, are exactly the keys no longer tracked, and
  the cost reported is the sum of their costs. \<open>freeing_policy\<close> adds the promise of the
  comment on \<^verbatim>\<open>evict\<close>: the victims free the cost asked for, unless nothing is left.
\<close>

datatype 'k admission_decision = Admit | Reject | AdmitAndEvict "'k list"

fun victims_of :: "'k admission_decision \<Rightarrow> 'k set" where
  "victims_of (AdmitAndEvict vs) = set vs"
| "victims_of _ = {}"

text \<open>The cost a policy accounts for.\<close>

definition total_cost :: "('k \<rightharpoonup> nat) \<Rightarrow> nat" where
  "total_cost m = (\<Sum>k \<in> dom m. the (m k))"

lemma total_empty [simp]: "total_cost Map.empty = 0"
  by (simp add: total_cost_def)

lemma total_upd: "finite (dom m) \<Longrightarrow> total_cost (m(k \<mapsto> c)) = c + total_cost (m(k := None))"
proof -
  assume f: "finite (dom m)"
  have "(\<Sum>x \<in> dom m - {k}. the ((m(k \<mapsto> c)) x)) = (\<Sum>x \<in> dom m - {k}. the ((m(k := None)) x))"
    by (rule sum.cong) auto
  moreover have "dom (m(k \<mapsto> c)) = insert k (dom m - {k})" "dom (m(k := None)) = dom m - {k}" by auto
  ultimately show ?thesis
    unfolding total_cost_def using f sum.insert [of "dom m - {k}" k "\<lambda>x. the ((m(k \<mapsto> c)) x)"]
    by (simp only: finite_Diff) simp
qed

lemma total_split: "finite (dom m) \<Longrightarrow> m k = Some c \<Longrightarrow> total_cost m = c + total_cost (m(k := None))"
  using total_upd [of m k c] by (metis fun_upd_triv)

lemma total_mono: "m \<subseteq>\<^sub>m m' \<Longrightarrow> finite (dom m') \<Longrightarrow> total_cost m \<le> total_cost m'"
proof -
  assume sub: "m \<subseteq>\<^sub>m m'" and fin: "finite (dom m')"
  from sub have "dom m \<subseteq> dom m'" by (rule map_le_implies_dom_le)
  moreover from sub have "(\<Sum>k \<in> dom m. the (m k)) = (\<Sum>k \<in> dom m. the (m' k))"
    by (intro sum.cong) (auto simp: map_le_def)
  ultimately show ?thesis using fin sum_mono2 [of "dom m'" "dom m" "\<lambda>k. the (m' k)"] by (simp add: total_cost_def)
qed

lemma total_map_of: "keyed xs \<Longrightarrow> total_cost (map_of xs) = costs xs"
proof (induction xs)
  case Nil
  then show ?case by simp
next
  case (Cons x xs)
  then have "fst x \<notin> dom (map_of xs)" by (auto simp: dom_map_of_conv_image_fst)
  then have "(map_of xs)(fst x := None) = map_of xs" by (simp add: fun_upd_idem domIff)
  with Cons show ?case
    by (cases x) (simp add: total_upd finite_dom_map_of del: fun_upd_apply)
qed

lemma map_of_drop_key_fun: "map_of (drop_key k xs) = (map_of xs)(k := None)"
  by (rule ext) simp

lemma total_drop_key: "keyed xs \<Longrightarrow> total_cost ((map_of xs)(k := None)) = costs (drop_key k xs)"
  by (metis keyed_drop_key map_of_drop_key_fun total_map_of)

text \<open>
  The shape of an eviction outcome, shared by every policy: \<open>evicted m n vs f m'\<close> relates the
  tracked map before, the cost asked for, the victims, the cost reported and the map after.
\<close>

definition evicted :: "('k \<rightharpoonup> nat) \<Rightarrow> 'k list \<Rightarrow> nat \<Rightarrow> ('k \<rightharpoonup> nat) \<Rightarrow> bool" where
  "evicted m vs f m' \<longleftrightarrow>
     distinct vs \<and> set vs \<subseteq> dom m \<and> m' = m |` (- set vs) \<and> f = (\<Sum>v \<leftarrow> vs. the (m v))"

lemma evicted_Nil: "evicted m [] 0 m"
  by (simp add: evicted_def restrict_map_def)

lemma evicted_Cons:
  assumes "m k = Some c" "evicted (m(k := None)) vs f m'"
  shows "evicted m (k # vs) (c + f) m'"
proof -
  from assms(2) have k: "k \<notin> set vs" by (auto simp: evicted_def)
  with assms have "(\<Sum>v \<leftarrow> vs. the ((m(k := None)) v)) = (\<Sum>v \<leftarrow> vs. the (m v))"
    by (intro arg_cong [where f = sum_list] map_cong) auto
  with assms k show ?thesis
    by (auto simp: evicted_def restrict_map_def fun_eq_iff)
qed

lemma evicted_total:
  assumes "finite (dom m)" "evicted m vs f m'"
  shows "f + total_cost m' = total_cost m"
proof -
  from assms have d: "dom m' = dom m - set vs" and sub: "set vs \<subseteq> dom m" and "distinct vs"
    and f: "f = (\<Sum>v \<in> set vs. the (m v))"
    by (auto simp: evicted_def dom_restrict sum_list_distinct_conv_sum_set)
  have "total_cost m' = (\<Sum>k \<in> dom m - set vs. the (m k))"
    unfolding total_cost_def d using assms(2) by (intro sum.cong) (auto simp: evicted_def restrict_map_def)
  with f sub assms(1) show ?thesis
    by (simp add: total_cost_def sum.subset_diff [of "set vs" "dom m"] add.commute)
qed

lemma evicted_dom: "evicted m vs f m' \<Longrightarrow> dom m' = dom m - set vs"
  by (auto simp: evicted_def dom_restrict)

lemma total_drop_le: "finite (dom m) \<Longrightarrow> total_cost (m(k := None)) \<le> total_cost m"
proof (cases "m k")
  case None
  then show ?thesis by (simp add: fun_upd_idem)
next
  case (Some c)
  then have "m(k \<mapsto> c) = m" by (simp add: fun_upd_idem)
  moreover assume "finite (dom m)"
  ultimately show ?thesis using total_upd [of m k c] by simp
qed

lemma total_upd_le: "finite (dom m) \<Longrightarrow> total_cost (m(k \<mapsto> c)) \<le> total_cost m + c"
  using total_drop_le [of m k] by (simp add: total_upd del: fun_upd_apply)

text \<open>A policy that keeps a key that is admitted again as it is.\<close>

lemma keep_or_add_admit:
  assumes "\<exists>s'. adm = Some (Admit, s') \<and> T s' (if k \<in> dom m then m else m(k \<mapsto> c))" "finite (dom m)"
  shows "\<exists>d s' m'. adm = Some (d, s') \<and> T s' m' \<and> total_cost m' \<le> total_cost m + c \<and>
           dom m' \<inter> victims_of d = {} \<and> dom m' \<union> victims_of d = insert k (dom m)"
proof -
  let ?m = "if k \<in> dom m then m else m(k \<mapsto> c)"
  have "dom ?m = insert k (dom m)" by auto
  moreover have "total_cost ?m \<le> total_cost m + c" using total_upd_le [OF assms(2)] by simp
  moreover from assms(1) obtain s' where "adm = Some (Admit, s')" "T s' ?m" by blast
  ultimately show ?thesis by (intro exI [of _ Admit] exI [of _ s'] exI [of _ ?m]) simp
qed

text \<open>A policy that records the new cost of an admitted key.\<close>

lemma put_admit:
  assumes "\<exists>s'. adm = Some (Admit, s') \<and> T s' (m(k \<mapsto> c))" "finite (dom m)"
  shows "\<exists>d s' m'. adm = Some (d, s') \<and> T s' m' \<and> total_cost m' \<le> total_cost m + c \<and>
           dom m' \<inter> victims_of d = {} \<and> dom m' \<union> victims_of d = insert k (dom m)"
proof -
  from assms(1) obtain s' where "adm = Some (Admit, s')" "T s' (m(k \<mapsto> c))" by blast
  moreover have "total_cost (m(k \<mapsto> c)) \<le> total_cost m + c" by (rule total_upd_le [OF assms(2)])
  ultimately show ?thesis
    by (intro exI [of _ Admit] exI [of _ s'] exI [of _ "m(k \<mapsto> c)"]) (simp del: fun_upd_apply)
qed

text \<open>
  Histories. A shard drives its policy by a sequence of calls; \<open>policy_run\<close> collects the answers.
  \<open>shard_keys\<close> is the key set of a shard that acts on them: an admitted key is in unless it is
  named a victim, removed keys and victims are out. \<open>in_step\<close> says that every answer makes sense
  to that shard: the victims are distinct and present.
\<close>

record ('k, 's) policy =
  pol_on_access :: "'k \<Rightarrow> nat \<Rightarrow> 's \<Rightarrow> 's option"
  pol_on_admit :: "'k \<Rightarrow> nat \<Rightarrow> 's \<Rightarrow> ('k admission_decision \<times> 's) option"
  pol_on_remove :: "'k \<Rightarrow> 's \<Rightarrow> 's option"
  pol_evict :: "nat \<Rightarrow> 's \<Rightarrow> (('k list \<times> nat) \<times> 's) option"
  pol_clear :: "'s \<Rightarrow> 's"

datatype 'k policy_call = OnAccess 'k nat | OnAdmit 'k nat | OnRemove 'k | Evict nat | Clear

datatype 'k policy_answer = Quiet | Decided "'k admission_decision" | Evicted "'k list" nat

fun policy_exec :: "('k, 's) policy \<Rightarrow> 'k policy_call \<Rightarrow> 's \<Rightarrow> ('k policy_answer \<times> 's) option" where
  "policy_exec P (OnAccess k c) s = do { s \<leftarrow> pol_on_access P k c s; Some (Quiet, s) }"
| "policy_exec P (OnAdmit k c) s = do { (d, s) \<leftarrow> pol_on_admit P k c s; Some (Decided d, s) }"
| "policy_exec P (OnRemove k) s = do { s \<leftarrow> pol_on_remove P k s; Some (Quiet, s) }"
| "policy_exec P (Evict n) s = do { ((vs, f), s) \<leftarrow> pol_evict P n s; Some (Evicted vs f, s) }"
| "policy_exec P Clear s = Some (Quiet, pol_clear P s)"

fun policy_run :: "('k, 's) policy \<Rightarrow> 'k policy_call list \<Rightarrow> 's \<Rightarrow> ('k policy_answer list \<times> 's) option" where
  "policy_run P [] s = Some ([], s)"
| "policy_run P (c # cs) s = do { (a, s) \<leftarrow> policy_exec P c s; (as, s) \<leftarrow> policy_run P cs s; Some (a # as, s) }"

fun call_cost :: "'k policy_call \<Rightarrow> nat" where
  "call_cost (OnAccess k c) = c"
| "call_cost (OnAdmit k c) = c"
| "call_cost _ = 0"

fun shard_step :: "'k policy_call \<Rightarrow> 'k policy_answer \<Rightarrow> 'k set \<Rightarrow> 'k set" where
  "shard_step (OnAdmit k c) (Decided d) K = insert k K - victims_of d"
| "shard_step (OnRemove k) _ K = K - {k}"
| "shard_step (Evict n) (Evicted vs f) K = K - set vs"
| "shard_step Clear _ K = {}"
| "shard_step _ _ K = K"

fun shard_keys :: "'k policy_call list \<Rightarrow> 'k policy_answer list \<Rightarrow> 'k set \<Rightarrow> 'k set" where
  "shard_keys (c # cs) (a # as) K = shard_keys cs as (shard_step c a K)"
| "shard_keys _ _ K = K"

fun answer_ok :: "'k set \<Rightarrow> 'k policy_call \<Rightarrow> 'k policy_answer \<Rightarrow> bool" where
  "answer_ok K (OnAdmit k c) (Decided d) = (victims_of d \<subseteq> insert k K)"
| "answer_ok K (Evict n) (Evicted vs f) = (distinct vs \<and> set vs \<subseteq> K)"
| "answer_ok K (OnAccess k c) Quiet = True"
| "answer_ok K (OnRemove k) Quiet = True"
| "answer_ok K Clear Quiet = True"
| "answer_ok K _ _ = False"

fun answer_pays :: "'k set \<Rightarrow> 'k policy_call \<Rightarrow> 'k policy_answer \<Rightarrow> bool" where
  "answer_pays K (Evict n) (Evicted vs f) = (n \<le> f \<or> set vs = K)"
| "answer_pays K _ _ = True"

fun in_step :: "('k set \<Rightarrow> 'k policy_call \<Rightarrow> 'k policy_answer \<Rightarrow> bool) \<Rightarrow> 'k set \<Rightarrow> 'k policy_call list \<Rightarrow> 'k policy_answer list \<Rightarrow> bool" where
  "in_step ok K [] [] = True"
| "in_step ok K (c # cs) (a # as) = (ok K c a \<and> in_step ok (shard_step c a K) cs as)"
| "in_step ok K _ _ = False"

text \<open>A policy that admits without victims keeps the admission clause.\<close>

lemma plain_admit:
  assumes "adm = Some (Admit, s')" "T s' m'" "total_cost m' \<le> b" "dom m' = insert k (dom m)"
  shows "\<exists>d s' m'. adm = Some (d, s') \<and> T s' m' \<and> total_cost m' \<le> b \<and> dom m' \<inter> victims_of d = {} \<and>
           dom m' \<union> victims_of d = insert k (dom m)"
  using assms by (intro exI [of _ Admit] exI [of _ s'] exI [of _ m']) simp

text \<open>
  The weaker contract \<open>loose_policy\<close>: a policy may stop tracking a key without naming it. Its
  victims are still keys of the shard. \<open>follows s K w\<close>: the state is well formed, tracks the
  keys \<open>K\<close> and accounts for a cost of at most \<open>w\<close> altogether (ghost entries included).
\<close>

locale loose_policy =
  fixes follows :: "'s \<Rightarrow> 'k set \<Rightarrow> nat \<Rightarrow> bool"
    and on_access :: "'k \<Rightarrow> nat \<Rightarrow> 's \<Rightarrow> 's option"
    and on_admit :: "'k \<Rightarrow> nat \<Rightarrow> 's \<Rightarrow> ('k admission_decision \<times> 's) option"
    and on_remove :: "'k \<Rightarrow> 's \<Rightarrow> 's option"
    and evict :: "nat \<Rightarrow> 's \<Rightarrow> (('k list \<times> nat) \<times> 's) option"
    and clear :: "'s \<Rightarrow> 's"
  assumes access_follows: "follows s K w \<Longrightarrow> w + c < 2 ^ 64 \<Longrightarrow> \<exists>s'. on_access k c s = Some s' \<and> follows s' K (w + c)"
    and admit_follows: "follows s K w \<Longrightarrow> w + c < 2 ^ 64 \<Longrightarrow>
      \<exists>d s' K'. on_admit k c s = Some (d, s') \<and> follows s' K' (w + c) \<and>
        K' \<inter> victims_of d = {} \<and> K' \<union> victims_of d \<subseteq> insert k K"
    and remove_follows: "follows s K w \<Longrightarrow> \<exists>s'. on_remove k s = Some s' \<and> follows s' (K - {k}) w"
    and evict_follows: "follows s K w \<Longrightarrow>
      \<exists>vs f s'. evict n s = Some ((vs, f), s') \<and> distinct vs \<and> set vs \<subseteq> K \<and> follows s' (K - set vs) w"
    and clear_follows: "follows s K w \<Longrightarrow> follows (clear s) {} w"
begin

abbreviation vtable :: "('k, 's) policy" where
  "vtable \<equiv> \<lparr>pol_on_access = on_access, pol_on_admit = on_admit, pol_on_remove = on_remove, pol_evict = evict, pol_clear = clear\<rparr>"

lemma exec_follows:
  assumes f: "follows s K w" and fits: "w + call_cost c < 2 ^ 64" and sub: "K \<subseteq> S"
  shows "\<exists>a s' K'. policy_exec vtable c s = Some (a, s') \<and> follows s' K' (w + call_cost c) \<and> answer_ok S c a \<and>
           K' \<subseteq> shard_step c a S"
proof (cases c)
  case (OnAccess k n)
  with access_follows [OF f, of n k] fits obtain s' where "on_access k n s = Some s'" "follows s' K (w + n)" by auto
  with OnAccess sub show ?thesis by (intro exI [of _ Quiet] exI [of _ s'] exI [of _ K]) simp
next
  case (OnAdmit k n)
  with admit_follows [OF f, of n k] fits obtain d s' K' where "on_admit k n s = Some (d, s')" "follows s' K' (w + n)"
    "K' \<inter> victims_of d = {}" "K' \<union> victims_of d \<subseteq> insert k K" by auto
  with OnAdmit sub show ?thesis by (intro exI [of _ "Decided d"] exI [of _ s'] exI [of _ K']) auto
next
  case (OnRemove k)
  from remove_follows [OF f, of k] obtain s' where "on_remove k s = Some s'" "follows s' (K - {k}) w" by blast
  with OnRemove sub show ?thesis by (intro exI [of _ Quiet] exI [of _ s'] exI [of _ "K - {k}"]) auto
next
  case (Evict n)
  from evict_follows [OF f, of n] obtain vs g s' where "evict n s = Some ((vs, g), s')" "distinct vs" "set vs \<subseteq> K"
    "follows s' (K - set vs) w" by blast
  with Evict sub show ?thesis by (intro exI [of _ "Evicted vs g"] exI [of _ s'] exI [of _ "K - set vs"]) auto
next
  case Clear
  with clear_follows [OF f] show ?thesis by (intro exI [of _ Quiet] exI [of _ "clear s"] exI [of _ "{}"]) simp
qed

lemma run_follows:
  assumes "follows s K w" "w + sum_list (map call_cost cs) < 2 ^ 64" "K \<subseteq> S"
  shows "\<exists>as s' K'. policy_run vtable cs s = Some (as, s') \<and> follows s' K' (w + sum_list (map call_cost cs)) \<and>
           in_step answer_ok S cs as \<and> K' \<subseteq> shard_keys cs as S"
  using assms
proof (induction cs arbitrary: s K w S)
  case Nil
  then show ?case by auto
next
  case (Cons c cs)
  from Cons.prems(2) have "w + call_cost c < 2 ^ 64" by simp
  from exec_follows [OF Cons.prems(1) this Cons.prems(3)] obtain a s1 K1 where
    1: "policy_exec vtable c s = Some (a, s1)" "follows s1 K1 (w + call_cost c)" "answer_ok S c a" "K1 \<subseteq> shard_step c a S" by blast
  from Cons.IH [OF 1(2) _ 1(4)] Cons.prems(2) obtain as s' K' where
    "policy_run vtable cs s1 = Some (as, s')" "follows s' K' (w + call_cost c + sum_list (map call_cost cs))"
    "in_step answer_ok (shard_step c a S) cs as" "K' \<subseteq> shard_keys cs as (shard_step c a S)" by auto
  with 1 show ?case by (intro exI [of _ "a # as"] exI [of _ s'] exI [of _ K']) (simp add: add.assoc)
qed

end

locale cache_policy =
  fixes tracks :: "'s \<Rightarrow> ('k \<rightharpoonup> nat) \<Rightarrow> bool"
    and on_access :: "'k \<Rightarrow> nat \<Rightarrow> 's \<Rightarrow> 's option"
    and on_admit :: "'k \<Rightarrow> nat \<Rightarrow> 's \<Rightarrow> ('k admission_decision \<times> 's) option"
    and on_remove :: "'k \<Rightarrow> 's \<Rightarrow> 's option"
    and evict :: "nat \<Rightarrow> 's \<Rightarrow> (('k list \<times> nat) \<times> 's) option"
    and clear :: "'s \<Rightarrow> 's"
  assumes finite_tracks: "tracks s m \<Longrightarrow> finite (dom m)"
    and access_tracks: "tracks s m \<Longrightarrow> total_cost m + c < 2 ^ 64 \<Longrightarrow>
      \<exists>s' m'. on_access k c s = Some s' \<and> tracks s' m' \<and> dom m' = dom m \<and> total_cost m' \<le> total_cost m + c"
    and admit_tracks: "tracks s m \<Longrightarrow> total_cost m + c < 2 ^ 64 \<Longrightarrow>
      \<exists>d s' m'. on_admit k c s = Some (d, s') \<and> tracks s' m' \<and> total_cost m' \<le> total_cost m + c \<and>
        dom m' \<inter> victims_of d = {} \<and> dom m' \<union> victims_of d = insert k (dom m)"
    and remove_tracks: "tracks s m \<Longrightarrow> \<exists>s'. on_remove k s = Some s' \<and> tracks s' (m(k := None))"
    and evict_tracks: "tracks s m \<Longrightarrow>
      \<exists>vs f s' m'. evict n s = Some ((vs, f), s') \<and> tracks s' m' \<and> evicted m vs f m'"
    and clear_tracks: "tracks s m \<Longrightarrow> tracks (clear s) Map.empty"
begin

text \<open>An eviction never reports more than is tracked, and what it leaves is the difference.\<close>

lemma evict_accounts:
  assumes "tracks s m"
  obtains vs f s' m' where "evict n s = Some ((vs, f), s')" "tracks s' m'" "f + total_cost m' = total_cost m"
    "dom m' = dom m - set vs"
proof -
  from evict_tracks [OF assms] obtain vs f s' m'
    where e: "evict n s = Some ((vs, f), s')" "tracks s' m'" "evicted m vs f m'" by blast
  moreover have "f + total_cost m' = total_cost m" using finite_tracks [OF assms] e(3) by (rule evicted_total)
  moreover have "dom m' = dom m - set vs" using e(3) by (auto simp: evicted_def dom_restrict)
  ultimately show thesis using that by blast
qed

text \<open>One call, and any sequence of calls, keeps policy and shard in step.\<close>

abbreviation vtable :: "('k, 's) policy" where
  "vtable \<equiv> \<lparr>pol_on_access = on_access, pol_on_admit = on_admit, pol_on_remove = on_remove, pol_evict = evict, pol_clear = clear\<rparr>"

lemma exec_in_step:
  assumes t: "tracks s m" and fits: "total_cost m + call_cost c < 2 ^ 64"
  shows "\<exists>a s' m'. policy_exec vtable c s = Some (a, s') \<and> tracks s' m' \<and> answer_ok (dom m) c a \<and>
           dom m' = shard_step c a (dom m) \<and> total_cost m' \<le> total_cost m + call_cost c"
proof (cases c)
  case (OnAccess k n)
  with fits obtain s' m' where "on_access k n s = Some s'" "tracks s' m'" "dom m' = dom m" "total_cost m' \<le> total_cost m + n"
    using access_tracks [OF t, of n k] by auto
  with OnAccess show ?thesis by auto
next
  case (OnAdmit k n)
  with fits obtain d s' m' where "on_admit k n s = Some (d, s')" "tracks s' m'" "total_cost m' \<le> total_cost m + n"
    "dom m' \<inter> victims_of d = {}" "dom m' \<union> victims_of d = insert k (dom m)"
    using admit_tracks [OF t, of n k] by auto
  moreover from this have "dom m' = insert k (dom m) - victims_of d" "victims_of d \<subseteq> insert k (dom m)" by blast+
  ultimately show ?thesis using OnAdmit by (intro exI [of _ "Decided d"] exI [of _ s'] exI [of _ m']) simp
next
  case (OnRemove k)
  from remove_tracks [OF t, of k] obtain s' where "on_remove k s = Some s'" "tracks s' (m(k := None))" by blast
  moreover have "dom (m(k := None)) = dom m - {k}" by auto
  ultimately show ?thesis using OnRemove total_drop_le [OF finite_tracks [OF t], of k]
    by (intro exI [of _ Quiet] exI [of _ s'] exI [of _ "m(k := None)"]) simp
next
  case (Evict n)
  from evict_tracks [OF t, of n] obtain vs f s' m' where e: "evict n s = Some ((vs, f), s')" "tracks s' m'" "evicted m vs f m'"
    by blast
  with Evict evicted_dom [OF e(3)] evicted_total [OF finite_tracks [OF t] e(3)] show ?thesis
    by (intro exI [of _ "Evicted vs f"] exI [of _ s'] exI [of _ m']) (simp add: evicted_def)
next
  case Clear
  with clear_tracks [OF t] show ?thesis by (intro exI [of _ Quiet] exI [of _ "clear s"] exI [of _ Map.empty]) simp
qed

lemma run_in_step:
  assumes "tracks s m" "total_cost m + sum_list (map call_cost cs) < 2 ^ 64"
  shows "\<exists>as s' m'. policy_run vtable cs s = Some (as, s') \<and> tracks s' m' \<and> in_step answer_ok (dom m) cs as \<and>
           dom m' = shard_keys cs as (dom m)"
  using assms
proof (induction cs arbitrary: s m)
  case Nil
  then show ?case by auto
next
  case (Cons c cs)
  from Cons.prems(2) have "total_cost m + call_cost c < 2 ^ 64" by simp
  from exec_in_step [OF Cons.prems(1) this] obtain a s1 m1 where
    1: "policy_exec vtable c s = Some (a, s1)" "tracks s1 m1" "answer_ok (dom m) c a"
      "dom m1 = shard_step c a (dom m)" "total_cost m1 \<le> total_cost m + call_cost c" by blast
  from 1(5) Cons.prems(2) have "total_cost m1 + sum_list (map call_cost cs) < 2 ^ 64" by simp
  from Cons.IH [OF 1(2) this] obtain as s' m' where
    "policy_run vtable cs s1 = Some (as, s')" "tracks s' m'" "in_step answer_ok (dom m1) cs as" "dom m' = shard_keys cs as (dom m1)"
    by blast
  with 1 show ?case by (intro exI [of _ "a # as"] exI [of _ s'] exI [of _ m']) simp
qed

text \<open>A removed key is never named by a later eviction.\<close>

lemma removed_not_victim:
  assumes "tracks s m" "on_remove k s = Some s1" "evict n s1 = Some ((vs, f), s2)"
  shows "k \<notin> set vs"
proof -
  from remove_tracks [OF assms(1), of k] assms(2) have t: "tracks s1 (m(k := None))" by simp
  from evict_tracks [OF t, of n] assms(3) obtain m' where "evicted (m(k := None)) vs f m'" by auto
  then show ?thesis by (auto simp: evicted_def)
qed

end

text \<open>The strict contract gives the loose one.\<close>

sublocale cache_policy \<subseteq> loose: loose_policy "\<lambda>s K w. \<exists>m. tracks s m \<and> dom m = K \<and> total_cost m \<le> w"
  on_access on_admit on_remove evict clear
proof unfold_locales
  fix s K w c k n
  assume "\<exists>m. tracks s m \<and> dom m = K \<and> total_cost m \<le> w"
  then obtain m where t: "tracks s m" and K: "dom m = K" and w: "total_cost m \<le> w" by blast
  show "\<exists>s'. on_access k c s = Some s' \<and> (\<exists>m. tracks s' m \<and> dom m = K \<and> total_cost m \<le> w + c)" if "w + c < 2 ^ 64"
    using access_tracks [OF t, of c k] that w K by fastforce
  show "\<exists>d s' K'. on_admit k c s = Some (d, s') \<and> (\<exists>m. tracks s' m \<and> dom m = K' \<and> total_cost m \<le> w + c) \<and>
      K' \<inter> victims_of d = {} \<and> K' \<union> victims_of d \<subseteq> insert k K" if "w + c < 2 ^ 64"
  proof -
    from admit_tracks [OF t, of c k] that w obtain d s' m' where "on_admit k c s = Some (d, s')" "tracks s' m'"
      "total_cost m' \<le> w + c" "dom m' \<inter> victims_of d = {}" "dom m' \<union> victims_of d = insert k (dom m)" by fastforce
    with K show ?thesis by (intro exI [of _ d] exI [of _ s'] exI [of _ "dom m'"]) auto
  qed
  show "\<exists>s'. on_remove k s = Some s' \<and> (\<exists>m. tracks s' m \<and> dom m = K - {k} \<and> total_cost m \<le> w)"
  proof -
    from remove_tracks [OF t, of k] obtain s' where "on_remove k s = Some s'" "tracks s' (m(k := None))" by blast
    moreover have "dom (m(k := None)) = K - {k}" using K by auto
    moreover have "total_cost (m(k := None)) \<le> w" using total_drop_le [OF finite_tracks [OF t], of k] w by simp
    ultimately show ?thesis by blast
  qed
  show "\<exists>vs f s'. evict n s = Some ((vs, f), s') \<and> distinct vs \<and> set vs \<subseteq> K \<and>
      (\<exists>m. tracks s' m \<and> dom m = K - set vs \<and> total_cost m \<le> w)"
  proof -
    from evict_tracks [OF t, of n] obtain vs f s' m' where e: "evict n s = Some ((vs, f), s')" "tracks s' m'" "evicted m vs f m'"
      by blast
    have "total_cost m' \<le> w" using evicted_total [OF finite_tracks [OF t] e(3)] w by simp
    moreover have "dom m' = K - set vs" using evicted_dom [OF e(3)] K by simp
    moreover have "distinct vs" "set vs \<subseteq> K" using e(3) K by (auto simp: evicted_def)
    ultimately show ?thesis using e(1,2) by blast
  qed
  show "\<exists>m. tracks (clear s) m \<and> dom m = {} \<and> total_cost m \<le> w" using clear_tracks [OF t] by fastforce
qed

locale freeing_policy = cache_policy +
  assumes evict_enough: "tracks s m \<Longrightarrow> evict n s = Some ((vs, f), s') \<Longrightarrow> n \<le> f \<or> set vs = dom m"
begin

text \<open>Every eviction of a history pays what was asked, or empties the shard.\<close>

lemma run_pays:
  assumes "tracks s m" "total_cost m + sum_list (map call_cost cs) < 2 ^ 64" "policy_run vtable cs s = Some (as, s')"
  shows "in_step answer_pays (dom m) cs as"
  using assms
proof (induction cs arbitrary: s m as)
  case Nil
  then show ?case by simp
next
  case (Cons c cs)
  from Cons.prems(2) have "total_cost m + call_cost c < 2 ^ 64" by simp
  from exec_in_step [OF Cons.prems(1) this] obtain a s1 m1 where
    1: "policy_exec vtable c s = Some (a, s1)" "tracks s1 m1"
      "dom m1 = shard_step c a (dom m)" "total_cost m1 \<le> total_cost m + call_cost c" by blast
  with Cons.prems(3) obtain bs where bs: "as = a # bs" "policy_run vtable cs s1 = Some (bs, s')"
    by (auto simp: bind_eq_Some_conv)
  from 1(4) Cons.prems(2) have "total_cost m1 + sum_list (map call_cost cs) < 2 ^ 64" by simp
  from Cons.IH [OF 1(2) this bs(2)] have "in_step answer_pays (dom m1) cs bs" .
  moreover have "answer_pays (dom m) c a"
    using 1(1) evict_enough [OF Cons.prems(1)] by (cases c) (auto simp: bind_eq_Some_conv)
  ultimately show ?case by (simp add: bs(1) 1(3))
qed

text \<open>
  What the shard relies on to hold its budget: asking for the overrun leaves at most the budget
  tracked.
\<close>

lemma evict_overrun:
  assumes "tracks s m" "budget \<le> total_cost m" "evict (total_cost m - budget) s = Some ((vs, f), s')"
  shows "\<exists>m'. tracks s' m' \<and> total_cost m' \<le> budget"
proof -
  from assms(1) obtain vs' f' s'' m' where e: "evict (total_cost m - budget) s = Some ((vs', f'), s'')" "tracks s'' m'"
    "f' + total_cost m' = total_cost m" "dom m' = dom m - set vs'"
    by (rule evict_accounts)
  with assms(3) have eq: "vs' = vs" "f' = f" "s'' = s'" by simp_all
  from evict_enough [OF assms(1,3)] have "total_cost m' \<le> budget"
  proof
    assume "total_cost m - budget \<le> f"
    with e(3) eq assms(2) show ?thesis by simp
  next
    assume "set vs = dom m"
    with e(4) eq have "m' = Map.empty" by simp
    then show ?thesis by simp
  qed
  with e(2) eq show ?thesis by blast
qed

end

text \<open>
  The loop Clock, SIEVE and Random share: one victim per turn until the cost is paid or nothing is
  left. The laws say what the body does; the lemma says that the loop ends and what it returns.
\<close>

locale victim_loop =
  fixes tracks :: "'s \<Rightarrow> ('k \<rightharpoonup> nat) \<Rightarrow> bool"
    and loop :: "nat \<Rightarrow> 'k list \<Rightarrow> nat \<Rightarrow> 's \<Rightarrow> (('k list \<times> nat) \<times> 's) option"
  assumes loop_finite: "tracks s m \<Longrightarrow> finite (dom m)"
    and loop_stop: "tracks s m \<Longrightarrow> n = 0 \<or> dom m = {} \<Longrightarrow> loop n vs f s = Some ((vs, f), s)"
    and loop_go: "tracks s m \<Longrightarrow> n > 0 \<Longrightarrow> dom m \<noteq> {} \<Longrightarrow>
      \<exists>k c s'. m k = Some c \<and> tracks s' (m(k := None)) \<and>
        loop n vs f s = loop (n - c) (vs @ [k]) (u64_add f c) s'"
begin

lemma loop_evicts:
  assumes "tracks s m" "f + total_cost m < 2 ^ 64"
  shows "\<exists>ws g s' m'. loop n vs f s = Some ((vs @ ws, f + g), s') \<and> tracks s' m' \<and> evicted m ws g m' \<and>
           (n \<le> g \<or> set ws = dom m)"
  using assms
proof (induction "card (dom m)" arbitrary: s m n vs f rule: less_induct)
  case less
  show ?case
  proof (cases "n = 0 \<or> dom m = {}")
    case True
    then have "loop n vs f s = Some ((vs @ [], f + 0), s)" using loop_stop [OF less.prems(1) True] by simp
    with True less.prems(1) evicted_Nil show ?thesis by fastforce
  next
    case False
    with loop_go [OF less.prems(1), of n vs f] obtain k c s1 where
      k: "m k = Some c" "tracks s1 (m(k := None))" "loop n vs f s = loop (n - c) (vs @ [k]) (u64_add f c) s1" by blast
    have fin: "finite (dom m)" by (rule loop_finite [OF less.prems(1)])
    have tot: "total_cost m = c + total_cost (m(k := None))"
      by (rule total_split [OF fin k(1)])
    have "dom (m(k := None)) = dom m - {k}" by auto
    with k(1) fin have "card (dom (m(k := None))) < card (dom m)" by (auto intro: card_Diff1_less)
    moreover have "f + c + total_cost (m(k := None)) < 2 ^ 64" using tot less.prems(2) by simp
    ultimately obtain ws g s' m' where
      r: "loop (n - c) (vs @ [k]) (f + c) s1 = Some (((vs @ [k]) @ ws, f + c + g), s')" "tracks s' m'"
        "evicted (m(k := None)) ws g m'" "n - c \<le> g \<or> set ws = dom (m(k := None))"
      using less.hyps [OF _ k(2), of "f + c" "n - c" "vs @ [k]"] by blast
    from tot less.prems(2) have "u64_add f c = f + c" by simp
    with r(1) k(3) have "loop n vs f s = Some ((vs @ (k # ws), f + (c + g)), s')" by (simp add: add.assoc)
    moreover have "evicted m (k # ws) (c + g) m'" by (rule evicted_Cons [OF k(1) r(3)])
    moreover have "n \<le> c + g \<or> set (k # ws) = dom m" using r(4) k(1) by auto
    ultimately show ?thesis using r(2) by blast
  qed
qed

end

subsection \<open>Keys that are never named\<close>

text \<open>The keys an answer names as victims, and histories in which a key is not among them.\<close>

fun named :: "'k policy_answer \<Rightarrow> 'k set" where
  "named (Decided d) = victims_of d"
| "named (Evicted vs f) = set vs"
| "named Quiet = {}"

lemma in_step_unnamed:
  "in_step answer_ok K cs as \<Longrightarrow> k \<notin> K \<Longrightarrow> \<forall>c. OnAdmit k c \<notin> set cs \<Longrightarrow> \<forall>a \<in> set as. k \<notin> named a"
proof (induction cs arbitrary: K as)
  case Nil
  then show ?case by (cases as) simp_all
next
  case (Cons c cs)
  then obtain a as' where a: "as = a # as'" by (cases as) auto
  have "k \<notin> shard_step c a K" "k \<notin> named a" using Cons.prems a by (cases c; cases a; auto)+
  then show ?case using Cons a by auto
qed

lemma shard_keys_unnamed:
  "in_step answer_ok K cs as \<Longrightarrow> k \<in> S \<Longrightarrow> \<forall>a \<in> set as. k \<notin> named a \<Longrightarrow> OnRemove k \<notin> set cs \<Longrightarrow> Clear \<notin> set cs \<Longrightarrow> k \<in> shard_keys cs as S"
proof (induction cs arbitrary: K S as)
  case (Cons c cs)
  then obtain a as' where a: "as = a # as'" by (cases as) auto
  have "k \<in> shard_step c a S" using Cons.prems a by (cases c; cases a) auto
  then show ?case using Cons a by auto
qed simp

lemma policy_run_append:
  "policy_run P cs s = Some (as, s') \<Longrightarrow> policy_run P (cs @ ds) s = map_option (map_prod ((@) as) id) (policy_run P ds s')"
proof (induction cs arbitrary: s as)
  case Nil
  then show ?case by (cases "policy_run P ds s'") auto
next
  case (Cons c cs)
  then obtain a s1 as' where "policy_exec P c s = Some (a, s1)" "policy_run P cs s1 = Some (as', s')" "as = a # as'"
    by (auto split: Option.bind_splits)
  then show ?case using Cons.IH [of s1 as'] by (cases "policy_run P ds s'") auto
qed

lemma shard_keys_append: "length as = length cs \<Longrightarrow> shard_keys (cs @ ds) (as @ bs) K = shard_keys ds bs (shard_keys cs as K)"
  by (induction cs as arbitrary: K rule: list_induct2') simp_all

text \<open>A run of admissions that all succeed.\<close>

definition admissions :: "('k \<times> nat) list \<Rightarrow> 'k policy_call list" where
  "admissions xs = map (\<lambda>(k, c). OnAdmit k c) xs"

lemma shard_keys_admissions: "shard_keys (admissions xs) (replicate (length xs) (Decided Admit)) K = keys xs \<union> K"
  by (induction xs arbitrary: K) (auto simp: admissions_def keys_def)

end
