(* ===== verification/Lru_Fifo.thy ===== *)
theory Lru_Fifo
  imports Lru_List Policy
begin

section \<open>The LRU and FIFO policies\<close>

text \<open>
  \<^verbatim>\<open>cache/src/policy/lru.rs\<close> and \<^verbatim>\<open>cache/src/policy/fifo.rs\<close>: both keep one \<^verbatim>\<open>LruList\<close> behind a lock.
  LRU moves a key to the front on every access and admission; FIFO ignores accesses and leaves a
  key that is admitted again where it is. Both evict from the back.
\<close>

subsection \<open>LruPolicy\<close>

definition lru_policy_new :: "('a, 'i, 'k) node_arena \<Rightarrow> ('a, 'i, 'k) lru_list" where
  "lru_policy_new A = lru_new A"

definition lru_on_access :: "('a, 'i, 'k) node_arena \<Rightarrow> 'k \<Rightarrow> nat \<Rightarrow> ('a, 'i, 'k) lru_list \<Rightarrow> ('a, 'i, 'k) lru_list option" where
  "lru_on_access A key cost l = lru_move_to_front A key l"

definition lru_on_admit ::
  "('a, 'i, 'k) node_arena \<Rightarrow> 'k \<Rightarrow> nat \<Rightarrow> ('a, 'i, 'k) lru_list \<Rightarrow> ('k admission_decision \<times> ('a, 'i, 'k) lru_list) option" where
  "lru_on_admit A key cost l = do { l \<leftarrow> lru_push_front A key cost l; Some (Admit, l) }"

definition lru_on_remove :: "('a, 'i, 'k) node_arena \<Rightarrow> 'k \<Rightarrow> ('a, 'i, 'k) lru_list \<Rightarrow> ('a, 'i, 'k) lru_list option" where
  "lru_on_remove A key l = do { (_, l) \<leftarrow> lru_remove A key l; Some l }"

partial_function (option) lru_evict_loop ::
  "('a, 'i, 'k) node_arena \<Rightarrow> nat \<Rightarrow> 'k list \<Rightarrow> nat \<Rightarrow> ('a, 'i, 'k) lru_list \<Rightarrow> (('k list \<times> nat) \<times> ('a, 'i, 'k) lru_list) option" where
  "lru_evict_loop A cost_to_free victims total_cost_freed l =
     (if total_cost_freed < cost_to_free
      then do { (popped, l) \<leftarrow> lru_pop_back A l;
                (case popped of
                   Some (key, cost) \<Rightarrow>
                     lru_evict_loop A cost_to_free (victims @ [key]) (u64_add total_cost_freed cost) l
                 | None \<Rightarrow> Some ((victims, total_cost_freed), l)) }
      else Some ((victims, total_cost_freed), l))"

definition lru_evict ::
  "('a, 'i, 'k) node_arena \<Rightarrow> nat \<Rightarrow> ('a, 'i, 'k) lru_list \<Rightarrow> (('k list \<times> nat) \<times> ('a, 'i, 'k) lru_list) option" where
  "lru_evict A cost_to_free l = lru_evict_loop A cost_to_free [] 0 l"

definition lru_policy_clear :: "('a, 'i, 'k) node_arena \<Rightarrow> ('a, 'i, 'k) lru_list \<Rightarrow> ('a, 'i, 'k) lru_list" where
  "lru_policy_clear A l = lru_clear A l"

subsection \<open>Fifo\<close>

definition fifo_new :: "('a, 'i, 'k) node_arena \<Rightarrow> ('a, 'i, 'k) lru_list" where
  "fifo_new A = lru_new A"

definition fifo_on_access :: "'k \<Rightarrow> nat \<Rightarrow> ('a, 'i, 'k) lru_list \<Rightarrow> ('a, 'i, 'k) lru_list option" where
  "fifo_on_access key cost l = Some l"

definition fifo_on_admit ::
  "('a, 'i, 'k) node_arena \<Rightarrow> 'k \<Rightarrow> nat \<Rightarrow> ('a, 'i, 'k) lru_list \<Rightarrow> ('k admission_decision \<times> ('a, 'i, 'k) lru_list) option" where
  "fifo_on_admit A key cost l =
     do { l \<leftarrow> (if \<not> lru_contains key l then lru_push_front A key cost l else Some l);
          Some (Admit, l) }"

definition fifo_on_remove :: "('a, 'i, 'k) node_arena \<Rightarrow> 'k \<Rightarrow> ('a, 'i, 'k) lru_list \<Rightarrow> ('a, 'i, 'k) lru_list option" where
  "fifo_on_remove A key l = do { (_, l) \<leftarrow> lru_remove A key l; Some l }"

partial_function (option) fifo_evict_loop ::
  "('a, 'i, 'k) node_arena \<Rightarrow> nat \<Rightarrow> 'k list \<Rightarrow> nat \<Rightarrow> ('a, 'i, 'k) lru_list \<Rightarrow> (('k list \<times> nat) \<times> ('a, 'i, 'k) lru_list) option" where
  "fifo_evict_loop A cost_to_free victims total_cost_freed l =
     (if cost_to_free > 0
      then do { (popped, l) \<leftarrow> lru_pop_back A l;
                (case popped of
                   Some (key, cost) \<Rightarrow>
                     fifo_evict_loop A (saturating_sub cost_to_free cost) (victims @ [key]) (u64_add total_cost_freed cost) l
                 | None \<Rightarrow> Some ((victims, total_cost_freed), l)) }
      else Some ((victims, total_cost_freed), l))"

definition fifo_evict ::
  "('a, 'i, 'k) node_arena \<Rightarrow> nat \<Rightarrow> ('a, 'i, 'k) lru_list \<Rightarrow> (('k list \<times> nat) \<times> ('a, 'i, 'k) lru_list) option" where
  "fifo_evict A cost_to_free l = fifo_evict_loop A cost_to_free [] 0 l"

definition fifo_clear :: "('a, 'i, 'k) node_arena \<Rightarrow> ('a, 'i, 'k) lru_list \<Rightarrow> ('a, 'i, 'k) lru_list" where
  "fifo_clear A l = lru_clear A l"

subsection \<open>Reaping a list from one end\<close>

text \<open>
  The specification of both eviction loops: \<open>reap n xs\<close> takes pairs from the front of \<open>xs\<close> while
  cost is still wanted. It is a shortest prefix that pays \<open>n\<close>, or the whole list.
\<close>

fun reap :: "nat \<Rightarrow> ('k \<times> nat) list \<Rightarrow> ('k \<times> nat) list" where
  "reap n [] = []"
| "reap n (x # xs) = (if n = 0 then [] else x # reap (n - snd x) xs)"

fun unreaped :: "nat \<Rightarrow> ('k \<times> nat) list \<Rightarrow> ('k \<times> nat) list" where
  "unreaped n [] = []"
| "unreaped n (x # xs) = (if n = 0 then x # xs else unreaped (n - snd x) xs)"

lemma reap_unreaped: "reap n xs @ unreaped n xs = xs"
  by (induction n xs rule: reap.induct) auto

lemma reap_0 [simp]: "reap 0 xs = []" "unreaped 0 xs = xs"
  by (cases xs, auto)+

lemma reap_enough: "n \<le> costs (reap n xs) \<or> unreaped n xs = []"
  by (induction n xs rule: reap.induct) auto

lemma reap_minimal: "reap n xs = ys @ z # zs \<Longrightarrow> costs ys < n"
proof (induction n xs arbitrary: ys rule: reap.induct)
  case (1 n)
  then show ?case by simp
next
  case (2 n x xs)
  show ?case
  proof (cases ys)
    case Nil
    with "2.prems" show ?thesis by (cases "n = 0") simp_all
  next
    case (Cons y ys')
    with "2.prems" have "n \<noteq> 0" "y = x" "reap (n - snd x) xs = ys' @ z # zs" by (auto split: if_splits)
    then have "costs ys' < n - snd x" using "2.IH" by blast
    with Cons \<open>y = x\<close> show ?thesis by simp
  qed
qed

lemma costs_reap_le: "costs (reap n xs) \<le> costs xs"
  by (metis costs_append le_add1 reap_unreaped)

lemma costs_unreaped_le: "costs (unreaped n xs) \<le> costs xs"
  by (metis costs_append le_add2 reap_unreaped)

lemma reap_append: "reap n (xs @ ys) = reap n xs @ reap (n - costs (reap n xs)) ys"
  and unreaped_append: "unreaped n (xs @ ys) =
    (if unreaped n xs = [] then unreaped (n - costs (reap n xs)) ys else unreaped n xs @ ys)"
  by (induction n xs rule: reap.induct) (auto simp: diff_diff_left)

text \<open>What reaping does to the tracked map.\<close>

lemma reap_evicted:
  assumes "keyed xs"
  shows "evicted (map_of xs) (map fst (reap n xs)) (costs (reap n xs)) (map_of (unreaped n xs))"
proof -
  let ?r = "reap n xs" and ?u = "unreaped n xs"
  from assms have k: "keyed (?r @ ?u)" by (simp only: reap_unreaped)
  have m: "map_of xs = map_of ?u ++ map_of ?r" using reap_unreaped [of n xs] by (metis map_of_append)
  have "map_of ?u x = (map_of xs |` (- fst ` set ?r)) x" for x
  proof (cases "x \<in> fst ` set ?r")
    case True
    with k have "x \<notin> fst ` set ?u" by auto
    with True show ?thesis by (simp add: map_of_eq_None_iff [THEN iffD2])
  next
    case False
    then have "map_of ?r x = None" by (simp add: map_of_eq_None_iff)
    with False show ?thesis by (simp add: m map_add_def)
  qed
  then have rest: "map_of ?u = map_of xs |` (- fst ` set ?r)" ..
  have "map (\<lambda>v. the (map_of xs v)) (map fst ?r) = map snd ?r"
  proof -
    have "map_of xs (fst y) = Some (snd y)" if "y \<in> set ?r" for y
      using that assms reap_unreaped [of n xs] by (metis Un_iff keyed_def map_of_is_SomeI prod.collapse set_append)
    then show ?thesis by simp
  qed
  then have "costs ?r = (\<Sum>v \<leftarrow> map fst ?r. the (map_of xs v))" by (simp only: costs_def)
  moreover have "set (map fst ?r) \<subseteq> dom (map_of xs)"
    using reap_unreaped [of n xs] by (metis dom_map_of_conv_image_fst image_mono set_append set_map Un_upper1)
  ultimately show ?thesis using k rest by (auto simp: evicted_def keyed_def)
qed

lemma lru_evict_loop_ok:
  assumes A: "arena_laws A" and R: "lru_rep A l xs" and fits: "freed + costs xs < 2 ^ 64"
  shows "\<exists>l'. lru_evict_loop A n vs freed l =
           Some ((vs @ map fst (reap (n - freed) (rev xs)), freed + costs (reap (n - freed) (rev xs))), l') \<and>
           lru_rep A l' (rev (unreaped (n - freed) (rev xs)))"
  using R fits
proof (induction "rev xs" arbitrary: l xs vs freed)
  case Nil
  moreover from Nil A have "lru_rep A l xs" by simp
  with A obtain l' where "lru_pop_back A l = Some (final xs, l')" "lru_rep A l' (butlast xs)" by (rule lru_pop_back_rep)
  ultimately show ?case by (cases xs) (simp_all add: lru_evict_loop.simps)
next
  case (Cons x ys)
  then have xs: "xs = rev ys @ [x]" by (metis rev_rev_ident rev.simps(2))
  from A Cons.prems(1) obtain l1 where l1: "lru_pop_back A l = Some (final xs, l1)" "lru_rep A l1 (butlast xs)"
    by (rule lru_pop_back_rep)
  show ?case
  proof (cases "freed < n")
    case False
    with Cons.prems(1) show ?thesis by (simp add: lru_evict_loop.simps)
  next
    case True
    have u: "u64_add freed (snd x) = freed + snd x" using Cons.prems(2) xs by simp
    have "lru_rep A l1 (rev ys)" "freed + snd x + costs (rev ys) < 2 ^ 64" using l1 Cons.prems(2) xs by simp_all
    from Cons.hyps(1) [OF _ this, of "vs @ [fst x]"] obtain l' where
      "lru_evict_loop A n (vs @ [fst x]) (freed + snd x) l1 =
         Some ((vs @ [fst x] @ map fst (reap (n - (freed + snd x)) ys), freed + snd x + costs (reap (n - (freed + snd x)) ys)), l')"
      "lru_rep A l' (rev (unreaped (n - (freed + snd x)) ys))" by auto
    with True l1(1) u show ?thesis
      by (cases x) (simp add: lru_evict_loop.simps [of A n vs] xs)
  qed
qed

lemma fifo_evict_loop_ok:
  assumes A: "arena_laws A" and R: "lru_rep A l xs" and fits: "freed + costs xs < 2 ^ 64"
  shows "\<exists>l'. fifo_evict_loop A n vs freed l =
           Some ((vs @ map fst (reap n (rev xs)), freed + costs (reap n (rev xs))), l') \<and>
           lru_rep A l' (rev (unreaped n (rev xs)))"
  using R fits
proof (induction "rev xs" arbitrary: l xs vs freed n)
  case Nil
  moreover from Nil A have "lru_rep A l xs" by simp
  with A obtain l' where "lru_pop_back A l = Some (final xs, l')" "lru_rep A l' (butlast xs)" by (rule lru_pop_back_rep)
  ultimately show ?case by (cases xs) (simp_all add: fifo_evict_loop.simps)
next
  case (Cons x ys)
  then have xs: "xs = rev ys @ [x]" by (metis rev_rev_ident rev.simps(2))
  from A Cons.prems(1) obtain l1 where l1: "lru_pop_back A l = Some (final xs, l1)" "lru_rep A l1 (butlast xs)"
    by (rule lru_pop_back_rep)
  show ?case
  proof (cases "n = 0")
    case True
    with Cons.prems(1) show ?thesis by (simp add: fifo_evict_loop.simps)
  next
    case False
    have u: "u64_add freed (snd x) = freed + snd x" using Cons.prems(2) xs by simp
    have "lru_rep A l1 (rev ys)" "freed + snd x + costs (rev ys) < 2 ^ 64" using l1 Cons.prems(2) xs by simp_all
    from Cons.hyps(1) [OF _ this, of "n - snd x" "vs @ [fst x]"] obtain l' where
      "fifo_evict_loop A (n - snd x) (vs @ [fst x]) (freed + snd x) l1 =
         Some ((vs @ [fst x] @ map fst (reap (n - snd x) ys), freed + snd x + costs (reap (n - snd x) ys)), l')"
      "lru_rep A l' (rev (unreaped (n - snd x) ys))" by auto
    with False l1(1) u show ?thesis
      by (cases x) (simp add: fifo_evict_loop.simps [of A n vs] xs saturating_sub_def)
  qed
qed

subsection \<open>Both policies keep the contract of the trait\<close>

definition lru_tracks :: "('a, 'i, 'k) node_arena \<Rightarrow> ('a, 'i, 'k) lru_list \<Rightarrow> ('k \<rightharpoonup> nat) \<Rightarrow> bool" where
  "lru_tracks A l m \<longleftrightarrow> arena_laws A \<and> (\<exists>xs. lru_rep A l xs \<and> m = map_of xs)"

lemma lru_tracksI: "arena_laws A \<Longrightarrow> lru_rep A l xs \<Longrightarrow> lru_tracks A l (map_of xs)"
  by (auto simp: lru_tracks_def)

lemma lru_tracksE:
  assumes "lru_tracks A l m"
  obtains xs where "arena_laws A" "lru_rep A l xs" "m = map_of xs"
  using assms by (auto simp: lru_tracks_def)

lemma lru_tracks_finite: "lru_tracks A l m \<Longrightarrow> finite (dom m)"
  by (auto simp: lru_tracks_def finite_dom_map_of)

lemma lru_access_tracks:
  assumes "lru_tracks A l m"
  shows "\<exists>l'. lru_on_access A k c l = Some l' \<and> lru_tracks A l' m"
proof -
  from assms obtain xs where A: "arena_laws A" and R: "lru_rep A l xs" and m: "m = map_of xs" by (rule lru_tracksE)
  from A R obtain l' where l': "lru_move_to_front A k l = Some l'"
    "lru_rep A l' (case map_of xs k of None \<Rightarrow> xs | Some c \<Rightarrow> (k, c) # drop_key k xs)" by (rule lru_move_to_front_rep)
  have "map_of (case map_of xs k of None \<Rightarrow> xs | Some c \<Rightarrow> (k, c) # drop_key k xs) = m"
    by (rule ext) (simp add: m split: option.split)
  with l' lru_tracksI [OF A l'(2)] show ?thesis by (simp add: lru_on_access_def)
qed

lemma lru_push_tracks:
  assumes "lru_tracks A l m" "total_cost m + c < 2 ^ 64"
  shows "\<exists>l'. lru_push_front A k c l = Some l' \<and> lru_tracks A l' (m(k \<mapsto> c))"
proof -
  from assms(1) obtain xs where A: "arena_laws A" and R: "lru_rep A l xs" and m: "m = map_of xs" by (rule lru_tracksE)
  have "costs (drop_key k xs) + c < 2 ^ 64"
    using assms(2) costs_drop_key_le [of k xs] by (simp add: m total_map_of [OF lru_rep_keyed [OF R]])
  with A R obtain l' where l': "lru_push_front A k c l = Some l'" "lru_rep A l' ((k, c) # drop_key k xs)"
    by (rule lru_push_front_rep)
  moreover have "map_of ((k, c) # drop_key k xs) = m(k \<mapsto> c)" by (rule ext) (simp add: m)
  ultimately show ?thesis using lru_tracksI [OF A l'(2)] by simp
qed

lemma lru_remove_tracks:
  assumes "lru_tracks A l m"
  shows "\<exists>l'. lru_remove A k l = Some (m k, l') \<and> lru_tracks A l' (m(k := None))"
proof -
  from assms obtain xs where A: "arena_laws A" and R: "lru_rep A l xs" and m: "m = map_of xs" by (rule lru_tracksE)
  from A R obtain l' where "lru_remove A k l = Some (map_of xs k, l')" "lru_rep A l' (drop_key k xs)"
    by (rule lru_remove_rep)
  with lru_tracksI [OF A this(2)] show ?thesis by (simp add: m map_of_drop_key_fun del: fun_upd_apply)
qed

text \<open>The victims of both policies, as the reaped end of the list.\<close>

lemma lru_evict_reaps:
  assumes A: "arena_laws A" and R: "lru_rep A l xs"
  shows "\<exists>l'. lru_evict A n l = Some ((map fst (reap n (rev xs)), costs (reap n (rev xs))), l') \<and>
           lru_rep A l' (rev (unreaped n (rev xs)))"
  using lru_evict_loop_ok [OF A R, of 0 n "[]"] lru_rep_fits [OF R] by (simp add: lru_evict_def)

lemma fifo_evict_reaps:
  assumes A: "arena_laws A" and R: "lru_rep A l xs"
  shows "\<exists>l'. fifo_evict A n l = Some ((map fst (reap n (rev xs)), costs (reap n (rev xs))), l') \<and>
           lru_rep A l' (rev (unreaped n (rev xs)))"
  using fifo_evict_loop_ok [OF A R, of 0 n "[]"] lru_rep_fits [OF R] by (simp add: fifo_evict_def)

lemma map_of_rev_keyed: "keyed xs \<Longrightarrow> map_of (rev xs) = map_of xs"
  using map_of_inject_set [of "rev xs" xs] by (simp add: keyed_def rev_map [symmetric])

lemma reap_rev_evicted:
  "keyed xs \<Longrightarrow> evicted (map_of xs) (map fst (reap n (rev xs))) (costs (reap n (rev xs)))
     (map_of (rev (unreaped n (rev xs))))"
proof -
  assume k: "keyed xs"
  then have r: "keyed (rev xs)" by (simp add: keyed_def rev_map [symmetric])
  then have "keyed (unreaped n (rev xs))" by (metis keyed_append reap_unreaped)
  then show ?thesis using reap_evicted [OF r, of n] k by (simp add: map_of_rev_keyed)
qed

lemma reap_rev_enough: "n \<le> costs (reap n (rev xs)) \<or> set (map fst (reap n (rev xs))) = dom (map_of xs)"
proof -
  have "unreaped n (rev xs) = [] \<Longrightarrow> reap n (rev xs) = rev xs" using reap_unreaped [of n "rev xs"] by simp
  then show ?thesis using reap_enough [of n "rev xs"] by (auto simp: dom_map_of_conv_image_fst)
qed

text \<open>Any eviction that reaps the list keeps the eviction clauses of the contract.\<close>

lemma reaping_evict_tracks:
  assumes "lru_tracks A l m"
    and "\<And>xs. arena_laws A \<Longrightarrow> lru_rep A l xs \<Longrightarrow>
      \<exists>l'. ev = Some ((map fst (reap n (rev xs)), costs (reap n (rev xs))), l') \<and> lru_rep A l' (rev (unreaped n (rev xs)))"
  shows "\<exists>vs f l' m'. ev = Some ((vs, f), l') \<and> lru_tracks A l' m' \<and> evicted m vs f m' \<and> (n \<le> f \<or> set vs = dom m)"
proof -
  from assms(1) obtain xs where A: "arena_laws A" and R: "lru_rep A l xs" and m: "m = map_of xs" by (rule lru_tracksE)
  from assms(2) [OF A R] obtain l' where
    l': "ev = Some ((map fst (reap n (rev xs)), costs (reap n (rev xs))), l')" "lru_rep A l' (rev (unreaped n (rev xs)))"
    by blast
  with lru_tracksI [OF A l'(2)] reap_rev_evicted [OF lru_rep_keyed [OF R], of n] reap_rev_enough [of n xs] m
  show ?thesis by blast
qed

interpretation lru: freeing_policy "lru_tracks A" "lru_on_access A" "lru_on_admit A" "lru_on_remove A"
  "lru_evict A" "lru_policy_clear A" for A :: "('a, 'i, 'k) node_arena"
proof unfold_locales
  fix l :: "('a, 'i, 'k) lru_list" and m :: "'k \<rightharpoonup> nat" and k :: 'k and c n f :: nat and vs l'
  assume t: "lru_tracks A l m"
  show "finite (dom m)" using t by (rule lru_tracks_finite)
  show "\<exists>l' m'. lru_on_access A k c l = Some l' \<and> lru_tracks A l' m' \<and> dom m' = dom m \<and>
      total_cost m' \<le> total_cost m + c"
    using lru_access_tracks [OF t, of k c] by (auto intro!: exI [of _ m])
  show "\<exists>l'. lru_on_remove A k l = Some l' \<and> lru_tracks A l' (m(k := None))"
    using lru_remove_tracks [OF t, of k] by (auto simp: lru_on_remove_def)
  have ev: "\<exists>vs f l' m'. lru_evict A n l = Some ((vs, f), l') \<and> lru_tracks A l' m' \<and> evicted m vs f m' \<and>
      (n \<le> f \<or> set vs = dom m)"
    using t lru_evict_reaps by (rule reaping_evict_tracks)
  show "\<exists>vs f l' m'. lru_evict A n l = Some ((vs, f), l') \<and> lru_tracks A l' m' \<and> evicted m vs f m'"
    using ev by blast
  show "n \<le> f \<or> set vs = dom m" if "lru_evict A n l = Some ((vs, f), l')"
    using ev that by auto
  show "lru_tracks A (lru_policy_clear A l) Map.empty"
    using t lru_clear_rep lru_tracksI [of A _ "[]"] by (auto simp: lru_policy_clear_def lru_tracks_def)
  show "\<exists>d l' m'. lru_on_admit A k c l = Some (d, l') \<and> lru_tracks A l' m' \<and> total_cost m' \<le> total_cost m + c \<and>
      dom m' \<inter> victims_of d = {} \<and> dom m' \<union> victims_of d = insert k (dom m)"
    if "total_cost m + c < 2 ^ 64"
  proof -
    from lru_push_tracks [OF t that, of k] obtain l' where
      "lru_on_admit A k c l = Some (Admit, l')" "lru_tracks A l' (m(k \<mapsto> c))" by (auto simp: lru_on_admit_def)
    moreover have "total_cost (m(k \<mapsto> c)) \<le> total_cost m + c" by (rule total_upd_le [OF lru_tracks_finite [OF t]])
    ultimately show ?thesis by (rule plain_admit) simp
  qed
qed

lemma fifo_admit_tracks:
  assumes t: "lru_tracks A l m" and "total_cost m + c < 2 ^ 64"
  shows "\<exists>l'. fifo_on_admit A k c l = Some (Admit, l') \<and>
           lru_tracks A l' (if k \<in> dom m then m else m(k \<mapsto> c))"
proof -
  from t obtain xs where R: "lru_rep A l xs" and m: "m = map_of xs" by (rule lru_tracksE)
  have "lru_contains k l \<longleftrightarrow> k \<in> dom m" using R by (simp add: m dom_map_of_conv_image_fst)
  then show ?thesis using lru_push_tracks [OF assms, of k] t by (auto simp: fifo_on_admit_def)
qed

interpretation fifo: freeing_policy "lru_tracks A" fifo_on_access "fifo_on_admit A" "fifo_on_remove A"
  "fifo_evict A" "fifo_clear A" for A :: "('a, 'i, 'k) node_arena"
proof unfold_locales
  fix l :: "('a, 'i, 'k) lru_list" and m :: "'k \<rightharpoonup> nat" and k :: 'k and c n f :: nat and vs l'
  assume t: "lru_tracks A l m"
  show "finite (dom m)" using t by (rule lru_tracks_finite)
  show "\<exists>l' m'. fifo_on_access k c l = Some l' \<and> lru_tracks A l' m' \<and> dom m' = dom m \<and>
      total_cost m' \<le> total_cost m + c"
    using t by (auto simp: fifo_on_access_def)
  show "\<exists>l'. fifo_on_remove A k l = Some l' \<and> lru_tracks A l' (m(k := None))"
    using lru_remove_tracks [OF t, of k] by (auto simp: fifo_on_remove_def)
  have ev: "\<exists>vs f l' m'. fifo_evict A n l = Some ((vs, f), l') \<and> lru_tracks A l' m' \<and> evicted m vs f m' \<and>
      (n \<le> f \<or> set vs = dom m)"
    using t fifo_evict_reaps by (rule reaping_evict_tracks)
  show "\<exists>vs f l' m'. fifo_evict A n l = Some ((vs, f), l') \<and> lru_tracks A l' m' \<and> evicted m vs f m'"
    using ev by blast
  show "n \<le> f \<or> set vs = dom m" if "fifo_evict A n l = Some ((vs, f), l')"
    using ev that by auto
  show "lru_tracks A (fifo_clear A l) Map.empty"
    using t lru_clear_rep lru_tracksI [of A _ "[]"] by (auto simp: fifo_clear_def lru_tracks_def)
  show "\<exists>d l' m'. fifo_on_admit A k c l = Some (d, l') \<and> lru_tracks A l' m' \<and> total_cost m' \<le> total_cost m + c \<and>
      dom m' \<inter> victims_of d = {} \<and> dom m' \<union> victims_of d = insert k (dom m)"
    if "total_cost m + c < 2 ^ 64"
  proof -
    have "dom (if k \<in> dom m then m else m(k \<mapsto> c)) = insert k (dom m)" by auto
    moreover have "total_cost (if k \<in> dom m then m else m(k \<mapsto> c)) \<le> total_cost m + c"
      using total_upd_le [OF lru_tracks_finite [OF t]] by simp
    ultimately show ?thesis using fifo_admit_tracks [OF t that] by (blast intro: plain_admit)
  qed
qed

subsection \<open>Properties\<close>

text \<open>
  (C25) LRU eviction. With the tracked pairs \<open>xs\<close> in recency order (most recent first),
  \<^verbatim>\<open>evict(n)\<close> returns, does not panic, and names the least recently used keys, least recent first;
  they pay for \<open>n\<close> unless everything was evicted, one victim fewer would not have paid, the cost
  reported is the sum of the victims' costs, and the rest of the list is unchanged.
\<close>

theorem lru_evict_least_recent:
  assumes "arena_laws A" "lru_rep A l xs"
  shows "\<exists>keep vs l'. xs = keep @ rev vs \<and>
     lru_evict A n l = Some ((map fst vs, costs vs), l') \<and> lru_rep A l' keep \<and>
     (n \<le> costs vs \<or> keep = []) \<and> (vs \<noteq> [] \<longrightarrow> costs (butlast vs) < n)"
proof -
  let ?vs = "reap n (rev xs)" and ?keep = "rev (unreaped n (rev xs))"
  from lru_evict_reaps [OF assms] obtain l' where
    "lru_evict A n l = Some ((map fst ?vs, costs ?vs), l')" "lru_rep A l' ?keep" by blast
  moreover have "xs = ?keep @ rev ?vs" using reap_unreaped [of n "rev xs"] by (metis rev_append rev_rev_ident)
  moreover have "?vs \<noteq> [] \<longrightarrow> costs (butlast ?vs) < n"
    using reap_minimal [of n "rev xs" "butlast ?vs" "last ?vs" "[]"] by simp
  moreover have "n \<le> costs ?vs \<or> ?keep = []" using reap_enough [of n "rev xs"] by simp
  ultimately show ?thesis by blast
qed

text \<open>The recency order is the one of the accesses: a witness built by admissions and an access.\<close>

theorem lru_evict_least_recent_witness:
  "\<exists>l l' :: (((nat, nat) node option) list, nat, nat) lru_list.
     lru_run vec_arena [PushFront 1 5, PushFront 2 7, PushFront 3 2, MoveToFront 1] (lru_new vec_arena) = Some ([Done, Done, Done, Done], l) \<and>
     lru_evict vec_arena 8 l = Some (([2, 3], 9), l')"
proof -
  let ?cs = "[PushFront 1 5, PushFront (2::nat) 7, PushFront 3 2, MoveToFront 1]"
  obtain l where l: "lru_run vec_arena ?cs (lru_new vec_arena) = Some ([Done, Done, Done, Done], l)"
    "lru_rep vec_arena l [(1, 5), (3, 2), (2, 7)]"
    using lru_run_rep [OF vec_arena_laws lru_new_rep [OF vec_arena_laws], of ?cs] by auto
  obtain keep vs l' where e: "[(1, 5), (3, 2), (2, 7)] = keep @ rev vs" "lru_evict vec_arena 8 l = Some ((map fst vs, costs vs), l')"
    "8 \<le> costs vs \<or> keep = []" "vs \<noteq> [] \<longrightarrow> costs (butlast vs) < 8"
    using lru_evict_least_recent [OF vec_arena_laws l(2), of 8] by blast
  define ws where "ws = rev vs"
  then have vs: "vs = rev ws" by simp
  from e(1,3,4) have "ws = [(3, 2), (2, 7)]"
    unfolding vs by (auto simp: Cons_eq_append_conv append_eq_Cons_conv butlast_rev split: if_splits)
  then have "vs = [(2, 7), (3, 2)]" by (simp add: vs)
  with e l show ?thesis by auto
qed

text \<open>The two trait objects.\<close>

definition lru_policy :: "('a, 'i, 'k) node_arena \<Rightarrow> ('k, ('a, 'i, 'k) lru_list) policy" where
  "lru_policy A = \<lparr>pol_on_access = lru_on_access A, pol_on_admit = lru_on_admit A, pol_on_remove = lru_on_remove A,
     pol_evict = lru_evict A, pol_clear = lru_policy_clear A\<rparr>"

definition fifo_policy :: "('a, 'i, 'k) node_arena \<Rightarrow> ('k, ('a, 'i, 'k) lru_list) policy" where
  "fifo_policy A = \<lparr>pol_on_access = fifo_on_access, pol_on_admit = fifo_on_admit A, pol_on_remove = fifo_on_remove A,
     pol_evict = fifo_evict A, pol_clear = fifo_clear A\<rparr>"

lemma lru_new_tracks: "arena_laws A \<Longrightarrow> lru_tracks A (lru_new A) Map.empty"
  using lru_tracksI [OF _ lru_new_rep] by fastforce

text \<open>
  (C26) LRU under any history. Whatever calls a shard makes on a new LRU policy (as long as the costs
  passed add up to less than \<^verbatim>\<open>2 ^ 64\<close>), no call panics or runs forever, every answer is in step with the
  shard (victims are distinct keys the shard holds), and every eviction frees what was asked for or
  names every key of the shard.
\<close>

theorem lru_policy_in_step:
  assumes "arena_laws A" "sum_list (map call_cost cs) < 2 ^ 64"
  shows "\<exists>as s'. policy_run (lru_policy A) cs (lru_policy_new A) = Some (as, s') \<and>
           in_step answer_ok {} cs as \<and> in_step answer_pays {} cs as"
proof -
  have t: "lru_tracks A (lru_new A) Map.empty" by (rule lru_new_tracks [OF assms(1)])
  with assms(2) lru.run_in_step [OF t, of cs] lru.run_pays [OF t, of cs] show ?thesis
    by (fastforce simp: lru_policy_def lru_policy_new_def)
qed

theorem lru_policy_in_step_witness:
  "\<exists>as s'. policy_run (lru_policy vec_arena) [OnAdmit (1::nat) 2, OnAdmit 2 3, OnAccess 1 2, Evict 1] (lru_policy_new vec_arena) = Some (as, s') \<and>
     in_step answer_ok {} [OnAdmit 1 2, OnAdmit 2 3, OnAccess 1 2, Evict 1] as"
  using lru_policy_in_step [OF vec_arena_laws, of "[OnAdmit (1::nat) 2, OnAdmit 2 3, OnAccess 1 2, Evict 1]"] by auto

text \<open>The plain queue FIFO is measured against.\<close>

fun fifo_spec_exec :: "'k policy_call \<Rightarrow> ('k \<times> nat) list \<Rightarrow> 'k policy_answer \<times> ('k \<times> nat) list" where
  "fifo_spec_exec (OnAccess k c) q = (Quiet, q)"
| "fifo_spec_exec (OnAdmit k c) q = (Decided Admit, if k \<in> fst ` set q then q else q @ [(k, c)])"
| "fifo_spec_exec (OnRemove k) q = (Quiet, drop_key k q)"
| "fifo_spec_exec (Evict n) q = (Evicted (map fst (reap n q)) (costs (reap n q)), unreaped n q)"
| "fifo_spec_exec Clear q = (Quiet, [])"

fun fifo_spec :: "'k policy_call list \<Rightarrow> ('k \<times> nat) list \<Rightarrow> 'k policy_answer list" where
  "fifo_spec [] q = []"
| "fifo_spec (c # cs) q = (let (a, q) = fifo_spec_exec c q in a # fifo_spec cs q)"

lemma drop_key_rev: "drop_key k (rev xs) = rev (drop_key k xs)"
  by (simp add: drop_key_def rev_filter)

lemma fifo_exec_spec:
  assumes A: "arena_laws A" and R: "lru_rep A l (rev q)" and fits: "costs q + call_cost c < 2 ^ 64"
  shows "\<exists>l'. policy_exec (fifo_policy A) c l = Some (fst (fifo_spec_exec c q), l') \<and>
           lru_rep A l' (rev (snd (fifo_spec_exec c q))) \<and> costs (snd (fifo_spec_exec c q)) \<le> costs q + call_cost c"
proof (cases c)
  case (OnAccess k n)
  with R show ?thesis by (auto simp: fifo_policy_def fifo_on_access_def)
next
  case (OnAdmit k n)
  then have "costs (drop_key k (rev q)) + n < 2 ^ 64" using costs_drop_key_le [of k "rev q"] fits by simp
  with A R obtain l' where "lru_push_front A k n l = Some l'" "lru_rep A l' ((k, n) # drop_key k (rev q))"
    by (rule lru_push_front_rep)
  then show ?thesis using OnAdmit R by (auto simp: fifo_policy_def fifo_on_admit_def)
next
  case (OnRemove k)
  from A R obtain l' where "lru_remove A k l = Some (map_of (rev q) k, l')" "lru_rep A l' (drop_key k (rev q))"
    by (rule lru_remove_rep)
  with OnRemove show ?thesis by (auto simp: fifo_policy_def fifo_on_remove_def drop_key_rev costs_drop_key_le)
next
  case (Evict n)
  then show ?thesis using fifo_evict_reaps [OF A R, of n] by (auto simp: fifo_policy_def costs_unreaped_le)
next
  case Clear
  then show ?thesis using lru_clear_rep [OF A, of l] by (auto simp: fifo_policy_def fifo_clear_def)
qed

lemma fifo_run_spec:
  assumes A: "arena_laws A" and "lru_rep A l (rev q)" "costs q + sum_list (map call_cost cs) < 2 ^ 64"
  shows "\<exists>l'. policy_run (fifo_policy A) cs l = Some (fifo_spec cs q, l')"
  using assms(2,3)
proof (induction cs arbitrary: l q)
  case Nil
  then show ?case by simp
next
  case (Cons c cs)
  obtain a q1 where e: "fifo_spec_exec c q = (a, q1)" by force
  from fifo_exec_spec [OF A Cons.prems(1), of c] Cons.prems(2) e obtain l1 where
    1: "policy_exec (fifo_policy A) c l = Some (a, l1)" "lru_rep A l1 (rev q1)" "costs q1 \<le> costs q + call_cost c" by auto
  with Cons.IH [OF 1(2)] Cons.prems(2) obtain l' where "policy_run (fifo_policy A) cs l1 = Some (fifo_spec cs q1, l')" by auto
  with 1 e show ?case by simp
qed

text \<open>
  (C27) FIFO under any history: no panic, every answer in step with the shard, every eviction pays;
  and eviction order is first admission order: running the same calls on the plain queue
  \<open>fifo_spec\<close> (append an admitted key that is not there, drop a removed one, ignore accesses,
  evict from the front) gives the same answers.
\<close>

theorem fifo_policy_in_step:
  assumes "arena_laws A" "sum_list (map call_cost cs) < 2 ^ 64"
  shows "\<exists>s'. policy_run (fifo_policy A) cs (fifo_new A) = Some (fifo_spec cs [], s') \<and>
           in_step answer_ok {} cs (fifo_spec cs []) \<and> in_step answer_pays {} cs (fifo_spec cs [])"
proof -
  have t: "lru_tracks A (fifo_new A) Map.empty" using lru_new_tracks [OF assms(1)] by (simp add: fifo_new_def)
  have "lru_rep A (fifo_new A) (rev [])" using lru_new_rep [OF assms(1)] by (simp add: fifo_new_def)
  from fifo_run_spec [OF assms(1) this, of cs] assms(2) obtain s' where
    r: "policy_run (fifo_policy A) cs (fifo_new A) = Some (fifo_spec cs [], s')" by auto
  with fifo.run_in_step [OF t, of cs] fifo.run_pays [OF t, of cs] assms(2) show ?thesis
    by (auto simp: fifo_policy_def)
qed

theorem fifo_policy_in_step_witness:
  "\<exists>s'. policy_run (fifo_policy vec_arena) [OnAdmit (1::nat) 2, OnAdmit 2 3, OnAdmit 1 9, OnAccess 1 2, Evict 1] (fifo_new vec_arena) =
     Some ([Decided Admit, Decided Admit, Decided Admit, Quiet, Evicted [1] 2], s')"
  using fifo_policy_in_step [OF vec_arena_laws, of "[OnAdmit (1::nat) 2, OnAdmit 2 3, OnAdmit 1 9, OnAccess 1 2, Evict 1]"] by auto

end
