(* ===== verification/Clock.thy ===== *)
theory Clock
  imports Policy
begin

section \<open>The Clock policy\<close>

text \<open>
  \<^verbatim>\<open>cache/src/policy/clock.rs\<close>: a map of entries with a reference bit, the keys in admission order, and
  a hand that sweeps over them. \<open>clock_sweep\<close> is the inner loop of \<^verbatim>\<open>evict\<close> (its argument is
  \<^verbatim>\<open>order_len * 2 - swept\<close>), \<open>clock_evict_loop\<close> the outer one.
\<close>

record clock_entry =
  ce_cost :: nat
  ce_referenced :: bool

record 'k clock_state =
  ck_items :: "'k \<rightharpoonup> clock_entry"
  ck_order :: "'k list"
  ck_hand :: nat

definition clock_new :: "'k clock_state" where
  "clock_new = \<lparr>ck_items = Map.empty, ck_order = [], ck_hand = 0\<rparr>"

definition clock_on_access :: "'k \<Rightarrow> nat \<Rightarrow> 'k clock_state \<Rightarrow> 'k clock_state option" where
  "clock_on_access key cost s =
     Some (case ck_items s key of
             Some entry \<Rightarrow> s\<lparr>ck_items := (ck_items s)(key \<mapsto> entry\<lparr>ce_referenced := True\<rparr>)\<rparr>
           | None \<Rightarrow> s)"

definition clock_on_admit :: "'k \<Rightarrow> nat \<Rightarrow> 'k clock_state \<Rightarrow> ('k admission_decision \<times> 'k clock_state) option" where
  "clock_on_admit key cost s =
     Some (Admit,
       if ck_items s key = None
       then s\<lparr>ck_items := (ck_items s)(key \<mapsto> \<lparr>ce_cost = cost, ce_referenced = False\<rparr>),
              ck_order := ck_order s @ [key]\<rparr>
       else s)"

definition clock_on_remove :: "'k \<Rightarrow> 'k clock_state \<Rightarrow> 'k clock_state option" where
  "clock_on_remove key s =
     Some (case ck_items s key of
             None \<Rightarrow> s
           | Some _ \<Rightarrow>
               (let s = s\<lparr>ck_items := (ck_items s)(key := None)\<rparr>
                in case position key (ck_order s) of
                     None \<Rightarrow> s
                   | Some pos \<Rightarrow>
                       (let s = s\<lparr>ck_order := vec_remove pos (ck_order s)\<rparr>
                        in if pos \<le> ck_hand s \<and> ck_hand s > 0 then s\<lparr>ck_hand := ck_hand s - 1\<rparr> else s)))"

fun clock_sweep :: "nat \<Rightarrow> 'k clock_state \<Rightarrow> (('k \<times> nat) option \<times> 'k clock_state) option" where
  "clock_sweep 0 s = Some (None, s)"
| "clock_sweep (Suc n) s =
     (let s = (if ck_hand s \<ge> length (ck_order s) then s\<lparr>ck_hand := 0\<rparr> else s);
          hand = ck_hand s
      in do { key \<leftarrow> vec_get (ck_order s) hand;
              let referenced = (case ck_items s key of None \<Rightarrow> False | Some e \<Rightarrow> ce_referenced e);
              (if referenced
               then do { e \<leftarrow> ck_items s key;
                         clock_sweep n (s\<lparr>ck_items := (ck_items s)(key \<mapsto> e\<lparr>ce_referenced := False\<rparr>),
                                          ck_hand := ck_hand s + 1\<rparr>) }
               else do { let s = s\<lparr>ck_order := vec_remove hand (ck_order s)\<rparr>;
                         e \<leftarrow> ck_items s key;
                         Some (Some (key, ce_cost e), s\<lparr>ck_items := (ck_items s)(key := None)\<rparr>) }) })"

partial_function (option) clock_evict_loop ::
  "nat \<Rightarrow> 'k list \<Rightarrow> nat \<Rightarrow> 'k clock_state \<Rightarrow> (('k list \<times> nat) \<times> 'k clock_state) option" where
  "clock_evict_loop cost_to_free victims total_cost_freed s =
     (if cost_to_free > 0 \<and> ck_order s \<noteq> []
      then do { (swept, s) \<leftarrow> clock_sweep (length (ck_order s) * 2) s;
                (case swept of
                   Some (key, cost) \<Rightarrow>
                     clock_evict_loop (saturating_sub cost_to_free cost) (victims @ [key]) (u64_add total_cost_freed cost) s
                 | None \<Rightarrow> clock_evict_loop cost_to_free victims total_cost_freed s) }
      else Some ((victims, total_cost_freed), s))"

definition clock_evict :: "nat \<Rightarrow> 'k clock_state \<Rightarrow> (('k list \<times> nat) \<times> 'k clock_state) option" where
  "clock_evict cost_to_free s = clock_evict_loop cost_to_free [] 0 s"

definition clock_clear :: "'k clock_state \<Rightarrow> 'k clock_state" where
  "clock_clear s = s\<lparr>ck_items := Map.empty, ck_order := [], ck_hand := 0\<rparr>"

definition clock_policy :: "('k, 'k clock_state) policy" where
  "clock_policy = \<lparr>pol_on_access = clock_on_access, pol_on_admit = clock_on_admit, pol_on_remove = clock_on_remove,
     pol_evict = clock_evict, pol_clear = clock_clear\<rparr>"

subsection \<open>What the state tracks\<close>

definition clock_costs :: "'k clock_state \<Rightarrow> 'k \<rightharpoonup> nat" where
  "clock_costs s = (\<lambda>k. map_option ce_cost (ck_items s k))"

definition clock_tracks :: "'k clock_state \<Rightarrow> ('k \<rightharpoonup> nat) \<Rightarrow> bool" where
  "clock_tracks s m \<longleftrightarrow>
     distinct (ck_order s) \<and> set (ck_order s) = dom m \<and> m = clock_costs s \<and> total_cost m < 2 ^ 64"

lemma clock_tracksD:
  assumes "clock_tracks s m"
  shows "distinct (ck_order s)" "set (ck_order s) = dom m" "m = clock_costs s" "total_cost m < 2 ^ 64"
    "dom (ck_items s) = dom m" "finite (dom m)"
  using assms by (auto simp: clock_tracks_def clock_costs_def intro: finite_subset [of _ "set (ck_order s)"])

lemma clock_costs_simps [simp]:
  "clock_costs (s\<lparr>ck_order := os\<rparr>) = clock_costs s"
  "clock_costs (s\<lparr>ck_hand := h\<rparr>) = clock_costs s"
  "clock_costs (s\<lparr>ck_items := (ck_items s')(k := None)\<rparr>) = (clock_costs s')(k := None)"
  "clock_costs (s\<lparr>ck_items := (ck_items s')(k \<mapsto> e)\<rparr>) = (clock_costs s')(k \<mapsto> ce_cost e)"
  by (auto simp: clock_costs_def)

text \<open>The keys whose reference bit is set: what bounds the sweep.\<close>

definition referenced_keys :: "'k clock_state \<Rightarrow> 'k set" where
  "referenced_keys s = {k. \<exists>e. ck_items s k = Some e \<and> ce_referenced e}"

lemma referenced_sub: "clock_tracks s m \<Longrightarrow> referenced_keys s \<subseteq> set (ck_order s)"
  using clock_tracksD(2,5) [of s m] by (auto simp: referenced_keys_def)

text \<open>One turn of the sweep: the position the hand reads, and the two ways to go on.\<close>

definition hand_pos :: "'k clock_state \<Rightarrow> nat" where
  "hand_pos s = (if ck_hand s \<ge> length (ck_order s) then 0 else ck_hand s)"

definition clock_pass :: "'k \<Rightarrow> clock_entry \<Rightarrow> 'k clock_state \<Rightarrow> 'k clock_state" where
  "clock_pass key e s = s\<lparr>ck_items := (ck_items s)(key \<mapsto> e\<lparr>ce_referenced := False\<rparr>), ck_hand := hand_pos s + 1\<rparr>"

definition clock_take :: "'k \<Rightarrow> 'k clock_state \<Rightarrow> 'k clock_state" where
  "clock_take key s =
     s\<lparr>ck_items := (ck_items s)(key := None), ck_order := vec_remove (hand_pos s) (ck_order s), ck_hand := hand_pos s\<rparr>"

lemma hand_pos_less: "ck_order s \<noteq> [] \<Longrightarrow> hand_pos s < length (ck_order s)"
  by (simp add: hand_pos_def)

lemma clock_sweep_step:
  assumes "ck_order s \<noteq> []" "key = ck_order s ! hand_pos s" "ck_items s key = Some e"
  shows "clock_sweep (Suc n) s =
    (if ce_referenced e then clock_sweep n (clock_pass key e s) else Some (Some (key, ce_cost e), clock_take key s))"
proof -
  have "(if ck_hand s \<ge> length (ck_order s) then s\<lparr>ck_hand := 0\<rparr> else s) = s\<lparr>ck_hand := hand_pos s\<rparr>"
    by (simp add: hand_pos_def)
  with assms hand_pos_less [OF assms(1)] show ?thesis
    by (simp add: Let_def clock_pass_def clock_take_def)
qed

declare clock_sweep.simps(2) [simp del]

lemma clock_step_at:
  assumes t: "clock_tracks s m" and o: "ck_order s \<noteq> []"
  obtains e where "ck_items s (ck_order s ! hand_pos s) = Some e" "m (ck_order s ! hand_pos s) = Some (ce_cost e)"
proof -
  have "ck_order s ! hand_pos s \<in> dom (ck_items s)"
    using hand_pos_less [OF o] clock_tracksD(2,5) [OF t] nth_mem by blast
  then obtain e where "ck_items s (ck_order s ! hand_pos s) = Some e" by blast
  with that show thesis by (simp add: clock_tracksD(3) [OF t] clock_costs_def)
qed

lemma clock_pass_tracks:
  assumes "clock_tracks s m" "ck_items s key = Some e"
  shows "clock_tracks (clock_pass key e s) m"
proof -
  have "clock_costs (clock_pass key e s) = clock_costs s" using assms(2) by (auto simp: clock_pass_def clock_costs_def)
  with clock_tracksD(1-4) [OF assms(1)] show ?thesis by (simp add: clock_tracks_def clock_pass_def)
qed

lemma referenced_pass: "referenced_keys (clock_pass key e s) = referenced_keys s - {key}"
  by (auto simp: referenced_keys_def clock_pass_def)

lemma order_pass [simp]: "ck_order (clock_pass key e s) = ck_order s"
  by (simp add: clock_pass_def)

lemma clock_drop_tracks:
  assumes t: "clock_tracks s m" and "i < length (ck_order s)" "key = ck_order s ! i"
    and f: "ck_items s' = (ck_items s)(key := None)" "ck_order s' = vec_remove i (ck_order s)"
  shows "clock_tracks s' (m(key := None))"
proof -
  note D = clock_tracksD [OF t]
  have "clock_costs s' = (clock_costs s)(key := None)" using f(1) by (auto simp: clock_costs_def)
  with D(3) have "clock_costs s' = m(key := None)" by simp
  moreover have "total_cost (m(key := None)) < 2 ^ 64" using total_drop_le [OF D(6), of key] D(4) by simp
  moreover have "distinct (ck_order s')" "set (ck_order s') = dom (m(key := None))"
    using assms D(1,2) by (simp_all add: set_vec_remove distinct_vec_remove)
  ultimately show ?thesis by (simp only: clock_tracks_def)
qed

lemma clock_take_tracks:
  assumes "clock_tracks s m" "ck_order s \<noteq> []" "key = ck_order s ! hand_pos s"
  shows "clock_tracks (clock_take key s) (m(key := None))"
  by (rule clock_drop_tracks [OF assms(1) hand_pos_less [OF assms(2)] assms(3)]) (simp_all add: clock_take_def)

lemma clock_sweep_finds:
  assumes "clock_tracks s m" "ck_order s \<noteq> []" "card (referenced_keys s) < n"
  shows "\<exists>k c s'. clock_sweep n s = Some (Some (k, c), s') \<and> m k = Some c \<and> clock_tracks s' (m(k := None))"
  using assms
proof (induction n arbitrary: s)
  case 0
  then show ?case by simp
next
  case (Suc n)
  let ?key = "ck_order s ! hand_pos s"
  from Suc.prems(1,2) obtain e where e: "ck_items s ?key = Some e" "m ?key = Some (ce_cost e)" by (rule clock_step_at)
  note step = clock_sweep_step [OF Suc.prems(2) refl e(1), of n]
  show ?case
  proof (cases "ce_referenced e")
    case True
    then have "?key \<in> referenced_keys s" using e by (auto simp: referenced_keys_def)
    moreover have "finite (referenced_keys s)" by (rule finite_subset [OF referenced_sub [OF Suc.prems(1)]]) simp
    ultimately have "card (referenced_keys (clock_pass ?key e s)) < n"
      using Suc.prems(3) card_Diff1_less [of "referenced_keys s" ?key] by (simp add: referenced_pass)
    then show ?thesis
      using Suc.IH [OF clock_pass_tracks [OF Suc.prems(1) e(1)], unfolded order_pass, OF Suc.prems(2)] True step by simp
  next
    case False
    with clock_take_tracks [OF Suc.prems(1,2) refl] e(2) step show ?thesis by (auto simp del: fun_upd_apply)
  qed
qed

interpretation clock_loop: victim_loop clock_tracks clock_evict_loop
proof unfold_locales
  fix s :: "'k clock_state" and m :: "'k \<rightharpoonup> nat" and n f :: nat and vs :: "'k list"
  assume t: "clock_tracks s m"
  show "finite (dom m)" by (rule clock_tracksD [OF t])
  show "clock_evict_loop n vs f s = Some ((vs, f), s)" if "n = 0 \<or> dom m = {}"
    using that clock_tracksD(2) [OF t] by (auto simp: clock_evict_loop.simps)
  show "\<exists>k c s'. m k = Some c \<and> clock_tracks s' (m(k := None)) \<and>
      clock_evict_loop n vs f s = clock_evict_loop (n - c) (vs @ [k]) (u64_add f c) s'" if "n > 0" "dom m \<noteq> {}"
  proof -
    have o: "ck_order s \<noteq> []" using that(2) clock_tracksD(2) [OF t] by (metis set_empty)
    have "card (referenced_keys s) \<le> length (ck_order s)"
      using card_mono [OF _ referenced_sub [OF t]] card_length [of "ck_order s"] by simp
    then have "card (referenced_keys s) < length (ck_order s) * 2" using o by (cases "ck_order s") auto
    from clock_sweep_finds [OF t o this] obtain k c s' where
      "clock_sweep (length (ck_order s) * 2) s = Some (Some (k, c), s')" "m k = Some c" "clock_tracks s' (m(k := None))" by blast
    with that(1) o show ?thesis
      by (intro exI [of _ k] exI [of _ c] exI [of _ s']) (simp add: clock_evict_loop.simps [of n vs f s] saturating_sub_def)
  qed
qed

lemma clock_evict_tracks:
  assumes "clock_tracks s m"
  shows "\<exists>vs f s' m'. clock_evict n s = Some ((vs, f), s') \<and> clock_tracks s' m' \<and> evicted m vs f m' \<and> (n \<le> f \<or> set vs = dom m)"
  using clock_loop.loop_evicts [OF assms, of 0 n "[]"] clock_tracksD(4) [OF assms] by (simp add: clock_evict_def)

lemma clock_access_tracks:
  assumes "clock_tracks s m"
  shows "\<exists>s'. clock_on_access k c s = Some s' \<and> clock_tracks s' m"
proof (cases "ck_items s k")
  case None
  with assms show ?thesis by (simp add: clock_on_access_def)
next
  case (Some e)
  then have "clock_costs (s\<lparr>ck_items := (ck_items s)(k \<mapsto> e\<lparr>ce_referenced := True\<rparr>)\<rparr>) = clock_costs s"
    by (auto simp: clock_costs_def)
  with Some clock_tracksD(1-4) [OF assms] show ?thesis by (simp add: clock_on_access_def clock_tracks_def)
qed

lemma clock_admit_tracks:
  assumes t: "clock_tracks s m" and fits: "total_cost m + c < 2 ^ 64"
  shows "\<exists>s'. clock_on_admit k c s = Some (Admit, s') \<and> clock_tracks s' (if k \<in> dom m then m else m(k \<mapsto> c))"
proof (cases "k \<in> dom m")
  case True
  with clock_tracksD(5) [OF t] obtain e where "ck_items s k = Some e" by (metis domD)
  with True t show ?thesis by (simp add: clock_on_admit_def)
next
  case False
  let ?s = "s\<lparr>ck_items := (ck_items s)(k \<mapsto> \<lparr>ce_cost = c, ce_referenced = False\<rparr>), ck_order := ck_order s @ [k]\<rparr>"
  from False clock_tracksD(5) [OF t] have "ck_items s k = None" by (metis domIff)
  moreover have "clock_costs ?s = m(k \<mapsto> c)" using clock_tracksD(3) [OF t] by (simp del: fun_upd_apply)
  then have "clock_tracks ?s (m(k \<mapsto> c))"
    using False fits clock_tracksD [OF t] total_upd_le [of m k c] by (auto simp: clock_tracks_def simp del: fun_upd_apply)
  ultimately show ?thesis using False by (simp add: clock_on_admit_def)
qed

lemma clock_remove_tracks:
  assumes t: "clock_tracks s m"
  shows "\<exists>s'. clock_on_remove k s = Some s' \<and> clock_tracks s' (m(k := None))"
proof (cases "k \<in> dom m")
  case False
  then have "m(k := None) = m" "ck_items s k = None"
    using clock_tracksD(5) [OF t] by (auto simp: domIff [symmetric] fun_upd_idem)
  with t show ?thesis by (simp add: clock_on_remove_def)
next
  case True
  note D = clock_tracksD [OF t]
  from True D(5) obtain e where e: "ck_items s k = Some e" by (metis domD)
  from True D(2) obtain p where p: "position k (ck_order s) = Some p" by (metis not_Some_eq position_None)
  note q = position_Some [OF p]
  let ?s = "s\<lparr>ck_items := (ck_items s)(k := None), ck_order := vec_remove p (ck_order s)\<rparr>"
  have tr: "clock_tracks ?s (m(k := None))" "clock_tracks (?s\<lparr>ck_hand := h\<rparr>) (m(k := None))" for h
    by (rule clock_drop_tracks [OF t, of p]; use q in simp)+
  with e p show ?thesis by (auto simp: clock_on_remove_def Let_def)
qed

interpretation clock: freeing_policy clock_tracks clock_on_access clock_on_admit clock_on_remove clock_evict clock_clear
proof unfold_locales
  fix s s' :: "'k clock_state" and m :: "'k \<rightharpoonup> nat" and k :: 'k and c n f :: nat and vs
  assume t: "clock_tracks s m"
  show "finite (dom m)" by (rule clock_tracksD [OF t])
  show "\<exists>s' m'. clock_on_access k c s = Some s' \<and> clock_tracks s' m' \<and> dom m' = dom m \<and> total_cost m' \<le> total_cost m + c"
    using clock_access_tracks [OF t, of k c] by (auto intro!: exI [of _ m])
  show "\<exists>s'. clock_on_remove k s = Some s' \<and> clock_tracks s' (m(k := None))" by (rule clock_remove_tracks [OF t])
  show "\<exists>vs f s' m'. clock_evict n s = Some ((vs, f), s') \<and> clock_tracks s' m' \<and> evicted m vs f m'"
    using clock_evict_tracks [OF t, of n] by blast
  show "n \<le> f \<or> set vs = dom m" if "clock_evict n s = Some ((vs, f), s')" using clock_evict_tracks [OF t, of n] that by auto
  show "clock_tracks (clock_clear s) Map.empty" by (simp add: clock_tracks_def clock_clear_def clock_costs_def)
  show "\<exists>d s' m'. clock_on_admit k c s = Some (d, s') \<and> clock_tracks s' m' \<and> total_cost m' \<le> total_cost m + c \<and>
      dom m' \<inter> victims_of d = {} \<and> dom m' \<union> victims_of d = insert k (dom m)" if "total_cost m + c < 2 ^ 64"
    using clock_admit_tracks [OF t that, of k] clock_tracksD(6) [OF t] by (rule keep_or_add_admit)
qed

subsection \<open>Properties\<close>

lemma clock_new_tracks: "clock_tracks clock_new Map.empty"
  by (simp add: clock_tracks_def clock_new_def clock_costs_def)

text \<open>
  (C32) Clock under any history: no call panics, the sweep always ends with a victim within two turns
  of the hand (so \<^verbatim>\<open>evict\<close> returns), every answer is in step with the shard, and every eviction
  frees what was asked for or empties the shard.
\<close>

theorem clock_policy_in_step:
  assumes "sum_list (map call_cost cs) < 2 ^ 64"
  shows "\<exists>as s'. policy_run clock_policy cs clock_new = Some (as, s') \<and>
           in_step answer_ok {} cs as \<and> in_step answer_pays {} cs as"
  using assms clock.run_in_step [OF clock_new_tracks, of cs] clock.run_pays [OF clock_new_tracks, of cs]
  by (fastforce simp: clock_policy_def)

theorem clock_policy_in_step_witness:
  "\<exists>as s'. policy_run clock_policy [OnAdmit (1::nat) 2, OnAdmit 2 3, OnAccess 1 2, Evict 1] clock_new = Some (as, s') \<and>
     in_step answer_pays {} [OnAdmit 1 2, OnAdmit 2 3, OnAccess 1 2, Evict 1] as"
  using clock_policy_in_step [of "[OnAdmit (1::nat) 2, OnAdmit 2 3, OnAccess 1 2, Evict 1]"] by auto

lemma hand_pos_pass: "ck_order s \<noteq> [] \<Longrightarrow> hand_pos (clock_pass key e s) = (hand_pos s + 1) mod length (ck_order s)"
proof -
  assume "ck_order s \<noteq> []"
  then have "hand_pos s < length (ck_order s)" by (rule hand_pos_less)
  moreover have "ck_hand (clock_pass key e s) = hand_pos s + 1" by (simp add: clock_pass_def)
  ultimately show ?thesis unfolding hand_pos_def [of "clock_pass key e s"] by (auto simp: mod_if)
qed

lemma clock_sweep_chance:
  assumes "clock_tracks s m" "ck_order s \<noteq> []" "d < length (ck_order s)" "d < n"
    and "ck_order s ! ((hand_pos s + d) mod length (ck_order s)) \<notin> referenced_keys s"
  shows "\<exists>j c s'. j \<le> d \<and>
     clock_sweep n s = Some (Some (ck_order s ! ((hand_pos s + j) mod length (ck_order s)), c), s') \<and>
     ck_order s ! ((hand_pos s + j) mod length (ck_order s)) \<notin> referenced_keys s"
  using assms
proof (induction d arbitrary: n s)
  case (0 n s)
  let ?key = "ck_order s ! hand_pos s"
  from "0.prems"(1,2) obtain e where e: "ck_items s ?key = Some e" by (rule clock_step_at)
  have "hand_pos s mod length (ck_order s) = hand_pos s" using hand_pos_less [OF "0.prems"(2)] by simp
  moreover from "0.prems"(4) obtain n' where "n = Suc n'" by (cases n) auto
  moreover from "0.prems"(5) calculation(1) e have "\<not> ce_referenced e" by (auto simp: referenced_keys_def)
  ultimately show ?case using clock_sweep_step [OF "0.prems"(2) refl e, of n'] "0.prems"(5) by auto
next
  case (Suc d n s)
  let ?L = "length (ck_order s)" and ?h = "hand_pos s"
  let ?key = "ck_order s ! ?h" and ?at = "\<lambda>j. ck_order s ! ((hand_pos s + j) mod length (ck_order s))"
  from Suc.prems(1,2) obtain e where e: "ck_items s ?key = Some e" by (rule clock_step_at)
  from Suc.prems(4) obtain n' where n': "n = Suc n'" "d < n'" by (cases n) auto
  note step = clock_sweep_step [OF Suc.prems(2) refl e, of n']
  have h: "?h < ?L" by (rule hand_pos_less [OF Suc.prems(2)])
  show ?case
  proof (cases "ce_referenced e")
    case False
    then have "?at 0 \<notin> referenced_keys s" using e h by (auto simp: referenced_keys_def)
    with False step n'(1) h show ?thesis
      by (intro exI [of _ 0] exI [of _ "ce_cost e"] exI [of _ "clock_take ?key s"]) simp
  next
    case True
    let ?s = "clock_pass ?key e s"
    have at: "ck_order ?s ! ((hand_pos ?s + j) mod length (ck_order ?s)) = ?at (Suc j)" for j
      by (simp add: hand_pos_pass [OF Suc.prems(2)] mod_simps)
    have "\<exists>j c s'. j \<le> d \<and> clock_sweep n' ?s = Some (Some (?at (Suc j), c), s') \<and> ?at (Suc j) \<notin> referenced_keys ?s"
      using Suc.IH [OF clock_pass_tracks [OF Suc.prems(1) e], of n'] Suc.prems(2,3,5) n'(2)
      unfolding at unfolding order_pass referenced_pass by simp
    then obtain j c s' where j: "j \<le> d" "clock_sweep n' ?s = Some (Some (?at (Suc j), c), s')" "?at (Suc j) \<notin> referenced_keys ?s"
      by blast
    have "(?h + Suc j) mod ?L \<noteq> ?h" using h j(1) Suc.prems(3) by (auto simp: mod_if)
    moreover have "(?h + Suc j) mod ?L < ?L" by (rule mod_less_divisor) (use h in linarith)
    ultimately have "?at (Suc j) \<noteq> ?key"
      using clock_tracksD(1) [OF Suc.prems(1)] h by (simp add: nth_eq_iff_index_eq)
    with j(3) have "?at (Suc j) \<notin> referenced_keys s" by (simp add: referenced_pass)
    with j(1,2) step True n'(1) show ?thesis
      by (intro exI [of _ "Suc j"] exI [of _ c] exI [of _ s']) simp
  qed
qed

lemma clock_sweep_unreferenced:
  assumes t: "clock_tracks s m" and u: "u \<in> dom m" "u \<notin> referenced_keys s" and n: "length (ck_order s) \<le> n"
  shows "\<exists>v c s'. clock_sweep n s = Some (Some (v, c), s') \<and> v \<notin> referenced_keys s"
proof -
  from u(1) clock_tracksD(2) [OF t] obtain i where i: "i < length (ck_order s)" "ck_order s ! i = u"
    by (metis in_set_conv_nth)
  then have o: "ck_order s \<noteq> []" by auto
  let ?L = "length (ck_order s)" and ?d = "(i + length (ck_order s) - hand_pos s) mod length (ck_order s)"
  have h: "hand_pos s < ?L" by (rule hand_pos_less [OF o])
  then have "(hand_pos s + ?d) mod ?L = i" using i(1) by (simp add: mod_simps)
  with i(2) u(2) have "ck_order s ! ((hand_pos s + ?d) mod ?L) \<notin> referenced_keys s" by simp
  moreover have "?d < ?L" by (rule mod_less_divisor) (use o in simp)
  ultimately show ?thesis using clock_sweep_chance [OF t o, of ?d n] n by fastforce
qed

text \<open>
  (C33) The second chance. As long as some tracked key has not been referenced since the hand last
  cleared its bit, the first victim of an eviction is a key that has not been referenced.
\<close>

theorem clock_second_chance:
  assumes "clock_tracks s m" "u \<in> dom m" "u \<notin> referenced_keys s" "n > 0"
  shows "\<exists>v ws f s'. clock_evict n s = Some ((v # ws, f), s') \<and> v \<notin> referenced_keys s"
proof -
  have o: "ck_order s \<noteq> []" using assms(2) clock_tracksD(2) [OF assms(1)] by auto
  from clock_sweep_unreferenced [OF assms(1-3), of "length (ck_order s) * 2"] obtain v c s1 where
    v: "clock_sweep (length (ck_order s) * 2) s = Some (Some (v, c), s1)" "v \<notin> referenced_keys s" by auto
  have "card (referenced_keys s) \<le> length (ck_order s)"
    using card_mono [OF _ referenced_sub [OF assms(1)]] card_length [of "ck_order s"] by simp
  then have "card (referenced_keys s) < length (ck_order s) * 2" using o by (cases "ck_order s") auto
  from clock_sweep_finds [OF assms(1) o this] v have m: "m v = Some c" "clock_tracks s1 (m(v := None))" by auto
  have fin: "finite (dom m)" by (rule clock_tracksD [OF assms(1)])
  have "total_cost m = c + total_cost (m(v := None))" by (rule total_split [OF fin m(1)])
  with clock_tracksD(4) [OF assms(1)] have c: "c + total_cost (m(v := None)) < 2 ^ 64" by simp
  then have "u64_add 0 c = c" by simp
  with v(1) o assms(4) have "clock_evict n s = clock_evict_loop (n - c) [v] c s1"
    by (simp add: clock_evict_def clock_evict_loop.simps [of n "[]"] saturating_sub_def)
  with clock_loop.loop_evicts [OF m(2) c, of "n - c" "[v]"] v(2) show ?thesis by auto
qed

theorem clock_second_chance_witness:
  "\<exists>v ws f s'. clock_evict 1 \<lparr>ck_items = [1 \<mapsto> \<lparr>ce_cost = 2, ce_referenced = True\<rparr>, 2 \<mapsto> \<lparr>ce_cost = 3, ce_referenced = False\<rparr>],
      ck_order = [1, 2::nat], ck_hand = 0\<rparr> = Some ((v # ws, f), s') \<and> v \<noteq> 1"
proof -
  let ?s = "\<lparr>ck_items = [1 \<mapsto> \<lparr>ce_cost = 2, ce_referenced = True\<rparr>, 2 \<mapsto> \<lparr>ce_cost = 3, ce_referenced = False\<rparr>],
      ck_order = [1, 2::nat], ck_hand = 0\<rparr>"
  have m: "clock_costs ?s = [1 \<mapsto> 2, 2 \<mapsto> 3]" by (auto simp: clock_costs_def)
  have "total_cost [1 \<mapsto> 2, 2::nat \<mapsto> 3] = 5" by (simp add: total_cost_def)
  with m have t: "clock_tracks ?s [1 \<mapsto> 2, 2 \<mapsto> 3]" by (simp only: clock_tracks_def) auto
  have "2 \<notin> referenced_keys ?s" "1 \<in> referenced_keys ?s" by (auto simp: referenced_keys_def)
  then show ?thesis using clock_second_chance [OF t, of 2 1] by auto
qed

end
