(* ===== verification/Sieve.thy ===== *)
theory Sieve
  imports Policy
begin

section \<open>The SIEVE policy\<close>

text \<open>
  \<^verbatim>\<open>cache/src/policy/sieve.rs\<close>: keys in admission order (newest at the front), a visited bit per key, and a
  hand that counts from the back. \<open>sieve_sweep\<close> is the inner loop of \<^verbatim>\<open>evict\<close>, \<open>sieve_pick\<close>
  the rest of the body of the outer one, which takes the oldest key when the sweep found none.
\<close>

record sieve_entry =
  se_cost :: nat
  se_visited :: bool

record 'k sieve_state =
  sv_order :: "'k list"
  sv_items :: "'k \<rightharpoonup> sieve_entry"
  sv_hand :: nat

definition sieve_new :: "'k sieve_state" where
  "sieve_new = \<lparr>sv_order = [], sv_items = Map.empty, sv_hand = 0\<rparr>"

definition sieve_on_access :: "'k \<Rightarrow> nat \<Rightarrow> 'k sieve_state \<Rightarrow> 'k sieve_state option" where
  "sieve_on_access key cost s =
     Some (case sv_items s key of
             Some entry \<Rightarrow> s\<lparr>sv_items := (sv_items s)(key \<mapsto> entry\<lparr>se_visited := True\<rparr>)\<rparr>
           | None \<Rightarrow> s)"

definition sieve_on_admit :: "'k \<Rightarrow> nat \<Rightarrow> 'k sieve_state \<Rightarrow> ('k admission_decision \<times> 'k sieve_state) option" where
  "sieve_on_admit key cost s =
     (let s = (if sv_items s key \<noteq> None then s\<lparr>sv_order := filter (\<lambda>k. k \<noteq> key) (sv_order s)\<rparr> else s);
          s = s\<lparr>sv_items := (sv_items s)(key \<mapsto> \<lparr>se_cost = cost, se_visited = False\<rparr>)\<rparr>;
          s = s\<lparr>sv_order := key # sv_order s\<rparr>
      in Some (Admit, s))"

definition sieve_on_remove :: "'k \<Rightarrow> 'k sieve_state \<Rightarrow> 'k sieve_state option" where
  "sieve_on_remove key s =
     (let s = s\<lparr>sv_items := (sv_items s)(key := None)\<rparr>;
          s = s\<lparr>sv_order := filter (\<lambda>k. k \<noteq> key) (sv_order s)\<rparr>
      in Some (if sv_hand s \<ge> length (sv_order s) then s\<lparr>sv_hand := 0\<rparr> else s))"

function sieve_sweep :: "'k sieve_state \<Rightarrow> (('k \<times> nat) option \<times> 'k sieve_state) option" where
  "sieve_sweep s =
     (if sv_hand s < length (sv_order s)
      then do { let index = length (sv_order s) - 1 - sv_hand s;
                key \<leftarrow> vec_get (sv_order s) index;
                let visited = (case sv_items s key of None \<Rightarrow> False | Some e \<Rightarrow> se_visited e);
                (if \<not> visited
                 then do { let s = s\<lparr>sv_order := vec_remove index (sv_order s)\<rparr>;
                           e \<leftarrow> sv_items s key;
                           Some (Some (key, se_cost e), s\<lparr>sv_items := (sv_items s)(key := None)\<rparr>) }
                 else do { e \<leftarrow> sv_items s key;
                           sieve_sweep (s\<lparr>sv_items := (sv_items s)(key \<mapsto> e\<lparr>se_visited := False\<rparr>),
                                          sv_hand := sv_hand s + 1\<rparr>) }) }
      else Some (None, s))"
  by pat_completeness auto
termination by (relation "measure (\<lambda>s. length (sv_order s) - sv_hand s)") auto

definition sieve_pick :: "nat \<Rightarrow> 'k sieve_state \<Rightarrow> (('k \<times> nat) option \<times> 'k sieve_state) option" where
  "sieve_pick cost_to_free s =
     do { (found, s) \<leftarrow> sieve_sweep s;
          (case found of
             Some v \<Rightarrow> Some (Some v, s)
           | None \<Rightarrow>
               (let s = s\<lparr>sv_hand := 0\<rparr>
                in if cost_to_free > 0 \<and> sv_order s \<noteq> []
                   then do { let lru_index = length (sv_order s) - 1;
                             key_to_evict \<leftarrow> vec_get (sv_order s) lru_index;
                             let s = s\<lparr>sv_order := vec_remove lru_index (sv_order s)\<rparr>;
                             e \<leftarrow> sv_items s key_to_evict;
                             let s = s\<lparr>sv_items := (sv_items s)(key_to_evict := None)\<rparr>;
                             Some (Some (key_to_evict, se_cost e), s\<lparr>sv_hand := 0\<rparr>) }
                   else Some (None, s))) }"

partial_function (option) sieve_evict_loop ::
  "nat \<Rightarrow> 'k list \<Rightarrow> nat \<Rightarrow> 'k sieve_state \<Rightarrow> (('k list \<times> nat) \<times> 'k sieve_state) option" where
  "sieve_evict_loop cost_to_free victims total_cost_freed s =
     (if cost_to_free > 0 \<and> sv_order s \<noteq> []
      then do { (picked, s) \<leftarrow> sieve_pick cost_to_free s;
                (case picked of
                   Some (key, cost) \<Rightarrow>
                     sieve_evict_loop (saturating_sub cost_to_free cost) (victims @ [key]) (u64_add total_cost_freed cost) s
                 | None \<Rightarrow> sieve_evict_loop cost_to_free victims total_cost_freed s) }
      else Some ((victims, total_cost_freed), s))"

definition sieve_evict :: "nat \<Rightarrow> 'k sieve_state \<Rightarrow> (('k list \<times> nat) \<times> 'k sieve_state) option" where
  "sieve_evict cost_to_free s = sieve_evict_loop cost_to_free [] 0 s"

definition sieve_clear :: "'k sieve_state \<Rightarrow> 'k sieve_state" where
  "sieve_clear s = s\<lparr>sv_order := [], sv_items := Map.empty, sv_hand := 0\<rparr>"

definition sieve_policy :: "('k, 'k sieve_state) policy" where
  "sieve_policy = \<lparr>pol_on_access = sieve_on_access, pol_on_admit = sieve_on_admit, pol_on_remove = sieve_on_remove,
     pol_evict = sieve_evict, pol_clear = sieve_clear\<rparr>"

declare sieve_sweep.simps [simp del]

subsection \<open>What the state tracks\<close>

definition sieve_costs :: "'k sieve_state \<Rightarrow> 'k \<rightharpoonup> nat" where
  "sieve_costs s = (\<lambda>k. map_option se_cost (sv_items s k))"

definition sieve_tracks :: "'k sieve_state \<Rightarrow> ('k \<rightharpoonup> nat) \<Rightarrow> bool" where
  "sieve_tracks s m \<longleftrightarrow>
     distinct (sv_order s) \<and> set (sv_order s) = dom m \<and> m = sieve_costs s \<and> total_cost m < 2 ^ 64"

lemma sieve_tracksD:
  assumes "sieve_tracks s m"
  shows "distinct (sv_order s)" "set (sv_order s) = dom m" "m = sieve_costs s" "total_cost m < 2 ^ 64"
    "dom (sv_items s) = dom m" "finite (dom m)"
  using assms by (auto simp: sieve_tracks_def sieve_costs_def intro: finite_subset [of _ "set (sv_order s)"])

lemma sieve_tracks_cong:
  assumes "sieve_tracks s m" "sv_order s' = sv_order s" "sieve_costs s' = sieve_costs s"
  shows "sieve_tracks s' m"
  using sieve_tracksD(1-4) [OF assms(1)] assms(2,3) by (simp add: sieve_tracks_def)

lemma sieve_entry_at:
  assumes "sieve_tracks s m" "i < length (sv_order s)"
  obtains e where "sv_items s (sv_order s ! i) = Some e" "m (sv_order s ! i) = Some (se_cost e)"
proof -
  have "sv_order s ! i \<in> dom (sv_items s)" using assms sieve_tracksD(2,5) [OF assms(1)] nth_mem by blast
  then obtain e where "sv_items s (sv_order s ! i) = Some e" by blast
  with that show thesis by (simp add: sieve_tracksD(3) [OF assms(1)] sieve_costs_def)
qed

lemma sieve_drop_tracks:
  assumes t: "sieve_tracks s m" and f: "sv_items s' = (sv_items s)(key := None)"
    and o: "distinct (sv_order s')" "set (sv_order s') = set (sv_order s) - {key}"
  shows "sieve_tracks s' (m(key := None))"
proof -
  note D = sieve_tracksD [OF t]
  have "sieve_costs s' = (sieve_costs s)(key := None)" using f by (auto simp: sieve_costs_def)
  with D(3) have "sieve_costs s' = m(key := None)" by simp
  moreover have "total_cost (m(key := None)) < 2 ^ 64" using total_drop_le [OF D(6), of key] D(4) by simp
  moreover have "set (sv_order s') = dom (m(key := None))" using o D(2) by simp
  ultimately show ?thesis using o(1) by (simp only: sieve_tracks_def)
qed

lemma sieve_take_tracks:
  assumes "sieve_tracks s m" "i < length (sv_order s)"
    and "sv_items s' = (sv_items s)(sv_order s ! i := None)" "sv_order s' = vec_remove i (sv_order s)"
  shows "sieve_tracks s' (m(sv_order s ! i := None))"
  using assms sieve_tracksD(1) [OF assms(1)]
  by (intro sieve_drop_tracks [OF assms(1)]) (simp_all add: set_vec_remove distinct_vec_remove)

lemma sieve_sweep_tracks:
  assumes "sieve_tracks s m"
  shows "\<exists>found s'. sieve_sweep s = Some (found, s') \<and>
    (case found of None \<Rightarrow> sieve_tracks s' m | Some (k, c) \<Rightarrow> m k = Some c \<and> sieve_tracks s' (m(k := None)))"
  using assms
proof (induction s rule: sieve_sweep.induct)
  case (1 s)
  show ?case
  proof (cases "sv_hand s < length (sv_order s)")
    case False
    with "1.prems" show ?thesis by (simp add: sieve_sweep.simps)
  next
    case True
    let ?i = "length (sv_order s) - 1 - sv_hand s"
    let ?key = "sv_order s ! ?i"
    have i: "?i < length (sv_order s)" using True by simp
    from "1.prems" i obtain e where e: "sv_items s ?key = Some e" "m ?key = Some (se_cost e)" by (rule sieve_entry_at)
    show ?thesis
    proof (cases "se_visited e")
      case False
      let ?s = "s\<lparr>sv_order := vec_remove ?i (sv_order s), sv_items := (sv_items s)(?key := None)\<rparr>"
      have "sieve_sweep s = Some (Some (?key, se_cost e), ?s)"
        using True i e False by (simp add: sieve_sweep.simps [of s] Let_def)
      moreover have "sieve_tracks ?s (m(?key := None))" by (rule sieve_take_tracks [OF "1.prems" i]) simp_all
      ultimately show ?thesis using e(2) by (simp del: fun_upd_apply)
    next
      case visited: True
      let ?s = "s\<lparr>sv_items := (sv_items s)(?key \<mapsto> e\<lparr>se_visited := False\<rparr>), sv_hand := sv_hand s + 1\<rparr>"
      have "sieve_tracks ?s m" by (rule sieve_tracks_cong [OF "1.prems"]) (use e in \<open>auto simp: sieve_costs_def\<close>)
      moreover have "sieve_sweep s = sieve_sweep ?s"
        using True i e visited by (simp add: sieve_sweep.simps [of s] Let_def)
      ultimately show ?thesis using "1.IH" [OF True refl _ refl, of ?key e] i e visited by simp
    qed
  qed
qed

lemma sieve_pick_tracks:
  assumes t: "sieve_tracks s m" and "n > 0" "dom m \<noteq> {}"
  shows "\<exists>k c s'. sieve_pick n s = Some (Some (k, c), s') \<and> m k = Some c \<and> sieve_tracks s' (m(k := None))"
proof -
  from sieve_sweep_tracks [OF t] obtain found s1 where sw: "sieve_sweep s = Some (found, s1)"
    and f: "case found of None \<Rightarrow> sieve_tracks s1 m | Some (k, c) \<Rightarrow> m k = Some c \<and> sieve_tracks s1 (m(k := None))" by blast
  show ?thesis
  proof (cases found)
    case (Some v)
    with f sw show ?thesis by (cases v) (simp add: sieve_pick_def)
  next
    case None
    with f have t1: "sieve_tracks s1 m" by simp
    let ?i = "length (sv_order s1) - 1"
    have o: "sv_order s1 \<noteq> []" using assms(3) sieve_tracksD(2) [OF t1] by (metis set_empty)
    then have i: "?i < length (sv_order s1)" by simp
    from t1 i obtain e where e: "sv_items s1 (sv_order s1 ! ?i) = Some e" "m (sv_order s1 ! ?i) = Some (se_cost e)"
      by (rule sieve_entry_at)
    let ?s = "s1\<lparr>sv_order := vec_remove ?i (sv_order s1), sv_items := (sv_items s1)(sv_order s1 ! ?i := None), sv_hand := 0\<rparr>"
    have "sieve_pick n s = Some (Some (sv_order s1 ! ?i, se_cost e), ?s)"
      using sw None o i e(1) assms(2) by (simp add: sieve_pick_def Let_def)
    moreover have "sieve_tracks ?s (m(sv_order s1 ! ?i := None))" by (rule sieve_take_tracks [OF t1 i]) simp_all
    ultimately show ?thesis using e(2) by blast
  qed
qed

interpretation sieve_loop: victim_loop sieve_tracks sieve_evict_loop
proof unfold_locales
  fix s :: "'k sieve_state" and m :: "'k \<rightharpoonup> nat" and n f :: nat and vs :: "'k list"
  assume t: "sieve_tracks s m"
  show "finite (dom m)" by (rule sieve_tracksD [OF t])
  show "sieve_evict_loop n vs f s = Some ((vs, f), s)" if "n = 0 \<or> dom m = {}"
    using that sieve_tracksD(2) [OF t] by (auto simp: sieve_evict_loop.simps)
  show "\<exists>k c s'. m k = Some c \<and> sieve_tracks s' (m(k := None)) \<and>
      sieve_evict_loop n vs f s = sieve_evict_loop (n - c) (vs @ [k]) (u64_add f c) s'" if "n > 0" "dom m \<noteq> {}"
  proof -
    have o: "sv_order s \<noteq> []" using that(2) sieve_tracksD(2) [OF t] by (metis set_empty)
    from sieve_pick_tracks [OF t that] obtain k c s' where
      "sieve_pick n s = Some (Some (k, c), s')" "m k = Some c" "sieve_tracks s' (m(k := None))" by blast
    with that(1) o show ?thesis
      by (intro exI [of _ k] exI [of _ c] exI [of _ s']) (simp add: sieve_evict_loop.simps [of n vs f s] saturating_sub_def)
  qed
qed

lemma sieve_evict_tracks:
  assumes "sieve_tracks s m"
  shows "\<exists>vs f s' m'. sieve_evict n s = Some ((vs, f), s') \<and> sieve_tracks s' m' \<and> evicted m vs f m' \<and> (n \<le> f \<or> set vs = dom m)"
  using sieve_loop.loop_evicts [OF assms, of 0 n "[]"] sieve_tracksD(4) [OF assms] by (simp add: sieve_evict_def)

lemma sieve_access_tracks:
  assumes "sieve_tracks s m"
  shows "\<exists>s'. sieve_on_access k c s = Some s' \<and> sieve_tracks s' m"
proof -
  have "\<exists>s'. sieve_on_access k c s = Some s' \<and> sv_order s' = sv_order s \<and> sieve_costs s' = sieve_costs s"
    by (cases "sv_items s k") (auto simp: sieve_on_access_def sieve_costs_def)
  then obtain s' where s': "sieve_on_access k c s = Some s'" "sv_order s' = sv_order s" "sieve_costs s' = sieve_costs s"
    by blast
  from s'(1) sieve_tracks_cong [OF assms s'(2,3)] show ?thesis by blast
qed

lemma sieve_admit_tracks:
  assumes t: "sieve_tracks s m" and fits: "total_cost m + c < 2 ^ 64"
  shows "\<exists>s'. sieve_on_admit k c s = Some (Admit, s') \<and> sieve_tracks s' (m(k \<mapsto> c))"
proof -
  note D = sieve_tracksD [OF t]
  define order where "order = (if sv_items s k \<noteq> None then filter (\<lambda>x. x \<noteq> k) (sv_order s) else sv_order s)"
  let ?s = "s\<lparr>sv_items := (sv_items s)(k \<mapsto> \<lparr>se_cost = c, se_visited = False\<rparr>), sv_order := k # order\<rparr>"
  have ad: "sieve_on_admit k c s = Some (Admit, ?s)" by (simp add: sieve_on_admit_def order_def Let_def)
  have "set order = dom m - {k}" "distinct order"
    using D(1,2,5) by (auto simp: order_def domIff [symmetric] simp del: domIff)
  then have "distinct (k # order)" "set (k # order) = dom (m(k \<mapsto> c))" by auto
  moreover have "m(k \<mapsto> c) = sieve_costs ?s" by (auto simp: sieve_costs_def D(3))
  moreover have "total_cost (m(k \<mapsto> c)) < 2 ^ 64" using total_upd_le [OF D(6), of k c] fits by simp
  ultimately have "sieve_tracks ?s (m(k \<mapsto> c))" by (simp add: sieve_tracks_def)
  with ad show ?thesis by blast
qed

lemma sieve_remove_tracks:
  assumes t: "sieve_tracks s m"
  shows "\<exists>s'. sieve_on_remove k s = Some s' \<and> sieve_tracks s' (m(k := None))"
proof -
  obtain s' where s': "sieve_on_remove k s = Some s'" "sv_items s' = (sv_items s)(k := None)"
    "sv_order s' = filter (\<lambda>x. x \<noteq> k) (sv_order s)"
    by (simp add: sieve_on_remove_def Let_def split: if_splits)
  have "sieve_tracks s' (m(k := None))"
    by (rule sieve_drop_tracks [OF t s'(2)]) (use s'(3) sieve_tracksD(1) [OF t] in auto)
  with s'(1) show ?thesis by blast
qed

interpretation sieve: freeing_policy sieve_tracks sieve_on_access sieve_on_admit sieve_on_remove sieve_evict sieve_clear
proof unfold_locales
  fix s s' :: "'k sieve_state" and m :: "'k \<rightharpoonup> nat" and k :: 'k and c n f :: nat and vs
  assume t: "sieve_tracks s m"
  show "finite (dom m)" by (rule sieve_tracksD [OF t])
  show "\<exists>s' m'. sieve_on_access k c s = Some s' \<and> sieve_tracks s' m' \<and> dom m' = dom m \<and> total_cost m' \<le> total_cost m + c"
    using sieve_access_tracks [OF t, of k c] by (auto intro!: exI [of _ m])
  show "\<exists>s'. sieve_on_remove k s = Some s' \<and> sieve_tracks s' (m(k := None))" by (rule sieve_remove_tracks [OF t])
  show "\<exists>vs f s' m'. sieve_evict n s = Some ((vs, f), s') \<and> sieve_tracks s' m' \<and> evicted m vs f m'"
    using sieve_evict_tracks [OF t, of n] by blast
  show "n \<le> f \<or> set vs = dom m" if "sieve_evict n s = Some ((vs, f), s')" using sieve_evict_tracks [OF t, of n] that by auto
  show "sieve_tracks (sieve_clear s) Map.empty" by (simp add: sieve_tracks_def sieve_clear_def sieve_costs_def)
  show "\<exists>d s' m'. sieve_on_admit k c s = Some (d, s') \<and> sieve_tracks s' m' \<and> total_cost m' \<le> total_cost m + c \<and>
      dom m' \<inter> victims_of d = {} \<and> dom m' \<union> victims_of d = insert k (dom m)" if "total_cost m + c < 2 ^ 64"
    using sieve_admit_tracks [OF t that, of k] sieve_tracksD(6) [OF t] by (rule put_admit)
qed

subsection \<open>Properties\<close>

lemma sieve_new_tracks: "sieve_tracks sieve_new Map.empty"
  by (simp add: sieve_tracks_def sieve_new_def sieve_costs_def)

text \<open>
  (C31) SIEVE under any history: no call panics, \<^verbatim>\<open>evict\<close> returns, every answer is in step with the
  shard, and every eviction frees what was asked for or empties the shard.
\<close>

theorem sieve_policy_in_step:
  assumes "sum_list (map call_cost cs) < 2 ^ 64"
  shows "\<exists>as s'. policy_run sieve_policy cs sieve_new = Some (as, s') \<and>
           in_step answer_ok {} cs as \<and> in_step answer_pays {} cs as"
  using assms sieve.run_in_step [OF sieve_new_tracks, of cs] sieve.run_pays [OF sieve_new_tracks, of cs]
  by (fastforce simp: sieve_policy_def)

theorem sieve_policy_in_step_witness:
  "\<exists>as s'. policy_run sieve_policy [OnAdmit (1::nat) 2, OnAdmit 2 3, OnAccess 1 2, Evict 1] sieve_new = Some (as, s') \<and>
     in_step answer_pays {} [OnAdmit 1 2, OnAdmit 2 3, OnAccess 1 2, Evict 1] as"
  using sieve_policy_in_step [of "[OnAdmit (1::nat) 2, OnAdmit 2 3, OnAccess 1 2, Evict 1]"] by auto

end
