(* ===== verification/Random_Null.thy ===== *)
theory Random_Null
  imports Policy
begin

section \<open>The Random and Null policies\<close>

text \<open>
  \<^verbatim>\<open>cache/src/policy/random.rs\<close> and \<^verbatim>\<open>cache/src/policy/null.rs\<close>. The random choice is the \<^verbatim>\<open>rand\<close> crate's
  \<^verbatim>\<open>IteratorRandom::choose\<close>: a parameter \<open>pick\<close> of the generator's state and the keys, of which only
  the documented behaviour is used: it answers \<^verbatim>\<open>None\<close> exactly for an empty iterator and an element
  of it otherwise.
\<close>

type_synonym ('g, 'k) chooser = "'g \<Rightarrow> 'k set \<Rightarrow> 'k option \<times> 'g"

definition choose_laws :: "('g, 'k) chooser \<Rightarrow> bool" where
  "choose_laws pick \<longleftrightarrow>
     (\<forall>g K. finite K \<longrightarrow> (case fst (pick g K) of None \<Rightarrow> K = {} | Some k \<Rightarrow> k \<in> K))"

record ('g, 'k) random_state =
  rd_items :: "'k \<rightharpoonup> nat"
  rd_rng :: 'g

definition random_new :: "'g \<Rightarrow> ('g, 'k) random_state" where
  "random_new g = \<lparr>rd_items = Map.empty, rd_rng = g\<rparr>"

definition random_on_access :: "'k \<Rightarrow> nat \<Rightarrow> ('g, 'k) random_state \<Rightarrow> ('g, 'k) random_state option" where
  "random_on_access key cost s = Some s"

definition random_on_admit :: "'k \<Rightarrow> nat \<Rightarrow> ('g, 'k) random_state \<Rightarrow> ('k admission_decision \<times> ('g, 'k) random_state) option" where
  "random_on_admit key cost s = Some (Admit, s\<lparr>rd_items := (rd_items s)(key \<mapsto> cost)\<rparr>)"

definition random_on_remove :: "'k \<Rightarrow> ('g, 'k) random_state \<Rightarrow> ('g, 'k) random_state option" where
  "random_on_remove key s = Some (s\<lparr>rd_items := (rd_items s)(key := None)\<rparr>)"

partial_function (option) random_evict_loop ::
  "('g, 'k) chooser \<Rightarrow> nat \<Rightarrow> 'k list \<Rightarrow> nat \<Rightarrow> ('g, 'k) random_state \<Rightarrow> (('k list \<times> nat) \<times> ('g, 'k) random_state) option" where
  "random_evict_loop pick cost_to_free victims total_cost_freed s =
     (if cost_to_free > 0 \<and> dom (rd_items s) \<noteq> {}
      then (let (chosen, g) = pick (rd_rng s) (dom (rd_items s));
                s = s\<lparr>rd_rng := g\<rparr>
            in case chosen of
                 None \<Rightarrow> Some ((victims, total_cost_freed), s)
               | Some key_to_evict \<Rightarrow>
                   (case rd_items s key_to_evict of
                      Some cost \<Rightarrow>
                        random_evict_loop pick (saturating_sub cost_to_free cost) (victims @ [key_to_evict])
                          (u64_add total_cost_freed cost) (s\<lparr>rd_items := (rd_items s)(key_to_evict := None)\<rparr>)
                    | None \<Rightarrow> random_evict_loop pick cost_to_free victims total_cost_freed s))
      else Some ((victims, total_cost_freed), s))"

definition random_evict ::
  "('g, 'k) chooser \<Rightarrow> nat \<Rightarrow> ('g, 'k) random_state \<Rightarrow> (('k list \<times> nat) \<times> ('g, 'k) random_state) option" where
  "random_evict pick cost_to_free s = random_evict_loop pick cost_to_free [] 0 s"

definition random_clear :: "('g, 'k) random_state \<Rightarrow> ('g, 'k) random_state" where
  "random_clear s = s\<lparr>rd_items := Map.empty\<rparr>"

definition random_policy :: "('g, 'k) chooser \<Rightarrow> ('k, ('g, 'k) random_state) policy" where
  "random_policy pick = \<lparr>pol_on_access = random_on_access, pol_on_admit = random_on_admit, pol_on_remove = random_on_remove,
     pol_evict = random_evict pick, pol_clear = random_clear\<rparr>"

text \<open>The policy of an unbounded cache.\<close>

definition null_policy :: "('k, unit) policy" where
  "null_policy = \<lparr>pol_on_access = (\<lambda>_ _ s. Some s), pol_on_admit = (\<lambda>_ _ s. Some (Admit, s)), pol_on_remove = (\<lambda>_ s. Some s),
     pol_evict = (\<lambda>_ s. Some (([], 0), s)), pol_clear = (\<lambda>s. s)\<rparr>"

subsection \<open>The contract\<close>

definition random_tracks :: "('g, 'k) chooser \<Rightarrow> ('g, 'k) random_state \<Rightarrow> ('k \<rightharpoonup> nat) \<Rightarrow> bool" where
  "random_tracks pick s m \<longleftrightarrow> choose_laws pick \<and> rd_items s = m \<and> finite (dom m) \<and> total_cost m < 2 ^ 64"

lemma random_choice:
  assumes "random_tracks pick s m" "dom m \<noteq> {}"
  obtains k c g where "pick (rd_rng s) (dom m) = (Some k, g)" "m k = Some c"
proof -
  from assms have "case fst (pick (rd_rng s) (dom m)) of None \<Rightarrow> dom m = {} | Some k \<Rightarrow> k \<in> dom m"
    unfolding random_tracks_def choose_laws_def by blast
  with assms(2) obtain k where "fst (pick (rd_rng s) (dom m)) = Some k" "k \<in> dom m"
    by (cases "fst (pick (rd_rng s) (dom m))") auto
  with that show thesis by (metis domD prod.collapse)
qed

lemma random_drop_tracks:
  assumes "random_tracks pick s m" "rd_items s' = m(k := None)"
  shows "random_tracks pick s' (m(k := None))"
  using assms total_drop_le [of m k] by (simp add: random_tracks_def del: fun_upd_apply)

interpretation random_loop: victim_loop "random_tracks pick" "random_evict_loop pick"
  for pick :: "('g, 'k) chooser"
proof unfold_locales
  fix s :: "('g, 'k) random_state" and m :: "'k \<rightharpoonup> nat" and n f :: nat and vs :: "'k list"
  assume t: "random_tracks pick s m"
  then have m: "rd_items s = m" by (simp add: random_tracks_def)
  show "finite (dom m)" using t by (simp add: random_tracks_def)
  show "random_evict_loop pick n vs f s = Some ((vs, f), s)" if "n = 0 \<or> dom m = {}"
    using that m by (auto simp: random_evict_loop.simps)
  show "\<exists>k c s'. m k = Some c \<and> random_tracks pick s' (m(k := None)) \<and>
      random_evict_loop pick n vs f s = random_evict_loop pick (n - c) (vs @ [k]) (u64_add f c) s'"
    if "n > 0" "dom m \<noteq> {}"
  proof -
    from t that(2) obtain k c g where k: "pick (rd_rng s) (dom m) = (Some k, g)" "m k = Some c" by (rule random_choice)
    let ?s = "s\<lparr>rd_rng := g, rd_items := m(k := None)\<rparr>"
    have "random_tracks pick ?s (m(k := None))" by (rule random_drop_tracks [OF t]) simp
    moreover have "random_evict_loop pick n vs f s = random_evict_loop pick (n - c) (vs @ [k]) (u64_add f c) ?s"
      using k that m by (simp add: random_evict_loop.simps [of pick n vs f s] saturating_sub_def)
    ultimately show ?thesis using k(2) by blast
  qed
qed

lemma random_evict_tracks:
  assumes "random_tracks pick s m"
  shows "\<exists>vs f s' m'. random_evict pick n s = Some ((vs, f), s') \<and> random_tracks pick s' m' \<and> evicted m vs f m' \<and>
    (n \<le> f \<or> set vs = dom m)"
  using random_loop.loop_evicts [OF assms, of 0 n "[]"] assms by (simp add: random_evict_def random_tracks_def)

lemma random_admit_tracks:
  assumes "random_tracks pick s m" "total_cost m + c < 2 ^ 64"
  shows "\<exists>s'. random_on_admit k c s = Some (Admit, s') \<and> random_tracks pick s' (m(k \<mapsto> c))"
  using assms total_upd_le [of m k c] by (simp add: random_on_admit_def random_tracks_def del: fun_upd_apply)

interpretation random: freeing_policy "random_tracks pick" random_on_access random_on_admit random_on_remove
  "random_evict pick" random_clear for pick :: "('g, 'k) chooser"
proof unfold_locales
  fix s s' :: "('g, 'k) random_state" and m :: "'k \<rightharpoonup> nat" and k :: 'k and c n f :: nat and vs
  assume t: "random_tracks pick s m"
  show fin: "finite (dom m)" using t by (simp add: random_tracks_def)
  show "\<exists>s' m'. random_on_access k c s = Some s' \<and> random_tracks pick s' m' \<and> dom m' = dom m \<and> total_cost m' \<le> total_cost m + c"
    using t by (auto simp: random_on_access_def intro!: exI [of _ m])
  show "\<exists>s'. random_on_remove k s = Some s' \<and> random_tracks pick s' (m(k := None))"
    using random_drop_tracks [OF t, of "s\<lparr>rd_items := m(k := None)\<rparr>" k] t
    by (simp add: random_on_remove_def random_tracks_def del: fun_upd_apply)
  show "\<exists>vs f s' m'. random_evict pick n s = Some ((vs, f), s') \<and> random_tracks pick s' m' \<and> evicted m vs f m'"
    using random_evict_tracks [OF t, of n] by blast
  show "n \<le> f \<or> set vs = dom m" if "random_evict pick n s = Some ((vs, f), s')" using random_evict_tracks [OF t, of n] that by auto
  show "random_tracks pick (random_clear s) Map.empty" using t by (simp add: random_tracks_def random_clear_def)
  show "\<exists>d s' m'. random_on_admit k c s = Some (d, s') \<and> random_tracks pick s' m' \<and> total_cost m' \<le> total_cost m + c \<and>
      dom m' \<inter> victims_of d = {} \<and> dom m' \<union> victims_of d = insert k (dom m)" if "total_cost m + c < 2 ^ 64"
    using random_admit_tracks [OF t that, of k] fin by (rule put_admit)
qed

subsection \<open>Properties\<close>

text \<open>
  Random eviction under any history and for any generator: no call panics or runs forever,
  every answer is in step with the shard, every eviction pays or empties the shard.
\<close>

theorem random_policy_in_step:
  assumes "choose_laws pick" "sum_list (map call_cost cs) < 2 ^ 64"
  shows "\<exists>as s'. policy_run (random_policy pick) cs (random_new g) = Some (as, s') \<and>
           in_step answer_ok {} cs as \<and> in_step answer_pays {} cs as"
proof -
  have t: "random_tracks pick (random_new g) Map.empty" using assms(1) by (simp add: random_tracks_def random_new_def)
  from assms(2) random.run_in_step [OF t, of cs] random.run_pays [OF t, of cs] show ?thesis
    by (fastforce simp: random_policy_def)
qed

text \<open>A chooser that keeps the law: the least key.\<close>

definition choose_least :: "(unit, nat) chooser" where
  "choose_least g K = (if K = {} then None else Some (Min K), g)"

lemma choose_least_laws: "choose_laws choose_least"
  by (auto simp: choose_laws_def choose_least_def)

theorem random_policy_in_step_witness:
  "\<exists>as s'. policy_run (random_policy choose_least) [OnAdmit 1 2, OnAdmit 2 3, OnRemove 1, Evict 1] (random_new ()) = Some (as, s') \<and>
     in_step answer_pays {} [OnAdmit 1 2, OnAdmit 2 3, OnRemove 1, Evict 1] as"
  using random_policy_in_step [OF choose_least_laws, of "[OnAdmit 1 2, OnAdmit 2 3, OnRemove 1, Evict 1]" "()"] by auto

end
