(* ===== verification/S3fifo.thy ===== *)
theory S3fifo
  imports Policy
begin

section \<open>The S3-FIFO policy\<close>

text \<open>
  \<^verbatim>\<open>cache/src/policy/s3fifo.rs\<close>: a small and a main FIFO whose entries carry a stamp (an entry is live when
  the stamp and the queue in the metadata match, stale otherwise), a per-key frequency of at most 3,
  and a bounded ghost list. A stamp is a \<^verbatim>\<open>u32\<close> that wraps; nothing below depends on it not wrapping.
\<close>

definition freq_max :: nat where
  "freq_max = 3"

datatype s3_queue = Small | Main

record s3_meta =
  m_cost :: nat
  m_freq :: nat
  m_queue :: s3_queue
  m_stamp :: nat

record 'k s3_state =
  s3_meta :: "'k \<rightharpoonup> s3_meta"
  s3_small :: "('k \<times> nat) list"
  s3_main :: "('k \<times> nat) list"
  s3_small_cost :: nat
  s3_total_cost :: nat
  s3_ghost :: "'k list"
  s3_ghost_set :: "'k set"
  s3_next_stamp :: nat
  s3_small_target :: nat
  s3_ghost_cap :: nat

definition s3_new :: "nat \<Rightarrow> 'k s3_state" where
  "s3_new capacity =
     \<lparr>s3_meta = Map.empty, s3_small = [], s3_main = [], s3_small_cost = 0, s3_total_cost = 0,
      s3_ghost = [], s3_ghost_set = {}, s3_next_stamp = 0,
      s3_small_target = max (capacity div 10) 1, s3_ghost_cap = max capacity 1\<rparr>"

definition s3_push :: "'k \<Rightarrow> s3_queue \<Rightarrow> 'k s3_state \<Rightarrow> 'k s3_state option" where
  "s3_push key queue s =
     (let s = s\<lparr>s3_next_stamp := (s3_next_stamp s + 1) mod 2 ^ 32\<rparr>;
          stamp = s3_next_stamp s
      in do { m \<leftarrow> s3_meta s key;
              let s = s\<lparr>s3_meta := (s3_meta s)(key \<mapsto> m\<lparr>m_stamp := stamp, m_queue := queue\<rparr>)\<rparr>;
              let entry = (key, stamp);
              Some (case queue of
                 Small \<Rightarrow> s\<lparr>s3_small_cost := u64_add (s3_small_cost s) (m_cost m), s3_small := s3_small s @ [entry]\<rparr>
               | Main \<Rightarrow> s\<lparr>s3_main := s3_main s @ [entry]\<rparr>) })"

definition s3_remember_ghost :: "'k \<Rightarrow> nat \<Rightarrow> 'k s3_state \<Rightarrow> 'k s3_state" where
  "s3_remember_ghost key cap s =
     (let s = (if length (s3_ghost s) \<ge> cap
               then (case s3_ghost s of
                       old # rest \<Rightarrow> s\<lparr>s3_ghost := rest, s3_ghost_set := s3_ghost_set s - {old}\<rparr>
                     | [] \<Rightarrow> s)
               else s)
      in if key \<notin> s3_ghost_set s
         then s\<lparr>s3_ghost_set := insert key (s3_ghost_set s), s3_ghost := s3_ghost s @ [key]\<rparr>
         else s)"

definition s3_live :: "'k s3_state \<Rightarrow> s3_queue \<Rightarrow> 'k \<times> nat \<Rightarrow> bool" where
  "s3_live s q entry =
     (case s3_meta s (fst entry) of None \<Rightarrow> False | Some m \<Rightarrow> m_stamp m = snd entry \<and> m_queue m = q)"

definition s3_compact :: "'k s3_state \<Rightarrow> 'k s3_state" where
  "s3_compact s =
     (if length (s3_small s) + length (s3_main s) \<le> 2 * card (dom (s3_meta s)) + 64
      then s
      else s\<lparr>s3_small := filter (s3_live s Small) (s3_small s), s3_main := filter (s3_live s Main) (s3_main s)\<rparr>)"

definition s3_on_access :: "'k \<Rightarrow> nat \<Rightarrow> 'k s3_state \<Rightarrow> 'k s3_state option" where
  "s3_on_access key cost s =
     Some (case s3_meta s key of
             Some m \<Rightarrow> s\<lparr>s3_meta := (s3_meta s)(key \<mapsto> m\<lparr>m_freq := min ((m_freq m + 1) mod 2 ^ 8) freq_max\<rparr>)\<rparr>
           | None \<Rightarrow> s)"

definition s3_on_admit :: "'k \<Rightarrow> nat \<Rightarrow> 'k s3_state \<Rightarrow> ('k admission_decision \<times> 'k s3_state) option" where
  "s3_on_admit key cost s =
     (case s3_meta s key of
        Some m \<Rightarrow>
          (let old = m_cost m;
               in_small = (m_queue m = Small);
               s = s\<lparr>s3_meta := (s3_meta s)(key \<mapsto> m\<lparr>m_cost := cost\<rparr>)\<rparr>;
               s = s\<lparr>s3_total_cost := u64_add (u64_sub (s3_total_cost s) old) cost\<rparr>;
               s = (if in_small then s\<lparr>s3_small_cost := u64_add (u64_sub (s3_small_cost s) old) cost\<rparr> else s)
           in Some (Admit, s))
      | None \<Rightarrow>
          do { let to_main = (key \<in> s3_ghost_set s);
               let s = s\<lparr>s3_ghost_set := s3_ghost_set s - {key}\<rparr>;
               let s = s\<lparr>s3_meta := (s3_meta s)(key \<mapsto> \<lparr>m_cost = cost, m_freq = 0, m_queue = Small, m_stamp = 0\<rparr>)\<rparr>;
               let s = s\<lparr>s3_total_cost := u64_add (s3_total_cost s) cost\<rparr>;
               s \<leftarrow> s3_push key (if to_main then Main else Small) s;
               Some (Admit, s3_compact s) })"

definition s3_on_remove :: "'k \<Rightarrow> 'k s3_state \<Rightarrow> 'k s3_state option" where
  "s3_on_remove key s =
     Some (case s3_meta s key of
             None \<Rightarrow> s
           | Some m \<Rightarrow>
               (let s = s\<lparr>s3_meta := (s3_meta s)(key := None)\<rparr>;
                    s = s\<lparr>s3_total_cost := u64_sub (s3_total_cost s) (m_cost m)\<rparr>
                in if m_queue m = Small then s\<lparr>s3_small_cost := u64_sub (s3_small_cost s) (m_cost m)\<rparr> else s))"

text \<open>
  One turn of \<^verbatim>\<open>evict\<close> after an entry was popped: \<^term>\<open>None\<close> for \<^verbatim>\<open>continue\<close>, the cost of the victim
  otherwise.
\<close>

definition s3_evict_entry :: "bool \<Rightarrow> 'k \<times> nat \<Rightarrow> 'k s3_state \<Rightarrow> (nat option \<times> 'k s3_state) option" where
  "s3_evict_entry from_small entry s =
     (let key = fst entry; q = (if from_small then Small else Main)
      in if \<not> s3_live s q entry then Some (None, s)
         else do { m \<leftarrow> s3_meta s key;
                   let cost = m_cost m;
                   let freq = m_freq m;
                   (if from_small
                    then do { let s = s\<lparr>s3_small_cost := u64_sub (s3_small_cost s) cost\<rparr>;
                              (if freq > 1
                               then do { let s = s\<lparr>s3_meta := (s3_meta s)(key \<mapsto> m\<lparr>m_freq := 0\<rparr>)\<rparr>;
                                         s \<leftarrow> s3_push key Main s;
                                         Some (None, s) }
                               else do { let s = s\<lparr>s3_meta := (s3_meta s)(key := None)\<rparr>;
                                         let s = s\<lparr>s3_total_cost := u64_sub (s3_total_cost s) cost\<rparr>;
                                         Some (Some cost, s3_remember_ghost key (s3_ghost_cap s) s) }) }
                    else (if freq > 0
                          then do { let s = s\<lparr>s3_meta := (s3_meta s)(key \<mapsto> m\<lparr>m_freq := freq - 1\<rparr>)\<rparr>;
                                    s \<leftarrow> s3_push key Main s;
                                    Some (None, s) }
                          else do { let s = s\<lparr>s3_meta := (s3_meta s)(key := None)\<rparr>;
                                    let s = s\<lparr>s3_total_cost := u64_sub (s3_total_cost s) cost\<rparr>;
                                    Some (Some cost, s) })) })"

definition s3_from_small :: "'k s3_state \<Rightarrow> bool" where
  "s3_from_small s \<longleftrightarrow> s3_small s \<noteq> [] \<and> (s3_small_cost s > s3_small_target s \<or> s3_main s = [])"

partial_function (option) s3_evict_loop ::
  "nat \<Rightarrow> 'k list \<Rightarrow> nat \<Rightarrow> 'k s3_state \<Rightarrow> (('k list \<times> nat) \<times> 'k s3_state) option" where
  "s3_evict_loop cost_to_free victims freed s =
     (if freed < cost_to_free
      then (let from_small = s3_from_small s
            in case (if from_small then s3_small s else s3_main s) of
                 [] \<Rightarrow> Some ((victims, freed), s)
               | entry # rest \<Rightarrow>
                   do { (victim, s) \<leftarrow> s3_evict_entry from_small entry
                                        (if from_small then s\<lparr>s3_small := rest\<rparr> else s\<lparr>s3_main := rest\<rparr>);
                        (case victim of
                           None \<Rightarrow> s3_evict_loop cost_to_free victims freed s
                         | Some cost \<Rightarrow> s3_evict_loop cost_to_free (victims @ [fst entry]) (u64_add freed cost) s) })
      else Some ((victims, freed), s))"

definition s3_evict :: "nat \<Rightarrow> 'k s3_state \<Rightarrow> (('k list \<times> nat) \<times> 'k s3_state) option" where
  "s3_evict cost_to_free s = s3_evict_loop cost_to_free [] 0 s"

definition s3_clear :: "'k s3_state \<Rightarrow> 'k s3_state" where
  "s3_clear s = s\<lparr>s3_meta := Map.empty, s3_small := [], s3_main := [], s3_ghost := [], s3_ghost_set := {},
     s3_small_cost := 0, s3_total_cost := 0\<rparr>"

definition s3_policy :: "('k, 'k s3_state) policy" where
  "s3_policy = \<lparr>pol_on_access = s3_on_access, pol_on_admit = s3_on_admit, pol_on_remove = s3_on_remove,
     pol_evict = s3_evict, pol_clear = s3_clear\<rparr>"

subsection \<open>The invariant\<close>

text \<open>
  Every tracked key has its entry in its queue, both cost counters are exact, frequencies stay at
  most 3 and the ghost list within its cap. \<open>s3_half key\<close> is the state in between: \<open>key\<close>
  has metadata but no queue entry yet, and its cost is not in the counter of the small queue.
\<close>

definition s3_costs :: "'k s3_state \<Rightarrow> 'k \<rightharpoonup> nat" where
  "s3_costs s = (\<lambda>k. map_option m_cost (s3_meta s k))"

definition s3_small_costs :: "'k s3_state \<Rightarrow> 'k \<rightharpoonup> nat" where
  "s3_small_costs s =
     (\<lambda>k. case s3_meta s k of None \<Rightarrow> None | Some m \<Rightarrow> if m_queue m = Small then Some (m_cost m) else None)"

definition s3_freqs :: "'k s3_state \<Rightarrow> 'k \<rightharpoonup> nat" where
  "s3_freqs s = (\<lambda>k. map_option m_freq (s3_meta s k))"

definition s3_queue_of :: "'k s3_state \<Rightarrow> s3_queue \<Rightarrow> ('k \<times> nat) list" where
  "s3_queue_of s q = (case q of Small \<Rightarrow> s3_small s | Main \<Rightarrow> s3_main s)"

lemma s3_queue_of_simps [simp]:
  "s3_queue_of s Small = s3_small s" "s3_queue_of s Main = s3_main s"
  "s3_queue_of (s\<lparr>s3_meta := x\<rparr>) q = s3_queue_of s q"
  "s3_queue_of (s\<lparr>s3_small_cost := n\<rparr>) q = s3_queue_of s q"
  "s3_queue_of (s\<lparr>s3_total_cost := n\<rparr>) q = s3_queue_of s q"
  by (cases q; simp add: s3_queue_of_def)+

definition ghost_ok :: "'k s3_state \<Rightarrow> bool" where
  "ghost_ok s \<longleftrightarrow>
     s3_ghost_set s \<subseteq> set (s3_ghost s) \<and> length (s3_ghost s) \<le> s3_ghost_cap s \<and> 1 \<le> s3_ghost_cap s"

definition s3_half :: "'k \<Rightarrow> 'k s3_state \<Rightarrow> bool" where
  "s3_half key s \<longleftrightarrow>
     finite (dom (s3_meta s)) \<and> (\<forall>k m. s3_meta s k = Some m \<longrightarrow> m_freq m \<le> freq_max) \<and>
     (\<forall>k m. s3_meta s k = Some m \<longrightarrow> k \<noteq> key \<longrightarrow> (k, m_stamp m) \<in> set (s3_queue_of s (m_queue m))) \<and>
     s3_small_cost s = total_cost ((s3_small_costs s)(key := None)) \<and>
     s3_total_cost s = total_cost (s3_costs s) \<and> total_cost (s3_costs s) < 2 ^ 64 \<and> ghost_ok s"

definition s3_inv :: "'k s3_state \<Rightarrow> bool" where
  "s3_inv s \<longleftrightarrow>
     finite (dom (s3_meta s)) \<and> (\<forall>k m. s3_meta s k = Some m \<longrightarrow> m_freq m \<le> freq_max) \<and>
     (\<forall>k m. s3_meta s k = Some m \<longrightarrow> (k, m_stamp m) \<in> set (s3_queue_of s (m_queue m))) \<and>
     s3_small_cost s = total_cost (s3_small_costs s) \<and>
     s3_total_cost s = total_cost (s3_costs s) \<and> total_cost (s3_costs s) < 2 ^ 64 \<and> ghost_ok s"

lemma s3_invD:
  assumes "s3_inv s"
  shows "finite (dom (s3_meta s))" "\<And>k m. s3_meta s k = Some m \<Longrightarrow> m_freq m \<le> freq_max"
    "\<And>k m. s3_meta s k = Some m \<Longrightarrow> (k, m_stamp m) \<in> set (s3_queue_of s (m_queue m))"
    "s3_small_cost s = total_cost (s3_small_costs s)" "s3_total_cost s = total_cost (s3_costs s)"
    "total_cost (s3_costs s) < 2 ^ 64" "ghost_ok s"
  using assms by (auto simp: s3_inv_def)

lemma s3_halfD:
  assumes "s3_half key s"
  shows "finite (dom (s3_meta s))" "\<And>k m. s3_meta s k = Some m \<Longrightarrow> m_freq m \<le> freq_max"
    "\<And>k m. s3_meta s k = Some m \<Longrightarrow> k \<noteq> key \<Longrightarrow> (k, m_stamp m) \<in> set (s3_queue_of s (m_queue m))"
    "s3_small_cost s = total_cost ((s3_small_costs s)(key := None))" "s3_total_cost s = total_cost (s3_costs s)"
    "total_cost (s3_costs s) < 2 ^ 64" "ghost_ok s"
  using assms by (auto simp: s3_half_def simp del: fun_upd_apply)

lemma dom_s3_costs [simp]: "dom (s3_costs s) = dom (s3_meta s)" "dom (s3_freqs s) = dom (s3_meta s)"
  by (auto simp: s3_costs_def s3_freqs_def)

lemma small_costs_le: "s3_small_costs s \<subseteq>\<^sub>m s3_costs s"
  by (auto simp: map_le_def s3_small_costs_def s3_costs_def split: option.splits if_splits)

lemma s3_small_total_le: "finite (dom (s3_meta s)) \<Longrightarrow> total_cost (s3_small_costs s) \<le> total_cost (s3_costs s)"
  by (rule total_mono [OF small_costs_le]) simp

lemma s3_small_finite: "finite (dom (s3_meta s)) \<Longrightarrow> finite (dom (s3_small_costs s))"
  using map_le_implies_dom_le [OF small_costs_le, of s] by (auto intro: finite_subset)

text \<open>Taking a key out of its queue.\<close>

lemma s3_half_of_inv:
  assumes inv: "s3_inv s" and m: "s3_meta s key = Some m"
    and q: "\<And>q k st. k \<noteq> key \<Longrightarrow> (k, st) \<in> set (s3_queue_of s q) \<Longrightarrow> (k, st) \<in> set (s3_queue_of s' q)"
    and f: "s3_meta s' = s3_meta s" "s3_total_cost s' = s3_total_cost s"
      "s3_small_cost s' = (if m_queue m = Small then u64_sub (s3_small_cost s) (m_cost m) else s3_small_cost s)"
    and g: "ghost_ok s'"
  shows "s3_half key s'"
proof -
  note D = s3_invD [OF inv]
  have c: "s3_costs s' = s3_costs s" "s3_small_costs s' = s3_small_costs s" by (simp_all add: s3_costs_def s3_small_costs_def f(1))
  have "s3_small_cost s' = total_cost ((s3_small_costs s)(key := None))"
  proof (cases "m_queue m = Small")
    case True
    then have "s3_small_costs s key = Some (m_cost m)" by (simp add: s3_small_costs_def m)
    from total_split [OF s3_small_finite [OF D(1)] this] s3_small_total_le [OF D(1)] D(4,6) True f(3) show ?thesis by simp
  next
    case False
    then have "s3_small_costs s key = None" by (simp add: s3_small_costs_def m)
    then have "(s3_small_costs s)(key := None) = s3_small_costs s" by (simp add: fun_upd_idem)
    with False D(4) f(3) show ?thesis by simp
  qed
  with D q g show ?thesis unfolding s3_half_def c f(1,2) by blast
qed

lemma s3_half_drop:
  assumes h: "s3_half key s" and m: "s3_meta s key = Some m"
    and f: "s3_meta s' = (s3_meta s)(key := None)" "s3_small s' = s3_small s" "s3_main s' = s3_main s"
      "s3_small_cost s' = s3_small_cost s" "s3_total_cost s' = u64_sub (s3_total_cost s) (m_cost m)" "ghost_ok s'"
  shows "s3_inv s'" "s3_costs s' = (s3_costs s)(key := None)" "s3_freqs s' = (s3_freqs s)(key := None)"
proof -
  note D = s3_halfD [OF h]
  show c: "s3_costs s' = (s3_costs s)(key := None)" and "s3_freqs s' = (s3_freqs s)(key := None)"
    by (auto simp: s3_costs_def s3_freqs_def f(1))
  have sc: "s3_small_costs s' = (s3_small_costs s)(key := None)" by (auto simp: s3_small_costs_def f(1))
  have "s3_costs s key = Some (m_cost m)" by (simp add: s3_costs_def m)
  then have t: "total_cost (s3_costs s) = m_cost m + total_cost ((s3_costs s)(key := None))" using D(1) by (simp add: total_split)
  moreover have "(k, m_stamp m) \<in> set (s3_queue_of s' (m_queue m))" if "s3_meta s' k = Some m" for k m
    using that D(3) [of k m] f(1-3) by (auto simp: s3_queue_of_def split: if_splits s3_queue.split)
  moreover have "m_freq m \<le> freq_max" if "s3_meta s' k = Some m" for k m
    using that D(2) [of k m] f(1) by (auto split: if_splits)
  moreover have "finite (dom (s3_meta s'))" using D(1) by (simp add: f(1))
  ultimately show "s3_inv s'" unfolding s3_inv_def c sc using D(4-6) f(4-6) by (simp del: fun_upd_apply)
qed

lemma s3_half_freq:
  assumes h: "s3_half key s" and m: "s3_meta s key = Some m" and "f \<le> freq_max"
  shows "s3_half key (s\<lparr>s3_meta := (s3_meta s)(key \<mapsto> m\<lparr>m_freq := f\<rparr>)\<rparr>)"
proof -
  let ?s = "s\<lparr>s3_meta := (s3_meta s)(key \<mapsto> m\<lparr>m_freq := f\<rparr>)\<rparr>"
  note D = s3_halfD [OF h]
  have c: "s3_costs ?s = s3_costs s" "s3_small_costs ?s = s3_small_costs s"
    using m by (auto simp: s3_costs_def s3_small_costs_def)
  have "m_freq m' \<le> freq_max" "k \<noteq> key \<longrightarrow> (k, m_stamp m') \<in> set (s3_queue_of ?s (m_queue m'))"
    if "s3_meta ?s k = Some m'" for k m'
    using that D(2,3) [of k m'] assms(3) by (auto split: if_splits)
  with D show ?thesis unfolding s3_half_def c by (simp add: ghost_ok_def del: fun_upd_apply)
qed

text \<open>Queueing a key.\<close>

lemma s3_half_push:
  assumes h: "s3_half key s" and m: "s3_meta s key = Some m"
  shows "\<exists>s'. s3_push key q s = Some s' \<and> s3_inv s' \<and> s3_costs s' = s3_costs s \<and> s3_freqs s' = s3_freqs s \<and>
    length (s3_small s') + length (s3_main s') = Suc (length (s3_small s) + length (s3_main s))"
proof -
  note D = s3_halfD [OF h]
  define st where "st = (s3_next_stamp s + 1) mod 2 ^ 32"
  define s' where "s' = s\<lparr>s3_next_stamp := st, s3_meta := (s3_meta s)(key \<mapsto> m\<lparr>m_stamp := st, m_queue := q\<rparr>),
      s3_small_cost := (if q = Small then u64_add (s3_small_cost s) (m_cost m) else s3_small_cost s),
      s3_small := (if q = Small then s3_small s @ [(key, st)] else s3_small s),
      s3_main := (if q = Main then s3_main s @ [(key, st)] else s3_main s)\<rparr>"
  have push: "s3_push key q s = Some s'"
    using m by (cases q) (simp_all add: s3_push_def s'_def st_def Let_def)
  have meta: "s3_meta s' = (s3_meta s)(key \<mapsto> m\<lparr>m_stamp := st, m_queue := q\<rparr>)" by (simp add: s'_def)
  have c: "s3_costs s' = s3_costs s" "s3_freqs s' = s3_freqs s"
    using m by (auto simp: s3_costs_def s3_freqs_def meta)
  have smc: "s3_small_cost s' = (if q = Small then u64_add (s3_small_cost s) (m_cost m) else s3_small_cost s)"
    by (simp add: s'_def)
  have sc: "s3_small_costs s' = (s3_small_costs s)(key := if q = Small then Some (m_cost m) else None)"
    by (auto simp: s3_small_costs_def meta)
  have "(s3_small_costs s)(key \<mapsto> m_cost m) \<subseteq>\<^sub>m s3_costs s"
    using small_costs_le [of s] m by (auto simp: map_le_def s3_costs_def)
  from total_mono [OF this] D(1) have "m_cost m + total_cost ((s3_small_costs s)(key := None)) \<le> total_cost (s3_costs s)"
    by (simp add: total_upd s3_small_finite del: fun_upd_apply)
  then have cost: "s3_small_cost s' = total_cost (s3_small_costs s')"
    using D(4,6) s3_small_finite [OF D(1)]
    by (cases q) (simp_all add: sc smc total_upd add.commute del: fun_upd_apply)
  have sub: "set (s3_queue_of s q') \<subseteq> set (s3_queue_of s' q')" for q' by (cases q') (auto simp: s'_def)
  have here: "(key, st) \<in> set (s3_queue_of s' q)" by (cases q) (auto simp: s'_def)
  have ent: "(k, m_stamp x) \<in> set (s3_queue_of s' (m_queue x))" if "s3_meta s' k = Some x" for k x
    using that D(3) [of k x] sub [of "m_queue x"] here by (auto simp: meta split: if_splits)
  have frq: "m_freq x \<le> freq_max" if "s3_meta s' k = Some x" for k x
    using that D(2) [of k x] D(2) [OF m] by (auto simp: meta split: if_splits)
  have "finite (dom (s3_meta s'))" "s3_total_cost s' = s3_total_cost s" "ghost_ok s'"
    using D(1,7) by (simp_all add: s'_def ghost_ok_def)
  with ent frq cost D(5,6) have "s3_inv s'" unfolding s3_inv_def c by simp
  moreover have "length (s3_small s') + length (s3_main s') = Suc (length (s3_small s) + length (s3_main s))"
    by (cases q) (simp_all add: s'_def)
  ultimately show ?thesis using push c by blast
qed

lemma s3_remember_ghost_ok:
  assumes "ghost_ok s" "cap = s3_ghost_cap s"
  shows "ghost_ok (s3_remember_ghost key cap s)"
  using assms by (cases "s3_ghost s") (auto simp: s3_remember_ghost_def ghost_ok_def Let_def)

lemma s3_remember_ghost_rest [simp]:
  "s3_meta (s3_remember_ghost key cap s) = s3_meta s" "s3_small (s3_remember_ghost key cap s) = s3_small s"
  "s3_main (s3_remember_ghost key cap s) = s3_main s" "s3_small_cost (s3_remember_ghost key cap s) = s3_small_cost s"
  "s3_total_cost (s3_remember_ghost key cap s) = s3_total_cost s"
  by (auto simp: s3_remember_ghost_def Let_def split: list.split)

subsection \<open>One turn of the eviction\<close>

definition s3_weight :: "'k s3_state \<Rightarrow> nat" where
  "s3_weight s = total_cost (s3_freqs s) + length (s3_small s) + length (s3_main s)"

definition s3_popped :: "bool \<Rightarrow> ('k \<times> nat) list \<Rightarrow> 'k s3_state \<Rightarrow> 'k s3_state" where
  "s3_popped from_small rest s = (if from_small then s\<lparr>s3_small := rest\<rparr> else s\<lparr>s3_main := rest\<rparr>)"

lemma s3_popped_simps [simp]:
  "s3_meta (s3_popped b rest s) = s3_meta s" "s3_small_cost (s3_popped b rest s) = s3_small_cost s"
  "s3_total_cost (s3_popped b rest s) = s3_total_cost s" "ghost_ok (s3_popped b rest s) = ghost_ok s"
  "s3_costs (s3_popped b rest s) = s3_costs s" "s3_small_costs (s3_popped b rest s) = s3_small_costs s"
  "s3_freqs (s3_popped b rest s) = s3_freqs s" "s3_live (s3_popped b rest s) q e = s3_live s q e"
  by (simp_all add: s3_popped_def ghost_ok_def s3_costs_def s3_small_costs_def s3_freqs_def s3_live_def)

lemma s3_popped_queue:
  assumes "(if b then s3_small s else s3_main s) = entry # rest" "x \<noteq> entry \<or> q \<noteq> (if b then Small else Main)"
    "x \<in> set (s3_queue_of s q)"
  shows "x \<in> set (s3_queue_of (s3_popped b rest s) q)"
  using assms by (cases q; cases b) (auto simp: s3_popped_def)

lemma s3_popped_weight:
  assumes "(if b then s3_small s else s3_main s) = entry # rest"
  shows "Suc (length (s3_small (s3_popped b rest s)) + length (s3_main (s3_popped b rest s))) = length (s3_small s) + length (s3_main s)"
  using assms by (cases b) (auto simp: s3_popped_def)

lemma s3_popped_stale:
  assumes inv: "s3_inv s" and q: "(if b then s3_small s else s3_main s) = entry # rest"
    and stale: "\<not> s3_live s (if b then Small else Main) entry"
  shows "s3_inv (s3_popped b rest s)"
proof -
  note D = s3_invD [OF inv]
  have "(k, m_stamp m) \<in> set (s3_queue_of (s3_popped b rest s) (m_queue m))" if "s3_meta s k = Some m" for k m
  proof (rule s3_popped_queue [OF q _ D(3) [OF that]])
    show "(k, m_stamp m) \<noteq> entry \<or> m_queue m \<noteq> (if b then Small else Main)"
      using stale that by (auto simp: s3_live_def)
  qed
  with D show ?thesis unfolding s3_inv_def by simp
qed

lemma s3_popped_half:
  assumes inv: "s3_inv s" and q: "(if b then s3_small s else s3_main s) = entry # rest"
    and m: "s3_meta s (fst entry) = Some m" and live: "m_queue m = (if b then Small else Main)"
  shows "s3_half (fst entry)
    (if b then (s3_popped b rest s)\<lparr>s3_small_cost := u64_sub (s3_small_cost s) (m_cost m)\<rparr> else s3_popped b rest s)"
    (is "s3_half _ ?s")
proof (rule s3_half_of_inv [OF inv m])
  fix q' k st assume k: "k \<noteq> fst entry" "(k, st) \<in> set (s3_queue_of s q')"
  then have "(k, st) \<in> set (s3_queue_of (s3_popped b rest s) q')" by (intro s3_popped_queue [OF q]) auto
  then show "(k, st) \<in> set (s3_queue_of ?s q')" by (cases b) simp_all
qed (use s3_invD(7) [OF inv] live in \<open>auto simp: ghost_ok_def s3_popped_def\<close>)

lemma s3_repush:
  assumes h: "s3_half key s" and m: "s3_meta s key = Some m" and "f < m_freq m"
  shows "\<exists>s'. s3_push key Main (s\<lparr>s3_meta := (s3_meta s)(key \<mapsto> m\<lparr>m_freq := f\<rparr>)\<rparr>) = Some s' \<and> s3_inv s' \<and>
    s3_costs s' = s3_costs s \<and> s3_weight s' \<le> s3_weight s"
proof -
  let ?s = "s\<lparr>s3_meta := (s3_meta s)(key \<mapsto> m\<lparr>m_freq := f\<rparr>)\<rparr>"
  have fin: "finite (dom (s3_freqs s))" using s3_halfD(1) [OF h] by simp
  have "f \<le> freq_max" using s3_halfD(2) [OF h m] assms(3) by simp
  then have h': "s3_half key ?s" by (rule s3_half_freq [OF h m])
  have costs: "s3_costs ?s = s3_costs s" using m by (auto simp: s3_costs_def)
  have "s3_freqs ?s = (s3_freqs s)(key \<mapsto> f)" by (auto simp: s3_freqs_def)
  moreover have "s3_freqs s key = Some (m_freq m)" using m by (simp add: s3_freqs_def)
  ultimately have "total_cost (s3_freqs ?s) < total_cost (s3_freqs s)"
    using total_split [OF fin] total_upd [OF fin, of key f] assms(3) by simp
  moreover from s3_half_push [OF h', of "m\<lparr>m_freq := f\<rparr>" Main] obtain s' where
    "s3_push key Main ?s = Some s'" "s3_inv s'" "s3_costs s' = s3_costs ?s" "s3_freqs s' = s3_freqs ?s"
    "length (s3_small s') + length (s3_main s') = Suc (length (s3_small ?s) + length (s3_main ?s))" by auto
  ultimately show ?thesis using costs by (simp add: s3_weight_def)
qed

lemma s3_weight_drop:
  assumes "s3_half key s" "s3_freqs s' = (s3_freqs s)(key := None)" "s3_small s' = s3_small s" "s3_main s' = s3_main s"
  shows "s3_weight s' \<le> s3_weight s"
  using assms s3_halfD(1) [OF assms(1)] total_drop_le [of "s3_freqs s" key] by (simp add: s3_weight_def)

lemma s3_turn:
  assumes inv: "s3_inv s" and q: "(if b then s3_small s else s3_main s) = entry # rest"
  shows "\<exists>victim s'. s3_evict_entry b entry (s3_popped b rest s) = Some (victim, s') \<and> s3_inv s' \<and> s3_weight s' < s3_weight s \<and>
    (case victim of None \<Rightarrow> s3_costs s' = s3_costs s
     | Some c \<Rightarrow> s3_costs s (fst entry) = Some c \<and> s3_costs s' = (s3_costs s)(fst entry := None))"
proof -
  let ?p = "s3_popped b rest s" and ?key = "fst entry" and ?q = "if b then Small else Main"
  have pw: "s3_weight ?p < s3_weight s" using s3_popped_weight [OF q] by (simp add: s3_weight_def)
  show ?thesis
  proof (cases "s3_live s ?q entry")
    case False
    then have "s3_evict_entry b entry ?p = Some (None, ?p)" by (simp add: s3_evict_entry_def)
    with s3_popped_stale [OF inv q False] pw show ?thesis by simp
  next
    case True
    then obtain m where m: "s3_meta s ?key = Some m" "m_queue m = ?q" by (auto simp: s3_live_def split: option.splits)
    define h where "h = (if b then ?p\<lparr>s3_small_cost := u64_sub (s3_small_cost s) (m_cost m)\<rparr> else ?p)"
    have half: "s3_half ?key h" unfolding h_def by (rule s3_popped_half [OF inv q m])
    have hm: "s3_meta h ?key = Some m" "s3_costs h = s3_costs s" "s3_weight h = s3_weight ?p" "s3_meta h = s3_meta s"
      "s3_total_cost h = s3_total_cost s" "s3_ghost_cap h = s3_ghost_cap ?p"
      using m(1) by (simp_all add: h_def s3_costs_def s3_weight_def s3_freqs_def)
    define keep where "keep = (if b then m_freq m > 1 else m_freq m > 0)"
    show ?thesis
    proof (cases keep)
      case True
      let ?f = "if b then 0 else m_freq m - 1"
      have "?f < m_freq m" using True by (auto simp: keep_def split: if_splits)
      from s3_repush [OF half hm(1) this] obtain s' where
        s': "s3_push ?key Main (h\<lparr>s3_meta := (s3_meta h)(?key \<mapsto> m\<lparr>m_freq := ?f\<rparr>)\<rparr>) = Some s'"
          "s3_inv s'" "s3_costs s' = s3_costs h" "s3_weight s' \<le> s3_weight h" by blast
      have "s3_evict_entry b entry ?p = Some (None, s')"
        using s'(1) True \<open>s3_live s ?q entry\<close> m(1) by (cases b) (simp_all add: s3_evict_entry_def h_def keep_def Let_def)
      with s' hm(2,3) pw show ?thesis by simp
    next
      case False
      let ?d = "h\<lparr>s3_meta := (s3_meta h)(?key := None), s3_total_cost := u64_sub (s3_total_cost h) (m_cost m)\<rparr>"
      define s' where "s' = (if b then s3_remember_ghost ?key (s3_ghost_cap h) ?d else ?d)"
      have ev: "s3_evict_entry b entry ?p = Some (Some (m_cost m), s')"
        using False \<open>s3_live s ?q entry\<close> m(1)
        by (cases b) (simp_all add: s3_evict_entry_def h_def s'_def keep_def Let_def)
      have g: "ghost_ok ?d" using s3_halfD(7) [OF half] by (simp add: ghost_ok_def)
      have f: "s3_meta s' = (s3_meta h)(?key := None)" "s3_small s' = s3_small h" "s3_main s' = s3_main h"
        "s3_small_cost s' = s3_small_cost h" "s3_total_cost s' = u64_sub (s3_total_cost h) (m_cost m)" "ghost_ok s'"
        using s3_remember_ghost_ok [OF g, of "s3_ghost_cap h" ?key] g by (simp_all add: s'_def)
      note dr = s3_half_drop [OF half hm(1) f]
      have "s3_weight s' \<le> s3_weight h" by (rule s3_weight_drop [OF half dr(3) f(2,3)])
      moreover have "s3_costs s ?key = Some (m_cost m)" using m(1) by (simp add: s3_costs_def)
      ultimately show ?thesis using ev dr(1,2) hm(2,3) pw
        by (intro exI [of _ "Some (m_cost m)"] exI [of _ s']) (simp del: fun_upd_apply)
    qed
  qed
qed

text \<open>The eviction loop ends, and what it returns.\<close>

lemma s3_queues_empty:
  assumes "s3_inv s" "s3_small s = []" "s3_main s = []"
  shows "dom (s3_costs s) = {}"
proof -
  have "s3_meta s k = None" for k
  proof (cases "s3_meta s k")
    case (Some m)
    from s3_invD(3) [OF assms(1) this] assms(2,3) show ?thesis by (cases "m_queue m") simp_all
  qed
  then show ?thesis by (auto simp: s3_costs_def)
qed

lemma s3_evict_loop_ok:
  assumes "s3_inv s" "freed + total_cost (s3_costs s) < 2 ^ 64"
  shows "\<exists>ws g s'. s3_evict_loop n vs freed s = Some ((vs @ ws, freed + g), s') \<and> s3_inv s' \<and>
    evicted (s3_costs s) ws g (s3_costs s') \<and> (n \<le> freed + g \<or> set ws = dom (s3_costs s))"
  using assms
proof (induction "s3_weight s" arbitrary: s vs freed rule: less_induct)
  case less
  let ?b = "s3_from_small s"
  show ?case
  proof (cases "freed < n")
    case False
    then have "s3_evict_loop n vs freed s = Some ((vs @ [], freed + 0), s)" by (simp add: s3_evict_loop.simps)
    with False less.prems(1) evicted_Nil show ?thesis by fastforce
  next
    case go: True
    show ?thesis
    proof (cases "if ?b then s3_small s else s3_main s")
      case Nil
      then have "s3_evict_loop n vs freed s = Some ((vs @ [], freed + 0), s)" using go by (simp add: s3_evict_loop.simps)
      moreover from Nil have "s3_small s = []" "s3_main s = []" by (auto simp: s3_from_small_def split: if_splits)
      then have "dom (s3_costs s) = {}" by (rule s3_queues_empty [OF less.prems(1)])
      ultimately show ?thesis using less.prems(1) evicted_Nil [of "s3_costs s"] by fastforce
    next
      case (Cons entry rest)
      from s3_turn [OF less.prems(1) Cons] obtain victim s1 where
        t: "s3_evict_entry ?b entry (s3_popped ?b rest s) = Some (victim, s1)" "s3_inv s1" "s3_weight s1 < s3_weight s"
          "case victim of None \<Rightarrow> s3_costs s1 = s3_costs s
           | Some c \<Rightarrow> s3_costs s (fst entry) = Some c \<and> s3_costs s1 = (s3_costs s)(fst entry := None)" by blast
      have loop: "s3_evict_loop n vs freed s = (case victim of None \<Rightarrow> s3_evict_loop n vs freed s1
          | Some cost \<Rightarrow> s3_evict_loop n (vs @ [fst entry]) (u64_add freed cost) s1)"
        using go t(1) Cons by (simp add: s3_evict_loop.simps [of n vs freed s] s3_popped_def [symmetric])
      show ?thesis
      proof (cases victim)
        case None
        with t(4) have c: "s3_costs s1 = s3_costs s" by simp
        from less.hyps [OF t(3,2), unfolded c, OF less.prems(2), of vs] None loop show ?thesis by simp
      next
        case (Some c)
        with t(4) have c: "s3_costs s (fst entry) = Some c" "s3_costs s1 = (s3_costs s)(fst entry := None)" by simp_all
        have fin: "finite (dom (s3_costs s))" using s3_invD(1) [OF less.prems(1)] by simp
        note tot = total_split [OF fin c(1)]
        with less.prems(2) have u: "u64_add freed c = freed + c" "freed + c + total_cost (s3_costs s1) < 2 ^ 64"
          by (simp_all add: c(2) del: fun_upd_apply)
        from less.hyps [OF t(3,2) u(2), of "vs @ [fst entry]"] obtain ws g s' where
          r: "s3_evict_loop n (vs @ [fst entry]) (freed + c) s1 = Some (((vs @ [fst entry]) @ ws, freed + c + g), s')" "s3_inv s'"
            "evicted (s3_costs s1) ws g (s3_costs s')" "n \<le> freed + c + g \<or> set ws = dom (s3_costs s1)" by blast
        have "s3_evict_loop n vs freed s = Some ((vs @ (fst entry # ws), freed + (c + g)), s')"
          using loop Some r(1) u(1) by (simp add: add.assoc)
        moreover have "evicted (s3_costs s) (fst entry # ws) (c + g) (s3_costs s')"
          by (rule evicted_Cons [OF c(1) r(3) [unfolded c(2)]])
        moreover have "n \<le> freed + (c + g) \<or> set (fst entry # ws) = dom (s3_costs s)"
          using r(4) c(1) by (auto simp: c(2) simp del: dom_s3_costs)
        ultimately show ?thesis using r(2) by blast
      qed
    qed
  qed
qed

subsection \<open>The other operations\<close>

lemma s3_access_inv:
  assumes inv: "s3_inv s"
  shows "\<exists>s'. s3_on_access k c s = Some s' \<and> s3_inv s' \<and> s3_costs s' = s3_costs s"
proof (cases "s3_meta s k")
  case None
  with inv show ?thesis by (simp add: s3_on_access_def)
next
  case (Some m)
  let ?s = "s\<lparr>s3_meta := (s3_meta s)(k \<mapsto> m\<lparr>m_freq := min ((m_freq m + 1) mod 2 ^ 8) freq_max\<rparr>)\<rparr>"
  note D = s3_invD [OF inv]
  have c: "s3_costs ?s = s3_costs s" "s3_small_costs ?s = s3_small_costs s"
    using Some by (auto simp: s3_costs_def s3_small_costs_def)
  have "m_freq x \<le> freq_max" "(k', m_stamp x) \<in> set (s3_queue_of ?s (m_queue x))" if "s3_meta ?s k' = Some x" for k' x
    using that D(2,3) [of k' x] D(3) [OF Some] by (auto split: if_splits)
  with D have "s3_inv ?s" unfolding s3_inv_def c by (simp add: ghost_ok_def)
  with Some c show ?thesis by (simp add: s3_on_access_def)
qed

lemma s3_readmit_inv:
  assumes inv: "s3_inv s" and m: "s3_meta s k = Some m" and fits: "total_cost (s3_costs s) + c < 2 ^ 64"
  shows "\<exists>s'. s3_on_admit k c s = Some (Admit, s') \<and> s3_inv s' \<and> s3_costs s' = (s3_costs s)(k \<mapsto> c)"
proof -
  note D = s3_invD [OF inv]
  let ?s = "s\<lparr>s3_meta := (s3_meta s)(k \<mapsto> m\<lparr>m_cost := c\<rparr>), s3_total_cost := u64_add (u64_sub (s3_total_cost s) (m_cost m)) c,
    s3_small_cost := (if m_queue m = Small then u64_add (u64_sub (s3_small_cost s) (m_cost m)) c else s3_small_cost s)\<rparr>"
  have ad: "s3_on_admit k c s = Some (Admit, ?s)" by (simp add: s3_on_admit_def m Let_def)
  have costs: "s3_costs ?s = (s3_costs s)(k \<mapsto> c)" by (auto simp: s3_costs_def)
  have smalls: "s3_small_costs ?s = (if m_queue m = Small then (s3_small_costs s)(k \<mapsto> c) else s3_small_costs s)"
    using m by (auto simp: s3_small_costs_def)
  have fin: "finite (dom (s3_costs s))" "finite (dom (s3_small_costs s))" using D(1) s3_small_finite by simp_all
  have "s3_costs s k = Some (m_cost m)" using m by (simp add: s3_costs_def)
  note tot = total_split [OF fin(1) this]
  have tc: "s3_total_cost ?s = total_cost ((s3_costs s)(k \<mapsto> c))"
    using tot fits D(5,6) total_upd [OF fin(1), of k c] by (simp del: fun_upd_apply)
  have sc: "s3_small_cost ?s = total_cost (s3_small_costs ?s)"
  proof (cases "m_queue m = Small")
    case True
    then have "s3_small_costs s k = Some (m_cost m)" using m by (simp add: s3_small_costs_def)
    note st = total_split [OF fin(2) this]
    show ?thesis unfolding smalls using True st fits D(4) s3_small_total_le [OF D(1)] total_upd [OF fin(2), of k c]
      by (simp del: fun_upd_apply)
  next
    case False
    with D(4) show ?thesis unfolding smalls by simp
  qed
  have "m_freq x \<le> freq_max" "(k', m_stamp x) \<in> set (s3_queue_of ?s (m_queue x))" if "s3_meta ?s k' = Some x" for k' x
    using that D(2,3) [of k' x] D(2,3) [OF m] by (auto split: if_splits)
  moreover have "total_cost ((s3_costs s)(k \<mapsto> c)) < 2 ^ 64" using total_upd_le [OF fin(1), of k c] fits by simp
  moreover have "finite (dom (s3_meta ?s))" "ghost_ok ?s" using D(1,7) by (simp_all add: ghost_ok_def)
  ultimately have "s3_inv ?s" unfolding s3_inv_def using tc sc costs by simp
  with ad costs show ?thesis by blast
qed

lemma s3_compact_inv:
  assumes inv: "s3_inv s"
  shows "s3_inv (s3_compact s)" "s3_costs (s3_compact s) = s3_costs s"
proof -
  note D = s3_invD [OF inv]
  show "s3_costs (s3_compact s) = s3_costs s" by (simp add: s3_compact_def s3_costs_def)
  have f: "s3_meta (s3_compact s) = s3_meta s" "s3_small_costs (s3_compact s) = s3_small_costs s"
    "s3_small_cost (s3_compact s) = s3_small_cost s" "s3_total_cost (s3_compact s) = s3_total_cost s"
    "ghost_ok (s3_compact s) = ghost_ok s" "s3_costs (s3_compact s) = s3_costs s"
    by (simp_all add: s3_compact_def s3_costs_def s3_small_costs_def ghost_ok_def)
  have "(k, m_stamp m) \<in> set (s3_queue_of (s3_compact s) (m_queue m))" if "s3_meta s k = Some m" for k m
    using D(3) [OF that] that by (cases "m_queue m") (auto simp: s3_compact_def s3_live_def)
  with D show "s3_inv (s3_compact s)" unfolding s3_inv_def f by simp
qed

lemma s3_new_key_inv:
  assumes inv: "s3_inv s" and m: "s3_meta s k = None" and fits: "total_cost (s3_costs s) + c < 2 ^ 64"
  shows "\<exists>s'. s3_on_admit k c s = Some (Admit, s') \<and> s3_inv s' \<and> s3_costs s' = (s3_costs s)(k \<mapsto> c)"
proof -
  note D = s3_invD [OF inv]
  let ?m = "\<lparr>m_cost = c, m_freq = 0, m_queue = Small, m_stamp = 0\<rparr>"
  let ?s = "s\<lparr>s3_ghost_set := s3_ghost_set s - {k}, s3_meta := (s3_meta s)(k \<mapsto> ?m), s3_total_cost := u64_add (s3_total_cost s) c\<rparr>"
  have c: "s3_costs ?s = (s3_costs s)(k \<mapsto> c)" by (auto simp: s3_costs_def)
  have sc: "(s3_small_costs ?s)(k := None) = s3_small_costs s" using m by (auto simp: s3_small_costs_def)
  have fin: "finite (dom (s3_costs s))" using D(1) by simp
  have "(s3_costs s)(k := None) = s3_costs s" using m by (auto simp: s3_costs_def)
  then have tot: "total_cost ((s3_costs s)(k \<mapsto> c)) = c + total_cost (s3_costs s)" using total_upd [OF fin, of k c] by simp
  have q: "s3_queue_of ?s q = s3_queue_of s q" for q by (cases q) simp_all
  have "m_freq x \<le> freq_max" "k' \<noteq> k \<longrightarrow> (k', m_stamp x) \<in> set (s3_queue_of ?s (m_queue x))" if "s3_meta ?s k' = Some x" for k' x
    unfolding q using that D(2,3) [of k' x] by (auto split: if_splits)
  moreover have "finite (dom (s3_meta ?s))" "ghost_ok ?s" using D(1,7) by (auto simp: ghost_ok_def)
  moreover have "s3_total_cost ?s = total_cost ((s3_costs s)(k \<mapsto> c))" "total_cost ((s3_costs s)(k \<mapsto> c)) < 2 ^ 64"
    using tot D(5) fits by (simp_all del: fun_upd_apply)
  moreover have "s3_small_cost ?s = total_cost ((s3_small_costs ?s)(k := None))" unfolding sc using D(4) by simp
  ultimately have "s3_half k ?s" unfolding s3_half_def c by blast
  from s3_half_push [OF this, of ?m "if k \<in> s3_ghost_set s then Main else Small"] obtain s' where
    "s3_push k (if k \<in> s3_ghost_set s then Main else Small) ?s = Some s'" "s3_inv s'" "s3_costs s' = s3_costs ?s" by auto
  then show ?thesis using m c s3_compact_inv [of s'] by (simp add: s3_on_admit_def Let_def del: fun_upd_apply)
qed

lemma s3_remove_inv:
  assumes inv: "s3_inv s"
  shows "\<exists>s'. s3_on_remove k s = Some s' \<and> s3_inv s' \<and> s3_costs s' = (s3_costs s)(k := None)"
proof (cases "s3_meta s k")
  case None
  then have "(s3_costs s)(k := None) = s3_costs s" by (auto simp: s3_costs_def)
  with None inv show ?thesis by (simp add: s3_on_remove_def)
next
  case (Some m)
  let ?h = "s\<lparr>s3_small_cost := (if m_queue m = Small then u64_sub (s3_small_cost s) (m_cost m) else s3_small_cost s)\<rparr>"
  let ?s = "?h\<lparr>s3_meta := (s3_meta s)(k := None), s3_total_cost := u64_sub (s3_total_cost s) (m_cost m)\<rparr>"
  have g: "ghost_ok ?h" "ghost_ok ?s" using s3_invD(7) [OF inv] by (simp_all add: ghost_ok_def)
  have h: "s3_half k ?h" by (rule s3_half_of_inv [OF inv Some]) (use g in simp_all)
  have "s3_on_remove k s = Some ?s" by (simp add: s3_on_remove_def Some Let_def)
  moreover have "s3_inv ?s" "s3_costs ?s = (s3_costs ?h)(k := None)"
    by (rule s3_half_drop [OF h, of m]; use Some g in simp)+
  moreover have "s3_costs ?h = s3_costs s" by (simp add: s3_costs_def)
  ultimately show ?thesis by metis
qed

subsection \<open>The contract\<close>

definition s3_tracks :: "'k s3_state \<Rightarrow> ('k \<rightharpoonup> nat) \<Rightarrow> bool" where
  "s3_tracks s m \<longleftrightarrow> s3_inv s \<and> s3_costs s = m"

lemma s3_admit_tracks:
  assumes "s3_tracks s m" "total_cost m + c < 2 ^ 64"
  shows "\<exists>s'. s3_on_admit k c s = Some (Admit, s') \<and> s3_tracks s' (m(k \<mapsto> c))"
  using assms s3_readmit_inv [of s k _ c] s3_new_key_inv [of s k c]
  by (cases "s3_meta s k") (auto simp: s3_tracks_def simp del: fun_upd_apply)

lemma s3_evict_tracks:
  assumes "s3_tracks s m"
  shows "\<exists>vs f s' m'. s3_evict n s = Some ((vs, f), s') \<and> s3_tracks s' m' \<and> evicted m vs f m' \<and> (n \<le> f \<or> set vs = dom m)"
  using assms s3_evict_loop_ok [of s 0 n "[]"] s3_invD(6) [of s]
  by (fastforce simp: s3_tracks_def s3_evict_def simp del: dom_s3_costs)

interpretation s3: freeing_policy s3_tracks s3_on_access s3_on_admit s3_on_remove s3_evict s3_clear
proof unfold_locales
  fix s s' :: "'k s3_state" and m :: "'k \<rightharpoonup> nat" and k :: 'k and c n f :: nat and vs
  assume t: "s3_tracks s m"
  then have inv: "s3_inv s" and m: "s3_costs s = m" by (simp_all add: s3_tracks_def)
  show fin: "finite (dom m)" using s3_invD(1) [OF inv] by (simp add: m [symmetric])
  show "\<exists>s' m'. s3_on_access k c s = Some s' \<and> s3_tracks s' m' \<and> dom m' = dom m \<and> total_cost m' \<le> total_cost m + c"
    using s3_access_inv [OF inv, of k c] m by (auto simp: s3_tracks_def simp del: dom_s3_costs)
  show "\<exists>s'. s3_on_remove k s = Some s' \<and> s3_tracks s' (m(k := None))"
    using s3_remove_inv [OF inv, of k] m by (auto simp: s3_tracks_def)
  show "\<exists>vs f s' m'. s3_evict n s = Some ((vs, f), s') \<and> s3_tracks s' m' \<and> evicted m vs f m'"
    using s3_evict_tracks [OF t, of n] by blast
  show "n \<le> f \<or> set vs = dom m" if "s3_evict n s = Some ((vs, f), s')" using s3_evict_tracks [OF t, of n] that by auto
  show "s3_tracks (s3_clear s) Map.empty"
    using s3_invD(7) [OF inv] by (simp add: s3_tracks_def s3_inv_def s3_clear_def s3_costs_def s3_small_costs_def ghost_ok_def)
  show "\<exists>d s' m'. s3_on_admit k c s = Some (d, s') \<and> s3_tracks s' m' \<and> total_cost m' \<le> total_cost m + c \<and>
      dom m' \<inter> victims_of d = {} \<and> dom m' \<union> victims_of d = insert k (dom m)" if "total_cost m + c < 2 ^ 64"
    using s3_admit_tracks [OF t that, of k] fin by (rule put_admit)
qed

subsection \<open>Properties\<close>

lemma s3_new_tracks: "s3_tracks (s3_new capacity) Map.empty"
  by (simp add: s3_tracks_def s3_inv_def s3_new_def s3_costs_def s3_small_costs_def ghost_ok_def)

text \<open>
  (C30) S3-FIFO under any history of calls, for every capacity: no call panics; \<^verbatim>\<open>evict\<close> returns, however
  many keys it moves between the queues and however many stale entries it skips; every answer is in step
  with the shard; every eviction frees what was asked for or empties the shard; afterwards the
  cost counters equal the sums of the costs of the keys they count, frequencies are at most 3, and
  the ghost list is within its cap.
\<close>

theorem s3_policy_in_step:
  assumes "sum_list (map call_cost cs) < 2 ^ 64"
  shows "\<exists>as s'. policy_run s3_policy cs (s3_new capacity) = Some (as, s') \<and>
           in_step answer_ok {} cs as \<and> in_step answer_pays {} cs as \<and>
           dom (s3_costs s') = shard_keys cs as {} \<and>
           s3_total_cost s' = total_cost (s3_costs s') \<and> s3_small_cost s' = total_cost (s3_small_costs s') \<and>
           (\<forall>k m. s3_meta s' k = Some m \<longrightarrow> m_freq m \<le> freq_max) \<and>
           s3_ghost_set s' \<subseteq> set (s3_ghost s') \<and> length (s3_ghost s') \<le> s3_ghost_cap s'"
proof -
  from s3.run_in_step [OF s3_new_tracks, of cs capacity] assms obtain as s' m' where
    r: "policy_run s3_policy cs (s3_new capacity) = Some (as, s')" "s3_tracks s' m'" "in_step answer_ok {} cs as"
      "dom m' = shard_keys cs as {}" by (auto simp: s3_policy_def)
  from r(2) have inv: "s3_inv s'" and m: "s3_costs s' = m'" by (simp_all add: s3_tracks_def)
  have "in_step answer_pays {} cs as"
    using s3.run_pays [OF s3_new_tracks, of cs capacity as s'] assms r(1) by (simp add: s3_policy_def)
  with r(1,3,4) m s3_invD [OF inv] show ?thesis
    by (intro exI [of _ as] exI [of _ s']) (auto simp: ghost_ok_def simp del: dom_s3_costs)
qed

theorem s3_policy_in_step_witness:
  "\<exists>as s'. policy_run s3_policy [OnAdmit (1::nat) 2, OnAdmit 2 3, OnAccess 1 2, OnAccess 1 2, Evict 1] (s3_new 10) = Some (as, s') \<and>
     s3_total_cost s' = total_cost (s3_costs s')"
  using s3_policy_in_step [of "[OnAdmit (1::nat) 2, OnAdmit 2 3, OnAccess 1 2, OnAccess 1 2, Evict 1]" 10] by auto

end
