(* ===== verification/Float64.thy ===== *)
theory Float64
  imports Prelude
begin

section \<open>Shares of a capacity computed in f64\<close>

text \<open>
  The segmented policies size their parts by \<^verbatim>\<open>(capacity as f64 * share).round() as u64\<close>. The IEEE
  arithmetic of that expression is written out on naturals: \<open>round53\<close> rounds to 53 significant bits,
  ties to even, which is what the conversion and the product do; \<^verbatim>\<open>round\<close> rounds half away from zero.
  A constant is its significand and its (negative) exponent: \<^verbatim>\<open>0.20\<close> is \<^verbatim>\<open>7205759403792794 / 2 ^ 55\<close> and
  \<^verbatim>\<open>0.01\<close> is \<^verbatim>\<open>5764607523034235 / 2 ^ 59\<close>.
\<close>

fun bit_length :: "nat \<Rightarrow> nat" where
  "bit_length n = (if n = 0 then 0 else Suc (bit_length (n div 2)))"

declare bit_length.simps [simp del]

definition round53 :: "nat \<Rightarrow> nat" where
  "round53 n =
     (let e = bit_length n - 53; q = n div 2 ^ e; r = n mod 2 ^ e
      in if 2 * r > 2 ^ e \<or> (2 * r = 2 ^ e \<and> odd q) then (q + 1) * 2 ^ e else q * 2 ^ e)"

definition f64_share :: "nat \<Rightarrow> nat \<Rightarrow> nat \<Rightarrow> nat" where
  "f64_share significand exponent capacity =
     (2 * round53 (round53 capacity * significand) + 2 ^ exponent) div 2 ^ (exponent + 1)"

definition share_20 :: "nat \<Rightarrow> nat" where
  "share_20 capacity = f64_share 7205759403792794 55 capacity"

definition share_01 :: "nat \<Rightarrow> nat" where
  "share_01 capacity = f64_share 5764607523034235 59 capacity"

text \<open>
  \<^verbatim>\<open>(a as f64 / b as f64).round() as u64\<close> for \<^verbatim>\<open>0 < b < a\<close>: the quotient of the converted operands, scaled by \<^verbatim>\<open>2 ^ 64\<close>
  so that its integer part has more than 53 bits, rounded to 53 bits (the remainder of the division
  breaks ties upwards), then half away from zero, and saturated by the cast.
\<close>

definition f64_div_round :: "nat \<Rightarrow> nat \<Rightarrow> nat" where
  "f64_div_round a b =
     (let n = round53 a * 2 ^ 64; d = round53 b; quot = n div d; e = bit_length quot - 53;
          q = quot div 2 ^ e; low = quot mod 2 ^ e;
          up = (2 * low > 2 ^ e \<or> (2 * low = 2 ^ e \<and> (n mod d > 0 \<or> odd q)));
          r = (if up then q + 1 else q) * 2 ^ e
      in min (2 ^ 64 - 1) ((2 * r + 2 ^ 64) div 2 ^ 65))"

subsection \<open>Bounds\<close>

lemma bit_length_less: "n < 2 ^ bit_length n"
proof (induction n rule: bit_length.induct)
  case (1 n)
  then show ?case by (cases "n = 0") (simp_all add: bit_length.simps [of n])
qed

lemma bit_length_ge: "n \<noteq> 0 \<Longrightarrow> 2 ^ (bit_length n - 1) \<le> n"
proof (induction n rule: bit_length.induct)
  case (1 n)
  show ?case
  proof (cases "n div 2 = 0")
    case True
    with "1.prems" show ?thesis by (simp add: bit_length.simps [of n] bit_length.simps [of 0])
  next
    case False
    with 1 have "2 ^ (bit_length (n div 2) - 1) \<le> n div 2" by simp
    moreover from False have "bit_length (n div 2) = Suc (bit_length (n div 2) - 1)" by (simp add: bit_length.simps [of "n div 2"])
    ultimately have "2 ^ bit_length (n div 2) \<le> n" by (metis power_Suc nat_mult_le_cancel_disj dual_order.trans times_div_less_eq_dividend)
    with "1.prems" show ?thesis by (simp add: bit_length.simps [of n])
  qed
qed

lemma round53_bounds:
  shows "round53 n * 2 ^ 53 \<le> n * (2 ^ 53 + 1)" "n * (2 ^ 53 - 1) \<le> round53 n * 2 ^ 53"
proof -
  define e q r where "e = bit_length n - 53" and "q = n div 2 ^ e" and "r = n mod 2 ^ e"
  have n: "n = q * 2 ^ e + r" and r: "r < 2 ^ e" unfolding q_def r_def by (simp_all only: div_mult_mod_eq) simp
  have rd: "round53 n = (if 2 * r > 2 ^ e \<or> (2 * r = 2 ^ e \<and> odd q) then (q + 1) * 2 ^ e else q * 2 ^ e)"
    by (simp only: round53_def e_def q_def r_def Let_def)
  have up: "2 * round53 n \<le> 2 * n + 2 ^ e" and lo: "2 * n \<le> 2 * round53 n + 2 ^ e"
    unfolding rd using r by (simp_all add: n algebra_simps split: if_splits)
  have "round53 n * 2 ^ 53 \<le> n * (2 ^ 53 + 1) \<and> n * (2 ^ 53 - 1) \<le> round53 n * 2 ^ 53"
  proof (cases "e = 0")
    case True
    then have "round53 n = n" using rd n r by simp
    then show ?thesis by simp
  next
    case False
    then have "n \<noteq> 0" "bit_length n - 1 = 52 + e" 
      by (cases "n = 0"; auto simp: e_def bit_length.simps [of 0])+
    with bit_length_ge [of n] have "2 ^ 52 * 2 ^ e \<le> n" by (simp add: power_add)
    with up lo show ?thesis by simp
  qed
  then show "round53 n * 2 ^ 53 \<le> n * (2 ^ 53 + 1)" "n * (2 ^ 53 - 1) \<le> round53 n * 2 ^ 53" by simp_all
qed

lemma share_floor: "2 ^ (e + 1) * f64_share s e c \<le> 2 * round53 (round53 c * s) + 2 ^ e"
  "2 * round53 (round53 c * s) + 2 ^ e < 2 ^ (e + 1) * f64_share s e c + 2 ^ (e + 1)"
  unfolding f64_share_def
  by (metis mult.commute div_times_less_eq_dividend) (metis div_mod_decomp add_less_cancel_left mod_less_divisor mult.commute zero_less_numeral zero_less_power)

lemma share_20_near:
  assumes "c < 2 ^ 50"
  shows "5 * share_20 c \<le> c + 2" "c \<le> 5 * share_20 c + 2"
proof -
  note a = round53_bounds [of c] and b = round53_bounds [of "round53 c * 7205759403792794"]
    and f = share_floor [where s = 7205759403792794 and e = 55 and c = c]
  from a b f assms show "5 * share_20 c \<le> c + 2" "c \<le> 5 * share_20 c + 2"
    unfolding share_20_def by simp_all
qed

lemma share_20_le: "5 * share_20 c \<le> 2 * c + 3"
  using round53_bounds [of c] round53_bounds [of "round53 c * 7205759403792794"] share_floor [where s = 7205759403792794 and e = 55 and c = c]
  unfolding share_20_def by simp

lemma share_01_near:
  assumes "c < 2 ^ 50"
  shows "100 * share_01 c \<le> c + 50" "c \<le> 100 * share_01 c + 50"
proof -
  note a = round53_bounds [of c] and b = round53_bounds [of "round53 c * 5764607523034235"]
    and f = share_floor [where s = 5764607523034235 and e = 59 and c = c]
  from a b f assms show "100 * share_01 c \<le> c + 50" "c \<le> 100 * share_01 c + 50"
    unfolding share_01_def by simp_all
qed

lemma share_01_le: "100 * share_01 c \<le> 2 * c + 51"
  using round53_bounds [of c] round53_bounds [of "round53 c * 5764607523034235"] share_floor [where s = 5764607523034235 and e = 59 and c = c]
  unfolding share_01_def by simp

end
