(* ===== verification/Slru.thy ===== *)
theory Slru
  imports Lru_Fifo Float64
begin

section \<open>The segmented LRU policy\<close>

text \<open>
  \<^verbatim>\<open>cache/src/policy/slru.rs\<close>: new keys enter a probationary list; an access promotes a key to the protected
  list, whose overflow is demoted to the front of the probationary one. \<open>slru_state\<close> is also
  the main space of TinyLFU, so its operations take the capacity of the protected segment.
\<close>

record ('a, 'i, 'k) slru_state =
  probationary :: "('a, 'i, 'k) lru_list"
  protected :: "('a, 'i, 'k) lru_list"

definition slru_state_new :: "('a, 'i, 'k) node_arena \<Rightarrow> ('a, 'i, 'k) slru_state" where
  "slru_state_new A = \<lparr>probationary = lru_new A, protected = lru_new A\<rparr>"

definition slru_new_with_capacity :: "('a, 'i, 'k) node_arena \<Rightarrow> nat \<Rightarrow> ('a, 'i, 'k) slru_state" where
  "slru_new_with_capacity A capacity = slru_state_new A"

partial_function (option) maintain_capacities ::
  "('a, 'i, 'k) node_arena \<Rightarrow> nat \<Rightarrow> ('a, 'i, 'k) slru_state \<Rightarrow> ('a, 'i, 'k) slru_state option" where
  "maintain_capacities A prot_capacity s =
     (if lru_current_total_cost (protected s) > prot_capacity
      then do { (popped, prot) \<leftarrow> lru_pop_back A (protected s);
                let s = s\<lparr>protected := prot\<rparr>;
                (case popped of
                   Some (key, cost) \<Rightarrow>
                     do { prob \<leftarrow> lru_push_new A key cost (probationary s);
                          maintain_capacities A prot_capacity (s\<lparr>probationary := prob\<rparr>) }
                 | None \<Rightarrow> Some s) }
      else Some s)"

definition slru_peek_lru :: "('a, 'i, 'k) node_arena \<Rightarrow> ('a, 'i, 'k) slru_state \<Rightarrow> 'k option option" where
  "slru_peek_lru A s =
     do { first_key \<leftarrow> lru_tail_key A (probationary s);
          (case first_key of Some k \<Rightarrow> Some (Some k) | None \<Rightarrow> lru_tail_key A (protected s)) }"

definition slru_admit_internal :: "('a, 'i, 'k) node_arena \<Rightarrow> 'k \<Rightarrow> nat \<Rightarrow> ('a, 'i, 'k) slru_state \<Rightarrow> ('a, 'i, 'k) slru_state option" where
  "slru_admit_internal A key cost s =
     (if \<not> lru_contains key (protected s)
      then do { prob \<leftarrow> lru_push_front A key cost (probationary s); Some (s\<lparr>probationary := prob\<rparr>) }
      else Some s)"

definition slru_touch :: "('a, 'i, 'k) node_arena \<Rightarrow> 'k \<Rightarrow> nat \<Rightarrow> nat \<Rightarrow> ('a, 'i, 'k) slru_state \<Rightarrow> (bool \<times> ('a, 'i, 'k) slru_state) option" where
  "slru_touch A key cost prot_capacity s =
     (case ll_lookup (protected s) key of
        Some index \<Rightarrow> do { prot \<leftarrow> lru_touch_index A index cost (protected s); Some (True, s\<lparr>protected := prot\<rparr>) }
      | None \<Rightarrow>
          do { (removed, prob) \<leftarrow> lru_remove A key (probationary s);
               let s = s\<lparr>probationary := prob\<rparr>;
               (case removed of
                  Some _ \<Rightarrow> do { prot \<leftarrow> lru_push_new A key cost (protected s);
                                s \<leftarrow> maintain_capacities A prot_capacity (s\<lparr>protected := prot\<rparr>);
                                Some (True, s) }
                | None \<Rightarrow> Some (False, s)) })"

definition slru_access_internal ::
  "('a, 'i, 'k) node_arena \<Rightarrow> 'k \<Rightarrow> nat \<Rightarrow> nat \<Rightarrow> ('a, 'i, 'k) slru_state \<Rightarrow> ('a, 'i, 'k) slru_state option" where
  "slru_access_internal A key cost prot_capacity s = map_option snd (slru_touch A key cost prot_capacity s)"

text \<open>The two draining loops of \<^verbatim>\<open>evict_items\<close> have the same body; the state is the remaining cost, the victims and the cost freed.\<close>

partial_function (option) slru_drain ::
  "('a, 'i, 'k) node_arena \<Rightarrow> nat \<Rightarrow> 'k list \<Rightarrow> nat \<Rightarrow> ('a, 'i, 'k) lru_list \<Rightarrow> ((nat \<times> 'k list \<times> nat) \<times> ('a, 'i, 'k) lru_list) option" where
  "slru_drain A cost_to_free victims total_cost_freed l =
     (if cost_to_free > 0
      then do { (popped, l) \<leftarrow> lru_pop_back A l;
                (case popped of
                   Some (key, cost) \<Rightarrow>
                     slru_drain A (saturating_sub cost_to_free cost) (victims @ [key]) (u64_add total_cost_freed cost) l
                 | None \<Rightarrow> Some ((cost_to_free, victims, total_cost_freed), l)) }
      else Some ((cost_to_free, victims, total_cost_freed), l))"

definition slru_evict_items ::
  "('a, 'i, 'k) node_arena \<Rightarrow> nat \<Rightarrow> nat \<Rightarrow> ('a, 'i, 'k) slru_state \<Rightarrow> (('k list \<times> nat) \<times> ('a, 'i, 'k) slru_state) option" where
  "slru_evict_items A cost_to_free prot_capacity s =
     do { s \<leftarrow> maintain_capacities A prot_capacity s;
          ((cost_to_free, victims, freed), prob) \<leftarrow> slru_drain A cost_to_free [] 0 (probationary s);
          let s = s\<lparr>probationary := prob\<rparr>;
          ((cost_to_free, victims, freed), prot) \<leftarrow> slru_drain A cost_to_free victims freed (protected s);
          Some ((victims, freed), s\<lparr>protected := prot\<rparr>) }"

record ('a, 'i, 'k) slru_policy_state =
  sp_state :: "('a, 'i, 'k) slru_state"
  sp_prob_capacity :: nat
  sp_prot_capacity :: nat

definition slru_prob_capacity :: "nat \<Rightarrow> nat" where
  "slru_prob_capacity capacity = (if capacity = 0 then 0 else max (share_20 capacity) 1)"

definition slru_new :: "('a, 'i, 'k) node_arena \<Rightarrow> nat \<Rightarrow> ('a, 'i, 'k) slru_policy_state" where
  "slru_new A capacity =
     (let prob_capacity = slru_prob_capacity capacity
      in \<lparr>sp_state = slru_state_new A, sp_prob_capacity = prob_capacity,
          sp_prot_capacity = saturating_sub capacity prob_capacity\<rparr>)"

definition slru_on_access ::
  "('a, 'i, 'k) node_arena \<Rightarrow> 'k \<Rightarrow> nat \<Rightarrow> ('a, 'i, 'k) slru_policy_state \<Rightarrow> ('a, 'i, 'k) slru_policy_state option" where
  "slru_on_access A key cost p =
     do { s \<leftarrow> slru_access_internal A key cost (sp_prot_capacity p) (sp_state p); Some (p\<lparr>sp_state := s\<rparr>) }"

definition slru_on_admit ::
  "('a, 'i, 'k) node_arena \<Rightarrow> 'k \<Rightarrow> nat \<Rightarrow> ('a, 'i, 'k) slru_policy_state \<Rightarrow> ('k admission_decision \<times> ('a, 'i, 'k) slru_policy_state) option" where
  "slru_on_admit A key cost p =
     (let s = sp_state p
      in if \<not> lru_contains key (protected s) \<and> \<not> lru_contains key (probationary s)
         then do { prob \<leftarrow> lru_push_front A key cost (probationary s);
                   Some (Admit, p\<lparr>sp_state := s\<lparr>probationary := prob\<rparr>\<rparr>) }
         else Some (Admit, p))"

definition slru_on_remove ::
  "('a, 'i, 'k) node_arena \<Rightarrow> 'k \<Rightarrow> ('a, 'i, 'k) slru_policy_state \<Rightarrow> ('a, 'i, 'k) slru_policy_state option" where
  "slru_on_remove A key p =
     (let s = sp_state p
      in do { (removed, prob) \<leftarrow> lru_remove A key (probationary s);
              let s = s\<lparr>probationary := prob\<rparr>;
              (if removed \<noteq> None then Some (p\<lparr>sp_state := s\<rparr>)
               else do { (_, prot) \<leftarrow> lru_remove A key (protected s);
                         Some (p\<lparr>sp_state := s\<lparr>protected := prot\<rparr>\<rparr>) }) })"

definition slru_evict ::
  "('a, 'i, 'k) node_arena \<Rightarrow> nat \<Rightarrow> ('a, 'i, 'k) slru_policy_state \<Rightarrow> (('k list \<times> nat) \<times> ('a, 'i, 'k) slru_policy_state) option" where
  "slru_evict A cost_to_free p =
     do { (r, s) \<leftarrow> slru_evict_items A cost_to_free (sp_prot_capacity p) (sp_state p); Some (r, p\<lparr>sp_state := s\<rparr>) }"

definition slru_clear :: "('a, 'i, 'k) node_arena \<Rightarrow> ('a, 'i, 'k) slru_policy_state \<Rightarrow> ('a, 'i, 'k) slru_policy_state" where
  "slru_clear A p =
     (let s = sp_state p
      in p\<lparr>sp_state := \<lparr>probationary = lru_clear A (probationary s), protected = lru_clear A (protected s)\<rparr>\<rparr>)"

definition slru_policy :: "('a, 'i, 'k) node_arena \<Rightarrow> ('k, ('a, 'i, 'k) slru_policy_state) policy" where
  "slru_policy A = \<lparr>pol_on_access = slru_on_access A, pol_on_admit = slru_on_admit A, pol_on_remove = slru_on_remove A,
     pol_evict = slru_evict A, pol_clear = slru_clear A\<rparr>"

subsection \<open>The two segments as one list\<close>

text \<open>
  \<open>slru_rep A s ts ps\<close>: the protected list holds \<open>ts\<close>, the probationary one \<open>ps\<close>. Evictions
  take from the back of \<open>ts @ ps\<close>; maintaining the capacities only moves the boundary in it.
\<close>

definition slru_rep :: "('a, 'i, 'k) node_arena \<Rightarrow> ('a, 'i, 'k) slru_state \<Rightarrow> ('k \<times> nat) list \<Rightarrow> ('k \<times> nat) list \<Rightarrow> bool" where
  "slru_rep A s ts ps \<longleftrightarrow>
     lru_rep A (protected s) ts \<and> lru_rep A (probationary s) ps \<and> keyed (ts @ ps) \<and> costs (ts @ ps) < 2 ^ 64"

lemma slru_repD:
  assumes "slru_rep A s ts ps"
  shows "lru_rep A (protected s) ts" "lru_rep A (probationary s) ps" "keyed (ts @ ps)" "costs ts + costs ps < 2 ^ 64"
  using assms by (simp_all add: slru_rep_def)

lemma slru_repI:
  "lru_rep A (protected s) ts \<Longrightarrow> lru_rep A (probationary s) ps \<Longrightarrow> keyed (ts @ ps) \<Longrightarrow> costs ts + costs ps < 2 ^ 64 \<Longrightarrow>
   slru_rep A s ts ps"
  by (simp add: slru_rep_def)

lemma maintain_moves_boundary:
  assumes A: "arena_laws A" and R: "slru_rep A s ts ps"
  shows "\<exists>s' keep moved. maintain_capacities A cap s = Some s' \<and> ts = keep @ moved \<and> slru_rep A s' keep (moved @ ps) \<and> costs keep \<le> cap"
  using R
proof (induction ts arbitrary: s ps rule: rev_induct)
  case Nil
  have "lru_current_total_cost (protected s) = 0" using slru_repD(1) [OF Nil] by simp
  with Nil show ?case by (auto simp: maintain_capacities.simps)
next
  case (snoc x ts)
  note D = slru_repD [OF snoc.prems]
  have cost: "lru_current_total_cost (protected s) = costs (ts @ [x])" using D(1) by (rule lru_cost_eq)
  show ?case
  proof (cases "cap < costs (ts @ [x])")
    case False
    then have "maintain_capacities A cap s = Some s" by (simp add: maintain_capacities.simps cost)
    with snoc.prems False show ?thesis by (intro exI [of _ s] exI [of _ "ts @ [x]"] exI [of _ "[]"]) simp
  next
    case True
    from A D(1) obtain prot where prot: "lru_pop_back A (protected s) = Some (final (ts @ [x]), prot)"
      "lru_rep A prot (butlast (ts @ [x]))" by (rule lru_pop_back_rep)
    have "fst x \<notin> fst ` set ps" "costs ps + snd x < 2 ^ 64" using D(3,4) by auto
    with A D(2) obtain prob where prob: "lru_push_new A (fst x) (snd x) (probationary s) = Some prob"
      "lru_rep A prob ((fst x, snd x) # ps)" by (rule lru_push_new_rep)
    let ?s = "s\<lparr>protected := prot, probationary := prob\<rparr>"
    have step: "maintain_capacities A cap s = maintain_capacities A cap ?s"
      using True prot(1) prob(1) by (simp add: maintain_capacities.simps [of A cap s] cost split_beta)
    have "slru_rep A ?s ts (x # ps)" using prot(2) prob(2) D(3,4) by (intro slru_repI) auto
    from snoc.IH [OF this] obtain s' keep moved where
      "maintain_capacities A cap ?s = Some s'" "ts = keep @ moved" "slru_rep A s' keep (moved @ x # ps)" "costs keep \<le> cap" by blast
    with step show ?thesis by (intro exI [of _ s'] exI [of _ keep] exI [of _ "moved @ [x]"]) simp
  qed
qed

lemma slru_drain_ok:
  assumes A: "arena_laws A" and R: "lru_rep A l xs" and fits: "freed + costs xs < 2 ^ 64"
  shows "\<exists>l'. slru_drain A n vs freed l =
           Some ((n - costs (reap n (rev xs)), vs @ map fst (reap n (rev xs)), freed + costs (reap n (rev xs))), l') \<and>
           lru_rep A l' (rev (unreaped n (rev xs)))"
  using R fits
proof (induction xs arbitrary: l vs freed n rule: rev_induct)
  case Nil
  from A Nil(1) obtain l' where "lru_pop_back A l = Some (final [], l')" "lru_rep A l' (butlast [])" by (rule lru_pop_back_rep)
  with Nil(1) show ?case by (simp add: slru_drain.simps)
next
  case (snoc x xs)
  from A snoc.prems(1) obtain l1 where l1: "lru_pop_back A l = Some (final (xs @ [x]), l1)" "lru_rep A l1 (butlast (xs @ [x]))"
    by (rule lru_pop_back_rep)
  show ?case
  proof (cases "n = 0")
    case True
    with snoc.prems(1) show ?thesis by (simp add: slru_drain.simps)
  next
    case False
    have u: "u64_add freed (snd x) = freed + snd x" "freed + snd x + costs xs < 2 ^ 64" "lru_rep A l1 xs"
      using snoc.prems(2) l1(2) by simp_all
    from snoc.IH [OF u(3,2), of "n - snd x" "vs @ [fst x]"] False l1(1) u(1) show ?thesis
      by (cases x) (simp add: slru_drain.simps [of A n vs] saturating_sub_def add.assoc)
  qed
qed

text \<open>Evicting is reaping the one list from the back.\<close>

lemma slru_evict_items_ok:
  assumes A: "arena_laws A" and R: "slru_rep A s ts ps"
  shows "\<exists>s' ts' ps'. slru_evict_items A n cap s =
       Some ((map fst (reap n (rev (ts @ ps))), costs (reap n (rev (ts @ ps)))), s') \<and>
     slru_rep A s' ts' ps' \<and> ts' @ ps' = rev (unreaped n (rev (ts @ ps)))"
proof -
  from maintain_moves_boundary [OF A R, of cap] obtain s1 keep moved where
    1: "maintain_capacities A cap s = Some s1" "ts = keep @ moved" "slru_rep A s1 keep (moved @ ps)" by blast
  note D = slru_repD [OF 1(3)]
  let ?q = "moved @ ps" let ?r = "reap n (rev ?q)" let ?n = "n - costs ?r"
  let ?r2 = "reap ?n (rev keep)"
  have all: "ts @ ps = keep @ ?q" by (simp add: 1(2))
  have le: "costs ?r \<le> costs ?q" using costs_reap_le [of n "rev ?q"] by simp
  from slru_drain_ok [OF A D(2), of 0 n "[]"] D(4) obtain prob where
    p: "slru_drain A n [] 0 (probationary s1) = Some ((?n, map fst ?r, costs ?r), prob)" "lru_rep A prob (rev (unreaped n (rev ?q)))"
    by auto
  from slru_drain_ok [OF A D(1), of "costs ?r" ?n "map fst ?r"] D(4) le obtain prot where
    t: "slru_drain A ?n (map fst ?r) (costs ?r) (protected s1) = Some ((?n - costs ?r2, map fst ?r @ map fst ?r2, costs ?r + costs ?r2), prot)"
      "lru_rep A prot (rev (unreaped ?n (rev keep)))" by auto
  let ?s = "s1\<lparr>probationary := prob, protected := prot\<rparr>"
  have rv: "rev (ts @ ps) = rev ?q @ rev keep" by (simp add: all)
  have "reap n (rev (ts @ ps)) = ?r @ ?r2" by (simp only: rv reap_append)
  then have ev: "slru_evict_items A n cap s = Some ((map fst (reap n (rev (ts @ ps))), costs (reap n (rev (ts @ ps)))), ?s)"
    using 1(1) p(1) t(1) by (simp add: slru_evict_items_def del: rev_append)
  have "unreaped n (rev ?q) \<noteq> [] \<Longrightarrow> ?n = 0" using reap_enough [of n "rev ?q"] by auto
  then have rest: "rev (unreaped ?n (rev keep)) @ rev (unreaped n (rev ?q)) = rev (unreaped n (rev (ts @ ps)))"
    unfolding rv unreaped_append by auto
  have "keyed (rev (ts @ ps))" using slru_repD(3) [OF R] by (simp only: keyed_rev)
  then have "keyed (unreaped n (rev (ts @ ps)))" by (metis keyed_append reap_unreaped)
  then have k: "keyed (rev (unreaped n (rev (ts @ ps))))" by simp
  have "slru_rep A ?s (rev (unreaped ?n (rev keep))) (rev (unreaped n (rev ?q)))"
  proof (rule slru_repI)
    show "keyed (rev (unreaped ?n (rev keep)) @ rev (unreaped n (rev ?q)))" unfolding rest by (rule k)
    show "costs (rev (unreaped ?n (rev keep))) + costs (rev (unreaped n (rev ?q))) < 2 ^ 64"
      using costs_unreaped_le [of n "rev ?q"] costs_unreaped_le [of ?n "rev keep"] D(4) by simp
  qed (use p(2) t(2) in simp_all)
  with ev rest show ?thesis by blast
qed

lemma slru_touch_ok:
  assumes A: "arena_laws A" and R: "slru_rep A s ts ps" and fits: "costs (ts @ ps) + c < 2 ^ 64"
  shows "\<exists>s' ts' ps'. slru_touch A k c cap s = Some (k \<in> fst ` set (ts @ ps), s') \<and> slru_rep A s' ts' ps' \<and>
    ts' @ ps' = (if k \<in> fst ` set (ts @ ps) then (k, c) # drop_key k (ts @ ps) else ts @ ps)"
proof -
  note D = slru_repD [OF R]
  have le: "costs (drop_key k ts) \<le> costs ts" "costs (drop_key k ps) \<le> costs ps" by (rule costs_drop_key_le)+
  show ?thesis
  proof (cases "ll_lookup (protected s) k")
    case (Some i)
    then have k: "k \<in> fst ` set ts" using lru_lookup_iff [OF D(1), of k] by simp
    then have nk: "k \<notin> fst ` set ps" using D(3) by auto
    have "costs (drop_key k ts) + c < 2 ^ 64" using fits le by simp
    with A D(1) Some obtain prot where p: "lru_touch_index A i c (protected s) = Some prot" "lru_rep A prot ((k, c) # drop_key k ts)"
      by (rule lru_touch_index_rep)
    have "slru_rep A (s\<lparr>protected := prot\<rparr>) ((k, c) # drop_key k ts) ps"
      using p(2) D(2,3) nk fits le by (intro slru_repI) auto
    moreover have "slru_touch A k c cap s = Some (True, s\<lparr>protected := prot\<rparr>)" using Some p(1) by (simp add: slru_touch_def)
    ultimately show ?thesis using k nk by (intro exI [of _ "s\<lparr>protected := prot\<rparr>"] exI [of _ "(k, c) # drop_key k ts"] exI [of _ ps]) auto
  next
    case None
    then have nt: "k \<notin> fst ` set ts" using lru_lookup_iff [OF D(1), of k] by simp
    from A D(2) obtain prob where p: "lru_remove A k (probationary s) = Some (map_of ps k, prob)" "lru_rep A prob (drop_key k ps)"
      by (rule lru_remove_rep)
    show ?thesis
    proof (cases "k \<in> fst ` set ps")
      case False
      then have "map_of ps k = None" by (simp add: map_of_eq_None_iff)
      moreover have "slru_rep A (s\<lparr>probationary := prob\<rparr>) ts ps" using p(2) False D by (intro slru_repI) auto
      ultimately show ?thesis using None p(1) nt False by (auto simp: slru_touch_def)
    next
      case True
      then obtain c0 where c0: "map_of ps k = Some c0" by (metis map_of_eq_None_iff not_Some_eq)
      have "costs ts + c < 2 ^ 64" using fits by simp
      with A D(1) nt obtain prot where t: "lru_push_new A k c (protected s) = Some prot" "lru_rep A prot ((k, c) # ts)"
        by (rule lru_push_new_rep)
      have "slru_rep A (s\<lparr>probationary := prob, protected := prot\<rparr>) ((k, c) # ts) (drop_key k ps)"
        using p(2) t(2) D(3) nt fits le by (intro slru_repI) auto
      from maintain_moves_boundary [OF A this, of cap] obtain s' keep moved where
        m: "maintain_capacities A cap (s\<lparr>probationary := prob, protected := prot\<rparr>) = Some s'" "(k, c) # ts = keep @ moved"
          "slru_rep A s' keep (moved @ drop_key k ps)" by blast
      have kin: "k \<in> fst ` set (ts @ ps)" using True by auto
      then have "slru_touch A k c cap s = Some (k \<in> fst ` set (ts @ ps), s')"
        using None p(1) c0 t(1) m(1) by (simp add: slru_touch_def)
      moreover have "keep @ (moved @ drop_key k ps) = (k, c) # drop_key k (ts @ ps)" using m(2) nt by simp
      ultimately show ?thesis using m(3) unfolding if_P [OF kin] by blast
    qed
  qed
qed

subsection \<open>The contract\<close>

definition slru_tracks :: "('a, 'i, 'k) node_arena \<Rightarrow> ('a, 'i, 'k) slru_policy_state \<Rightarrow> ('k \<rightharpoonup> nat) \<Rightarrow> bool" where
  "slru_tracks A p m \<longleftrightarrow> arena_laws A \<and> (\<exists>ts ps. slru_rep A (sp_state p) ts ps \<and> m = map_of (ts @ ps))"

lemma slru_tracksI: "arena_laws A \<Longrightarrow> slru_rep A (sp_state p) ts ps \<Longrightarrow> m = map_of (ts @ ps) \<Longrightarrow> slru_tracks A p m"
  by (auto simp: slru_tracks_def)

lemma slru_tracksE:
  assumes "slru_tracks A p m"
  obtains ts ps where "arena_laws A" "slru_rep A (sp_state p) ts ps" "m = map_of (ts @ ps)" "total_cost m = costs (ts @ ps)"
proof -
  from assms obtain ts ps where "arena_laws A" and R: "slru_rep A (sp_state p) ts ps" and m: "m = map_of (ts @ ps)"
    by (auto simp: slru_tracks_def)
  moreover have "total_cost m = costs (ts @ ps)" unfolding m by (rule total_map_of [OF slru_repD(3) [OF R]])
  ultimately show thesis using that by blast
qed

lemma slru_tracks_finite: "slru_tracks A p m \<Longrightarrow> finite (dom m)"
  by (auto simp: slru_tracks_def finite_dom_map_of simp del: map_of_append)

lemma slru_access_tracks:
  assumes t: "slru_tracks A p m" and fits: "total_cost m + c < 2 ^ 64"
  shows "\<exists>p'. slru_on_access A k c p = Some p' \<and> slru_tracks A p' (if k \<in> dom m then m(k \<mapsto> c) else m)"
proof -
  from t obtain ts ps where A: "arena_laws A" and R: "slru_rep A (sp_state p) ts ps" and m: "m = map_of (ts @ ps)"
    and tot: "total_cost m = costs (ts @ ps)" by (rule slru_tracksE)
  from slru_touch_ok [OF A R, of c k "sp_prot_capacity p"] fits tot obtain s' ts' ps' where
    s': "slru_touch A k c (sp_prot_capacity p) (sp_state p) = Some (k \<in> fst ` set (ts @ ps), s')" "slru_rep A s' ts' ps'"
      "ts' @ ps' = (if k \<in> fst ` set (ts @ ps) then (k, c) # drop_key k (ts @ ps) else ts @ ps)" by metis
  have d: "dom m = fst ` set (ts @ ps)" by (simp only: m dom_map_of_conv_image_fst)
  have "map_of ((k, c) # drop_key k (ts @ ps)) = m(k \<mapsto> c)" by (rule ext) (simp add: m del: drop_key_append map_of_append)
  then have upd: "(if k \<in> dom m then m(k \<mapsto> c) else m) = map_of (ts' @ ps')"
    unfolding s'(3) d [symmetric] using m by (cases "k \<in> dom m") (simp_all only: if_True if_False)
  have "slru_tracks A (p\<lparr>sp_state := s'\<rparr>) (if k \<in> dom m then m(k \<mapsto> c) else m)"
    by (rule slru_tracksI [OF A _ upd]) (use s'(2) in simp)
  then show ?thesis using s'(1) by (simp add: slru_on_access_def slru_access_internal_def)
qed

lemma slru_admit_tracks:
  assumes t: "slru_tracks A p m" and fits: "total_cost m + c < 2 ^ 64"
  shows "\<exists>p'. slru_on_admit A k c p = Some (Admit, p') \<and> slru_tracks A p' (if k \<in> dom m then m else m(k \<mapsto> c))"
proof -
  from t obtain ts ps where A: "arena_laws A" and R: "slru_rep A (sp_state p) ts ps" and m: "m = map_of (ts @ ps)"
    and tot: "total_cost m = costs (ts @ ps)" by (rule slru_tracksE)
  note D = slru_repD [OF R]
  have d: "dom m = fst ` set ts \<union> fst ` set ps" by (auto simp: m dom_map_of_conv_image_fst)
  have c: "lru_contains k (protected (sp_state p)) \<longleftrightarrow> k \<in> fst ` set ts" "lru_contains k (probationary (sp_state p)) \<longleftrightarrow> k \<in> fst ` set ps"
    using D(1,2) by simp_all
  show ?thesis
  proof (cases "k \<in> dom m")
    case True
    with c d have nc: "\<not> (\<not> lru_contains k (protected (sp_state p)) \<and> \<not> lru_contains k (probationary (sp_state p)))" by blast
    then have "slru_on_admit A k c p = Some (Admit, p)" unfolding slru_on_admit_def Let_def by (rule if_not_P)
    with True t show ?thesis by simp
  next
    case False
    have "costs (drop_key k ps) + c < 2 ^ 64" using fits tot costs_drop_key_le [of k ps] by simp
    with A D(2) obtain prob where p: "lru_push_front A k c (probationary (sp_state p)) = Some prob" "lru_rep A prob ((k, c) # drop_key k ps)"
      by (rule lru_push_front_rep)
    let ?p = "p\<lparr>sp_state := sp_state p\<lparr>probationary := prob\<rparr>\<rparr>"
    have "slru_rep A (sp_state ?p) ts ((k, c) # ps)" using p(2) D(1,3,4) False d fits tot by (intro slru_repI) auto
    moreover have "m(k \<mapsto> c) = map_of (ts @ (k, c) # ps)"
      using False d by (auto simp: m fun_eq_iff map_add_def map_of_eq_None_iff [THEN iffD2] split: option.split)
    ultimately have "slru_tracks A ?p (m(k \<mapsto> c))" by (rule slru_tracksI [OF A])
    moreover from c d False have nc: "\<not> lru_contains k (protected (sp_state p)) \<and> \<not> lru_contains k (probationary (sp_state p))" by blast
    then have "slru_on_admit A k c p = Some (Admit, ?p)" unfolding slru_on_admit_def Let_def if_P [OF nc] using p(1) by simp
    ultimately show ?thesis using False by simp
  qed
qed

lemma slru_remove_tracks:
  assumes t: "slru_tracks A p m"
  shows "\<exists>p'. slru_on_remove A k p = Some p' \<and> slru_tracks A p' (m(k := None))"
proof -
  from t obtain ts ps where A: "arena_laws A" and R: "slru_rep A (sp_state p) ts ps" and m: "m = map_of (ts @ ps)" by (rule slru_tracksE)
  note D = slru_repD [OF R]
  have le: "costs (drop_key k ts) \<le> costs ts" "costs (drop_key k ps) \<le> costs ps" by (rule costs_drop_key_le)+
  have mk: "m(k := None) = map_of (drop_key k ts @ drop_key k ps)"
    unfolding m by (simp only: map_of_drop_key_fun [symmetric] drop_key_append)
  from A D(2) obtain prob where p: "lru_remove A k (probationary (sp_state p)) = Some (map_of ps k, prob)" "lru_rep A prob (drop_key k ps)"
    by (rule lru_remove_rep)
  from A D(1) obtain prot where q: "lru_remove A k (protected (sp_state p)) = Some (map_of ts k, prot)" "lru_rep A prot (drop_key k ts)"
    by (rule lru_remove_rep)
  let ?s1 = "sp_state p\<lparr>probationary := prob\<rparr>" let ?s2 = "?s1\<lparr>protected := prot\<rparr>"
  have r2: "slru_rep A ?s2 (drop_key k ts) (drop_key k ps)" using p(2) q(2) D(3,4) le by (intro slru_repI) auto
  show ?thesis
  proof (cases "map_of ps k")
    case None
    then have "slru_on_remove A k p = Some (p\<lparr>sp_state := ?s2\<rparr>)" using p(1) q(1) by (simp add: slru_on_remove_def)
    moreover have "slru_tracks A (p\<lparr>sp_state := ?s2\<rparr>) (m(k := None))" by (rule slru_tracksI [OF A _ mk]) (use r2 in simp)
    ultimately show ?thesis by blast
  next
    case (Some c)
    then have "k \<in> fst ` set ps" by (metis map_of_eq_None_iff option.distinct(1))
    then have "drop_key k ts = ts" using D(3) by (intro drop_key_absent) auto
    with r2 D(1) p(2) have "slru_rep A ?s1 (drop_key k ts) (drop_key k ps)" by (simp add: slru_rep_def)
    then have "slru_tracks A (p\<lparr>sp_state := ?s1\<rparr>) (m(k := None))" by (intro slru_tracksI [OF A _ mk]) simp
    moreover have "slru_on_remove A k p = Some (p\<lparr>sp_state := ?s1\<rparr>)" using Some p(1) by (simp add: slru_on_remove_def)
    ultimately show ?thesis by blast
  qed
qed

lemma slru_evict_tracks:
  assumes t: "slru_tracks A p m"
  shows "\<exists>vs f p' m'. slru_evict A n p = Some ((vs, f), p') \<and> slru_tracks A p' m' \<and> evicted m vs f m' \<and> (n \<le> f \<or> set vs = dom m)"
proof -
  from t obtain ts ps where A: "arena_laws A" and R: "slru_rep A (sp_state p) ts ps" and m: "m = map_of (ts @ ps)" by (rule slru_tracksE)
  from slru_evict_items_ok [OF A R, of n "sp_prot_capacity p"] obtain s' ts' ps' where
    e: "slru_evict_items A n (sp_prot_capacity p) (sp_state p) =
          Some ((map fst (reap n (rev (ts @ ps))), costs (reap n (rev (ts @ ps)))), s')" "slru_rep A s' ts' ps'"
      "ts' @ ps' = rev (unreaped n (rev (ts @ ps)))" by blast
  have "slru_tracks A (p\<lparr>sp_state := s'\<rparr>) (map_of (ts' @ ps'))" by (rule slru_tracksI [OF A _ refl]) (use e(2) in simp)
  moreover have "slru_evict A n p = Some ((map fst (reap n (rev (ts @ ps))), costs (reap n (rev (ts @ ps)))), p\<lparr>sp_state := s'\<rparr>)"
    using e(1) by (simp add: slru_evict_def del: rev_append)
  moreover have "evicted m (map fst (reap n (rev (ts @ ps)))) (costs (reap n (rev (ts @ ps)))) (map_of (ts' @ ps'))"
    unfolding m e(3) by (rule reap_rev_evicted [OF slru_repD(3) [OF R]])
  ultimately show ?thesis using reap_rev_enough [of n "ts @ ps"] unfolding m by blast
qed

interpretation slru: freeing_policy "slru_tracks A" "slru_on_access A" "slru_on_admit A" "slru_on_remove A" "slru_evict A" "slru_clear A"
  for A :: "('a, 'i, 'k) node_arena"
proof unfold_locales
  fix p p' :: "('a, 'i, 'k) slru_policy_state" and m :: "'k \<rightharpoonup> nat" and k :: 'k and c n f :: nat and vs
  assume t: "slru_tracks A p m"
  show fin: "finite (dom m)" using t by (rule slru_tracks_finite)
  show "\<exists>p' m'. slru_on_access A k c p = Some p' \<and> slru_tracks A p' m' \<and> dom m' = dom m \<and> total_cost m' \<le> total_cost m + c"
    if "total_cost m + c < 2 ^ 64"
  proof -
    let ?m = "if k \<in> dom m then m(k \<mapsto> c) else m"
    have "dom ?m = dom m" "total_cost ?m \<le> total_cost m + c" using total_upd_le [OF fin, of k c] by auto
    with slru_access_tracks [OF t that, of k] show ?thesis by blast
  qed
  show "\<exists>p'. slru_on_remove A k p = Some p' \<and> slru_tracks A p' (m(k := None))" by (rule slru_remove_tracks [OF t])
  show "\<exists>vs f p' m'. slru_evict A n p = Some ((vs, f), p') \<and> slru_tracks A p' m' \<and> evicted m vs f m'"
    using slru_evict_tracks [OF t, of n] by blast
  show "n \<le> f \<or> set vs = dom m" if "slru_evict A n p = Some ((vs, f), p')" using slru_evict_tracks [OF t, of n] that by auto
  show "slru_tracks A (slru_clear A p) Map.empty"
  proof -
    from t have A: "arena_laws A" by (auto simp: slru_tracks_def)
    then have "slru_rep A (sp_state (slru_clear A p)) [] []"
      by (intro slru_repI) (simp_all add: slru_clear_def Let_def lru_clear_rep)
    then show ?thesis by (rule slru_tracksI [OF A]) simp
  qed
  show "\<exists>d p' m'. slru_on_admit A k c p = Some (d, p') \<and> slru_tracks A p' m' \<and> total_cost m' \<le> total_cost m + c \<and>
      dom m' \<inter> victims_of d = {} \<and> dom m' \<union> victims_of d = insert k (dom m)" if "total_cost m + c < 2 ^ 64"
    using slru_admit_tracks [OF t that, of k] fin by (rule keep_or_add_admit)
qed

subsection \<open>Properties\<close>

lemma slru_new_rep: "arena_laws A \<Longrightarrow> slru_rep A (slru_state_new A) [] []"
  by (intro slru_repI) (simp_all add: slru_state_new_def lru_new_rep)

text \<open>
  (C34) SLRU under any history, for every capacity: no call panics or runs forever, every answer is
  in step with the shard, every eviction frees what was asked for or empties the shard.
\<close>

theorem slru_policy_in_step:
  assumes "arena_laws A" "sum_list (map call_cost cs) < 2 ^ 64"
  shows "\<exists>as s'. policy_run (slru_policy A) cs (slru_new A capacity) = Some (as, s') \<and>
           in_step answer_ok {} cs as \<and> in_step answer_pays {} cs as"
proof -
  have t: "slru_tracks A (slru_new A capacity) Map.empty"
    by (rule slru_tracksI [OF assms(1)]) (use slru_new_rep [OF assms(1)] in \<open>simp_all add: slru_new_def Let_def\<close>)
  from assms(2) slru.run_in_step [OF t, of cs] slru.run_pays [OF t, of cs] show ?thesis
    by (fastforce simp: slru_policy_def)
qed

theorem slru_policy_in_step_witness:
  "\<exists>as s'. policy_run (slru_policy vec_arena) [OnAdmit (1::nat) 2, OnAdmit 2 3, OnAccess 1 2, Evict 1] (slru_new vec_arena 10) = Some (as, s') \<and>
     in_step answer_ok {} [OnAdmit 1 2, OnAdmit 2 3, OnAccess 1 2, Evict 1] as"
  using slru_policy_in_step [OF vec_arena_laws, of "[OnAdmit (1::nat) 2, OnAdmit 2 3, OnAccess 1 2, Evict 1]" 10] by auto

text \<open>
  (C35) Scan resistance. An eviction that the probationary segment can pay for never touches a key
  of the protected one, as long as the protected segment is within its capacity; the victims are
  then the least recent probationary keys.
\<close>

theorem slru_protects:
  assumes "arena_laws A" "slru_rep A (sp_state p) ts ps" "costs ts \<le> sp_prot_capacity p" "n \<le> costs ps"
  shows "\<exists>keep vs p'. ps = keep @ rev vs \<and> slru_evict A n p = Some ((map fst vs, costs vs), p') \<and>
           slru_rep A (sp_state p') ts keep \<and> n \<le> costs vs"
proof -
  let ?s = "sp_state p" let ?cap = "sp_prot_capacity p" let ?r = "reap n (rev ps)"
  note D = slru_repD [OF assms(2)]
  have "lru_current_total_cost (protected ?s) = costs ts" using D(1) by (rule lru_cost_eq)
  with assms(3) have m: "maintain_capacities A ?cap ?s = Some ?s" by (simp add: maintain_capacities.simps)
  have split: "ps = rev (unreaped n (rev ps)) @ rev ?r" by (metis reap_unreaped rev_append rev_rev_ident)
  have pays: "n \<le> costs ?r"
    using reap_enough [of n "rev ps"] reap_unreaped [of n "rev ps"] assms(4) by (metis append_Nil2 costs_rev)
  from slru_drain_ok [OF assms(1) D(2), of 0 n "[]"] D(4) obtain prob where
    p: "slru_drain A n [] 0 (probationary ?s) = Some ((n - costs ?r, map fst ?r, costs ?r), prob)"
      "lru_rep A prob (rev (unreaped n (rev ps)))" by auto
  let ?s' = "?s\<lparr>probationary := prob\<rparr>"
  have "slru_drain A (n - costs ?r) (map fst ?r) (costs ?r) (protected ?s') = Some ((n - costs ?r, map fst ?r, costs ?r), protected ?s')"
    using pays by (simp add: slru_drain.simps)
  with m p(1) have "slru_evict A n p = Some ((map fst ?r, costs ?r), p\<lparr>sp_state := ?s'\<rparr>)"
    by (simp add: slru_evict_def slru_evict_items_def)
  moreover have "slru_rep A ?s' ts (rev (unreaped n (rev ps)))"
  proof (rule slru_repI)
    show "keyed (ts @ rev (unreaped n (rev ps)))" using D(3) split by (metis append.assoc keyed_append)
    show "costs ts + costs (rev (unreaped n (rev ps))) < 2 ^ 64" using D(4) costs_unreaped_le [of n "rev ps"] by simp
  qed (use D(1) p(2) in simp_all)
  ultimately show ?thesis using split pays by (intro exI [of _ "rev (unreaped n (rev ps))"] exI [of _ ?r] exI [of _ "p\<lparr>sp_state := ?s'\<rparr>"]) simp
qed

theorem slru_protects_witness:
  "\<exists>p p' :: (((nat, nat) node option) list, nat, nat) slru_policy_state.
     slru_rep vec_arena (sp_state p) [(1, 2)] [(3, 4), (2, 3)] \<and>
     slru_evict vec_arena 3 p = Some (([2], 3), p') \<and> slru_rep vec_arena (sp_state p') [(1, 2)] [(3, 4)]"
proof -
  let ?cs = "[PushFront 2 3, PushFront (3::nat) 4]"
  obtain prot where t: "lru_rep vec_arena prot [(1::nat, 2)]"
    using lru_run_rep [OF vec_arena_laws lru_new_rep [OF vec_arena_laws], of "[PushFront (1::nat) 2]"] by auto
  obtain prob where q: "lru_rep vec_arena prob [(3::nat, 4), (2, 3)]"
    using lru_run_rep [OF vec_arena_laws lru_new_rep [OF vec_arena_laws], of ?cs] by auto
  let ?p = "\<lparr>sp_state = \<lparr>probationary = prob, protected = prot\<rparr>, sp_prob_capacity = 10, sp_prot_capacity = 10\<rparr>"
  have r: "slru_rep vec_arena (sp_state ?p) [(1, 2)] [(3, 4), (2, 3)]" using t q by (intro slru_repI) simp_all
  obtain keep vs p' where e: "[(3, 4), (2, 3)] = keep @ rev vs" "slru_evict vec_arena 3 ?p = Some ((map fst vs, costs vs), p')"
    "slru_rep vec_arena (sp_state p') [(1, 2)] keep" "3 \<le> costs vs"
    using slru_protects [OF vec_arena_laws r, of 3] by auto
  obtain s' where "slru_evict vec_arena 3 ?p = Some (([2], 3), s')"
    using slru_evict_items_ok [OF vec_arena_laws r, of 3 10] by (auto simp: slru_evict_def)
  with e(2) have v: "map fst vs = [2]" "costs vs = 3" by simp_all
  then have "vs = [(2, 3)]" by (cases vs) auto
  with e(1) have "keep = [(3, 4)]" by auto
  with e(2,3) v r show ?thesis by (intro exI [of _ ?p] exI [of _ p']) simp
qed

text \<open>
  The sizes of the segments. The probationary share that the floating-point expression computes
  is at least 1, never exceeds the capacity, the two shares add up to the capacity, and for
  capacities from 3 to below \<^verbatim>\<open>2 ^ 50\<close> it is the integer nearest to a fifth of it.
\<close>

theorem slru_capacities:
  assumes "0 < capacity"
  shows "1 \<le> sp_prob_capacity (slru_new A capacity) \<and>
    sp_prob_capacity (slru_new A capacity) + sp_prot_capacity (slru_new A capacity) = capacity \<and>
    (3 \<le> capacity \<and> capacity < 2 ^ 50 \<longrightarrow>
      5 * sp_prob_capacity (slru_new A capacity) \<le> capacity + 2 \<and> capacity \<le> 5 * sp_prob_capacity (slru_new A capacity) + 2)"
proof -
  let ?p = "max (share_20 capacity) 1"
  have "share_20 capacity \<le> capacity" using share_20_le [of capacity] assms by (cases "capacity = 1") auto
  then have "1 \<le> ?p" "?p \<le> capacity" using assms by auto
  moreover have "5 * ?p \<le> capacity + 2 \<and> capacity \<le> 5 * ?p + 2" if "3 \<le> capacity" "capacity < 2 ^ 50"
    using share_20_near [OF that(2)] that(1) by (auto simp: max_def)
  moreover have "sp_prob_capacity (slru_new A capacity) = ?p" "sp_prot_capacity (slru_new A capacity) = capacity - ?p"
    using assms by (simp_all add: slru_new_def slru_prob_capacity_def saturating_sub_def Let_def)
  ultimately show ?thesis by simp
qed

theorem slru_capacities_witness:
  "5 * sp_prob_capacity (slru_new (vec_arena :: (((nat, nat) node option) list, nat, nat) node_arena) 100) \<le> 102"
  using slru_capacities [of 100 "vec_arena :: (((nat, nat) node option) list, nat, nat) node_arena"] by simp

end
