(* ===== verification/Arc_Policy.thy ===== *)
theory Arc_Policy
  imports Lru_Fifo Float64
begin

section \<open>The ARC policy\<close>

text \<open>
  \<^verbatim>\<open>cache/src/policy/arc.rs\<close>: two lists of tracked keys (seen once, seen again), two ghost lists of keys
  evicted from them, and a target \<open>p\<close> for the cost of the first list.
\<close>

record ('a, 'i, 'k) arc_state =
  arc_p :: nat
  arc_t1 :: "('a, 'i, 'k) lru_list"
  arc_t2 :: "('a, 'i, 'k) lru_list"
  arc_b1 :: "('a, 'i, 'k) lru_list"
  arc_b2 :: "('a, 'i, 'k) lru_list"
  arc_capacity :: nat

definition arc_new :: "('a, 'i, 'k) node_arena \<Rightarrow> nat \<Rightarrow> ('a, 'i, 'k) arc_state" where
  "arc_new A capacity =
     \<lparr>arc_p = 0, arc_t1 = lru_new A, arc_t2 = lru_new A, arc_b1 = lru_new A, arc_b2 = lru_new A, arc_capacity = capacity\<rparr>"

text \<open>Recording a victim in a ghost list, the body both branches of \<^verbatim>\<open>replace\<close> share.\<close>

definition arc_ghost :: "('a, 'i, 'k) node_arena \<Rightarrow> nat \<Rightarrow> 'k \<Rightarrow> nat \<Rightarrow> ('a, 'i, 'k) lru_list \<Rightarrow> ('a, 'i, 'k) lru_list option" where
  "arc_ghost A capacity key cost b =
     do { b \<leftarrow> lru_push_front A key cost b;
          (if lru_current_total_cost b > capacity
           then do { (_, b) \<leftarrow> lru_pop_back A b; Some b }
           else Some b) }"

definition arc_replace ::
  "('a, 'i, 'k) node_arena \<Rightarrow> nat \<Rightarrow> bool \<Rightarrow> ('a, 'i, 'k) arc_state \<Rightarrow> (('k \<times> nat) option \<times> ('a, 'i, 'k) arc_state) option" where
  "arc_replace A capacity key_in_b2 s =
     (let t1_cost = lru_current_total_cost (arc_t1 s)
      in if t1_cost > 0 \<and> (t1_cost \<ge> arc_p s \<or> (key_in_b2 \<and> t1_cost = arc_p s))
         then do { (popped, t1) \<leftarrow> lru_pop_back A (arc_t1 s);
                   let s = s\<lparr>arc_t1 := t1\<rparr>;
                   (case popped of
                      Some (key, cost) \<Rightarrow>
                        do { b1 \<leftarrow> arc_ghost A capacity key cost (arc_b1 s); Some (Some (key, cost), s\<lparr>arc_b1 := b1\<rparr>) }
                    | None \<Rightarrow> Some (None, s)) }
         else do { (popped, t2) \<leftarrow> lru_pop_back A (arc_t2 s);
                   let s = s\<lparr>arc_t2 := t2\<rparr>;
                   (case popped of
                      Some (key, cost) \<Rightarrow>
                        do { b2 \<leftarrow> arc_ghost A capacity key cost (arc_b2 s); Some (Some (key, cost), s\<lparr>arc_b2 := b2\<rparr>) }
                    | None \<Rightarrow> Some (None, s)) })"

text \<open>The two promotions \<^verbatim>\<open>on_access\<close> and \<^verbatim>\<open>on_admit\<close> share; the flag says whether the key was tracked.\<close>

definition arc_promote ::
  "('a, 'i, 'k) node_arena \<Rightarrow> 'k \<Rightarrow> nat \<Rightarrow> ('a, 'i, 'k) arc_state \<Rightarrow> (bool \<times> ('a, 'i, 'k) arc_state) option" where
  "arc_promote A key cost s =
     do { (removed, t1) \<leftarrow> lru_remove A key (arc_t1 s);
          let s = s\<lparr>arc_t1 := t1\<rparr>;
          (if removed \<noteq> None \<or> lru_contains key (arc_t2 s)
           then do { t2 \<leftarrow> lru_push_front A key cost (arc_t2 s); Some (True, s\<lparr>arc_t2 := t2\<rparr>) }
           else Some (False, s)) }"

definition arc_on_access :: "('a, 'i, 'k) node_arena \<Rightarrow> 'k \<Rightarrow> nat \<Rightarrow> ('a, 'i, 'k) arc_state \<Rightarrow> ('a, 'i, 'k) arc_state option" where
  "arc_on_access A key cost s = map_option snd (arc_promote A key cost s)"

definition arc_delta :: "nat \<Rightarrow> nat \<Rightarrow> nat" where
  "arc_delta other own = max (if own > 0 \<and> other > own then f64_div_round other own else 1) 1"

definition arc_adapt ::
  "('a, 'i, 'k) node_arena \<Rightarrow> 'k \<Rightarrow> ('a, 'i, 'k) arc_state \<Rightarrow> (bool \<times> ('a, 'i, 'k) arc_state) option" where
  "arc_adapt A key s =
     do { (in_b1, b1) \<leftarrow> lru_remove A key (arc_b1 s);
          let s = s\<lparr>arc_b1 := b1\<rparr>;
          (if in_b1 \<noteq> None
           then do { let delta = arc_delta (lru_current_total_cost (arc_b2 s)) (lru_current_total_cost (arc_b1 s));
                     Some (False, s\<lparr>arc_p := min (u64_add (arc_p s) delta) (arc_capacity s)\<rparr>) }
           else do { (in_b2, b2) \<leftarrow> lru_remove A key (arc_b2 s);
                     let s = s\<lparr>arc_b2 := b2\<rparr>;
                     (if in_b2 \<noteq> None
                      then do { let delta = arc_delta (lru_current_total_cost (arc_b1 s)) (lru_current_total_cost (arc_b2 s));
                                Some (True, s\<lparr>arc_p := saturating_sub (arc_p s) delta\<rparr>) }
                      else Some (False, s)) }) }"

definition arc_on_admit ::
  "('a, 'i, 'k) node_arena \<Rightarrow> 'k \<Rightarrow> nat \<Rightarrow> ('a, 'i, 'k) arc_state \<Rightarrow> ('k admission_decision \<times> ('a, 'i, 'k) arc_state) option" where
  "arc_on_admit A key cost s =
     do { (tracked, s) \<leftarrow> arc_promote A key cost s;
          (if tracked then Some (Admit, s)
           else do { (key_in_b2, s) \<leftarrow> arc_adapt A key s;
                     s \<leftarrow> (if u64_add (lru_current_total_cost (arc_t1 s)) (lru_current_total_cost (arc_t2 s)) \<ge> arc_capacity s
                           then do { (_, s) \<leftarrow> arc_replace A (arc_capacity s) key_in_b2 s; Some s }
                           else Some s);
                     t1 \<leftarrow> lru_push_front A key cost (arc_t1 s);
                     Some (Admit, s\<lparr>arc_t1 := t1\<rparr>) }) }"

definition arc_on_remove :: "('a, 'i, 'k) node_arena \<Rightarrow> 'k \<Rightarrow> ('a, 'i, 'k) arc_state \<Rightarrow> ('a, 'i, 'k) arc_state option" where
  "arc_on_remove A key s =
     do { (r1, t1) \<leftarrow> lru_remove A key (arc_t1 s);
          let s = s\<lparr>arc_t1 := t1\<rparr>;
          (if r1 \<noteq> None then Some s
           else do { (r2, t2) \<leftarrow> lru_remove A key (arc_t2 s);
                     let s = s\<lparr>arc_t2 := t2\<rparr>;
                     (if r2 \<noteq> None then Some s
                      else do { (r3, b1) \<leftarrow> lru_remove A key (arc_b1 s);
                                let s = s\<lparr>arc_b1 := b1\<rparr>;
                                (if r3 \<noteq> None then Some s
                                 else do { (_, b2) \<leftarrow> lru_remove A key (arc_b2 s); Some (s\<lparr>arc_b2 := b2\<rparr>) }) }) }) }"

partial_function (option) arc_evict_loop ::
  "('a, 'i, 'k) node_arena \<Rightarrow> nat \<Rightarrow> 'k list \<Rightarrow> nat \<Rightarrow> ('a, 'i, 'k) arc_state \<Rightarrow> (('k list \<times> nat) \<times> ('a, 'i, 'k) arc_state) option" where
  "arc_evict_loop A cost_to_free victims total_cost_freed s =
     (if total_cost_freed < cost_to_free
      then do { tail_key \<leftarrow> lru_tail_key A (arc_t1 s);
                let key_in_b2 = (case tail_key of None \<Rightarrow> False | Some k \<Rightarrow> lru_contains k (arc_b2 s));
                (replaced, s) \<leftarrow> arc_replace A (arc_capacity s) key_in_b2 s;
                (case replaced of
                   Some (key, cost) \<Rightarrow>
                     arc_evict_loop A cost_to_free (victims @ [key]) (u64_add total_cost_freed cost) s
                 | None \<Rightarrow> Some ((victims, total_cost_freed), s)) }
      else Some ((victims, total_cost_freed), s))"

definition arc_evict ::
  "('a, 'i, 'k) node_arena \<Rightarrow> nat \<Rightarrow> ('a, 'i, 'k) arc_state \<Rightarrow> (('k list \<times> nat) \<times> ('a, 'i, 'k) arc_state) option" where
  "arc_evict A cost_to_free s = arc_evict_loop A cost_to_free [] 0 s"

definition arc_clear :: "('a, 'i, 'k) node_arena \<Rightarrow> ('a, 'i, 'k) arc_state \<Rightarrow> ('a, 'i, 'k) arc_state" where
  "arc_clear A s = s\<lparr>arc_p := 0, arc_t1 := lru_clear A (arc_t1 s), arc_t2 := lru_clear A (arc_t2 s),
     arc_b1 := lru_clear A (arc_b1 s), arc_b2 := lru_clear A (arc_b2 s)\<rparr>"

definition arc_policy :: "('a, 'i, 'k) node_arena \<Rightarrow> ('k, ('a, 'i, 'k) arc_state) policy" where
  "arc_policy A = \<lparr>pol_on_access = arc_on_access A, pol_on_admit = arc_on_admit A, pol_on_remove = arc_on_remove A,
     pol_evict = arc_evict A, pol_clear = arc_clear A\<rparr>"

subsection \<open>The four lists\<close>

definition disjoint4 :: "'k set \<Rightarrow> 'k set \<Rightarrow> 'k set \<Rightarrow> 'k set \<Rightarrow> bool" where
  "disjoint4 a b c d \<longleftrightarrow> a \<inter> b = {} \<and> a \<inter> c = {} \<and> a \<inter> d = {} \<and> b \<inter> c = {} \<and> b \<inter> d = {} \<and> c \<inter> d = {}"

lemma disjoint4_first_to_third:
  "disjoint4 (insert k a) b c d \<Longrightarrow> k \<notin> a \<Longrightarrow> c' \<subseteq> insert k c \<Longrightarrow> disjoint4 a b c' d"
  unfolding disjoint4_def by auto

lemma disjoint4_second_to_fourth:
  "disjoint4 a (insert k b) c d \<Longrightarrow> k \<notin> b \<Longrightarrow> d' \<subseteq> insert k d \<Longrightarrow> disjoint4 a b c d'"
  unfolding disjoint4_def by auto

lemma disjoint4_sub:
  "disjoint4 a b c d \<Longrightarrow> a' \<subseteq> a \<Longrightarrow> b' \<subseteq> b \<Longrightarrow> c' \<subseteq> c \<Longrightarrow> d' \<subseteq> d \<Longrightarrow> disjoint4 a' b' c' d'"
  unfolding disjoint4_def by auto

definition arc_rep ::
  "('a, 'i, 'k) node_arena \<Rightarrow> ('a, 'i, 'k) arc_state \<Rightarrow> ('k \<times> nat) list \<Rightarrow> ('k \<times> nat) list \<Rightarrow> ('k \<times> nat) list \<Rightarrow> ('k \<times> nat) list \<Rightarrow> bool" where
  "arc_rep A s t1 t2 b1 b2 \<longleftrightarrow>
     lru_rep A (arc_t1 s) t1 \<and> lru_rep A (arc_t2 s) t2 \<and> lru_rep A (arc_b1 s) b1 \<and> lru_rep A (arc_b2 s) b2 \<and>
     disjoint4 (keys t1) (keys t2) (keys b1) (keys b2) \<and> costs t1 + costs t2 + costs b1 + costs b2 < 2 ^ 64 \<and>
     arc_p s \<le> arc_capacity s"

lemma arc_repD:
  assumes "arc_rep A s t1 t2 b1 b2"
  shows "lru_rep A (arc_t1 s) t1" "lru_rep A (arc_t2 s) t2" "lru_rep A (arc_b1 s) b1" "lru_rep A (arc_b2 s) b2"
    "disjoint4 (keys t1) (keys t2) (keys b1) (keys b2)" "costs t1 + costs t2 + costs b1 + costs b2 < 2 ^ 64"
    "arc_p s \<le> arc_capacity s"
  using assms by (simp_all add: arc_rep_def)

lemma arc_repI:
  assumes "lru_rep A (arc_t1 s) t1" "lru_rep A (arc_t2 s) t2" "lru_rep A (arc_b1 s) b1" "lru_rep A (arc_b2 s) b2"
    "disjoint4 (keys t1) (keys t2) (keys b1) (keys b2)" "costs t1 + costs t2 + costs b1 + costs b2 < 2 ^ 64"
    "arc_p s \<le> arc_capacity s"
  shows "arc_rep A s t1 t2 b1 b2"
  using assms by (simp add: arc_rep_def)

lemma arc_ghost_ok:
  assumes A: "arena_laws A" and R: "lru_rep A b xs" and k: "k \<notin> keys xs" and fits: "costs xs + c < 2 ^ 64"
  shows "\<exists>b' ys. arc_ghost A cap k c b = Some b' \<and> lru_rep A b' ys \<and> keys ys \<subseteq> insert k (keys xs) \<and> costs ys \<le> c + costs xs"
proof -
  have "costs (drop_key k xs) + c < 2 ^ 64" using fits k by simp
  with A R obtain b1 where b1: "lru_push_front A k c b = Some b1" "lru_rep A b1 ((k, c) # drop_key k xs)" by (rule lru_push_front_rep)
  with k have r: "lru_rep A b1 ((k, c) # xs)" by simp
  with A obtain b2 where b2: "lru_pop_back A b1 = Some (final ((k, c) # xs), b2)" "lru_rep A b2 (butlast ((k, c) # xs))"
    by (rule lru_pop_back_rep)
  show ?thesis
  proof (cases "lru_current_total_cost b1 > cap")
    case True
    then have "arc_ghost A cap k c b = Some b2" using b1(1) b2(1) by (simp add: arc_ghost_def)
    moreover have "keys (butlast ((k, c) # xs)) \<subseteq> insert k (keys xs)" unfolding keys_def by (auto dest: in_set_butlastD)
    moreover have "costs (butlast ((k, c) # xs)) \<le> c + costs xs" using costs_butlast_le [of "(k, c) # xs"] by simp
    ultimately show ?thesis using b2(2) by blast
  next
    case False
    then have "arc_ghost A cap k c b = Some b1" using b1(1) by (simp add: arc_ghost_def)
    with r show ?thesis by (intro exI [of _ b1] exI [of _ "(k, c) # xs"]) simp
  qed
qed

text \<open>
  \<^verbatim>\<open>replace\<close>: the victim is the last key of one of the tracked lists and moves to a ghost list. The test
  on \<open>key_in_b2\<close> is implied by the one before it, so the flag plays no part.
\<close>

lemma arc_replace_flag: "arc_replace A cap b s = arc_replace A cap False s"
proof -
  have "(0 < t \<and> (arc_p s \<le> t \<or> b \<and> t = arc_p s)) = (0 < t \<and> arc_p s \<le> t)" for t :: nat by auto
  then show ?thesis by (simp add: arc_replace_def)
qed

definition replaced :: "('k \<times> nat) list \<Rightarrow> ('k \<times> nat) list \<Rightarrow> ('k \<times> nat) option \<Rightarrow> ('k \<times> nat) list \<Rightarrow> ('k \<times> nat) list \<Rightarrow> bool" where
  "replaced t1 t2 r t1' t2' \<longleftrightarrow>
     (case r of None \<Rightarrow> t1' = t1 \<and> t2' = t2 \<and> t2 = []
      | Some (k, c) \<Rightarrow> t1 = t1' @ [(k, c)] \<and> t2' = t2 \<or> t2 = t2' @ [(k, c)] \<and> t1' = t1)"

definition arc_moves ::
  "('a, 'i, 'k) node_arena \<Rightarrow> ('a, 'i, 'k) arc_state \<Rightarrow> ('k \<times> nat) list \<Rightarrow> ('k \<times> nat) list \<Rightarrow> nat \<Rightarrow> 'k set \<Rightarrow>
   ('k \<times> nat) option \<Rightarrow> ('a, 'i, 'k) arc_state \<Rightarrow> bool" where
  "arc_moves A s t1 t2 w K r s' \<longleftrightarrow>
     (\<exists>t1' t2' b1' b2'. arc_rep A s' t1' t2' b1' b2' \<and> arc_capacity s' = arc_capacity s \<and> replaced t1 t2 r t1' t2' \<and>
        costs t1' + costs t2' + costs b1' + costs b2' \<le> w \<and> keys t1' \<union> keys t2' \<union> keys b1' \<union> keys b2' \<subseteq> K)"

lemma arc_movesI:
  assumes "arc_rep A s' t1' t2' b1' b2'" "arc_capacity s' = arc_capacity s" "replaced t1 t2 r t1' t2'"
    "costs t1' + costs t2' + costs b1' + costs b2' \<le> w" "keys t1' \<union> keys t2' \<union> keys b1' \<union> keys b2' \<subseteq> K"
  shows "arc_moves A s t1 t2 w K r s'"
  unfolding arc_moves_def using assms by blast

lemma arc_take_t1:
  assumes A: "arena_laws A" and R: "arc_rep A s t1 t2 b1 b2" and t1: "t1 = ys @ [(k, c)]" and p: "0 < costs t1" "arc_p s \<le> costs t1"
  shows "\<exists>s'. arc_replace A cap False s = Some (Some (k, c), s') \<and>
    arc_moves A s t1 t2 (costs t1 + costs t2 + costs b1 + costs b2) (keys t1 \<union> keys t2 \<union> keys b1 \<union> keys b2) (Some (k, c)) s'"
proof -
  note D = arc_repD [OF R]
  have c1: "lru_current_total_cost (arc_t1 s) = costs t1" using D(1) by simp
  from A D(1) obtain l where l: "lru_pop_back A (arc_t1 s) = Some (final t1, l)" "lru_rep A l (butlast t1)" by (rule lru_pop_back_rep)
  have kd: "keyed (ys @ [(k, c)])" using lru_rep_keyed [OF D(1)] t1 by simp
  have kt: "keys t1 = insert k (keys ys)" by (simp add: t1)
  have kb: "k \<notin> keys b1" using D(5) by (simp add: kt disjoint4_def)
  have ky: "k \<notin> keys ys" using kd by (simp add: keys_def)
  from arc_ghost_ok [OF A D(3) kb, of c cap] D(6) t1 obtain b' us where
    g: "arc_ghost A cap k c (arc_b1 s) = Some b'" "lru_rep A b' us" "keys us \<subseteq> insert k (keys b1)" "costs us \<le> c + costs b1" by auto
  let ?s = "s\<lparr>arc_t1 := l, arc_b1 := b'\<rparr>"
  have ev: "arc_replace A cap False s = Some (Some (k, c), ?s)"
    using p l(1) g(1) t1 by (simp add: arc_replace_def c1)
  have d: "disjoint4 (keys ys) (keys t2) (keys us) (keys b2)"
    by (rule disjoint4_first_to_third [OF D(5) [unfolded kt] ky g(3)])
  have m1: "arc_rep A ?s ys t2 us b2" by (rule arc_repI) (use l(2) g(2,4) D(2,4,6,7) t1 d in simp_all)
  have m2: "replaced t1 t2 (Some (k, c)) ys t2" by (simp add: replaced_def t1)
  have m3: "costs ys + costs t2 + costs us + costs b2 \<le> costs t1 + costs t2 + costs b1 + costs b2" using g(4) t1 by simp
  have m4: "keys ys \<union> keys t2 \<union> keys us \<union> keys b2 \<subseteq> keys t1 \<union> keys t2 \<union> keys b1 \<union> keys b2"
    using g(3) unfolding kt by auto
  have "arc_moves A s t1 t2 (costs t1 + costs t2 + costs b1 + costs b2) (keys t1 \<union> keys t2 \<union> keys b1 \<union> keys b2) (Some (k, c)) ?s"
    by (rule arc_movesI [OF m1 _ m2 m3 m4]) simp
  with ev show ?thesis by blast
qed

lemma arc_take_t2:
  assumes A: "arena_laws A" and R: "arc_rep A s t1 t2 b1 b2" and t2: "t2 = ys @ [(k, c)]" and p: "\<not> (0 < costs t1 \<and> arc_p s \<le> costs t1)"
  shows "\<exists>s'. arc_replace A cap False s = Some (Some (k, c), s') \<and>
    arc_moves A s t1 t2 (costs t1 + costs t2 + costs b1 + costs b2) (keys t1 \<union> keys t2 \<union> keys b1 \<union> keys b2) (Some (k, c)) s'"
proof -
  note D = arc_repD [OF R]
  have c1: "lru_current_total_cost (arc_t1 s) = costs t1" using D(1) by simp
  from p have nf: "\<not> (0 < costs t1 \<and> (arc_p s \<le> costs t1 \<or> False \<and> costs t1 = arc_p s))" by simp
  from A D(2) obtain l where l: "lru_pop_back A (arc_t2 s) = Some (final t2, l)" "lru_rep A l (butlast t2)" by (rule lru_pop_back_rep)
  have kd: "keyed (ys @ [(k, c)])" using lru_rep_keyed [OF D(2)] t2 by simp
  have kt: "keys t2 = insert k (keys ys)" by (simp add: t2)
  have kb: "k \<notin> keys b2" using D(5) by (simp add: kt disjoint4_def)
  have ky: "k \<notin> keys ys" using kd by (simp add: keys_def)
  from arc_ghost_ok [OF A D(4) kb, of c cap] D(6) t2 obtain b' us where
    g: "arc_ghost A cap k c (arc_b2 s) = Some b'" "lru_rep A b' us" "keys us \<subseteq> insert k (keys b2)" "costs us \<le> c + costs b2" by auto
  let ?s = "s\<lparr>arc_t2 := l, arc_b2 := b'\<rparr>"
  have ev: "arc_replace A cap False s = Some (Some (k, c), ?s)"
    unfolding arc_replace_def Let_def c1 if_not_P [OF nf] using l(1) g(1) t2 by simp
  have d: "disjoint4 (keys t1) (keys ys) (keys b1) (keys us)"
    by (rule disjoint4_second_to_fourth [OF D(5) [unfolded kt] ky g(3)])
  have m1: "arc_rep A ?s t1 ys b1 us" by (rule arc_repI) (use l(2) g(2,4) D(1,3,6,7) t2 d in simp_all)
  have m2: "replaced t1 t2 (Some (k, c)) t1 ys" by (simp add: replaced_def t2)
  have m3: "costs t1 + costs ys + costs b1 + costs us \<le> costs t1 + costs t2 + costs b1 + costs b2" using g(4) t2 by simp
  have m4: "keys t1 \<union> keys ys \<union> keys b1 \<union> keys us \<subseteq> keys t1 \<union> keys t2 \<union> keys b1 \<union> keys b2"
    using g(3) unfolding kt by auto
  have "arc_moves A s t1 t2 (costs t1 + costs t2 + costs b1 + costs b2) (keys t1 \<union> keys t2 \<union> keys b1 \<union> keys b2) (Some (k, c)) ?s"
    by (rule arc_movesI [OF m1 _ m2 m3 m4]) simp
  with ev show ?thesis by blast
qed

lemma arc_replace_ok:
  assumes A: "arena_laws A" and R: "arc_rep A s t1 t2 b1 b2"
  shows "\<exists>r s'. arc_replace A cap b s = Some (r, s') \<and>
    arc_moves A s t1 t2 (costs t1 + costs t2 + costs b1 + costs b2) (keys t1 \<union> keys t2 \<union> keys b1 \<union> keys b2) r s'"
proof (cases "0 < costs t1 \<and> arc_p s \<le> costs t1")
  case True
  then obtain ys k c where "t1 = ys @ [(k, c)]" by (cases t1 rule: rev_cases) auto
  from arc_take_t1 [OF A R this] True show ?thesis unfolding arc_replace_flag [of A cap b] by blast
next
  case False
  show ?thesis
  proof (cases t2 rule: rev_cases)
    case (snoc ys x)
    obtain k c where "x = (k, c)" by force
    with snoc have "t2 = ys @ [(k, c)]" by simp
    from arc_take_t2 [OF A R this False] show ?thesis unfolding arc_replace_flag [of A cap b] by blast
  next
    case Nil
    note D = arc_repD [OF R]
    have c1: "lru_current_total_cost (arc_t1 s) = costs t1" using D(1) by simp
    from False have nf: "\<not> (0 < costs t1 \<and> (arc_p s \<le> costs t1 \<or> False \<and> costs t1 = arc_p s))" by simp
    from A D(2) obtain l where l: "lru_pop_back A (arc_t2 s) = Some (final t2, l)" "lru_rep A l (butlast t2)" by (rule lru_pop_back_rep)
    have "arc_replace A cap False s = Some (None, s\<lparr>arc_t2 := l\<rparr>)"
      unfolding arc_replace_def Let_def c1 if_not_P [OF nf] using l(1) Nil by simp
    moreover have "arc_rep A (s\<lparr>arc_t2 := l\<rparr>) t1 [] b1 b2" by (rule arc_repI) (use l(2) D Nil in simp_all)
    then have "arc_moves A s t1 t2 (costs t1 + costs t2 + costs b1 + costs b2) (keys t1 \<union> keys t2 \<union> keys b1 \<union> keys b2) None (s\<lparr>arc_t2 := l\<rparr>)"
      by (rule arc_movesI) (simp_all add: replaced_def Nil)
    ultimately show ?thesis unfolding arc_replace_flag [of A cap b] by blast
  qed
qed

text \<open>Promotion and adaptation.\<close>

lemma disjoint4_promote:
  "disjoint4 a b c d \<Longrightarrow> k \<in> a \<union> b \<Longrightarrow> disjoint4 (a - {k}) (insert k (b - {k})) c d"
  unfolding disjoint4_def by auto

lemma arc_promote_ok:
  assumes A: "arena_laws A" and R: "arc_rep A s t1 t2 b1 b2" and fits: "costs t1 + costs t2 + costs b1 + costs b2 + c < 2 ^ 64"
  shows "\<exists>s'. arc_promote A k c s = Some (k \<in> keys t1 \<union> keys t2, s') \<and> arc_capacity s' = arc_capacity s \<and>
    (if k \<in> keys t1 \<union> keys t2
     then arc_rep A s' (drop_key k t1) ((k, c) # drop_key k t2) b1 b2
     else arc_rep A s' t1 t2 b1 b2)"
proof -
  note D = arc_repD [OF R]
  have le: "costs (drop_key k t1) \<le> costs t1" "costs (drop_key k t2) \<le> costs t2" by (rule costs_drop_key_le)+
  from A D(1) obtain l where l: "lru_remove A k (arc_t1 s) = Some (map_of t1 k, l)" "lru_rep A l (drop_key k t1)" by (rule lru_remove_rep)
  have "costs (drop_key k t2) + c < 2 ^ 64" using fits le by simp
  with A D(2) obtain l2 where l2: "lru_push_front A k c (arc_t2 s) = Some l2" "lru_rep A l2 ((k, c) # drop_key k t2)"
    by (rule lru_push_front_rep)
  have tst: "(map_of t1 k \<noteq> None \<or> lru_contains k (arc_t2 s)) = (k \<in> keys t1 \<union> keys t2)"
    using D(2) by (simp add: map_of_None_keys) (simp add: keys_def)
  have pr: "arc_promote A k c s =
    (if k \<in> keys t1 \<union> keys t2 then Some (True, s\<lparr>arc_t1 := l, arc_t2 := l2\<rparr>) else Some (False, s\<lparr>arc_t1 := l\<rparr>))"
    using l(1) l2(1) tst by (simp add: arc_promote_def)
  show ?thesis
  proof (cases "k \<in> keys t1 \<union> keys t2")
    case True
    have d: "disjoint4 (keys (drop_key k t1)) (keys ((k, c) # drop_key k t2)) (keys b1) (keys b2)"
      using disjoint4_promote [OF D(5) True] by simp
    have "arc_rep A (s\<lparr>arc_t1 := l, arc_t2 := l2\<rparr>) (drop_key k t1) ((k, c) # drop_key k t2) b1 b2"
      by (rule arc_repI) (use l(2) l2(2) D(3,4,7) d fits le in simp_all)
    with pr True show ?thesis by simp
  next
    case False
    then have "drop_key k t1 = t1" by simp
    with l(2) have "lru_rep A l t1" by simp
    then have "arc_rep A (s\<lparr>arc_t1 := l\<rparr>) t1 t2 b1 b2" by (intro arc_repI) (use D in simp_all)
    with pr False show ?thesis by simp
  qed
qed

lemma arc_adapt_ok:
  assumes A: "arena_laws A" and R: "arc_rep A s t1 t2 b1 b2"
  shows "\<exists>f s'. arc_adapt A k s = Some (f, s') \<and> arc_rep A s' t1 t2 (drop_key k b1) (drop_key k b2) \<and> arc_capacity s' = arc_capacity s"
proof -
  note D = arc_repD [OF R]
  have le: "costs (drop_key k b1) \<le> costs b1" "costs (drop_key k b2) \<le> costs b2" by (rule costs_drop_key_le)+
  from A D(3) obtain l where l: "lru_remove A k (arc_b1 s) = Some (map_of b1 k, l)" "lru_rep A l (drop_key k b1)" by (rule lru_remove_rep)
  from A D(4) obtain l2 where l2: "lru_remove A k (arc_b2 s) = Some (map_of b2 k, l2)" "lru_rep A l2 (drop_key k b2)" by (rule lru_remove_rep)
  have d: "disjoint4 (keys t1) (keys t2) (keys (drop_key k b1)) (keys (drop_key k b2))"
    by (rule disjoint4_sub [OF D(5)]) auto
  have rep: "arc_rep A s' t1 t2 (drop_key k b1) (drop_key k b2)"
    if "arc_t1 s' = arc_t1 s" "arc_t2 s' = arc_t2 s" "arc_b1 s' = l" "lru_rep A (arc_b2 s') (drop_key k b2)" "arc_p s' \<le> arc_capacity s'" for s'
    by (rule arc_repI) (use that l(2) D(1,2,6) d le in simp_all)
  show ?thesis
  proof (cases "map_of b1 k")
    case (Some c)
    then have "k \<in> keys b1" by (metis map_of_None_keys option.distinct(1))
    then have "k \<notin> keys b2" using D(5) by (auto simp: disjoint4_def)
    then have "lru_rep A (arc_b2 s) (drop_key k b2)" using D(4) by simp
    then show ?thesis using Some l(1) by (auto simp: arc_adapt_def intro!: rep)
  next
    case None
    then show ?thesis using l(1) l2 D(7)
      by (cases "map_of b2 k") (auto simp: arc_adapt_def saturating_sub_def intro!: rep)
  qed
qed

subsection \<open>The loose contract\<close>

definition arc_follows :: "('a, 'i, 'k) node_arena \<Rightarrow> ('a, 'i, 'k) arc_state \<Rightarrow> 'k set \<Rightarrow> nat \<Rightarrow> bool" where
  "arc_follows A s K w \<longleftrightarrow> arena_laws A \<and>
     (\<exists>t1 t2 b1 b2. arc_rep A s t1 t2 b1 b2 \<and> K = keys t1 \<union> keys t2 \<and> costs t1 + costs t2 + costs b1 + costs b2 \<le> w)"

lemma arc_followsI:
  "arena_laws A \<Longrightarrow> arc_rep A s t1 t2 b1 b2 \<Longrightarrow> K = keys t1 \<union> keys t2 \<Longrightarrow> costs t1 + costs t2 + costs b1 + costs b2 \<le> w \<Longrightarrow>
   arc_follows A s K w"
  by (auto simp: arc_follows_def)

lemma arc_followsE:
  assumes "arc_follows A s K w"
  obtains t1 t2 b1 b2 where "arena_laws A" "arc_rep A s t1 t2 b1 b2" "K = keys t1 \<union> keys t2" "costs t1 + costs t2 + costs b1 + costs b2 \<le> w"
  using assms by (auto simp: arc_follows_def)

lemma replaced_keys:
  assumes R: "arc_rep A s t1 t2 b1 b2" and r: "replaced t1 t2 (Some (k, c)) t1' t2'"
  shows "keys t1' \<union> keys t2' = keys t1 \<union> keys t2 - {k}" "k \<in> keys t1 \<union> keys t2"
    "costs t1' + costs t2' + c = costs t1 + costs t2" "length t1' + length t2' < length t1 + length t2"
proof -
  note D = arc_repD [OF R]
  have kd: "keyed t1" "keyed t2" using lru_rep_keyed [OF D(1)] lru_rep_keyed [OF D(2)] .
  from r consider (a) "t1 = t1' @ [(k, c)]" "t2' = t2" | (b) "t2 = t2' @ [(k, c)]" "t1' = t1" by (auto simp: replaced_def)
  then have "keys t1' \<union> keys t2' = keys t1 \<union> keys t2 - {k} \<and> k \<in> keys t1 \<union> keys t2 \<and>
    costs t1' + costs t2' + c = costs t1 + costs t2 \<and> length t1' + length t2' < length t1 + length t2"
  proof cases
    case a
    have "k \<notin> keys t1'" using kd(1) a(1) by (simp add: keys_def)
    moreover have "k \<notin> keys t2" using D(5) a(1) by (simp add: disjoint4_def)
    ultimately show ?thesis using a by auto
  next
    case b
    have "k \<notin> keys t2'" using kd(2) b(1) by (simp add: keys_def)
    moreover have "k \<notin> keys t1" using D(5) b(1) by (auto simp: disjoint4_def)
    ultimately show ?thesis using b by auto
  qed
  then show "keys t1' \<union> keys t2' = keys t1 \<union> keys t2 - {k}" "k \<in> keys t1 \<union> keys t2"
    "costs t1' + costs t2' + c = costs t1 + costs t2" "length t1' + length t2' < length t1 + length t2" by blast+
qed

lemma arc_evict_loop_ok:
  assumes A: "arena_laws A" and "arc_rep A s t1 t2 b1 b2" "freed + costs t1 + costs t2 < 2 ^ 64" "costs t1 + costs t2 + costs b1 + costs b2 \<le> w"
  shows "\<exists>ws g s'. arc_evict_loop A n vs freed s = Some ((vs @ ws, freed + g), s') \<and> distinct ws \<and> set ws \<subseteq> keys t1 \<union> keys t2 \<and>
    arc_follows A s' (keys t1 \<union> keys t2 - set ws) w"
  using assms(2-4)
proof (induction "length t1 + length t2" arbitrary: s t1 t2 b1 b2 vs freed rule: less_induct)
  case less
  note R = less.prems(1)
  show ?case
  proof (cases "freed < n")
    case False
    then have "arc_evict_loop A n vs freed s = Some ((vs @ [], freed + 0), s)" by (simp add: arc_evict_loop.simps)
    moreover have "arc_follows A s (keys t1 \<union> keys t2 - set []) w" using arc_followsI [OF A R _ less.prems(3)] by simp
    ultimately show ?thesis by fastforce
  next
    case True
    have tk: "lru_tail_key A (arc_t1 s) = Some (map_option fst (final t1))" by (rule lru_tail_key_rep [OF arc_repD(1) [OF R]])
    define b where "b = (case map_option fst (final t1) of None \<Rightarrow> False | Some k \<Rightarrow> lru_contains k (arc_b2 s))"
    from arc_replace_ok [OF A R, of "arc_capacity s" b] obtain r s1 where
      r: "arc_replace A (arc_capacity s) b s = Some (r, s1)"
        "arc_moves A s t1 t2 (costs t1 + costs t2 + costs b1 + costs b2) (keys t1 \<union> keys t2 \<union> keys b1 \<union> keys b2) r s1" by blast
    then obtain t1' t2' b1' b2' where m: "arc_rep A s1 t1' t2' b1' b2'" "replaced t1 t2 r t1' t2'"
      "costs t1' + costs t2' + costs b1' + costs b2' \<le> costs t1 + costs t2 + costs b1 + costs b2" unfolding arc_moves_def by blast
    have step: "arc_evict_loop A n vs freed s = (case r of
        Some (key, cost) \<Rightarrow> arc_evict_loop A n (vs @ [key]) (u64_add freed cost) s1
      | None \<Rightarrow> Some ((vs, freed), s1))"
      using True tk r(1) b_def by (simp add: arc_evict_loop.simps [of A n vs freed s])
    show ?thesis
    proof (cases r)
      case None
      then have "t1' = t1" "t2' = t2" using m(2) by (simp_all add: replaced_def)
      then have "arc_follows A s1 (keys t1 \<union> keys t2 - set []) w" using m(3) less.prems(3) by (intro arc_followsI [OF A m(1)]) simp_all
      moreover have "arc_evict_loop A n vs freed s = Some ((vs @ [], freed + 0), s1)" using step None by simp
      ultimately show ?thesis by fastforce
    next
      case (Some kc)
      then obtain k c where kc: "r = Some (k, c)" by (cases kc) auto
      note rk = replaced_keys [OF R m(2) [unfolded kc]]
      have u: "u64_add freed c = freed + c" "freed + c + costs t1' + costs t2' < 2 ^ 64" using rk(3) less.prems(2) by simp_all
      have w': "costs t1' + costs t2' + costs b1' + costs b2' \<le> w" using m(3) less.prems(3) by simp
      from less.hyps [OF rk(4) m(1) u(2) w', of "vs @ [k]"] obtain ws g s' where
        h: "arc_evict_loop A n (vs @ [k]) (freed + c) s1 = Some (((vs @ [k]) @ ws, freed + c + g), s')" "distinct ws"
          "set ws \<subseteq> keys t1' \<union> keys t2'" "arc_follows A s' (keys t1' \<union> keys t2' - set ws) w" by blast
      have "arc_evict_loop A n vs freed s = Some ((vs @ (k # ws), freed + (c + g)), s')" using step kc u(1) h(1) by simp
      moreover have "distinct (k # ws)" "set (k # ws) \<subseteq> keys t1 \<union> keys t2" using h(2,3) rk(1,2) by auto
      moreover have "keys t1' \<union> keys t2' - set ws = keys t1 \<union> keys t2 - set (k # ws)" using rk(1) by auto
      ultimately show ?thesis using h(4) by metis
    qed
  qed
qed

lemma arc_admit_follows:
  assumes f: "arc_follows A s K w" and fits: "w + c < 2 ^ 64"
  shows "\<exists>s' K'. arc_on_admit A k c s = Some (Admit, s') \<and> arc_follows A s' K' (w + c) \<and> K' \<subseteq> insert k K"
proof -
  from f obtain t1 t2 b1 b2 where A: "arena_laws A" and R: "arc_rep A s t1 t2 b1 b2" and K: "K = keys t1 \<union> keys t2"
    and w: "costs t1 + costs t2 + costs b1 + costs b2 \<le> w" by (rule arc_followsE)
  have le: "costs (drop_key k x) \<le> costs x" for x :: "('c \<times> nat) list" by (rule costs_drop_key_le)
  have fits': "costs t1 + costs t2 + costs b1 + costs b2 + c < 2 ^ 64" using w fits by simp
  from arc_promote_ok [OF A R fits', of k] obtain s1 where pr: "arc_promote A k c s = Some (k \<in> keys t1 \<union> keys t2, s1)"
    "if k \<in> keys t1 \<union> keys t2 then arc_rep A s1 (drop_key k t1) ((k, c) # drop_key k t2) b1 b2 else arc_rep A s1 t1 t2 b1 b2" by blast
  show ?thesis
  proof (cases "k \<in> keys t1 \<union> keys t2")
    case True
    with pr(2) have r1: "arc_rep A s1 (drop_key k t1) ((k, c) # drop_key k t2) b1 b2" by (simp only: if_True)
    have "arc_follows A s1 K (w + c)"
      by (rule arc_followsI [OF A r1]) (use True K le [of t1] le [of t2] w in auto)
    moreover have "arc_on_admit A k c s = Some (Admit, s1)" using pr(1) True by (simp add: arc_on_admit_def)
    ultimately show ?thesis by blast
  next
    case False
    with pr(2) have r1: "arc_rep A s1 t1 t2 b1 b2" by (simp only: if_False)
    from arc_adapt_ok [OF A this, of k] obtain fl s2 where ad: "arc_adapt A k s1 = Some (fl, s2)"
      "arc_rep A s2 t1 t2 (drop_key k b1) (drop_key k b2)" by blast
    have "\<exists>s3 u1 u2 v1 v2. (if u64_add (lru_current_total_cost (arc_t1 s2)) (lru_current_total_cost (arc_t2 s2)) \<ge> arc_capacity s2
          then do { (_, s) \<leftarrow> arc_replace A (arc_capacity s2) fl s2; Some s } else Some s2) = Some s3 \<and>
        arc_rep A s3 u1 u2 v1 v2 \<and> keys u1 \<union> keys u2 \<subseteq> K \<and> k \<notin> keys u1 \<union> keys u2 \<union> keys v1 \<union> keys v2 \<and>
        costs u1 + costs u2 + costs v1 + costs v2 \<le> w"
    proof (cases "u64_add (lru_current_total_cost (arc_t1 s2)) (lru_current_total_cost (arc_t2 s2)) \<ge> arc_capacity s2")
      case skip: False
      show ?thesis using skip ad(2) False K w le [of b1] le [of b2]
        by (intro exI [of _ s2] exI [of _ t1] exI [of _ t2] exI [of _ "drop_key k b1"] exI [of _ "drop_key k b2"]) auto
    next
      case True
      from arc_replace_ok [OF A ad(2), of "arc_capacity s2" fl] obtain r s3 where
        rp: "arc_replace A (arc_capacity s2) fl s2 = Some (r, s3)"
          "arc_moves A s2 t1 t2 (costs t1 + costs t2 + costs (drop_key k b1) + costs (drop_key k b2))
            (keys t1 \<union> keys t2 \<union> keys (drop_key k b1) \<union> keys (drop_key k b2)) r s3" by blast
      then obtain u1 u2 v1 v2 where m: "arc_rep A s3 u1 u2 v1 v2" "replaced t1 t2 r u1 u2"
        "costs u1 + costs u2 + costs v1 + costs v2 \<le> costs t1 + costs t2 + costs (drop_key k b1) + costs (drop_key k b2)"
        "keys u1 \<union> keys u2 \<union> keys v1 \<union> keys v2 \<subseteq> keys t1 \<union> keys t2 \<union> keys (drop_key k b1) \<union> keys (drop_key k b2)"
        unfolding arc_moves_def by blast
      have "keys u1 \<union> keys u2 \<subseteq> K" using m(2) K by (auto simp: replaced_def split: option.splits)
      moreover have "k \<notin> keys u1 \<union> keys u2 \<union> keys v1 \<union> keys v2" using m(4) False by auto
      ultimately show ?thesis using True rp(1) m(1,3) w le [of b1] le [of b2]
        by (intro exI [of _ s3] exI [of _ u1] exI [of _ u2] exI [of _ v1] exI [of _ v2]) simp
    qed
    then obtain s3 u1 u2 v1 v2 where s3: "(if u64_add (lru_current_total_cost (arc_t1 s2)) (lru_current_total_cost (arc_t2 s2)) \<ge> arc_capacity s2
          then do { (_, s) \<leftarrow> arc_replace A (arc_capacity s2) fl s2; Some s } else Some s2) = Some s3"
      "arc_rep A s3 u1 u2 v1 v2" "keys u1 \<union> keys u2 \<subseteq> K" "k \<notin> keys u1 \<union> keys u2 \<union> keys v1 \<union> keys v2"
      "costs u1 + costs u2 + costs v1 + costs v2 \<le> w" by blast
    note D = arc_repD [OF s3(2)]
    have "costs (drop_key k u1) + c < 2 ^ 64" using s3(5) fits le [of u1] by simp
    with A D(1) obtain l where l: "lru_push_front A k c (arc_t1 s3) = Some l" "lru_rep A l ((k, c) # drop_key k u1)" by (rule lru_push_front_rep)
    have ku: "drop_key k u1 = u1" using s3(4) by simp
    have d: "disjoint4 (keys ((k, c) # u1)) (keys u2) (keys v1) (keys v2)" using D(5) s3(4) by (simp add: disjoint4_def)
    have "arc_rep A (s3\<lparr>arc_t1 := l\<rparr>) ((k, c) # u1) u2 v1 v2" by (rule arc_repI) (use l(2) ku D(2-4,7) d s3(5) fits in simp_all)
    then have "arc_follows A (s3\<lparr>arc_t1 := l\<rparr>) (insert k (keys u1 \<union> keys u2)) (w + c)"
      by (rule arc_followsI [OF A]) (use s3(5) in simp_all)
    moreover have "arc_on_admit A k c s = Some (Admit, s3\<lparr>arc_t1 := l\<rparr>)"
      using pr(1) False ad(1) s3(1) l(1) by (simp add: arc_on_admit_def)
    ultimately show ?thesis using s3(3) by blast
  qed
qed

lemma arc_access_follows:
  assumes f: "arc_follows A s K w" and fits: "w + c < 2 ^ 64"
  shows "\<exists>s'. arc_on_access A k c s = Some s' \<and> arc_follows A s' K (w + c)"
proof -
  from f obtain t1 t2 b1 b2 where A: "arena_laws A" and R: "arc_rep A s t1 t2 b1 b2" and K: "K = keys t1 \<union> keys t2"
    and w: "costs t1 + costs t2 + costs b1 + costs b2 \<le> w" by (rule arc_followsE)
  have le: "costs (drop_key k t1) \<le> costs t1" "costs (drop_key k t2) \<le> costs t2" by (rule costs_drop_key_le)+
  have "costs t1 + costs t2 + costs b1 + costs b2 + c < 2 ^ 64" using w fits by simp
  from arc_promote_ok [OF A R this, of k] obtain s1 where pr: "arc_promote A k c s = Some (k \<in> keys t1 \<union> keys t2, s1)"
    "if k \<in> keys t1 \<union> keys t2 then arc_rep A s1 (drop_key k t1) ((k, c) # drop_key k t2) b1 b2 else arc_rep A s1 t1 t2 b1 b2" by blast
  have "arc_follows A s1 K (w + c)"
  proof (cases "k \<in> keys t1 \<union> keys t2")
    case True
    with pr(2) have r1: "arc_rep A s1 (drop_key k t1) ((k, c) # drop_key k t2) b1 b2" by (simp only: if_True)
    show ?thesis by (rule arc_followsI [OF A r1]) (use True K le w in auto)
  next
    case False
    with pr(2) have r1: "arc_rep A s1 t1 t2 b1 b2" by (simp only: if_False)
    show ?thesis by (rule arc_followsI [OF A r1 K]) (use w in simp)
  qed
  then show ?thesis using pr(1) by (simp add: arc_on_access_def)
qed

lemma arc_remove_follows:
  assumes f: "arc_follows A s K w"
  shows "\<exists>s'. arc_on_remove A k s = Some s' \<and> arc_follows A s' (K - {k}) w"
proof -
  from f obtain t1 t2 b1 b2 where A: "arena_laws A" and R: "arc_rep A s t1 t2 b1 b2" and K: "K = keys t1 \<union> keys t2"
    and w: "costs t1 + costs t2 + costs b1 + costs b2 \<le> w" by (rule arc_followsE)
  note D = arc_repD [OF R]
  have le: "costs (drop_key k x) \<le> costs x" for x :: "('c \<times> nat) list" by (rule costs_drop_key_le)
  from A D(1) obtain l1 where l1: "lru_remove A k (arc_t1 s) = Some (map_of t1 k, l1)" "lru_rep A l1 (drop_key k t1)" by (rule lru_remove_rep)
  from A D(2) obtain l2 where l2: "lru_remove A k (arc_t2 s) = Some (map_of t2 k, l2)" "lru_rep A l2 (drop_key k t2)" by (rule lru_remove_rep)
  from A D(3) obtain l3 where l3: "lru_remove A k (arc_b1 s) = Some (map_of b1 k, l3)" "lru_rep A l3 (drop_key k b1)" by (rule lru_remove_rep)
  from A D(4) obtain l4 where l4: "lru_remove A k (arc_b2 s) = Some (map_of b2 k, l4)" "lru_rep A l4 (drop_key k b2)" by (rule lru_remove_rep)
  have d: "disjoint4 (keys (drop_key k t1)) (keys (drop_key k t2)) (keys (drop_key k b1)) (keys (drop_key k b2))"
    by (rule disjoint4_sub [OF D(5)]) auto
  have fol: "arc_follows A s' (K - {k}) w"
    if "lru_rep A (arc_t1 s') (drop_key k t1)" "lru_rep A (arc_t2 s') (drop_key k t2)" "lru_rep A (arc_b1 s') (drop_key k b1)"
      "lru_rep A (arc_b2 s') (drop_key k b2)" "arc_p s' \<le> arc_capacity s'" for s'
  proof -
    have "arc_rep A s' (drop_key k t1) (drop_key k t2) (drop_key k b1) (drop_key k b2)"
      by (rule arc_repI) (use that d D(6) le [of t1] le [of t2] le [of b1] le [of b2] in simp_all)
    then show ?thesis by (rule arc_followsI [OF A]) (use K w le [of t1] le [of t2] le [of b1] le [of b2] in auto)
  qed
  have same: "lru_rep A x (drop_key k xs)" if "lru_rep A x xs" "k \<notin> keys xs" for x xs using that by simp
  consider "k \<in> keys t1" | "k \<notin> keys t1" "k \<in> keys t2" | "k \<notin> keys t1" "k \<notin> keys t2" "k \<in> keys b1"
    | "k \<notin> keys t1" "k \<notin> keys t2" "k \<notin> keys b1" by blast
  then show ?thesis
  proof cases
    case 1
    then obtain c where "map_of t1 k = Some c" by (rule map_of_keysE)
    then have "arc_on_remove A k s = Some (s\<lparr>arc_t1 := l1\<rparr>)" using l1(1) by (simp add: arc_on_remove_def)
    moreover have "k \<notin> keys t2" "k \<notin> keys b1" "k \<notin> keys b2" using 1 D(5) by (auto simp: disjoint4_def)
    ultimately show ?thesis using fol [of "s\<lparr>arc_t1 := l1\<rparr>"] l1(2) D(2-4,7) by simp
  next
    case 2
    from 2(2) obtain c where "map_of t2 k = Some c" by (rule map_of_keysE)
    with 2(1) have "arc_on_remove A k s = Some (s\<lparr>arc_t1 := l1, arc_t2 := l2\<rparr>)"
      using l1(1) l2(1) by (simp add: arc_on_remove_def map_of_None_keys [THEN iffD2])
    moreover have "k \<notin> keys b1" "k \<notin> keys b2" using 2 D(5) by (auto simp: disjoint4_def)
    ultimately show ?thesis using fol [of "s\<lparr>arc_t1 := l1, arc_t2 := l2\<rparr>"] l1(2) l2(2) D(3,4,7) by simp
  next
    case 3
    from 3(3) obtain c where "map_of b1 k = Some c" by (rule map_of_keysE)
    with 3(1,2) have "arc_on_remove A k s = Some (s\<lparr>arc_t1 := l1, arc_t2 := l2, arc_b1 := l3\<rparr>)"
      using l1(1) l2(1) l3(1) by (simp add: arc_on_remove_def map_of_None_keys [THEN iffD2])
    moreover have "k \<notin> keys b2" using 3 D(5) by (auto simp: disjoint4_def)
    ultimately show ?thesis using fol [of "s\<lparr>arc_t1 := l1, arc_t2 := l2, arc_b1 := l3\<rparr>"] l1(2) l2(2) l3(2) D(4,7) by simp
  next
    case 4
    then have "arc_on_remove A k s = Some (s\<lparr>arc_t1 := l1, arc_t2 := l2, arc_b1 := l3, arc_b2 := l4\<rparr>)"
      using l1(1) l2(1) l3(1) l4(1) by (simp add: arc_on_remove_def map_of_None_keys [THEN iffD2])
    then show ?thesis using fol [of "s\<lparr>arc_t1 := l1, arc_t2 := l2, arc_b1 := l3, arc_b2 := l4\<rparr>"] l1(2) l2(2) l3(2) l4(2) D(7) by simp
  qed
qed

interpretation arc: loose_policy "arc_follows A" "arc_on_access A" "arc_on_admit A" "arc_on_remove A" "arc_evict A" "arc_clear A"
  for A :: "('a, 'i, 'k) node_arena"
proof unfold_locales
  fix s :: "('a, 'i, 'k) arc_state" and K w c k n
  assume f: "arc_follows A s K w"
  then obtain t1 t2 b1 b2 where A: "arena_laws A" and R: "arc_rep A s t1 t2 b1 b2" and K: "K = keys t1 \<union> keys t2"
    and w: "costs t1 + costs t2 + costs b1 + costs b2 \<le> w" by (rule arc_followsE)
  show "\<exists>s'. arc_on_access A k c s = Some s' \<and> arc_follows A s' K (w + c)" if "w + c < 2 ^ 64"
    by (rule arc_access_follows [OF f that])
  show "\<exists>d s' K'. arc_on_admit A k c s = Some (d, s') \<and> arc_follows A s' K' (w + c) \<and>
      K' \<inter> victims_of d = {} \<and> K' \<union> victims_of d \<subseteq> insert k K" if "w + c < 2 ^ 64"
  proof -
    from arc_admit_follows [OF f that, of k] obtain s' K' where
      "arc_on_admit A k c s = Some (Admit, s')" "arc_follows A s' K' (w + c)" "K' \<subseteq> insert k K" by blast
    then show ?thesis by (intro exI [of _ Admit] exI [of _ s'] exI [of _ K']) simp
  qed
  show "\<exists>s'. arc_on_remove A k s = Some s' \<and> arc_follows A s' (K - {k}) w" by (rule arc_remove_follows [OF f])
  show "\<exists>vs g s'. arc_evict A n s = Some ((vs, g), s') \<and> distinct vs \<and> set vs \<subseteq> K \<and> arc_follows A s' (K - set vs) w"
    using arc_evict_loop_ok [OF A R _ w, of 0 n "[]"] arc_repD(6) [OF R] K by (simp add: arc_evict_def)
  have "arc_rep A (arc_clear A s) [] [] [] []"
    by (rule arc_repI) (simp_all add: arc_clear_def lru_clear_rep [OF A] disjoint4_def)
  then show "arc_follows A (arc_clear A s) {} w" by (rule arc_followsI [OF A]) simp_all
qed

subsection \<open>Admissions of untracked keys\<close>

lemma arc_untracked:
  assumes A: "arena_laws A" and R: "arc_rep A s t1 t2 b1 b2" and k: "k \<notin> keys t1 \<union> keys t2 \<union> keys b1 \<union> keys b2"
  obtains s1 s2 where "arc_promote A k c s = Some (False, s1)" "arc_adapt A k s1 = Some (False, s2)" "arc_rep A s2 t1 t2 b1 b2"
    "arc_p s2 = arc_p s" "arc_capacity s2 = arc_capacity s"
proof -
  note D = arc_repD [OF R]
  have n: "map_of t1 k = None" "map_of b1 k = None" "map_of b2 k = None" "drop_key k t1 = t1" "drop_key k b1 = b1" "drop_key k b2 = b2"
    "\<not> lru_contains k (arc_t2 s)" using k D(2) by (simp_all add: map_of_None_keys) (simp add: keys_def)
  obtain l1 l2 l3 where l: "lru_remove A k (arc_t1 s) = Some (None, l1)" "lru_rep A l1 t1" "lru_remove A k (arc_b1 s) = Some (None, l2)" "lru_rep A l2 b1"
    "lru_remove A k (arc_b2 s) = Some (None, l3)" "lru_rep A l3 b2"
    using lru_remove_rep [OF A D(1), of k] lru_remove_rep [OF A D(3), of k] lru_remove_rep [OF A D(4), of k] n by metis
  show thesis
  proof (rule that)
    show "arc_promote A k c s = Some (False, s\<lparr>arc_t1 := l1\<rparr>)" using l(1) n by (simp add: arc_promote_def)
    show "arc_adapt A k (s\<lparr>arc_t1 := l1\<rparr>) = Some (False, s\<lparr>arc_t1 := l1, arc_b1 := l2, arc_b2 := l3\<rparr>)" using l by (simp add: arc_adapt_def)
    show "arc_rep A (s\<lparr>arc_t1 := l1, arc_b1 := l2, arc_b2 := l3\<rparr>) t1 t2 b1 b2" by (rule arc_repI) (use l D in simp_all)
  qed simp_all
qed

lemma arc_push_t1:
  assumes A: "arena_laws A" and R: "arc_rep A s t1 t2 b1 b2" and k: "k \<notin> keys t1 \<union> keys t2 \<union> keys b1 \<union> keys b2"
    and fits: "costs t1 + costs t2 + costs b1 + costs b2 + c < 2 ^ 64"
  obtains l where "lru_push_front A k c (arc_t1 s) = Some l" "arc_rep A (s\<lparr>arc_t1 := l\<rparr>) ((k, c) # t1) t2 b1 b2"
proof -
  note D = arc_repD [OF R]
  have d: "drop_key k t1 = t1" "disjoint4 (keys ((k, c) # t1)) (keys t2) (keys b1) (keys b2)" using k D(5) by (simp_all add: disjoint4_def)
  have "costs (drop_key k t1) + c < 2 ^ 64" using fits d(1) by simp
  with A D(1) obtain l where l: "lru_push_front A k c (arc_t1 s) = Some l" "lru_rep A l ((k, c) # drop_key k t1)" by (rule lru_push_front_rep)
  have "arc_rep A (s\<lparr>arc_t1 := l\<rparr>) ((k, c) # t1) t2 b1 b2" by (rule arc_repI) (use l(2) d D(2-4,7) fits in simp_all)
  then show thesis using that l(1) by blast
qed

text \<open>Below the capacity an admission only adds the key.\<close>

lemma arc_admit_room:
  assumes A: "arena_laws A" and R: "arc_rep A s t1 t2 b1 b2" and k: "k \<notin> keys t1 \<union> keys t2 \<union> keys b1 \<union> keys b2"
    and fits: "costs t1 + costs t2 + costs b1 + costs b2 + c < 2 ^ 64" and room: "costs t1 + costs t2 < arc_capacity s"
  obtains s' where "arc_on_admit A k c s = Some (Admit, s')" "arc_rep A s' ((k, c) # t1) t2 b1 b2" "arc_p s' = arc_p s" "arc_capacity s' = arc_capacity s"
proof -
  obtain s1 s2 where s: "arc_promote A k c s = Some (False, s1)" "arc_adapt A k s1 = Some (False, s2)" "arc_rep A s2 t1 t2 b1 b2"
    "arc_p s2 = arc_p s" "arc_capacity s2 = arc_capacity s" by (rule arc_untracked [OF A R k])
  obtain l where l: "lru_push_front A k c (arc_t1 s2) = Some l" "arc_rep A (s2\<lparr>arc_t1 := l\<rparr>) ((k, c) # t1) t2 b1 b2" by (rule arc_push_t1 [OF A s(3) k fits])
  have "lru_current_total_cost (arc_t1 s2) = costs t1" "lru_current_total_cost (arc_t2 s2) = costs t2" using arc_repD(1,2) [OF s(3)] by simp_all
  then have "arc_on_admit A k c s = Some (Admit, s2\<lparr>arc_t1 := l\<rparr>)" using s l(1) room fits by (simp add: arc_on_admit_def)
  then show thesis using that l(2) s(4,5) by simp
qed

text \<open>At the capacity it takes the oldest key of the first list to a ghost list, and does not say so.\<close>

lemma arc_admit_full:
  assumes A: "arena_laws A" and R: "arc_rep A s t1 t2 b1 b2" and k: "k \<notin> keys t1 \<union> keys t2 \<union> keys b1 \<union> keys b2"
    and fits: "costs t1 + costs t2 + costs b1 + costs b2 + c < 2 ^ 64" and full: "arc_capacity s \<le> costs t1 + costs t2"
    and t1: "t1 = us @ [(j, d)]" "0 < costs t1" "arc_p s \<le> costs t1"
  obtains s' where "arc_on_admit A k c s = Some (Admit, s')"
    "arc_follows A s' (insert k (keys us \<union> keys t2)) (costs t1 + costs t2 + costs b1 + costs b2 + c)"
proof -
  obtain s1 s2 where s: "arc_promote A k c s = Some (False, s1)" "arc_adapt A k s1 = Some (False, s2)" "arc_rep A s2 t1 t2 b1 b2"
    "arc_p s2 = arc_p s" "arc_capacity s2 = arc_capacity s" by (rule arc_untracked [OF A R k])
  have p: "arc_p s2 \<le> costs t1" using t1(3) s(4) by simp
  obtain s3 u1 u2 v1 v2 where r: "arc_replace A (arc_capacity s2) False s2 = Some (Some (j, d), s3)" "arc_rep A s3 u1 u2 v1 v2"
    "replaced t1 t2 (Some (j, d)) u1 u2" "costs u1 + costs u2 + costs v1 + costs v2 \<le> costs t1 + costs t2 + costs b1 + costs b2"
    "keys u1 \<union> keys u2 \<union> keys v1 \<union> keys v2 \<subseteq> keys t1 \<union> keys t2 \<union> keys b1 \<union> keys b2"
    using arc_take_t1 [OF A s(3) t1(1,2) p, of "arc_capacity s2"] unfolding arc_moves_def by blast
  have "keys t1 \<inter> keys t2 = {}" "j \<in> keys t1" using arc_repD(5) [OF R] t1(1) by (auto simp: disjoint4_def)
  then have u: "u1 = us" "u2 = t2" using r(3) t1(1) by (auto simp: replaced_def keys_def)
  have f: "costs u1 + costs u2 + costs v1 + costs v2 + c < 2 ^ 64" "k \<notin> keys u1 \<union> keys u2 \<union> keys v1 \<union> keys v2" using r(4,5) fits k by auto
  obtain l where l: "lru_push_front A k c (arc_t1 s3) = Some l" "arc_rep A (s3\<lparr>arc_t1 := l\<rparr>) ((k, c) # u1) u2 v1 v2" by (rule arc_push_t1 [OF A r(2) f(2,1)])
  have "lru_current_total_cost (arc_t1 s2) = costs t1" "lru_current_total_cost (arc_t2 s2) = costs t2" using arc_repD(1,2) [OF s(3)] by simp_all
  then have "arc_on_admit A k c s = Some (Admit, s3\<lparr>arc_t1 := l\<rparr>)" using s r(1) l(1) full fits by (simp add: arc_on_admit_def)
  moreover have "arc_follows A (s3\<lparr>arc_t1 := l\<rparr>) (insert k (keys us \<union> keys t2)) (costs t1 + costs t2 + costs b1 + costs b2 + c)"
    by (rule arc_followsI [OF A l(2)]) (use u r(4) in simp_all)
  ultimately show thesis by (rule that)
qed

text \<open>Filling a new cache up to its capacity.\<close>

lemma arc_fill:
  assumes A: "arena_laws A"
  shows "keyed xs \<Longrightarrow> costs xs < 2 ^ 64 \<Longrightarrow> xs = [] \<or> costs (butlast xs) < capacity \<Longrightarrow>
    \<exists>s. policy_run (arc_policy A) (admissions xs) (arc_new A capacity) = Some (replicate (length xs) (Decided Admit), s) \<and>
      arc_rep A s (rev xs) [] [] [] \<and> arc_p s = 0 \<and> arc_capacity s = capacity"
proof (induction xs rule: rev_induct)
  case Nil
  show ?case by (simp add: admissions_def arc_rep_def arc_new_def lru_new_rep [OF A] disjoint4_def)
next
  case (snoc x xs)
  obtain k c where x: "x = (k, c)" by force
  have b: "costs xs < capacity" "costs xs + c < 2 ^ 64" "k \<notin> keys xs" "keyed xs" using snoc.prems x by (auto simp: keyed_def keys_def)
  then have "xs = [] \<or> costs (butlast xs) < capacity" using costs_butlast_le [of xs] by linarith
  then obtain s where s: "policy_run (arc_policy A) (admissions xs) (arc_new A capacity) = Some (replicate (length xs) (Decided Admit), s)"
    "arc_rep A s (rev xs) [] [] []" "arc_p s = 0" "arc_capacity s = capacity" using snoc.IH b by auto
  obtain s' where "arc_on_admit A k c s = Some (Admit, s')" "arc_rep A s' ((k, c) # rev xs) [] [] []" "arc_p s' = 0" "arc_capacity s' = capacity"
    by (rule arc_admit_room [OF A s(2), of k c]) (use b s(3,4) in \<open>simp_all add: keys_def\<close>)
  then show ?case using policy_run_append [OF s(1), of "[OnAdmit k c]"] x
    by (simp add: admissions_def arc_policy_def replicate_append_same)
qed

subsection \<open>Properties\<close>

text \<open>
  (C36) ARC under any history, for every capacity: no call panics or runs forever, the victims of an
  eviction are distinct keys that the shard holds, and afterwards every key the policy still tracks
  is a key of the shard.
\<close>

theorem arc_policy_follows:
  assumes "arena_laws A" "sum_list (map call_cost cs) < 2 ^ 64"
  shows "\<exists>as s' K'. policy_run (arc_policy A) cs (arc_new A capacity) = Some (as, s') \<and>
           in_step answer_ok {} cs as \<and> arc_follows A s' K' (sum_list (map call_cost cs)) \<and> K' \<subseteq> shard_keys cs as {}"
proof -
  have "arc_rep A (arc_new A capacity) [] [] [] []"
    by (rule arc_repI) (simp_all add: arc_new_def lru_new_rep [OF assms(1)] disjoint4_def)
  then have f: "arc_follows A (arc_new A capacity) {} 0" by (rule arc_followsI [OF assms(1)]) simp_all
  from arc.run_follows [OF f, of cs "{}"] assms(2) show ?thesis by (fastforce simp: arc_policy_def)
qed

theorem arc_policy_follows_witness:
  "\<exists>as s' K'. policy_run (arc_policy vec_arena) [OnAdmit (1::nat) 1, OnAdmit 2 1, Evict 1] (arc_new vec_arena 4) = Some (as, s') \<and>
     K' \<subseteq> shard_keys [OnAdmit 1 1, OnAdmit 2 1, Evict 1] as {}"
  using arc_policy_follows [OF vec_arena_laws, of "[OnAdmit (1::nat) 1, OnAdmit 2 1, Evict 1]" 4] by auto

text \<open>
  (C37) ARC loses keys. Fill a new cache of any capacity with keys until their cost reaches it, and admit
  one more key: every answer is a plain \<^verbatim>\<open>Admit\<close>, and \<^verbatim>\<open>on_admit\<close> has moved the oldest key \<open>j\<close> to a ghost list without
  naming it. Whatever calls follow, accesses of \<open>j\<close> and evictions of any cost included, no answer names \<open>j\<close> until it is
  admitted again, so a shard that does not remove it itself holds it forever.
\<close>

theorem arc_forgets_keys:
  assumes "arena_laws A" "keyed ((j, d) # xs)" "k \<notin> keys ((j, d) # xs)" "costs (butlast ((j, d) # xs)) < capacity" "capacity \<le> costs ((j, d) # xs)"
    and "costs ((j, d) # xs) + c + sum_list (map call_cost cs) < 2 ^ 64" "\<forall>n. OnAdmit j n \<notin> set cs"
  shows "\<exists>as s'. policy_run (arc_policy A) (admissions ((j, d) # xs @ [(k, c)]) @ cs) (arc_new A capacity) = Some (replicate (length xs + 2) (Decided Admit) @ as, s') \<and>
    (\<forall>a \<in> set as. j \<notin> named a) \<and>
    (OnRemove j \<notin> set cs \<and> Clear \<notin> set cs \<longrightarrow>
       j \<in> shard_keys (admissions ((j, d) # xs @ [(k, c)]) @ cs) (replicate (length xs + 2) (Decided Admit) @ as) {})"
proof -
  let ?xs = "(j, d) # xs" and ?ys = "(j, d) # xs @ [(k, c)]"
  have "costs ?xs < 2 ^ 64" using assms(6) by simp
  then obtain s where s: "policy_run (arc_policy A) (admissions ?xs) (arc_new A capacity) = Some (replicate (length ?xs) (Decided Admit), s)"
    "arc_rep A s (rev ?xs) [] [] []" "arc_p s = 0" "arc_capacity s = capacity" using arc_fill [OF assms(1,2), of capacity] assms(4) by blast
  obtain s1 where s1: "arc_on_admit A k c s = Some (Admit, s1)" "arc_follows A s1 (insert k (keys (rev xs) \<union> keys ([] :: ('c \<times> nat) list))) (costs (rev ?xs) + costs ([] :: ('c \<times> nat) list) + costs ([] :: ('c \<times> nat) list) + costs ([] :: ('c \<times> nat) list) + c)"
    by (rule arc_admit_full [OF assms(1) s(2), of k c "rev xs" j d]) (use assms(3-6) s(3,4) in \<open>auto simp: keys_def\<close>)
  have r1: "policy_run (arc_policy A) (admissions ?ys) (arc_new A capacity) = Some (replicate (length xs + 2) (Decided Admit), s1)"
    using policy_run_append [OF s(1), of "[OnAdmit k c]"] s1(1) by (simp add: admissions_def arc_policy_def replicate_append_same)
  have j: "j \<notin> insert k (keys (rev xs))" using assms(2,3) by (auto simp: keyed_def keys_def)
  obtain as s' where r2: "policy_run (arc_policy A) cs s1 = Some (as, s')" "in_step answer_ok (insert k (keys (rev xs))) cs as"
    using arc.run_follows [OF s1(2), of cs "insert k (keys (rev xs))"] assms(6) by (auto simp: arc_policy_def)
  have n: "\<forall>a \<in> set as. j \<notin> named a" by (rule in_step_unnamed [OF r2(2) j assms(7)])
  have "shard_keys (admissions ?ys @ cs) (replicate (length xs + 2) (Decided Admit) @ as) {} = shard_keys cs as (keys ?ys)"
    using shard_keys_append [of "replicate (length xs + 2) (Decided Admit)" "admissions ?ys" cs as "{}"] shard_keys_admissions [of ?ys "{}"] by (simp add: admissions_def)
  moreover have "j \<in> keys ?ys" by simp
  ultimately show ?thesis using policy_run_append [OF r1, of cs] r2(1) n shard_keys_unnamed [OF r2(2) _ n] by simp
qed

theorem arc_forgets_keys_witness:
  "\<exists>as s'. policy_run (arc_policy vec_arena) (admissions [(1 :: nat, 1), (2, 1), (3, 1)] @ [Evict 5, OnAccess 1 1, Evict 5]) (arc_new vec_arena 2) =
      Some (replicate 3 (Decided Admit) @ as, s') \<and> (\<forall>a \<in> set as. 1 \<notin> named a) \<and>
    1 \<in> shard_keys (admissions [(1 :: nat, 1), (2, 1), (3, 1)] @ [Evict 5, OnAccess 1 1, Evict 5]) (replicate 3 (Decided Admit) @ as) {}"
  using arc_forgets_keys [OF vec_arena_laws, of "1 :: nat" 1 "[(2, 1)]" 3 2 1 "[Evict 5, OnAccess 1 1, Evict 5]"]
  by (simp add: keyed_def numeral_3_eq_3 del: policy_run.simps shard_keys.simps)

end
