(* ===== verification/Ring_Index.thy ===== *)
theory Ring_Index
  imports Prelude "HOL-Library.Word"
begin

section \<open>Positions of ring buffers\<close>

text \<open>
  What the rings of the repository share: sizes rounded up to a power of two, positions that are
  64-bit counters which wrap and are masked to a slot, and the slots between two positions holding
  a queue.
\<close>

unbundle bit_operations_syntax

subsection \<open>Sizes\<close>

function next_power_of_two_from :: "nat \<Rightarrow> nat \<Rightarrow> nat" where
  "next_power_of_two_from p n = (if p \<ge> n \<or> p = 0 then p else next_power_of_two_from (2 * p) n)"
  by pat_completeness auto
termination by (relation "measure (\<lambda>(p, n). n - p)") auto

declare next_power_of_two_from.simps [simp del]

definition next_power_of_two :: "nat \<Rightarrow> nat" where
  "next_power_of_two n = next_power_of_two_from 1 n"

lemma next_power_of_two_from:
  "\<exists>j. next_power_of_two_from (2 ^ i) n = 2 ^ j \<and> n \<le> 2 ^ j"
proof (induction "n - 2 ^ i" arbitrary: i rule: less_induct)
  case less
  show ?case
  proof (cases "(2::nat) ^ i \<ge> n")
    case True
    then show ?thesis by (auto simp: next_power_of_two_from.simps [of "2 ^ i"])
  next
    case False
    then have "n - 2 ^ Suc i < n - 2 ^ i" by (simp add: diff_less_mono2)
    from less.hyps [OF this] False show ?thesis by (simp add: next_power_of_two_from.simps [of "2 ^ i"])
  qed
qed

lemma next_power_of_twoE:
  obtains j where "next_power_of_two n = 2 ^ j" "n \<le> 2 ^ j"
  using next_power_of_two_from [of 0 n] by (auto simp: next_power_of_two_def)

lemma next_power_of_two_from_le:
  "i \<le> m \<Longrightarrow> n \<le> 2 ^ m \<Longrightarrow> next_power_of_two_from (2 ^ i) n \<le> 2 ^ m"
proof (induction "m - i" arbitrary: i)
  case 0
  then show ?case by (simp add: next_power_of_two_from.simps [of "2 ^ i"])
next
  case (Suc d)
  show ?case
  proof (cases "n \<le> 2 ^ i")
    case True
    then show ?thesis using Suc.prems by (simp add: next_power_of_two_from.simps [of "2 ^ i"])
  next
    case False
    have "d = m - Suc i" "Suc i \<le> m" using Suc.hyps(2) by simp_all
    from Suc.hyps(1) [OF this Suc.prems(2)] False show ?thesis by (simp add: next_power_of_two_from.simps [of "2 ^ i"])
  qed
qed

lemma next_power_of_two_le: "n \<le> 2 ^ m \<Longrightarrow> next_power_of_two n \<le> 2 ^ m"
  using next_power_of_two_from_le [of 0 m n] by (simp add: next_power_of_two_def)

subsection \<open>Wrapping positions\<close>

lemma mask_pos: "k < 64 \<Longrightarrow> unat (of_nat p AND (of_nat (2 ^ k) - 1) :: 64 word) = p mod 2 ^ k"
proof -
  assume k: "k < 64"
  have "of_nat p AND (of_nat (2 ^ k) - 1 :: 64 word) = of_nat p AND mask k" by (simp add: mask_eq_exp_minus_1)
  also have "\<dots> = take_bit k (of_nat p)" by (simp add: take_bit_eq_mask)
  also have "\<dots> = of_nat (take_bit k p)" by (simp add: take_bit_of_nat)
  also have "\<dots> = of_nat (p mod 2 ^ k)" by (simp add: take_bit_eq_mod)
  finally have e: "unat (of_nat p AND (of_nat (2 ^ k) - 1) :: 64 word) = unat (of_nat (p mod 2 ^ k) :: 64 word)" by simp
  have "(2::nat) ^ k \<le> 2 ^ 64" using k by (intro power_increasing) auto
  moreover have "p mod 2 ^ k < 2 ^ k" by simp
  ultimately have "p mod 2 ^ k < 2 ^ 64" by (rule less_le_trans [rotated])
  then show ?thesis unfolding e by (simp add: unsigned_of_nat take_bit_nat_eq_self del: of_nat_mod)
qed

lemma pos_diff: "n < 2 ^ 64 \<Longrightarrow> unat (of_nat (h + n) - of_nat h :: 64 word) = n"
  by (simp add: unsigned_of_nat take_bit_nat_eq_self)

lemma near_eq: "p \<le> q \<Longrightarrow> q - p < 2 ^ 64 \<Longrightarrow> (of_nat p :: 64 word) = of_nat q \<longleftrightarrow> p = q"
proof
  assume h: "p \<le> q" "q - p < 2 ^ 64" and e: "(of_nat p :: 64 word) = of_nat q"
  have "(of_nat (q - p) :: 64 word) = of_nat q - of_nat p" using h(1) by (simp add: of_nat_diff)
  then have "unat (of_nat (q - p) :: 64 word) = 0" using e by simp
  moreover have "unat (of_nat (q - p) :: 64 word) = q - p" using h(2) by (simp add: unat_of_nat)
  ultimately show "p = q" using h(1) by simp
qed simp

lemma ring_apart: "p < q \<Longrightarrow> q < p + m \<Longrightarrow> p mod m \<noteq> q mod (m :: nat)"
  by (metis add_diff_cancel_left' dvd_imp_le diff_less_mono less_imp_le_nat mod_eq_dvd_iff_nat not_less zero_less_diff)

lemma ring_same: "H \<le> p \<Longrightarrow> p < H + m \<Longrightarrow> H \<le> q \<Longrightarrow> q < H + m \<Longrightarrow> q mod m = p mod m \<longleftrightarrow> q = (p :: nat)"
  using ring_apart [of p q m] ring_apart [of q p m] by (cases p q rule: linorder_cases) auto

subsection \<open>The queue between two positions\<close>

definition ring_holds :: "'a option list \<Rightarrow> nat \<Rightarrow> nat \<Rightarrow> 'a list \<Rightarrow> bool" where
  "ring_holds buf k H xs \<longleftrightarrow> length buf = 2 ^ k \<and> length xs \<le> 2 ^ k \<and> (\<forall>i < length xs. buf ! ((H + i) mod 2 ^ k) = Some (xs ! i))"

lemma ring_holds_empty: "length buf = 2 ^ k \<Longrightarrow> ring_holds buf k H []"
  by (simp add: ring_holds_def)

lemma ring_holds_push:
  assumes R: "ring_holds buf k H xs" and n: "length xs < 2 ^ k"
  shows "ring_holds (buf[(H + length xs) mod 2 ^ k := Some x]) k H (xs @ [x])"
  unfolding ring_holds_def
proof (intro conjI allI impI)
  fix i assume i: "i < length (xs @ [x])"
  show "buf[(H + length xs) mod 2 ^ k := Some x] ! ((H + i) mod 2 ^ k) = Some ((xs @ [x]) ! i)"
  proof (cases "i = length xs")
    case True
    then show ?thesis using R by (simp add: ring_holds_def)
  next
    case False
    then have i': "i < length xs" using i by simp
    then have "(H + i) mod 2 ^ k \<noteq> (H + length xs) mod 2 ^ k" using ring_apart [of "H + i" "H + length xs" "2 ^ k"] n by simp
    then show ?thesis using R i' by (simp add: ring_holds_def nth_append)
  qed
qed (use R n in \<open>simp_all add: ring_holds_def\<close>)

lemma ring_holds_head: "ring_holds buf k H (x # xs) \<Longrightarrow> buf ! (H mod 2 ^ k) = Some x"
  unfolding ring_holds_def by (metis add_0_right length_greater_0_conv list.distinct(1) nth_Cons_0)

lemma ring_holds_pop:
  assumes R: "ring_holds buf k H (x # xs)"
  shows "ring_holds (buf[H mod 2 ^ k := None]) k (Suc H) xs"
  unfolding ring_holds_def
proof (intro conjI allI impI)
  fix i assume i: "i < length xs"
  then have "(H + Suc i) mod 2 ^ k \<noteq> H mod 2 ^ k" using R ring_apart [of H "H + Suc i" "2 ^ k"] by (auto simp: ring_holds_def)
  then show "buf[H mod 2 ^ k := None] ! ((Suc H + i) mod 2 ^ k) = Some (xs ! i)" using R i unfolding ring_holds_def by (auto dest!: spec [of _ "Suc i"])
qed (use R in \<open>simp_all add: ring_holds_def\<close>)

end
