(* ===== verification/Sketch.thy ===== *)
theory Sketch
  imports Ring_Index
begin

section \<open>The frequency sketches\<close>

text \<open>
  The count-min sketch of \<^verbatim>\<open>cache/src/policy/tinylfu.rs\<close> (module \<^verbatim>\<open>cms\<close>), the one of \<^verbatim>\<open>cache/src/hpolicy.rs\<close>
  (\<^verbatim>\<open>Sketch\<close>) and the hash finalizer they share. The hash of a key is a 64-bit word; the keyed hasher
  (\<^verbatim>\<open>ahash\<close>) is a parameter of the operations that take a key.
\<close>

unbundle bit_operations_syntax

subsection \<open>MurmurHash3's finalizer\<close>

definition xorshift33 :: "64 word \<Rightarrow> 64 word" where
  "xorshift33 h = h XOR drop_bit 33 h"

definition fmix64 :: "64 word \<Rightarrow> 64 word" where
  "fmix64 h =
     (let h = xorshift33 h;
          h = h * 0xff51afd7ed558ccd;
          h = xorshift33 h;
          h = h * 0xc4ceb9fe1a85ec53
      in xorshift33 h)"

lemma xorshift33_involution: "xorshift33 (xorshift33 h) = h"
  by (rule bit_word_eqI) (auto simp: xorshift33_def bit_xor_iff bit_drop_bit_eq dest: bit_imp_le_length)

lemma mult_inverse_cancel:
  assumes b: "(a :: 64 word) * b = 1"
  shows "x * a = y * a \<longleftrightarrow> x = y"
proof
  assume "x * a = y * a"
  then have "x * (a * b) = y * (a * b)" by (simp only: mult.assoc [symmetric])
  then show "x = y" by (simp add: b)
qed simp

subsection \<open>Sizes\<close>

definition sketch_width :: "nat \<Rightarrow> nat" where
  "sketch_width reset_threshold = next_power_of_two (max ((reset_threshold * 2) mod 2 ^ 64 div 4) 256)"

text \<open>The cell of row \<open>i\<close> for a mixed hash: \<open>h1 + i * h2\<close> under the mask, in wrapping arithmetic.\<close>

definition sketch_index :: "64 word \<Rightarrow> 64 word \<Rightarrow> nat \<Rightarrow> nat" where
  "sketch_index msk hash i =
     (let mixed = fmix64 hash; h1 = mixed; h2 = drop_bit 32 mixed OR 1
      in unat ((h1 + of_nat i * h2) AND msk))"

subsection \<open>Rows of counters\<close>

text \<open>One counter per row is bumped; an index out of range would panic.\<close>

fun bump_rows :: "(nat \<Rightarrow> nat) \<Rightarrow> (nat \<Rightarrow> nat) \<Rightarrow> nat \<Rightarrow> nat list list \<Rightarrow> nat list list option" where
  "bump_rows add idx i [] = Some []"
| "bump_rows add idx i (row # rows) =
     do { c \<leftarrow> vec_get row (idx i);
          rows \<leftarrow> bump_rows add idx (Suc i) rows;
          Some (row[idx i := add c] # rows) }"

fun read_rows :: "(nat \<Rightarrow> nat) \<Rightarrow> nat \<Rightarrow> nat list list \<Rightarrow> nat list option" where
  "read_rows idx i [] = Some []"
| "read_rows idx i (row # rows) = do { c \<leftarrow> vec_get row (idx i); cs \<leftarrow> read_rows idx (Suc i) rows; Some (c # cs) }"

definition halve_rows :: "nat list list \<Rightarrow> nat list list" where
  "halve_rows rows = map (map (\<lambda>c. c div 2)) rows"

definition zero_rows :: "nat list list \<Rightarrow> nat list list" where
  "zero_rows rows = map (map (\<lambda>_. 0)) rows"

lemma bump_rows_Some:
  assumes "\<forall>row \<in> set rows. length row = w" "\<forall>j. idx j < w"
  shows "bump_rows add idx i rows = Some (map (\<lambda>(j, row). row[idx j := add (row ! idx j)]) (enumerate i rows))"
  using assms(1) by (induction rows arbitrary: i) (simp_all add: assms(2))

lemma read_rows_Some:
  assumes "\<forall>row \<in> set rows. length row = w" "\<forall>j. idx j < w"
  shows "read_rows idx i rows = Some (map (\<lambda>(j, row). row ! idx j) (enumerate i rows))"
  using assms(1) by (induction rows arbitrary: i) (simp_all add: assms(2))

subsection \<open>CountMinSketch of the key-based policy\<close>

record cms =
  cm_counters :: "nat list list"
  cm_mask :: "64 word"
  cm_increments :: nat
  cm_capacity :: nat

definition cms_new :: "nat \<Rightarrow> cms" where
  "cms_new reset_threshold =
     (let width = sketch_width reset_threshold
      in \<lparr>cm_counters = replicate 4 (replicate width 0), cm_mask = of_nat (width - 1), cm_increments = 0,
          cm_capacity = reset_threshold\<rparr>)"

definition cms_reset :: "cms \<Rightarrow> cms" where
  "cms_reset s = s\<lparr>cm_increments := 0, cm_counters := halve_rows (cm_counters s)\<rparr>"

definition cms_increment :: "('k \<Rightarrow> 64 word) \<Rightarrow> 'k \<Rightarrow> cms \<Rightarrow> cms option" where
  "cms_increment hasher key s =
     do { rows \<leftarrow> bump_rows (\<lambda>c. u64_add c 1) (sketch_index (cm_mask s) (hasher key)) 0 (cm_counters s);
          let s = s\<lparr>cm_counters := rows\<rparr>;
          let s = s\<lparr>cm_increments := u64_add (cm_increments s) 1\<rparr>;
          Some (if cm_increments s \<ge> cm_capacity s then cms_reset s else s) }"

definition cms_estimate :: "('k \<Rightarrow> 64 word) \<Rightarrow> 'k \<Rightarrow> cms \<Rightarrow> nat option" where
  "cms_estimate hasher key s =
     do { cs \<leftarrow> read_rows (sketch_index (cm_mask s) (hasher key)) 0 (cm_counters s);
          Some (foldl min u64_max cs) }"

definition cms_clear :: "cms \<Rightarrow> cms" where
  "cms_clear s = s\<lparr>cm_increments := 0, cm_counters := zero_rows (cm_counters s)\<rparr>"

subsection \<open>Sketch of the shard policies\<close>

record hsketch =
  hs_counters :: "nat list list"
  hs_mask :: "64 word"
  hs_increments :: nat
  hs_reset_threshold :: nat

definition hsketch_new :: "nat \<Rightarrow> hsketch" where
  "hsketch_new reset_threshold =
     (let width = sketch_width reset_threshold
      in \<lparr>hs_counters = replicate 4 (replicate width 0), hs_mask = of_nat (width - 1), hs_increments = 0,
          hs_reset_threshold = reset_threshold\<rparr>)"

definition hsketch_increment :: "64 word \<Rightarrow> hsketch \<Rightarrow> hsketch option" where
  "hsketch_increment hash s =
     do { rows \<leftarrow> bump_rows (\<lambda>c. min (c + 1) (2 ^ 32 - 1)) (sketch_index (hs_mask s) hash) 0 (hs_counters s);
          let s = s\<lparr>hs_counters := rows, hs_increments := u64_add (hs_increments s) 1\<rparr>;
          Some (if hs_increments s \<ge> hs_reset_threshold s
                then s\<lparr>hs_increments := 0, hs_counters := halve_rows (hs_counters s)\<rparr>
                else s) }"

definition hsketch_estimate :: "64 word \<Rightarrow> hsketch \<Rightarrow> nat option" where
  "hsketch_estimate hash s =
     do { cs \<leftarrow> read_rows (sketch_index (hs_mask s) hash) 0 (hs_counters s);
          Some (case cs of [] \<Rightarrow> 0 | c # cs \<Rightarrow> foldl min c cs) }"

definition hsketch_clear :: "hsketch \<Rightarrow> hsketch" where
  "hsketch_clear s = s\<lparr>hs_increments := 0, hs_counters := zero_rows (hs_counters s)\<rparr>"

subsection \<open>Well-formed sketches\<close>

text \<open>
  Four rows of a power-of-two width, the mask one less, every counter at most the threshold plus
  the increments since the last halving.
\<close>

definition rows_ok :: "64 word \<Rightarrow> nat \<Rightarrow> nat list list \<Rightarrow> bool" where
  "rows_ok m bound rows \<longleftrightarrow> length rows = 4 \<and> (\<forall>row \<in> set rows. length row = Suc (unat m) \<and> (\<forall>c \<in> set row. c \<le> bound))"

lemma sketch_index_less: "sketch_index m h i < Suc (unat m)"
proof -
  have "uint (x AND m) \<le> uint m" for x :: "64 word" by (simp add: unsigned_and_eq)
  then have "unat (x AND m) \<le> unat m" for x :: "64 word" unfolding unat_eq_nat_uint by (rule nat_mono)
  then show ?thesis by (simp add: sketch_index_def Let_def less_Suc_eq_le)
qed

lemma sketch_width_bounds: "0 < sketch_width n" "sketch_width n \<le> 2 ^ 63"
proof -
  let ?x = "max ((n * 2) mod 2 ^ 64 div 4) 256"
  obtain j where j: "next_power_of_two ?x = 2 ^ j" "?x \<le> 2 ^ j" by (rule next_power_of_twoE)
  show "0 < sketch_width n" unfolding sketch_width_def j(1) by simp
  have x: "?x \<le> 2 ^ 62" by simp
  have "next_power_of_two_from (2 ^ i) ?x \<le> 2 ^ 62" if "i \<le> 62" for i
    using that
  proof (induction "62 - i" arbitrary: i)
    case 0
    then have "i = 62" by simp
    with x show ?case by (subst next_power_of_two_from.simps) simp
  next
    case (Suc d)
    have "(2::nat) ^ i \<le> 2 ^ 62" using Suc.prems by (rule power_increasing) simp
    moreover have "next_power_of_two_from (2 ^ Suc i) ?x \<le> 2 ^ 62" using Suc by (intro Suc.hyps) simp_all
    ultimately show ?case by (subst next_power_of_two_from.simps) simp
  qed
  from this [of 0] show "sketch_width n \<le> 2 ^ 63" by (simp add: sketch_width_def next_power_of_two_def)
qed

lemma width_mask: "Suc (unat (of_nat (sketch_width n - 1) :: 64 word)) = sketch_width n"
proof -
  have "sketch_width n - 1 < 2 ^ LENGTH(64)" using sketch_width_bounds [of n] by simp
  then have "unat (of_nat (sketch_width n - 1) :: 64 word) = sketch_width n - 1" by (simp add: unat_of_nat)
  with sketch_width_bounds(1) [of n] show ?thesis by simp
qed

lemma rows_ok_new: "rows_ok (of_nat (sketch_width n - 1)) b (replicate 4 (replicate (sketch_width n) 0))"
  unfolding rows_ok_def width_mask by simp

lemma rows_ok_zero: "rows_ok m b rows \<Longrightarrow> rows_ok m b' (zero_rows rows)"
  by (auto simp: rows_ok_def zero_rows_def)

lemma rows_ok_halve: "rows_ok m b rows \<Longrightarrow> b \<le> 2 * b' + 1 \<Longrightarrow> rows_ok m b' (halve_rows rows)"
  by (fastforce simp: rows_ok_def halve_rows_def)

text \<open>What the rows say about a count per hash: no cell of a hash is below it.\<close>

definition rows_cover :: "64 word \<Rightarrow> nat list list \<Rightarrow> (64 word \<Rightarrow> nat) \<Rightarrow> bool" where
  "rows_cover m rows t \<longleftrightarrow> (\<forall>h. \<forall>i < length rows. t h \<le> rows ! i ! sketch_index m h i)"

lemma rows_bump:
  assumes ok: "rows_ok m b rows" and cov: "rows_cover m rows t" and add: "\<And>c. c \<le> b \<Longrightarrow> add c = Suc c"
  shows "\<exists>rows'. bump_rows add (sketch_index m h) 0 rows = Some rows' \<and> rows_ok m (Suc b) rows' \<and>
    rows_cover m rows' (t(h := Suc (t h)))"
proof -
  let ?rows' = "map (\<lambda>(j, row). row[sketch_index m h j := add (row ! sketch_index m h j)]) (enumerate 0 rows)"
  have len: "\<forall>row \<in> set rows. length row = Suc (unat m)" and bnd: "\<And>row c. row \<in> set rows \<Longrightarrow> c \<in> set row \<Longrightarrow> c \<le> b"
    using ok by (auto simp: rows_ok_def)
  have at: "?rows' ! i = (rows ! i)[sketch_index m h i := Suc (rows ! i ! sketch_index m h i)]" if "i < length rows" for i
  proof -
    have "rows ! i ! sketch_index m h i \<le> b" using that len sketch_index_less [of m h i] by (intro bnd [of "rows ! i"]) simp_all
    with that show ?thesis by (simp add: nth_enumerate_eq add)
  qed
  have "rows_ok m (Suc b) ?rows'" unfolding rows_ok_def
  proof (intro conjI ballI)
    show "length ?rows' = 4" using ok by (simp add: rows_ok_def)
    fix row assume "row \<in> set ?rows'"
    then obtain i where i: "i < length rows" "row = (rows ! i)[sketch_index m h i := Suc (rows ! i ! sketch_index m h i)]"
      by (metis (no_types, lifting) at in_set_conv_nth length_enumerate length_map)
    then show "length row = Suc (unat m)" using len by simp
    fix c assume "c \<in> set row"
    moreover have "rows ! i ! sketch_index m h i \<in> set (rows ! i)" using i(1) len sketch_index_less [of m h i] by simp
    ultimately show "c \<le> Suc b" using i bnd [of "rows ! i"] set_update_subset_insert [of "rows ! i"] by fastforce
  qed
  moreover have "rows_cover m ?rows' (t(h := Suc (t h)))" unfolding rows_cover_def
  proof (intro allI impI)
    fix g i assume "i < length ?rows'"
    then have i: "i < length rows" by simp
    have "t g \<le> rows ! i ! sketch_index m g i" "t h \<le> rows ! i ! sketch_index m h i" using cov i by (auto simp: rows_cover_def)
    moreover have "sketch_index m h i < length (rows ! i)" using i len sketch_index_less [of m h i] by simp
    ultimately show "(t(h := Suc (t h))) g \<le> ?rows' ! i ! sketch_index m g i"
      unfolding at [OF i] by (auto simp: nth_list_update)
  qed
  moreover have "bump_rows add (sketch_index m h) 0 rows = Some ?rows'"
    using len sketch_index_less by (intro bump_rows_Some [where w = "Suc (unat m)"]) auto
  ultimately show ?thesis by blast
qed

lemma rows_cover_halve:
  assumes "rows_ok m b rows" "rows_cover m rows t"
  shows "rows_cover m (halve_rows rows) (\<lambda>h. t h div 2)"
  unfolding rows_cover_def
proof (intro allI impI)
  fix h i assume "i < length (halve_rows rows)"
  then have i: "i < length rows" by (simp add: halve_rows_def)
  then have "length (rows ! i) = Suc (unat m)" using assms(1) by (simp add: rows_ok_def)
  with i sketch_index_less [of m h i] have "halve_rows rows ! i ! sketch_index m h i = rows ! i ! sketch_index m h i div 2"
    by (simp add: halve_rows_def)
  then show "t h div 2 \<le> halve_rows rows ! i ! sketch_index m h i"
    using assms(2) i by (simp add: rows_cover_def div_le_mono)
qed

lemma rows_read:
  assumes "rows_ok m b rows" "rows_cover m rows t"
  shows "\<exists>c cs. read_rows (sketch_index m h) 0 rows = Some (c # cs) \<and> (\<forall>x \<in> set (c # cs). t h \<le> x \<and> x \<le> b)"
proof -
  have len: "\<forall>row \<in> set rows. length row = Suc (unat m)" and l4: "length rows = 4" using assms(1) by (auto simp: rows_ok_def)
  let ?cs = "map (\<lambda>(j, row). row ! sketch_index m h j) (enumerate 0 rows)"
  have r: "read_rows (sketch_index m h) 0 rows = Some ?cs"
    using len sketch_index_less by (intro read_rows_Some [where w = "Suc (unat m)"]) auto
  have "\<forall>x \<in> set ?cs. t h \<le> x \<and> x \<le> b"
  proof
    fix x assume "x \<in> set ?cs"
    then obtain i where i: "i < length rows" "x = rows ! i ! sketch_index m h i" by (auto simp: in_set_enumerate_eq)
    have "sketch_index m h i < length (rows ! i)" using i len sketch_index_less [of m h i] by simp
    then have "x \<in> set (rows ! i)" using i by simp
    with i assms show "t h \<le> x \<and> x \<le> b" by (auto simp: rows_ok_def rows_cover_def)
  qed
  moreover obtain c cs where "?cs = c # cs" using l4 by (cases ?cs) (auto dest: arg_cong [where f = length])
  ultimately show ?thesis using r by metis
qed

lemma foldl_min_le: "foldl min a cs \<le> (a :: nat)"
proof (induction cs arbitrary: a)
  case (Cons c cs)
  from Cons.IH [of "min a c"] show ?case by simp
qed simp

lemma foldl_min_le_elem: "c \<in> set cs \<Longrightarrow> foldl min a cs \<le> (c :: nat)"
proof (induction cs arbitrary: a)
  case (Cons d cs)
  show ?case using foldl_min_le [of "min a d" cs] Cons by (cases "c = d") auto
qed simp

lemma foldl_min_ge: "n \<le> a \<Longrightarrow> \<forall>c \<in> set cs. n \<le> c \<Longrightarrow> n \<le> foldl min a (cs :: nat list)"
  by (induction cs arbitrary: a) auto

subsection \<open>A sketch never underestimates\<close>

text \<open>
  The count a sketch approximates: the number of times a hash was recorded, halved (rounding down)
  every time the sketch halves its counters.
\<close>

definition decayed_step :: "nat \<Rightarrow> 64 word \<Rightarrow> nat \<times> (64 word \<Rightarrow> nat) \<Rightarrow> nat \<times> (64 word \<Rightarrow> nat)" where
  "decayed_step threshold h st =
     (let n = Suc (fst st); t = (snd st)(h := Suc (snd st h))
      in if n \<ge> threshold then (0, \<lambda>x. t x div 2) else (n, t))"

definition decayed :: "nat \<Rightarrow> 64 word list \<Rightarrow> 64 word \<Rightarrow> nat" where
  "decayed threshold hs = snd (foldl (\<lambda>st h. decayed_step threshold h st) (0, \<lambda>_. 0) hs)"

fun record_all :: "('h \<Rightarrow> 's \<Rightarrow> 's option) \<Rightarrow> 'h list \<Rightarrow> 's \<Rightarrow> 's option" where
  "record_all rec [] s = Some s"
| "record_all rec (h # hs) s = do { s \<leftarrow> rec h s; record_all rec hs s }"

text \<open>
  The interface both sketches keep: a well-formed state that covers a count stays so, for the
  next decayed count, when a hash is recorded, and its estimate is at least the count.
\<close>

locale counting_sketch =
  fixes covers :: "'s \<Rightarrow> nat \<times> (64 word \<Rightarrow> nat) \<Rightarrow> bool"
    and threshold :: nat
    and record_hash :: "64 word \<Rightarrow> 's \<Rightarrow> 's option"
    and estimate :: "64 word \<Rightarrow> 's \<Rightarrow> nat option"
  assumes record_covers: "covers s st \<Longrightarrow> \<exists>s'. record_hash h s = Some s' \<and> covers s' (decayed_step threshold h st)"
    and estimate_covers: "covers s st \<Longrightarrow> \<exists>e. estimate h s = Some e \<and> snd st h \<le> e \<and> e \<le> 2 * threshold"
begin

lemma record_all_covers:
  "covers s st \<Longrightarrow> \<exists>s'. record_all record_hash hs s = Some s' \<and> covers s' (foldl (\<lambda>st h. decayed_step threshold h st) st hs)"
proof (induction hs arbitrary: s st)
  case (Cons h hs)
  from record_covers [OF Cons.prems, of h] obtain s1 where s1: "record_hash h s = Some s1" "covers s1 (decayed_step threshold h st)" by blast
  from Cons.IH [OF s1(2)] s1(1) show ?case by simp
qed simp

lemma never_underestimates:
  assumes "covers s (0, \<lambda>_. 0)"
  shows "\<exists>s' e. record_all record_hash hs s = Some s' \<and> estimate h s' = Some e \<and> decayed threshold hs h \<le> e \<and> e \<le> 2 * threshold"
proof -
  from record_all_covers [OF assms, of hs] obtain s' where
    s': "record_all record_hash hs s = Some s'" "covers s' (foldl (\<lambda>st h. decayed_step threshold h st) (0, \<lambda>_. 0) hs)" by blast
  from estimate_covers [OF s'(2), of h] s'(1) show ?thesis by (auto simp: decayed_def)
qed

end

text \<open>The sketch of the key-based policy.\<close>

definition cms_covers :: "nat \<Rightarrow> cms \<Rightarrow> nat \<times> (64 word \<Rightarrow> nat) \<Rightarrow> bool" where
  "cms_covers threshold s st \<longleftrightarrow>
     0 < threshold \<and> 2 * threshold < 2 ^ 64 \<and> cm_capacity s = threshold \<and> cm_increments s = fst st \<and> fst st < threshold \<and>
     rows_ok (cm_mask s) (threshold + fst st) (cm_counters s) \<and> rows_cover (cm_mask s) (cm_counters s) (snd st)"

lemma cms_record_covers:
  assumes c: "cms_covers thr s st"
  shows "\<exists>s'. cms_increment (\<lambda>h. h) h s = Some s' \<and> cms_covers thr s' (decayed_step thr h st)"
proof -
  let ?n = "fst st" let ?t = "(snd st)(h := Suc (snd st h))"
  have b: "0 < thr" "2 * thr < 2 ^ 64" "cm_capacity s = thr" "cm_increments s = ?n" "?n < thr" using c by (auto simp: cms_covers_def)
  have k: "rows_ok (cm_mask s) (thr + ?n) (cm_counters s)" "rows_cover (cm_mask s) (cm_counters s) (snd st)" using c by (auto simp: cms_covers_def)
  have "u64_add c 1 = Suc c" if "c \<le> thr + ?n" for c using that b by simp
  from rows_bump [OF k this, of h] obtain rows where
    r: "bump_rows (\<lambda>c. u64_add c 1) (sketch_index (cm_mask s) h) 0 (cm_counters s) = Some rows"
      "rows_ok (cm_mask s) (Suc (thr + ?n)) rows" "rows_cover (cm_mask s) rows ?t" by blast
  let ?s = "s\<lparr>cm_counters := rows, cm_increments := Suc ?n\<rparr>"
  have inc: "cms_increment (\<lambda>h. h) h s = Some (if Suc ?n \<ge> thr then cms_reset ?s else ?s)"
    using r(1) b by (simp add: cms_increment_def)
  show ?thesis
  proof (cases "Suc ?n \<ge> thr")
    case True
    then have "thr = Suc ?n" using b by simp
    then have "rows_ok (cm_mask s) thr (halve_rows rows)" using rows_ok_halve [OF r(2), of thr] by simp
    with rows_cover_halve [OF r(2,3)] True b inc show ?thesis
      by (simp add: cms_covers_def cms_reset_def decayed_step_def Let_def del: fun_upd_apply)
  next
    case False
    with r(2,3) b inc show ?thesis by (simp add: cms_covers_def decayed_step_def Let_def del: fun_upd_apply)
  qed
qed

lemma cms_estimate_covers:
  assumes c: "cms_covers thr s st"
  shows "\<exists>e. cms_estimate (\<lambda>h. h) h s = Some e \<and> snd st h \<le> e \<and> e \<le> 2 * thr"
proof -
  from c have k: "rows_ok (cm_mask s) (thr + fst st) (cm_counters s)" "rows_cover (cm_mask s) (cm_counters s) (snd st)"
    and b: "2 * thr < 2 ^ 64" "fst st < thr" by (auto simp: cms_covers_def)
  from rows_read [OF k, of h] obtain d ds where r: "read_rows (sketch_index (cm_mask s) h) 0 (cm_counters s) = Some (d # ds)"
    "\<forall>x \<in> set (d # ds). snd st h \<le> x \<and> x \<le> thr + fst st" by blast
  have "snd st h \<le> foldl min u64_max (d # ds)" using r(2) b by (intro foldl_min_ge) (auto simp: u64_max_def)
  moreover have "foldl min u64_max (d # ds) \<le> d" by (rule foldl_min_le_elem) simp
  ultimately show ?thesis using r b by (auto simp: cms_estimate_def)
qed

interpretation cms: counting_sketch "cms_covers threshold" threshold "cms_increment (\<lambda>h. h)" "cms_estimate (\<lambda>h. h)" for threshold
  by unfold_locales (rule cms_record_covers cms_estimate_covers, assumption)+

text \<open>The sketch of the shard policies: its counters saturate at \<^verbatim>\<open>u32::MAX\<close>, beyond what a threshold below \<^verbatim>\<open>2 ^ 31\<close> reaches.\<close>

definition hsketch_covers :: "nat \<Rightarrow> hsketch \<Rightarrow> nat \<times> (64 word \<Rightarrow> nat) \<Rightarrow> bool" where
  "hsketch_covers threshold s st \<longleftrightarrow>
     0 < threshold \<and> 2 * threshold < 2 ^ 32 \<and> hs_reset_threshold s = threshold \<and> hs_increments s = fst st \<and> fst st < threshold \<and>
     rows_ok (hs_mask s) (threshold + fst st) (hs_counters s) \<and> rows_cover (hs_mask s) (hs_counters s) (snd st)"

lemma hsketch_record_covers:
  assumes c: "hsketch_covers thr s st"
  shows "\<exists>s'. hsketch_increment h s = Some s' \<and> hsketch_covers thr s' (decayed_step thr h st)"
proof -
  let ?n = "fst st" let ?t = "(snd st)(h := Suc (snd st h))"
  have b: "0 < thr" "2 * thr < 2 ^ 32" "hs_reset_threshold s = thr" "hs_increments s = ?n" "?n < thr" using c by (auto simp: hsketch_covers_def)
  have k: "rows_ok (hs_mask s) (thr + ?n) (hs_counters s)" "rows_cover (hs_mask s) (hs_counters s) (snd st)" using c by (auto simp: hsketch_covers_def)
  have "min (c + 1) (2 ^ 32 - 1) = Suc c" if "c \<le> thr + ?n" for c using that b by simp
  from rows_bump [OF k this, of h] obtain rows where
    r: "bump_rows (\<lambda>c. min (c + 1) (2 ^ 32 - 1)) (sketch_index (hs_mask s) h) 0 (hs_counters s) = Some rows"
      "rows_ok (hs_mask s) (Suc (thr + ?n)) rows" "rows_cover (hs_mask s) rows ?t" by blast
  let ?s = "s\<lparr>hs_counters := rows, hs_increments := Suc ?n\<rparr>"
  have inc: "hsketch_increment h s =
      Some (if Suc ?n \<ge> thr then ?s\<lparr>hs_increments := 0, hs_counters := halve_rows rows\<rparr> else ?s)"
    using r(1) b by (simp add: hsketch_increment_def)
  show ?thesis
  proof (cases "Suc ?n \<ge> thr")
    case True
    then have "thr = Suc ?n" using b by simp
    then have "rows_ok (hs_mask s) thr (halve_rows rows)" using rows_ok_halve [OF r(2), of thr] by simp
    with rows_cover_halve [OF r(2,3)] True b inc show ?thesis
      by (simp add: hsketch_covers_def decayed_step_def Let_def del: fun_upd_apply)
  next
    case False
    with r(2,3) b inc show ?thesis by (simp add: hsketch_covers_def decayed_step_def Let_def del: fun_upd_apply)
  qed
qed

lemma hsketch_estimate_covers:
  assumes c: "hsketch_covers thr s st"
  shows "\<exists>e. hsketch_estimate h s = Some e \<and> snd st h \<le> e \<and> e \<le> 2 * thr"
proof -
  from c have k: "rows_ok (hs_mask s) (thr + fst st) (hs_counters s)" "rows_cover (hs_mask s) (hs_counters s) (snd st)"
    and b: "fst st < thr" by (auto simp: hsketch_covers_def)
  from rows_read [OF k, of h] obtain d ds where r: "read_rows (sketch_index (hs_mask s) h) 0 (hs_counters s) = Some (d # ds)"
    "\<forall>x \<in> set (d # ds). snd st h \<le> x \<and> x \<le> thr + fst st" by blast
  have "snd st h \<le> foldl min d ds" using r(2) by (intro foldl_min_ge) auto
  moreover have "foldl min d ds \<le> d" by (rule foldl_min_le)
  ultimately show ?thesis using r b by (auto simp: hsketch_estimate_def)
qed

interpretation hsketch: counting_sketch "hsketch_covers threshold" threshold hsketch_increment hsketch_estimate for threshold
  by unfold_locales (rule hsketch_record_covers hsketch_estimate_covers, assumption)+

subsection \<open>Properties\<close>

text \<open>
  The hash finalizer loses nothing: \<^verbatim>\<open>fmix64\<close> is a bijection of the 64-bit words, so two keys of a
  shard with different hashes keep different mixed hashes.
\<close>

theorem fmix64_bijective: "bij fmix64"
proof -
  have x: "xorshift33 a = xorshift33 b \<longleftrightarrow> a = b" for a b by (metis xorshift33_involution)
  have 1: "(0xff51afd7ed558ccd :: 64 word) * 0x4f74430c22a54005 = 1" by simp
  have 2: "(0xc4ceb9fe1a85ec53 :: 64 word) * 0x9cb4b2f8129337db = 1" by simp
  have "inj fmix64" by (rule injI) (simp only: fmix64_def Let_def x mult_inverse_cancel [OF 1] mult_inverse_cancel [OF 2])
  then show ?thesis by (simp add: bij_def finite_UNIV_inj_surj)
qed

text \<open>
  (C29) Frequency estimates. After any sequence of increments of a new sketch no operation has gone
  out of range, and the estimate of every hash is at least its decayed count (the number of its
  increments, halved whenever the sketch halved), and at most twice the reset threshold, as long as
  twice the threshold fits the counters: 64 bits in the sketch of the key-based policy, 32 bits in
  the one of the shard policy, whose counters saturate.
\<close>

theorem sketch_never_underestimates:
  assumes "0 < threshold" "2 * threshold < 2 ^ 64"
  shows "(\<exists>s e. record_all (cms_increment (\<lambda>h. h)) hs (cms_new threshold) = Some s \<and> cms_estimate (\<lambda>h. h) h s = Some e \<and>
      decayed threshold hs h \<le> e \<and> e \<le> 2 * threshold) \<and>
    (2 * threshold < 2 ^ 32 \<longrightarrow> (\<exists>s e. record_all hsketch_increment hs (hsketch_new threshold) = Some s \<and> hsketch_estimate h s = Some e \<and>
      decayed threshold hs h \<le> e \<and> e \<le> 2 * threshold))"
proof (intro conjI impI)
  have rows: "rows_cover m (replicate 4 (replicate w 0)) (\<lambda>_. 0)" for m w by (simp add: rows_cover_def)
  have "cms_covers threshold (cms_new threshold) (0, \<lambda>_. 0)"
    unfolding cms_covers_def cms_new_def Let_def using assms rows_ok_new [of threshold threshold] rows by simp
  then show "\<exists>s e. record_all (cms_increment (\<lambda>h. h)) hs (cms_new threshold) = Some s \<and> cms_estimate (\<lambda>h. h) h s = Some e \<and>
      decayed threshold hs h \<le> e \<and> e \<le> 2 * threshold" by (rule cms.never_underestimates)
  assume fits: "2 * threshold < 2 ^ 32"
  have "hsketch_covers threshold (hsketch_new threshold) (0, \<lambda>_. 0)"
    unfolding hsketch_covers_def hsketch_new_def Let_def using assms(1) fits rows_ok_new [of threshold threshold] rows by simp
  then show "\<exists>s e. record_all hsketch_increment hs (hsketch_new threshold) = Some s \<and> hsketch_estimate h s = Some e \<and>
      decayed threshold hs h \<le> e \<and> e \<le> 2 * threshold" by (rule hsketch.never_underestimates)
qed

theorem sketch_never_underestimates_witness:
  "\<exists>s e. record_all hsketch_increment [7, 8, 7] (hsketch_new 100) = Some s \<and> hsketch_estimate 7 s = Some e \<and> 2 \<le> e"
  using sketch_never_underestimates [of 100 "[7, 8, 7]" 7] by (auto simp: decayed_def decayed_step_def)

end
