(* ===== verification/Tinylfu.thy ===== *)
theory Tinylfu
  imports Slru Sketch
begin

section \<open>The W-TinyLFU policy\<close>

text \<open>
  \<^verbatim>\<open>cache/src/policy/tinylfu.rs\<close>: a window LRU list in front of a segmented LRU main space. A key that
  falls out of the window enters the main space if there is room, or if the frequency sketch ranks
  it at least as high as the main space's next victim; otherwise it is rejected. The keyed hasher of
  the sketch is the parameter \<open>hasher\<close>.
\<close>

record ('a, 'i, 'k) tinylfu =
  tl_window :: "('a, 'i, 'k) lru_list"
  tl_main :: "('a, 'i, 'k) slru_state"
  tl_sketch :: cms
  tl_window_target_cost :: nat
  tl_main_cache_cost :: nat
  tl_main_prot_capacity :: nat

definition tinylfu_new :: "('a, 'i, 'k) node_arena \<Rightarrow> nat \<Rightarrow> ('a, 'i, 'k) tinylfu" where
  "tinylfu_new A total_cache_cost_capacity =
     (let cms_reset_threshold = max ((total_cache_cost_capacity * 10) mod 2 ^ 64) 100;
          window_target_cost = (if total_cache_cost_capacity = 0 then 0 else max (share_01 total_cache_cost_capacity) 1);
          main_cache_cost = saturating_sub total_cache_cost_capacity window_target_cost;
          main_prot_capacity = (if main_cache_cost = 0 then 0 else saturating_sub main_cache_cost (max (share_20 main_cache_cost) 1))
      in \<lparr>tl_window = lru_new A, tl_main = slru_new_with_capacity A main_cache_cost, tl_sketch = cms_new cms_reset_threshold,
          tl_window_target_cost = window_target_cost, tl_main_cache_cost = main_cache_cost,
          tl_main_prot_capacity = main_prot_capacity\<rparr>)"

definition tinylfu_on_access ::
  "('a, 'i, 'k) node_arena \<Rightarrow> ('k \<Rightarrow> 64 word) \<Rightarrow> 'k \<Rightarrow> nat \<Rightarrow> ('a, 'i, 'k) tinylfu \<Rightarrow> ('a, 'i, 'k) tinylfu option" where
  "tinylfu_on_access A hasher key cost p =
     do { sketch \<leftarrow> cms_increment hasher key (tl_sketch p);
          let p = p\<lparr>tl_sketch := sketch\<rparr>;
          (case ll_lookup (tl_window p) key of
             Some index \<Rightarrow> do { window \<leftarrow> lru_touch_index A index cost (tl_window p); Some (p\<lparr>tl_window := window\<rparr>) }
           | None \<Rightarrow> do { (_, main) \<leftarrow> slru_touch A key cost (tl_main_prot_capacity p) (tl_main p); Some (p\<lparr>tl_main := main\<rparr>) }) }"

text \<open>The admission test of a candidate that leaves the window.\<close>

definition tinylfu_admit_candidate ::
  "('a, 'i, 'k) node_arena \<Rightarrow> ('k \<Rightarrow> 64 word) \<Rightarrow> 'k \<Rightarrow> nat \<Rightarrow> ('a, 'i, 'k) tinylfu \<Rightarrow> bool option" where
  "tinylfu_admit_candidate A hasher candidate_key candidate_cost p =
     (let main_cost = u64_add (lru_current_total_cost (probationary (tl_main p))) (lru_current_total_cost (protected (tl_main p)))
      in if u64_add main_cost candidate_cost \<le> tl_main_cache_cost p then Some True
         else do { main_victim_key_opt \<leftarrow> slru_peek_lru A (tl_main p);
                   (case main_victim_key_opt of
                      None \<Rightarrow> Some True
                    | Some main_victim_key \<Rightarrow>
                        do { c \<leftarrow> cms_estimate hasher candidate_key (tl_sketch p);
                             v \<leftarrow> cms_estimate hasher main_victim_key (tl_sketch p);
                             Some (c \<ge> v) }) })"

partial_function (option) tinylfu_window_loop ::
  "('a, 'i, 'k) node_arena \<Rightarrow> ('k \<Rightarrow> 64 word) \<Rightarrow> 'k list \<Rightarrow> ('a, 'i, 'k) tinylfu \<Rightarrow> ('k list \<times> ('a, 'i, 'k) tinylfu) option" where
  "tinylfu_window_loop A hasher rejected_candidates p =
     (if lru_current_total_cost (tl_window p) > tl_window_target_cost p
      then do { (popped, window) \<leftarrow> lru_pop_back A (tl_window p);
                let p = p\<lparr>tl_window := window\<rparr>;
                (case popped of
                   None \<Rightarrow> Some (rejected_candidates, p)
                 | Some (candidate_key, candidate_cost) \<Rightarrow>
                     do { admit \<leftarrow> tinylfu_admit_candidate A hasher candidate_key candidate_cost p;
                          (if admit
                           then do { main \<leftarrow> slru_admit_internal A candidate_key candidate_cost (tl_main p);
                                     tinylfu_window_loop A hasher rejected_candidates (p\<lparr>tl_main := main\<rparr>) }
                           else tinylfu_window_loop A hasher (rejected_candidates @ [candidate_key]) p) }) }
      else Some (rejected_candidates, p))"

definition tinylfu_on_admit ::
  "('a, 'i, 'k) node_arena \<Rightarrow> ('k \<Rightarrow> 64 word) \<Rightarrow> 'k \<Rightarrow> nat \<Rightarrow> ('a, 'i, 'k) tinylfu \<Rightarrow> ('k admission_decision \<times> ('a, 'i, 'k) tinylfu) option" where
  "tinylfu_on_admit A hasher key cost p =
     do { sketch \<leftarrow> cms_increment hasher key (tl_sketch p);
          let p = p\<lparr>tl_sketch := sketch\<rparr>;
          (in_main, main) \<leftarrow> slru_touch A key cost (tl_main_prot_capacity p) (tl_main p);
          let p = p\<lparr>tl_main := main\<rparr>;
          (if in_main then Some (Admit, p)
           else do { window \<leftarrow> lru_push_front A key cost (tl_window p);
                     (rejected, p) \<leftarrow> tinylfu_window_loop A hasher [] (p\<lparr>tl_window := window\<rparr>);
                     Some (if rejected = [] then Admit else AdmitAndEvict rejected, p) }) }"

definition tinylfu_on_remove :: "('a, 'i, 'k) node_arena \<Rightarrow> 'k \<Rightarrow> ('a, 'i, 'k) tinylfu \<Rightarrow> ('a, 'i, 'k) tinylfu option" where
  "tinylfu_on_remove A key p =
     do { (in_window, window) \<leftarrow> lru_remove A key (tl_window p);
          let p = p\<lparr>tl_window := window\<rparr>;
          (if in_window \<noteq> None then Some p
           else do { (in_prob, prob) \<leftarrow> lru_remove A key (probationary (tl_main p));
                     let p = p\<lparr>tl_main := tl_main p\<lparr>probationary := prob\<rparr>\<rparr>;
                     (if in_prob \<noteq> None then Some p
                      else do { (_, prot) \<leftarrow> lru_remove A key (protected (tl_main p));
                                Some (p\<lparr>tl_main := tl_main p\<lparr>protected := prot\<rparr>\<rparr>) }) }) }"

definition tinylfu_evict ::
  "('a, 'i, 'k) node_arena \<Rightarrow> nat \<Rightarrow> ('a, 'i, 'k) tinylfu \<Rightarrow> (('k list \<times> nat) \<times> ('a, 'i, 'k) tinylfu) option" where
  "tinylfu_evict A cost_to_free p =
     (if cost_to_free = 0 then Some (([], 0), p)
      else do { (r, main) \<leftarrow> slru_evict_items A cost_to_free (tl_main_prot_capacity p) (tl_main p); Some (r, p\<lparr>tl_main := main\<rparr>) })"

definition tinylfu_clear :: "('a, 'i, 'k) node_arena \<Rightarrow> ('a, 'i, 'k) tinylfu \<Rightarrow> ('a, 'i, 'k) tinylfu" where
  "tinylfu_clear A p = p\<lparr>tl_window := lru_clear A (tl_window p),
     tl_main := \<lparr>probationary = lru_clear A (probationary (tl_main p)), protected = lru_clear A (protected (tl_main p))\<rparr>,
     tl_sketch := cms_clear (tl_sketch p)\<rparr>"

definition tinylfu_policy :: "('a, 'i, 'k) node_arena \<Rightarrow> ('k \<Rightarrow> 64 word) \<Rightarrow> ('k, ('a, 'i, 'k) tinylfu) policy" where
  "tinylfu_policy A hasher = \<lparr>pol_on_access = tinylfu_on_access A hasher, pol_on_admit = tinylfu_on_admit A hasher,
     pol_on_remove = tinylfu_on_remove A, pol_evict = tinylfu_evict A, pol_clear = tinylfu_clear A\<rparr>"

subsection \<open>The window and the main space as two lists\<close>

definition main_rep :: "('a, 'i, 'k) node_arena \<Rightarrow> ('a, 'i, 'k) slru_state \<Rightarrow> ('k \<times> nat) list \<Rightarrow> bool" where
  "main_rep A s ms \<longleftrightarrow> (\<exists>ts ps. slru_rep A s ts ps \<and> ms = ts @ ps)"

definition sketch_ok :: "cms \<Rightarrow> bool" where
  "sketch_ok s \<longleftrightarrow> (\<exists>thr st. cms_covers thr s st)"

definition tl_rep :: "('a, 'i, 'k) node_arena \<Rightarrow> ('a, 'i, 'k) tinylfu \<Rightarrow> ('k \<times> nat) list \<Rightarrow> ('k \<times> nat) list \<Rightarrow> bool" where
  "tl_rep A p ws ms \<longleftrightarrow> lru_rep A (tl_window p) ws \<and> main_rep A (tl_main p) ms \<and> sketch_ok (tl_sketch p) \<and>
     keys ws \<inter> keys ms = {} \<and> costs ws + costs ms < 2 ^ 64"

lemma tl_repD:
  assumes "tl_rep A p ws ms"
  shows "lru_rep A (tl_window p) ws" "main_rep A (tl_main p) ms" "sketch_ok (tl_sketch p)"
    "keys ws \<inter> keys ms = {}" "costs ws + costs ms < 2 ^ 64"
  using assms by (simp_all add: tl_rep_def)

lemma main_rep_keyed: "main_rep A s ms \<Longrightarrow> keyed ms"
  using slru_repD(3) unfolding main_rep_def by blast

lemma tl_rep_keyed: "tl_rep A p ws ms \<Longrightarrow> keyed (ws @ ms)"
  unfolding keyed_keys using tl_repD(4) lru_rep_keyed [OF tl_repD(1)] main_rep_keyed [OF tl_repD(2)] by blast

lemma sketch_increment_ok:
  assumes "sketch_ok s"
  obtains s' where "cms_increment hasher k s = Some s'" "sketch_ok s'"
proof -
  have "cms_increment hasher k s = cms_increment (\<lambda>h. h) (hasher k) s" by (simp add: cms_increment_def)
  then show thesis using assms that cms_record_covers unfolding sketch_ok_def by metis
qed

lemma sketch_estimate_ok:
  assumes "sketch_ok s"
  obtains e where "cms_estimate hasher k s = Some e"
proof -
  have "cms_estimate hasher k s = cms_estimate (\<lambda>h. h) (hasher k) s" by (simp add: cms_estimate_def)
  then show thesis using assms that cms_estimate_covers unfolding sketch_ok_def by metis
qed

lemma main_cost:
  assumes "main_rep A s ms" "costs ms < 2 ^ 64"
  shows "u64_add (lru_current_total_cost (probationary s)) (lru_current_total_cost (protected s)) = costs ms"
proof -
  from assms(1) obtain ts ps where R: "slru_rep A s ts ps" and ms: "ms = ts @ ps" by (auto simp: main_rep_def)
  have "lru_current_total_cost (probationary s) = costs ps" "lru_current_total_cost (protected s) = costs ts"
    using slru_repD(1,2) [OF R] by simp_all
  with assms(2) ms show ?thesis by (simp add: add.commute)
qed

lemma main_peek:
  assumes "main_rep A s ms"
  shows "slru_peek_lru A s = Some (map_option fst (final ms))"
proof -
  from assms obtain ts ps where R: "slru_rep A s ts ps" and ms: "ms = ts @ ps" by (auto simp: main_rep_def)
  have "lru_tail_key A (probationary s) = Some (map_option fst (final ps))" "lru_tail_key A (protected s) = Some (map_option fst (final ts))"
    using slru_repD(1,2) [OF R] by (simp_all add: lru_tail_key_rep)
  then show ?thesis by (cases ps rule: rev_cases) (simp_all add: slru_peek_lru_def ms final_append final_Cons)
qed

lemma main_admit:
  assumes A: "arena_laws A" and R: "main_rep A s ms" and k: "k \<notin> keys ms" and fits: "costs ms + c < 2 ^ 64"
  shows "\<exists>s' ms'. slru_admit_internal A k c s = Some s' \<and> main_rep A s' ms' \<and> keys ms' = insert k (keys ms) \<and>
    costs ms' = c + costs ms \<and> map_of ms' = (map_of ms)(k \<mapsto> c)"
proof -
  from R obtain ts ps where R': "slru_rep A s ts ps" and ms: "ms = ts @ ps" by (auto simp: main_rep_def)
  note D = slru_repD [OF R']
  have nk: "k \<notin> keys ts" "k \<notin> keys ps" using k ms by simp_all
  have "costs (drop_key k ps) + c < 2 ^ 64" using fits ms nk by simp
  with A D(2) obtain prob where p: "lru_push_front A k c (probationary s) = Some prob" "lru_rep A prob ((k, c) # drop_key k ps)"
    by (rule lru_push_front_rep)
  have "\<not> lru_contains k (protected s)" using D(1) nk by (simp add: keys_def)
  then have "slru_admit_internal A k c s = Some (s\<lparr>probationary := prob\<rparr>)" using p(1) by (simp add: slru_admit_internal_def)
  moreover have "keyed (ts @ (k, c) # ps)" using D(3) nk by (auto simp: keys_def)
  then have "slru_rep A (s\<lparr>probationary := prob\<rparr>) ts ((k, c) # ps)"
    using p(2) D(1) nk fits ms by (intro slru_repI) simp_all
  then have "main_rep A (s\<lparr>probationary := prob\<rparr>) (ts @ (k, c) # ps)" by (auto simp: main_rep_def)
  moreover have "map_of (ts @ (k, c) # ps) = (map_of ms)(k \<mapsto> c)"
    using nk map_of_None_keys [of ts k] by (auto simp: ms fun_eq_iff map_add_def split: option.split)
  ultimately show ?thesis using ms by (intro exI [of _ "s\<lparr>probationary := prob\<rparr>"] exI [of _ "ts @ (k, c) # ps"]) simp
qed

subsection \<open>Emptying the window\<close>

lemma admit_candidate_total:
  assumes "tl_rep A p ws ms" "costs ms + c < 2 ^ 64"
  obtains b where "tinylfu_admit_candidate A hasher k c p = Some b"
proof -
  note D = tl_repD [OF assms(1)]
  obtain e where e: "cms_estimate hasher k (tl_sketch p) = Some e" using D(3) by (rule sketch_estimate_ok)
  have "\<exists>b. tinylfu_admit_candidate A hasher k c p = Some b"
  proof (cases "final ms")
    case None
    then show ?thesis using main_peek [OF D(2)] by (intro exI [of _ True]) (simp add: tinylfu_admit_candidate_def Let_def)
  next
    case (Some x)
    obtain f where "cms_estimate hasher (fst x) (tl_sketch p) = Some f" using D(3) by (rule sketch_estimate_ok)
    with Some e show ?thesis using main_peek [OF D(2)] by (auto simp: tinylfu_admit_candidate_def Let_def)
  qed
  with that show thesis by blast
qed

definition same_config :: "('a, 'i, 'k) tinylfu \<Rightarrow> ('a, 'i, 'k) tinylfu \<Rightarrow> bool" where
  "same_config p q \<longleftrightarrow> tl_window_target_cost p = tl_window_target_cost q \<and> tl_main_cache_cost p = tl_main_cache_cost q \<and>
     tl_main_prot_capacity p = tl_main_prot_capacity q"

lemma map_of_snoc_window:
  assumes "k \<notin> keys ws" "k \<notin> keys ms"
  shows "map_of ((ws @ [(k, c)]) @ ms) = (map_of (ws @ ms))(k \<mapsto> c)" "(map_of ((ws @ [(k, c)]) @ ms))(k := None) = map_of (ws @ ms)"
  using map_of_None_keys [of ws k] map_of_None_keys [of ms k] assms
  by (auto simp: fun_eq_iff map_add_def split: option.split)

lemma window_loop_ok:
  assumes A: "arena_laws A" and "tl_rep A p ws ms"
  shows "\<exists>rej p' ws' ms'. tinylfu_window_loop A hasher vs p = Some (vs @ rej, p') \<and> tl_rep A p' ws' ms' \<and> same_config p' p \<and>
    costs ws' \<le> tl_window_target_cost p \<and> distinct rej \<and> set rej \<subseteq> keys ws \<and>
    map_of (ws' @ ms') = map_of (ws @ ms) |` (- set rej) \<and> costs ws' + costs ms' \<le> costs ws + costs ms"
  using assms(2)
proof (induction ws arbitrary: p ms vs rule: rev_induct)
  case Nil
  have "lru_current_total_cost (tl_window p) = 0" using tl_repD(1) [OF Nil] by simp
  then have "tinylfu_window_loop A hasher vs p = Some (vs @ [], p)" by (simp add: tinylfu_window_loop.simps)
  with Nil show ?case by (intro exI [of _ "[]"] exI [of _ p] exI [of _ "[]"] exI [of _ ms]) (simp add: same_config_def)
next
  case (snoc x ws)
  obtain k c where x: "x = (k, c)" by force
  note D = tl_repD [OF snoc.prems]
  have cost: "lru_current_total_cost (tl_window p) = costs (ws @ [x])" using D(1) by (rule lru_cost_eq)
  have kd: "keyed (ws @ [x])" by (rule lru_rep_keyed [OF D(1)])
  have k: "k \<notin> keys ws" "k \<notin> keys ms" using kd D(4) by (auto simp: x keyed_keys keys_def simp del: keyed_append)
  show ?case
  proof (cases "costs (ws @ [x]) > tl_window_target_cost p")
    case False
    then have "tinylfu_window_loop A hasher vs p = Some (vs @ [], p)" by (simp add: tinylfu_window_loop.simps cost)
    with snoc.prems False show ?thesis
      by (intro exI [of _ "[]"] exI [of _ p] exI [of _ "ws @ [x]"] exI [of _ ms]) (simp add: same_config_def)
  next
    case True
    from A D(1) obtain win where w: "lru_pop_back A (tl_window p) = Some (final (ws @ [x]), win)" "lru_rep A win (butlast (ws @ [x]))"
      by (rule lru_pop_back_rep)
    let ?p = "p\<lparr>tl_window := win\<rparr>"
    have r: "tl_rep A ?p ws ms" using w(2) D by (auto simp: tl_rep_def)
    have fits: "costs ms + c < 2 ^ 64" using D(5) x by simp
    from r fits obtain b where b: "tinylfu_admit_candidate A hasher k c ?p = Some b" by (rule admit_candidate_total)
    from main_admit [OF A D(2) k(2) fits] obtain main ms1 where m: "slru_admit_internal A k c (tl_main p) = Some main" "main_rep A main ms1"
      "keys ms1 = insert k (keys ms)" "costs ms1 = c + costs ms" "map_of ms1 = (map_of ms)(k \<mapsto> c)" by blast
    have step: "tinylfu_window_loop A hasher vs p =
        (if b then tinylfu_window_loop A hasher vs (?p\<lparr>tl_main := main\<rparr>) else tinylfu_window_loop A hasher (vs @ [k]) ?p)"
      using True w(1) b m(1) by (simp add: tinylfu_window_loop.simps [of A hasher vs p] cost x)
    note mo = map_of_snoc_window [OF k, of c]
    show ?thesis
    proof (cases b)
      case True
      have "keys ws \<inter> keys ms1 = {}" using D(4) k m(3) x by auto
      then have "tl_rep A (?p\<lparr>tl_main := main\<rparr>) ws ms1" using r m D(5) x by (auto simp: tl_rep_def)
      from snoc.IH [OF this, of vs] obtain rej p' ws' ms' where h:
        "tinylfu_window_loop A hasher vs (?p\<lparr>tl_main := main\<rparr>) = Some (vs @ rej, p')" "tl_rep A p' ws' ms'" "same_config p' (?p\<lparr>tl_main := main\<rparr>)"
        "costs ws' \<le> tl_window_target_cost (?p\<lparr>tl_main := main\<rparr>)" "distinct rej" "set rej \<subseteq> keys ws"
        "map_of (ws' @ ms') = map_of (ws @ ms1) |` (- set rej)" "costs ws' + costs ms' \<le> costs ws + costs ms1" by blast
      have "map_of (ws @ ms1) = map_of ((ws @ [x]) @ ms)"
        unfolding x mo(1) using k map_of_None_keys [of ws k] m(5) by (auto simp: fun_eq_iff map_add_def split: option.split)
      with h(7) have h7: "map_of (ws' @ ms') = map_of ((ws @ [x]) @ ms) |` (- set rej)" by simp
      show ?thesis
        by (intro exI [of _ rej] exI [of _ p'] exI [of _ ws'] exI [of _ ms'])
          (use h(1-6,8) h7 step True m(4) x in \<open>auto simp: same_config_def simp del: map_of_append append_assoc\<close>)
    next
      case False
      from snoc.IH [OF r, of "vs @ [k]"] obtain rej p' ws' ms' where h:
        "tinylfu_window_loop A hasher (vs @ [k]) ?p = Some ((vs @ [k]) @ rej, p')" "tl_rep A p' ws' ms'" "same_config p' ?p"
        "costs ws' \<le> tl_window_target_cost ?p" "distinct rej" "set rej \<subseteq> keys ws"
        "map_of (ws' @ ms') = map_of (ws @ ms) |` (- set rej)" "costs ws' + costs ms' \<le> costs ws + costs ms" by blast
      have "map_of (ws @ ms) |` (- set rej) = map_of ((ws @ [x]) @ ms) |` (- set (k # rej))"
        unfolding x mo(2) [symmetric] by (auto simp: restrict_map_def fun_eq_iff simp del: map_of_append append_assoc)
      with h(7) have h7: "map_of (ws' @ ms') = map_of ((ws @ [x]) @ ms) |` (- set (k # rej))" by simp
      show ?thesis
        by (intro exI [of _ "k # rej"] exI [of _ p'] exI [of _ ws'] exI [of _ ms'])
          (use h(1-6,8) h7 step False k x in \<open>auto simp: same_config_def simp del: map_of_append append_assoc\<close>)
    qed
  qed
qed

subsection \<open>The contract\<close>

lemma evicted_beside:
  assumes e: "evicted (map_of ms) vs f (map_of us)" and k: "keys ws \<inter> keys ms = {}"
  shows "evicted (map_of (ws @ ms)) vs f (map_of (ws @ us))"
proof -
  from e have sub: "set vs \<subseteq> dom (map_of ms)" and d: "distinct vs" and u: "map_of us = map_of ms |` (- set vs)"
    and f: "f = (\<Sum>v \<leftarrow> vs. the (map_of ms v))" by (auto simp: evicted_def)
  have dm: "dom (map_of ms) = keys ms" by (simp add: dom_map_of_conv_image_fst keys_def)
  have w: "map_of ws v = None" if "v \<in> set vs" for v
    unfolding map_of_None_keys using that sub dm k by auto
  have "(\<Sum>v \<leftarrow> vs. the (map_of (ws @ ms) v)) = f" unfolding f
    by (intro arg_cong [where f = sum_list] map_cong refl) (simp add: w map_add_def)
  moreover have "map_of (ws @ us) = map_of (ws @ ms) |` (- set vs)"
    using w by (auto simp: fun_eq_iff u map_add_def restrict_map_def split: option.split)
  moreover have "set vs \<subseteq> dom (map_of (ws @ ms))" using sub by auto
  ultimately show ?thesis using d by (simp add: evicted_def)
qed

definition tinylfu_tracks :: "('a, 'i, 'k) node_arena \<Rightarrow> ('a, 'i, 'k) tinylfu \<Rightarrow> ('k \<rightharpoonup> nat) \<Rightarrow> bool" where
  "tinylfu_tracks A p m \<longleftrightarrow> arena_laws A \<and> (\<exists>ws ms. tl_rep A p ws ms \<and> m = map_of (ws @ ms))"

lemma tinylfu_tracksI: "arena_laws A \<Longrightarrow> tl_rep A p ws ms \<Longrightarrow> m = map_of (ws @ ms) \<Longrightarrow> tinylfu_tracks A p m"
  by (auto simp: tinylfu_tracks_def)

lemma tinylfu_tracksE:
  assumes "tinylfu_tracks A p m"
  obtains ws ms where "arena_laws A" "tl_rep A p ws ms" "m = map_of (ws @ ms)" "total_cost m = costs ws + costs ms" "dom m = keys ws \<union> keys ms"
proof -
  from assms obtain ws ms where "arena_laws A" and R: "tl_rep A p ws ms" and m: "m = map_of (ws @ ms)" by (auto simp: tinylfu_tracks_def)
  moreover have "total_cost m = costs ws + costs ms" using total_map_of [OF tl_rep_keyed [OF R]] m by simp
  moreover have "dom m = keys ws \<union> keys ms" by (auto simp: m dom_map_of_conv_image_fst keys_def)
  ultimately show thesis using that by blast
qed

lemma tinylfu_tracks_finite: "tinylfu_tracks A p m \<Longrightarrow> finite (dom m)"
  by (auto simp: tinylfu_tracks_def finite_dom_map_of simp del: map_of_append)

lemma map_of_put_front: "map_of ((k, c) # drop_key k xs) = (map_of xs)(k \<mapsto> c)"
  by (rule ext) simp

lemma map_of_append_upd_right: "k \<notin> keys ws \<Longrightarrow> map_of ms' = (map_of ms)(k \<mapsto> c) \<Longrightarrow> map_of (ws @ ms') = (map_of (ws @ ms))(k \<mapsto> c)"
  using map_of_None_keys [of ws k] by (auto simp: fun_eq_iff map_add_def split: option.split)

text \<open>A touch of the main space.\<close>

lemma main_touch:
  assumes A: "arena_laws A" and R: "main_rep A s ms" and fits: "costs ms + c < 2 ^ 64"
  shows "\<exists>s' ms'. slru_touch A k c cap s = Some (k \<in> keys ms, s') \<and> main_rep A s' ms' \<and>
    ms' = (if k \<in> keys ms then (k, c) # drop_key k ms else ms)"
proof -
  from R obtain ts ps where R': "slru_rep A s ts ps" and ms: "ms = ts @ ps" by (auto simp: main_rep_def)
  from slru_touch_ok [OF A R', of c k cap] fits ms obtain s' ts' ps' where
    "slru_touch A k c cap s = Some (k \<in> keys ms, s')" "slru_rep A s' ts' ps'"
    "ts' @ ps' = (if k \<in> keys ms then (k, c) # drop_key k ms else ms)" by (auto simp: keys_def)
  then show ?thesis unfolding main_rep_def by metis
qed

lemma tinylfu_access_tracks:
  assumes t: "tinylfu_tracks A p m" and fits: "total_cost m + c < 2 ^ 64"
  shows "\<exists>p'. tinylfu_on_access A hasher k c p = Some p' \<and> tinylfu_tracks A p' (if k \<in> dom m then m(k \<mapsto> c) else m)"
proof -
  from t obtain ws ms where A: "arena_laws A" and R: "tl_rep A p ws ms" and m: "m = map_of (ws @ ms)"
    and tot: "total_cost m = costs ws + costs ms" and d: "dom m = keys ws \<union> keys ms" by (rule tinylfu_tracksE)
  note D = tl_repD [OF R]
  obtain sk where sk: "cms_increment hasher k (tl_sketch p) = Some sk" "sketch_ok sk" using D(3) by (rule sketch_increment_ok)
  have le: "costs (drop_key k x) \<le> costs x" for x :: "('c \<times> nat) list" by (rule costs_drop_key_le)
  show ?thesis
  proof (cases "ll_lookup (tl_window p) k")
    case (Some i)
    then have k: "k \<in> keys ws" using lru_lookup_iff [OF D(1), of k] by (simp add: keys_def)
    have "costs (drop_key k ws) + c < 2 ^ 64" using fits tot le [of ws] by simp
    with A D(1) Some obtain win where w: "lru_touch_index A i c (tl_window p) = Some win" "lru_rep A win ((k, c) # drop_key k ws)"
      by (rule lru_touch_index_rep)
    let ?p = "p\<lparr>tl_sketch := sk, tl_window := win\<rparr>"
    have "tl_rep A ?p ((k, c) # drop_key k ws) ms" unfolding tl_rep_def using w(2) D(2,4) sk(2) k fits tot le [of ws] by auto
    moreover have "m(k \<mapsto> c) = map_of (((k, c) # drop_key k ws) @ ms)"
      using map_of_put_front [of k c ws] by (auto simp: m fun_eq_iff map_add_def split: option.split)
    ultimately have "tinylfu_tracks A ?p (m(k \<mapsto> c))" by (rule tinylfu_tracksI [OF A])
    moreover have "tinylfu_on_access A hasher k c p = Some ?p" using sk(1) Some w(1) by (simp add: tinylfu_on_access_def)
    ultimately show ?thesis using k d by auto
  next
    case None
    then have k: "k \<notin> keys ws" using lru_lookup_iff [OF D(1), of k] by (simp add: keys_def)
    have "costs ms + c < 2 ^ 64" using fits tot by simp
    from main_touch [OF A D(2) this, of k "tl_main_prot_capacity p"] obtain s' ms' where
      s: "slru_touch A k c (tl_main_prot_capacity p) (tl_main p) = Some (k \<in> keys ms, s')" "main_rep A s' ms'"
        "ms' = (if k \<in> keys ms then (k, c) # drop_key k ms else ms)" by blast
    let ?p = "p\<lparr>tl_sketch := sk, tl_main := s'\<rparr>"
    have "keys ms' = keys ms" using s(3) by auto
    moreover have "costs ws + costs ms' < 2 ^ 64" using s(3) fits tot D(5) le [of ms] by auto
    ultimately have "tl_rep A ?p ws ms'" using D(1,4) sk(2) s(2) by (simp add: tl_rep_def)
    moreover have "(if k \<in> dom m then m(k \<mapsto> c) else m) = map_of (ws @ ms')"
    proof (cases "k \<in> keys ms")
      case True
      then have "map_of (ws @ ms') = m(k \<mapsto> c)"
        unfolding m by (intro map_of_append_upd_right [OF k]) (simp add: s(3) map_of_put_front del: map_of.simps)
      with True d show ?thesis by simp
    next
      case False
      with k d s(3) m show ?thesis by simp
    qed
    ultimately have "tinylfu_tracks A ?p (if k \<in> dom m then m(k \<mapsto> c) else m)" by (rule tinylfu_tracksI [OF A])
    moreover have "tinylfu_on_access A hasher k c p = Some ?p" using sk(1) None s(1) by (simp add: tinylfu_on_access_def)
    ultimately show ?thesis by blast
  qed
qed

lemma tinylfu_remove_tracks:
  assumes t: "tinylfu_tracks A p m"
  shows "\<exists>p'. tinylfu_on_remove A k p = Some p' \<and> tinylfu_tracks A p' (m(k := None))"
proof -
  from t obtain ws ms where A: "arena_laws A" and R: "tl_rep A p ws ms" and m: "m = map_of (ws @ ms)" by (rule tinylfu_tracksE)
  note D = tl_repD [OF R]
  have le: "costs (drop_key k x) \<le> costs x" for x :: "('c \<times> nat) list" by (rule costs_drop_key_le)
  have mk: "m(k := None) = map_of (drop_key k ws @ drop_key k ms)"
    unfolding m by (simp only: map_of_drop_key_fun [symmetric] drop_key_append)
  from A D(1) obtain win where w: "lru_remove A k (tl_window p) = Some (map_of ws k, win)" "lru_rep A win (drop_key k ws)" by (rule lru_remove_rep)
  from D(2) obtain ts ps where S: "slru_rep A (tl_main p) ts ps" and ms: "ms = ts @ ps" by (auto simp: main_rep_def)
  from A slru_repD(2) [OF S] obtain prob where pb: "lru_remove A k (probationary (tl_main p)) = Some (map_of ps k, prob)" "lru_rep A prob (drop_key k ps)"
    by (rule lru_remove_rep)
  from A slru_repD(1) [OF S] obtain prot where pt: "lru_remove A k (protected (tl_main p)) = Some (map_of ts k, prot)" "lru_rep A prot (drop_key k ts)"
    by (rule lru_remove_rep)
  let ?p1 = "p\<lparr>tl_window := win\<rparr>"
  let ?p2 = "?p1\<lparr>tl_main := tl_main p\<lparr>probationary := prob\<rparr>\<rparr>"
  let ?p3 = "?p1\<lparr>tl_main := tl_main p\<lparr>probationary := prob, protected := prot\<rparr>\<rparr>"
  have fin: "tinylfu_tracks A p' (m(k := None))" if "lru_rep A (tl_window p') (drop_key k ws)" "main_rep A (tl_main p') (drop_key k ms)"
    "tl_sketch p' = tl_sketch p" for p'
  proof (rule tinylfu_tracksI [OF A _ mk])
    show "tl_rep A p' (drop_key k ws) (drop_key k ms)" unfolding tl_rep_def
      using that D(3,4,5) le [of ws] le [of ms] by auto
  qed
  have S2: "main_rep A (tl_main p') (drop_key k ms)"
    if "lru_rep A (protected (tl_main p')) (drop_key k ts)" "lru_rep A (probationary (tl_main p')) (drop_key k ps)" for p' :: "('a, 'b, 'c) tinylfu"
    unfolding main_rep_def ms using that slru_repD(3,4) [OF S] le [of ts] le [of ps]
    by (intro exI [of _ "drop_key k ts"] exI [of _ "drop_key k ps"] conjI slru_repI) auto
  consider (win) "k \<in> keys ws" | (prob) "k \<notin> keys ws" "k \<in> keys ps" | (rest) "k \<notin> keys ws" "k \<notin> keys ps" by blast
  then show ?thesis
  proof cases
    case win
    then obtain c where "map_of ws k = Some c" by (rule map_of_keysE)
    then have "tinylfu_on_remove A k p = Some ?p1" using w(1) by (simp add: tinylfu_on_remove_def)
    moreover have "k \<notin> keys ms" using win D(4) by auto
    ultimately show ?thesis using fin [of ?p1] w(2) D(2) by simp
  next
    case prob
    from prob(2) obtain c where "map_of ps k = Some c" by (rule map_of_keysE)
    then have "tinylfu_on_remove A k p = Some ?p2" using w(1) pb(1) prob(1) by (simp add: tinylfu_on_remove_def map_of_None_keys [THEN iffD2])
    moreover have "k \<notin> keys ts" using prob(2) slru_repD(3) [OF S] by (auto simp: keyed_keys simp del: keyed_append)
    then have "lru_rep A (protected (tl_main ?p2)) (drop_key k ts)" using slru_repD(1) [OF S] by simp
    ultimately show ?thesis using fin [of ?p2] S2 [of ?p2] w(2) pb(2) by simp
  next
    case rest
    then have "tinylfu_on_remove A k p = Some ?p3" using w(1) pb(1) pt(1) by (simp add: tinylfu_on_remove_def map_of_None_keys [THEN iffD2])
    then show ?thesis using fin [of ?p3] S2 [of ?p3] w(2) pb(2) pt(2) by simp
  qed
qed

lemma victims_of_rejected: "victims_of (if rej = [] then Admit else AdmitAndEvict rej) = set rej"
  by simp

lemma tinylfu_admit_tracks:
  assumes t: "tinylfu_tracks A p m" and fits: "total_cost m + c < 2 ^ 64"
  shows "\<exists>d p' m'. tinylfu_on_admit A hasher k c p = Some (d, p') \<and> tinylfu_tracks A p' m' \<and> total_cost m' \<le> total_cost m + c \<and>
    dom m' \<inter> victims_of d = {} \<and> dom m' \<union> victims_of d = insert k (dom m)"
proof -
  from t obtain ws ms where A: "arena_laws A" and R: "tl_rep A p ws ms" and m: "m = map_of (ws @ ms)"
    and tot: "total_cost m = costs ws + costs ms" and d: "dom m = keys ws \<union> keys ms" by (rule tinylfu_tracksE)
  note D = tl_repD [OF R]
  have fin: "finite (dom m)" by (rule tinylfu_tracks_finite [OF t])
  obtain sk where sk: "cms_increment hasher k (tl_sketch p) = Some sk" "sketch_ok sk" using D(3) by (rule sketch_increment_ok)
  have le: "costs (drop_key k x) \<le> costs x" for x :: "('c \<times> nat) list" by (rule costs_drop_key_le)
  have "costs ms + c < 2 ^ 64" using fits tot by simp
  from main_touch [OF A D(2) this, of k "tl_main_prot_capacity p"] obtain s' ms' where
    s: "slru_touch A k c (tl_main_prot_capacity p) (tl_main p) = Some (k \<in> keys ms, s')" "main_rep A s' ms'"
      "ms' = (if k \<in> keys ms then (k, c) # drop_key k ms else ms)" by blast
  show ?thesis
  proof (cases "k \<in> keys ms")
    case True
    let ?p = "p\<lparr>tl_sketch := sk, tl_main := s'\<rparr>"
    have kw: "k \<notin> keys ws" using True D(4) by auto
    have "keys ms' = keys ms" "costs ws + costs ms' < 2 ^ 64" using s(3) True fits tot le [of ms] by auto
    then have "tl_rep A ?p ws ms'" using D(1,4) sk(2) s(2) by (simp add: tl_rep_def)
    moreover have "m(k \<mapsto> c) = map_of (ws @ ms')"
      unfolding m by (intro map_of_append_upd_right [OF kw, symmetric]) (simp add: s(3) True map_of_put_front del: map_of.simps)
    ultimately have "tinylfu_tracks A ?p (m(k \<mapsto> c))" by (rule tinylfu_tracksI [OF A])
    moreover have "tinylfu_on_admit A hasher k c p = Some (Admit, ?p)" using sk(1) s(1) True by (simp add: tinylfu_on_admit_def)
    ultimately show ?thesis using fin by (intro put_admit) auto
  next
    case False
    then have ms': "ms' = ms" using s(3) by simp
    have "costs (drop_key k ws) + c < 2 ^ 64" using fits tot le [of ws] by simp
    with A D(1) obtain win where w: "lru_push_front A k c (tl_window p) = Some win" "lru_rep A win ((k, c) # drop_key k ws)"
      by (rule lru_push_front_rep)
    let ?p = "p\<lparr>tl_sketch := sk, tl_main := s', tl_window := win\<rparr>" and ?ws = "(k, c) # drop_key k ws"
    have r: "tl_rep A ?p ?ws ms" unfolding tl_rep_def using w(2) s(2) ms' sk(2) D(4) False fits tot le [of ws] by auto
    from window_loop_ok [OF A r, of hasher "[]"] obtain rej p' ws' ms'' where
      h: "tinylfu_window_loop A hasher [] ?p = Some (rej, p')" "tl_rep A p' ws' ms''" "set rej \<subseteq> keys ?ws"
        "map_of (ws' @ ms'') = map_of (?ws @ ms) |` (- set rej)" "costs ws' + costs ms'' \<le> costs ?ws + costs ms" by auto
    let ?d = "if rej = [] then Admit else AdmitAndEvict rej"
    have ad: "tinylfu_on_admit A hasher k c p = Some (?d, p')" using sk(1) s(1) False w(1) h(1) by (simp add: tinylfu_on_admit_def)
    have dm: "dom (map_of (?ws @ ms)) = insert k (dom m)" using d by (auto simp: dom_map_of_conv_image_fst keys_def)
    have "dom (map_of (ws' @ ms'')) = insert k (dom m) - set rej" unfolding h(4) dom_restrict dm by blast
    moreover have "set rej \<subseteq> insert k (dom m)" using h(3) d by auto
    moreover have "total_cost (map_of (ws' @ ms'')) = costs ws' + costs ms''" using total_map_of [OF tl_rep_keyed [OF h(2)]] by simp
    moreover have "costs ?ws + costs ms \<le> total_cost m + c" using tot le [of ws] by simp
    ultimately show ?thesis using ad tinylfu_tracksI [OF A h(2) refl] h(5) victims_of_rejected [of rej]
      by (intro exI [of _ ?d] exI [of _ p'] exI [of _ "map_of (ws' @ ms'')"]) auto
  qed
qed

lemma tinylfu_evict_ok:
  assumes A: "arena_laws A" and R: "tl_rep A p ws ms"
  shows "\<exists>p' ms'. tinylfu_evict A n p = Some ((map fst (reap n (rev ms)), costs (reap n (rev ms))), p') \<and> tl_rep A p' ws ms' \<and>
    ms' = rev (unreaped n (rev ms))"
proof (cases "n = 0")
  case True
  then show ?thesis using R by (simp add: tinylfu_evict_def)
next
  case False
  note D = tl_repD [OF R]
  from D(2) obtain ts ps where S: "slru_rep A (tl_main p) ts ps" and ms: "ms = ts @ ps" by (auto simp: main_rep_def)
  from slru_evict_items_ok [OF A S, of n "tl_main_prot_capacity p"] obtain s' ts' ps' where
    e: "slru_evict_items A n (tl_main_prot_capacity p) (tl_main p) = Some ((map fst (reap n (rev ms)), costs (reap n (rev ms))), s')"
      "slru_rep A s' ts' ps'" "ts' @ ps' = rev (unreaped n (rev ms))" unfolding ms by blast
  let ?ms = "rev (unreaped n (rev ms))"
  have "keys ?ms \<subseteq> keys ms" unfolding keys_def using reap_unreaped [of n "rev ms"] by (metis Un_upper2 image_mono set_append set_rev)
  moreover have "costs ?ms \<le> costs ms" using costs_unreaped_le [of n "rev ms"] by simp
  moreover have "main_rep A s' ?ms" unfolding main_rep_def using e(2) e(3) [symmetric] by blast
  ultimately have "tl_rep A (p\<lparr>tl_main := s'\<rparr>) ws ?ms" unfolding tl_rep_def using D(1,3,4,5) by auto
  then show ?thesis using False e(1) by (simp add: tinylfu_evict_def)
qed

lemma tinylfu_evict_tracks:
  assumes t: "tinylfu_tracks A p m"
  shows "\<exists>vs f p' m'. tinylfu_evict A n p = Some ((vs, f), p') \<and> tinylfu_tracks A p' m' \<and> evicted m vs f m'"
proof -
  from t obtain ws ms where A: "arena_laws A" and R: "tl_rep A p ws ms" and m: "m = map_of (ws @ ms)" by (rule tinylfu_tracksE)
  let ?r = "reap n (rev ms)" and ?u = "rev (unreaped n (rev ms))"
  from tinylfu_evict_ok [OF A R, of n] obtain p' where e: "tinylfu_evict A n p = Some ((map fst ?r, costs ?r), p')" "tl_rep A p' ws ?u" by blast
  have "evicted (map_of ms) (map fst ?r) (costs ?r) (map_of ?u)" by (rule reap_rev_evicted [OF main_rep_keyed [OF tl_repD(2) [OF R]]])
  then have "evicted m (map fst ?r) (costs ?r) (map_of (ws @ ?u))" unfolding m by (rule evicted_beside) (use tl_repD(4) [OF R] in simp)
  then show ?thesis using e tinylfu_tracksI [OF A e(2) refl] by blast
qed


lemma sketch_clear_ok: "sketch_ok s \<Longrightarrow> sketch_ok (cms_clear s)"
proof -
  assume "sketch_ok s"
  then obtain thr st where c: "cms_covers thr s st" by (auto simp: sketch_ok_def)
  then have "cms_covers thr (cms_clear s) (0, \<lambda>_. 0)"
    unfolding cms_covers_def by (auto simp: cms_clear_def rows_ok_def rows_cover_def zero_rows_def)
  then show "sketch_ok (cms_clear s)" by (auto simp: sketch_ok_def)
qed

lemma sketch_new_ok: "0 < threshold \<Longrightarrow> 2 * threshold < 2 ^ 64 \<Longrightarrow> sketch_ok (cms_new threshold)"
  unfolding sketch_ok_def cms_covers_def cms_new_def Let_def
  using rows_ok_new [of threshold threshold]
  by (intro exI [of _ threshold] exI [of _ "(0, \<lambda>_. 0)"]) (simp add: rows_cover_def)

lemma tinylfu_clear_tracks:
  assumes "tinylfu_tracks A p m"
  shows "tinylfu_tracks A (tinylfu_clear A p) Map.empty"
proof -
  from assms obtain ws ms where A: "arena_laws A" and R: "tl_rep A p ws ms" by (auto simp: tinylfu_tracks_def)
  have "slru_rep A (tl_main (tinylfu_clear A p)) [] []"
    using A by (intro slru_repI) (simp_all add: tinylfu_clear_def lru_clear_rep)
  then have "main_rep A (tl_main (tinylfu_clear A p)) []" by (auto simp: main_rep_def)
  moreover have "sketch_ok (cms_clear (tl_sketch p))" using tl_repD(3) [OF R] by (rule sketch_clear_ok)
  ultimately have "tl_rep A (tinylfu_clear A p) [] []" using A by (simp add: tl_rep_def tinylfu_clear_def lru_clear_rep)
  then show ?thesis by (rule tinylfu_tracksI [OF A]) simp
qed

interpretation tinylfu: cache_policy "tinylfu_tracks A" "tinylfu_on_access A hasher" "tinylfu_on_admit A hasher" "tinylfu_on_remove A"
    "tinylfu_evict A" "tinylfu_clear A"
  for A :: "('a, 'i, 'k) node_arena" and hasher :: "'k \<Rightarrow> 64 word"
proof unfold_locales
  fix p :: "('a, 'i, 'k) tinylfu" and m :: "'k \<rightharpoonup> nat" and k :: 'k and c n :: nat
  assume t: "tinylfu_tracks A p m"
  show fin: "finite (dom m)" using t by (rule tinylfu_tracks_finite)
  show "\<exists>p' m'. tinylfu_on_access A hasher k c p = Some p' \<and> tinylfu_tracks A p' m' \<and> dom m' = dom m \<and> total_cost m' \<le> total_cost m + c"
    if "total_cost m + c < 2 ^ 64"
  proof -
    let ?m = "if k \<in> dom m then m(k \<mapsto> c) else m"
    have "dom ?m = dom m" "total_cost ?m \<le> total_cost m + c" using total_upd_le [OF fin, of k c] by auto
    with tinylfu_access_tracks [OF t that, of hasher k] show ?thesis by blast
  qed
qed (rule tinylfu_remove_tracks tinylfu_evict_tracks tinylfu_clear_tracks tinylfu_admit_tracks, assumption+)+

subsection \<open>Properties\<close>

lemma tinylfu_new_rep:
  assumes "arena_laws A" "capacity * 20 < 2 ^ 64"
  shows "tl_rep A (tinylfu_new A capacity) [] []"
proof -
  have "(capacity * 10) mod 2 ^ 64 = capacity * 10" using assms(2) by simp
  then have "sketch_ok (tl_sketch (tinylfu_new A capacity))"
    using assms(2) by (simp add: tinylfu_new_def Let_def sketch_new_ok max_def)
  moreover have "main_rep A (tl_main (tinylfu_new A capacity)) []"
    using slru_new_rep [OF assms(1)] by (auto simp: main_rep_def tinylfu_new_def Let_def slru_new_with_capacity_def)
  moreover have "lru_rep A (tl_window (tinylfu_new A capacity)) []" using assms(1) by (simp add: tinylfu_new_def Let_def lru_new_rep)
  ultimately show ?thesis by (simp add: tl_rep_def)
qed

text \<open>
  (C28) W-TinyLFU under any history of calls, for every keyed hasher and every capacity whose sketch
  threshold fits: no call panics or loops forever, every admission names only tracked keys or the
  key itself as rejected, every eviction names distinct tracked keys and reports their exact cost.
\<close>

theorem tinylfu_policy_in_step:
  assumes "arena_laws A" "capacity * 20 < 2 ^ 64" "sum_list (map call_cost cs) < 2 ^ 64"
  shows "\<exists>as s'. policy_run (tinylfu_policy A hasher) cs (tinylfu_new A capacity) = Some (as, s') \<and> in_step answer_ok {} cs as"
proof -
  have t: "tinylfu_tracks A (tinylfu_new A capacity) Map.empty"
    by (rule tinylfu_tracksI [OF assms(1) tinylfu_new_rep [OF assms(1,2)]]) simp
  from assms(3) tinylfu.run_in_step [OF t, of cs hasher] show ?thesis by (fastforce simp: tinylfu_policy_def)
qed

theorem tinylfu_policy_in_step_witness:
  "\<exists>as s'. policy_run (tinylfu_policy vec_arena of_nat) [OnAdmit (1::nat) 2, OnAdmit 2 3, OnAccess 1 2, Evict 1] (tinylfu_new vec_arena 10) =
      Some (as, s') \<and> in_step answer_ok {} [OnAdmit 1 2, OnAdmit 2 3, OnAccess 1 2, Evict 1] as"
  using tinylfu_policy_in_step [OF vec_arena_laws, of 10 "[OnAdmit (1::nat) 2, OnAdmit 2 3, OnAccess 1 2, Evict 1]" of_nat] by auto

definition tl_total_cost :: "('a, 'i, 'k) tinylfu \<Rightarrow> nat" where
  "tl_total_cost p = lru_current_total_cost (tl_window p) + lru_current_total_cost (probationary (tl_main p)) +
     lru_current_total_cost (protected (tl_main p))"

lemma tl_total_cost_rep: "tl_rep A p ws ms \<Longrightarrow> tl_total_cost p = costs ws + costs ms"
  by (auto simp: tl_rep_def main_rep_def tl_total_cost_def slru_rep_def)

lemma tinylfu_admit_window:
  assumes A: "arena_laws A" and R: "tl_rep A p ws ms" and k: "k \<notin> keys ms" and fits: "costs ws + costs ms + c < 2 ^ 64"
  shows "\<exists>d p' ws' ms'. tinylfu_on_admit A hasher k c p = Some (d, p') \<and> tl_rep A p' ws' ms' \<and> same_config p' p \<and>
    costs ws' \<le> tl_window_target_cost p"
proof -
  note D = tl_repD [OF R]
  obtain sk where sk: "cms_increment hasher k (tl_sketch p) = Some sk" "sketch_ok sk" using D(3) by (rule sketch_increment_ok)
  have le: "costs (drop_key k ws) \<le> costs ws" by (rule costs_drop_key_le)
  have "costs ms + c < 2 ^ 64" using fits by simp
  from main_touch [OF A D(2) this, of k "tl_main_prot_capacity p"] k obtain s' where
    s: "slru_touch A k c (tl_main_prot_capacity p) (tl_main p) = Some (False, s')" "main_rep A s' ms" by auto
  have "costs (drop_key k ws) + c < 2 ^ 64" using fits le by simp
  with A D(1) obtain win where w: "lru_push_front A k c (tl_window p) = Some win" "lru_rep A win ((k, c) # drop_key k ws)"
    by (rule lru_push_front_rep)
  let ?p = "p\<lparr>tl_sketch := sk, tl_main := s', tl_window := win\<rparr>" and ?ws = "(k, c) # drop_key k ws"
  have r: "tl_rep A ?p ?ws ms" unfolding tl_rep_def using w(2) s(2) sk(2) D(4) k fits le by auto
  from window_loop_ok [OF A r, of hasher "[]"] obtain rej p' ws' ms' where
    h: "tinylfu_window_loop A hasher [] ?p = Some (rej, p')" "tl_rep A p' ws' ms'" "same_config p' ?p"
      "costs ws' \<le> tl_window_target_cost ?p" by auto
  have "tinylfu_on_admit A hasher k c p = Some (if rej = [] then Admit else AdmitAndEvict rej, p')"
    using sk(1) s(1) w(1) h(1) by (simp add: tinylfu_on_admit_def)
  then show ?thesis using h(2-4) by (auto simp: same_config_def)
qed

text \<open>
  An eviction takes keys of the main space only, least recent first, and pays whatever the main
  space can pay; the window is never touched, so an eviction that asks for more than the main space
  holds frees less than it was asked for.
\<close>

theorem tinylfu_evicts_main_only:
  assumes "arena_laws A" "tl_rep A p ws ms"
  shows "\<exists>keep vs p'. ms = keep @ rev vs \<and> tinylfu_evict A n p = Some ((map fst vs, costs vs), p') \<and>
           tl_rep A p' ws keep \<and> min n (costs ms) \<le> costs vs"
proof -
  let ?r = "reap n (rev ms)"
  have "ms = rev (unreaped n (rev ms)) @ rev ?r" by (metis reap_unreaped rev_append rev_rev_ident)
  moreover have "min n (costs ms) \<le> costs ?r"
    using reap_enough [of n "rev ms"] reap_unreaped [of n "rev ms"] by (metis append_Nil2 costs_rev min.coboundedI1 min.cobounded2)
  ultimately show ?thesis using tinylfu_evict_ok [OF assms, of n] by blast
qed

theorem tinylfu_evicts_main_only_witness:
  "\<exists>p p' :: (((nat, nat) node option) list, nat, nat) tinylfu. tl_rep vec_arena p [] [] \<and>
     tinylfu_evict vec_arena 5 p = Some (([], 0), p') \<and> tl_rep vec_arena p' [] []"
proof -
  have r: "tl_rep vec_arena (tinylfu_new (vec_arena :: (((nat, nat) node option) list, nat, nat) node_arena) 100) [] []"
    by (rule tinylfu_new_rep [OF vec_arena_laws]) simp
  from tinylfu_evicts_main_only [OF vec_arena_laws r, of 5] r show ?thesis by auto
qed

text \<open>
  The cost bound of a shard. An admission of a key that is not in the main space leaves the window
  within its target, and evicting the overrun above the capacity then brings the tracked cost back
  within the capacity, whatever the costs of the items were.
\<close>

theorem tinylfu_admit_then_evict:
  assumes "arena_laws A" "tl_rep A p ws ms" "k \<notin> keys ms" "costs ws + costs ms + c < 2 ^ 64"
    "capacity = tl_window_target_cost p + tl_main_cache_cost p"
  shows "\<exists>d p1 vs f p2. tinylfu_on_admit A hasher k c p = Some (d, p1) \<and>
           lru_current_total_cost (tl_window p1) \<le> tl_window_target_cost p \<and>
           tinylfu_evict A (tl_total_cost p1 - capacity) p1 = Some ((vs, f), p2) \<and> tl_total_cost p2 \<le> capacity"
proof -
  from tinylfu_admit_window [OF assms(1-4), of hasher] obtain d p1 ws' ms' where
    a: "tinylfu_on_admit A hasher k c p = Some (d, p1)" "tl_rep A p1 ws' ms'" "costs ws' \<le> tl_window_target_cost p" by blast
  from tinylfu_evict_ok [OF assms(1) a(2), of "tl_total_cost p1 - capacity"] obtain p2 ms2 where
    e: "tinylfu_evict A (tl_total_cost p1 - capacity) p1 =
        Some ((map fst (reap (tl_total_cost p1 - capacity) (rev ms')), costs (reap (tl_total_cost p1 - capacity) (rev ms'))), p2)"
      "tl_rep A p2 ws' ms2" "ms2 = rev (unreaped (tl_total_cost p1 - capacity) (rev ms'))" by blast
  let ?n = "tl_total_cost p1 - capacity"
  have "costs (reap ?n (rev ms')) + costs (unreaped ?n (rev ms')) = costs ms'"
    using reap_unreaped [of ?n "rev ms'"] by (metis costs_append costs_rev)
  moreover have "?n \<le> costs (reap ?n (rev ms')) \<or> unreaped ?n (rev ms') = []" by (rule reap_enough)
  ultimately have "tl_total_cost p2 \<le> capacity"
    using tl_total_cost_rep [OF a(2)] tl_total_cost_rep [OF e(2)] e(3) a(3) assms(5) by auto
  moreover have "lru_current_total_cost (tl_window p1) = costs ws'" using tl_repD(1) [OF a(2)] by (rule lru_cost_eq)
  ultimately show ?thesis using a e(1) by auto
qed

theorem tinylfu_admit_then_evict_witness:
  "\<exists>d p1 vs f p2. tinylfu_on_admit vec_arena of_nat (1::nat) 70 (tinylfu_new vec_arena 50) = Some (d, p1) \<and>
     tinylfu_evict vec_arena (tl_total_cost p1 - 50) p1 = Some ((vs, f), p2) \<and> tl_total_cost p2 \<le> 50"
proof -
  let ?p = "tinylfu_new (vec_arena :: (((nat, nat) node option) list, nat, nat) node_arena) 50"
  have r: "tl_rep vec_arena ?p [] []" by (rule tinylfu_new_rep [OF vec_arena_laws]) simp
  have "share_01 50 \<le> 1" by (simp add: share_01_def f64_share_def f64_div_round_def round53_def bit_length.simps)
  then have c: "50 = tl_window_target_cost ?p + tl_main_cache_cost ?p"
    by (simp add: tinylfu_new_def Let_def saturating_sub_def max_def)
  show ?thesis using tinylfu_admit_then_evict [OF vec_arena_laws r _ _ c, of 1 70 of_nat] by auto
qed

end
