(* ===== verification/Slab.thy ===== *)
theory Slab
  imports Dll Policy
begin

unbundle bit_operations_syntax

section \<open>Intrusive lists over one slab\<close>

text \<open>
  \<^verbatim>\<open>Slab\<close> of \<^verbatim>\<open>cache/src/hpolicy.rs\<close>: three doubly linked lists threaded through parallel vectors, a
  free list of slots, and a generation per slot. A node id is \<^verbatim>\<open>generation << 32 | slot\<close>. The slots and
  generations are the values of \<^verbatim>\<open>u32\<close>s, the sentinel \<^verbatim>\<open>NIL\<close> is \<^verbatim>\<open>u32::MAX\<close>.

  The representation \<open>slab_rep s segs D\<close> reads the lists back as \<open>segs\<close>, from head to tail; \<open>D\<close> holds
  the slots that are allocated and in no list, as a slot is between \<^verbatim>\<open>unlink\<close> and \<^verbatim>\<open>push_front\<close>.
\<close>

subsection \<open>Node ids\<close>

definition no_node :: nat where
  "no_node = 2 ^ 64 - 1"

definition nil32 :: nat where
  "nil32 = 2 ^ 32 - 1"

definition split :: "nat \<Rightarrow> nat \<times> nat" where
  "split node = (take_bit 32 (drop_bit 32 node), take_bit 32 node)"

definition join :: "nat \<Rightarrow> nat \<Rightarrow> nat" where
  "join generation slot = push_bit 32 generation OR slot"

lemma join_plus: "slot < 2 ^ 32 \<Longrightarrow> join generation slot = generation * 2 ^ 32 + slot"
proof -
  assume s: "slot < 2 ^ 32"
  have "n < 32" if "bit slot n" for n using s that by (metis bit_take_bit_iff take_bit_nat_eq_self)
  then have "push_bit 32 generation AND slot = 0"
    by (intro bit_eqI) (simp add: bit_and_iff bit_push_bit_iff, meson leD)
  then have "push_bit 32 generation OR slot = push_bit 32 generation + slot" by (simp add: disjunctive_add_eq_or)
  then show ?thesis by (simp add: join_def push_bit_eq_mult)
qed

lemma split_join: "generation < 2 ^ 32 \<Longrightarrow> slot < 2 ^ 32 \<Longrightarrow> split (join generation slot) = (generation, slot)"
  by (simp add: split_def join_plus take_bit_eq_mod drop_bit_eq_div)

lemma join_inj: "g < 2 ^ 32 \<Longrightarrow> i < 2 ^ 32 \<Longrightarrow> g' < 2 ^ 32 \<Longrightarrow> i' < 2 ^ 32 \<Longrightarrow> join g i = join g' i' \<longleftrightarrow> g = g' \<and> i = i'"
  by (metis prod.inject split_join)

lemma split_eq: "node < 2 ^ 64 \<Longrightarrow> split node = (g, i) \<Longrightarrow> join g i = node"
proof -
  assume n: "node < 2 ^ 64" and s: "split node = (g, i)"
  have "node div 2 ^ 32 < 2 ^ 32" using n by (simp add: less_mult_imp_div_less)
  with s have "g = node div 2 ^ 32" "i = node mod 2 ^ 32" by (auto simp: split_def take_bit_eq_mod drop_bit_eq_div)
  then show ?thesis by (simp add: join_plus)
qed

subsection \<open>The slab\<close>

record link =
  lk_prev :: nat
  lk_next :: nat
  lk_seg :: nat
  lk_generation :: nat

record seg_list =
  sg_head :: nat
  sg_tail :: nat
  sg_cost :: nat

definition empty_list :: seg_list where
  "empty_list = \<lparr>sg_head = nil32, sg_tail = nil32, sg_cost = 0\<rparr>"

definition free_seg :: nat where
  "free_seg = 255"

record 'p slab =
  sb_links :: "link list"
  sb_payload :: "'p option list"
  sb_costs :: "nat list"
  sb_free :: "nat list"
  sb_lists :: "seg_list list"

definition slab_new :: "'p slab" where
  "slab_new = \<lparr>sb_links = [], sb_payload = [], sb_costs = [], sb_free = [], sb_lists = replicate 3 empty_list\<rparr>"

definition vec_set :: "nat \<Rightarrow> 'a \<Rightarrow> 'a list \<Rightarrow> 'a list option" where
  "vec_set i v xs = (if i < length xs then Some (xs[i := v]) else None)"

definition slab_alloc :: "'p \<Rightarrow> nat \<Rightarrow> 'p slab \<Rightarrow> (nat \<times> 'p slab) option" where
  "slab_alloc p cost s =
     (if sb_free s \<noteq> []
      then do { let i = last (sb_free s);
                payload \<leftarrow> vec_set i (Some p) (sb_payload s);
                cs \<leftarrow> vec_set i cost (sb_costs s);
                Some (i, s\<lparr>sb_free := butlast (sb_free s), sb_payload := payload, sb_costs := cs\<rparr>) }
      else let links = sb_links s @ [\<lparr>lk_prev = nil32, lk_next = nil32, lk_seg = free_seg, lk_generation = 0\<rparr>]
           in Some ((length links - 1) mod 2 ^ 32,
                    s\<lparr>sb_links := links, sb_payload := sb_payload s @ [Some p], sb_costs := sb_costs s @ [cost]\<rparr>))"

definition slab_release :: "nat \<Rightarrow> 'p slab \<Rightarrow> ('p \<times> 'p slab) option" where
  "slab_release i s =
     do { l \<leftarrow> vec_get (sb_links s) i;
          let l = l\<lparr>lk_seg := free_seg, lk_generation := (lk_generation l + 1) mod 2 ^ 32\<rparr>;
          payload \<leftarrow> vec_get (sb_payload s) i;
          p \<leftarrow> payload;
          Some (p, s\<lparr>sb_links := (sb_links s)[i := l], sb_free := sb_free s @ [i], sb_payload := (sb_payload s)[i := None]\<rparr>) }"

definition slab_resolve :: "nat \<Rightarrow> 'p slab \<Rightarrow> nat option" where
  "slab_resolve node s =
     (let (generation, slot) = split node
      in do { l \<leftarrow> vec_get (sb_links s) slot;
              (if lk_seg l \<noteq> free_seg \<and> lk_generation l = generation then Some slot else None) })"

definition slab_id :: "nat \<Rightarrow> 'p slab \<Rightarrow> nat option" where
  "slab_id i s = do { l \<leftarrow> vec_get (sb_links s) i; Some (join (lk_generation l) i) }"

definition slab_push_front :: "nat \<Rightarrow> nat \<Rightarrow> 'p slab \<Rightarrow> 'p slab option" where
  "slab_push_front seg i s =
     do { list \<leftarrow> vec_get (sb_lists s) seg;
          let old = sg_head list;
          c \<leftarrow> vec_get (sb_costs s) i;
          let list = \<lparr>sg_head = i, sg_tail = (if sg_tail list = nil32 then i else sg_tail list), sg_cost = u64_add (sg_cost list) c\<rparr>;
          l \<leftarrow> vec_get (sb_links s) i;
          let links = (sb_links s)[i := l\<lparr>lk_prev := nil32, lk_next := old, lk_seg := seg\<rparr>];
          links \<leftarrow> (if old \<noteq> nil32
                    then do { o' \<leftarrow> vec_get links old; Some (links[old := o'\<lparr>lk_prev := i\<rparr>]) }
                    else Some links);
          Some (s\<lparr>sb_lists := (sb_lists s)[seg := list], sb_links := links\<rparr>) }"

definition slab_unlink :: "nat \<Rightarrow> 'p slab \<Rightarrow> 'p slab option" where
  "slab_unlink i s =
     do { l \<leftarrow> vec_get (sb_links s) i;
          let prev = lk_prev l; let next = lk_next l; let seg = lk_seg l;
          s \<leftarrow> (if prev \<noteq> nil32
                then do { p \<leftarrow> vec_get (sb_links s) prev; Some (s\<lparr>sb_links := (sb_links s)[prev := p\<lparr>lk_next := next\<rparr>]\<rparr>) }
                else do { list \<leftarrow> vec_get (sb_lists s) seg; Some (s\<lparr>sb_lists := (sb_lists s)[seg := list\<lparr>sg_head := next\<rparr>]\<rparr>) });
          s \<leftarrow> (if next \<noteq> nil32
                then do { n \<leftarrow> vec_get (sb_links s) next; Some (s\<lparr>sb_links := (sb_links s)[next := n\<lparr>lk_prev := prev\<rparr>]\<rparr>) }
                else do { list \<leftarrow> vec_get (sb_lists s) seg; Some (s\<lparr>sb_lists := (sb_lists s)[seg := list\<lparr>sg_tail := prev\<rparr>]\<rparr>) });
          list \<leftarrow> vec_get (sb_lists s) seg;
          c \<leftarrow> vec_get (sb_costs s) i;
          Some (s\<lparr>sb_lists := (sb_lists s)[seg := list\<lparr>sg_cost := u64_sub (sg_cost list) c\<rparr>]\<rparr>) }"

definition slab_move_front :: "nat \<Rightarrow> nat \<Rightarrow> 'p slab \<Rightarrow> 'p slab option" where
  "slab_move_front seg i s =
     do { list \<leftarrow> vec_get (sb_lists s) seg;
          l \<leftarrow> vec_get (sb_links s) i;
          (if sg_head list \<noteq> i \<or> lk_seg l \<noteq> seg
           then do { s \<leftarrow> slab_unlink i s; slab_push_front seg i s }
           else Some s) }"

definition slab_set_cost :: "nat \<Rightarrow> nat \<Rightarrow> 'p slab \<Rightarrow> 'p slab option" where
  "slab_set_cost i cost s =
     do { l \<leftarrow> vec_get (sb_links s) i;
          old \<leftarrow> vec_get (sb_costs s) i;
          list \<leftarrow> vec_get (sb_lists s) (lk_seg l);
          Some (s\<lparr>sb_costs := (sb_costs s)[i := cost],
                  sb_lists := (sb_lists s)[lk_seg l := list\<lparr>sg_cost := u64_add (u64_sub (sg_cost list) old) cost\<rparr>]\<rparr>) }"

definition slab_clear :: "'p slab \<Rightarrow> 'p slab" where
  "slab_clear s = s\<lparr>sb_links := [], sb_payload := [], sb_costs := [], sb_free := [], sb_lists := replicate 3 empty_list\<rparr>"

subsection \<open>The slab as three lists\<close>

definition ptr :: "nat \<Rightarrow> nat option" where
  "ptr x = (if x = nil32 then None else Some x)"

lemma nil_ptr_simps [simp]: "ptr nil32 = None" "x \<noteq> nil32 \<Longrightarrow> ptr x = Some x" "ptr x = None \<longleftrightarrow> x = nil32" "ptr x = Some y \<longleftrightarrow> x = y \<and> y \<noteq> nil32"
  by (auto simp: ptr_def)

definition slab_next :: "'p slab \<Rightarrow> nat \<Rightarrow> nat option" where
  "slab_next s i = ptr (lk_next (sb_links s ! i))"

definition slab_prev :: "'p slab \<Rightarrow> nat \<Rightarrow> nat option" where
  "slab_prev s i = ptr (lk_prev (sb_links s ! i))"

definition slab_gen :: "'p slab \<Rightarrow> nat \<Rightarrow> nat" where
  "slab_gen s i = (if i < length (sb_links s) then lk_generation (sb_links s ! i) else 0)"

text \<open>What a slot holds: its payload and its cost, if it is in use.\<close>

definition slot_info :: "'p slab \<Rightarrow> nat \<Rightarrow> ('p \<times> nat) option" where
  "slot_info s i = (if i < length (sb_payload s) then map_option (\<lambda>p. (p, sb_costs s ! i)) (sb_payload s ! i) else None)"

definition slab_shape :: "'p slab \<Rightarrow> (nat \<Rightarrow> nat list) \<Rightarrow> nat set \<Rightarrow> bool" where
  "slab_shape s segs D \<longleftrightarrow>
     length (sb_payload s) = length (sb_links s) \<and> length (sb_costs s) = length (sb_links s) \<and> length (sb_links s) \<le> nil32 \<and>
     length (sb_lists s) = 3 \<and> distinct (sb_free s) \<and> (\<forall>q. q \<ge> 3 \<longrightarrow> segs q = []) \<and>
     (\<forall>q r. q \<noteq> r \<longrightarrow> set (segs q) \<inter> set (segs r) = {}) \<and> (\<Union>q. set (segs q)) \<inter> D = {} \<and>
     (\<Union>q. set (segs q)) \<union> D = dom (slot_info s) \<and> set (sb_free s) = {..<length (sb_links s)} - dom (slot_info s) \<and>
     (\<forall>i \<in> set (sb_free s). lk_seg (sb_links s ! i) = free_seg) \<and>
     (\<forall>q. \<forall>i \<in> set (segs q). lk_seg (sb_links s ! i) = q) \<and> (\<forall>l \<in> set (sb_links s). lk_generation l < 2 ^ 32)"

definition slot_cost :: "'p slab \<Rightarrow> nat \<Rightarrow> nat" where
  "slot_cost s i = (case slot_info s i of None \<Rightarrow> 0 | Some (p, c) \<Rightarrow> c)"

definition info_costs :: "('i \<rightharpoonup> 'p \<times> nat) \<Rightarrow> 'i \<rightharpoonup> nat" where
  "info_costs f i = map_option snd (f i)"

definition slab_total :: "'p slab \<Rightarrow> nat" where
  "slab_total s = total_cost (info_costs (slot_info s))"

lemma dom_info_costs [simp]: "dom (info_costs f) = dom f"
  by (auto simp: info_costs_def)

lemma info_costs_simps [simp]: "info_costs (f(i \<mapsto> (p, c))) = (info_costs f)(i \<mapsto> c)" "info_costs (f(i := None)) = (info_costs f)(i := None)"
  "info_costs Map.empty = Map.empty"
  by (auto simp: info_costs_def fun_eq_iff)

definition list_rep :: "'p slab \<Rightarrow> nat \<Rightarrow> nat list \<Rightarrow> bool" where
  "list_rep s q xs \<longleftrightarrow> dll (slab_next s) (slab_prev s) (ptr (sg_head (sb_lists s ! q))) (ptr (sg_tail (sb_lists s ! q))) xs \<and>
     sg_cost (sb_lists s ! q) = sum_list (map (slot_cost s) xs)"

definition slab_rep :: "'p slab \<Rightarrow> (nat \<Rightarrow> nat list) \<Rightarrow> nat set \<Rightarrow> bool" where
  "slab_rep s segs D \<longleftrightarrow> slab_shape s segs D \<and> (\<forall>q<3. list_rep s q (segs q)) \<and> slab_total s < 2 ^ 64"

lemma slab_repD:
  assumes "slab_rep s segs D"
  shows "length (sb_payload s) = length (sb_links s)" "length (sb_costs s) = length (sb_links s)" "length (sb_links s) \<le> nil32"
    "length (sb_lists s) = 3" "slab_total s < 2 ^ 64" "(\<Union>q. set (segs q)) \<union> D = dom (slot_info s)" "(\<Union>q. set (segs q)) \<inter> D = {}"
  using assms by (simp_all add: slab_rep_def slab_shape_def)

lemma slab_rep_seg:
  assumes "slab_rep s segs D" "i \<in> set (segs q)"
  shows "q < 3" "i < length (sb_links s)" "i \<in> dom (slot_info s)" "lk_seg (sb_links s ! i) = q" "i < nil32" "i \<notin> D" "list_rep s q (segs q)"
proof -
  show q: "q < 3" using assms by (cases "q < 3") (auto simp: slab_rep_def slab_shape_def)
  show d: "i \<in> dom (slot_info s)" using slab_repD(6) [OF assms(1)] assms(2) by blast
  then show l: "i < length (sb_links s)" using slab_repD(1) [OF assms(1)] by (auto simp: slot_info_def split: if_splits)
  then show "i < nil32" using slab_repD(3) [OF assms(1)] by simp
  show "lk_seg (sb_links s ! i) = q" using assms by (auto simp: slab_rep_def slab_shape_def)
  show "i \<notin> D" using slab_repD(7) [OF assms(1)] assms(2) by blast
  show "list_rep s q (segs q)" using q assms(1) by (simp add: slab_rep_def)
qed

lemma slab_rep_other: "slab_rep s segs D \<Longrightarrow> i \<in> set (segs q) \<Longrightarrow> r \<noteq> q \<Longrightarrow> i \<notin> set (segs r)"
  by (auto simp: slab_rep_def slab_shape_def)

lemma slab_rep_finite: "slab_rep s segs D \<Longrightarrow> finite (dom (slot_info s))"
  by (rule finite_subset [of _ "{..<length (sb_payload s)}"]) (auto simp: slot_info_def split: if_splits)

lemma slot_cost_nth: "slab_rep s segs D \<Longrightarrow> i \<in> dom (slot_info s) \<Longrightarrow> slot_cost s i = sb_costs s ! i"
  by (auto simp: slot_cost_def slot_info_def split: if_splits)

lemma list_rep_head:
  assumes "list_rep s q xs"
  shows "ptr (sg_head (sb_lists s ! q)) = first xs" "ptr (sg_tail (sb_lists s ! q)) = final xs"
    "sg_cost (sb_lists s ! q) = sum_list (map (slot_cost s) xs)" "distinct xs"
  using assms by (auto simp: list_rep_def dll_def)

text \<open>The cost of a list, and of a list with a detached slot, is part of the total.\<close>

lemma seg_cost_le:
  assumes "slab_rep s segs D" "distinct xs" "set xs \<subseteq> dom (slot_info s)"
  shows "sum_list (map (slot_cost s) xs) \<le> slab_total s"
proof -
  have "the (info_costs (slot_info s) i) = slot_cost s i" if "i \<in> dom (slot_info s)" for i
    using that by (auto simp: info_costs_def slot_cost_def)
  then have "slab_total s = (\<Sum>i \<in> dom (slot_info s). slot_cost s i)"
    by (simp add: slab_total_def total_cost_def)
  then show ?thesis using assms slab_rep_finite [OF assms(1)]
    by (simp add: sum_list_distinct_conv_sum_set sum_mono2)
qed

lemma ptr_first: "ptr x = first ys \<Longrightarrow> set ys \<subseteq> {..<nil32} \<Longrightarrow> x = (case first ys of None \<Rightarrow> nil32 | Some y \<Rightarrow> y)"
  by (auto simp: ptr_def split: if_splits option.splits)

lemma ptr_final: "ptr x = final ys \<Longrightarrow> set ys \<subseteq> {..<nil32} \<Longrightarrow> x = (case final ys of None \<Rightarrow> nil32 | Some y \<Rightarrow> y)"
  by (auto simp: ptr_def split: if_splits option.splits)

subsection \<open>Unlinking\<close>

text \<open>The vectors after \<^verbatim>\<open>unlink\<close>, in terms of the neighbours in the list.\<close>

definition relink :: "nat option \<Rightarrow> (link \<Rightarrow> link) \<Rightarrow> link list \<Rightarrow> link list" where
  "relink x f ls = (case x of None \<Rightarrow> ls | Some p \<Rightarrow> ls[p := f (ls ! p)])"

definition nil_or :: "nat option \<Rightarrow> nat" where
  "nil_or x = (case x of None \<Rightarrow> nil32 | Some y \<Rightarrow> y)"

lemma nil_or_simps [simp]: "nil_or None = nil32" "nil_or (Some y) = y" by (simp_all add: nil_or_def)

lemma ptr_nil_or: "ptr x = y \<Longrightarrow> x = nil_or y"
  by (auto simp: ptr_def nil_or_def)

lemma ptr_nil_or_id: "(\<And>y. x = Some y \<Longrightarrow> y \<noteq> nil32) \<Longrightarrow> ptr (nil_or x) = x"
  by (cases x) auto

lemma length_relink [simp]: "length (relink x f ls) = length ls"
  by (simp add: relink_def split: option.split)

lemma seg_list_updates:
  fixes r :: seg_list
  shows "r\<lparr>sg_head := a\<rparr> = \<lparr>sg_head = a, sg_tail = sg_tail r, sg_cost = sg_cost r\<rparr>"
    "r\<lparr>sg_tail := a\<rparr> = \<lparr>sg_head = sg_head r, sg_tail = a, sg_cost = sg_cost r\<rparr>"
    "r\<lparr>sg_cost := c\<rparr> = \<lparr>sg_head = sg_head r, sg_tail = sg_tail r, sg_cost = c\<rparr>"
  by simp_all

lemma slab_unlink_vectors:
  assumes R: "slab_rep s segs D" and q: "segs q = xs @ i # ys"
  shows "slab_unlink i s = Some (s\<lparr>
    sb_links := relink (first ys) (\<lambda>l. l\<lparr>lk_prev := nil_or (final xs)\<rparr>) (relink (final xs) (\<lambda>l. l\<lparr>lk_next := nil_or (first ys)\<rparr>) (sb_links s)),
    sb_lists := (sb_lists s)[q := \<lparr>sg_head = (if xs = [] then nil_or (first ys) else sg_head (sb_lists s ! q)),
      sg_tail = (if ys = [] then nil_or (final xs) else sg_tail (sb_lists s ! q)),
      sg_cost = sum_list (map (slot_cost s) (xs @ ys))\<rparr>]\<rparr>)"
proof -
  have in_q: "x \<in> set (segs q)" if "x \<in> set xs \<or> x \<in> set ys \<or> x = i" for x using that q by auto
  note S = slab_rep_seg [OF R in_q]
  have d: "dll (slab_next s) (slab_prev s) (ptr (sg_head (sb_lists s ! q))) (ptr (sg_tail (sb_lists s ! q))) (xs @ i # ys)"
    and c: "sg_cost (sb_lists s ! q) = sum_list (map (slot_cost s) (xs @ i # ys))"
    using S(7) [of i] q by (simp_all add: list_rep_def)
  have nx: "lk_next (sb_links s ! i) = nil_or (first ys)" using dll_next [OF d] by (auto simp: slab_next_def intro: ptr_nil_or)
  have pv: "lk_prev (sb_links s ! i) = nil_or (final xs)" using dll_prev [OF d] by (auto simp: slab_prev_def intro: ptr_nil_or)
  have "sum_list (map (slot_cost s) (xs @ i # ys)) \<le> slab_total s"
    using d S(3) by (intro seg_cost_le [OF R]) (auto simp: dll_def)
  then have cost: "u64_sub (sg_cost (sb_lists s ! q)) (sb_costs s ! i) = sum_list (map (slot_cost s) (xs @ ys))"
    using slab_repD(5) [OF R] slot_cost_nth [OF R S(3), of i] c by simp
  have q3: "q < length (sb_lists s)" using S(1) [of i] slab_repD(4) [OF R] by simp
  have il: "i < length (sb_links s)" "i < length (sb_costs s)" "lk_seg (sb_links s ! i) = q"
    using S(2,4) [of i] slab_repD(2) [OF R] by simp_all
  have fx: "p < length (sb_links s) \<and> p \<noteq> nil32" if "final xs = Some p" for p
    using S(2,5) [of p] final_SomeD [OF that] by fastforce
  have fy: "p < length (sb_links s) \<and> p \<noteq> nil32" if "first ys = Some p" for p
    using S(2,5) [of p] first_SomeD [OF that] by fastforce
  show ?thesis
    by (cases "final xs"; cases "first ys")
      (use il q3 cost fx fy in \<open>auto simp: slab_unlink_def nx pv relink_def seg_list_updates\<close>)
qed

lemma slab_next_relink:
  assumes "\<And>p. x = Some p \<Longrightarrow> p < length (sb_links s) \<and> p \<noteq> nil32" "\<And>p. y = Some p \<Longrightarrow> p < length (sb_links s) \<and> p \<noteq> nil32"
  shows "slab_next (s\<lparr>sb_links := relink y (\<lambda>l. l\<lparr>lk_prev := nil_or x\<rparr>) (relink x (\<lambda>l. l\<lparr>lk_next := nil_or y\<rparr>) (sb_links s)), sb_lists := ls\<rparr>) =
      (case x of None \<Rightarrow> slab_next s | Some p \<Rightarrow> (slab_next s)(p := y))" (is ?N)
    and "slab_prev (s\<lparr>sb_links := relink y (\<lambda>l. l\<lparr>lk_prev := nil_or x\<rparr>) (relink x (\<lambda>l. l\<lparr>lk_next := nil_or y\<rparr>) (sb_links s)), sb_lists := ls\<rparr>) =
      (case y of None \<Rightarrow> slab_prev s | Some p \<Rightarrow> (slab_prev s)(p := x))" (is ?P)
proof -
  have n: "ptr (nil_or x) = x" "ptr (nil_or y) = y" using assms by (auto intro: ptr_nil_or_id)
  show ?N using assms n by (auto simp: slab_next_def relink_def fun_eq_iff nth_list_update split: option.split)
  show ?P using assms n by (auto simp: slab_prev_def relink_def fun_eq_iff nth_list_update split: option.split)
qed

lemma relink_nth_field: "(\<And>l. f (g l) = f l) \<Longrightarrow> f (relink x g ls ! i) = f (ls ! i)"
proof (cases x)
  case (Some p)
  assume "\<And>l. f (g l) = f l"
  with Some show ?thesis by (cases "i = p"; cases "p < length ls") (simp_all add: relink_def list_update_beyond)
qed (simp add: relink_def)

lemma relink_nth_fields:
  "lk_seg (relink x (\<lambda>l. l\<lparr>lk_prev := a\<rparr>) ls ! i) = lk_seg (ls ! i)" "lk_seg (relink x (\<lambda>l. l\<lparr>lk_next := a\<rparr>) ls ! i) = lk_seg (ls ! i)"
  "lk_generation (relink x (\<lambda>l. l\<lparr>lk_prev := a\<rparr>) ls ! i) = lk_generation (ls ! i)"
  "lk_generation (relink x (\<lambda>l. l\<lparr>lk_next := a\<rparr>) ls ! i) = lk_generation (ls ! i)"
  by (rule relink_nth_field, simp)+

lemma generations_nth: "(\<forall>l \<in> set ls. lk_generation l < n) \<longleftrightarrow> (\<forall>i < length ls. lk_generation (ls ! i) < n)"
  by (simp add: all_set_conv_all_nth)

text \<open>A change of the lists that keeps the payloads, the costs and the free list.\<close>

lemma slab_shape_relist:
  assumes "slab_shape s segs D"
    and "sb_payload s' = sb_payload s" "sb_costs s' = sb_costs s" "sb_free s' = sb_free s" "length (sb_lists s') = 3"
    and "length (sb_links s') = length (sb_links s)" "\<And>j. lk_generation (sb_links s' ! j) = lk_generation (sb_links s ! j)"
    and "\<And>j. j \<in> set (sb_free s) \<Longrightarrow> lk_seg (sb_links s' ! j) = lk_seg (sb_links s ! j)"
    and "\<And>q j. j \<in> set (segs' q) \<Longrightarrow> lk_seg (sb_links s' ! j) = q"
    and "\<And>q. q \<ge> 3 \<Longrightarrow> segs' q = []" "\<And>q r. q \<noteq> r \<Longrightarrow> set (segs' q) \<inter> set (segs' r) = {}"
    and "(\<Union>q. set (segs' q)) \<inter> D' = {}" "(\<Union>q. set (segs' q)) \<union> D' = (\<Union>q. set (segs q)) \<union> D"
  shows "slab_shape s' segs' D'"
proof -
  have "slot_info s' = slot_info s" using assms(2,3) by (simp add: slot_info_def fun_eq_iff)
  with assms show ?thesis unfolding slab_shape_def generations_nth by simp
qed

lemma slab_unlink_rep:
  assumes R: "slab_rep s segs D" and q: "segs q = xs @ i # ys"
  shows "\<exists>s'. slab_unlink i s = Some s' \<and> slab_rep s' (segs(q := xs @ ys)) (insert i D) \<and> slot_info s' = slot_info s \<and> slab_gen s' = slab_gen s"
proof -
  have in_q: "x \<in> set (segs q)" if "x \<in> set xs \<or> x \<in> set ys \<or> x = i" for x using that q by auto
  note S = slab_rep_seg [OF R in_q]
  let ?links = "relink (first ys) (\<lambda>l. l\<lparr>lk_prev := nil_or (final xs)\<rparr>) (relink (final xs) (\<lambda>l. l\<lparr>lk_next := nil_or (first ys)\<rparr>) (sb_links s))"
  let ?lists = "(sb_lists s)[q := \<lparr>sg_head = (if xs = [] then nil_or (first ys) else sg_head (sb_lists s ! q)),
      sg_tail = (if ys = [] then nil_or (final xs) else sg_tail (sb_lists s ! q)), sg_cost = sum_list (map (slot_cost s) (xs @ ys))\<rparr>]"
  let ?s = "s\<lparr>sb_links := ?links, sb_lists := ?lists\<rparr>"
  have fx: "p < length (sb_links s) \<and> p \<noteq> nil32 \<and> p \<in> set xs" if "final xs = Some p" for p
    using S(2,5) [of p] final_SomeD [OF that] by fastforce
  have fy: "p < length (sb_links s) \<and> p \<noteq> nil32 \<and> p \<in> set ys" if "first ys = Some p" for p
    using S(2,5) [of p] first_SomeD [OF that] by fastforce
  have nx: "slab_next ?s = (case final xs of None \<Rightarrow> slab_next s | Some p \<Rightarrow> (slab_next s)(p := first ys))"
    "slab_prev ?s = (case first ys of None \<Rightarrow> slab_prev s | Some p \<Rightarrow> (slab_prev s)(p := final xs))"
    using fx fy by (intro slab_next_relink; blast)+
  have info: "slot_info ?s = slot_info s" by (simp add: slot_info_def fun_eq_iff)
  then have sc: "slot_cost ?s = slot_cost s" by (simp add: slot_cost_def fun_eq_iff)
  have gen: "slab_gen ?s = slab_gen s" by (simp add: slab_gen_def fun_eq_iff relink_nth_fields)
  have q3: "q < length (sb_lists s)" "q < 3" using S(1) [of i] slab_repD(4) [OF R] by simp_all
  have lq: "list_rep ?s q (xs @ ys)"
  proof -
    have d: "dll (slab_next s) (slab_prev s) (ptr (sg_head (sb_lists s ! q))) (ptr (sg_tail (sb_lists s ! q))) (xs @ i # ys)"
      using S(7) [of i] q by (simp add: list_rep_def)
    have "ptr (nil_or (first ys)) = first ys" "ptr (nil_or (final xs)) = final xs" using fx fy by (auto intro: ptr_nil_or_id)
    with dll_unlink [OF d] show ?thesis unfolding list_rep_def nx sc using q3 by (cases "xs = []"; cases "ys = []") simp_all
  qed
  have lr: "list_rep ?s r (segs r)" if r: "r \<noteq> q" "r < 3" for r
  proof -
    have o: "list_rep s r (segs r)" using R r by (simp add: slab_rep_def)
    have neq: "x \<notin> set (segs r)" if "x \<in> set xs \<or> x \<in> set ys" for x using slab_rep_other [OF R in_q r(1)] that by blast
    have "dll (slab_next ?s) (slab_prev ?s) h t (segs r) = dll (slab_next s) (slab_prev s) h t (segs r)" for h t
      unfolding nx by (intro dll_cong) (use fx fy neq in \<open>auto split: option.split\<close>)
    then show ?thesis using o r(1) unfolding list_rep_def sc by simp
  qed
  have "distinct (segs q)" using list_rep_head(4) [OF S(7) [of i]] by simp
  then have sq: "set (xs @ ys) = set (segs q) - {i}" using q by auto
  have ni: "i \<notin> set (segs r)" if "r \<noteq> q" for r using slab_rep_other [OF R in_q [of i] that] by simp
  have old: "slab_shape s segs D" using R by (simp add: slab_rep_def)
  have shape: "slab_shape ?s (segs(q := xs @ ys)) (insert i D)"
  proof (rule slab_shape_relist [OF old])
    show "lk_seg (sb_links ?s ! j) = r" if "j \<in> set ((segs(q := xs @ ys)) r)" for r j
      using that slab_rep_seg(4) [OF R] sq by (auto simp: relink_nth_fields split: if_splits)
    show "(segs(q := xs @ ys)) r = []" if "r \<ge> 3" for r using that old q3 by (auto simp: slab_shape_def)
    show "set ((segs(q := xs @ ys)) a) \<inter> set ((segs(q := xs @ ys)) b) = {}" if "a \<noteq> b" for a b
      using that slab_rep_other [OF R] sq by (auto split: if_splits)
    show "(\<Union>r. set ((segs(q := xs @ ys)) r)) \<inter> insert i D = {}"
      using sq ni slab_rep_seg(6) [OF R] by (auto split: if_splits)
    show "(\<Union>r. set ((segs(q := xs @ ys)) r)) \<union> insert i D = (\<Union>r. set (segs r)) \<union> D"
      using sq in_q [of i] by (auto split: if_splits)
  qed (use slab_repD(4) [OF R] in \<open>simp_all add: relink_nth_fields\<close>)
  have tot: "slab_total ?s < 2 ^ 64" using slab_repD(5) [OF R] unfolding slab_total_def info .
  have "list_rep ?s r ((segs(q := xs @ ys)) r)" if "r < 3" for r by (cases "r = q") (use lq lr that in simp_all)
  with shape tot have "slab_rep ?s (segs(q := xs @ ys)) (insert i D)" unfolding slab_rep_def by blast
  with slab_unlink_vectors [OF R q] info gen show ?thesis by blast
qed

subsection \<open>Linking at the front\<close>

lemma slab_push_front_vectors:
  assumes R: "slab_rep s segs D" and i: "i \<in> D" and q: "q < 3"
  shows "slab_push_front q i s = Some (s\<lparr>
    sb_links := relink (first (segs q)) (\<lambda>l. l\<lparr>lk_prev := i\<rparr>)
      ((sb_links s)[i := (sb_links s ! i)\<lparr>lk_prev := nil32, lk_next := sg_head (sb_lists s ! q), lk_seg := q\<rparr>]),
    sb_lists := (sb_lists s)[q := \<lparr>sg_head = i, sg_tail = (if segs q = [] then i else sg_tail (sb_lists s ! q)),
      sg_cost = sum_list (map (slot_cost s) (i # segs q))\<rparr>]\<rparr>)"
proof -
  have id: "i \<in> dom (slot_info s)" using slab_repD(6) [OF R] i by blast
  then have il: "i < length (sb_links s)" "i < length (sb_costs s)"
    using slab_repD(1,2) [OF R] by (auto simp: slot_info_def split: if_splits)
  have L: "list_rep s q (segs q)" using R q by (simp add: slab_rep_def)
  note H = list_rep_head [OF L]
  have sub: "set (i # segs q) \<subseteq> dom (slot_info s)" unfolding slab_repD(6) [OF R, symmetric] using i by auto
  have "i \<notin> set (segs q)" using slab_repD(7) [OF R] i by blast
  then have "sum_list (map (slot_cost s) (i # segs q)) \<le> slab_total s" using H(4) sub by (intro seg_cost_le [OF R]) simp_all
  then have cost: "u64_add (sg_cost (sb_lists s ! q)) (sb_costs s ! i) = sum_list (map (slot_cost s) (i # segs q))"
    using slab_repD(5) [OF R] slot_cost_nth [OF R id] H(3) by simp
  have q3: "q < length (sb_lists s)" using slab_repD(4) [OF R] q by simp
  have hd: "p < length (sb_links s) \<and> p \<noteq> nil32" if "first (segs q) = Some p" for p
    using slab_rep_seg(2,5) [OF R, of p q] first_SomeD [OF that] by fastforce
  have tail: "sg_tail (sb_lists s ! q) = nil32 \<longleftrightarrow> segs q = []" using H(2) by (metis final_None nil_ptr_simps(3))
  show ?thesis
  proof (cases "first (segs q)")
    case None
    then have "sg_head (sb_lists s ! q) = nil32" using H(1) by simp
    then show ?thesis using None il q3 cost tail by (simp add: slab_push_front_def relink_def)
  next
    case (Some p)
    then have "sg_head (sb_lists s ! q) = p" using H(1) by simp
    then show ?thesis using Some hd [OF Some] il q3 cost tail by (auto simp: slab_push_front_def relink_def Let_def)
  qed
qed

lemma slab_push_front_rep:
  assumes R: "slab_rep s segs D" and i: "i \<in> D" and q: "q < 3"
  shows "\<exists>s'. slab_push_front q i s = Some s' \<and> slab_rep s' (segs(q := i # segs q)) (D - {i}) \<and> slot_info s' = slot_info s \<and> slab_gen s' = slab_gen s"
proof -
  let ?old = "sg_head (sb_lists s ! q)"
  let ?links = "relink (first (segs q)) (\<lambda>l. l\<lparr>lk_prev := i\<rparr>) ((sb_links s)[i := (sb_links s ! i)\<lparr>lk_prev := nil32, lk_next := ?old, lk_seg := q\<rparr>])"
  let ?lists = "(sb_lists s)[q := \<lparr>sg_head = i, sg_tail = (if segs q = [] then i else sg_tail (sb_lists s ! q)),
      sg_cost = sum_list (map (slot_cost s) (i # segs q))\<rparr>]"
  let ?s = "s\<lparr>sb_links := ?links, sb_lists := ?lists\<rparr>"
  have id: "i \<in> dom (slot_info s)" using slab_repD(6) [OF R] i by blast
  then have il: "i < length (sb_links s)" using slab_repD(1) [OF R] by (auto simp: slot_info_def split: if_splits)
  then have inil: "i \<noteq> nil32" using slab_repD(3) [OF R] by simp
  have L: "list_rep s q (segs q)" using R q by (simp add: slab_rep_def)
  note H = list_rep_head [OF L]
  have ni: "i \<notin> set (segs r)" for r using slab_repD(7) [OF R] i by blast
  have hd: "p < length (sb_links s) \<and> p \<noteq> nil32 \<and> p \<in> set (segs q)" if "first (segs q) = Some p" for p
    using slab_rep_seg(2,5) [OF R, of p q] first_SomeD [OF that] by fastforce
  have nx: "slab_next ?s = (slab_next s)(i := first (segs q))"
    using H(1) il by (auto simp: slab_next_def fun_eq_iff nth_list_update relink_nth_field [where f = lk_next])
  have pv: "slab_prev ?s = (case first (segs q) of None \<Rightarrow> (slab_prev s)(i := None) | Some o' \<Rightarrow> (slab_prev s)(i := None, o' := Some i))"
    using hd il inil ni by (cases "first (segs q)") (auto simp: slab_prev_def fun_eq_iff nth_list_update relink_def)
  have info: "slot_info ?s = slot_info s" by (simp add: slot_info_def fun_eq_iff)
  then have sc: "slot_cost ?s = slot_cost s" by (simp add: slot_cost_def fun_eq_iff)
  have gen1: "lk_generation (?links ! j) = lk_generation (sb_links s ! j)" for j
    using il by (cases "j = i") (simp_all add: relink_nth_field [where f = lk_generation])
  have "sb_links ?s = ?links" by simp
  then have gen: "slab_gen ?s = slab_gen s" using il by (simp only: slab_gen_def fun_eq_iff gen1 length_relink length_list_update) simp
  have q3: "q < length (sb_lists s)" using slab_repD(4) [OF R] q by simp
  have lq: "list_rep ?s q (i # segs q)"
  proof -
    have d: "dll (slab_next s) (slab_prev s) (first (segs q)) (final (segs q)) (segs q)" using L H(1,2) by (simp add: list_rep_def)
    from dll_push_front [OF d ni] show ?thesis unfolding list_rep_def nx pv sc using q3 inil H(2) by (cases "segs q = []") simp_all
  qed
  have lr: "list_rep ?s r (segs r)" if r: "r \<noteq> q" "r < 3" for r
  proof -
    have o: "list_rep s r (segs r)" using R r by (simp add: slab_rep_def)
    have "p \<notin> set (segs r)" if "first (segs q) = Some p" for p using slab_rep_other [OF R _ r(1), of p] hd [OF that] by blast
    then have "dll (slab_next ?s) (slab_prev ?s) h t (segs r) = dll (slab_next s) (slab_prev s) h t (segs r)" for h t
      unfolding nx pv by (intro dll_cong) (use ni in \<open>auto split: option.split\<close>)
    then show ?thesis using o r(1) unfolding list_rep_def sc by simp
  qed
  have old: "slab_shape s segs D" using R by (simp add: slab_rep_def)
  have seg: "lk_seg (?links ! j) = (if j = i then q else lk_seg (sb_links s ! j))" for j
    using il by (cases "j = i") (simp_all add: relink_nth_field [where f = lk_seg])
  have shape: "slab_shape ?s (segs(q := i # segs q)) (D - {i})"
  proof (rule slab_shape_relist [OF old])
    show "lk_seg (sb_links ?s ! j) = lk_seg (sb_links s ! j)" if "j \<in> set (sb_free s)" for j
      using that id old seg by (auto simp: slab_shape_def)
    show "lk_seg (sb_links ?s ! j) = r" if "j \<in> set ((segs(q := i # segs q)) r)" for r j
      using that slab_rep_seg(4) [OF R] ni by (auto simp: seg split: if_splits)
    show "(segs(q := i # segs q)) r = []" if "r \<ge> 3" for r using that old q by (auto simp: slab_shape_def)
    show "set ((segs(q := i # segs q)) a) \<inter> set ((segs(q := i # segs q)) b) = {}" if "a \<noteq> b" for a b
      using that slab_rep_other [OF R] ni by (auto split: if_splits)
    show "(\<Union>r. set ((segs(q := i # segs q)) r)) \<inter> (D - {i}) = {}"
      using slab_rep_seg(6) [OF R] by (auto split: if_splits)
    show "(\<Union>r. set ((segs(q := i # segs q)) r)) \<union> (D - {i}) = (\<Union>r. set (segs r)) \<union> D"
      using i by (auto split: if_splits)
  qed (use slab_repD(4) [OF R] gen1 in simp_all)
  have tot: "slab_total ?s < 2 ^ 64" using slab_repD(5) [OF R] unfolding slab_total_def info .
  have "list_rep ?s r ((segs(q := i # segs q)) r)" if "r < 3" for r by (cases "r = q") (use lq lr that in simp_all)
  with shape tot have "slab_rep ?s (segs(q := i # segs q)) (D - {i})" unfolding slab_rep_def by blast
  with slab_push_front_vectors [OF R i q] info gen show ?thesis by blast
qed

subsection \<open>Slots\<close>

text \<open>A list whose slots keep their links and costs is kept.\<close>

lemma list_rep_cong:
  assumes "list_rep s q xs" "sb_lists s' ! q = sb_lists s ! q"
    "\<And>j. j \<in> set xs \<Longrightarrow> lk_next (sb_links s' ! j) = lk_next (sb_links s ! j) \<and> lk_prev (sb_links s' ! j) = lk_prev (sb_links s ! j)"
    "\<And>j. j \<in> set xs \<Longrightarrow> slot_cost s' j = slot_cost s j"
  shows "list_rep s' q xs"
proof -
  have "dll (slab_next s') (slab_prev s') h t xs = dll (slab_next s) (slab_prev s) h t xs" for h t
    by (rule dll_cong) (use assms(3) in \<open>simp_all add: slab_next_def slab_prev_def\<close>)
  moreover have "map (slot_cost s') xs = map (slot_cost s) xs" using assms(4) by simp
  ultimately show ?thesis using assms(1,2) by (simp only: list_rep_def)
qed

lemma slab_alloc_rep:
  assumes R: "slab_rep s segs D" and fits: "slab_total s + c < 2 ^ 64" and room: "card (dom (slot_info s)) < nil32"
  shows "\<exists>i s'. slab_alloc p c s = Some (i, s') \<and> slot_info s i = None \<and> slab_rep s' segs (insert i D) \<and>
    slot_info s' = (slot_info s)(i \<mapsto> (p, c)) \<and> slab_gen s' = slab_gen s"
proof -
  note L = slab_repD [OF R]
  have shape: "slab_shape s segs D" using R by (simp add: slab_rep_def)
  have step: "slab_rep s' segs (insert i D)"
    if info: "slot_info s' = (slot_info s)(i \<mapsto> (p, c))" and i: "slot_info s i = None" and sh: "slab_shape s' segs (insert i D)"
      and ls: "sb_lists s' = sb_lists s" and links: "\<And>j. j < length (sb_links s) \<Longrightarrow> sb_links s' ! j = sb_links s ! j" for i s'
  proof -
    have "(info_costs (slot_info s))(i := None) = info_costs (slot_info s)" using i by (auto simp: info_costs_def fun_eq_iff)
    then have "slab_total s' = c + slab_total s" unfolding slab_total_def info info_costs_simps
      by (subst total_upd) (simp_all add: slab_rep_finite [OF R])
    moreover have "list_rep s' q (segs q)" if "q < 3" for q
    proof (rule list_rep_cong)
      show "list_rep s q (segs q)" using R that by (simp add: slab_rep_def)
      show "slot_cost s' j = slot_cost s j" if "j \<in> set (segs q)" for j
        using slab_rep_seg(3) [OF R that] i by (auto simp: slot_cost_def info)
    qed (use ls links slab_rep_seg(2) [OF R] in simp_all)
    ultimately show ?thesis using sh fits by (simp add: slab_rep_def)
  qed
  show ?thesis
  proof (cases "sb_free s = []")
    case False
    let ?i = "last (sb_free s)"
    let ?s = "s\<lparr>sb_free := butlast (sb_free s), sb_payload := (sb_payload s)[?i := Some p], sb_costs := (sb_costs s)[?i := c]\<rparr>"
    have f: "?i \<in> set (sb_free s)" using False by simp
    then have i: "?i < length (sb_links s)" "slot_info s ?i = None" using shape by (auto simp: slab_shape_def)
    have info: "slot_info ?s = (slot_info s)(?i \<mapsto> (p, c))" using i L(1,2) by (auto simp: slot_info_def fun_eq_iff nth_list_update)
    have fr: "sb_free s = butlast (sb_free s) @ [?i]" "distinct (sb_free s)" using False shape by (simp_all add: slab_shape_def)
    then have "set (butlast (sb_free s)) = set (sb_free s) - {?i}" "distinct (butlast (sb_free s))"
      by (cases "sb_free s" rule: rev_cases, simp_all)+
    moreover have "?i \<notin> (\<Union>q. set (segs q))" using L(6) i(2) by auto
    ultimately have "slab_shape ?s segs (insert ?i D)" using shape unfolding slab_shape_def info by auto
    then have "slab_rep ?s segs (insert ?i D)" by (intro step [OF info i(2)]) simp_all
    moreover have "slab_alloc p c s = Some (?i, ?s)" using False i(1) L(1,2) by (simp add: slab_alloc_def vec_set_def Let_def)
    moreover have "slab_gen ?s = slab_gen s" by (simp add: slab_gen_def fun_eq_iff)
    ultimately show ?thesis using info i(2) by blast
  next
    case True
    let ?n = "length (sb_links s)"
    let ?s = "s\<lparr>sb_links := sb_links s @ [\<lparr>lk_prev = nil32, lk_next = nil32, lk_seg = free_seg, lk_generation = 0\<rparr>],
      sb_payload := sb_payload s @ [Some p], sb_costs := sb_costs s @ [c]\<rparr>"
    have dm: "dom (slot_info s) = {..<?n}"
      using True shape L(1) by (auto simp: slab_shape_def slot_info_def split: if_splits)
    then have n: "?n < nil32" using room by simp
    then have n32: "?n < 2 ^ 32" by (simp add: nil32_def)
    have i: "slot_info s ?n = None" by (simp add: slot_info_def L(1))
    have info: "slot_info ?s = (slot_info s)(?n \<mapsto> (p, c))" using L(1,2) by (auto simp: slot_info_def fun_eq_iff nth_append)
    have "slab_shape ?s segs (insert ?n D)"
      using shape True n dm slab_rep_seg(2) [OF R] unfolding slab_shape_def info by (auto simp: nth_append)
    then have "slab_rep ?s segs (insert ?n D)" by (intro step [OF info i]) (simp_all add: nth_append)
    moreover have "slab_alloc p c s = Some (?n, ?s)" using True n32 by (simp add: slab_alloc_def)
    moreover have "slab_gen ?s = slab_gen s" by (auto simp: slab_gen_def fun_eq_iff nth_append)
    ultimately show ?thesis using info i by blast
  qed
qed

lemma slab_release_rep:
  assumes R: "slab_rep s segs D" and i: "i \<in> D"
  shows "\<exists>p c s'. slot_info s i = Some (p, c) \<and> slab_release i s = Some (p, s') \<and> slab_rep s' segs (D - {i}) \<and>
    slot_info s' = (slot_info s)(i := None) \<and> slab_gen s' = (slab_gen s)(i := (slab_gen s i + 1) mod 2 ^ 32)"
proof -
  note L = slab_repD [OF R]
  have shape: "slab_shape s segs D" using R by (simp add: slab_rep_def)
  from L(6) i obtain p c where pc: "slot_info s i = Some (p, c)" by fastforce
  then have il: "i < length (sb_links s)" and pl: "sb_payload s ! i = Some p" using L(1) by (auto simp: slot_info_def split: if_splits)
  let ?l = "(sb_links s ! i)\<lparr>lk_seg := free_seg, lk_generation := (lk_generation (sb_links s ! i) + 1) mod 2 ^ 32\<rparr>"
  let ?s = "s\<lparr>sb_links := (sb_links s)[i := ?l], sb_free := sb_free s @ [i], sb_payload := (sb_payload s)[i := None]\<rparr>"
  have rel: "slab_release i s = Some (p, ?s)" using il L(1) pl by (simp add: slab_release_def)
  have info: "slot_info ?s = (slot_info s)(i := None)" using il L(1) by (auto simp: slot_info_def fun_eq_iff nth_list_update)
  have gen: "slab_gen ?s = (slab_gen s)(i := (slab_gen s i + 1) mod 2 ^ 32)"
    using il by (auto simp: slab_gen_def fun_eq_iff nth_list_update)
  have ni: "i \<notin> set (segs q)" for q using L(7) i by blast
  have g: "\<forall>l \<in> set ((sb_links s)[i := ?l]). lk_generation l < 2 ^ 32"
    using shape by (auto simp: slab_shape_def dest!: set_update_subset_insert [THEN subsetD])
  have sh: "slab_shape ?s segs (D - {i})"
    unfolding slab_shape_def info using shape g ni i il pc by (auto simp: slab_shape_def nth_list_update)
  have "list_rep ?s q (segs q)" if "q < 3" for q
  proof (rule list_rep_cong)
    show "list_rep s q (segs q)" using R that by (simp add: slab_rep_def)
    show "slot_cost ?s j = slot_cost s j" if "j \<in> set (segs q)" for j
      unfolding slot_cost_def info using that ni by auto
    show "lk_next (sb_links ?s ! j) = lk_next (sb_links s ! j) \<and> lk_prev (sb_links ?s ! j) = lk_prev (sb_links s ! j)" if "j \<in> set (segs q)" for j
      using that ni [of q] by (cases "j = i") simp_all
  qed simp
  moreover have "slab_total ?s \<le> slab_total s" unfolding slab_total_def info info_costs_simps
    by (rule total_drop_le) (simp add: slab_rep_finite [OF R])
  ultimately have "slab_rep ?s segs (D - {i})" using sh L(5) by (simp add: slab_rep_def)
  with pc rel info gen show ?thesis by blast
qed

lemma slab_set_cost_rep:
  assumes R: "slab_rep s segs D" and i: "i \<in> set (segs q)" and pc: "slot_info s i = Some (p, c0)"
    and fits: "slab_total s + c < 2 ^ 64"
  shows "\<exists>s'. slab_set_cost i c s = Some s' \<and> slab_rep s' segs D \<and> slot_info s' = (slot_info s)(i \<mapsto> (p, c)) \<and> slab_gen s' = slab_gen s"
proof -
  note L = slab_repD [OF R] and S = slab_rep_seg [OF R i]
  have shape: "slab_shape s segs D" using R by (simp add: slab_rep_def)
  have q3: "q < length (sb_lists s)" "i < length (sb_costs s)" using S(1,2) L(2,4) by simp_all
  have c0: "slot_cost s i = c0" "sb_costs s ! i = c0" using pc slot_cost_nth [OF R S(3)] by (simp_all add: slot_cost_def)
  let ?s = "s\<lparr>sb_costs := (sb_costs s)[i := c], sb_lists := (sb_lists s)[q := (sb_lists s ! q)\<lparr>sg_cost :=
      u64_add (u64_sub (sg_cost (sb_lists s ! q)) c0) c\<rparr>]\<rparr>"
  have set: "slab_set_cost i c s = Some ?s" using S(2,4) q3 c0 by (simp add: slab_set_cost_def)
  have info: "slot_info ?s = (slot_info s)(i \<mapsto> (p, c))" using pc q3 by (auto simp: slot_info_def fun_eq_iff nth_list_update split: if_splits)
  have gen: "slab_gen ?s = slab_gen s" by (simp add: slab_gen_def fun_eq_iff)
  have sc: "slot_cost ?s = (slot_cost s)(i := c)" by (auto simp: slot_cost_def info fun_eq_iff)
  obtain xs ys where xy: "segs q = xs @ i # ys" using split_list [OF i] by blast
  note H = list_rep_head [OF S(7)]
  have ni: "i \<notin> set xs" "i \<notin> set ys" using H(4) xy by auto
  have cost: "sg_cost (sb_lists ?s ! q) = sum_list (map (slot_cost ?s) (segs q))"
  proof -
    have le: "sum_list (map (slot_cost s) (segs q)) \<le> slab_total s" using H(4) slab_rep_seg(3) [OF R]
      by (intro seg_cost_le [OF R]) auto
    have "sum_list (map (slot_cost ?s) (segs q)) = sum_list (map (slot_cost s) (segs q)) - c0 + c" unfolding sc using c0 ni by (simp add: xy)
    moreover have "c0 \<le> sum_list (map (slot_cost s) (segs q))" using c0 by (simp add: xy)
    ultimately show ?thesis using H(3) le fits q3 by simp
  qed
  have lq: "list_rep ?s q (segs q)"
  proof -
    have "dll (slab_next ?s) (slab_prev ?s) h t (segs q) = dll (slab_next s) (slab_prev s) h t (segs q)" for h t
      by (rule dll_cong) (simp_all add: slab_next_def slab_prev_def)
    with S(7) cost q3 show ?thesis unfolding list_rep_def by simp
  qed
  have lr: "list_rep ?s r (segs r)" if r: "r < 3" "r \<noteq> q" for r
  proof (rule list_rep_cong)
    show "list_rep s r (segs r)" using R r by (simp add: slab_rep_def)
    show "slot_cost ?s j = slot_cost s j" if "j \<in> set (segs r)" for j
      using slab_rep_other [OF R i r(2)] that unfolding sc by auto
  qed (use r in simp_all)
  have sh: "slab_shape ?s segs D"
    unfolding slab_shape_def info using shape S(3) by (auto simp: slab_shape_def)
  have "slab_total ?s \<le> slab_total s + c" unfolding slab_total_def info info_costs_simps
    by (rule total_upd_le) (simp add: slab_rep_finite [OF R])
  with fits have "slab_total ?s < 2 ^ 64" by simp
  with sh lq lr have "slab_rep ?s segs D" unfolding slab_rep_def by metis
  with set info gen show ?thesis by blast
qed

lemma slab_empty_rep:
  assumes "sb_links s = []" "sb_payload s = []" "sb_costs s = []" "sb_free s = []" "sb_lists s = replicate 3 empty_list"
  shows "slab_rep s (\<lambda>_. []) {}" "slot_info s = Map.empty"
proof -
  show i: "slot_info s = Map.empty" using assms by (simp add: slot_info_def fun_eq_iff)
  have "list_rep s q []" if "q < 3" for q using that assms(5) by (simp add: list_rep_def empty_list_def)
  then show "slab_rep s (\<lambda>_. []) {}" using assms by (simp add: slab_rep_def slab_shape_def i slab_total_def)
qed

lemma slab_clear_rep: "slab_rep (slab_clear s) (\<lambda>_. []) {}" "slot_info (slab_clear s) = Map.empty"
  by (rule slab_empty_rep; simp add: slab_clear_def)+

lemma slab_new_rep: "slab_rep slab_new (\<lambda>_. []) {}" "slot_info slab_new = Map.empty"
  by (rule slab_empty_rep; simp add: slab_new_def)+

lemma slab_move_front_rep:
  assumes R: "slab_rep s segs D" and i: "segs q = xs @ i # ys"
  shows "\<exists>s'. slab_move_front q i s = Some s' \<and> slab_rep s' (segs(q := i # xs @ ys)) D \<and> slot_info s' = slot_info s \<and> slab_gen s' = slab_gen s"
proof -
  have iq: "i \<in> set (segs q)" using i by simp
  note S = slab_rep_seg [OF R iq]
  have get: "vec_get (sb_lists s) q = Some (sb_lists s ! q)" "vec_get (sb_links s) i = Some (sb_links s ! i)"
    using S(1,2) slab_repD(4) [OF R] by simp_all
  show ?thesis
  proof (cases "sg_head (sb_lists s ! q) = i")
    case True
    then have "first (segs q) = Some i" using list_rep_head(1) [OF S(7)] S(5) by simp
    moreover have "distinct (segs q)" using S(7) by (rule list_rep_head)
    ultimately have "xs = []" using i by (cases xs) auto
    then have "segs(q := i # xs @ ys) = segs" using i by (simp add: fun_upd_idem)
    with True R S(4) get show ?thesis by (simp add: slab_move_front_def)
  next
    case False
    from slab_unlink_rep [OF R i] obtain s1 where u: "slab_unlink i s = Some s1" "slab_rep s1 (segs(q := xs @ ys)) (insert i D)"
      "slot_info s1 = slot_info s" "slab_gen s1 = slab_gen s" by blast
    from slab_push_front_rep [OF u(2) _ S(1), of i] obtain s2 where p: "slab_push_front q i s1 = Some s2"
      "slab_rep s2 ((segs(q := xs @ ys))(q := i # (segs(q := xs @ ys)) q)) (insert i D - {i})" "slot_info s2 = slot_info s1" "slab_gen s2 = slab_gen s1" by blast
    have "insert i D - {i} = D" using S(6) by auto
    with p(2) have "slab_rep s2 (segs(q := i # xs @ ys)) D" by simp
    then show ?thesis using False u p get by (simp add: slab_move_front_def)
  qed
qed

subsection \<open>What the node ids name\<close>

definition node_view :: "(nat \<rightharpoonup> 'v) \<Rightarrow> (nat \<Rightarrow> nat) \<Rightarrow> nat \<rightharpoonup> 'v" where
  "node_view info gen node = (if node < 2 ^ 64 \<and> gen (node mod 2 ^ 32) = node div 2 ^ 32 then info (node mod 2 ^ 32) else None)"

definition slab_nodes :: "'p slab \<Rightarrow> nat \<rightharpoonup> 'p \<times> nat" where
  "slab_nodes s = node_view (slot_info s) (slab_gen s)"

lemma join_parts: "i < 2 ^ 32 \<Longrightarrow> join g i mod 2 ^ 32 = i" "i < 2 ^ 32 \<Longrightarrow> join g i div 2 ^ 32 = g"
  "i < 2 ^ 32 \<Longrightarrow> g < 2 ^ 32 \<Longrightarrow> join g i < 2 ^ 64"
  by (simp_all add: join_plus)

lemma node_parts: "n = join (n div 2 ^ 32) (n mod 2 ^ 32)"
  by (simp add: join_plus)

lemma node_view_join: "i < 2 ^ 32 \<Longrightarrow> gen i < 2 ^ 32 \<Longrightarrow> node_view info gen (join (gen i) i) = info i"
  using join_parts [of i "gen i"] by (simp add: node_view_def)

lemma node_view_upd:
  assumes "i < 2 ^ 32" "gen i < 2 ^ 32"
  shows "node_view (info(i \<mapsto> x)) gen = (node_view info gen)(join (gen i) i \<mapsto> x)"
proof
  fix n
  note J = join_parts [OF assms(1), of "gen i"]
  show "node_view (info(i \<mapsto> x)) gen n = ((node_view info gen)(join (gen i) i \<mapsto> x)) n"
  proof (cases "n = join (gen i) i")
    case True
    then show ?thesis using J assms by (simp add: node_view_def)
  next
    case False
    then show ?thesis using node_parts [of n] by (auto simp: node_view_def)
  qed
qed

lemma node_view_del:
  assumes "i < 2 ^ 32" "gen i < 2 ^ 32"
  shows "node_view (info(i := None)) (gen(i := g)) = (node_view info gen)(join (gen i) i := None)"
proof
  fix n
  note J = join_parts [OF assms(1), of "gen i"]
  show "node_view (info(i := None)) (gen(i := g)) n = ((node_view info gen)(join (gen i) i := None)) n"
    using node_parts [of n] J by (auto simp: node_view_def)
qed

lemma node_view_SomeD: "node_view info gen n = Some x \<Longrightarrow> info (n mod 2 ^ 32) = Some x \<and> n = join (gen (n mod 2 ^ 32)) (n mod 2 ^ 32)"
  using node_parts [of n] by (auto simp: node_view_def split: if_splits)

lemma slab_gen_less: "slab_rep s segs D \<Longrightarrow> slab_gen s i < 2 ^ 32"
  by (auto simp: slab_rep_def slab_shape_def slab_gen_def)

lemma slab_slot_less:
  assumes "slab_rep s segs D" "i \<in> dom (slot_info s)"
  shows "i < length (sb_links s)" "i < nil32" "i < 2 ^ 32"
proof -
  show "i < length (sb_links s)" using slab_repD(1) [OF assms(1)] assms(2) by (auto simp: slot_info_def split: if_splits)
  then show "i < nil32" using slab_repD(3) [OF assms(1)] by simp
  then show "i < 2 ^ 32" by (simp add: nil32_def)
qed

lemma slab_id_rep: "slab_rep s segs D \<Longrightarrow> i \<in> dom (slot_info s) \<Longrightarrow> slab_id i s = Some (join (slab_gen s i) i)"
  using slab_slot_less(1) by (fastforce simp: slab_id_def slab_gen_def)

lemma slab_nodes_join: "slab_rep s segs D \<Longrightarrow> i \<in> dom (slot_info s) \<Longrightarrow> slab_nodes s (join (slab_gen s i) i) = slot_info s i"
  unfolding slab_nodes_def by (intro node_view_join slab_slot_less(3) slab_gen_less)

lemma slab_resolve_rep:
  assumes R: "slab_rep s segs {}" and n: "n < 2 ^ 64"
  shows "slab_resolve n s = (if n \<in> dom (slab_nodes s) then Some (n mod 2 ^ 32) else None)"
proof -
  have sp: "split n = (n div 2 ^ 32, n mod 2 ^ 32)" using n by (simp add: split_def take_bit_eq_mod drop_bit_eq_div less_mult_imp_div_less)
  let ?i = "n mod 2 ^ 32"
  have shape: "slab_shape s segs {}" using R by (simp add: slab_rep_def)
  show ?thesis
  proof (cases "?i < length (sb_links s)")
    case False
    then have "slot_info s ?i = None" using slab_repD(1) [OF R] by (simp add: slot_info_def)
    with False show ?thesis using sp by (auto simp: slab_resolve_def vec_get_def slab_nodes_def node_view_def split: if_splits)
  next
    case True
    have "lk_seg (sb_links s ! ?i) \<noteq> free_seg \<longleftrightarrow> ?i \<in> dom (slot_info s)"
    proof (cases "?i \<in> dom (slot_info s)")
      case T: True
      then obtain q where q: "?i \<in> set (segs q)" using slab_repD(6) [OF R] by blast
      from slab_rep_seg(1,4) [OF R q] T show ?thesis by (simp add: free_seg_def)
    next
      case F: False
      then show ?thesis using True shape by (auto simp: slab_shape_def)
    qed
    moreover have "n \<in> dom (slab_nodes s) \<longleftrightarrow> ?i \<in> dom (slot_info s) \<and> lk_generation (sb_links s ! ?i) = n div 2 ^ 32"
      using True n by (simp add: slab_nodes_def node_view_def slab_gen_def dom_def)
    ultimately show ?thesis using True sp by (auto simp: slab_resolve_def)
  qed
qed

lemma slab_nodes_slot:
  assumes "slab_nodes s n = Some x"
  shows "slot_info s (n mod 2 ^ 32) = Some x" "join (slab_gen s (n mod 2 ^ 32)) (n mod 2 ^ 32) = n" "n < 2 ^ 64"
  using node_view_SomeD assms by (fastforce simp: slab_nodes_def) (use assms node_parts [of n] in \<open>auto simp: slab_nodes_def node_view_def split: if_splits\<close>)

text \<open>The nodes and the slots in use are in bijection, so costs and counts agree.\<close>

lemma slab_nodes_bij:
  assumes "slab_rep s segs D"
  shows "bij_betw (\<lambda>i. join (slab_gen s i) i) (dom (slot_info s)) (dom (slab_nodes s))"
proof (rule bij_betw_byWitness [where f' = "\<lambda>n. n mod 2 ^ 32"])
  show "\<forall>i \<in> dom (slot_info s). join (slab_gen s i) i mod 2 ^ 32 = i" using slab_slot_less(3) [OF assms] join_parts(1) by blast
  show "\<forall>n \<in> dom (slab_nodes s). join (slab_gen s (n mod 2 ^ 32)) (n mod 2 ^ 32) = n" using slab_nodes_slot(2) by blast
  show "(\<lambda>i. join (slab_gen s i) i) ` dom (slot_info s) \<subseteq> dom (slab_nodes s)" by (auto simp: slab_nodes_join [OF assms domI])
  show "(\<lambda>n. n mod 2 ^ 32) ` dom (slab_nodes s) \<subseteq> dom (slot_info s)" using slab_nodes_slot(1) by blast
qed

lemma slab_nodes_total:
  assumes "slab_rep s segs D"
  shows "total_cost (info_costs (slab_nodes s)) = slab_total s" "card (dom (slab_nodes s)) = card (dom (slot_info s))" "finite (dom (slab_nodes s))"
proof -
  note B = slab_nodes_bij [OF assms]
  show "card (dom (slab_nodes s)) = card (dom (slot_info s))" using bij_betw_same_card [OF B] by simp
  show "finite (dom (slab_nodes s))" using bij_betw_finite [OF B] slab_rep_finite [OF assms] by simp
  have "(\<Sum>n \<in> dom (slab_nodes s). the (info_costs (slab_nodes s) n)) =
      (\<Sum>i \<in> dom (slot_info s). the (info_costs (slab_nodes s) (join (slab_gen s i) i)))" by (rule sum.reindex_bij_betw [OF B, symmetric])
  also have "\<dots> = (\<Sum>i \<in> dom (slot_info s). the (info_costs (slot_info s) i))"
    by (intro sum.cong refl) (simp add: info_costs_def slab_nodes_join [OF assms])
  finally show "total_cost (info_costs (slab_nodes s)) = slab_total s" by (simp add: total_cost_def slab_total_def)
qed

end
