(* ===== verification/Shard_Policy.thy ===== *)
theory Shard_Policy
  imports Slab "HOL-Library.Word"
begin

section \<open>Policies that live inside a shard\<close>

text \<open>
  The trait \<^verbatim>\<open>ShardPolicy\<close> of \<^verbatim>\<open>cache/src/hpolicy.rs\<close>. A resident entry is named by the node id that
  \<^verbatim>\<open>admit\<close> returned; victims are named by hash and node id. The contract is stated against the map of
  the resident nodes: \<open>tracks s m\<close> says that the policy in state \<open>s\<close> knows exactly the nodes of \<open>m\<close>,
  with the hash and the cost \<open>m\<close> gives them. An id that names no resident node is ignored.
\<close>

type_synonym victim = "64 word \<times> nat"
type_synonym residents = "nat \<rightharpoonup> 64 word \<times> nat"

subsection \<open>The read ring, used by one thread\<close>

definition ring_size :: nat where
  "ring_size = 256"

record read_ring =
  rr_slots :: "nat list"
  rr_cursor :: nat

definition ring_new :: read_ring where
  "ring_new = \<lparr>rr_slots = replicate ring_size 0, rr_cursor = 0\<rparr>"

definition ring_push :: "nat \<Rightarrow> read_ring \<Rightarrow> (bool \<times> read_ring) option" where
  "ring_push node r =
     (if node = no_node then Some (True, r)
      else if rr_cursor r \<ge> ring_size then Some (False, r)
      else let i = rr_cursor r; r = r\<lparr>rr_cursor := u64_add i 1\<rparr>
           in if i < ring_size
              then do { slots \<leftarrow> vec_set i (u64_add node 1) (rr_slots r); Some (True, r\<lparr>rr_slots := slots\<rparr>) }
              else Some (False, r))"

text \<open>\<^verbatim>\<open>drain\<close> returns the nodes it hands to its callback, in order.\<close>

definition ring_drain :: "read_ring \<Rightarrow> (nat list \<times> read_ring) option" where
  "ring_drain r =
     (let n = min (rr_cursor r) ring_size
      in if n \<le> length (rr_slots r)
         then Some (map (\<lambda>v. v - 1) (filter (\<lambda>v. v \<noteq> 0) (take n (rr_slots r))),
                    r\<lparr>rr_cursor := 0, rr_slots := replicate n 0 @ drop n (rr_slots r)\<rparr>)
         else None)"

definition ring_ok :: "read_ring \<Rightarrow> bool" where
  "ring_ok r \<longleftrightarrow> length (rr_slots r) = ring_size \<and> (\<forall>v \<in> set (rr_slots r). v < 2 ^ 64)"

lemma ring_drain_ok:
  assumes "ring_ok r"
  obtains ns r' where "ring_drain r = Some (ns, r')" "\<forall>n \<in> set ns. n < 2 ^ 64" "ring_ok r'" "length ns \<le> ring_size"
proof -
  let ?n = "min (rr_cursor r) ring_size"
  let ?ns = "map (\<lambda>v. v - 1) (filter (\<lambda>v. v \<noteq> 0) (take ?n (rr_slots r)))"
  let ?r = "r\<lparr>rr_cursor := 0, rr_slots := replicate ?n 0 @ drop ?n (rr_slots r)\<rparr>"
  have "ring_drain r = Some (?ns, ?r)" using assms by (simp add: ring_drain_def ring_ok_def Let_def)
  moreover have "\<forall>n \<in> set ?ns. n < 2 ^ 64" using assms by (fastforce simp: ring_ok_def dest!: in_set_takeD)
  moreover have "ring_ok ?r" using assms by (auto simp: ring_ok_def dest!: in_set_dropD)
  moreover have "length ?ns \<le> ring_size" using length_filter_le [of "\<lambda>v. v \<noteq> 0" "take ?n (rr_slots r)"] by simp
  ultimately show thesis using that by blast
qed

subsection \<open>Calls, answers and the shard's table\<close>

record 's shard_policy_ops =
  sp_admit :: "64 word \<Rightarrow> nat \<Rightarrow> victim list \<Rightarrow> 's \<Rightarrow> (nat \<times> victim list \<times> 's) option"
  sp_update :: "nat \<Rightarrow> nat \<Rightarrow> 's \<Rightarrow> 's option"
  sp_remove :: "nat \<Rightarrow> 's \<Rightarrow> 's option"
  sp_evict :: "nat \<Rightarrow> victim list \<Rightarrow> 's \<Rightarrow> (victim list \<times> 's) option"
  sp_apply_reads :: "read_ring \<Rightarrow> 's \<Rightarrow> (read_ring \<times> 's) option"
  sp_touch :: "nat \<Rightarrow> 's \<Rightarrow> 's option"
  sp_apply_read :: "nat \<Rightarrow> 's \<Rightarrow> 's option"
  sp_clear :: "'s \<Rightarrow> 's"

datatype shard_call = SAdmit "64 word" nat | SUpdate nat nat | SRemove nat | SEvict nat
  | SApplyReads read_ring | STouch nat | SApplyRead nat | SClear

datatype shard_answer = SNode nat "victim list" | SVictims "victim list" | SDone

fun shard_exec :: "'s shard_policy_ops \<Rightarrow> shard_call \<Rightarrow> 's \<Rightarrow> (shard_answer \<times> 's) option" where
  "shard_exec ops (SAdmit h c) s = do { (n, out, s) \<leftarrow> sp_admit ops h c [] s; Some (SNode n out, s) }"
| "shard_exec ops (SUpdate n c) s = do { s \<leftarrow> sp_update ops n c s; Some (SDone, s) }"
| "shard_exec ops (SRemove n) s = do { s \<leftarrow> sp_remove ops n s; Some (SDone, s) }"
| "shard_exec ops (SEvict k) s = do { (out, s) \<leftarrow> sp_evict ops k [] s; Some (SVictims out, s) }"
| "shard_exec ops (SApplyReads r) s = do { (_, s) \<leftarrow> sp_apply_reads ops r s; Some (SDone, s) }"
| "shard_exec ops (STouch n) s = do { s \<leftarrow> sp_touch ops n s; Some (SDone, s) }"
| "shard_exec ops (SApplyRead n) s = do { s \<leftarrow> sp_apply_read ops n s; Some (SDone, s) }"
| "shard_exec ops SClear s = Some (SDone, sp_clear ops s)"

fun shard_run :: "'s shard_policy_ops \<Rightarrow> shard_call list \<Rightarrow> 's \<Rightarrow> (shard_answer list \<times> 's) option" where
  "shard_run ops [] s = Some ([], s)"
| "shard_run ops (c # cs) s = do { (a, s) \<leftarrow> shard_exec ops c s; (as, s) \<leftarrow> shard_run ops cs s; Some (a # as, s) }"

definition without :: "victim list \<Rightarrow> residents \<Rightarrow> residents" where
  "without out m = m |` (- snd ` set out)"

text \<open>The nodes resident in the shard after a call, given the policy's answer.\<close>

fun resident_step :: "shard_call \<Rightarrow> shard_answer \<Rightarrow> residents \<Rightarrow> residents" where
  "resident_step (SAdmit h c) (SNode n out) m = without out (m(n \<mapsto> (h, c)))"
| "resident_step (SUpdate n c) _ m = (case m n of None \<Rightarrow> m | Some (h, _) \<Rightarrow> m(n \<mapsto> (h, c)))"
| "resident_step (SRemove n) _ m = m(n := None)"
| "resident_step (SEvict k) (SVictims out) m = without out m"
| "resident_step SClear _ m = Map.empty"
| "resident_step _ _ m = m"

definition names :: "residents \<Rightarrow> victim list \<Rightarrow> bool" where
  "names m out \<longleftrightarrow> distinct (map snd out) \<and> (\<forall>(h, n) \<in> set out. \<exists>c. m n = Some (h, c))"

text \<open>
  The answers a shard can act on: an admission returns a fresh id that is not the reserved one, and
  every victim is a resident node, named once, with its own hash.
\<close>

fun shard_answer_ok :: "residents \<Rightarrow> shard_call \<Rightarrow> shard_answer \<Rightarrow> bool" where
  "shard_answer_ok m (SAdmit h c) (SNode n out) \<longleftrightarrow> m n = None \<and> n < 2 ^ 64 \<and> n \<noteq> no_node \<and> names (m(n \<mapsto> (h, c))) out"
| "shard_answer_ok m (SEvict k) (SVictims out) \<longleftrightarrow> names m out"
| "shard_answer_ok m (SAdmit h c) _ \<longleftrightarrow> False"
| "shard_answer_ok m (SEvict k) _ \<longleftrightarrow> False"
| "shard_answer_ok m _ a \<longleftrightarrow> a = SDone"

fun shard_in_step :: "residents \<Rightarrow> shard_call list \<Rightarrow> shard_answer list \<Rightarrow> bool" where
  "shard_in_step m [] [] \<longleftrightarrow> True"
| "shard_in_step m (c # cs) (a # as) \<longleftrightarrow> shard_answer_ok m c a \<and> shard_in_step (resident_step c a m) cs as"
| "shard_in_step m _ _ \<longleftrightarrow> False"

fun resident_after :: "shard_call list \<Rightarrow> shard_answer list \<Rightarrow> residents \<Rightarrow> residents" where
  "resident_after (c # cs) (a # as) m = resident_after cs as (resident_step c a m)"
| "resident_after _ _ m = m"

text \<open>Arguments that a caller can pass: ids are \<^verbatim>\<open>u64\<close> values, rings have their size.\<close>

fun shard_call_ok :: "shard_call \<Rightarrow> bool" where
  "shard_call_ok (SUpdate n c) \<longleftrightarrow> n < 2 ^ 64"
| "shard_call_ok (SRemove n) \<longleftrightarrow> n < 2 ^ 64"
| "shard_call_ok (STouch n) \<longleftrightarrow> n < 2 ^ 64"
| "shard_call_ok (SApplyRead n) \<longleftrightarrow> n < 2 ^ 64"
| "shard_call_ok (SApplyReads r) \<longleftrightarrow> ring_ok r"
| "shard_call_ok _ \<longleftrightarrow> True"

fun shard_call_cost :: "shard_call \<Rightarrow> nat" where
  "shard_call_cost (SAdmit h c) = c"
| "shard_call_cost (SUpdate n c) = c"
| "shard_call_cost _ = 0"

fun admits :: "shard_call \<Rightarrow> nat" where
  "admits (SAdmit h c) = 1"
| "admits _ = 0"

subsection \<open>The contract\<close>

definition resident_cost :: "residents \<Rightarrow> nat" where
  "resident_cost m = total_cost (info_costs m)"

lemma info_costs_without: "info_costs (without out m) = info_costs m |` (- snd ` set out)"
  by (auto simp: without_def info_costs_def restrict_map_def fun_eq_iff)

lemma resident_cost_without: "finite (dom m) \<Longrightarrow> resident_cost (without out m) \<le> resident_cost m"
  unfolding resident_cost_def info_costs_without by (rule total_mono) (auto simp: map_le_def)

lemma resident_cost_upd: "finite (dom m) \<Longrightarrow> resident_cost (m(n \<mapsto> (h, c))) \<le> resident_cost m + c"
  unfolding resident_cost_def info_costs_simps by (rule total_upd_le) simp

lemma resident_cost_del: "finite (dom m) \<Longrightarrow> resident_cost (m(n := None)) \<le> resident_cost m"
  unfolding resident_cost_def info_costs_simps by (rule total_drop_le) simp

lemma dom_without: "dom (without out m) \<subseteq> dom m"
  by (auto simp: without_def)

text \<open>Any answer a policy may give keeps the costs and the number of residents within what was paid in.\<close>

lemma resident_step_bounds:
  assumes "finite (dom m)" "shard_answer_ok m c a"
  shows "finite (dom (resident_step c a m)) \<and> resident_cost (resident_step c a m) \<le> resident_cost m + shard_call_cost c \<and>
    card (dom (resident_step c a m)) \<le> card (dom m) + admits c"
proof (cases c)
  case (SAdmit h k)
  with assms(2) obtain n out where a: "a = SNode n out" by (cases a) simp_all
  let ?m = "m(n \<mapsto> (h, k))"
  have f: "finite (dom ?m)" using assms(1) by simp
  have "card (dom (without out ?m)) \<le> card (dom ?m)" by (rule card_mono [OF f dom_without])
  also have "\<dots> \<le> card (dom m) + 1" using assms(1) by (simp add: card_insert_if)
  finally show ?thesis
    using resident_cost_without [OF f, of out] resident_cost_upd [OF assms(1), of n h k] finite_subset [OF dom_without f] a SAdmit
    by (simp del: fun_upd_apply)
next
  case (SEvict k)
  with assms(2) obtain out where a: "a = SVictims out" by (cases a) simp_all
  show ?thesis using resident_cost_without [OF assms(1), of out] finite_subset [OF dom_without assms(1)] card_mono [OF assms(1) dom_without] a SEvict
    by simp
next
  case (SUpdate n k)
  then show ?thesis
  proof (cases "m n")
    case (Some x)
    obtain h k0 where x: "x = (h, k0)" by force
    have "dom (m(n \<mapsto> (h, k))) = dom m" using Some by auto
    with assms(1) Some SUpdate x resident_cost_upd [OF assms(1), of n h k] show ?thesis by (simp del: fun_upd_apply dom_fun_upd)
  qed (use assms(1) SUpdate in simp)
next
  case (SRemove n)
  have "card (dom m - {n}) \<le> card (dom m)" using assms(1) by (rule card_mono) auto
  with SRemove resident_cost_del [OF assms(1), of n] assms(1) show ?thesis by (simp del: fun_upd_apply)
qed (use assms(1) in \<open>simp_all add: resident_cost_def\<close>)

locale shard_policy =
  fixes tracks :: "'s \<Rightarrow> residents \<Rightarrow> bool"
    and ops :: "'s shard_policy_ops"
  assumes tracks_finite: "tracks s m \<Longrightarrow> finite (dom m)"
    and exec_tracks: "tracks s m \<Longrightarrow> resident_cost m + shard_call_cost c < 2 ^ 64 \<Longrightarrow> card (dom m) + admits c \<le> nil32 \<Longrightarrow> shard_call_ok c \<Longrightarrow>
      \<exists>a s'. shard_exec ops c s = Some (a, s') \<and> shard_answer_ok m c a \<and> tracks s' (resident_step c a m)"
begin

lemma run_in_step:
  assumes "tracks s m" "resident_cost m + sum_list (map shard_call_cost cs) < 2 ^ 64" "card (dom m) + sum_list (map admits cs) \<le> nil32"
    "\<forall>c \<in> set cs. shard_call_ok c"
  shows "\<exists>as s'. shard_run ops cs s = Some (as, s') \<and> shard_in_step m cs as \<and> tracks s' (resident_after cs as m)"
  using assms
proof (induction cs arbitrary: s m)
  case Nil
  then show ?case by (intro exI [of _ "[]"]) simp
next
  case (Cons c cs)
  from Cons.prems obtain a s1 where e: "shard_exec ops c s = Some (a, s1)" "shard_answer_ok m c a" "tracks s1 (resident_step c a m)"
    using exec_tracks [of s m c] by auto
  have b: "resident_cost (resident_step c a m) \<le> resident_cost m + shard_call_cost c" "card (dom (resident_step c a m)) \<le> card (dom m) + admits c"
    using resident_step_bounds [OF tracks_finite [OF Cons.prems(1)] e(2)] by simp_all
  have "\<exists>as s'. shard_run ops cs s1 = Some (as, s') \<and> shard_in_step (resident_step c a m) cs as \<and> tracks s' (resident_after cs as (resident_step c a m))"
    using Cons.prems b by (intro Cons.IH e(3)) simp_all
  then obtain as s' where "shard_run ops cs s1 = Some (as, s')" "shard_in_step (resident_step c a m) cs as"
    "tracks s' (resident_after cs as (resident_step c a m))" by blast
  with e show ?case by (intro exI [of _ "a # as"]) simp
qed

end

subsection \<open>Slab steps of the policies\<close>

definition slab_list :: "nat \<Rightarrow> 'p slab \<Rightarrow> seg_list option" where
  "slab_list seg s = vec_get (sb_lists s) seg"

definition slab_payload :: "nat \<Rightarrow> 'p slab \<Rightarrow> 'p option" where
  "slab_payload i s = Option.bind (vec_get (sb_payload s) i) (\<lambda>p. p)"

definition slab_drop_node :: "nat \<Rightarrow> victim list \<Rightarrow> 64 word slab \<Rightarrow> (victim list \<times> 64 word slab) option" where
  "slab_drop_node i out s = do { id \<leftarrow> slab_id i s; (hash, s) \<leftarrow> slab_release i s; Some (out @ [(hash, id)], s) }"

definition seg_cost :: "'p slab \<Rightarrow> nat list \<Rightarrow> nat" where
  "seg_cost s xs = sum_list (map (slot_cost s) xs)"

definition same_nodes :: "'p slab \<Rightarrow> 'p slab \<Rightarrow> bool" where
  "same_nodes s' s \<longleftrightarrow> slot_info s' = slot_info s \<and> slab_gen s' = slab_gen s"

lemma same_nodesD:
  assumes "same_nodes s' s"
  shows "slot_info s' = slot_info s" "slab_gen s' = slab_gen s" "slab_nodes s' = slab_nodes s" "slot_cost s' = slot_cost s"
    "seg_cost s' xs = seg_cost s xs" "slab_total s' = slab_total s"
proof -
  show i: "slot_info s' = slot_info s" and g: "slab_gen s' = slab_gen s" using assms by (simp_all add: same_nodes_def)
  show "slab_nodes s' = slab_nodes s" by (simp add: slab_nodes_def i g)
  show c: "slot_cost s' = slot_cost s" by (simp add: slot_cost_def i fun_eq_iff)
  then show "seg_cost s' xs = seg_cost s xs" by (simp add: seg_cost_def)
  show "slab_total s' = slab_total s" by (simp add: slab_total_def i)
qed

lemma same_nodes_refl [simp]: "same_nodes s s"
  by (simp add: same_nodes_def)

lemma same_nodes_trans: "same_nodes a b \<Longrightarrow> same_nodes b c \<Longrightarrow> same_nodes a c"
  by (simp add: same_nodes_def)

lemma slab_list_rep:
  assumes R: "slab_rep s segs D" and q: "q < 3"
  obtains l where "slab_list q s = Some l" "sg_cost l = seg_cost s (segs q)" "sg_tail l = nil_or (final (segs q))"
proof -
  let ?l = "sb_lists s ! q"
  have "list_rep s q (segs q)" using R q by (simp add: slab_rep_def)
  note H = list_rep_head [OF this]
  have "slab_list q s = Some ?l" using q slab_repD(4) [OF R] by (simp add: slab_list_def)
  moreover have "sg_tail ?l = nil_or (final (segs q))" using H(2) by (rule ptr_nil_or)
  ultimately show thesis using that H(3) by (simp add: seg_cost_def)
qed

lemma slab_tail_slot:
  assumes R: "slab_rep s segs D" and "segs q = xs @ [i]"
  shows "i \<noteq> nil32" "i \<in> dom (slot_info s)" "vec_get (sb_costs s) i = Some (slot_cost s i)"
proof -
  have i: "i \<in> set (segs q)" using assms(2) by simp
  show "i \<noteq> nil32" "i \<in> dom (slot_info s)" using slab_rep_seg(3,5) [OF R i] by auto
  show "vec_get (sb_costs s) i = Some (slot_cost s i)"
    using slot_cost_nth [OF R slab_rep_seg(3) [OF R i]] slab_rep_seg(2) [OF R i] slab_repD(2) [OF R] by simp
qed

lemma slab_payload_rep: "slot_info s i = Some (p, c) \<Longrightarrow> slab_payload i s = Some p"
  by (auto simp: slot_info_def slab_payload_def split: if_splits)

text \<open>A node moves from one segment to the front of another.\<close>

lemma slab_shift_rep:
  assumes R: "slab_rep s segs {}" and a: "segs a = xs @ i # ys" and b: "b < 3" "b \<noteq> a"
  shows "\<exists>s1 s2. slab_unlink i s = Some s1 \<and> slab_push_front b i s1 = Some s2 \<and>
    slab_rep s2 (segs(a := xs @ ys, b := i # segs b)) {} \<and> same_nodes s2 s"
proof -
  from slab_unlink_rep [OF R a] obtain s1 where u: "slab_unlink i s = Some s1" "slab_rep s1 (segs(a := xs @ ys)) {i}"
    "slot_info s1 = slot_info s" "slab_gen s1 = slab_gen s" by auto
  from slab_push_front_rep [OF u(2) _ b(1), of i] obtain s2 where p: "slab_push_front b i s1 = Some s2"
    "slab_rep s2 ((segs(a := xs @ ys))(b := i # (segs(a := xs @ ys)) b)) ({i} - {i})" "slot_info s2 = slot_info s1" "slab_gen s2 = slab_gen s1" by blast
  from p(2) b(2) have "slab_rep s2 (segs(a := xs @ ys, b := i # segs b)) {}" by simp
  with u p show ?thesis by (auto simp: same_nodes_def)
qed

text \<open>A node leaves the slab.\<close>

lemma slab_release_nodes:
  assumes R: "slab_rep s segs {i}"
  shows "\<exists>h c s'. slab_id i s = Some (join (slab_gen s i) i) \<and> slab_release i s = Some (h, s') \<and> slab_rep s' segs {} \<and>
    slot_info s i = Some (h, c) \<and> slab_nodes s (join (slab_gen s i) i) = Some (h, c) \<and> slab_nodes s' = (slab_nodes s)(join (slab_gen s i) i := None)"
proof -
  from slab_release_rep [OF R, of i] obtain h c s' where r: "slot_info s i = Some (h, c)" "slab_release i s = Some (h, s')" "slab_rep s' segs {}"
    "slot_info s' = (slot_info s)(i := None)" "slab_gen s' = (slab_gen s)(i := (slab_gen s i + 1) mod 2 ^ 32)" by auto
  have d: "i \<in> dom (slot_info s)" using r(1) by auto
  have "slab_nodes s' = (slab_nodes s)(join (slab_gen s i) i := None)"
    unfolding slab_nodes_def r(4,5) by (rule node_view_del [OF slab_slot_less(3) [OF R d] slab_gen_less [OF R]])
  with r slab_id_rep [OF R d] slab_nodes_join [OF R d] show ?thesis by auto
qed

lemma slab_drop_rep:
  assumes R: "slab_rep s segs {}" and a: "segs a = xs @ i # ys"
  shows "\<exists>s1 s2 h n. slab_unlink i s = Some s1 \<and> slab_rep s1 (segs(a := xs @ ys)) {i} \<and> same_nodes s1 s \<and>
    (\<forall>out. slab_drop_node i out s1 = Some (out @ [(h, n)], s2)) \<and> slab_release i s1 = Some (h, s2) \<and>
    slab_rep s2 (segs(a := xs @ ys)) {} \<and> n = join (slab_gen s i) i \<and>
    slab_nodes s n = Some (h, slot_cost s i) \<and> slab_nodes s2 = (slab_nodes s)(n := None)"
proof -
  from slab_unlink_rep [OF R a] obtain s1 where u: "slab_unlink i s = Some s1" "slab_rep s1 (segs(a := xs @ ys)) {i}" "same_nodes s1 s"
    by (auto simp: same_nodes_def)
  from slab_release_nodes [OF u(2)] obtain h c s2 where r: "slab_id i s1 = Some (join (slab_gen s1 i) i)" "slab_release i s1 = Some (h, s2)"
    "slab_rep s2 (segs(a := xs @ ys)) {}" "slot_info s1 i = Some (h, c)"
    "slab_nodes s1 (join (slab_gen s1 i) i) = Some (h, c)" "slab_nodes s2 = (slab_nodes s1)(join (slab_gen s1 i) i := None)" by blast
  have "c = slot_cost s i" using r(4) same_nodesD(1) [OF u(3)] by (simp add: slot_cost_def)
  moreover have "slab_drop_node i out s1 = Some (out @ [(h, join (slab_gen s i) i)], s2)" for out
    using r(1,2) same_nodesD(2) [OF u(3)] by (simp add: slab_drop_node_def)
  ultimately show ?thesis using u r same_nodesD [OF u(3)] by auto
qed

text \<open>Allocation at the front of a segment: the new id is fresh and not the reserved one.\<close>

lemma slab_insert_rep:
  assumes R: "slab_rep s segs {}" and fits: "slab_total s + c < 2 ^ 64" and room: "card (dom (slot_info s)) < nil32" and q: "q < 3"
  shows "\<exists>i s1 s2 n. slab_alloc h c s = Some (i, s1) \<and> slab_push_front q i s1 = Some s2 \<and> slab_id i s2 = Some n \<and>
    slab_rep s2 (segs(q := i # segs q)) {} \<and> slab_nodes s n = None \<and> n < 2 ^ 64 \<and> n \<noteq> no_node \<and> slab_nodes s2 = (slab_nodes s)(n \<mapsto> (h, c)) \<and>
    slot_info s i = None \<and> slot_info s2 = (slot_info s)(i \<mapsto> (h, c)) \<and> n = join (slab_gen s i) i"
proof -
  from slab_alloc_rep [OF R fits room, of h] obtain i s1 where a: "slab_alloc h c s = Some (i, s1)" "slot_info s i = None" "slab_rep s1 segs {i}"
    "slot_info s1 = (slot_info s)(i \<mapsto> (h, c))" "slab_gen s1 = slab_gen s" by blast
  from slab_push_front_rep [OF a(3) _ q, of i] obtain s2 where p: "slab_push_front q i s1 = Some s2" "slab_rep s2 (segs(q := i # segs q)) {}"
    "slot_info s2 = slot_info s1" "slab_gen s2 = slab_gen s1" by auto
  have d: "i \<in> dom (slot_info s2)" using p(3) a(4) by auto
  note L = slab_slot_less [OF p(2) d]
  have g: "slab_gen s i < 2 ^ 32" by (rule slab_gen_less [OF R])
  let ?n = "join (slab_gen s i) i"
  have id: "slab_id i s2 = Some ?n" using slab_id_rep [OF p(2) d] p(4) a(5) by simp
  have old: "slab_nodes s ?n = None" unfolding slab_nodes_def using node_view_join [of i "slab_gen s" "slot_info s"] L(3) g a(2) by simp
  have "slab_nodes s2 = (slab_nodes s)(?n \<mapsto> (h, c))" unfolding slab_nodes_def p(3,4) a(4,5) by (rule node_view_upd) (use L(3) g in simp_all)
  moreover have "?n \<noteq> no_node"
  proof
    assume "?n = no_node"
    then have "?n mod 2 ^ 32 = 2 ^ 32 - 1" by (simp add: no_node_def)
    then show False using join_parts(1) [OF L(3)] L(2) by (simp add: nil32_def)
  qed
  ultimately show ?thesis using a p id old join_parts(3) [OF L(3) g] by (intro exI [of _ i] exI [of _ s1] exI [of _ s2] exI [of _ ?n]) simp
qed

lemma without_apply: "without out m n = (if n \<in> snd ` set out then None else m n)"
  by (simp add: without_def restrict_map_def)

lemma names_Nil [simp]: "names m []" "without [] m = m"
  by (simp_all add: names_def without_apply fun_eq_iff)

lemma names_Cons:
  assumes "m n = Some (h, c)" "names (m(n := None)) out"
  shows "names m ((h, n) # out)" "without ((h, n) # out) m = without out (m(n := None))"
proof -
  have n: "n \<notin> snd ` set out" using assms(2) by (fastforce simp: names_def)
  show "names m ((h, n) # out)" using assms n by (fastforce simp: names_def split: if_splits)
  show "without ((h, n) # out) m = without out (m(n := None))" by (auto simp: without_def restrict_map_def fun_eq_iff)
qed

lemma names_elem: "names m out \<Longrightarrow> x \<in> set out \<Longrightarrow> \<exists>c. m (snd x) = Some (fst x, c)"
  by (cases x) (auto simp: names_def)

lemma names_append:
  assumes "names m out" "names (without out m) out'"
  shows "names m (out @ out')" "without (out @ out') m = without out' (without out m)"
proof -
  have v: "snd x \<notin> snd ` set out \<and> (\<exists>c. m (snd x) = Some (fst x, c))" if "x \<in> set out'" for x
  proof -
    from names_elem [OF assms(2) that] obtain c where "without out m (snd x) = Some (fst x, c)" by blast
    then show ?thesis by (simp add: without_apply split: if_splits)
  qed
  have dj: "snd ` set out \<inter> snd ` set out' = {}" unfolding disjoint_iff using v by (metis imageE)
  have "\<forall>x \<in> set (out @ out'). \<exists>c. m (snd x) = Some (fst x, c)" using v names_elem [OF assms(1)] by (simp add: ball_Un)
  moreover have "distinct (map snd (out @ out'))" using dj assms unfolding names_def by simp
  ultimately show "names m (out @ out')" unfolding names_def by (simp add: split_beta)
  show "without (out @ out') m = without out' (without out m)" by (simp add: without_apply fun_eq_iff image_Un)
qed

text \<open>The nodes of a list, as victims.\<close>

definition victim_at :: "64 word slab \<Rightarrow> nat \<Rightarrow> victim" where
  "victim_at s i = (fst (the (slot_info s i)), join (slab_gen s i) i)"

text \<open>
  The slots of \<open>ys\<close> were released, from the last to the first.
\<close>

definition drained :: "64 word slab \<Rightarrow> nat list \<Rightarrow> 64 word slab \<Rightarrow> bool" where
  "drained s ys s' \<longleftrightarrow> slot_info s' = slot_info s |` (- set ys) \<and> (\<forall>j. j \<notin> set ys \<longrightarrow> slab_gen s' j = slab_gen s j) \<and>
     names (slab_nodes s) (map (victim_at s) (rev ys)) \<and> slab_nodes s' = without (map (victim_at s) (rev ys)) (slab_nodes s)"

lemma drained_Nil [simp]: "drained s [] s"
  by (simp add: drained_def restrict_map_def)

lemma drained_keeps:
  assumes "drained s ys s'" "set xs \<inter> set ys = {}"
  shows "seg_cost s' xs = seg_cost s xs" "map (victim_at s') xs = map (victim_at s) xs"
proof -
  have "slot_info s' j = slot_info s j \<and> slab_gen s' j = slab_gen s j" if "j \<in> set xs" for j
    using assms that by (auto simp: drained_def restrict_map_def)
  then show "seg_cost s' xs = seg_cost s xs" "map (victim_at s') xs = map (victim_at s) xs"
    by (auto simp: seg_cost_def slot_cost_def victim_at_def intro!: arg_cong [where f = sum_list] map_cong)
qed

lemma drained_append:
  assumes a: "drained s ys s'" and b: "drained s' xs s''" and dj: "set xs \<inter> set ys = {}"
  shows "drained s (xs @ ys) s''"
proof -
  have v: "map (victim_at s') (rev xs) = map (victim_at s) (rev xs)" by (rule drained_keeps(2) [OF a]) (use dj in simp)
  have n: "names (slab_nodes s) (map (victim_at s) (rev ys))" "names (without (map (victim_at s) (rev ys)) (slab_nodes s)) (map (victim_at s) (rev xs))"
    "slab_nodes s' = without (map (victim_at s) (rev ys)) (slab_nodes s)" "slab_nodes s'' = without (map (victim_at s) (rev xs)) (slab_nodes s')"
    using a b v by (simp_all add: drained_def)
  have "slot_info s'' = slot_info s |` (- set (xs @ ys))" using a b by (auto simp: drained_def restrict_map_def fun_eq_iff)
  moreover have "\<forall>j. j \<notin> set (xs @ ys) \<longrightarrow> slab_gen s'' j = slab_gen s j" using a b by (simp add: drained_def)
  ultimately show ?thesis using names_append [OF n(1,2)] n(3,4) unfolding drained_def by simp
qed

lemma seg_cost_simps [simp]: "seg_cost s [] = 0" "seg_cost s (x # xs) = slot_cost s x + seg_cost s xs" "seg_cost s (xs @ ys) = seg_cost s xs + seg_cost s ys"
  by (simp_all add: seg_cost_def)

lemma slab_drop_tail:
  assumes R: "slab_rep s segs {}" and q: "segs q = xs @ [i]"
  shows "\<exists>s1 s2. slab_unlink i s = Some s1 \<and> (\<forall>out. slab_drop_node i out s1 = Some (out @ [victim_at s i], s2)) \<and>
    slab_rep s2 (segs(q := xs)) {} \<and> drained s [i] s2 \<and> same_nodes s1 s \<and> slab_rep s1 (segs(q := xs)) {i}"
proof -
  have e: "segs q = xs @ i # []" using q by simp
  from slab_unlink_rep [OF R e] obtain s1 where u: "slab_unlink i s = Some s1" "slab_rep s1 (segs(q := xs)) {i}" "same_nodes s1 s"
    by (auto simp: same_nodes_def)
  from slab_release_rep [OF u(2), of i] obtain h c s2 where r: "slot_info s1 i = Some (h, c)" "slab_release i s1 = Some (h, s2)" "slab_rep s2 (segs(q := xs)) {}"
    "slot_info s2 = (slot_info s1)(i := None)" "slab_gen s2 = (slab_gen s1)(i := (slab_gen s1 i + 1) mod 2 ^ 32)" by auto
  note N = same_nodesD [OF u(3)]
  let ?n = "join (slab_gen s i) i"
  have d: "i \<in> dom (slot_info s1)" using r(1) by auto
  have v: "victim_at s i = (h, ?n)" using r(1) N(1,2) by (simp add: victim_at_def)
  have n2: "slab_nodes s2 = (slab_nodes s)(?n := None)"
    using node_view_del [OF slab_slot_less(3) [OF u(2) d] slab_gen_less [OF u(2)], of "slot_info s1"] r(4,5) N(1,2)
    by (simp add: slab_nodes_def del: fun_upd_apply)
  have n1: "slab_nodes s ?n = Some (h, c)" using slab_nodes_join [OF u(2) d] r(1) N(2,3) by simp
  have drop: "slab_drop_node i out s1 = Some (out @ [victim_at s i], s2)" for out
    using slab_id_rep [OF u(2) d] r(2) N(2) v by (simp add: slab_drop_node_def)
  note M = names_Cons [of "slab_nodes s" ?n h c "[]", OF n1]
  have "slot_info s2 = slot_info s |` (- set [i])" using r(4) N(1) by (auto simp: restrict_map_def fun_eq_iff)
  moreover have "\<forall>j. j \<notin> set [i] \<longrightarrow> slab_gen s2 j = slab_gen s j" using r(5) N(2) by simp
  ultimately have "drained s [i] s2" using M n2 v by (simp add: drained_def del: fun_upd_apply)
  with u r(3) drop show ?thesis by blast
qed

lemma slab_tail_payload:
  assumes "slab_rep s segs D" "q < 3" "final (segs q) = Some t"
  obtains h where "slab_payload t s = Some h" "t \<noteq> nil32"
proof -
  from assms(3) obtain xs where "segs q = xs @ [t]" by (metis final_SomeD)
  from slab_tail_slot(1,2) [OF assms(1) this] slab_payload_rep that show thesis by fastforce
qed

lemma slab_set_cost_nodes:
  assumes R: "slab_rep s segs {}" and n: "slab_nodes s n = Some (h, c0)" and fits: "slab_total s + c < 2 ^ 64"
  shows "\<exists>s'. slab_set_cost (n mod 2 ^ 32) c s = Some s' \<and> slab_rep s' segs {} \<and> slab_nodes s' = (slab_nodes s)(n \<mapsto> (h, c)) \<and>
    dom (slot_info s') = dom (slot_info s) \<and> (\<forall>j. slab_payload j s' = slab_payload j s)"
proof -
  let ?i = "n mod 2 ^ 32"
  note S = slab_nodes_slot [OF n]
  obtain q where q: "?i \<in> set (segs q)" using slab_repD(6) [OF R] S(1) by blast
  from slab_set_cost_rep [OF R q S(1) fits] obtain s' where r: "slab_set_cost ?i c s = Some s'" "slab_rep s' segs {}"
    "slot_info s' = (slot_info s)(?i \<mapsto> (h, c))" "slab_gen s' = slab_gen s" by blast
  have "slab_nodes s' = (slab_nodes s)(join (slab_gen s ?i) ?i \<mapsto> (h, c))"
    unfolding slab_nodes_def r(3,4) by (rule node_view_upd) (use slab_gen_less [OF R, of ?i] in simp_all)
  moreover have "slab_payload j s' = slab_payload j s" for j
    using r(1) by (auto simp: slab_set_cost_def slab_payload_def bind_eq_Some_conv)
  moreover have "dom (slot_info s') = dom (slot_info s)" using r(3) S(1) by auto
  ultimately show ?thesis using r(1,2) S(2) by (simp del: fun_upd_apply)
qed

text \<open>Removing a node, for both policies.\<close>

lemma slab_remove_nodes:
  fixes s :: "64 word slab"
  assumes R: "slab_rep s segs {}" and n: "slab_nodes s n = Some (h, c)"
  shows "\<exists>s1 s2 segs'. slab_unlink (n mod 2 ^ 32) s = Some s1 \<and> slab_release (n mod 2 ^ 32) s1 = Some (h, s2) \<and> slab_rep s2 segs' {} \<and>
    slab_nodes s2 = (slab_nodes s)(n := None)"
proof -
  let ?i = "n mod 2 ^ 32"
  note S = slab_nodes_slot [OF n]
  obtain q where q: "?i \<in> set (segs q)" using slab_repD(6) [OF R] S(1) by blast
  obtain xs ys where xy: "segs q = xs @ ?i # ys" using split_list [OF q] by blast
  from slab_drop_rep [OF R xy] S(2) n show ?thesis by fastforce
qed

end
