(* ===== verification/Htinylfu.thy ===== *)
theory Htinylfu
  imports Shard_Policy Sketch Float64
begin

section \<open>W-TinyLFU on node handles\<close>

text \<open>
  \<^verbatim>\<open>HTinyLfu\<close> of \<^verbatim>\<open>cache/src/hpolicy.rs\<close>: the window, the probation and the protected segment are three
  lists of one slab; the payload of a node is the hash of its entry.
\<close>

definition window_seg :: nat where "window_seg = 0"
definition probation_seg :: nat where "probation_seg = 1"
definition protected_seg :: nat where "protected_seg = 2"

record htinylfu =
  ht_slab :: "64 word slab"
  ht_sketch :: hsketch
  ht_window_target :: nat
  ht_main_capacity :: nat
  ht_prot_capacity :: nat

definition htinylfu_new :: "nat \<Rightarrow> htinylfu" where
  "htinylfu_new capacity =
     (let window_target = (if capacity = 0 then 0 else max (share_01 capacity) 1);
          main = saturating_sub capacity window_target;
          prot_capacity = (if main = 0 then 0 else saturating_sub main (max (share_20 main) 1))
      in \<lparr>ht_slab = slab_new, ht_sketch = hsketch_new (max ((capacity * 10) mod 2 ^ 64) 100), ht_window_target = window_target,
          ht_main_capacity = main, ht_prot_capacity = prot_capacity\<rparr>)"

definition ht_hash_of :: "nat \<Rightarrow> htinylfu \<Rightarrow> 64 word option" where
  "ht_hash_of i p = slab_payload i (ht_slab p)"

partial_function (option) ht_maintain :: "htinylfu \<Rightarrow> htinylfu option" where
  "ht_maintain p =
     do { prot \<leftarrow> slab_list protected_seg (ht_slab p);
          (if sg_cost prot > ht_prot_capacity p
           then let t = sg_tail prot
                in if t = nil32 then Some p
                   else do { s \<leftarrow> slab_unlink t (ht_slab p);
                             s \<leftarrow> slab_push_front probation_seg t s;
                             ht_maintain (p\<lparr>ht_slab := s\<rparr>) }
           else Some p) }"

definition ht_touch :: "nat \<Rightarrow> htinylfu \<Rightarrow> htinylfu option" where
  "ht_touch i p =
     do { l \<leftarrow> vec_get (sb_links (ht_slab p)) i;
          (if lk_seg l = window_seg then do { s \<leftarrow> slab_move_front window_seg i (ht_slab p); Some (p\<lparr>ht_slab := s\<rparr>) }
           else if lk_seg l = probation_seg
           then do { s \<leftarrow> slab_unlink i (ht_slab p); s \<leftarrow> slab_push_front protected_seg i s; ht_maintain (p\<lparr>ht_slab := s\<rparr>) }
           else do { s \<leftarrow> slab_move_front protected_seg i (ht_slab p); Some (p\<lparr>ht_slab := s\<rparr>) }) }"

definition ht_touch_node :: "nat \<Rightarrow> htinylfu \<Rightarrow> htinylfu option" where
  "ht_touch_node node p =
     (case slab_resolve node (ht_slab p) of
        None \<Rightarrow> Some p
      | Some i \<Rightarrow> do { h \<leftarrow> ht_hash_of i p; sketch \<leftarrow> hsketch_increment h (ht_sketch p); ht_touch i (p\<lparr>ht_sketch := sketch\<rparr>) })"

definition ht_drop_node :: "nat \<Rightarrow> victim list \<Rightarrow> htinylfu \<Rightarrow> (victim list \<times> htinylfu) option" where
  "ht_drop_node i out p = do { (out, s) \<leftarrow> slab_drop_node i out (ht_slab p); Some (out, p\<lparr>ht_slab := s\<rparr>) }"

text \<open>The admission test of a candidate that was unlinked from the window.\<close>

definition ht_admit_candidate :: "nat \<Rightarrow> htinylfu \<Rightarrow> bool option" where
  "ht_admit_candidate cand p =
     do { prob \<leftarrow> slab_list probation_seg (ht_slab p);
          prot \<leftarrow> slab_list protected_seg (ht_slab p);
          c \<leftarrow> vec_get (sb_costs (ht_slab p)) cand;
          (if u64_add (u64_add (sg_cost prob) (sg_cost prot)) c \<le> ht_main_capacity p then Some True
           else let victim = (if sg_tail prob = nil32 then sg_tail prot else sg_tail prob)
                in if victim = nil32 then Some True
                   else do { ch \<leftarrow> ht_hash_of cand p; ce \<leftarrow> hsketch_estimate ch (ht_sketch p);
                             vh \<leftarrow> ht_hash_of victim p; ve \<leftarrow> hsketch_estimate vh (ht_sketch p);
                             Some (ce \<ge> ve) }) }"

partial_function (option) ht_window_loop :: "victim list \<Rightarrow> htinylfu \<Rightarrow> (victim list \<times> htinylfu) option" where
  "ht_window_loop out p =
     do { win \<leftarrow> slab_list window_seg (ht_slab p);
          (if sg_cost win > ht_window_target p
           then let cand = sg_tail win
                in if cand = nil32 then Some (out, p)
                   else do { s \<leftarrow> slab_unlink cand (ht_slab p);
                             let p = p\<lparr>ht_slab := s\<rparr>;
                             admit \<leftarrow> ht_admit_candidate cand p;
                             (if admit
                              then do { s \<leftarrow> slab_push_front probation_seg cand (ht_slab p); ht_window_loop out (p\<lparr>ht_slab := s\<rparr>) }
                              else do { (out, p) \<leftarrow> ht_drop_node cand out p; ht_window_loop out p }) }
           else Some (out, p)) }"

definition ht_admit_key :: "64 word \<Rightarrow> nat \<Rightarrow> victim list \<Rightarrow> htinylfu \<Rightarrow> (nat \<times> victim list \<times> htinylfu) option" where
  "ht_admit_key hash cost out p =
     do { sketch \<leftarrow> hsketch_increment hash (ht_sketch p);
          (i, s) \<leftarrow> slab_alloc hash cost (ht_slab p);
          s \<leftarrow> slab_push_front window_seg i s;
          id \<leftarrow> slab_id i s;
          (out, p) \<leftarrow> ht_window_loop out (p\<lparr>ht_sketch := sketch, ht_slab := s\<rparr>);
          Some (id, out, p) }"

text \<open>The inner loop of the eviction, for one segment.\<close>

partial_function (option) ht_drain ::
  "nat \<Rightarrow> nat \<Rightarrow> victim list \<Rightarrow> htinylfu \<Rightarrow> (nat \<times> victim list \<times> htinylfu) option" where
  "ht_drain seg cost_to_free out p =
     (if cost_to_free > 0
      then do { l \<leftarrow> slab_list seg (ht_slab p);
                let t = sg_tail l;
                (if t = nil32 then Some (cost_to_free, out, p)
                 else do { c \<leftarrow> vec_get (sb_costs (ht_slab p)) t;
                           s \<leftarrow> slab_unlink t (ht_slab p);
                           (out, p) \<leftarrow> ht_drop_node t out (p\<lparr>ht_slab := s\<rparr>);
                           ht_drain seg (saturating_sub cost_to_free c) out p }) }
      else Some (cost_to_free, out, p))"

definition ht_evict_nodes :: "nat \<Rightarrow> victim list \<Rightarrow> htinylfu \<Rightarrow> (victim list \<times> htinylfu) option" where
  "ht_evict_nodes cost_to_free out p =
     do { p \<leftarrow> ht_maintain p;
          (n, out, p) \<leftarrow> ht_drain probation_seg cost_to_free out p;
          (_, out, p) \<leftarrow> ht_drain protected_seg n out p;
          Some (out, p) }"

definition ht_update :: "nat \<Rightarrow> nat \<Rightarrow> htinylfu \<Rightarrow> htinylfu option" where
  "ht_update node cost p =
     (case slab_resolve node (ht_slab p) of
        None \<Rightarrow> Some p
      | Some i \<Rightarrow> do { h \<leftarrow> ht_hash_of i p; sketch \<leftarrow> hsketch_increment h (ht_sketch p);
                      s \<leftarrow> slab_set_cost i cost (ht_slab p);
                      ht_touch i (p\<lparr>ht_sketch := sketch, ht_slab := s\<rparr>) })"

definition ht_remove :: "nat \<Rightarrow> htinylfu \<Rightarrow> htinylfu option" where
  "ht_remove node p =
     (case slab_resolve node (ht_slab p) of
        None \<Rightarrow> Some p
      | Some i \<Rightarrow> do { s \<leftarrow> slab_unlink i (ht_slab p); (_, s) \<leftarrow> slab_release i s; Some (p\<lparr>ht_slab := s\<rparr>) })"

fun ht_touch_all :: "nat list \<Rightarrow> htinylfu \<Rightarrow> htinylfu option" where
  "ht_touch_all [] p = Some p"
| "ht_touch_all (n # ns) p = do { p \<leftarrow> ht_touch_node n p; ht_touch_all ns p }"

definition ht_apply_reads :: "read_ring \<Rightarrow> htinylfu \<Rightarrow> (read_ring \<times> htinylfu) option" where
  "ht_apply_reads ring p =
     do { (nodes, ring) \<leftarrow> ring_drain ring;
          (if length nodes \<le> ring_size then do { p \<leftarrow> ht_touch_all nodes p; Some (ring, p) } else None) }"

definition ht_clear :: "htinylfu \<Rightarrow> htinylfu" where
  "ht_clear p = p\<lparr>ht_slab := slab_clear (ht_slab p), ht_sketch := hsketch_clear (ht_sketch p)\<rparr>"

definition htinylfu_ops :: "htinylfu shard_policy_ops" where
  "htinylfu_ops = \<lparr>sp_admit = ht_admit_key, sp_update = ht_update, sp_remove = ht_remove, sp_evict = ht_evict_nodes,
     sp_apply_reads = ht_apply_reads, sp_touch = (\<lambda>_. Some), sp_apply_read = ht_touch_node, sp_clear = ht_clear\<rparr>"

subsection \<open>Segments\<close>

lemma seg_simps [simp]: "window_seg < 3" "probation_seg < 3" "protected_seg < 3" "window_seg \<noteq> probation_seg" "window_seg \<noteq> protected_seg"
  "probation_seg \<noteq> window_seg" "protected_seg \<noteq> window_seg" "probation_seg \<noteq> protected_seg" "protected_seg \<noteq> probation_seg"
  by (simp_all add: window_seg_def probation_seg_def protected_seg_def)

lemma seg_cases: "q < 3 \<Longrightarrow> q = window_seg \<or> q = probation_seg \<or> q = protected_seg"
  by (auto simp: window_seg_def probation_seg_def protected_seg_def)

text \<open>
  A sketch whose rows have the width of the mask can always be updated and read, whatever its
  counters are; the policy does not depend on how good the estimates are.
\<close>

definition hs_ok :: "hsketch \<Rightarrow> bool" where
  "hs_ok s \<longleftrightarrow> length (hs_counters s) = 4 \<and> (\<forall>row \<in> set (hs_counters s). length row = Suc (unat (hs_mask s)))"

lemma hs_increment_ok: assumes "hs_ok s" obtains s' where "hsketch_increment h s = Some s'" "hs_ok s'"
proof -
  let ?idx = "sketch_index (hs_mask s) h" and ?add = "\<lambda>c :: nat. min (c + 1) (2 ^ 32 - 1)"
  let ?rows = "map (\<lambda>(j, row). row[?idx j := ?add (row ! ?idx j)]) (enumerate 0 (hs_counters s))"
  have b: "bump_rows ?add ?idx 0 (hs_counters s) = Some ?rows"
    using assms sketch_index_less by (intro bump_rows_Some [where w = "Suc (unat (hs_mask s))"]) (auto simp: hs_ok_def)
  have "length ?rows = 4" "\<forall>row \<in> set ?rows. length row = Suc (unat (hs_mask s))"
    using assms by (auto simp: hs_ok_def in_set_enumerate_eq)
  then show thesis using that b by (auto simp: hsketch_increment_def hs_ok_def halve_rows_def Let_def split: if_splits)
qed

lemma hs_estimate_ok: assumes "hs_ok s" obtains e where "hsketch_estimate h s = Some e"
  using read_rows_Some [of "hs_counters s" "Suc (unat (hs_mask s))" "sketch_index (hs_mask s) h" 0] assms sketch_index_less that
  by (auto simp: hsketch_estimate_def hs_ok_def)

lemma hs_clear_ok: "hs_ok s \<Longrightarrow> hs_ok (hsketch_clear s)"
  by (auto simp: hs_ok_def hsketch_clear_def zero_rows_def)

lemma hs_new_ok: "hs_ok (hsketch_new threshold)"
  unfolding hs_ok_def hsketch_new_def Let_def hsketch.select_convs width_mask by simp

definition ht_rep :: "htinylfu \<Rightarrow> (nat \<Rightarrow> nat list) \<Rightarrow> bool" where
  "ht_rep p segs \<longleftrightarrow> slab_rep (ht_slab p) segs {} \<and> hs_ok (ht_sketch p)"

text \<open>The main space, most recent first: the protected segment, then probation.\<close>

definition main_list :: "(nat \<Rightarrow> nat list) \<Rightarrow> nat list" where
  "main_list segs = segs protected_seg @ segs probation_seg"

lemma ht_maintain_ok:
  assumes "slab_rep (ht_slab p) segs {}"
  shows "\<exists>s' segs'. ht_maintain p = Some (p\<lparr>ht_slab := s'\<rparr>) \<and> slab_rep s' segs' {} \<and> same_nodes s' (ht_slab p) \<and>
    segs' window_seg = segs window_seg \<and> main_list segs' = main_list segs"
proof -
  have "\<And>p segs. slab_rep (ht_slab p) segs {} \<Longrightarrow> segs protected_seg = xs \<Longrightarrow>
    \<exists>s' segs'. ht_maintain p = Some (p\<lparr>ht_slab := s'\<rparr>) \<and> slab_rep s' segs' {} \<and> same_nodes s' (ht_slab p) \<and>
      segs' window_seg = segs window_seg \<and> main_list segs' = main_list segs" for xs
  proof (induction xs rule: rev_induct)
    case Nil
    obtain l where "slab_list protected_seg (ht_slab p) = Some l" "sg_tail l = nil32"
      using Nil by (elim slab_list_rep [of _ _ _ protected_seg]) auto
    then have "ht_maintain p = Some (p\<lparr>ht_slab := ht_slab p\<rparr>)" by (simp add: ht_maintain.simps Let_def)
    then show ?case using Nil by (intro exI [of _ "ht_slab p"] exI [of _ segs]) simp
  next
    case (snoc i xs)
    note R = snoc.prems(1)
    obtain l where l: "slab_list protected_seg (ht_slab p) = Some l" "sg_tail l = i"
      using snoc.prems by (elim slab_list_rep [of _ _ _ protected_seg]) auto
    show ?case
    proof (cases "sg_cost l > ht_prot_capacity p")
      case False
      then have "ht_maintain p = Some (p\<lparr>ht_slab := ht_slab p\<rparr>)" using l by (simp add: ht_maintain.simps)
      then show ?thesis using R by (intro exI [of _ "ht_slab p"] exI [of _ segs]) simp
    next
      case True
      have "i \<noteq> nil32" using slab_tail_slot(1) [OF R snoc.prems(2)] .
      have e: "segs protected_seg = xs @ i # []" using snoc.prems(2) by simp
      from slab_shift_rep [OF R e, of probation_seg] obtain s1 s2 where s: "slab_unlink i (ht_slab p) = Some s1" "slab_push_front probation_seg i s1 = Some s2"
        "slab_rep s2 (segs(protected_seg := xs @ [], probation_seg := i # segs probation_seg)) {}" "same_nodes s2 (ht_slab p)" by auto
      define segs1 where "segs1 = segs(protected_seg := xs @ [], probation_seg := i # segs probation_seg)"
      have g: "segs1 protected_seg = xs" "segs1 window_seg = segs window_seg" "main_list segs1 = main_list segs"
        using e by (simp_all add: segs1_def main_list_def)
      have r: "slab_rep (ht_slab (p\<lparr>ht_slab := s2\<rparr>)) segs1 {}" using s(3) by (simp add: segs1_def del: fun_upd_apply)
      from snoc.IH [OF r g(1)] g(2) obtain s' segs' where h:
        "ht_maintain (p\<lparr>ht_slab := s2\<rparr>) = Some (p\<lparr>ht_slab := s'\<rparr>)" "slab_rep s' segs' {}" "same_nodes s' s2"
        "segs' window_seg = segs window_seg" "main_list segs' = main_list segs1" by auto
      have "ht_maintain p = Some (p\<lparr>ht_slab := s'\<rparr>)"
        using True l s(1,2) \<open>i \<noteq> nil32\<close> h(1) by (simp add: ht_maintain.simps [of p] Let_def)
      then show ?thesis using h g(3) same_nodes_trans [OF h(3) s(4)] by (intro exI [of _ s'] exI [of _ segs']) simp
    qed
  qed
  with assms show ?thesis by blast
qed

text \<open>A touch reorders the segments and keeps the nodes.\<close>

lemma ht_touch_ok:
  assumes R: "slab_rep (ht_slab p) segs {}" and i: "i \<in> dom (slot_info (ht_slab p))"
  shows "\<exists>s' segs'. ht_touch i p = Some (p\<lparr>ht_slab := s'\<rparr>) \<and> slab_rep s' segs' {} \<and> same_nodes s' (ht_slab p) \<and>
    set (segs' window_seg) = set (segs window_seg)"
proof -
  from i obtain q where q: "i \<in> set (segs q)" using slab_repD(6) [OF R] by blast
  note S = slab_rep_seg [OF R q]
  obtain xs ys where xy: "segs q = xs @ i # ys" using split_list [OF q] by blast
  have l: "vec_get (sb_links (ht_slab p)) i = Some (sb_links (ht_slab p) ! i)" using S(2) by simp
  show ?thesis
  proof (cases "q = probation_seg")
    case True
    with xy have e: "segs probation_seg = xs @ i # ys" by simp
    from slab_shift_rep [OF R e, of protected_seg] obtain s1 s2 where s: "slab_unlink i (ht_slab p) = Some s1" "slab_push_front protected_seg i s1 = Some s2"
      "slab_rep s2 (segs(probation_seg := xs @ ys, protected_seg := i # segs protected_seg)) {}" "same_nodes s2 (ht_slab p)" by auto
    from ht_maintain_ok [of "p\<lparr>ht_slab := s2\<rparr>"] s(3) obtain s' segs' where h: "ht_maintain (p\<lparr>ht_slab := s2\<rparr>) = Some (p\<lparr>ht_slab := s'\<rparr>)"
      "slab_rep s' segs' {}" "same_nodes s' s2" "segs' window_seg = segs window_seg" by fastforce
    have "ht_touch i p = Some (p\<lparr>ht_slab := s'\<rparr>)" using l S(4) True s(1,2) h(1) by (simp add: ht_touch_def)
    then show ?thesis using h same_nodes_trans [OF h(3) s(4)] by (intro exI [of _ s'] exI [of _ segs']) simp
  next
    case False
    from slab_move_front_rep [OF R xy] obtain s' where s: "slab_move_front q i (ht_slab p) = Some s'" "slab_rep s' (segs(q := i # xs @ ys)) {}"
      "same_nodes s' (ht_slab p)" by (auto simp: same_nodes_def)
    have "ht_touch i p = Some (p\<lparr>ht_slab := s'\<rparr>)" using l S(4) False s(1) seg_cases [OF S(1)] by (auto simp: ht_touch_def)
    moreover have "set ((segs(q := i # xs @ ys)) window_seg) = set (segs window_seg)" using xy by auto
    ultimately show ?thesis using s by blast
  qed
qed

subsection \<open>Admission\<close>

lemma ht_admit_candidate_total:
  assumes R: "slab_rep (ht_slab p) segs {cand}" and k: "hs_ok (ht_sketch p)"
  shows "\<exists>b. ht_admit_candidate cand p = Some b"
proof -
  let ?s = "ht_slab p"
  have d: "cand \<in> dom (slot_info ?s)" using slab_repD(6) [OF R] by blast
  then obtain h where h: "slab_payload cand ?s = Some h" using slab_payload_rep by fastforce
  have c: "vec_get (sb_costs ?s) cand = Some (sb_costs ?s ! cand)" using slab_slot_less(1) [OF R d] slab_repD(2) [OF R] by simp
  obtain prob where pb: "slab_list probation_seg ?s = Some prob" "sg_tail prob = nil_or (final (segs probation_seg))"
    using slab_list_rep [OF R, of probation_seg] by auto
  obtain prot where pt: "slab_list protected_seg ?s = Some prot" "sg_tail prot = nil_or (final (segs protected_seg))"
    using slab_list_rep [OF R, of protected_seg] by auto
  define v where "v = (if sg_tail prob = nil32 then sg_tail prot else sg_tail prob)"
  have v: "\<exists>h. slab_payload v ?s = Some h" if "v \<noteq> nil32"
  proof (cases "sg_tail prob = nil32")
    case True
    with that pt(2) v_def obtain t where "final (segs protected_seg) = Some t" "t = v" by (cases "final (segs protected_seg)") simp_all
    with slab_tail_payload [OF R, of protected_seg t] show ?thesis by fastforce
  next
    case False
    with pb(2) v_def obtain t where "final (segs probation_seg) = Some t" "t = v" by (cases "final (segs probation_seg)") simp_all
    with slab_tail_payload [OF R, of probation_seg t] show ?thesis by fastforce
  qed
  obtain ce where ce: "hsketch_estimate h (ht_sketch p) = Some ce" using k by (rule hs_estimate_ok)
  obtain b where b: "(if v = nil32 then Some True
      else do { ch \<leftarrow> ht_hash_of cand p; ce \<leftarrow> hsketch_estimate ch (ht_sketch p); vh \<leftarrow> ht_hash_of v p; ve \<leftarrow> hsketch_estimate vh (ht_sketch p);
                Some (ce \<ge> ve) }) = Some b"
  proof (cases "v = nil32")
    case False
    from v [OF False] obtain vh where vh: "slab_payload v ?s = Some vh" by blast
    obtain ve where ve: "hsketch_estimate vh (ht_sketch p) = Some ve" using k by (rule hs_estimate_ok)
    show thesis using that False h ce vh ve by (simp add: ht_hash_of_def)
  qed (use that in simp)
  have "ht_admit_candidate cand p = (if u64_add (u64_add (sg_cost prob) (sg_cost prot)) (sb_costs ?s ! cand) \<le> ht_main_capacity p then Some True else Some b)"
    unfolding ht_admit_candidate_def pb(1) pt(1) c b [symmetric] by (simp only: Option.bind.bind_lunit Let_def v_def)
  then show ?thesis by metis
qed

lemma ht_window_loop_ok:
  assumes "slab_rep (ht_slab p) segs {}" and k: "hs_ok (ht_sketch p)"
  shows "\<exists>vs s' segs'. ht_window_loop out p = Some (out @ vs, p\<lparr>ht_slab := s'\<rparr>) \<and> slab_rep s' segs' {} \<and>
    names (slab_nodes (ht_slab p)) vs \<and> slab_nodes s' = without vs (slab_nodes (ht_slab p)) \<and>
    seg_cost s' (segs' window_seg) \<le> ht_window_target p"
proof -
  have "\<And>p segs out. slab_rep (ht_slab p) segs {} \<Longrightarrow> hs_ok (ht_sketch p) \<Longrightarrow> segs window_seg = xs \<Longrightarrow>
    \<exists>vs s' segs'. ht_window_loop out p = Some (out @ vs, p\<lparr>ht_slab := s'\<rparr>) \<and> slab_rep s' segs' {} \<and>
      names (slab_nodes (ht_slab p)) vs \<and> slab_nodes s' = without vs (slab_nodes (ht_slab p)) \<and>
      seg_cost s' (segs' window_seg) \<le> ht_window_target p" for xs
  proof (induction xs rule: rev_induct)
    case Nil
    obtain l where "slab_list window_seg (ht_slab p) = Some l" "sg_cost l = seg_cost (ht_slab p) (segs window_seg)"
      using slab_list_rep [OF Nil(1), of window_seg] by auto
    then have "ht_window_loop out p = Some (out @ [], p\<lparr>ht_slab := ht_slab p\<rparr>)" "seg_cost (ht_slab p) (segs window_seg) \<le> ht_window_target p"
      using Nil(3) by (simp_all add: ht_window_loop.simps seg_cost_def)
    then show ?case using Nil(1) by (intro exI [of _ "[]"] exI [of _ "ht_slab p"] exI [of _ segs]) simp
  next
    case (snoc i xs)
    let ?s = "ht_slab p"
    note R = snoc.prems(1)
    obtain l where l: "slab_list window_seg ?s = Some l" "sg_cost l = seg_cost ?s (segs window_seg)" "sg_tail l = nil_or (final (segs window_seg))"
      using slab_list_rep [OF R, of window_seg] by auto
    show ?case
    proof (cases "sg_cost l > ht_window_target p")
      case False
      then have "ht_window_loop out p = Some (out @ [], p\<lparr>ht_slab := ?s\<rparr>)" using l by (simp add: ht_window_loop.simps)
      then show ?thesis using R False l(2) by (intro exI [of _ "[]"] exI [of _ ?s] exI [of _ segs]) simp
    next
      case True
      have i: "i \<noteq> nil32" using slab_tail_slot(1) [OF R snoc.prems(3)] .
      have tl: "sg_tail l = i" using l(3) snoc.prems(3) by simp
      have e: "segs window_seg = xs @ i # []" using snoc.prems(3) by simp
      from slab_drop_rep [OF R e] obtain s1 s2 h n where d: "slab_unlink i ?s = Some s1" "slab_rep s1 (segs(window_seg := xs @ [])) {i}" "same_nodes s1 ?s"
        "slab_drop_node i out s1 = Some (out @ [(h, n)], s2)" "slab_rep s2 (segs(window_seg := xs @ [])) {}"
        "slab_nodes ?s n = Some (h, slot_cost ?s i)" "slab_nodes s2 = (slab_nodes ?s)(n := None)" by blast
      from ht_admit_candidate_total [of "p\<lparr>ht_slab := s1\<rparr>"] d(2) snoc.prems(2) obtain b where
        b: "ht_admit_candidate i (p\<lparr>ht_slab := s1\<rparr>) = Some b" by fastforce
      from slab_push_front_rep [OF d(2), of i probation_seg] obtain s3 where pf: "slab_push_front probation_seg i s1 = Some s3"
        "slab_rep s3 ((segs(window_seg := xs @ []))(probation_seg := i # (segs(window_seg := xs @ [])) probation_seg)) {}"
        "same_nodes s3 s1" by (auto simp: same_nodes_def)
      have step: "ht_window_loop out p = (if b then ht_window_loop out (p\<lparr>ht_slab := s3\<rparr>) else ht_window_loop (out @ [(h, n)]) (p\<lparr>ht_slab := s2\<rparr>))"
        using True l(1) tl i d(1,4) b pf(1) by (simp add: ht_window_loop.simps [of out p] ht_drop_node_def Let_def)
      show ?thesis
      proof (cases b)
        case bt: True
        define segs1 where "segs1 = (segs(window_seg := xs @ []))(probation_seg := i # (segs(window_seg := xs @ [])) probation_seg)"
        have r: "slab_rep (ht_slab (p\<lparr>ht_slab := s3\<rparr>)) segs1 {}" using pf(2) by (simp add: segs1_def del: fun_upd_apply)
        have "segs1 window_seg = xs" "hs_ok (ht_sketch (p\<lparr>ht_slab := s3\<rparr>))" using snoc.prems(2) by (simp_all add: segs1_def)
        note IH = snoc.IH [OF r this(2,1), of out]
        have "slab_nodes s3 = slab_nodes ?s" using same_nodesD(3) [OF same_nodes_trans [OF pf(3) d(3)]] .
        then show ?thesis using IH step bt by simp
      next
        case bf: False
        define segs1 where "segs1 = segs(window_seg := xs @ [])"
        have r: "slab_rep (ht_slab (p\<lparr>ht_slab := s2\<rparr>)) segs1 {}" using d(5) by (simp add: segs1_def del: fun_upd_apply)
        have "segs1 window_seg = xs" "hs_ok (ht_sketch (p\<lparr>ht_slab := s2\<rparr>))" using snoc.prems(2) by (simp_all add: segs1_def)
        from snoc.IH [OF r this(2,1), of "out @ [(h, n)]"] obtain vs s' segs' where h:
          "ht_window_loop (out @ [(h, n)]) (p\<lparr>ht_slab := s2\<rparr>) = Some ((out @ [(h, n)]) @ vs, p\<lparr>ht_slab := s'\<rparr>)" "slab_rep s' segs' {}"
          "names (slab_nodes s2) vs" "slab_nodes s' = without vs (slab_nodes s2)" "seg_cost s' (segs' window_seg) \<le> ht_window_target p" by auto
        note N = names_Cons [OF d(6) h(3) [unfolded d(7)]]
        show ?thesis using step bf h(1,2,4,5) N d(7) by (intro exI [of _ "(h, n) # vs"] exI [of _ s'] exI [of _ segs']) simp
      qed
    qed
  qed
  with assms show ?thesis by blast
qed

definition ht_tracks :: "htinylfu \<Rightarrow> residents \<Rightarrow> bool" where
  "ht_tracks p m \<longleftrightarrow> (\<exists>segs. ht_rep p segs) \<and> m = slab_nodes (ht_slab p)"

lemma ht_tracksE:
  assumes "ht_tracks p m"
  obtains segs where "slab_rep (ht_slab p) segs {}" "hs_ok (ht_sketch p)" "m = slab_nodes (ht_slab p)"
    "resident_cost m = slab_total (ht_slab p)" "card (dom m) = card (dom (slot_info (ht_slab p)))"
  using assms slab_nodes_total unfolding ht_tracks_def ht_rep_def resident_cost_def by metis

lemma ht_tracksI: "slab_rep (ht_slab p) segs {} \<Longrightarrow> hs_ok (ht_sketch p) \<Longrightarrow> m = slab_nodes (ht_slab p) \<Longrightarrow> ht_tracks p m"
  by (auto simp: ht_tracks_def ht_rep_def)

lemma ht_admit_ok:
  assumes t: "ht_tracks p m" and fits: "resident_cost m + c < 2 ^ 64" and room: "card (dom m) < nil32"
  shows "\<exists>n vs p' segs'. ht_admit_key h c out p = Some (n, out @ vs, p') \<and> m n = None \<and> n < 2 ^ 64 \<and> n \<noteq> no_node \<and>
    names (m(n \<mapsto> (h, c))) vs \<and> ht_tracks p' (without vs (m(n \<mapsto> (h, c)))) \<and>
    slab_rep (ht_slab p') segs' {} \<and> seg_cost (ht_slab p') (segs' window_seg) \<le> ht_window_target p \<and>
    ht_window_target p' = ht_window_target p \<and> ht_main_capacity p' = ht_main_capacity p"
proof -
  from t obtain segs where R: "slab_rep (ht_slab p) segs {}" and k: "hs_ok (ht_sketch p)" and m: "m = slab_nodes (ht_slab p)"
    and c: "resident_cost m = slab_total (ht_slab p)" "card (dom m) = card (dom (slot_info (ht_slab p)))" by (rule ht_tracksE)
  obtain sk where sk: "hsketch_increment h (ht_sketch p) = Some sk" "hs_ok sk" using k by (rule hs_increment_ok)
  from slab_insert_rep [OF R, of c window_seg h] fits room c obtain i s1 s2 n where a: "slab_alloc h c (ht_slab p) = Some (i, s1)"
    "slab_push_front window_seg i s1 = Some s2" "slab_id i s2 = Some n" "slab_rep s2 (segs(window_seg := i # segs window_seg)) {}"
    "slab_nodes (ht_slab p) n = None" "n < 2 ^ 64" "n \<noteq> no_node" "slab_nodes s2 = (slab_nodes (ht_slab p))(n \<mapsto> (h, c))" by auto
  let ?p = "p\<lparr>ht_sketch := sk, ht_slab := s2\<rparr>"
  have "slab_rep (ht_slab ?p) (segs(window_seg := i # segs window_seg)) {}" "hs_ok (ht_sketch ?p)" using a(4) sk(2) by (simp_all del: fun_upd_apply)
  from ht_window_loop_ok [OF this, of out] obtain vs s' segs' where w: "ht_window_loop out ?p = Some (out @ vs, ?p\<lparr>ht_slab := s'\<rparr>)"
    "slab_rep s' segs' {}" "names (slab_nodes s2) vs" "slab_nodes s' = without vs (slab_nodes s2)" "seg_cost s' (segs' window_seg) \<le> ht_window_target p" by auto
  let ?p' = "?p\<lparr>ht_slab := s'\<rparr>"
  have adm: "ht_admit_key h c out p = Some (n, out @ vs, ?p')" using sk(1) a(1-3) w(1) by (simp add: ht_admit_key_def)
  have "ht_tracks ?p' (without vs (m(n \<mapsto> (h, c))))" by (rule ht_tracksI [of _ segs']) (use w(2,4) sk(2) a(8) m in simp_all)
  moreover have "names (m(n \<mapsto> (h, c))) vs" using w(3) a(8) m by simp
  ultimately show ?thesis using adm a(5-7) m w(2,5) by (intro exI [of _ n] exI [of _ vs] exI [of _ ?p'] exI [of _ segs']) (simp del: fun_upd_apply)
qed

subsection \<open>Eviction\<close>

lemma ht_drain_ok:
  assumes "slab_rep (ht_slab p) segs {}" "q < 3"
  shows "\<exists>xs ys s'. segs q = xs @ ys \<and> ht_drain q n out p =
      Some (n - seg_cost (ht_slab p) ys, out @ map (victim_at (ht_slab p)) (rev ys), p\<lparr>ht_slab := s'\<rparr>) \<and>
    slab_rep s' (segs(q := xs)) {} \<and> drained (ht_slab p) ys s' \<and> (n \<le> seg_cost (ht_slab p) ys \<or> xs = []) \<and> (n = 0 \<longrightarrow> ys = [])"
proof -
  have "\<And>p segs n out. slab_rep (ht_slab p) segs {} \<Longrightarrow> segs q = zs \<Longrightarrow>
    \<exists>xs ys s'. zs = xs @ ys \<and> ht_drain q n out p =
      Some (n - seg_cost (ht_slab p) ys, out @ map (victim_at (ht_slab p)) (rev ys), p\<lparr>ht_slab := s'\<rparr>) \<and>
    slab_rep s' (segs(q := xs)) {} \<and> drained (ht_slab p) ys s' \<and> (n \<le> seg_cost (ht_slab p) ys \<or> xs = []) \<and> (n = 0 \<longrightarrow> ys = [])" for zs
  proof (induction zs rule: rev_induct)
    case Nil
    obtain l where "slab_list q (ht_slab p) = Some l" "sg_tail l = nil32" using slab_list_rep [OF Nil(1) assms(2)] Nil(2) by auto
    then have "ht_drain q n out p = Some (n, out, p\<lparr>ht_slab := ht_slab p\<rparr>)" by (simp add: ht_drain.simps)
    moreover have "segs(q := []) = segs" using Nil(2) by (simp add: fun_upd_idem)
    ultimately show ?case using Nil by (intro exI [of _ "[]"] exI [of _ "ht_slab p"]) simp
  next
    case (snoc i zs)
    let ?s = "ht_slab p"
    show ?case
    proof (cases "n = 0")
      case True
      then have "ht_drain q n out p = Some (n, out, p\<lparr>ht_slab := ?s\<rparr>)" by (simp add: ht_drain.simps)
      moreover have "segs(q := zs @ [i]) = segs" using snoc.prems(2) by (simp add: fun_upd_idem)
      ultimately show ?thesis using snoc.prems True by (intro exI [of _ "zs @ [i]"] exI [of _ "[]"] exI [of _ ?s]) simp
    next
      case False
      obtain l where l: "slab_list q ?s = Some l" "sg_tail l = i" using slab_list_rep [OF snoc.prems(1) assms(2)] snoc.prems(2) by auto
      note T = slab_tail_slot [OF snoc.prems]
      from slab_drop_tail [OF snoc.prems] obtain s1 s2 where d: "slab_unlink i ?s = Some s1" "slab_drop_node i out s1 = Some (out @ [victim_at ?s i], s2)"
        "slab_rep s2 (segs(q := zs)) {}" and dr: "drained ?s [i] s2" by blast
      have g: "(segs(q := zs)) q = zs" "slab_rep (ht_slab (p\<lparr>ht_slab := s2\<rparr>)) (segs(q := zs)) {}" using d(3) by simp_all
      have up: "(segs(q := zs))(q := xs) = segs(q := xs)" for xs by simp
      obtain xs ys s' where
        h: "zs = xs @ ys" "ht_drain q (n - slot_cost ?s i) (out @ [victim_at ?s i]) (p\<lparr>ht_slab := s2\<rparr>) =
          Some (n - slot_cost ?s i - seg_cost s2 ys, (out @ [victim_at ?s i]) @ map (victim_at s2) (rev ys), p\<lparr>ht_slab := s'\<rparr>)"
          "slab_rep s' (segs(q := xs)) {}" "drained s2 ys s'" "n - slot_cost ?s i \<le> seg_cost s2 ys \<or> xs = []"
        using snoc.IH [OF g(2,1), of "n - slot_cost ?s i" "out @ [victim_at ?s i]", unfolded up] by (auto simp del: fun_upd_apply)
      have dist: "distinct (segs q)" using snoc.prems(1) assms(2) list_rep_head(4) by (auto simp: slab_rep_def)
      then have dj: "set ys \<inter> set [i] = {}" "set (rev ys) \<inter> set [i] = {}" using snoc.prems(2) h(1) by auto
      note K = drained_keeps(1) [OF dr dj(1)] drained_keeps(2) [OF dr dj(2)]
      have "ht_drain q n out p = Some (n - seg_cost ?s (ys @ [i]), out @ map (victim_at ?s) (rev (ys @ [i])), p\<lparr>ht_slab := s'\<rparr>)"
        using False l d(1,2) T h(2) K by (simp add: ht_drain.simps [of q n out p] ht_drop_node_def saturating_sub_def add.commute)
      moreover have "n \<le> seg_cost ?s (ys @ [i]) \<or> xs = []" using h(5) K(1) by auto
      ultimately show ?thesis using h(1) drained_append [OF dr h(4) dj(1)] False h(3)
        by (intro exI [of _ xs] exI [of _ "ys @ [i]"] exI [of _ s']) (simp del: fun_upd_apply)
    qed
  qed
  with assms(1) show ?thesis by blast
qed

lemma ht_evict_ok:
  assumes R: "slab_rep (ht_slab p) segs {}"
  shows "\<exists>xs ys s' segs'. main_list segs = xs @ ys \<and>
    ht_evict_nodes n out p = Some (out @ map (victim_at (ht_slab p)) (rev ys), p\<lparr>ht_slab := s'\<rparr>) \<and>
    slab_rep s' segs' {} \<and> segs' window_seg = segs window_seg \<and> main_list segs' = xs \<and> drained (ht_slab p) ys s' \<and>
    (n \<le> seg_cost (ht_slab p) ys \<or> xs = [])"
proof -
  from ht_maintain_ok [OF R] obtain s1 segs1 where m: "ht_maintain p = Some (p\<lparr>ht_slab := s1\<rparr>)" "slab_rep s1 segs1 {}" "same_nodes s1 (ht_slab p)"
    "segs1 window_seg = segs window_seg" "main_list segs1 = main_list segs" by blast
  note N = same_nodesD [OF m(3)]
  have r1: "slab_rep (ht_slab (p\<lparr>ht_slab := s1\<rparr>)) segs1 {}" using m(2) by simp
  from ht_drain_ok [OF r1, of probation_seg n out] obtain xs ys s2 where a: "segs1 probation_seg = xs @ ys"
    "ht_drain probation_seg n out (p\<lparr>ht_slab := s1\<rparr>) = Some (n - seg_cost s1 ys, out @ map (victim_at s1) (rev ys), p\<lparr>ht_slab := s2\<rparr>)"
    "slab_rep s2 (segs1(probation_seg := xs)) {}" "drained s1 ys s2" "n \<le> seg_cost s1 ys \<or> xs = []" by auto
  let ?n = "n - seg_cost s1 ys"
  have r2: "slab_rep (ht_slab (p\<lparr>ht_slab := s2\<rparr>)) (segs1(probation_seg := xs)) {}" using a(3) by simp
  from ht_drain_ok [OF r2, of protected_seg ?n "out @ map (victim_at s1) (rev ys)"] obtain us ws s3 where b: "segs1 protected_seg = us @ ws"
    "ht_drain protected_seg ?n (out @ map (victim_at s1) (rev ys)) (p\<lparr>ht_slab := s2\<rparr>) =
      Some (?n - seg_cost s2 ws, (out @ map (victim_at s1) (rev ys)) @ map (victim_at s2) (rev ws), p\<lparr>ht_slab := s3\<rparr>)"
    "slab_rep s3 ((segs1(probation_seg := xs))(protected_seg := us)) {}" "drained s2 ws s3" "?n \<le> seg_cost s2 ws \<or> us = []" "?n = 0 \<longrightarrow> ws = []" by auto
  have "set (segs1 protected_seg) \<inter> set (segs1 probation_seg) = {}" using slab_rep_other [OF m(2)] by (auto simp: disjoint_iff)
  then have dj: "set ws \<inter> set ys = {}" "set (rev ws) \<inter> set ys = {}" using a(1) b(1) by auto
  note K = drained_keeps(1) [OF a(4) dj(1)] drained_keeps(2) [OF a(4) dj(2)]
  define segs2 where "segs2 = (segs1(probation_seg := xs))(protected_seg := us)"
  have vq: "victim_at s1 = victim_at (ht_slab p)" using N by (simp add: victim_at_def fun_eq_iff)
  have ev: "ht_evict_nodes n out p = Some (out @ map (victim_at (ht_slab p)) (rev (ws @ ys)), p\<lparr>ht_slab := s3\<rparr>)"
    using m(1) a(2) b(2) K by (simp add: ht_evict_nodes_def vq)
  have dd: "drained s1 (ws @ ys) s3" by (rule drained_append [OF a(4) b(4) dj(1)])
  then have dr: "drained (ht_slab p) (ws @ ys) s3" using N vq by (simp add: drained_def)
  have enough: "n \<le> seg_cost (ht_slab p) (ws @ ys) \<or> us @ xs = []"
  proof (cases "n \<le> seg_cost s1 ys")
    case True
    then show ?thesis using N(5) by simp
  next
    case False
    with a(5) b(5) K(1) N(5) show ?thesis by auto
  qed
  have "main_list segs = (us @ xs) @ ws @ ys"
  proof (cases "xs = []")
    case True
    then show ?thesis using a(1) b(1) m(5) by (simp add: main_list_def)
  next
    case False
    then have "ws = []" using a(5) b(6) by simp
    then show ?thesis using a(1) b(1) m(5) by (simp add: main_list_def)
  qed
  moreover have "slab_rep s3 segs2 {}" using b(3) by (simp add: segs2_def)
  moreover have "segs2 window_seg = segs window_seg" "main_list segs2 = us @ xs" using m(4) by (simp_all add: segs2_def main_list_def)
  ultimately show ?thesis using ev dr enough by blast
qed

subsection \<open>The contract\<close>

lemma ht_touch_node_tracks:
  assumes t: "ht_tracks p m" and n: "n < 2 ^ 64"
  shows "\<exists>p'. ht_touch_node n p = Some p' \<and> ht_tracks p' m"
proof -
  from t obtain segs where R: "slab_rep (ht_slab p) segs {}" and k: "hs_ok (ht_sketch p)" and m: "m = slab_nodes (ht_slab p)" by (rule ht_tracksE)
  show ?thesis
  proof (cases "m n")
    case None
    then have "slab_resolve n (ht_slab p) = None" using slab_resolve_rep [OF R n] m by auto
    then show ?thesis using t by (simp add: ht_touch_node_def)
  next
    case (Some x)
    obtain h c where x: "x = (h, c)" by force
    let ?i = "n mod 2 ^ 32"
    have res: "slab_resolve n (ht_slab p) = Some ?i" using slab_resolve_rep [OF R n] Some m by auto
    have inf: "slot_info (ht_slab p) ?i = Some (h, c)" using slab_nodes_slot(1) [of "ht_slab p" n x] Some m x by simp
    then have pl: "ht_hash_of ?i p = Some h" by (simp add: ht_hash_of_def slab_payload_rep)
    obtain sk where sk: "hsketch_increment h (ht_sketch p) = Some sk" "hs_ok sk" using k by (rule hs_increment_ok)
    from ht_touch_ok [of "p\<lparr>ht_sketch := sk\<rparr>" segs ?i] R inf obtain s' segs' where
      g: "ht_touch ?i (p\<lparr>ht_sketch := sk\<rparr>) = Some (p\<lparr>ht_sketch := sk, ht_slab := s'\<rparr>)" "slab_rep s' segs' {}" "same_nodes s' (ht_slab p)" by fastforce
    have "ht_tracks (p\<lparr>ht_sketch := sk, ht_slab := s'\<rparr>) m" by (rule ht_tracksI [of _ segs']) (use g(2) sk(2) m same_nodesD(3) [OF g(3)] in simp_all)
    then show ?thesis using res pl sk(1) g(1) by (simp add: ht_touch_node_def)
  qed
qed

lemma ht_touch_all_tracks:
  "ht_tracks p m \<Longrightarrow> \<forall>n \<in> set ns. n < 2 ^ 64 \<Longrightarrow> \<exists>p'. ht_touch_all ns p = Some p' \<and> ht_tracks p' m"
proof (induction ns arbitrary: p)
  case (Cons n ns)
  from ht_touch_node_tracks [OF Cons.prems(1), of n] Cons.prems(2) obtain p1 where "ht_touch_node n p = Some p1" "ht_tracks p1 m" by auto
  with Cons.IH [of p1] Cons.prems(2) show ?case by auto
qed simp

lemma ht_update_tracks:
  assumes t: "ht_tracks p m" and n: "n < 2 ^ 64" and fits: "resident_cost m + c < 2 ^ 64"
  shows "\<exists>p'. ht_update n c p = Some p' \<and> ht_tracks p' (case m n of None \<Rightarrow> m | Some (h, _) \<Rightarrow> m(n \<mapsto> (h, c)))"
proof -
  from t obtain segs where R: "slab_rep (ht_slab p) segs {}" and k: "hs_ok (ht_sketch p)" and m: "m = slab_nodes (ht_slab p)"
    and cost: "resident_cost m = slab_total (ht_slab p)" by (rule ht_tracksE)
  show ?thesis
  proof (cases "m n")
    case None
    then have "slab_resolve n (ht_slab p) = None" using slab_resolve_rep [OF R n] m by auto
    then show ?thesis using t None by (simp add: ht_update_def)
  next
    case (Some x)
    obtain h c0 where x: "x = (h, c0)" by force
    let ?i = "n mod 2 ^ 32"
    have nd: "slab_nodes (ht_slab p) n = Some (h, c0)" using Some m x by simp
    have res: "slab_resolve n (ht_slab p) = Some ?i" using slab_resolve_rep [OF R n] nd by auto
    have inf: "slot_info (ht_slab p) ?i = Some (h, c0)" using slab_nodes_slot(1) [OF nd] .
    then have pl: "ht_hash_of ?i p = Some h" by (simp add: ht_hash_of_def slab_payload_rep)
    obtain sk where sk: "hsketch_increment h (ht_sketch p) = Some sk" "hs_ok sk" using k by (rule hs_increment_ok)
    have "slab_total (ht_slab p) + c < 2 ^ 64" using fits cost by simp
    from slab_set_cost_nodes [OF R nd this] obtain s1 where s1: "slab_set_cost ?i c (ht_slab p) = Some s1" "slab_rep s1 segs {}"
      "slab_nodes s1 = (slab_nodes (ht_slab p))(n \<mapsto> (h, c))" "dom (slot_info s1) = dom (slot_info (ht_slab p))" by blast
    let ?p = "p\<lparr>ht_sketch := sk, ht_slab := s1\<rparr>"
    have d: "?i \<in> dom (slot_info (ht_slab ?p))" "slab_rep (ht_slab ?p) segs {}" using s1(2,4) inf by auto
    from ht_touch_ok [OF d(2,1)] obtain s' segs' where
      g: "ht_touch ?i ?p = Some (?p\<lparr>ht_slab := s'\<rparr>)" "slab_rep s' segs' {}" "same_nodes s' s1" by auto
    have "ht_tracks (?p\<lparr>ht_slab := s'\<rparr>) (m(n \<mapsto> (h, c)))"
      by (rule ht_tracksI [of _ segs']) (use g(2) sk(2) m same_nodesD(3) [OF g(3)] s1(3) in \<open>simp_all del: fun_upd_apply\<close>)
    then show ?thesis using res pl sk(1) s1(1) g(1) Some x by (simp add: ht_update_def del: fun_upd_apply)
  qed
qed

lemma ht_remove_tracks:
  assumes t: "ht_tracks p m" and n: "n < 2 ^ 64"
  shows "\<exists>p'. ht_remove n p = Some p' \<and> ht_tracks p' (m(n := None))"
proof -
  from t obtain segs where R: "slab_rep (ht_slab p) segs {}" and k: "hs_ok (ht_sketch p)" and m: "m = slab_nodes (ht_slab p)" by (rule ht_tracksE)
  show ?thesis
  proof (cases "m n")
    case None
    then have "slab_resolve n (ht_slab p) = None" "m(n := None) = m" using slab_resolve_rep [OF R n] m by auto
    then show ?thesis using t by (simp add: ht_remove_def)
  next
    case (Some x)
    obtain h c where x: "x = (h, c)" by force
    have nd: "slab_nodes (ht_slab p) n = Some (h, c)" using Some m x by simp
    have res: "slab_resolve n (ht_slab p) = Some (n mod 2 ^ 32)" using slab_resolve_rep [OF R n] nd by auto
    from slab_remove_nodes [OF R nd] obtain s1 s2 segs' where r: "slab_unlink (n mod 2 ^ 32) (ht_slab p) = Some s1"
      "slab_release (n mod 2 ^ 32) s1 = Some (h, s2)" "slab_rep s2 segs' {}" "slab_nodes s2 = (slab_nodes (ht_slab p))(n := None)" by blast
    have "ht_tracks (p\<lparr>ht_slab := s2\<rparr>) (m(n := None))" by (rule ht_tracksI [of _ segs']) (use r(3,4) k m in \<open>simp_all del: fun_upd_apply\<close>)
    then show ?thesis using res r(1,2) by (simp add: ht_remove_def del: fun_upd_apply)
  qed
qed

lemma ht_clear_tracks: "ht_tracks p m \<Longrightarrow> ht_tracks (ht_clear p) Map.empty"
proof -
  assume "ht_tracks p m"
  then have "hs_ok (ht_sketch p)" by (auto simp: ht_tracks_def ht_rep_def)
  moreover have "slab_nodes (slab_clear (ht_slab p)) = Map.empty"
    by (auto simp: slab_nodes_def node_view_def slab_clear_rep(2) fun_eq_iff)
  ultimately show ?thesis by (intro ht_tracksI [of _ "\<lambda>_. []", OF _ _ sym]) (simp_all add: ht_clear_def slab_clear_rep(1) hs_clear_ok)
qed

interpretation htinylfu: shard_policy ht_tracks htinylfu_ops
proof
  fix p m c
  assume t: "ht_tracks p m"
  then obtain segs where R: "slab_rep (ht_slab p) segs {}" and k: "hs_ok (ht_sketch p)" and m: "m = slab_nodes (ht_slab p)" by (rule ht_tracksE)
  show "finite (dom m)" using slab_nodes_total(3) [OF R] m by simp
  assume fits: "resident_cost m + shard_call_cost c < 2 ^ 64" and room: "card (dom m) + admits c \<le> nil32" and ok: "shard_call_ok c"
  show "\<exists>a s'. shard_exec htinylfu_ops c p = Some (a, s') \<and> shard_answer_ok m c a \<and> ht_tracks s' (resident_step c a m)"
  proof (cases c)
    case (SAdmit h k)
    with ht_admit_ok [OF t, of k h "[]"] fits room show ?thesis by (fastforce simp: htinylfu_ops_def)
  next
    case (SUpdate n k)
    with ht_update_tracks [OF t, of n k] fits ok show ?thesis by (fastforce simp: htinylfu_ops_def)
  next
    case (SRemove n)
    with ht_remove_tracks [OF t, of n] ok show ?thesis by (fastforce simp: htinylfu_ops_def)
  next
    case (SEvict k')
    from ht_evict_ok [OF R, of k' "[]"] obtain ys s' segs' where e: "ht_evict_nodes k' [] p = Some (map (victim_at (ht_slab p)) (rev ys), p\<lparr>ht_slab := s'\<rparr>)"
      "slab_rep s' segs' {}" "drained (ht_slab p) ys s'" by auto
    have "ht_tracks (p\<lparr>ht_slab := s'\<rparr>) (without (map (victim_at (ht_slab p)) (rev ys)) m)"
      by (rule ht_tracksI [of _ segs']) (use e k m in \<open>simp_all add: drained_def\<close>)
    moreover have "names m (map (victim_at (ht_slab p)) (rev ys))" using e(3) m by (simp add: drained_def)
    ultimately show ?thesis using SEvict e(1) by (simp add: htinylfu_ops_def)
  next
    case (SApplyReads r)
    with ok obtain ns r' where "ring_drain r = Some (ns, r')" "\<forall>n \<in> set ns. n < 2 ^ 64" "length ns \<le> ring_size" by (auto elim: ring_drain_ok)
    with ht_touch_all_tracks [OF t, of ns] SApplyReads show ?thesis by (auto simp: htinylfu_ops_def ht_apply_reads_def)
  next
    case (SApplyRead n)
    with ht_touch_node_tracks [OF t, of n] ok show ?thesis by (fastforce simp: htinylfu_ops_def)
  qed (use t ht_clear_tracks [OF t] in \<open>simp_all add: htinylfu_ops_def\<close>)
qed

end
