(* ===== verification/Hs3fifo.thy ===== *)
theory Hs3fifo
  imports Shard_Policy
begin

section \<open>S3-FIFO on node handles\<close>

text \<open>
  \<^verbatim>\<open>HS3Fifo\<close> of \<^verbatim>\<open>cache/src/hpolicy.rs\<close>: a small and a main queue in one slab, a frequency of at most 3
  per slot, and a bounded memory of the hashes that left the small queue. The frequencies are relaxed
  atomics in the code; the model runs one call at a time.
\<close>

definition small_seg :: nat where "small_seg = 0"
definition main_seg :: nat where "main_seg = 1"

record hs3fifo =
  h3_slab :: "64 word slab"
  h3_freq :: "nat list"
  h3_small_target :: nat
  h3_ghost :: "64 word set"
  h3_ghost_order :: "64 word list"
  h3_ghost_cap :: nat

definition hs3fifo_new :: "nat \<Rightarrow> hs3fifo" where
  "hs3fifo_new capacity = \<lparr>h3_slab = slab_new, h3_freq = [], h3_small_target = max (capacity div 10) 1,
     h3_ghost = {}, h3_ghost_order = [], h3_ghost_cap = max capacity 1\<rparr>"

definition h3_hash_of :: "nat \<Rightarrow> hs3fifo \<Rightarrow> 64 word option" where
  "h3_hash_of i p = slab_payload i (h3_slab p)"

definition h3_get_freq :: "nat \<Rightarrow> hs3fifo \<Rightarrow> nat option" where
  "h3_get_freq i p = vec_get (h3_freq p) i"

definition h3_set_freq :: "nat \<Rightarrow> nat \<Rightarrow> hs3fifo \<Rightarrow> hs3fifo option" where
  "h3_set_freq i f p = do { fs \<leftarrow> vec_set i f (h3_freq p); Some (p\<lparr>h3_freq := fs\<rparr>) }"

definition h3_bump :: "nat \<Rightarrow> hs3fifo \<Rightarrow> hs3fifo option" where
  "h3_bump i p = do { f \<leftarrow> h3_get_freq i p; (if f < 3 then h3_set_freq i (f + 1) p else Some p) }"

definition h3_remember :: "64 word \<Rightarrow> hs3fifo \<Rightarrow> hs3fifo" where
  "h3_remember hash p =
     (let p = (if length (h3_ghost_order p) \<ge> h3_ghost_cap p
               then case h3_ghost_order p of [] \<Rightarrow> p
                    | old # rest \<Rightarrow> p\<lparr>h3_ghost_order := rest, h3_ghost := h3_ghost p - {old}\<rparr>
               else p)
      in if hash \<notin> h3_ghost p then p\<lparr>h3_ghost := insert hash (h3_ghost p), h3_ghost_order := h3_ghost_order p @ [hash]\<rparr> else p)"

definition h3_drop_node :: "nat \<Rightarrow> victim list \<Rightarrow> hs3fifo \<Rightarrow> (nat \<times> victim list \<times> hs3fifo) option" where
  "h3_drop_node i out p =
     do { cost \<leftarrow> vec_get (sb_costs (h3_slab p)) i;
          (out, s) \<leftarrow> slab_drop_node i out (h3_slab p);
          Some (cost, out, p\<lparr>h3_slab := s\<rparr>) }"

definition h3_evict_small :: "victim list \<Rightarrow> hs3fifo \<Rightarrow> (nat \<times> victim list \<times> hs3fifo) option" where
  "h3_evict_small out p =
     do { l \<leftarrow> slab_list small_seg (h3_slab p);
          let t = sg_tail l;
          s \<leftarrow> slab_unlink t (h3_slab p);
          let p = p\<lparr>h3_slab := s\<rparr>;
          f \<leftarrow> h3_get_freq t p;
          (if f > 1
           then do { p \<leftarrow> h3_set_freq t 0 p; s \<leftarrow> slab_push_front main_seg t (h3_slab p); Some (0, out, p\<lparr>h3_slab := s\<rparr>) }
           else do { hash \<leftarrow> h3_hash_of t p;
                     (cost, out, p) \<leftarrow> h3_drop_node t out p;
                     Some (cost, out, h3_remember hash p) }) }"

definition h3_evict_main :: "victim list \<Rightarrow> hs3fifo \<Rightarrow> (nat \<times> victim list \<times> hs3fifo) option" where
  "h3_evict_main out p =
     do { l \<leftarrow> slab_list main_seg (h3_slab p);
          let t = sg_tail l;
          s \<leftarrow> slab_unlink t (h3_slab p);
          let p = p\<lparr>h3_slab := s\<rparr>;
          f \<leftarrow> h3_get_freq t p;
          (if f > 0
           then do { p \<leftarrow> h3_set_freq t (f - 1) p; s \<leftarrow> slab_push_front main_seg t (h3_slab p); Some (0, out, p\<lparr>h3_slab := s\<rparr>) }
           else h3_drop_node t out p) }"

definition h3_admit_key :: "64 word \<Rightarrow> nat \<Rightarrow> victim list \<Rightarrow> hs3fifo \<Rightarrow> (nat \<times> victim list \<times> hs3fifo) option" where
  "h3_admit_key hash cost out p =
     (let seg = (if hash \<in> h3_ghost p then main_seg else small_seg); p = p\<lparr>h3_ghost := h3_ghost p - {hash}\<rparr>
      in do { (i, s) \<leftarrow> slab_alloc hash cost (h3_slab p);
              let p = p\<lparr>h3_slab := s\<rparr>;
              p \<leftarrow> (if i \<ge> length (h3_freq p) then Some (p\<lparr>h3_freq := h3_freq p @ [0]\<rparr>) else h3_set_freq i 0 p);
              s \<leftarrow> slab_push_front seg i (h3_slab p);
              id \<leftarrow> slab_id i s;
              Some (id, out, p\<lparr>h3_slab := s\<rparr>) })"

definition h3_update :: "nat \<Rightarrow> nat \<Rightarrow> hs3fifo \<Rightarrow> hs3fifo option" where
  "h3_update node cost p =
     (case slab_resolve node (h3_slab p) of
        None \<Rightarrow> Some p
      | Some i \<Rightarrow> do { s \<leftarrow> slab_set_cost i cost (h3_slab p); Some (p\<lparr>h3_slab := s\<rparr>) })"

definition h3_remove :: "nat \<Rightarrow> hs3fifo \<Rightarrow> hs3fifo option" where
  "h3_remove node p =
     (case slab_resolve node (h3_slab p) of
        None \<Rightarrow> Some p
      | Some i \<Rightarrow> do { s \<leftarrow> slab_unlink i (h3_slab p); (_, s) \<leftarrow> slab_release i s; Some (p\<lparr>h3_slab := s\<rparr>) })"

partial_function (option) h3_evict_loop :: "nat \<Rightarrow> nat \<Rightarrow> victim list \<Rightarrow> hs3fifo \<Rightarrow> (victim list \<times> hs3fifo) option" where
  "h3_evict_loop cost_to_free freed out p =
     (if freed < cost_to_free
      then do { small \<leftarrow> slab_list small_seg (h3_slab p);
                main \<leftarrow> slab_list main_seg (h3_slab p);
                (if sg_tail small \<noteq> nil32 \<and> (sg_cost small > h3_small_target p \<or> sg_tail main = nil32)
                 then do { (c, out, p) \<leftarrow> h3_evict_small out p; h3_evict_loop cost_to_free (u64_add freed c) out p }
                 else if sg_tail main \<noteq> nil32
                 then do { (c, out, p) \<leftarrow> h3_evict_main out p; h3_evict_loop cost_to_free (u64_add freed c) out p }
                 else Some (out, p)) }
      else Some (out, p))"

definition h3_evict :: "nat \<Rightarrow> victim list \<Rightarrow> hs3fifo \<Rightarrow> (victim list \<times> hs3fifo) option" where
  "h3_evict cost_to_free out p = h3_evict_loop cost_to_free 0 out p"

definition h3_touch :: "nat \<Rightarrow> hs3fifo \<Rightarrow> hs3fifo option" where
  "h3_touch node p = (case slab_resolve node (h3_slab p) of None \<Rightarrow> Some p | Some i \<Rightarrow> h3_bump i p)"

definition h3_clear :: "hs3fifo \<Rightarrow> hs3fifo" where
  "h3_clear p = p\<lparr>h3_slab := slab_clear (h3_slab p), h3_ghost := {}, h3_ghost_order := []\<rparr>"

definition hs3fifo_ops :: "hs3fifo shard_policy_ops" where
  "hs3fifo_ops = \<lparr>sp_admit = h3_admit_key, sp_update = h3_update, sp_remove = h3_remove, sp_evict = h3_evict,
     sp_apply_reads = (\<lambda>r p. Some (r, p)), sp_touch = h3_touch, sp_apply_read = h3_touch, sp_clear = h3_clear\<rparr>"

subsection \<open>Well-formed states\<close>

lemma seg3_simps [simp]: "small_seg < 3" "main_seg < 3" "small_seg \<noteq> main_seg" "main_seg \<noteq> small_seg"
  by (simp_all add: small_seg_def main_seg_def)

definition h3_rep :: "hs3fifo \<Rightarrow> (nat \<Rightarrow> nat list) \<Rightarrow> bool" where
  "h3_rep p segs \<longleftrightarrow> slab_rep (h3_slab p) segs {} \<and> length (sb_links (h3_slab p)) \<le> length (h3_freq p) \<and> (\<forall>f \<in> set (h3_freq p). f \<le> 3) \<and>
     (\<forall>q. q \<noteq> small_seg \<longrightarrow> q \<noteq> main_seg \<longrightarrow> segs q = []) \<and>
     finite (h3_ghost p) \<and> h3_ghost p \<subseteq> set (h3_ghost_order p) \<and> length (h3_ghost_order p) \<le> h3_ghost_cap p \<and> 0 < h3_ghost_cap p"

definition h3_weight :: "hs3fifo \<Rightarrow> (nat \<Rightarrow> nat list) \<Rightarrow> nat" where
  "h3_weight p segs = 2 * length (segs small_seg) + sum_list (map (\<lambda>i. Suc (h3_freq p ! i)) (segs main_seg))"

lemma h3_repD:
  assumes "h3_rep p segs"
  shows "slab_rep (h3_slab p) segs {}" "length (sb_links (h3_slab p)) \<le> length (h3_freq p)" "\<forall>f \<in> set (h3_freq p). f \<le> 3"
    "\<And>q. q \<noteq> small_seg \<Longrightarrow> q \<noteq> main_seg \<Longrightarrow> segs q = []"
  using assms by (simp_all add: h3_rep_def)

lemma vec_set_bounded: "i < length xs \<Longrightarrow> \<forall>x \<in> set xs. x \<le> n \<Longrightarrow> v \<le> n \<Longrightarrow> \<forall>x \<in> set (xs[i := v]). x \<le> (n :: nat)"
  by (auto dest!: set_update_subset_insert [THEN subsetD])

lemma h3_remember_fields:
  "h3_slab (h3_remember h p) = h3_slab p" "h3_freq (h3_remember h p) = h3_freq p" "h3_ghost_cap (h3_remember h p) = h3_ghost_cap p"
  "h3_small_target (h3_remember h p) = h3_small_target p"
  by (auto simp: h3_remember_def Let_def split: list.split)

text \<open>The ghost memory never exceeds its bound, and the set is part of the queue.\<close>

lemma h3_remember_ghost:
  assumes "finite (h3_ghost p)" "h3_ghost p \<subseteq> set (h3_ghost_order p)" "length (h3_ghost_order p) \<le> h3_ghost_cap p" "0 < h3_ghost_cap p"
  shows "finite (h3_ghost (h3_remember h p)) \<and> h3_ghost (h3_remember h p) \<subseteq> set (h3_ghost_order (h3_remember h p)) \<and>
    length (h3_ghost_order (h3_remember h p)) \<le> h3_ghost_cap p \<and> h \<in> h3_ghost (h3_remember h p)"
  using assms by (cases "h3_ghost_order p") (auto simp: h3_remember_def Let_def)

subsection \<open>Eviction\<close>

lemma slab_links_length:
  "slab_unlink i s = Some s' \<Longrightarrow> length (sb_links s') = length (sb_links s)"
  "slab_push_front q i s = Some s' \<Longrightarrow> length (sb_links s') = length (sb_links s)"
  "slab_release i s = Some (h, s') \<Longrightarrow> length (sb_links s') = length (sb_links s)"
  "slab_set_cost i c s = Some s' \<Longrightarrow> length (sb_links s') = length (sb_links s)"
  "slab_drop_node i out s'' = Some (out', s') \<Longrightarrow> length (sb_links s') = length (sb_links s'')"
  by (auto simp: slab_unlink_def slab_push_front_def slab_release_def slab_set_cost_def slab_drop_node_def bind_eq_Some_conv Let_def split: if_splits)

lemma drained_total:
  assumes "slab_rep s segs D" "drained s [i] s'" "i \<in> dom (slot_info s)"
  shows "slab_total s = slot_cost s i + slab_total s'"
proof -
  have e: "slot_info s' = (slot_info s)(i := None)" using assms(2) by (auto simp: drained_def restrict_map_def fun_eq_iff)
  obtain x where x: "slot_info s i = Some x" using assms(3) by blast
  have "info_costs (slot_info s) i = Some (slot_cost s i)" using x by (simp add: info_costs_def slot_cost_def split_beta)
  then show ?thesis unfolding slab_total_def e info_costs_simps by (intro total_split) (simp_all add: slab_rep_finite [OF assms(1)])
qed

lemma drained_victims:
  assumes "drained s [i] s'"
  shows "names (slab_nodes s) [victim_at s i]" "slab_nodes s' = without [victim_at s i] (slab_nodes s)"
  using assms by (simp_all add: drained_def)

lemma h3_rep_slab:
  assumes "h3_rep p segs" "slab_rep s' segs' {}" "length (sb_links s') = length (sb_links (h3_slab p))" "\<And>q. q \<noteq> small_seg \<Longrightarrow> q \<noteq> main_seg \<Longrightarrow> segs' q = []"
  shows "h3_rep (p\<lparr>h3_slab := s'\<rparr>) segs'"
  using assms by (simp add: h3_rep_def)

lemma h3_rep_freq: "h3_rep p segs \<Longrightarrow> i < length (h3_freq p) \<Longrightarrow> f \<le> 3 \<Longrightarrow> h3_rep (p\<lparr>h3_freq := (h3_freq p)[i := f]\<rparr>) segs"
  using vec_set_bounded [of i "h3_freq p" 3 f] by (simp add: h3_rep_def)

lemma h3_slot_freq:
  assumes "h3_rep p segs" "i \<in> set (segs q)"
  shows "i < length (h3_freq p)" "h3_freq p ! i \<le> 3"
  using slab_rep_seg(2) [OF h3_repD(1) [OF assms(1)] assms(2)] h3_repD(2,3) [OF assms(1)] by simp_all

lemma main_weight_upd: "t \<notin> set xs \<Longrightarrow> sum_list (map (\<lambda>i. Suc (fs[t := f] ! i)) xs) = sum_list (map (\<lambda>i. Suc (fs ! i)) xs)"
  by (induction xs) auto

definition h3_step :: "hs3fifo \<Rightarrow> (nat \<Rightarrow> nat list) \<Rightarrow> nat \<Rightarrow> victim list \<Rightarrow> hs3fifo \<Rightarrow> bool" where
  "h3_step p segs c vs p' \<longleftrightarrow> (\<exists>segs'. h3_rep p' segs' \<and> h3_weight p' segs' < h3_weight p segs) \<and>
     names (slab_nodes (h3_slab p)) vs \<and> slab_nodes (h3_slab p') = without vs (slab_nodes (h3_slab p)) \<and>
     slab_total (h3_slab p) = c + slab_total (h3_slab p') \<and> h3_small_target p' = h3_small_target p"

lemma h3_drop_step:
  assumes R: "h3_rep p segs" and q: "segs q = xs @ [t]" "q = small_seg \<or> q = main_seg"
  shows "\<exists>s1 p'. slab_unlink t (h3_slab p) = Some s1 \<and> slab_payload t s1 = Some (fst (victim_at (h3_slab p) t)) \<and>
    h3_drop_node t out (p\<lparr>h3_slab := s1\<rparr>) = Some (slot_cost (h3_slab p) t, out @ [victim_at (h3_slab p) t], p') \<and>
    h3_step p segs (slot_cost (h3_slab p) t) [victim_at (h3_slab p) t] p' \<and> h3_rep p' (segs(q := xs)) \<and> h3_ghost_cap p' = h3_ghost_cap p"
proof -
  let ?s = "h3_slab p"
  note S = h3_repD(1) [OF R]
  from slab_drop_tail [OF S q(1)] obtain s1 s2 where d: "slab_unlink t ?s = Some s1" "\<And>out. slab_drop_node t out s1 = Some (out @ [victim_at ?s t], s2)"
    "slab_rep s2 (segs(q := xs)) {}" "drained ?s [t] s2" "same_nodes s1 ?s" "slab_rep s1 (segs(q := xs)) {t}" by blast
  have t: "t \<in> dom (slot_info ?s)" "t \<in> set (segs q)" using slab_tail_slot(2) [OF S q(1)] q(1) by simp_all
  have t1: "t \<in> dom (slot_info s1)" using t(1) same_nodesD(1) [OF d(5)] by simp
  have c: "vec_get (sb_costs s1) t = Some (slot_cost ?s t)"
    using slot_cost_nth [OF d(6) t1] slab_slot_less(1) [OF d(6) t1] slab_repD(2) [OF d(6)] same_nodesD(4) [OF d(5)] by simp
  let ?p = "p\<lparr>h3_slab := s2\<rparr>"
  have len: "length (sb_links s2) = length (sb_links ?s)" using slab_links_length(1) [OF d(1)] slab_links_length(5) [OF d(2)] by simp
  have rep: "h3_rep ?p (segs(q := xs))" by (rule h3_rep_slab [OF R d(3) len]) (use q(2) h3_repD(4) [OF R] in auto)
  have "h3_weight ?p (segs(q := xs)) < h3_weight p segs" using q by (auto simp: h3_weight_def)
  then have "h3_step p segs (slot_cost ?s t) [victim_at ?s t] ?p"
    using rep drained_victims [OF d(4)] drained_total [OF S d(4) t(1)] unfolding h3_step_def by auto
  moreover have "h3_drop_node t out (p\<lparr>h3_slab := s1\<rparr>) = Some (slot_cost ?s t, out @ [victim_at ?s t], ?p)"
    using c d(2) by (simp add: h3_drop_node_def)
  moreover have "slab_payload t s1 = Some (fst (victim_at ?s t))"
    using t1 same_nodesD(1) [OF d(5)] slab_payload_rep [of s1 t] by (auto simp: victim_at_def)
  ultimately show ?thesis using d(1) rep by auto
qed

lemma h3_evict_small_ok:
  assumes R: "h3_rep p segs" and q: "segs small_seg = xs @ [t]"
  shows "\<exists>c vs p'. h3_evict_small out p = Some (c, out @ vs, p') \<and> h3_step p segs c vs p'"
proof -
  let ?s = "h3_slab p"
  note S = h3_repD(1) [OF R]
  obtain l where l: "slab_list small_seg ?s = Some l" "sg_tail l = t" using slab_list_rep [OF S, of small_seg] q by auto
  have t: "t \<in> set (segs small_seg)" using q by simp
  note F = h3_slot_freq [OF R t]
  show ?thesis
  proof (cases "h3_freq p ! t > 1")
    case True
    have e: "segs small_seg = xs @ t # []" using q by simp
    from slab_shift_rep [OF S e, of main_seg] obtain s1 s2 where s: "slab_unlink t ?s = Some s1" "slab_push_front main_seg t s1 = Some s2"
      "slab_rep s2 (segs(small_seg := xs @ [], main_seg := t # segs main_seg)) {}" "same_nodes s2 ?s" by auto
    define segs1 where "segs1 = segs(small_seg := xs @ [], main_seg := t # segs main_seg)"
    let ?p = "p\<lparr>h3_freq := (h3_freq p)[t := 0], h3_slab := s2\<rparr>"
    have len: "length (sb_links s2) = length (sb_links ?s)" using slab_links_length(1) [OF s(1)] slab_links_length(2) [OF s(2)] by simp
    have rep: "h3_rep ?p segs1"
      using h3_rep_slab [OF h3_rep_freq [OF R F(1), of 0], of s2 segs1] s(3) len h3_repD(4) [OF R] by (simp add: segs1_def del: fun_upd_apply) simp
    have nt: "t \<notin> set (segs main_seg)" using slab_rep_other [OF S t, of main_seg] by simp
    have "h3_weight ?p segs1 < h3_weight p segs" using q F(1) main_weight_upd [OF nt, of "h3_freq p" 0] by (simp add: h3_weight_def segs1_def)
    then have "h3_step p segs 0 [] ?p" using rep same_nodesD(3,6) [OF s(4)] unfolding h3_step_def by auto
    moreover have "h3_evict_small out p = Some (0, out @ [], ?p)"
      using l s(1,2) True F(1) by (simp add: h3_evict_small_def h3_get_freq_def h3_set_freq_def vec_set_def)
    ultimately show ?thesis by blast
  next
    case False
    from h3_drop_step [OF R q, of out] obtain s1 p' where d: "slab_unlink t ?s = Some s1" "slab_payload t s1 = Some (fst (victim_at ?s t))"
      "h3_drop_node t out (p\<lparr>h3_slab := s1\<rparr>) = Some (slot_cost ?s t, out @ [victim_at ?s t], p')"
      "h3_step p segs (slot_cost ?s t) [victim_at ?s t] p'" "h3_rep p' (segs(small_seg := xs))" "h3_ghost_cap p' = h3_ghost_cap p" by auto
    let ?h = "fst (victim_at ?s t)"
    have ev: "h3_evict_small out p = Some (slot_cost ?s t, out @ [victim_at ?s t], h3_remember ?h p')"
      using l d(1-3) False F(1) by (simp add: h3_evict_small_def h3_get_freq_def h3_hash_of_def)
    have keep: "h3_rep (h3_remember ?h p') segs' \<and> h3_weight (h3_remember ?h p') segs' = h3_weight p' segs'" if "h3_rep p' segs'" for segs'
      using that h3_remember_ghost [of p' ?h] unfolding h3_rep_def h3_weight_def by (simp add: h3_remember_fields)
    from d(4) obtain segs' where "h3_rep p' segs'" "h3_weight p' segs' < h3_weight p segs" unfolding h3_step_def by blast
    with keep [of segs'] have "\<exists>segs'. h3_rep (h3_remember ?h p') segs' \<and> h3_weight (h3_remember ?h p') segs' < h3_weight p segs" by auto
    with d(4) have "h3_step p segs (slot_cost ?s t) [victim_at ?s t] (h3_remember ?h p')" unfolding h3_step_def h3_remember_fields by blast
    with ev show ?thesis by blast
  qed
qed

lemma h3_evict_main_ok:
  assumes R: "h3_rep p segs" and q: "segs main_seg = xs @ [t]"
  shows "\<exists>c vs p'. h3_evict_main out p = Some (c, out @ vs, p') \<and> h3_step p segs c vs p'"
proof -
  let ?s = "h3_slab p"
  note S = h3_repD(1) [OF R]
  obtain l where l: "slab_list main_seg ?s = Some l" "sg_tail l = t" using slab_list_rep [OF S, of main_seg] q by auto
  have t: "t \<in> set (segs main_seg)" using q by simp
  note F = h3_slot_freq [OF R t]
  show ?thesis
  proof (cases "h3_freq p ! t > 0")
    case True
    have e: "segs main_seg = xs @ t # []" using q by simp
    from slab_unlink_rep [OF S e] obtain s1 where u: "slab_unlink t ?s = Some s1" "slab_rep s1 (segs(main_seg := xs @ [])) {t}" "same_nodes s1 ?s"
      by (auto simp: same_nodes_def)
    from slab_push_front_rep [OF u(2), of t main_seg] obtain s2 where v: "slab_push_front main_seg t s1 = Some s2"
      "slab_rep s2 (segs(main_seg := t # xs)) {}" "same_nodes s2 s1" by (auto simp: same_nodes_def)
    let ?f = "h3_freq p ! t - 1" let ?p = "p\<lparr>h3_freq := (h3_freq p)[t := ?f], h3_slab := s2\<rparr>"
    have len: "length (sb_links s2) = length (sb_links ?s)" using slab_links_length(1) [OF u(1)] slab_links_length(2) [OF v(1)] by simp
    have oth: "(segs(main_seg := t # xs)) q = []" if "q \<noteq> small_seg" "q \<noteq> main_seg" for q using that h3_repD(4) [OF R] by simp
    have rep: "h3_rep ?p (segs(main_seg := t # xs))"
      using h3_rep_slab [OF h3_rep_freq [OF R F(1), of ?f], of s2 "segs(main_seg := t # xs)"] v(2) len oth F(2) by (simp del: fun_upd_apply)
    have "distinct (segs main_seg)" by (rule list_rep_head(4) [OF slab_rep_seg(7) [OF S t]])
    then have "t \<notin> set xs" using q by simp
    from main_weight_upd [OF this, of "h3_freq p" ?f] have "h3_weight ?p (segs(main_seg := t # xs)) < h3_weight p segs"
      using q F(1) True by (simp add: h3_weight_def)
    then have "h3_step p segs 0 [] ?p" using rep same_nodesD(3,6) [OF same_nodes_trans [OF v(3) u(3)]] unfolding h3_step_def by auto
    moreover have "h3_evict_main out p = Some (0, out @ [], ?p)"
      using l u(1) v(1) True F(1) by (simp add: h3_evict_main_def h3_get_freq_def h3_set_freq_def vec_set_def)
    ultimately show ?thesis by blast
  next
    case False
    from h3_drop_step [OF R q, of out] obtain s1 p' where d: "slab_unlink t ?s = Some s1"
      "h3_drop_node t out (p\<lparr>h3_slab := s1\<rparr>) = Some (slot_cost ?s t, out @ [victim_at ?s t], p')"
      "h3_step p segs (slot_cost ?s t) [victim_at ?s t] p'" by auto
    have "h3_evict_main out p = Some (slot_cost ?s t, out @ [victim_at ?s t], p')"
      using l d(1,2) False F(1) by (simp add: h3_evict_main_def h3_get_freq_def)
    with d(3) show ?thesis by blast
  qed
qed

text \<open>The loop ends because every round lowers the weight.\<close>

lemma h3_evict_loop_ok:
  assumes "h3_rep p segs" "freed + slab_total (h3_slab p) < 2 ^ 64"
  shows "\<exists>vs p' segs'. h3_evict_loop n freed out p = Some (out @ vs, p') \<and> h3_rep p' segs' \<and> names (slab_nodes (h3_slab p)) vs \<and>
    slab_nodes (h3_slab p') = without vs (slab_nodes (h3_slab p)) \<and> slab_total (h3_slab p') \<le> slab_total (h3_slab p) \<and>
    (n \<le> freed + (slab_total (h3_slab p) - slab_total (h3_slab p')) \<or> dom (slot_info (h3_slab p')) = {})"
  using assms
proof (induction "h3_weight p segs" arbitrary: p segs freed out rule: less_induct)
  case less
  let ?s = "h3_slab p"
  note R = less.prems(1) and S = h3_repD(1) [OF less.prems(1)]
  have stop: ?case if "h3_evict_loop n freed out p = Some (out, p)" "n \<le> freed \<or> dom (slot_info ?s) = {}"
    using that R by (intro exI [of _ "[]"] exI [of _ p] exI [of _ segs]) auto
  have go: ?case if st: "h3_step p segs c vs p1" and loop: "h3_evict_loop n freed out p = h3_evict_loop n (u64_add freed c) (out @ vs) p1" for c vs p1
  proof -
    from st obtain segs1 where r: "h3_rep p1 segs1" "h3_weight p1 segs1 < h3_weight p segs" and nm: "names (slab_nodes ?s) vs"
      "slab_nodes (h3_slab p1) = without vs (slab_nodes ?s)" and tot: "slab_total ?s = c + slab_total (h3_slab p1)" unfolding h3_step_def by blast
    have fit: "u64_add freed c = freed + c" "(freed + c) + slab_total (h3_slab p1) < 2 ^ 64" using less.prems(2) tot by simp_all
    from less.hyps [OF r(2,1) fit(2), of "out @ vs"] obtain ws p' segs' where h: "h3_evict_loop n (freed + c) (out @ vs) p1 = Some ((out @ vs) @ ws, p')"
      "h3_rep p' segs'" "names (slab_nodes (h3_slab p1)) ws" "slab_nodes (h3_slab p') = without ws (slab_nodes (h3_slab p1))"
      "slab_total (h3_slab p') \<le> slab_total (h3_slab p1)"
      "n \<le> freed + c + (slab_total (h3_slab p1) - slab_total (h3_slab p')) \<or> dom (slot_info (h3_slab p')) = {}" by blast
    note A = names_append [OF nm(1) h(3) [unfolded nm(2)]]
    have "n \<le> freed + (slab_total ?s - slab_total (h3_slab p')) \<or> dom (slot_info (h3_slab p')) = {}" using h(5,6) tot by auto
    moreover have "slab_total (h3_slab p') \<le> slab_total ?s" using h(5) tot by simp
    ultimately show ?case using loop fit(1) h(1,2,4) A nm(2) by (intro exI [of _ "vs @ ws"] exI [of _ p'] exI [of _ segs']) simp
  qed
  obtain small where sm: "slab_list small_seg ?s = Some small" "sg_tail small = nil_or (final (segs small_seg))"
    using slab_list_rep [OF S, of small_seg] by auto
  obtain main where mn: "slab_list main_seg ?s = Some main" "sg_tail main = nil_or (final (segs main_seg))"
    using slab_list_rep [OF S, of main_seg] by auto
  have ts: "sg_tail small = nil32 \<longleftrightarrow> segs small_seg = []"
    using sm(2) slab_tail_slot(1) [OF S] by (cases "segs small_seg" rule: rev_cases) auto
  have tm: "sg_tail main = nil32 \<longleftrightarrow> segs main_seg = []"
    using mn(2) slab_tail_slot(1) [OF S] by (cases "segs main_seg" rule: rev_cases) auto
  consider (paid) "\<not> freed < n" | (small) "freed < n" "sg_tail small \<noteq> nil32 \<and> (sg_cost small > h3_small_target p \<or> sg_tail main = nil32)"
    | (main) "freed < n" "\<not> (sg_tail small \<noteq> nil32 \<and> (sg_cost small > h3_small_target p \<or> sg_tail main = nil32))" "sg_tail main \<noteq> nil32"
    | (empty) "freed < n" "sg_tail small = nil32" "sg_tail main = nil32" by blast
  then show ?case
  proof cases
    case paid
    then show ?thesis by (intro stop) (simp_all add: h3_evict_loop.simps)
  next
    case small
    then obtain xs t where "segs small_seg = xs @ [t]" using ts by (cases "segs small_seg" rule: rev_cases) auto
    from h3_evict_small_ok [OF R this, of out] obtain c vs p1 where e: "h3_evict_small out p = Some (c, out @ vs, p1)" "h3_step p segs c vs p1" by blast
    show ?thesis by (rule go [OF e(2)]) (use small sm(1) mn(1) e(1) in \<open>simp add: h3_evict_loop.simps [of n freed out p]\<close>)
  next
    case main
    then obtain xs t where "segs main_seg = xs @ [t]" using tm by (cases "segs main_seg" rule: rev_cases) auto
    from h3_evict_main_ok [OF R this, of out] obtain c vs p1 where e: "h3_evict_main out p = Some (c, out @ vs, p1)" "h3_step p segs c vs p1" by blast
    have "h3_evict_loop n freed out p = h3_evict_loop n (u64_add freed c) (out @ vs) p1"
      unfolding h3_evict_loop.simps [of n freed out p] sm(1) mn(1) using main e(1) by (simp only: Option.bind.bind_lunit if_True if_False) simp
    then show ?thesis by (rule go [OF e(2)])
  next
    case empty
    have "segs q = []" for q using h3_repD(4) [OF R, of q] empty ts tm by (cases "q = small_seg"; cases "q = main_seg") auto
    then have "dom (slot_info ?s) = {}" using slab_repD(6) [OF S] by simp
    then show ?thesis using empty sm(1) mn(1) by (intro stop) (simp_all add: h3_evict_loop.simps [of n freed out p])
  qed
qed

subsection \<open>The contract\<close>

definition h3_tracks :: "hs3fifo \<Rightarrow> residents \<Rightarrow> bool" where
  "h3_tracks p m \<longleftrightarrow> (\<exists>segs. h3_rep p segs) \<and> m = slab_nodes (h3_slab p)"

lemma h3_tracksE:
  assumes "h3_tracks p m"
  obtains segs where "h3_rep p segs" "slab_rep (h3_slab p) segs {}" "m = slab_nodes (h3_slab p)"
    "resident_cost m = slab_total (h3_slab p)" "card (dom m) = card (dom (slot_info (h3_slab p)))"
  using assms slab_nodes_total h3_repD(1) unfolding h3_tracks_def resident_cost_def by metis

lemma h3_tracksI: "h3_rep p segs \<Longrightarrow> m = slab_nodes (h3_slab p) \<Longrightarrow> h3_tracks p m"
  by (auto simp: h3_tracks_def)

lemma slab_alloc_length:
  assumes "slab_alloc h c s = Some (i, s')" "slab_rep s segs D" "length (sb_links s) < 2 ^ 32"
  shows "i \<le> length (sb_links s)" "length (sb_links s') = max (length (sb_links s)) (Suc i)"
proof -
  have f: "last (sb_free s) < length (sb_links s)" if "sb_free s \<noteq> []"
    using assms(2) last_in_set [OF that] by (auto simp: slab_rep_def slab_shape_def)
  show "i \<le> length (sb_links s)" "length (sb_links s') = max (length (sb_links s)) (Suc i)"
    using assms(1,3) f by (auto simp: slab_alloc_def Let_def bind_eq_Some_conv max_def split: if_splits)
qed

lemma h3_admit_tracks:
  assumes t: "h3_tracks p m" and fits: "resident_cost m + c < 2 ^ 64" and room: "card (dom m) < nil32"
  shows "\<exists>n p'. h3_admit_key h c out p = Some (n, out, p') \<and> m n = None \<and> n < 2 ^ 64 \<and> n \<noteq> no_node \<and> h3_tracks p' (m(n \<mapsto> (h, c)))"
proof -
  from t obtain segs where R: "h3_rep p segs" and S: "slab_rep (h3_slab p) segs {}" and m: "m = slab_nodes (h3_slab p)"
    and c: "resident_cost m = slab_total (h3_slab p)" "card (dom m) = card (dom (slot_info (h3_slab p)))" by (rule h3_tracksE)
  let ?s = "h3_slab p" let ?seg = "if h \<in> h3_ghost p then main_seg else small_seg"
  have q: "?seg < 3" by simp
  from slab_insert_rep [OF S _ _ q, of c h] fits room c obtain i s1 s2 n where a: "slab_alloc h c ?s = Some (i, s1)"
    "slab_push_front ?seg i s1 = Some s2" "slab_id i s2 = Some n" "slab_rep s2 (segs(?seg := i # segs ?seg)) {}"
    "slab_nodes ?s n = None" "n < 2 ^ 64" "n \<noteq> no_node" "slab_nodes s2 = (slab_nodes ?s)(n \<mapsto> (h, c))" by auto
  have "length (sb_links ?s) < 2 ^ 32" using slab_repD(3) [OF S] by (simp add: nil32_def)
  note L = slab_alloc_length [OF a(1) S this]
  define fs where "fs = (if i \<ge> length (h3_freq p) then h3_freq p @ [0] else (h3_freq p)[i := 0])"
  let ?p = "p\<lparr>h3_ghost := h3_ghost p - {h}, h3_freq := fs, h3_slab := s2\<rparr>"
  have len: "length (sb_links s2) \<le> length fs" using h3_repD(2) [OF R] L slab_links_length(2) [OF a(2)] by (auto simp: fs_def)
  have "\<forall>f \<in> set fs. f \<le> 3" using h3_repD(3) [OF R] vec_set_bounded [of i "h3_freq p" 3 0] by (auto simp: fs_def simp del: set_update_subset_insert)
  moreover have "(segs(?seg := i # segs ?seg)) r = []" if "r \<noteq> small_seg" "r \<noteq> main_seg" for r using that h3_repD(4) [OF R] by simp
  ultimately have "h3_rep ?p (segs(?seg := i # segs ?seg))" using R a(4) len unfolding h3_rep_def by (auto simp del: fun_upd_apply)
  then have "h3_tracks ?p (m(n \<mapsto> (h, c)))" by (rule h3_tracksI) (use a(8) m in \<open>simp del: fun_upd_apply\<close>)
  moreover have "h3_admit_key h c out p = Some (n, out, ?p)"
    using a(1-3) by (simp add: h3_admit_key_def h3_set_freq_def vec_set_def fs_def Let_def)
  ultimately show ?thesis using a(5-7) m by blast
qed

lemma h3_resolve: "h3_tracks p m \<Longrightarrow> n < 2 ^ 64 \<Longrightarrow> slab_resolve n (h3_slab p) = (if n \<in> dom m then Some (n mod 2 ^ 32) else None)"
  using slab_resolve_rep h3_repD(1) unfolding h3_tracks_def by blast

lemma h3_touch_tracks:
  assumes t: "h3_tracks p m" and n: "n < 2 ^ 64"
  shows "\<exists>p'. h3_touch n p = Some p' \<and> h3_tracks p' m"
proof (cases "m n")
  case None
  then show ?thesis using t h3_resolve [OF t n] by (auto simp: h3_touch_def)
next
  case (Some x)
  from t obtain segs where R: "h3_rep p segs" and S: "slab_rep (h3_slab p) segs {}" and m: "m = slab_nodes (h3_slab p)" by (rule h3_tracksE)
  let ?i = "n mod 2 ^ 32"
  have "slot_info (h3_slab p) ?i = Some x" using slab_nodes_slot(1) Some m by blast
  then obtain q where q: "?i \<in> set (segs q)" using slab_repD(6) [OF S] by blast
  note F = h3_slot_freq [OF R q]
  let ?p = "if h3_freq p ! ?i < 3 then p\<lparr>h3_freq := (h3_freq p)[?i := h3_freq p ! ?i + 1]\<rparr> else p"
  have "h3_rep ?p segs" using R h3_rep_freq [OF R F(1), of "h3_freq p ! ?i + 1"] by auto
  then have "h3_tracks ?p m" by (rule h3_tracksI) (use m in auto)
  moreover have "h3_touch n p = Some ?p"
    using Some F(1) h3_resolve [OF t n] by (auto simp: h3_touch_def h3_bump_def h3_get_freq_def h3_set_freq_def vec_set_def)
  ultimately show ?thesis by blast
qed

lemma h3_update_tracks:
  assumes t: "h3_tracks p m" and n: "n < 2 ^ 64" and fits: "resident_cost m + c < 2 ^ 64"
  shows "\<exists>p'. h3_update n c p = Some p' \<and> h3_tracks p' (case m n of None \<Rightarrow> m | Some (h, _) \<Rightarrow> m(n \<mapsto> (h, c)))"
proof (cases "m n")
  case None
  then show ?thesis using t h3_resolve [OF t n] by (auto simp: h3_update_def)
next
  case (Some x)
  obtain h c0 where x: "x = (h, c0)" by force
  from t obtain segs where R: "h3_rep p segs" and S: "slab_rep (h3_slab p) segs {}" and m: "m = slab_nodes (h3_slab p)"
    and cost: "resident_cost m = slab_total (h3_slab p)" by (rule h3_tracksE)
  have nd: "slab_nodes (h3_slab p) n = Some (h, c0)" using Some m x by simp
  have "slab_total (h3_slab p) + c < 2 ^ 64" using fits cost by simp
  from slab_set_cost_nodes [OF S nd this] obtain s1 where s1: "slab_set_cost (n mod 2 ^ 32) c (h3_slab p) = Some s1" "slab_rep s1 segs {}"
    "slab_nodes s1 = (slab_nodes (h3_slab p))(n \<mapsto> (h, c))" by blast
  have "h3_rep (p\<lparr>h3_slab := s1\<rparr>) segs"
    by (rule h3_rep_slab [OF R s1(2) slab_links_length(4) [OF s1(1)]]) (rule h3_repD(4) [OF R])
  then have "h3_tracks (p\<lparr>h3_slab := s1\<rparr>) (m(n \<mapsto> (h, c)))" by (rule h3_tracksI) (use s1(3) m in \<open>simp del: fun_upd_apply\<close>)
  moreover have "slab_resolve n (h3_slab p) = Some (n mod 2 ^ 32)" using h3_resolve [OF t n] Some by auto
  ultimately show ?thesis using Some x s1(1) by (simp add: h3_update_def del: fun_upd_apply)
qed

lemma h3_remove_tracks:
  assumes t: "h3_tracks p m" and n: "n < 2 ^ 64"
  shows "\<exists>p'. h3_remove n p = Some p' \<and> h3_tracks p' (m(n := None))"
proof (cases "m n")
  case None
  then have "m(n := None) = m" by auto
  then show ?thesis using t h3_resolve [OF t n] None by (auto simp: h3_remove_def)
next
  case (Some x)
  obtain h c where x: "x = (h, c)" by force
  from t obtain segs where R: "h3_rep p segs" and S: "slab_rep (h3_slab p) segs {}" and m: "m = slab_nodes (h3_slab p)" by (rule h3_tracksE)
  have nd: "slab_nodes (h3_slab p) n = Some (h, c)" using Some m x by simp
  from slab_nodes_slot(1) [OF nd] obtain q where q: "n mod 2 ^ 32 \<in> set (segs q)" using slab_repD(6) [OF S] by blast
  obtain xs ys where xy: "segs q = xs @ n mod 2 ^ 32 # ys" using split_list [OF q] by blast
  from slab_drop_rep [OF S xy] slab_nodes_slot(2) [OF nd] obtain s1 s2 where r: "slab_unlink (n mod 2 ^ 32) (h3_slab p) = Some s1"
    "slab_release (n mod 2 ^ 32) s1 = Some (h, s2)" "slab_rep s2 (segs(q := xs @ ys)) {}" "slab_nodes s2 = (slab_nodes (h3_slab p))(n := None)"
    using nd by fastforce
  have oth: "(segs(q := xs @ ys)) r = []" if "r \<noteq> small_seg" "r \<noteq> main_seg" for r using that h3_repD(4) [OF R, of r] xy by auto
  have len: "length (sb_links s2) = length (sb_links (h3_slab p))" using slab_links_length(1) [OF r(1)] slab_links_length(3) [OF r(2)] by simp
  have "h3_rep (p\<lparr>h3_slab := s2\<rparr>) (segs(q := xs @ ys))" by (rule h3_rep_slab [OF R r(3) len oth])
  then have "h3_tracks (p\<lparr>h3_slab := s2\<rparr>) (m(n := None))" by (rule h3_tracksI) (use r(4) m in \<open>simp del: fun_upd_apply\<close>)
  moreover have "slab_resolve n (h3_slab p) = Some (n mod 2 ^ 32)" using h3_resolve [OF t n] Some by auto
  ultimately show ?thesis using r(1,2) by (simp add: h3_remove_def del: fun_upd_apply)
qed

lemma h3_clear_tracks: "h3_tracks p m \<Longrightarrow> h3_tracks (h3_clear p) Map.empty"
proof -
  assume "h3_tracks p m"
  then obtain segs where R: "h3_rep p segs" by (rule h3_tracksE)
  have "h3_rep (h3_clear p) (\<lambda>_. [])" using R slab_clear_rep(1) [of "h3_slab p"]
    by (simp add: h3_rep_def h3_clear_def) (simp add: slab_clear_def)
  moreover have "slab_nodes (slab_clear (h3_slab p)) = Map.empty"
    by (auto simp: slab_nodes_def node_view_def slab_clear_rep(2) fun_eq_iff)
  ultimately show ?thesis by (intro h3_tracksI [of _ "\<lambda>_. []"]) (simp_all add: h3_clear_def)
qed

lemma h3_evict_tracks:
  assumes t: "h3_tracks p m"
  shows "\<exists>vs p'. h3_evict n out p = Some (out @ vs, p') \<and> names m vs \<and> h3_tracks p' (without vs m) \<and>
    (n \<le> resident_cost m - resident_cost (without vs m) \<or> without vs m = Map.empty)"
proof -
  from t obtain segs where R: "h3_rep p segs" and S: "slab_rep (h3_slab p) segs {}" and m: "m = slab_nodes (h3_slab p)"
    and c: "resident_cost m = slab_total (h3_slab p)" by (rule h3_tracksE)
  from h3_evict_loop_ok [OF R, of 0 n out] slab_repD(5) [OF S] obtain vs p' segs' where e: "h3_evict_loop n 0 out p = Some (out @ vs, p')" "h3_rep p' segs'"
    "names (slab_nodes (h3_slab p)) vs" "slab_nodes (h3_slab p') = without vs (slab_nodes (h3_slab p))"
    "n \<le> slab_total (h3_slab p) - slab_total (h3_slab p') \<or> dom (slot_info (h3_slab p')) = {}" by auto
  have t': "h3_tracks p' (without vs m)" by (rule h3_tracksI [OF e(2)]) (use e(4) m in simp)
  then have c': "resident_cost (without vs m) = slab_total (h3_slab p')" "card (dom (without vs m)) = card (dom (slot_info (h3_slab p')))"
    "finite (dom (without vs m))" using slab_nodes_total(3) by (auto elim!: h3_tracksE)
  then have "dom (slot_info (h3_slab p')) = {} \<Longrightarrow> without vs m = Map.empty" by simp
  then have "n \<le> resident_cost m - resident_cost (without vs m) \<or> without vs m = Map.empty" using e(5) c c'(1) by auto
  with e(1,3) m t' show ?thesis unfolding h3_evict_def by blast
qed

interpretation hs3fifo: shard_policy h3_tracks hs3fifo_ops
proof
  fix p m c
  assume t: "h3_tracks p m"
  then show "finite (dom m)" using slab_nodes_total(3) by (auto elim!: h3_tracksE)
  assume fits: "resident_cost m + shard_call_cost c < 2 ^ 64" and room: "card (dom m) + admits c \<le> nil32" and ok: "shard_call_ok c"
  show "\<exists>a s'. shard_exec hs3fifo_ops c p = Some (a, s') \<and> shard_answer_ok m c a \<and> h3_tracks s' (resident_step c a m)"
  proof (cases c)
    case (SAdmit h k)
    with h3_admit_tracks [OF t, of k h "[]"] fits room show ?thesis by (fastforce simp: hs3fifo_ops_def)
  next
    case (SUpdate n k)
    with h3_update_tracks [OF t, of n k] fits ok show ?thesis by (fastforce simp: hs3fifo_ops_def)
  next
    case (SRemove n)
    with h3_remove_tracks [OF t, of n] ok show ?thesis by (fastforce simp: hs3fifo_ops_def)
  next
    case (SEvict k)
    with h3_evict_tracks [OF t, of k "[]"] show ?thesis by (fastforce simp: hs3fifo_ops_def)
  next
    case (STouch n)
    with h3_touch_tracks [OF t, of n] ok show ?thesis by (fastforce simp: hs3fifo_ops_def)
  next
    case (SApplyRead n)
    with h3_touch_tracks [OF t, of n] ok show ?thesis by (fastforce simp: hs3fifo_ops_def)
  qed (use t h3_clear_tracks [OF t] in \<open>simp_all add: hs3fifo_ops_def\<close>)
qed

end
