(* ===== verification/Hpolicy.thy ===== *)
theory Hpolicy
  imports Htinylfu Hs3fifo
begin

section \<open>The built-in shard policies\<close>

text \<open>
  \<^verbatim>\<open>Builtin\<close> of \<^verbatim>\<open>cache/src/hpolicy.rs\<close>: the two policies a shard can own, dispatched by \<^verbatim>\<open>match\<close>, and
  what both promise to the shard.
\<close>

datatype builtin = TinyLfu htinylfu | S3Fifo hs3fifo

fun builtin_admit :: "64 word \<Rightarrow> nat \<Rightarrow> victim list \<Rightarrow> builtin \<Rightarrow> (nat \<times> victim list \<times> builtin) option" where
  "builtin_admit hash cost out (TinyLfu p) = do { (n, out, p) \<leftarrow> ht_admit_key hash cost out p; Some (n, out, TinyLfu p) }"
| "builtin_admit hash cost out (S3Fifo p) = do { (n, out, p) \<leftarrow> h3_admit_key hash cost out p; Some (n, out, S3Fifo p) }"

fun builtin_update :: "nat \<Rightarrow> nat \<Rightarrow> builtin \<Rightarrow> builtin option" where
  "builtin_update node cost (TinyLfu p) = map_option TinyLfu (ht_update node cost p)"
| "builtin_update node cost (S3Fifo p) = map_option S3Fifo (h3_update node cost p)"

fun builtin_remove :: "nat \<Rightarrow> builtin \<Rightarrow> builtin option" where
  "builtin_remove node (TinyLfu p) = map_option TinyLfu (ht_remove node p)"
| "builtin_remove node (S3Fifo p) = map_option S3Fifo (h3_remove node p)"

fun builtin_evict :: "nat \<Rightarrow> victim list \<Rightarrow> builtin \<Rightarrow> (victim list \<times> builtin) option" where
  "builtin_evict cost_to_free out (TinyLfu p) = do { (out, p) \<leftarrow> ht_evict_nodes cost_to_free out p; Some (out, TinyLfu p) }"
| "builtin_evict cost_to_free out (S3Fifo p) = do { (out, p) \<leftarrow> h3_evict cost_to_free out p; Some (out, S3Fifo p) }"

fun builtin_apply_reads :: "read_ring \<Rightarrow> builtin \<Rightarrow> (read_ring \<times> builtin) option" where
  "builtin_apply_reads ring (TinyLfu p) = do { (ring, p) \<leftarrow> ht_apply_reads ring p; Some (ring, TinyLfu p) }"
| "builtin_apply_reads ring (S3Fifo p) = Some (ring, S3Fifo p)"

fun builtin_touch :: "nat \<Rightarrow> builtin \<Rightarrow> builtin option" where
  "builtin_touch node (TinyLfu p) = Some (TinyLfu p)"
| "builtin_touch node (S3Fifo p) = map_option S3Fifo (h3_touch node p)"

fun builtin_apply_read :: "nat \<Rightarrow> builtin \<Rightarrow> builtin option" where
  "builtin_apply_read node (TinyLfu p) = map_option TinyLfu (ht_touch_node node p)"
| "builtin_apply_read node (S3Fifo p) = map_option S3Fifo (h3_touch node p)"

fun builtin_clear :: "builtin \<Rightarrow> builtin" where
  "builtin_clear (TinyLfu p) = TinyLfu (ht_clear p)"
| "builtin_clear (S3Fifo p) = S3Fifo (h3_clear p)"

definition builtin_ops :: "builtin shard_policy_ops" where
  "builtin_ops = \<lparr>sp_admit = builtin_admit, sp_update = builtin_update, sp_remove = builtin_remove, sp_evict = builtin_evict,
     sp_apply_reads = builtin_apply_reads, sp_touch = builtin_touch, sp_apply_read = builtin_apply_read, sp_clear = builtin_clear\<rparr>"

subsection \<open>The contract, by dispatch\<close>

fun builtin_tracks :: "builtin \<Rightarrow> residents \<Rightarrow> bool" where
  "builtin_tracks (TinyLfu p) m = ht_tracks p m"
| "builtin_tracks (S3Fifo p) m = h3_tracks p m"

lemma builtin_exec_tinylfu: "shard_exec htinylfu_ops c p = Some (a, p') \<Longrightarrow> shard_exec builtin_ops c (TinyLfu p) = Some (a, TinyLfu p')"
  by (cases c) (auto simp: builtin_ops_def htinylfu_ops_def bind_eq_Some_conv)

lemma builtin_exec_s3fifo: "shard_exec hs3fifo_ops c p = Some (a, p') \<Longrightarrow> shard_exec builtin_ops c (S3Fifo p) = Some (a, S3Fifo p')"
  by (cases c) (auto simp: builtin_ops_def hs3fifo_ops_def bind_eq_Some_conv)

interpretation builtin: shard_policy builtin_tracks builtin_ops
proof
  fix b m c
  assume t: "builtin_tracks b m"
  then show "finite (dom m)" using htinylfu.tracks_finite hs3fifo.tracks_finite by (cases b) auto
  assume *: "resident_cost m + shard_call_cost c < 2 ^ 64" "card (dom m) + admits c \<le> nil32" "shard_call_ok c"
  show "\<exists>a b'. shard_exec builtin_ops c b = Some (a, b') \<and> shard_answer_ok m c a \<and> builtin_tracks b' (resident_step c a m)"
  proof (cases b)
    case (TinyLfu p)
    with t htinylfu.exec_tracks [OF _ *, of p] builtin_exec_tinylfu [of c p] show ?thesis by fastforce
  next
    case (S3Fifo p)
    with t hs3fifo.exec_tracks [OF _ *, of p] builtin_exec_s3fifo [of c p] show ?thesis by fastforce
  qed
qed

lemma htinylfu_new_tracks: "ht_tracks (htinylfu_new capacity) Map.empty"
proof -
  have "hs_ok (ht_sketch (htinylfu_new capacity))" by (simp add: htinylfu_new_def Let_def hs_new_ok)
  moreover have "slab_nodes slab_new = Map.empty" by (auto simp: slab_nodes_def node_view_def slab_new_rep(2) fun_eq_iff)
  moreover have "ht_slab (htinylfu_new capacity) = slab_new" by (simp add: htinylfu_new_def Let_def)
  ultimately show ?thesis by (intro ht_tracksI [of _ "\<lambda>_. []", OF _ _ sym]) (simp_all add: slab_new_rep(1))
qed

lemma hs3fifo_new_tracks: "h3_tracks (hs3fifo_new capacity) Map.empty"
proof (rule h3_tracksI [of _ "\<lambda>_. []"])
  show "h3_rep (hs3fifo_new capacity) (\<lambda>_. [])"
    by (simp add: h3_rep_def hs3fifo_new_def slab_new_rep(1)) (simp add: slab_new_def)
  show "Map.empty = slab_nodes (h3_slab (hs3fifo_new capacity))"
    by (auto simp: hs3fifo_new_def slab_nodes_def node_view_def slab_new_rep(2) fun_eq_iff)
qed

subsection \<open>Properties\<close>

lemma builtin_stale:
  assumes "builtin_tracks b m" "m n = None" "n < 2 ^ 64"
  shows "builtin_update n c b = Some b \<and> builtin_remove n b = Some b \<and> builtin_touch n b = Some b \<and> builtin_apply_read n b = Some b"
proof (cases b)
  case (TinyLfu p)
  then obtain segs where "slab_rep (ht_slab p) segs {}" "m = slab_nodes (ht_slab p)" using assms(1) by (auto elim: ht_tracksE)
  then have "slab_resolve n (ht_slab p) = None" using slab_resolve_rep assms(2,3) by fastforce
  then show ?thesis using TinyLfu by (simp add: ht_update_def ht_remove_def ht_touch_node_def)
next
  case (S3Fifo p)
  then have "slab_resolve n (h3_slab p) = None" using h3_resolve [OF _ assms(3)] assms(1,2) by auto
  then show ?thesis using S3Fifo by (simp add: h3_update_def h3_remove_def h3_touch_def)
qed

text \<open>
  (C12) Both built-in policies under any history of calls of a shard, with up to \<^verbatim>\<open>2 ^ 32 - 1\<close> admissions,
  costs that sum up to less than \<^verbatim>\<open>2 ^ 64\<close> and, for W-TinyLFU, a capacity whose sketch size does not overflow:
  no index is out of range, no \<^verbatim>\<open>expect\<close> fails, no loop runs forever; every admission returns a node
  id that no resident node has and that is never the reserved \<^verbatim>\<open>NO_NODE\<close>; every victim is a resident node, named once, with its own hash;
  the policy ends up knowing exactly the nodes that are resident; and an update, removal or read of any id
  that names no resident node leaves its state unchanged. An id from before a \<^verbatim>\<open>clear\<close> may name a resident
  node again.
\<close>

theorem builtin_policy_in_step:
  assumes "b = TinyLfu (htinylfu_new capacity) \<and> capacity * 20 < 2 ^ 64 \<or> b = S3Fifo (hs3fifo_new capacity)"
    "sum_list (map shard_call_cost cs) < 2 ^ 64" "sum_list (map admits cs) < 2 ^ 32" "\<forall>c \<in> set cs. shard_call_ok c"
  shows "\<exists>as b'. shard_run builtin_ops cs b = Some (as, b') \<and> shard_in_step Map.empty cs as \<and>
           builtin_tracks b' (resident_after cs as Map.empty) \<and>
           (\<forall>n c. resident_after cs as Map.empty n = None \<and> n < 2 ^ 64 \<longrightarrow>
              builtin_update n c b' = Some b' \<and> builtin_remove n b' = Some b' \<and> builtin_touch n b' = Some b' \<and> builtin_apply_read n b' = Some b')"
proof -
  have t: "builtin_tracks b Map.empty" using assms(1) htinylfu_new_tracks hs3fifo_new_tracks by auto
  obtain as b' where "shard_run builtin_ops cs b = Some (as, b')" "shard_in_step Map.empty cs as" "builtin_tracks b' (resident_after cs as Map.empty)"
    using builtin.run_in_step [OF t, of cs] assms(2-4) by (auto simp: resident_cost_def nil32_def)
  then show ?thesis using builtin_stale by blast
qed

lemma removed_is_stale: "shard_in_step m (cs @ [SRemove n]) as \<Longrightarrow> resident_after (cs @ [SRemove n]) as m n = None"
proof (induction cs arbitrary: m as)
  case Nil
  then show ?case by (cases as) simp_all
next
  case (Cons c cs)
  then show ?case by (cases as) simp_all
qed

theorem builtin_policy_in_step_witness:
  "\<exists>as b'. shard_run builtin_ops [SAdmit 7 3, SAdmit 8 2, SApplyRead 0, SEvict 1, SRemove 0] (TinyLfu (htinylfu_new 100)) = Some (as, b') \<and>
     shard_in_step Map.empty [SAdmit 7 3, SAdmit 8 2, SApplyRead 0, SEvict 1, SRemove 0] as \<and> builtin_apply_read 0 b' = Some b'"
proof -
  let ?cs = "[SAdmit 7 3, SAdmit 8 2, SApplyRead 0, SEvict 1] @ [SRemove 0]"
  obtain as b' where r: "shard_run builtin_ops ?cs (TinyLfu (htinylfu_new 100)) = Some (as, b')" "shard_in_step Map.empty ?cs as"
    "\<And>n. resident_after ?cs as Map.empty n = None \<Longrightarrow> n < 2 ^ 64 \<Longrightarrow> builtin_apply_read n b' = Some b'"
    using builtin_policy_in_step [of "TinyLfu (htinylfu_new 100)" 100 ?cs] by (simp del: shard_run.simps shard_in_step.simps resident_after.simps) blast
  have "builtin_apply_read 0 b' = Some b'" by (rule r(3) [OF removed_is_stale [OF r(2)]]) simp
  then show ?thesis using r(1,2) by (simp only: append.simps) blast
qed

text \<open>
  S3-FIFO on handles pays. Asked to free a cost at any point of any history, the eviction ends
  although entries with a frequency circulate in the main queue, and it has released what was asked
  for or left no resident node.
\<close>

theorem hs3fifo_evict_pays:
  assumes "sum_list (map shard_call_cost cs) < 2 ^ 64" "sum_list (map admits cs) < 2 ^ 32" "\<forall>c \<in> set cs. shard_call_ok c"
  shows "\<exists>as p vs p'. shard_run hs3fifo_ops cs (hs3fifo_new capacity) = Some (as, p) \<and> h3_evict n [] p = Some (vs, p') \<and>
    names (resident_after cs as Map.empty) vs \<and>
    (n \<le> resident_cost (resident_after cs as Map.empty) - resident_cost (without vs (resident_after cs as Map.empty)) \<or>
     without vs (resident_after cs as Map.empty) = Map.empty)"
proof -
  from hs3fifo.run_in_step [OF hs3fifo_new_tracks, of cs capacity] assms obtain as p where
    r: "shard_run hs3fifo_ops cs (hs3fifo_new capacity) = Some (as, p)" "h3_tracks p (resident_after cs as Map.empty)"
    by (auto simp: resident_cost_def nil32_def)
  from h3_evict_tracks [OF r(2), of n "[]"] r(1) show ?thesis by auto
qed

theorem hs3fifo_evict_pays_witness:
  "\<exists>as p vs p'. shard_run hs3fifo_ops [SAdmit 7 3, STouch 0] (hs3fifo_new 10) = Some (as, p) \<and> h3_evict 2 [] p = Some (vs, p')"
  using hs3fifo_evict_pays [of "[SAdmit 7 3, STouch 0]" 10 2] by auto

lemma slab_total_segs:
  assumes R: "slab_rep s segs {}"
  shows "slab_total s = seg_cost s (segs window_seg) + seg_cost s (main_list segs)"
proof -
  let ?xs = "segs window_seg @ main_list segs"
  have d: "distinct (segs q)" if "q < 3" for q using R that list_rep_head(4) by (auto simp: slab_rep_def)
  have dj: "set (segs q) \<inter> set (segs r) = {}" if "q \<noteq> r" for q r using slab_rep_other [OF R] that by (auto simp: disjoint_iff)
  have "distinct ?xs" using d dj by (auto simp: main_list_def Int_Un_distrib)
  moreover have "set ?xs = dom (slot_info s)"
  proof -
    have "(\<Union>q. set (segs q)) = set ?xs"
      using slab_rep_seg(1) [OF R] seg_cases by (fastforce simp: main_list_def)
    then show ?thesis using slab_repD(6) [OF R] by simp
  qed
  moreover have "the (info_costs (slot_info s) i) = slot_cost s i" if "i \<in> dom (slot_info s)" for i
    using that by (auto simp: info_costs_def slot_cost_def)
  ultimately have "slab_total s = seg_cost s ?xs"
    by (simp add: slab_total_def total_cost_def seg_cost_def sum_list_distinct_conv_sum_set del: map_append set_append)
  then show ?thesis by simp
qed

text \<open>
  (C38) The cost bound of a shard under W-TinyLFU on handles. After an admission the window is within
  its target, and evicting the overrun above the capacity brings the cost of the resident nodes back
  within the capacity. The victims are the least recent nodes of the main space, in order.
\<close>

theorem htinylfu_admit_then_evict:
  assumes "ht_tracks p m" "resident_cost m + c < 2 ^ 64" "card (dom m) < nil32" "capacity = ht_window_target p + ht_main_capacity p"
  shows "\<exists>n vs p1 ws p2. ht_admit_key h c [] p = Some (n, vs, p1) \<and>
    ht_evict_nodes (resident_cost (without vs (m(n \<mapsto> (h, c)))) - capacity) [] p1 = Some (ws, p2) \<and>
    ht_tracks p2 (without ws (without vs (m(n \<mapsto> (h, c))))) \<and> resident_cost (without ws (without vs (m(n \<mapsto> (h, c))))) \<le> capacity"
proof -
  from ht_admit_ok [OF assms(1-3), of h "[]"] obtain n vs p1 segs where a: "ht_admit_key h c [] p = Some (n, vs, p1)"
    "ht_tracks p1 (without vs (m(n \<mapsto> (h, c))))" "slab_rep (ht_slab p1) segs {}" "seg_cost (ht_slab p1) (segs window_seg) \<le> ht_window_target p" by auto
  define m1 where "m1 = without vs (m(n \<mapsto> (h, c)))"
  from a(2) have m1: "hs_ok (ht_sketch p1)" "m1 = slab_nodes (ht_slab p1)" "resident_cost m1 = slab_total (ht_slab p1)"
    unfolding m1_def [symmetric] by (auto elim: ht_tracksE)
  from ht_evict_ok [OF a(3), of "resident_cost m1 - capacity" "[]"] obtain xs ys s' segs' where
    e: "main_list segs = xs @ ys" "ht_evict_nodes (resident_cost m1 - capacity) [] p1 = Some (map (victim_at (ht_slab p1)) (rev ys), p1\<lparr>ht_slab := s'\<rparr>)"
      "slab_rep s' segs' {}" "segs' window_seg = segs window_seg" "main_list segs' = xs" "drained (ht_slab p1) ys s'"
      "resident_cost m1 - capacity \<le> seg_cost (ht_slab p1) ys \<or> xs = []" by auto
  let ?ws = "map (victim_at (ht_slab p1)) (rev ys)" let ?p2 = "p1\<lparr>ht_slab := s'\<rparr>"
  have t2: "ht_tracks ?p2 (without ?ws m1)" by (rule ht_tracksI [of _ segs']) (use e(3,6) m1(1,2) in \<open>simp_all add: drained_def\<close>)
  have c2: "resident_cost (without ?ws m1) = slab_total s'" using t2 by (auto elim: ht_tracksE)
  have dist: "distinct (segs window_seg @ xs @ ys)"
  proof -
    have "distinct (segs q)" if "q < 3" for q using a(3) that list_rep_head(4) by (auto simp: slab_rep_def)
    moreover have "set (segs q) \<inter> set (segs r) = {}" if "q \<noteq> r" for q r using slab_rep_other [OF a(3)] that by (auto simp: disjoint_iff)
    ultimately have "distinct (segs window_seg @ main_list segs)" by (auto simp: main_list_def Int_Un_distrib)
    then show ?thesis using e(1) by simp
  qed
  have k: "seg_cost s' (segs window_seg) = seg_cost (ht_slab p1) (segs window_seg)" "seg_cost s' xs = seg_cost (ht_slab p1) xs"
    by (rule drained_keeps(1) [OF e(6)], use dist in auto)+
  have "slab_total s' = seg_cost (ht_slab p1) (segs window_seg) + seg_cost (ht_slab p1) xs" using slab_total_segs [OF e(3)] e(4,5) k by simp
  moreover have "resident_cost m1 = seg_cost (ht_slab p1) (segs window_seg) + seg_cost (ht_slab p1) xs + seg_cost (ht_slab p1) ys"
    using slab_total_segs [OF a(3)] m1(3) e(1) by simp
  ultimately have "slab_total s' \<le> capacity" using e(7) a(4) assms(4) by auto
  then show ?thesis using a(1) e(2) t2 c2 unfolding m1_def by auto
qed

theorem htinylfu_admit_then_evict_witness:
  "\<exists>n vs p1 ws p2. ht_admit_key 7 70 [] (htinylfu_new 50) = Some (n, vs, p1) \<and>
    ht_evict_nodes (resident_cost (without vs [n \<mapsto> (7, 70)]) - 50) [] p1 = Some (ws, p2) \<and> resident_cost (without ws (without vs [n \<mapsto> (7, 70)])) \<le> 50"
proof -
  have "share_01 50 \<le> 1" by (simp add: share_01_def f64_share_def f64_div_round_def round53_def bit_length.simps)
  then have c: "50 = ht_window_target (htinylfu_new 50) + ht_main_capacity (htinylfu_new 50)"
    by (simp add: htinylfu_new_def Let_def saturating_sub_def max_def)
  have t: "ht_tracks (htinylfu_new 50) Map.empty" by (rule htinylfu_new_tracks)
  show ?thesis using htinylfu_admit_then_evict [OF t _ _ c, of 70 7] by (auto simp: resident_cost_def nil32_def)
qed

text \<open>
  A stale id after \<^verbatim>\<open>clear\<close>. Removing a node bumps the generation of its slot, so the id of the
  removed node is not the id of the next one in the slot; \<^verbatim>\<open>clear\<close> drops the generations with the slots,
  and the first admission after it gets the very id that was given out before it.
\<close>

theorem clear_reissues_ids:
  "map_option fst (shard_run hs3fifo_ops [SAdmit 5 1, SRemove 0, SAdmit 6 1] (hs3fifo_new 10)) =
     Some [SNode 0 [], SDone, SNode (2 ^ 32) []] \<and>
   map_option fst (shard_run hs3fifo_ops [SAdmit 5 1, SClear, SAdmit 6 1] (hs3fifo_new 10)) =
     Some [SNode 0 [], SDone, SNode 0 []]"
  by (simp add: hs3fifo_ops_def hs3fifo_new_def h3_admit_key_def h3_remove_def h3_clear_def slab_new_def slab_alloc_def slab_push_front_def
      slab_id_def slab_clear_def slab_resolve_def slab_unlink_def slab_release_def vec_get_def vec_set_def split_def join_def small_seg_def main_seg_def
      empty_list_def free_seg_def nil32_def u64_add_def u64_sub_def h3_set_freq_def push_bit_eq_mult numeral_3_eq_3 Let_def)



end
