(* ===== verification/Hash_Table.thy ===== *)
theory Hash_Table
  imports Prelude "HOL-Library.Word" "HOL-Library.Multiset"
begin

section \<open>The hash table\<close>

text \<open>
  A shard keeps its entries in a \<^verbatim>\<open>HashTable\<close> of the crate \<^verbatim>\<open>hashbrown\<close>, which is not part of the
  repository. It is a parameter: \<open>table_ops\<close> holds the operations the shard calls, with an occupied
  entry as a bucket, and \<open>table_laws\<close> what the documentation promises of them. The table is a bag of
  elements, each under the hash it was inserted with. \<^verbatim>\<open>find(hash, eq)\<close> returns an element for which \<^verbatim>\<open>eq\<close> holds,
  and it finds one if there is one under that hash; it may also return an element under another
  hash, since only a part of the hash is compared. \<open>tb_items\<close> is the bag, for the specification only.
\<close>

record ('t, 'b, 'x) table_ops =
  tb_new :: 't
  tb_find :: "'t \<Rightarrow> 64 word \<Rightarrow> ('x \<Rightarrow> bool) \<Rightarrow> 'b option"
  tb_get :: "'t \<Rightarrow> 'b \<Rightarrow> 'x option"
  tb_set :: "'t \<Rightarrow> 'b \<Rightarrow> 'x \<Rightarrow> 't"
  tb_remove :: "'t \<Rightarrow> 'b \<Rightarrow> 't"
  tb_insert :: "'t \<Rightarrow> 64 word \<Rightarrow> 'x \<Rightarrow> 't"
  tb_clear :: "'t \<Rightarrow> 't"
  tb_iter :: "'t \<Rightarrow> 'x list"
  tb_items :: "'t \<Rightarrow> (64 word \<times> 'x) multiset"

definition table_laws :: "('t, 'b, 'x) table_ops \<Rightarrow> bool" where
  "table_laws T \<longleftrightarrow>
     tb_items T (tb_new T) = {#} \<and>
     (\<forall>t h p b. tb_find T t h p = Some b \<longrightarrow>
        (\<exists>h' x. (h', x) \<in># tb_items T t \<and> p x \<and> tb_get T t b = Some x \<and>
           tb_items T (tb_remove T t b) = tb_items T t - {#(h', x)#} \<and>
           (\<forall>y. tb_items T (tb_set T t b y) = add_mset (h', y) (tb_items T t - {#(h', x)#})))) \<and>
     (\<forall>t h p. tb_find T t h p = None \<longrightarrow> (\<forall>x. (h, x) \<in># tb_items T t \<longrightarrow> \<not> p x)) \<and>
     (\<forall>t h x. tb_items T (tb_insert T t h x) = add_mset (h, x) (tb_items T t)) \<and>
     (\<forall>t. tb_items T (tb_clear T t) = {#}) \<and>
     (\<forall>t. mset (tb_iter T t) = image_mset snd (tb_items T t))"

lemma table_lawsD:
  assumes "table_laws T"
  shows "tb_items T (tb_new T) = {#}"
    "tb_find T t h p = Some b \<Longrightarrow> \<exists>h' x. (h', x) \<in># tb_items T t \<and> p x \<and> tb_get T t b = Some x \<and>
       tb_items T (tb_remove T t b) = tb_items T t - {#(h', x)#} \<and> (\<forall>y. tb_items T (tb_set T t b y) = add_mset (h', y) (tb_items T t - {#(h', x)#}))"
    "tb_find T t h p = None \<Longrightarrow> (h, x) \<in># tb_items T t \<Longrightarrow> \<not> p x"
    "tb_items T (tb_insert T t h x) = add_mset (h, x) (tb_items T t)" "tb_items T (tb_clear T t) = {#}"
    "mset (tb_iter T t) = image_mset snd (tb_items T t)"
  using assms unfolding table_laws_def by blast+

subsection \<open>A table as a map\<close>

text \<open>With at most one element per key, each under the hash of its key, the table is a map.\<close>

definition map_items :: "('k \<Rightarrow> 64 word) \<Rightarrow> ('k \<rightharpoonup> 'e) \<Rightarrow> (64 word \<times> 'k \<times> 'e) multiset" where
  "map_items hasher m = image_mset (\<lambda>k. (hasher k, k, the (m k))) (mset_set (dom m))"

definition table_rep :: "('t, 'b, 'k \<times> 'e) table_ops \<Rightarrow> ('k \<Rightarrow> 64 word) \<Rightarrow> 't \<Rightarrow> ('k \<rightharpoonup> 'e) \<Rightarrow> bool" where
  "table_rep T hasher t m \<longleftrightarrow> finite (dom m) \<and> tb_items T t = map_items hasher m"

lemma table_rep_finite: "table_rep T hasher t m \<Longrightarrow> finite (dom m)"
  by (simp add: table_rep_def)

lemma map_items_mem: "finite (dom m) \<Longrightarrow> (h, k, e) \<in># map_items hasher m \<longleftrightarrow> h = hasher k \<and> m k = Some e"
  by (auto simp: map_items_def)

lemma map_items_add: "finite (dom m) \<Longrightarrow> m k = None \<Longrightarrow> map_items hasher (m(k \<mapsto> e)) = add_mset (hasher k, k, e) (map_items hasher m)"
proof -
  assume f: "finite (dom m)" and k: "m k = None"
  have "image_mset (\<lambda>j. (hasher j, j, the ((m(k \<mapsto> e)) j))) (mset_set (dom m)) = map_items hasher m"
    unfolding map_items_def using f k by (intro image_mset_cong) auto
  moreover have "dom (m(k \<mapsto> e)) = insert k (dom m)" "k \<notin> dom m" using k by auto
  ultimately show ?thesis using f by (simp add: map_items_def)
qed

lemma map_items_del: "finite (dom m) \<Longrightarrow> m k = Some e \<Longrightarrow> map_items hasher (m(k := None)) = map_items hasher m - {#(hasher k, k, e)#}"
  using map_items_add [of "m(k := None)" k hasher e] by (simp add: fun_upd_idem)

lemma map_items_upd:
  "finite (dom m) \<Longrightarrow> m k = Some e0 \<Longrightarrow> map_items hasher (m(k \<mapsto> e)) = add_mset (hasher k, k, e) (map_items hasher m - {#(hasher k, k, e0)#})"
  using map_items_add [of "m(k := None)" k hasher e] map_items_del [of m k e0 hasher] by simp

lemma table_find_Some:
  assumes T: "table_laws T" and R: "table_rep T hasher t m" and f: "tb_find T t h p = Some b"
  obtains k e where "m k = Some e" "p (k, e)" "tb_get T t b = Some (k, e)" "table_rep T hasher (tb_remove T t b) (m(k := None))"
    "\<And>e'. table_rep T hasher (tb_set T t b (k, e')) (m(k \<mapsto> e'))"
proof -
  from table_lawsD(2) [OF T f] obtain h' k e where x: "(h', k, e) \<in># tb_items T t" "p (k, e)" "tb_get T t b = Some (k, e)"
    "tb_items T (tb_remove T t b) = tb_items T t - {#(h', k, e)#}" "\<And>y. tb_items T (tb_set T t b y) = add_mset (h', y) (tb_items T t - {#(h', k, e)#})" by auto
  have fin: "finite (dom m)" and it: "tb_items T t = map_items hasher m" using R by (simp_all add: table_rep_def)
  have k: "h' = hasher k" "m k = Some e" using x(1) map_items_mem [OF fin] it by auto
  show thesis
    by (rule that [OF k(2) x(2,3)]) (use x(4,5) fin it k map_items_del [OF fin k(2)] map_items_upd [OF fin k(2)] in \<open>simp_all add: table_rep_def\<close>)
qed

lemma table_find_None:
  assumes "table_laws T" "table_rep T hasher t m" "tb_find T t (hasher k) p = None" "m k = Some e"
  shows "\<not> p (k, e)"
  using table_lawsD(3) [OF assms(1,3)] assms(2,4) map_items_mem [of m "hasher k" k e hasher] by (simp add: table_rep_def)

lemma table_insert_rep:
  "table_laws T \<Longrightarrow> table_rep T hasher t m \<Longrightarrow> m k = None \<Longrightarrow> table_rep T hasher (tb_insert T t (hasher k) (k, e)) (m(k \<mapsto> e))"
  using map_items_add [of m k hasher e] by (simp add: table_rep_def table_lawsD(4))

lemma table_clear_rep: "table_laws T \<Longrightarrow> table_rep T hasher (tb_clear T t) Map.empty" "table_laws T \<Longrightarrow> table_rep T hasher (tb_new T) Map.empty"
  by (simp_all add: table_rep_def table_lawsD(1,5) map_items_def)

lemma table_iter_set:
  assumes "table_laws T" "table_rep T hasher t m"
  shows "set (tb_iter T t) = {(k, e). m k = Some e}"
proof -
  have "set (tb_iter T t) = snd ` set_mset (map_items hasher m)"
    using arg_cong [OF table_lawsD(6) [OF assms(1), of t], of set_mset] assms(2) by (simp add: table_rep_def)
  also have "\<dots> = {(k, e). m k = Some e}" using assms(2) by (force simp: table_rep_def map_items_def)
  finally show ?thesis .
qed

text \<open>
  The lookup of a key, the case a shard relies on most: it finds the element of that key if there is
  one, whatever else is stored under the hash.
\<close>

lemma table_find_key:
  assumes T: "table_laws T" and R: "table_rep T hasher t m"
  shows "m k = None \<Longrightarrow> tb_find T t (hasher k) (\<lambda>(kk, _). kk = k) = None"
    "m k = Some e \<Longrightarrow> \<exists>b. tb_find T t (hasher k) (\<lambda>(kk, _). kk = k) = Some b \<and> tb_get T t b = Some (k, e) \<and>
       table_rep T hasher (tb_remove T t b) (m(k := None)) \<and> (\<forall>e'. table_rep T hasher (tb_set T t b (k, e')) (m(k \<mapsto> e')))"
proof -
  let ?p = "\<lambda>(kk, _). kk = k"
  show "tb_find T t (hasher k) ?p = None" if "m k = None"
  proof (cases "tb_find T t (hasher k) ?p")
    case (Some b)
    from table_find_Some [OF T R Some] obtain k' e where "m k' = Some e" "?p (k', e)" by metis
    with that show ?thesis by simp
  qed simp
  assume e: "m k = Some e"
  from table_find_None [OF T R _ e, of ?p] obtain b where b: "tb_find T t (hasher k) ?p = Some b" by fastforce
  from table_find_Some [OF T R b] obtain k' e' where f: "m k' = Some e'" "?p (k', e')" "tb_get T t b = Some (k', e')"
    "table_rep T hasher (tb_remove T t b) (m(k' := None))" "\<And>e''. table_rep T hasher (tb_set T t b (k', e'')) (m(k' \<mapsto> e''))" by metis
  then show "\<exists>b. tb_find T t (hasher k) ?p = Some b \<and> tb_get T t b = Some (k, e) \<and>
      table_rep T hasher (tb_remove T t b) (m(k := None)) \<and> (\<forall>e'. table_rep T hasher (tb_set T t b (k, e')) (m(k \<mapsto> e')))"
    using b e by auto
qed

subsection \<open>A table that keeps the laws\<close>

text \<open>A list of elements, searched from the front. It shows that the laws can hold and runs the examples.\<close>

fun find_index :: "('x \<Rightarrow> bool) \<Rightarrow> 'x list \<Rightarrow> nat option" where
  "find_index p [] = None"
| "find_index p (x # xs) = (if p x then Some 0 else map_option Suc (find_index p xs))"

lemma find_index_Some: "find_index p xs = Some i \<Longrightarrow> i < length xs \<and> p (xs ! i)"
  by (induction xs arbitrary: i) (auto split: if_splits)

lemma find_index_None: "find_index p xs = None \<Longrightarrow> x \<in> set xs \<Longrightarrow> \<not> p x"
  by (induction xs) (auto split: if_splits)

fun delete_at :: "nat \<Rightarrow> 'x list \<Rightarrow> 'x list" where
  "delete_at i [] = []"
| "delete_at 0 (x # xs) = xs"
| "delete_at (Suc i) (x # xs) = x # delete_at i xs"

lemma mset_delete_at: "i < length xs \<Longrightarrow> mset (delete_at i xs) = mset xs - {#xs ! i#}"
  by (induction i xs rule: delete_at.induct) (auto simp: nth_mem_mset)

definition list_table :: "((64 word \<times> 'x) list, nat, 'x) table_ops" where
  "list_table = \<lparr>tb_new = [], tb_find = (\<lambda>t h p. find_index (\<lambda>(h', x). h' = h \<and> p x) t),
     tb_get = (\<lambda>t i. if i < length t then Some (snd (t ! i)) else None), tb_set = (\<lambda>t i x. t[i := (fst (t ! i), x)]),
     tb_remove = (\<lambda>t i. delete_at i t), tb_insert = (\<lambda>t h x. t @ [(h, x)]), tb_clear = (\<lambda>t. []), tb_iter = map snd, tb_items = mset\<rparr>"

lemma list_table_laws: "table_laws list_table"
proof -
  have "\<exists>h' x. (h', x) \<in># mset t \<and> p x \<and> (if b < length t then Some (snd (t ! b)) else None) = Some x \<and>
      mset (delete_at b t) = mset t - {#(h', x)#} \<and> (\<forall>y. mset (t[b := (fst (t ! b), y)]) = add_mset (h', y) (mset t - {#(h', x)#}))"
    if f: "find_index (\<lambda>(h', x). h' = h \<and> p x) t = Some b" for t :: "(64 word \<times> 'x) list" and h p b
  proof -
    obtain h' x where e: "t ! b = (h', x)" by force
    have "b < length t" "p x" using find_index_Some [OF f] e by auto
    with e show ?thesis using mset_delete_at [of b t] mset_update [of b t] nth_mem_mset [of b t] by (intro exI [of _ h'] exI [of _ x]) simp
  qed
  note found = this
  show ?thesis unfolding table_laws_def list_table_def table_ops.simps
  proof (intro conjI allI impI)
    fix t :: "(64 word \<times> 'x) list" and h p x
    assume "find_index (\<lambda>(h', x). h' = h \<and> p x) t = None" "(h, x) \<in># mset t"
    then show "\<not> p x" using find_index_None [of "\<lambda>(h', x). h' = h \<and> p x" t "(h, x)"] by auto
  qed (rule found | simp)+
qed

end
