(* ===== verification/Timer_Wheel.thy ===== *)
theory Timer_Wheel
  imports Dll Arena "HOL-Library.Word"
begin

section \<open>The timer wheel of a shard\<close>

text \<open>
  \<^verbatim>\<open>cache/src/task/timer.rs\<close>: the TTL timers of a shard. A timer sits in the doubly linked list of one
  of \<^verbatim>\<open>wheel_len\<close> slots, with the number of laps it still has to wait; \<^verbatim>\<open>advance\<close> sweeps the slots that were
  passed since the last call. The arena is the parameter of \<open>Arena\<close>, the clock (\<^verbatim>\<open>now_duration\<close>) an argument.

  The specification is a map from handles to a hash and the absolute tick at which the timer is due.
\<close>

record 'i timer =
  tm_laps :: nat
  tm_key_hash :: "64 word"
  tm_slot_index :: nat
  tm_prev :: "'i option"
  tm_next :: "'i option"

record 'i wheel_slot =
  sl_head :: "'i option"
  sl_tail :: "'i option"

record ('a, 'i) timer_wheel =
  tw_slots :: "'i wheel_slot list"
  tw_timers :: 'a
  tw_wheel_len :: nat
  tw_current_tick :: nat
  tw_tick_ns :: nat
  tw_last_advanced :: nat
  tw_next_due :: nat

type_synonym ('a, 'i) timer_arena = "('a, 'i, 'i timer) arena_ops"

definition u64_mul :: "nat \<Rightarrow> nat \<Rightarrow> nat" where
  "u64_mul a b = (a * b) mod 2 ^ 64"

definition u64_saturating_add :: "nat \<Rightarrow> nat \<Rightarrow> nat" where
  "u64_saturating_add a b = min (a + b) u64_max"

definition div_ceil :: "nat \<Rightarrow> nat \<Rightarrow> nat" where
  "div_ceil a b = (a + b - 1) div b"

definition empty_slot :: "'i wheel_slot" where
  "empty_slot = \<lparr>sl_head = None, sl_tail = None\<rparr>"

definition wheel_new :: "('a, 'i) timer_arena \<Rightarrow> nat \<Rightarrow> nat \<Rightarrow> nat \<Rightarrow> ('a, 'i) timer_wheel" where
  "wheel_new A wheel_size tick_nanos now =
     \<lparr>tw_slots = [], tw_timers = arena_new A, tw_wheel_len = wheel_size, tw_current_tick = 0,
      tw_tick_ns = max (tick_nanos mod 2 ^ 64) 1, tw_last_advanced = now, tw_next_due = u64_max\<rparr>"

definition timer_update :: "('a, 'i) timer_arena \<Rightarrow> 'i \<Rightarrow> ('i timer \<Rightarrow> 'i timer) \<Rightarrow> ('a, 'i) timer_wheel \<Rightarrow> ('a, 'i) timer_wheel option" where
  "timer_update A i f w = do { t \<leftarrow> arena_get A (tw_timers w) i; Some (w\<lparr>tw_timers := arena_set A (tw_timers w) i (f t)\<rparr>) }"

definition slot_update :: "nat \<Rightarrow> ('i wheel_slot \<Rightarrow> 'i wheel_slot) \<Rightarrow> ('a, 'i) timer_wheel \<Rightarrow> ('a, 'i) timer_wheel option" where
  "slot_update s f w = do { x \<leftarrow> vec_get (tw_slots w) s; Some (w\<lparr>tw_slots := (tw_slots w)[s := f x]\<rparr>) }"

text \<open>The first timer allocates the slots and restarts the clock of the wheel.\<close>

definition wheel_start :: "nat \<Rightarrow> ('a, 'i) timer_wheel \<Rightarrow> ('a, 'i) timer_wheel" where
  "wheel_start now w = (if tw_slots w = [] then w\<lparr>tw_slots := replicate (tw_wheel_len w) empty_slot, tw_last_advanced := now\<rparr> else w)"

definition wheel_schedule :: "('a, 'i) timer_arena \<Rightarrow> nat \<Rightarrow> 64 word \<Rightarrow> nat \<Rightarrow> ('a, 'i) timer_wheel \<Rightarrow> ('i \<times> ('a, 'i) timer_wheel) option" where
  "wheel_schedule A now key_hash expires_at w =
     (let w = wheel_start now w;
          ticks = max (div_ceil (saturating_sub expires_at (tw_last_advanced w)) (tw_tick_ns w)) 1;
          offset = ticks - 1
      in if tw_wheel_len w = 0 then None
         else let laps = offset div tw_wheel_len w;
                  slot = u64_add (tw_current_tick w) offset mod tw_wheel_len w
              in do { s \<leftarrow> vec_get (tw_slots w) slot;
                      let (index, timers) = arena_insert A (tw_timers w)
                            \<lparr>tm_laps = laps, tm_key_hash = key_hash, tm_slot_index = slot, tm_prev = None, tm_next = sl_head s\<rparr>;
                      let w = w\<lparr>tw_timers := timers\<rparr>;
                      w \<leftarrow> (case sl_head s of None \<Rightarrow> Some w | Some old_head \<Rightarrow> timer_update A old_head (\<lambda>t. t\<lparr>tm_prev := Some index\<rparr>) w);
                      w \<leftarrow> slot_update slot (\<lambda>s. \<lparr>sl_head = Some index, sl_tail = (if sl_tail s = None then Some index else sl_tail s)\<rparr>) w;
                      let due = u64_saturating_add (tw_last_advanced w) (u64_mul ticks (tw_tick_ns w));
                      Some (index, w\<lparr>tw_next_due := min (tw_next_due w) due\<rparr>) })"

definition wheel_unlink :: "('a, 'i) timer_arena \<Rightarrow> nat \<Rightarrow> 'i option \<Rightarrow> 'i option \<Rightarrow> ('a, 'i) timer_wheel \<Rightarrow> ('a, 'i) timer_wheel option" where
  "wheel_unlink A slot_index prev next w =
     do { w \<leftarrow> (case prev of Some p \<Rightarrow> timer_update A p (\<lambda>t. t\<lparr>tm_next := next\<rparr>) w
                 | None \<Rightarrow> slot_update slot_index (\<lambda>s. s\<lparr>sl_head := next\<rparr>) w);
          (case next of Some n \<Rightarrow> timer_update A n (\<lambda>t. t\<lparr>tm_prev := prev\<rparr>) w
           | None \<Rightarrow> slot_update slot_index (\<lambda>s. s\<lparr>sl_tail := prev\<rparr>) w) }"

definition wheel_cancel :: "('a, 'i) timer_arena \<Rightarrow> 'i \<Rightarrow> ('a, 'i) timer_wheel \<Rightarrow> ('a, 'i) timer_wheel option" where
  "wheel_cancel A handle w =
     (let (removed, timers) = arena_remove A (tw_timers w) handle; w = w\<lparr>tw_timers := timers\<rparr>
      in case removed of None \<Rightarrow> Some w
         | Some t \<Rightarrow> wheel_unlink A (tm_slot_index t) (tm_prev t) (tm_next t) w)"

definition wheel_is_armed :: "('a, 'i) timer_arena \<Rightarrow> 'i \<Rightarrow> ('a, 'i) timer_wheel \<Rightarrow> bool" where
  "wheel_is_armed A handle w = (arena_get A (tw_timers w) handle \<noteq> None)"

definition wheel_clear :: "('a, 'i) timer_arena \<Rightarrow> ('a, 'i) timer_wheel \<Rightarrow> ('a, 'i) timer_wheel" where
  "wheel_clear A w = w\<lparr>tw_timers := arena_clear A (tw_timers w), tw_slots := replicate (length (tw_slots w)) empty_slot, tw_next_due := u64_max\<rparr>"

text \<open>The walk over one slot: a timer survives the visits it has laps for, and fires otherwise.\<close>

partial_function (option) wheel_sweep ::
  "('a, 'i) timer_arena \<Rightarrow> nat \<Rightarrow> nat \<Rightarrow> 'i option \<Rightarrow> 64 word list \<Rightarrow> ('a, 'i) timer_wheel \<Rightarrow> (64 word list \<times> ('a, 'i) timer_wheel) option" where
  "wheel_sweep A slot_index passes current_opt expired w =
     (case current_opt of
        None \<Rightarrow> Some (expired, w)
      | Some current_index \<Rightarrow>
          do { timer \<leftarrow> arena_get A (tw_timers w) current_index;
               (if tm_laps timer \<ge> passes
                then do { w \<leftarrow> timer_update A current_index (\<lambda>t. t\<lparr>tm_laps := tm_laps t - passes\<rparr>) w;
                          wheel_sweep A slot_index passes (tm_next timer) expired w }
                else do { let (removed, timers) = arena_remove A (tw_timers w) current_index;
                          t \<leftarrow> removed;
                          w \<leftarrow> wheel_unlink A slot_index (tm_prev t) (tm_next t) (w\<lparr>tw_timers := timers\<rparr>);
                          wheel_sweep A slot_index passes (tm_next timer) (expired @ [tm_key_hash t]) w }) })"

definition wheel_passes :: "nat \<Rightarrow> nat \<Rightarrow> nat \<Rightarrow> nat \<Rightarrow> nat" where
  "wheel_passes wheel_len start ticks_due slot_index =
     (let rel = (slot_index + wheel_len - start mod wheel_len) mod wheel_len
      in ticks_due div wheel_len + (if rel < ticks_due mod wheel_len then 1 else 0))"

fun wheel_sweep_slots ::
  "('a, 'i) timer_arena \<Rightarrow> nat \<Rightarrow> nat \<Rightarrow> nat list \<Rightarrow> 64 word list \<Rightarrow> ('a, 'i) timer_wheel \<Rightarrow> (64 word list \<times> ('a, 'i) timer_wheel) option" where
  "wheel_sweep_slots A start ticks_due [] expired w = Some (expired, w)"
| "wheel_sweep_slots A start ticks_due (slot_index # rest) expired w =
     (let passes = wheel_passes (tw_wheel_len w) start ticks_due slot_index
      in if passes = 0 then wheel_sweep_slots A start ticks_due rest expired w
         else do { s \<leftarrow> vec_get (tw_slots w) slot_index;
                   (expired, w) \<leftarrow> wheel_sweep A slot_index passes (sl_head s) expired w;
                   wheel_sweep_slots A start ticks_due rest expired w })"

fun wheel_next_due :: "nat list \<Rightarrow> ('a, 'i) timer_wheel \<Rightarrow> nat option" where
  "wheel_next_due [] w = Some u64_max"
| "wheel_next_due (off # rest) w =
     do { s \<leftarrow> vec_get (tw_slots w) (u64_add (tw_current_tick w) off mod tw_wheel_len w);
          (if sl_head s \<noteq> None then Some (u64_add (tw_last_advanced w) (u64_mul (off + 1) (tw_tick_ns w))) else wheel_next_due rest w) }"

definition wheel_advance :: "('a, 'i) timer_arena \<Rightarrow> nat \<Rightarrow> ('a, 'i) timer_wheel \<Rightarrow> (64 word list \<times> ('a, 'i) timer_wheel) option" where
  "wheel_advance A now w =
     (if tw_slots w = [] then Some ([], w)
      else let ticks_due = saturating_sub now (tw_last_advanced w) div tw_tick_ns w
           in if ticks_due = 0 then Some ([], w)
              else let start = tw_current_tick w;
                       w = w\<lparr>tw_last_advanced := u64_add (tw_last_advanced w) (u64_mul ticks_due (tw_tick_ns w)),
                             tw_current_tick := u64_add (tw_current_tick w) ticks_due\<rparr>
                   in if tw_wheel_len w = 0 then None
                      else do { (expired, w) \<leftarrow> wheel_sweep_slots A start ticks_due [0..<tw_wheel_len w] [] w;
                                next \<leftarrow> wheel_next_due [0..<tw_wheel_len w] w;
                                Some (expired, w\<lparr>tw_next_due := next\<rparr>) })"

subsection \<open>Well-formed wheels\<close>

definition tnx :: "('i \<rightharpoonup> 'i timer) \<Rightarrow> 'i \<Rightarrow> 'i option" where
  "tnx g i = Option.bind (g i) tm_next"

definition tpv :: "('i \<rightharpoonup> 'i timer) \<Rightarrow> 'i \<Rightarrow> 'i option" where
  "tpv g i = Option.bind (g i) tm_prev"

definition tdata :: "('i \<rightharpoonup> 'i timer) \<Rightarrow> 'i \<rightharpoonup> nat \<times> 64 word \<times> nat" where
  "tdata g i = map_option (\<lambda>t. (tm_laps t, tm_key_hash t, tm_slot_index t)) (g i)"

lemma tptr_simps [simp]:
  "tnx (g(i \<mapsto> t)) = (tnx g)(i := tm_next t)" "tpv (g(i \<mapsto> t)) = (tpv g)(i := tm_prev t)"
  "tnx (g(i := None)) = (tnx g)(i := None)" "tpv (g(i := None)) = (tpv g)(i := None)"
  "tdata (g(i \<mapsto> t)) = (tdata g)(i \<mapsto> (tm_laps t, tm_key_hash t, tm_slot_index t))" "tdata (g(i := None)) = (tdata g)(i := None)"
  by (auto simp: tnx_def tpv_def tdata_def fun_eq_iff)

lemma tptr_Some: "g i = Some t \<Longrightarrow> tnx g i = tm_next t" "g i = Some t \<Longrightarrow> tpv g i = tm_prev t"
  "g i = Some t \<Longrightarrow> tdata g i = Some (tm_laps t, tm_key_hash t, tm_slot_index t)"
  by (simp_all add: tnx_def tpv_def tdata_def)

lemma tptr_idem: "g i = Some t \<Longrightarrow> (tnx g)(i := tm_next t) = tnx g" "g i = Some t \<Longrightarrow> (tpv g)(i := tm_prev t) = tpv g"
  "g i = Some t \<Longrightarrow> (tdata g)(i \<mapsto> (tm_laps t, tm_key_hash t, tm_slot_index t)) = tdata g"
  by (auto simp: fun_eq_iff tptr_Some)

lemma dom_tdata [simp]: "dom (tdata g) = dom g" "tdata g i = None \<longleftrightarrow> g i = None"
  by (auto simp: tdata_def)

abbreviation tget :: "('a, 'i) timer_arena \<Rightarrow> ('a, 'i) timer_wheel \<Rightarrow> 'i \<rightharpoonup> 'i timer" where
  "tget A w \<equiv> arena_get A (tw_timers w)"

text \<open>The slots hold lists of live timers, every live timer is in the list of its slot.\<close>

definition wheel_lists :: "('i \<rightharpoonup> 'i timer) \<Rightarrow> 'i wheel_slot list \<Rightarrow> nat \<Rightarrow> (nat \<Rightarrow> 'i list) \<Rightarrow> bool" where
  "wheel_lists g slots L ls \<longleftrightarrow> length slots = L \<and>
     (\<forall>s<L. dll (tnx g) (tpv g) (sl_head (slots ! s)) (sl_tail (slots ! s)) (ls s)) \<and>
     (\<forall>i l h s. tdata g i = Some (l, h, s) \<longrightarrow> s < L \<and> i \<in> set (ls s)) \<and>
     (\<forall>s<L. \<forall>i \<in> set (ls s). \<exists>l h. tdata g i = Some (l, h, s))"

lemma wheel_listsD:
  assumes "wheel_lists g slots L ls"
  shows "length slots = L" "s < L \<Longrightarrow> dll (tnx g) (tpv g) (sl_head (slots ! s)) (sl_tail (slots ! s)) (ls s)"
    "tdata g i = Some (l, h, s) \<Longrightarrow> s < L \<and> i \<in> set (ls s)" "s < L \<Longrightarrow> i \<in> set (ls s) \<Longrightarrow> \<exists>l h. tdata g i = Some (l, h, s)"
  using assms by (auto simp: wheel_lists_def)

lemma wheel_lists_disjoint: "wheel_lists g slots L ls \<Longrightarrow> s < L \<Longrightarrow> r < L \<Longrightarrow> i \<in> set (ls s) \<Longrightarrow> i \<in> set (ls r) \<Longrightarrow> s = r"
  using wheel_listsD(4) [of g slots L ls s i] wheel_listsD(4) [of g slots L ls r i] by auto

definition same_clock :: "('a, 'i) timer_wheel \<Rightarrow> ('a, 'i) timer_wheel \<Rightarrow> bool" where
  "same_clock w' w \<longleftrightarrow> tw_wheel_len w' = tw_wheel_len w \<and> tw_current_tick w' = tw_current_tick w \<and> tw_tick_ns w' = tw_tick_ns w \<and>
     tw_last_advanced w' = tw_last_advanced w \<and> tw_next_due w' = tw_next_due w"

lemma same_clock_simps [simp]: "same_clock w w" "same_clock (w\<lparr>tw_timers := ts, tw_slots := ss\<rparr>) w" "same_clock (w\<lparr>tw_slots := ss\<rparr>) w"
  "same_clock (w\<lparr>tw_timers := ts\<rparr>) w"
  by (simp_all add: same_clock_def)

lemma same_clock_trans: "same_clock a b \<Longrightarrow> same_clock b c \<Longrightarrow> same_clock a c"
  by (simp add: same_clock_def)

lemma same_clockD:
  assumes "same_clock w' w"
  shows "tw_wheel_len w' = tw_wheel_len w" "tw_current_tick w' = tw_current_tick w" "tw_tick_ns w' = tw_tick_ns w"
    "tw_last_advanced w' = tw_last_advanced w" "tw_next_due w' = tw_next_due w"
  using assms by (simp_all add: same_clock_def)

lemma timer_update_Some:
  assumes "arena_laws A" "tget A w i = Some t"
  obtains w' where "timer_update A i f w = Some w'" "tget A w' = (tget A w)(i \<mapsto> f t)" "same_clock w' w" "tw_slots w' = tw_slots w"
    "arena_issued A (tw_timers w') = arena_issued A (tw_timers w)"
  using assms by (auto simp: timer_update_def arena_get_set arena_issued_set)

text \<open>
  Taking a timer out of the arena and closing the gap, as both \<^verbatim>\<open>cancel\<close> and \<^verbatim>\<open>advance\<close> do. The rest of
  the wheel is kept.
\<close>

lemma wheel_unlink_ok:
  assumes A: "arena_laws A" and W: "wheel_lists (tget A w) (tw_slots w) L ls" and s: "s < L" and i: "ls s = xs @ i # ys"
    and rm: "arena_remove A (tw_timers w) i = (r, timers)"
  shows "\<exists>t w'. r = Some t \<and> tget A w i = Some t \<and> tm_slot_index t = s \<and> tm_next t = first ys \<and>
    wheel_unlink A s (tm_prev t) (tm_next t) (w\<lparr>tw_timers := timers\<rparr>) = Some w' \<and>
    wheel_lists (tget A w') (tw_slots w') L (ls(s := xs @ ys)) \<and> tdata (tget A w') = (tdata (tget A w))(i := None) \<and>
    same_clock w' w \<and> arena_issued A (tw_timers w') = arena_issued A (tw_timers w)"
proof -
  let ?g = "tget A w"
  note D = wheel_listsD(2) [OF W s, unfolded i]
  have in_s: "x \<in> set (ls s)" if "x \<in> set xs \<or> x \<in> set ys \<or> x = i" for x using that i by auto
  from wheel_listsD(4) [OF W s in_s, of i] obtain t where t: "?g i = Some t" "tm_slot_index t = s" by (auto simp: tdata_def)
  have nx: "tm_next t = first ys" and pv: "tm_prev t = final xs" using dll_next [OF D] dll_prev [OF D] t(1) by (simp_all add: tptr_Some)
  note R = arena_removeD [OF A rm]
  have dist: "distinct (xs @ i # ys)" using D by (simp add: dll_def)
  let ?w0 = "w\<lparr>tw_timers := timers\<rparr>"
  have g0: "tget A ?w0 = ?g(i := None)" using R(2) by simp
  have live: "\<exists>u. tget A ?w0 x = Some u" if "x \<in> set xs \<or> x \<in> set ys" for x
    using wheel_listsD(4) [OF W s in_s, of x] that dist g0 by (auto simp: tdata_def)
  have sl: "s < length (tw_slots w)" using s wheel_listsD(1) [OF W] by simp
  \<comment> \<open>the previous timer or the head\<close>
  obtain w1 where w1: "(case final xs of Some p \<Rightarrow> timer_update A p (\<lambda>t. t\<lparr>tm_next := first ys\<rparr>) ?w0
      | None \<Rightarrow> slot_update s (\<lambda>s. s\<lparr>sl_head := first ys\<rparr>) ?w0) = Some w1"
    "tnx (tget A w1) = (case final xs of None \<Rightarrow> (tnx ?g)(i := None) | Some p \<Rightarrow> (tnx ?g)(i := None, p := first ys))"
    "tpv (tget A w1) = (tpv ?g)(i := None)" "tdata (tget A w1) = (tdata ?g)(i := None)"
    "tw_slots w1 = (tw_slots w)[s := (tw_slots w ! s)\<lparr>sl_head := (if final xs = None then first ys else sl_head (tw_slots w ! s))\<rparr>]"
    "same_clock w1 w" "arena_issued A (tw_timers w1) = arena_issued A (tw_timers w)"
  proof (cases "final xs")
    case None
    then show thesis using that [of "?w0\<lparr>tw_slots := (tw_slots w)[s := (tw_slots w ! s)\<lparr>sl_head := first ys\<rparr>]\<rparr>"] sl g0 R(3)
      by (simp add: slot_update_def)
  next
    case (Some p)
    then have "p \<in> set xs" using final_SomeD by fastforce
    with live obtain u where u: "tget A ?w0 p = Some u" by blast
    obtain w' where w': "timer_update A p (\<lambda>t. t\<lparr>tm_next := first ys\<rparr>) ?w0 = Some w'" "tget A w' = (tget A ?w0)(p \<mapsto> u\<lparr>tm_next := first ys\<rparr>)"
      "same_clock w' ?w0" "tw_slots w' = tw_slots ?w0" "arena_issued A (tw_timers w') = arena_issued A (tw_timers ?w0)" by (rule timer_update_Some [OF A u])
    have "tpv (tget A w') = (tpv ?g)(i := None)" "tdata (tget A w') = (tdata ?g)(i := None)" "tnx (tget A w') = (tnx ?g)(i := None, p := first ys)"
      unfolding w'(2) using tptr_idem(2,3) [of "tget A ?w0" p u] u g0 by (simp_all del: fun_upd_apply)
    moreover have "same_clock w' w" using same_clock_trans [OF w'(3)] by simp
    ultimately show thesis using that [of w'] w'(1,4,5) Some R(3) by (simp del: fun_upd_apply)
  qed
  have sl1: "s < length (tw_slots w1)" using w1(5) sl by simp
  have live1: "\<exists>u. tget A w1 x = Some u" if "x \<in> set ys" for x
  proof -
    have "tdata (tget A w1) x \<noteq> None" using live [of x] that w1(4) g0 dist by (auto simp: tdata_def)
    then show ?thesis by (auto simp: tdata_def)
  qed
  \<comment> \<open>the next timer or the tail\<close>
  obtain w2 where w2: "(case first ys of Some n \<Rightarrow> timer_update A n (\<lambda>t. t\<lparr>tm_prev := final xs\<rparr>) w1
      | None \<Rightarrow> slot_update s (\<lambda>s. s\<lparr>sl_tail := final xs\<rparr>) w1) = Some w2"
    "tpv (tget A w2) = (case first ys of None \<Rightarrow> tpv (tget A w1) | Some n \<Rightarrow> (tpv (tget A w1))(n := final xs))"
    "tnx (tget A w2) = tnx (tget A w1)" "tdata (tget A w2) = tdata (tget A w1)"
    "tw_slots w2 = (tw_slots w1)[s := (tw_slots w1 ! s)\<lparr>sl_tail := (if first ys = None then final xs else sl_tail (tw_slots w1 ! s))\<rparr>]"
    "same_clock w2 w1" "arena_issued A (tw_timers w2) = arena_issued A (tw_timers w1)"
  proof (cases "first ys")
    case None
    then show thesis using that [of "w1\<lparr>tw_slots := (tw_slots w1)[s := (tw_slots w1 ! s)\<lparr>sl_tail := final xs\<rparr>]\<rparr>"] sl1
      by (simp add: slot_update_def)
  next
    case (Some n)
    then have "n \<in> set ys" by (cases ys) auto
    with live1 obtain u where u: "tget A w1 n = Some u" by blast
    obtain w' where w': "timer_update A n (\<lambda>t. t\<lparr>tm_prev := final xs\<rparr>) w1 = Some w'" "tget A w' = (tget A w1)(n \<mapsto> u\<lparr>tm_prev := final xs\<rparr>)"
      "same_clock w' w1" "tw_slots w' = tw_slots w1" "arena_issued A (tw_timers w') = arena_issued A (tw_timers w1)" by (rule timer_update_Some [OF A u])
    have "tnx (tget A w') = tnx (tget A w1)" "tdata (tget A w') = tdata (tget A w1)" "tpv (tget A w') = (tpv (tget A w1))(n := final xs)"
      unfolding w'(2) using tptr_idem(1,3) [of "tget A w1" n u] u by (simp_all del: fun_upd_apply)
    then show thesis using that [of w'] w'(1,3-5) Some by (simp del: fun_upd_apply)
  qed
  have step: "wheel_unlink A s (tm_prev t) (tm_next t) ?w0 = Some w2" using w1(1) w2(1) by (simp add: wheel_unlink_def nx pv)
  let ?slot = "tw_slots w2 ! s"
  have ends: "sl_head ?slot = (if final xs = None then first ys else sl_head (tw_slots w ! s))"
    "sl_tail ?slot = (if first ys = None then final xs else sl_tail (tw_slots w ! s))" using w1(5) w2(5) sl sl1 by simp_all
  have others: "tw_slots w2 ! r = tw_slots w ! r" if "r \<noteq> s" for r using w1(5) w2(5) that by simp
  have ls: "dll (tnx (tget A w2)) (tpv (tget A w2)) (sl_head ?slot) (sl_tail ?slot) (xs @ ys)"
  proof -
    have "dll ((tnx ?g)(i := None)) ((tpv ?g)(i := None)) h t' zs = dll (tnx ?g) (tpv ?g) h t' zs" if "i \<notin> set zs" for h t' zs
      by (rule dll_cong) (use that in auto)
    note cong = this
    have "dll (case final xs of None \<Rightarrow> tnx ?g | Some p \<Rightarrow> (tnx ?g)(p := first ys)) (case first ys of None \<Rightarrow> tpv ?g | Some q \<Rightarrow> (tpv ?g)(q := final xs))
        (sl_head ?slot) (sl_tail ?slot) (xs @ ys)" using dll_unlink [OF D] unfolding ends .
    then show ?thesis
      by (rule dll_cong [THEN iffD1, rotated -1]) (use w1(2,3) w2(2,3) dist in \<open>auto split: option.split\<close>)
  qed
  have lr: "dll (tnx (tget A w2)) (tpv (tget A w2)) (sl_head (tw_slots w2 ! r)) (sl_tail (tw_slots w2 ! r)) (ls r)" if r: "r < L" "r \<noteq> s" for r
  proof -
    have nr: "x \<notin> set (ls r)" if "x \<in> set xs \<or> x \<in> set ys \<or> x = i" for x using wheel_lists_disjoint [OF W s r(1) in_s] r(2) that by blast
    have fx: "p \<notin> set (ls r)" if "final xs = Some p" for p using nr [of p] final_SomeD [OF that] by auto
    have fy: "p \<notin> set (ls r)" if "first ys = Some p" for p using nr [of p] first_SomeD [OF that] by auto
    have "dll (tnx ?g) (tpv ?g) (sl_head (tw_slots w ! r)) (sl_tail (tw_slots w ! r)) (ls r)" by (rule wheel_listsD(2) [OF W r(1)])
    then show ?thesis unfolding others [OF r(2)]
      by (rule dll_cong [THEN iffD1, rotated -1]) (use w1(2,3) w2(2,3) nr [of i] fx fy in \<open>auto split: option.split\<close>)
  qed
  have data: "tdata (tget A w2) = (tdata ?g)(i := None)" using w1(4) w2(4) by simp
  have "wheel_lists (tget A w2) (tw_slots w2) L (ls(s := xs @ ys))"
    unfolding wheel_lists_def
  proof (intro conjI allI impI ballI)
    show "length (tw_slots w2) = L" using w1(5) w2(5) wheel_listsD(1) [OF W] by simp
    show "dll (tnx (tget A w2)) (tpv (tget A w2)) (sl_head (tw_slots w2 ! r)) (sl_tail (tw_slots w2 ! r)) ((ls(s := xs @ ys)) r)" if "r < L" for r
      using that ls lr by (cases "r = s") simp_all
    fix j l h r
    assume "tdata (tget A w2) j = Some (l, h, r)"
    then have j: "j \<noteq> i" "tdata ?g j = Some (l, h, r)" unfolding data by (auto split: if_splits)
    from wheel_listsD(3) [OF W j(2)] show "r < L" "j \<in> set ((ls(s := xs @ ys)) r)" using j(1) i by auto
  next
    fix r j
    assume r: "r < L" "j \<in> set ((ls(s := xs @ ys)) r)"
    then have "j \<in> set (ls r)" using i by (auto split: if_splits)
    moreover have "j \<noteq> i" using r dist wheel_lists_disjoint [OF W s r(1) in_s [of i]] by (auto split: if_splits)
    ultimately show "\<exists>l h. tdata (tget A w2) j = Some (l, h, r)" using wheel_listsD(4) [OF W r(1)] data by auto
  qed
  moreover have "same_clock w2 w" by (rule same_clock_trans [OF w2(6) w1(6)])
  ultimately show ?thesis using R(1) t nx step data w1(7) w2(7) by (intro exI [of _ t] exI [of _ w2]) simp
qed

subsection \<open>Sweeping\<close>

type_synonym 'i timers = "'i \<rightharpoonup> nat \<times> 64 word \<times> nat"

definition fires :: "'i timers \<Rightarrow> nat \<Rightarrow> 'i \<Rightarrow> bool" where
  "fires d p i \<longleftrightarrow> fst (the (d i)) < p"

definition hash_at :: "'i timers \<Rightarrow> 'i \<Rightarrow> 64 word" where
  "hash_at d i = fst (snd (the (d i)))"

lemma distinct_concat_slots:
  assumes "\<And>s. s < L \<Longrightarrow> distinct (ls s)" "\<And>s r i. s < L \<Longrightarrow> r < L \<Longrightarrow> i \<in> set (ls s) \<Longrightarrow> i \<in> set (ls r) \<Longrightarrow> s = r"
  shows "distinct (concat (map (\<lambda>s. filter (Q s) (ls s)) [0..<L]))"
  using assms
proof (induction L)
  case (Suc L)
  then have "distinct (concat (map (\<lambda>s. filter (Q s) (ls s)) [0..<L]))" by simp
  moreover have "i \<notin> set (ls L)" if "s < L" "i \<in> set (ls s)" for s i using Suc.prems(2) [of s L i] that by auto
  ultimately show ?case using Suc.prems(1) [of L] by auto
qed simp

text \<open>The timers after \<open>p\<close> visits of the timers in \<open>xs\<close>.\<close>

definition visited :: "'i timers \<Rightarrow> nat \<Rightarrow> 'i set \<Rightarrow> 'i timers" where
  "visited d p X i = (if i \<in> X then case d i of None \<Rightarrow> None | Some (l, h, s) \<Rightarrow> if l < p then None else Some (l - p, h, s) else d i)"

lemma wheel_lists_keep_laps:
  assumes W: "wheel_lists g slots L ls" and t: "g i = Some t"
  shows "wheel_lists (g(i \<mapsto> t\<lparr>tm_laps := l\<rparr>)) slots L ls"
proof -
  have p: "tnx (g(i \<mapsto> t\<lparr>tm_laps := l\<rparr>)) = tnx g" "tpv (g(i \<mapsto> t\<lparr>tm_laps := l\<rparr>)) = tpv g"
    using tptr_idem(1,2) [of g i t] t by (simp_all del: fun_upd_apply)
  show ?thesis unfolding wheel_lists_def p
  proof (intro conjI allI impI ballI)
    fix j l' h s
    assume "tdata (g(i \<mapsto> t\<lparr>tm_laps := l\<rparr>)) j = Some (l', h, s)"
    then have "\<exists>l''. tdata g j = Some (l'', h, s)" using t by (auto simp: tdata_def split: if_splits)
    then show "s < L" "j \<in> set (ls s)" using wheel_listsD(3) [OF W] by blast+
  next
    fix s j
    assume "s < L" "j \<in> set (ls s)"
    with wheel_listsD(4) [OF W] have "\<exists>l h. tdata g j = Some (l, h, s)" by blast
    then show "\<exists>l' h. tdata (g(i \<mapsto> t\<lparr>tm_laps := l\<rparr>)) j = Some (l', h, s)" using t by (auto simp: tdata_def)
  qed (use wheel_listsD(1,2) [OF W] in simp_all)
qed

lemma visited_0: "visited d 0 X = d"
proof
  show "visited d 0 X i = d i" for i by (cases "d i") (auto simp: visited_def)
qed

lemma visited_cong: "(\<And>j. j \<in> X \<Longrightarrow> d' j = d j) \<Longrightarrow> visited d' p X j = (if j \<in> X then visited d p X j else d' j)"
  by (auto simp: visited_def)

lemma wheel_sweep_ok:
  assumes A: "arena_laws A" and "wheel_lists (tget A w) (tw_slots w) L ls" and s: "s < L" and "ls s = ps @ xs"
  shows "\<exists>w'. wheel_sweep A s p (first xs) out w = Some (out @ map (hash_at (tdata (tget A w))) (filter (fires (tdata (tget A w)) p) xs), w') \<and>
    wheel_lists (tget A w') (tw_slots w') L (ls(s := ps @ filter (\<lambda>i. \<not> fires (tdata (tget A w)) p i) xs)) \<and>
    tdata (tget A w') = visited (tdata (tget A w)) p (set xs) \<and> same_clock w' w \<and> arena_issued A (tw_timers w') = arena_issued A (tw_timers w)"
  using assms(2,4)
proof (induction xs arbitrary: ps w out ls)
  case Nil
  have "ls(s := ps) = ls" using Nil.prems(2) by (simp add: fun_upd_idem)
  with Nil show ?case by (intro exI [of _ w]) (simp add: wheel_sweep.simps visited_def fun_eq_iff)
next
  case (Cons i xs)
  let ?d = "tdata (tget A w)"
  note W = Cons.prems(1)
  have dist: "distinct (ps @ i # xs)" using wheel_listsD(2) [OF W s] Cons.prems(2) by (simp add: dll_def)
  have ins: "i \<in> set (ls s)" using Cons.prems(2) by simp
  from wheel_listsD(4) [OF W s ins] obtain t where t: "tget A w i = Some t" "tm_slot_index t = s" by (auto simp: tdata_def)
  have di: "?d i = Some (tm_laps t, tm_key_hash t, s)" using t by (simp add: tptr_Some)
  have nxt: "tm_next t = first xs" using dll_next [OF wheel_listsD(2) [OF W s, unfolded Cons.prems(2)]] t by (simp add: tptr_Some)
  show ?case
  proof (cases "tm_laps t \<ge> p")
    case True
    obtain w1 where w1: "timer_update A i (\<lambda>t. t\<lparr>tm_laps := tm_laps t - p\<rparr>) w = Some w1" "tget A w1 = (tget A w)(i \<mapsto> t\<lparr>tm_laps := tm_laps t - p\<rparr>)"
      "same_clock w1 w" "tw_slots w1 = tw_slots w" "arena_issued A (tw_timers w1) = arena_issued A (tw_timers w)" by (rule timer_update_Some [OF A t(1)])
    have W1: "wheel_lists (tget A w1) (tw_slots w1) L ls" unfolding w1(2,4) by (rule wheel_lists_keep_laps [OF W t(1)])
    have d1: "tdata (tget A w1) = ?d(i \<mapsto> (tm_laps t - p, tm_key_hash t, s))" using w1(2) t(2) by (simp del: fun_upd_apply)
    have e: "ls s = (ps @ [i]) @ xs" using Cons.prems(2) by simp
    from Cons.IH [OF W1 e, of out] obtain w' where h:
      "wheel_sweep A s p (first xs) out w1 = Some (out @ map (hash_at (tdata (tget A w1))) (filter (fires (tdata (tget A w1)) p) xs), w')"
      "wheel_lists (tget A w') (tw_slots w') L (ls(s := (ps @ [i]) @ filter (\<lambda>i. \<not> fires (tdata (tget A w1)) p i) xs))"
      "tdata (tget A w') = visited (tdata (tget A w1)) p (set xs)" "same_clock w' w1" "arena_issued A (tw_timers w') = arena_issued A (tw_timers w1)" by blast
    have nf: "\<not> fires ?d p i" using di True by (simp add: fires_def)
    have same: "fires (tdata (tget A w1)) p j = fires ?d p j" "hash_at (tdata (tget A w1)) j = hash_at ?d j" if "j \<in> set xs" for j
      using that dist d1 by (auto simp: fires_def hash_at_def)
    have fl: "filter (fires (tdata (tget A w1)) p) xs = filter (fires ?d p) xs" "filter (\<lambda>i. \<not> fires (tdata (tget A w1)) p i) xs = filter (\<lambda>i. \<not> fires ?d p i) xs"
      "map (hash_at (tdata (tget A w1))) (filter (fires ?d p) xs) = map (hash_at ?d) (filter (fires ?d p) xs)"
      using same by (auto intro: filter_cong)
    have v: "visited (tdata (tget A w1)) p (set xs) = visited ?d p (set (i # xs))"
      unfolding d1 using dist di True by (auto simp: visited_def fun_eq_iff split: if_splits)
    have "wheel_sweep A s p (first (i # xs)) out w = wheel_sweep A s p (first xs) out w1"
      using t(1) True w1(1) nxt by (simp add: wheel_sweep.simps [of A s p "Some i"])
    then show ?thesis using h nf fl v same_clock_trans [OF h(4) w1(3)] w1(5) by (intro exI [of _ w']) (simp del: fun_upd_apply)
  next
    case False
    obtain r timers where rm: "arena_remove A (tw_timers w) i = (r, timers)" by force
    from wheel_unlink_ok [OF A W s Cons.prems(2) rm] t(1) obtain w1 where u: "r = Some t"
      "wheel_unlink A s (tm_prev t) (tm_next t) (w\<lparr>tw_timers := timers\<rparr>) = Some w1" "wheel_lists (tget A w1) (tw_slots w1) L (ls(s := ps @ xs))"
      "tdata (tget A w1) = ?d(i := None)" "same_clock w1 w" "arena_issued A (tw_timers w1) = arena_issued A (tw_timers w)" by auto
    have e: "(ls(s := ps @ xs)) s = ps @ xs" by simp
    have up: "(ls(s := ps @ xs))(s := ys) = ls(s := ys)" for ys by simp
    from Cons.IH [OF u(3) e, of "out @ [tm_key_hash t]", unfolded up] obtain w' where h:
      "wheel_sweep A s p (first xs) (out @ [tm_key_hash t]) w1 =
        Some ((out @ [tm_key_hash t]) @ map (hash_at (tdata (tget A w1))) (filter (fires (tdata (tget A w1)) p) xs), w')"
      "wheel_lists (tget A w') (tw_slots w') L (ls(s := ps @ filter (\<lambda>i. \<not> fires (tdata (tget A w1)) p i) xs))"
      "tdata (tget A w') = visited (tdata (tget A w1)) p (set xs)" "same_clock w' w1" "arena_issued A (tw_timers w') = arena_issued A (tw_timers w1)" by blast
    have f: "fires ?d p i" "hash_at ?d i = tm_key_hash t" using di False by (simp_all add: fires_def hash_at_def)
    have same: "fires (tdata (tget A w1)) p j = fires ?d p j" "hash_at (tdata (tget A w1)) j = hash_at ?d j" if "j \<in> set xs" for j
      using that dist u(4) by (auto simp: fires_def hash_at_def)
    have fl: "filter (fires (tdata (tget A w1)) p) xs = filter (fires ?d p) xs" "filter (\<lambda>i. \<not> fires (tdata (tget A w1)) p i) xs = filter (\<lambda>i. \<not> fires ?d p i) xs"
      "map (hash_at (tdata (tget A w1))) (filter (fires ?d p) xs) = map (hash_at ?d) (filter (fires ?d p) xs)"
      using same by (auto intro: filter_cong)
    have v: "visited (tdata (tget A w1)) p (set xs) = visited ?d p (set (i # xs))"
      unfolding u(4) using dist di False by (auto simp: visited_def fun_eq_iff split: if_splits)
    have "wheel_sweep A s p (first (i # xs)) out w = wheel_sweep A s p (first xs) (out @ [tm_key_hash t]) w1"
      using t(1) False rm u(1,2) nxt by (simp add: wheel_sweep.simps [of A s p "Some i"])
    then show ?thesis using h f fl v same_clock_trans [OF h(4) u(5)] u(6) by (intro exI [of _ w']) (simp del: fun_upd_apply)
  qed
qed

text \<open>All the slots of a list are swept, each as often as it was passed.\<close>

definition visited_slots :: "'i timers \<Rightarrow> (nat \<Rightarrow> nat) \<Rightarrow> nat set \<Rightarrow> 'i timers" where
  "visited_slots d P S i = (case d i of None \<Rightarrow> None | Some (l, h, s) \<Rightarrow>
     if s \<in> S then if l < P s then None else Some (l - P s, h, s) else Some (l, h, s))"

lemma wheel_sweep_slots_ok:
  assumes A: "arena_laws A" and "wheel_lists (tget A w) (tw_slots w) L ls" and "set ss \<subseteq> {..<L}" "distinct ss" "tw_wheel_len w = L"
    and P: "P = wheel_passes L start T"
  shows "\<exists>w' ls'. wheel_sweep_slots A start T ss out w =
      Some (out @ map (hash_at (tdata (tget A w))) (concat (map (\<lambda>s. filter (fires (tdata (tget A w)) (P s)) (ls s)) ss)), w') \<and>
    wheel_lists (tget A w') (tw_slots w') L ls' \<and> tdata (tget A w') = visited_slots (tdata (tget A w)) P (set ss) \<and>
    same_clock w' w \<and> arena_issued A (tw_timers w') = arena_issued A (tw_timers w)"
  using assms(2-5)
proof (induction ss arbitrary: w out ls)
  case Nil
  then show ?case by (intro exI [of _ w] exI [of _ ls]) (auto simp: visited_slots_def fun_eq_iff split: option.split)
next
  case (Cons s ss)
  let ?d = "tdata (tget A w)"
  note W = Cons.prems(1)
  have s: "s < L" "s \<notin> set ss" "set ss \<subseteq> {..<L}" "distinct ss" using Cons.prems(2,3) by auto
  have len: "tw_wheel_len w = L" by (rule Cons.prems(4))
  obtain w1 ls1 where w1: "wheel_sweep_slots A start T (s # ss) out w =
      wheel_sweep_slots A start T ss (out @ map (hash_at ?d) (filter (fires ?d (P s)) (ls s))) w1"
    "wheel_lists (tget A w1) (tw_slots w1) L ls1" "tdata (tget A w1) = visited ?d (P s) (set (ls s))" "same_clock w1 w"
    "arena_issued A (tw_timers w1) = arena_issued A (tw_timers w)" "\<And>r. r \<noteq> s \<Longrightarrow> ls1 r = ls r"
  proof (cases "P s = 0")
    case True
    have "fires ?d 0 = (\<lambda>_. False)" by (simp add: fires_def fun_eq_iff)
    moreover have "visited ?d 0 (set (ls s)) = ?d" by (rule visited_0)
    ultimately show thesis using that [of w ls] True W len P by simp
  next
    case False
    have hd: "sl_head (tw_slots w ! s) = first (ls s)" using wheel_listsD(2) [OF W s(1)] by (simp add: dll_def)
    from wheel_sweep_ok [OF A W s(1), of "[]" "ls s" "P s" out] obtain w' where
      h: "wheel_sweep A s (P s) (first (ls s)) out w = Some (out @ map (hash_at ?d) (filter (fires ?d (P s)) (ls s)), w')"
        "wheel_lists (tget A w') (tw_slots w') L (ls(s := [] @ filter (\<lambda>i. \<not> fires ?d (P s) i) (ls s)))"
        "tdata (tget A w') = visited ?d (P s) (set (ls s))" "same_clock w' w" "arena_issued A (tw_timers w') = arena_issued A (tw_timers w)" by auto
    have "wheel_sweep_slots A start T (s # ss) out w =
        wheel_sweep_slots A start T ss (out @ map (hash_at ?d) (filter (fires ?d (P s)) (ls s))) w'"
      using False h(1) s(1) wheel_listsD(1) [OF W] len P hd by (simp add: Let_def)
    then show thesis using that [of w' "ls(s := [] @ filter (\<lambda>i. \<not> fires ?d (P s) i) (ls s))"] h(2-5) by (simp add: fun_upd_other)
  qed
  let ?d1 = "tdata (tget A w1)"
  have len1: "tw_wheel_len w1 = L" using same_clockD(1) [OF w1(4)] len by simp
  from Cons.IH [OF w1(2) s(3,4) len1, of "out @ map (hash_at ?d) (filter (fires ?d (P s)) (ls s))"] obtain w' ls' where
    h: "wheel_sweep_slots A start T ss (out @ map (hash_at ?d) (filter (fires ?d (P s)) (ls s))) w1 =
        Some ((out @ map (hash_at ?d) (filter (fires ?d (P s)) (ls s))) @ map (hash_at ?d1) (concat (map (\<lambda>s. filter (fires ?d1 (P s)) (ls1 s)) ss)), w')"
      "wheel_lists (tget A w') (tw_slots w') L ls'" "tdata (tget A w') = visited_slots ?d1 P (set ss)" "same_clock w' w1"
      "arena_issued A (tw_timers w') = arena_issued A (tw_timers w1)" by blast
  have keep: "?d1 i = ?d i" if "i \<in> set (ls r)" "r \<in> set ss" for i r
  proof -
    have "r < L" "r \<noteq> s" using that(2) s by auto
    then have "i \<notin> set (ls s)" using wheel_lists_disjoint [OF W s(1), of r i] that(1) by blast
    then show ?thesis by (simp add: w1(3) visited_def)
  qed
  have fl: "filter (fires ?d1 (P r)) (ls1 r) = filter (fires ?d (P r)) (ls r)" if "r \<in> set ss" for r
  proof -
    have "ls1 r = ls r" using w1(6) that s(2) by metis
    moreover have "fires ?d1 (P r) i = fires ?d (P r) i" if "i \<in> set (ls r)" for i using keep [OF that \<open>r \<in> set ss\<close>] by (simp add: fires_def)
    ultimately show ?thesis by (metis (mono_tags, lifting) filter_cong)
  qed
  have "map (hash_at ?d1) (concat (map (\<lambda>s. filter (fires ?d1 (P s)) (ls1 s)) ss)) = map (hash_at ?d) (concat (map (\<lambda>s. filter (fires ?d (P s)) (ls s)) ss))"
    using fl keep by (auto simp: hash_at_def map_concat intro!: arg_cong [where f = concat])
  moreover have "visited_slots ?d1 P (set ss) = visited_slots ?d P (set (s # ss))"
  proof
    fix i
    show "visited_slots ?d1 P (set ss) i = visited_slots ?d P (set (s # ss)) i"
    proof (cases "?d i")
      case None
      then show ?thesis by (simp add: visited_slots_def w1(3) visited_def del: dom_tdata(2))
    next
      case (Some x)
      obtain l h r where x: "x = (l, h, r)" by (cases x)
      have r: "r < L" "i \<in> set (ls r)" using wheel_listsD(3) [OF W, of i l h r] Some x by auto
      then have "i \<in> set (ls s) \<longleftrightarrow> r = s" using wheel_lists_disjoint [OF W s(1), of r i] by blast
      then show ?thesis using Some x s(2) by (auto simp: visited_slots_def w1(3) visited_def)
    qed
  qed
  ultimately show ?case using w1(1,5) h same_clock_trans [OF h(4) w1(4)] by (intro exI [of _ w'] exI [of _ ls']) simp
qed

subsection \<open>Deadlines\<close>

text \<open>How far ahead of the current tick a slot is.\<close>

definition ahead :: "nat \<Rightarrow> nat \<Rightarrow> nat \<Rightarrow> nat" where
  "ahead L c s = (s + L - c mod L) mod L"

lemma ahead_char: "0 < L \<Longrightarrow> s < L \<Longrightarrow> ahead L c s < L \<and> (c + ahead L c s) mod L = s"
proof -
  assume L: "0 < L" "s < L"
  have "c mod L < L" using L by simp
  then have "c + (s + L - c mod L) = s + (c div L * L + L)" using div_mult_mod_eq [of c L] by linarith
  also have "\<dots> = s + (c div L + 1) * L" by simp
  finally have "(c + (s + L - c mod L)) mod L = s" using L by (simp only: mod_mult_self1) simp
  then show ?thesis using L by (simp add: ahead_def mod_add_right_eq)
qed

lemma ahead_unique: "0 < L \<Longrightarrow> x < L \<Longrightarrow> (c + x) mod L = s \<Longrightarrow> x = ahead L c s"
proof -
  assume L: "0 < L" "x < L" and e: "(c + x) mod L = s"
  have "s < L" using L e by auto
  with ahead_char [OF L(1)] have y: "ahead L c s < L" "(c + ahead L c s) mod L = s" by auto
  have "a = b" if "a < L" "b < L" "(c + a) mod L = (c + b) mod L" "a \<le> b" for a b
  proof -
    have "L dvd (c + b) - (c + a)" using that by (metis add_le_cancel_left mod_eq_dvd_iff_nat)
    then have "L dvd b - a" by simp
    then show "a = b" using that by (auto dest: dvd_imp_le)
  qed
  from this [of x "ahead L c s"] this [of "ahead L c s" x] show ?thesis using L y e by (cases "x \<le> ahead L c s") auto
qed

text \<open>A timer with \<open>l\<close> laps in a slot \<open>r\<close> ahead fires within \<open>T\<close> ticks iff \<open>r + l * L < T\<close>.\<close>

lemma passes_iff:
  fixes l r L T :: nat
  assumes "r < L"
  shows "l < T div L + (if r < T mod L then 1 else 0) \<longleftrightarrow> r + l * L < T"
proof -
  define q m where "q = T div L" and "m = T mod L"
  have T: "T = q * L + m" unfolding q_def m_def by (rule div_mult_mod_eq [symmetric])
  have m: "m < L" using assms by (simp add: m_def)
  consider "l < q" | "l = q" | "l > q" by linarith
  then show ?thesis unfolding q_def [symmetric] m_def [symmetric]
  proof cases
    case 1
    then have "(l + 1) * L \<le> q * L" by (intro mult_right_mono) auto
    then have "r + l * L < T" using assms unfolding T by (simp add: add_mult_distrib)
    with 1 show "l < q + (if r < m then 1 else 0) \<longleftrightarrow> r + l * L < T" by simp
  next
    case 2
    then show "l < q + (if r < m then 1 else 0) \<longleftrightarrow> r + l * L < T" by (simp add: T)
  next
    case 3
    then have "(q + 1) * L \<le> l * L" by (intro mult_right_mono) auto
    then have "\<not> r + l * L < T" using m unfolding T by (simp add: add_mult_distrib)
    with 3 show "l < q + (if r < m then 1 else 0) \<longleftrightarrow> r + l * L < T" by simp
  qed
qed

lemma ahead_advance:
  assumes L: "0 < L" "s < L" and stay: "\<not> l < wheel_passes L c T s"
  shows "ahead L (c + T) s + (l - wheel_passes L c T s) * L + T = ahead L c s + l * L"
proof -
  define r q m p where "r = ahead L c s" and "q = T div L" and "m = T mod L" and "p = wheel_passes L c T s"
  have r: "r < L" "(c + r) mod L = s" using ahead_char [OF L] by (auto simp: r_def)
  have P: "p = q + (if r < m then 1 else 0)" by (simp add: wheel_passes_def ahead_def Let_def r_def q_def m_def p_def)
  have m: "m < L" using L by (simp add: m_def)
  have T: "T = q * L + m" unfolding q_def m_def by (simp only: div_mult_mod_eq)
  define x where "x = (if r < m then r + L - m else r - m)"
  have x: "x < L" using r m by (auto simp: x_def)
  have xT: "x + T = r + p * L" unfolding T P x_def using m by (auto simp: add_mult_distrib)
  then have "c + T + x = c + r + p * L" by simp
  then have "(c + T + x) mod L = s" using r(2) by (metis mod_mult_self1)
  from ahead_unique [OF L(1) x this] have e: "ahead L (c + T) s = x" by simp
  have "p \<le> l" using stay by (simp add: p_def)
  then have "(l - p) * L + p * L = l * L" by (simp flip: add_mult_distrib)
  then show ?thesis using xT unfolding e r_def [symmetric] p_def [symmetric] by linarith
qed

text \<open>A timer is due when the tick that sweeps its slot for the last time has passed.\<close>

definition deadline :: "('a, 'i) timer_wheel \<Rightarrow> nat \<times> 64 word \<times> nat \<Rightarrow> 64 word \<times> nat" where
  "deadline w = (\<lambda>(l, h, s). (h, tw_last_advanced w + (ahead (tw_wheel_len w) (tw_current_tick w) s + l * tw_wheel_len w + 1) * tw_tick_ns w))"

definition armed :: "('a, 'i) timer_arena \<Rightarrow> ('a, 'i) timer_wheel \<Rightarrow> 'i \<rightharpoonup> 64 word \<times> nat" where
  "armed A w i = map_option (deadline w) (tdata (tget A w) i)"

definition wheel_ok :: "('a, 'i) timer_arena \<Rightarrow> ('a, 'i) timer_wheel \<Rightarrow> bool" where
  "wheel_ok A w \<longleftrightarrow> 0 < tw_wheel_len w \<and> 0 < tw_tick_ns w \<and> tw_tick_ns w < 2 ^ 64 \<and> tw_last_advanced w < 2 ^ 64 \<and>
     tw_current_tick w * tw_tick_ns w \<le> tw_last_advanced w \<and>
     (if tw_slots w = [] then tget A w = (\<lambda>_. None) \<and> tw_current_tick w = 0
      else \<exists>ls. wheel_lists (tget A w) (tw_slots w) (tw_wheel_len w) ls) \<and>
     (\<forall>i h d. armed A w i = Some (h, d) \<longrightarrow> tw_next_due w \<le> d)"

lemma wheel_okD:
  assumes "wheel_ok A w"
  shows "0 < tw_wheel_len w" "0 < tw_tick_ns w" "tw_tick_ns w < 2 ^ 64" "tw_last_advanced w < 2 ^ 64"
    "tw_current_tick w * tw_tick_ns w \<le> tw_last_advanced w" "tw_slots w = [] \<Longrightarrow> tget A w = (\<lambda>_. None)" "tw_slots w = [] \<Longrightarrow> tw_current_tick w = 0"
    "tw_slots w \<noteq> [] \<Longrightarrow> \<exists>ls. wheel_lists (tget A w) (tw_slots w) (tw_wheel_len w) ls"
    "armed A w i = Some (h, d) \<Longrightarrow> tw_next_due w \<le> d"
  using assms by (auto simp: wheel_ok_def split: if_splits)

lemma armed_upd:
  assumes "tdata (tget A w') = (tdata (tget A w))(i := x)" "same_clock w' w"
  shows "armed A w' = (armed A w)(i := map_option (deadline w) x)"
  using assms by (auto simp: armed_def deadline_def same_clockD fun_eq_iff)

lemma wheel_okI:
  assumes "wheel_ok A w" "tw_slots w \<noteq> []" "wheel_lists (tget A w') (tw_slots w') (tw_wheel_len w) ls"
    "tw_wheel_len w' = tw_wheel_len w" "tw_current_tick w' = tw_current_tick w" "tw_tick_ns w' = tw_tick_ns w" "tw_last_advanced w' = tw_last_advanced w"
    "\<And>i h d. armed A w' i = Some (h, d) \<Longrightarrow> tw_next_due w' \<le> d"
  shows "wheel_ok A w'"
  using assms wheel_okD [OF assms(1)] wheel_listsD(1) [OF assms(3)] by (auto simp: wheel_ok_def)

subsection \<open>Operations\<close>

lemma wheel_link_ok:
  assumes A: "arena_laws A" and W: "wheel_lists (tget A w) (tw_slots w) L ls" and s: "s < L"
    and ins: "arena_insert A (tw_timers w) \<lparr>tm_laps = l, tm_key_hash = h, tm_slot_index = s, tm_prev = None, tm_next = sl_head (tw_slots w ! s)\<rparr> = (i, timers)"
  obtains w1 w2 where
    "(case sl_head (tw_slots w ! s) of None \<Rightarrow> Some (w\<lparr>tw_timers := timers\<rparr>)
      | Some old_head \<Rightarrow> timer_update A old_head (\<lambda>t. t\<lparr>tm_prev := Some i\<rparr>) (w\<lparr>tw_timers := timers\<rparr>)) = Some w1"
    "slot_update s (\<lambda>s. \<lparr>sl_head = Some i, sl_tail = (if sl_tail s = None then Some i else sl_tail s)\<rparr>) w1 = Some w2"
    "wheel_lists (tget A w2) (tw_slots w2) L (ls(s := i # ls s))" "tdata (tget A w2) = (tdata (tget A w))(i \<mapsto> (l, h, s))"
    "same_clock w2 w" "tget A w i = None" "arena_issued A (tw_timers w2) = insert i (arena_issued A (tw_timers w))" "i \<notin> arena_issued A (tw_timers w)"
proof -
  let ?g = "tget A w" let ?w0 = "w\<lparr>tw_timers := timers\<rparr>" let ?h = "sl_head (tw_slots w ! s)"
  note I = arena_insertD [OF A ins]
  note D = wheel_listsD(2) [OF W s]
  have sl: "s < length (tw_slots w)" using s wheel_listsD(1) [OF W] by simp
  have hd: "?h = first (ls s)" using D by (simp add: dll_def)
  have out: "i \<notin> set (ls r)" if "r < L" for r using wheel_listsD(4) [OF W that, of i] I(1) by (auto simp: tdata_def)
  have g0: "tget A ?w0 = ?g(i \<mapsto> \<lparr>tm_laps = l, tm_key_hash = h, tm_slot_index = s, tm_prev = None, tm_next = ?h\<rparr>)" using I(2) by simp
  obtain w1 where w1: "(case ?h of None \<Rightarrow> Some ?w0 | Some old_head \<Rightarrow> timer_update A old_head (\<lambda>t. t\<lparr>tm_prev := Some i\<rparr>) ?w0) = Some w1"
    "tnx (tget A w1) = (tnx ?g)(i := ?h)" "tpv (tget A w1) = (case ?h of None \<Rightarrow> (tpv ?g)(i := None) | Some p \<Rightarrow> (tpv ?g)(i := None, p := Some i))"
    "tdata (tget A w1) = (tdata ?g)(i \<mapsto> (l, h, s))" "tw_slots w1 = tw_slots w" "same_clock w1 w" "arena_issued A (tw_timers w1) = insert i (arena_issued A (tw_timers w))"
  proof (cases ?h)
    case None
    then show thesis using that [of ?w0] g0 I(4) by (simp del: fun_upd_apply)
  next
    case (Some p)
    then have p: "p \<in> set (ls s)" "p \<noteq> i" using hd first_SomeD [of "ls s" p] out [OF s] by auto
    then obtain u where u: "tget A ?w0 p = Some u" using wheel_listsD(4) [OF W s p(1)] g0 by (auto simp: tdata_def)
    obtain w' where w': "timer_update A p (\<lambda>t. t\<lparr>tm_prev := Some i\<rparr>) ?w0 = Some w'" "tget A w' = (tget A ?w0)(p \<mapsto> u\<lparr>tm_prev := Some i\<rparr>)"
      "same_clock w' ?w0" "tw_slots w' = tw_slots ?w0" "arena_issued A (tw_timers w') = arena_issued A (tw_timers ?w0)" by (rule timer_update_Some [OF A u])
    have "tnx (tget A w') = tnx (tget A ?w0)" "tdata (tget A w') = tdata (tget A ?w0)" "tpv (tget A w') = (tpv (tget A ?w0))(p := Some i)"
      unfolding w'(2) using tptr_idem(1,3) [of "tget A ?w0" p u] u by (simp_all del: fun_upd_apply)
    moreover have "same_clock w' w" using same_clock_trans [OF w'(3)] by simp
    ultimately show thesis using that [of w'] w'(1,4,5) Some g0 I(4) by (simp del: fun_upd_apply)
  qed
  let ?w2 = "w1\<lparr>tw_slots := (tw_slots w)[s := \<lparr>sl_head = Some i, sl_tail = (if sl_tail (tw_slots w ! s) = None then Some i else sl_tail (tw_slots w ! s))\<rparr>]\<rparr>"
  have w2: "slot_update s (\<lambda>s. \<lparr>sl_head = Some i, sl_tail = (if sl_tail s = None then Some i else sl_tail s)\<rparr>) w1 = Some ?w2"
    using sl w1(5) by (simp add: slot_update_def)
  have "wheel_lists (tget A ?w2) (tw_slots ?w2) L (ls(s := i # ls s))" unfolding wheel_lists_def
  proof (intro conjI allI impI ballI)
    show "length (tw_slots ?w2) = L" using wheel_listsD(1) [OF W] by simp
    show "dll (tnx (tget A ?w2)) (tpv (tget A ?w2)) (sl_head (tw_slots ?w2 ! r)) (sl_tail (tw_slots ?w2 ! r)) ((ls(s := i # ls s)) r)" if r: "r < L" for r
    proof (cases "r = s")
      case True
      then show ?thesis using dll_push_front [OF D out [OF s]] sl w1(2,3) by simp
    next
      case False
      have "p \<notin> set (ls r)" if "?h = Some p" for p
        using wheel_lists_disjoint [OF W s r, of p] first_SomeD [of "ls s" p] hd that False by auto
      then have "dll (tnx (tget A w1)) (tpv (tget A w1)) (sl_head (tw_slots w ! r)) (sl_tail (tw_slots w ! r)) (ls r)"
        unfolding w1(2,3) using wheel_listsD(2) [OF W r] out [OF r] by (cases ?h) simp_all
      with False show ?thesis by simp
    qed
    fix j l' h' r
    assume "tdata (tget A ?w2) j = Some (l', h', r)"
    then have "(j = i \<and> r = s) \<or> (j \<noteq> i \<and> tdata ?g j = Some (l', h', r))" using w1(4) by (auto split: if_splits)
    then show "r < L" "j \<in> set ((ls(s := i # ls s)) r)" using s wheel_listsD(3) [OF W, of j l' h' r] by auto
  next
    fix r j
    assume "r < L" "j \<in> set ((ls(s := i # ls s)) r)"
    then show "\<exists>l h. tdata (tget A ?w2) j = Some (l, h, r)" using w1(4) wheel_listsD(4) [OF W, of r j] out by (auto split: if_splits)
  qed
  moreover have "same_clock ?w2 w" using same_clock_trans [OF _ w1(6), of ?w2] by simp
  ultimately show thesis using that [OF w1(1) w2] w1(4,7) I(1,3) by simp
qed

text \<open>\<^verbatim>\<open>schedule\<close> rounds the expiry time up to a tick after the last sweep.\<close>

definition rounded_up :: "nat \<Rightarrow> nat \<Rightarrow> nat \<Rightarrow> nat" where
  "rounded_up since tick expires_at = since + max (div_ceil (expires_at - since) tick) 1 * tick"

lemma div_ceil_bounds: "0 < b \<Longrightarrow> a \<le> div_ceil a b * b" "0 < b \<Longrightarrow> div_ceil a b * b < a + b"
proof -
  assume b: "0 < b"
  have "(a + b - 1) div b * b + (a + b - 1) mod b = a + b - 1" by simp
  moreover have "(a + b - 1) mod b < b" using b by simp
  ultimately show "a \<le> div_ceil a b * b" "div_ceil a b * b < a + b" using b unfolding div_ceil_def by linarith+
qed

lemma rounded_up_bounds:
  assumes "0 < tick"
  shows "expires_at \<le> rounded_up since tick expires_at" "since + tick \<le> rounded_up since tick expires_at"
    "rounded_up since tick expires_at < max expires_at (since + 1) + tick"
proof -
  let ?c = "div_ceil (expires_at - since) tick"
  note b = div_ceil_bounds [OF assms, of "expires_at - since"]
  have "?c * tick \<le> max ?c 1 * tick" "tick \<le> max ?c 1 * tick" using mult_right_mono [of 1 "max ?c 1" tick] by (auto intro: mult_right_mono)
  then show "expires_at \<le> rounded_up since tick expires_at" "since + tick \<le> rounded_up since tick expires_at"
    using b unfolding rounded_up_def by linarith+
  show "rounded_up since tick expires_at < max expires_at (since + 1) + tick"
  proof (cases "?c = 0")
    case True
    then show ?thesis by (simp add: rounded_up_def)
  next
    case False
    then have "max ?c 1 = ?c" by simp
    moreover have "since < expires_at" using False assms by (cases "since < expires_at") (auto simp: div_ceil_def)
    ultimately show ?thesis using b(2) by (simp add: rounded_up_def)
  qed
qed

lemma wheel_start_ok:
  assumes ok: "wheel_ok A w" and now: "now < 2 ^ 64"
  shows "wheel_ok A (wheel_start now w)" "tw_slots (wheel_start now w) \<noteq> []" "armed A (wheel_start now w) = armed A w"
    "tw_timers (wheel_start now w) = tw_timers w" "tw_wheel_len (wheel_start now w) = tw_wheel_len w" "tw_tick_ns (wheel_start now w) = tw_tick_ns w"
    "tw_last_advanced (wheel_start now w) = (if tw_slots w = [] then now else tw_last_advanced w)"
    "tw_next_due (wheel_start now w) = tw_next_due w"
proof -
  note k = wheel_okD [OF ok]
  show n: "tw_slots (wheel_start now w) \<noteq> []" using k(1) by (simp add: wheel_start_def)
  show a: "armed A (wheel_start now w) = armed A w"
    using k(6) by (auto simp: wheel_start_def armed_def tdata_def fun_eq_iff deadline_def)
  show "tw_timers (wheel_start now w) = tw_timers w" "tw_wheel_len (wheel_start now w) = tw_wheel_len w" "tw_tick_ns (wheel_start now w) = tw_tick_ns w"
    "tw_last_advanced (wheel_start now w) = (if tw_slots w = [] then now else tw_last_advanced w)"
    "tw_next_due (wheel_start now w) = tw_next_due w" by (simp_all add: wheel_start_def)
  show "wheel_ok A (wheel_start now w)"
  proof (cases "tw_slots w = []")
    case True
    have "wheel_lists (tget A w) (replicate (tw_wheel_len w) empty_slot) (tw_wheel_len w) (\<lambda>_. [])"
      using k(6) [OF True] by (simp add: wheel_lists_def tdata_def empty_slot_def)
    then have "\<exists>ls. wheel_lists (tget A (wheel_start now w)) (tw_slots (wheel_start now w)) (tw_wheel_len (wheel_start now w)) ls"
      using True by (auto simp: wheel_start_def)
    moreover have "\<forall>i h d. armed A (wheel_start now w) i = Some (h, d) \<longrightarrow> tw_next_due (wheel_start now w) \<le> d"
      unfolding a using k(9) by (simp add: wheel_start_def True)
    ultimately show ?thesis using k(1-3,7) now n True unfolding wheel_ok_def by (simp add: wheel_start_def)
  qed (use ok in \<open>simp add: wheel_start_def\<close>)
qed

lemma wheel_schedule_ok:
  assumes A: "arena_laws A" and ok0: "wheel_ok A w0" and now: "now < 2 ^ 64" and exp: "expires_at + tw_tick_ns w0 < 2 ^ 64"
  obtains i w' where "wheel_schedule A now key_hash expires_at w0 = Some (i, w')" "wheel_ok A w'" "i \<notin> arena_issued A (tw_timers w0)"
    "armed A w' = (armed A w0)(i \<mapsto> (key_hash, rounded_up (if tw_slots w0 = [] then now else tw_last_advanced w0) (tw_tick_ns w0) expires_at))"
    "tw_last_advanced w' = (if tw_slots w0 = [] then now else tw_last_advanced w0)" "tw_tick_ns w' = tw_tick_ns w0" "tw_wheel_len w' = tw_wheel_len w0"
    "arena_issued A (tw_timers w') = insert i (arena_issued A (tw_timers w0))" "tw_slots w' \<noteq> []"
proof -
  define w where "w = wheel_start now w0"
  note st = wheel_start_ok [OF ok0 now, folded w_def]
  note k = wheel_okD [OF st(1)]
  define L c tk t0 where "L = tw_wheel_len w" and "c = tw_current_tick w" and "tk = tw_tick_ns w" and "t0 = tw_last_advanced w"
  note f = L_def [symmetric] c_def [symmetric] tk_def [symmetric] t0_def [symmetric]
  define ticks where "ticks = max (div_ceil (expires_at - t0) tk) 1"
  define s where "s = (c + (ticks - 1)) mod L"
  obtain ls where W: "wheel_lists (tget A w) (tw_slots w) L ls" using k(8) [OF st(2)] by (auto simp: L_def)
  have L: "0 < L" "0 < tk" "tk < 2 ^ 64" "c * tk \<le> t0" "t0 < 2 ^ 64" using k(1-5) by (simp_all add: f)
  have s: "s < L" using L by (simp add: s_def)
  have ru: "rounded_up t0 tk expires_at = t0 + ticks * tk" by (simp add: rounded_up_def ticks_def)
  have small: "ticks * tk < 2 ^ 64"
    using rounded_up_bounds(3) [OF L(2), of t0 expires_at] exp L(3) st(6) unfolding ru by (auto simp: f max_def split: if_splits)
  have tp: "0 < ticks" by (simp add: ticks_def)
  have nowrap: "c + (ticks - 1) < 2 ^ 64"
  proof -
    have "(c + (ticks - 1)) * 1 \<le> (c + (ticks - 1)) * tk" using L(2) by (intro mult_left_mono) auto
    also have "\<dots> = c * tk + ticks * tk - tk" using tp by (simp add: add_mult_distrib diff_mult_distrib)
    finally show ?thesis using rounded_up_bounds(3) [OF L(2), of t0 expires_at] L(4,5) exp st(6) tp unfolding ru by (auto simp: f max_def split: if_splits)
  qed
  have ah: "ahead L c s = (ticks - 1) mod L"
    by (rule ahead_unique [symmetric]) (use L(1) in \<open>simp_all add: s_def mod_add_right_eq\<close>)
  have dl: "deadline w ((ticks - 1) div L, key_hash, s) = (key_hash, t0 + ticks * tk)"
    using tp mod_div_mult_eq [of "ticks - 1" L] by (simp add: deadline_def f ah flip: mult_Suc del: mult_Suc)
  obtain i timers where ins: "arena_insert A (tw_timers w) \<lparr>tm_laps = (ticks - 1) div L, tm_key_hash = key_hash, tm_slot_index = s, tm_prev = None, tm_next = sl_head (tw_slots w ! s)\<rparr> = (i, timers)"
    by force
  obtain w1 w2 where lk: "(case sl_head (tw_slots w ! s) of None \<Rightarrow> Some (w\<lparr>tw_timers := timers\<rparr>)
      | Some old_head \<Rightarrow> timer_update A old_head (\<lambda>t. t\<lparr>tm_prev := Some i\<rparr>) (w\<lparr>tw_timers := timers\<rparr>)) = Some w1"
    "slot_update s (\<lambda>s. \<lparr>sl_head = Some i, sl_tail = (if sl_tail s = None then Some i else sl_tail s)\<rparr>) w1 = Some w2"
    "wheel_lists (tget A w2) (tw_slots w2) L (ls(s := i # ls s))" "tdata (tget A w2) = (tdata (tget A w))(i \<mapsto> ((ticks - 1) div L, key_hash, s))"
    "same_clock w2 w" "tget A w i = None" "arena_issued A (tw_timers w2) = insert i (arena_issued A (tw_timers w))" "i \<notin> arena_issued A (tw_timers w)"
    by (rule wheel_link_ok [OF A W s ins])
  have ar: "armed A w2 = (armed A w)(i \<mapsto> (key_hash, t0 + ticks * tk))" using armed_upd [OF lk(4,5)] dl by simp
  let ?due = "u64_saturating_add t0 (u64_mul ticks tk)"
  let ?w' = "w2\<lparr>tw_next_due := min (tw_next_due w2) ?due\<rparr>"
  have due: "?due \<le> t0 + ticks * tk" using small by (simp add: u64_saturating_add_def u64_mul_def)
  have ar': "armed A ?w' = armed A w2" by (simp add: armed_def deadline_def fun_eq_iff)
  note sc = same_clockD [OF lk(5)]
  have run: "wheel_schedule A now key_hash expires_at w0 = Some (i, ?w')"
    unfolding wheel_schedule_def w_def [symmetric] Let_def saturating_sub_def
    using L(1) nowrap ins lk(1,2) sc s wheel_listsD(1) [OF W]
    by (simp add: f ticks_def [symmetric] s_def [symmetric] del: One_nat_def)
  have "wheel_ok A ?w'"
    by (rule wheel_okI [OF st(1,2)])
      (use lk(3) sc ar ar' due k(9) in \<open>auto simp: L_def min_le_iff_disj split: if_splits\<close>)
  moreover have "tw_slots w2 \<noteq> []" using wheel_listsD(1) [OF lk(3)] L(1) by auto
  ultimately show thesis using that [OF run] lk(7,8) ar ar' ru st sc by (simp add: f)
qed

lemma wheel_cancel_ok:
  assumes A: "arena_laws A" and ok: "wheel_ok A w"
  obtains w' where "wheel_cancel A i w = Some w'" "wheel_ok A w'" "armed A w' = (armed A w)(i := None)" "same_clock w' w"
    "arena_issued A (tw_timers w') = arena_issued A (tw_timers w)"
proof -
  obtain r timers where rm: "arena_remove A (tw_timers w) i = (r, timers)" by force
  note R = arena_removeD [OF A rm]
  show thesis
  proof (cases "tget A w i")
    case None
    let ?w' = "w\<lparr>tw_timers := timers\<rparr>"
    have g: "tget A ?w' = tget A w" using R(2) None by (simp add: fun_upd_idem)
    have ar: "armed A ?w' = armed A w" unfolding armed_def [abs_def] g by (simp add: deadline_def)
    have "wheel_ok A ?w'" using ok unfolding wheel_ok_def ar g by simp
    moreover have "armed A w i = None" using None by (simp add: armed_def tdata_def)
    ultimately show thesis using that [of ?w'] None rm R(1,3) ar by (simp add: wheel_cancel_def fun_upd_idem)
  next
    case (Some t)
    have ne: "tw_slots w \<noteq> []" using wheel_okD(6) [OF ok] Some by auto
    obtain ls where W: "wheel_lists (tget A w) (tw_slots w) (tw_wheel_len w) ls" using wheel_okD(8) [OF ok ne] by blast
    have s: "tm_slot_index t < tw_wheel_len w" "i \<in> set (ls (tm_slot_index t))" using wheel_listsD(3) [OF W tptr_Some(3) [of "tget A w" i t, OF Some]] by auto
    obtain xs ys where xy: "ls (tm_slot_index t) = xs @ i # ys" using split_list [OF s(2)] by blast
    from wheel_unlink_ok [OF A W s(1) xy rm] Some obtain w' where u: "r = Some t"
      "wheel_unlink A (tm_slot_index t) (tm_prev t) (tm_next t) (w\<lparr>tw_timers := timers\<rparr>) = Some w'"
      "wheel_lists (tget A w') (tw_slots w') (tw_wheel_len w) (ls(tm_slot_index t := xs @ ys))"
      "tdata (tget A w') = (tdata (tget A w))(i := None)" "same_clock w' w" "arena_issued A (tw_timers w') = arena_issued A (tw_timers w)" by auto
    have ar: "armed A w' = (armed A w)(i := None)" using armed_upd [OF u(4,5)] by simp
    have "wheel_ok A w'"
      by (rule wheel_okI [OF ok ne u(3)]) (use same_clockD [OF u(5)] ar wheel_okD(9) [OF ok] in \<open>auto split: if_splits\<close>)
    then show thesis using that [of w'] u(1,2,5,6) rm ar by (simp add: wheel_cancel_def)
  qed
qed

lemma wheel_clear_ok:
  assumes A: "arena_laws A" and ok: "wheel_ok A w"
  shows "wheel_ok A (wheel_clear A w)" "armed A (wheel_clear A w) = (\<lambda>_. None)"
    "arena_issued A (tw_timers (wheel_clear A w)) = arena_issued A (tw_timers w)" "tw_last_advanced (wheel_clear A w) = tw_last_advanced w"
    "tw_tick_ns (wheel_clear A w) = tw_tick_ns w" "tw_wheel_len (wheel_clear A w) = tw_wheel_len w" "tw_slots (wheel_clear A w) = [] \<longleftrightarrow> tw_slots w = []"
proof -
  have g: "tget A (wheel_clear A w) = (\<lambda>_. None)" using arena_get_clear [OF A] by (simp add: wheel_clear_def fun_eq_iff)
  show ar: "armed A (wheel_clear A w) = (\<lambda>_. None)" by (simp add: armed_def g tdata_def fun_eq_iff)
  have "wheel_lists (\<lambda>_. None) (replicate (length (tw_slots w)) empty_slot) (tw_wheel_len w) (\<lambda>_. [])" if "tw_slots w \<noteq> []"
    using wheel_okD(8) [OF ok that] by (auto simp: wheel_lists_def tdata_def empty_slot_def)
  then have "tw_slots w \<noteq> [] \<Longrightarrow> \<exists>ls. wheel_lists (\<lambda>_. None) (tw_slots (wheel_clear A w)) (tw_wheel_len w) ls" by (auto simp: wheel_clear_def)
  then show "wheel_ok A (wheel_clear A w)" using wheel_okD [OF ok] unfolding wheel_ok_def ar g by (simp add: wheel_clear_def)
qed (simp_all add: wheel_clear_def arena_issued_clear [OF A])

text \<open>The scan for the next slot in use stops at the earliest one.\<close>

lemma wheel_next_due_ok:
  assumes "length (tw_slots w) = tw_wheel_len w" "0 < tw_wheel_len w" "tw_current_tick w + tw_wheel_len w < 2 ^ 64"
    "tw_last_advanced w + tw_wheel_len w * tw_tick_ns w < 2 ^ 64" "n \<le> tw_wheel_len w"
  shows "\<exists>d. wheel_next_due [n..<tw_wheel_len w] w = Some d \<and>
    (\<forall>off. n \<le> off \<and> off < tw_wheel_len w \<and> sl_head (tw_slots w ! ((tw_current_tick w + off) mod tw_wheel_len w)) \<noteq> None \<longrightarrow>
       d \<le> tw_last_advanced w + (off + 1) * tw_tick_ns w)"
  using assms(5)
proof (induction "tw_wheel_len w - n" arbitrary: n)
  case 0
  then show ?case by simp
next
  case (Suc k)
  let ?L = "tw_wheel_len w" let ?c = "tw_current_tick w" let ?t = "tw_tick_ns w" let ?a = "tw_last_advanced w"
  have n: "n < ?L" using Suc by simp
  then have up: "[n..<?L] = n # [n + 1..<?L]" by (simp add: upt_conv_Cons)
  have ix: "u64_add ?c n = ?c + n" "(?c + n) mod ?L < length (tw_slots w)" using assms n by simp_all
  have le: "(n + 1) * ?t \<le> ?L * ?t" using n by (intro mult_right_mono) auto
  have d: "u64_add ?a (u64_mul (n + 1) ?t) = ?a + (n + 1) * ?t" using le assms(4) unfolding u64_mul_def u64_add_def by simp
  show ?case
  proof (cases "sl_head (tw_slots w ! ((?c + n) mod ?L)) = None")
    case True
    have "k = ?L - (n + 1)" using Suc.hyps(2) by linarith
    from Suc.hyps(1) [OF this] n obtain d where d: "wheel_next_due [n + 1..<?L] w = Some d"
      "\<forall>off. n + 1 \<le> off \<and> off < ?L \<and> sl_head (tw_slots w ! ((?c + off) mod ?L)) \<noteq> None \<longrightarrow> d \<le> ?a + (off + 1) * ?t" by auto
    have "wheel_next_due [n..<?L] w = Some d" unfolding up using True d(1) ix by simp
    moreover have "d \<le> ?a + (off + 1) * ?t" if "n \<le> off" "off < ?L" "sl_head (tw_slots w ! ((?c + off) mod ?L)) \<noteq> None" for off
      using d(2) that True by (cases "off = n") auto
    ultimately show ?thesis by blast
  next
    case False
    have "wheel_next_due [n..<?L] w = Some (?a + (n + 1) * ?t)" unfolding up using False ix d by simp
    moreover have "?a + (n + 1) * ?t \<le> ?a + (off + 1) * ?t" if "n \<le> off" for off using that by (intro add_left_mono mult_right_mono) auto
    ultimately show ?thesis by blast
  qed
qed

text \<open>An advance fires exactly the timers that are due.\<close>

definition due_by :: "('a, 'i) timer_arena \<Rightarrow> ('a, 'i) timer_wheel \<Rightarrow> nat \<Rightarrow> 'i set" where
  "due_by A w now = {i. \<exists>h d. armed A w i = Some (h, d) \<and> d \<le> now}"

lemma due_iff:
  assumes "0 < tick"
  shows "t0 + (k + 1) * tick \<le> now \<longleftrightarrow> k < (now - t0) div (tick :: nat)"
proof
  assume "t0 + (k + 1) * tick \<le> now"
  then have "(k + 1) * tick \<le> now - t0" by linarith
  then have "k + 1 \<le> (now - t0) div tick" using assms by (simp add: less_eq_div_iff_mult_less_eq)
  then show "k < (now - t0) div tick" by simp
next
  assume "k < (now - t0) div tick"
  then have "(k + 1) * tick \<le> now - t0" using assms less_eq_div_iff_mult_less_eq [of tick "k + 1" "now - t0"] by simp
  moreover have "0 < (k + 1) * tick" using assms by simp
  ultimately show "t0 + (k + 1) * tick \<le> now" by linarith
qed

lemma wheel_advance_ok:
  assumes A: "arena_laws A" and ok: "wheel_ok A w" and room: "now + tw_wheel_len w * tw_tick_ns w < 2 ^ 64"
  obtains fired w' where "wheel_advance A now w = Some (map (\<lambda>i. fst (the (armed A w i))) fired, w')" "wheel_ok A w'"
    "distinct fired" "set fired = due_by A w now" "armed A w' = armed A w |` (- due_by A w now)"
    "arena_issued A (tw_timers w') = arena_issued A (tw_timers w)" "tw_tick_ns w' = tw_tick_ns w" "tw_wheel_len w' = tw_wheel_len w"
    "tw_last_advanced w' \<le> max (tw_last_advanced w) now"
proof -
  define L c tk t0 where "L = tw_wheel_len w" and "c = tw_current_tick w" and "tk = tw_tick_ns w" and "t0 = tw_last_advanced w"
  note f = L_def [symmetric] c_def [symmetric] tk_def [symmetric] t0_def [symmetric]
  note k = wheel_okD [OF ok, unfolded f]
  define T where "T = (now - t0) div tk"
  let ?d = "tdata (tget A w)"
  have arm: "armed A w i = map_option (\<lambda>(l, h, s). (h, t0 + (ahead L c s + l * L + 1) * tk)) (?d i)" for i by (simp add: armed_def deadline_def f)
  have due: "d \<le> now \<longleftrightarrow> ahead L c s + l * L < T" if "d = t0 + (ahead L c s + l * L + 1) * tk" for d l s
    using due_iff [OF k(2)] unfolding that T_def .
  show thesis
  proof (cases "tw_slots w = [] \<or> T = 0")
    case True
    then have "due_by A w now = {}" using k(6) due by (auto simp: due_by_def arm tdata_def split: option.splits prod.splits)
    moreover have "wheel_advance A now w = Some ([], w)" using True by (auto simp: wheel_advance_def saturating_sub_def T_def f)
    moreover have "- {} = (UNIV :: 'b set)" by simp
    ultimately show thesis using that [of "[]" w] ok by (simp add: restrict_map_def)
  next
    case False
    obtain ls where W: "wheel_lists (tget A w) (tw_slots w) L ls" using k(8) False by (auto simp: f)
    have "T - 1 + 1 = T" using False by simp
    then have Tn: "t0 + T * tk \<le> now" using due_iff [OF k(2), of t0 "T - 1" now] by (simp add: T_def [symmetric] del: add_mult_distrib)
    have cT: "(c + T) * tk \<le> t0 + T * tk" using k(5) by (simp add: add_mult_distrib)
    have "(c + T) * 1 \<le> (c + T) * tk" using k(2) by (intro mult_left_mono) auto
    from order.trans [OF order.trans [OF this cT] Tn] have cn: "c + T \<le> now" by simp
    have "L * 1 \<le> L * tk" using k(2) by (intro mult_left_mono) auto
    note room' = room [unfolded f]
    have Ll: "c + T + L < 2 ^ 64" using order.trans [OF add_mono [OF cn \<open>L * 1 \<le> L * tk\<close>] order.refl] room' by simp
    let ?w0 = "w\<lparr>tw_last_advanced := t0 + T * tk, tw_current_tick := c + T\<rparr>"
    have sub: "set [0..<L] \<subseteq> {..<L}" "distinct [0..<L]" "tw_wheel_len ?w0 = L" by (auto simp: L_def)
    have W0: "wheel_lists (tget A ?w0) (tw_slots ?w0) L ls" using W by simp
    from wheel_sweep_slots_ok [OF A W0 sub refl, of c T "[]"] obtain w1 ls1 where sw:
      "wheel_sweep_slots A c T [0..<L] [] ?w0 = Some (map (hash_at ?d) (concat (map (\<lambda>s. filter (fires ?d (wheel_passes L c T s)) (ls s)) [0..<L])), w1)"
      "wheel_lists (tget A w1) (tw_slots w1) L ls1" "tdata (tget A w1) = visited_slots ?d (wheel_passes L c T) {0..<L}" "same_clock w1 ?w0"
      "arena_issued A (tw_timers w1) = arena_issued A (tw_timers w)"
      by auto
    define fired where "fired = concat (map (\<lambda>s. filter (fires ?d (wheel_passes L c T s)) (ls s)) [0..<L])"
    note sc = same_clockD [OF sw(4), simplified, unfolded f]
    have pas: "l < wheel_passes L c T s \<longleftrightarrow> ahead L c s + l * L < T" if "s < L" for l s
      using passes_iff [of "ahead L c s" L l T] ahead_char [OF k(1) that, of c] by (simp add: wheel_passes_def ahead_def Let_def)
    have fset: "i \<in> set fired \<longleftrightarrow> (\<exists>l h s. ?d i = Some (l, h, s) \<and> ahead L c s + l * L < T)" for i
    proof
      assume "i \<in> set fired"
      then obtain s where s: "s < L" "i \<in> set (ls s)" "fires ?d (wheel_passes L c T s) i" by (auto simp: fired_def)
      with wheel_listsD(4) [OF W s(1,2)] show "\<exists>l h s. ?d i = Some (l, h, s) \<and> ahead L c s + l * L < T" using pas by (auto simp: fires_def)
    next
      assume "\<exists>l h s. ?d i = Some (l, h, s) \<and> ahead L c s + l * L < T"
      then obtain l h s where d: "?d i = Some (l, h, s)" "ahead L c s + l * L < T" by blast
      with wheel_listsD(3) [OF W d(1)] show "i \<in> set fired" using pas by (auto simp: fired_def fires_def)
    qed
    have fdue: "set fired = due_by A w now" unfolding due_by_def using fset due by (auto simp: arm)
    have "distinct (ls s)" if "s < L" for s using wheel_listsD(2) [OF W that] by (simp add: dll_def)
    then have fdist: "distinct fired" unfolding fired_def
      by (intro distinct_concat_slots) (use wheel_lists_disjoint [OF W] in auto)
    have hash: "map (hash_at ?d) fired = map (\<lambda>i. fst (the (armed A w i))) fired" using fset by (auto simp: hash_at_def arm)
    have ar1: "armed A w1 = armed A w |` (- due_by A w now)"
    proof
      fix i
      show "armed A w1 i = (armed A w |` (- due_by A w now)) i"
      proof (cases "?d i")
        case None
        then have "armed A w i = None" by (simp add: arm)
        moreover have "armed A w1 i = None" using None by (simp add: armed_def sw(3) visited_slots_def del: dom_tdata(2))
        ultimately show ?thesis by (simp add: restrict_map_def)
      next
        case (Some x)
        obtain l h s where x: "x = (l, h, s)" by (cases x)
        have s: "s < L" using wheel_listsD(3) [OF W, of i l h s] Some x by simp
        show ?thesis
        proof (cases "l < wheel_passes L c T s")
          case True
          then have "i \<in> due_by A w now" using fset [of i] fdue Some x pas [OF s] by auto
          moreover have "armed A w1 i = None" using True Some x s by (simp add: armed_def sw(3) visited_slots_def del: dom_tdata(2))
          ultimately show ?thesis by simp
        next
          case stay: False
          then have "i \<notin> due_by A w now" using fset [of i] fdue Some x pas [OF s] by auto
          moreover have "armed A w1 i = Some (h, t0 + T * tk + (ahead L (c + T) s + (l - wheel_passes L c T s) * L + 1) * tk)"
            using stay Some x s sc by (simp add: armed_def sw(3) visited_slots_def deadline_def)
          moreover have "T * tk + (ahead L (c + T) s + (l - wheel_passes L c T s) * L + 1) * tk = (ahead L c s + l * L + 1) * tk"
            using arg_cong [OF ahead_advance [OF k(1) s stay], of "\<lambda>x. (x + 1) * tk"] by (simp add: add_mult_distrib)
          ultimately show ?thesis using Some x by (simp add: arm)
        qed
      qed
    qed
    from wheel_next_due_ok [of w1 0] sc wheel_listsD(1) [OF sw(2)] k(1) room' Tn cn Ll obtain n where n:
      "wheel_next_due [0..<L] w1 = Some n"
      "\<And>off. off < L \<Longrightarrow> sl_head (tw_slots w1 ! ((c + T + off) mod L)) \<noteq> None \<Longrightarrow> n \<le> t0 + T * tk + (off + 1) * tk" by auto
    let ?w' = "w1\<lparr>tw_next_due := n\<rparr>"
    have "armed A ?w' = armed A w1" unfolding armed_def [abs_def] by (simp add: deadline_def)
    note ar' = this
    have early: "n \<le> d" if d: "armed A w1 i = Some (h, d)" for i h d
    proof -
      obtain l s where ls: "tdata (tget A w1) i = Some (l, h, s)" "d = t0 + T * tk + (ahead L (c + T) s + l * L + 1) * tk"
        using d sc by (auto simp: armed_def deadline_def)
      have s: "s < L" "i \<in> set (ls1 s)" using wheel_listsD(3) [OF sw(2) ls(1)] by auto
      then have "sl_head (tw_slots w1 ! s) \<noteq> None" using wheel_listsD(2) [OF sw(2) s(1)] by (auto simp: dll_def)
      then have "n \<le> t0 + T * tk + (ahead L (c + T) s + 1) * tk" using n(2) [of "ahead L (c + T) s"] ahead_char [OF k(1) s(1), of "c + T"] by simp
      also have "\<dots> \<le> d" unfolding ls(2) by (intro add_left_mono mult_right_mono) auto
      finally show ?thesis .
    qed
    have ne: "tw_slots w1 \<noteq> []" using wheel_listsD(1) [OF sw(2)] k(1) by auto
    have "wheel_ok A ?w'" unfolding wheel_ok_def using k(1-3) sc cT Tn room' ne sw(2) early ar' by auto
    moreover have "wheel_advance A now w = Some (map (\<lambda>i. fst (the (armed A w i))) fired, ?w')"
    proof -
      have "u64_mul T tk = T * tk" "u64_add t0 (T * tk) = t0 + T * tk" "u64_add c T = c + T" using Tn cn room' by (simp_all add: u64_mul_def)
      then show ?thesis unfolding wheel_advance_def Let_def saturating_sub_def f T_def [symmetric]
        using False k(1) sw(1) n(1) sc hash by (simp add: f fired_def [symmetric])
    qed
    ultimately show thesis using that [of fired ?w'] fdist fdue ar1 ar' sw(5) sc Tn by (simp add: f max_def)
  qed
qed

subsection \<open>The reachable wheels\<close>

text \<open>
  Every state a shard can bring its wheel to. The clock may go anywhere, also backwards; the times only
  stay clear of the end of the 64-bit range, which is 584 years after the epoch of the cache.
\<close>

inductive wheel_reach :: "('a, 'i) timer_arena \<Rightarrow> ('a, 'i) timer_wheel \<Rightarrow> bool" for A where
  wheel_reach_new: "0 < wheel_size \<Longrightarrow> now < 2 ^ 64 \<Longrightarrow> wheel_reach A (wheel_new A wheel_size tick now)"
| wheel_reach_schedule: "wheel_reach A w \<Longrightarrow> now < 2 ^ 64 \<Longrightarrow> expires_at + tw_tick_ns w < 2 ^ 64 \<Longrightarrow>
    wheel_schedule A now key_hash expires_at w = Some (i, w') \<Longrightarrow> wheel_reach A w'"
| wheel_reach_cancel: "wheel_reach A w \<Longrightarrow> wheel_cancel A i w = Some w' \<Longrightarrow> wheel_reach A w'"
| wheel_reach_clear: "wheel_reach A w \<Longrightarrow> wheel_reach A (wheel_clear A w)"
| wheel_reach_advance: "wheel_reach A w \<Longrightarrow> now + tw_wheel_len w * tw_tick_ns w < 2 ^ 64 \<Longrightarrow>
    wheel_advance A now w = Some (expired, w') \<Longrightarrow> wheel_reach A w'"

lemma wheel_new_ok:
  assumes "arena_laws A" "0 < wheel_size" "now < 2 ^ 64"
  shows "wheel_ok A (wheel_new A wheel_size tick now)" "armed A (wheel_new A wheel_size tick now) = (\<lambda>_. None)"
proof -
  have g: "tget A (wheel_new A wheel_size tick now) = (\<lambda>_. None)" using arena_get_new [OF assms(1)] by (simp add: wheel_new_def fun_eq_iff)
  show "armed A (wheel_new A wheel_size tick now) = (\<lambda>_. None)" by (simp add: armed_def g tdata_def fun_eq_iff)
  moreover have "tick mod 2 ^ 64 < 2 ^ 64" by simp
  ultimately show "wheel_ok A (wheel_new A wheel_size tick now)"
    using assms(2,3) unfolding wheel_ok_def g by (simp add: wheel_new_def del: power_strict_increasing_iff)
qed

lemma wheel_reach_ok: "wheel_reach A w \<Longrightarrow> arena_laws A \<Longrightarrow> wheel_ok A w"
proof (induction rule: wheel_reach.induct)
  case (wheel_reach_schedule w now expires_at key_hash i w')
  then show ?case using wheel_schedule_ok [of A w now expires_at key_hash "wheel_ok A w'"] by auto
next
  case (wheel_reach_cancel w i w')
  then show ?case using wheel_cancel_ok [of A w i "wheel_ok A w'"] by auto
next
  case (wheel_reach_advance w now expired w')
  then show ?case using wheel_advance_ok [of A w now "wheel_ok A w'"] by auto
qed (simp_all add: wheel_new_ok wheel_clear_ok)

text \<open>
  (C22) \<^verbatim>\<open>TimerWheel::schedule\<close> on any reachable wheel does not panic, whatever lists it links into: it
  returns a handle that was never issued before, arms exactly that handle, leaves every other timer
  with the deadline it had, and the new deadline is the expiry time rounded up to a tick of the
  wheel: never before \<^verbatim>\<open>expires_at\<close>, and less than one tick after it when it lies ahead of the wheel.
  Cancelling the handle afterwards restores the timers, and clearing the wheel disarms all of them.
\<close>

theorem timer_schedule_arms:
  assumes "arena_laws A" "wheel_reach A w" "now < 2 ^ 64" "expires_at + tw_tick_ns w < 2 ^ 64"
  shows "\<exists>i w' d. wheel_schedule A now key_hash expires_at w = Some (i, w') \<and> i \<notin> arena_issued A (tw_timers w) \<and>
    armed A w' = (armed A w)(i \<mapsto> (key_hash, d)) \<and> expires_at \<le> d \<and> tw_last_advanced w' < d \<and>
    d < max expires_at (tw_last_advanced w' + 1) + tw_tick_ns w \<and>
    (\<exists>w''. wheel_cancel A i w' = Some w'' \<and> armed A w'' = armed A w) \<and> armed A (wheel_clear A w') = (\<lambda>_. None)"
proof -
  note ok = wheel_reach_ok [OF assms(2,1)]
  define t0 where "t0 = (if tw_slots w = [] then now else tw_last_advanced w)"
  define d where "d = rounded_up t0 (tw_tick_ns w) expires_at"
  from wheel_schedule_ok [OF assms(1) ok assms(3,4)] obtain i w' where s: "wheel_schedule A now key_hash expires_at w = Some (i, w')" "wheel_ok A w'"
    "i \<notin> arena_issued A (tw_timers w)" "armed A w' = (armed A w)(i \<mapsto> (key_hash, d))" "tw_last_advanced w' = t0" unfolding d_def t0_def by metis
  obtain w'' where c: "wheel_cancel A i w' = Some w''" "armed A w'' = (armed A w')(i := None)" by (rule wheel_cancel_ok [OF assms(1) s(2)])
  have "tget A w i = None" using s(3) arena_live_issued [OF assms(1)] by metis
  then have "armed A w i = None" by (simp add: armed_def tdata_def)
  then have "armed A w'' = armed A w" unfolding c(2) s(4) by auto
  then have "\<exists>w''. wheel_cancel A i w' = Some w'' \<and> armed A w'' = armed A w" using c(1) by blast
  moreover have "armed A (wheel_clear A w') = (\<lambda>_. None)" by (rule wheel_clear_ok(2) [OF assms(1) s(2)])
  moreover have "expires_at \<le> d \<and> t0 < d \<and> d < max expires_at (t0 + 1) + tw_tick_ns w"
    using rounded_up_bounds [OF wheel_okD(2) [OF ok], where since = t0 and expires_at = expires_at] wheel_okD(2) [OF ok] by (simp add: d_def)
  ultimately show ?thesis using s by (intro exI [of _ i] exI [of _ w'] exI [of _ d]) simp
qed

theorem timer_schedule_arms_witness:
  "\<exists>i w' d. wheel_schedule vec_arena 0 7 15 (wheel_new vec_arena 4 10 0) = Some (i, w') \<and>
    armed vec_arena w' = (armed vec_arena (wheel_new vec_arena 4 10 0))(i \<mapsto> (7, d)) \<and> 15 \<le> d \<and> d < max 15 (tw_last_advanced w' + 1) + 10"
proof -
  have "wheel_reach vec_arena (wheel_new vec_arena 4 10 0)" by (rule wheel_reach_new) simp_all
  moreover have "tw_tick_ns (wheel_new vec_arena 4 10 0) = 10" by (simp add: wheel_new_def)
  ultimately obtain i w' d where h: "wheel_schedule vec_arena 0 7 15 (wheel_new vec_arena 4 10 0) = Some (i, w')"
    "armed vec_arena w' = (armed vec_arena (wheel_new vec_arena 4 10 0))(i \<mapsto> (7, d))" "15 \<le> d" "d < max 15 (tw_last_advanced w' + 1) + 10"
    using timer_schedule_arms [OF vec_arena_laws, of "wheel_new vec_arena 4 10 0" 0 15 7] by auto
  then show ?thesis by blast
qed

text \<open>
  (C5) \<^verbatim>\<open>TimerWheel::advance\<close> on any reachable wheel returns (the \<^verbatim>\<open>expect("linked timer")\<close> and the
  indexing into the arena never fail, and every walk over a slot ends), reports each timer whose deadline has
  passed exactly once, whatever number of ticks and laps it has to catch up, and leaves exactly the
  others armed, with their deadlines unchanged. Afterwards \<^verbatim>\<open>next_due\<close> is not later than any deadline,
  so skipping the shard while the clock is before \<^verbatim>\<open>next_due\<close> misses no timer.
\<close>

theorem timer_advance_fires_due:
  assumes "arena_laws A" "wheel_reach A w" "now + tw_wheel_len w * tw_tick_ns w < 2 ^ 64"
  shows "\<exists>fired w'. wheel_advance A now w = Some (map (\<lambda>i. fst (the (armed A w i))) fired, w') \<and>
    distinct fired \<and> set fired = {i. \<exists>h d. armed A w i = Some (h, d) \<and> d \<le> now} \<and>
    armed A w' = armed A w |` (- set fired) \<and>
    (\<forall>i h d. armed A w' i = Some (h, d) \<longrightarrow> tw_next_due w' \<le> d) \<and> (now < tw_next_due w \<longrightarrow> fired = [] \<and> armed A w' = armed A w)"
proof -
  note ok = wheel_reach_ok [OF assms(2,1)]
  from wheel_advance_ok [OF assms(1) ok assms(3)] obtain fired w' where h:
    "wheel_advance A now w = Some (map (\<lambda>i. fst (the (armed A w i))) fired, w')" "wheel_ok A w'" "distinct fired" "set fired = due_by A w now"
    "armed A w' = armed A w |` (- due_by A w now)" by metis
  have "due_by A w now = {}" if "now < tw_next_due w" using wheel_okD(9) [OF ok] that by (auto simp: due_by_def not_le dest: order.strict_trans2)
  then have "fired = [] \<and> armed A w' = armed A w" if "now < tw_next_due w" using that h(4,5) by (simp add: restrict_map_def)
  with h wheel_okD(9) [OF h(2)] show ?thesis
    by (intro exI [of _ fired] exI [of _ w']) (simp add: due_by_def)
qed

theorem timer_advance_fires_due_witness:
  "\<exists>i w fired w'. wheel_schedule vec_arena 0 7 15 (wheel_new vec_arena 4 10 0) = Some (i, w) \<and>
     wheel_advance vec_arena 20 w = Some (map (\<lambda>i. fst (the (armed vec_arena w i))) fired, w') \<and>
     set fired = {i. \<exists>h d. armed vec_arena w i = Some (h, d) \<and> d \<le> 20} \<and> armed vec_arena w' = armed vec_arena w |` (- set fired)"
proof -
  let ?w0 = "wheel_new vec_arena 4 10 0"
  have r0: "wheel_reach vec_arena ?w0" by (rule wheel_reach_new) simp_all
  have b: "(0 :: nat) < 2 ^ 64" "15 + tw_tick_ns ?w0 < 2 ^ 64" by (simp_all add: wheel_new_def)
  obtain i w where s: "wheel_schedule vec_arena 0 7 15 ?w0 = Some (i, w)" "tw_tick_ns w = tw_tick_ns ?w0" "tw_wheel_len w = tw_wheel_len ?w0"
    using wheel_schedule_ok [OF vec_arena_laws wheel_reach_ok [OF r0 vec_arena_laws] b] by metis
  have r: "wheel_reach vec_arena w" by (rule wheel_reach_schedule [OF r0 b s(1)])
  have "20 + tw_wheel_len w * tw_tick_ns w < 2 ^ 64" using s(2,3) by (simp add: wheel_new_def)
  from timer_advance_fires_due [OF vec_arena_laws r this] s(1) show ?thesis by blast
qed

text \<open>
  The doc comment of \<^verbatim>\<open>schedule\<close> promises the first advance at or after \<^verbatim>\<open>expires_at\<close>. With ticks of 10
  a timer for time 15 does not fire at 15 but at 20.
\<close>

definition late_timer :: "nat \<Rightarrow> 64 word list option" where
  "late_timer now = do { (_, w) \<leftarrow> wheel_schedule vec_arena 0 7 15 (wheel_new vec_arena 4 10 0); map_option fst (wheel_advance vec_arena now w) }"

lemmas wheel_eval = wheel_schedule_def wheel_new_def wheel_start_def Let_def slot_update_def timer_update_def empty_slot_def div_ceil_def saturating_sub_def
  vec_get_def wheel_advance_def wheel_passes_def wheel_sweep.simps [of _ _ _ None] wheel_sweep.simps [of _ _ _ "Some _"] wheel_unlink_def u64_add_def u64_mul_def u64_saturating_add_def u64_max_def

lemma replicate_four: "replicate 4 a = [a, a, a, a]"
  by (simp add: eval_nat_numeral)

lemma upt_four: "[0..<4] = [0, 1, 2, 3]"
  by (simp add: upt_rec)

theorem timer_fires_after_expires_at: "late_timer 15 = Some []" "late_timer 20 = Some [7]"
  by (simp_all add: late_timer_def wheel_eval replicate_four upt_four)

end
