(* ===== verification/Read_Log.thy ===== *)
theory Read_Log
  imports Ring_Index
begin

section \<open>The read log\<close>

text \<open>
  \<^verbatim>\<open>cache/src/task/read_log.rs\<close>: the bounded log of reads that a shard has not handed to a key-based
  policy yet. Producers push under the read lock of the shard, so pushes interleave with each other
  at the granularity of their atomic operations; \<^verbatim>\<open>drain\<close> runs under the write lock and overlaps with
  nothing. Positions are 64-bit words that wrap. The atomics are interleaved as sequentially
  consistent steps; an uninitialised slot is \<^term>\<open>None\<close>.
\<close>

definition log_slots :: nat where
  "log_slots = 256"

record 'x log_slot =
  ls_seq :: "64 word"
  ls_val :: "'x option"

record 'x read_log =
  rl_slots :: "'x log_slot list"
  rl_tail :: "64 word"
  rl_head :: "64 word"

definition log_new :: "'x read_log" where
  "log_new = \<lparr>rl_slots = map (\<lambda>i. \<lparr>ls_seq = of_nat i, ls_val = None\<rparr>) [0..<log_slots], rl_tail = 0, rl_head = 0\<rparr>"

definition slot_of :: "64 word \<Rightarrow> nat" where
  "slot_of pos = unat (and pos (of_nat log_slots - 1))"

text \<open>
  Where a push stands between two of its atomic operations: before the load of the sequence number
  of its slot, before the compare-and-exchange, after it (the position is claimed, the slot not yet
  written), after the write of the slot, returned.
\<close>

datatype push_pc = Looping "64 word" | Checked "64 word" | Claimed "64 word" | Written "64 word" | Returned bool

definition set_slot :: "nat \<Rightarrow> ('x log_slot \<Rightarrow> 'x log_slot) \<Rightarrow> 'x read_log \<Rightarrow> 'x read_log" where
  "set_slot i f l = l\<lparr>rl_slots := (rl_slots l)[i := f (rl_slots l ! i)]\<rparr>"

definition push_start :: "'x read_log \<Rightarrow> push_pc" where
  "push_start l = Looping (rl_tail l)"

fun push_step :: "'x \<Rightarrow> push_pc \<Rightarrow> 'x read_log \<Rightarrow> (push_pc \<times> 'x read_log) option" where
  "push_step x (Looping pos) l =
     do { slot \<leftarrow> vec_get (rl_slots l) (slot_of pos);
          let diff = sint (ls_seq slot - pos);
          Some (if diff = 0 then (Checked pos, l) else if diff < 0 then (Returned False, l) else (Looping (rl_tail l), l)) }"
| "push_step x (Checked pos) l = Some (if rl_tail l = pos then (Claimed pos, l\<lparr>rl_tail := pos + 1\<rparr>) else (Looping (rl_tail l), l))"
| "push_step x (Claimed pos) l = do { _ \<leftarrow> vec_get (rl_slots l) (slot_of pos); Some (Written pos, set_slot (slot_of pos) (\<lambda>s. s\<lparr>ls_val := Some x\<rparr>) l) }"
| "push_step x (Written pos) l = do { _ \<leftarrow> vec_get (rl_slots l) (slot_of pos); Some (Returned True, set_slot (slot_of pos) (\<lambda>s. s\<lparr>ls_seq := pos + 1\<rparr>) l) }"
| "push_step x (Returned b) l = None"

text \<open>
  \<^verbatim>\<open>drain\<close> hands every logged read to its callback; the model returns them in order. Reading a slot
  that was never written is undefined behaviour, here \<^term>\<open>None\<close>. It runs until a slot is not
  published, so it is a partial function.
\<close>

partial_function (option) drain_from :: "64 word \<Rightarrow> 'x list \<Rightarrow> 'x read_log \<Rightarrow> ('x list \<times> 'x read_log) option" where
  "drain_from pos out l =
     do { slot \<leftarrow> vec_get (rl_slots l) (slot_of pos);
          (if ls_seq slot \<noteq> pos + 1 then Some (out, l\<lparr>rl_head := pos\<rparr>)
           else do { x \<leftarrow> ls_val slot;
                     drain_from (pos + 1) (out @ [x]) (set_slot (slot_of pos) (\<lambda>s. \<lparr>ls_seq = pos + of_nat log_slots, ls_val = None\<rparr>) l) }) }"

definition log_drain :: "'x read_log \<Rightarrow> ('x list \<times> 'x read_log) option" where
  "log_drain l = drain_from (rl_head l) [] l"

subsection \<open>Positions\<close>

lemma slot_of_nat: "slot_of (of_nat p) = p mod 256"
  using mask_pos [of 8 p] by (simp add: slot_of_def log_slots_def)

lemma diff_pos: "n < 2 ^ 63 \<Longrightarrow> sint (of_nat (p + n) - of_nat p :: 64 word) = int n"
proof -
  assume n: "n < 2 ^ 63"
  have "of_nat (p + n) - of_nat p = (word_of_int (int n) :: 64 word)" by simp
  then show ?thesis using n by (simp only: sint_sbintrunc') (simp add: signed_take_bit_int_eq_self)
qed

lemma diff_neg: "n < 2 ^ 63 \<Longrightarrow> sint (of_nat p - of_nat (p + n) :: 64 word) = - int n"
proof -
  assume n: "n < 2 ^ 63"
  have "of_nat p - of_nat (p + n) = (word_of_int (- int n) :: 64 word)" by simp
  then show ?thesis using n by (simp only: sint_sbintrunc') (simp add: signed_take_bit_int_eq_self)
qed

subsection \<open>Interleaved pushes\<close>

text \<open>
  The producers of one phase between two drains. A thread may start a push at any time, and any
  thread that has not returned may take its next step.
\<close>

type_synonym ('n, 'x) producers = "'n \<rightharpoonup> 'x \<times> push_pc"

inductive pushes :: "('n, 'x) producers \<times> 'x read_log \<Rightarrow> ('n, 'x) producers \<times> 'x read_log \<Rightarrow> bool" where
  pushes_spawn: "th t = None \<Longrightarrow> pushes (th, l) (th(t \<mapsto> (x, push_start l)), l)"
| pushes_step: "th t = Some (x, pc) \<Longrightarrow> push_step x pc l = Some (pc', l') \<Longrightarrow> pushes (th, l) (th(t \<mapsto> (x, pc')), l')"

fun claims :: "push_pc \<Rightarrow> bool" where
  "claims (Claimed p) = True" | "claims (Written p) = True" | "claims (Returned b) = b" | "claims _ = False"

definition seq_at :: "'x read_log \<Rightarrow> nat \<Rightarrow> 64 word" where
  "seq_at l q = ls_seq (rl_slots l ! (q mod 256))"

definition val_at :: "'x read_log \<Rightarrow> nat \<Rightarrow> 'x option" where
  "val_at l q = ls_val (rl_slots l ! (q mod 256))"

text \<open>What the slot of a claimed position holds, by the progress of its owner.\<close>

fun owned :: "'x read_log \<Rightarrow> nat \<Rightarrow> 'x \<times> push_pc \<Rightarrow> bool" where
  "owned l q (x, Claimed p) \<longleftrightarrow> p = of_nat q \<and> seq_at l q = of_nat q"
| "owned l q (x, Written p) \<longleftrightarrow> p = of_nat q \<and> seq_at l q = of_nat q \<and> val_at l q = Some x"
| "owned l q (x, Returned b) \<longleftrightarrow> b \<and> seq_at l q = of_nat (q + 1) \<and> val_at l q = Some x"
| "owned l q _ \<longleftrightarrow> False"

fun searching :: "nat \<Rightarrow> nat \<Rightarrow> push_pc \<Rightarrow> bool" where
  "searching H T (Looping p) \<longleftrightarrow> (\<exists>q. p = of_nat q \<and> H \<le> q \<and> q \<le> T)"
| "searching H T (Checked p) \<longleftrightarrow> (\<exists>q. p = of_nat q \<and> H \<le> q \<and> q \<le> T \<and> q < H + 256)"
| "searching H T (Returned b) \<longleftrightarrow> b \<or> T = H + 256"
| "searching H T _ \<longleftrightarrow> True"

definition push_inv :: "nat \<Rightarrow> 'x list \<Rightarrow> 'n list \<Rightarrow> ('n, 'x) producers \<Rightarrow> 'x read_log \<Rightarrow> bool" where
  "push_inv H xs ts th l \<longleftrightarrow>
     length (rl_slots l) = 256 \<and> rl_head l = of_nat H \<and> rl_tail l = of_nat (H + length xs + length ts) \<and> length xs + length ts \<le> 256 \<and>
     distinct ts \<and> (\<forall>t. t \<in> set ts \<longleftrightarrow> (\<exists>x pc. th t = Some (x, pc) \<and> claims pc)) \<and>
     (\<forall>j < length xs. seq_at l (H + j) = of_nat (H + j + 1) \<and> val_at l (H + j) = Some (xs ! j)) \<and>
     (\<forall>j < length ts. owned l (H + length xs + j) (the (th (ts ! j)))) \<and>
     (\<forall>q. H + length xs + length ts \<le> q \<and> q < H + 256 \<longrightarrow> seq_at l q = of_nat q) \<and>
     (\<forall>t x pc. th t = Some (x, pc) \<longrightarrow> searching H (H + length xs + length ts) pc)"

lemma push_invD:
  assumes "push_inv H xs ts th l"
  shows "length (rl_slots l) = 256" "rl_head l = of_nat H" "rl_tail l = of_nat (H + length xs + length ts)" "length xs + length ts \<le> 256"
    "distinct ts" "t \<in> set ts \<longleftrightarrow> (\<exists>x pc. th t = Some (x, pc) \<and> claims pc)"
    "j < length xs \<Longrightarrow> seq_at l (H + j) = of_nat (H + j + 1)" "j < length xs \<Longrightarrow> val_at l (H + j) = Some (xs ! j)"
    "j < length ts \<Longrightarrow> owned l (H + length xs + j) (the (th (ts ! j)))"
    "H + length xs + length ts \<le> q \<Longrightarrow> q < H + 256 \<Longrightarrow> seq_at l q = of_nat q"
    "th t = Some (x, pc) \<Longrightarrow> searching H (H + length xs + length ts) pc"
  using assms unfolding push_inv_def by blast+

lemma ownedD: "owned l q o' \<Longrightarrow> seq_at l q = of_nat q \<or> seq_at l q = of_nat (q + 1)"
  by (cases "(l, q, o')" rule: owned.cases) auto

lemma push_inv_seq:
  assumes I: "push_inv H xs ts th l" and q: "H \<le> q" "q < H + 256" 
  shows "seq_at l q = of_nat q \<or> seq_at l q = of_nat (q + 1)"
proof -
  consider "q < H + length xs" | "H + length xs \<le> q" "q < H + length xs + length ts" | "H + length xs + length ts \<le> q" by linarith
  then show ?thesis
  proof cases
    case 1
    then show ?thesis using push_invD(7) [OF I, of "q - H"] q by simp
  next
    case 2
    then show ?thesis using ownedD [OF push_invD(9) [OF I, of "q - (H + length xs)"]] by simp
  qed (use push_invD(10) [OF I, of q] q in simp)
qed

text \<open>Writing the slot of one position leaves the slots of the other positions alone.\<close>

lemma at_set_slot:
  assumes "length (rl_slots l) = 256"
  shows "seq_at (set_slot (p mod 256) f l) q = (if q mod 256 = p mod 256 then ls_seq (f (rl_slots l ! (p mod 256))) else seq_at l q)"
    "val_at (set_slot (p mod 256) f l) q = (if q mod 256 = p mod 256 then ls_val (f (rl_slots l ! (p mod 256))) else val_at l q)"
  using assms by (simp_all add: seq_at_def val_at_def set_slot_def nth_list_update)

lemma set_slot_simps [simp]: "length (rl_slots (set_slot i f l)) = length (rl_slots l)" "rl_head (set_slot i f l) = rl_head l" "rl_tail (set_slot i f l) = rl_tail l"
  by (simp_all add: set_slot_def)

lemma owned_cong: "seq_at l' q = seq_at l q \<Longrightarrow> val_at l' q = val_at l q \<Longrightarrow> owned l' q o' = owned l q o'"
  by (cases "(l, q, o')" rule: owned.cases) auto

text \<open>A step that neither claims nor releases a position.\<close>

lemma push_inv_quiet:
  assumes I: "push_inv H xs ts th l" and t: "th t = None \<or> (\<exists>pc0. th t = Some (x, pc0) \<and> \<not> claims pc0)" and pc: "\<not> claims pc"
    and s: "searching H (H + length xs + length ts) pc"
  shows "push_inv H xs ts (th(t \<mapsto> (x, pc))) l"
proof -
  have out: "t \<notin> set ts" using push_invD(6) [OF I, of t] t by auto
  then have "ts ! j \<noteq> t" if "j < length ts" for j using that by (metis nth_mem)
  with I t pc s out show ?thesis unfolding push_inv_def by (auto split: if_splits)
qed

text \<open>The owner of a claimed position moves on and writes to its slot only.\<close>

lemma push_inv_own:
  assumes I: "push_inv H xs ts th l" and t: "th t = Some (x, pc0)" "claims pc0" and pc: "claims pc"
    and j: "j < length ts" "ts ! j = t" "q = H + length xs + j"
    and o': "owned (set_slot (q mod 256) f l) q (x, pc)"
  shows "push_inv H xs ts (th(t \<mapsto> (x, pc))) (set_slot (q mod 256) f l)"
proof -
  let ?l = "set_slot (q mod 256) f l" let ?th = "th(t \<mapsto> (x, pc))"
  have q: "H \<le> q" "q < H + 256" using j push_invD(4) [OF I] by auto
  have keep: "seq_at ?l r = seq_at l r" "val_at ?l r = val_at l r" if "H \<le> r" "r < H + 256" "r \<noteq> q" for r
    using at_set_slot [OF push_invD(1) [OF I], of q f r] ring_same [OF q that(1,2)] that(3) by simp_all
  have "owned ?l (H + length xs + i) (the (?th (ts ! i)))" if i: "i < length ts" for i
  proof (cases "i = j")
    case False
    then have "ts ! i \<noteq> t" using push_invD(5) [OF I] i j by (metis nth_eq_iff_index_eq)
    moreover have "H + length xs + i < H + 256" using i push_invD(4) [OF I] by simp
    ultimately show ?thesis using owned_cong [OF keep] push_invD(9) [OF I i] False j by simp
  qed (use j o' in simp)
  moreover have "searching H (H + length xs + length ts) pc" using pc by (cases pc) auto
  moreover have "s \<in> set ts \<longleftrightarrow> (\<exists>x pc. ?th s = Some (x, pc) \<and> claims pc)" for s using push_invD(6) [OF I, of s] t pc by auto
  moreover have "H + i < H + 256" "H + i \<noteq> q" if "i < length xs" for i using that push_invD(4) [OF I] j by auto
  moreover have "seq_at ?l r = of_nat r" if "H + length xs + length ts \<le> r" "r < H + 256" for r using push_invD(10) [OF I that] keep(1) [of r] that j by simp
  ultimately show ?thesis using push_invD [OF I] keep unfolding push_inv_def by (auto split: if_splits)
qed

lemma push_inv_step:
  assumes I: "push_inv H xs ts th l" and st: "pushes (th, l) (th', l')"
  shows "\<exists>ts'. push_inv H xs ts' th' l'"
  using st
proof (cases rule: pushes.cases)
  case (pushes_spawn t x)
  have "searching H (H + length xs + length ts) (Looping (rl_tail l))" unfolding searching.simps using push_invD(3) [OF I] by (intro exI [of _ "H + length xs + length ts"]) simp
  from push_inv_quiet [OF I _ _ this, of t x] show ?thesis using pushes_spawn by (auto simp: push_start_def simp del: searching.simps)
next
  case (pushes_step t x pc pc')
  let ?T = "H + length xs + length ts"
  have tl: "searching H ?T (Looping (rl_tail l))" unfolding searching.simps using push_invD(3) [OF I] by (intro exI [of _ ?T]) simp
  have quiet: "\<not> claims pc \<Longrightarrow> \<not> claims p \<Longrightarrow> searching H ?T p \<Longrightarrow> \<exists>ts'. push_inv H xs ts' (th(t \<mapsto> (x, p))) l" for p
    using push_inv_quiet [OF I, of t x p] pushes_step(2) by blast
  have len: "slot_of p < length (rl_slots l)" if "p = of_nat q" for p q using push_invD(1) [OF I] by (simp add: that slot_of_nat)
  have S: "searching H ?T pc" by (rule push_invD(11) [OF I pushes_step(2)])
  have own: "\<exists>j. j < length ts \<and> ts ! j = t \<and> owned l (H + length xs + j) (x, pc)" if "claims pc"
  proof -
    have "t \<in> set ts" using push_invD(6) [OF I] pushes_step(2) that by blast
    then obtain j where "j < length ts" "ts ! j = t" by (auto simp: in_set_conv_nth)
    with push_invD(9) [OF I] pushes_step(2) show ?thesis by force
  qed
  show ?thesis
  proof (cases pc)
    case (Looping pos)
    then obtain q where q: "pos = of_nat q" "H \<le> q" "q \<le> ?T" using S by auto
    have seq: "ls_seq (rl_slots l ! slot_of pos) = seq_at l q" by (simp add: q(1) slot_of_nat seq_at_def)
    have full: "q = H + 256" if "\<not> q < H + 256" using that q push_invD(4) [OF I] by simp
    have "sint (seq_at l q - of_nat q) < 0 \<and> ?T = H + 256" if "\<not> q < H + 256"
    proof -
      have e: "q = H + 256" by (rule full [OF that])
      then have "seq_at l q = seq_at l H" by (simp add: seq_at_def)
      then have "seq_at l q = of_nat H \<or> seq_at l q = of_nat (H + 1)" using push_inv_seq [OF I, of H] by simp
      then have "sint (seq_at l q - of_nat q) = - 256 \<or> sint (seq_at l q - of_nat q) = - 255"
      proof
        assume "seq_at l q = of_nat H"
        then show ?thesis using diff_neg [of 256 H] e by (simp del: of_nat_add)
      next
        assume "seq_at l q = of_nat (H + 1)"
        moreover have "q = (H + 1) + 255" using e by simp
        ultimately show ?thesis using diff_neg [of 255 "H + 1"] by (simp only:) simp
      qed
      then show ?thesis using e q(3) push_invD(4) [OF I] by auto
    qed
    moreover have "sint (seq_at l q - of_nat q) = 0 \<or> sint (seq_at l q - of_nat q) = 1" if "q < H + 256"
      using push_inv_seq [OF I q(2) that] diff_pos [of 0 q] diff_pos [of 1 q] by (auto simp del: of_nat_add)
    ultimately consider "pc' = Checked pos" "q < H + 256" "l' = l" | "pc' = Returned False" "?T = H + 256" "l' = l" | "pc' = Looping (rl_tail l)" "l' = l"
      using pushes_step(3) Looping len [OF q(1)] seq q(1) by (fastforce simp: Let_def split: if_splits)
    then show ?thesis
    proof cases
      case 1
      then have "searching H ?T pc'" using q by auto
      then show ?thesis using quiet [of pc'] 1 Looping pushes_step(1) by simp
    qed (use quiet [of pc'] tl Looping pushes_step(1) in simp_all)
  next
    case (Checked pos)
    then obtain q where q: "pos = of_nat q" "H \<le> q" "q \<le> ?T" "q < H + 256" using S by auto
    show ?thesis
    proof (cases "rl_tail l = pos")
      case False
      then show ?thesis using quiet [OF _ _ tl] Checked pushes_step(1,3) by auto
    next
      case True
      have "?T - q < 2 ^ 64" using q(2,3) push_invD(4) [OF I] by simp
      then have e: "q = ?T" using near_eq [of q ?T] True push_invD(3) [OF I] q by simp
      have c: "pc' = Claimed pos" "l' = l\<lparr>rl_tail := pos + 1\<rparr>" using pushes_step(3) Checked True by simp_all
      have at: "seq_at l' = seq_at l" "val_at l' = val_at l" by (simp_all add: c seq_at_def val_at_def fun_eq_iff)
      have nt: "t \<notin> set ts" using push_invD(6) [OF I, of t] pushes_step(2) Checked by auto
      have own': "owned l' (H + length xs + j) (the ((th(t \<mapsto> (x, pc'))) ((ts @ [t]) ! j)))" if "j < length (ts @ [t])" for j
      proof (cases "j = length ts")
        case True
        then show ?thesis using c e q(1,4) push_invD(10) [OF I, of ?T] at by simp
      next
        case False
        then have j: "j < length ts" using that by simp
        then have "ts ! j \<noteq> t" using nt by (metis nth_mem)
        then show ?thesis using j push_invD(9) [OF I j] owned_cong [of l' _ l] at by (simp add: nth_append)
      qed
      have "push_inv H xs (ts @ [t]) (th(t \<mapsto> (x, pc'))) l'" unfolding push_inv_def
      proof (intro conjI)
        show "length (rl_slots l') = 256" "rl_head l' = of_nat H" "rl_tail l' = of_nat (H + length xs + length (ts @ [t]))"
          using push_invD(1-3) [OF I] q(1) e c by (simp_all add: ac_simps)
        show "length xs + length (ts @ [t]) \<le> 256" using q(4) e by simp
        show "distinct (ts @ [t])" using push_invD(5) [OF I] nt by simp
        show "\<forall>s. s \<in> set (ts @ [t]) \<longleftrightarrow> (\<exists>y pc. (th(t \<mapsto> (x, pc'))) s = Some (y, pc) \<and> claims pc)" using push_invD(6) [OF I] c(1) nt by auto
        show "\<forall>j<length xs. seq_at l' (H + j) = of_nat (H + j + 1) \<and> val_at l' (H + j) = Some (xs ! j)" using push_invD(7,8) [OF I] at by simp
        show "\<forall>j<length (ts @ [t]). owned l' (H + length xs + j) (the ((th(t \<mapsto> (x, pc'))) ((ts @ [t]) ! j)))" using own' by blast
        show "\<forall>q. H + length xs + length (ts @ [t]) \<le> q \<and> q < H + 256 \<longrightarrow> seq_at l' q = of_nat q" using push_invD(10) [OF I] at by simp
        show "\<forall>s y pc. (th(t \<mapsto> (x, pc'))) s = Some (y, pc) \<longrightarrow> searching H (H + length xs + length (ts @ [t])) pc"
        proof (intro allI impI)
          fix s y pc
          assume "(th(t \<mapsto> (x, pc'))) s = Some (y, pc)"
          then have "searching H ?T pc \<or> pc = Claimed pos" using push_invD(11) [OF I, of s y pc] c(1) by (auto split: if_splits)
          moreover have "?T < H + 256" using e q(4) by simp
          ultimately show "searching H (H + length xs + length (ts @ [t])) pc" by (cases pc) (auto intro: le_SucI)
        qed
      qed
      then show ?thesis using pushes_step(1) by auto
    qed
  next
    case (Claimed pos)
    with own obtain j where j: "j < length ts" "ts ! j = t" "owned l (H + length xs + j) (x, pc)" by auto
    let ?q = "H + length xs + j"
    have p: "pos = of_nat ?q" using j(3) Claimed by simp
    let ?f = "\<lambda>s. s\<lparr>ls_val := Some x\<rparr>"
    have c: "pc' = Written pos" "l' = set_slot (?q mod 256) ?f l" using pushes_step(3) Claimed len [OF p] by (auto simp: p slot_of_nat simp del: of_nat_add)
    have "owned l' ?q (x, pc')" using j(3) Claimed at_set_slot [OF push_invD(1) [OF I], of ?q ?f ?q] unfolding c by (simp add: seq_at_def)
    then have "push_inv H xs ts (th(t \<mapsto> (x, pc'))) l'" using push_inv_own [OF I pushes_step(2) _ _ j(1,2) refl, of pc' ?f] Claimed c by simp
    then show ?thesis using pushes_step(1) by auto
  next
    case (Written pos)
    with own obtain j where j: "j < length ts" "ts ! j = t" "owned l (H + length xs + j) (x, pc)" by auto
    let ?q = "H + length xs + j"
    have p: "pos = of_nat ?q" using j(3) Written by simp
    let ?f = "\<lambda>s. s\<lparr>ls_seq := pos + 1\<rparr>"
    have c: "pc' = Returned True" "l' = set_slot (?q mod 256) ?f l" using pushes_step(3) Written len [OF p] by (auto simp: p slot_of_nat simp del: of_nat_add)
    have "owned l' ?q (x, pc')" using j(3) Written at_set_slot [OF push_invD(1) [OF I], of ?q ?f ?q] unfolding c by (simp add: val_at_def ac_simps)
    then have "push_inv H xs ts (th(t \<mapsto> (x, pc'))) l'" using push_inv_own [OF I pushes_step(2) _ _ j(1,2) refl, of pc' ?f] Written c by simp
    then show ?thesis using pushes_step(1) by auto
  qed (use pushes_step(3) in simp)
qed

subsection \<open>Draining\<close>

text \<open>\<open>logged H xs l\<close>: no push is under way, the reads \<open>xs\<close> are in the log, the oldest at position \<open>H\<close>.\<close>

definition logged :: "nat \<Rightarrow> 'x list \<Rightarrow> 'x read_log \<Rightarrow> bool" where
  "logged H xs l \<longleftrightarrow> length (rl_slots l) = 256 \<and> rl_tail l = of_nat (H + length xs) \<and> length xs \<le> 256 \<and>
     (\<forall>j < length xs. seq_at l (H + j) = of_nat (H + j + 1) \<and> val_at l (H + j) = Some (xs ! j)) \<and>
     (\<forall>q. H + length xs \<le> q \<and> q < H + 256 \<longrightarrow> seq_at l q = of_nat q)"

lemma logged_push_inv: "logged H xs l \<Longrightarrow> rl_head l = of_nat H \<Longrightarrow> push_inv H xs [] Map.empty l"
  by (simp add: logged_def push_inv_def)

lemma push_inv_logged:
  assumes I: "push_inv H xs ts th l" and all: "\<And>t x pc. th t = Some (x, pc) \<Longrightarrow> \<exists>b. pc = Returned b"
  shows "logged H (xs @ map (\<lambda>t. fst (the (th t))) ts) l"
proof -
  let ?ys = "map (\<lambda>t. fst (the (th t))) ts"
  have pub: "seq_at l (H + j) = of_nat (H + j + 1) \<and> val_at l (H + j) = Some ((xs @ ?ys) ! j)" if j: "j < length (xs @ ?ys)" for j
  proof (cases "j < length xs")
    case True
    then show ?thesis using push_invD(7,8) [OF I True] by (simp add: nth_append)
  next
    case False
    define i where "i = j - length xs"
    have i: "i < length ts" "H + j = H + length xs + i" "j = length xs + i" using j False by (simp_all add: i_def)
    have "ts ! i \<in> set ts" using i(1) by simp
    then obtain x pc where x: "th (ts ! i) = Some (x, pc)" using push_invD(6) [OF I] by blast
    then have "owned l (H + j) (x, pc)" using push_invD(9) [OF I i(1)] i(2) by (simp add: add.assoc)
    moreover obtain b where "pc = Returned b" using all [OF x] by blast
    ultimately show ?thesis using x i by (simp add: nth_append)
  qed
  then show ?thesis using push_invD(1,3,4,10) [OF I] unfolding logged_def by simp
qed

lemma drain_from_logged:
  assumes "logged H xs l" "pos = of_nat H"
  shows "\<exists>l'. drain_from pos out l = Some (out @ xs, l') \<and> logged (H + length xs) [] l' \<and> rl_head l' = of_nat (H + length xs)"
  using assms
proof (induction xs arbitrary: H l out pos)
  case Nil
  have len: "length (rl_slots l) = 256" using Nil.prems(1) by (simp add: logged_def)
  have "seq_at l H = of_nat H" using Nil.prems(1) by (simp add: logged_def)
  moreover have "(of_nat H :: 64 word) \<noteq> of_nat H + 1" by simp
  ultimately have "drain_from pos out l = Some (out, l\<lparr>rl_head := pos\<rparr>)"
    using len Nil.prems(2) by (subst drain_from.simps) (simp add: slot_of_nat seq_at_def)
  then show ?case using Nil.prems by (simp add: logged_def seq_at_def)
next
  case (Cons x xs)
  have len: "length (rl_slots l) = 256" and k: "length (x # xs) \<le> 256" using Cons.prems(1) by (auto simp: logged_def)
  have hd: "seq_at l H = of_nat (H + 1)" "val_at l H = Some x" using Cons.prems(1) by (force simp: logged_def)+
  let ?f = "\<lambda>s. \<lparr>ls_seq = pos + of_nat log_slots, ls_val = None\<rparr>"
  let ?l = "set_slot (H mod 256) ?f l"
  have keep: "seq_at ?l q = seq_at l q" "val_at ?l q = val_at l q" if "H < q" "q < H + 256" for q
    using at_set_slot [OF len, of H ?f q] ring_same [of H H 256 q] that by simp_all
  have new: "seq_at ?l (H + 256) = of_nat (H + 256)"
    using at_set_slot(1) [OF len, of H ?f "H + 256"] Cons.prems(2) by (simp add: log_slots_def)
  have "logged (H + 1) xs ?l" unfolding logged_def
  proof (intro conjI allI impI)
    show "length (rl_slots ?l) = 256" "rl_tail ?l = of_nat (H + 1 + length xs)" "length xs \<le> 256" using Cons.prems(1) by (simp_all add: logged_def)
    fix j assume j: "j < length xs"
    then have "seq_at l (H + Suc j) = of_nat (H + Suc j + 1) \<and> val_at l (H + Suc j) = Some ((x # xs) ! Suc j)"
      using Cons.prems(1) unfolding logged_def by (metis Suc_less_eq length_Cons)
    then show "seq_at ?l (H + 1 + j) = of_nat (H + 1 + j + 1)" "val_at ?l (H + 1 + j) = Some (xs ! j)"
      using keep [of "H + Suc j"] j k by (simp_all add: ac_simps)
  next
    fix q assume q: "H + 1 + length xs \<le> q \<and> q < H + 1 + 256"
    show "seq_at ?l q = of_nat q"
    proof (cases "q = H + 256")
      case False
      then have "seq_at l q = of_nat q" using q Cons.prems(1) by (simp add: logged_def)
      then show ?thesis using keep(1) [of q] q False by simp
    qed (use new in simp)
  qed
  from Cons.IH [OF this, of "pos + 1" "out @ [x]"] Cons.prems(2) obtain l' where
    l': "drain_from (pos + 1) (out @ [x]) ?l = Some (out @ x # xs, l')" "logged (H + length (x # xs)) [] l'" "rl_head l' = of_nat (H + length (x # xs))"
    by (auto simp: ac_simps)
  have "drain_from pos out l = drain_from (pos + 1) (out @ [x]) ?l"
    using len hd Cons.prems(2) by (subst drain_from.simps) (simp add: slot_of_nat seq_at_def val_at_def ac_simps)
  with l' show ?case by simp
qed

lemma log_new_logged: "logged 0 [] log_new" "rl_head log_new = of_nat 0"
  by (auto simp: logged_def log_new_def log_slots_def seq_at_def)

text \<open>The states of a log between two phases: after any number of phases of interleaved pushes, each closed by a drain.\<close>

inductive log_reach :: "'x read_log \<Rightarrow> bool" where
  log_reach_new: "log_reach log_new"
| log_reach_phase: "log_reach l \<Longrightarrow> pushes\<^sup>*\<^sup>* (Map.empty :: nat \<rightharpoonup> 'x \<times> push_pc, l) (th, l1) \<Longrightarrow>
    \<forall>t x pc. th t = Some (x, pc) \<longrightarrow> (\<exists>b. pc = Returned b) \<Longrightarrow> log_drain l1 = Some (out, l') \<Longrightarrow> log_reach l'"

lemma pushes_inv:
  assumes "pushes\<^sup>*\<^sup>* (th, l) (th', l')" "push_inv H xs ts th l"
  shows "\<exists>ts'. push_inv H xs ts' th' l'"
  using assms
proof (induction "(th', l')" arbitrary: th' l' rule: rtranclp_induct)
  case (step c)
  then show ?case using push_inv_step by (cases c) blast
qed blast

lemma phase_drained:
  assumes l: "logged H [] l" "rl_head l = of_nat H" and p: "pushes\<^sup>*\<^sup>* (Map.empty, l) (th, l1)"
    and all: "\<forall>t x pc. th t = Some (x, pc) \<longrightarrow> (\<exists>b. pc = Returned b)"
  obtains ts l' where "log_drain l1 = Some (map (\<lambda>t. fst (the (th t))) ts, l')" "distinct ts" "set ts = {t. \<exists>x. th t = Some (x, Returned True)}"
    "logged (H + length ts) [] l'" "rl_head l' = of_nat (H + length ts)" "(\<exists>t x. th t = Some (x, Returned False)) \<longrightarrow> length ts = 256"
proof -
  from pushes_inv [OF p logged_push_inv [OF l]] obtain ts where I: "push_inv H [] ts th l1" by blast
  have L: "logged H (map (\<lambda>t. fst (the (th t))) ts) l1" using push_inv_logged [OF I] all by simp
  from drain_from_logged [OF L push_invD(2) [OF I], of "[]"] obtain l' where
    "log_drain l1 = Some (map (\<lambda>t. fst (the (th t))) ts, l')" "logged (H + length ts) [] l'" "rl_head l' = of_nat (H + length ts)" by (auto simp: log_drain_def)
  moreover have "set ts = {t. \<exists>x. th t = Some (x, Returned True)}"
  proof -
    have "t \<in> set ts \<longleftrightarrow> (\<exists>x. th t = Some (x, Returned True))" for t using push_invD(6) [OF I, of t] all by fastforce
    then show ?thesis by blast
  qed
  moreover have "length ts = 256" if "th t = Some (x, Returned False)" for t x using push_invD(11) [OF I that] by simp
  ultimately show thesis using that push_invD(5) [OF I] by blast
qed

lemma log_reach_logged: "log_reach l \<Longrightarrow> \<exists>H. logged H [] l \<and> rl_head l = of_nat H"
proof (induction rule: log_reach.induct)
  case log_reach_new
  show ?case using log_new_logged by blast
next
  case (log_reach_phase l th l1 out l')
  then obtain H where H: "logged H [] l" "rl_head l = of_nat H" by blast
  from phase_drained [OF H log_reach_phase.hyps(2,3)] log_reach_phase.hyps(4) show ?case by (metis option.inject prod.inject)
qed

text \<open>
  (C15) The read log hands every read on exactly once. From any state the log can be in, let any number of
  producers push concurrently, interleaved in any way and with positions that may have wrapped
  around. Once all of them have returned, \<^verbatim>\<open>drain\<close> ends, never reads an uninitialised slot, and hands to
  the policy exactly the reads whose push returned \<^verbatim>\<open>true\<close>, each once, in the order in which they claimed
  their positions; a push returned \<^verbatim>\<open>false\<close> only if the log was full. The log is then empty again.
\<close>

theorem read_log_drains_pushes:
  fixes th :: "nat \<rightharpoonup> 'x \<times> push_pc"
  assumes "log_reach l" "pushes\<^sup>*\<^sup>* (Map.empty, l) (th, l1)" "\<forall>t x pc. th t = Some (x, pc) \<longrightarrow> (\<exists>b. pc = Returned b)"
  shows "\<exists>ts l'. log_drain l1 = Some (map (\<lambda>t. fst (the (th t))) ts, l') \<and> distinct ts \<and>
    set ts = {t. \<exists>x. th t = Some (x, Returned True)} \<and> ((\<exists>t x. th t = Some (x, Returned False)) \<longrightarrow> length ts = 256) \<and>
    log_reach l' \<and> log_drain l' = Some ([], l')"
proof -
  from log_reach_logged [OF assms(1)] obtain H where H: "logged H [] l" "rl_head l = of_nat H" by blast
  obtain ts l' where d: "log_drain l1 = Some (map (\<lambda>t. fst (the (th t))) ts, l')" "distinct ts"
    "set ts = {t. \<exists>x. th t = Some (x, Returned True)}" "logged (H + length ts) [] l'" "rl_head l' = of_nat (H + length ts)"
    "(\<exists>t x. th t = Some (x, Returned False)) \<longrightarrow> length ts = 256"
    by (rule phase_drained [OF H assms(2,3)])
  have "log_reach l'" by (rule log_reach_phase [OF assms d(1)])
  moreover have "log_drain l' = Some ([], l')"
  proof -
    have "length (rl_slots l') = 256" "seq_at l' (H + length ts) = of_nat (H + length ts)" using d(4) by (simp_all add: logged_def)
    moreover have "(of_nat (H + length ts) :: 64 word) \<noteq> of_nat (H + length ts) + 1" by simp
    moreover have "l'\<lparr>rl_head := of_nat (H + length ts)\<rparr> = l'" using d(5) by simp
    ultimately show ?thesis unfolding log_drain_def d(5) by (subst drain_from.simps) (simp add: slot_of_nat seq_at_def del: of_nat_add)
  qed
  ultimately show ?thesis using d by (intro exI [of _ ts] exI [of _ l']) blast
qed

theorem read_log_drains_pushes_witness:
  "\<exists>l1 l'. pushes\<^sup>*\<^sup>* (Map.empty :: nat \<rightharpoonup> char \<times> push_pc, log_new) ([3 \<mapsto> (CHR ''k'', Returned True)], l1) \<and> log_drain l1 = Some ([CHR ''k''], l')"
proof -
  let ?x = "CHR ''k''" and ?e = "Map.empty :: nat \<rightharpoonup> char \<times> push_pc"
  let ?l1 = "log_new\<lparr>rl_tail := 0 + 1\<rparr>"
  define l2 where "l2 = set_slot (slot_of 0) (\<lambda>s. s\<lparr>ls_val := Some ?x\<rparr>) ?l1"
  define l3 where "l3 = set_slot (slot_of 0) (\<lambda>s. s\<lparr>ls_seq := 0 + 1\<rparr>) l2"
  have s0: "slot_of 0 = 0" by (simp add: slot_of_def)
  have n: "rl_slots log_new ! 0 = \<lparr>ls_seq = 0, ls_val = None\<rparr>" "length (rl_slots log_new) = 256" by (simp_all add: log_new_def log_slots_def)
  let ?th = "\<lambda>pc. ?e(3 \<mapsto> (?x, pc))"
  have go: "pushes (?th pc, l) (?th pc', l')" if "push_step ?x pc l = Some (pc', l')" for pc pc' l l'
    using pushes_step [of "?th pc" 3 ?x pc l pc' l'] that by simp
  have "pushes (?e, log_new) (?th (Looping 0), log_new)" using pushes_spawn [of ?e 3 log_new ?x] by (simp add: push_start_def log_new_def)
  moreover have "pushes (?th (Looping 0), log_new) (?th (Checked 0), log_new)" by (rule go) (simp add: s0 n vec_get_def)
  moreover have "pushes (?th (Checked 0), log_new) (?th (Claimed 0), ?l1)" by (rule go) (simp add: log_new_def)
  moreover have "pushes (?th (Claimed 0), ?l1) (?th (Written 0), l2)" by (rule go) (simp add: s0 n vec_get_def l2_def)
  moreover have "pushes (?th (Written 0), l2) (?th (Returned True), l3)" by (rule go) (simp add: s0 n vec_get_def l2_def l3_def)
  ultimately have r: "pushes\<^sup>*\<^sup>* (?e, log_new) (?th (Returned True), l3)" by (meson r_into_rtranclp rtranclp_trans)
  have all: "\<forall>t x pc. ?th (Returned True) t = Some (x, pc) \<longrightarrow> (\<exists>b. pc = Returned b)" by auto
  have set3: "{t. \<exists>x. ?th (Returned True) t = Some (x, Returned True)} = {3}" by auto
  from read_log_drains_pushes [OF log_reach_new r all, unfolded set3] obtain ts l' where
    d: "log_drain l3 = Some (map (\<lambda>t. fst (the (?th (Returned True) t))) ts, l')" "distinct ts" "set ts = {3}" by blast
  then have "length ts = 1" using distinct_card [of ts] by simp
  with d(3) have "ts = [3]" by (cases ts) auto
  with d(1) have "log_drain l3 = Some ([?x], l')" by simp
  with r show ?thesis by blast
qed

end
