(* ===== verification/Shard_Map.thy ===== *)
theory Shard_Map
  imports Hash_Table Timer_Wheel Read_Log Hpolicy Policy
begin

section \<open>Entries and the clock\<close>

text \<open>
  \<^verbatim>\<open>cache/src/entry.rs\<close>, \<^verbatim>\<open>cache/src/time.rs\<close> and \<^verbatim>\<open>cache/src/store.rs\<close>. Times are nanoseconds since the epoch of the cache; the
  precise clock is an argument \<open>now\<close> of the operations that read it. A duration is a number of
  nanoseconds, cut to 64 bits where the code casts it. The relaxed atomics of an entry are read and
  written by one operation at a time, under the lock of the shard.
\<close>

record ('v, 'i) cache_entry =
  ce_value :: 'v
  ce_cost :: nat
  ce_expires_at :: nat
  ce_last_accessed :: nat
  ce_node :: nat
  ce_key_hash :: "64 word"
  ce_timer :: "'i option"

definition as_u64 :: "nat \<Rightarrow> nat" where
  "as_u64 n = n mod 2 ^ 64"

definition entry_new :: "nat \<Rightarrow> 'v \<Rightarrow> nat \<Rightarrow> nat option \<Rightarrow> nat option \<Rightarrow> ('v, 'i) cache_entry" where
  "entry_new clock value cost ttl tti =
     (let now = (if ttl \<noteq> None \<or> tti \<noteq> None then as_u64 clock else 0);
          expires_at = (case ttl of None \<Rightarrow> 0 | Some d \<Rightarrow> u64_add now (as_u64 d));
          last_accessed = (case tti of None \<Rightarrow> 0 | Some _ \<Rightarrow> now)
      in \<lparr>ce_value = value, ce_cost = cost, ce_expires_at = expires_at, ce_last_accessed = last_accessed, ce_node = no_node, ce_key_hash = 0, ce_timer = None\<rparr>)"

definition entry_new_with_custom_expiry :: "nat \<Rightarrow> 'v \<Rightarrow> nat \<Rightarrow> nat \<Rightarrow> nat option \<Rightarrow> ('v, 'i) cache_entry" where
  "entry_new_with_custom_expiry clock value cost expires_at tti =
     \<lparr>ce_value = value, ce_cost = cost, ce_expires_at = expires_at, ce_last_accessed = (case tti of None \<Rightarrow> 0 | Some _ \<Rightarrow> as_u64 clock),
      ce_node = no_node, ce_key_hash = 0, ce_timer = None\<rparr>"

definition entry_new_with_expiry :: "nat \<Rightarrow> 'v \<Rightarrow> nat \<Rightarrow> nat option \<Rightarrow> nat option \<Rightarrow> ('v, 'i) cache_entry" where
  "entry_new_with_expiry clock value cost expires_at tti =
     \<lparr>ce_value = value, ce_cost = cost, ce_expires_at = (case expires_at of None \<Rightarrow> 0 | Some d \<Rightarrow> as_u64 d),
      ce_last_accessed = (case tti of None \<Rightarrow> 0 | Some _ \<Rightarrow> as_u64 clock), ce_node = no_node, ce_key_hash = 0, ce_timer = None\<rparr>"

definition entry_new_with_cost :: "'v \<Rightarrow> nat \<Rightarrow> ('v, 'i) cache_entry" where
  "entry_new_with_cost value cost =
     \<lparr>ce_value = value, ce_cost = cost, ce_expires_at = 0, ce_last_accessed = 0, ce_node = no_node, ce_key_hash = 0, ce_timer = None\<rparr>"

definition is_expired_at :: "nat option \<Rightarrow> nat \<Rightarrow> nat \<Rightarrow> ('v, 'i) cache_entry \<Rightarrow> bool" where
  "is_expired_at tti expires_at now_nanos e =
     (if expires_at > 0 \<and> now_nanos \<ge> expires_at then True
      else case tti of None \<Rightarrow> False | Some time_to_idle \<Rightarrow> now_nanos \<ge> u64_add (ce_last_accessed e) (as_u64 time_to_idle))"

definition is_expired :: "nat \<Rightarrow> nat option \<Rightarrow> ('v, 'i) cache_entry \<Rightarrow> bool" where
  "is_expired clock tti e = (if ce_expires_at e = 0 \<and> tti = None then False else is_expired_at tti (ce_expires_at e) (as_u64 clock) e)"

text \<open>The coarse clock falls back to the precise clock until its first refresh.\<close>

record coarse_clock =
  cc_nanos :: nat

definition coarse_refresh :: "nat \<Rightarrow> coarse_clock \<Rightarrow> coarse_clock" where
  "coarse_refresh clock c = c\<lparr>cc_nanos := as_u64 clock\<rparr>"

definition coarse_now :: "nat \<Rightarrow> coarse_clock \<Rightarrow> nat" where
  "coarse_now clock c = (if cc_nanos c = 0 then as_u64 clock else cc_nanos c)"

definition is_expired_coarse :: "nat \<Rightarrow> nat option \<Rightarrow> coarse_clock \<Rightarrow> ('v, 'i) cache_entry \<Rightarrow> bool" where
  "is_expired_coarse clock tti c e = (if ce_expires_at e = 0 \<and> tti = None then False else is_expired_at tti (ce_expires_at e) (coarse_now clock c) e)"

definition update_last_accessed :: "nat \<Rightarrow> ('v, 'i) cache_entry \<Rightarrow> ('v, 'i) cache_entry" where
  "update_last_accessed clock e = e\<lparr>ce_last_accessed := as_u64 clock\<rparr>"

definition update_last_accessed_coarse :: "nat \<Rightarrow> coarse_clock \<Rightarrow> ('v, 'i) cache_entry \<Rightarrow> ('v, 'i) cache_entry" where
  "update_last_accessed_coarse clock c e = e\<lparr>ce_last_accessed := coarse_now clock c\<rparr>"

section \<open>The shard map\<close>

record shard_counters =
  sc_inserts :: nat
  sc_keys_admitted :: nat
  sc_total_cost_added :: nat
  sc_evicted_by_capacity :: nat
  sc_cost_delta :: nat

definition counters_new :: shard_counters where
  "counters_new = \<lparr>sc_inserts = 0, sc_keys_admitted = 0, sc_total_cost_added = 0, sc_evicted_by_capacity = 0, sc_cost_delta = 0\<rparr>"

datatype expired_by_limit = Ttl | Tti

definition is_idle :: "('v, 'i) cache_entry \<Rightarrow> nat \<Rightarrow> nat \<Rightarrow> bool" where
  "is_idle e now tti_ns \<longleftrightarrow> tti_ns > 0 \<and> now \<ge> u64_saturating_add (ce_last_accessed e) tti_ns"

definition expired_by :: "('v, 'i) cache_entry \<Rightarrow> nat \<Rightarrow> nat \<Rightarrow> nat \<Rightarrow> expired_by_limit option" where
  "expired_by e now grace_ns tti_ns =
     (if ce_expires_at e > 0 \<and> now \<ge> u64_saturating_add (ce_expires_at e) grace_ns then Some Ttl
      else if is_idle e now tti_ns then Some (if ce_expires_at e > 0 \<and> now \<ge> ce_expires_at e then Ttl else Tti)
      else None)"

text \<open>
  What does not change in the life of a shard: the table, the hasher and the arena (parameters), the
  operations of the key-based policy, and the context. A notification is recorded in the log
  \<open>sm_notified\<close> in place of the call of the user's function.
\<close>

record ('t, 'b, 'k, 'v, 'a, 'i, 's) shard_env =
  se_table :: "('t, 'b, 'k \<times> ('v, 'i) cache_entry) table_ops"
  se_hasher :: "'k \<Rightarrow> 64 word"
  se_arena :: "('a, 'i) timer_arena"
  se_policy :: "('k, 's) policy"
  se_notify :: bool
  se_grace_ns :: nat
  se_tti_ns :: nat

record ('t, 'k, 'v, 'a, 'i, 's) shard_map =
  sm_table :: 't
  sm_cost :: nat
  sm_budget :: nat
  sm_policy :: 's
  sm_reads :: "('k \<times> nat) read_log"
  sm_builtin :: "builtin option"
  sm_ring :: read_ring
  sm_victims :: "victim list"
  sm_local :: shard_counters
  sm_wheel :: "('a, 'i) timer_wheel"
  sm_notified :: "('k \<times> 'v) list"

type_synonym ('t, 'b, 'k, 'v, 'a, 'i, 's, 'r) shard_op =
  "('t, 'b, 'k, 'v, 'a, 'i, 's) shard_env \<Rightarrow> ('t, 'k, 'v, 'a, 'i, 's) shard_map \<Rightarrow> ('r \<times> ('t, 'k, 'v, 'a, 'i, 's) shard_map) option"

definition sm_find :: "('t, 'b, 'k, 'v, 'a, 'i, 's) shard_env \<Rightarrow> 'k \<Rightarrow> ('t, 'k, 'v, 'a, 'i, 's) shard_map \<Rightarrow> 'b option" where
  "sm_find E k m = tb_find (se_table E) (sm_table m) (se_hasher E k) (\<lambda>(kk, _). kk = k)"

definition sm_get :: "'k \<Rightarrow> ('t, 'b, 'k, 'v, 'a, 'i, 's) shard_env \<Rightarrow> ('t, 'k, 'v, 'a, 'i, 's) shard_map \<Rightarrow> ('v, 'i) cache_entry option" where
  "sm_get k E m = (case sm_find E k m of None \<Rightarrow> None | Some b \<Rightarrow> map_option snd (tb_get (se_table E) (sm_table m) b))"

definition disarm :: "('v, 'i) cache_entry \<Rightarrow> ('t, 'b, 'k, 'v, 'a, 'i, 's, unit) shard_op" where
  "disarm e E m = (case ce_timer e of None \<Rightarrow> Some ((), m)
     | Some h \<Rightarrow> do { w \<leftarrow> wheel_cancel (se_arena E) h (sm_wheel m); Some ((), m\<lparr>sm_wheel := w\<rparr>) })"

definition arm :: "nat \<Rightarrow> 64 word \<Rightarrow> ('v, 'i) cache_entry \<Rightarrow> ('t, 'b, 'k, 'v, 'a, 'i, 's, ('v, 'i) cache_entry) shard_op" where
  "arm now hash e E m =
     (let e = e\<lparr>ce_key_hash := hash\<rparr>
      in if ce_expires_at e > 0
         then do { (h, w) \<leftarrow> wheel_schedule (se_arena E) now hash (u64_saturating_add (ce_expires_at e) (se_grace_ns E)) (sm_wheel m);
                   Some (e\<lparr>ce_timer := Some h\<rparr>, m\<lparr>sm_wheel := w\<rparr>) }
         else Some (e, m))"

text \<open>Removing a found element and cancelling its timer, as \<^verbatim>\<open>take\<close> and \<^verbatim>\<open>take_victim\<close> do.\<close>

definition take_found :: "'b option \<Rightarrow> ('t, 'b, 'k, 'v, 'a, 'i, 's, ('k \<times> ('v, 'i) cache_entry) option) shard_op" where
  "take_found found E m = (case found of None \<Rightarrow> Some (None, m)
     | Some b \<Rightarrow> do { (key, e) \<leftarrow> tb_get (se_table E) (sm_table m) b;
                      (_, m) \<leftarrow> disarm e E (m\<lparr>sm_table := tb_remove (se_table E) (sm_table m) b\<rparr>);
                      Some (Some (key, e), m) })"

definition sm_take :: "'k \<Rightarrow> ('t, 'b, 'k, 'v, 'a, 'i, 's, ('k \<times> ('v, 'i) cache_entry) option) shard_op" where
  "sm_take k E m = take_found (sm_find E k m) E m"

definition take_victim :: "victim \<Rightarrow> ('t, 'b, 'k, 'v, 'a, 'i, 's, ('k \<times> ('v, 'i) cache_entry) option) shard_op" where
  "take_victim = (\<lambda>(hash, node) E m. take_found (tb_find (se_table E) (sm_table m) hash (\<lambda>(_, e). ce_node e = node)) E m)"

fun access_all :: "('k, 's) policy \<Rightarrow> ('k \<times> nat) list \<Rightarrow> 's \<Rightarrow> 's option" where
  "access_all P [] s = Some s"
| "access_all P ((k, c) # reads) s = do { s \<leftarrow> pol_on_access P k c s; access_all P reads s }"

definition apply_reads :: "('t, 'b, 'k, 'v, 'a, 'i, 's, unit) shard_op" where
  "apply_reads E m =
     (case sm_builtin m of
        Some b \<Rightarrow> do { (ring, b) \<leftarrow> builtin_apply_reads (sm_ring m) b; Some ((), m\<lparr>sm_ring := ring, sm_builtin := Some b\<rparr>) }
      | None \<Rightarrow> do { (reads, log) \<leftarrow> log_drain (sm_reads m); s \<leftarrow> access_all (se_policy E) reads (sm_policy m);
                     Some ((), m\<lparr>sm_reads := log, sm_policy := s\<rparr>) })"

definition forget :: "'k \<Rightarrow> ('v, 'i) cache_entry \<Rightarrow> ('t, 'b, 'k, 'v, 'a, 'i, 's, unit) shard_op" where
  "forget key e E m =
     (case sm_builtin m of
        Some b \<Rightarrow> do { b \<leftarrow> builtin_remove (ce_node e) b; Some ((), m\<lparr>sm_builtin := Some b\<rparr>) }
      | None \<Rightarrow> do { s \<leftarrow> pol_on_remove (se_policy E) key (sm_policy m); Some ((), m\<lparr>sm_policy := s\<rparr>) })"

datatype 'k deferred_read = DKey 'k nat | DNode nat

definition apply_deferred :: "'k deferred_read \<Rightarrow> ('t, 'b, 'k, 'v, 'a, 'i, 's, unit) shard_op" where
  "apply_deferred read E m =
     do { (_, m) \<leftarrow> apply_reads E m;
          (case read of
             DKey k c \<Rightarrow> do { s \<leftarrow> pol_on_access (se_policy E) k c (sm_policy m); Some ((), m\<lparr>sm_policy := s\<rparr>) }
           | DNode n \<Rightarrow> (case sm_builtin m of None \<Rightarrow> Some ((), m)
                          | Some b \<Rightarrow> do { b \<leftarrow> builtin_apply_read n b; Some ((), m\<lparr>sm_builtin := Some b\<rparr>) })) }"

definition touch_read :: "nat \<Rightarrow> ('t, 'b, 'k, 'v, 'a, 'i, 's, unit) shard_op" where
  "touch_read node E m = (case sm_builtin m of None \<Rightarrow> Some ((), m)
     | Some b \<Rightarrow> do { b \<leftarrow> builtin_touch node b; Some ((), m\<lparr>sm_builtin := Some b\<rparr>) })"

definition account_eviction :: "'k \<Rightarrow> ('v, 'i) cache_entry \<Rightarrow> ('t, 'b, 'k, 'v, 'a, 'i, 's) shard_env \<Rightarrow> ('t, 'k, 'v, 'a, 'i, 's) shard_map \<Rightarrow> ('t, 'k, 'v, 'a, 'i, 's) shard_map" where
  "account_eviction k e E m =
     m\<lparr>sm_cost := u64_sub (sm_cost m) (ce_cost e), sm_notified := (if se_notify E then sm_notified m @ [(k, ce_value e)] else sm_notified m)\<rparr>"

fun evict_victims :: "victim list \<Rightarrow> nat \<Rightarrow> ('t, 'b, 'k, 'v, 'a, 'i, 's, nat) shard_op" where
  "evict_victims [] n_evicted E m = Some (n_evicted, m)"
| "evict_victims (v # vs) n_evicted E m =
     do { (r, m) \<leftarrow> take_victim v E m;
          (case r of None \<Rightarrow> evict_victims vs n_evicted E m
           | Some (k, e) \<Rightarrow> evict_victims vs (n_evicted + 1) E (account_eviction k e E m)) }"

definition count_evicted :: "nat \<Rightarrow> ('t, 'k, 'v, 'a, 'i, 's) shard_map \<Rightarrow> ('t, 'k, 'v, 'a, 'i, 's) shard_map" where
  "count_evicted n_evicted m =
     (if n_evicted > 0 then m\<lparr>sm_local := (sm_local m)\<lparr>sc_evicted_by_capacity := u64_add (sc_evicted_by_capacity (sm_local m)) n_evicted\<rparr>\<rparr> else m)"

definition insert_builtin :: "'k \<Rightarrow> ('v, 'i) cache_entry \<Rightarrow> 64 word \<Rightarrow> ('t, 'b, 'k, 'v, 'a, 'i, 's, ('v, 'i) cache_entry option) shard_op" where
  "insert_builtin key entry hash E m =
     do { b \<leftarrow> sm_builtin m;
          let cost = ce_cost entry;
          (ring, b) \<leftarrow> builtin_apply_reads (sm_ring m) b;
          let m = m\<lparr>sm_ring := ring\<rparr>;
          (old, victims, m) \<leftarrow>
            (case tb_find (se_table E) (sm_table m) hash (\<lambda>(k, _). k = key) of
               Some bk \<Rightarrow> do { (k, slot) \<leftarrow> tb_get (se_table E) (sm_table m) bk;
                               b \<leftarrow> builtin_update (ce_node slot) cost b;
                               Some (Some slot, sm_victims m,
                                     m\<lparr>sm_builtin := Some b, sm_table := tb_set (se_table E) (sm_table m) bk (k, entry\<lparr>ce_node := ce_node slot\<rparr>)\<rparr>) }
             | None \<Rightarrow> do { (node, victims, b) \<leftarrow> builtin_admit hash cost (sm_victims m) b;
                            Some (None, victims,
                                  m\<lparr>sm_builtin := Some b, sm_table := tb_insert (se_table E) (sm_table m) hash (key, entry\<lparr>ce_node := node\<rparr>)\<rparr>) });
          let m = (case old of None \<Rightarrow> m | Some o' \<Rightarrow> m\<lparr>sm_cost := u64_sub (sm_cost m) (ce_cost o')\<rparr>);
          let m = m\<lparr>sm_cost := u64_add (sm_cost m) cost\<rparr>;
          (n_evicted, m) \<leftarrow> evict_victims victims 0 E m;
          (n_evicted, m) \<leftarrow>
            (if sm_cost m > sm_budget m
             then do { b \<leftarrow> sm_builtin m;
                       (victims, b) \<leftarrow> builtin_evict (sm_cost m - sm_budget m) [] b;
                       evict_victims victims n_evicted E (m\<lparr>sm_builtin := Some b\<rparr>) }
             else Some (n_evicted, m));
          Some (old, count_evicted n_evicted (m\<lparr>sm_victims := []\<rparr>)) }"

definition sm_put :: "'k \<Rightarrow> ('v, 'i) cache_entry \<Rightarrow> 64 word \<Rightarrow> ('t, 'b, 'k, 'v, 'a, 'i, 's, ('v, 'i) cache_entry option) shard_op" where
  "sm_put key entry hash E m =
     (case tb_find (se_table E) (sm_table m) hash (\<lambda>(k, _). k = key) of
        Some bk \<Rightarrow> do { (k, old) \<leftarrow> tb_get (se_table E) (sm_table m) bk; Some (Some old, m\<lparr>sm_table := tb_set (se_table E) (sm_table m) bk (k, entry)\<rparr>) }
      | None \<Rightarrow> Some (None, m\<lparr>sm_table := tb_insert (se_table E) (sm_table m) hash (key, entry)\<rparr>))"

fun evict_admission_victims :: "'k list \<Rightarrow> nat \<Rightarrow> ('t, 'b, 'k, 'v, 'a, 'i, 's, nat) shard_op" where
  "evict_admission_victims [] n_evicted E m = Some (n_evicted, m)"
| "evict_admission_victims (v # vs) n_evicted E m =
     do { (r, m) \<leftarrow> sm_take v E m;
          (case r of None \<Rightarrow> evict_admission_victims vs n_evicted E m
           | Some (k, e) \<Rightarrow> do { s \<leftarrow> pol_on_remove (se_policy E) v (sm_policy m);
                                 evict_admission_victims vs (n_evicted + 1) E (account_eviction k e E (m\<lparr>sm_policy := s\<rparr>)) }) }"

fun evict_keys :: "'k list \<Rightarrow> nat \<Rightarrow> ('t, 'b, 'k, 'v, 'a, 'i, 's, nat) shard_op" where
  "evict_keys [] n_evicted E m = Some (n_evicted, m)"
| "evict_keys (v # vs) n_evicted E m =
     do { (r, m) \<leftarrow> sm_take v E m;
          (case r of None \<Rightarrow> evict_keys vs n_evicted E m
           | Some (k, e) \<Rightarrow> evict_keys vs (n_evicted + 1) E (account_eviction k e E m)) }"

definition insert_policy :: "'k \<Rightarrow> ('v, 'i) cache_entry \<Rightarrow> 64 word \<Rightarrow> ('t, 'b, 'k, 'v, 'a, 'i, 's, ('v, 'i) cache_entry option) shard_op" where
  "insert_policy key entry hash E m =
     do { let cost = ce_cost entry;
          (_, m) \<leftarrow> apply_reads E m;
          (decision, s) \<leftarrow> pol_on_admit (se_policy E) key cost (sm_policy m);
          (old, m) \<leftarrow> sm_put key entry hash E (m\<lparr>sm_policy := s\<rparr>);
          let m = (case old of None \<Rightarrow> m | Some o' \<Rightarrow> m\<lparr>sm_cost := u64_sub (sm_cost m) (ce_cost o')\<rparr>);
          let m = m\<lparr>sm_cost := u64_add (sm_cost m) cost\<rparr>;
          (n_evicted, m) \<leftarrow> (case decision of AdmitAndEvict victims \<Rightarrow> evict_admission_victims victims 0 E m | _ \<Rightarrow> Some (0, m));
          (n_evicted, m) \<leftarrow>
            (if sm_cost m > sm_budget m
             then do { ((victims, _), s) \<leftarrow> pol_evict (se_policy E) (sm_cost m - sm_budget m) (sm_policy m);
                       evict_keys victims n_evicted E (m\<lparr>sm_policy := s\<rparr>) }
             else Some (n_evicted, m));
          Some (old, count_evicted n_evicted m) }"

definition insert_inner :: "nat \<Rightarrow> 'k \<Rightarrow> ('v, 'i) cache_entry \<Rightarrow> 64 word \<Rightarrow> bool \<Rightarrow> ('t, 'b, 'k, 'v, 'a, 'i, 's, ('v, 'i) cache_entry option) shard_op" where
  "insert_inner now key entry hash counted E m =
     do { let before = sm_cost m;
          let cost = ce_cost entry;
          (entry, m) \<leftarrow> arm now hash entry E m;
          (old, m) \<leftarrow> (if sm_builtin m \<noteq> None then insert_builtin key entry hash E m else insert_policy key entry hash E m);
          (_, m) \<leftarrow> (case old of None \<Rightarrow> Some ((), m) | Some o' \<Rightarrow> disarm o' E m);
          let c = sm_local m;
          let c = (if counted then c\<lparr>sc_inserts := u64_add (sc_inserts c) 1, sc_keys_admitted := u64_add (sc_keys_admitted c) 1,
                                   sc_total_cost_added := u64_add (sc_total_cost_added c) cost\<rparr> else c);
          let c = c\<lparr>sc_cost_delta := u64_add (sc_cost_delta c) (u64_sub (sm_cost m) before)\<rparr>;
          Some (old, m\<lparr>sm_local := c\<rparr>) }"

definition sm_insert :: "nat \<Rightarrow> 'k \<Rightarrow> ('v, 'i) cache_entry \<Rightarrow> ('t, 'b, 'k, 'v, 'a, 'i, 's, ('v, 'i) cache_entry option) shard_op" where
  "sm_insert now key entry E m = insert_inner now key entry (se_hasher E key) True E m"

definition remove_entry :: "'k \<Rightarrow> ('t, 'b, 'k, 'v, 'a, 'i, 's, ('k \<times> ('v, 'i) cache_entry) option) shard_op" where
  "remove_entry k E m =
     do { (_, m) \<leftarrow> apply_reads E m;
          (r, m) \<leftarrow> sm_take k E m;
          (case r of None \<Rightarrow> Some (None, m)
           | Some (key, e) \<Rightarrow> do { (_, m) \<leftarrow> forget key e E (m\<lparr>sm_cost := u64_sub (sm_cost m) (ce_cost e)\<rparr>); Some (Some (key, e), m) }) }"

definition sm_clear :: "('t, 'b, 'k, 'v, 'a, 'i, 's, unit) shard_op" where
  "sm_clear E m =
     (let m = m\<lparr>sm_table := tb_clear (se_table E) (sm_table m), sm_wheel := wheel_clear (se_arena E) (sm_wheel m),
               sm_local := (sm_local m)\<lparr>sc_cost_delta := u64_add (sc_cost_delta (sm_local m)) (u64_sub 0 (sm_cost m))\<rparr>, sm_cost := 0\<rparr>
      in Some ((), case sm_builtin m of Some b \<Rightarrow> m\<lparr>sm_builtin := Some (builtin_clear b)\<rparr> | None \<Rightarrow> m\<lparr>sm_policy := pol_clear (se_policy E) (sm_policy m)\<rparr>))"

text \<open>The loop of \<^verbatim>\<open>remove_expired\<close> runs until no entry under the hash is past a limit.\<close>

partial_function (option) remove_expired ::
  "64 word \<Rightarrow> nat \<Rightarrow> ('k \<times> ('v, 'i) cache_entry \<times> expired_by_limit) list \<Rightarrow> ('t, 'b, 'k, 'v, 'a, 'i, 's) shard_env \<Rightarrow> ('t, 'k, 'v, 'a, 'i, 's) shard_map \<Rightarrow>
   (('k \<times> ('v, 'i) cache_entry \<times> expired_by_limit) list \<times> ('t, 'k, 'v, 'a, 'i, 's) shard_map) option" where
  "remove_expired hash now out E m =
     (case tb_find (se_table E) (sm_table m) hash (\<lambda>(_, e). ce_key_hash e = hash \<and> expired_by e now (se_grace_ns E) (se_tti_ns E) \<noteq> None) of
        None \<Rightarrow> Some (out, m)
      | Some b \<Rightarrow> do { (key, e) \<leftarrow> tb_get (se_table E) (sm_table m) b;
                       by' \<leftarrow> expired_by e now (se_grace_ns E) (se_tti_ns E);
                       let m = m\<lparr>sm_table := tb_remove (se_table E) (sm_table m) b, sm_cost := u64_sub (sm_cost m) (ce_cost e)\<rparr>;
                       (_, m) \<leftarrow> disarm e E m;
                       (_, m) \<leftarrow> forget key e E m;
                       remove_expired hash now (out @ [(key, e, by')]) E m })"

text \<open>A timer that fired before its entry expired is armed again.\<close>

definition rearm :: "nat \<Rightarrow> 64 word \<Rightarrow> ('t, 'b, 'k, 'v, 'a, 'i, 's, unit) shard_op" where
  "rearm now hash E m =
     (case tb_find (se_table E) (sm_table m) hash
             (\<lambda>(_, e). ce_key_hash e = hash \<and> (case ce_timer e of None \<Rightarrow> False | Some h \<Rightarrow> \<not> wheel_is_armed (se_arena E) h (sm_wheel m))) of
        None \<Rightarrow> Some ((), m)
      | Some b \<Rightarrow> do { (key, e) \<leftarrow> tb_get (se_table E) (sm_table m) b;
                       (h, w) \<leftarrow> wheel_schedule (se_arena E) now hash (u64_saturating_add (ce_expires_at e) (se_grace_ns E)) (sm_wheel m);
                       Some ((), m\<lparr>sm_wheel := w, sm_table := tb_set (se_table E) (sm_table m) b (key, e\<lparr>ce_timer := Some h\<rparr>)\<rparr>) })"

fun expire_fired :: "nat \<Rightarrow> nat \<Rightarrow> 64 word list \<Rightarrow> ('k \<times> ('v, 'i) cache_entry \<times> expired_by_limit) list \<Rightarrow>
    ('t, 'b, 'k, 'v, 'a, 'i, 's, ('k \<times> ('v, 'i) cache_entry \<times> expired_by_limit) list) shard_op" where
  "expire_fired clock now [] out E m = Some (out, m)"
| "expire_fired clock now (hash # fired) out E m =
     do { (out, m) \<leftarrow> remove_expired hash now out E m;
          (_, m) \<leftarrow> rearm clock hash E m;
          expire_fired clock now fired out E m }"

definition expire_due :: "nat \<Rightarrow> nat \<Rightarrow> ('t, 'b, 'k, 'v, 'a, 'i, 's, ('k \<times> ('v, 'i) cache_entry \<times> expired_by_limit) list) shard_op" where
  "expire_due clock now E m =
     do { (fired, w) \<leftarrow> wheel_advance (se_arena E) now (sm_wheel m);
          let m = m\<lparr>sm_wheel := w\<rparr>;
          (if fired = [] then Some ([], m)
           else do { (_, m) \<leftarrow> apply_reads E m; expire_fired clock now fired [] E m }) }"

fun remove_hashes :: "nat \<Rightarrow> 64 word list \<Rightarrow> ('k \<times> ('v, 'i) cache_entry \<times> expired_by_limit) list \<Rightarrow>
    ('t, 'b, 'k, 'v, 'a, 'i, 's, ('k \<times> ('v, 'i) cache_entry \<times> expired_by_limit) list) shard_op" where
  "remove_hashes now [] out E m = Some (out, m)"
| "remove_hashes now (hash # hashes) out E m = do { (out, m) \<leftarrow> remove_expired hash now out E m; remove_hashes now hashes out E m }"

definition remove_expired_hashes :: "64 word list \<Rightarrow> nat \<Rightarrow> ('t, 'b, 'k, 'v, 'a, 'i, 's, ('k \<times> ('v, 'i) cache_entry \<times> expired_by_limit) list) shard_op" where
  "remove_expired_hashes hashes now E m = do { (_, m) \<leftarrow> apply_reads E m; remove_hashes now hashes [] E m }"

definition expire_all :: "nat \<Rightarrow> ('t, 'b, 'k, 'v, 'a, 'i, 's, ('k \<times> ('v, 'i) cache_entry \<times> expired_by_limit) list) shard_op" where
  "expire_all now E m =
     remove_expired_hashes (map (\<lambda>(_, e). ce_key_hash e)
       (filter (\<lambda>(_, e). expired_by e now (se_grace_ns E) (se_tti_ns E) \<noteq> None) (tb_iter (se_table E) (sm_table m)))) now E m"

definition idle_hashes :: "nat \<Rightarrow> ('t, 'b, 'k, 'v, 'a, 'i, 's) shard_env \<Rightarrow> ('t, 'k, 'v, 'a, 'i, 's) shard_map \<Rightarrow> 64 word list" where
  "idle_hashes now E m = map (\<lambda>(_, e). ce_key_hash e) (filter (\<lambda>(_, e). is_idle e now (se_tti_ns E)) (tb_iter (se_table E) (sm_table m)))"

fun insert_all :: "nat \<Rightarrow> ('k \<times> ('v, 'i) cache_entry) list \<Rightarrow> ('t, 'b, 'k, 'v, 'a, 'i, 's, unit) shard_op" where
  "insert_all now [] E m = Some ((), m)"
| "insert_all now ((k, e) # entries) E m = do { (_, m) \<leftarrow> insert_inner now k e (se_hasher E k) False E m; insert_all now entries E m }"

definition replace_all :: "nat \<Rightarrow> ('k \<times> ('v, 'i) cache_entry) list \<Rightarrow> ('t, 'b, 'k, 'v, 'a, 'i, 's, unit) shard_op" where
  "replace_all now entries E m = do { (_, m) \<leftarrow> sm_clear E m; insert_all now entries E m }"

subsection \<open>Construction and choice of the shard\<close>

datatype builtin_choice = ChooseTinyLfu | ChooseS3Fifo

fun select_builtin :: "builtin_choice \<Rightarrow> nat \<Rightarrow> builtin" where
  "select_builtin ChooseTinyLfu shard_capacity = TinyLfu (htinylfu_new shard_capacity)"
| "select_builtin ChooseS3Fifo shard_capacity = S3Fifo (hs3fifo_new shard_capacity)"

definition shard_budget :: "nat \<Rightarrow> nat \<Rightarrow> nat" where
  "shard_budget capacity num_shards = (if capacity = u64_max then u64_max else max (capacity div num_shards) 1)"

definition shard_map_new :: "('t, 'b, 'k, 'v, 'a, 'i, 's) shard_env \<Rightarrow> nat \<Rightarrow> nat \<Rightarrow> nat \<Rightarrow> nat \<Rightarrow> 's \<Rightarrow> (builtin_choice \<times> nat) option \<Rightarrow> ('t, 'k, 'v, 'a, 'i, 's) shard_map" where
  "shard_map_new E now timer_wheel_size timer_tick_duration budget policy builtin =
     \<lparr>sm_table = tb_new (se_table E), sm_cost = 0, sm_budget = budget, sm_policy = policy, sm_reads = log_new,
      sm_builtin = map_option (\<lambda>(choice, cap). select_builtin choice cap) builtin, sm_ring = ring_new, sm_victims = [], sm_local = counters_new,
      sm_wheel = wheel_new (se_arena E) timer_wheel_size timer_tick_duration now, sm_notified = []\<rparr>"

definition shard_index :: "nat \<Rightarrow> 64 word \<Rightarrow> nat" where
  "shard_index num_shards hash = unat (and hash (of_nat num_shards - 1))"

end
