(* ===== verification/Shard_Builtin.thy ===== *)
theory Shard_Builtin
  imports Shard_Map
begin

section \<open>A shard with a built-in policy\<close>

text \<open>
  The shard map of \<open>Shard_Map\<close> under the default configuration: the policy is one of the two built-in
  ones. The state is described by the map \<open>es\<close> of the entries. The invariant ties it to the other
  structures: the accounted cost is the sum of the costs of the entries; the timers of the wheel are
  those of the entries with an expiry time, each under the hash of its key; and the nodes the policy
  knows are those of the entries, with their hashes and costs.

  Between two steps of an operation the structures may disagree: \<open>Z\<close> are the keys whose timer has
  fired, \<open>X\<close> the timers that belong to no entry, and the resident nodes \<open>rr\<close> are what the policy
  knew before it dropped victims that are still in the table.
\<close>

type_synonym ('k, 'v, 'i) entries = "'k \<rightharpoonup> ('v, 'i) cache_entry"

definition entry_costs :: "('k, 'v, 'i) entries \<Rightarrow> 'k \<rightharpoonup> nat" where
  "entry_costs es k = map_option ce_cost (es k)"

lemma entry_costs_simps [simp]: "entry_costs (es(k \<mapsto> e)) = (entry_costs es)(k \<mapsto> ce_cost e)" "entry_costs (es(k := None)) = (entry_costs es)(k := None)"
  "dom (entry_costs es) = dom es" "entry_costs Map.empty = Map.empty"
  by (auto simp: entry_costs_def fun_eq_iff)

definition shard_cost :: "('k, 'v, 'i) entries \<Rightarrow> nat" where
  "shard_cost es = total_cost (entry_costs es)"

lemma shard_cost_del: "finite (dom es) \<Longrightarrow> es k = Some e \<Longrightarrow> shard_cost es = ce_cost e + shard_cost (es(k := None))"
  unfolding shard_cost_def entry_costs_simps by (rule total_split) (auto simp: entry_costs_def)

lemma shard_cost_add: "finite (dom es) \<Longrightarrow> shard_cost (es(k \<mapsto> e)) = ce_cost e + shard_cost (es(k := None))"
  unfolding shard_cost_def entry_costs_simps by (rule total_upd) simp

lemma shard_cost_le: "finite (dom es) \<Longrightarrow> shard_cost (es(k := None)) \<le> shard_cost es"
  unfolding shard_cost_def entry_costs_simps by (rule total_drop_le) simp

subsection \<open>Timers and entries\<close>

text \<open>
  \<open>ar\<close> gives the hash of each armed timer, \<open>I\<close> the handles ever issued, \<open>tm\<close> the handle of each key.
\<close>

definition timers_ok :: "('i \<rightharpoonup> 64 word) \<Rightarrow> 'i set \<Rightarrow> ('k \<Rightarrow> 64 word) \<Rightarrow> ('k \<rightharpoonup> 'i) \<Rightarrow> 'k set \<Rightarrow> 'i set \<Rightarrow> bool" where
  "timers_ok ar I hasher tm Z X \<longleftrightarrow>
     (\<forall>k i. tm k = Some i \<longrightarrow> i \<in> I \<and> i \<notin> X \<and> ar i = (if k \<in> Z then None else Some (hasher k))) \<and>
     (\<forall>k k' i. tm k = Some i \<longrightarrow> tm k' = Some i \<longrightarrow> k = k') \<and> (\<forall>i h. ar i = Some h \<longrightarrow> i \<in> X \<or> (\<exists>k. tm k = Some i))"

lemma timers_okI:
  assumes "\<And>k i. tm k = Some i \<Longrightarrow> i \<in> I \<and> i \<notin> X \<and> ar i = (if k \<in> Z then None else Some (hasher k))"
    "\<And>k k' i. tm k = Some i \<Longrightarrow> tm k' = Some i \<Longrightarrow> k = k'" "\<And>i h. ar i = Some h \<Longrightarrow> i \<in> X \<or> (\<exists>k. tm k = Some i)"
  shows "timers_ok ar I hasher tm Z X"
  using assms unfolding timers_ok_def by blast

lemma timers_okD:
  assumes "timers_ok ar I hasher tm Z X"
  shows "tm k = Some i \<Longrightarrow> i \<in> I" "tm k = Some i \<Longrightarrow> i \<notin> X" "tm k = Some i \<Longrightarrow> ar i = (if k \<in> Z then None else Some (hasher k))"
    "tm k = Some i \<Longrightarrow> tm k' = Some i \<Longrightarrow> k = k'" "ar i = Some h \<Longrightarrow> i \<in> X \<or> (\<exists>k. tm k = Some i)"
  using assms unfolding timers_ok_def by blast+

lemma timers_ok_arm:
  assumes R: "timers_ok ar I hasher tm Z X" and i: "i \<notin> I"
  shows "timers_ok (ar(i \<mapsto> h)) (insert i I) hasher tm Z (insert i X)"
proof (rule timers_okI)
  show "j \<in> insert i I \<and> j \<notin> insert i X \<and> (ar(i \<mapsto> h)) j = (if k \<in> Z then None else Some (hasher k))" if "tm k = Some j" for k j
    using timers_okD(1-3) [OF R that] i by auto
  show "j \<in> insert i X \<or> (\<exists>k. tm k = Some j)" if "(ar(i \<mapsto> h)) j = Some h'" for j h'
    using timers_okD(5) [OF R, of j] that by (auto split: if_splits)
qed (rule timers_okD(4) [OF R])

lemma timers_ok_cancel:
  assumes R: "timers_ok ar I hasher tm Z X" and i: "\<And>k. tm k \<noteq> Some i"
  shows "timers_ok (ar(i := None)) I hasher tm Z (X - {i})"
proof (rule timers_okI)
  show "j \<in> I \<and> j \<notin> X - {i} \<and> (ar(i := None)) j = (if k \<in> Z then None else Some (hasher k))" if "tm k = Some j" for k j
    using timers_okD(1-3) [OF R that] i [of k] that by auto
  show "j \<in> X - {i} \<or> (\<exists>k. tm k = Some j)" if "(ar(i := None)) j = Some h" for j h
    using timers_okD(5) [OF R, of j] that by (auto split: if_splits)
qed (rule timers_okD(4) [OF R])

lemma timers_ok_del:
  assumes R: "timers_ok ar I hasher tm Z X"
  shows "timers_ok ar I hasher (tm(k := None)) (Z - {k}) (X \<union> set_option (tm k))"
proof (rule timers_okI)
  show "i \<in> I \<and> i \<notin> X \<union> set_option (tm k) \<and> ar i = (if j \<in> Z - {k} then None else Some (hasher j))" if "(tm(k := None)) j = Some i" for j i
  proof -
    have j: "j \<noteq> k" "tm j = Some i" using that by (auto split: if_splits)
    then have "tm k \<noteq> Some i" using timers_okD(4) [OF R, of j i k] by blast
    then show ?thesis using timers_okD(1-3) [OF R j(2)] j(1) by auto
  qed
  show "i \<in> X \<union> set_option (tm k) \<or> (\<exists>j. (tm(k := None)) j = Some i)" if "ar i = Some h" for i h
    using timers_okD(5) [OF R that] by (cases "tm k = Some i") auto
  show "j = j'" if "(tm(k := None)) j = Some i" "(tm(k := None)) j' = Some i" for j j' i
    using timers_okD(4) [OF R, of j i j'] that by (auto split: if_splits)
qed

lemma timers_ok_put:
  assumes R: "timers_ok ar I hasher tm Z X" and k: "tm k = None" "k \<notin> Z"
    and new: "\<And>i. x = Some i \<Longrightarrow> i \<in> I \<and> ar i = Some (hasher k) \<and> (\<forall>j. tm j \<noteq> Some i)"
  shows "timers_ok ar I hasher (tm(k := x)) Z (X - set_option x)"
proof (rule timers_okI)
  show "i \<in> I \<and> i \<notin> X - set_option x \<and> ar i = (if j \<in> Z then None else Some (hasher j))" if "(tm(k := x)) j = Some i" for j i
    using timers_okD(1-3) [OF R, of j i] new [of i] that k(2) by (auto split: if_splits)
  show "j = j'" if "(tm(k := x)) j = Some i" "(tm(k := x)) j' = Some i" for j j' i
    using timers_okD(4) [OF R, of j i j'] new [of i] that by (auto split: if_splits)
  show "i \<in> X - set_option x \<or> (\<exists>j. (tm(k := x)) j = Some i)" if "ar i = Some h" for i h
  proof (cases "x = Some i")
    case False
    from timers_okD(5) [OF R that] consider "i \<in> X" | j where "tm j = Some i" by blast
    then show ?thesis
    proof cases
      case 2
      then have "(tm(k := x)) j = Some i" using k(1) by (cases "j = k") auto
      then show ?thesis by blast
    qed (use False in \<open>auto simp: elem_set\<close>)
  qed (auto intro: exI [of _ k])
qed

text \<open>All timers of \<open>Z\<close> armed again, nothing left over: every entry has its timer and every timer its entry.\<close>

definition timer_of :: "('k, 'v, 'i) entries \<Rightarrow> 'k \<rightharpoonup> 'i" where
  "timer_of es k = Option.bind (es k) ce_timer"

lemma timer_of_simps [simp]: "timer_of (es(k \<mapsto> e)) = (timer_of es)(k := ce_timer e)" "timer_of (es(k := None)) = (timer_of es)(k := None)"
  "timer_of Map.empty = Map.empty" "es k = Some e \<Longrightarrow> timer_of es k = ce_timer e" "es k = None \<Longrightarrow> timer_of es k = None"
  by (auto simp: timer_of_def fun_eq_iff)

lemma dom_timer_of: "dom (timer_of es) \<subseteq> dom es"
  by (auto simp: timer_of_def bind_eq_Some_conv)

definition armed_hash :: "('a, 'i) timer_arena \<Rightarrow> ('a, 'i) timer_wheel \<Rightarrow> 'i \<rightharpoonup> 64 word" where
  "armed_hash A w i = map_option fst (armed A w i)"

lemma armed_hash_simps: "armed A w' = (armed A w)(i \<mapsto> (h, d)) \<Longrightarrow> armed_hash A w' = (armed_hash A w)(i \<mapsto> h)"
  "armed A w' = (armed A w)(i := None) \<Longrightarrow> armed_hash A w' = (armed_hash A w)(i := None)"
  by (auto simp: armed_hash_def fun_eq_iff)

definition entry_wf :: "('k \<Rightarrow> 64 word) \<Rightarrow> 'k \<Rightarrow> ('v, 'i) cache_entry \<Rightarrow> bool" where
  "entry_wf hasher k e \<longleftrightarrow> ce_key_hash e = hasher k \<and> (ce_timer e \<noteq> None \<longleftrightarrow> 0 < ce_expires_at e)"

subsection \<open>Nodes and entries\<close>

definition nodes_rep :: "('k \<Rightarrow> 64 word) \<Rightarrow> ('k, 'v, 'i) entries \<Rightarrow> residents \<Rightarrow> bool" where
  "nodes_rep hasher es rr \<longleftrightarrow>
     (\<forall>k e. es k = Some e \<longrightarrow> rr (ce_node e) = Some (hasher k, ce_cost e) \<and> ce_node e < 2 ^ 64) \<and>
     (\<forall>n x. rr n = Some x \<longrightarrow> (\<exists>k e. es k = Some e \<and> ce_node e = n)) \<and>
     (\<forall>k k' e e'. es k = Some e \<and> es k' = Some e' \<and> ce_node e = ce_node e' \<longrightarrow> k = k')"

lemma nodes_repD:
  assumes "nodes_rep hasher es rr"
  shows "es k = Some e \<Longrightarrow> rr (ce_node e) = Some (hasher k, ce_cost e)" "es k = Some e \<Longrightarrow> ce_node e < 2 ^ 64"
    "rr n = Some x \<Longrightarrow> \<exists>k e. es k = Some e \<and> ce_node e = n"
    "es k = Some e \<Longrightarrow> es k' = Some e' \<Longrightarrow> ce_node e = ce_node e' \<Longrightarrow> k = k'"
  using assms unfolding nodes_rep_def by blast+

lemma nodes_rep_cost:
  assumes N: "nodes_rep hasher es rr" and f: "finite (dom es)"
  shows "resident_cost rr = shard_cost es" "finite (dom rr)" "card (dom rr) = card (dom es)"
proof -
  let ?n = "\<lambda>k. ce_node (the (es k))"
  have b: "bij_betw ?n (dom es) (dom rr)"
  proof (rule bij_betw_imageI)
    show "inj_on ?n (dom es)" using nodes_repD(4) [OF N] by (auto simp: inj_on_def)
    show "?n ` dom es = dom rr" using nodes_repD(1,3) [OF N] by force
  qed
  then show "finite (dom rr)" "card (dom rr) = card (dom es)" using f bij_betw_finite bij_betw_same_card by metis+
  have "(\<Sum>n \<in> dom rr. the (info_costs rr n)) = (\<Sum>k \<in> dom es. the (info_costs rr (?n k)))" by (rule sum.reindex_bij_betw [OF b, symmetric])
  also have "\<dots> = (\<Sum>k \<in> dom es. the (entry_costs es k))"
    by (rule sum.cong) (use nodes_repD(1) [OF N] in \<open>auto simp: info_costs_def entry_costs_def\<close>)
  finally show "resident_cost rr = shard_cost es" by (simp add: resident_cost_def shard_cost_def total_cost_def)
qed

lemma nodes_rep_del:
  assumes N: "nodes_rep hasher es rr" and k: "es k = Some e"
  shows "nodes_rep hasher (es(k := None)) (rr(ce_node e := None))"
  unfolding nodes_rep_def
proof (intro conjI allI impI)
  fix k' e' assume *: "(es(k := None)) k' = Some e'"
  then have "es k' = Some e'" "k' \<noteq> k" by (auto split: if_splits)
  then show "(rr(ce_node e := None)) (ce_node e') = Some (hasher k', ce_cost e')" "ce_node e' < 2 ^ 64"
    using nodes_repD(1,2) [OF N, of k' e'] nodes_repD(4) [OF N _ k, of k' e'] by auto
next
  fix n x assume "(rr(ce_node e := None)) n = Some x"
  then have "rr n = Some x" "n \<noteq> ce_node e" by (auto split: if_splits)
  then show "\<exists>k' e'. (es(k := None)) k' = Some e' \<and> ce_node e' = n" using nodes_repD(3) [OF N, of n x] k
    by (metis fun_upd_other option.inject)
qed (use nodes_repD(4) [OF N] in \<open>auto split: if_splits\<close>)

lemma nodes_rep_put:
  assumes N: "nodes_rep hasher es rr" and k: "es k = None" "rr (ce_node e) = None" "ce_node e < 2 ^ 64"
  shows "nodes_rep hasher (es(k \<mapsto> e)) (rr(ce_node e \<mapsto> (hasher k, ce_cost e)))"
  unfolding nodes_rep_def
proof (intro conjI allI impI)
  fix k' e' assume *: "(es(k \<mapsto> e)) k' = Some e'"
  show "(rr(ce_node e \<mapsto> (hasher k, ce_cost e))) (ce_node e') = Some (hasher k', ce_cost e')" "ce_node e' < 2 ^ 64"
    using * nodes_repD(1,2) [OF N, of k' e'] k by (auto split: if_splits)
next
  fix n x assume "(rr(ce_node e \<mapsto> (hasher k, ce_cost e))) n = Some x"
  then show "\<exists>k' e'. (es(k \<mapsto> e)) k' = Some e' \<and> ce_node e' = n" using nodes_repD(3) [OF N, of n x] k(1)
    by (cases "n = ce_node e") (auto, metis option.distinct(1))
next
  fix k1 k2 e1 e2 assume *: "(es(k \<mapsto> e)) k1 = Some e1 \<and> (es(k \<mapsto> e)) k2 = Some e2 \<and> ce_node e1 = ce_node e2"
  then show "k1 = k2" using nodes_repD(4) [OF N, of k1 e1 k2 e2] nodes_repD(1) [OF N] k(2) by (cases "k1 = k"; cases "k2 = k") fastforce+
qed

subsection \<open>The state of a shard\<close>

definition env_ok :: "('t, 'b, 'k, 'v, 'a, 'i, 's) shard_env \<Rightarrow> bool" where
  "env_ok E \<longleftrightarrow> table_laws (se_table E) \<and> arena_laws (se_arena E)"

definition shard_core :: "('t, 'b, 'k, 'v, 'a, 'i, 's) shard_env \<Rightarrow> ('t, 'k, 'v, 'a, 'i, 's) shard_map \<Rightarrow> ('k, 'v, 'i) entries \<Rightarrow> 'k set \<Rightarrow> 'i set \<Rightarrow> residents \<Rightarrow> bool" where
  "shard_core E m es Z X rr \<longleftrightarrow>
     table_rep (se_table E) (se_hasher E) (sm_table m) es \<and> (\<forall>k e. es k = Some e \<longrightarrow> entry_wf (se_hasher E) k e) \<and>
     wheel_ok (se_arena E) (sm_wheel m) \<and> nodes_rep (se_hasher E) es rr \<and>
     timers_ok (armed_hash (se_arena E) (sm_wheel m)) (arena_issued (se_arena E) (tw_timers (sm_wheel m))) (se_hasher E) (timer_of es) Z X"

lemma shard_coreD:
  assumes "shard_core E m es Z X rr"
  shows "table_rep (se_table E) (se_hasher E) (sm_table m) es" "es k = Some e \<Longrightarrow> entry_wf (se_hasher E) k e" "wheel_ok (se_arena E) (sm_wheel m)"
    "nodes_rep (se_hasher E) es rr" "timers_ok (armed_hash (se_arena E) (sm_wheel m)) (arena_issued (se_arena E) (tw_timers (sm_wheel m))) (se_hasher E) (timer_of es) Z X"
    "finite (dom es)"
  using assms by (simp_all add: shard_core_def table_rep_finite [of "se_table E" "se_hasher E" "sm_table m"])

definition wheel_shape :: "('t, 'k, 'v, 'a, 'i, 's) shard_map \<Rightarrow> nat \<times> nat" where
  "wheel_shape m = (tw_tick_ns (sm_wheel m), tw_wheel_len (sm_wheel m))"

text \<open>The parts of a shard that the work on the table and the timers leaves alone.\<close>

definition same_policy :: "('t, 'k, 'v, 'a, 'i, 's) shard_map \<Rightarrow> ('t, 'k, 'v, 'a, 'i, 's) shard_map \<Rightarrow> bool" where
  "same_policy m' m \<longleftrightarrow> sm_builtin m' = sm_builtin m \<and> sm_ring m' = sm_ring m \<and> sm_budget m' = sm_budget m \<and> sm_victims m' = sm_victims m \<and>
     sm_policy m' = sm_policy m \<and> sm_reads m' = sm_reads m \<and> sm_local m' = sm_local m \<and> wheel_shape m' = wheel_shape m"

lemma same_policyD:
  assumes "same_policy m' m"
  shows "sm_builtin m' = sm_builtin m" "sm_ring m' = sm_ring m" "sm_budget m' = sm_budget m" "sm_victims m' = sm_victims m"
    "sm_policy m' = sm_policy m" "sm_reads m' = sm_reads m" "sm_local m' = sm_local m" "wheel_shape m' = wheel_shape m"
  using assms by (simp_all add: same_policy_def)

lemma same_policy_trans: "same_policy a b \<Longrightarrow> same_policy b c \<Longrightarrow> same_policy a c"
  by (simp add: same_policy_def)

lemma same_policy_refl [simp]: "same_policy m m"
  by (simp add: same_policy_def)

text \<open>The core of a state speaks of its table and its wheel only.\<close>

lemma shard_core_cong: "sm_table m' = sm_table m \<Longrightarrow> sm_wheel m' = sm_wheel m \<Longrightarrow> shard_core E m' es Z X rr = shard_core E m es Z X rr"
  by (simp add: shard_core_def)

lemma disarm_ok:
  assumes E: "env_ok E" and C: "shard_core E m es Z X rr" and e: "\<And>k i. ce_timer e = Some i \<Longrightarrow> timer_of es k \<noteq> Some i"
  shows "\<exists>w. disarm e E m = Some ((), m\<lparr>sm_wheel := w\<rparr>) \<and> shard_core E (m\<lparr>sm_wheel := w\<rparr>) es Z (X - set_option (ce_timer e)) rr \<and>
    same_policy (m\<lparr>sm_wheel := w\<rparr>) m"
proof (cases "ce_timer e")
  case None
  then show ?thesis using C by (intro exI [of _ "sm_wheel m"]) (simp add: disarm_def)
next
  case (Some i)
  have A: "arena_laws (se_arena E)" using E by (simp add: env_ok_def)
  obtain w where w: "wheel_cancel (se_arena E) i (sm_wheel m) = Some w" "wheel_ok (se_arena E) w" "armed (se_arena E) w = (armed (se_arena E) (sm_wheel m))(i := None)"
    "same_clock w (sm_wheel m)" "arena_issued (se_arena E) (tw_timers w) = arena_issued (se_arena E) (tw_timers (sm_wheel m))"
    by (rule wheel_cancel_ok [OF A shard_coreD(3) [OF C], of i]) blast
  have "timers_ok ((armed_hash (se_arena E) (sm_wheel m))(i := None)) (arena_issued (se_arena E) (tw_timers (sm_wheel m))) (se_hasher E) (timer_of es) Z (X - {i})"
    by (rule timers_ok_cancel [OF shard_coreD(5) [OF C]]) (use e Some in blast)
  then have "shard_core E (m\<lparr>sm_wheel := w\<rparr>) es Z (X - {i}) rr"
    using shard_coreD [OF C] w(2,5) unfolding shard_core_def by (simp add: armed_hash_simps(2) [OF w(3)])
  moreover have "same_policy (m\<lparr>sm_wheel := w\<rparr>) m" using same_clockD(1,3) [OF w(4)] by (simp add: same_policy_def wheel_shape_def)
  ultimately show ?thesis using Some w(1) by (intro exI [of _ w]) (simp add: disarm_def)
qed

text \<open>An element leaves the table together with its timer.\<close>

lemma take_entry_ok:
  assumes E: "env_ok E" and C: "shard_core E m es Z X rr" and k: "es k = Some e" and t: "table_rep (se_table E) (se_hasher E) t (es(k := None))"
  shows "\<exists>w. disarm e E (m\<lparr>sm_table := t\<rparr>) = Some ((), m\<lparr>sm_table := t, sm_wheel := w\<rparr>) \<and>
    shard_core E (m\<lparr>sm_table := t, sm_wheel := w\<rparr>) (es(k := None)) (Z - {k}) X (rr(ce_node e := None)) \<and> same_policy (m\<lparr>sm_table := t, sm_wheel := w\<rparr>) m"
proof -
  let ?m = "m\<lparr>sm_table := t\<rparr>"
  note T = shard_coreD(5) [OF C]
  have te: "timer_of es k = ce_timer e" using k by simp
  have C1: "shard_core E ?m (es(k := None)) (Z - {k}) (X \<union> set_option (ce_timer e)) (rr(ce_node e := None))"
    unfolding shard_core_def
  proof (intro conjI allI impI)
    show "entry_wf (se_hasher E) k' e'" if "(es(k := None)) k' = Some e'" for k' e' using shard_coreD(2) [OF C, of k' e'] that by (simp split: if_splits)
  qed (use shard_coreD(3) [OF C] t timers_ok_del [OF T, of k] nodes_rep_del [OF shard_coreD(4) [OF C] k] te in \<open>simp_all del: fun_upd_apply\<close>)
  have "timer_of (es(k := None)) j \<noteq> Some i" if "ce_timer e = Some i" for j i
    using timers_okD(4) [OF T, of j i k] that te by (auto split: if_splits)
  from disarm_ok [OF E C1 this, of e] obtain w where w: "disarm e E ?m = Some ((), ?m\<lparr>sm_wheel := w\<rparr>)"
    "shard_core E (?m\<lparr>sm_wheel := w\<rparr>) (es(k := None)) (Z - {k}) (X \<union> set_option (ce_timer e) - set_option (ce_timer e)) (rr(ce_node e := None))"
    "same_policy (?m\<lparr>sm_wheel := w\<rparr>) ?m" by blast
  have "X \<union> set_option (ce_timer e) - set_option (ce_timer e) = X" using timers_okD(2) [OF T, of k] te by (auto simp: elem_set)
  moreover have "same_policy (m\<lparr>sm_table := t, sm_wheel := w\<rparr>) m" using w(3) by (simp add: same_policy_def wheel_shape_def)
  ultimately show ?thesis using w by auto
qed

definition shard_sound :: "('t, 'k, 'v, 'a, 'i, 's) shard_map \<Rightarrow> ('k, 'v, 'i) entries \<Rightarrow> bool" where
  "shard_sound m es \<longleftrightarrow> sm_cost m = shard_cost es \<and> shard_cost es < 2 ^ 64"

lemma account_ok:
  assumes "shard_sound m0 es" "finite (dom es)" "es k = Some e" "sm_cost m = sm_cost m0"
  shows "shard_sound (account_eviction k e E m) (es(k := None))" "u64_sub (sm_cost m) (ce_cost e) = shard_cost (es(k := None))"
proof -
  have "sm_cost m = ce_cost e + shard_cost (es(k := None))" "shard_cost es = ce_cost e + shard_cost (es(k := None))" "shard_cost es < 2 ^ 64"
    using assms shard_cost_del [OF assms(2,3)] by (simp_all add: shard_sound_def)
  then show "u64_sub (sm_cost m) (ce_cost e) = shard_cost (es(k := None))" "shard_sound (account_eviction k e E m) (es(k := None))"
    by (simp_all add: account_eviction_def shard_sound_def)
qed

definition without_nodes :: "victim list \<Rightarrow> ('k, 'v, 'i) entries \<Rightarrow> ('k, 'v, 'i) entries" where
  "without_nodes vs es = es |` {k. \<forall>e. es k = Some e \<longrightarrow> ce_node e \<notin> snd ` set vs}"

lemma without_nodes_Cons:
  assumes N: "nodes_rep hasher es rr" and k: "es k = Some e"
  shows "without_nodes ((h, ce_node e) # vs) es = without_nodes vs (es(k := None))"
proof
  fix j
  show "without_nodes ((h, ce_node e) # vs) es j = without_nodes vs (es(k := None)) j"
  proof (cases "es j")
    case (Some e')
    then have "j \<noteq> k \<Longrightarrow> ce_node e' \<noteq> ce_node e" using nodes_repD(4) [OF N Some k] by blast
    then show ?thesis using Some k by (cases "j = k") (simp_all add: without_nodes_def restrict_map_def)
  qed (auto simp: without_nodes_def restrict_map_def)
qed

lemma evict_victims_ok:
  assumes E: "env_ok E" and "shard_core E m es {} X rr" "shard_sound m es" "names rr vs"
  shows "\<exists>m'. evict_victims vs n E m = Some (n + length vs, m') \<and> shard_core E m' (without_nodes vs es) {} X (without vs rr) \<and>
    shard_sound m' (without_nodes vs es) \<and> same_policy m' m"
  using assms(2-4)
proof (induction vs arbitrary: m es rr n)
  case Nil
  have "without_nodes [] es = es" "without [] rr = rr" by (auto simp: without_nodes_def without_def restrict_map_def)
  with Nil show ?case by simp
next
  case (Cons v vs)
  obtain h nd where v: "v = (h, nd)" by force
  note C = Cons.prems(1) note N = shard_coreD(4) [OF C] and T = shard_coreD(1) [OF C]
  have laws: "table_laws (se_table E)" using E by (simp add: env_ok_def)
  obtain c where rn: "rr nd = Some (h, c)" using Cons.prems(3) v by (auto simp: names_def)
  obtain k e where k: "es k = Some e" "ce_node e = nd" using nodes_repD(3) [OF N rn] by blast
  have hk: "se_hasher E k = h" using nodes_repD(1) [OF N k(1)] k(2) rn by simp
  let ?p = "\<lambda>(_, e). ce_node e = nd"
  obtain b where b: "tb_find (se_table E) (sm_table m) h ?p = Some b"
    using table_find_None [OF laws T _ k(1), of ?p] hk k(2) by fastforce
  obtain k' e' where f: "es k' = Some e'" "?p (k', e')" "tb_get (se_table E) (sm_table m) b = Some (k', e')"
    "table_rep (se_table E) (se_hasher E) (tb_remove (se_table E) (sm_table m) b) (es(k' := None))"
    by (rule table_find_Some [OF laws T b]) blast
  have kk: "k' = k" "e' = e" using nodes_repD(4) [OF N f(1) k(1)] f(1,2) k by auto
  from take_entry_ok [OF E C k(1) f(4) [unfolded kk]] obtain w where w:
    "disarm e E (m\<lparr>sm_table := tb_remove (se_table E) (sm_table m) b\<rparr>) = Some ((), m\<lparr>sm_table := tb_remove (se_table E) (sm_table m) b, sm_wheel := w\<rparr>)"
    "shard_core E (m\<lparr>sm_table := tb_remove (se_table E) (sm_table m) b, sm_wheel := w\<rparr>) (es(k := None)) ({} - {k}) X (rr(ce_node e := None))"
    "same_policy (m\<lparr>sm_table := tb_remove (se_table E) (sm_table m) b, sm_wheel := w\<rparr>) m" by blast
  define m1 where "m1 = account_eviction k e E (m\<lparr>sm_table := tb_remove (se_table E) (sm_table m) b, sm_wheel := w\<rparr>)"
  have C1: "shard_core E m1 (es(k := None)) {} X (rr(nd := None))" using w(2) k(2) by (simp add: m1_def account_eviction_def shard_core_def)
  have S1: "shard_sound m1 (es(k := None))" unfolding m1_def by (rule account_ok [OF Cons.prems(2) shard_coreD(6) [OF C] k(1)]) simp
  have P1: "same_policy m1 m" using w(3) by (simp add: m1_def account_eviction_def same_policy_def wheel_shape_def)
  have n1: "names (rr(nd := None)) vs"
  proof -
    have "n' \<noteq> nd" if "(h', n') \<in> set vs" for h' n' using Cons.prems(3) v that by (force simp: names_def)
    then show ?thesis using Cons.prems(3) unfolding names_def by auto
  qed
  from Cons.IH [OF C1 S1 n1, of "n + 1"] obtain m' where IH: "evict_victims vs (n + 1) E m1 = Some (n + 1 + length vs, m')"
    "shard_core E m' (without_nodes vs (es(k := None))) {} X (without vs (rr(nd := None)))" "shard_sound m' (without_nodes vs (es(k := None)))" "same_policy m' m1" by blast
  have "take_victim v E m = Some (Some (k, e), m\<lparr>sm_table := tb_remove (se_table E) (sm_table m) b, sm_wheel := w\<rparr>)"
    using b f(3) w(1) kk by (simp add: take_victim_def take_found_def v)
  then have "evict_victims (v # vs) n E m = Some (n + length (v # vs), m')" using IH(1) by (simp add: m1_def)
  moreover have "without vs (rr(nd := None)) = without (v # vs) rr" by (auto simp: without_def restrict_map_def v)
  moreover have "without_nodes vs (es(k := None)) = without_nodes (v # vs) es" using without_nodes_Cons [OF N k(1), of h vs] k(2) v by simp
  ultimately show ?case using IH(2-4) same_policy_trans [OF IH(4) P1] by auto
qed

subsection \<open>Calls of the policy\<close>

fun is_s3 :: "builtin \<Rightarrow> bool" where
  "is_s3 (S3Fifo p) = True" | "is_s3 (TinyLfu p) = False"

lemma builtin_exec_kind: "shard_exec builtin_ops c b = Some (a, b') \<Longrightarrow> is_s3 b' = is_s3 b"
  by (cases c; cases b) (auto simp: builtin_ops_def bind_eq_Some_conv)

lemma builtin_step:
  assumes "builtin_tracks b rr" "resident_cost rr + shard_call_cost c < 2 ^ 64" "card (dom rr) + admits c \<le> nil32" "shard_call_ok c"
  shows "\<exists>a b'. shard_exec builtin_ops c b = Some (a, b') \<and> shard_answer_ok rr c a \<and> builtin_tracks b' (resident_step c a rr) \<and> is_s3 b' = is_s3 b"
  using builtin.exec_tracks [OF assms] builtin_exec_kind by blast

lemma builtin_ops_sel [simp]: "sp_admit builtin_ops = builtin_admit" "sp_update builtin_ops = builtin_update" "sp_remove builtin_ops = builtin_remove" "sp_evict builtin_ops = builtin_evict"
  "sp_apply_reads builtin_ops = builtin_apply_reads" "sp_touch builtin_ops = builtin_touch" "sp_apply_read builtin_ops = builtin_apply_read" "sp_clear builtin_ops = builtin_clear"
  by (simp_all add: builtin_ops_def)

definition fits :: "residents \<Rightarrow> nat \<Rightarrow> nat \<Rightarrow> bool" where
  "fits rr c n \<longleftrightarrow> resident_cost rr + c < 2 ^ 64 \<and> card (dom rr) + n \<le> nil32"

lemma builtin_admit_ok:
  assumes "builtin_tracks b rr" "fits rr c 1"
  obtains n out b' where "builtin_admit h c [] b = Some (n, out, b')" "rr n = None" "n < 2 ^ 64" "names (rr(n \<mapsto> (h, c))) out"
    "builtin_tracks b' (without out (rr(n \<mapsto> (h, c))))" "is_s3 b' = is_s3 b"
proof -
  obtain a b' where "shard_exec builtin_ops (SAdmit h c) b = Some (a, b')" "shard_answer_ok rr (SAdmit h c) a" "builtin_tracks b' (resident_step (SAdmit h c) a rr)" "is_s3 b' = is_s3 b"
    using builtin_step [OF assms(1), of "SAdmit h c"] assms(2) by (auto simp: fits_def)
  then show thesis using that by (cases a) (auto simp: bind_eq_Some_conv)
qed

lemma builtin_update_ok:
  assumes "builtin_tracks b rr" "fits rr c 0" "rr n = Some (h, c0)" "n < 2 ^ 64"
  obtains b' where "builtin_update n c b = Some b'" "builtin_tracks b' (rr(n \<mapsto> (h, c)))" "is_s3 b' = is_s3 b"
proof -
  obtain a b' where "shard_exec builtin_ops (SUpdate n c) b = Some (a, b')" "builtin_tracks b' (resident_step (SUpdate n c) a rr)" "is_s3 b' = is_s3 b"
    using builtin_step [OF assms(1), of "SUpdate n c"] assms(2,4) by (auto simp: fits_def)
  then show thesis using that assms(3) by (auto simp: bind_eq_Some_conv simp del: fun_upd_apply)
qed

lemma builtin_remove_ok:
  assumes "builtin_tracks b rr" "fits rr 0 0" "n < 2 ^ 64"
  obtains b' where "builtin_remove n b = Some b'" "builtin_tracks b' (rr(n := None))" "is_s3 b' = is_s3 b"
proof -
  obtain a b' where "shard_exec builtin_ops (SRemove n) b = Some (a, b')" "builtin_tracks b' (resident_step (SRemove n) a rr)" "is_s3 b' = is_s3 b"
    using builtin_step [OF assms(1), of "SRemove n"] assms(2,3) by (auto simp: fits_def)
  then show thesis using that by (auto simp: bind_eq_Some_conv simp del: fun_upd_apply)
qed

lemma builtin_evict_ok:
  assumes "builtin_tracks b rr" "fits rr 0 0"
  obtains out b' where "builtin_evict n [] b = Some (out, b')" "names rr out" "builtin_tracks b' (without out rr)" "is_s3 b' = is_s3 b"
    "is_s3 b \<longrightarrow> n \<le> resident_cost rr - resident_cost (without out rr) \<or> without out rr = Map.empty"
proof -
  obtain a b' where e: "shard_exec builtin_ops (SEvict n) b = Some (a, b')" "shard_answer_ok rr (SEvict n) a" "builtin_tracks b' (resident_step (SEvict n) a rr)" "is_s3 b' = is_s3 b"
    using builtin_step [OF assms(1), of "SEvict n"] assms(2) by (auto simp: fits_def)
  from e(2) obtain out where a: "a = SVictims out" by (cases a) simp_all
  have ev: "builtin_evict n [] b = Some (out, b')" using e(1) a by (auto simp: bind_eq_Some_conv)
  have "n \<le> resident_cost rr - resident_cost (without out rr) \<or> without out rr = Map.empty" if s3: "is_s3 b"
  proof -
    obtain p where p: "b = S3Fifo p" using s3 by (cases b) auto
    then have "h3_tracks p rr" using assms(1) by simp
    from h3_evict_tracks [OF this, of n "[]"] obtain vs p' where "h3_evict n [] p = Some (vs, p')"
      "n \<le> resident_cost rr - resident_cost (without vs rr) \<or> without vs rr = Map.empty" by auto
    with ev p show ?thesis by auto
  qed
  with ev e a show thesis using that by simp
qed

lemma builtin_apply_reads_ok:
  assumes "builtin_tracks b rr" "fits rr 0 0" "ring_ok r"
  obtains r' b' where "builtin_apply_reads r b = Some (r', b')" "builtin_tracks b' rr" "ring_ok r'" "is_s3 b' = is_s3 b"
proof -
  obtain a b' where e: "shard_exec builtin_ops (SApplyReads r) b = Some (a, b')" "builtin_tracks b' rr" "is_s3 b' = is_s3 b"
    using builtin_step [OF assms(1), of "SApplyReads r"] assms(2,3) by (auto simp: fits_def)
  then obtain r' where r': "builtin_apply_reads r b = Some (r', b')" by (auto simp: bind_eq_Some_conv)
  have "ring_ok r'"
  proof (cases b)
    case (TinyLfu p)
    obtain ns r1 where "ring_drain r = Some (ns, r1)" "ring_ok r1" by (rule ring_drain_ok [OF assms(3)])
    with r' TinyLfu show ?thesis by (auto simp: ht_apply_reads_def bind_eq_Some_conv split: if_splits)
  next
    case (S3Fifo p)
    with r' assms(3) show ?thesis by simp
  qed
  with r' e show thesis using that by blast
qed

lemma builtin_read_ok:
  assumes "builtin_tracks b rr" "fits rr 0 0" "n < 2 ^ 64"
  shows "\<exists>b'. builtin_touch n b = Some b' \<and> builtin_tracks b' rr \<and> is_s3 b' = is_s3 b"
    "\<exists>b'. builtin_apply_read n b = Some b' \<and> builtin_tracks b' rr \<and> is_s3 b' = is_s3 b"
proof -
  show "\<exists>b'. builtin_touch n b = Some b' \<and> builtin_tracks b' rr \<and> is_s3 b' = is_s3 b"
    using builtin_step [OF assms(1), of "STouch n"] assms(2,3) by (auto simp: fits_def bind_eq_Some_conv)
  show "\<exists>b'. builtin_apply_read n b = Some b' \<and> builtin_tracks b' rr \<and> is_s3 b' = is_s3 b"
    using builtin_step [OF assms(1), of "SApplyRead n"] assms(2,3) by (auto simp: fits_def bind_eq_Some_conv)
qed

lemma builtin_clear_ok: "builtin_tracks b rr \<Longrightarrow> fits rr 0 0 \<Longrightarrow> builtin_tracks (builtin_clear b) Map.empty \<and> is_s3 (builtin_clear b) = is_s3 b"
  using builtin_step [of b rr SClear] by (auto simp: fits_def)

subsection \<open>Insertion\<close>

text \<open>A shard between two operations.\<close>

definition shard_ok :: "('t, 'b, 'k, 'v, 'a, 'i, 's) shard_env \<Rightarrow> ('t, 'k, 'v, 'a, 'i, 's) shard_map \<Rightarrow> bool \<Rightarrow> ('k, 'v, 'i) entries \<Rightarrow> bool" where
  "shard_ok E m s3 es \<longleftrightarrow> (\<exists>b rr. shard_core E m es {} {} rr \<and> shard_sound m es \<and> sm_builtin m = Some b \<and> builtin_tracks b rr \<and> is_s3 b = s3 \<and>
     ring_ok (sm_ring m) \<and> sm_victims m = [] \<and> card (dom es) \<le> nil32)"

lemma shard_okE:
  assumes "shard_ok E m s3 es"
  obtains b rr where "shard_core E m es {} {} rr" "shard_sound m es" "sm_builtin m = Some b" "builtin_tracks b rr" "is_s3 b = s3"
    "ring_ok (sm_ring m)" "sm_victims m = []" "fits rr 0 0" "resident_cost rr = shard_cost es" "card (dom rr) = card (dom es)" "finite (dom es)"
proof -
  from assms obtain b rr where h: "shard_core E m es {} {} rr" "shard_sound m es" "sm_builtin m = Some b" "builtin_tracks b rr" "is_s3 b = s3"
    "ring_ok (sm_ring m)" "sm_victims m = []" "card (dom es) \<le> nil32" by (auto simp: shard_ok_def)
  note n = nodes_rep_cost [OF shard_coreD(4,6) [OF h(1)]]
  have "fits rr 0 0" using h(2,8) n by (simp add: fits_def shard_sound_def)
  with h n shard_coreD(6) [OF h(1)] show thesis using that by blast
qed

text \<open>What an entry keeps of the entry that was handed in: everything but node, hash and timer.\<close>

definition same_content :: "('v, 'i) cache_entry \<Rightarrow> ('v, 'i) cache_entry \<Rightarrow> bool" where
  "same_content e' e \<longleftrightarrow> ce_value e' = ce_value e \<and> ce_cost e' = ce_cost e \<and> ce_expires_at e' = ce_expires_at e \<and> ce_last_accessed e' = ce_last_accessed e"

text \<open>Times far enough from the end of the 64-bit range, for the ticks and the size of the wheel.\<close>

definition time_ok :: "('t, 'b, 'k, 'v, 'a, 'i, 's) shard_env \<Rightarrow> nat \<times> nat \<Rightarrow> nat \<Rightarrow> bool" where
  "time_ok E shape t \<longleftrightarrow> t + se_grace_ns E + fst shape * (snd shape + 1) < 2 ^ 64"

lemma time_okD:
  assumes "time_ok E (wheel_shape m) t"
  shows "t < 2 ^ 64" "u64_saturating_add t (se_grace_ns E) = t + se_grace_ns E" "t + se_grace_ns E + tw_tick_ns (sm_wheel m) < 2 ^ 64"
    "t + tw_wheel_len (sm_wheel m) * tw_tick_ns (sm_wheel m) < 2 ^ 64"
  using assms by (simp_all add: time_ok_def wheel_shape_def u64_saturating_add_def u64_max_def algebra_simps)

lemma arm_ok:
  assumes E: "env_ok E" and C: "shard_core E m es {} {} rr" and e: "ce_timer e = None" and t: "now < 2 ^ 64" "time_ok E (wheel_shape m) (ce_expires_at e)"
  shows "\<exists>e' w. arm now h e E m = Some (e', m\<lparr>sm_wheel := w\<rparr>) \<and> shard_core E (m\<lparr>sm_wheel := w\<rparr>) es {} (set_option (ce_timer e')) rr \<and>
    same_content e' e \<and> ce_key_hash e' = h \<and> (ce_timer e' \<noteq> None \<longleftrightarrow> 0 < ce_expires_at e') \<and>
    (\<forall>i. ce_timer e' = Some i \<longrightarrow> i \<in> arena_issued (se_arena E) (tw_timers w) \<and> armed_hash (se_arena E) w i = Some h \<and> (\<forall>k. timer_of es k \<noteq> Some i)) \<and>
    same_policy (m\<lparr>sm_wheel := w\<rparr>) m"
proof (cases "0 < ce_expires_at e")
  case False
  then show ?thesis using C e by (intro exI [of _ "e\<lparr>ce_key_hash := h\<rparr>"] exI [of _ "sm_wheel m"]) (simp add: arm_def Let_def same_content_def)
next
  case True
  let ?A = "se_arena E" let ?w = "sm_wheel m" let ?x = "ce_expires_at e + se_grace_ns E"
  have A: "arena_laws ?A" using E by (simp add: env_ok_def)
  note td = time_okD [OF t(2)]
  obtain i w d where w: "wheel_schedule ?A now h ?x ?w = Some (i, w)" "wheel_ok ?A w" "i \<notin> arena_issued ?A (tw_timers ?w)" "armed ?A w = (armed ?A ?w)(i \<mapsto> (h, d))"
    "tw_tick_ns w = tw_tick_ns ?w" "tw_wheel_len w = tw_wheel_len ?w" "arena_issued ?A (tw_timers w) = insert i (arena_issued ?A (tw_timers ?w))"
    by (rule wheel_schedule_ok [OF A shard_coreD(3) [OF C] t(1) td(3)]) blast
  have ah: "armed_hash ?A w = (armed_hash ?A ?w)(i \<mapsto> h)" by (rule armed_hash_simps(1) [OF w(4)])
  note T = timers_ok_arm [OF shard_coreD(5) [OF C] w(3), of h]
  have C1: "shard_core E (m\<lparr>sm_wheel := w\<rparr>) es {} {i} rr"
    unfolding shard_core_def using shard_coreD(1,2,4) [OF C] w(2) T [folded ah w(7)] by simp
  have fresh: "timer_of es k \<noteq> Some i" for k using timers_okD(1) [OF shard_coreD(5) [OF C], of k i] w(3) by blast
  have sp: "same_policy (m\<lparr>sm_wheel := w\<rparr>) m" using w(5,6) by (simp add: same_policy_def wheel_shape_def)
  have "arm now h e E m = Some (e\<lparr>ce_key_hash := h, ce_timer := Some i\<rparr>, m\<lparr>sm_wheel := w\<rparr>)"
    using True w(1) td(2) by (simp add: arm_def Let_def)
  with True C1 fresh sp ah w(7) show ?thesis
    by (intro exI [of _ "e\<lparr>ce_key_hash := h, ce_timer := Some i\<rparr>"] exI [of _ w]) (simp add: same_content_def)
qed

text \<open>The new entry enters the table, in place of an old one or as a new element.\<close>

lemma core_replace:
  assumes C: "shard_core E m es {} (set_option (ce_timer e)) rr" and k: "es k = Some old" and t: "table_rep (se_table E) (se_hasher E) t (es(k \<mapsto> e))"
    and e: "entry_wf (se_hasher E) k e" "ce_node e = ce_node old"
      "\<And>i. ce_timer e = Some i \<Longrightarrow> i \<in> arena_issued (se_arena E) (tw_timers (sm_wheel m)) \<and> armed_hash (se_arena E) (sm_wheel m) i = Some (se_hasher E k) \<and> (\<forall>k. timer_of es k \<noteq> Some i)"
  shows "shard_core E (m\<lparr>sm_table := t\<rparr>) (es(k \<mapsto> e)) {} (set_option (ce_timer old)) (rr(ce_node e \<mapsto> (se_hasher E k, ce_cost e)))"
  unfolding shard_core_def
proof (intro conjI allI impI)
  note N = shard_coreD(4) [OF C]
  have "nodes_rep (se_hasher E) ((es(k := None))(k \<mapsto> e)) ((rr(ce_node old := None))(ce_node e \<mapsto> (se_hasher E k, ce_cost e)))"
    by (rule nodes_rep_put [OF nodes_rep_del [OF N k]]) (use e(2) nodes_repD(2) [OF N k] in auto)
  then show "nodes_rep (se_hasher E) (es(k \<mapsto> e)) (rr(ce_node e \<mapsto> (se_hasher E k, ce_cost e)))" using e(2) by simp
  let ?ar = "armed_hash (se_arena E) (sm_wheel m)" let ?I = "arena_issued (se_arena E) (tw_timers (sm_wheel m))"
  note T = shard_coreD(5) [OF C]
  have te: "timer_of es k = ce_timer old" using k by simp
  have "timers_ok ?ar ?I (se_hasher E) (((timer_of es)(k := None))(k := ce_timer e)) {} (set_option (ce_timer e) \<union> set_option (ce_timer old) - set_option (ce_timer e))"
    by (rule timers_ok_put) (use timers_ok_del [OF T, of k] te e(3) in auto)
  moreover have "set_option (ce_timer e) \<union> set_option (ce_timer old) - set_option (ce_timer e) = set_option (ce_timer old)"
    using e(3) te by (auto simp: elem_set)
  ultimately show "timers_ok (armed_hash (se_arena E) (sm_wheel (m\<lparr>sm_table := t\<rparr>))) (arena_issued (se_arena E) (tw_timers (sm_wheel (m\<lparr>sm_table := t\<rparr>)))) (se_hasher E)
      (timer_of (es(k \<mapsto> e))) {} (set_option (ce_timer old))" by simp
qed (use C t e(1) shard_coreD(2) [OF C] in \<open>auto simp: shard_core_def split: if_splits\<close>)

lemma core_add:
  assumes C: "shard_core E m es {} (set_option (ce_timer e)) rr" and k: "es k = None" and t: "table_rep (se_table E) (se_hasher E) t (es(k \<mapsto> e))"
    and e: "entry_wf (se_hasher E) k e" "rr (ce_node e) = None" "ce_node e < 2 ^ 64"
      "\<And>i. ce_timer e = Some i \<Longrightarrow> i \<in> arena_issued (se_arena E) (tw_timers (sm_wheel m)) \<and> armed_hash (se_arena E) (sm_wheel m) i = Some (se_hasher E k) \<and> (\<forall>k. timer_of es k \<noteq> Some i)"
  shows "shard_core E (m\<lparr>sm_table := t\<rparr>) (es(k \<mapsto> e)) {} {} (rr(ce_node e \<mapsto> (se_hasher E k, ce_cost e)))"
  unfolding shard_core_def
proof (intro conjI allI impI)
  show "nodes_rep (se_hasher E) (es(k \<mapsto> e)) (rr(ce_node e \<mapsto> (se_hasher E k, ce_cost e)))"
    by (rule nodes_rep_put [OF shard_coreD(4) [OF C] k e(2,3)])
  let ?ar = "armed_hash (se_arena E) (sm_wheel m)" let ?I = "arena_issued (se_arena E) (tw_timers (sm_wheel m))"
  have "timers_ok ?ar ?I (se_hasher E) ((timer_of es)(k := ce_timer e)) {} (set_option (ce_timer e) - set_option (ce_timer e))"
    by (rule timers_ok_put [OF shard_coreD(5) [OF C]]) (use k e(4) in auto)
  then show "timers_ok (armed_hash (se_arena E) (sm_wheel (m\<lparr>sm_table := t\<rparr>))) (arena_issued (se_arena E) (tw_timers (sm_wheel (m\<lparr>sm_table := t\<rparr>)))) (se_hasher E)
      (timer_of (es(k \<mapsto> e))) {} {}" by simp
qed (use C t e(1) shard_coreD(2) [OF C] in \<open>auto simp: shard_core_def split: if_splits\<close>)

lemma without_nodes_le: "without_nodes vs es \<subseteq>\<^sub>m es"
  by (auto simp: without_nodes_def map_le_def)

lemma without_Nil: "without [] rr = rr"
  by (simp add: without_def restrict_map_def)

lemma without_append: "without ws (without vs rr) = without (vs @ ws) rr"
  by (auto simp: without_def restrict_map_def fun_eq_iff)

text \<open>The victims of an insertion leave, then as many more as bring the cost back under the budget.\<close>

definition settle :: "victim list \<Rightarrow> ('t, 'b, 'k, 'v, 'a, 'i, 's, nat) shard_op" where
  "settle victims E m =
     do { (n, m) \<leftarrow> evict_victims victims 0 E m;
          (if sm_cost m > sm_budget m
           then do { b \<leftarrow> sm_builtin m; (victims, b) \<leftarrow> builtin_evict (sm_cost m - sm_budget m) [] b; evict_victims victims n E (m\<lparr>sm_builtin := Some b\<rparr>) }
           else Some (n, m)) }"

lemma settle_ok:
  assumes E: "env_ok E" and C: "shard_core E m es {} X rr" and S: "shard_sound m es" and vs: "names rr vs"
    and b: "sm_builtin m = Some b" "builtin_tracks b (without vs rr)" and card: "card (dom es) \<le> nil32"
  shows "\<exists>n m' es' b' rr'. settle vs E m = Some (n, m') \<and> shard_core E m' es' {} X rr' \<and> shard_sound m' es' \<and> sm_builtin m' = Some b' \<and>
    builtin_tracks b' rr' \<and> is_s3 b' = is_s3 b \<and> es' \<subseteq>\<^sub>m es \<and> (is_s3 b \<longrightarrow> sm_cost m' \<le> sm_budget m') \<and> same_policy (m'\<lparr>sm_builtin := Some b\<rparr>) m"
proof -
  from evict_victims_ok [OF E C S vs, of 0] obtain m1 where m1: "evict_victims vs 0 E m = Some (length vs, m1)"
    "shard_core E m1 (without_nodes vs es) {} X (without vs rr)" "shard_sound m1 (without_nodes vs es)" "same_policy m1 m" by auto
  let ?es1 = "without_nodes vs es" let ?rr1 = "without vs rr"
  note le1 = without_nodes_le [of vs es]
  note k1 = nodes_rep_cost [OF shard_coreD(4,6) [OF m1(2)]]
  have b1: "sm_builtin m1 = Some b" using same_policyD(1) [OF m1(4)] b(1) by simp
  show ?thesis
  proof (cases "sm_cost m1 > sm_budget m1")
    case False
    then have "settle vs E m = Some (length vs, m1)" using m1(1) by (simp add: settle_def)
    moreover have "same_policy (m1\<lparr>sm_builtin := Some b\<rparr>) m" using m1(4) b(1) by (simp add: same_policy_def wheel_shape_def)
    ultimately show ?thesis using m1(2,3) b1 b(2) le1 False by (intro exI [of _ "length vs"] exI [of _ m1] exI [of _ ?es1] exI [of _ b] exI [of _ ?rr1]) simp
  next
    case True
    have "card (dom ?es1) \<le> card (dom es)" using map_le_implies_dom_le [OF le1] shard_coreD(6) [OF C] by (intro card_mono)
    then have f: "fits ?rr1 0 0" using m1(3) k1 card by (simp add: fits_def shard_sound_def)
    obtain ws b2 where e: "builtin_evict (sm_cost m1 - sm_budget m1) [] b = Some (ws, b2)" "names ?rr1 ws" "builtin_tracks b2 (without ws ?rr1)" "is_s3 b2 = is_s3 b"
      "is_s3 b \<longrightarrow> sm_cost m1 - sm_budget m1 \<le> resident_cost ?rr1 - resident_cost (without ws ?rr1) \<or> without ws ?rr1 = Map.empty"
      by (rule builtin_evict_ok [OF b(2) f])
    let ?m1 = "m1\<lparr>sm_builtin := Some b2\<rparr>"
    have C1: "shard_core E ?m1 ?es1 {} X ?rr1" using m1(2) by (simp add: shard_core_def)
    have S1: "shard_sound ?m1 ?es1" using m1(3) by (simp add: shard_sound_def)
    from evict_victims_ok [OF E C1 S1 e(2), of "length vs"] obtain m2 where m2: "evict_victims ws (length vs) E ?m1 = Some (length vs + length ws, m2)"
      "shard_core E m2 (without_nodes ws ?es1) {} X (without ws ?rr1)" "shard_sound m2 (without_nodes ws ?es1)" "same_policy m2 ?m1" by blast
    have run: "settle vs E m = Some (length vs + length ws, m2)" using m1(1) True b1 e(1) m2(1) by (simp add: settle_def)
    have sp: "same_policy (m2\<lparr>sm_builtin := Some b\<rparr>) m" using m2(4) m1(4) b(1) by (simp add: same_policy_def wheel_shape_def)
    have le: "without_nodes ws ?es1 \<subseteq>\<^sub>m es" using map_le_trans [OF without_nodes_le le1] .
    note k2 = nodes_rep_cost(1) [OF shard_coreD(4,6) [OF m2(2)]]
    have cap: "sm_cost m2 \<le> sm_budget m2" if "is_s3 b"
    proof -
      have bud: "sm_budget m2 = sm_budget m1" using same_policyD(3) [OF m2(4)] by simp
      have c: "sm_cost m1 = resident_cost ?rr1" "sm_cost m2 = resident_cost (without ws ?rr1)" using m1(3) m2(3) k1(1) k2 by (simp_all add: shard_sound_def)
      show ?thesis
      proof (cases "without ws ?rr1 = Map.empty")
        case True
        then show ?thesis using c(2) by (simp add: resident_cost_def info_costs_def total_cost_def)
      next
        case False
        then have "sm_cost m1 - sm_budget m1 \<le> sm_cost m1 - sm_cost m2" using e(5) that c by simp
        moreover have "sm_cost m2 \<le> sm_cost m1" using c resident_cost_without [OF k1(2), of ws] by simp
        ultimately show ?thesis using bud True by linarith
      qed
    qed
    show ?thesis using run m2(2,3) e(3,4) le cap sp same_policyD(1) [OF m2(4)]
      by (intro exI [of _ "length vs + length ws"] exI [of _ m2] exI [of _ "without_nodes ws ?es1"] exI [of _ b2] exI [of _ "without ws ?rr1"]) simp
  qed
qed

lemma insert_builtin_settles:
  "insert_builtin key entry hash E m =
     do { b \<leftarrow> sm_builtin m;
          let cost = ce_cost entry;
          (ring, b) \<leftarrow> builtin_apply_reads (sm_ring m) b;
          let m = m\<lparr>sm_ring := ring\<rparr>;
          (old, victims, m) \<leftarrow>
            (case tb_find (se_table E) (sm_table m) hash (\<lambda>(k, _). k = key) of
               Some bk \<Rightarrow> do { (k, slot) \<leftarrow> tb_get (se_table E) (sm_table m) bk;
                               b \<leftarrow> builtin_update (ce_node slot) cost b;
                               Some (Some slot, sm_victims m,
                                     m\<lparr>sm_builtin := Some b, sm_table := tb_set (se_table E) (sm_table m) bk (k, entry\<lparr>ce_node := ce_node slot\<rparr>)\<rparr>) }
             | None \<Rightarrow> do { (node, victims, b) \<leftarrow> builtin_admit hash cost (sm_victims m) b;
                            Some (None, victims,
                                  m\<lparr>sm_builtin := Some b, sm_table := tb_insert (se_table E) (sm_table m) hash (key, entry\<lparr>ce_node := node\<rparr>)\<rparr>) });
          let m = (case old of None \<Rightarrow> m | Some o' \<Rightarrow> m\<lparr>sm_cost := u64_sub (sm_cost m) (ce_cost o')\<rparr>);
          let m = m\<lparr>sm_cost := u64_add (sm_cost m) cost\<rparr>;
          (n, m) \<leftarrow> settle victims E m;
          Some (old, count_evicted n (m\<lparr>sm_victims := []\<rparr>)) }"
  unfolding insert_builtin_def settle_def Let_def bind_assoc split_beta ..

lemma count_evicted_simps [simp]: "sm_table (count_evicted n m) = sm_table m" "sm_wheel (count_evicted n m) = sm_wheel m" "sm_cost (count_evicted n m) = sm_cost m"
  "sm_builtin (count_evicted n m) = sm_builtin m" "sm_ring (count_evicted n m) = sm_ring m" "sm_victims (count_evicted n m) = sm_victims m" "sm_budget (count_evicted n m) = sm_budget m"
  by (simp_all add: count_evicted_def)

text \<open>
  The state after an insertion, with \<open>X\<close> the timers still to be cancelled: the entries are among the old ones with
  the new one, and under S3-FIFO the cost is within the budget.
\<close>

definition inserted :: "('t, 'b, 'k, 'v, 'a, 'i, 's) shard_env \<Rightarrow> ('t, 'k, 'v, 'a, 'i, 's) shard_map \<Rightarrow> bool \<Rightarrow> ('k, 'v, 'i) entries \<Rightarrow> 'i set \<Rightarrow> ('t, 'k, 'v, 'a, 'i, 's) shard_map \<Rightarrow> bool" where
  "inserted E m s3 es1 X m' \<longleftrightarrow> (\<exists>es' b' rr'. shard_core E m' es' {} X rr' \<and> shard_sound m' es' \<and> sm_builtin m' = Some b' \<and> builtin_tracks b' rr' \<and>
     is_s3 b' = s3 \<and> ring_ok (sm_ring m') \<and> sm_victims m' = [] \<and> es' \<subseteq>\<^sub>m es1 \<and> (s3 \<longrightarrow> sm_cost m' \<le> sm_budget m') \<and> sm_budget m' = sm_budget m \<and> wheel_shape m' = wheel_shape m)"

lemma settle_inserted:
  assumes E: "env_ok E" and C: "shard_core E m1 es1 {} X rr" and S: "shard_sound m1 es1" and vs: "names rr vs"
    and b: "sm_builtin m1 = Some b" "builtin_tracks b (without vs rr)" "is_s3 b = s3" and card: "card (dom es1) \<le> nil32"
    and ring: "ring_ok (sm_ring m1)" and same: "sm_budget m1 = sm_budget m" "wheel_shape m1 = wheel_shape m"
  shows "\<exists>n m'. settle vs E m1 = Some (n, m') \<and> inserted E m s3 es1 X (count_evicted n (m'\<lparr>sm_victims := []\<rparr>))"
proof -
  from settle_ok [OF E C S vs b(1,2) card] obtain n m' es' b' rr' where h: "settle vs E m1 = Some (n, m')" "shard_core E m' es' {} X rr'" "shard_sound m' es'"
    "sm_builtin m' = Some b'" "builtin_tracks b' rr'" "is_s3 b' = is_s3 b" "es' \<subseteq>\<^sub>m es1" "is_s3 b \<longrightarrow> sm_cost m' \<le> sm_budget m'" "same_policy (m'\<lparr>sm_builtin := Some b\<rparr>) m1" by blast
  have "shard_core E (count_evicted n (m'\<lparr>sm_victims := []\<rparr>)) es' {} X rr'" using h(2) by (simp add: shard_core_def)
  moreover have "shard_sound (count_evicted n (m'\<lparr>sm_victims := []\<rparr>)) es'" using h(3) by (simp add: shard_sound_def)
  moreover have "sm_ring m' = sm_ring m1" "sm_budget m' = sm_budget m1" "wheel_shape m' = wheel_shape m1"
    using same_policyD(2,3,8) [OF h(9)] by (simp_all add: wheel_shape_def)
  ultimately have "inserted E m s3 es1 X (count_evicted n (m'\<lparr>sm_victims := []\<rparr>))"
    unfolding inserted_def using h(4-8) b(3) ring same by (intro exI [of _ es'] exI [of _ b'] exI [of _ rr']) (simp add: wheel_shape_def)
  with h(1) show ?thesis by blast
qed

lemma insert_builtin_ok:
  assumes E: "env_ok E" and ok: "shard_ok E m0 s3 es" and fit: "shard_cost es + ce_cost e < 2 ^ 64" "card (dom es) < nil32"
    and m: "m = m0\<lparr>sm_wheel := w\<rparr>" "wheel_shape m = wheel_shape m0"
    and C0: "shard_core E m es {} (set_option (ce_timer e)) rr0" and e: "entry_wf (se_hasher E) k e"
      "\<And>i. ce_timer e = Some i \<Longrightarrow> i \<in> arena_issued (se_arena E) (tw_timers w) \<and> armed_hash (se_arena E) w i = Some (se_hasher E k) \<and> (\<forall>k. timer_of es k \<noteq> Some i)"
  shows "\<exists>m' n. insert_builtin k e (se_hasher E k) E m = Some (es k, m') \<and>
    inserted E m0 s3 (es(k \<mapsto> e\<lparr>ce_node := n\<rparr>)) (case es k of None \<Rightarrow> {} | Some old \<Rightarrow> set_option (ce_timer old)) m'"
proof -
  obtain b rr where ok': "shard_core E m0 es {} {} rr" "shard_sound m0 es" "sm_builtin m0 = Some b" "builtin_tracks b rr" "is_s3 b = s3"
    "ring_ok (sm_ring m0)" "sm_victims m0 = []" "fits rr 0 0" "resident_cost rr = shard_cost es" "card (dom rr) = card (dom es)" "finite (dom es)"
    by (rule shard_okE [OF ok]) blast
  have laws: "table_laws (se_table E)" using E by (simp add: env_ok_def)
  have C: "shard_core E m es {} (set_option (ce_timer e)) rr" using C0 shard_coreD(4) [OF ok'(1)] unfolding shard_core_def by blast
  note T = shard_coreD(1) [OF C]
  obtain ring b1 where r: "builtin_apply_reads (sm_ring m0) b = Some (ring, b1)" "builtin_tracks b1 rr" "ring_ok ring" "is_s3 b1 = is_s3 b"
    by (rule builtin_apply_reads_ok [OF ok'(4,8,6)])
  show ?thesis
  proof (cases "es k")
    case (Some old)
    from table_find_key(2) [OF laws T Some] obtain bk where bk: "tb_find (se_table E) (sm_table m) (se_hasher E k) (\<lambda>(kk, _). kk = k) = Some bk"
      "tb_get (se_table E) (sm_table m) bk = Some (k, old)" "\<And>e'. table_rep (se_table E) (se_hasher E) (tb_set (se_table E) (sm_table m) bk (k, e')) (es(k \<mapsto> e'))" by blast
    note N = shard_coreD(4) [OF C]
    obtain b2 where b2: "builtin_update (ce_node old) (ce_cost e) b1 = Some b2" "builtin_tracks b2 (rr(ce_node old \<mapsto> (se_hasher E k, ce_cost e)))" "is_s3 b2 = is_s3 b1"
      by (rule builtin_update_ok [OF r(2) _ nodes_repD(1,2) [OF N Some], of "ce_cost e"]) (use fit ok'(9,10) in \<open>simp add: fits_def\<close>)
    let ?e = "e\<lparr>ce_node := ce_node old\<rparr>" let ?t = "tb_set (se_table E) (sm_table m) bk (k, ?e)"
    let ?m1 = "m\<lparr>sm_ring := ring, sm_builtin := Some b2, sm_table := ?t, sm_cost := u64_add (u64_sub (sm_cost m0) (ce_cost old)) (ce_cost e)\<rparr>"
    have "shard_core E (m\<lparr>sm_table := ?t\<rparr>) (es(k \<mapsto> ?e)) {} (set_option (ce_timer old)) (rr(ce_node ?e \<mapsto> (se_hasher E k, ce_cost ?e)))"
      by (rule core_replace) (use C Some bk(3) e m(1) in \<open>simp_all add: entry_wf_def\<close>)
    then have C1: "shard_core E ?m1 (es(k \<mapsto> ?e)) {} (set_option (ce_timer old)) (rr(ce_node old \<mapsto> (se_hasher E k, ce_cost e)))" by (simp add: shard_core_def)
    have S1: "shard_sound ?m1 (es(k \<mapsto> ?e))"
      using ok'(2) fit shard_cost_del [OF ok'(11) Some] shard_cost_add [OF ok'(11), of k ?e] by (simp add: shard_sound_def del: fun_upd_apply)
    have cd: "card (dom (es(k \<mapsto> ?e))) \<le> nil32" using fit(2) Some by (simp add: insert_absorb domI)
    have w1: "wheel_shape ?m1 = wheel_shape m0" using m(2) by (simp add: wheel_shape_def)
    have b2': "builtin_tracks b2 (without [] (rr(ce_node old \<mapsto> (se_hasher E k, ce_cost e))))" using b2(2) by (simp only: without_Nil)
    have "names (rr(ce_node old \<mapsto> (se_hasher E k, ce_cost e))) []" by (simp add: names_def)
    from settle_inserted [OF E C1 S1 this _ b2' _ cd _ _ w1, of s3] r(3,4) b2(3) ok'(5) m(1) obtain n m' where
      "settle [] E ?m1 = Some (n, m')" "inserted E m0 s3 (es(k \<mapsto> ?e)) (set_option (ce_timer old)) (count_evicted n (m'\<lparr>sm_victims := []\<rparr>))" by auto
    then show ?thesis using Some m(1) ok'(3,7) r(1) bk(1,2) b2(1)
      by (intro exI [of _ "count_evicted n (m'\<lparr>sm_victims := []\<rparr>)"] exI [of _ "ce_node old"]) (simp add: insert_builtin_settles Let_def del: fun_upd_apply)
  next
    case None
    note nf = table_find_key(1) [OF laws T None]
    obtain n vs b2 where b2: "builtin_admit (se_hasher E k) (ce_cost e) [] b1 = Some (n, vs, b2)" "rr n = None" "n < 2 ^ 64" "names (rr(n \<mapsto> (se_hasher E k, ce_cost e))) vs"
      "builtin_tracks b2 (without vs (rr(n \<mapsto> (se_hasher E k, ce_cost e))))" "is_s3 b2 = is_s3 b1"
      by (rule builtin_admit_ok [OF r(2), of "ce_cost e"]) (use fit ok'(9,10) in \<open>simp add: fits_def\<close>)
    let ?e = "e\<lparr>ce_node := n\<rparr>" let ?t = "tb_insert (se_table E) (sm_table m) (se_hasher E k) (k, ?e)"
    let ?m1 = "m\<lparr>sm_ring := ring, sm_builtin := Some b2, sm_table := ?t, sm_cost := u64_add (sm_cost m0) (ce_cost e)\<rparr>"
    have "shard_core E (m\<lparr>sm_table := ?t\<rparr>) (es(k \<mapsto> ?e)) {} {} (rr(ce_node ?e \<mapsto> (se_hasher E k, ce_cost ?e)))"
      by (rule core_add) (use C None table_insert_rep [OF laws T None] e b2(2,3) m(1) in \<open>simp_all add: entry_wf_def\<close>)
    then have C1: "shard_core E ?m1 (es(k \<mapsto> ?e)) {} {} (rr(n \<mapsto> (se_hasher E k, ce_cost e)))" by (simp add: shard_core_def)
    have "es(k := None) = es" using None by (simp add: fun_upd_idem)
    then have S1: "shard_sound ?m1 (es(k \<mapsto> ?e))"
      using ok'(2) fit shard_cost_add [OF ok'(11), of k ?e] by (simp add: shard_sound_def del: fun_upd_apply)
    have cd: "card (dom (es(k \<mapsto> ?e))) \<le> nil32" using fit(2) None ok'(11) by (simp add: card_insert_if)
    have w1: "wheel_shape ?m1 = wheel_shape m0" using m(2) by (simp add: wheel_shape_def)
    from settle_inserted [OF E C1 S1 b2(4) _ b2(5) _ cd _ _ w1, of s3] r(3,4) b2(6) ok'(5) m(1) obtain j m' where
      "settle vs E ?m1 = Some (j, m')" "inserted E m0 s3 (es(k \<mapsto> ?e)) {} (count_evicted j (m'\<lparr>sm_victims := []\<rparr>))" by auto
    then show ?thesis using None m(1) ok'(3,7) r(1) nf b2(1)
      by (intro exI [of _ "count_evicted j (m'\<lparr>sm_victims := []\<rparr>)"] exI [of _ n]) (simp add: insert_builtin_settles Let_def del: fun_upd_apply)
  qed
qed

lemma insert_inner_ok:
  assumes E: "env_ok E" and ok: "shard_ok E m s3 es" and fit: "shard_cost es + ce_cost e < 2 ^ 64" "card (dom es) < nil32"
    and e: "ce_timer e = None" and t: "now < 2 ^ 64" "time_ok E (wheel_shape m) (ce_expires_at e)"
  shows "\<exists>m' es' e'. insert_inner now k e (se_hasher E k) counted E m = Some (es k, m') \<and> shard_ok E m' s3 es' \<and> es' \<subseteq>\<^sub>m es(k \<mapsto> e') \<and> same_content e' e \<and>
    (s3 \<longrightarrow> sm_cost m' \<le> sm_budget m') \<and> sm_budget m' = sm_budget m \<and> wheel_shape m' = wheel_shape m"
proof -
  obtain b rr where ok': "shard_core E m es {} {} rr" "sm_builtin m = Some b" by (rule shard_okE [OF ok]) blast
  from arm_ok [OF E ok'(1) e t, of "se_hasher E k"] obtain e1 w where a: "arm now (se_hasher E k) e E m = Some (e1, m\<lparr>sm_wheel := w\<rparr>)"
    "shard_core E (m\<lparr>sm_wheel := w\<rparr>) es {} (set_option (ce_timer e1)) rr" "same_content e1 e" "ce_key_hash e1 = se_hasher E k"
    "ce_timer e1 \<noteq> None \<longleftrightarrow> 0 < ce_expires_at e1"
    "\<forall>i. ce_timer e1 = Some i \<longrightarrow> i \<in> arena_issued (se_arena E) (tw_timers w) \<and> armed_hash (se_arena E) w i = Some (se_hasher E k) \<and> (\<forall>k. timer_of es k \<noteq> Some i)"
    "same_policy (m\<lparr>sm_wheel := w\<rparr>) m" by (elim exE conjE)
  let ?m1 = "m\<lparr>sm_wheel := w\<rparr>"
  have wf: "entry_wf (se_hasher E) k e1" using a(4,5) by (simp add: entry_wf_def)
  have fit1: "shard_cost es + ce_cost e1 < 2 ^ 64" using fit(1) a(3) by (simp add: same_content_def)
  from insert_builtin_ok [OF E ok fit1 fit(2) refl same_policyD(8) [OF a(7)] a(2) wf a(6) [THEN spec, THEN mp]] obtain m2 n where
    i: "insert_builtin k e1 (se_hasher E k) E ?m1 = Some (es k, m2)"
      "inserted E m s3 (es(k \<mapsto> e1\<lparr>ce_node := n\<rparr>)) (case es k of None \<Rightarrow> {} | Some old \<Rightarrow> set_option (ce_timer old)) m2" by blast
  let ?X = "case es k of None \<Rightarrow> {} | Some old \<Rightarrow> set_option (ce_timer old)" let ?e = "e1\<lparr>ce_node := n\<rparr>"
  from i(2) obtain es' b' rr' where h: "shard_core E m2 es' {} ?X rr'" "shard_sound m2 es'" "sm_builtin m2 = Some b'" "builtin_tracks b' rr'" "is_s3 b' = s3"
    "ring_ok (sm_ring m2)" "sm_victims m2 = []" "es' \<subseteq>\<^sub>m es(k \<mapsto> ?e)" "s3 \<longrightarrow> sm_cost m2 \<le> sm_budget m2" "sm_budget m2 = sm_budget m" "wheel_shape m2 = wheel_shape m"
    by (auto simp: inserted_def)
  have "\<exists>w'. (case es k of None \<Rightarrow> Some ((), m2) | Some o' \<Rightarrow> disarm o' E m2) = Some ((), m2\<lparr>sm_wheel := w'\<rparr>) \<and>
      shard_core E (m2\<lparr>sm_wheel := w'\<rparr>) es' {} {} rr' \<and> same_policy (m2\<lparr>sm_wheel := w'\<rparr>) m2"
  proof (cases "es k")
    case None
    then show ?thesis using h(1) by (intro exI [of _ "sm_wheel m2"]) simp
  next
    case (Some old)
    have "timer_of es' j \<noteq> Some i" if "ce_timer old = Some i" for j i using timers_okD(2) [OF shard_coreD(5) [OF h(1)], of j i] that Some by auto
    from disarm_ok [OF E h(1) this, of old] Some show ?thesis by auto
  qed
  then obtain w' where d: "(case es k of None \<Rightarrow> Some ((), m2) | Some o' \<Rightarrow> disarm o' E m2) = Some ((), m2\<lparr>sm_wheel := w'\<rparr>)"
    "shard_core E (m2\<lparr>sm_wheel := w'\<rparr>) es' {} {} rr'" "same_policy (m2\<lparr>sm_wheel := w'\<rparr>) m2" by blast
  define m' where "m' = snd (the (insert_inner now k e (se_hasher E k) counted E m))"
  have run: "insert_inner now k e (se_hasher E k) counted E m = Some (es k, m')" and m': "sm_table m' = sm_table m2" "sm_wheel m' = w'" "sm_cost m' = sm_cost m2"
    "sm_builtin m' = sm_builtin m2" "sm_ring m' = sm_ring m2" "sm_victims m' = sm_victims m2" "sm_budget m' = sm_budget m2"
    unfolding m'_def using a(1) ok'(2) i(1) d(1) by (simp_all add: insert_inner_def Let_def)
  have "shard_core E m' es' {} {} rr'" using d(2) m' by (simp add: shard_core_def)
  moreover have "card (dom es') \<le> nil32"
  proof -
    have f: "finite (dom es)" by (rule shard_coreD(6) [OF ok'(1)])
    then have "card (dom es') \<le> card (dom (es(k \<mapsto> ?e)))" using map_le_implies_dom_le [OF h(8)] by (intro card_mono) auto
    also have "\<dots> \<le> card (dom es) + 1" using f by (simp add: card_insert_if)
    finally show ?thesis using fit(2) by simp
  qed
  ultimately have "shard_ok E m' s3 es'" unfolding shard_ok_def using h(2-7) m' by (intro exI [of _ b'] exI [of _ rr']) (simp add: shard_sound_def)
  moreover have "same_content ?e e" using a(3) by (simp add: same_content_def)
  moreover have "wheel_shape m' = wheel_shape m" using h(11) same_policyD(8) [OF d(3)] m'(2) by (simp add: wheel_shape_def)
  ultimately show ?thesis using run h(8-10) m' by (intro exI [of _ m'] exI [of _ es'] exI [of _ ?e]) simp
qed

subsection \<open>Reads, removal and clearing\<close>

lemma apply_reads_ok:
  assumes "env_ok E" and ok: "shard_ok E m s3 es"
  shows "\<exists>m'. apply_reads E m = Some ((), m') \<and> shard_ok E m' s3 es \<and> sm_table m' = sm_table m \<and> sm_wheel m' = sm_wheel m \<and> sm_budget m' = sm_budget m"
proof -
  obtain b rr where ok': "shard_core E m es {} {} rr" "shard_sound m es" "sm_builtin m = Some b" "builtin_tracks b rr" "is_s3 b = s3"
    "ring_ok (sm_ring m)" "sm_victims m = []" "fits rr 0 0" "card (dom rr) = card (dom es)" by (rule shard_okE [OF ok]) blast
  obtain ring b1 where r: "builtin_apply_reads (sm_ring m) b = Some (ring, b1)" "builtin_tracks b1 rr" "ring_ok ring" "is_s3 b1 = is_s3 b"
    by (rule builtin_apply_reads_ok [OF ok'(4,8,6)])
  let ?m = "m\<lparr>sm_ring := ring, sm_builtin := Some b1\<rparr>"
  have "shard_core E ?m es {} {} rr" using ok'(1) by (simp add: shard_core_def)
  then have "shard_ok E ?m s3 es" unfolding shard_ok_def using ok' r by (intro exI [of _ b1] exI [of _ rr]) (simp add: shard_sound_def fits_def)
  then show ?thesis using ok'(3) r(1) by (intro exI [of _ ?m]) (simp add: apply_reads_def)
qed

lemma policy_read_ok:
  assumes ok: "shard_ok E m s3 es" and b': "\<And>b rr. sm_builtin m = Some b \<Longrightarrow> builtin_tracks b rr \<Longrightarrow> fits rr 0 0 \<Longrightarrow> \<exists>b'. f b = Some b' \<and> builtin_tracks b' rr \<and> is_s3 b' = is_s3 b"
  shows "\<exists>b b'. sm_builtin m = Some b \<and> f b = Some b' \<and> shard_ok E (m\<lparr>sm_builtin := Some b'\<rparr>) s3 es"
proof -
  obtain b rr where ok': "shard_core E m es {} {} rr" "shard_sound m es" "sm_builtin m = Some b" "builtin_tracks b rr" "is_s3 b = s3"
    "ring_ok (sm_ring m)" "sm_victims m = []" "fits rr 0 0" "card (dom rr) = card (dom es)" by (rule shard_okE [OF ok]) blast
  from b' [OF ok'(3,4,8)] obtain b1 where b1: "f b = Some b1" "builtin_tracks b1 rr" "is_s3 b1 = is_s3 b" by blast
  have "shard_core E (m\<lparr>sm_builtin := Some b1\<rparr>) es {} {} rr" using ok'(1) by (simp add: shard_core_def)
  then have "shard_ok E (m\<lparr>sm_builtin := Some b1\<rparr>) s3 es"
    unfolding shard_ok_def using ok' b1 by (intro exI [of _ b1] exI [of _ rr]) (simp add: shard_sound_def fits_def)
  with ok'(3) b1(1) show ?thesis by blast
qed

lemma touch_read_ok:
  assumes "shard_ok E m s3 es" "n < 2 ^ 64"
  shows "\<exists>m'. touch_read n E m = Some ((), m') \<and> shard_ok E m' s3 es \<and> sm_budget m' = sm_budget m \<and> sm_wheel m' = sm_wheel m"
  using policy_read_ok [OF assms(1), of "builtin_touch n"] builtin_read_ok(1) assms(2) by (fastforce simp: touch_read_def)

lemma apply_deferred_ok:
  assumes E: "env_ok E" and ok: "shard_ok E m s3 es" and n: "n < 2 ^ 64"
  shows "\<exists>m'. apply_deferred (DNode n) E m = Some ((), m') \<and> shard_ok E m' s3 es \<and> sm_budget m' = sm_budget m \<and> sm_wheel m' = sm_wheel m"
proof -
  from apply_reads_ok [OF E ok] obtain m1 where m1: "apply_reads E m = Some ((), m1)" "shard_ok E m1 s3 es" "sm_budget m1 = sm_budget m" "sm_wheel m1 = sm_wheel m" by blast
  from policy_read_ok [OF m1(2), of "builtin_apply_read n"] builtin_read_ok(2) n obtain b b' where
    "sm_builtin m1 = Some b" "builtin_apply_read n b = Some b'" "shard_ok E (m1\<lparr>sm_builtin := Some b'\<rparr>) s3 es" by blast
  with m1 show ?thesis by (intro exI [of _ "m1\<lparr>sm_builtin := Some b'\<rparr>"]) (simp add: apply_deferred_def)
qed

text \<open>The state of a shard while it removes expired entries: \<open>Z\<close> are the keys whose timer has fired.\<close>

definition shard_mid :: "('t, 'b, 'k, 'v, 'a, 'i, 's) shard_env \<Rightarrow> ('t, 'k, 'v, 'a, 'i, 's) shard_map \<Rightarrow> bool \<Rightarrow> ('k, 'v, 'i) entries \<Rightarrow> 'k set \<Rightarrow> bool" where
  "shard_mid E m s3 es Z \<longleftrightarrow> (\<exists>b rr. shard_core E m es Z {} rr \<and> shard_sound m es \<and> sm_builtin m = Some b \<and> builtin_tracks b rr \<and> is_s3 b = s3 \<and>
     ring_ok (sm_ring m) \<and> sm_victims m = [] \<and> card (dom es) \<le> nil32)"

lemma shard_mid_ok: "shard_mid E m s3 es {} = shard_ok E m s3 es"
  by (simp add: shard_mid_def shard_ok_def)

definition same_frame :: "('t, 'k, 'v, 'a, 'i, 's) shard_map \<Rightarrow> ('t, 'k, 'v, 'a, 'i, 's) shard_map \<Rightarrow> bool" where
  "same_frame m' m \<longleftrightarrow> sm_budget m' = sm_budget m \<and> wheel_shape m' = wheel_shape m"

lemma same_frame_trans: "same_frame a b \<Longrightarrow> same_frame b c \<Longrightarrow> same_frame a c"
  by (simp add: same_frame_def)

lemma drop_entry_ok:
  assumes E: "env_ok E" and M: "shard_mid E m s3 es Z" and k: "es k = Some e" and t: "table_rep (se_table E) (se_hasher E) t (es(k := None))"
  shows "\<exists>w b b'. (\<forall>c. disarm e E (m\<lparr>sm_table := t, sm_cost := c\<rparr>) = Some ((), m\<lparr>sm_table := t, sm_cost := c, sm_wheel := w\<rparr>)) \<and> sm_builtin m = Some b \<and>
    builtin_remove (ce_node e) b = Some b' \<and>
    shard_mid E (m\<lparr>sm_table := t, sm_cost := u64_sub (sm_cost m) (ce_cost e), sm_wheel := w, sm_builtin := Some b'\<rparr>) s3 (es(k := None)) (Z - {k}) \<and>
    same_frame (m\<lparr>sm_table := t, sm_cost := u64_sub (sm_cost m) (ce_cost e), sm_wheel := w, sm_builtin := Some b'\<rparr>) m"
proof -
  from M obtain b rr where h: "shard_core E m es Z {} rr" "shard_sound m es" "sm_builtin m = Some b" "builtin_tracks b rr" "is_s3 b = s3"
    "ring_ok (sm_ring m)" "sm_victims m = []" "card (dom es) \<le> nil32" by (auto simp: shard_mid_def)
  note N = shard_coreD(4) [OF h(1)] and f = shard_coreD(6) [OF h(1)]
  from take_entry_ok [OF E h(1) k t] obtain w where w: "disarm e E (m\<lparr>sm_table := t\<rparr>) = Some ((), m\<lparr>sm_table := t, sm_wheel := w\<rparr>)"
    "shard_core E (m\<lparr>sm_table := t, sm_wheel := w\<rparr>) (es(k := None)) (Z - {k}) {} (rr(ce_node e := None))" "same_policy (m\<lparr>sm_table := t, sm_wheel := w\<rparr>) m" by blast
  have fr: "fits rr 0 0" using h(2,8) nodes_rep_cost [OF N f] by (simp add: fits_def shard_sound_def)
  obtain b' where b': "builtin_remove (ce_node e) b = Some b'" "builtin_tracks b' (rr(ce_node e := None))" "is_s3 b' = is_s3 b"
    by (rule builtin_remove_ok [OF h(4) fr nodes_repD(2) [OF N k]])
  let ?m' = "m\<lparr>sm_table := t, sm_cost := u64_sub (sm_cost m) (ce_cost e), sm_wheel := w, sm_builtin := Some b'\<rparr>"
  have d: "disarm e E (m\<lparr>sm_table := t, sm_cost := c\<rparr>) = Some ((), m\<lparr>sm_table := t, sm_cost := c, sm_wheel := w\<rparr>)" for c
    using w(1) by (auto simp: disarm_def bind_eq_Some_conv split: option.splits) (metis shard_map.select_convs shard_map.surjective shard_map.update_convs)+
  have C: "shard_core E ?m' (es(k := None)) (Z - {k}) {} (rr(ce_node e := None))" using w(2) by (simp add: shard_core_def)
  have S: "shard_sound ?m' (es(k := None))" using account_ok(2) [OF h(2) f k, of m] h(2) shard_cost_le [OF f, of k] by (simp add: shard_sound_def)
  have "card (dom (es(k := None))) \<le> nil32" using h(8) f card_mono [OF f, of "dom (es(k := None))"] by (simp add: card_Diff_singleton_if)
  with C S h b' have "shard_mid E ?m' s3 (es(k := None)) (Z - {k})" unfolding shard_mid_def by (intro exI [of _ b'] exI [of _ "rr(ce_node e := None)"]) simp
  moreover have "same_frame ?m' m" using same_policyD(3,8) [OF w(3)] by (simp add: same_frame_def wheel_shape_def)
  ultimately show ?thesis using d h(3) b'(1) by blast
qed

lemma remove_entry_ok:
  assumes E: "env_ok E" and ok: "shard_ok E m s3 es"
  shows "\<exists>m'. remove_entry k E m = Some (map_option (\<lambda>e. (k, e)) (es k), m') \<and> shard_ok E m' s3 (es(k := None)) \<and> same_frame m' m"
proof -
  have laws: "table_laws (se_table E)" using E by (simp add: env_ok_def)
  from apply_reads_ok [OF E ok] obtain m1 where m1: "apply_reads E m = Some ((), m1)" "shard_ok E m1 s3 es" "sm_wheel m1 = sm_wheel m" "sm_budget m1 = sm_budget m" by blast
  then have sf: "same_frame m1 m" by (simp add: same_frame_def wheel_shape_def)
  have T: "table_rep (se_table E) (se_hasher E) (sm_table m1) es" using m1(2) shard_coreD(1) by (auto simp: shard_ok_def)
  show ?thesis
  proof (cases "es k")
    case None
    then have "sm_find E k m1 = None" using table_find_key(1) [OF laws T] by (simp add: sm_find_def)
    moreover have "es(k := None) = es" using None by (simp add: fun_upd_idem)
    ultimately show ?thesis using None m1 sf by (intro exI [of _ m1]) (simp add: remove_entry_def sm_take_def take_found_def)
  next
    case (Some e)
    from table_find_key(2) [OF laws T Some] obtain bk where bk: "sm_find E k m1 = Some bk" "tb_get (se_table E) (sm_table m1) bk = Some (k, e)"
      "table_rep (se_table E) (se_hasher E) (tb_remove (se_table E) (sm_table m1) bk) (es(k := None))" by (auto simp: sm_find_def)
    from drop_entry_ok [OF E m1(2) [folded shard_mid_ok] Some bk(3)] obtain w b b' where
      d: "\<And>c. disarm e E (m1\<lparr>sm_table := tb_remove (se_table E) (sm_table m1) bk, sm_cost := c\<rparr>) = Some ((), m1\<lparr>sm_table := tb_remove (se_table E) (sm_table m1) bk, sm_cost := c, sm_wheel := w\<rparr>)"
        "sm_builtin m1 = Some b" "builtin_remove (ce_node e) b = Some b'"
        "shard_mid E (m1\<lparr>sm_table := tb_remove (se_table E) (sm_table m1) bk, sm_cost := u64_sub (sm_cost m1) (ce_cost e), sm_wheel := w, sm_builtin := Some b'\<rparr>) s3 (es(k := None)) ({} - {k})"
        "same_frame (m1\<lparr>sm_table := tb_remove (se_table E) (sm_table m1) bk, sm_cost := u64_sub (sm_cost m1) (ce_cost e), sm_wheel := w, sm_builtin := Some b'\<rparr>) m1" by blast
    let ?m' = "m1\<lparr>sm_table := tb_remove (se_table E) (sm_table m1) bk, sm_cost := u64_sub (sm_cost m1) (ce_cost e), sm_wheel := w, sm_builtin := Some b'\<rparr>"
    have "disarm e E (m1\<lparr>sm_table := tb_remove (se_table E) (sm_table m1) bk\<rparr>) = Some ((), m1\<lparr>sm_table := tb_remove (se_table E) (sm_table m1) bk, sm_wheel := w\<rparr>)"
      using d(1) [of "sm_cost m1"] by simp
    then have "remove_entry k E m = Some (Some (k, e), ?m')"
      using m1(1) bk(1,2) d(2,3) by (simp add: remove_entry_def sm_take_def take_found_def forget_def)
    moreover have "shard_ok E ?m' s3 (es(k := None))" using d(4) by (simp add: shard_mid_ok del: fun_upd_apply)
    ultimately show ?thesis using Some same_frame_trans [OF d(5) sf] by (intro exI [of _ ?m']) simp
  qed
qed

lemma sm_clear_ok:
  assumes E: "env_ok E" and ok: "shard_ok E m s3 es"
  shows "\<exists>m'. sm_clear E m = Some ((), m') \<and> shard_ok E m' s3 Map.empty \<and> same_frame m' m"
proof -
  have laws: "table_laws (se_table E)" "arena_laws (se_arena E)" using E by (simp_all add: env_ok_def)
  obtain b rr where ok': "shard_core E m es {} {} rr" "shard_sound m es" "sm_builtin m = Some b" "builtin_tracks b rr" "is_s3 b = s3"
    "ring_ok (sm_ring m)" "sm_victims m = []" "fits rr 0 0" by (rule shard_okE [OF ok]) blast
  note w = wheel_clear_ok [OF laws(2) shard_coreD(3) [OF ok'(1)]]
  define m' where "m' = snd (the (sm_clear E m))"
  have run: "sm_clear E m = Some ((), m')" and m': "sm_table m' = tb_clear (se_table E) (sm_table m)" "sm_wheel m' = wheel_clear (se_arena E) (sm_wheel m)" "sm_cost m' = 0"
    "sm_builtin m' = Some (builtin_clear b)" "sm_ring m' = sm_ring m" "sm_victims m' = sm_victims m" "sm_budget m' = sm_budget m"
    unfolding m'_def using ok'(3) by (simp_all add: sm_clear_def Let_def)
  have "shard_core E m' Map.empty {} {} Map.empty" unfolding shard_core_def m'
    using table_clear_rep(1) [OF laws(1)] w(1,2) by (simp add: nodes_rep_def timers_ok_def armed_hash_def)
  moreover have "shard_sound m' Map.empty" using m'(3) by (simp add: shard_sound_def shard_cost_def)
  ultimately have "shard_ok E m' s3 Map.empty" unfolding shard_ok_def using m' ok'(5-7) builtin_clear_ok [OF ok'(4,8)]
    by (intro exI [of _ "builtin_clear b"] exI [of _ Map.empty]) (simp add: nil32_def)
  then show ?thesis using run m' w(5,6) by (intro exI [of _ m']) (simp add: same_frame_def wheel_shape_def)
qed

subsection \<open>Expiry\<close>

abbreviation past :: "('t, 'b, 'k, 'v, 'a, 'i, 's) shard_env \<Rightarrow> nat \<Rightarrow> ('v, 'i) cache_entry \<Rightarrow> expired_by_limit option" where
  "past E now e \<equiv> expired_by e now (se_grace_ns E) (se_tti_ns E)"

text \<open>The keys under the hashes \<open>H\<close> that are past a limit, and the reports of their removal.\<close>

definition past_keys :: "('t, 'b, 'k, 'v, 'a, 'i, 's) shard_env \<Rightarrow> nat \<Rightarrow> 64 word set \<Rightarrow> ('k, 'v, 'i) entries \<Rightarrow> 'k set" where
  "past_keys E now H es = {k. se_hasher E k \<in> H \<and> (\<exists>e. es k = Some e \<and> past E now e \<noteq> None)}"

definition past_reports :: "('t, 'b, 'k, 'v, 'a, 'i, 's) shard_env \<Rightarrow> nat \<Rightarrow> 64 word set \<Rightarrow> ('k, 'v, 'i) entries \<Rightarrow> ('k \<times> ('v, 'i) cache_entry \<times> expired_by_limit) set" where
  "past_reports E now H es = {(k, e, l). se_hasher E k \<in> H \<and> es k = Some e \<and> past E now e = Some l}"

lemma past_keys_del: "k \<in> past_keys E now H es \<Longrightarrow> past_keys E now H es = insert k (past_keys E now H (es(k := None)))"
  by (auto simp: past_keys_def)

lemma past_reports_del: "es k = Some e \<Longrightarrow> se_hasher E k \<in> H \<Longrightarrow> past E now e = Some l \<Longrightarrow>
    past_reports E now H es = insert (k, e, l) (past_reports E now H (es(k := None)))"
  by (auto simp: past_reports_def split: if_splits)

lemma restrict_del: "(es(k := None)) |` (- D) = es |` (- insert k D)"
  by (auto simp: restrict_map_def fun_eq_iff)

lemma remove_expired_ok:
  assumes E: "env_ok E" and "shard_mid E m s3 es Z"
  shows "\<exists>xs m'. remove_expired h now out E m = Some (out @ xs, m') \<and> set xs = past_reports E now {h} es \<and> distinct (map fst xs) \<and>
    shard_mid E m' s3 (es |` (- past_keys E now {h} es)) (Z - past_keys E now {h} es) \<and> same_frame m' m"
  using assms(2)
proof (induction "card (dom es)" arbitrary: m es Z out rule: less_induct)
  case less
  have laws: "table_laws (se_table E)" using E by (simp add: env_ok_def)
  obtain rr where C: "shard_core E m es Z {} rr" using less.prems by (auto simp: shard_mid_def)
  note T = shard_coreD(1) [OF C] and f = shard_coreD(6) [OF C]
  have kh: "ce_key_hash e = se_hasher E k" if "es k = Some e" for k e using shard_coreD(2) [OF C that] by (simp add: entry_wf_def)
  let ?p = "\<lambda>(_, e). ce_key_hash e = h \<and> past E now e \<noteq> None"
  show ?case
  proof (cases "tb_find (se_table E) (sm_table m) h ?p")
    case None
    have "past_keys E now {h} es = {}" using table_find_None [OF laws T, of _ ?p] None kh by (fastforce simp: past_keys_def)
    moreover from this have "past_reports E now {h} es = {}" by (auto simp: past_reports_def past_keys_def)
    moreover have "remove_expired h now out E m = Some (out, m)" using None by (subst remove_expired.simps) simp
    ultimately show ?thesis using less.prems by (intro exI [of _ "[]"] exI [of _ m]) (simp add: restrict_map_def same_frame_def)
  next
    case (Some bk)
    let ?t = "tb_remove (se_table E) (sm_table m) bk"
    obtain k e where k: "es k = Some e" "?p (k, e)" "tb_get (se_table E) (sm_table m) bk = Some (k, e)" "table_rep (se_table E) (se_hasher E) ?t (es(k := None))"
      by (rule table_find_Some [OF laws T Some]) blast
    obtain l where l: "past E now e = Some l" using k(2) by auto
    have hk: "se_hasher E k = h" using kh [OF k(1)] k(2) by simp
    from drop_entry_ok [OF E less.prems k(1,4)] obtain w b b' where
      d: "\<And>c. disarm e E (m\<lparr>sm_table := ?t, sm_cost := c\<rparr>) = Some ((), m\<lparr>sm_table := ?t, sm_cost := c, sm_wheel := w\<rparr>)" "sm_builtin m = Some b"
        "builtin_remove (ce_node e) b = Some b'"
        "shard_mid E (m\<lparr>sm_table := ?t, sm_cost := u64_sub (sm_cost m) (ce_cost e), sm_wheel := w, sm_builtin := Some b'\<rparr>) s3 (es(k := None)) (Z - {k})"
        "same_frame (m\<lparr>sm_table := ?t, sm_cost := u64_sub (sm_cost m) (ce_cost e), sm_wheel := w, sm_builtin := Some b'\<rparr>) m" by blast
    define m1 where "m1 = m\<lparr>sm_table := ?t, sm_cost := u64_sub (sm_cost m) (ce_cost e), sm_wheel := w, sm_builtin := Some b'\<rparr>"
    have "0 < card (dom es)" using k(1) f by (auto simp: card_gt_0_iff)
    then have "card (dom (es(k := None))) < card (dom es)" using k(1) f by (simp add: domI)
    from less.hyps [OF this d(4) [folded m1_def], of "out @ [(k, e, l)]"] obtain xs m' where
      IH: "remove_expired h now (out @ [(k, e, l)]) E m1 = Some ((out @ [(k, e, l)]) @ xs, m')" "set xs = past_reports E now {h} (es(k := None))" "distinct (map fst xs)"
        "shard_mid E m' s3 (es(k := None) |` (- past_keys E now {h} (es(k := None)))) (Z - {k} - past_keys E now {h} (es(k := None)))" "same_frame m' m1" by blast
    have run: "remove_expired h now out E m = remove_expired h now (out @ [(k, e, l)]) E m1"
      using Some k(3) l d(1-3) by (subst remove_expired.simps) (simp add: forget_def m1_def Let_def)
    have pk: "past_keys E now {h} es = insert k (past_keys E now {h} (es(k := None)))" by (rule past_keys_del) (use k(1) l hk in \<open>simp add: past_keys_def\<close>)
    have "k \<notin> fst ` set xs" unfolding IH(2) by (auto simp: past_reports_def)
    moreover have "Z - {k} - past_keys E now {h} (es(k := None)) = Z - past_keys E now {h} es" unfolding pk by auto
    moreover have "set ((k, e, l) # xs) = past_reports E now {h} es" using past_reports_del [of es k e E "{h}" now l] k(1) l hk IH(2) by simp
    ultimately show ?thesis using run IH(1,3,4) same_frame_trans [OF IH(5) d(5) [folded m1_def]] unfolding restrict_del pk [symmetric]
      by (intro exI [of _ "(k, e, l) # xs"] exI [of _ m']) simp
  qed
qed

lemma past_reports_Un: "past_reports E now (insert h H) es = past_reports E now {h} es \<union> past_reports E now H (es |` (- past_keys E now {h} es))"
  by (auto simp: past_reports_def past_keys_def restrict_map_def split: if_splits)

lemma past_keys_Un: "past_keys E now (insert h H) es = past_keys E now {h} es \<union> past_keys E now H (es |` (- past_keys E now {h} es))"
  by (auto simp: past_keys_def restrict_map_def)

lemma restrict_Un: "es |` (- A) |` (- B) = es |` (- (A \<union> B))"
  by (auto simp: restrict_map_def fun_eq_iff)

lemma past_reports_keys: "fst ` past_reports E now H es = past_keys E now H es"
  by (force simp: past_reports_def past_keys_def)

lemma remove_hashes_ok:
  assumes E: "env_ok E" and "shard_ok E m s3 es"
  shows "\<exists>xs m'. remove_hashes now hs out E m = Some (out @ xs, m') \<and> set xs = past_reports E now (set hs) es \<and> distinct (map fst xs) \<and>
    shard_ok E m' s3 (es |` (- past_keys E now (set hs) es)) \<and> same_frame m' m"
  using assms(2)
proof (induction hs arbitrary: m es out)
  case Nil
  then show ?case by (intro exI [of _ "[]"] exI [of _ m]) (simp add: past_reports_def past_keys_def restrict_map_def same_frame_def)
next
  case (Cons h hs)
  from remove_expired_ok [OF E Cons.prems [folded shard_mid_ok], of h now out] obtain xs m1 where
    r: "remove_expired h now out E m = Some (out @ xs, m1)" "set xs = past_reports E now {h} es" "distinct (map fst xs)"
      "shard_ok E m1 s3 (es |` (- past_keys E now {h} es))" "same_frame m1 m" by (auto simp: shard_mid_ok)
  let ?es = "es |` (- past_keys E now {h} es)"
  from Cons.IH [OF r(4), of "out @ xs"] obtain ys m' where
    IH: "remove_hashes now hs (out @ xs) E m1 = Some ((out @ xs) @ ys, m')" "set ys = past_reports E now (set hs) ?es" "distinct (map fst ys)"
      "shard_ok E m' s3 (?es |` (- past_keys E now (set hs) ?es))" "same_frame m' m1" by blast
  have "fst ` set xs \<inter> fst ` set ys = {}" unfolding r(2) IH(2) by (force simp: past_reports_def past_keys_def restrict_map_def split: if_splits)
  then show ?case using r(1-3) IH(1-4) same_frame_trans [OF IH(5) r(5)] past_reports_Un [of E now h "set hs" es] past_keys_Un [of E now h "set hs" es]
    by (intro exI [of _ "xs @ ys"] exI [of _ m']) (simp add: restrict_Un)
qed

lemma remove_expired_hashes_ok:
  assumes E: "env_ok E" and ok: "shard_ok E m s3 es"
  shows "\<exists>xs m'. remove_expired_hashes hs now E m = Some (xs, m') \<and> set xs = past_reports E now (set hs) es \<and> distinct (map fst xs) \<and>
    shard_ok E m' s3 (es |` (- past_keys E now (set hs) es)) \<and> same_frame m' m"
proof -
  from apply_reads_ok [OF E ok] obtain m1 where m1: "apply_reads E m = Some ((), m1)" "shard_ok E m1 s3 es" "sm_wheel m1 = sm_wheel m" "sm_budget m1 = sm_budget m" by blast
  then have sf: "same_frame m1 m" by (simp add: same_frame_def wheel_shape_def)
  from remove_hashes_ok [OF E m1(2), of now hs "[]"] m1(1) same_frame_trans [OF _ sf] show ?thesis by (auto simp: remove_expired_hashes_def)
qed

lemma expire_all_ok:
  assumes E: "env_ok E" and ok: "shard_ok E m s3 es"
  shows "\<exists>xs m'. expire_all now E m = Some (xs, m') \<and> set xs = past_reports E now UNIV es \<and> distinct (map fst xs) \<and>
    shard_ok E m' s3 (es |` (- past_keys E now UNIV es)) \<and> same_frame m' m"
proof -
  have laws: "table_laws (se_table E)" using E by (simp add: env_ok_def)
  obtain rr where C: "shard_core E m es {} {} rr" using ok by (auto simp: shard_ok_def)
  let ?hs = "map (\<lambda>(_, e). ce_key_hash e) (filter (\<lambda>(_, e). past E now e \<noteq> None) (tb_iter (se_table E) (sm_table m)))"
  have kh: "ce_key_hash e = se_hasher E k" if "es k = Some e" for k e using shard_coreD(2) [OF C that] by (simp add: entry_wf_def)
  have hs: "se_hasher E k \<in> set ?hs" if "es k = Some e" "past E now e \<noteq> None" for k e
    using table_iter_set [OF laws shard_coreD(1) [OF C]] kh [OF that(1)] that by force
  have "past_reports E now (set ?hs) es = past_reports E now UNIV es" "past_keys E now (set ?hs) es = past_keys E now UNIV es"
    using hs unfolding past_reports_def past_keys_def by (fastforce, blast)
  with remove_expired_hashes_ok [OF E ok, of ?hs now] show ?thesis by (simp add: expire_all_def)
qed

text \<open>Entries that differ in their timers only.\<close>

definition same_but_timer :: "('v, 'i) cache_entry \<Rightarrow> ('v, 'i) cache_entry \<Rightarrow> bool" where
  "same_but_timer e' e \<longleftrightarrow> same_content e' e \<and> ce_node e' = ce_node e \<and> ce_key_hash e' = ce_key_hash e"

definition same_entries :: "('k, 'v, 'i) entries \<Rightarrow> ('k, 'v, 'i) entries \<Rightarrow> bool" where
  "same_entries es' es \<longleftrightarrow> (\<forall>k. rel_option same_but_timer (es' k) (es k))"

lemma same_entriesD:
  assumes "same_entries es' es"
  shows "es' k = Some e' \<Longrightarrow> \<exists>e. es k = Some e \<and> same_but_timer e' e" "es k = Some e \<Longrightarrow> \<exists>e'. es' k = Some e' \<and> same_but_timer e' e"
  using assms [unfolded same_entries_def, THEN spec, of k] by (auto simp: option_rel_Some1 option_rel_Some2)

lemma same_entries_refl [simp]: "same_entries es es"
  by (auto simp: same_entries_def same_but_timer_def same_content_def intro: option.rel_refl)

lemma same_entries_trans: "same_entries a b \<Longrightarrow> same_entries b c \<Longrightarrow> same_entries a c"
  unfolding same_entries_def
proof (intro allI)
  fix k assume "\<forall>k. rel_option same_but_timer (a k) (b k)" "\<forall>k. rel_option same_but_timer (b k) (c k)"
  then have "rel_option same_but_timer (a k) (b k)" "rel_option same_but_timer (b k) (c k)" by blast+
  then show "rel_option same_but_timer (a k) (c k)" by (cases "a k"; cases "b k"; cases "c k") (auto simp: same_but_timer_def same_content_def)
qed

lemma same_entries_upd: "es k = Some e \<Longrightarrow> same_entries (es(k \<mapsto> e\<lparr>ce_timer := x\<rparr>)) es"
  using same_entries_refl [of es] unfolding same_entries_def by (simp add: same_but_timer_def same_content_def)

lemma same_entries_restrict: "same_entries es' es \<Longrightarrow> same_entries (es' |` D) (es |` D)"
  by (simp add: same_entries_def restrict_map_def)

lemma same_entries_past:
  assumes "same_entries es' es"
  shows "past_keys E now H es' = past_keys E now H es"
proof -
  have "past E now e' = past E now e" if "same_but_timer e' e" for e' e
    using that by (simp add: expired_by_def is_idle_def same_but_timer_def same_content_def)
  then have "(\<exists>e. es' k = Some e \<and> past E now e \<noteq> None) \<longleftrightarrow> (\<exists>e. es k = Some e \<and> past E now e \<noteq> None)" for k
    using same_entriesD [OF assms, of k] by metis
  then show ?thesis by (simp add: past_keys_def)
qed

text \<open>A lapsed timer under a hash is armed again, unless there is none.\<close>

definition times_ok :: "('t, 'b, 'k, 'v, 'a, 'i, 's) shard_env \<Rightarrow> nat \<times> nat \<Rightarrow> ('k, 'v, 'i) entries \<Rightarrow> bool" where
  "times_ok E shape es \<longleftrightarrow> (\<forall>k e. es k = Some e \<longrightarrow> time_ok E shape (ce_expires_at e))"

lemma times_ok_same: "same_entries es' es \<Longrightarrow> times_ok E shape es \<Longrightarrow> times_ok E shape es'"
  unfolding times_ok_def using same_entriesD(1) by (fastforce simp: same_but_timer_def same_content_def)

lemma is_armed_hash: "wheel_is_armed A i w \<longleftrightarrow> armed_hash A w i \<noteq> None"
  by (auto simp: wheel_is_armed_def armed_hash_def armed_def tdata_def)

lemma rearm_ok:
  assumes E: "env_ok E" and M: "shard_mid E m s3 es Z" and tm: "times_ok E (wheel_shape m) es" "clock < 2 ^ 64" and Z: "Z \<subseteq> dom (timer_of es)"
  shows "\<exists>m' es' Z'. rearm clock h E m = Some ((), m') \<and> shard_mid E m' s3 es' Z' \<and> same_entries es' es \<and> dom (timer_of es') = dom (timer_of es) \<and>
    ({k \<in> Z. se_hasher E k = h} = {} \<and> Z' = Z \<or> (\<exists>k \<in> Z. se_hasher E k = h \<and> Z' = Z - {k})) \<and> same_frame m' m"
proof -
  have laws: "table_laws (se_table E)" "arena_laws (se_arena E)" using E by (simp_all add: env_ok_def)
  obtain b rr where M': "shard_core E m es Z {} rr" "shard_sound m es" "sm_builtin m = Some b" "builtin_tracks b rr" "is_s3 b = s3"
    "ring_ok (sm_ring m)" "sm_victims m = []" "card (dom es) \<le> nil32" using M by (auto simp: shard_mid_def)
  note C = M'(1) note T = shard_coreD(1) [OF C] and K = shard_coreD(5) [OF C]
  have kh: "ce_key_hash e = se_hasher E k" if "es k = Some e" for k e using shard_coreD(2) [OF C that] by (simp add: entry_wf_def)
  let ?A = "se_arena E" let ?w = "sm_wheel m"
  let ?p = "\<lambda>(_, e). ce_key_hash e = h \<and> (case ce_timer e of None \<Rightarrow> False | Some i \<Rightarrow> \<not> wheel_is_armed ?A i ?w)"
  have p: "?p (k, e) \<longleftrightarrow> k \<in> Z \<and> se_hasher E k = h" if "es k = Some e" for k e
    using kh [OF that] timers_okD(3) [OF K, of k] that Z by (auto simp: is_armed_hash timer_of_def split: option.splits if_splits)
  show ?thesis
  proof (cases "tb_find (se_table E) (sm_table m) h ?p")
    case None
    have "\<not> (k \<in> Z \<and> se_hasher E k = h)" for k
    proof
      assume k: "k \<in> Z \<and> se_hasher E k = h"
      then have "timer_of es k \<noteq> None" using Z by auto
      then obtain e where "es k = Some e" by (cases "es k") auto
      then show False using table_find_None [OF laws(1) T, of k ?p e] None p [of k e] k by simp
    qed
    then show ?thesis using None M by (intro exI [of _ m] exI [of _ es] exI [of _ Z]) (simp add: rearm_def same_frame_def)
  next
    case (Some bk)
    obtain k e where k: "es k = Some e" "?p (k, e)" "tb_get (se_table E) (sm_table m) bk = Some (k, e)"
      "\<And>e'. table_rep (se_table E) (se_hasher E) (tb_set (se_table E) (sm_table m) bk (k, e')) (es(k \<mapsto> e'))"
      by (rule table_find_Some [OF laws(1) T Some]) blast
    have kZ: "k \<in> Z" "se_hasher E k = h" using p [OF k(1)] k(2) by auto
    obtain i0 where i0: "ce_timer e = Some i0" "0 < ce_expires_at e" using k(1) kZ(1) Z shard_coreD(2) [OF C k(1)] by (force simp: entry_wf_def timer_of_def)
    have tk: "time_ok E (wheel_shape m) (ce_expires_at e)" using tm(1) k(1) by (simp add: times_ok_def)
    note td = time_okD [OF tk]
    obtain i w d where w: "wheel_schedule ?A clock h (ce_expires_at e + se_grace_ns E) ?w = Some (i, w)" "wheel_ok ?A w" "i \<notin> arena_issued ?A (tw_timers ?w)"
      "armed ?A w = (armed ?A ?w)(i \<mapsto> (h, d))" "tw_tick_ns w = tw_tick_ns ?w" "tw_wheel_len w = tw_wheel_len ?w"
      "arena_issued ?A (tw_timers w) = insert i (arena_issued ?A (tw_timers ?w))"
      by (rule wheel_schedule_ok [OF laws(2) shard_coreD(3) [OF C] tm(2) td(3)]) blast
    have ah: "armed_hash ?A w = (armed_hash ?A ?w)(i \<mapsto> h)" by (rule armed_hash_simps(1) [OF w(4)])
    let ?e = "e\<lparr>ce_timer := Some i\<rparr>" let ?es = "es(k \<mapsto> ?e)"
    let ?m = "m\<lparr>sm_wheel := w, sm_table := tb_set (se_table E) (sm_table m) bk (k, ?e)\<rparr>"
    have run: "rearm clock h E m = Some ((), ?m)" using Some k(3) w(1) td(2) by (simp add: rearm_def)
    have fresh: "timer_of es j \<noteq> Some i" for j using timers_okD(1) [OF K, of j i] w(3) by blast
    have i0s: "armed_hash ?A ?w i0 = None" using timers_okD(3) [OF K, of k i0] k(1) i0(1) kZ(1) by simp
    have K1: "timers_ok (armed_hash ?A w) (arena_issued ?A (tw_timers w)) (se_hasher E) ((timer_of es)(k := None)) (Z - {k}) ({i} \<union> {i0})"
      using timers_ok_del [OF timers_ok_arm [OF K w(3), of h], of k] k(1) i0(1) unfolding ah w(7) by simp
    have K2: "timers_ok (armed_hash ?A w) (arena_issued ?A (tw_timers w)) (se_hasher E) (((timer_of es)(k := None))(k := Some i)) (Z - {k}) ({i} \<union> {i0} - set_option (Some i))"
      by (rule timers_ok_put [OF K1]) (use fresh kZ(2) in \<open>auto simp: ah w(7)\<close>)
    have ne: "i \<noteq> i0" using fresh [of k] k(1) i0(1) by auto
    have K3: "timers_ok (armed_hash ?A w) (arena_issued ?A (tw_timers w)) (se_hasher E) (timer_of ?es) (Z - {k}) {}"
    proof (rule timers_okI)
      fix j x assume "timer_of ?es j = Some x"
      then have tj: "(((timer_of es)(k := None))(k := Some i)) j = Some x" by simp
      show "x \<in> arena_issued ?A (tw_timers w) \<and> x \<notin> {} \<and> armed_hash ?A w x = (if j \<in> Z - {k} then None else Some (se_hasher E j))"
        using timers_okD(1,3) [OF K2 tj] by blast
    next
      fix x y assume a: "armed_hash ?A w x = Some y"
      have "x \<noteq> i0" using a ah i0s ne by auto
      then have "\<exists>j. (((timer_of es)(k := None))(k := Some i)) j = Some x" using timers_okD(5) [OF K2 a] by auto
      then show "x \<in> {} \<or> (\<exists>j. timer_of ?es j = Some x)" by simp
    next
      fix j j' x assume "timer_of ?es j = Some x" "timer_of ?es j' = Some x"
      then show "j = j'" using timers_okD(4) [OF K2, of j x j'] by simp
    qed
    have nd: "nodes_rep (se_hasher E) ?es rr"
    proof -
      have "nodes_rep (se_hasher E) ((es(k := None))(k \<mapsto> ?e)) ((rr(ce_node e := None))(ce_node ?e \<mapsto> (se_hasher E k, ce_cost ?e)))"
        by (rule nodes_rep_put [OF nodes_rep_del [OF shard_coreD(4) [OF C] k(1)]]) (use nodes_repD(2) [OF shard_coreD(4) [OF C] k(1)] in auto)
      moreover have "rr(ce_node e \<mapsto> (se_hasher E k, ce_cost e)) = rr" using nodes_repD(1) [OF shard_coreD(4) [OF C] k(1)] by (simp add: fun_upd_idem)
      ultimately show ?thesis by simp
    qed
    have wf: "entry_wf (se_hasher E) j e'" if "?es j = Some e'" for j e'
      using that shard_coreD(2) [OF C, of j e'] shard_coreD(2) [OF C k(1)] i0(2) by (auto simp: entry_wf_def split: if_splits)
    have C': "shard_core E ?m ?es (Z - {k}) {} rr" unfolding shard_core_def using k(4) [of ?e] wf w(2) nd K3 by simp
    have "entry_costs ?es = entry_costs es" using k(1) by (auto simp: entry_costs_def)
    then have S': "shard_sound ?m ?es" using M'(2) by (simp add: shard_sound_def shard_cost_def)
    have "dom ?es = dom es" using k(1) by auto
    then have "shard_mid E ?m s3 ?es (Z - {k})" unfolding shard_mid_def using C' S' M' by (intro exI [of _ b] exI [of _ rr]) simp
    moreover have "dom (timer_of ?es) = dom (timer_of es)" using k(1) i0(1) by (auto simp: timer_of_def)
    moreover have "same_frame ?m m" using w(5,6) by (simp add: same_frame_def wheel_shape_def)
    ultimately show ?thesis using run same_entries_upd [of es k e "Some i", OF k(1)] kZ by (intro exI [of _ ?m] exI [of _ ?es] exI [of _ "Z - {k}"]) blast
  qed
qed

text \<open>
  The loop over the fired hashes. Each occurrence of a hash settles one lapsed timer under it: its entry is removed, or armed
  again; so none is left when there are as many occurrences as lapsed timers.
\<close>

lemma expire_fired_ok:
  assumes E: "env_ok E" and clock: "clock < 2 ^ 64" and "shard_mid E m s3 es Z" "times_ok E (wheel_shape m) es" "Z \<subseteq> dom (timer_of es)"
    "\<And>h. card {k \<in> Z. se_hasher E k = h} \<le> count_list hs h"
  shows "\<exists>xs m' es'. expire_fired clock now hs out E m = Some (out @ xs, m') \<and> shard_ok E m' s3 es' \<and> same_frame m' m \<and>
    same_entries es' (es |` (- past_keys E now (set hs) es)) \<and> fst ` set xs = past_keys E now (set hs) es \<and> distinct (map fst xs) \<and>
    (\<forall>(k, e, l) \<in> set xs. past E now e = Some l \<and> (\<exists>e0. es k = Some e0 \<and> same_but_timer e e0))"
  using assms(3-6)
proof (induction hs arbitrary: m es Z out)
  case Nil
  obtain rr where C: "shard_core E m es Z {} rr" using Nil.prems(1) by (auto simp: shard_mid_def)
  have "Z = {}"
  proof (rule ccontr)
    assume "Z \<noteq> {}"
    then obtain k where k: "k \<in> Z" by blast
    have "finite Z" using Nil.prems(3) shard_coreD(6) [OF C] dom_timer_of by (meson finite_subset)
    then have "card {j \<in> Z. se_hasher E j = se_hasher E k} > 0" using k by (auto simp: card_gt_0_iff)
    then show False using Nil.prems(4) [of "se_hasher E k"] by simp
  qed
  with Nil.prems(1) have "shard_ok E m s3 es" by (simp add: shard_mid_ok)
  moreover have "past_keys E now {} es = {}" by (simp add: past_keys_def)
  ultimately show ?case by (intro exI [of _ "[]"] exI [of _ m] exI [of _ es]) (simp add: restrict_map_def same_frame_def)
next
  case (Cons h hs)
  from remove_expired_ok [OF E Cons.prems(1), of h now out] obtain xs m1 where
    r: "remove_expired h now out E m = Some (out @ xs, m1)" "set xs = past_reports E now {h} es" "distinct (map fst xs)"
      "shard_mid E m1 s3 (es |` (- past_keys E now {h} es)) (Z - past_keys E now {h} es)" "same_frame m1 m" by blast
  define D1 where "D1 = past_keys E now {h} es"
  define es1 where "es1 = es |` (- D1)"
  have ws: "wheel_shape m1 = wheel_shape m" using r(5) by (simp add: same_frame_def)
  have t1: "times_ok E (wheel_shape m1) es1" using Cons.prems(2) unfolding ws times_ok_def es1_def by (simp add: restrict_map_def)
  have Z1: "Z - D1 \<subseteq> dom (timer_of es1)" using Cons.prems(3) by (auto simp: es1_def timer_of_def restrict_map_def)
  from rearm_ok [OF E r(4) [folded D1_def, folded es1_def] t1 clock Z1, of h] obtain m2 es2 Z2 where
    a: "rearm clock h E m1 = Some ((), m2)" "shard_mid E m2 s3 es2 Z2" "same_entries es2 es1" "dom (timer_of es2) = dom (timer_of es1)"
      "{k \<in> Z - D1. se_hasher E k = h} = {} \<and> Z2 = Z - D1 \<or> (\<exists>k \<in> Z - D1. se_hasher E k = h \<and> Z2 = Z - D1 - {k})" "same_frame m2 m1" by blast
  have t2: "times_ok E (wheel_shape m2) es2" using times_ok_same [OF a(3) t1] a(6) by (simp add: same_frame_def)
  have Z2: "Z2 \<subseteq> dom (timer_of es2)" using a(4,5) Z1 by auto
  have fz: "finite Z"
  proof -
    obtain rr where C: "shard_core E m es Z {} rr" using Cons.prems(1) by (auto simp: shard_mid_def)
    show ?thesis using Cons.prems(3) shard_coreD(6) [OF C] dom_timer_of by (meson finite_subset)
  qed
  have c2: "card {k \<in> Z2. se_hasher E k = x} \<le> count_list hs x" for x
  proof (cases "x = h")
    case False
    have "card {k \<in> Z2. se_hasher E k = x} \<le> card {k \<in> Z. se_hasher E k = x}" using a(5) fz by (intro card_mono) auto
    with Cons.prems(4) [of x] False show ?thesis by simp
  next
    case True
    from a(5) consider "{k \<in> Z2. se_hasher E k = h} = {}" | k where "k \<in> Z" "se_hasher E k = h" "Z2 \<subseteq> Z - {k}" by blast
    then show ?thesis
    proof cases
      case 2
      then have "card {j \<in> Z2. se_hasher E j = h} \<le> card ({j \<in> Z. se_hasher E j = h} - {k})" using fz by (intro card_mono) auto
      also have "\<dots> = card {j \<in> Z. se_hasher E j = h} - 1" using 2 by simp
      finally show ?thesis using Cons.prems(4) [of h] True by simp
    qed (use True in \<open>simp only: card.empty\<close>)
  qed
  from Cons.IH [OF a(2) t2 Z2 c2, of "out @ xs"] obtain ys m' es' where
    IH: "expire_fired clock now hs (out @ xs) E m2 = Some ((out @ xs) @ ys, m')" "shard_ok E m' s3 es'" "same_frame m' m2"
      "same_entries es' (es2 |` (- past_keys E now (set hs) es2))" "fst ` set ys = past_keys E now (set hs) es2" "distinct (map fst ys)"
      "\<forall>(k, e, l) \<in> set ys. past E now e = Some l \<and> (\<exists>e0. es2 k = Some e0 \<and> same_but_timer e e0)" by blast
  define D2 where "D2 = past_keys E now (set hs) es1"
  have D2: "past_keys E now (set hs) es2 = D2" using same_entries_past [OF a(3)] by (simp add: D2_def)
  have D: "past_keys E now (set (h # hs)) es = D1 \<union> D2" using past_keys_Un [of E now h "set hs" es] by (simp add: D1_def D2_def es1_def)
  have se: "same_entries es' (es |` (- (D1 \<union> D2)))"
    using same_entries_trans [OF IH(4) [unfolded D2] same_entries_restrict [OF a(3)]] by (simp add: es1_def restrict_Un)
  have "D1 \<inter> D2 = {}" by (auto simp: D1_def D2_def es1_def past_keys_def restrict_map_def)
  moreover have fx: "fst ` set xs = D1" using past_reports_keys [of E now "{h}" es] r(2) by (simp add: D1_def)
  ultimately have dist: "distinct (map fst (xs @ ys))" using r(3) IH(5,6) D2 by auto
  have rx: "past E now e = Some l \<and> (\<exists>e0. es k = Some e0 \<and> same_but_timer e e0)" if "(k, e, l) \<in> set (xs @ ys)" for k e l
  proof (cases "(k, e, l) \<in> set xs")
    case True
    then show ?thesis unfolding r(2) by (auto simp: past_reports_def same_but_timer_def same_content_def)
  next
    case False
    then have y: "past E now e = Some l" "\<exists>e0. es2 k = Some e0 \<and> same_but_timer e e0" using that IH(7) by auto
    then obtain e0 e1 where "same_but_timer e e0" "es1 k = Some e1" "same_but_timer e0 e1" using same_entriesD(1) [OF a(3)] by blast
    moreover from this(2) have "es k = Some e1" by (simp add: es1_def restrict_map_def split: if_splits)
    ultimately show ?thesis using y(1) by (auto simp: same_but_timer_def same_content_def)
  qed
  have run: "expire_fired clock now (h # hs) out E m = Some (out @ (xs @ ys), m')" using r(1) a(1) IH(1) by simp
  have sf: "same_frame m' m" using same_frame_trans [OF IH(3) same_frame_trans [OF a(6) r(5)]] .
  show ?case using run IH(2) sf se dist rx fx IH(5) D2 unfolding D
    by (intro exI [of _ "xs @ ys"] exI [of _ m'] exI [of _ es']) (auto simp: image_Un)
qed

lemma count_list_map: "distinct xs \<Longrightarrow> count_list (map f xs) y = card {x \<in> set xs. f x = y}"
proof (induction xs)
  case (Cons x xs)
  have "{z \<in> set (x # xs). f z = y} = (if f x = y then insert x {z \<in> set xs. f z = y} else {z \<in> set xs. f z = y})" by auto
  with Cons show ?case by simp
qed simp

text \<open>The keys whose timer is due, and the hashes of their timers.\<close>

definition due_keys :: "('t, 'b, 'k, 'v, 'a, 'i, 's) shard_env \<Rightarrow> ('t, 'k, 'v, 'a, 'i, 's) shard_map \<Rightarrow> nat \<Rightarrow> ('k, 'v, 'i) entries \<Rightarrow> 'k set" where
  "due_keys E m now es = {k. \<exists>i h d. timer_of es k = Some i \<and> armed (se_arena E) (sm_wheel m) i = Some (h, d) \<and> d \<le> now}"

lemma expire_due_ok:
  assumes E: "env_ok E" and ok: "shard_ok E m s3 es" and clock: "clock < 2 ^ 64" and tm: "times_ok E (wheel_shape m) es" "time_ok E (wheel_shape m) now"
  defines "H \<equiv> se_hasher E ` due_keys E m now es"
  shows "\<exists>xs m' es'. expire_due clock now E m = Some (xs, m') \<and> shard_ok E m' s3 es' \<and> same_frame m' m \<and>
    same_entries es' (es |` (- past_keys E now H es)) \<and> fst ` set xs = past_keys E now H es \<and> distinct (map fst xs) \<and>
    (\<forall>(k, e, l) \<in> set xs. past E now e = Some l \<and> (\<exists>e0. es k = Some e0 \<and> same_but_timer e e0))"
proof -
  let ?A = "se_arena E" let ?w = "sm_wheel m"
  have A: "arena_laws ?A" using E by (simp add: env_ok_def)
  obtain b rr where ok': "shard_core E m es {} {} rr" "shard_sound m es" "sm_builtin m = Some b" "builtin_tracks b rr" "is_s3 b = s3"
    "ring_ok (sm_ring m)" "sm_victims m = []" "card (dom es) \<le> nil32" using ok by (auto simp: shard_ok_def)
  note K = shard_coreD(5) [OF ok'(1)]
  note td = time_okD [OF tm(2)]
  obtain fired w where a: "wheel_advance ?A now ?w = Some (map (\<lambda>i. fst (the (armed ?A ?w i))) fired, w)" "wheel_ok ?A w" "distinct fired" "set fired = due_by ?A ?w now"
    "armed ?A w = armed ?A ?w |` (- due_by ?A ?w now)" "arena_issued ?A (tw_timers w) = arena_issued ?A (tw_timers ?w)" "tw_tick_ns w = tw_tick_ns ?w" "tw_wheel_len w = tw_wheel_len ?w"
    by (rule wheel_advance_ok [OF A shard_coreD(3) [OF ok'(1)] td(4)]) blast
  define hs where "hs = map (\<lambda>i. fst (the (armed ?A ?w i))) fired"
  define Z where "Z = due_keys E m now es"
  let ?m = "m\<lparr>sm_wheel := w\<rparr>"
  have hk: "armed_hash ?A ?w i = Some (se_hasher E k)" if "timer_of es k = Some i" for k i using timers_okD(3) [OF K that] by simp
  have kZ: "k \<in> Z \<longleftrightarrow> i \<in> set fired" if "timer_of es k = Some i" for k i
    using that unfolding Z_def due_keys_def a(4) due_by_def by auto
  have own: "\<exists>k. timer_of es k = Some i" if "i \<in> set fired" for i
    using that timers_okD(5) [OF K, of i] unfolding a(4) due_by_def by (auto simp: armed_hash_def)
  have fi: "fst (the (armed ?A ?w i)) = se_hasher E k" if "timer_of es k = Some i" for k i
    using hk [OF that] by (auto simp: armed_hash_def)
  have ah: "armed_hash ?A w i = (if i \<in> set fired then None else armed_hash ?A ?w i)" for i
    by (simp add: armed_hash_def a(4,5) restrict_map_def)
  have K': "timers_ok (armed_hash ?A w) (arena_issued ?A (tw_timers w)) (se_hasher E) (timer_of es) Z {}"
  proof (rule timers_okI)
    fix k i assume t: "timer_of es k = Some i"
    show "i \<in> arena_issued ?A (tw_timers w) \<and> i \<notin> {} \<and> armed_hash ?A w i = (if k \<in> Z then None else Some (se_hasher E k))"
      using timers_okD(1) [OF K t] hk [OF t] kZ [OF t] ah a(6) by simp
  next
    fix i h assume "armed_hash ?A w i = Some h"
    then show "i \<in> {} \<or> (\<exists>k. timer_of es k = Some i)" using timers_okD(5) [OF K, of i h] ah by (auto split: if_splits)
  qed (rule timers_okD(4) [OF K])
  have mid: "shard_mid E ?m s3 es Z" unfolding shard_mid_def using ok' K' a(2)
    by (intro exI [of _ b] exI [of _ rr]) (simp add: shard_core_def shard_sound_def)
  have setH: "set hs = H" unfolding hs_def H_def Z_def [symmetric]
  proof (intro set_eqI iffI)
    fix h assume "h \<in> set (map (\<lambda>i. fst (the (armed ?A ?w i))) fired)"
    then obtain i where i: "i \<in> set fired" "h = fst (the (armed ?A ?w i))" by auto
    obtain k where k: "timer_of es k = Some i" using own [OF i(1)] by blast
    then show "h \<in> se_hasher E ` Z" using fi [OF k] kZ [OF k] i by auto
  next
    fix h assume "h \<in> se_hasher E ` Z"
    then obtain k where k: "k \<in> Z" "h = se_hasher E k" by blast
    then obtain i where i: "timer_of es k = Some i" by (auto simp: Z_def due_keys_def)
    then show "h \<in> set (map (\<lambda>i. fst (the (armed ?A ?w i))) fired)" using fi [OF i] kZ [OF i] k by force
  qed
  have sf: "same_frame ?m m" using a(7,8) by (simp add: same_frame_def wheel_shape_def)
  show ?thesis
  proof (cases "fired = []")
    case True
    have "Z = {}" using kZ True by (auto simp: Z_def due_keys_def)
    then have "shard_ok E ?m s3 es" "past_keys E now H es = {}" using mid by (simp_all add: shard_mid_ok H_def Z_def past_keys_def)
    then show ?thesis using a(1) True sf by (intro exI [of _ "[]"] exI [of _ ?m] exI [of _ es]) (simp add: expire_due_def restrict_map_def)
  next
    case False
    have "\<exists>m1. apply_reads E ?m = Some ((), m1) \<and> shard_mid E m1 s3 es Z \<and> sm_wheel m1 = w \<and> same_frame m1 ?m"
    proof -
      from mid obtain b rr where h: "shard_core E ?m es Z {} rr" "shard_sound ?m es" "sm_builtin ?m = Some b" "builtin_tracks b rr" "is_s3 b = s3"
        "ring_ok (sm_ring ?m)" "sm_victims ?m = []" "card (dom es) \<le> nil32" by (auto simp: shard_mid_def)
      have "fits rr 0 0" using h(2,8) nodes_rep_cost [OF shard_coreD(4,6) [OF h(1)]] by (simp add: fits_def shard_sound_def)
      then obtain ring b1 where r: "builtin_apply_reads (sm_ring ?m) b = Some (ring, b1)" "builtin_tracks b1 rr" "ring_ok ring" "is_s3 b1 = is_s3 b"
        by (rule builtin_apply_reads_ok [OF h(4) _ h(6)])
      have "shard_core E (?m\<lparr>sm_ring := ring, sm_builtin := Some b1\<rparr>) es Z {} rr" using h(1) by (simp add: shard_core_def)
      then have "shard_mid E (?m\<lparr>sm_ring := ring, sm_builtin := Some b1\<rparr>) s3 es Z" unfolding shard_mid_def using h r
        by (intro exI [of _ b1] exI [of _ rr]) (simp add: shard_sound_def)
      then show ?thesis using h(3) r(1) by (intro exI [of _ "?m\<lparr>sm_ring := ring, sm_builtin := Some b1\<rparr>"]) (simp add: apply_reads_def same_frame_def wheel_shape_def)
    qed
    then obtain m1 where m1: "apply_reads E ?m = Some ((), m1)" "shard_mid E m1 s3 es Z" "sm_wheel m1 = w" "same_frame m1 ?m" by blast
    have t1: "times_ok E (wheel_shape m1) es" using tm(1) a(7,8) m1(3) by (simp add: wheel_shape_def)
    have Zd: "Z \<subseteq> dom (timer_of es)" by (auto simp: Z_def due_keys_def)
    have cnt: "card {k \<in> Z. se_hasher E k = h} \<le> count_list hs h" for h
    proof -
      have "inj_on (\<lambda>k. the (timer_of es k)) {k \<in> Z. se_hasher E k = h}"
        using timers_okD(4) [OF K] Zd by (fastforce simp: inj_on_def)
      then have "card {k \<in> Z. se_hasher E k = h} = card ((\<lambda>k. the (timer_of es k)) ` {k \<in> Z. se_hasher E k = h})" by (simp add: card_image)
      also have "\<dots> \<le> card {i \<in> set fired. fst (the (armed ?A ?w i)) = h}"
        using kZ fi Zd by (intro card_mono) fastforce+
      finally show ?thesis unfolding hs_def by (simp add: count_list_map [OF a(3)])
    qed
    from expire_fired_ok [OF E clock m1(2) t1 Zd cnt, of now "[]"] obtain xs m' es' where
      x: "expire_fired clock now hs [] E m1 = Some (xs, m')" "shard_ok E m' s3 es'" "same_frame m' m1"
        "same_entries es' (es |` (- past_keys E now (set hs) es))" "fst ` set xs = past_keys E now (set hs) es" "distinct (map fst xs)"
        "\<forall>(k, e, l) \<in> set xs. past E now e = Some l \<and> (\<exists>e0. es k = Some e0 \<and> same_but_timer e e0)" by auto
    have "expire_due clock now E m = Some (xs, m')" using a(1) False m1(1) x(1) by (simp add: expire_due_def hs_def)
    moreover have "same_frame m' m" using same_frame_trans [OF x(3) same_frame_trans [OF m1(4) sf]] .
    ultimately show ?thesis using x(2,4-7) unfolding setH by blast
  qed
qed

subsection \<open>Any history\<close>

text \<open>
  The operations a cache performs on a shard with a built-in policy. Entries come from the constructors of
  \<^verbatim>\<open>CacheEntry\<close>, so they have no timer yet. \<open>SPush\<close> is the push of a read into the ring, done by the read path.
\<close>

datatype ('k, 'v, 'i) shard_cmd = SInsert nat 'k "('v, 'i) cache_entry" bool | SRemoveKey 'k | SClearAll | SExpireDue nat nat | SExpireAll nat | SRemoveHashes "64 word list" nat
  | STouchRead nat | SDeferred nat | SPush nat

definition done' :: "('r \<times> ('t, 'k, 'v, 'a, 'i, 's) shard_map) option \<Rightarrow> ('t, 'k, 'v, 'a, 'i, 's) shard_map option" where
  "done' r = map_option snd r"

fun shard_do :: "('k, 'v, 'i) shard_cmd \<Rightarrow> ('t, 'b, 'k, 'v, 'a, 'i, 's) shard_env \<Rightarrow> ('t, 'k, 'v, 'a, 'i, 's) shard_map \<Rightarrow> ('t, 'k, 'v, 'a, 'i, 's) shard_map option" where
  "shard_do (SInsert now k e counted) E m = done' (insert_inner now k e (se_hasher E k) counted E m)"
| "shard_do (SRemoveKey k) E m = done' (remove_entry k E m)"
| "shard_do SClearAll E m = done' (sm_clear E m)"
| "shard_do (SExpireDue clock now) E m = done' (expire_due clock now E m)"
| "shard_do (SExpireAll now) E m = done' (expire_all now E m)"
| "shard_do (SRemoveHashes hs now) E m = done' (remove_expired_hashes hs now E m)"
| "shard_do (STouchRead n) E m = done' (touch_read n E m)"
| "shard_do (SDeferred n) E m = done' (apply_deferred (DNode n) E m)"
| "shard_do (SPush n) E m = map_option (\<lambda>(_, r). m\<lparr>sm_ring := r\<rparr>) (ring_push n (sm_ring m))"

fun shard_do_all :: "('k, 'v, 'i) shard_cmd list \<Rightarrow> ('t, 'b, 'k, 'v, 'a, 'i, 's) shard_env \<Rightarrow> ('t, 'k, 'v, 'a, 'i, 's) shard_map \<Rightarrow> ('t, 'k, 'v, 'a, 'i, 's) shard_map option" where
  "shard_do_all [] E m = Some m"
| "shard_do_all (c # cs) E m = Option.bind (shard_do c E m) (shard_do_all cs E)"

fun cmd_ok :: "('t, 'b, 'k, 'v, 'a, 'i, 's) shard_env \<Rightarrow> nat \<times> nat \<Rightarrow> ('k, 'v, 'i) shard_cmd \<Rightarrow> bool" where
  "cmd_ok E shape (SInsert now k e counted) \<longleftrightarrow> ce_timer e = None \<and> now < 2 ^ 64 \<and> time_ok E shape (ce_expires_at e)"
| "cmd_ok E shape (SExpireDue clock now) \<longleftrightarrow> clock < 2 ^ 64 \<and> time_ok E shape now"
| "cmd_ok E shape (STouchRead n) \<longleftrightarrow> n < 2 ^ 64"
| "cmd_ok E shape (SDeferred n) \<longleftrightarrow> n < 2 ^ 64"
| "cmd_ok E shape (SPush n) \<longleftrightarrow> n < 2 ^ 64"
| "cmd_ok E shape _ \<longleftrightarrow> True"

fun cmd_cost :: "('k, 'v, 'i) shard_cmd \<Rightarrow> nat" where
  "cmd_cost (SInsert now k e counted) = ce_cost e" | "cmd_cost _ = 0"

fun cmd_inserts :: "('k, 'v, 'i) shard_cmd \<Rightarrow> nat" where
  "cmd_inserts (SInsert now k e counted) = 1" | "cmd_inserts _ = 0"

definition shard_within :: "('t, 'b, 'k, 'v, 'a, 'i, 's) shard_env \<Rightarrow> ('t, 'k, 'v, 'a, 'i, 's) shard_map \<Rightarrow> bool \<Rightarrow> ('k, 'v, 'i) entries \<Rightarrow> nat \<times> nat \<Rightarrow> nat \<Rightarrow> nat \<Rightarrow> bool" where
  "shard_within E m s3 es shape c n \<longleftrightarrow> shard_ok E m s3 es \<and> wheel_shape m = shape \<and> times_ok E shape es \<and> shard_cost es \<le> c \<and> card (dom es) \<le> n"

lemma entries_le_bounds:
  assumes "es' \<subseteq>\<^sub>m es" "finite (dom es)"
  shows "shard_cost es' \<le> shard_cost es" "card (dom es') \<le> card (dom es)" "times_ok E shape es \<Longrightarrow> times_ok E shape es'"
proof -
  have "entry_costs es' \<subseteq>\<^sub>m entry_costs es" using assms(1) by (auto simp: map_le_def entry_costs_def)
  then show "shard_cost es' \<le> shard_cost es" unfolding shard_cost_def using assms(2) by (intro total_mono) simp_all
  show "card (dom es') \<le> card (dom es)" using map_le_implies_dom_le [OF assms(1)] assms(2) by (intro card_mono)
  show "times_ok E shape es'" if "times_ok E shape es"
    using that assms(1) unfolding times_ok_def map_le_def by (metis domI option.inject)
qed

lemma restrict_le: "es |` D \<subseteq>\<^sub>m es"
  by (auto simp: map_le_def)

lemma same_entries_bounds:
  assumes "same_entries es' es"
  shows "shard_cost es' = shard_cost es" "dom es' = dom es"
proof -
  show d: "dom es' = dom es" using same_entriesD [OF assms] by (auto simp: dom_def) blast+
  have "entry_costs es' k = entry_costs es k" for k
  proof (cases "es k")
    case None
    then show ?thesis using d by (auto simp: entry_costs_def)
  next
    case (Some e)
    then show ?thesis using same_entriesD(2) [OF assms Some] by (auto simp: entry_costs_def same_but_timer_def same_content_def)
  qed
  then have "entry_costs es' = entry_costs es" by (rule ext)
  then show "shard_cost es' = shard_cost es" by (simp add: shard_cost_def)
qed

lemma ring_push_ok:
  assumes "ring_ok r" "n < 2 ^ 64"
  shows "\<exists>b r'. ring_push n r = Some (b, r') \<and> ring_ok r'"
proof (cases "n = no_node \<or> rr_cursor r \<ge> ring_size")
  case True
  then show ?thesis using assms by (auto simp: ring_push_def)
next
  case False
  then have i: "rr_cursor r < ring_size" "rr_cursor r < length (rr_slots r)" using assms(1) by (auto simp: ring_ok_def)
  let ?r = "r\<lparr>rr_cursor := u64_add (rr_cursor r) 1, rr_slots := (rr_slots r)[rr_cursor r := u64_add n 1]\<rparr>"
  have "ring_push n r = Some (True, ?r)" using False i by (simp add: ring_push_def Let_def vec_set_def)
  moreover have "u64_add n 1 < 2 ^ 64" by (simp add: u64_add_def)
  then have "ring_ok ?r" using assms(1) set_update_subset_insert [of "rr_slots r" "rr_cursor r" "u64_add n 1"] by (auto simp: ring_ok_def)
  ultimately show ?thesis by blast
qed

lemma shard_do_ok:
  assumes E: "env_ok E" and W: "shard_within E m s3 es shape c n" and cmd: "cmd_ok E shape cmd" "c + cmd_cost cmd < 2 ^ 64" "n + cmd_inserts cmd \<le> nil32"
  shows "\<exists>m' es'. shard_do cmd E m = Some m' \<and> shard_within E m' s3 es' shape (c + cmd_cost cmd) (n + cmd_inserts cmd) \<and> sm_budget m' = sm_budget m"
proof -
  have ok: "shard_ok E m s3 es" and sh: "wheel_shape m = shape" and tm: "times_ok E shape es" and b: "shard_cost es \<le> c" "card (dom es) \<le> n"
    using W by (simp_all add: shard_within_def)
  have f: "finite (dom es)" using ok by (rule shard_okE) blast
  have keep: "\<exists>m' es'. shard_do cmd E m = Some m' \<and> shard_within E m' s3 es' shape (c + cmd_cost cmd) (n + cmd_inserts cmd) \<and> sm_budget m' = sm_budget m"
    if "\<exists>m'. shard_do cmd E m = Some m' \<and> shard_ok E m' s3 es' \<and> same_frame m' m" "es' \<subseteq>\<^sub>m es" for es'
    using that entries_le_bounds(1,2) [OF that(2) f] entries_le_bounds(3) [OF that(2) f tm] b sh unfolding shard_within_def same_frame_def by fastforce
  show ?thesis
  proof (cases cmd)
    case (SInsert now k e counted)
    have fit: "shard_cost es + ce_cost e < 2 ^ 64" "card (dom es) < nil32" using cmd b SInsert by simp_all
    from insert_inner_ok [OF E ok fit, of now k counted] cmd(1) SInsert sh obtain m' es' e' where
      i: "insert_inner now k e (se_hasher E k) counted E m = Some (es k, m')" "shard_ok E m' s3 es'" "es' \<subseteq>\<^sub>m es(k \<mapsto> e')" "same_content e' e"
        "sm_budget m' = sm_budget m" "wheel_shape m' = wheel_shape m" by auto
    have f': "finite (dom (es(k \<mapsto> e')))" using f by simp
    have t': "times_ok E shape (es(k \<mapsto> e'))" using tm cmd(1) SInsert i(4) by (auto simp: times_ok_def same_content_def)
    have "shard_cost (es(k \<mapsto> e')) \<le> c + ce_cost e" using shard_cost_add [OF f, of k e'] shard_cost_le [OF f, of k] i(4) b(1) by (simp add: same_content_def)
    moreover have "card (dom (es(k \<mapsto> e'))) \<le> n + 1" using f b(2) by (simp add: card_insert_if)
    ultimately have "shard_within E m' s3 es' shape (c + ce_cost e) (n + 1)"
      unfolding shard_within_def using i(2,6) sh entries_le_bounds(1,2) [OF i(3) f'] entries_le_bounds(3) [OF i(3) f' t'] by simp
    then show ?thesis using SInsert i(1,5) by (auto simp: done'_def)
  next
    case (SRemoveKey k)
    have "es(k := None) \<subseteq>\<^sub>m es" by (auto simp: map_le_def)
    with remove_entry_ok [OF E ok, of k] show ?thesis using SRemoveKey by (intro keep [of "es(k := None)"]) (auto simp: done'_def)
  next
    case SClearAll
    with sm_clear_ok [OF E ok] show ?thesis by (intro keep [of Map.empty]) (auto simp: done'_def)
  next
    case (SExpireDue clock now)
    let ?D = "past_keys E now (se_hasher E ` due_keys E m now es) es"
    from expire_due_ok [OF E ok, of clock now] cmd(1) tm sh SExpireDue obtain xs m' es' where
      x: "expire_due clock now E m = Some (xs, m')" "shard_ok E m' s3 es'" "same_frame m' m" "same_entries es' (es |` (- ?D))" by auto
    have "shard_cost es' \<le> shard_cost es" "card (dom es') \<le> card (dom es)" "times_ok E shape es'"
      using same_entries_bounds [OF x(4)] entries_le_bounds(1,2) [OF restrict_le f, of "- ?D"] times_ok_same [OF x(4) entries_le_bounds(3) [OF restrict_le f tm]] by simp_all
    then show ?thesis using SExpireDue x(1-3) sh b by (auto simp: done'_def shard_within_def same_frame_def)
  next
    case (SExpireAll now)
    from expire_all_ok [OF E ok, of now] show ?thesis using SExpireAll restrict_le by (intro keep) (auto simp: done'_def)
  next
    case (SRemoveHashes hs now)
    from remove_expired_hashes_ok [OF E ok, of hs now] show ?thesis using SRemoveHashes restrict_le by (intro keep) (auto simp: done'_def)
  next
    case (STouchRead i)
    with touch_read_ok [OF ok, of i] cmd(1) show ?thesis by (intro keep [of es]) (auto simp: done'_def same_frame_def wheel_shape_def)
  next
    case (SDeferred i)
    with apply_deferred_ok [OF E ok, of i] cmd(1) show ?thesis by (intro keep [of es]) (auto simp: done'_def same_frame_def wheel_shape_def)
  next
    case (SPush i)
    have ro: "ring_ok (sm_ring m)" using ok by (rule shard_okE) blast
    from ring_push_ok [OF ro, of i] cmd(1) SPush obtain x r where r: "ring_push i (sm_ring m) = Some (x, r)" "ring_ok r" by auto
    have "shard_ok E (m\<lparr>sm_ring := r\<rparr>) s3 es" using ok r(2) unfolding shard_ok_def shard_core_def shard_sound_def by auto
    then show ?thesis using SPush r(1) by (intro keep [of es]) (auto simp: same_frame_def wheel_shape_def)
  qed
qed

lemma shard_do_all_ok:
  assumes E: "env_ok E" and "shard_within E m s3 es shape c n" "\<forall>cmd \<in> set cmds. cmd_ok E shape cmd" "c + sum_list (map cmd_cost cmds) < 2 ^ 64"
    "n + sum_list (map cmd_inserts cmds) \<le> nil32"
  shows "\<exists>m' es'. shard_do_all cmds E m = Some m' \<and> shard_within E m' s3 es' shape (c + sum_list (map cmd_cost cmds)) (n + sum_list (map cmd_inserts cmds)) \<and> sm_budget m' = sm_budget m"
  using assms(2-)
proof (induction cmds arbitrary: m es c n)
  case Nil
  then show ?case by auto
next
  case (Cons cmd cmds)
  from shard_do_ok [OF E Cons.prems(1), of cmd] Cons.prems(2-) obtain m1 es1 where
    1: "shard_do cmd E m = Some m1" "shard_within E m1 s3 es1 shape (c + cmd_cost cmd) (n + cmd_inserts cmd)" "sm_budget m1 = sm_budget m" by auto
  from Cons.IH [OF 1(2)] Cons.prems(2-) 1 show ?case by (auto simp: add.assoc)
qed

lemma shard_map_new_within:
  assumes "env_ok E" "0 < wheel_size" "now < 2 ^ 64" "choice = ChooseTinyLfu \<Longrightarrow> cap * 20 < 2 ^ 64"
  shows "shard_within E (shard_map_new E now wheel_size tick budget policy (Some (choice, cap))) (choice = ChooseS3Fifo) Map.empty (max (tick mod 2 ^ 64) 1, wheel_size) 0 0"
proof -
  let ?m = "shard_map_new E now wheel_size tick budget policy (Some (choice, cap))"
  have laws: "table_laws (se_table E)" "arena_laws (se_arena E)" using assms(1) by (simp_all add: env_ok_def)
  note w = wheel_new_ok [OF laws(2) assms(2,3), of tick]
  have "shard_core E ?m Map.empty {} {} Map.empty" unfolding shard_core_def
    using table_clear_rep(2) [OF laws(1)] w by (simp add: shard_map_new_def nodes_rep_def timers_ok_def armed_hash_def)
  moreover have "builtin_tracks (select_builtin choice cap) Map.empty" using htinylfu_new_tracks hs3fifo_new_tracks assms(4) by (cases choice) auto
  moreover have "is_s3 (select_builtin choice cap) = (choice = ChooseS3Fifo)" by (cases choice) auto
  moreover have "ring_ok ring_new" by (simp add: ring_ok_def ring_new_def)
  ultimately have "shard_ok E ?m (choice = ChooseS3Fifo) Map.empty" unfolding shard_ok_def
    by (intro exI [of _ "select_builtin choice cap"] exI [of _ Map.empty]) (simp add: shard_map_new_def shard_sound_def shard_cost_def)
  then show ?thesis by (simp add: shard_within_def times_ok_def shard_cost_def wheel_shape_def shard_map_new_def wheel_new_def)
qed

subsection \<open>Properties\<close>

text \<open>The reads of a shard: the keys with their entries, as the table gives them.\<close>

lemma sm_get_ok: "env_ok E \<Longrightarrow> shard_ok E m s3 es \<Longrightarrow> sm_get k E m = es k"
proof -
  assume E: "env_ok E" and ok: "shard_ok E m s3 es"
  have laws: "table_laws (se_table E)" using E by (simp add: env_ok_def)
  have T: "table_rep (se_table E) (se_hasher E) (sm_table m) es" using ok shard_coreD(1) by (auto simp: shard_ok_def)
  show ?thesis using table_find_key [OF laws T, of k] by (cases "es k") (auto simp: sm_get_def sm_find_def)
qed

lemma shard_ok_cost:
  assumes "env_ok E" "shard_ok E m s3 es"
  shows "sm_cost m = sum_list (map (\<lambda>(_, e). ce_cost e) (tb_iter (se_table E) (sm_table m)))" "distinct (map fst (tb_iter (se_table E) (sm_table m)))"
proof -
  let ?xs = "tb_iter (se_table E) (sm_table m)"
  have laws: "table_laws (se_table E)" using assms(1) by (simp add: env_ok_def)
  have T: "table_rep (se_table E) (se_hasher E) (sm_table m) es" "sm_cost m = shard_cost es" using assms(2) shard_coreD(1) by (auto simp: shard_ok_def shard_sound_def)
  have f: "finite (dom es)" using T(1) by (rule table_rep_finite)
  have ms: "mset ?xs = image_mset (\<lambda>k. (k, the (es k))) (mset_set (dom es))"
    using table_lawsD(6) [OF laws, of "sm_table m"] T(1) by (simp add: table_rep_def map_items_def image_mset.compositionality comp_def)
  have "sum_list (map (\<lambda>(_, e). ce_cost e) ?xs) = sum_mset (image_mset (\<lambda>(_, e). ce_cost e) (mset ?xs))" by (simp flip: sum_mset_sum_list)
  also have "\<dots> = (\<Sum>k \<in> dom es. ce_cost (the (es k)))" unfolding ms by (simp add: image_mset.compositionality comp_def sum_unfold_sum_mset)
  also have "\<dots> = shard_cost es" unfolding shard_cost_def total_cost_def by (simp, rule sum.cong) (auto simp: entry_costs_def)
  finally show "sm_cost m = sum_list (map (\<lambda>(_, e). ce_cost e) ?xs)" using T(2) by simp
  have "mset (map fst ?xs) = mset_set (dom es)" using ms by (simp add: image_mset.compositionality comp_def)
  then have "set (map fst ?xs) = dom es" "length (map fst ?xs) = card (dom es)" using f by (metis finite_set_mset_mset_set set_mset_mset, metis size_mset size_mset_set)
  then show "distinct (map fst ?xs)" by (metis card_distinct)
qed

text \<open>
  (C1) A shard with a built-in policy under any history of operations: inserts, removals, clears, TTL and TTI sweeps, reads
  of every kind, in any order. No operation panics: no index of the slab, the wheel, the ring or the
  arena is out of range, no \<^verbatim>\<open>expect\<close> fails, no subtraction of costs underflows, and every loop ends. Afterwards
  no key is twice in the table; the accounted cost is the sum of the costs of the entries; every
  entry with an expiry time has one armed timer under the hash of its key and no other timer is
  armed; and the policy knows exactly the nodes of the entries, with their hashes and costs. The costs of all inserts sum up
  to less than \<^verbatim>\<open>2 ^ 64\<close>, there are fewer than \<^verbatim>\<open>2 ^ 32\<close> of them, and times stay clear of the end of the 64-bit range.
\<close>

theorem shard_consistent:
  assumes "env_ok E" "0 < wheel_size" "now < 2 ^ 64" "choice = ChooseTinyLfu \<longrightarrow> cap * 20 < 2 ^ 64"
    "\<forall>cmd \<in> set cmds. cmd_ok E (max (tick mod 2 ^ 64) 1, wheel_size) cmd" "sum_list (map cmd_cost cmds) < 2 ^ 64" "sum_list (map cmd_inserts cmds) < 2 ^ 32"
  shows "\<exists>m es b rr. shard_do_all cmds E (shard_map_new E now wheel_size tick budget policy (Some (choice, cap))) = Some m \<and>
    (\<forall>k. sm_get k E m = es k) \<and> distinct (map fst (tb_iter (se_table E) (sm_table m))) \<and>
    sm_cost m = sum_list (map (\<lambda>(_, e). ce_cost e) (tb_iter (se_table E) (sm_table m))) \<and>
    (\<forall>k e. es k = Some e \<longrightarrow> (ce_timer e = None \<longleftrightarrow> ce_expires_at e = 0) \<and>
       (\<forall>i. ce_timer e = Some i \<longrightarrow> (\<exists>d. armed (se_arena E) (sm_wheel m) i = Some (se_hasher E k, d)))) \<and>
    (\<forall>i. armed (se_arena E) (sm_wheel m) i \<noteq> None \<longrightarrow> (\<exists>!k. \<exists>e. es k = Some e \<and> ce_timer e = Some i)) \<and>
    sm_builtin m = Some b \<and> builtin_tracks b rr \<and> (\<forall>k e. es k = Some e \<longrightarrow> rr (ce_node e) = Some (se_hasher E k, ce_cost e)) \<and>
    (\<forall>n x. rr n = Some x \<longrightarrow> (\<exists>!k. \<exists>e. es k = Some e \<and> ce_node e = n))"
proof -
  let ?m0 = "shard_map_new E now wheel_size tick budget policy (Some (choice, cap))"
  have W: "shard_within E ?m0 (choice = ChooseS3Fifo) Map.empty (max (tick mod 2 ^ 64) 1, wheel_size) 0 0" using assms(4) by (intro shard_map_new_within assms(1-3)) simp
  have n: "0 + sum_list (map cmd_cost cmds) < 2 ^ 64" "0 + sum_list (map cmd_inserts cmds) \<le> nil32" using assms(6,7) by (simp_all add: nil32_def)
  from shard_do_all_ok [OF assms(1) W assms(5) n] obtain m es where
    m: "shard_do_all cmds E ?m0 = Some m" "shard_ok E m (choice = ChooseS3Fifo) es" unfolding shard_within_def by blast
  obtain b rr where ok: "shard_core E m es {} {} rr" "sm_builtin m = Some b" "builtin_tracks b rr" by (rule shard_okE [OF m(2)]) blast
  note K = shard_coreD(5) [OF ok(1)] and N = shard_coreD(4) [OF ok(1)]
  have wf: "ce_timer e = None \<longleftrightarrow> ce_expires_at e = 0" if "es k = Some e" for k e using shard_coreD(2) [OF ok(1) that] by (auto simp: entry_wf_def)
  have ti: "\<exists>d. armed (se_arena E) (sm_wheel m) i = Some (se_hasher E k, d)" if "es k = Some e" "ce_timer e = Some i" for k e i
    using timers_okD(3) [OF K, of k i] that by (auto simp: armed_hash_def)
  have own: "\<exists>!k. \<exists>e. es k = Some e \<and> ce_timer e = Some i" if a: "armed (se_arena E) (sm_wheel m) i \<noteq> None" for i
  proof -
    obtain h where "armed_hash (se_arena E) (sm_wheel m) i = Some h" using a by (auto simp: armed_hash_def)
    then obtain k where k: "timer_of es k = Some i" using timers_okD(5) [OF K] by blast
    show ?thesis
    proof (rule ex1I [of _ k])
      show "\<exists>e. es k = Some e \<and> ce_timer e = Some i" using k by (auto simp: timer_of_def bind_eq_Some_conv)
      show "j = k" if "\<exists>e. es j = Some e \<and> ce_timer e = Some i" for j
      proof -
        have "timer_of es j = Some i" using that by (auto simp: timer_of_def)
        then show "j = k" by (rule timers_okD(4) [OF K _ k])
      qed
    qed
  qed
  have nod: "\<exists>!k. \<exists>e. es k = Some e \<and> ce_node e = n" if x: "rr n = Some x" for n x
  proof -
    from nodes_repD(3) [OF N x] obtain k e where k: "es k = Some e" "ce_node e = n" by (elim exE conjE)
    show ?thesis
    proof (rule ex1I [of _ k])
      show "\<exists>e. es k = Some e \<and> ce_node e = n" using k by blast
      show "j = k" if "\<exists>e. es j = Some e \<and> ce_node e = n" for j
      proof -
        from that obtain e' where "es j = Some e'" "ce_node e' = n" by (elim exE conjE)
        then show "j = k" using nodes_repD(4) [OF N \<open>es j = Some e'\<close> k(1)] k(2) by simp
      qed
    qed
  qed
  show ?thesis
  proof (intro exI [of _ m] exI [of _ es] exI [of _ b] exI [of _ rr] conjI allI impI)
    show "shard_do_all cmds E ?m0 = Some m" "sm_builtin m = Some b" "builtin_tracks b rr" by (rule m(1) ok(2,3))+
    show "sm_get k E m = es k" for k by (rule sm_get_ok [OF assms(1) m(2)])
    show "distinct (map fst (tb_iter (se_table E) (sm_table m)))" "sm_cost m = sum_list (map (\<lambda>(_, e). ce_cost e) (tb_iter (se_table E) (sm_table m)))"
      by (rule shard_ok_cost [OF assms(1) m(2)])+
    show "ce_timer e = None \<longleftrightarrow> ce_expires_at e = 0" if "es k = Some e" for k e by (rule wf [OF that])
    show "\<exists>d. armed (se_arena E) (sm_wheel m) i = Some (se_hasher E k, d)" if "es k = Some e" "ce_timer e = Some i" for k e i by (rule ti [OF that])
    show "\<exists>!k. \<exists>e. es k = Some e \<and> ce_timer e = Some i" if "armed (se_arena E) (sm_wheel m) i \<noteq> None" for i by (rule own [OF that])
    show "rr (ce_node e) = Some (se_hasher E k, ce_cost e)" if "es k = Some e" for k e by (rule nodes_repD(1) [OF N that])
    show "\<exists>!k. \<exists>e. es k = Some e \<and> ce_node e = n" if "rr n = Some x" for n x by (rule nod [OF that])
  qed
qed

definition example_env :: "((64 word \<times> nat \<times> (string, nat) cache_entry) list, nat, nat, string, nat timer option list, nat, unit) shard_env" where
  "example_env = \<lparr>se_table = list_table, se_hasher = of_nat, se_arena = vec_arena,
     se_policy = \<lparr>pol_on_access = \<lambda>_ _ s. Some s, pol_on_admit = \<lambda>_ _ s. Some (Admit, s), pol_on_remove = \<lambda>_ s. Some s, pol_evict = \<lambda>_ s. Some (([], 0), s), pol_clear = \<lambda>s. s\<rparr>,
     se_notify = True, se_grace_ns = 5, se_tti_ns = 0\<rparr>"

lemma example_env_ok: "env_ok example_env"
  by (simp add: env_ok_def list_table_laws vec_arena_laws example_env_def)

definition example_cmds :: "(nat, string, nat) shard_cmd list" where
  "example_cmds = [SInsert 0 1 (entry_new 0 ''a'' 3 (Some 100) None) True, SPush 0, SInsert 0 2 (entry_new 0 ''b'' 4 None None) True, SExpireDue 200 200, SRemoveKey 2]"

lemma example_cmds_ok: "\<forall>cmd \<in> set example_cmds. cmd_ok example_env (10, 4) cmd" "sum_list (map cmd_cost example_cmds) = 7" "sum_list (map cmd_inserts example_cmds) = 2"
  by (simp_all add: example_cmds_def entry_new_def Let_def time_ok_def as_u64_def u64_add_def example_env_def)

theorem shard_consistent_witness:
  "\<exists>m. shard_do_all example_cmds example_env (shard_map_new example_env 0 4 10 50 () (Some (ChooseTinyLfu, 50))) = Some m \<and>
     sm_cost m = sum_list (map (\<lambda>(_, e). ce_cost e) (tb_iter list_table (sm_table m)))"
proof -
  have "max (10 mod 2 ^ 64) 1 = (10 :: nat)" by simp
  then show ?thesis
    using shard_consistent [OF example_env_ok, of 4 0 ChooseTinyLfu 50 example_cmds 10 50 "()"] example_cmds_ok by (auto simp: example_env_def)
qed

text \<open>
  (C3) Capacity. In a shard under S3-FIFO, the default policy, \<^verbatim>\<open>insert\<close> returns the entry that was under the key, and when it
  returns the cost of the shard is within its budget, whatever the cost of the new entry; every
  other key still has its entry or was evicted, and the key has the new value, unless the entry was
  itself evicted.
\<close>

theorem shard_insert_within_budget:
  assumes "env_ok E" "shard_ok E m True es" "shard_cost es + ce_cost e < 2 ^ 64" "card (dom es) < 2 ^ 32 - 1"
    "ce_timer e = None" "now < 2 ^ 64" "time_ok E (wheel_shape m) (ce_expires_at e)"
  shows "\<exists>m'. sm_insert now k e E m = Some (sm_get k E m, m') \<and> sm_cost m' \<le> sm_budget m \<and>
    (\<forall>j. j \<noteq> k \<longrightarrow> sm_get j E m' = sm_get j E m \<or> sm_get j E m' = None) \<and>
    (case sm_get k E m' of None \<Rightarrow> True | Some e' \<Rightarrow> ce_value e' = ce_value e \<and> ce_cost e' = ce_cost e \<and> ce_expires_at e' = ce_expires_at e)"
proof -
  have c: "card (dom es) < nil32" using assms(4) by (simp add: nil32_def)
  from insert_inner_ok [OF assms(1-3) c assms(5-7), of k True] obtain m' es' e' where
    i: "insert_inner now k e (se_hasher E k) True E m = Some (es k, m')" "shard_ok E m' True es'" "es' \<subseteq>\<^sub>m es(k \<mapsto> e')" "same_content e' e"
      "sm_cost m' \<le> sm_budget m'" "sm_budget m' = sm_budget m" by auto
  have es': "es' j = (es(k \<mapsto> e')) j \<or> es' j = None" for j using i(3) unfolding map_le_def by (metis domIff)
  note g = sm_get_ok [OF assms(1,2)] sm_get_ok [OF assms(1) i(2)]
  have "case es' k of None \<Rightarrow> True | Some x \<Rightarrow> ce_value x = ce_value e \<and> ce_cost x = ce_cost e \<and> ce_expires_at x = ce_expires_at e"
    using es' [of k] i(4) by (auto simp: same_content_def split: option.splits)
  moreover have "es' j = es j \<or> es' j = None" if "j \<noteq> k" for j using es' [of j] that by simp
  ultimately show ?thesis using i(1,5,6) by (intro exI [of _ m']) (simp add: sm_insert_def g)
qed

definition example_entry :: "(string, nat) cache_entry" where
  "example_entry = entry_new 0 ''a'' 80 None None"

theorem shard_insert_within_budget_witness:
  "\<exists>m'. sm_insert 0 1 example_entry example_env (shard_map_new example_env 0 4 10 50 () (Some (ChooseS3Fifo, 50))) = Some (None, m') \<and> sm_cost m' \<le> 50"
proof -
  let ?m = "shard_map_new example_env 0 4 10 50 () (Some (ChooseS3Fifo, 50))"
  have "shard_within example_env ?m (ChooseS3Fifo = ChooseS3Fifo) Map.empty (max (10 mod 2 ^ 64) 1, 4) 0 0" by (rule shard_map_new_within [OF example_env_ok]) simp_all
  then have ok: "shard_ok example_env ?m True Map.empty" and sh: "wheel_shape ?m = (10, 4)" by (simp_all add: shard_within_def)
  have e: "ce_timer example_entry = None" "ce_cost example_entry = 80" "ce_expires_at example_entry = 0" by (simp_all add: example_entry_def entry_new_def Let_def)
  have t: "time_ok example_env (wheel_shape ?m) (ce_expires_at example_entry)" unfolding sh e by (simp add: time_ok_def example_env_def)
  have n: "sm_get 1 example_env ?m = None" "sm_budget ?m = 50" using sm_get_ok [OF example_env_ok ok] by (simp_all add: shard_map_new_def)
  show ?thesis using shard_insert_within_budget [OF example_env_ok ok _ _ e(1) _ t, of 0 1] e(2) unfolding n by (auto simp: shard_cost_def)
qed

text \<open>
  (C11) Expiry by timers. \<^verbatim>\<open>expire_due\<close> at a time \<open>now\<close> removes, and reports once each with the limit that ended it, exactly the entries
  past a limit whose hash is the hash of an entry with a due timer; every other entry stays
  unchanged, and the shard is consistent again: entries whose timer fired without their being past a limit have a new timer.
\<close>

theorem shard_expire_due_removes_expired:
  assumes "env_ok E" "shard_ok E m s3 es" "clock < 2 ^ 64" "times_ok E (wheel_shape m) es" "time_ok E (wheel_shape m) now"
  shows "\<exists>xs m' es'. expire_due clock now E m = Some (xs, m') \<and> shard_ok E m' s3 es' \<and> distinct (map fst xs) \<and>
    fst ` set xs = past_keys E now (se_hasher E ` due_keys E m now es) es \<and>
    (\<forall>(k, e, l) \<in> set xs. expired_by e now (se_grace_ns E) (se_tti_ns E) = Some l \<and> map_option ce_value (sm_get k E m) = Some (ce_value e)) \<and>
    (\<forall>k. rel_option same_but_timer (sm_get k E m') (if k \<in> fst ` set xs then None else sm_get k E m))"
proof -
  from expire_due_ok [OF assms] obtain xs m' es' where x: "expire_due clock now E m = Some (xs, m')" "shard_ok E m' s3 es'"
    "same_entries es' (es |` (- past_keys E now (se_hasher E ` due_keys E m now es) es))" "fst ` set xs = past_keys E now (se_hasher E ` due_keys E m now es) es" "distinct (map fst xs)"
    "\<forall>(k, e, l) \<in> set xs. expired_by e now (se_grace_ns E) (se_tti_ns E) = Some l \<and> (\<exists>e0. es k = Some e0 \<and> same_but_timer e e0)" by auto
  note g = sm_get_ok [OF assms(1,2)] sm_get_ok [OF assms(1) x(2)]
  have "rel_option same_but_timer (es' k) (if k \<in> fst ` set xs then None else es k)" for k
    using x(3) unfolding x(4) [symmetric] same_entries_def by (auto simp: restrict_map_def split: if_splits dest: spec [of _ k])
  moreover have "\<forall>(k, e, l) \<in> set xs. expired_by e now (se_grace_ns E) (se_tti_ns E) = Some l \<and> map_option ce_value (es k) = Some (ce_value e)"
    using x(6) by (fastforce simp: same_but_timer_def same_content_def)
  ultimately show ?thesis using x(1,2,4,5) by (intro exI [of _ xs] exI [of _ m'] exI [of _ es']) (simp only: g simp_thms)
qed

text \<open>A shard with an entry that expires and one that does not, for the example.\<close>

lemma insert_inner_room:
  assumes "arm now hash e E m = Some (e', m1)" "sm_builtin m1 = Some b" "is_s3 b" "sm_victims m1 = []"
    "tb_find (se_table E) (sm_table m1) hash (\<lambda>(k, _). k = key) = None" "builtin_admit hash (ce_cost e') [] b = Some (n, [], b')"
    "u64_add (sm_cost m1) (ce_cost e') \<le> sm_budget m1"
  shows "\<exists>c. insert_inner now key e hash counted E m = Some (None, m1\<lparr>sm_builtin := Some b', sm_table := tb_insert (se_table E) (sm_table m1) hash (key, e'\<lparr>ce_node := n\<rparr>),
    sm_cost := u64_add (sm_cost m1) (ce_cost e'), sm_victims := [], sm_local := c\<rparr>)"
proof -
  have r: "builtin_apply_reads (sm_ring m1) b = Some (sm_ring m1, b)" using assms(3) by (cases b) simp_all
  have "insert_builtin key e' hash E m1 = Some (None, m1\<lparr>sm_builtin := Some b', sm_table := tb_insert (se_table E) (sm_table m1) hash (key, e'\<lparr>ce_node := n\<rparr>),
    sm_cost := u64_add (sm_cost m1) (ce_cost e'), sm_victims := []\<rparr>)"
    unfolding insert_builtin_def using assms(2,4-7) r by (simp add: Let_def count_evicted_def)
  then show ?thesis unfolding insert_inner_def using assms(1,2) by (simp add: Let_def) blast
qed

lemma s3_admits:
  assumes "builtin_tracks b rr" "fits rr c 1" "is_s3 b"
  obtains n b' where "builtin_admit h c [] b = Some (n, [], b')" "builtin_tracks b' (rr(n \<mapsto> (h, c)))" "is_s3 b'" "rr n = None"
proof -
  obtain n out b' where a: "builtin_admit h c [] b = Some (n, out, b')" "builtin_tracks b' (without out (rr(n \<mapsto> (h, c))))" "is_s3 b' = is_s3 b" "rr n = None"
    using builtin_admit_ok [OF assms(1,2)] by metis
  obtain p where "b = S3Fifo p" using assms(3) by (cases b) simp_all
  then have "out = []" using a(1) by (auto simp: h3_admit_key_def Let_def bind_eq_Some_conv split: prod.splits)
  then show thesis using that a assms(3) by simp
qed

definition expiry_shard :: "((64 word \<times> nat \<times> (string, nat) cache_entry) list, nat, string, nat timer option list, nat, unit) shard_map" where
  "expiry_shard = shard_map_new example_env 0 4 10 50 () (Some (ChooseS3Fifo, 50))"

definition expiry_cmds :: "(nat, string, nat) shard_cmd list" where
  "expiry_cmds = [SInsert 0 1 (entry_new 0 ''a'' 3 (Some 100) None) True, SInsert 0 2 (entry_new 0 ''b'' 4 None None) True]"

lemma expiry_cmds_ok: "\<forall>cmd \<in> set expiry_cmds. cmd_ok example_env (10, 4) cmd" "sum_list (map cmd_cost expiry_cmds) = 7" "sum_list (map cmd_inserts expiry_cmds) = 2"
  by (simp_all add: expiry_cmds_def entry_new_def Let_def time_ok_def as_u64_def u64_add_def example_env_def)

lemma expiry_arm:
  "\<exists>w. arm 0 1 (entry_new 0 ''a'' 3 (Some 100) None) example_env expiry_shard =
     Some ((entry_new 0 ''a'' 3 (Some 100) None)\<lparr>ce_key_hash := 1, ce_timer := Some 0\<rparr>, expiry_shard\<lparr>sm_wheel := w\<rparr>) \<and>
     armed vec_arena w 0 = Some (1, 110)"
  by (simp add: expiry_shard_def shard_map_new_def arm_def entry_new_def as_u64_def u64_add_def example_env_def wheel_new_def wheel_start_def wheel_schedule_def
    slot_update_def empty_slot_def div_ceil_def saturating_sub_def u64_saturating_add_def u64_mul_def u64_max_def vec_get_def vec_set_def armed_def deadline_def tdata_def ahead_def Let_def)

lemma expiry_run:
  obtains m e1 e2 where "shard_do_all expiry_cmds example_env expiry_shard = Some m" "armed vec_arena (sm_wheel m) 0 = Some (1, 110)"
    "sm_table m = [(1, 1, e1), (2, 2, e2)]" "ce_timer e1 = Some 0" "ce_expires_at e1 = 100" "ce_timer e2 = None" "ce_expires_at e2 = 0" "ce_value e2 = ''b''"
proof -
  let ?e1 = "entry_new 0 ''a'' 3 (Some 100) None :: (string, nat) cache_entry" and ?e2 = "entry_new 0 ''b'' 4 None None :: (string, nat) cache_entry"
  let ?x1 = "?e1\<lparr>ce_key_hash := 1, ce_timer := Some 0\<rparr>" and ?x2 = "?e2\<lparr>ce_key_hash := 2\<rparr>"
  have e: "ce_cost ?e1 = 3" "ce_cost ?e2 = 4" "ce_expires_at ?e1 = 100" "ce_expires_at ?e2 = 0" "ce_value ?e2 = ''b''" "ce_timer ?e2 = None"
    by (simp_all add: entry_new_def Let_def as_u64_def u64_add_def)
  have env: "se_table example_env = list_table" "\<And>k. se_hasher example_env k = of_nat k" by (simp_all add: example_env_def)
  have t: "tb_insert list_table = (\<lambda>t h x. t @ [(h, x)])" "tb_find list_table = (\<lambda>t h p. find_index (\<lambda>(h', x). h' = h \<and> p x) t)" by (simp_all add: list_table_def)
  obtain w where w: "arm 0 1 ?e1 example_env expiry_shard = Some (?x1, expiry_shard\<lparr>sm_wheel := w\<rparr>)" "armed vec_arena w 0 = Some (1, 110)" using expiry_arm by blast
  let ?m0 = "expiry_shard\<lparr>sm_wheel := w\<rparr>"
  have m0: "sm_builtin ?m0 = Some (S3Fifo (hs3fifo_new 50))" "sm_victims ?m0 = []" "sm_table ?m0 = []" "sm_cost ?m0 = 0" "sm_budget ?m0 = 50"
    by (simp_all add: expiry_shard_def shard_map_new_def example_env_def list_table_def)
  have f: "fits Map.empty 3 1" "\<And>n. fits [n \<mapsto> (1, 3)] 4 1" by (simp_all add: fits_def resident_cost_def total_cost_def info_costs_def nil32_def)
  obtain n1 b1 where b1: "builtin_admit 1 3 [] (S3Fifo (hs3fifo_new 50)) = Some (n1, [], b1)" "builtin_tracks b1 [n1 \<mapsto> (1, 3)]" "is_s3 b1"
    by (rule s3_admits [where b = "S3Fifo (hs3fifo_new 50)" and h = 1, OF _ f(1)]) (simp_all add: hs3fifo_new_tracks)
  obtain n2 b2 where b2: "builtin_admit 2 4 [] b1 = Some (n2, [], b2)" by (rule s3_admits [where h = 2, OF b1(2) f(2) b1(3)])
  obtain c1 where i1: "insert_inner 0 1 ?e1 1 True example_env expiry_shard = Some (None, ?m0\<lparr>sm_builtin := Some b1, sm_table := [(1, 1, ?x1\<lparr>ce_node := n1\<rparr>)], sm_cost := 3, sm_victims := [], sm_local := c1\<rparr>)"
    using insert_inner_room [where key = 1 and n = n1 and b' = b1 and counted = True, OF w(1) m0(1) _ m0(2)] m0 b1(1) e(1) by (auto simp: env t)
  let ?m1 = "?m0\<lparr>sm_builtin := Some b1, sm_table := [(1, 1, ?x1\<lparr>ce_node := n1\<rparr>)], sm_cost := 3, sm_victims := [], sm_local := c1\<rparr>"
  have a2: "arm 0 2 ?e2 example_env ?m1 = Some (?x2, ?m1)" using e(4) by (simp add: arm_def Let_def)
  obtain c2 where i2: "insert_inner 0 2 ?e2 2 True example_env ?m1 = Some (None, ?m1\<lparr>sm_builtin := Some b2, sm_table := [(1, 1, ?x1\<lparr>ce_node := n1\<rparr>), (2, 2, ?x2\<lparr>ce_node := n2\<rparr>)], sm_cost := 7, sm_victims := [], sm_local := c2\<rparr>)"
    using insert_inner_room [where key = 2 and n = n2 and b' = b2 and counted = True, OF a2 _ b1(3)] m0(5) b2 e(2) by (auto simp: env t)
  have "shard_do_all expiry_cmds example_env expiry_shard = Some (?m1\<lparr>sm_builtin := Some b2, sm_table := [(1, 1, ?x1\<lparr>ce_node := n1\<rparr>), (2, 2, ?x2\<lparr>ce_node := n2\<rparr>)], sm_cost := 7, sm_victims := [], sm_local := c2\<rparr>)"
    using i1 i2 by (simp add: expiry_cmds_def done'_def env)
  then show thesis by (rule that [of _ "?x1\<lparr>ce_node := n1\<rparr>" "?x2\<lparr>ce_node := n2\<rparr>"]) (use w(2) e in simp_all)
qed

theorem shard_expire_due_removes_expired_witness:
  "\<exists>m xs m'. shard_do_all expiry_cmds example_env expiry_shard = Some m \<and> sm_get 1 example_env m \<noteq> None \<and> expire_due 0 200 example_env m = Some (xs, m') \<and>
     fst ` set xs = {1} \<and> sm_get 1 example_env m' = None \<and> map_option ce_value (sm_get 2 example_env m') = Some ''b''"
proof -
  obtain m e1 e2 where m: "shard_do_all expiry_cmds example_env expiry_shard = Some m" "armed vec_arena (sm_wheel m) 0 = Some (1, 110)" "sm_table m = [(1, 1, e1), (2, 2, e2)]"
    "ce_timer e1 = Some 0" "ce_expires_at e1 = 100" "ce_timer e2 = None" "ce_expires_at e2 = 0" "ce_value e2 = ''b''" by (rule expiry_run)
  have "shard_within example_env expiry_shard True Map.empty (10, 4) 0 0"
    using shard_map_new_within [OF example_env_ok, of 4 0 ChooseS3Fifo 50 10 50 "()"] by (simp add: expiry_shard_def)
  from shard_do_all_ok [OF example_env_ok this, of expiry_cmds] m(1) expiry_cmds_ok obtain es where
    k: "shard_ok example_env m True es" "wheel_shape m = (10, 4)" "times_ok example_env (10, 4) es" by (auto simp: shard_within_def nil32_def)
  have g: "sm_get k example_env m = (if k = 1 then Some e1 else if k = 2 then Some e2 else None)" for k
    using m(3) by (auto simp: sm_get_def sm_find_def example_env_def list_table_def)
  have es: "es k = (if k = 1 then Some e1 else if k = 2 then Some e2 else None)" for k using g [of k] sm_get_ok [OF example_env_ok k(1), of k] by simp
  have env: "se_arena example_env = vec_arena" "se_hasher example_env = of_nat" "se_grace_ns example_env = 5" "se_tti_ns example_env = 0" by (simp_all add: example_env_def)
  have due: "due_keys example_env m 200 es = {1}" unfolding due_keys_def timer_of_def env using es m(2,4,6) by (auto split: if_splits)
  have past: "past_keys example_env 200 (se_hasher example_env ` due_keys example_env m 200 es) es = {1}"
    unfolding past_keys_def due env using es m(5,7) by (auto simp: expired_by_def is_idle_def u64_saturating_add_def u64_max_def split: if_splits)
  have "time_ok example_env (wheel_shape m) 200" unfolding k(2) by (simp add: time_ok_def example_env_def)
  then obtain xs m' where x: "expire_due 0 200 example_env m = Some (xs, m')" "fst ` set xs = {1}"
    "\<And>k. rel_option same_but_timer (sm_get k example_env m') (if k \<in> fst ` set xs then None else sm_get k example_env m)"
    using shard_expire_due_removes_expired [OF example_env_ok k(1), of 0 200] k(2,3) unfolding past by auto
  have "sm_get 1 example_env m' = None" using x(3) [of 1] x(2) by simp
  moreover have "map_option ce_value (sm_get 2 example_env m') = Some ''b''"
    using x(3) [of 2] x(2) g [of 2] m(8) by (auto simp: option_rel_Some2 same_but_timer_def same_content_def)
  ultimately show ?thesis using m(1) g [of 1] x(1,2) by (intro exI [of _ m] exI [of _ xs] exI [of _ m']) simp
qed

end
