(* ===== verification/Channel_Error.thy ===== *)
theory Channel_Error
  imports Main
begin

section \<open>Errors of the channels\<close>

text \<open>
  The error values of \<^verbatim>\<open>channels/src/error.rs\<close> that the modelled channels return. A fallible operation
  returns \<^typ>\<open>'e + 'a\<close> with the error on the left, or an option of the error when success carries no
  value. A \<^verbatim>\<open>Poll<R>\<close> is an option, \<^term>\<open>None\<close> for \<^verbatim>\<open>Pending\<close>.
\<close>

datatype 'a try_send_error = Full 'a | Closed 'a | Sent 'a

primrec into_inner :: "'a try_send_error \<Rightarrow> 'a" where
  "into_inner (Full v) = v"
| "into_inner (Closed v) = v"
| "into_inner (Sent v) = v"

datatype try_recv_error = Empty | Disconnected

datatype send_error = SendClosed

datatype recv_error = RecvDisconnected

datatype recv_error_timeout = TimeoutDisconnected | Timeout

datatype batch_send_error_reason = BatchFull | BatchClosed

end
