(* ===== verification/Oneshot.thy ===== *)
theory Oneshot
  imports Prelude Channel_Error "HOL-Library.Word"
begin

section \<open>The oneshot channel\<close>

text \<open>
  \<^verbatim>\<open>channels/src/oneshot/core.rs\<close> and the handles of \<^verbatim>\<open>channels/src/oneshot/mod.rs\<close>. All the state of a
  channel is one 64-bit word, \<^verbatim>\<open>[sender count | RX_DROPPED | phase]\<close>, beside a slot for the value and the
  waker of the receiver. Every operation is a program counter and a step function that performs one
  atomic operation (or one access to the slot) per step, so that any number of senders and receiver
  calls interleave between any two of them. The steps are sequentially consistent; a
  \<^verbatim>\<open>compare_exchange_weak\<close> may fail spuriously. Reading or dropping an uninitialised slot and a failed
  \<^verbatim>\<open>debug_assert\<close> have no successor (\<^term>\<open>None\<close>).

  The slot \<^verbatim>\<open>MaybeUninit<T>\<close> is an option, \<^term>\<open>None\<close> when it holds no value that somebody still
  owns. The \<^verbatim>\<open>AtomicWaker\<close> of the \<^verbatim>\<open>futures-util\<close> crate is a parameter with its documented laws: a
  wake takes the waker registered last, and a second wake finds nothing.
\<close>

unbundle bit_operations_syntax

subsection \<open>The waker of the receiver\<close>

record ('w, 's) waker_ops =
  aw_new :: 's
  aw_register :: "'w \<Rightarrow> 's \<Rightarrow> 's"
  aw_take :: "'s \<Rightarrow> 'w option \<times> 's"

locale atomic_waker =
  fixes ops :: "('w, 's) waker_ops"
  assumes new_empty: "fst (aw_take ops (aw_new ops)) = None"
    and take_registered: "fst (aw_take ops (aw_register ops w s)) = Some w"
    and take_once: "fst (aw_take ops (snd (aw_take ops s))) = None"

definition waker_cell :: "('w, 'w option) waker_ops" where
  "waker_cell = \<lparr>aw_new = None, aw_register = (\<lambda>w s. Some w), aw_take = (\<lambda>s. (s, None))\<rparr>"

interpretation waker_cell: atomic_waker waker_cell
  by unfold_locales (simp_all add: waker_cell_def)

subsection \<open>The state word\<close>

definition state_empty :: "64 word" where "state_empty = 0"
definition state_writing :: "64 word" where "state_writing = 1"
definition state_sent :: "64 word" where "state_sent = 2"
definition state_taken :: "64 word" where "state_taken = 3"
definition state_closed :: "64 word" where "state_closed = 4"

definition phase_mask :: "64 word" where "phase_mask = 7"
definition rx_dropped :: "64 word" where "rx_dropped = push_bit 3 1"
definition count_shift :: nat where "count_shift = 4"
definition count_unit :: "64 word" where "count_unit = push_bit count_shift 1"

definition phase :: "64 word \<Rightarrow> 64 word" where
  "phase word = word AND phase_mask"

definition sender_count :: "64 word \<Rightarrow> 64 word" where
  "sender_count word = drop_bit count_shift word"

definition with_phase :: "64 word \<Rightarrow> 64 word \<Rightarrow> 64 word" where
  "with_phase word new_phase = (word AND NOT phase_mask) OR new_phase"

text \<open>
  The shared core. Beside the fields of the source it records the effects its operations have on the
  outside: the wakers it woke and the values whose destructor it ran.
\<close>

record ('a, 'w, 's) oneshot =
  os_state :: "64 word"
  os_slot :: "'a option"
  os_waker :: 's
  os_woken :: "'w list"
  os_dropped :: "'a list"

definition oneshot_new :: "('w, 's) waker_ops \<Rightarrow> ('a, 'w, 's) oneshot" where
  "oneshot_new ops = \<lparr>os_state = count_unit OR state_empty, os_slot = None, os_waker = aw_new ops, os_woken = [], os_dropped = []\<rparr>"

definition wake_receiver :: "('w, 's) waker_ops \<Rightarrow> ('a, 'w, 's) oneshot \<Rightarrow> ('a, 'w, 's) oneshot" where
  "wake_receiver ops s = (case aw_take ops (os_waker s) of (w, k) \<Rightarrow> s\<lparr>os_waker := k, os_woken := os_woken s @ (case w of None \<Rightarrow> [] | Some x \<Rightarrow> [x])\<rparr>)"

definition take_value :: "('a, 'w, 's) oneshot \<Rightarrow> ('a \<times> ('a, 'w, 's) oneshot) option" where
  "take_value s = (case os_slot s of None \<Rightarrow> None | Some v \<Rightarrow> Some (v, s\<lparr>os_slot := None\<rparr>))"

definition drop_value :: "('a, 'w, 's) oneshot \<Rightarrow> ('a, 'w, 's) oneshot option" where
  "drop_value s = do { (v, s') \<leftarrow> take_value s; Some (s'\<lparr>os_dropped := os_dropped s' @ [v]\<rparr>) }"

definition increment_senders :: "('a, 'w, 's) oneshot \<Rightarrow> ('a, 'w, 's) oneshot" where
  "increment_senders s = s\<lparr>os_state := os_state s + count_unit\<rparr>"

text \<open>\<^verbatim>\<open>compare_exchange_weak(cur, new)\<close>: \<open>spurious\<close> is the choice of the hardware to fail.\<close>

definition cas_weak :: "bool \<Rightarrow> 64 word \<Rightarrow> 64 word \<Rightarrow> ('a, 'w, 's) oneshot \<Rightarrow> ('a, 'w, 's) oneshot option" where
  "cas_weak spurious cur new s = (if os_state s = cur \<and> \<not> spurious then Some (s\<lparr>os_state := new\<rparr>) else None)"

subsection \<open>The operations, one atomic step at a time\<close>

text \<open>\<^verbatim>\<open>decrement_senders\<close>\<close>

datatype drop_pc = Drop_Start | Drop_Check "64 word" | Drop_Wake | Drop_Value | Drop_Done

fun decrement_senders :: "('w, 's) waker_ops \<Rightarrow> bool \<Rightarrow> drop_pc \<Rightarrow> ('a, 'w, 's) oneshot \<Rightarrow> (drop_pc \<times> ('a, 'w, 's) oneshot) option" where
  "decrement_senders ops spurious Drop_Start s =
     (let prev = os_state s; s' = s\<lparr>os_state := prev - count_unit\<rparr> in
      if sender_count prev < 1 then None
      else if sender_count prev \<noteq> 1 then Some (Drop_Done, s')
      else Some (Drop_Check (prev - count_unit), s'))"
| "decrement_senders ops spurious (Drop_Check cur) s =
     (if phase cur = state_empty then
        case cas_weak spurious cur (with_phase cur state_closed) s of Some s' \<Rightarrow> Some (Drop_Wake, s') | None \<Rightarrow> Some (Drop_Check (os_state s), s)
      else if phase cur = state_sent then
        (if cur AND rx_dropped = 0 then Some (Drop_Done, s)
         else case cas_weak spurious cur (with_phase cur state_taken) s of Some s' \<Rightarrow> Some (Drop_Value, s') | None \<Rightarrow> Some (Drop_Check (os_state s), s))
      else Some (Drop_Done, s))"
| "decrement_senders ops spurious Drop_Wake s = Some (Drop_Done, wake_receiver ops s)"
| "decrement_senders ops spurious Drop_Value s = do { s' \<leftarrow> drop_value s; Some (Drop_Done, s') }"
| "decrement_senders ops spurious Drop_Done s = None"

text \<open>\<^verbatim>\<open>mark_receiver_dropped\<close>\<close>

datatype mark_pc = Mark_Start | Mark_Check "64 word" | Mark_Value | Mark_Done

fun mark_receiver_dropped :: "bool \<Rightarrow> mark_pc \<Rightarrow> ('a, 'w, 's) oneshot \<Rightarrow> (mark_pc \<times> ('a, 'w, 's) oneshot) option" where
  "mark_receiver_dropped spurious Mark_Start s =
     (let prev = os_state s in Some (Mark_Check (prev OR rx_dropped), s\<lparr>os_state := prev OR rx_dropped\<rparr>))"
| "mark_receiver_dropped spurious (Mark_Check cur) s =
     (if phase cur = state_empty then
        case cas_weak spurious cur (with_phase cur state_closed) s of Some s' \<Rightarrow> Some (Mark_Done, s') | None \<Rightarrow> Some (Mark_Check (os_state s), s)
      else if phase cur = state_sent then
        case cas_weak spurious cur (with_phase cur state_taken) s of Some s' \<Rightarrow> Some (Mark_Value, s') | None \<Rightarrow> Some (Mark_Check (os_state s), s)
      else Some (Mark_Done, s))"
| "mark_receiver_dropped spurious Mark_Value s = do { s' \<leftarrow> drop_value s; Some (Mark_Done, s') }"
| "mark_receiver_dropped spurious Mark_Done s = None"

text \<open>\<^verbatim>\<open>send\<close>. \<open>Send_Done None\<close> is \<^verbatim>\<open>Ok(())\<close>.\<close>

datatype 'a send_pc = Send_Start | Send_Check "64 word" | Send_Recheck | Send_Rollback | Send_Write | Send_Publish | Send_Wake
  | Send_Done "'a try_send_error option"

fun oneshot_send :: "('w, 's) waker_ops \<Rightarrow> bool \<Rightarrow> 'a \<Rightarrow> 'a send_pc \<Rightarrow> ('a, 'w, 's) oneshot \<Rightarrow> ('a send_pc \<times> ('a, 'w, 's) oneshot) option" where
  "oneshot_send ops spurious value Send_Start s = Some (Send_Check (os_state s), s)"
| "oneshot_send ops spurious value (Send_Check cur) s =
     (if cur AND rx_dropped \<noteq> 0 then Some (Send_Done (Some (Closed value)), s)
      else if phase cur \<noteq> state_empty then Some (Send_Done (Some (Sent value)), s)
      else case cas_weak spurious cur (with_phase cur state_writing) s of Some s' \<Rightarrow> Some (Send_Recheck, s') | None \<Rightarrow> Some (Send_Check (os_state s), s))"
| "oneshot_send ops spurious value Send_Recheck s = Some (if os_state s AND rx_dropped \<noteq> 0 then Send_Rollback else Send_Write, s)"
| "oneshot_send ops spurious value Send_Rollback s =
     Some (Send_Done (Some (Closed value)), s\<lparr>os_state := os_state s - (state_writing - state_empty)\<rparr>)"
| "oneshot_send ops spurious value Send_Write s = Some (Send_Publish, s\<lparr>os_slot := Some value\<rparr>)"
| "oneshot_send ops spurious value Send_Publish s =
     (if phase (os_state s) \<noteq> state_writing then None
      else Some (Send_Wake, s\<lparr>os_state := os_state s + (state_sent - state_writing)\<rparr>))"
| "oneshot_send ops spurious value Send_Wake s = Some (Send_Done None, wake_receiver ops s)"
| "oneshot_send ops spurious value (Send_Done r) s = None"

text \<open>\<^verbatim>\<open>try_recv\<close>\<close>

datatype 'a recv_pc = Recv_Start | Recv_Check "64 word" | Recv_Take | Recv_Done "try_recv_error + 'a"

fun oneshot_try_recv :: "bool \<Rightarrow> 'a recv_pc \<Rightarrow> ('a, 'w, 's) oneshot \<Rightarrow> ('a recv_pc \<times> ('a, 'w, 's) oneshot) option" where
  "oneshot_try_recv spurious Recv_Start s = Some (Recv_Check (os_state s), s)"
| "oneshot_try_recv spurious (Recv_Check cur) s =
     (if phase cur = state_sent then
        case cas_weak spurious cur (with_phase cur state_taken) s of Some s' \<Rightarrow> Some (Recv_Take, s') | None \<Rightarrow> Some (Recv_Check (os_state s), s)
      else if phase cur = state_taken \<or> phase cur = state_writing then Some (Recv_Done (Inl Empty), s)
      else if phase cur = state_closed then Some (Recv_Done (Inl Disconnected), s)
      else if sender_count cur > 0 then Some (Recv_Done (Inl Empty), s)
      else case cas_weak spurious cur (with_phase cur state_closed) s of Some s' \<Rightarrow> Some (Recv_Done (Inl Disconnected), s') | None \<Rightarrow> Some (Recv_Check (os_state s), s))"
| "oneshot_try_recv spurious Recv_Take s = do { (v, s') \<leftarrow> take_value s; Some (Recv_Done (Inr v), s') }"
| "oneshot_try_recv spurious (Recv_Done r) s = None"

text \<open>\<^verbatim>\<open>poll_recv\<close>. \<open>Poll_Done None\<close> is \<^verbatim>\<open>Poll::Pending\<close>.\<close>

datatype 'a poll_pc = Poll_First "'a recv_pc" | Poll_Taken1 | Poll_Register | Poll_Second "'a recv_pc" | Poll_Taken2
  | Poll_Done "(recv_error + 'a) option"

fun poll_after :: "'a poll_pc \<Rightarrow> try_recv_error + 'a \<Rightarrow> 'a poll_pc" where
  "poll_after next_pc (Inr v) = Poll_Done (Some (Inr v))"
| "poll_after next_pc (Inl Disconnected) = Poll_Done (Some (Inl RecvDisconnected))"
| "poll_after next_pc (Inl Empty) = next_pc"

fun poll_recv :: "('w, 's) waker_ops \<Rightarrow> bool \<Rightarrow> 'w \<Rightarrow> 'a poll_pc \<Rightarrow> ('a, 'w, 's) oneshot \<Rightarrow> ('a poll_pc \<times> ('a, 'w, 's) oneshot) option" where
  "poll_recv ops spurious cx (Poll_First pc) s =
     do { (pc', s') \<leftarrow> oneshot_try_recv spurious pc s; Some (case pc' of Recv_Done r \<Rightarrow> poll_after Poll_Taken1 r | _ \<Rightarrow> Poll_First pc', s') }"
| "poll_recv ops spurious cx Poll_Taken1 s =
     Some (if phase (os_state s) = state_taken then Poll_Done (Some (Inl RecvDisconnected)) else Poll_Register, s)"
| "poll_recv ops spurious cx Poll_Register s = Some (Poll_Second Recv_Start, s\<lparr>os_waker := aw_register ops cx (os_waker s)\<rparr>)"
| "poll_recv ops spurious cx (Poll_Second pc) s =
     do { (pc', s') \<leftarrow> oneshot_try_recv spurious pc s; Some (case pc' of Recv_Done r \<Rightarrow> poll_after Poll_Taken2 r | _ \<Rightarrow> Poll_Second pc', s') }"
| "poll_recv ops spurious cx Poll_Taken2 s =
     Some (if phase (os_state s) = state_taken then Poll_Done (Some (Inl RecvDisconnected)) else Poll_Done None, s)"
| "poll_recv ops spurious cx (Poll_Done r) s = None"

definition is_receiver_dropped :: "('a, 'w, 's) oneshot \<Rightarrow> bool" where
  "is_receiver_dropped s \<longleftrightarrow> os_state s AND rx_dropped \<noteq> 0"

definition is_sent :: "('a, 'w, 's) oneshot \<Rightarrow> bool" where
  "is_sent s \<longleftrightarrow> (let p = phase (os_state s) in p = state_sent \<or> p = state_taken)"

definition is_closed_for_receiver :: "('a, 'w, 's) oneshot \<Rightarrow> bool" where
  "is_closed_for_receiver s \<longleftrightarrow>
     (let word = os_state s in
      if phase word = state_taken \<or> phase word = state_closed then True
      else if phase word = state_empty \<or> phase word = state_writing then sender_count word = 0 else False)"

text \<open>\<^verbatim>\<open>Drop for OneShotShared\<close>, when the last reference goes away.\<close>

definition drop_shared :: "('a, 'w, 's) oneshot \<Rightarrow> ('a, 'w, 's) oneshot option" where
  "drop_shared s = (if phase (os_state s) = state_sent then drop_value s else Some s)"

subsection \<open>Handles and interleavings\<close>

text \<open>
  A \<^verbatim>\<open>Sender\<close> of \<^verbatim>\<open>mod.rs\<close>: open, consumed by a running \<^verbatim>\<open>send\<close>, or with its \<^verbatim>\<open>closed\<close> flag set and
  \<^verbatim>\<open>decrement_senders\<close> running or finished. The last case keeps what a \<^verbatim>\<open>send\<close> on it returned.
\<close>

datatype 'a sender = Sender_Open | Sender_Sending 'a "'a send_pc" | Sender_Closed "('a \<times> 'a try_send_error option) option" drop_pc

text \<open>
  \<^verbatim>\<open>Sender::send\<close> consumes the handle: on a closed handle it fails at once, otherwise it runs the
  \<^verbatim>\<open>send\<close> of the core and then drops the handle, which sets the flag and decrements the count.
\<close>

fun sender_send :: "'a \<Rightarrow> 'a sender \<Rightarrow> 'a sender option" where
  "sender_send v Sender_Open = Some (Sender_Sending v Send_Start)"
| "sender_send v (Sender_Closed None Drop_Done) = Some (Sender_Closed (Some (v, Some (Closed v))) Drop_Done)"
| "sender_send v _ = None"

text \<open>\<^verbatim>\<open>Sender::close\<close> and \<^verbatim>\<open>Drop for Sender\<close>: the flag decides who runs \<^verbatim>\<open>close_internal\<close>.\<close>

fun sender_close :: "'a sender \<Rightarrow> 'a sender option" where
  "sender_close Sender_Open = Some (Sender_Closed None Drop_Start)"
| "sender_close (Sender_Sending v (Send_Done r)) = Some (Sender_Closed (Some (v, r)) Drop_Start)"
| "sender_close _ = None"

text \<open>\<^verbatim>\<open>Clone for Sender\<close> needs a reference to the handle, closed or not.\<close>

fun sender_cloneable :: "'a sender \<Rightarrow> bool" where
  "sender_cloneable Sender_Open = True"
| "sender_cloneable (Sender_Closed None pc) = True"
| "sender_cloneable _ = False"

fun sender_step :: "('w, 's) waker_ops \<Rightarrow> bool \<Rightarrow> 'a sender \<Rightarrow> ('a, 'w, 's) oneshot \<Rightarrow> ('a sender \<times> ('a, 'w, 's) oneshot) option" where
  "sender_step ops spurious (Sender_Sending v pc) s = do { (pc', s') \<leftarrow> oneshot_send ops spurious v pc s; Some (Sender_Sending v pc', s') }"
| "sender_step ops spurious (Sender_Closed r pc) s = do { (pc', s') \<leftarrow> decrement_senders ops spurious pc s; Some (Sender_Closed r pc', s') }"
| "sender_step ops spurious Sender_Open s = None"

text \<open>
  A call on the \<^verbatim>\<open>Receiver\<close>: \<^verbatim>\<open>try_recv\<close> or a \<^verbatim>\<open>poll\<close> of a \<^verbatim>\<open>ReceiveFuture\<close> with the waker of its task.
  Both look at the \<^verbatim>\<open>closed\<close> flag of the handle first.
\<close>

datatype ('a, 'w) reader = Reader_Try "'a recv_pc" | Reader_Poll 'w "'a poll_pc"

definition reader_try :: "mark_pc option \<Rightarrow> ('a, 'w) reader" where
  "reader_try rx = Reader_Try (if rx \<noteq> None then Recv_Done (Inl Disconnected) else Recv_Start)"

definition reader_poll :: "'w \<Rightarrow> mark_pc option \<Rightarrow> ('a, 'w) reader" where
  "reader_poll w rx = Reader_Poll w (if rx \<noteq> None then Poll_Done (Some (Inl RecvDisconnected)) else Poll_First Recv_Start)"

fun reader_step :: "('w, 's) waker_ops \<Rightarrow> bool \<Rightarrow> ('a, 'w) reader \<Rightarrow> ('a, 'w, 's) oneshot \<Rightarrow> (('a, 'w) reader \<times> ('a, 'w, 's) oneshot) option" where
  "reader_step ops spurious (Reader_Try pc) s = do { (pc', s') \<leftarrow> oneshot_try_recv spurious pc s; Some (Reader_Try pc', s') }"
| "reader_step ops spurious (Reader_Poll w pc) s = do { (pc', s') \<leftarrow> poll_recv ops spurious w pc s; Some (Reader_Poll w pc', s') }"

text \<open>
  A configuration: the core, the sender handles and the receiver calls made so far under distinct
  names, and the closing of the receiver, \<^term>\<open>None\<close> while its flag is not set. \<open>excl\<close> restricts
  the runs to one receiver operation at a time, as when a single task owns the \<^verbatim>\<open>Receiver\<close>; without
  it several futures of the same receiver may run at once.
\<close>

record ('h, 'r, 'a, 'w, 's) config =
  cf_core :: "('a, 'w, 's) oneshot"
  cf_senders :: "'h \<rightharpoonup> 'a sender"
  cf_readers :: "'r \<rightharpoonup> ('a, 'w) reader"
  cf_rx :: "mark_pc option"

definition oneshot_pair :: "('w, 's) waker_ops \<Rightarrow> 'h \<Rightarrow> ('h, 'r, 'a, 'w, 's) config" where
  "oneshot_pair ops h = \<lparr>cf_core = oneshot_new ops, cf_senders = [h \<mapsto> Sender_Open], cf_readers = Map.empty, cf_rx = None\<rparr>"

fun reader_done :: "('a, 'w) reader \<Rightarrow> bool" where
  "reader_done (Reader_Try (Recv_Done r)) = True"
| "reader_done (Reader_Poll w (Poll_Done r)) = True"
| "reader_done _ = False"

definition readers_done :: "('r \<rightharpoonup> ('a, 'w) reader) \<Rightarrow> bool" where
  "readers_done m \<longleftrightarrow> (\<forall>r x. m r = Some x \<longrightarrow> reader_done x)"

definition rx_idle :: "mark_pc option \<Rightarrow> bool" where
  "rx_idle rx \<longleftrightarrow> rx = None \<or> rx = Some Mark_Done"

inductive os_step :: "('w, 's) waker_ops \<Rightarrow> bool \<Rightarrow> ('h, 'r, 'a, 'w, 's) config \<Rightarrow> ('h, 'r, 'a, 'w, 's) config \<Rightarrow> bool"
  for ops excl where
  os_clone: "cf_senders c h = Some x \<Longrightarrow> sender_cloneable x \<Longrightarrow> cf_senders c h' = None \<Longrightarrow>
    os_step ops excl c (c\<lparr>cf_core := increment_senders (cf_core c), cf_senders := (cf_senders c)(h' \<mapsto> Sender_Open)\<rparr>)"
| os_send: "cf_senders c h = Some x \<Longrightarrow> sender_send v x = Some x' \<Longrightarrow> os_step ops excl c (c\<lparr>cf_senders := (cf_senders c)(h \<mapsto> x')\<rparr>)"
| os_close: "cf_senders c h = Some x \<Longrightarrow> sender_close x = Some x' \<Longrightarrow> os_step ops excl c (c\<lparr>cf_senders := (cf_senders c)(h \<mapsto> x')\<rparr>)"
| os_sender: "cf_senders c h = Some x \<Longrightarrow> sender_step ops sp x (cf_core c) = Some (x', s') \<Longrightarrow>
    os_step ops excl c (c\<lparr>cf_core := s', cf_senders := (cf_senders c)(h \<mapsto> x')\<rparr>)"
| os_try: "cf_readers c r = None \<Longrightarrow> excl \<longrightarrow> readers_done (cf_readers c) \<and> rx_idle (cf_rx c) \<Longrightarrow>
    os_step ops excl c (c\<lparr>cf_readers := (cf_readers c)(r \<mapsto> reader_try (cf_rx c))\<rparr>)"
| os_poll: "cf_readers c r = None \<Longrightarrow> excl \<longrightarrow> readers_done (cf_readers c) \<and> rx_idle (cf_rx c) \<Longrightarrow>
    os_step ops excl c (c\<lparr>cf_readers := (cf_readers c)(r \<mapsto> reader_poll w (cf_rx c))\<rparr>)"
| os_reader: "cf_readers c r = Some x \<Longrightarrow> reader_step ops sp x (cf_core c) = Some (x', s') \<Longrightarrow>
    os_step ops excl c (c\<lparr>cf_core := s', cf_readers := (cf_readers c)(r \<mapsto> x')\<rparr>)"
| os_rx_close: "cf_rx c = None \<Longrightarrow> excl \<longrightarrow> readers_done (cf_readers c) \<Longrightarrow> os_step ops excl c (c\<lparr>cf_rx := Some Mark_Start\<rparr>)"
| os_rx: "cf_rx c = Some pc \<Longrightarrow> mark_receiver_dropped sp pc (cf_core c) = Some (pc', s') \<Longrightarrow>
    os_step ops excl c (c\<lparr>cf_core := s', cf_rx := Some pc'\<rparr>)"

definition os_reachable :: "('w, 's) waker_ops \<Rightarrow> bool \<Rightarrow> ('h, 'r, 'a, 'w, 's) config \<Rightarrow> bool" where
  "os_reachable ops excl c \<longleftrightarrow> (\<exists>h. (os_step ops excl)\<^sup>*\<^sup>* (oneshot_pair ops h) c)"

end
