(* ===== verification/Oneshot_Protocol.thy ===== *)
theory Oneshot_Protocol
  imports Oneshot
begin

section \<open>The protocol of the oneshot channel\<close>

unbundle bit_operations_syntax

subsection \<open>Arithmetic of the state word\<close>

definition os_high :: "nat \<Rightarrow> bool \<Rightarrow> nat" where
  "os_high n rx = 2 * n + of_bool rx"

definition os_word :: "nat \<Rightarrow> bool \<Rightarrow> nat \<Rightarrow> 64 word" where
  "os_word n rx p = of_nat (8 * os_high n rx + p)"

lemma bit_octal: "p < 8 \<Longrightarrow> bit (8 * k + p) i \<longleftrightarrow> (if i < 3 then bit p i else bit k (i - 3))" for p k i :: nat
proof -
  assume p: "p < 8"
  have "take_bit 3 (8 * k + p) = p" "drop_bit 3 (8 * k + p) = k" using p by (simp_all add: take_bit_eq_mod drop_bit_eq_div)
  then have "i < 3 \<Longrightarrow> bit (8 * k + p) i \<longleftrightarrow> bit p i" "\<not> i < 3 \<Longrightarrow> bit (8 * k + p) i \<longleftrightarrow> bit k (i - 3)"
    by (metis bit_take_bit_iff, metis bit_drop_bit_eq comp_apply le_add_diff_inverse not_less)
  then show ?thesis by simp
qed

lemma bit_small: "p < 8 \<Longrightarrow> bit p i \<Longrightarrow> i < 3" for p i :: nat
  using bit_octal [of p 0 i] by (auto split: if_splits)

lemma bit_os_word: "p < 8 \<Longrightarrow> bit (os_word n rx p) i \<longleftrightarrow> i < 64 \<and> (if i < 3 then bit p i else bit (os_high n rx) (i - 3))"
  by (simp add: os_word_def bit_of_nat_iff bit_octal del: of_nat_add of_nat_mult)

lemma bit_word_small: "p < 8 \<Longrightarrow> bit (of_nat p :: 64 word) i \<longleftrightarrow> bit p i"
  using bit_small [of p i] by (auto simp: bit_of_nat_iff)

lemma bit_flag: "bit (os_high n rx) 0 \<longleftrightarrow> rx" "0 < j \<Longrightarrow> bit (os_high n rx) j \<longleftrightarrow> bit n (j - 1)"
  by (simp_all add: os_high_def bit_0 bit_rec [of "Suc (2 * n)" j] bit_rec [of "2 * n" j])

lemma phase_bits: "bit phase_mask i \<longleftrightarrow> i < 3"
proof -
  have e: "phase_mask = mask 3" by (simp add: phase_mask_def mask_eq_exp_minus_1)
  show ?thesis unfolding e bit_mask_iff by auto
qed

lemma phase_os_word: "p < 8 \<Longrightarrow> phase (os_word n rx p) = of_nat p"
  by (rule bit_eqI) (auto simp: phase_def bit_and_iff bit_os_word phase_bits bit_word_small dest: bit_small)

lemma with_phase_os_word [simp]: "p < 8 \<Longrightarrow> q < 8 \<Longrightarrow> with_phase (os_word n rx p) (of_nat q) = os_word n rx q"
  by (rule bit_eqI) (auto simp: with_phase_def bit_or_iff bit_and_iff bit_not_iff bit_os_word phase_bits bit_word_small dest: bit_small)

lemma rx_bits: "bit rx_dropped i \<longleftrightarrow> i = 3"
  unfolding rx_dropped_def bit_push_bit_iff bit_1_iff by auto

lemma rx_os_word [simp]: "p < 8 \<Longrightarrow> os_word n rx p AND rx_dropped = 0 \<longleftrightarrow> \<not> rx"
proof -
  assume p: "p < 8"
  have "bit (os_word n rx p AND rx_dropped) i \<longleftrightarrow> rx \<and> i = 3" for i using p by (auto simp: bit_and_iff bit_os_word rx_bits bit_flag)
  then show ?thesis by (metis bit_0_eq bit_eqI bot_apply bot_bool_def)
qed

lemma mark_os_word [simp]: "p < 8 \<Longrightarrow> os_word n rx p OR rx_dropped = os_word n True p"
proof (rule bit_eqI)
  fix i assume p: "p < 8"
  have "bit (os_high n True) (i - 3) \<longleftrightarrow> bit (os_high n rx) (i - 3) \<or> i = 3" if "3 \<le> i" "i < 64"
    using that bit_flag(1) [of n] bit_flag(2) [of "i - 3" n] by (cases "i = 3") auto
  with p show "bit (os_word n rx p OR rx_dropped) i \<longleftrightarrow> bit (os_word n True p) i" by (auto simp: bit_or_iff bit_os_word rx_bits not_less)
qed

lemma os_word_bound: "p < 8 \<Longrightarrow> n < 2 ^ 60 \<Longrightarrow> 8 * os_high n rx + p < 2 ^ 64"
  by (cases rx) (simp_all add: os_high_def)

lemma unat_os_word: "p < 8 \<Longrightarrow> n < 2 ^ 60 \<Longrightarrow> unat (os_word n rx p) = 8 * os_high n rx + p"
  using os_word_bound [of p n rx] by (simp add: os_word_def unsigned_of_nat take_bit_nat_eq_self del: of_nat_add of_nat_mult)

lemma unat_count: "p < 8 \<Longrightarrow> n < 2 ^ 60 \<Longrightarrow> unat (sender_count (os_word n rx p)) = n"
proof -
  assume h: "p < 8" "n < 2 ^ 60"
  have "(8 * os_high n rx + p) div 16 = n" using h(1) by (cases rx) (simp_all add: os_high_def)
  then show ?thesis unfolding sender_count_def count_shift_def unat_drop_bit_eq unat_os_word [OF h] by (simp add: drop_bit_eq_div)
qed

lemma count_eq:
  assumes "p < 8" "n < 2 ^ 60"
  shows "sender_count (os_word n rx p) = 1 \<longleftrightarrow> n = 1" "sender_count (os_word n rx p) < 1 \<longleftrightarrow> n = 0" "0 < sender_count (os_word n rx p) \<longleftrightarrow> 0 < n"
    "sender_count (os_word n rx p) = 0 \<longleftrightarrow> n = 0"
  using unat_count [OF assms, of rx] by (simp_all add: word_unat_eq_iff word_less_nat_alt)

lemma os_word_count: "os_word n rx p + count_unit = os_word (Suc n) rx p" "os_word (Suc n) rx p - count_unit = os_word n rx p"
  by (simp_all add: os_word_def os_high_def count_unit_def count_shift_def push_bit_eq_mult)

lemma os_word_phase: "os_word n rx 1 - (state_writing - state_empty) = os_word n rx 0" "os_word n rx 1 + (state_sent - state_writing) = os_word n rx 2"
  by (simp_all add: os_word_def state_writing_def state_empty_def state_sent_def)

lemma os_word_inj: "n < 2 ^ 60 \<Longrightarrow> m < 2 ^ 60 \<Longrightarrow> p < 8 \<Longrightarrow> q < 8 \<Longrightarrow> os_word n rx p = os_word m ry q \<longleftrightarrow> n = m \<and> rx = ry \<and> p = q"
proof
  assume h: "n < 2 ^ 60" "m < 2 ^ 60" "p < 8" "q < 8" and e: "os_word n rx p = os_word m ry q"
  then have "8 * os_high n rx + p = 8 * os_high m ry + q" using unat_os_word [of p n rx] unat_os_word [of q m ry] by simp
  then have "os_high n rx = os_high m ry \<and> p = q" using h by presburger
  then show "n = m \<and> rx = ry \<and> p = q" by (cases rx; cases ry) (auto simp: os_high_def, presburger+)
qed simp

lemma phase_consts: "state_empty = of_nat 0" "state_writing = of_nat 1" "state_sent = of_nat 2" "state_taken = of_nat 3" "state_closed = of_nat 4"
  by (simp_all add: state_empty_def state_writing_def state_sent_def state_taken_def state_closed_def)

lemma phase_os_word_eq [simp]: "p < 8 \<Longrightarrow> q < 8 \<Longrightarrow> phase (os_word n rx p) = of_nat q \<longleftrightarrow> p = q"
proof -
  assume h: "p < 8" "q < 8"
  then have "unat (of_nat p :: 64 word) = p" "unat (of_nat q :: 64 word) = q" by (simp_all add: unsigned_of_nat take_bit_nat_eq_self)
  then show ?thesis using h by (simp only: phase_os_word) metis
qed

lemma phase_is [simp]:
  assumes "p < 8"
  shows "phase (os_word n rx p) = state_empty \<longleftrightarrow> p = 0" "phase (os_word n rx p) = state_writing \<longleftrightarrow> p = 1" "phase (os_word n rx p) = state_sent \<longleftrightarrow> p = 2"
    "phase (os_word n rx p) = state_taken \<longleftrightarrow> p = 3" "phase (os_word n rx p) = state_closed \<longleftrightarrow> p = 4"
  unfolding phase_consts by (rule phase_os_word_eq; use assms in simp)+

lemma with_phase_is [simp]:
  assumes "p < 8"
  shows "with_phase (os_word n rx p) state_writing = os_word n rx 1" "with_phase (os_word n rx p) state_taken = os_word n rx 3" "with_phase (os_word n rx p) state_closed = os_word n rx 4"
  unfolding phase_consts by (rule with_phase_os_word; use assms in simp)+

subsection \<open>The abstract protocol\<close>

text \<open>
  What the channel promises: nothing sent yet; a sender has claimed the channel and has not or has
  written its value; the value is sent; somebody has claimed it; it was received, or dropped; the
  channel was closed without a value.
\<close>

datatype ('h, 'r) agent = Snd 'h | Rdr 'r | Rcv

datatype ('h, 'r, 'a) os_abs = A_Empty | A_Writing 'h 'a bool | A_Sent 'h 'a | A_Taking 'h 'a "('h, 'r) agent" | A_Received 'h 'a 'r | A_Dropped 'h 'a | A_Closed

inductive os_abs_step :: "bool \<Rightarrow> ('h, 'r, 'a) os_abs \<Rightarrow> ('h, 'r, 'a) os_abs \<Rightarrow> bool" for rx where
  abs_stutter: "os_abs_step rx A A"
| abs_claim: "\<not> rx \<Longrightarrow> os_abs_step rx A_Empty (A_Writing h v False)"
| abs_rollback: "rx \<Longrightarrow> os_abs_step rx (A_Writing h v False) A_Empty"
| abs_write: "os_abs_step rx (A_Writing h v False) (A_Writing h v True)"
| abs_publish: "os_abs_step rx (A_Writing h v True) (A_Sent h v)"
| abs_take: "rx \<or> (\<exists>r. a = Rdr r) \<Longrightarrow> os_abs_step rx (A_Sent h v) (A_Taking h v a)"
| abs_receive: "os_abs_step rx (A_Taking h v (Rdr r)) (A_Received h v r)"
| abs_drop: "\<forall>r. a \<noteq> Rdr r \<Longrightarrow> os_abs_step rx (A_Taking h v a) (A_Dropped h v)"
| abs_close: "os_abs_step rx A_Empty A_Closed"

fun phase_of :: "('h, 'r, 'a) os_abs \<Rightarrow> nat" where
  "phase_of A_Empty = 0" | "phase_of (A_Writing h v b) = 1" | "phase_of (A_Sent h v) = 2" | "phase_of A_Closed = 4" | "phase_of _ = 3"

fun slot_of_abs :: "('h, 'r, 'a) os_abs \<Rightarrow> 'a option" where
  "slot_of_abs (A_Writing h v b) = (if b then Some v else None)" | "slot_of_abs (A_Sent h v) = Some v" | "slot_of_abs (A_Taking h v a) = Some v" | "slot_of_abs _ = None"

fun dropped_of :: "('h, 'r, 'a) os_abs \<Rightarrow> 'a list" where
  "dropped_of (A_Dropped h v) = [v]" | "dropped_of _ = []"

fun writer_of :: "('h, 'r, 'a) os_abs \<Rightarrow> 'h \<rightharpoonup> 'a \<times> bool" where
  "writer_of (A_Writing h v b) = [h \<mapsto> (v, b)]" | "writer_of _ = Map.empty"

fun sends_of :: "('h, 'r, 'a) os_abs \<Rightarrow> 'h \<rightharpoonup> 'a" where
  "sends_of (A_Sent h v) = [h \<mapsto> v]" | "sends_of (A_Taking h v a) = [h \<mapsto> v]" | "sends_of (A_Received h v r) = [h \<mapsto> v]" | "sends_of (A_Dropped h v) = [h \<mapsto> v]"
| "sends_of _ = Map.empty"

fun taker_of :: "('h, 'r, 'a) os_abs \<Rightarrow> ('h, 'r) agent set" where
  "taker_of (A_Taking h v a) = {a}" | "taker_of _ = {}"

fun receives_of :: "('h, 'r, 'a) os_abs \<Rightarrow> 'r \<rightharpoonup> 'a" where
  "receives_of (A_Received h v r) = [r \<mapsto> v]" | "receives_of _ = Map.empty"

lemma phase_of_less [simp]: "phase_of A < 8"
  by (cases A) simp_all

lemma phase_of_cases: "phase_of A = 0 \<longleftrightarrow> A = A_Empty" "phase_of A = Suc 0 \<longleftrightarrow> (\<exists>h v b. A = A_Writing h v b)" "phase_of A = 2 \<longleftrightarrow> (\<exists>h v. A = A_Sent h v)" "phase_of A = 4 \<longleftrightarrow> A = A_Closed"
  by (cases A; simp)+

text \<open>What a configuration shows of it: who holds a share of the count, who is writing, which sends published, who is taking the value, which calls received it.\<close>

fun holds :: "'a sender \<Rightarrow> unit option" where
  "holds (Sender_Closed r pc) = (if pc = Drop_Start then Some () else None)" | "holds _ = Some ()"

fun writing :: "'a sender \<Rightarrow> ('a \<times> bool) option" where
  "writing (Sender_Sending v pc) = (if pc \<in> {Send_Recheck, Send_Rollback, Send_Write} then Some (v, False) else if pc = Send_Publish then Some (v, True) else None)"
| "writing _ = None"

fun published :: "'a sender \<Rightarrow> 'a option" where
  "published (Sender_Sending v pc) = (if pc = Send_Wake \<or> pc = Send_Done None then Some v else None)"
| "published (Sender_Closed r pc) = (case r of Some (v, None) \<Rightarrow> Some v | _ \<Rightarrow> None)"
| "published Sender_Open = None"

fun received :: "('a, 'w) reader \<Rightarrow> 'a option" where
  "received (Reader_Try (Recv_Done (Inr v))) = Some v"
| "received (Reader_Poll w (Poll_Done (Some (Inr v)))) = Some v"
| "received _ = None"

text \<open>A sender that has seen the receiver gone.\<close>

fun saw_rx :: "'a sender \<Rightarrow> bool" where
  "saw_rx (Sender_Sending v (Send_Check cur)) \<longleftrightarrow> cur AND rx_dropped \<noteq> 0"
| "saw_rx (Sender_Sending v Send_Rollback) \<longleftrightarrow> True"
| "saw_rx (Sender_Sending v (Send_Done (Some (Closed u)))) \<longleftrightarrow> True"
| "saw_rx _ \<longleftrightarrow> False"

fun sender_taking :: "'a sender \<Rightarrow> bool" where
  "sender_taking (Sender_Closed r pc) \<longleftrightarrow> pc = Drop_Value" | "sender_taking _ \<longleftrightarrow> False"

fun reader_taking :: "('a, 'w) reader \<Rightarrow> bool" where
  "reader_taking (Reader_Try pc) \<longleftrightarrow> pc = Recv_Take"
| "reader_taking (Reader_Poll w pc) \<longleftrightarrow> pc = Poll_First Recv_Take \<or> pc = Poll_Second Recv_Take"

fun taking :: "('h \<rightharpoonup> 'a sender) \<Rightarrow> ('r \<rightharpoonup> ('a, 'w) reader) \<Rightarrow> mark_pc option \<Rightarrow> ('h, 'r) agent \<Rightarrow> bool" where
  "taking ss rs rx (Snd h) \<longleftrightarrow> (\<exists>x. ss h = Some x \<and> sender_taking x)"
| "taking ss rs rx (Rdr r) \<longleftrightarrow> (\<exists>x. rs r = Some x \<and> reader_taking x)"
| "taking ss rs rx Rcv \<longleftrightarrow> rx = Some Mark_Value"

definition takers :: "('h \<rightharpoonup> 'a sender) \<Rightarrow> ('r \<rightharpoonup> ('a, 'w) reader) \<Rightarrow> mark_pc option \<Rightarrow> ('h, 'r) agent set" where
  "takers ss rs rx = {a. taking ss rs rx a}"

definition rx_marked :: "mark_pc option \<Rightarrow> bool" where
  "rx_marked rx \<longleftrightarrow> rx \<noteq> None \<and> rx \<noteq> Some Mark_Start"

definition os_count :: "('h \<rightharpoonup> 'a sender) \<Rightarrow> nat" where
  "os_count ss = card (dom (holds \<circ>\<^sub>m ss))"

definition os_sends :: "('h, 'r, 'a, 'w, 's) config \<Rightarrow> 'h \<rightharpoonup> 'a" where
  "os_sends c = published \<circ>\<^sub>m cf_senders c"

definition os_receives :: "('h, 'r, 'a, 'w, 's) config \<Rightarrow> 'r \<rightharpoonup> 'a" where
  "os_receives c = received \<circ>\<^sub>m cf_readers c"

definition os_rel :: "('h, 'r, 'a) os_abs \<Rightarrow> ('h, 'r, 'a, 'w, 's) config \<Rightarrow> bool" where
  "os_rel A c \<longleftrightarrow> finite (dom (cf_senders c)) \<and> os_state (cf_core c) = os_word (os_count (cf_senders c)) (rx_marked (cf_rx c)) (phase_of A) \<and>
     os_slot (cf_core c) = slot_of_abs A \<and> os_dropped (cf_core c) = dropped_of A \<and>
     writing \<circ>\<^sub>m cf_senders c = writer_of A \<and> os_sends c = sends_of A \<and>
     takers (cf_senders c) (cf_readers c) (cf_rx c) = taker_of A \<and> os_receives c = receives_of A \<and>
     (\<forall>h x. cf_senders c h = Some x \<and> saw_rx x \<longrightarrow> rx_marked (cf_rx c))"

subsubsection \<open>Updates\<close>

lemma map_comp_upd [simp]: "f \<circ>\<^sub>m (m(k \<mapsto> x)) = (f \<circ>\<^sub>m m)(k := f x)"
  by (auto simp: map_comp_def fun_eq_iff)

lemma takers_sender: "takers (ss(h \<mapsto> x)) rs rx = (if sender_taking x then insert (Snd h) (takers ss rs rx) else takers ss rs rx - {Snd h})"
  unfolding takers_def by (rule set_eqI) (case_tac x; case_tac xa; simp)

lemma takers_reader: "takers ss (rs(r \<mapsto> x)) rx = (if reader_taking x then insert (Rdr r) (takers ss rs rx) else takers ss rs rx - {Rdr r})"
  unfolding takers_def by (rule set_eqI) (case_tac x; case_tac xa; simp)

lemma takers_rx: "takers ss rs rx' = (if rx' = Some Mark_Value then insert Rcv (takers ss rs rx) else takers ss rs rx - {Rcv})"
proof (rule set_eqI)
  show "a \<in> takers ss rs rx' \<longleftrightarrow> a \<in> (if rx' = Some Mark_Value then insert Rcv (takers ss rs rx) else takers ss rs rx - {Rcv})" for a
    by (cases a) (simp_all add: takers_def)
qed

lemma dom_map_comp: "dom (f \<circ>\<^sub>m m) \<subseteq> dom m"
  by (auto simp: map_comp_def split: option.splits)

lemma os_count_upd:
  assumes "finite (dom ss)" "ss h = Some x"
  shows "holds x' = holds x \<Longrightarrow> os_count (ss(h \<mapsto> x')) = os_count ss"
    "holds x = Some () \<Longrightarrow> holds x' = None \<Longrightarrow> os_count ss = Suc (os_count (ss(h \<mapsto> x')))"
proof -
  have f: "finite (dom (holds \<circ>\<^sub>m ss))" by (rule finite_subset [OF dom_map_comp assms(1)])
  have h: "(holds \<circ>\<^sub>m ss) h = holds x" using assms(2) by (simp add: map_comp_def)
  show "holds x' = holds x \<Longrightarrow> os_count (ss(h \<mapsto> x')) = os_count ss" using h by (simp add: os_count_def fun_upd_idem)
  assume "holds x = Some ()" "holds x' = None"
  then have d: "h \<in> dom (holds \<circ>\<^sub>m ss)" "dom ((holds \<circ>\<^sub>m ss)(h := None)) = dom (holds \<circ>\<^sub>m ss) - {h}" using h by auto
  have "os_count (ss(h \<mapsto> x')) = card (dom (holds \<circ>\<^sub>m ss) - {h})" unfolding os_count_def map_comp_upd \<open>holds x' = None\<close> d(2) ..
  then show "os_count ss = Suc (os_count (ss(h \<mapsto> x')))" unfolding os_count_def using card.remove [OF f d(1)] by simp
qed

lemma os_count_new: "finite (dom ss) \<Longrightarrow> ss h = None \<Longrightarrow> os_count (ss(h \<mapsto> Sender_Open)) = Suc (os_count ss)"
proof -
  assume f: "finite (dom ss)" and h: "ss h = None"
  have "h \<notin> dom (holds \<circ>\<^sub>m ss)" using h by (simp add: map_comp_def domIff)
  moreover have "finite (dom (holds \<circ>\<^sub>m ss))" by (rule finite_subset [OF dom_map_comp f])
  ultimately show ?thesis by (simp add: os_count_def)
qed

lemma os_count_le: "finite (dom ss) \<Longrightarrow> os_count ss \<le> card (dom ss)"
  unfolding os_count_def by (rule card_mono) (auto simp: map_comp_def split: option.splits)

lemma os_count_pos:
  assumes f: "finite (dom ss)" and h: "ss h = Some x" "holds x = Some ()"
  shows "0 < os_count ss"
proof -
  have "(holds \<circ>\<^sub>m ss) h = Some ()" using h by (simp add: map_comp_def)
  then have "dom (holds \<circ>\<^sub>m ss) \<noteq> {}" by blast
  then show ?thesis unfolding os_count_def using finite_subset [OF dom_map_comp f] by (simp add: card_gt_0_iff)
qed

lemma os_relD:
  assumes "os_rel A c"
  shows "finite (dom (cf_senders c))" "os_state (cf_core c) = os_word (os_count (cf_senders c)) (rx_marked (cf_rx c)) (phase_of A)"
    "os_slot (cf_core c) = slot_of_abs A" "os_dropped (cf_core c) = dropped_of A" "writing \<circ>\<^sub>m cf_senders c = writer_of A" "os_sends c = sends_of A"
    "takers (cf_senders c) (cf_readers c) (cf_rx c) = taker_of A" "os_receives c = receives_of A"
    "cf_senders c h = Some x \<Longrightarrow> saw_rx x \<Longrightarrow> rx_marked (cf_rx c)"
  using assms by (auto simp: os_rel_def)

lemma os_rel_at:
  assumes R: "os_rel A c"
  shows "cf_senders c h = Some x \<Longrightarrow> writer_of A h = writing x" "cf_senders c h = Some x \<Longrightarrow> sends_of A h = published x"
    "cf_senders c h = Some x \<Longrightarrow> Snd h \<in> taker_of A \<longleftrightarrow> sender_taking x"
    "cf_readers c r = Some y \<Longrightarrow> Rdr r \<in> taker_of A \<longleftrightarrow> reader_taking y" "cf_readers c r = Some y \<Longrightarrow> receives_of A r = received y"
    "Rcv \<in> taker_of A \<longleftrightarrow> cf_rx c = Some Mark_Value"
    "cf_senders c h = None \<Longrightarrow> writer_of A h = None" "cf_senders c h = None \<Longrightarrow> sends_of A h = None" "cf_senders c h = None \<Longrightarrow> Snd h \<notin> taker_of A"
    "cf_readers c r = None \<Longrightarrow> Rdr r \<notin> taker_of A" "cf_readers c r = None \<Longrightarrow> receives_of A r = None"
  unfolding os_relD(5-8) [OF R, symmetric] by (simp_all add: map_comp_def takers_def os_sends_def os_receives_def)

lemma os_rel_sender:
  assumes R: "os_rel A c"
    and core: "os_state s' = os_word (os_count ((cf_senders c)(h \<mapsto> x'))) (rx_marked (cf_rx c)) (phase_of A')" "os_slot s' = slot_of_abs A'" "os_dropped s' = dropped_of A'"
    and w: "(writer_of A)(h := writing x') = writer_of A'" and p: "(sends_of A)(h := published x') = sends_of A'"
    and t: "(if sender_taking x' then insert (Snd h) (taker_of A) else taker_of A - {Snd h}) = taker_of A'" and r: "receives_of A' = receives_of A"
    and g: "saw_rx x' \<Longrightarrow> rx_marked (cf_rx c)"
  shows "os_rel A' (c\<lparr>cf_core := s', cf_senders := (cf_senders c)(h \<mapsto> x')\<rparr>)"
proof -
  have "\<forall>k y. ((cf_senders c)(h \<mapsto> x')) k = Some y \<and> saw_rx y \<longrightarrow> rx_marked (cf_rx c)" using g os_relD(9) [OF R] by auto
  moreover have "takers ((cf_senders c)(h \<mapsto> x')) (cf_readers c) (cf_rx c) = taker_of A'" unfolding takers_sender os_relD(7) [OF R] by (rule t)
  ultimately show ?thesis unfolding os_rel_def using os_relD(1-6,8) [OF R] core
    by (simp add: os_sends_def os_receives_def w p r del: fun_upd_apply)
qed

lemma os_rel_sender_same:
  assumes R: "os_rel A c" and h: "cf_senders c h = Some x"
    and x: "holds x' = holds x" "writing x' = writing x" "published x' = published x" "sender_taking x' = sender_taking x"
    and core: "os_state s' = os_state (cf_core c)" "os_slot s' = os_slot (cf_core c)" "os_dropped s' = os_dropped (cf_core c)"
    and g: "saw_rx x' \<Longrightarrow> rx_marked (cf_rx c)"
  shows "os_rel A (c\<lparr>cf_core := s', cf_senders := (cf_senders c)(h \<mapsto> x')\<rparr>)"
proof (rule os_rel_sender [OF R])
  show "os_state s' = os_word (os_count ((cf_senders c)(h \<mapsto> x'))) (rx_marked (cf_rx c)) (phase_of A)"
    using core(1) os_relD(2) [OF R] os_count_upd(1) [OF os_relD(1) [OF R] h x(1)] by simp
  show "(if sender_taking x' then insert (Snd h) (taker_of A) else taker_of A - {Snd h}) = taker_of A" using os_rel_at(3) [OF R h] x(4) by auto
qed (use core x g os_relD(3,4) [OF R] os_rel_at(1,2) [OF R h] in \<open>simp_all add: fun_upd_idem\<close>)

lemma os_rel_reader:
  assumes R: "os_rel A c" and r: "(receives_of A)(r := received y') = receives_of A'"
    and core: "os_state s' = os_word (os_count (cf_senders c)) (rx_marked (cf_rx c)) (phase_of A')" "os_slot s' = slot_of_abs A'" "os_dropped s' = dropped_of A'"
    and wp: "writer_of A' = writer_of A" "sends_of A' = sends_of A"
    and t: "(if reader_taking y' then insert (Rdr r) (taker_of A) else taker_of A - {Rdr r}) = taker_of A'"
  shows "os_rel A' (c\<lparr>cf_core := s', cf_readers := (cf_readers c)(r \<mapsto> y')\<rparr>)"
proof -
  have "takers (cf_senders c) ((cf_readers c)(r \<mapsto> y')) (cf_rx c) = taker_of A'" unfolding takers_reader os_relD(7) [OF R] by (rule t)
  moreover have "\<forall>k y. cf_senders c k = Some y \<and> saw_rx y \<longrightarrow> rx_marked (cf_rx c)" using os_relD(9) [OF R] by blast
  ultimately show ?thesis unfolding os_rel_def using os_relD(1-6,8) [OF R] core
    by (simp add: os_sends_def os_receives_def wp r del: fun_upd_apply)
qed

lemma os_rel_reader_same:
  assumes R: "os_rel A c" and r: "cf_readers c r = Some y" and y: "received y' = received y" "reader_taking y' = reader_taking y"
    and core: "os_state s' = os_state (cf_core c)" "os_slot s' = os_slot (cf_core c)" "os_dropped s' = os_dropped (cf_core c)"
  shows "os_rel A (c\<lparr>cf_core := s', cf_readers := (cf_readers c)(r \<mapsto> y')\<rparr>)"
proof (rule os_rel_reader [OF R])
  show "(if reader_taking y' then insert (Rdr r) (taker_of A) else taker_of A - {Rdr r}) = taker_of A" using os_rel_at(4) [OF R r] y(2) by auto
qed (use core y os_relD(2-4) [OF R] os_rel_at(5) [OF R r] in \<open>simp_all add: fun_upd_idem\<close>)

lemma os_rel_rx:
  assumes R: "os_rel A c"
    and core: "os_state s' = os_word (os_count (cf_senders c)) (rx_marked rx') (phase_of A')" "os_slot s' = slot_of_abs A'" "os_dropped s' = dropped_of A'"
    and wp: "writer_of A' = writer_of A" "sends_of A' = sends_of A" "receives_of A' = receives_of A"
    and t: "(if rx' = Some Mark_Value then insert Rcv (taker_of A) else taker_of A - {Rcv}) = taker_of A'"
    and m: "rx_marked (cf_rx c) \<Longrightarrow> rx_marked rx'"
  shows "os_rel A' (c\<lparr>cf_core := s', cf_rx := rx'\<rparr>)"
proof -
  have "takers (cf_senders c) (cf_readers c) rx' = taker_of A'" unfolding takers_rx [of _ _ rx' "cf_rx c"] os_relD(7) [OF R] by (rule t)
  moreover have "\<forall>k y. cf_senders c k = Some y \<and> saw_rx y \<longrightarrow> rx_marked rx'" using os_relD(9) [OF R] m by blast
  ultimately show ?thesis unfolding os_rel_def using os_relD(1-6,8) [OF R] core
    by (simp add: os_sends_def os_receives_def wp del: fun_upd_apply)
qed

lemma os_rel_rx_same:
  assumes R: "os_rel A c" and rx: "rx' \<noteq> Some Mark_Value" "cf_rx c \<noteq> Some Mark_Value" "rx_marked (cf_rx c) \<Longrightarrow> rx_marked rx'"
    and core: "os_state s' = os_word (os_count (cf_senders c)) (rx_marked rx') (phase_of A)" "os_slot s' = os_slot (cf_core c)" "os_dropped s' = os_dropped (cf_core c)"
  shows "os_rel A (c\<lparr>cf_core := s', cf_rx := rx'\<rparr>)"
proof (rule os_rel_rx [OF R core(1)])
  show "(if rx' = Some Mark_Value then insert Rcv (taker_of A) else taker_of A - {Rcv}) = taker_of A" using os_rel_at(6) [OF R] rx by auto
qed (use core rx os_relD(3,4) [OF R] in simp_all)

subsubsection \<open>Each step refines the protocol\<close>

lemma cas_weak_at:
  "os_rel A c \<Longrightarrow> cas_weak sp cur new (cf_core c) =
     (if cur = os_word (os_count (cf_senders c)) (rx_marked (cf_rx c)) (phase_of A) \<and> \<not> sp then Some ((cf_core c)\<lparr>os_state := new\<rparr>) else None)"
  by (auto simp: cas_weak_def os_relD(2))

lemma wake_receiver_fields [simp]:
  "os_state (wake_receiver ops s) = os_state s" "os_slot (wake_receiver ops s) = os_slot s" "os_dropped (wake_receiver ops s) = os_dropped s"
  by (simp_all add: wake_receiver_def split: prod.splits)

lemma send_refines:
  assumes R: "os_rel A c" and h: "cf_senders c h = Some (Sender_Sending v pc)" and st: "oneshot_send ops sp v pc (cf_core c) = Some (pc', s')"
  shows "\<exists>A'. os_abs_step (rx_marked (cf_rx c)) A A' \<and> os_rel A' (c\<lparr>cf_core := s', cf_senders := (cf_senders c)(h \<mapsto> Sender_Sending v pc')\<rparr>)"
proof -
  let ?n = "os_count (cf_senders c)" let ?rx = "rx_marked (cf_rx c)"
  have same: ?thesis if "writing (Sender_Sending v pc') = writing (Sender_Sending v pc)" "published (Sender_Sending v pc') = published (Sender_Sending v pc)"
    "os_state s' = os_state (cf_core c)" "os_slot s' = os_slot (cf_core c)" "os_dropped s' = os_dropped (cf_core c)" "saw_rx (Sender_Sending v pc') \<Longrightarrow> ?rx"
    using os_rel_sender_same [OF R h, of "Sender_Sending v pc'" s'] that abs_stutter by fastforce
  have n: "os_count ((cf_senders c)(h \<mapsto> Sender_Sending v q)) = ?n" for q using os_count_upd(1) [OF os_relD(1) [OF R] h] by simp
  note move = os_rel_sender [OF R, of s' h "Sender_Sending v pc'"]
  note at = os_rel_at(1-3) [OF R h]
  show ?thesis
  proof (cases pc)
    case (Send_Check cur)
    show ?thesis
    proof (cases "cur AND rx_dropped \<noteq> 0 \<or> phase cur \<noteq> state_empty")
      case True
      then have "s' = cf_core c" "(cur AND rx_dropped \<noteq> 0 \<and> pc' = Send_Done (Some (Closed v))) \<or> pc' = Send_Done (Some (Sent v))" using st Send_Check by (auto split: if_splits)
      then show ?thesis using same Send_Check os_relD(9) [OF R h] by auto
    next
      case False
      then have nz: "\<not> (cur AND rx_dropped \<noteq> 0 \<or> phase cur \<noteq> state_empty)" .
      show ?thesis
      proof (cases "cur = os_word ?n ?rx (phase_of A) \<and> \<not> sp")
        case False
        then show ?thesis using same Send_Check st nz os_relD(2) [OF R] by (auto simp: cas_weak_at [OF R])
      next
        case True
        then have A: "A = A_Empty" "\<not> ?rx" using nz by (auto simp: phase_of_cases)
        have "pc' = Send_Recheck" "os_state s' = os_word ?n ?rx 1" "os_slot s' = None" "os_dropped s' = []"
          using st Send_Check nz True A os_relD(3,4) [OF R] by (auto simp: cas_weak_at [OF R])
        then show ?thesis using move [of "A_Writing h v False"] A n abs_claim [of ?rx h v] by auto
      qed
    qed
  next
    case Send_Recheck
    then show ?thesis using same st os_relD(2) [OF R] by auto
  next
    case Send_Rollback
    then have A: "A = A_Writing h v False" "?rx" using at os_relD(9) [OF R h] by (cases A; auto split: if_splits)+
    then have "pc' = Send_Done (Some (Closed v))" "os_state s' = os_word ?n ?rx 0" "os_slot s' = None" "os_dropped s' = []"
      using st Send_Rollback os_relD(2-4) [OF R] os_word_phase(1) by auto
    then show ?thesis using move [of A_Empty] A n abs_rollback [of ?rx h v] by auto
  next
    case Send_Write
    then have A: "A = A_Writing h v False" using at by (cases A) (auto split: if_splits)
    then show ?thesis using st Send_Write move [of "A_Writing h v True"] n os_relD(2-4) [OF R] abs_write [of ?rx h v] by auto
  next
    case Send_Publish
    then have A: "A = A_Writing h v True" using at by (cases A) (auto split: if_splits)
    then have "pc' = Send_Wake" "os_state s' = os_word ?n ?rx 2" "os_slot s' = Some v" "os_dropped s' = []"
      using st Send_Publish os_relD(2-4) [OF R] os_word_phase(2) by (auto split: if_splits)
    then show ?thesis using move [of "A_Sent h v"] A n abs_publish [of ?rx h v] by auto
  qed (use same st os_relD(2) [OF R] in auto)
qed

lemma drop_value_taking: "os_rel (A_Taking h v a) c \<Longrightarrow> drop_value (cf_core c) = Some ((cf_core c)\<lparr>os_slot := None, os_dropped := [v]\<rparr>)"
  by (simp add: drop_value_def take_value_def os_relD(3,4))

lemma decrement_refines:
  assumes R: "os_rel A c" and h: "cf_senders c h = Some (Sender_Closed r pc)" and st: "decrement_senders ops sp pc (cf_core c) = Some (pc', s')"
    and b: "os_count (cf_senders c) < 2 ^ 60"
  shows "\<exists>A'. os_abs_step (rx_marked (cf_rx c)) A A' \<and> os_rel A' (c\<lparr>cf_core := s', cf_senders := (cf_senders c)(h \<mapsto> Sender_Closed r pc')\<rparr>)"
proof -
  let ?n = "os_count (cf_senders c)" let ?rx = "rx_marked (cf_rx c)"
  note move = os_rel_sender [OF R, of s' h "Sender_Closed r pc'"]
  note at = os_rel_at(1-3) [OF R h]
  have pub: "published (Sender_Closed r q) = published (Sender_Closed r pc)" for q by simp
  have n: "os_count ((cf_senders c)(h \<mapsto> Sender_Closed r q)) = ?n" if "pc \<noteq> Drop_Start" "q \<noteq> Drop_Start" for q using os_count_upd(1) [OF os_relD(1) [OF R] h] that by simp
  have same: ?thesis if "pc \<noteq> Drop_Start" "pc' \<noteq> Drop_Start" "pc \<noteq> Drop_Value" "pc' \<noteq> Drop_Value"
    "os_state s' = os_state (cf_core c)" "os_slot s' = os_slot (cf_core c)" "os_dropped s' = os_dropped (cf_core c)"
    using os_rel_sender_same [OF R h, of "Sender_Closed r pc'" s'] that abs_stutter pub by fastforce
  have moved: ?thesis if "os_abs_step ?rx A A'" "pc \<noteq> Drop_Start" "pc' \<noteq> Drop_Start" "os_state s' = os_word ?n ?rx (phase_of A')" "os_slot s' = slot_of_abs A'" "os_dropped s' = dropped_of A'"
    "writer_of A' = writer_of A" "sends_of A' = sends_of A" "(if pc' = Drop_Value then insert (Snd h) (taker_of A) else taker_of A - {Snd h}) = taker_of A'" "receives_of A' = receives_of A" for A'
    using move [of A'] that n at pub by (auto simp: fun_upd_idem simp del: fun_upd_apply)
  show ?thesis
  proof (cases pc)
    case Drop_Start
    have "holds (Sender_Closed r pc) = Some ()" using Drop_Start by simp
    then have m: "?n = Suc (os_count ((cf_senders c)(h \<mapsto> Sender_Closed r pc')))" if "pc' \<noteq> Drop_Start" using os_count_upd(2) [OF os_relD(1) [OF R] h] that by simp
    have pc': "pc' \<noteq> Drop_Start" "pc' \<noteq> Drop_Value" "s' = (cf_core c)\<lparr>os_state := os_state (cf_core c) - count_unit\<rparr>" using st Drop_Start by (auto simp: Let_def split: if_splits)
    then have "os_state s' = os_word (os_count ((cf_senders c)(h \<mapsto> Sender_Closed r pc'))) ?rx (phase_of A)" using m os_relD(2) [OF R] os_word_count(2) by simp
    then have "os_rel A (c\<lparr>cf_core := s', cf_senders := (cf_senders c)(h \<mapsto> Sender_Closed r pc')\<rparr>)"
      using move [of A] pc' at pub Drop_Start os_relD(3,4) [OF R] by (auto simp: fun_upd_idem simp del: fun_upd_apply)
    then show ?thesis using abs_stutter by blast
  next
    case (Drop_Check cur)
    show ?thesis
    proof (cases "cur = os_word ?n ?rx (phase_of A) \<and> \<not> sp")
      case False
      then show ?thesis using same Drop_Check st by (auto simp: cas_weak_at [OF R] split: if_splits)
    next
      case True
      then consider "A = A_Empty" | k v where "A = A_Sent k v" "?rx" | "pc' = Drop_Done" "s' = cf_core c"
        using st Drop_Check by (auto simp: cas_weak_at [OF R] phase_of_cases split: if_splits)
      then show ?thesis
      proof cases
        case 1
        then show ?thesis using moved [of A_Closed] abs_close [of ?rx] st Drop_Check True os_relD(3,4) [OF R] by (auto simp: cas_weak_at [OF R])
      next
        case 2
        then show ?thesis using moved [of "A_Taking k v (Snd h)"] abs_take [of ?rx "Snd h" k v] st Drop_Check True os_relD(3,4) [OF R] by (auto simp: cas_weak_at [OF R])
      qed (use same Drop_Check in auto)
    qed
  next
    case Drop_Value
    then obtain k v where A: "A = A_Taking k v (Snd h)" using at by (cases A) auto
    then show ?thesis using moved [of "A_Dropped k v"] abs_drop [of "Snd h" ?rx k v] st Drop_Value os_relD(2) [OF R] drop_value_taking [of k v "Snd h" c] R by auto
  qed (use same st in auto)
qed

lemma mark_refines:
  assumes R: "os_rel A c" and rx: "cf_rx c = Some pc" and st: "mark_receiver_dropped sp pc (cf_core c) = Some (pc', s')"
  shows "\<exists>A'. os_abs_step (rx_marked (Some pc')) A A' \<and> os_rel A' (c\<lparr>cf_core := s', cf_rx := Some pc'\<rparr>)"
proof -
  let ?n = "os_count (cf_senders c)"
  have marked: "rx_marked (Some pc')" using st by (cases pc) (auto simp: rx_marked_def Let_def bind_eq_Some_conv split: if_splits option.splits)
  note same = os_rel_rx_same [OF R, of "Some pc'" s', unfolded rx]
  note move = os_rel_rx [OF R, of s' "Some pc'"]
  show ?thesis
  proof (cases pc)
    case Mark_Start
    then have "os_rel A (c\<lparr>cf_core := s', cf_rx := Some pc'\<rparr>)" using same st marked os_relD(2) [OF R] by (auto simp: Let_def)
    then show ?thesis using abs_stutter by blast
  next
    case (Mark_Check cur)
    then have m: "rx_marked (cf_rx c)" using rx by (simp add: rx_marked_def)
    have quiet: ?thesis if "pc' \<noteq> Mark_Value" "s' = cf_core c"
      using same that Mark_Check m marked os_relD(2) [OF R] abs_stutter by auto
    show ?thesis
    proof (cases "cur = os_word ?n True (phase_of A) \<and> \<not> sp")
      case False
      then show ?thesis using quiet Mark_Check st m by (auto simp: cas_weak_at [OF R] split: if_splits)
    next
      case True
      then consider "A = A_Empty" | k v where "A = A_Sent k v" | "pc' = Mark_Done" "s' = cf_core c"
        using st Mark_Check m by (auto simp: cas_weak_at [OF R] phase_of_cases split: if_splits)
      then show ?thesis
      proof cases
        case 1
        then show ?thesis using move [of A_Closed] abs_close [of True] st Mark_Check True m marked os_relD(3,4) [OF R] by (auto simp: cas_weak_at [OF R])
      next
        case 2
        then show ?thesis using move [of "A_Taking k v Rcv"] abs_take [of "rx_marked (Some pc')" Rcv k v] st Mark_Check True m marked os_relD(3,4) [OF R]
          by (auto simp: cas_weak_at [OF R])
      qed (use quiet in auto)
    qed
  next
    case Mark_Value
    then obtain k v where A: "A = A_Taking k v Rcv" using os_rel_at(6) [OF R] rx by (cases A) auto
    then show ?thesis using move [of "A_Dropped k v"] abs_drop [of Rcv True k v] st Mark_Value os_relD(2) [OF R] drop_value_taking [of k v Rcv c] R marked rx
      by (auto simp: rx_marked_def)
  qed (use st in simp)
qed

fun pc_received :: "'a recv_pc \<Rightarrow> 'a option" where
  "pc_received (Recv_Done (Inr v)) = Some v" | "pc_received _ = None"

lemma try_recv_refines:
  assumes R: "os_rel A c" and st: "oneshot_try_recv sp pc (cf_core c) = Some (pc', s')"
    and t: "Rdr r \<in> taker_of A \<longleftrightarrow> pc = Recv_Take" and g: "receives_of A r = None" and b: "os_count (cf_senders c) < 2 ^ 60"
    and y: "received y = pc_received pc'" "reader_taking y \<longleftrightarrow> pc' = Recv_Take"
  shows "\<exists>A'. os_abs_step (rx_marked (cf_rx c)) A A' \<and> os_rel A' (c\<lparr>cf_core := s', cf_readers := (cf_readers c)(r \<mapsto> y)\<rparr>)"
proof -
  let ?n = "os_count (cf_senders c)" let ?rx = "rx_marked (cf_rx c)"
  note move = os_rel_reader [OF R, of r y _ s']
  have quiet: ?thesis if "pc \<noteq> Recv_Take" "pc' \<noteq> Recv_Take" "pc_received pc' = None" "s' = cf_core c"
    using move [of A] that t g y os_relD(2-4) [OF R] abs_stutter by (auto simp: fun_upd_idem simp del: fun_upd_apply)
  show ?thesis
  proof (cases pc)
    case (Recv_Check cur)
    show ?thesis
    proof (cases "cur = os_word ?n ?rx (phase_of A) \<and> \<not> sp")
      case False
      then show ?thesis using quiet Recv_Check st by (auto simp: cas_weak_at [OF R] split: if_splits)
    next
      case True
      note sim = st [unfolded Recv_Check oneshot_try_recv.simps cas_weak_at [OF R]]
      show ?thesis
      proof (cases A)
        case A_Empty
        then consider "pc' = Recv_Done (Inl Disconnected)" "s' = (cf_core c)\<lparr>os_state := os_word ?n ?rx 4\<rparr>" | "pc' = Recv_Done (Inl Empty)" "s' = cf_core c"
          using sim True by (auto split: if_splits)
        then show ?thesis using move [of A_Closed] y abs_close [of ?rx] g os_relD(3,4) [OF R] A_Empty quiet Recv_Check by cases auto
      next
        case (A_Sent k v)
        then show ?thesis using move [of "A_Taking k v (Rdr r)"] y abs_take [of ?rx "Rdr r" k v] sim True os_relD(3,4) [OF R] by auto
      qed (use quiet Recv_Check sim True in auto)
    qed
  next
    case Recv_Take
    then obtain k v where A: "A = A_Taking k v (Rdr r)" using t by (cases A) auto
    then have "take_value (cf_core c) = Some (v, (cf_core c)\<lparr>os_slot := None\<rparr>)" using os_relD(3) [OF R] by (simp add: take_value_def)
    then show ?thesis using move [of "A_Received k v r"] y abs_receive [of ?rx k v r] st Recv_Take A os_relD(2,4) [OF R] by auto
  qed (use quiet st in auto)
qed

lemma reader_refines:
  assumes R: "os_rel A c" and r: "cf_readers c r = Some y" and st: "reader_step ops sp y (cf_core c) = Some (y', s')" and b: "os_count (cf_senders c) < 2 ^ 60"
  shows "\<exists>A'. os_abs_step (rx_marked (cf_rx c)) A A' \<and> os_rel A' (c\<lparr>cf_core := s', cf_readers := (cf_readers c)(r \<mapsto> y')\<rparr>)"
proof -
  note at = os_rel_at(4,5) [OF R r]
  have same: ?thesis if "received y' = received y" "reader_taking y' = reader_taking y" "os_state s' = os_state (cf_core c)" "os_slot s' = os_slot (cf_core c)"
    "os_dropped s' = os_dropped (cf_core c)"
    using os_rel_reader_same [OF R r, of y' s'] that abs_stutter by fastforce
  have sub: ?thesis if "oneshot_try_recv sp pc (cf_core c) = Some (pc', s')" "reader_taking y \<longleftrightarrow> pc = Recv_Take" "received y = None"
    "received y' = pc_received pc'" "reader_taking y' \<longleftrightarrow> pc' = Recv_Take" for pc pc'
    using try_recv_refines [OF R that(1), of r y'] that at b by simp
  show ?thesis
  proof (cases y)
    case (Reader_Try pc)
    then obtain pc' where "oneshot_try_recv sp pc (cf_core c) = Some (pc', s')" "y' = Reader_Try pc'" using st by (auto simp: bind_eq_Some_conv)
    moreover have "received (Reader_Try pc) = None" using calculation(1) by (cases pc) auto
    moreover have "received (Reader_Try pc') = pc_received pc'" by (cases pc' rule: pc_received.cases) auto
    ultimately show ?thesis using sub Reader_Try by auto
  next
    case (Reader_Poll w pc)
    then obtain pc' where pc': "poll_recv ops sp w pc (cf_core c) = Some (pc', s')" "y' = Reader_Poll w pc'" using st by (auto simp: bind_eq_Some_conv)
    have first: ?thesis if q: "oneshot_try_recv sp q (cf_core c) = Some (q', s')" "pc = P q" "pc' = (case q' of Recv_Done e \<Rightarrow> poll_after n e | _ \<Rightarrow> P q')"
      "P = Poll_First \<and> n = Poll_Taken1 \<or> P = Poll_Second \<and> n = Poll_Taken2" for P q q' n
    proof -
      have "received y' = pc_received q' \<and> (reader_taking y' \<longleftrightarrow> q' = Recv_Take)"
      proof (cases q')
        case (Recv_Done e)
        then have "pc' = poll_after n e" using q(3) by simp
        then show ?thesis using q(4) pc' Recv_Done by (cases "(n, e)" rule: poll_after.cases) auto
      qed (use q pc' in auto)
      then show ?thesis using sub [OF q(1)] q(2,4) Reader_Poll by auto
    qed
    show ?thesis
    proof (cases pc)
      case (Poll_First q)
      then show ?thesis using first [of q _ Poll_First] pc'(1) by (auto simp: bind_eq_Some_conv)
    next
      case (Poll_Second q)
      then show ?thesis using first [of q _ Poll_Second] pc'(1) by (auto simp: bind_eq_Some_conv)
    qed (use same pc' Reader_Poll in \<open>auto split: if_splits\<close>)
  qed
qed

lemma os_count_step_le: "os_step ops excl c c' \<Longrightarrow> finite (dom (cf_senders c)) \<Longrightarrow> finite (dom (cf_senders c')) \<and> card (dom (cf_senders c)) \<le> card (dom (cf_senders c'))"
  by (induction rule: os_step.induct) (auto simp: insert_absorb domI card_insert_le)

theorem os_step_refines:
  assumes R: "os_rel A c" and st: "os_step ops excl c c'" and b: "card (dom (cf_senders c')) < 2 ^ 60"
  shows "\<exists>A'. os_abs_step (rx_marked (cf_rx c')) A A' \<and> os_rel A' c'"
proof -
  have n: "os_count (cf_senders c) < 2 ^ 60" using os_count_le [OF os_relD(1) [OF R]] os_count_step_le [OF st os_relD(1) [OF R]] b by simp
  from st show ?thesis
  proof cases
    case (os_clone h x h')
    then have "os_rel A c'"
      using os_rel_sender [OF R, of "increment_senders (cf_core c)" h' Sender_Open A] os_relD(2-4) [OF R] os_count_new [OF os_relD(1) [OF R] os_clone(4)] os_rel_at(7-9) [OF R os_clone(4)]
      by (simp add: increment_senders_def os_word_count fun_upd_idem del: fun_upd_apply)
    then show ?thesis using abs_stutter by blast
  next
    case (os_send h x v x')
    then have "os_rel A c'" using os_rel_sender_same [OF R os_send(2), of x' "cf_core c"] by (cases "(v, x)" rule: sender_send.cases) auto
    then show ?thesis using abs_stutter by blast
  next
    case (os_close h x x')
    then have "os_rel A c'" using os_rel_sender_same [OF R os_close(2), of x' "cf_core c"] by (cases x rule: sender_close.cases) (auto split: option.splits)
    then show ?thesis using abs_stutter by blast
  next
    case (os_sender h x sp x' s')
    then show ?thesis using send_refines [OF R, of h] decrement_refines [OF R, of h] n by (cases x) (auto simp: bind_eq_Some_conv)
  next
    case (os_try r)
    then have "os_rel A c'" using os_rel_reader [OF R, of r "reader_try (cf_rx c)" A "cf_core c"] os_relD(2-4) [OF R] os_rel_at(10,11) [OF R os_try(2)]
      by (simp add: reader_try_def fun_upd_idem del: fun_upd_apply)
    then show ?thesis using abs_stutter by blast
  next
    case (os_poll r w)
    then have "os_rel A c'" using os_rel_reader [OF R, of r "reader_poll w (cf_rx c)" A "cf_core c"] os_relD(2-4) [OF R] os_rel_at(10,11) [OF R os_poll(2)]
      by (simp add: reader_poll_def fun_upd_idem del: fun_upd_apply)
    then show ?thesis using abs_stutter by blast
  next
    case (os_reader r x sp x' s')
    then show ?thesis using reader_refines [OF R os_reader(2,3) n] by simp
  next
    case os_rx_close
    then have "os_rel A c'" using os_rel_rx_same [OF R, of "Some Mark_Start" "cf_core c"] os_relD(2) [OF R] by (auto simp: rx_marked_def)
    then show ?thesis using abs_stutter by blast
  next
    case (os_rx pc sp pc' s')
    then show ?thesis using mark_refines [OF R os_rx(2,3)] by simp
  qed
qed

lemma os_count_one: "os_count [h \<mapsto> Sender_Open] = 1"
  using os_count_new [of Map.empty h] by (simp add: os_count_def)

lemma takers_none: "takers [h \<mapsto> Sender_Open] Map.empty None = {}"
  by (simp add: takers_sender) (auto simp: takers_def elim: taking.elims)

lemma os_rel_init: "os_rel A_Empty (oneshot_pair ops h)"
proof -
  have "count_unit OR state_empty = os_word 1 False 0" using os_word_count(1) [of 0 False 0] by (simp add: os_word_def os_high_def state_empty_def)
  then show ?thesis
    by (auto simp: os_rel_def oneshot_pair_def oneshot_new_def os_sends_def os_receives_def rx_marked_def os_count_one takers_none simp del: One_nat_def split: if_splits)
qed

text \<open>
  Every run that creates fewer than \<open>2 ^ 60\<close> handles stays in the protocol; an invariant of the
  steps that respect the protocol holds at its end.
\<close>

lemma os_reachable_inv:
  assumes r: "os_reachable ops excl c" and b: "card (dom (cf_senders c)) < 2 ^ 60"
    and init: "\<And>h. P (oneshot_pair ops h)"
    and step: "\<And>A A' c c'. os_rel A c \<Longrightarrow> os_rel A' c' \<Longrightarrow> P c \<Longrightarrow> os_step ops excl c c' \<Longrightarrow> card (dom (cf_senders c')) < 2 ^ 60 \<Longrightarrow> os_abs_step (rx_marked (cf_rx c')) A A' \<Longrightarrow> P c'"
  shows "(\<exists>A. os_rel A c) \<and> P c"
proof -
  obtain h where "(os_step ops excl)\<^sup>*\<^sup>* (oneshot_pair ops h) c" using r by (auto simp: os_reachable_def)
  then show ?thesis using b
  proof (induction rule: rtranclp_induct)
    case base
    show ?case by (intro conjI exI [of _ A_Empty] os_rel_init init)
  next
    case (step d e)
    have fin: "finite (dom (cf_senders d))" using step.hyps(1)
    proof (induction rule: rtranclp_induct)
      case base
      then show ?case by (simp add: oneshot_pair_def del: fun_upd_apply)
    qed (use os_count_step_le in blast)
    then have "card (dom (cf_senders d)) < 2 ^ 60" using os_count_step_le [OF step.hyps(2) fin] step.prems by simp
    then obtain A where A: "os_rel A d" "P d" using step.IH by blast
    from os_step_refines [OF A(1) step.hyps(2) step.prems] obtain A' where "os_abs_step (rx_marked (cf_rx e)) A A'" "os_rel A' e" by blast
    then show ?case using assms(4) [OF A(1) _ A(2) step.hyps(2) step.prems] by blast
  qed
qed

lemma os_reachable_rel: "os_reachable ops excl c \<Longrightarrow> card (dom (cf_senders c)) < 2 ^ 60 \<Longrightarrow> \<exists>A. os_rel A c"
  using os_reachable_inv [of ops excl c "\<lambda>_. True"] by simp

end
