(* ===== verification/Oneshot_Safety.thy ===== *)
theory Oneshot_Safety
  imports Oneshot_Protocol
begin

section \<open>What the oneshot channel guarantees\<close>

text \<open>
  On top of the protocol: the value is delivered at most once and no step goes wrong, nothing leaks
  once every handle is gone, and a receiver that was told to wait is woken.
\<close>

unbundle bit_operations_syntax

subsection \<open>No step goes wrong\<close>

fun sender_running :: "'a sender \<Rightarrow> bool" where
  "sender_running Sender_Open = False"
| "sender_running (Sender_Sending v (Send_Done r)) = False"
| "sender_running (Sender_Sending v pc) = True"
| "sender_running (Sender_Closed r pc) = (pc \<noteq> Drop_Done)"

fun reader_wf :: "('a, 'w) reader \<Rightarrow> bool" where
  "reader_wf (Reader_Poll w (Poll_First pc)) \<longleftrightarrow> (\<forall>r. pc \<noteq> Recv_Done r)"
| "reader_wf (Reader_Poll w (Poll_Second pc)) \<longleftrightarrow> (\<forall>r. pc \<noteq> Recv_Done r)"
| "reader_wf _ \<longleftrightarrow> True"

lemma poll_after_wf: "n \<in> {Poll_Taken1, Poll_Taken2} \<Longrightarrow> reader_wf (Reader_Poll w (poll_after n r))"
  by (cases "(n, r)" rule: poll_after.cases) auto

lemma poll_next_wf:
  "reader_wf (Reader_Poll w (case q of Recv_Done e \<Rightarrow> poll_after Poll_Taken1 e | _ \<Rightarrow> Poll_First q))"
  "reader_wf (Reader_Poll w (case q of Recv_Done e \<Rightarrow> poll_after Poll_Taken2 e | _ \<Rightarrow> Poll_Second q))"
  by (cases q; simp add: poll_after_wf)+

lemma reader_step_wf: "reader_step ops sp y s = Some (y', s') \<Longrightarrow> reader_wf y'"
proof (cases y)
  case (Reader_Poll w pc)
  assume "reader_step ops sp y s = Some (y', s')"
  with Reader_Poll show ?thesis
    by (cases pc) (auto simp: bind_eq_Some_conv poll_next_wf split: if_splits)
qed (auto simp: bind_eq_Some_conv)

definition readers_wf :: "('h, 'r, 'a, 'w, 's) config \<Rightarrow> bool" where
  "readers_wf c \<longleftrightarrow> (\<forall>r y. cf_readers c r = Some y \<longrightarrow> reader_wf y)"

lemma readers_wf_step: "os_step ops excl c c' \<Longrightarrow> readers_wf c \<Longrightarrow> readers_wf c'"
  by (induction rule: os_step.induct) (auto simp: readers_wf_def reader_try_def reader_poll_def dest: reader_step_wf split: if_splits)

lemma os_reachable_wf:
  assumes "os_reachable ops excl c" "card (dom (cf_senders c)) < 2 ^ 60"
  obtains A where "os_rel A c" "readers_wf c"
  using os_reachable_inv [OF assms, of readers_wf] readers_wf_step by (force simp: readers_wf_def oneshot_pair_def)

lemma sender_not_stuck:
  assumes R: "os_rel A c" and b: "os_count (cf_senders c) < 2 ^ 60" and h: "cf_senders c h = Some x" "sender_running x"
  shows "sender_step ops sp x (cf_core c) \<noteq> None"
proof (cases x)
  case (Sender_Sending v pc)
  have "writer_of A h = writing x" by (rule os_rel_at(1) [OF R h(1)])
  then have "phase (os_state (cf_core c)) = state_writing" if "pc = Send_Publish" using that Sender_Sending os_relD(2) [OF R] by (cases A) auto
  with Sender_Sending h(2) show ?thesis by (cases pc) (auto split: option.splits)
next
  case (Sender_Closed r pc)
  have "\<not> sender_count (os_state (cf_core c)) < 1" if "pc = Drop_Start"
    using that Sender_Closed os_count_pos [OF os_relD(1) [OF R] h(1)] count_eq(2) [OF phase_of_less b] os_relD(2) [OF R] by auto
  moreover have "os_slot (cf_core c) \<noteq> None" if "pc = Drop_Value" using that Sender_Closed os_rel_at(3) [OF R h(1)] os_relD(3) [OF R] by (cases A) auto
  ultimately show ?thesis using Sender_Closed h(2) by (cases pc) (auto simp: Let_def drop_value_def take_value_def split: option.splits)
qed (use h in simp)

lemma try_recv_not_stuck: "(pc = Recv_Take \<longrightarrow> os_slot s \<noteq> None) \<Longrightarrow> (\<forall>r. pc \<noteq> Recv_Done r) \<Longrightarrow> oneshot_try_recv sp pc s \<noteq> None"
  by (cases pc) (auto simp: take_value_def split: option.splits)

lemma reader_not_stuck:
  assumes R: "os_rel A c" and wf: "readers_wf c" and r: "cf_readers c r = Some y" "\<not> reader_done y"
  shows "reader_step ops sp y (cf_core c) \<noteq> None"
proof -
  have slot: "os_slot (cf_core c) \<noteq> None" if "reader_taking y" using that os_rel_at(4) [OF R r(1)] os_relD(3) [OF R] by (cases A) auto
  have ok: "reader_wf y" using wf r(1) by (auto simp: readers_wf_def)
  show ?thesis
  proof (cases y)
    case (Reader_Try pc)
    then show ?thesis using r(2) slot try_recv_not_stuck [of pc "cf_core c" sp] by (cases pc) (auto simp: bind_eq_None_conv)
  next
    case (Reader_Poll w pc)
    have "oneshot_try_recv sp q (cf_core c) \<noteq> None" if "pc = Poll_First q \<or> pc = Poll_Second q" for q
      using try_recv_not_stuck [of q "cf_core c" sp] that slot ok Reader_Poll by auto
    then show ?thesis using Reader_Poll r(2) by (cases pc) (auto simp: bind_eq_None_conv split: prod.splits)
  qed
qed

lemma mark_not_stuck:
  assumes R: "os_rel A c" and rx: "cf_rx c = Some pc" "pc \<noteq> Mark_Done"
  shows "mark_receiver_dropped sp pc (cf_core c) \<noteq> None"
proof -
  have "os_slot (cf_core c) \<noteq> None" if "pc = Mark_Value" using that rx os_rel_at(6) [OF R] os_relD(3) [OF R] by (cases A) auto
  then show ?thesis using rx(2) by (cases pc) (auto simp: Let_def drop_value_def take_value_def split: option.splits)
qed

text \<open>
  (C8) In any interleaving of senders, receiver calls and the closing of the receiver, at most one
  \<^verbatim>\<open>send\<close> is ever published; its value is still in the slot, or exactly one receiver call returned it,
  or it was dropped exactly once; and no operation that is under way can read or drop an
  uninitialised slot, underflow the sender count or publish from a wrong phase.
\<close>
theorem oneshot_delivers_once:
  assumes "os_reachable ops excl c" "card (dom (cf_senders c)) < 2 ^ 60"
  shows "(os_sends c = Map.empty \<and> os_receives c = Map.empty \<and> os_dropped (cf_core c) = [] \<or>
      (\<exists>h v. os_sends c = [h \<mapsto> v] \<and>
        (os_slot (cf_core c) = Some v \<and> os_receives c = Map.empty \<and> os_dropped (cf_core c) = [] \<or>
         os_slot (cf_core c) = None \<and> (\<exists>r. os_receives c = [r \<mapsto> v]) \<and> os_dropped (cf_core c) = [] \<or>
         os_slot (cf_core c) = None \<and> os_receives c = Map.empty \<and> os_dropped (cf_core c) = [v]))) \<and>
    (\<forall>h x sp. cf_senders c h = Some x \<and> sender_running x \<longrightarrow> sender_step ops sp x (cf_core c) \<noteq> None) \<and>
    (\<forall>r y sp. cf_readers c r = Some y \<and> \<not> reader_done y \<longrightarrow> reader_step ops sp y (cf_core c) \<noteq> None) \<and>
    (\<forall>pc sp. cf_rx c = Some pc \<and> pc \<noteq> Mark_Done \<longrightarrow> mark_receiver_dropped sp pc (cf_core c) \<noteq> None)"
proof -
  obtain A where A: "os_rel A c" "readers_wf c" using os_reachable_wf [OF assms] .
  have n: "os_count (cf_senders c) < 2 ^ 60" using os_count_le [OF os_relD(1) [OF A(1)]] assms(2) by simp
  show ?thesis
  proof (intro conjI allI impI)
    show "os_sends c = Map.empty \<and> os_receives c = Map.empty \<and> os_dropped (cf_core c) = [] \<or>
      (\<exists>h v. os_sends c = [h \<mapsto> v] \<and>
        (os_slot (cf_core c) = Some v \<and> os_receives c = Map.empty \<and> os_dropped (cf_core c) = [] \<or>
         os_slot (cf_core c) = None \<and> (\<exists>r. os_receives c = [r \<mapsto> v]) \<and> os_dropped (cf_core c) = [] \<or>
         os_slot (cf_core c) = None \<and> os_receives c = Map.empty \<and> os_dropped (cf_core c) = [v]))"
      unfolding os_relD(3,4,6,8) [OF A(1)] by (cases A) (auto simp del: fun_upd_apply)
  qed (use sender_not_stuck [OF A(1) n] reader_not_stuck [OF A] mark_not_stuck [OF A(1)] in blast)+
qed

subsection \<open>Running a schedule\<close>

text \<open>A schedule as a list of actions, for concrete runs.\<close>

datatype ('h, 'r, 'a, 'w) os_action = Act_Clone 'h 'h | Act_Send 'h 'a | Act_Close 'h | Act_Sender 'h | Act_Try 'r | Act_Poll 'r 'w | Act_Reader 'r | Act_Rx_Close | Act_Rx

fun os_act :: "('w, 's) waker_ops \<Rightarrow> ('h, 'r, 'a, 'w) os_action \<Rightarrow> ('h, 'r, 'a, 'w, 's) config \<Rightarrow> ('h, 'r, 'a, 'w, 's) config option" where
  "os_act ops (Act_Clone h h') c = (case cf_senders c h of None \<Rightarrow> None | Some x \<Rightarrow>
     if sender_cloneable x \<and> cf_senders c h' = None then Some (c\<lparr>cf_core := increment_senders (cf_core c), cf_senders := (cf_senders c)(h' \<mapsto> Sender_Open)\<rparr>) else None)"
| "os_act ops (Act_Send h v) c = do { x \<leftarrow> cf_senders c h; x' \<leftarrow> sender_send v x; Some (c\<lparr>cf_senders := (cf_senders c)(h \<mapsto> x')\<rparr>) }"
| "os_act ops (Act_Close h) c = do { x \<leftarrow> cf_senders c h; x' \<leftarrow> sender_close x; Some (c\<lparr>cf_senders := (cf_senders c)(h \<mapsto> x')\<rparr>) }"
| "os_act ops (Act_Sender h) c = do { x \<leftarrow> cf_senders c h; (x', s') \<leftarrow> sender_step ops False x (cf_core c); Some (c\<lparr>cf_core := s', cf_senders := (cf_senders c)(h \<mapsto> x')\<rparr>) }"
| "os_act ops (Act_Try r) c = (if cf_readers c r = None then Some (c\<lparr>cf_readers := (cf_readers c)(r \<mapsto> reader_try (cf_rx c))\<rparr>) else None)"
| "os_act ops (Act_Poll r w) c = (if cf_readers c r = None then Some (c\<lparr>cf_readers := (cf_readers c)(r \<mapsto> reader_poll w (cf_rx c))\<rparr>) else None)"
| "os_act ops (Act_Reader r) c = do { x \<leftarrow> cf_readers c r; (x', s') \<leftarrow> reader_step ops False x (cf_core c); Some (c\<lparr>cf_core := s', cf_readers := (cf_readers c)(r \<mapsto> x')\<rparr>) }"
| "os_act ops Act_Rx_Close c = (if cf_rx c = None then Some (c\<lparr>cf_rx := Some Mark_Start\<rparr>) else None)"
| "os_act ops Act_Rx c = do { pc \<leftarrow> cf_rx c; (pc', s') \<leftarrow> mark_receiver_dropped False pc (cf_core c); Some (c\<lparr>cf_core := s', cf_rx := Some pc'\<rparr>) }"

lemma os_act_step: "os_act ops a c = Some c' \<Longrightarrow> os_step ops False c c'"
  by (cases a) (auto simp: bind_eq_Some_conv intro: os_step.intros split: option.splits if_splits)

fun os_run :: "('w, 's) waker_ops \<Rightarrow> ('h, 'r, 'a, 'w) os_action list \<Rightarrow> ('h, 'r, 'a, 'w, 's) config \<Rightarrow> ('h, 'r, 'a, 'w, 's) config option" where
  "os_run ops [] c = Some c"
| "os_run ops (a # as) c = do { c' \<leftarrow> os_act ops a c; os_run ops as c' }"

lemma os_run_steps: "os_run ops as c = Some c' \<Longrightarrow> (os_step ops False)\<^sup>*\<^sup>* c c'"
  by (induction as arbitrary: c) (auto simp: bind_eq_Some_conv intro: converse_rtranclp_into_rtranclp dest: os_act_step)

lemma os_run_reachable: "os_run ops as (oneshot_pair ops h) = Some c \<Longrightarrow> os_reachable ops False c"
  by (auto simp: os_reachable_def dest: os_run_steps)

lemmas os_run_simps = oneshot_pair_def oneshot_new_def increment_senders_def reader_try_def reader_poll_def cas_weak_def wake_receiver_def take_value_def drop_value_def
  phase_def sender_count_def with_phase_def state_empty_def state_writing_def state_sent_def state_taken_def state_closed_def phase_mask_def rx_dropped_def count_unit_def count_shift_def
  waker_cell_def

definition run_receive :: "(nat, nat, nat, nat) os_action list" where
  "run_receive = [Act_Clone 0 1, Act_Send 1 7, Act_Sender 1, Act_Sender 1, Act_Sender 1, Act_Sender 1, Act_Sender 1, Act_Sender 1, Act_Try 0, Act_Reader 0, Act_Reader 0, Act_Reader 0]"

lemma run_receive_end: "\<exists>c. os_run waker_cell run_receive (oneshot_pair waker_cell 0) = Some c \<and> os_sends c = [1 \<mapsto> 7] \<and> os_receives c = [0 \<mapsto> 7] \<and> dom (cf_senders c) = {0, 1}"
  by (auto simp: run_receive_def os_run_simps os_sends_def os_receives_def map_comp_def fun_eq_iff dom_def)

theorem oneshot_delivers_once_witness:
  "\<exists>c :: (nat, nat, nat, nat, nat option) config. os_reachable waker_cell False c \<and> card (dom (cf_senders c)) < 2 ^ 60 \<and>
     os_sends c = [1 \<mapsto> 7] \<and> os_receives c = [0 \<mapsto> 7] \<and> os_slot (cf_core c) = None \<and> os_dropped (cf_core c) = []"
proof -
  obtain c :: "(nat, nat, nat, nat, nat option) config" where c: "os_run waker_cell run_receive (oneshot_pair waker_cell 0) = Some c"
    "os_sends c = [1 \<mapsto> 7]" "os_receives c = [0 \<mapsto> 7]" "dom (cf_senders c) = {0, 1}" using run_receive_end by blast
  have r: "os_reachable waker_cell False c" "card (dom (cf_senders c)) < 2 ^ 60" using os_run_reachable [OF c(1)] c(4) by simp_all
  from oneshot_delivers_once [OF r] c(2,3) have "os_slot (cf_core c) = None \<and> os_dropped (cf_core c) = []" by (auto simp: fun_eq_iff split: if_splits)
  then show ?thesis using r c by blast
qed

subsection \<open>Nothing leaks\<close>

text \<open>
  The receiver has gone, or has seen a phase that leaves the value to the senders.
\<close>

definition rx_gone :: "mark_pc option \<Rightarrow> bool" where
  "rx_gone rx \<longleftrightarrow> rx = Some Mark_Done \<or> (\<exists>cur. rx = Some (Mark_Check cur) \<and> phase cur \<noteq> state_empty \<and> phase cur \<noteq> state_sent)"

fun sender_cleans :: "'a sender \<Rightarrow> bool" where
  "sender_cleans (Sender_Closed r (Drop_Check cur)) \<longleftrightarrow> phase cur = state_empty \<or> phase cur = state_sent \<and> cur AND rx_dropped \<noteq> 0"
| "sender_cleans _ \<longleftrightarrow> False"

text \<open>Somebody is left who will close an empty channel, or drop the value when the receiver has gone.\<close>

definition os_cleaned :: "('h, 'r, 'a, 'w, 's) config \<Rightarrow> bool" where
  "os_cleaned c \<longleftrightarrow> (phase (os_state (cf_core c)) = state_empty \<or> rx_gone (cf_rx c) \<and> phase (os_state (cf_core c)) = state_sent \<longrightarrow>
     (\<exists>h x. cf_senders c h = Some x \<and> (holds x = Some () \<or> sender_cleans x)))"

lemma os_phase:
  assumes R: "os_rel A c"
  shows "phase (os_state (cf_core c)) = state_empty \<longleftrightarrow> A = A_Empty" "phase (os_state (cf_core c)) = state_sent \<longleftrightarrow> (\<exists>h v. A = A_Sent h v)"
    "phase (os_state (cf_core c)) = state_closed \<longleftrightarrow> A = A_Closed" "os_state (cf_core c) AND rx_dropped = 0 \<longleftrightarrow> \<not> rx_marked (cf_rx c)"
  using os_relD(2) [OF R] by (simp_all add: phase_of_cases)

lemma cleaned_sender:
  assumes R: "os_rel A c" and R': "os_rel A' c'" and p': "A' = A_Empty \<or> rx_gone (cf_rx c) \<and> (\<exists>k v. A' = A_Sent k v)"
    and b: "os_count (cf_senders c) < 2 ^ 60"
    and x: "cf_senders c h = Some x" "holds x = Some () \<or> sender_cleans x" "sender_step ops sp x (cf_core c) = Some (x', s')"
    and c': "c' = c\<lparr>cf_core := s', cf_senders := (cf_senders c)(h \<mapsto> x')\<rparr>" and last: "\<And>k y. k \<noteq> h \<Longrightarrow> cf_senders c k = Some y \<Longrightarrow> holds y = None"
  shows "holds x' = Some () \<or> sender_cleans x'"
proof -
  have m: "rx_gone (cf_rx c) \<Longrightarrow> rx_marked (cf_rx c)" by (auto simp: rx_gone_def rx_marked_def)
  have s': "os_state s' = os_word (os_count (cf_senders c')) (rx_marked (cf_rx c)) (phase_of A')" using os_relD(2) [OF R'] by (simp add: c')
  have ph: "phase (os_state s') = state_empty \<or> phase (os_state s') = state_sent \<and> os_state s' AND rx_dropped \<noteq> 0" "phase (os_state s') \<noteq> state_closed" "phase (os_state s') \<noteq> state_taken"
    unfolding s' using p' m by auto
  show ?thesis
  proof (cases x)
    case (Sender_Closed r pc)
    then obtain pc' where pc': "decrement_senders ops sp pc (cf_core c) = Some (pc', s')" "x' = Sender_Closed r pc'" using x(3) by (auto simp: bind_eq_Some_conv)
    show ?thesis
    proof (cases pc)
      case Drop_Start
      have "(holds \<circ>\<^sub>m cf_senders c) k = (if k = h then Some () else None)" for k
        using x(1) Sender_Closed Drop_Start last [of k] by (cases "cf_senders c k") (auto simp: map_comp_def)
      then have "dom (holds \<circ>\<^sub>m cf_senders c) = {h}" by (auto split: if_splits)
      then have "os_count (cf_senders c) = 1" by (simp add: os_count_def)
      then have "sender_count (os_state (cf_core c)) = 1" using count_eq(1) [OF phase_of_less b] os_relD(2) [OF R] by simp
      then have "pc' = Drop_Check (os_state s')" using pc'(1) Drop_Start by (auto simp: Let_def)
      then show ?thesis using pc'(2) ph by simp
    next
      case (Drop_Check cur)
      then have "sender_cleans x" using x(2) Sender_Closed by auto
      then have cl: "phase cur = state_empty \<or> phase cur = state_sent \<and> cur AND rx_dropped \<noteq> 0" using Sender_Closed Drop_Check by simp
      show ?thesis
      proof (cases "cur = os_word (os_count (cf_senders c)) (rx_marked (cf_rx c)) (phase_of A) \<and> \<not> sp")
        case False
        then have "pc' = Drop_Check (os_state s')" using cl pc'(1) Drop_Check by (auto simp: cas_weak_at [OF R] split: if_splits)
        then show ?thesis using pc'(2) ph by simp
      next
        case True
        then have "phase (os_state s') = state_closed \<or> phase (os_state s') = state_taken"
          using cl pc'(1) Drop_Check by (auto simp: cas_weak_at [OF R] split: if_splits)
        then show ?thesis using ph(2,3) by simp
      qed
    qed (use x Sender_Closed in auto)
  qed (use x(3) in \<open>auto simp: bind_eq_Some_conv\<close>)
qed

lemma abs_step_to: "os_abs_step rx A A' \<Longrightarrow> A' = A_Empty \<or> (\<exists>k v. A' = A_Sent k v) \<Longrightarrow> A' = A \<or> (\<exists>h v b. A = A_Writing h v b)"
  by (induction rule: os_abs_step.cases) auto

lemma rx_gone_step:
  assumes R: "os_rel A c" and R': "os_rel A' (c\<lparr>cf_core := s', cf_rx := Some pc'\<rparr>)" and rx: "cf_rx c = Some pc"
    and st: "mark_receiver_dropped sp pc (cf_core c) = Some (pc', s')" and p: "A' = A_Empty \<or> (\<exists>k v. A' = A_Sent k v)" and g: "rx_gone (Some pc')"
  shows "rx_gone (cf_rx c)"
proof -
  have s': "os_state s' = os_word (os_count (cf_senders c)) (rx_marked (Some pc')) (phase_of A')" using os_relD(2) [OF R'] by simp
  have ph: "phase (os_state s') = state_empty \<or> phase (os_state s') = state_sent" "phase (os_state s') \<noteq> state_closed" "phase (os_state s') \<noteq> state_taken"
    unfolding s' using p by auto
  show ?thesis
  proof (cases pc)
    case Mark_Start
    then show ?thesis using st g ph by (auto simp: Let_def rx_gone_def)
  next
    case (Mark_Check cur)
    show ?thesis
    proof (cases "cur = os_word (os_count (cf_senders c)) (rx_marked (cf_rx c)) (phase_of A) \<and> \<not> sp")
      case False
      then show ?thesis using Mark_Check st g ph rx by (auto simp: rx_gone_def cas_weak_at [OF R] split: if_splits)
    next
      case True
      then have e: "phase (with_phase cur state_closed) = state_closed" "phase (with_phase cur state_taken) = state_taken" by simp_all
      have "cas_weak sp cur new (cf_core c) = Some ((cf_core c)\<lparr>os_state := new\<rparr>)" for new using True cas_weak_at [OF R] by simp
      then have "phase cur \<noteq> state_empty" "phase cur \<noteq> state_sent" using Mark_Check st ph(2,3) e by (auto split: if_splits)
      then show ?thesis using Mark_Check rx by (simp add: rx_gone_def)
    qed
  next
    case Mark_Value
    then obtain k v where "A = A_Taking k v Rcv" using os_rel_at(6) [OF R] rx by (cases A) auto
    then have "os_state s' = os_word (os_count (cf_senders c)) (rx_marked (cf_rx c)) 3" using st Mark_Value os_relD(2) [OF R] by (auto simp: bind_eq_Some_conv drop_value_def take_value_def split: option.splits)
    then show ?thesis using ph by simp
  qed (use st in simp)
qed

lemma cleaned_at: "os_rel A c \<Longrightarrow> os_cleaned c \<longleftrightarrow> (A = A_Empty \<or> rx_gone (cf_rx c) \<and> (\<exists>k v. A = A_Sent k v) \<longrightarrow> (\<exists>h x. cf_senders c h = Some x \<and> (holds x = Some () \<or> sender_cleans x)))"
  unfolding os_cleaned_def by (simp only: os_phase)

lemma writing_holds: "writing x = Some y \<Longrightarrow> holds x = Some ()"
  by (cases x) simp_all

lemma os_cleaned_step:
  assumes R: "os_rel A c" and R': "os_rel A' c'" and I: "os_cleaned c" and st: "os_step ops excl c c'" and b: "card (dom (cf_senders c')) < 2 ^ 60"
    and abs: "os_abs_step (rx_marked (cf_rx c')) A A'"
  shows "os_cleaned c'"
  unfolding cleaned_at [OF R']
proof
  assume h: "A' = A_Empty \<or> rx_gone (cf_rx c') \<and> (\<exists>k v. A' = A_Sent k v)"
  let ?goal = "\<exists>h x. cf_senders c' h = Some x \<and> (holds x = Some () \<or> sender_cleans x)"
  have n: "os_count (cf_senders c) < 2 ^ 60" using os_count_le [OF os_relD(1) [OF R]] os_count_step_le [OF st os_relD(1) [OF R]] b by simp
  have old: "\<exists>h x. cf_senders c h = Some x \<and> (holds x = Some () \<or> sender_cleans x)" if "A' = A_Empty \<or> rx_gone (cf_rx c)"
  proof -
    from abs_step_to [OF abs] h consider "A' = A" | k v b where "A = A_Writing k v b" by blast
    then show ?thesis
    proof cases
      case 1
      then show ?thesis using I that h unfolding cleaned_at [OF R] by blast
    next
      case 2
      then have "writing \<circ>\<^sub>m cf_senders c = [k \<mapsto> (v, b)]" using os_relD(5) [OF R] by simp
      then have "(writing \<circ>\<^sub>m cf_senders c) k = Some (v, b)" by simp
      then show ?thesis using writing_holds by (fastforce simp: map_comp_def split: option.splits)
    qed
  qed
  from st show ?goal
  proof cases
    case (os_clone k x k')
    then show ?thesis by auto
  next
    case (os_send k x v x')
    with h old obtain j y where "cf_senders c j = Some y" "holds y = Some () \<or> sender_cleans y" by auto
    with os_send show ?thesis by (cases "(v, x)" rule: sender_send.cases) (auto intro: exI [of _ j])
  next
    case (os_close k x x')
    with h old obtain j y where "cf_senders c j = Some y" "holds y = Some () \<or> sender_cleans y" by auto
    with os_close show ?thesis by (cases x rule: sender_close.cases) (auto intro: exI [of _ j])
  next
    case (os_sender k x sp x' s')
    with h old obtain j y where j: "cf_senders c j = Some y" "holds y = Some () \<or> sender_cleans y" by auto
    show ?thesis
    proof (cases "\<exists>l z. l \<noteq> k \<and> cf_senders c l = Some z \<and> (holds z = Some () \<or> sender_cleans z)")
      case True
      then show ?thesis using os_sender(1) by auto
    next
      case False
      then have "j = k" using j by blast
      moreover have "holds z = None" if "l \<noteq> k" "cf_senders c l = Some z" for l z using False that by (cases "holds z") auto
      ultimately show ?thesis using cleaned_sender [OF R R' _ n os_sender(2) _ os_sender(3) os_sender(1)] h j os_sender by auto
    qed
  next
    case (os_rx pc sp pc' s')
    then show ?thesis using old rx_gone_step [OF R _ os_rx(2,3), of A'] R' h by auto
  qed (use h old in \<open>auto simp: rx_gone_def\<close>)
qed

definition senders_finished :: "('h \<rightharpoonup> 'a sender) \<Rightarrow> bool" where
  "senders_finished m \<longleftrightarrow> (\<forall>h x. m h = Some x \<longrightarrow> (\<exists>r. x = Sender_Closed r Drop_Done))"

lemma senders_finishedD: "senders_finished m \<Longrightarrow> m h = Some x \<Longrightarrow> holds x = None \<and> \<not> sender_cleans x \<and> writing x = None \<and> \<not> sender_taking x"
proof -
  assume "senders_finished m" "m h = Some x"
  then obtain r where "x = Sender_Closed r Drop_Done" by (auto simp: senders_finished_def)
  then show ?thesis by simp
qed

lemma reader_done_taking: "reader_done y \<Longrightarrow> \<not> reader_taking y"
  by (cases y rule: reader_done.cases) auto

lemma takers_idle:
  assumes "\<And>h x. ss h = Some x \<Longrightarrow> \<not> sender_taking x" "readers_done rs" "rx = Some Mark_Done"
  shows "takers ss rs rx = {}"
proof -
  have "\<not> taking ss rs rx a" for a using assms by (cases a) (auto simp: readers_done_def, metis reader_done_taking)
  then show ?thesis by (simp add: takers_def)
qed

text \<open>
  (C14) When every sender handle has been closed or dropped, the receiver has gone and every receiver
  call has returned, the slot is empty: a value that was sent was received by exactly one call or
  dropped exactly once, by the sending or the receiving side, and the phase is one of the two final
  ones, so that the destructor of the shared state finds nothing to do.
\<close>
theorem oneshot_leaks_nothing:
  assumes r: "os_reachable ops excl c" and b: "card (dom (cf_senders c)) < 2 ^ 60"
    and fin: "senders_finished (cf_senders c)" "cf_rx c = Some Mark_Done" "readers_done (cf_readers c)"
  shows "os_slot (cf_core c) = None \<and> drop_shared (cf_core c) = Some (cf_core c) \<and> is_closed_for_receiver (cf_core c) \<and>
    (os_sends c = Map.empty \<and> os_receives c = Map.empty \<and> os_dropped (cf_core c) = [] \<or>
     (\<exists>h v. os_sends c = [h \<mapsto> v] \<and>
       ((\<exists>r. os_receives c = [r \<mapsto> v]) \<and> os_dropped (cf_core c) = [] \<or> os_receives c = Map.empty \<and> os_dropped (cf_core c) = [v])))"
proof -
  have "os_cleaned (oneshot_pair ops h)" for h by (auto simp: os_cleaned_def oneshot_pair_def)
  then obtain A where A: "os_rel A c" "os_cleaned c" using os_reachable_inv [OF r b, of os_cleaned] os_cleaned_step by blast
  have idle: "cf_senders c h = Some x \<Longrightarrow> holds x = None \<and> \<not> sender_cleans x \<and> writing x = None \<and> \<not> sender_taking x" for h x
    by (rule senders_finishedD [OF fin(1)])
  have "writer_of A = Map.empty" unfolding os_relD(5) [OF A(1), symmetric] using idle by (auto simp: fun_eq_iff map_comp_def split: option.splits)
  then have "A \<noteq> A_Writing h v b'" for h v b' by auto
  moreover have "A \<noteq> A_Empty" "A \<noteq> A_Sent h v" for h v using A(2) idle fin(2) unfolding cleaned_at [OF A(1)] by (auto simp: rx_gone_def)
  moreover have "takers (cf_senders c) (cf_readers c) (cf_rx c) = {}" by (rule takers_idle) (use idle fin in auto)
  then have "A \<noteq> A_Taking h v a" for h v a using os_relD(7) [OF A(1)] by auto
  ultimately consider h v r' where "A = A_Received h v r'" | h v where "A = A_Dropped h v" | "A = A_Closed" by (cases A) auto
  then show ?thesis
    using os_relD(2-4,6,8) [OF A(1)] by cases (auto simp: drop_shared_def is_closed_for_receiver_def Let_def simp del: fun_upd_apply)
qed

definition run_leak :: "(nat, nat, nat, nat) os_action list" where
  "run_leak = [Act_Send 0 7, Act_Sender 0, Act_Sender 0, Act_Sender 0, Act_Rx_Close, Act_Rx, Act_Rx, Act_Sender 0, Act_Sender 0, Act_Sender 0,
     Act_Close 0, Act_Sender 0, Act_Sender 0, Act_Sender 0]"

lemma run_leak_end: "\<exists>c. os_run waker_cell run_leak (oneshot_pair waker_cell 0) = Some c \<and> os_sends c = [0 \<mapsto> 7] \<and> os_receives c = Map.empty \<and>
    cf_senders c = [0 \<mapsto> Sender_Closed (Some (7, None)) Drop_Done] \<and> cf_rx c = Some Mark_Done \<and> cf_readers c = Map.empty"
  by (auto simp: run_leak_def os_run_simps os_sends_def os_receives_def map_comp_def fun_eq_iff)

theorem oneshot_leaks_nothing_witness:
  "\<exists>c :: (nat, nat, nat, nat, nat option) config. os_reachable waker_cell False c \<and> card (dom (cf_senders c)) < 2 ^ 60 \<and> senders_finished (cf_senders c) \<and>
     cf_rx c = Some Mark_Done \<and> readers_done (cf_readers c) \<and> os_slot (cf_core c) = None \<and> os_dropped (cf_core c) = [7]"
proof -
  obtain c :: "(nat, nat, nat, nat, nat option) config" where c: "os_run waker_cell run_leak (oneshot_pair waker_cell 0) = Some c" "os_sends c = [0 \<mapsto> 7]" "os_receives c = Map.empty"
    "cf_senders c = [0 \<mapsto> Sender_Closed (Some (7, None)) Drop_Done]" "cf_rx c = Some Mark_Done" "cf_readers c = Map.empty" using run_leak_end by blast
  have r: "os_reachable waker_cell False c" "card (dom (cf_senders c)) < 2 ^ 60" "senders_finished (cf_senders c)" "readers_done (cf_readers c)"
    using os_run_reachable [OF c(1)] c(4,6) by (simp_all add: senders_finished_def readers_done_def split: if_splits)
  from oneshot_leaks_nothing [OF r(1-3) c(5) r(4)] c(2,3) have "os_slot (cf_core c) = None \<and> os_dropped (cf_core c) = [7]" by (auto simp: fun_eq_iff split: if_splits)
  then show ?thesis using r c(5) by blast
qed

end
