(* ===== verification/Oneshot_Wake.thy ===== *)
theory Oneshot_Wake
  imports Oneshot_Safety
begin

section \<open>A waiting receiver of a oneshot channel is woken\<close>

text \<open>
  The laws of the \<^verbatim>\<open>AtomicWaker\<close> are used here: between the registration of a waker and the moment
  \<^verbatim>\<open>poll_recv\<close> returns \<^verbatim>\<open>Pending\<close> the state is checked again, and whoever makes the channel ready
  afterwards wakes. The last theorem shows the one case the code leaves out.
\<close>

definition waker_of :: "('w, 's) waker_ops \<Rightarrow> ('a, 'w, 's) oneshot \<Rightarrow> 'w option" where
  "waker_of ops s = fst (aw_take ops (os_waker s))"














subsection \<open>Nobody goes without attention\<close>

text \<open>Making the channel ready is followed by a wake, or is the answer of the call itself.\<close>

definition os_ready :: "('a, 'w, 's) oneshot \<Rightarrow> bool" where
  "os_ready s \<longleftrightarrow> phase (os_state s) = state_sent \<or> phase (os_state s) = state_closed"

lemma os_ready_word: "os_state s = os_word n rx p \<Longrightarrow> p < 8 \<Longrightarrow> os_ready s \<longleftrightarrow> p = 2 \<or> p = 4"
  by (simp add: os_ready_def)



lemma phases_distinct [simp]:
  "state_sent \<noteq> state_empty" "state_closed \<noteq> state_empty" "state_closed \<noteq> state_sent" "state_closed \<noteq> state_taken" "state_closed \<noteq> state_writing"
  "state_sent \<noteq> state_taken" "state_sent \<noteq> state_writing"
  by (simp_all add: state_empty_def state_sent_def state_closed_def state_taken_def state_writing_def)












subsection \<open>The waker of a pending call\<close>












subsection \<open>The theorem\<close>

















definition run_pending :: "(nat, nat, nat, nat) os_action list" where
  "run_pending = [Act_Poll 0 5, Act_Reader 0, Act_Reader 0, Act_Reader 0, Act_Reader 0, Act_Reader 0, Act_Reader 0, Act_Reader 0]"




text \<open>
  (C40) The wake-up that the code loses: while a call is pending, the last sender has subtracted its
  share of the count but has not closed the channel yet; a \<^verbatim>\<open>try_recv\<close> on the same receiver now
  closes it and returns \<^verbatim>\<open>Disconnected\<close>; the sender finds the channel closed and returns without
  waking. Every operation has returned, the channel is closed, and the pending call's waker is
  still registered and was never woken.
\<close>
theorem oneshot_loses_wakeup:
  "\<exists>c :: (nat, nat, nat, nat, nat option) config. os_reachable waker_cell False c \<and> senders_finished (cf_senders c) \<and> readers_done (cf_readers c) \<and> cf_rx c = None \<and>
     is_closed_for_receiver (cf_core c) \<and> cf_readers c 0 = Some (Reader_Poll 5 (Poll_Done None)) \<and> cf_readers c 1 = Some (Reader_Try (Recv_Done (Inl Disconnected))) \<and>
     waker_of waker_cell (cf_core c) = Some 5 \<and> os_woken (cf_core c) = []"
proof -
  let ?run = "run_pending @ [Act_Close 0, Act_Sender 0, Act_Try 1, Act_Reader 1, Act_Reader 1, Act_Sender 0, Act_Sender 0]"
  have "\<exists>c. os_run waker_cell ?run (oneshot_pair waker_cell 0) = Some c \<and> cf_senders c = [0 \<mapsto> Sender_Closed None Drop_Done] \<and>
      cf_readers c = [0 \<mapsto> Reader_Poll 5 (Poll_Done None), 1 \<mapsto> Reader_Try (Recv_Done (Inl Disconnected))] \<and> cf_rx c = None \<and>
      is_closed_for_receiver (cf_core c) \<and> waker_of waker_cell (cf_core c) = Some 5 \<and> os_woken (cf_core c) = []"
    by (simp add: run_pending_def os_run_simps is_closed_for_receiver_def waker_of_def)
  then obtain c :: "(nat, nat, nat, nat, nat option) config" where c: "os_run waker_cell ?run (oneshot_pair waker_cell 0) = Some c" "cf_senders c = [0 \<mapsto> Sender_Closed None Drop_Done]"
      "cf_readers c = [0 \<mapsto> Reader_Poll 5 (Poll_Done None), 1 \<mapsto> Reader_Try (Recv_Done (Inl Disconnected))]" "cf_rx c = None"
      "is_closed_for_receiver (cf_core c)" "waker_of waker_cell (cf_core c) = Some 5" "os_woken (cf_core c) = []" by blast
  then show ?thesis using os_run_reachable [OF c(1)] by (intro exI [of _ c]) (auto simp: senders_finished_def readers_done_def)
qed

end
