(* ===== verification/Histogram.thy ===== *)
theory Histogram
  imports Prelude "HOL-Library.Multiset"
begin

section \<open>Histograms of durations\<close>

text \<open>
  \<^verbatim>\<open>stats/src/histogram.rs\<close>: durations in nanoseconds counted in exponential buckets, eight per power of
  two. Values are natural numbers below \<open>2 ^ 64\<close>, bucket counts saturate at \<open>2 ^ 32 - 1\<close>. A shift by 64 or
  more, a panic in Rust, has no result (\<^term>\<open>None\<close>). The rank of a quantile, the rounded product of a
  \<^verbatim>\<open>f64\<close> and the count, is an argument. The lemmas show the documented error bounds of buckets and
  quantiles, and that a histogram depends only on the multiset of its values, so that merging is
  recording everything in one place.
\<close>

unbundle bit_operations_syntax

subsection \<open>Buckets\<close>

definition sub_bucket_bits :: nat where "sub_bucket_bits = 3"

definition sub_buckets :: nat where "sub_buckets = push_bit sub_bucket_bits 1"

fun bit_length :: "nat \<Rightarrow> nat" where
  "bit_length n = (if n = 0 then 0 else Suc (bit_length (n div 2)))"

definition leading_zeros :: "nat \<Rightarrow> nat" where
  "leading_zeros n = 64 - bit_length n"

definition as_u16 :: "nat \<Rightarrow> nat" where
  "as_u16 n = n mod 2 ^ 16"

definition bucket_index :: "nat \<Rightarrow> nat" where
  "bucket_index ns =
     (if ns < sub_buckets then as_u16 ns
      else let octave = 63 - leading_zeros ns;
               sub = drop_bit (octave - sub_bucket_bits) ns AND (sub_buckets - 1)
           in as_u16 (as_u16 octave * as_u16 sub_buckets + as_u16 sub))"

definition bucket_bounds :: "nat \<Rightarrow> (nat \<times> nat) option" where
  "bucket_bounds index =
     (if index < sub_buckets then Some (index, index)
      else let octave = index div sub_buckets in
        if octave < sub_bucket_bits then Some (0, 0)
        else let sub = index mod sub_buckets; shift = octave - sub_bucket_bits in
          if shift \<ge> 64 then None
          else let lower = push_bit shift (sub_buckets + sub) mod 2 ^ 64
               in Some (lower, u64_add lower (push_bit shift 1 - 1)))"

subsection \<open>The histogram\<close>

record histogram =
  hg_count :: nat
  hg_sum_ns :: nat
  hg_min_ns :: nat
  hg_max_ns :: nat
  hg_buckets :: "(nat \<times> nat) list"

definition hist_new :: histogram where
  "hist_new = \<lparr>hg_count = 0, hg_sum_ns = 0, hg_min_ns = 0, hg_max_ns = 0, hg_buckets = []\<rparr>"

definition u64_saturating_add :: "nat \<Rightarrow> nat \<Rightarrow> nat" where
  "u64_saturating_add a b = min (a + b) (2 ^ 64 - 1)"

definition u32_saturating_add :: "nat \<Rightarrow> nat \<Rightarrow> nat" where
  "u32_saturating_add a b = min (a + b) (2 ^ 32 - 1)"

text \<open>
  \<^verbatim>\<open>binary_search_by_key\<close> of a sorted slice of distinct keys, and what both callers do with its result:
  raise the count of the bucket that is there, or insert a new one at its place.
\<close>

fun search_key :: "nat \<Rightarrow> (nat \<times> nat) list \<Rightarrow> nat + nat" where
  "search_key index [] = Inl 0"
| "search_key index ((i, n) # bs) =
     (if i = index then Inr 0 else if i > index then Inl 0 else map_sum Suc Suc (search_key index bs))"

definition insert_at :: "nat \<Rightarrow> 'b \<Rightarrow> 'b list \<Rightarrow> 'b list" where
  "insert_at k x xs = take k xs @ x # drop k xs"

definition bump_bucket :: "nat \<Rightarrow> nat \<Rightarrow> (nat \<times> nat) list \<Rightarrow> (nat \<times> nat) list" where
  "bump_bucket index n bs =
     (case search_key index bs of
        Inr k \<Rightarrow> bs[k := (fst (bs ! k), u32_saturating_add (snd (bs ! k)) n)]
      | Inl k \<Rightarrow> insert_at k (index, n) bs)"

definition hist_add_ns :: "nat \<Rightarrow> histogram \<Rightarrow> histogram" where
  "hist_add_ns ns h =
     (let h = (if hg_count h = 0 then h\<lparr>hg_min_ns := ns, hg_max_ns := ns\<rparr>
               else h\<lparr>hg_min_ns := min (hg_min_ns h) ns, hg_max_ns := max (hg_max_ns h) ns\<rparr>);
          h = h\<lparr>hg_count := u64_add (hg_count h) 1, hg_sum_ns := u64_saturating_add (hg_sum_ns h) ns\<rparr>
      in h\<lparr>hg_buckets := bump_bucket (bucket_index ns) 1 (hg_buckets h)\<rparr>)"

text \<open>A duration is its number of nanoseconds, which may be too large for a \<^verbatim>\<open>u64\<close>.\<close>

definition hist_add :: "nat \<Rightarrow> histogram \<Rightarrow> histogram" where
  "hist_add duration h = hist_add_ns (if duration < 2 ^ 64 then duration else 2 ^ 64 - 1) h"

fun merge_buckets :: "(nat \<times> nat) list \<Rightarrow> (nat \<times> nat) list \<Rightarrow> (nat \<times> nat) list" where
  "merge_buckets [] bs = bs"
| "merge_buckets ((index, n) # os) bs = merge_buckets os (bump_bucket index n bs)"

definition hist_merge :: "histogram \<Rightarrow> histogram \<Rightarrow> histogram" where
  "hist_merge other h =
     (if hg_count other = 0 then h
      else if hg_count h = 0 then other
      else \<lparr>hg_count = u64_add (hg_count h) (hg_count other), hg_sum_ns = u64_saturating_add (hg_sum_ns h) (hg_sum_ns other),
            hg_min_ns = min (hg_min_ns h) (hg_min_ns other), hg_max_ns = max (hg_max_ns h) (hg_max_ns other),
            hg_buckets = merge_buckets (hg_buckets other) (hg_buckets h)\<rparr>)"

definition hist_is_empty :: "histogram \<Rightarrow> bool" where
  "hist_is_empty h \<longleftrightarrow> hg_count h = 0"

definition hist_mean :: "histogram \<Rightarrow> nat option" where
  "hist_mean h = (if hg_count h = 0 then None else Some (hg_sum_ns h div hg_count h))"

definition u64_clamp :: "nat \<Rightarrow> nat \<Rightarrow> nat \<Rightarrow> nat" where
  "u64_clamp lo hi x = (if x < lo then lo else if x > hi then hi else x)"

text \<open>
  The loop of \<^verbatim>\<open>quantile\<close>. The result is nested: the outer option is the panic of a shift, the inner one
  the \<^verbatim>\<open>None\<close> of an empty histogram. \<open>rank\<close> is \<^verbatim>\<open>(q * self.count as f64).ceil() as u64\<close>.
\<close>

fun quantile_loop :: "nat \<Rightarrow> nat \<Rightarrow> (nat \<times> nat) list \<Rightarrow> histogram \<Rightarrow> nat option" where
  "quantile_loop target seen [] h = Some (hg_max_ns h)"
| "quantile_loop target seen ((index, n) # bs) h =
     (let seen = u64_add seen n in
      if seen \<ge> target
      then do { (lower, upper) \<leftarrow> bucket_bounds index;
                let mid = u64_add lower (u64_sub upper lower div 2);
                Some (u64_clamp (hg_min_ns h) (hg_max_ns h) mid) }
      else quantile_loop target seen bs h)"

definition hist_quantile :: "nat \<Rightarrow> histogram \<Rightarrow> nat option option" where
  "hist_quantile rank h =
     (if hg_count h = 0 then Some None
      else let target = max rank 1 in
        if target \<ge> hg_count h then Some (Some (hg_max_ns h))
        else map_option Some (quantile_loop target 0 (hg_buckets h) h))"

definition hist_from_parts :: "nat \<Rightarrow> nat \<Rightarrow> nat \<Rightarrow> nat \<Rightarrow> (nat \<times> nat) list \<Rightarrow> histogram" where
  "hist_from_parts cnt sum_ns min_ns max_ns buckets =
     \<lparr>hg_count = cnt, hg_sum_ns = sum_ns, hg_min_ns = min_ns, hg_max_ns = max_ns, hg_buckets = sort_key fst buckets\<rparr>"

subsection \<open>The error of a bucket\<close>

declare bit_length.simps [simp del]

lemma bit_length_bounds: "0 < n \<Longrightarrow> 2 ^ (bit_length n - 1) \<le> n \<and> n < 2 ^ bit_length n \<and> 0 < bit_length n"
proof (induction n rule: bit_length.induct)
  case (1 n)
  show ?case
  proof (cases "n div 2 = 0")
    case True
    then have "n = 1" using 1 by auto
    then show ?thesis by (simp add: bit_length.simps)
  next
    case False
    define m where "m = bit_length (n div 2)"
    have e: "bit_length n = Suc m" using 1(2) by (subst bit_length.simps) (simp add: m_def)
    have "2 ^ (m - 1) \<le> n div 2" "n div 2 < 2 ^ m" "0 < m" using 1(1) 1(2) False by (auto simp: m_def)
    then have "2 * 2 ^ (m - 1) \<le> n" "n < 2 * 2 ^ m" "(2::nat) * 2 ^ (m - 1) = 2 ^ m" by (auto simp: power_eq_if)
    then show ?thesis unfolding e by simp
  qed
qed

lemma sub_buckets_8 [simp]: "sub_buckets = 8" "sub_bucket_bits = 3"
  by (simp_all add: sub_buckets_def sub_bucket_bits_def)

text \<open>The bucket of a value from eight on, by the position of its highest bit.\<close>

lemma bucket_index_large:
  assumes "8 \<le> ns" "ns < 2 ^ 64"
  obtains k where "3 \<le> k" "k < 64" "2 ^ k \<le> ns" "ns < 2 * 2 ^ k" "bucket_index ns = k * 8 + (ns div 2 ^ (k - 3)) mod 8"
proof -
  have b: "2 ^ (bit_length ns - 1) \<le> ns" "ns < 2 ^ bit_length ns" "0 < bit_length ns" using bit_length_bounds [of ns] assms(1) by auto
  define k where "k = bit_length ns - 1"
  have n: "bit_length ns = Suc k" using b(3) by (simp add: k_def)
  have "k < 64"
  proof (rule ccontr)
    assume "\<not> k < 64"
    then have "(2::nat) ^ 64 \<le> 2 ^ k" by (intro power_increasing) auto
    then show False using b(1) assms(2) by (simp add: k_def)
  qed
  moreover have "3 \<le> k"
  proof (rule ccontr)
    assume "\<not> 3 \<le> k"
    then have "(2::nat) ^ Suc k \<le> 2 ^ 3" by (intro power_increasing) auto
    then show False using b(2) assms(1) n by simp
  qed
  moreover have "bucket_index ns = k * 8 + (ns div 2 ^ (k - 3)) mod 8"
  proof -
    have "63 - leading_zeros ns = k" using n \<open>k < 64\<close> by (simp add: leading_zeros_def)
    moreover have "drop_bit (k - 3) ns AND 7 = (ns div 2 ^ (k - 3)) mod 8"
      using take_bit_eq_mask [of 3 "drop_bit (k - 3) ns"] by (simp add: mask_eq_exp_minus_1 take_bit_eq_mod drop_bit_eq_div)
    ultimately show ?thesis using assms(1) \<open>k < 64\<close> by (simp add: bucket_index_def Let_def as_u16_def)
  qed
  ultimately show thesis using that [of k] b n by simp
qed

lemma bucket_bounds_large:
  assumes "3 \<le> k" "k < 64" "j < 8"
  shows "bucket_bounds (k * 8 + j) = Some ((8 + j) * 2 ^ (k - 3), (8 + j) * 2 ^ (k - 3) + (2 ^ (k - 3) - 1))"
proof -
  have "(8 + j) * 2 ^ (k - 3) + (2 ^ (k - 3) - 1) < 16 * (2::nat) ^ (k - 3)"
  proof -
    have "(8 + j) * 2 ^ (k - 3) \<le> 15 * (2::nat) ^ (k - 3)" using assms(3) by (intro mult_right_mono) auto
    moreover have "0 < (2::nat) ^ (k - 3)" by simp
    ultimately show ?thesis by linarith
  qed
  also have "\<dots> = 2 ^ (k + 1)" using assms(1) power_add [of "2::nat" 4 "k - 3"] by simp
  also have "\<dots> \<le> 2 ^ 64" using assms(2) by (intro power_increasing) auto
  finally have l: "(8 + j) * 2 ^ (k - 3) + (2 ^ (k - 3) - 1) < (2::nat) ^ 64" .
  have m: "((8 + j) * 2 ^ (k - 3)) mod 2 ^ 64 = (8 + j) * (2::nat) ^ (k - 3)" using l by (intro mod_less) linarith
  have d: "(k * 8 + j) div 8 = k" "(k * 8 + j) mod 8 = j" "\<not> k * 8 + j < 8" using assms by auto
  show ?thesis using assms(1,2) unfolding bucket_bounds_def sub_buckets_8 Let_def d push_bit_eq_mult using l m by (simp add: algebra_simps)
qed

lemma pow_pos: "0 < (2::nat) ^ s"
  by simp

text \<open>The midpoint of a bucket as \<^verbatim>\<open>quantile\<close> computes it.\<close>

definition bucket_mid :: "nat \<Rightarrow> nat \<Rightarrow> nat" where
  "bucket_mid lower upper = lower + (upper - lower) div 2"

lemma bucket_frame:
  assumes "8 \<le> ns" "ns < 2 ^ 64"
  obtains s q where "s < 61" "8 \<le> q" "q < 16" "q * 2 ^ s \<le> ns" "ns \<le> q * 2 ^ s + (2 ^ s - 1)" "bucket_index ns = s * 8 + q + 16"
    "bucket_bounds (bucket_index ns) = Some (q * 2 ^ s, q * 2 ^ s + (2 ^ s - 1))" "q * 2 ^ s + (2 ^ s - 1) < 2 ^ 64"
proof -
  obtain k where k: "3 \<le> k" "k < 64" "2 ^ k \<le> ns" "ns < 2 * 2 ^ k" "bucket_index ns = k * 8 + (ns div 2 ^ (k - 3)) mod 8" using bucket_index_large [OF assms] .
  define s q where "s = k - 3" and "q = ns div 2 ^ s"
  have p: "(2::nat) ^ k = 8 * 2 ^ s" using k(1) power_add [of "2::nat" 3 s] by (simp add: s_def)
  have q: "8 \<le> q" "q < 16" using k(3,4) unfolding p q_def by (simp_all add: less_eq_div_iff_mult_less_eq div_less_iff_less_mult)
  have "q mod 8 = q - 8" using q by (simp add: mod_if)
  then have i: "bucket_index ns = k * 8 + (q - 8)" using k(5) by (simp add: q_def s_def)
  have b: "bucket_bounds (bucket_index ns) = Some (q * 2 ^ s, q * 2 ^ s + (2 ^ s - 1))" using bucket_bounds_large [OF k(1,2), of "q - 8"] q unfolding i s_def by simp
  have "q * 2 ^ s + ns mod 2 ^ s = ns" unfolding q_def by (rule div_mult_mod_eq)
  moreover have "ns mod 2 ^ s < 2 ^ s" by simp
  ultimately have n: "q * 2 ^ s \<le> ns" "ns \<le> q * 2 ^ s + (2 ^ s - 1)" by linarith+
  have "q * 2 ^ s \<le> 15 * (2::nat) ^ s" using q by (intro mult_right_mono) auto
  then have "q * 2 ^ s + (2 ^ s - 1) < 16 * (2::nat) ^ s" using zero_less_power [of "2::nat" s] by linarith
  also have "\<dots> = 2 ^ (s + 4)" by (simp add: power_add)
  also have "\<dots> \<le> 2 ^ 64" using k(1,2) by (intro power_increasing) (auto simp: s_def)
  finally have "q * 2 ^ s + (2 ^ s - 1) < 2 ^ 64" .
  moreover have "bucket_index ns = s * 8 + q + 16" "s < 61" using i q k(1,2) by (auto simp: s_def)
  ultimately show thesis using that [of s q] q n b by blast
qed

lemma bucket_small: "ns < 8 \<Longrightarrow> bucket_index ns = ns \<and> bucket_bounds ns = Some (ns, ns)"
  by (simp add: bucket_index_def bucket_bounds_def as_u16_def)

lemma mid_error:
  assumes "8 \<le> q" "q * 2 ^ s \<le> ns" "ns \<le> q * 2 ^ s + (2 ^ s - 1)"
  shows "16 * (bucket_mid (q * 2 ^ s) (q * 2 ^ s + (2 ^ s - 1)) - ns) \<le> ns" "16 * (ns - bucket_mid (q * 2 ^ s) (q * 2 ^ s + (2 ^ s - 1))) \<le> ns"
proof -
  let ?m = "bucket_mid (q * 2 ^ s) (q * 2 ^ s + (2 ^ s - 1))"
  have m: "?m = q * 2 ^ s + (2 ^ s - 1) div 2" by (simp add: bucket_mid_def)
  have l: "8 * 2 ^ s \<le> q * (2::nat) ^ s" using assms(1) by (intro mult_right_mono) auto
  have h: "2 * ((2 ^ s - 1) div 2) \<le> (2::nat) ^ s - 1" "(2::nat) ^ s - 1 \<le> 2 * ((2 ^ s - 1) div 2) + 1" by linarith+
  have z: "0 < (2::nat) ^ s" by simp
  have "16 * (?m - ns) \<le> 8 * 2 ^ s" using m assms(2) h(1) z by linarith
  then show "16 * (?m - ns) \<le> ns" using l assms(2) by linarith
  have "2 * (ns - ?m) \<le> 2 ^ s"
  proof (cases s)
    case 0
    then show ?thesis using m assms by simp
  next
    case (Suc r)
    then have "(2::nat) ^ s - 1 = 2 * (2 ^ r - 1) + 1" using pow_pos [of r] unfolding Suc power_Suc by linarith
    then have "(2 ^ s - 1) div 2 = (2::nat) ^ r - 1" by simp
    moreover have "(2::nat) ^ s = 2 * 2 ^ r" using Suc by simp
    ultimately show ?thesis using m assms(3) pow_pos [of r] by linarith
  qed
  then show "16 * (ns - ?m) \<le> ns" using l assms(2) by linarith
qed

lemma bucket_mono: "a \<le> b \<Longrightarrow> b < 2 ^ 64 \<Longrightarrow> bucket_index a \<le> bucket_index b"
proof (cases "a < 8 \<or> b < 8")
  case True
  assume ab: "a \<le> b" "b < 2 ^ 64"
  show ?thesis
  proof (cases "b < 8")
    case False
    then obtain s q where "bucket_index b = s * 8 + q + 16" using bucket_frame [of b] ab(2) by (metis not_less)
    then show ?thesis using True False bucket_small [of a] by simp
  qed (use ab bucket_small in auto)
next
  case False
  assume ab: "a \<le> b" "b < 2 ^ 64"
  have l: "8 \<le> a" "a < 2 ^ 64" "8 \<le> b" using False ab by linarith+
  obtain s q where a: "8 \<le> q" "q < 16" "q * 2 ^ s \<le> a" "bucket_index a = s * 8 + q + 16" by (rule bucket_frame [OF l(1,2)])
  obtain t r where b: "8 \<le> r" "r < 16" "b \<le> r * 2 ^ t + (2 ^ t - 1)" "bucket_index b = t * 8 + r + 16" by (rule bucket_frame [OF l(3) ab(2)])
  have "q * 2 ^ s \<le> r * 2 ^ t + (2 ^ t - 1)" using a(3) b(3) ab by linarith
  then have c: "q * 2 ^ s < (r + 1) * 2 ^ t" using pow_pos [of t] unfolding add_mult_distrib by linarith
  show ?thesis
  proof (cases "s \<le> t")
    case True
    show ?thesis
    proof (cases "s = t")
      case e: True
      then have "q < r + 1" using c pow_pos [of t] by (metis mult_less_cancel2)
      then show ?thesis using e a(4) b(4) by simp
    qed (use True a b in auto)
  next
    case F: False
    then obtain d where d: "s = t + Suc d" using less_imp_Suc_add [of t s] by auto
    have "16 * 2 ^ t \<le> 8 * (2::nat) ^ s" unfolding d by (simp add: power_add)
    also have "\<dots> \<le> q * 2 ^ s" using a(1) by (intro mult_right_mono) auto
    also have "\<dots> < (r + 1) * 2 ^ t" by (rule c)
    also have "\<dots> \<le> 16 * 2 ^ t" using b(2) by (intro mult_right_mono) auto
    finally show ?thesis by simp
  qed
qed

lemma bucket_covers:
  assumes "ns < 2 ^ 64"
  obtains lower upper where "bucket_bounds (bucket_index ns) = Some (lower, upper)" "lower \<le> ns" "ns \<le> upper" "upper < 2 ^ 64" "8 * (upper - lower) \<le> lower"
    "16 * (bucket_mid lower upper - ns) \<le> ns" "16 * (ns - bucket_mid lower upper) \<le> ns"
proof (cases "ns < 8")
  case True
  then show thesis using that [of ns ns] bucket_small [OF True] by (simp add: bucket_mid_def)
next
  case False
  then obtain s q where b: "8 \<le> q" "q * 2 ^ s \<le> ns" "ns \<le> q * 2 ^ s + (2 ^ s - 1)" "bucket_bounds (bucket_index ns) = Some (q * 2 ^ s, q * 2 ^ s + (2 ^ s - 1))"
    "q * 2 ^ s + (2 ^ s - 1) < 2 ^ 64" using bucket_frame [of ns] assms by (metis not_less)
  have "8 * 2 ^ s \<le> q * (2::nat) ^ s" using b(1) by (intro mult_right_mono) auto
  then have w: "8 * (q * 2 ^ s + (2 ^ s - 1) - q * 2 ^ s) \<le> q * 2 ^ s" by linarith
  show thesis by (rule that [OF b(4,2,3,5) w mid_error [OF b(1-3)]])
qed

text \<open>Buckets do not overlap: the bounds of a bucket hold exactly the values that are counted in it.\<close>

lemma bucket_bounds_exact:
  assumes "bucket_bounds (bucket_index ns) = Some (lower, upper)" "ns < 2 ^ 64" "v < 2 ^ 64"
  shows "lower \<le> v \<and> v \<le> upper \<longleftrightarrow> bucket_index v = bucket_index ns"
proof
  assume "bucket_index v = bucket_index ns"
  then show "lower \<le> v \<and> v \<le> upper" using bucket_covers [OF assms(3)] assms(1) by (metis option.inject prod.inject)
next
  assume v: "lower \<le> v \<and> v \<le> upper"
  show "bucket_index v = bucket_index ns"
  proof (cases "ns < 8")
    case True
    then have "lower = ns" "upper = ns" using assms(1) bucket_small [OF True] by simp_all
    then have "v = ns" using v by linarith
    then show ?thesis by simp
  next
    case False
    then obtain s q where n: "8 \<le> q" "q < 16" "bucket_index ns = s * 8 + q + 16" "lower = q * 2 ^ s" "upper = q * 2 ^ s + (2 ^ s - 1)"
      using bucket_frame [of ns] assms(1,2) by (metis not_less option.inject prod.inject)
    have z: "(1::nat) \<le> 2 ^ s" by simp
    have "8 * 1 \<le> q * (2::nat) ^ s" using n(1) z by (intro mult_mono) auto
    then have "8 \<le> v" using v n(4) by simp
    then obtain t r where w: "8 \<le> r" "r < 16" "r * 2 ^ t \<le> v" "v \<le> r * 2 ^ t + (2 ^ t - 1)" "bucket_index v = t * 8 + r + 16" using bucket_frame [of v] assms(3) by metis
    have "q * 2 ^ s < (r + 1) * 2 ^ t" "r * 2 ^ t < (q + 1) * 2 ^ s" using v n(4,5) w(3,4) pow_pos [of s] pow_pos [of t] unfolding add_mult_distrib by linarith+
    moreover have apart: "\<not> (a * 2 ^ x < (c + 1) * 2 ^ y)" if l: "y < x" "8 \<le> a" "c < 16" for a c x y :: nat
    proof -
      obtain d where d: "x = y + Suc d" using less_imp_Suc_add [OF l(1)] by auto
      have "(c + 1) * 2 ^ y \<le> 16 * (2::nat) ^ y" using l(3) by (intro mult_right_mono) auto
      also have "\<dots> \<le> 8 * (2::nat) ^ x" unfolding d by (simp add: power_add)
      also have "\<dots> \<le> a * 2 ^ x" using l(2) by (intro mult_right_mono) auto
      finally show ?thesis by simp
    qed
    ultimately have "s = t" using n(1,2) w(1,2) by (metis nat_neq_iff)
    then have "q < r + 1" "r < q + 1" using \<open>q * 2 ^ s < (r + 1) * 2 ^ t\<close> \<open>r * 2 ^ t < (q + 1) * 2 ^ s\<close> by (metis mult_less_cancel2)+
    then have "q = r" by simp
    then show ?thesis using n(3) w(5) \<open>s = t\<close> by simp
  qed
qed

text \<open>
  Buckets are precise. Every value is within the bounds of its bucket, the bounds hold no value of
  another bucket, a bucket is at most an eighth as wide as its lower bound, its midpoint is within
  a sixteenth of the value, and larger values have the same or later buckets.
\<close>

theorem bucket_precision:
  assumes "ns < 2 ^ 64"
  shows "\<exists>lower upper. bucket_bounds (bucket_index ns) = Some (lower, upper) \<and> lower \<le> ns \<and> ns \<le> upper \<and> 8 * (upper - lower) \<le> lower \<and>
    16 * (bucket_mid lower upper - ns) \<le> ns \<and> 16 * (ns - bucket_mid lower upper) \<le> ns \<and>
    (\<forall>v < 2 ^ 64. (lower \<le> v \<and> v \<le> upper \<longleftrightarrow> bucket_index v = bucket_index ns) \<and> (ns \<le> v \<longrightarrow> bucket_index ns \<le> bucket_index v))"
proof -
  obtain lower upper where b: "bucket_bounds (bucket_index ns) = Some (lower, upper)" "lower \<le> ns" "ns \<le> upper" "8 * (upper - lower) \<le> lower"
    "16 * (bucket_mid lower upper - ns) \<le> ns" "16 * (ns - bucket_mid lower upper) \<le> ns" by (rule bucket_covers [OF assms])
  then show ?thesis using bucket_bounds_exact [OF b(1) assms] bucket_mono by blast
qed

theorem bucket_precision_witness:
  "bucket_index 1000 = 79 \<and> bucket_bounds 79 = Some (960, 1023) \<and> 16 * (1000 - bucket_mid 960 1023) \<le> 1000"
proof -
  have i: "bucket_index 1000 = 79" by (simp add: bucket_index_def leading_zeros_def bit_length.simps as_u16_def Let_def drop_bit_eq_div)
  have b: "bucket_bounds 79 = Some (960, 1023)" by (simp add: bucket_bounds_def Let_def push_bit_eq_mult u64_add_def)
  show ?thesis using bucket_precision [of 1000] i b by simp
qed

subsection \<open>What a histogram holds\<close>

text \<open>
  \<open>holds f bs\<close>: the buckets \<open>bs\<close> are sorted and show the counts \<open>f\<close>, cut off at the largest \<^verbatim>\<open>u32\<close>. It determines the
  buckets.
\<close>

definition holds :: "(nat \<Rightarrow> nat) \<Rightarrow> (nat \<times> nat) list \<Rightarrow> bool" where
  "holds f bs \<longleftrightarrow> sorted_wrt (<) (map fst bs) \<and> (\<forall>i. map_of bs i = (if f i = 0 then None else Some (min (f i) (2 ^ 32 - 1))))"

lemma sorted_map_of_unique:
  "sorted_wrt (<) (map fst xs) \<Longrightarrow> sorted_wrt (<) (map fst ys) \<Longrightarrow> map_of xs = map_of ys \<Longrightarrow> xs = (ys :: (nat \<times> nat) list)"
proof -
  assume s: "sorted_wrt (<) (map fst xs)" "sorted_wrt (<) (map fst ys)" and m: "map_of xs = map_of ys"
  have d: "distinct (map fst xs)" "distinct (map fst ys)" "sorted (map fst xs)" "sorted (map fst ys)" using s strict_sorted_iff by blast+
  have e: "set xs = set ys" using m map_of_inject_set [OF d(1,2)] by blast
  have "inj_on fst (set xs \<union> set ys)" using d(1) e by (simp add: distinct_map)
  from map_sorted_distinct_set_unique [OF this d(3,1,4,2) e] show ?thesis .
qed

lemma holds_unique: "holds f bs \<Longrightarrow> holds f bs' \<Longrightarrow> bs = bs'"
  unfolding holds_def by (rule sorted_map_of_unique) (auto simp: fun_eq_iff)

lemma holds_Nil: "holds (\<lambda>i. 0) []"
  by (simp add: holds_def)

text \<open>Bumping a bucket adds to one count.\<close>

lemma search_key_cases:
  assumes "sorted_wrt (<) (map fst bs)"
  shows "(case search_key index bs of Inr k \<Rightarrow> k < length bs \<and> fst (bs ! k) = index
     | Inl k \<Rightarrow> k \<le> length bs \<and> (\<forall>b \<in> set (take k bs). fst b < index) \<and> (\<forall>b \<in> set (drop k bs). index < fst b))"
  using assms
proof (induction bs)
  case (Cons b bs)
  obtain i n where b: "b = (i, n)" by force
  have "\<forall>c \<in> set bs. i < fst c" using Cons.prems b by auto
  then show ?case using Cons b by (cases "search_key index bs") auto
qed simp

lemma bump_bucket_cons:
  "bump_bucket index n [] = [(index, n)]"
  "bump_bucket index n ((i, m) # bs) = (if i = index then (i, u32_saturating_add m n) # bs else if index < i then (index, n) # (i, m) # bs else (i, m) # bump_bucket index n bs)"
  by (auto simp: bump_bucket_def insert_at_def split: sum.splits)

lemma bump_bucket_map:
  "sorted_wrt (<) (map fst bs) \<Longrightarrow> sorted_wrt (<) (map fst (bump_bucket index n bs)) \<and> fst ` set (bump_bucket index n bs) = insert index (fst ` set bs) \<and>
     map_of (bump_bucket index n bs) = (map_of bs)(index \<mapsto> (case map_of bs index of None \<Rightarrow> n | Some m \<Rightarrow> u32_saturating_add m n))"
proof (induction bs)
  case Nil
  then show ?case by (simp add: bump_bucket_cons)
next
  case (Cons b bs)
  obtain i m where b: "b = (i, m)" by force
  have g: "\<forall>c \<in> fst ` set bs. i < c" and s: "sorted_wrt (<) (map fst bs)" using Cons.prems b by auto
  have no: "index < i \<Longrightarrow> map_of bs index = None" using g by (force simp: map_of_eq_None_iff)
  note h = Cons.IH [OF s]
  consider "i = index" | "index < i" | "i < index" by linarith
  then show ?case
  proof cases
    case 3
    then have "\<forall>c \<in> fst ` set (bump_bucket index n bs). i < c" using h g by auto
    then show ?thesis using 3 b h by (auto simp: bump_bucket_cons fun_eq_iff)
  qed (use b g no Cons.prems in \<open>auto simp: bump_bucket_cons fun_eq_iff\<close>)
qed

lemma min_sat: "min (min a c + min b c) c = min (a + b) (c :: nat)"
  by (simp add: min_def)

lemma holds_bump:
  assumes h: "holds f bs" and n: "0 < m" "n = min m (2 ^ 32 - 1)"
  shows "holds (f(index := f index + m)) (bump_bucket index n bs)"
proof -
  have s: "sorted_wrt (<) (map fst bs)" and m: "\<And>i. map_of bs i = (if f i = 0 then None else Some (min (f i) (2 ^ 32 - 1)))" using h by (simp_all add: holds_def)
  note b = bump_bucket_map [OF s, of index n]
  have "map_of (bump_bucket index n bs) i = (if (f(index := f index + m)) i = 0 then None else Some (min ((f(index := f index + m)) i) (2 ^ 32 - 1)))" for i
    using b m [of i] m [of index] n by (cases "i = index") (simp_all add: u32_saturating_add_def min_sat)
  then show ?thesis using b by (simp add: holds_def del: fun_upd_apply)
qed

lemma holds_merge: "holds g os \<Longrightarrow> holds f bs \<Longrightarrow> holds (\<lambda>i. f i + g i) (merge_buckets os bs)"
proof (induction os arbitrary: f g bs)
  case Nil
  have "g i = 0" for i using Nil(1) by (auto simp: holds_def split: if_splits)
  then show ?case using Nil by simp
next
  case (Cons b os)
  obtain i n where b: "b = (i, n)" by force
  have s: "sorted_wrt (<) (map fst os)" "\<forall>c \<in> fst ` set os. i < c" and m: "\<And>j. map_of (b # os) j = (if g j = 0 then None else Some (min (g j) (2 ^ 32 - 1)))"
    using Cons.prems(1) b by (auto simp: holds_def)
  have gi: "0 < g i" "n = min (g i) (2 ^ 32 - 1)" using m [of i] b by (auto split: if_splits)
  have "map_of os i = None" using s(2) by (force simp: map_of_eq_None_iff)
  then have "map_of os j = (if (g(i := 0)) j = 0 then None else Some (min ((g(i := 0)) j) (2 ^ 32 - 1)))" for j using m [of j] b by (cases "j = i") simp_all
  then have "holds (g(i := 0)) os" using s(1) by (simp add: holds_def del: fun_upd_apply)
  from Cons.IH [OF this holds_bump [OF Cons.prems(2) gi, of i]] have "holds (\<lambda>j. (f(i := f i + g i)) j + (g(i := 0)) j) (merge_buckets (b # os) bs)" using b by simp
  moreover have "(\<lambda>j. (f(i := f i + g i)) j + (g(i := 0)) j) = (\<lambda>j. f j + g j)" by (auto simp: fun_eq_iff)
  ultimately show ?case by simp
qed

definition bucket_count :: "nat list \<Rightarrow> nat \<Rightarrow> nat" where
  "bucket_count xs i = length (filter (\<lambda>x. bucket_index x = i) xs)"

definition hist_ok :: "nat list \<Rightarrow> histogram \<Rightarrow> bool" where
  "hist_ok xs h \<longleftrightarrow> hg_count h = length xs \<and> hg_sum_ns h = min (sum_list xs) (2 ^ 64 - 1) \<and>
     hg_min_ns h = (if xs = [] then 0 else Min (set xs)) \<and> hg_max_ns h = (if xs = [] then 0 else Max (set xs)) \<and> holds (bucket_count xs) (hg_buckets h)"

lemma hist_ok_new: "hist_ok [] hist_new"
proof -
  have "bucket_count [] = (\<lambda>i. 0)" by (simp add: bucket_count_def fun_eq_iff)
  then show ?thesis using holds_Nil by (simp add: hist_ok_def hist_new_def)
qed

lemma hist_ok_unique: "hist_ok xs h \<Longrightarrow> hist_ok xs h' \<Longrightarrow> h = h'"
  unfolding hist_ok_def by (rule histogram.equality) (auto dest: holds_unique)

lemma hist_ok_perm: "hist_ok xs h \<Longrightarrow> mset xs = mset ys \<Longrightarrow> hist_ok ys h"
proof -
  assume h: "hist_ok xs h" and p: "mset xs = mset ys"
  have "bucket_count xs = bucket_count ys" using p by (auto simp: bucket_count_def fun_eq_iff) (metis mset_filter size_mset)
  moreover have "set xs = set ys" "length xs = length ys" "sum_list xs = sum_list ys" "xs = [] \<longleftrightarrow> ys = []"
    using p by (metis set_mset_mset, metis size_mset, metis sum_mset_sum_list, metis mset_zero_iff)
  ultimately show ?thesis using h by (simp add: hist_ok_def)
qed

lemma hist_ok_add: "hist_ok xs h \<Longrightarrow> length xs + 1 < 2 ^ 64 \<Longrightarrow> hist_ok (xs @ [x]) (hist_add_ns x h)"
proof -
  assume h: "hist_ok xs h" and l: "length xs + 1 < 2 ^ 64"
  have "bucket_count (xs @ [x]) = (bucket_count xs)(bucket_index x := bucket_count xs (bucket_index x) + 1)" by (auto simp: bucket_count_def fun_eq_iff)
  then have "holds (bucket_count (xs @ [x])) (bump_bucket (bucket_index x) 1 (hg_buckets h))" using holds_bump [of "bucket_count xs" "hg_buckets h" 1 1 "bucket_index x"] h by (simp add: hist_ok_def)
  moreover have "min (min (sum_list xs) (2 ^ 64 - 1) + x) (2 ^ 64 - 1) = min (sum_list xs + x) (2 ^ 64 - 1)" by (simp add: min_def)
  ultimately show ?thesis using h l by (auto simp: hist_ok_def hist_add_ns_def Let_def u64_saturating_add_def min.commute max.commute)
qed

lemma hist_ok_merge: "hist_ok xs h \<Longrightarrow> hist_ok ys h' \<Longrightarrow> length xs + length ys < 2 ^ 64 \<Longrightarrow> hist_ok (xs @ ys) (hist_merge h' h)"
proof -
  assume h: "hist_ok xs h" "hist_ok ys h'" and l: "length xs + length ys < 2 ^ 64"
  show ?thesis
  proof (cases "xs = [] \<or> ys = []")
    case True
    then show ?thesis using h by (auto simp: hist_merge_def hist_ok_def)
  next
    case False
    have "bucket_count (xs @ ys) = (\<lambda>i. bucket_count xs i + bucket_count ys i)" by (simp add: bucket_count_def fun_eq_iff)
    then have "holds (bucket_count (xs @ ys)) (merge_buckets (hg_buckets h') (hg_buckets h))" using holds_merge h by (simp add: hist_ok_def)
    then show ?thesis using False h l min_sat [of "sum_list xs" "2 ^ 64 - 1" "sum_list ys"]
      by (auto simp: hist_merge_def hist_ok_def u64_saturating_add_def Min_Un Max_Un)
  qed
qed

text \<open>The histogram of a list of recorded values.\<close>

definition hist_of :: "nat list \<Rightarrow> histogram" where
  "hist_of xs = fold hist_add_ns xs hist_new"

lemma hist_of_ok: "length xs < 2 ^ 64 \<Longrightarrow> hist_ok xs (hist_of xs)"
proof (induction xs rule: rev_induct)
  case Nil
  then show ?case using hist_ok_new by (simp add: hist_of_def)
next
  case (snoc x xs)
  then show ?case using hist_ok_add [of xs "hist_of xs" x] by (simp add: hist_of_def)
qed

text \<open>
  Histograms add up (C23). Merging two histograms, in either order, gives the histogram of all values
  recorded in one place in any order; and the parts of a histogram, its buckets in any order, give it
  back. This includes the saturation of the sum and of the bucket counts.
\<close>

theorem hist_merge_records_all:
  assumes "length xs + length ys < 2 ^ 64" "mset zs = mset xs + mset ys" "mset bs = mset (hg_buckets (hist_of xs))"
  shows "hist_merge (hist_of ys) (hist_of xs) = hist_of zs \<and> hist_merge (hist_of xs) (hist_of ys) = hist_of zs \<and>
    hist_from_parts (hg_count (hist_of xs)) (hg_sum_ns (hist_of xs)) (hg_min_ns (hist_of xs)) (hg_max_ns (hist_of xs)) bs = hist_of xs"
proof (intro conjI)
  have ok: "hist_ok xs (hist_of xs)" "hist_ok ys (hist_of ys)" using assms(1) by (simp_all add: hist_of_ok)
  have "length zs = length xs + length ys" using assms(2) by (metis size_mset size_union)
  then have z: "hist_ok zs (hist_of zs)" using assms(1) by (simp add: hist_of_ok)
  have "mset (xs @ ys) = mset zs" "mset (ys @ xs) = mset zs" using assms(2) by simp_all
  then show "hist_merge (hist_of ys) (hist_of xs) = hist_of zs" "hist_merge (hist_of xs) (hist_of ys) = hist_of zs"
    using hist_ok_unique [OF _ z] hist_ok_perm [OF hist_ok_merge [OF ok]] hist_ok_perm [OF hist_ok_merge [OF ok(2,1)]] assms(1) by (simp_all add: add.commute)
  have "sorted_wrt (<) (map fst (hg_buckets (hist_of xs)))" using ok(1) by (simp add: hist_ok_def holds_def)
  then have s: "sorted (map fst (hg_buckets (hist_of xs)))" "distinct (map fst (hg_buckets (hist_of xs)))" by (simp_all add: strict_sorted_iff)
  have e: "set bs = set (hg_buckets (hist_of xs))" "distinct (map fst bs)" using assms(3) s(2)
    by (metis set_mset_mset) (metis assms(3) s(2) distinct_count_atmost_1 mset_map set_mset_mset)
  have "inj_on fst (set (sort_key fst bs) \<union> set (hg_buckets (hist_of xs)))" using s(2) e(1) by (simp add: distinct_map)
  from map_sorted_distinct_set_unique [OF this _ _ s] have "sort_key fst bs = hg_buckets (hist_of xs)" using e
    by (simp add: distinct_map)
  then show "hist_from_parts (hg_count (hist_of xs)) (hg_sum_ns (hist_of xs)) (hg_min_ns (hist_of xs)) (hg_max_ns (hist_of xs)) bs = hist_of xs"
    by (simp add: hist_from_parts_def)
qed

theorem hist_merge_records_all_witness:
  "hist_merge (hist_of [9]) (hist_of [3, 1000]) = hist_of [1000, 9, 3] \<and> hist_merge (hist_of [3, 1000]) (hist_of [9]) = hist_of [1000, 9, 3] \<and>
   hist_from_parts 2 1003 3 1000 [(79, 1), (3, 1)] = hist_of [3, 1000]"
proof -
  have b: "hist_of [3, 1000] = \<lparr>hg_count = 2, hg_sum_ns = 1003, hg_min_ns = 3, hg_max_ns = 1000, hg_buckets = [(3, 1), (79, 1)]\<rparr>"
    by (simp add: hist_of_def hist_add_ns_def hist_new_def Let_def u64_saturating_add_def bump_bucket_cons bucket_index_def leading_zeros_def bit_length.simps as_u16_def drop_bit_eq_div)
  have "mset [(79, 1), (3, 1)] = mset (hg_buckets (hist_of [3, 1000]))" by (simp add: b)
  from hist_merge_records_all [of "[3, 1000]" "[9]" "[1000, 9, 3]", OF _ _ this] b show ?thesis by simp
qed

subsection \<open>Quantiles\<close>

text \<open>How many recorded values are in the buckets up to an index.\<close>

definition upto_count :: "nat list \<Rightarrow> nat \<Rightarrow> nat" where
  "upto_count xs i = length (filter (\<lambda>x. bucket_index x \<le> i) xs)"

text \<open>The value of a given rank is in the first bucket with that many values up to it.\<close>

lemma rank_bucket:
  assumes s: "sorted xs" "\<forall>x \<in> set xs. x < 2 ^ 64" and r: "r < length xs"
  shows "r < upto_count xs i \<longleftrightarrow> bucket_index (xs ! r) \<le> i"
proof -
  have up: "bucket_index (xs ! a) \<le> bucket_index (xs ! b)" if "a \<le> b" "b < length xs" for a b
    using bucket_mono [of "xs ! a" "xs ! b"] s that by (simp add: sorted_nth_mono)
  show ?thesis
  proof
    assume i: "bucket_index (xs ! r) \<le> i"
    have "bucket_index x \<le> i" if x: "x \<in> set (take (Suc r) xs)" for x
    proof -
      obtain a where "a < Suc r" "x = xs ! a" using x r by (auto simp: in_set_conv_nth)
      then show ?thesis using up [of a r] r i by simp
    qed
    then have "filter (\<lambda>x. bucket_index x \<le> i) (take (Suc r) xs) = take (Suc r) xs" by (simp add: filter_id_conv)
    then have "Suc r \<le> length (filter (\<lambda>x. bucket_index x \<le> i) (take (Suc r) xs @ drop (Suc r) xs))" using r by (simp del: append_take_drop_id)
    then show "r < upto_count xs i" by (simp add: upto_count_def)
  next
    assume u: "r < upto_count xs i"
    show "bucket_index (xs ! r) \<le> i"
    proof (rule ccontr)
      assume n: "\<not> bucket_index (xs ! r) \<le> i"
      have "\<not> bucket_index x \<le> i" if x: "x \<in> set (drop r xs)" for x
      proof -
        obtain a where "a < length (drop r xs)" "x = drop r xs ! a" using x by (metis in_set_conv_nth)
        then have "x = xs ! (r + a)" "r + a < length xs" by auto
        then show ?thesis using up [of r "r + a"] n by simp
      qed
      then have "filter (\<lambda>x. bucket_index x \<le> i) (drop r xs) = []" by (simp add: filter_empty_conv)
      then have "upto_count xs i = length (filter (\<lambda>x. bucket_index x \<le> i) (take r xs))"
        unfolding upto_count_def by (metis append_Nil2 append_take_drop_id filter_append)
      also have "\<dots> \<le> r" by (rule order.trans [OF length_filter_le]) simp
      finally show False using u by simp
    qed
  qed
qed

lemma upto_sum: "upto_count xs i = (\<Sum>j \<le> i. bucket_count xs j)"
proof (induction xs)
  case Nil
  then show ?case by (simp add: upto_count_def bucket_count_def)
next
  case (Cons x xs)
  have "(\<Sum>j \<le> i. bucket_count (x # xs) j) = (\<Sum>j \<le> i. bucket_count xs j + (if j = bucket_index x then 1 else 0))"
    by (intro sum.cong) (auto simp: bucket_count_def)
  also have "\<dots> = (\<Sum>j \<le> i. bucket_count xs j) + (if bucket_index x \<le> i then 1 else 0)" by (simp add: sum.distrib)
  finally show ?case using Cons by (simp add: upto_count_def)
qed

text \<open>While no bucket count saturates, the loop has seen the values up to the current bucket.\<close>

lemma seen_upto:
  assumes h: "holds (bucket_count xs) bs" and l: "length xs < 2 ^ 32" and b: "bs = pre @ (i, n) # suf"
  shows "sum_list (map snd pre) + n = upto_count xs i"
proof -
  let ?L = "pre @ [(i, n)]"
  have s: "sorted_wrt (<) (map fst bs)" and m: "\<And>j. map_of bs j = (if bucket_count xs j = 0 then None else Some (min (bucket_count xs j) (2 ^ 32 - 1)))" using h by (simp_all add: holds_def)
  have d: "distinct (map fst bs)" using s by (simp add: strict_sorted_iff)
  have c: "bucket_count xs j < 2 ^ 32" for j unfolding bucket_count_def using le_less_trans [OF length_filter_le l] .
  have snd: "snd p = bucket_count xs (fst p)" if "p \<in> set bs" for p
    using m [of "fst p"] map_of_eq_Some_iff [OF d, of "fst p" "snd p"] c [of "fst p"] that by (auto split: if_splits)
  have key: "j \<in> fst ` set bs \<longleftrightarrow> bucket_count xs j \<noteq> 0" for j using m [of j] map_of_eq_None_iff [of bs j] by (auto split: if_splits)
  have keys: "fst ` set ?L = {j \<in> fst ` set bs. j \<le> i}" using s b by (force simp: sorted_wrt_append)
  have dL: "distinct (map fst ?L)" using d b by auto
  then have "distinct ?L" "inj_on fst (set ?L)" by (simp_all only: distinct_map)
  then have "sum_list (map snd ?L) = (\<Sum>p \<in> set ?L. snd p)" by (intro sum_list_distinct_conv_sum_set)
  also have "\<dots> = (\<Sum>p \<in> set ?L. bucket_count xs (fst p))" using snd b by (intro sum.cong) auto
  also have "\<dots> = (\<Sum>j \<in> fst ` set ?L. bucket_count xs j)" using sum.reindex [OF \<open>inj_on fst (set ?L)\<close>, of "bucket_count xs"] by (simp only: comp_def)
  also have "\<dots> = (\<Sum>j \<le> i. bucket_count xs j)" unfolding keys using key by (intro sum.mono_neutral_left) auto
  finally show ?thesis by (simp add: upto_sum)
qed

lemma rank_pos: "0 < (t::nat) \<Longrightarrow> t - 1 < n \<longleftrightarrow> t \<le> n"
  by auto

lemma quantile_loop_finds:
  assumes h: "holds (bucket_count xs) bs" and l: "length xs < 2 ^ 32" and x: "\<forall>x \<in> set xs. x < 2 ^ 64" and t: "0 < target" "target \<le> length xs"
    and "bs = pre @ suf" "I = bucket_index (sort xs ! (target - 1))" "\<forall>b \<in> set pre. fst b < I" "I \<in> fst ` set suf"
  shows "quantile_loop target (sum_list (map snd pre)) suf g =
    do { (lower, upper) \<leftarrow> bucket_bounds I; let mid = u64_add lower (u64_sub upper lower div 2); Some (u64_clamp (hg_min_ns g) (hg_max_ns g) mid) }"
  using assms(6-9)
proof (induction suf arbitrary: pre)
  case (Cons b suf)
  obtain i n where b: "b = (i, n)" by force
  have e: "sum_list (map snd pre) + n = upto_count xs i" using seen_upto [OF h l] Cons.prems(1) b by simp
  have "upto_count xs i \<le> length xs" by (simp add: upto_count_def)
  then have u: "u64_add (sum_list (map snd pre)) n = upto_count xs i" using e l by simp
  have "upto_count (sort xs) i = upto_count xs i" unfolding upto_count_def by (metis mset_filter mset_sort size_mset)
  then have r: "target \<le> upto_count xs i \<longleftrightarrow> I \<le> i" using rank_bucket [of "sort xs" "target - 1" i] x t Cons.prems(2) rank_pos [OF t(1)] by simp
  have s: "sorted_wrt (<) (map fst (pre @ (i, n) # suf))" using h Cons.prems(1) b by (simp add: holds_def)
  show ?case
  proof (cases "I \<le> i")
    case True
    have "I = i" using True s Cons.prems(4) b by (auto simp: sorted_wrt_append)
    then show ?thesis using b u r True by (simp add: Let_def)
  next
    case False
    have "quantile_loop target (sum_list (map snd (pre @ [(i, n)]))) suf g =
      do { (lower, upper) \<leftarrow> bucket_bounds I; let mid = u64_add lower (u64_sub upper lower div 2); Some (u64_clamp (hg_min_ns g) (hg_max_ns g) mid) }"
      using Cons.IH [of "pre @ [(i, n)]"] Cons.prems False b by auto
    then show ?thesis using b u r False e by (simp add: Let_def)
  qed
qed simp

text \<open>
  Quantiles are precise (C24). For fewer than \<open>2 ^ 32\<close> recorded values, the quantile of a rank is within a
  sixteenth of the value that has this rank in sorted order, it is between the smallest and the
  largest value, and from the last rank on it is the largest value.
\<close>

theorem quantile_precision:
  assumes "xs \<noteq> []" "length xs < 2 ^ 32" "\<forall>x \<in> set xs. x < 2 ^ 64" "v = sort xs ! (min (max rank 1) (length xs) - 1)"
  shows "\<exists>r. hist_quantile rank (hist_of xs) = Some (Some r) \<and> 16 * (r - v) \<le> v \<and> 16 * (v - r) \<le> v \<and> Min (set xs) \<le> r \<and> r \<le> Max (set xs) \<and>
    (length xs \<le> rank \<longrightarrow> r = Max (set xs))"
proof -
  let ?h = "hist_of xs" and ?t = "max rank 1"
  have ok: "hist_ok xs ?h" using assms(2) by (simp add: hist_of_ok)
  have h: "hg_count ?h = length xs" "hg_min_ns ?h = Min (set xs)" "hg_max_ns ?h = Max (set xs)" "holds (bucket_count xs) (hg_buckets ?h)" using ok assms(1) by (simp_all add: hist_ok_def)
  have i: "min ?t (length xs) - 1 < length xs" using assms(1) by (cases xs) auto
  have "v \<in> set (sort xs)" unfolding assms(4) using i by (intro nth_mem) simp
  then have v: "v \<in> set xs" by simp
  then have mm: "Min (set xs) \<le> v" "v \<le> Max (set xs)" "v < 2 ^ 64" using assms(3) by auto
  show ?thesis
  proof (cases "length xs \<le> ?t")
    case True
    then have e: "v = sort xs ! (length xs - 1)" unfolding assms(4) by (simp only: min_absorb2)
    have "x \<le> v" if x: "x \<in> set xs" for x
    proof -
      obtain a where a: "a < length (sort xs)" "x = sort xs ! a" using x by (metis in_set_conv_nth set_sort)
      then have "a \<le> length xs - 1" "length xs - 1 < length (sort xs)" using assms(1) by auto
      then show ?thesis unfolding e a(2) by (intro sorted_nth_mono) auto
    qed
    then have "v = Max (set xs)" using v by (intro Max_eqI [symmetric]) auto
    then show ?thesis using True h mm assms(1) by (simp add: hist_quantile_def)
  next
    case False
    let ?I = "bucket_index v"
    have vt: "v = sort xs ! (?t - 1)" using False unfolding assms(4) by (simp add: min_def)
    obtain lower upper where b: "bucket_bounds ?I = Some (lower, upper)" "lower \<le> v" "v \<le> upper" "upper < 2 ^ 64"
      "16 * (bucket_mid lower upper - v) \<le> v" "16 * (v - bucket_mid lower upper) \<le> v" using bucket_covers [OF mm(3)] by blast
    have mid: "u64_add lower (u64_sub upper lower div 2) = bucket_mid lower upper" using b(2-4) by (simp add: bucket_mid_def)
    have "bucket_count xs ?I \<noteq> 0" using v by (auto simp: bucket_count_def filter_empty_conv)
    then have "map_of (hg_buckets ?h) ?I \<noteq> None" using h(4) by (simp add: holds_def)
    then have "?I \<in> fst ` set (hg_buckets ?h)" by (simp add: map_of_eq_None_iff)
    then have "quantile_loop ?t 0 (hg_buckets ?h) ?h = Some (u64_clamp (Min (set xs)) (Max (set xs)) (bucket_mid lower upper))"
      using quantile_loop_finds [OF h(4) assms(2,3), of ?t "[]" "hg_buckets ?h" ?I ?h] False vt b(1) mid h(2,3) by simp
    then have "hist_quantile rank ?h = Some (Some (u64_clamp (Min (set xs)) (Max (set xs)) (bucket_mid lower upper)))" using h(1) False assms(1) by (simp add: hist_quantile_def Let_def)
    moreover have "16 * (u64_clamp (Min (set xs)) (Max (set xs)) (bucket_mid lower upper) - v) \<le> v" "16 * (v - u64_clamp (Min (set xs)) (Max (set xs)) (bucket_mid lower upper)) \<le> v"
      "Min (set xs) \<le> u64_clamp (Min (set xs)) (Max (set xs)) (bucket_mid lower upper)" "u64_clamp (Min (set xs)) (Max (set xs)) (bucket_mid lower upper) \<le> Max (set xs)"
      using b(5,6) mm by (auto simp: u64_clamp_def)
    ultimately show ?thesis using False by auto
  qed
qed

theorem quantile_precision_witness:
  "\<exists>r. hist_quantile 2 (hist_of [1000, 3, 2000]) = Some (Some r) \<and> 16 * (r - 1000) \<le> 1000 \<and> 16 * (1000 - r) \<le> 1000"
  using quantile_precision [of "[1000, 3, 2000]" 1000 2] by auto

end
