(* ===== verification/Unsync_Ring.thy ===== *)
theory Unsync_Ring
  imports Ring_Index
begin

section \<open>The ring buffer behind a lock\<close>

text \<open>
  \<^verbatim>\<open>channels/src/internal/unsynchronized_ring.rs\<close>: a ring of a power of two of slots with head and tail
  counters that wrap. A slot is an option, \<^term>\<open>None\<close> while uninitialised or moved out; reading such
  a slot and an index outside the buffer have no result (\<^term>\<open>None\<close>). The lemmas show that the ring
  is a bounded queue.
\<close>

unbundle bit_operations_syntax

record 'a uring =
  ur_buffer :: "'a option list"
  ur_mask :: "64 word"
  ur_head :: "64 word"
  ur_tail :: "64 word"

definition uring_new :: "nat \<Rightarrow> 'a uring option" where
  "uring_new capacity =
     (if capacity = 0 then None
      else let cap = of_nat (next_power_of_two capacity) :: 64 word in
        Some \<lparr>ur_buffer = replicate (unat cap) None, ur_mask = cap - 1, ur_head = 0, ur_tail = 0\<rparr>)"

definition uring_capacity :: "'a uring \<Rightarrow> 64 word" where
  "uring_capacity r = ur_mask r + 1"

definition uring_len :: "'a uring \<Rightarrow> 64 word" where
  "uring_len r = ur_tail r - ur_head r"

definition uring_is_empty :: "'a uring \<Rightarrow> bool" where
  "uring_is_empty r \<longleftrightarrow> ur_head r = ur_tail r"

definition uring_is_full :: "'a uring \<Rightarrow> bool" where
  "uring_is_full r \<longleftrightarrow> uring_len r = uring_capacity r"

text \<open>\<^verbatim>\<open>push\<close> returns the error, the value it could not store, if the ring is full.\<close>

definition uring_push :: "'a \<Rightarrow> 'a uring \<Rightarrow> ('a option \<times> 'a uring) option" where
  "uring_push val r =
     (if uring_is_full r then Some (Some val, r)
      else let i = unat (ur_tail r AND ur_mask r) in
        do { _ \<leftarrow> vec_get (ur_buffer r) i;
             Some (None, r\<lparr>ur_buffer := (ur_buffer r)[i := Some val], ur_tail := ur_tail r + 1\<rparr>) })"

definition uring_pop :: "'a uring \<Rightarrow> ('a option \<times> 'a uring) option" where
  "uring_pop r =
     (if uring_is_empty r then Some (None, r)
      else let i = unat (ur_head r AND ur_mask r) in
        do { slot \<leftarrow> vec_get (ur_buffer r) i;
             val \<leftarrow> slot;
             Some (Some val, r\<lparr>ur_buffer := (ur_buffer r)[i := None], ur_head := ur_head r + 1\<rparr>) })"

text \<open>\<^verbatim>\<open>clear\<close> and \<^verbatim>\<open>Drop\<close> pop until the ring is empty; the model returns the dropped values.\<close>

partial_function (option) uring_clear :: "'a uring \<Rightarrow> ('a list \<times> 'a uring) option" where
  "uring_clear r =
     do { (x, r') \<leftarrow> uring_pop r;
          (case x of None \<Rightarrow> Some ([], r') | Some v \<Rightarrow> do { (vs, r'') \<leftarrow> uring_clear r'; Some (v # vs, r'') }) }"

subsection \<open>The queue it implements\<close>

definition uring_ok :: "nat \<Rightarrow> 'a list \<Rightarrow> 'a uring \<Rightarrow> bool" where
  "uring_ok k xs r \<longleftrightarrow> k < 64 \<and> ur_mask r = of_nat (2 ^ k) - 1 \<and>
     (\<exists>H. ur_head r = of_nat H \<and> ur_tail r = of_nat (H + length xs) \<and> ring_holds (ur_buffer r) k H xs)"

lemma pow_less_64: "k < 64 \<Longrightarrow> (2::nat) ^ k < 2 ^ 64"
  by (rule power_strict_increasing) auto

lemma uring_okE:
  assumes "uring_ok k xs r"
  obtains H where "k < 64" "ur_mask r = of_nat (2 ^ k) - 1" "ur_head r = of_nat H" "ur_tail r = of_nat (H + length xs)" "ring_holds (ur_buffer r) k H xs"
    "length xs \<le> 2 ^ k" "length xs < 2 ^ 64" "length (ur_buffer r) = 2 ^ k"
  using assms pow_less_64 [of k] by (auto simp: uring_ok_def ring_holds_def)

lemma uring_new_ok:
  assumes "0 < capacity" "capacity \<le> 2 ^ 63"
  obtains k r where "uring_new capacity = Some r" "uring_ok k [] r" "capacity \<le> 2 ^ k"
proof -
  obtain k where k: "next_power_of_two capacity = 2 ^ k" "capacity \<le> 2 ^ k" using next_power_of_twoE .
  have "(2::nat) ^ k \<le> 2 ^ 63" using next_power_of_two_le [OF assms(2)] unfolding k(1) .
  then have k64: "k < 64" using power_le_imp_le_exp [of "2::nat" k 63] by linarith
  have u: "unat (of_nat (2 ^ k) :: 64 word) = 2 ^ k" using pow_less_64 [OF k64] k64 by (simp add: unsigned_of_nat take_bit_nat_eq_self del: of_nat_power)
  let ?r = "\<lparr>ur_buffer = replicate (2 ^ k) None, ur_mask = of_nat (2 ^ k) - 1, ur_head = 0, ur_tail = 0\<rparr>"
  have "uring_new capacity = Some ?r" using assms(1) u by (simp add: uring_new_def k(1) Let_def del: of_nat_power)
  moreover have "uring_ok k [] ?r" using k64 by (auto simp: uring_ok_def ring_holds_def intro!: exI [of _ 0])
  ultimately show ?thesis using that k(2) by blast
qed

lemma uring_len_ok: "uring_ok k xs r \<Longrightarrow> unat (uring_len r) = length xs"
  by (erule uring_okE) (simp add: uring_len_def pos_diff del: of_nat_add)

lemma uring_is_empty_ok: "uring_ok k xs r \<Longrightarrow> uring_is_empty r \<longleftrightarrow> xs = []"
proof (erule uring_okE)
  fix H assume "ur_head r = of_nat H" "ur_tail r = of_nat (H + length xs)" "length xs < 2 ^ 64"
  then show ?thesis using near_eq [of H "H + length xs"] by (simp add: uring_is_empty_def)
qed

lemma uring_is_full_ok: "uring_ok k xs r \<Longrightarrow> uring_is_full r \<longleftrightarrow> length xs = 2 ^ k"
proof -
  assume ok: "uring_ok k xs r"
  then obtain H where h: "k < 64" "ur_mask r = of_nat (2 ^ k) - 1" by (rule uring_okE)
  then have "unat (uring_capacity r) = 2 ^ k" using pow_less_64 [OF h(1)] by (simp add: uring_capacity_def unsigned_of_nat take_bit_nat_eq_self del: of_nat_power)
  then show ?thesis using uring_len_ok [OF ok] by (simp add: uring_is_full_def word_unat_eq_iff)
qed

lemma uring_push_ok:
  assumes ok: "uring_ok k xs r"
  shows "length xs = 2 ^ k \<Longrightarrow> uring_push x r = Some (Some x, r)"
    "length xs < 2 ^ k \<Longrightarrow> \<exists>r'. uring_push x r = Some (None, r') \<and> uring_ok k (xs @ [x]) r'"
proof -
  show "length xs = 2 ^ k \<Longrightarrow> uring_push x r = Some (Some x, r)" using uring_is_full_ok [OF ok] by (simp add: uring_push_def)
  assume n: "length xs < 2 ^ k"
  obtain H where h: "k < 64" "ur_mask r = of_nat (2 ^ k) - 1" "ur_head r = of_nat H" "ur_tail r = of_nat (H + length xs)" "ring_holds (ur_buffer r) k H xs" "length (ur_buffer r) = 2 ^ k"
    using ok by (rule uring_okE)
  have i: "unat (ur_tail r AND ur_mask r) = (H + length xs) mod 2 ^ k" using mask_pos [OF h(1), of "H + length xs"] h(2,4) by simp
  let ?r = "r\<lparr>ur_buffer := (ur_buffer r)[(H + length xs) mod 2 ^ k := Some x], ur_tail := ur_tail r + 1\<rparr>"
  have "uring_push x r = Some (None, ?r)" using n i uring_is_full_ok [OF ok] h(6) by (simp add: uring_push_def)
  moreover have "uring_ok k (xs @ [x]) ?r" unfolding uring_ok_def using h ring_holds_push [OF h(5) n, of x] by (intro conjI exI [of _ H]) (simp_all add: ac_simps)
  ultimately show "\<exists>r'. uring_push x r = Some (None, r') \<and> uring_ok k (xs @ [x]) r'" by blast
qed

lemma uring_pop_ok:
  shows "uring_ok k [] r \<Longrightarrow> uring_pop r = Some (None, r)"
    "uring_ok k (x # xs) r \<Longrightarrow> \<exists>r'. uring_pop r = Some (Some x, r') \<and> uring_ok k xs r'"
proof -
  show "uring_ok k [] r \<Longrightarrow> uring_pop r = Some (None, r)" using uring_is_empty_ok [of k "[]" r] by (simp add: uring_pop_def)
  assume ok: "uring_ok k (x # xs) r"
  obtain H where h: "k < 64" "ur_mask r = of_nat (2 ^ k) - 1" "ur_head r = of_nat H" "ur_tail r = of_nat (H + length (x # xs))" "ring_holds (ur_buffer r) k H (x # xs)" "length (ur_buffer r) = 2 ^ k"
    using ok by (rule uring_okE)
  have i: "unat (ur_head r AND ur_mask r) = H mod 2 ^ k" using mask_pos [OF h(1), of H] h(2,3) by simp
  let ?r = "r\<lparr>ur_buffer := (ur_buffer r)[H mod 2 ^ k := None], ur_head := ur_head r + 1\<rparr>"
  have "uring_pop r = Some (Some x, ?r)" using i uring_is_empty_ok [OF ok] h(6) ring_holds_head [OF h(5)] by (simp add: uring_pop_def)
  moreover have "uring_ok k xs ?r" unfolding uring_ok_def using h ring_holds_pop [OF h(5)] by (intro conjI exI [of _ "Suc H"]) (simp_all add: ac_simps)
  ultimately show "\<exists>r'. uring_pop r = Some (Some x, r') \<and> uring_ok k xs r'" by blast
qed

lemma uring_clear_ok: "uring_ok k xs r \<Longrightarrow> \<exists>r'. uring_clear r = Some (xs, r') \<and> uring_ok k [] r'"
proof (induction xs arbitrary: r)
  case Nil
  then show ?case using uring_pop_ok(1) [OF Nil] by (subst uring_clear.simps) simp
next
  case (Cons x xs)
  obtain r1 where "uring_pop r = Some (Some x, r1)" "uring_ok k xs r1" using uring_pop_ok(2) [OF Cons.prems] by blast
  moreover obtain r2 where "uring_clear r1 = Some (xs, r2)" "uring_ok k [] r2" using Cons.IH [OF calculation(2)] by blast
  ultimately show ?case by (subst uring_clear.simps) simp
qed

end
