(* ===== verification/Mpmc_Core.thy ===== *)
theory Mpmc_Core
  imports Unsync_Ring Channel_Error
begin

section \<open>The core of the bounded MPMC channel\<close>

text \<open>
  \<^verbatim>\<open>channels/src/mpmc_v2/core.rs\<close>, the closing and cloning of handles of \<^verbatim>\<open>mod.rs\<close>, and the sections of
  \<^verbatim>\<open>sync_impl.rs\<close> and \<^verbatim>\<open>async_impl.rs\<close> that run under the central lock. Everything behind the lock is one
  record; each critical section is one operation on it, so that the interleavings of the channel are
  the sequences of operations. A waiter holds the handle to wake and a pointer to the state flag of
  its owner, a cell of the map \<open>mc_cells\<close>; dereferencing a pointer to a cell that is gone, a failed
  \<^verbatim>\<open>expect\<close> and the panics of the ring have no result. Threads and wakers are names; \<open>mc_woken\<close> is
  the history of wake-ups, the handle through which the owner of a flag was woken since it was queued.
\<close>

unbundle bit_operations_syntax

definition st_waiting :: "8 word" where "st_waiting = 0"
definition st_success_space :: "8 word" where "st_success_space = 3"
definition st_closed_buffered :: "8 word" where "st_closed_buffered = 1"
definition st_closed_rendezvous :: "8 word" where "st_closed_rendezvous = 5"
definition st_cancelled :: "8 word" where "st_cancelled = 8"

record ('n, 'p) waiter =
  wt_handle :: 'n
  wt_state :: 'p

datatype ('t, 'w) wake_ref = Thread 't | Waker 'w

record ('a, 't, 'w, 'p) mpmc =
  mc_queue :: "'a uring"
  mc_queue_len :: nat
  mc_sync_senders :: "('t, 'p) waiter list"
  mc_async_senders :: "('w, 'p) waiter list"
  mc_sync_receivers :: "('t, 'p) waiter list"
  mc_async_receivers :: "('w, 'p) waiter list"
  mc_sender_count :: nat
  mc_receiver_count :: nat
  mc_capacity :: nat
  mc_cells :: "'p \<rightharpoonup> 8 word"
  mc_woken :: "'p \<rightharpoonup> ('t, 'w) wake_ref"

definition mpmc_new :: "nat \<Rightarrow> ('a, 't, 'w, 'p) mpmc option" where
  "mpmc_new capacity = do { queue \<leftarrow> uring_new capacity;
     Some \<lparr>mc_queue = queue, mc_queue_len = 0, mc_sync_senders = [], mc_async_senders = [], mc_sync_receivers = [], mc_async_receivers = [],
       mc_sender_count = 1, mc_receiver_count = 1, mc_capacity = capacity, mc_cells = Map.empty, mc_woken = Map.empty\<rparr> }"

subsection \<open>The queue\<close>

definition mpmc_is_empty :: "('a, 't, 'w, 'p) mpmc \<Rightarrow> bool" where
  "mpmc_is_empty s \<longleftrightarrow> mc_queue_len s = 0"

definition mpmc_is_full :: "('a, 't, 'w, 'p) mpmc \<Rightarrow> bool" where
  "mpmc_is_full s \<longleftrightarrow> (if mc_capacity s = 0 then mc_queue_len s = 1 else mc_queue_len s = mc_capacity s)"

definition mpmc_push_back :: "'a \<Rightarrow> ('a, 't, 'w, 'p) mpmc \<Rightarrow> ('a option \<times> ('a, 't, 'w, 'p) mpmc) option" where
  "mpmc_push_back item s = do { (e, q) \<leftarrow> uring_push item (mc_queue s);
     Some (case e of None \<Rightarrow> (None, s\<lparr>mc_queue := q, mc_queue_len := u64_add (mc_queue_len s) 1\<rparr>) | Some returned_item \<Rightarrow> (Some returned_item, s\<lparr>mc_queue := q\<rparr>)) }"

text \<open>\<^verbatim>\<open>guard.push_back(item).ok().expect(..)\<close>\<close>

definition mpmc_push :: "'a \<Rightarrow> ('a, 't, 'w, 'p) mpmc \<Rightarrow> ('a, 't, 'w, 'p) mpmc option" where
  "mpmc_push item s = do { (e, s') \<leftarrow> mpmc_push_back item s; (case e of None \<Rightarrow> Some s' | Some _ \<Rightarrow> None) }"

definition mpmc_pop_front :: "('a, 't, 'w, 'p) mpmc \<Rightarrow> ('a option \<times> ('a, 't, 'w, 'p) mpmc) option" where
  "mpmc_pop_front s = do { (x, q) \<leftarrow> uring_pop (mc_queue s);
     Some (case x of None \<Rightarrow> (None, s\<lparr>mc_queue := q\<rparr>) | Some item \<Rightarrow> (Some item, s\<lparr>mc_queue := q, mc_queue_len := u64_sub (mc_queue_len s) 1\<rparr>)) }"

fun drain_items :: "nat \<Rightarrow> 'a uring \<Rightarrow> ('a list \<times> 'a uring) option" where
  "drain_items 0 q = Some ([], q)"
| "drain_items (Suc n) q = do { (x, q') \<leftarrow> uring_pop q; (xs, q'') \<leftarrow> drain_items n q'; Some ((case x of None \<Rightarrow> [] | Some item \<Rightarrow> [item]) @ xs, q'') }"

definition mpmc_drain_into :: "'a list \<Rightarrow> nat \<Rightarrow> ('a, 't, 'w, 'p) mpmc \<Rightarrow> ('a list \<times> ('a, 't, 'w, 'p) mpmc) option" where
  "mpmc_drain_into out count s = do { (xs, q) \<leftarrow> drain_items count (mc_queue s);
     Some (out @ xs, s\<lparr>mc_queue := q, mc_queue_len := u64_sub (mc_queue_len s) count\<rparr>) }"

subsection \<open>Waking waiters\<close>

definition wake :: "('n \<Rightarrow> ('t, 'w) wake_ref) \<Rightarrow> ('n, 'p) waiter \<Rightarrow> ('a, 't, 'w, 'p) mpmc \<Rightarrow> ('a, 't, 'w, 'p) mpmc" where
  "wake ref w s = s\<lparr>mc_woken := (mc_woken s)(wt_state w \<mapsto> ref (wt_handle w))\<rparr>"

definition wake_one :: "('w, 'p) waiter option \<Rightarrow> ('t, 'p) waiter option \<Rightarrow> ('a, 't, 'w, 'p) mpmc \<Rightarrow> ('a, 't, 'w, 'p) mpmc" where
  "wake_one wk th s = (case wk of Some w \<Rightarrow> wake Waker w s | None \<Rightarrow> case th of Some w \<Rightarrow> wake Thread w s | None \<Rightarrow> s)"

text \<open>
  The scan over a queue of waiters: the first one whose flag can be moved from waiting is removed.
  The batch send pops the ones it finds finished instead of skipping them.
\<close>

type_synonym ('n, 'p, 'r) scan = "('n, 'p) waiter list \<Rightarrow> ('p \<rightharpoonup> 8 word) \<Rightarrow> ('r \<times> ('n, 'p) waiter list \<times> ('p \<rightharpoonup> 8 word)) option"

fun notify_first :: "('n, 'p, ('n, 'p) waiter option) scan" where
  "notify_first [] cells = Some (None, [], cells)"
| "notify_first (w # ws) cells = do { st \<leftarrow> cells (wt_state w);
     (if st = st_waiting then Some (Some w, ws, cells(wt_state w \<mapsto> st_success_space))
      else do { (h, ws', cells') \<leftarrow> notify_first ws cells; Some (h, w # ws', cells') }) }"

fun pop_first :: "('n, 'p, ('n, 'p) waiter option) scan" where
  "pop_first [] cells = Some (None, [], cells)"
| "pop_first (w # ws) cells = do { st \<leftarrow> cells (wt_state w);
     (if st = st_waiting then Some (Some w, ws, cells(wt_state w \<mapsto> st_success_space)) else pop_first ws cells) }"

fun notify_upto :: "nat \<Rightarrow> ('n, 'p, ('n, 'p) waiter list) scan" where
  "notify_upto n [] cells = Some ([], [], cells)"
| "notify_upto 0 (w # ws) cells = Some ([], w # ws, cells)"
| "notify_upto (Suc n) (w # ws) cells = do { st \<leftarrow> cells (wt_state w);
     (if st = st_waiting then do { (hs, ws', cells') \<leftarrow> notify_upto n ws (cells(wt_state w \<mapsto> st_success_space)); Some (w # hs, ws', cells') }
      else do { (hs, ws', cells') \<leftarrow> notify_upto (Suc n) ws cells; Some (hs, w # ws', cells') }) }"

text \<open>A scan applied to the two queues of a side, the asynchronous one first.\<close>

definition notify_receiver :: "('w, 'p, ('w, 'p) waiter option) scan \<Rightarrow> ('t, 'p, ('t, 'p) waiter option) scan \<Rightarrow>
    ('a, 't, 'w, 'p) mpmc \<Rightarrow> (('w, 'p) waiter option \<times> ('t, 'p) waiter option \<times> ('a, 't, 'w, 'p) mpmc) option" where
  "notify_receiver scan_async scan_sync s =
     (if mpmc_is_full s then Some (None, None, s)
      else do { (wk, ws, cells) \<leftarrow> scan_async (mc_async_receivers s) (mc_cells s);
                let s = s\<lparr>mc_async_receivers := ws, mc_cells := cells\<rparr>;
                (if wk \<noteq> None then Some (wk, None, s)
                 else do { (th, ws, cells) \<leftarrow> scan_sync (mc_sync_receivers s) (mc_cells s);
                           Some (None, th, s\<lparr>mc_sync_receivers := ws, mc_cells := cells\<rparr>) }) })"

definition notify_sender :: "('a, 't, 'w, 'p) mpmc \<Rightarrow> ('a, 't, 'w, 'p) mpmc option" where
  "notify_sender s =
     do { (wk, ws, cells) \<leftarrow> notify_first (mc_async_senders s) (mc_cells s);
          let s = s\<lparr>mc_async_senders := ws, mc_cells := cells\<rparr>;
          (if wk \<noteq> None then Some (wake_one wk None s)
           else do { (th, ws, cells) \<leftarrow> notify_first (mc_sync_senders s) (mc_cells s);
                     Some (wake_one None th (s\<lparr>mc_sync_senders := ws, mc_cells := cells\<rparr>)) }) }"

subsection \<open>Sending and receiving\<close>

definition try_send_core :: "'a \<Rightarrow> ('a, 't, 'w, 'p) mpmc \<Rightarrow> ('a try_send_error option \<times> ('a, 't, 'w, 'p) mpmc) option" where
  "try_send_core item s =
     (if mc_receiver_count s = 0 then Some (Some (Closed item), s)
      else do { (wk, th, s) \<leftarrow> notify_receiver notify_first notify_first s;
        (if wk \<noteq> None \<or> th \<noteq> None then do { s \<leftarrow> mpmc_push item s; Some (None, wake_one wk th s) }
         else if mc_capacity s = 0 then Some (Some (Full item), s)
         else if mc_queue_len s < mc_capacity s then do { s \<leftarrow> mpmc_push item s; Some (None, s) }
         else Some (Some (Full item), s)) })"

definition try_recv_core :: "('a, 't, 'w, 'p) mpmc \<Rightarrow> ((try_recv_error + 'a) \<times> ('a, 't, 'w, 'p) mpmc) option" where
  "try_recv_core s = do { (x, s) \<leftarrow> mpmc_pop_front s;
     (case x of Some item \<Rightarrow> do { s \<leftarrow> (if mc_capacity s > 0 then notify_sender s else Some s); Some (Inr item, s) }
      | None \<Rightarrow> Some (Inl (if mc_sender_count s = 0 then Disconnected else Empty), s)) }"

text \<open>
  The loop of the batch send. The iterator is the list of the remaining items; running out of them
  before the limit is a panic.
\<close>

fun next_item :: "'a list \<Rightarrow> ('a \<times> 'a list) option" where
  "next_item [] = None"
| "next_item (x # xs) = Some (x, xs)"

fun send_batch_loop :: "nat \<Rightarrow> nat \<Rightarrow> 'a list \<Rightarrow> ('a, 't, 'w, 'p) mpmc \<Rightarrow> (nat \<times> 'a list \<times> ('a, 't, 'w, 'p) mpmc) option" where
  "send_batch_loop 0 sent iter s = Some (sent, iter, s)"
| "send_batch_loop (Suc n) sent iter s =
     do { (wk, th, s) \<leftarrow> notify_receiver pop_first pop_first s;
          (if wk \<noteq> None \<or> th \<noteq> None then do { (item, iter) \<leftarrow> next_item iter; s \<leftarrow> mpmc_push item s; send_batch_loop n (Suc sent) iter (wake_one wk th s) }
           else if mc_capacity s = 0 then Some (sent, iter, s)
           else if mc_queue_len s < mc_capacity s then do { (item, iter) \<leftarrow> next_item iter; s \<leftarrow> mpmc_push item s; send_batch_loop n (Suc sent) iter s }
           else Some (sent, iter, s)) }"

definition try_send_batch_core :: "'a list \<Rightarrow> nat \<Rightarrow> ('a, 't, 'w, 'p) mpmc \<Rightarrow> ((nat \<times> batch_send_error_reason option) \<times> 'a list \<times> ('a, 't, 'w, 'p) mpmc) option" where
  "try_send_batch_core iter limit s =
     (if limit = 0 then Some ((0, None), iter, s)
      else if mc_receiver_count s = 0 then Some ((0, Some BatchClosed), iter, s)
      else do { (sent, iter, s) \<leftarrow> send_batch_loop limit 0 iter s; Some ((sent, if sent = limit then None else Some BatchFull), iter, s) })"

definition notify_senders :: "nat \<Rightarrow> ('a, 't, 'w, 'p) mpmc \<Rightarrow> ('a, 't, 'w, 'p) mpmc option" where
  "notify_senders max_to_wake s =
     do { (wks, ws, cells) \<leftarrow> notify_upto max_to_wake (mc_async_senders s) (mc_cells s);
          let s = fold (wake Waker) wks (s\<lparr>mc_async_senders := ws, mc_cells := cells\<rparr>);
          (ths, ws, cells) \<leftarrow> notify_upto (max_to_wake - length wks) (mc_sync_senders s) (mc_cells s);
          Some (fold (wake Thread) ths (s\<lparr>mc_sync_senders := ws, mc_cells := cells\<rparr>)) }"

definition try_recv_batch_core :: "'a list \<Rightarrow> nat \<Rightarrow> ('a, 't, 'w, 'p) mpmc \<Rightarrow> ((try_recv_error + nat) \<times> 'a list \<times> ('a, 't, 'w, 'p) mpmc) option" where
  "try_recv_batch_core out mx s =
     (if mx = 0 then Some (Inr 0, out, s)
      else let from_buffer = min mx (mc_queue_len s) in
        do { (out, s) \<leftarrow> (if from_buffer > 0 then mpmc_drain_into out from_buffer s else Some (out, s));
             let got = from_buffer;
             s \<leftarrow> (if mc_capacity s > 0 \<and> from_buffer > 0 then notify_senders (from_buffer + (mx - got)) s else Some s);
             Some (if got = 0 then (if mc_sender_count s = 0 then Inl Disconnected else Inl Empty) else Inr got, out, s) })"

subsection \<open>Parking and unlinking\<close>

text \<open>
  The section that checks once more before a thread or a task is queued as a waiter. \<open>p\<close> points to
  the flag of the caller, which is set to waiting.
\<close>

datatype park = Park_Retry | Park_Closed | Parked

definition queue_flag :: "'p \<Rightarrow> ('a, 't, 'w, 'p) mpmc \<Rightarrow> ('a, 't, 'w, 'p) mpmc" where
  "queue_flag p s = s\<lparr>mc_cells := (mc_cells s)(p \<mapsto> st_waiting), mc_woken := (mc_woken s)(p := None)\<rparr>"

definition free_flag :: "'p \<Rightarrow> ('a, 't, 'w, 'p) mpmc \<Rightarrow> ('a, 't, 'w, 'p) mpmc" where
  "free_flag p s = s\<lparr>mc_cells := (mc_cells s)(p := None)\<rparr>"

definition sender_can_retry :: "('a, 't, 'w, 'p) mpmc \<Rightarrow> bool" where
  "sender_can_retry s \<longleftrightarrow> \<not> mpmc_is_full s \<and>
     (mc_async_receivers s \<noteq> [] \<or> mc_sync_receivers s \<noteq> [] \<or> (mc_capacity s > 0 \<and> mc_queue_len s < mc_capacity s))"

definition park_sync_sender :: "'t \<Rightarrow> 'p \<Rightarrow> ('a, 't, 'w, 'p) mpmc \<Rightarrow> park \<times> ('a, 't, 'w, 'p) mpmc" where
  "park_sync_sender t p s =
     (if sender_can_retry s then (Park_Retry, s)
      else if mc_receiver_count s = 0 then (Park_Closed, s)
      else (Parked, queue_flag p (s\<lparr>mc_sync_senders := mc_sync_senders s @ [\<lparr>wt_handle = t, wt_state = p\<rparr>]\<rparr>)))"

definition park_async_sender :: "'w \<Rightarrow> 'p \<Rightarrow> ('a, 't, 'w, 'p) mpmc \<Rightarrow> park \<times> ('a, 't, 'w, 'p) mpmc" where
  "park_async_sender w p s =
     (if sender_can_retry s then (Park_Retry, s)
      else if mc_receiver_count s = 0 then (Park_Closed, s)
      else (Parked, queue_flag p (s\<lparr>mc_async_senders := mc_async_senders s @ [\<lparr>wt_handle = w, wt_state = p\<rparr>]\<rparr>)))"

definition park_sync_receiver :: "'t \<Rightarrow> 'p \<Rightarrow> ('a, 't, 'w, 'p) mpmc \<Rightarrow> park \<times> ('a, 't, 'w, 'p) mpmc" where
  "park_sync_receiver t p s =
     (if \<not> uring_is_empty (mc_queue s) \<or> mc_capacity s = 0 \<and> (mc_sync_senders s \<noteq> [] \<or> mc_async_senders s \<noteq> []) then (Park_Retry, s)
      else if mc_sender_count s = 0 then (Park_Closed, s)
      else (Parked, queue_flag p (s\<lparr>mc_sync_receivers := mc_sync_receivers s @ [\<lparr>wt_handle = t, wt_state = p\<rparr>]\<rparr>)))"

text \<open>A future that is still queued only has its waker replaced.\<close>

fun set_waker :: "'w \<Rightarrow> 'p \<Rightarrow> ('w, 'p) waiter list \<Rightarrow> ('w, 'p) waiter list" where
  "set_waker w p [] = []"
| "set_waker w p (x # xs) = (if wt_state x = p then x\<lparr>wt_handle := w\<rparr> # xs else x # set_waker w p xs)"

definition queued :: "'p \<Rightarrow> ('n, 'p) waiter list \<Rightarrow> bool" where
  "queued p ws \<longleftrightarrow> list_ex (\<lambda>w. wt_state w = p) ws"

definition park_async_receiver :: "'w \<Rightarrow> 'p \<Rightarrow> ('a, 't, 'w, 'p) mpmc \<Rightarrow> park \<times> ('a, 't, 'w, 'p) mpmc" where
  "park_async_receiver w p s =
     (if \<not> mpmc_is_empty s \<or> mc_capacity s = 0 \<and> (mc_sync_senders s \<noteq> [] \<or> mc_async_senders s \<noteq> []) then (Park_Retry, s)
      else if mc_sender_count s = 0 then (Park_Closed, s)
      else if queued p (mc_async_receivers s) then (Parked, s\<lparr>mc_async_receivers := set_waker w p (mc_async_receivers s)\<rparr>)
      else (Parked, queue_flag p (s\<lparr>mc_async_receivers := mc_async_receivers s @ [\<lparr>wt_handle = w, wt_state = p\<rparr>]\<rparr>)))"

text \<open>A sender removes the first waiter with its flag, a receiver keeps only the others.\<close>

fun unlink_first :: "'p \<Rightarrow> ('n, 'p) waiter list \<Rightarrow> ('n, 'p) waiter list" where
  "unlink_first p [] = []"
| "unlink_first p (x # xs) = (if wt_state x = p then xs else x # unlink_first p xs)"

definition unlink_all :: "'p \<Rightarrow> ('n, 'p) waiter list \<Rightarrow> ('n, 'p) waiter list" where
  "unlink_all p ws = filter (\<lambda>w. wt_state w \<noteq> p) ws"

subsection \<open>Handles\<close>

definition add_sender :: "('a, 't, 'w, 'p) mpmc \<Rightarrow> ('a, 't, 'w, 'p) mpmc" where
  "add_sender s = s\<lparr>mc_sender_count := u64_add (mc_sender_count s) 1\<rparr>"

definition add_receiver :: "('a, 't, 'w, 'p) mpmc \<Rightarrow> ('a, 't, 'w, 'p) mpmc" where
  "add_receiver s = s\<lparr>mc_receiver_count := u64_add (mc_receiver_count s) 1\<rparr>"

text \<open>
  Closing moves the flags under the lock and wakes the owners right after it is released; the wake-ups
  touch nothing of the channel and belong to the same operation of the model.
\<close>

definition finish_waiter :: "('n \<Rightarrow> ('t, 'w) wake_ref) \<Rightarrow> 8 word \<Rightarrow> ('n, 'p) waiter \<Rightarrow> ('a, 't, 'w, 'p) mpmc \<Rightarrow> ('a, 't, 'w, 'p) mpmc option" where
  "finish_waiter ref st w s = do { c \<leftarrow> mc_cells s (wt_state w);
     Some (if c = st_waiting then wake ref w (s\<lparr>mc_cells := (mc_cells s)(wt_state w \<mapsto> st)\<rparr>) else s) }"

fun finish_waiters :: "('n \<Rightarrow> ('t, 'w) wake_ref) \<Rightarrow> 8 word \<Rightarrow> ('n, 'p) waiter list \<Rightarrow> ('a, 't, 'w, 'p) mpmc \<Rightarrow> ('a, 't, 'w, 'p) mpmc option" where
  "finish_waiters ref st [] s = Some s"
| "finish_waiters ref st (w # ws) s = do { s \<leftarrow> finish_waiter ref st w s; finish_waiters ref st ws s }"

definition close_sender :: "('a, 't, 'w, 'p) mpmc \<Rightarrow> ('a, 't, 'w, 'p) mpmc option" where
  "close_sender s =
     (let s = s\<lparr>mc_sender_count := u64_sub (mc_sender_count s) 1\<rparr> in
      if mc_sender_count s = 0
      then do { s \<leftarrow> finish_waiters Thread st_closed_buffered (mc_sync_receivers s) s;
                finish_waiters Waker st_closed_buffered (mc_async_receivers s) s }
      else Some s)"

definition close_receiver :: "('a, 't, 'w, 'p) mpmc \<Rightarrow> ('a, 't, 'w, 'p) mpmc option" where
  "close_receiver s =
     (let s = s\<lparr>mc_receiver_count := u64_sub (mc_receiver_count s) 1\<rparr>;
          is_real_close = (mc_receiver_count s = 0);
          closed_state = (if is_real_close then (if mc_capacity s = 0 then st_closed_rendezvous else st_closed_buffered) else st_success_space)
      in if is_real_close
         then do { s \<leftarrow> finish_waiters Thread closed_state (mc_sync_senders s) s;
                   finish_waiters Waker closed_state (mc_async_senders s) s }
         else do { s \<leftarrow> finish_waiters Thread closed_state (take 1 (mc_sync_senders s)) s;
                   finish_waiters Waker closed_state (take 1 (mc_async_senders s)) s })"

text \<open>Dropping the shared state, with the last reference to it: the items left in the ring are dropped.\<close>

definition mpmc_drop :: "('a, 't, 'w, 'p) mpmc \<Rightarrow> ('a list \<times> ('a, 't, 'w, 'p) mpmc) option" where
  "mpmc_drop s = do { (xs, q) \<leftarrow> uring_clear (mc_queue s); Some (xs, s\<lparr>mc_queue := q, mc_sync_senders := [], mc_async_senders := []\<rparr>) }"

end
