(* ===== verification/Mpmc_Tasks.thy ===== *)
theory Mpmc_Tasks
  imports Mpmc_Core
begin

section \<open>Blocking calls and futures of the bounded MPMC channel\<close>

text \<open>
  The operations of \<^verbatim>\<open>mpmc_v2/sync_impl.rs\<close> and \<^verbatim>\<open>mpmc_v2/async_impl.rs\<close> that may wait, as programs. A
  program counter names the next access to shared state, a section under the central lock or an
  atomic operation on the own flag, together with the local variables that are still needed. The
  pointer \<open>p\<close> is the address of the flag in the stack frame or the future, \<open>t\<close> the calling thread.
  One step of a program has no result when the code panics or follows a dangling pointer.
\<close>

unbundle bit_operations_syntax

definition flag_finished :: "8 word \<Rightarrow> bool" where "flag_finished st \<longleftrightarrow> st AND 1 \<noteq> 0"
definition flag_closed :: "8 word \<Rightarrow> bool" where "flag_closed st \<longleftrightarrow> st AND 2 = 0"
definition flag_handoff :: "8 word \<Rightarrow> bool" where "flag_handoff st \<longleftrightarrow> st AND 4 \<noteq> 0"

subsection \<open>Blocking send\<close>

datatype 'a ssend_pc = SS_Try 'a | SS_Park 'a | SS_Wait 'a | SS_Retry 'a | SS_Closed | SS_Done "send_error option"

fun send_sync :: "'t \<Rightarrow> 'p \<Rightarrow> 'a ssend_pc \<Rightarrow> ('a, 't, 'w, 'p) mpmc \<Rightarrow> ('a ssend_pc \<times> ('a, 't, 'w, 'p) mpmc) option" where
  "send_sync t p (SS_Try item) s =
     do { (r, s) \<leftarrow> try_send_core item s;
          (case r of None \<Rightarrow> Some (SS_Done None, s) | Some (Closed _) \<Rightarrow> Some (SS_Done (Some SendClosed), s)
           | Some (Full returned_item) \<Rightarrow> Some (SS_Park returned_item, s) | Some (Sent _) \<Rightarrow> None) }"
| "send_sync t p (SS_Park item) s =
     (case park_sync_sender t p s of (Park_Retry, s) \<Rightarrow> Some (SS_Try item, s) | (Park_Closed, s) \<Rightarrow> Some (SS_Done (Some SendClosed), s)
      | (Parked, s) \<Rightarrow> Some (SS_Wait item, s))"
| "send_sync t p (SS_Wait item) s =
     do { final_state \<leftarrow> mc_cells s p;
          (if \<not> flag_finished final_state then Some (SS_Wait item, s)
           else if flag_closed final_state then Some (SS_Closed, s)
           else if flag_handoff final_state then Some (SS_Done None, free_flag p s)
           else Some (SS_Retry item, s)) }"
| "send_sync t p (SS_Retry item) s = Some (SS_Try item, free_flag p (s\<lparr>mc_sync_senders := unlink_first p (mc_sync_senders s)\<rparr>))"
| "send_sync t p SS_Closed s = Some (SS_Done (Some SendClosed), free_flag p (s\<lparr>mc_sync_senders := unlink_first p (mc_sync_senders s)\<rparr>))"
| "send_sync t p (SS_Done r) s = None"

subsection \<open>Blocking batch send\<close>

text \<open>
  The locals of \<^verbatim>\<open>send_batch_iter_sync\<close> are the total, the count sent, the item pulled from the
  iterator but not placed, and the rest of the iterator. \<open>SB_Done\<close> carries the result and the rest.
\<close>

record 'a batch =
  bt_total :: nat
  bt_sent :: nat
  bt_pending :: "'a option"
  bt_iter :: "'a list"

datatype 'a sbatch_pc = SB_Pending "'a batch" | SB_Iter "'a batch" | SB_Park "'a batch" | SB_Wait "'a batch" | SB_Retry "'a batch" | SB_Closed "'a batch"
  | SB_Done "(nat \<times> 'a option) + nat" "'a list"

definition batch_start :: "'a list \<Rightarrow> 'a sbatch_pc" where
  "batch_start items = SB_Pending \<lparr>bt_total = length items, bt_sent = 0, bt_pending = None, bt_iter = items\<rparr>"

fun send_batch_iter_sync :: "'t \<Rightarrow> 'p \<Rightarrow> 'a sbatch_pc \<Rightarrow> ('a, 't, 'w, 'p) mpmc \<Rightarrow> ('a sbatch_pc \<times> ('a, 't, 'w, 'p) mpmc) option" where
  "send_batch_iter_sync t p (SB_Pending b) s =
     (case bt_pending b of None \<Rightarrow> Some (SB_Iter b, s)
      | Some item \<Rightarrow>
          do { ((k, reason), once, s) \<leftarrow> try_send_batch_core [item] 1 s;
               let b = b\<lparr>bt_sent := bt_sent b + k, bt_pending := None\<rparr>;
               (if k = 0
                then let pending = map_option fst (next_item once) in
                  (if reason = Some BatchClosed then Some (SB_Done (Inl (bt_sent b, pending)) (bt_iter b), s)
                   else if pending = None then Some (SB_Iter b, s) else Some (SB_Park (b\<lparr>bt_pending := pending\<rparr>), s))
                else Some (SB_Iter b, s)) })"
| "send_batch_iter_sync t p (SB_Iter b) s =
     do { ((k, reason), iter, s) \<leftarrow> try_send_batch_core (bt_iter b) (bt_total b - bt_sent b) s;
          let b = b\<lparr>bt_sent := bt_sent b + k, bt_iter := iter\<rparr>;
          (if bt_sent b = bt_total b then Some (SB_Done (Inr (bt_total b)) iter, s)
           else if reason = Some BatchClosed then Some (SB_Done (Inl (bt_sent b, None)) iter, s)
           else Some (SB_Park b, s)) }"
| "send_batch_iter_sync t p (SB_Park b) s =
     (case park_sync_sender t p s of (Park_Retry, s) \<Rightarrow> Some (SB_Pending b, s) | (Park_Closed, s) \<Rightarrow> Some (SB_Done (Inl (bt_sent b, bt_pending b)) (bt_iter b), s)
      | (Parked, s) \<Rightarrow> Some (SB_Wait b, s))"
| "send_batch_iter_sync t p (SB_Wait b) s =
     do { final_state \<leftarrow> mc_cells s p;
          (if \<not> flag_finished final_state then Some (SB_Wait b, s)
           else if flag_closed final_state then Some (SB_Closed b, s)
           else if flag_handoff final_state
           then let b = b\<lparr>bt_sent := bt_sent b + 1\<rparr> in
             Some (if bt_sent b = bt_total b then SB_Done (Inr (bt_total b)) (bt_iter b) else SB_Pending b, free_flag p s)
           else Some (SB_Retry b, s)) }"
| "send_batch_iter_sync t p (SB_Retry b) s = Some (SB_Pending b, free_flag p (s\<lparr>mc_sync_senders := unlink_first p (mc_sync_senders s)\<rparr>))"
| "send_batch_iter_sync t p (SB_Closed b) s =
     Some (SB_Done (Inl (bt_sent b, bt_pending b)) (bt_iter b), free_flag p (s\<lparr>mc_sync_senders := unlink_first p (mc_sync_senders s)\<rparr>))"
| "send_batch_iter_sync t p (SB_Done r iter) s = None"

text \<open>What \<^verbatim>\<open>send_batch_sync\<close> returns of it: the count, or the error with the count sent and the unsent items.\<close>

fun send_batch_result :: "(nat \<times> 'a option) + nat \<Rightarrow> 'a list \<Rightarrow> (nat \<times> 'a list) + nat" where
  "send_batch_result (Inr n) iter = Inr n"
| "send_batch_result (Inl (sent, pending)) iter = Inl (sent, (case pending of None \<Rightarrow> [] | Some x \<Rightarrow> [x]) @ iter)"

subsection \<open>Blocking receive\<close>

datatype 'a srecv_pc = RS_Try | RS_Park | RS_Wait | RS_Closed | RS_Done "recv_error + 'a"

fun recv_sync :: "'t \<Rightarrow> 'p \<Rightarrow> 'a srecv_pc \<Rightarrow> ('a, 't, 'w, 'p) mpmc \<Rightarrow> ('a srecv_pc \<times> ('a, 't, 'w, 'p) mpmc) option" where
  "recv_sync t p RS_Try s =
     do { (r, s) \<leftarrow> try_recv_core s;
          Some (case r of Inr item \<Rightarrow> RS_Done (Inr item) | Inl Disconnected \<Rightarrow> RS_Done (Inl RecvDisconnected) | Inl Empty \<Rightarrow> RS_Park, s) }"
| "recv_sync t p RS_Park s =
     (case park_sync_receiver t p s of (Park_Retry, s) \<Rightarrow> Some (RS_Try, s) | (Park_Closed, s) \<Rightarrow> Some (RS_Done (Inl RecvDisconnected), s)
      | (Parked, s) \<Rightarrow> Some (RS_Wait, s))"
| "recv_sync t p RS_Wait s =
     do { final_state \<leftarrow> mc_cells s p;
          (if \<not> flag_finished final_state then Some (RS_Wait, s)
           else if flag_closed final_state then Some (RS_Closed, s)
           else Some (RS_Try, free_flag p s)) }"
| "recv_sync t p RS_Closed s = Some (RS_Done (Inl RecvDisconnected), free_flag p (s\<lparr>mc_sync_receivers := unlink_all p (mc_sync_receivers s)\<rparr>))"
| "recv_sync t p (RS_Done r) s = None"

subsection \<open>Blocking batch receive\<close>

datatype 'a rbatch_pc = RB_Try "'a list" nat | RB_Park "'a list" nat | RB_Wait "'a list" nat | RB_Closed "'a list" | RB_Done "recv_error + nat" "'a list"

definition recv_batch_start :: "'a list \<Rightarrow> nat \<Rightarrow> 'a rbatch_pc" where
  "recv_batch_start out mx = (if mx = 0 then RB_Done (Inr 0) out else RB_Try out mx)"

fun recv_batch_sync :: "'t \<Rightarrow> 'p \<Rightarrow> 'a rbatch_pc \<Rightarrow> ('a, 't, 'w, 'p) mpmc \<Rightarrow> ('a rbatch_pc \<times> ('a, 't, 'w, 'p) mpmc) option" where
  "recv_batch_sync t p (RB_Try out mx) s =
     do { (r, out, s) \<leftarrow> try_recv_batch_core out mx s;
          Some (case r of Inr k \<Rightarrow> RB_Done (Inr k) out | Inl Disconnected \<Rightarrow> RB_Done (Inl RecvDisconnected) out | Inl Empty \<Rightarrow> RB_Park out mx, s) }"
| "recv_batch_sync t p (RB_Park out mx) s =
     (case park_sync_receiver t p s of (Park_Retry, s) \<Rightarrow> Some (RB_Try out mx, s) | (Park_Closed, s) \<Rightarrow> Some (RB_Done (Inl RecvDisconnected) out, s)
      | (Parked, s) \<Rightarrow> Some (RB_Wait out mx, s))"
| "recv_batch_sync t p (RB_Wait out mx) s =
     do { final_state \<leftarrow> mc_cells s p;
          (if \<not> flag_finished final_state then Some (RB_Wait out mx, s)
           else if flag_closed final_state then Some (RB_Closed out, s)
           else Some (RB_Try out mx, free_flag p s)) }"
| "recv_batch_sync t p (RB_Closed out) s =
     Some (RB_Done (Inl RecvDisconnected) out, free_flag p (s\<lparr>mc_sync_receivers := unlink_all p (mc_sync_receivers s)\<rparr>))"
| "recv_batch_sync t p (RB_Done r out) s = None"

subsection \<open>Receive with a timeout\<close>

text \<open>
  The flag and the waiter are set up once. \<open>expired\<close> says whether the timeout has elapsed when the
  loop reads the clock; \<^verbatim>\<open>park_timeout\<close> may return at any time. The flag lives until the call returns.
\<close>

datatype 'a trecv_pc = RT_Try | RT_Park | RT_Retry | RT_Loop | RT_Unlink | RT_Last | RT_Check | RT_Again | RT_Done "recv_error_timeout + 'a"

fun recv_timeout_sync :: "'t \<Rightarrow> 'p \<Rightarrow> bool \<Rightarrow> 'a trecv_pc \<Rightarrow> ('a, 't, 'w, 'p) mpmc \<Rightarrow> ('a trecv_pc \<times> ('a, 't, 'w, 'p) mpmc) option" where
  "recv_timeout_sync t p expired RT_Try s =
     do { (r, s) \<leftarrow> try_recv_core s;
          Some (case r of Inr item \<Rightarrow> RT_Done (Inr item) | Inl Disconnected \<Rightarrow> RT_Done (Inl TimeoutDisconnected) | Inl Empty \<Rightarrow> RT_Park, s) }"
| "recv_timeout_sync t p expired RT_Park s =
     (case park_sync_receiver t p s of (Park_Retry, s) \<Rightarrow> Some (RT_Retry, queue_flag p s) | (Park_Closed, s) \<Rightarrow> Some (RT_Done (Inl TimeoutDisconnected), s)
      | (Parked, s) \<Rightarrow> Some (RT_Loop, s))"
| "recv_timeout_sync t p expired RT_Retry s =
     do { (r, s) \<leftarrow> try_recv_core s;
          Some (case r of Inr item \<Rightarrow> (RT_Done (Inr item), free_flag p s) | Inl Disconnected \<Rightarrow> (RT_Done (Inl TimeoutDisconnected), free_flag p s)
                | Inl Empty \<Rightarrow> (RT_Loop, s)) }"
| "recv_timeout_sync t p expired RT_Loop s =
     (if expired
      then do { st \<leftarrow> mc_cells s p;
                Some (if st = st_waiting then (RT_Unlink, s\<lparr>mc_cells := (mc_cells s)(p \<mapsto> st_cancelled)\<rparr>) else (RT_Last, s)) }
      else Some (RT_Check, s))"
| "recv_timeout_sync t p expired RT_Unlink s =
     Some (RT_Done (Inl Timeout), free_flag p (s\<lparr>mc_sync_receivers := unlink_all p (mc_sync_receivers s)\<rparr>))"
| "recv_timeout_sync t p expired RT_Last s =
     do { (r, s) \<leftarrow> try_recv_core s;
          (case r of Inr item \<Rightarrow> Some (RT_Done (Inr item), free_flag p s) | Inl Disconnected \<Rightarrow> Some (RT_Done (Inl TimeoutDisconnected), free_flag p s)
           | Inl Empty \<Rightarrow> None) }"
| "recv_timeout_sync t p expired RT_Check s =
     do { st \<leftarrow> mc_cells s p; Some (if flag_finished st then RT_Again else RT_Loop, s) }"
| "recv_timeout_sync t p expired RT_Again s =
     do { (r, s) \<leftarrow> try_recv_core s;
          Some (case r of Inr item \<Rightarrow> (RT_Done (Inr item), free_flag p s) | Inl Disconnected \<Rightarrow> (RT_Done (Inl TimeoutDisconnected), free_flag p s)
                | Inl Empty \<Rightarrow> (RT_Loop, s)) }"
| "recv_timeout_sync t p expired (RT_Done r) s = None"

subsection \<open>The send future\<close>

text \<open>
  Between polls a future is idle; a registered one remembers the waker of its last poll. A poll comes
  with the waker of its context. A registered future that is dropped cancels its flag first and then
  takes its waiter out of the queue.
\<close>

datatype ('a, 'w) fsend_pc = SF_New 'a | SF_Idle 'w 'a | SF_Check 'w 'a | SF_Unlink 'w 'a "8 word" | SF_Rewake 'w 'a | SF_Try 'w 'a | SF_Park 'w 'a
  | SF_Done "send_error option" | SF_Drop | SF_Dropped

fun send_future_poll :: "'w \<Rightarrow> ('a, 'w) fsend_pc \<Rightarrow> ('a, 'w) fsend_pc option" where
  "send_future_poll w (SF_New item) = Some (SF_Try w item)"
| "send_future_poll w (SF_Idle w0 item) = Some (SF_Check w item)"
| "send_future_poll w _ = None"

fun send_future_step :: "'p \<Rightarrow> ('a, 'w) fsend_pc \<Rightarrow> ('a, 't, 'w, 'p) mpmc \<Rightarrow> (('a, 'w) fsend_pc \<times> ('a, 't, 'w, 'p) mpmc) option" where
  "send_future_step p (SF_Check w item) s =
     do { st \<leftarrow> mc_cells s p; Some (if flag_finished st then SF_Unlink w item st else SF_Rewake w item, s) }"
| "send_future_step p (SF_Unlink w item st) s =
     Some (if flag_closed st then SF_Done (Some SendClosed) else SF_Try w item, s\<lparr>mc_async_senders := unlink_first p (mc_async_senders s)\<rparr>)"
| "send_future_step p (SF_Rewake w item) s =
     Some (SF_Idle w item, if queued p (mc_async_senders s) then s\<lparr>mc_async_senders := set_waker w p (mc_async_senders s)\<rparr>
                           else s\<lparr>mc_woken := (mc_woken s)(p \<mapsto> Waker w)\<rparr>)"
| "send_future_step p (SF_Try w item) s =
     do { (r, s) \<leftarrow> try_send_core item s;
          (case r of None \<Rightarrow> Some (SF_Done None, s) | Some (Full returned_item) \<Rightarrow> Some (SF_Park w returned_item, s)
           | Some (Closed _) \<Rightarrow> Some (SF_Done (Some SendClosed), s) | Some (Sent _) \<Rightarrow> None) }"
| "send_future_step p (SF_Park w item) s =
     (case park_async_sender w p s of (Park_Retry, s) \<Rightarrow> Some (SF_Try w item, s) | (Park_Closed, s) \<Rightarrow> Some (SF_Done (Some SendClosed), s)
      | (Parked, s) \<Rightarrow> Some (SF_Idle w item, s))"
| "send_future_step p SF_Drop s = Some (SF_Dropped, s\<lparr>mc_async_senders := unlink_all p (mc_async_senders s)\<rparr>)"
| "send_future_step p _ s = None"

text \<open>The first action of dropping a registered future.\<close>

definition cancel_flag :: "'p \<Rightarrow> ('a, 't, 'w, 'p) mpmc \<Rightarrow> ('a, 't, 'w, 'p) mpmc option" where
  "cancel_flag p s = do { st \<leftarrow> mc_cells s p; Some (if st = st_waiting then s\<lparr>mc_cells := (mc_cells s)(p \<mapsto> st_cancelled)\<rparr> else s) }"

fun send_future_drop :: "'p \<Rightarrow> ('a, 'w) fsend_pc \<Rightarrow> ('a, 't, 'w, 'p) mpmc \<Rightarrow> (('a, 'w) fsend_pc \<times> ('a, 't, 'w, 'p) mpmc) option" where
  "send_future_drop p (SF_New item) s = Some (SF_Dropped, s)"
| "send_future_drop p (SF_Idle w item) s = do { s \<leftarrow> cancel_flag p s; Some (SF_Drop, s) }"
| "send_future_drop p _ s = None"

subsection \<open>The receive future\<close>

datatype ('a, 'w) frecv_pc = RF_New | RF_Idle 'w | RF_Check 'w | RF_Unlink | RF_Try 'w | RF_Park 'w | RF_Done "recv_error + 'a" | RF_Drop | RF_Dropped

fun recv_future_poll :: "'w \<Rightarrow> ('a, 'w) frecv_pc \<Rightarrow> ('a, 'w) frecv_pc option" where
  "recv_future_poll w RF_New = Some (RF_Try w)"
| "recv_future_poll w (RF_Idle w0) = Some (RF_Check w)"
| "recv_future_poll w _ = None"

fun recv_future_step :: "'p \<Rightarrow> ('a, 'w) frecv_pc \<Rightarrow> ('a, 't, 'w, 'p) mpmc \<Rightarrow> (('a, 'w) frecv_pc \<times> ('a, 't, 'w, 'p) mpmc) option" where
  "recv_future_step p (RF_Check w) s =
     do { st \<leftarrow> mc_cells s p; Some (if flag_finished st \<and> flag_closed st then RF_Unlink else RF_Try w, s) }"
| "recv_future_step p RF_Unlink s = Some (RF_Done (Inl RecvDisconnected), s\<lparr>mc_async_receivers := unlink_all p (mc_async_receivers s)\<rparr>)"
| "recv_future_step p (RF_Try w) s =
     do { (r, s) \<leftarrow> try_recv_core s;
          Some (case r of Inr item \<Rightarrow> RF_Done (Inr item) | Inl Disconnected \<Rightarrow> RF_Done (Inl RecvDisconnected) | Inl Empty \<Rightarrow> RF_Park w, s) }"
| "recv_future_step p (RF_Park w) s =
     (case park_async_receiver w p s of (Park_Retry, s) \<Rightarrow> Some (RF_Try w, s) | (Park_Closed, s) \<Rightarrow> Some (RF_Done (Inl RecvDisconnected), s)
      | (Parked, s) \<Rightarrow> Some (RF_Idle w, s))"
| "recv_future_step p RF_Drop s = Some (RF_Dropped, s\<lparr>mc_async_receivers := unlink_all p (mc_async_receivers s)\<rparr>)"
| "recv_future_step p _ s = None"

fun recv_future_drop :: "'p \<Rightarrow> ('a, 'w) frecv_pc \<Rightarrow> ('a, 't, 'w, 'p) mpmc \<Rightarrow> (('a, 'w) frecv_pc \<times> ('a, 't, 'w, 'p) mpmc) option" where
  "recv_future_drop p RF_New s = Some (RF_Dropped, s)"
| "recv_future_drop p (RF_Idle w) s = do { s \<leftarrow> cancel_flag p s; Some (RF_Drop, s) }"
| "recv_future_drop p _ s = None"

end
