(* ===== verification/Channel_Handle.thy ===== *)
theory Channel_Handle
  imports Prelude
begin

section \<open>Handles of the channels\<close>

text \<open>
  The life of a sender or receiver handle, which the channels share: open, closing between the change
  of its flag \<^verbatim>\<open>closed\<close> and the update of the count behind the lock, and shut. A count is right when it is
  the number of handles that are not shut.
\<close>

datatype handle = Open | Closing | Shut

definition live :: "('h \<rightharpoonup> handle) \<Rightarrow> 'h set" where
  "live hs = {h. hs h = Some Open \<or> hs h = Some Closing}"

definition counted :: "('h \<rightharpoonup> handle) \<Rightarrow> nat \<Rightarrow> bool" where
  "counted hs n \<longleftrightarrow> finite (live hs) \<and> n = card (live hs) \<and> n < 2 ^ 64"

lemma live_upd: "live (hs(h \<mapsto> st)) = (if st = Shut then live hs - {h} else insert h (live hs))"
  by (cases st) (auto simp: live_def)

lemma counted_clone: "counted hs n \<Longrightarrow> hs h = None \<Longrightarrow> n + 1 < 2 ^ 64 \<Longrightarrow> counted (hs(h \<mapsto> Open)) (u64_add n 1)"
  by (auto simp: counted_def live_upd card_insert_if) (auto simp: live_def)

lemma counted_closing: "counted hs n \<Longrightarrow> hs h = Some Open \<Longrightarrow> counted (hs(h \<mapsto> Closing)) n"
proof -
  assume c: "counted hs n" and h: "hs h = Some Open"
  have "live (hs(h \<mapsto> Closing)) = live hs" using h by (auto simp: live_def)
  then show ?thesis using c by (simp add: counted_def)
qed

lemma counted_close: "counted hs n \<Longrightarrow> hs h = Some Closing \<Longrightarrow> counted (hs(h \<mapsto> Shut)) (u64_sub n 1)"
proof -
  assume c: "counted hs n" and h: "hs h = Some Closing"
  have m: "h \<in> live hs" using h by (simp add: live_def)
  then have "1 \<le> n" using c by (auto simp: counted_def Suc_le_eq card_gt_0_iff)
  then have "u64_sub n 1 = n - 1" "n - 1 < 2 ^ 64" using c unfolding counted_def by (simp, linarith)
  then show ?thesis using c m by (simp add: counted_def live_upd)
qed

end
