(* ===== verification/Mpmc_World.thy ===== *)
theory Mpmc_World
  imports Mpmc_Tasks Channel_Handle
begin

section \<open>The bounded MPMC channel under any interleaving\<close>

text \<open>
  Any number of calls and futures on one channel. A world holds what is behind the lock, the running
  programs by the address of their flags, and the handles. Each step of the world is one step of a
  program, a whole non-blocking call, a poll or a drop of a future, or an operation on a handle, and
  is labelled with the items it put into the channel and the items it took out, as the program sees
  them. Programs may start at any time, through open handles or through closed ones whose check
  already ran. What a client may do beyond the plain use of the interface is a set of liberties, so
  that each theorem says which ones it allows.
\<close>

subsection \<open>Programs\<close>

datatype ('a, 't, 'w) task =
    Send_Sync 't "'a ssend_pc" | Send_Batch 't "'a sbatch_pc" | Recv_Sync 't "'a srecv_pc" | Recv_Batch 't "'a rbatch_pc"
  | Recv_Timeout 't "'a trecv_pc" | Send_Future "('a, 'w) fsend_pc" | Recv_Future "('a, 'w) frecv_pc"

fun task_run :: "'p \<Rightarrow> bool \<Rightarrow> ('a, 't, 'w) task \<Rightarrow> ('a, 't, 'w, 'p) mpmc \<Rightarrow> (('a, 't, 'w) task \<times> ('a, 't, 'w, 'p) mpmc) option" where
  "task_run p expired (Send_Sync t pc) s = map_option (map_prod (Send_Sync t) id) (send_sync t p pc s)"
| "task_run p expired (Send_Batch t pc) s = map_option (map_prod (Send_Batch t) id) (send_batch_iter_sync t p pc s)"
| "task_run p expired (Recv_Sync t pc) s = map_option (map_prod (Recv_Sync t) id) (recv_sync t p pc s)"
| "task_run p expired (Recv_Batch t pc) s = map_option (map_prod (Recv_Batch t) id) (recv_batch_sync t p pc s)"
| "task_run p expired (Recv_Timeout t pc) s = map_option (map_prod (Recv_Timeout t) id) (recv_timeout_sync t p expired pc s)"
| "task_run p expired (Send_Future pc) s = map_option (map_prod Send_Future id) (send_future_step p pc s)"
| "task_run p expired (Recv_Future pc) s = map_option (map_prod Recv_Future id) (recv_future_step p pc s)"

fun task_poll :: "'w \<Rightarrow> ('a, 't, 'w) task \<Rightarrow> ('a, 't, 'w) task option" where
  "task_poll w (Send_Future pc) = map_option Send_Future (send_future_poll w pc)"
| "task_poll w (Recv_Future pc) = map_option Recv_Future (recv_future_poll w pc)"
| "task_poll w _ = None"

fun task_drop :: "'p \<Rightarrow> ('a, 't, 'w) task \<Rightarrow> ('a, 't, 'w, 'p) mpmc \<Rightarrow> (('a, 't, 'w) task \<times> ('a, 't, 'w, 'p) mpmc) option" where
  "task_drop p (Send_Future pc) s = map_option (map_prod Send_Future id) (send_future_drop p pc s)"
| "task_drop p (Recv_Future pc) s = map_option (map_prod Recv_Future id) (recv_future_drop p pc s)"
| "task_drop p _ s = None"

text \<open>How programs start, when they have returned, and when a future waits for its next poll.\<close>

fun task_start :: "('a, 't, 'w) task \<Rightarrow> bool" where
  "task_start (Send_Sync t pc) \<longleftrightarrow> (case pc of SS_Try _ \<Rightarrow> True | _ \<Rightarrow> False)"
| "task_start (Send_Batch t pc) \<longleftrightarrow> (case pc of SB_Pending b \<Rightarrow> bt_iter b \<noteq> [] \<and> pc = batch_start (bt_iter b) | _ \<Rightarrow> False)"
| "task_start (Recv_Sync t pc) \<longleftrightarrow> (case pc of RS_Try \<Rightarrow> True | _ \<Rightarrow> False)"
| "task_start (Recv_Batch t pc) \<longleftrightarrow> (case pc of RB_Try out mx \<Rightarrow> pc = recv_batch_start out mx | RB_Done _ out \<Rightarrow> pc = recv_batch_start out 0 | _ \<Rightarrow> False)"
| "task_start (Recv_Timeout t pc) \<longleftrightarrow> (case pc of RT_Try \<Rightarrow> True | _ \<Rightarrow> False)"
| "task_start (Send_Future pc) \<longleftrightarrow> (case pc of SF_New _ \<Rightarrow> True | _ \<Rightarrow> False)"
| "task_start (Recv_Future pc) \<longleftrightarrow> (case pc of RF_New \<Rightarrow> True | _ \<Rightarrow> False)"

fun task_done :: "('a, 't, 'w) task \<Rightarrow> bool" where
  "task_done (Send_Sync t pc) \<longleftrightarrow> (case pc of SS_Done _ \<Rightarrow> True | _ \<Rightarrow> False)"
| "task_done (Send_Batch t pc) \<longleftrightarrow> (case pc of SB_Done _ _ \<Rightarrow> True | _ \<Rightarrow> False)"
| "task_done (Recv_Sync t pc) \<longleftrightarrow> (case pc of RS_Done _ \<Rightarrow> True | _ \<Rightarrow> False)"
| "task_done (Recv_Batch t pc) \<longleftrightarrow> (case pc of RB_Done _ _ \<Rightarrow> True | _ \<Rightarrow> False)"
| "task_done (Recv_Timeout t pc) \<longleftrightarrow> (case pc of RT_Done _ \<Rightarrow> True | _ \<Rightarrow> False)"
| "task_done (Send_Future pc) \<longleftrightarrow> (case pc of SF_Done _ \<Rightarrow> True | SF_Dropped \<Rightarrow> True | _ \<Rightarrow> False)"
| "task_done (Recv_Future pc) \<longleftrightarrow> (case pc of RF_Done _ \<Rightarrow> True | RF_Dropped \<Rightarrow> True | _ \<Rightarrow> False)"

fun task_registered :: "('a, 't, 'w) task \<Rightarrow> bool" where
  "task_registered (Send_Future pc) \<longleftrightarrow> (case pc of SF_Idle _ _ \<Rightarrow> True | _ \<Rightarrow> False)"
| "task_registered (Recv_Future pc) \<longleftrightarrow> (case pc of RF_Idle _ \<Rightarrow> True | _ \<Rightarrow> False)"
| "task_registered _ \<longleftrightarrow> False"

fun task_idle :: "('a, 't, 'w) task \<Rightarrow> bool" where
  "task_idle (Send_Future pc) \<longleftrightarrow> (case pc of SF_New _ \<Rightarrow> True | SF_Idle _ _ \<Rightarrow> True | _ \<Rightarrow> False)"
| "task_idle (Recv_Future pc) \<longleftrightarrow> (case pc of RF_New \<Rightarrow> True | RF_Idle _ \<Rightarrow> True | _ \<Rightarrow> False)"
| "task_idle _ \<longleftrightarrow> False"

fun task_timed :: "('a, 't, 'w) task \<Rightarrow> bool" where
  "task_timed (Recv_Timeout t pc) \<longleftrightarrow> True"
| "task_timed _ \<longleftrightarrow> False"

text \<open>The flag of a future is part of it, the flags of blocking calls are set up later.\<close>

fun task_new_flag :: "('a, 't, 'w) task \<Rightarrow> 'p \<Rightarrow> ('a, 't, 'w, 'p) mpmc \<Rightarrow> ('a, 't, 'w, 'p) mpmc" where
  "task_new_flag (Send_Future pc) p s = queue_flag p s"
| "task_new_flag (Recv_Future pc) p s = queue_flag p s"
| "task_new_flag _ p s = s"

text \<open>The items a step of a program put in and took out.\<close>

definition ssend_puts :: "'a ssend_pc \<Rightarrow> 'a ssend_pc \<Rightarrow> 'a list" where
  "ssend_puts pc pc' = (case pc of SS_Try x \<Rightarrow> if pc' = SS_Done None then [x] else [] | _ \<Rightarrow> [])"

definition sbatch_puts :: "'a sbatch_pc \<Rightarrow> 'a sbatch_pc \<Rightarrow> 'a list" where
  "sbatch_puts pc pc' = (case pc of
       SB_Iter b \<Rightarrow> (case pc' of SB_Park b' \<Rightarrow> take (length (bt_iter b) - length (bt_iter b')) (bt_iter b)
                     | SB_Done r iter \<Rightarrow> take (length (bt_iter b) - length iter) (bt_iter b) | _ \<Rightarrow> [])
     | SB_Pending b \<Rightarrow> (case bt_pending b of None \<Rightarrow> []
                        | Some x \<Rightarrow> (case pc' of SB_Iter b' \<Rightarrow> if bt_sent b' = bt_sent b + 1 then [x] else [] | _ \<Rightarrow> []))
     | _ \<Rightarrow> [])"

definition fsend_puts :: "('a, 'w) fsend_pc \<Rightarrow> ('a, 'w) fsend_pc \<Rightarrow> 'a list" where
  "fsend_puts pc pc' = (case pc of SF_Try _ x \<Rightarrow> if pc' = SF_Done None then [x] else [] | _ \<Rightarrow> [])"

fun task_puts :: "('a, 't, 'w) task \<Rightarrow> ('a, 't, 'w) task \<Rightarrow> 'a list" where
  "task_puts (Send_Sync t pc) t' = (case t' of Send_Sync _ pc' \<Rightarrow> ssend_puts pc pc' | _ \<Rightarrow> [])"
| "task_puts (Send_Batch t pc) t' = (case t' of Send_Batch _ pc' \<Rightarrow> sbatch_puts pc pc' | _ \<Rightarrow> [])"
| "task_puts (Send_Future pc) t' = (case t' of Send_Future pc' \<Rightarrow> fsend_puts pc pc' | _ \<Rightarrow> [])"
| "task_puts _ t' = []"

fun task_gots :: "('a, 't, 'w) task \<Rightarrow> ('a, 't, 'w) task \<Rightarrow> 'a list" where
  "task_gots t (Recv_Sync _ pc') = (case pc' of RS_Done (Inr x) \<Rightarrow> [x] | _ \<Rightarrow> [])"
| "task_gots t (Recv_Batch _ pc') = (case pc' of RB_Done (Inr k) out' \<Rightarrow> (case t of Recv_Batch _ (RB_Try out _) \<Rightarrow> drop (length out) out' | _ \<Rightarrow> []) | _ \<Rightarrow> [])"
| "task_gots t (Recv_Timeout _ pc') = (case pc' of RT_Done (Inr x) \<Rightarrow> [x] | _ \<Rightarrow> [])"
| "task_gots t (Recv_Future pc') = (case pc' of RF_Done (Inr x) \<Rightarrow> [x] | _ \<Rightarrow> [])"
| "task_gots t _ = []"

subsection \<open>Non-blocking calls\<close>

datatype 'a call = Try_Send 'a | Try_Recv | Try_Send_Batch "'a list" | Try_Recv_Batch nat

datatype 'a reply = Sent_Reply "'a try_send_error option" | Received "try_recv_error + 'a"
  | Batch_Sent nat "batch_send_error_reason option" "'a list" | Batch_Received "try_recv_error + nat" "'a list"

text \<open>
  A call first looks at the flag \<^verbatim>\<open>closed\<close> of its handle, whose value is the first argument, and then enters the
  channel. A batch without items does neither.
\<close>

fun mpmc_call :: "bool \<Rightarrow> 'a call \<Rightarrow> ('a, 't, 'w, 'p) mpmc \<Rightarrow> ('a reply \<times> ('a, 't, 'w, 'p) mpmc) option" where
  "mpmc_call closed (Try_Send x) s =
     (if closed then Some (Sent_Reply (Some (Closed x)), s)
      else do { (r, s) \<leftarrow> try_send_core x s; Some (Sent_Reply r, s) })"
| "mpmc_call closed Try_Recv s =
     (if closed then Some (Received (Inl Disconnected), s)
      else do { (r, s) \<leftarrow> try_recv_core s; Some (Received r, s) })"
| "mpmc_call closed (Try_Send_Batch xs) s =
     (if length xs = 0 then Some (Batch_Sent 0 None [], s)
      else if closed then Some (Batch_Sent 0 (Some BatchClosed) xs, s)
      else do { ((k, reason), rest, s) \<leftarrow> try_send_batch_core xs (length xs) s; Some (Batch_Sent k reason rest, s) })"
| "mpmc_call closed (Try_Recv_Batch mx) s =
     (if mx = 0 then Some (Batch_Received (Inr 0) [], s)
      else if closed then Some (Batch_Received (Inl Disconnected) [], s)
      else do { (r, out, s) \<leftarrow> try_recv_batch_core [] mx s; Some (Batch_Received r out, s) })"

fun call_puts :: "'a call \<Rightarrow> 'a reply \<Rightarrow> 'a list" where
  "call_puts (Try_Send x) (Sent_Reply None) = [x]"
| "call_puts (Try_Send_Batch xs) (Batch_Sent k _ _) = take k xs"
| "call_puts _ _ = []"

fun call_gots :: "'a reply \<Rightarrow> 'a list" where
  "call_gots (Received (Inr x)) = [x]"
| "call_gots (Batch_Received _ out) = out"
| "call_gots _ = []"

subsection \<open>Worlds\<close>

datatype liberty = Timed | Spurious | Dropping | Reviving

record ('a, 't, 'w, 'p, 'h) world =
  wd_core :: "('a, 't, 'w, 'p) mpmc"
  wd_tasks :: "'p \<rightharpoonup> ('a, 't, 'w) task"
  wd_senders :: "'h \<rightharpoonup> handle"
  wd_receivers :: "'h \<rightharpoonup> handle"

text \<open>\<^verbatim>\<open>bounded\<close> and \<^verbatim>\<open>bounded_async\<close>: a capacity of zero is a panic.\<close>

definition mpmc_bounded :: "nat \<Rightarrow> 'h \<Rightarrow> ('a, 't, 'w, 'p, 'h) world option" where
  "mpmc_bounded capacity h = (if capacity = 0 then None else do { core \<leftarrow> mpmc_new capacity;
     Some \<lparr>wd_core = core, wd_tasks = Map.empty, wd_senders = [h \<mapsto> Open], wd_receivers = [h \<mapsto> Open]\<rparr> })"

text \<open>The handles a call can be made on.\<close>

fun call_handles :: "'a call \<Rightarrow> ('a, 't, 'w, 'p, 'h) world \<Rightarrow> 'h \<rightharpoonup> handle" where
  "call_handles (Try_Send x) w = wd_senders w"
| "call_handles (Try_Send_Batch xs) w = wd_senders w"
| "call_handles Try_Recv w = wd_receivers w"
| "call_handles (Try_Recv_Batch mx) w = wd_receivers w"

text \<open>
  The check of the flag and the section of a call are not one step: a call whose check ran while the
  handle was open goes on when the handle has been closed in between.
\<close>

inductive mpmc_step :: "liberty set \<Rightarrow> ('a, 't, 'w, 'p, 'h) world \<Rightarrow> 'a list \<times> 'a list \<Rightarrow> ('a, 't, 'w, 'p, 'h) world \<Rightarrow> bool" for L where
  step_start: "wd_tasks w p = None \<Longrightarrow> task_start t \<Longrightarrow> task_timed t \<longrightarrow> Timed \<in> L \<Longrightarrow>
     mpmc_step L w ([], []) (w\<lparr>wd_tasks := (wd_tasks w)(p \<mapsto> t), wd_core := task_new_flag t p (wd_core w)\<rparr>)"
| step_run: "wd_tasks w p = Some t \<Longrightarrow> task_run p expired t (wd_core w) = Some (t', s') \<Longrightarrow>
     mpmc_step L w (task_puts t t', task_gots t t') (w\<lparr>wd_tasks := (wd_tasks w)(p \<mapsto> t'), wd_core := s'\<rparr>)"
| step_poll: "wd_tasks w p = Some t \<Longrightarrow> task_poll wk t = Some t' \<Longrightarrow>
     Spurious \<in> L \<or> \<not> task_registered t \<or> mc_cells (wd_core w) p \<noteq> Some st_waiting \<Longrightarrow>
     mpmc_step L w ([], []) (w\<lparr>wd_tasks := (wd_tasks w)(p \<mapsto> t')\<rparr>)"
| step_drop: "wd_tasks w p = Some t \<Longrightarrow> task_drop p t (wd_core w) = Some (t', s') \<Longrightarrow>
     Dropping \<in> L \<or> \<not> task_registered t \<or> mc_cells (wd_core w) p \<noteq> Some st_success_space \<Longrightarrow>
     mpmc_step L w ([], []) (w\<lparr>wd_tasks := (wd_tasks w)(p \<mapsto> t'), wd_core := s'\<rparr>)"
| step_finish: "wd_tasks w p = Some t \<Longrightarrow> task_done t \<Longrightarrow>
     mpmc_step L w ([], []) (w\<lparr>wd_tasks := (wd_tasks w)(p := None), wd_core := free_flag p (wd_core w)\<rparr>)"
| step_call: "call_handles c w h = Some st \<Longrightarrow> closed \<longrightarrow> st \<noteq> Open \<Longrightarrow> mpmc_call closed c (wd_core w) = Some (r, s') \<Longrightarrow>
     mpmc_step L w (call_puts c r, call_gots r) (w\<lparr>wd_core := s'\<rparr>)"
| step_clone_sender: "wd_senders w h \<noteq> None \<Longrightarrow> wd_senders w h' = None \<Longrightarrow> mc_sender_count (wd_core w) + 1 < 2 ^ 64 \<Longrightarrow>
     mpmc_step L w ([], []) (w\<lparr>wd_senders := (wd_senders w)(h' \<mapsto> Open), wd_core := add_sender (wd_core w)\<rparr>)"
| step_clone_receiver: "wd_receivers w h \<noteq> None \<Longrightarrow> wd_receivers w h' = None \<Longrightarrow> mc_receiver_count (wd_core w) + 1 < 2 ^ 64 \<Longrightarrow>
     mpmc_step L w ([], []) (w\<lparr>wd_receivers := (wd_receivers w)(h' \<mapsto> Open), wd_core := add_receiver (wd_core w)\<rparr>)"
| step_closing_sender: "wd_senders w h = Some Open \<Longrightarrow> mpmc_step L w ([], []) (w\<lparr>wd_senders := (wd_senders w)(h \<mapsto> Closing)\<rparr>)"
| step_closing_receiver: "wd_receivers w h = Some Open \<Longrightarrow> mpmc_step L w ([], []) (w\<lparr>wd_receivers := (wd_receivers w)(h \<mapsto> Closing)\<rparr>)"
| step_close_sender: "wd_senders w h = Some Closing \<Longrightarrow> close_sender (wd_core w) = Some s' \<Longrightarrow>
     mpmc_step L w ([], []) (w\<lparr>wd_senders := (wd_senders w)(h \<mapsto> Shut), wd_core := s'\<rparr>)"
| step_close_receiver: "wd_receivers w h = Some Closing \<Longrightarrow> close_receiver (wd_core w) = Some s' \<Longrightarrow>
     mpmc_step L w ([], []) (w\<lparr>wd_receivers := (wd_receivers w)(h \<mapsto> Shut), wd_core := s'\<rparr>)"
| step_convert_sender: "wd_senders w h = Some Shut \<Longrightarrow> Reviving \<in> L \<Longrightarrow> mpmc_step L w ([], []) (w\<lparr>wd_senders := (wd_senders w)(h \<mapsto> Open)\<rparr>)"
| step_convert_receiver: "wd_receivers w h = Some Shut \<Longrightarrow> Reviving \<in> L \<Longrightarrow> mpmc_step L w ([], []) (w\<lparr>wd_receivers := (wd_receivers w)(h \<mapsto> Open)\<rparr>)"

text \<open>A run from a new channel, with all items put in and taken out in order.\<close>

inductive mpmc_run :: "liberty set \<Rightarrow> nat \<Rightarrow> 'a list \<Rightarrow> 'a list \<Rightarrow> ('a, 't, 'w, 'p, 'h) world \<Rightarrow> bool" for L capacity where
  run_new: "mpmc_bounded capacity h = Some w \<Longrightarrow> mpmc_run L capacity [] [] w"
| run_step: "mpmc_run L capacity puts gots w \<Longrightarrow> mpmc_step L w (xs, ys) w' \<Longrightarrow> mpmc_run L capacity (puts @ xs) (gots @ ys) w'"

subsection \<open>Schedules\<close>

text \<open>Runs can be computed from a list of actions.\<close>

datatype ('a, 't, 'w, 'p, 'h) action = Start 'p "('a, 't, 'w) task" | Run 'p bool | Poll 'p 'w | Drop 'p | Finish 'p | Call 'h "'a call"
  | Clone_Sender 'h 'h | Clone_Receiver 'h 'h | Closing_Sender 'h | Closing_Receiver 'h | Close_Sender 'h | Close_Receiver 'h | Convert_Sender 'h | Convert_Receiver 'h

definition guarded :: "bool \<Rightarrow> 'b \<Rightarrow> 'b option" where
  "guarded b x = (if b then Some x else None)"

fun mpmc_act :: "liberty set \<Rightarrow> ('a, 't, 'w, 'p, 'h) action \<Rightarrow> ('a, 't, 'w, 'p, 'h) world \<Rightarrow> (('a list \<times> 'a list) \<times> ('a, 't, 'w, 'p, 'h) world) option" where
  "mpmc_act L (Start p t) w = guarded (wd_tasks w p = None \<and> task_start t \<and> (task_timed t \<longrightarrow> Timed \<in> L))
     (([], []), w\<lparr>wd_tasks := (wd_tasks w)(p \<mapsto> t), wd_core := task_new_flag t p (wd_core w)\<rparr>)"
| "mpmc_act L (Run p expired) w = do { t \<leftarrow> wd_tasks w p; (t', s') \<leftarrow> task_run p expired t (wd_core w);
     Some ((task_puts t t', task_gots t t'), w\<lparr>wd_tasks := (wd_tasks w)(p \<mapsto> t'), wd_core := s'\<rparr>) }"
| "mpmc_act L (Poll p wk) w = do { t \<leftarrow> wd_tasks w p; t' \<leftarrow> task_poll wk t;
     guarded (Spurious \<in> L \<or> \<not> task_registered t \<or> mc_cells (wd_core w) p \<noteq> Some st_waiting) (([], []), w\<lparr>wd_tasks := (wd_tasks w)(p \<mapsto> t')\<rparr>) }"
| "mpmc_act L (Drop p) w = do { t \<leftarrow> wd_tasks w p; (t', s') \<leftarrow> task_drop p t (wd_core w);
     guarded (Dropping \<in> L \<or> \<not> task_registered t \<or> mc_cells (wd_core w) p \<noteq> Some st_success_space) (([], []), w\<lparr>wd_tasks := (wd_tasks w)(p \<mapsto> t'), wd_core := s'\<rparr>) }"
| "mpmc_act L (Finish p) w = do { t \<leftarrow> wd_tasks w p; guarded (task_done t) (([], []), w\<lparr>wd_tasks := (wd_tasks w)(p := None), wd_core := free_flag p (wd_core w)\<rparr>) }"
| "mpmc_act L (Call h c) w = do { st \<leftarrow> call_handles c w h; (r, s') \<leftarrow> mpmc_call (st \<noteq> Open) c (wd_core w); Some ((call_puts c r, call_gots r), w\<lparr>wd_core := s'\<rparr>) }"
| "mpmc_act L (Clone_Sender h h') w = guarded (wd_senders w h \<noteq> None \<and> wd_senders w h' = None \<and> mc_sender_count (wd_core w) + 1 < 2 ^ 64)
     (([], []), w\<lparr>wd_senders := (wd_senders w)(h' \<mapsto> Open), wd_core := add_sender (wd_core w)\<rparr>)"
| "mpmc_act L (Clone_Receiver h h') w = guarded (wd_receivers w h \<noteq> None \<and> wd_receivers w h' = None \<and> mc_receiver_count (wd_core w) + 1 < 2 ^ 64)
     (([], []), w\<lparr>wd_receivers := (wd_receivers w)(h' \<mapsto> Open), wd_core := add_receiver (wd_core w)\<rparr>)"
| "mpmc_act L (Closing_Sender h) w = guarded (wd_senders w h = Some Open) (([], []), w\<lparr>wd_senders := (wd_senders w)(h \<mapsto> Closing)\<rparr>)"
| "mpmc_act L (Closing_Receiver h) w = guarded (wd_receivers w h = Some Open) (([], []), w\<lparr>wd_receivers := (wd_receivers w)(h \<mapsto> Closing)\<rparr>)"
| "mpmc_act L (Close_Sender h) w = do { s' \<leftarrow> close_sender (wd_core w); guarded (wd_senders w h = Some Closing) (([], []), w\<lparr>wd_senders := (wd_senders w)(h \<mapsto> Shut), wd_core := s'\<rparr>) }"
| "mpmc_act L (Close_Receiver h) w = do { s' \<leftarrow> close_receiver (wd_core w); guarded (wd_receivers w h = Some Closing) (([], []), w\<lparr>wd_receivers := (wd_receivers w)(h \<mapsto> Shut), wd_core := s'\<rparr>) }"
| "mpmc_act L (Convert_Sender h) w = guarded (wd_senders w h = Some Shut \<and> Reviving \<in> L) (([], []), w\<lparr>wd_senders := (wd_senders w)(h \<mapsto> Open)\<rparr>)"
| "mpmc_act L (Convert_Receiver h) w = guarded (wd_receivers w h = Some Shut \<and> Reviving \<in> L) (([], []), w\<lparr>wd_receivers := (wd_receivers w)(h \<mapsto> Open)\<rparr>)"

lemma mpmc_act_step: "mpmc_act L a w = Some (e, w') \<Longrightarrow> mpmc_step L w e w'"
  by (cases a) (auto simp: guarded_def split: Option.bind_splits if_splits intro: mpmc_step.intros)

fun mpmc_exec :: "liberty set \<Rightarrow> ('a, 't, 'w, 'p, 'h) action list \<Rightarrow> 'a list \<times> 'a list \<times> ('a, 't, 'w, 'p, 'h) world \<Rightarrow> ('a list \<times> 'a list \<times> ('a, 't, 'w, 'p, 'h) world) option" where
  "mpmc_exec L [] r = Some r"
| "mpmc_exec L (a # as) (puts, gots, w) = do { ((xs, ys), w') \<leftarrow> mpmc_act L a w; mpmc_exec L as (puts @ xs, gots @ ys, w') }"

definition mpmc_demo :: "liberty set \<Rightarrow> nat \<Rightarrow> (nat, nat, nat, nat, nat) action list \<Rightarrow> (nat list \<times> nat list \<times> (nat, nat, nat, nat, nat) world) option" where
  "mpmc_demo L capacity as = do { w \<leftarrow> mpmc_bounded capacity 0; mpmc_exec L as ([], [], w) }"

lemma mpmc_exec_run: "mpmc_exec L as (puts, gots, w) = Some (puts', gots', w') \<Longrightarrow> mpmc_run L capacity puts gots w \<Longrightarrow> mpmc_run L capacity puts' gots' w'"
proof (induction as arbitrary: puts gots w)
  case (Cons a as)
  obtain xs ys w1 where a: "mpmc_act L a w = Some ((xs, ys), w1)" "mpmc_exec L as (puts @ xs, gots @ ys, w1) = Some (puts', gots', w')"
    using Cons.prems(1) by (auto split: Option.bind_splits)
  show ?case using Cons.IH [OF a(2) run_step [OF Cons.prems(2) mpmc_act_step [OF a(1)]]] .
qed simp

lemma mpmc_demo_run: "mpmc_demo L capacity as = Some (puts, gots, w) \<Longrightarrow> mpmc_run L capacity puts gots w"
  unfolding mpmc_demo_def by (auto split: Option.bind_splits intro: mpmc_exec_run run_new)

text \<open>The definitions a computed run unfolds.\<close>

lemmas mpmc_eval = mpmc_demo_def mpmc_bounded_def mpmc_new_def uring_new_def next_power_of_two_def next_power_of_two_from.simps Let_def guarded_def
  try_send_core_def notify_receiver_def mpmc_is_full_def mpmc_push_def mpmc_push_back_def uring_push_def uring_is_full_def uring_len_def uring_capacity_def vec_get_def
  try_recv_core_def mpmc_pop_front_def uring_pop_def uring_is_empty_def notify_sender_def wake_one_def wake_def mpmc_is_empty_def
  park_sync_receiver_def park_async_receiver_def queued_def queue_flag_def free_flag_def cancel_flag_def unlink_all_def
  st_waiting_def st_success_space_def st_closed_buffered_def st_cancelled_def flag_finished_def flag_closed_def
  close_sender_def finish_waiter_def add_sender_def

end
