(* ===== verification/Mpmc_Fifo.thy ===== *)
theory Mpmc_Fifo
  imports Mpmc_World
begin

section \<open>The bounded MPMC channel as a queue\<close>

text \<open>
  The abstract channel is a bounded queue with the two handle counts; its operations say what each
  call returns. Every operation of the model that has a result refines it, whatever the waiters are.
\<close>

subsection \<open>The specification\<close>

record 'a fifo =
  fq_items :: "'a list"
  fq_capacity :: nat
  fq_senders :: nat
  fq_receivers :: nat

definition fifo_send :: "'a \<Rightarrow> 'a fifo \<Rightarrow> 'a try_send_error option \<times> 'a fifo" where
  "fifo_send x q =
     (if fq_receivers q = 0 then (Some (Closed x), q)
      else if length (fq_items q) < fq_capacity q then (None, q\<lparr>fq_items := fq_items q @ [x]\<rparr>)
      else (Some (Full x), q))"

definition fifo_no_items :: "'a fifo \<Rightarrow> try_recv_error" where
  "fifo_no_items q = (if fq_senders q = 0 then Disconnected else Empty)"

definition fifo_recv :: "'a fifo \<Rightarrow> (try_recv_error + 'a) \<times> 'a fifo" where
  "fifo_recv q = (case fq_items q of [] \<Rightarrow> (Inl (fifo_no_items q), q) | x # xs \<Rightarrow> (Inr x, q\<lparr>fq_items := xs\<rparr>))"

definition fifo_send_batch :: "'a list \<Rightarrow> nat \<Rightarrow> 'a fifo \<Rightarrow> (nat \<times> batch_send_error_reason option) \<times> 'a list \<times> 'a fifo" where
  "fifo_send_batch ys limit q =
     (if limit = 0 then ((0, None), ys, q)
      else if fq_receivers q = 0 then ((0, Some BatchClosed), ys, q)
      else let k = min limit (fq_capacity q - length (fq_items q)) in
        ((k, if k = limit then None else Some BatchFull), drop k ys, q\<lparr>fq_items := fq_items q @ take k ys\<rparr>))"

definition fifo_recv_batch :: "'a list \<Rightarrow> nat \<Rightarrow> 'a fifo \<Rightarrow> (try_recv_error + nat) \<times> 'a list \<times> 'a fifo" where
  "fifo_recv_batch out mx q =
     (let k = min mx (length (fq_items q)) in
      (if k = 0 \<and> mx > 0 then Inl (fifo_no_items q) else Inr k, out @ take k (fq_items q), q\<lparr>fq_items := drop k (fq_items q)\<rparr>))"

text \<open>What a closed handle answers, and what an open one answers for the queue.\<close>

fun refusal :: "'a call \<Rightarrow> 'a reply" where
  "refusal (Try_Send x) = Sent_Reply (Some (Closed x))"
| "refusal Try_Recv = Received (Inl Disconnected)"
| "refusal (Try_Send_Batch xs) = Batch_Sent 0 (if xs = [] then None else Some BatchClosed) xs"
| "refusal (Try_Recv_Batch mx) = Batch_Received (if mx = 0 then Inr 0 else Inl Disconnected) []"

fun fifo_answer :: "'a call \<Rightarrow> 'a fifo \<Rightarrow> 'a reply \<times> 'a fifo" where
  "fifo_answer (Try_Send x) q = (let (r, q) = fifo_send x q in (Sent_Reply r, q))"
| "fifo_answer Try_Recv q = (let (r, q) = fifo_recv q in (Received r, q))"
| "fifo_answer (Try_Send_Batch xs) q = (let ((k, reason), rest, q) = fifo_send_batch xs (length xs) q in (Batch_Sent k reason rest, q))"
| "fifo_answer (Try_Recv_Batch mx) q = (let (r, out, q) = fifo_recv_batch [] mx q in (Batch_Received r out, q))"

definition fifo_call :: "bool \<Rightarrow> 'a call \<Rightarrow> 'a fifo \<Rightarrow> 'a reply \<times> 'a fifo" where
  "fifo_call closed c q = (if closed then (refusal c, q) else fifo_answer c q)"

subsection \<open>What the model stores\<close>

definition uring_items :: "'a uring \<Rightarrow> 'a list" where
  "uring_items r = map (\<lambda>i. the (ur_buffer r ! unat ((ur_head r + of_nat i) AND ur_mask r))) [0..<unat (uring_len r)]"

lemma uring_items_ok: "uring_ok k xs r \<Longrightarrow> uring_items r = xs"
proof -
  assume ok: "uring_ok k xs r"
  obtain H where h: "k < 64" "ur_mask r = of_nat (2 ^ k) - 1" "ur_head r = of_nat H" "ring_holds (ur_buffer r) k H xs" using ok by (rule uring_okE)
  have "unat ((ur_head r + of_nat i) AND ur_mask r) = (H + i) mod 2 ^ k" for i
    using mask_pos [OF h(1), of "H + i"] unfolding h(2,3) by (simp del: of_nat_power)
  then show ?thesis using h(4) uring_len_ok [OF ok] by (auto simp: uring_items_def ring_holds_def intro!: nth_equalityI)
qed

definition mpmc_items :: "('a, 't, 'w, 'p) mpmc \<Rightarrow> 'a list" where
  "mpmc_items s = uring_items (mc_queue s)"

definition mpmc_fifo :: "('a, 't, 'w, 'p) mpmc \<Rightarrow> 'a fifo" where
  "mpmc_fifo s = \<lparr>fq_items = mpmc_items s, fq_capacity = mc_capacity s, fq_senders = mc_sender_count s, fq_receivers = mc_receiver_count s\<rparr>"

definition mpmc_ok :: "('a, 't, 'w, 'p) mpmc \<Rightarrow> bool" where
  "mpmc_ok s \<longleftrightarrow> (\<exists>k. uring_ok k (mpmc_items s) (mc_queue s) \<and> mc_capacity s \<le> 2 ^ k) \<and>
     mc_queue_len s = length (mpmc_items s) \<and> length (mpmc_items s) \<le> mc_capacity s \<and> 0 < mc_capacity s"

text \<open>Neither looks at the waiters, the flags or the wake-ups.\<close>

lemma mpmc_items_simps [simp]:
  "mpmc_items (s\<lparr>mc_sync_senders := a\<rparr>) = mpmc_items s" "mpmc_items (s\<lparr>mc_async_senders := b\<rparr>) = mpmc_items s"
  "mpmc_items (s\<lparr>mc_sync_receivers := a\<rparr>) = mpmc_items s" "mpmc_items (s\<lparr>mc_async_receivers := b\<rparr>) = mpmc_items s"
  "mpmc_items (s\<lparr>mc_sender_count := n\<rparr>) = mpmc_items s" "mpmc_items (s\<lparr>mc_receiver_count := n\<rparr>) = mpmc_items s"
  "mpmc_items (s\<lparr>mc_cells := c\<rparr>) = mpmc_items s" "mpmc_items (s\<lparr>mc_woken := v\<rparr>) = mpmc_items s"
  "mpmc_items (s\<lparr>mc_queue_len := n\<rparr>) = mpmc_items s" "mpmc_items (s\<lparr>mc_queue := q\<rparr>) = uring_items q"
  by (simp_all add: mpmc_items_def)

lemma mpmc_ok_simps [simp]:
  "mpmc_ok (s\<lparr>mc_sync_senders := a\<rparr>) = mpmc_ok s" "mpmc_ok (s\<lparr>mc_async_senders := b\<rparr>) = mpmc_ok s"
  "mpmc_ok (s\<lparr>mc_sync_receivers := a\<rparr>) = mpmc_ok s" "mpmc_ok (s\<lparr>mc_async_receivers := b\<rparr>) = mpmc_ok s"
  "mpmc_ok (s\<lparr>mc_sender_count := n\<rparr>) = mpmc_ok s" "mpmc_ok (s\<lparr>mc_receiver_count := n\<rparr>) = mpmc_ok s"
  "mpmc_ok (s\<lparr>mc_cells := c\<rparr>) = mpmc_ok s" "mpmc_ok (s\<lparr>mc_woken := v\<rparr>) = mpmc_ok s"
  by (simp_all add: mpmc_ok_def)

lemma mpmc_fifo_simps [simp]:
  "mpmc_fifo (s\<lparr>mc_sync_senders := a\<rparr>) = mpmc_fifo s" "mpmc_fifo (s\<lparr>mc_async_senders := b\<rparr>) = mpmc_fifo s"
  "mpmc_fifo (s\<lparr>mc_sync_receivers := a\<rparr>) = mpmc_fifo s" "mpmc_fifo (s\<lparr>mc_async_receivers := b\<rparr>) = mpmc_fifo s"
  "mpmc_fifo (s\<lparr>mc_cells := c\<rparr>) = mpmc_fifo s" "mpmc_fifo (s\<lparr>mc_woken := v\<rparr>) = mpmc_fifo s"
  by (simp_all add: mpmc_fifo_def)

lemma wake_simps [simp]:
  "mpmc_fifo (wake f w s) = mpmc_fifo s" "mpmc_ok (wake f w s) = mpmc_ok s" "mc_queue_len (wake f w s) = mc_queue_len s" "mc_capacity (wake f w s) = mc_capacity s"
  "mc_cells (wake f w s) = mc_cells s" "mc_sync_senders (wake f w s) = mc_sync_senders s" "mc_async_senders (wake f w s) = mc_async_senders s"
  "mc_sync_receivers (wake f w s) = mc_sync_receivers s" "mc_async_receivers (wake f w s) = mc_async_receivers s"
  "mc_sender_count (wake f w s) = mc_sender_count s" "mc_receiver_count (wake f w s) = mc_receiver_count s"
  by (simp_all add: wake_def)

lemma wake_one_simps [simp]:
  "mpmc_fifo (wake_one a b s) = mpmc_fifo s" "mpmc_ok (wake_one a b s) = mpmc_ok s" "mc_queue_len (wake_one a b s) = mc_queue_len s" "mc_capacity (wake_one a b s) = mc_capacity s"
  "mc_cells (wake_one a b s) = mc_cells s" "mc_sync_senders (wake_one a b s) = mc_sync_senders s" "mc_async_senders (wake_one a b s) = mc_async_senders s"
  "mc_sync_receivers (wake_one a b s) = mc_sync_receivers s" "mc_async_receivers (wake_one a b s) = mc_async_receivers s"
  "mc_sender_count (wake_one a b s) = mc_sender_count s" "mc_receiver_count (wake_one a b s) = mc_receiver_count s"
  by (simp_all add: wake_one_def split: option.split)

lemma fold_wake_simps [simp]:
  "mpmc_fifo (fold (wake f) ws s) = mpmc_fifo s" "mpmc_ok (fold (wake f) ws s) = mpmc_ok s" "mc_cells (fold (wake f) ws s) = mc_cells s"
  "mc_sync_senders (fold (wake f) ws s) = mc_sync_senders s" "mc_async_senders (fold (wake f) ws s) = mc_async_senders s"
  "mc_sync_receivers (fold (wake f) ws s) = mc_sync_receivers s" "mc_async_receivers (fold (wake f) ws s) = mc_async_receivers s"
  "mc_sender_count (fold (wake f) ws s) = mc_sender_count s" "mc_receiver_count (fold (wake f) ws s) = mc_receiver_count s"
  by (induction ws arbitrary: s) simp_all

lemma flag_simps [simp]:
  "mpmc_fifo (queue_flag p s) = mpmc_fifo s" "mpmc_ok (queue_flag p s) = mpmc_ok s" "mpmc_fifo (free_flag p s) = mpmc_fifo s" "mpmc_ok (free_flag p s) = mpmc_ok s"
  by (simp_all add: queue_flag_def free_flag_def)

lemma mpmc_okE:
  assumes "mpmc_ok s"
  obtains k where "uring_ok k (mpmc_items s) (mc_queue s)" "mc_capacity s \<le> 2 ^ k" "mc_queue_len s = length (mpmc_items s)"
    "length (mpmc_items s) \<le> mc_capacity s" "0 < mc_capacity s" "length (mpmc_items s) < 2 ^ 64"
  using assms uring_okE unfolding mpmc_ok_def by (metis (no_types, lifting))

lemma mpmc_okI:
  "uring_ok k xs q \<Longrightarrow> mc_capacity s \<le> 2 ^ k \<Longrightarrow> length xs \<le> mc_capacity s \<Longrightarrow> 0 < mc_capacity s \<Longrightarrow>
   mpmc_ok (s\<lparr>mc_queue := q, mc_queue_len := length xs\<rparr>) \<and> mpmc_items (s\<lparr>mc_queue := q, mc_queue_len := length xs\<rparr>) = xs"
  by (auto simp: mpmc_ok_def uring_items_ok)

lemma mpmc_new_ok:
  assumes "0 < capacity" "capacity \<le> 2 ^ 63"
  obtains s :: "('a, 't, 'w, 'p) mpmc" where "mpmc_new capacity = Some s" "mpmc_ok s" "mpmc_items s = []" "mc_capacity s = capacity" "mc_sender_count s = 1" "mc_receiver_count s = 1"
    "mc_sync_senders s = []" "mc_async_senders s = []" "mc_sync_receivers s = []" "mc_async_receivers s = []" "mc_cells s = Map.empty"
proof -
  obtain k and r :: "'a uring" where r: "uring_new capacity = Some r" "uring_ok k [] r" "capacity \<le> 2 ^ k" using uring_new_ok [OF assms] .
  then show ?thesis using that assms uring_items_ok [OF r(2)] by (auto simp: mpmc_new_def mpmc_ok_def mpmc_items_def)
qed

lemma mpmc_push_ok:
  assumes "mpmc_ok s" "length (mpmc_items s) < mc_capacity s"
  obtains q where "mpmc_push x s = Some (s\<lparr>mc_queue := q, mc_queue_len := length (mpmc_items s) + 1\<rparr>)"
    "mpmc_ok (s\<lparr>mc_queue := q, mc_queue_len := length (mpmc_items s) + 1\<rparr>)" "uring_items q = mpmc_items s @ [x]"
proof -
  obtain k where k: "uring_ok k (mpmc_items s) (mc_queue s)" "mc_capacity s \<le> 2 ^ k" "mc_queue_len s = length (mpmc_items s)" "0 < mc_capacity s"
    using assms(1) by (rule mpmc_okE)
  have l: "length (mpmc_items s) < 2 ^ k" using assms(2) k(2) by simp
  obtain q where q: "uring_push x (mc_queue s) = Some (None, q)" "uring_ok k (mpmc_items s @ [x]) q" using uring_push_ok(2) [OF k(1) l] by blast
  have "length (mpmc_items s @ [x]) < 2 ^ 64" using q(2) by (rule uring_okE)
  then have "u64_add (mc_queue_len s) 1 = length (mpmc_items s) + 1" using k(3) by simp
  then have "mpmc_push x s = Some (s\<lparr>mc_queue := q, mc_queue_len := length (mpmc_items s) + 1\<rparr>)" using q(1) by (simp add: mpmc_push_def mpmc_push_back_def)
  moreover have "mpmc_ok (s\<lparr>mc_queue := q, mc_queue_len := length (mpmc_items s) + 1\<rparr>)" using mpmc_okI [OF q(2), of s] k assms(2) by simp
  ultimately show ?thesis using that uring_items_ok [OF q(2)] by blast
qed

lemma mpmc_pop_front_ok:
  assumes ok: "mpmc_ok s"
  shows "mpmc_items s = [] \<Longrightarrow> mpmc_pop_front s = Some (None, s)"
    "mpmc_items s = x # xs \<Longrightarrow> \<exists>q. mpmc_pop_front s = Some (Some x, s\<lparr>mc_queue := q, mc_queue_len := length xs\<rparr>) \<and>
       mpmc_ok (s\<lparr>mc_queue := q, mc_queue_len := length xs\<rparr>) \<and> uring_items q = xs"
proof -
  obtain k where k: "uring_ok k (mpmc_items s) (mc_queue s)" "mc_capacity s \<le> 2 ^ k" "mc_queue_len s = length (mpmc_items s)" "0 < mc_capacity s"
    "length (mpmc_items s) \<le> mc_capacity s" "length (mpmc_items s) < 2 ^ 64" using ok by (rule mpmc_okE)
  show "mpmc_items s = [] \<Longrightarrow> mpmc_pop_front s = Some (None, s)" using k(1) uring_pop_ok(1) by (fastforce simp: mpmc_pop_front_def)
  assume x: "mpmc_items s = x # xs"
  obtain q where q: "uring_pop (mc_queue s) = Some (Some x, q)" "uring_ok k xs q" using uring_pop_ok(2) [of k x xs] k(1) x by auto
  have "u64_sub (mc_queue_len s) 1 = length xs" using k(3,6) x by simp
  then show "\<exists>q. mpmc_pop_front s = Some (Some x, s\<lparr>mc_queue := q, mc_queue_len := length xs\<rparr>) \<and>
       mpmc_ok (s\<lparr>mc_queue := q, mc_queue_len := length xs\<rparr>) \<and> uring_items q = xs"
    using q mpmc_okI [OF q(2), of s] k(2,4,5) x uring_items_ok [OF q(2)] by (auto simp: mpmc_pop_front_def)
qed

lemma drain_items_ok: "uring_ok k xs q \<Longrightarrow> n \<le> length xs \<Longrightarrow> \<exists>q'. drain_items n q = Some (take n xs, q') \<and> uring_ok k (drop n xs) q'"
proof (induction n arbitrary: xs q)
  case 0
  then show ?case by simp
next
  case (Suc n)
  then obtain x ys where xs: "xs = x # ys" by (cases xs) auto
  obtain q1 where "uring_pop q = Some (Some x, q1)" "uring_ok k ys q1" using uring_pop_ok(2) [of k x ys q] Suc.prems(1) xs by auto
  moreover obtain q2 where "drain_items n q1 = Some (take n ys, q2)" "uring_ok k (drop n ys) q2" using Suc.IH [OF calculation(2)] Suc.prems(2) xs by auto
  ultimately show ?case using xs by simp
qed

lemma mpmc_drain_into_ok:
  assumes ok: "mpmc_ok s" and n: "n \<le> length (mpmc_items s)"
  obtains q where "mpmc_drain_into out n s = Some (out @ take n (mpmc_items s), s\<lparr>mc_queue := q, mc_queue_len := length (mpmc_items s) - n\<rparr>)"
    "mpmc_ok (s\<lparr>mc_queue := q, mc_queue_len := length (mpmc_items s) - n\<rparr>)" "uring_items q = drop n (mpmc_items s)"
proof -
  obtain k where k: "uring_ok k (mpmc_items s) (mc_queue s)" "mc_capacity s \<le> 2 ^ k" "mc_queue_len s = length (mpmc_items s)" "0 < mc_capacity s"
    "length (mpmc_items s) \<le> mc_capacity s" "length (mpmc_items s) < 2 ^ 64" using ok by (rule mpmc_okE)
  obtain q where q: "drain_items n (mc_queue s) = Some (take n (mpmc_items s), q)" "uring_ok k (drop n (mpmc_items s)) q" using drain_items_ok [OF k(1) n] by blast
  have "u64_sub (mc_queue_len s) n = length (mpmc_items s) - n" using k(3,6) n by simp
  then have "mpmc_drain_into out n s = Some (out @ take n (mpmc_items s), s\<lparr>mc_queue := q, mc_queue_len := length (mpmc_items s) - n\<rparr>)"
    using q(1) by (simp add: mpmc_drain_into_def)
  moreover have "mpmc_ok (s\<lparr>mc_queue := q, mc_queue_len := length (mpmc_items s) - n\<rparr>)" using mpmc_okI [OF q(2), of s] k(2,4,5) by simp
  ultimately show ?thesis using that uring_items_ok [OF q(2)] by blast
qed

lemma mpmc_is_full_ok: "mpmc_ok s \<Longrightarrow> mpmc_is_full s \<longleftrightarrow> length (mpmc_items s) = mc_capacity s"
  by (auto simp: mpmc_is_full_def mpmc_ok_def)

lemma mpmc_is_empty_ok: "mpmc_ok s \<Longrightarrow> mpmc_is_empty s \<longleftrightarrow> mpmc_items s = []"
  by (auto simp: mpmc_is_empty_def mpmc_ok_def)

lemma mpmc_ring_is_empty_ok: "mpmc_ok s \<Longrightarrow> uring_is_empty (mc_queue s) \<longleftrightarrow> mpmc_items s = []"
  by (auto simp: mpmc_ok_def dest: uring_is_empty_ok)

subsection \<open>Refinement of the operations\<close>

text \<open>A notification changes only flags and queues of waiters, and finds nobody in a full channel.\<close>

lemma notify_receiver_frame:
  "notify_receiver f g s = Some (wk, th, s') \<Longrightarrow>
     (\<exists>ar sr c. s' = s\<lparr>mc_async_receivers := ar, mc_sync_receivers := sr, mc_cells := c\<rparr>) \<and> (wk \<noteq> None \<or> th \<noteq> None \<longrightarrow> \<not> mpmc_is_full s)"
proof (cases "mpmc_is_full s")
  case True
  assume "notify_receiver f g s = Some (wk, th, s')"
  then show ?thesis using True by (auto simp: notify_receiver_def intro!: exI [of _ "mc_async_receivers s"] exI [of _ "mc_sync_receivers s"] exI [of _ "mc_cells s"])
next
  case False
  assume "notify_receiver f g s = Some (wk, th, s')"
  then consider (async) ws c where "s' = s\<lparr>mc_async_receivers := ws, mc_cells := c\<rparr>" | (sync) ws ws' c where "s' = s\<lparr>mc_async_receivers := ws, mc_sync_receivers := ws', mc_cells := c\<rparr>"
    using False by (auto simp: notify_receiver_def Let_def split: Option.bind_splits if_splits)
  then show ?thesis
  proof cases
    case async
    then show ?thesis using False by (auto intro!: exI [of _ ws] exI [of _ "mc_sync_receivers s"] exI [of _ c])
  qed (use False in blast)
qed

lemma notify_receiver_fifo:
  assumes "notify_receiver f g s = Some (wk, th, s')" "mpmc_ok s"
  shows "mpmc_ok s'" "mpmc_fifo s' = mpmc_fifo s" "wk \<noteq> None \<or> th \<noteq> None \<Longrightarrow> length (mpmc_items s) < mc_capacity s"
proof -
  obtain ar sr c where s': "s' = s\<lparr>mc_async_receivers := ar, mc_sync_receivers := sr, mc_cells := c\<rparr>" "wk \<noteq> None \<or> th \<noteq> None \<longrightarrow> \<not> mpmc_is_full s"
    using notify_receiver_frame [OF assms(1)] by (elim conjE exE)
  then show "mpmc_ok s'" "mpmc_fifo s' = mpmc_fifo s" using assms(2) by simp_all
  show "length (mpmc_items s) < mc_capacity s" if "wk \<noteq> None \<or> th \<noteq> None"
    using s'(2) that mpmc_is_full_ok [OF assms(2)] assms(2) by (auto simp: mpmc_ok_def)
qed

lemma notify_sender_fifo:
  assumes "notify_sender s = Some s'"
  shows "mpmc_ok s' = mpmc_ok s" "mpmc_fifo s' = mpmc_fifo s"
  using assms by (auto simp: notify_sender_def Let_def split: Option.bind_splits if_splits)

lemma notify_senders_fifo:
  assumes "notify_senders n s = Some s'"
  shows "mpmc_ok s' = mpmc_ok s" "mpmc_fifo s' = mpmc_fifo s"
  using assms by (auto simp: notify_senders_def Let_def split: Option.bind_splits)

lemma mpmc_fifo_sel [simp]:
  "fq_items (mpmc_fifo s) = mpmc_items s" "fq_capacity (mpmc_fifo s) = mc_capacity s" "fq_senders (mpmc_fifo s) = mc_sender_count s" "fq_receivers (mpmc_fifo s) = mc_receiver_count s"
  by (simp_all add: mpmc_fifo_def)

lemma mpmc_fifo_queue [simp]: "mpmc_fifo (s\<lparr>mc_queue := q, mc_queue_len := n\<rparr>) = (mpmc_fifo s)\<lparr>fq_items := uring_items q\<rparr>"
  by (simp add: mpmc_fifo_def mpmc_items_def)

lemma mpmc_push_fifo:
  assumes "mpmc_push x s = Some s'" "mpmc_ok s" "length (mpmc_items s) < mc_capacity s"
  shows "mpmc_ok s'" "mpmc_fifo s' = (mpmc_fifo s)\<lparr>fq_items := mpmc_items s @ [x]\<rparr>"
  using mpmc_push_ok [OF assms(2,3), of x] assms(1) by (metis mpmc_fifo_queue option.inject)+

lemma fifo_same: "mpmc_fifo s' = mpmc_fifo s \<Longrightarrow>
  mpmc_items s' = mpmc_items s \<and> mc_capacity s' = mc_capacity s \<and> mc_sender_count s' = mc_sender_count s \<and> mc_receiver_count s' = mc_receiver_count s"
  by (simp add: mpmc_fifo_def)

lemma try_send_core_fifo:
  assumes "try_send_core x s = Some (r, s')" "mpmc_ok s"
  shows "mpmc_ok s' \<and> fifo_send x (mpmc_fifo s) = (r, mpmc_fifo s')"
proof (cases "mc_receiver_count s = 0")
  case False
  then obtain wk th s1 where n: "notify_receiver notify_first notify_first s = Some (wk, th, s1)"
    and c: "(if wk \<noteq> None \<or> th \<noteq> None then do { s \<leftarrow> mpmc_push x s1; Some (None, wake_one wk th s) }
         else if mc_capacity s1 = 0 then Some (Some (Full x), s1)
         else if mc_queue_len s1 < mc_capacity s1 then do { s \<leftarrow> mpmc_push x s1; Some (None, s) }
         else Some (Some (Full x), s1)) = Some (r, s')"
    using assms(1) by (auto simp: try_send_core_def split: Option.bind_splits)
  note f = notify_receiver_fifo [OF n assms(2)]
  note e = fifo_same [OF f(2)]
  have "mc_queue_len s1 = length (mpmc_items s1)" "0 < mc_capacity s1" using f(1) by (auto simp: mpmc_ok_def)
  then show ?thesis using c False f e mpmc_push_fifo [OF _ f(1), of x] by (auto simp: fifo_send_def split: if_splits Option.bind_splits)
qed (use assms in \<open>auto simp: try_send_core_def fifo_send_def\<close>)

lemma try_recv_core_fifo:
  assumes "try_recv_core s = Some (r, s')" "mpmc_ok s"
  shows "mpmc_ok s' \<and> fifo_recv (mpmc_fifo s) = (r, mpmc_fifo s')"
proof (cases "mpmc_items s")
  case Nil
  then show ?thesis using assms mpmc_pop_front_ok(1) [OF assms(2)] by (auto simp: try_recv_core_def fifo_recv_def fifo_no_items_def)
next
  case (Cons x xs)
  obtain q where q: "mpmc_pop_front s = Some (Some x, s\<lparr>mc_queue := q, mc_queue_len := length xs\<rparr>)" "mpmc_ok (s\<lparr>mc_queue := q, mc_queue_len := length xs\<rparr>)" "uring_items q = xs"
    using mpmc_pop_front_ok(2) [OF assms(2) Cons] by blast
  then have n: "notify_sender (s\<lparr>mc_queue := q, mc_queue_len := length xs\<rparr>) = Some s'" "r = Inr x"
    using assms by (auto simp: try_recv_core_def mpmc_ok_def split: Option.bind_splits)
  show ?thesis using notify_sender_fifo [OF n(1)] n(2) q(2,3) Cons by (simp add: fifo_recv_def)
qed

lemma send_batch_loop_fifo:
  assumes "send_batch_loop n sent iter s = Some (sent', iter', s')" "mpmc_ok s"
  shows "mpmc_ok s' \<and> (\<exists>k. k = min n (mc_capacity s - length (mpmc_items s)) \<and> k \<le> length iter \<and> sent' = sent + k \<and> iter' = drop k iter \<and>
     mpmc_fifo s' = (mpmc_fifo s)\<lparr>fq_items := mpmc_items s @ take k iter\<rparr>)"
  using assms
proof (induction n arbitrary: sent iter s)
  case 0
  then show ?case by (auto simp: mpmc_fifo_def)
next
  case (Suc n)
  obtain wk th s1 where n: "notify_receiver pop_first pop_first s = Some (wk, th, s1)" using Suc.prems(1) by (auto split: Option.bind_splits)
  note f = notify_receiver_fifo [OF n Suc.prems(2)]
  note e = fifo_same [OF f(2)]
  have l: "mc_queue_len s1 = length (mpmc_items s1)" "0 < mc_capacity s1" "length (mpmc_items s1) \<le> mc_capacity s1" using f(1) by (auto simp: mpmc_ok_def)
  show ?case
  proof (cases "length (mpmc_items s) < mc_capacity s")
    case True
    then obtain x ys where i: "iter = x # ys" using Suc.prems(1) n e l by (cases iter) (auto split: Option.bind_splits if_splits)
    obtain s2 where x2: "mpmc_push x s1 = Some s2" using Suc.prems(1) n True e l i by (auto split: Option.bind_splits if_splits)
    define s3 where "s3 = (if wk \<noteq> None \<or> th \<noteq> None then wake_one wk th s2 else s2)"
    have x: "iter = x # ys" "mpmc_push x s1 = Some s2" "s3 = s2 \<or> s3 = wake_one wk th s2" "send_batch_loop n (Suc sent) ys s3 = Some (sent', iter', s')"
      using Suc.prems(1) n True e l i x2 by (auto simp: s3_def split: if_splits)
    have p: "mpmc_ok s2" "mpmc_fifo s2 = (mpmc_fifo s)\<lparr>fq_items := mpmc_items s @ [x]\<rparr>" using mpmc_push_fifo [OF x(2) f(1)] True f(2) e by auto
    then have 3: "mpmc_ok s3" "mpmc_fifo s3 = (mpmc_fifo s)\<lparr>fq_items := mpmc_items s @ [x]\<rparr>" using x(3) by auto
    then have i: "mpmc_items s3 = mpmc_items s @ [x]" "mc_capacity s3 = mc_capacity s" by (simp_all add: mpmc_fifo_def)
    have k: "min (Suc n) (mc_capacity s - length (mpmc_items s)) = Suc (min n (mc_capacity s3 - length (mpmc_items s3)))" using True i by auto
    show ?thesis using Suc.IH [OF x(4) 3(1)] 3(2) i x(1) unfolding k by auto
  next
    case False
    then have "sent' = sent \<and> iter' = iter \<and> s' = s1" using Suc.prems(1) n f(3) e l by (auto split: if_splits)
    then show ?thesis using False f by (auto simp: mpmc_fifo_def)
  qed
qed

lemma try_send_batch_core_fifo:
  assumes "try_send_batch_core iter limit s = Some (r, iter', s')" "mpmc_ok s"
  shows "mpmc_ok s' \<and> fifo_send_batch iter limit (mpmc_fifo s) = (r, iter', mpmc_fifo s') \<and> (\<exists>k. fst r = k \<and> k \<le> length iter)"
proof (cases "limit = 0 \<or> mc_receiver_count s = 0")
  case False
  then obtain sent where "send_batch_loop limit 0 iter s = Some (sent, iter', s')" "r = (sent, if sent = limit then None else Some BatchFull)"
    using assms(1) by (auto simp: try_send_batch_core_def split: Option.bind_splits)
  then show ?thesis using send_batch_loop_fifo [OF _ assms(2)] False by (fastforce simp: fifo_send_batch_def Let_def)
qed (use assms in \<open>auto simp: try_send_batch_core_def fifo_send_batch_def\<close>)

lemma try_recv_batch_core_fifo:
  assumes "try_recv_batch_core out mx s = Some (r, out', s')" "mpmc_ok s"
  shows "mpmc_ok s' \<and> fifo_recv_batch out mx (mpmc_fifo s) = (r, out', mpmc_fifo s')"
proof (cases "min mx (mc_queue_len s) = 0")
  case True
  have "mc_queue_len s = length (mpmc_items s)" using assms(2) by (simp add: mpmc_ok_def)
  then show ?thesis using True assms by (auto simp: try_recv_batch_core_def fifo_recv_batch_def fifo_no_items_def mpmc_fifo_def Let_def split: if_splits)
next
  case False
  let ?n = "min mx (length (mpmc_items s))"
  have l: "mc_queue_len s = length (mpmc_items s)" "0 < mc_capacity s" using assms(2) by (simp_all add: mpmc_ok_def)
  obtain q where q: "mpmc_drain_into out ?n s = Some (out @ take ?n (mpmc_items s), s\<lparr>mc_queue := q, mc_queue_len := length (mpmc_items s) - ?n\<rparr>)"
    "mpmc_ok (s\<lparr>mc_queue := q, mc_queue_len := length (mpmc_items s) - ?n\<rparr>)" "uring_items q = drop ?n (mpmc_items s)"
    using mpmc_drain_into_ok [OF assms(2), of ?n out] by auto
  have n: "notify_senders (?n + (mx - ?n)) (s\<lparr>mc_queue := q, mc_queue_len := length (mpmc_items s) - ?n\<rparr>) = Some s'" "r = Inr ?n" "out' = out @ take ?n (mpmc_items s)"
    using assms(1) False q(1) l by (auto simp: try_recv_batch_core_def Let_def split: Option.bind_splits)
  show ?thesis using notify_senders_fifo [OF n(1)] n(2,3) q(2,3) False l by (auto simp: fifo_recv_batch_def Let_def)
qed

text \<open>A call either enters the channel or answers at once and leaves it alone.\<close>

lemma mpmc_call_at_once:
  assumes "closed \<or> c = Try_Send_Batch [] \<or> c = Try_Recv_Batch 0"
  shows "mpmc_call closed c s = Some (refusal c, s)"
  using assms by (cases c) auto

lemma mpmc_call_fifo:
  assumes "mpmc_call closed c s = Some (r, s')" "mpmc_ok s"
  shows "mpmc_ok s' \<and> fifo_call closed c (mpmc_fifo s) = (r, mpmc_fifo s')"
proof (cases "closed \<or> c = Try_Send_Batch [] \<or> c = Try_Recv_Batch 0")
  case True
  then show ?thesis using mpmc_call_at_once [OF True, of s] assms by (auto simp: fifo_call_def fifo_send_batch_def fifo_recv_batch_def)
next
  case False
  then show ?thesis
  proof (cases c)
    case (Try_Send x)
    then show ?thesis using assms False by (auto simp: fifo_call_def split: Option.bind_splits dest!: try_send_core_fifo)
  next
    case Try_Recv
    then show ?thesis using assms False by (auto simp: fifo_call_def split: Option.bind_splits dest!: try_recv_core_fifo)
  next
    case (Try_Send_Batch xs)
    then show ?thesis using assms False by (auto simp: fifo_call_def split: Option.bind_splits dest!: try_send_batch_core_fifo)
  next
    case (Try_Recv_Batch mx)
    then show ?thesis using assms False by (auto simp: fifo_call_def split: Option.bind_splits dest!: try_recv_batch_core_fifo)
  qed
qed

subsection \<open>Every step moves items in order\<close>

definition moves :: "('a, 't, 'w, 'p) mpmc \<Rightarrow> 'a list \<Rightarrow> 'a list \<Rightarrow> ('a, 't, 'w, 'p) mpmc \<Rightarrow> bool" where
  "moves s xs ys s' \<longleftrightarrow> mpmc_ok s' \<and> mpmc_items s @ xs = ys @ mpmc_items s' \<and> mc_capacity s' = mc_capacity s"

lemma moves_frame: "mpmc_ok s \<Longrightarrow> mpmc_ok s' = mpmc_ok s \<Longrightarrow> mpmc_fifo s' = mpmc_fifo s \<Longrightarrow> moves s [] [] s'"
  by (auto simp: moves_def dest: fifo_same)

lemma moves_free [simp]: "moves s xs ys (free_flag p s') = moves s xs ys s'" "moves s xs ys (queue_flag p s') = moves s xs ys s'"
  by (simp_all add: moves_def free_flag_def queue_flag_def)

lemma moves_self: "mpmc_ok s \<Longrightarrow> moves s [] [] s"
  by (simp add: moves_def)

lemma moves_send: "try_send_core x s = Some (r, s') \<Longrightarrow> mpmc_ok s \<Longrightarrow> moves s (if r = None then [x] else []) [] s'"
  by (drule (1) try_send_core_fifo) (auto simp: moves_def fifo_send_def mpmc_fifo_def split: if_splits)

lemma moves_recv: "try_recv_core s = Some (r, s') \<Longrightarrow> mpmc_ok s \<Longrightarrow> moves s [] (case r of Inr x \<Rightarrow> [x] | Inl _ \<Rightarrow> []) s'"
  by (drule (1) try_recv_core_fifo) (auto simp: moves_def fifo_recv_def mpmc_fifo_def split: list.splits)

lemma moves_send_batch:
  "try_send_batch_core iter limit s = Some ((k, reason), iter', s') \<Longrightarrow> mpmc_ok s \<Longrightarrow> moves s (take k iter) [] s' \<and> iter' = drop k iter \<and> k \<le> length iter \<and> k \<le> limit"
  by (drule (1) try_send_batch_core_fifo) (auto simp: moves_def fifo_send_batch_def mpmc_fifo_def Let_def split: if_splits)

lemma moves_recv_batch:
  "try_recv_batch_core out mx s = Some (r, out', s') \<Longrightarrow> mpmc_ok s \<Longrightarrow> moves s [] (drop (length out) out') s' \<and> (\<forall>e. r = Inl e \<longrightarrow> out' = out)"
  by (drule (1) try_recv_batch_core_fifo) (auto simp: moves_def fifo_recv_batch_def mpmc_fifo_def Let_def split: if_splits, metis append_take_drop_id)

lemma park_fifo:
  "park_sync_sender t p s = (r, s') \<Longrightarrow> mpmc_ok s' = mpmc_ok s \<and> mpmc_fifo s' = mpmc_fifo s"
  "park_async_sender w p s = (r, s') \<Longrightarrow> mpmc_ok s' = mpmc_ok s \<and> mpmc_fifo s' = mpmc_fifo s"
  "park_sync_receiver t p s = (r, s') \<Longrightarrow> mpmc_ok s' = mpmc_ok s \<and> mpmc_fifo s' = mpmc_fifo s"
  "park_async_receiver w p s = (r, s') \<Longrightarrow> mpmc_ok s' = mpmc_ok s \<and> mpmc_fifo s' = mpmc_fifo s"
  by (auto simp: park_sync_sender_def park_async_sender_def park_sync_receiver_def park_async_receiver_def split: if_splits)

lemma moves_park:
  "park_sync_sender t p s = (r, s') \<Longrightarrow> mpmc_ok s \<Longrightarrow> moves s [] [] s'" "park_async_sender w p s = (r, s') \<Longrightarrow> mpmc_ok s \<Longrightarrow> moves s [] [] s'"
  "park_sync_receiver t p s = (r, s') \<Longrightarrow> mpmc_ok s \<Longrightarrow> moves s [] [] s'" "park_async_receiver w p s = (r, s') \<Longrightarrow> mpmc_ok s \<Longrightarrow> moves s [] [] s'"
  by (auto dest: park_fifo intro!: moves_frame)

lemma moves_fields [simp]:
  "mpmc_ok s \<Longrightarrow> moves s [] [] (s\<lparr>mc_sync_senders := a\<rparr>)" "mpmc_ok s \<Longrightarrow> moves s [] [] (s\<lparr>mc_async_senders := b\<rparr>)"
  "mpmc_ok s \<Longrightarrow> moves s [] [] (s\<lparr>mc_sync_receivers := a\<rparr>)" "mpmc_ok s \<Longrightarrow> moves s [] [] (s\<lparr>mc_async_receivers := b\<rparr>)"
  "mpmc_ok s \<Longrightarrow> moves s [] [] (s\<lparr>mc_cells := c\<rparr>)" "mpmc_ok s \<Longrightarrow> moves s [] [] (s\<lparr>mc_woken := v\<rparr>)"
  "mpmc_ok s \<Longrightarrow> moves s [] [] (s\<lparr>mc_sender_count := n\<rparr>)" "mpmc_ok s \<Longrightarrow> moves s [] [] (s\<lparr>mc_receiver_count := n\<rparr>)"
  by (simp_all add: moves_def)

lemmas move_dests = moves_park moves_send moves_recv

lemma send_sync_moves: "send_sync t p pc s = Some (pc', s') \<Longrightarrow> mpmc_ok s \<Longrightarrow> moves s (ssend_puts pc pc') [] s'"
  by (cases pc) (auto simp: ssend_puts_def moves_self split: Option.bind_splits option.splits try_send_error.splits prod.splits park.splits if_splits dest!: move_dests)

lemma recv_sync_moves: "recv_sync t p pc s = Some (pc', s') \<Longrightarrow> mpmc_ok s \<Longrightarrow> moves s [] (task_gots x (Recv_Sync t pc')) s'"
  by (cases pc) (auto simp: moves_self split: Option.bind_splits sum.splits try_recv_error.splits prod.splits park.splits if_splits dest!: move_dests)

lemma recv_batch_sync_moves: "recv_batch_sync t p pc s = Some (pc', s') \<Longrightarrow> mpmc_ok s \<Longrightarrow> moves s [] (task_gots (Recv_Batch t pc) (Recv_Batch t pc')) s'"
  by (cases pc) (auto simp: moves_self split: Option.bind_splits sum.splits try_recv_error.splits prod.splits park.splits if_splits dest!: move_dests moves_recv_batch)

lemma recv_timeout_sync_moves: "recv_timeout_sync t p e pc s = Some (pc', s') \<Longrightarrow> mpmc_ok s \<Longrightarrow> moves s [] (task_gots x (Recv_Timeout t pc')) s'"
  by (cases pc) (auto simp: moves_self split: Option.bind_splits sum.splits try_recv_error.splits prod.splits park.splits if_splits dest!: move_dests)

lemma send_future_moves: "send_future_step p pc s = Some (pc', s') \<Longrightarrow> mpmc_ok s \<Longrightarrow> moves s (fsend_puts pc pc') [] s'"
  by (cases pc) (auto simp: fsend_puts_def moves_self split: Option.bind_splits option.splits try_send_error.splits prod.splits park.splits if_splits dest!: move_dests)

lemma recv_future_moves: "recv_future_step p pc s = Some (pc', s') \<Longrightarrow> mpmc_ok s \<Longrightarrow> moves s [] (task_gots x (Recv_Future pc')) s'"
  by (cases pc) (auto simp: moves_self split: Option.bind_splits sum.splits try_recv_error.splits prod.splits park.splits if_splits dest!: move_dests)

lemma send_batch_moves: "send_batch_iter_sync t p pc s = Some (pc', s') \<Longrightarrow> mpmc_ok s \<Longrightarrow> moves s (sbatch_puts pc pc') [] s'"
proof (cases pc)
  case (SB_Pending b)
  assume h: "send_batch_iter_sync t p pc s = Some (pc', s')" and ok: "mpmc_ok s"
  show ?thesis
  proof (cases "bt_pending b")
    case (Some x)
    then obtain k reason once s1 where k: "try_send_batch_core [x] 1 s = Some ((k, reason), once, s1)" using h SB_Pending by (auto split: Option.bind_splits)
    from moves_send_batch [OF this ok] have "moves s (take k [x]) [] s1" "once = drop k [x]" "k = 0 \<or> k = 1" by auto
    then show ?thesis using h SB_Pending Some k by (auto simp: sbatch_puts_def Let_def split: if_splits)
  qed (use h ok SB_Pending in \<open>auto simp: sbatch_puts_def moves_self\<close>)
qed (auto simp: sbatch_puts_def moves_self Let_def split: Option.bind_splits prod.splits park.splits if_splits dest!: move_dests moves_send_batch)

lemma task_run_moves: "task_run p e t s = Some (t', s') \<Longrightarrow> mpmc_ok s \<Longrightarrow> moves s (task_puts t t') (task_gots t t') s'"
  by (cases t) (auto dest: send_sync_moves send_batch_moves recv_sync_moves recv_batch_sync_moves recv_timeout_sync_moves send_future_moves recv_future_moves)

lemma mpmc_call_moves:
  assumes "mpmc_call closed c s = Some (r, s')" "mpmc_ok s"
  shows "moves s (call_puts c r) (call_gots r) s'"
proof (cases "closed \<or> c = Try_Send_Batch [] \<or> c = Try_Recv_Batch 0")
  case True
  have "call_puts c (refusal c) = []" "call_gots (refusal c) = []" by (cases c; simp)+
  then show ?thesis using mpmc_call_at_once [OF True, of s] assms by (simp add: moves_self)
next
  case False
  then show ?thesis
  proof (cases c)
    case (Try_Send x)
    then obtain r0 where "try_send_core x s = Some (r0, s')" "r = Sent_Reply r0" using assms(1) False by (auto split: Option.bind_splits)
    then show ?thesis using moves_send [OF _ assms(2)] Try_Send by (cases r0) fastforce+
  next
    case Try_Recv
    then show ?thesis using assms False by (auto split: Option.bind_splits sum.splits dest!: moves_recv)
  next
    case (Try_Send_Batch xs)
    then show ?thesis using assms False by (auto split: Option.bind_splits dest!: moves_send_batch)
  next
    case (Try_Recv_Batch mx)
    then show ?thesis using assms False by (auto split: Option.bind_splits dest!: moves_recv_batch)
  qed
qed

lemma finish_waiters_fifo: "finish_waiters f st ws s = Some s' \<Longrightarrow> mpmc_ok s' = mpmc_ok s \<and> mpmc_fifo s' = mpmc_fifo s"
  by (induction ws arbitrary: s) (auto simp: finish_waiter_def split: Option.bind_splits if_splits)

lemma moves_finish: "finish_waiters f st ws s = Some s' \<Longrightarrow> moves r xs ys s' = moves r xs ys s"
  by (drule finish_waiters_fifo) (auto simp: moves_def dest: fifo_same)

lemma close_moves:
  "close_sender s = Some s' \<Longrightarrow> mpmc_ok s \<Longrightarrow> moves s [] [] s'"
  "close_receiver s = Some s' \<Longrightarrow> mpmc_ok s \<Longrightarrow> moves s [] [] s'"
  by (auto simp: close_sender_def close_receiver_def Let_def moves_finish split: Option.bind_splits if_splits)

lemma task_drop_moves: "task_drop p t s = Some (t', s') \<Longrightarrow> mpmc_ok s \<Longrightarrow> moves s [] [] s'"
proof (cases t)
  case (Send_Future pc)
  assume "task_drop p t s = Some (t', s')" "mpmc_ok s"
  then show ?thesis using Send_Future by (cases pc) (auto simp: moves_self cancel_flag_def split: Option.bind_splits if_splits)
next
  case (Recv_Future pc)
  assume "task_drop p t s = Some (t', s')" "mpmc_ok s"
  then show ?thesis using Recv_Future by (cases pc) (auto simp: moves_self cancel_flag_def split: Option.bind_splits if_splits)
qed auto

lemma moves_new_flag: "mpmc_ok s \<Longrightarrow> moves s [] [] (task_new_flag t p s)"
  by (cases t) (simp_all add: moves_self)

lemma mpmc_step_moves: "mpmc_step L w e w' \<Longrightarrow> mpmc_ok (wd_core w) \<Longrightarrow> moves (wd_core w) (fst e) (snd e) (wd_core w')"
  by (induction rule: mpmc_step.induct)
    (auto simp: moves_self moves_new_flag add_sender_def add_receiver_def task_run_moves mpmc_call_moves task_drop_moves close_moves)

lemma mpmc_bounded_ok:
  fixes w :: "('a, 't, 'w, 'p, 'h) world"
  assumes "mpmc_bounded capacity h = Some w" "capacity \<le> 2 ^ 63"
  shows "mpmc_ok (wd_core w)" "mpmc_items (wd_core w) = []" "mc_capacity (wd_core w) = capacity" "0 < capacity"
proof -
  show c: "0 < capacity" using assms(1) by (auto simp: mpmc_bounded_def split: if_splits)
  obtain s :: "('a, 't, 'w, 'p) mpmc" where "mpmc_new capacity = Some s" "mpmc_ok s" "mpmc_items s = []" "mc_capacity s = capacity" using mpmc_new_ok [OF c assms(2)] by metis
  then show "mpmc_ok (wd_core w)" "mpmc_items (wd_core w) = []" "mc_capacity (wd_core w) = capacity" using assms(1) c by (auto simp: mpmc_bounded_def)
qed

lemma mpmc_run_ok:
  assumes "mpmc_run L capacity puts gots w" "capacity \<le> 2 ^ 63"
  shows "mpmc_ok (wd_core w) \<and> puts = gots @ mpmc_items (wd_core w) \<and> mc_capacity (wd_core w) = capacity"
  using assms
proof (induction rule: mpmc_run.induct)
  case (run_new h w)
  then show ?case using mpmc_bounded_ok by fastforce
next
  case (run_step puts gots w xs ys w')
  then have "moves (wd_core w) xs ys (wd_core w')" using mpmc_step_moves [OF run_step.hyps(2)] by simp
  then show ?case using run_step by (auto simp: moves_def)
qed

lemma mpmc_drop_items: "mpmc_ok s \<Longrightarrow> map_option fst (mpmc_drop s) = Some (mpmc_items s)"
proof -
  assume "mpmc_ok s"
  then obtain k where "uring_ok k (mpmc_items s) (mc_queue s)" by (auto simp: mpmc_ok_def)
  then obtain q where "uring_clear (mc_queue s) = Some (mpmc_items s, q)" using uring_clear_ok by blast
  then show ?thesis by (simp add: mpmc_drop_def)
qed

text \<open>
  The channel is a bounded first-in first-out queue (C7). In every interleaving of any number of
  blocking calls, batches, timed receives, futures and non-blocking calls, with any liberty of the
  clients, the items put in are, in order, the items taken out followed by the items the ring holds:
  no item is lost, duplicated or reordered, and the ring never holds more than the capacity. Dropping
  the channel drops exactly the items left in it.
\<close>

theorem mpmc_fifo_delivery:
  assumes "mpmc_run L capacity puts gots w" "capacity \<le> 2 ^ 63"
  shows "puts = gots @ mpmc_items (wd_core w) \<and> length (mpmc_items (wd_core w)) \<le> capacity \<and> map_option fst (mpmc_drop (wd_core w)) = Some (mpmc_items (wd_core w))"
  using mpmc_run_ok [OF assms] mpmc_drop_items by (auto simp: mpmc_ok_def)

text \<open>Two sends, then a blocking receive that takes the first item.\<close>

lemma demo_fifo:
  obtains w where "mpmc_demo {} 2 [Call 0 (Try_Send 7), Call 0 (Try_Send 8), Start 1 (Recv_Sync 5 RS_Try), Run 1 False] = Some ([7, 8], [7], w)"
    "wd_tasks w 1 = Some (Recv_Sync 5 (RS_Done (Inr 7)))"
proof -
  have "map_option (\<lambda>(puts, gots, w). (puts, gots, wd_tasks w 1)) (mpmc_demo {} 2 [Call 0 (Try_Send 7), Call 0 (Try_Send 8), Start 1 (Recv_Sync 5 RS_Try), Run 1 False]) =
    Some ([7, 8], [7], Some (Recv_Sync 5 (RS_Done (Inr 7))))"
    by (simp add: mpmc_eval)
  then show thesis using that by auto
qed

theorem mpmc_fifo_delivery_witness:
  "\<exists>w :: (nat, nat, nat, nat, nat) world. mpmc_run {} 2 [7, 8] [7] w \<and> [7, 8] = [7] @ mpmc_items (wd_core w) \<and> length (mpmc_items (wd_core w)) \<le> 2 \<and>
     map_option fst (mpmc_drop (wd_core w)) = Some [8]"
proof -
  obtain w where w: "mpmc_demo {} 2 [Call 0 (Try_Send 7), Call 0 (Try_Send 8), Start 1 (Recv_Sync 5 RS_Try), Run 1 False] = Some ([7, 8], [7], w)" by (rule demo_fifo)
  from mpmc_fifo_delivery [OF mpmc_demo_run [OF w]] mpmc_demo_run [OF w] show ?thesis by (intro exI [of _ w]) auto
qed

end
