(* ===== verification/Mpmc_Flags.thy ===== *)
theory Mpmc_Flags
  imports Mpmc_Fifo
begin

section \<open>Waiters and their flags\<close>

text \<open>
  The queues of waiters hold raw pointers into stack frames and futures. The invariant relates, for
  each pointer, the program that owns it, its flag and the queues it is in: a queued pointer always
  belongs to a program that is waiting or about to take it out, so that its flag is alive. The
  operations under the lock return on such channels, change what other programs see in one way only,
  and wake as many waiters as they move items.
\<close>

datatype wqueue = Sync_Senders | Async_Senders | Sync_Receivers | Async_Receivers

fun refs :: "wqueue \<Rightarrow> ('a, 't, 'w, 'p) mpmc \<Rightarrow> ('p \<times> ('t, 'w) wake_ref) list" where
  "refs Sync_Senders s = map (\<lambda>w. (wt_state w, Thread (wt_handle w))) (mc_sync_senders s)"
| "refs Async_Senders s = map (\<lambda>w. (wt_state w, Waker (wt_handle w))) (mc_async_senders s)"
| "refs Sync_Receivers s = map (\<lambda>w. (wt_state w, Thread (wt_handle w))) (mc_sync_receivers s)"
| "refs Async_Receivers s = map (\<lambda>w. (wt_state w, Waker (wt_handle w))) (mc_async_receivers s)"

definition ptrs :: "wqueue \<Rightarrow> ('a, 't, 'w, 'p) mpmc \<Rightarrow> 'p list" where
  "ptrs Q s = map fst (refs Q s)"

subsection \<open>Programs and their flags\<close>

text \<open>The queue the flag of a program may be in.\<close>

fun sits :: "('a, 't, 'w) task \<Rightarrow> wqueue option" where
  "sits (Send_Sync t pc) = (case pc of SS_Wait _ \<Rightarrow> Some Sync_Senders | SS_Retry _ \<Rightarrow> Some Sync_Senders | SS_Closed \<Rightarrow> Some Sync_Senders | _ \<Rightarrow> None)"
| "sits (Send_Batch t pc) = (case pc of SB_Wait _ \<Rightarrow> Some Sync_Senders | SB_Retry _ \<Rightarrow> Some Sync_Senders | SB_Closed _ \<Rightarrow> Some Sync_Senders | _ \<Rightarrow> None)"
| "sits (Recv_Sync t pc) = (case pc of RS_Wait \<Rightarrow> Some Sync_Receivers | RS_Closed \<Rightarrow> Some Sync_Receivers | _ \<Rightarrow> None)"
| "sits (Recv_Batch t pc) = (case pc of RB_Wait _ _ \<Rightarrow> Some Sync_Receivers | RB_Closed _ \<Rightarrow> Some Sync_Receivers | _ \<Rightarrow> None)"
| "sits (Recv_Timeout t pc) = None"
| "sits (Send_Future pc) = (case pc of SF_Idle _ _ \<Rightarrow> Some Async_Senders | SF_Check _ _ \<Rightarrow> Some Async_Senders | SF_Unlink _ _ _ \<Rightarrow> Some Async_Senders
     | SF_Rewake _ _ \<Rightarrow> Some Async_Senders | SF_Drop \<Rightarrow> Some Async_Senders | _ \<Rightarrow> None)"
| "sits (Recv_Future pc) = (case pc of RF_Idle _ \<Rightarrow> Some Async_Receivers | RF_Check _ \<Rightarrow> Some Async_Receivers | RF_Unlink \<Rightarrow> Some Async_Receivers
     | RF_Drop \<Rightarrow> Some Async_Receivers | _ \<Rightarrow> None)"

text \<open>Parked programs, those that wait to be woken.\<close>

fun waits :: "('a, 't, 'w) task \<Rightarrow> bool" where
  "waits (Send_Sync t pc) \<longleftrightarrow> (case pc of SS_Wait _ \<Rightarrow> True | _ \<Rightarrow> False)"
| "waits (Send_Batch t pc) \<longleftrightarrow> (case pc of SB_Wait _ \<Rightarrow> True | _ \<Rightarrow> False)"
| "waits (Recv_Sync t pc) \<longleftrightarrow> (case pc of RS_Wait \<Rightarrow> True | _ \<Rightarrow> False)"
| "waits (Recv_Batch t pc) \<longleftrightarrow> (case pc of RB_Wait _ _ \<Rightarrow> True | _ \<Rightarrow> False)"
| "waits (Recv_Timeout t pc) \<longleftrightarrow> False"
| "waits (Send_Future pc) \<longleftrightarrow> (case pc of SF_Idle _ _ \<Rightarrow> True | _ \<Rightarrow> False)"
| "waits (Recv_Future pc) \<longleftrightarrow> (case pc of RF_Idle _ \<Rightarrow> True | _ \<Rightarrow> False)"

fun is_future :: "('a, 't, 'w) task \<Rightarrow> bool" where
  "is_future (Send_Future pc) \<longleftrightarrow> True" | "is_future (Recv_Future pc) \<longleftrightarrow> True" | "is_future _ \<longleftrightarrow> False"

definition has_flag :: "('a, 't, 'w) task \<Rightarrow> bool" where
  "has_flag t \<longleftrightarrow> is_future t \<or> sits t \<noteq> None"

fun dropping :: "('a, 't, 'w) task \<Rightarrow> bool" where
  "dropping (Send_Future pc) \<longleftrightarrow> pc = SF_Drop \<or> pc = SF_Dropped" | "dropping (Recv_Future pc) \<longleftrightarrow> pc = RF_Drop \<or> pc = RF_Dropped" | "dropping _ \<longleftrightarrow> False"

text \<open>Points of a program that only spurious polls and the timed receive reach.\<close>

fun off_limits :: "('a, 't, 'w) task \<Rightarrow> bool" where
  "off_limits (Send_Future pc) \<longleftrightarrow> (case pc of SF_Rewake _ _ \<Rightarrow> True | _ \<Rightarrow> False)" | "off_limits (Recv_Timeout t pc) \<longleftrightarrow> True" | "off_limits _ \<longleftrightarrow> False"

fun view_ok :: "('a, 't, 'w) task option \<Rightarrow> 8 word option \<Rightarrow> (wqueue \<Rightarrow> bool) \<Rightarrow> bool" where
  "view_ok None c inq \<longleftrightarrow> c = None \<and> (\<forall>Q. \<not> inq Q)"
| "view_ok (Some t) c inq \<longleftrightarrow> \<not> off_limits t \<and> (\<forall>Q. inq Q \<longrightarrow> sits t = Some Q) \<and>
     (case c of None \<Rightarrow> \<not> has_flag t
      | Some c \<Rightarrow> has_flag t \<and> (dropping t \<or> c \<in> {st_waiting, st_success_space, st_closed_buffered}) \<and>
          (waits t \<and> c = st_waiting \<longrightarrow> inq (the (sits t))) \<and> (sits t \<noteq> None \<and> \<not> waits t \<longrightarrow> c \<noteq> st_waiting) \<and>
          (c = st_success_space \<longrightarrow> \<not> inq Sync_Receivers \<and> \<not> inq Async_Receivers))"

definition ptr_ok :: "('a, 't, 'w) task option \<Rightarrow> 'p \<Rightarrow> ('a, 't, 'w, 'p) mpmc \<Rightarrow> bool" where
  "ptr_ok t p s \<longleftrightarrow> view_ok t (mc_cells s p) (\<lambda>Q. p \<in> set (ptrs Q s))"

definition safe :: "('p \<rightharpoonup> ('a, 't, 'w) task) \<Rightarrow> ('a, 't, 'w, 'p) mpmc \<Rightarrow> bool" where
  "safe ts s \<longleftrightarrow> mpmc_ok s \<and> (\<forall>Q. distinct (ptrs Q s)) \<and> (\<forall>p. ptr_ok (ts p) p s)"

lemma st_distinct [simp]:
  "st_waiting \<noteq> st_success_space" "st_waiting \<noteq> st_closed_buffered" "st_waiting \<noteq> st_cancelled" "st_success_space \<noteq> st_waiting" "st_success_space \<noteq> st_closed_buffered"
  "st_success_space \<noteq> st_cancelled" "st_closed_buffered \<noteq> st_waiting" "st_closed_buffered \<noteq> st_success_space" "st_closed_buffered \<noteq> st_cancelled"
  "st_cancelled \<noteq> st_waiting" "st_cancelled \<noteq> st_success_space" "st_cancelled \<noteq> st_closed_buffered"
  by (simp_all add: st_waiting_def st_success_space_def st_closed_buffered_def st_cancelled_def)

lemma st_flags [simp]:
  "\<not> flag_finished st_waiting" "flag_finished st_success_space" "flag_finished st_closed_buffered" "flag_closed st_closed_buffered" "\<not> flag_closed st_success_space"
  "\<not> flag_handoff st_success_space"
  by (simp_all add: flag_finished_def flag_closed_def flag_handoff_def st_waiting_def st_success_space_def st_closed_buffered_def)

subsection \<open>What the others see of an operation\<close>

text \<open>
  An operation moves the flag of another program only from waiting to finished, and then wakes it
  through the handle it was queued with. It takes only finished flags out of a queue and leaves no
  successful receiver in one.
\<close>

definition notified :: "'p \<Rightarrow> ('a, 't, 'w, 'p) mpmc \<Rightarrow> ('a, 't, 'w, 'p) mpmc \<Rightarrow> bool" where
  "notified p s s' \<longleftrightarrow>
     (mc_cells s' p = mc_cells s p \<and> mc_woken s' p = mc_woken s p \<or>
      mc_cells s p = Some st_waiting \<and> mc_cells s' p \<in> {Some st_success_space, Some st_closed_buffered} \<and> (\<exists>Q r. (p, r) \<in> set (refs Q s) \<and> mc_woken s' p = Some r)) \<and>
     (\<forall>Q r. (p, r) \<in> set (refs Q s') \<longrightarrow> (p, r) \<in> set (refs Q s)) \<and>
     (\<forall>Q. mc_cells s' p = Some st_waiting \<and> p \<in> set (ptrs Q s) \<longrightarrow> p \<in> set (ptrs Q s')) \<and>
     (\<forall>Q \<in> {Sync_Receivers, Async_Receivers}. p \<in> set (ptrs Q s') \<and> mc_cells s' p = Some st_success_space \<longrightarrow> mc_cells s p = Some st_success_space)"

lemma notified_refl [simp]: "notified p s s"
  by (simp add: notified_def)

lemma in_ptrs: "p \<in> set (ptrs Q s) \<longleftrightarrow> (\<exists>r. (p, r) \<in> set (refs Q s))"
  by (force simp: ptrs_def)

lemma notifiedD:
  assumes "notified p s s'"
  shows "mc_cells s' p = mc_cells s p \<or> mc_cells s p = Some st_waiting \<and> mc_cells s' p \<in> {Some st_success_space, Some st_closed_buffered}"
    "p \<in> set (ptrs Q s') \<Longrightarrow> p \<in> set (ptrs Q s)"
    "mc_cells s' p = Some st_waiting \<Longrightarrow> p \<in> set (ptrs Q s) \<Longrightarrow> p \<in> set (ptrs Q s')"
    "Q = Sync_Receivers \<or> Q = Async_Receivers \<Longrightarrow> p \<in> set (ptrs Q s') \<Longrightarrow> mc_cells s' p = Some st_success_space \<Longrightarrow> mc_cells s p = Some st_success_space"
    "(p, r) \<in> set (refs Q s') \<Longrightarrow> (p, r) \<in> set (refs Q s)"
    "mc_cells s' p = mc_cells s p \<and> mc_woken s' p = mc_woken s p \<or>
       mc_cells s p = Some st_waiting \<and> mc_cells s' p \<in> {Some st_success_space, Some st_closed_buffered} \<and> (\<exists>Q r. (p, r) \<in> set (refs Q s) \<and> mc_woken s' p = Some r)"
  using assms unfolding notified_def in_ptrs by blast+

lemma notified_trans:
  assumes 1: "notified p s1 s2" and 2: "notified p s2 s3"
  shows "notified p s1 s3"
  unfolding notified_def
proof (intro conjI allI ballI impI)
  show "mc_cells s3 p = mc_cells s1 p \<and> mc_woken s3 p = mc_woken s1 p \<or> mc_cells s1 p = Some st_waiting \<and>
      mc_cells s3 p \<in> {Some st_success_space, Some st_closed_buffered} \<and> (\<exists>Q r. (p, r) \<in> set (refs Q s1) \<and> mc_woken s3 p = Some r)"
  proof (cases "mc_cells s2 p = mc_cells s1 p \<and> mc_woken s2 p = mc_woken s1 p")
    case True
    then show ?thesis using notifiedD(6) [OF 2] notifiedD(5) [OF 1] by auto
  next
    case False
    then have c: "mc_cells s1 p = Some st_waiting" "mc_cells s2 p \<in> {Some st_success_space, Some st_closed_buffered}" "\<exists>Q r. (p, r) \<in> set (refs Q s1) \<and> mc_woken s2 p = Some r"
      using notifiedD(6) [OF 1] by blast+
    then have "mc_cells s3 p = mc_cells s2 p \<and> mc_woken s3 p = mc_woken s2 p" using notifiedD(6) [OF 2] by auto
    then show ?thesis using c by simp
  qed
  have w: "mc_cells s2 p = Some st_waiting" if "mc_cells s3 p = Some st_waiting" using that notifiedD(1) [OF 2] by (metis empty_iff insert_iff option.inject st_distinct(1,2))
  fix Q
  show "p \<in> set (ptrs Q s3)" if "mc_cells s3 p = Some st_waiting \<and> p \<in> set (ptrs Q s1)" using notifiedD(3) [OF 1] notifiedD(3) [OF 2] w that by blast
  show "mc_cells s1 p = Some st_success_space" if "Q \<in> {Sync_Receivers, Async_Receivers}" "p \<in> set (ptrs Q s3) \<and> mc_cells s3 p = Some st_success_space"
    using notifiedD(2,4) [OF 1, of Q] notifiedD(2,4) [OF 2, of Q] that by blast
  fix r
  show "(p, r) \<in> set (refs Q s1)" if "(p, r) \<in> set (refs Q s3)" using notifiedD(5) [OF 1] notifiedD(5) [OF 2] that by blast
qed

lemma notified_ptr_ok:
  assumes n: "notified p s s'" and ok: "ptr_ok t p s"
  shows "ptr_ok t p s'"
proof (cases t)
  case None
  then have "mc_cells s p = None" "\<forall>Q. p \<notin> set (ptrs Q s)" using ok by (simp_all add: ptr_ok_def)
  then show ?thesis using None notifiedD(1,2) [OF n] by (auto simp: ptr_ok_def)
next
  case (Some u)
  have u: "\<not> off_limits u" "\<And>Q. p \<in> set (ptrs Q s') \<Longrightarrow> sits u = Some Q" using ok Some notifiedD(2) [OF n] unfolding ptr_ok_def by auto
  show ?thesis
  proof (cases "mc_cells s' p")
    case None
    then have "mc_cells s p = None" using notifiedD(1) [OF n] by auto
    then show ?thesis using ok u None unfolding ptr_ok_def Some view_ok.simps by auto
  next
    case (Some c')
    then obtain c where c: "mc_cells s p = Some c" "c' = c \<or> c = st_waiting \<and> c' \<in> {st_success_space, st_closed_buffered}" using notifiedD(1) [OF n] by (cases "mc_cells s p") auto
    have o: "has_flag u" "dropping u \<or> c \<in> {st_waiting, st_success_space, st_closed_buffered}" "waits u \<and> c = st_waiting \<longrightarrow> p \<in> set (ptrs (the (sits u)) s)"
      "sits u \<noteq> None \<and> \<not> waits u \<longrightarrow> c \<noteq> st_waiting" "c = st_success_space \<longrightarrow> p \<notin> set (ptrs Sync_Receivers s) \<and> p \<notin> set (ptrs Async_Receivers s)"
      using ok \<open>t = Some u\<close> c(1) by (auto simp: ptr_ok_def)
    have "waits u \<and> c' = st_waiting \<longrightarrow> p \<in> set (ptrs (the (sits u)) s')" using o(3) c Some notifiedD(3) [OF n] by auto
    moreover have "c' = st_success_space \<longrightarrow> p \<notin> set (ptrs Q s')" if "Q = Sync_Receivers \<or> Q = Async_Receivers" for Q
      using notifiedD(2,4) [OF n, of Q] o(5) Some c that by (metis option.inject)
    moreover have "dropping u \<or> c' \<in> {st_waiting, st_success_space, st_closed_buffered}" "sits u \<noteq> None \<and> \<not> waits u \<longrightarrow> c' \<noteq> st_waiting" using o(2,4) c(2) by auto
    ultimately show ?thesis using u o(1) unfolding ptr_ok_def \<open>t = Some u\<close> Some view_ok.simps option.simps by blast
  qed
qed

text \<open>The queues are disjoint, without repetition, and hold pointers to flags that are alive.\<close>

definition tidy :: "('a, 't, 'w, 'p) mpmc \<Rightarrow> bool" where
  "tidy s \<longleftrightarrow> (\<forall>Q. distinct (ptrs Q s)) \<and> (\<forall>p Q Q'. p \<in> set (ptrs Q s) \<and> p \<in> set (ptrs Q' s) \<longrightarrow> Q = Q') \<and> (\<forall>p Q. p \<in> set (ptrs Q s) \<longrightarrow> mc_cells s p \<noteq> None)"

definition calm :: "('a, 't, 'w, 'p) mpmc \<Rightarrow> ('a, 't, 'w, 'p) mpmc \<Rightarrow> bool" where
  "calm s s' \<longleftrightarrow> (\<forall>p. notified p s s') \<and> (\<forall>Q. distinct (ptrs Q s'))"

lemma calm_refl: "tidy s \<Longrightarrow> calm s s"
  by (simp add: calm_def tidy_def)

lemma calm_trans: "calm s1 s2 \<Longrightarrow> calm s2 s3 \<Longrightarrow> calm s1 s3"
  by (metis calm_def notified_trans)

lemma calm_tidy: "calm s s' \<Longrightarrow> tidy s \<Longrightarrow> tidy s'"
proof -
  assume c: "calm s s'" and t: "tidy s"
  have n: "notified p s s'" for p using c by (simp add: calm_def)
  have "mc_cells s p \<noteq> None \<Longrightarrow> mc_cells s' p \<noteq> None" for p using notifiedD(1) [OF n, of p] by auto
  then show ?thesis using c t notifiedD(2) [OF n] unfolding calm_def tidy_def by blast
qed

lemma safe_tidy: "safe ts s \<Longrightarrow> tidy s"
proof -
  assume ok: "safe ts s"
  have "\<exists>t. ts p = Some t \<and> sits t = Some Q \<and> mc_cells s p \<noteq> None" if i: "p \<in> set (ptrs Q s)" for p Q
  proof -
    have k: "view_ok (ts p) (mc_cells s p) (\<lambda>Q. p \<in> set (ptrs Q s))" using ok by (simp add: safe_def ptr_ok_def)
    then obtain t where t: "ts p = Some t" using i by (cases "ts p") auto
    then have "sits t = Some Q" using k i by simp
    then show ?thesis using k t by (auto simp: has_flag_def split: option.splits)
  qed
  then show ?thesis using ok unfolding tidy_def safe_def by (metis option.inject)
qed

subsection \<open>The scans of the queues\<close>

text \<open>What a scan that may wake up to \<open>n\<close> waiters leaves behind.\<close>

definition scan_ok :: "nat \<Rightarrow> ('n, 'p) waiter list \<Rightarrow> ('p \<rightharpoonup> 8 word) \<Rightarrow> ('n, 'p) waiter list \<Rightarrow> ('n, 'p) waiter list \<Rightarrow> ('p \<rightharpoonup> 8 word) \<Rightarrow> bool" where
  "scan_ok n ws cells hs ws' cells' \<longleftrightarrow>
     set hs \<subseteq> set ws \<and> set ws' \<subseteq> set ws \<and> distinct (map wt_state hs) \<and> distinct (map wt_state ws') \<and> wt_state ` set hs \<inter> wt_state ` set ws' = {} \<and>
     (\<forall>w \<in> set hs. cells (wt_state w) = Some st_waiting) \<and> cells' = (\<lambda>p. if p \<in> wt_state ` set hs then Some st_success_space else cells p) \<and>
     (\<forall>w \<in> set ws. w \<notin> set ws' \<longrightarrow> w \<in> set hs \<or> cells (wt_state w) \<noteq> Some st_waiting) \<and>
     length hs \<le> n \<and> (length hs < n \<longrightarrow> (\<forall>w \<in> set ws'. cells (wt_state w) \<noteq> Some st_waiting))"

lemma scan_stop: "distinct (map wt_state ws) \<Longrightarrow> n = 0 \<or> ws = [] \<Longrightarrow> scan_ok n ws cells [] ws cells"
  by (auto simp: scan_ok_def)

lemma scan_keep: "scan_ok n ws cells hs ws' cells' \<Longrightarrow> cells (wt_state w) \<noteq> Some st_waiting \<Longrightarrow> wt_state w \<notin> wt_state ` set ws \<Longrightarrow> scan_ok n (w # ws) cells hs (w # ws') cells'"
  unfolding scan_ok_def by auto

lemma scan_drop: "scan_ok n ws cells hs ws' cells' \<Longrightarrow> cells (wt_state w) \<noteq> Some st_waiting \<Longrightarrow> scan_ok n (w # ws) cells hs ws' cells'"
  unfolding scan_ok_def by auto

lemma scan_hit:
  assumes sc: "scan_ok n ws (cells(wt_state w \<mapsto> st_success_space)) hs ws' cells'" and w: "cells (wt_state w) = Some st_waiting" and f: "wt_state w \<notin> wt_state ` set ws"
  shows "scan_ok (Suc n) (w # ws) cells (w # hs) ws' cells'"
proof -
  let ?c = "cells(wt_state w \<mapsto> st_success_space)"
  have k: "set hs \<subseteq> set ws" "set ws' \<subseteq> set ws" "distinct (map wt_state hs)" "distinct (map wt_state ws')" "wt_state ` set hs \<inter> wt_state ` set ws' = {}"
    "\<forall>v \<in> set hs. ?c (wt_state v) = Some st_waiting" "cells' = (\<lambda>p. if p \<in> wt_state ` set hs then Some st_success_space else ?c p)"
    "\<forall>v \<in> set ws. v \<notin> set ws' \<longrightarrow> v \<in> set hs \<or> ?c (wt_state v) \<noteq> Some st_waiting" "length hs \<le> n" "length hs < n \<longrightarrow> (\<forall>v \<in> set ws'. ?c (wt_state v) \<noteq> Some st_waiting)"
    using sc unfolding scan_ok_def by blast+
  have e: "?c (wt_state v) = cells (wt_state v)" if "v \<in> set ws" for v using f that by (metis fun_upd_other image_eqI)
  have "wt_state w \<notin> wt_state ` set hs" "wt_state w \<notin> wt_state ` set ws'" using f k(1,2) by auto
  moreover have "cells' = (\<lambda>p. if p \<in> wt_state ` set (w # hs) then Some st_success_space else cells p)" unfolding k(7) by auto
  moreover have "\<forall>v \<in> set hs. cells (wt_state v) = Some st_waiting" using k(1,6) e by (metis subsetD)
  moreover have "\<forall>v \<in> set ws. v \<notin> set ws' \<longrightarrow> v \<in> set hs \<or> cells (wt_state v) \<noteq> Some st_waiting" using k(8) e by metis
  moreover have "length hs < n \<longrightarrow> (\<forall>v \<in> set ws'. cells (wt_state v) \<noteq> Some st_waiting)" using k(2,10) e by (metis subsetD)
  ultimately show ?thesis unfolding scan_ok_def using k(1-5,9) w by auto
qed

lemma notify_first_scan: "notify_first ws cells = Some (h, ws', cells') \<Longrightarrow> distinct (map wt_state ws) \<Longrightarrow> scan_ok 1 ws cells (case h of None \<Rightarrow> [] | Some w \<Rightarrow> [w]) ws' cells'"
proof (induction ws arbitrary: ws')
  case (Cons w ws)
  obtain st where st: "cells (wt_state w) = Some st" using Cons.prems(1) by (auto split: Option.bind_splits)
  have d: "distinct (map wt_state ws)" "wt_state w \<notin> wt_state ` set ws" using Cons.prems(2) by auto
  show ?case
  proof (cases "st = st_waiting")
    case True
    then have "h = Some w" "ws' = ws" "cells' = cells(wt_state w \<mapsto> st_success_space)" using Cons.prems(1) st by simp_all
    then show ?thesis using scan_hit [OF scan_stop [OF d(1), of 0] _ d(2)] st True by (simp del: fun_upd_apply)
  next
    case False
    then obtain ws1 where r: "notify_first ws cells = Some (h, ws1, cells')" "ws' = w # ws1" using Cons.prems(1) st by (auto split: Option.bind_splits)
    show ?thesis unfolding r(2) using scan_keep [OF Cons.IH [OF r(1) d(1)] _ d(2)] st False by simp
  qed
qed (simp add: scan_stop)

lemma pop_first_scan: "pop_first ws cells = Some (h, ws', cells') \<Longrightarrow> distinct (map wt_state ws) \<Longrightarrow> scan_ok 1 ws cells (case h of None \<Rightarrow> [] | Some w \<Rightarrow> [w]) ws' cells'"
proof (induction ws)
  case (Cons w ws)
  obtain st where st: "cells (wt_state w) = Some st" using Cons.prems(1) by (auto split: Option.bind_splits)
  have d: "distinct (map wt_state ws)" "wt_state w \<notin> wt_state ` set ws" using Cons.prems(2) by auto
  show ?case
  proof (cases "st = st_waiting")
    case True
    then have "h = Some w" "ws' = ws" "cells' = cells(wt_state w \<mapsto> st_success_space)" using Cons.prems(1) st by simp_all
    then show ?thesis using scan_hit [OF scan_stop [OF d(1), of 0] _ d(2)] st True by (simp del: fun_upd_apply)
  next
    case False
    then have r: "pop_first ws cells = Some (h, ws', cells')" using Cons.prems(1) st by simp
    show ?thesis using scan_drop [OF Cons.IH [OF r d(1)]] st False by simp
  qed
qed (simp add: scan_stop)

lemma notify_upto_scan: "notify_upto n ws cells = Some (hs, ws', cells') \<Longrightarrow> distinct (map wt_state ws) \<Longrightarrow> scan_ok n ws cells hs ws' cells'"
proof (induction n ws cells arbitrary: hs ws' cells' rule: notify_upto.induct)
  case (3 n w ws cells)
  obtain st where st: "cells (wt_state w) = Some st" using "3.prems"(1) by (auto split: Option.bind_splits)
  have d: "distinct (map wt_state ws)" "wt_state w \<notin> wt_state ` set ws" using "3.prems"(2) by auto
  show ?case
  proof (cases "st = st_waiting")
    case True
    then obtain hs1 where r: "notify_upto n ws (cells(wt_state w \<mapsto> st_success_space)) = Some (hs1, ws', cells')" "hs = w # hs1"
      using "3.prems"(1) st by (auto split: Option.bind_splits simp del: fun_upd_apply)
    show ?thesis unfolding r(2) using scan_hit [OF "3.IH"(1) [OF st True r(1) d(1)] _ d(2)] st True by simp
  next
    case False
    then obtain ws1 where r: "notify_upto (Suc n) ws cells = Some (hs, ws1, cells')" "ws' = w # ws1" using "3.prems"(1) st by (auto split: Option.bind_splits)
    show ?thesis unfolding r(2) using scan_keep [OF "3.IH"(2) [OF st False r(1) d(1)] _ d(2)] st False by simp
  qed
qed (auto simp: scan_stop)

text \<open>A scan over live flags ends.\<close>

lemma notify_first_total: "\<forall>w \<in> set ws. cells (wt_state w) \<noteq> None \<Longrightarrow> \<exists>r. notify_first ws cells = Some r"
  by (induction ws) auto

lemma pop_first_total: "\<forall>w \<in> set ws. cells (wt_state w) \<noteq> None \<Longrightarrow> \<exists>r. pop_first ws cells = Some r"
  by (induction ws) auto

lemma notify_upto_total: "\<forall>w \<in> set ws. cells (wt_state w) \<noteq> None \<Longrightarrow> \<exists>r. notify_upto n ws cells = Some r"
proof (induction n ws cells rule: notify_upto.induct)
  case (3 n w ws cells)
  then obtain st where "cells (wt_state w) = Some st" by auto
  then show ?case using 3 by (cases "st = st_waiting") fastforce+
qed auto

subsection \<open>The operations under the lock\<close>

lemma scan_calm:
  assumes t: "tidy s" and sc: "scan_ok n ws (mc_cells s) hs ws' (mc_cells s')"
    and q: "refs Q s = map (\<lambda>w. (wt_state w, f (wt_handle w))) ws" "refs Q s' = map (\<lambda>w. (wt_state w, f (wt_handle w))) ws'" "\<And>Q'. Q' \<noteq> Q \<Longrightarrow> refs Q' s' = refs Q' s"
    and w: "\<And>w. w \<in> set hs \<Longrightarrow> mc_woken s' (wt_state w) = Some (f (wt_handle w))" "\<And>p. p \<notin> wt_state ` set hs \<Longrightarrow> mc_woken s' p = mc_woken s p"
  shows "calm s s'"
  unfolding calm_def
proof (intro conjI allI)
  note k = sc [unfolded scan_ok_def]
  have pq: "ptrs Q s = map wt_state ws" "ptrs Q s' = map wt_state ws'" using q(1,2) by (simp_all add: ptrs_def comp_def)
  have po: "ptrs Q' s' = ptrs Q' s" if "Q' \<noteq> Q" for Q' using q(3) [OF that] by (simp add: ptrs_def)
  show "distinct (ptrs Q' s')" for Q' using t k pq(2) po by (cases "Q' = Q") (auto simp: tidy_def)
  have cs: "mc_cells s' p = (if p \<in> wt_state ` set hs then Some st_success_space else mc_cells s p)" for p using k by simp
  fix p
  have sub: "(p, r) \<in> set (refs Q' s')" "(p, r) \<in> set (refs Q' s)" if "(p, r) \<in> set (refs Q' s')" for r Q' using that q k by (cases "Q' = Q", auto)+
  have hit: "p \<notin> set (ptrs Q' s')" if h: "p \<in> wt_state ` set hs" for Q'
  proof (cases "Q' = Q")
    case True
    have "p \<notin> wt_state ` set ws'" using h k by blast
    then show ?thesis using True pq(2) by simp
  next
    case False
    have "p \<in> set (ptrs Q s)" using h k unfolding pq by auto
    then show ?thesis using False t po [OF False] unfolding tidy_def by metis
  qed
  show "notified p s s'"
    unfolding notified_def
  proof (intro conjI allI ballI impI)
    show "mc_cells s' p = mc_cells s p \<and> mc_woken s' p = mc_woken s p \<or> mc_cells s p = Some st_waiting \<and> mc_cells s' p \<in> {Some st_success_space, Some st_closed_buffered} \<and>
       (\<exists>Q r. (p, r) \<in> set (refs Q s) \<and> mc_woken s' p = Some r)"
    proof (cases "p \<in> wt_state ` set hs")
      case True
      then obtain v where v: "v \<in> set hs" "p = wt_state v" by blast
      then have "(p, f (wt_handle v)) \<in> set (refs Q s)" "mc_woken s' p = Some (f (wt_handle v))" "mc_cells s p = Some st_waiting" "mc_cells s' p = Some st_success_space"
        using k q(1) w(1) cs by auto
      then show ?thesis by blast
    qed (use cs w(2) in simp)
    fix Q'
    show "p \<in> set (ptrs Q' s')" if "mc_cells s' p = Some st_waiting \<and> p \<in> set (ptrs Q' s)"
      using that k cs [of p] po [of Q'] pq by (cases "Q' = Q") (auto split: if_splits)
    show "mc_cells s p = Some st_success_space" if "p \<in> set (ptrs Q' s') \<and> mc_cells s' p = Some st_success_space" using that cs [of p] hit by (auto split: if_splits)
    show "(p, r) \<in> set (refs Q' s)" if "(p, r) \<in> set (refs Q' s')" for r using sub(2) [OF that] .
  qed
qed

lemma refs_queue [simp]: "refs Q (s\<lparr>mc_queue := q\<rparr>) = refs Q s" "refs Q (s\<lparr>mc_queue_len := n\<rparr>) = refs Q s" "refs Q (s\<lparr>mc_cells := c\<rparr>) = refs Q s"
  "refs Q (s\<lparr>mc_woken := v\<rparr>) = refs Q s" "refs Q (s\<lparr>mc_sender_count := n\<rparr>) = refs Q s" "refs Q (s\<lparr>mc_receiver_count := n\<rparr>) = refs Q s"
  by (cases Q; simp)+

lemma ptrs_queue [simp]: "ptrs Q (s\<lparr>mc_queue := q\<rparr>) = ptrs Q s" "ptrs Q (s\<lparr>mc_queue_len := n\<rparr>) = ptrs Q s" "ptrs Q (s\<lparr>mc_cells := c\<rparr>) = ptrs Q s"
  "ptrs Q (s\<lparr>mc_woken := v\<rparr>) = ptrs Q s" "ptrs Q (s\<lparr>mc_sender_count := n\<rparr>) = ptrs Q s" "ptrs Q (s\<lparr>mc_receiver_count := n\<rparr>) = ptrs Q s"
  by (simp_all add: ptrs_def)

lemma calm_queue [simp]:
  "calm s (s'\<lparr>mc_queue := q\<rparr>) = calm s s'" "calm s (s'\<lparr>mc_queue_len := n\<rparr>) = calm s s'" "calm (s\<lparr>mc_queue := q\<rparr>) s' = calm s s'" "calm (s\<lparr>mc_queue_len := n\<rparr>) s' = calm s s'"
  "calm s (s'\<lparr>mc_sender_count := n\<rparr>) = calm s s'" "calm s (s'\<lparr>mc_receiver_count := n\<rparr>) = calm s s'" "calm (s\<lparr>mc_sender_count := n\<rparr>) s' = calm s s'" "calm (s\<lparr>mc_receiver_count := n\<rparr>) s' = calm s s'"
  "tidy (s\<lparr>mc_queue := q\<rparr>) = tidy s" "tidy (s\<lparr>mc_queue_len := n\<rparr>) = tidy s" "tidy (s\<lparr>mc_sender_count := n\<rparr>) = tidy s" "tidy (s\<lparr>mc_receiver_count := n\<rparr>) = tidy s"
  by (simp_all add: calm_def notified_def tidy_def)

text \<open>
  The flags still waiting on a side of the channel, those an operation has moved to success, and that
  it has served \<open>n\<close> waiters unless none is left.
\<close>

definition waiting :: "wqueue set \<Rightarrow> ('a, 't, 'w, 'p) mpmc \<Rightarrow> 'p set" where
  "waiting K s = {p. \<exists>Q \<in> K. p \<in> set (ptrs Q s) \<and> mc_cells s p = Some st_waiting}"

definition woken_by :: "wqueue set \<Rightarrow> ('a, 't, 'w, 'p) mpmc \<Rightarrow> ('a, 't, 'w, 'p) mpmc \<Rightarrow> 'p set" where
  "woken_by K s s' = {p. \<exists>Q \<in> K. p \<in> set (ptrs Q s) \<and> mc_cells s p = Some st_waiting \<and> mc_cells s' p = Some st_success_space}"

definition serves :: "wqueue set \<Rightarrow> nat \<Rightarrow> ('a, 't, 'w, 'p) mpmc \<Rightarrow> ('a, 't, 'w, 'p) mpmc \<Rightarrow> bool" where
  "serves K n s s' \<longleftrightarrow> waiting K s' = {} \<or> n \<le> card (woken_by K s s')"

abbreviation receivers :: "wqueue set" where "receivers \<equiv> {Sync_Receivers, Async_Receivers}"

abbreviation senders :: "wqueue set" where "senders \<equiv> {Sync_Senders, Async_Senders}"

lemma serves_queue [simp]:
  "serves K n s (s'\<lparr>mc_queue := q\<rparr>) = serves K n s s'" "serves K n s (s'\<lparr>mc_queue_len := m\<rparr>) = serves K n s s'"
  "serves K n (s\<lparr>mc_queue := q\<rparr>) s' = serves K n s s'" "serves K n (s\<lparr>mc_queue_len := m\<rparr>) s' = serves K n s s'"
  by (simp_all add: serves_def waiting_def woken_by_def)

lemma serves_0 [simp]: "serves K 0 s s'"
  by (simp add: serves_def)

lemma woken_by_finite: "finite (woken_by K s s')"
proof -
  have "finite (UNIV :: wqueue set)"
  proof (rule finite_subset)
    show "(UNIV :: wqueue set) \<subseteq> {Sync_Senders, Async_Senders, Sync_Receivers, Async_Receivers}" using wqueue.exhaust by blast
  qed simp
  moreover have "woken_by K s s' \<subseteq> (\<Union>Q. set (ptrs Q s))" by (auto simp: woken_by_def)
  ultimately show ?thesis by (meson finite_UN finite_set finite_subset)
qed

lemma calm_waiting: "calm s s' \<Longrightarrow> waiting K s' \<subseteq> waiting K s"
proof
  fix p assume c: "calm s s'" and p: "p \<in> waiting K s'"
  have n: "notified p s s'" using c by (simp add: calm_def)
  then show "p \<in> waiting K s" using p notifiedD(1,2) [OF n] by (auto simp: waiting_def)
qed

lemma serves_trans:
  assumes c: "calm s s'" "calm s' s''" and v: "serves K n s s'" "serves K m s' s''"
  shows "serves K (n + m) s s''"
proof (cases "waiting K s' = {} \<or> waiting K s'' = {}")
  case True
  then show ?thesis using calm_waiting [OF c(2), of K] by (auto simp: serves_def)
next
  case False
  have n: "notified p s s'" "notified p s' s''" for p using c by (simp_all add: calm_def)
  have "woken_by K s s' \<union> woken_by K s' s'' \<subseteq> woken_by K s s''"
  proof
    fix p assume "p \<in> woken_by K s s' \<union> woken_by K s' s''"
    then show "p \<in> woken_by K s s''" using notifiedD(1,2) [OF n(1), of p] notifiedD(1) [OF n(2), of p] by (auto simp: woken_by_def)
  qed
  moreover have "woken_by K s s' \<inter> woken_by K s' s'' = {}" by (auto simp: woken_by_def)
  ultimately have "card (woken_by K s s') + card (woken_by K s' s'') \<le> card (woken_by K s s'')"
    using card_Un_disjoint [OF woken_by_finite woken_by_finite] card_mono [OF woken_by_finite] by metis
  then show ?thesis using False v by (auto simp: serves_def)
qed

lemma serves_mono: "serves K n s s' \<Longrightarrow> m \<le> n \<Longrightarrow> serves K m s s'"
  by (auto simp: serves_def)

lemma wake_refs [simp]: "refs Q (wake f w s) = refs Q s" "ptrs Q (wake f w s) = ptrs Q s" "refs Q (wake_one a b s) = refs Q s" "ptrs Q (wake_one a b s) = ptrs Q s"
  "refs Q (fold (wake f) hs s) = refs Q s" "ptrs Q (fold (wake f) hs s) = ptrs Q s"
  by (cases Q; simp add: ptrs_def)+

lemma fold_wake_woken:
  "p \<notin> wt_state ` set hs \<Longrightarrow> mc_woken (fold (wake f) hs s) p = mc_woken s p"
  "distinct (map wt_state hs) \<Longrightarrow> w \<in> set hs \<Longrightarrow> mc_woken (fold (wake f) hs s) (wt_state w) = Some (f (wt_handle w))"
proof -
  show *: "p \<notin> wt_state ` set hs \<Longrightarrow> mc_woken (fold (wake f) hs s) p = mc_woken s p" for p s hs
    by (induction hs arbitrary: s) (auto simp: wake_def)
  show "distinct (map wt_state hs) \<Longrightarrow> w \<in> set hs \<Longrightarrow> mc_woken (fold (wake f) hs s) (wt_state w) = Some (f (wt_handle w))"
  proof (induction hs arbitrary: s)
    case (Cons v hs)
    show ?case
    proof (cases "w = v")
      case True
      then show ?thesis using Cons.prems * [of "wt_state v" hs "wake f v s"] by (auto simp: wake_def [of f v s])
    qed (use Cons in simp)
  qed simp
qed

text \<open>A scan of one queue followed by the wake-ups.\<close>

lemma scan_wake:
  assumes t: "tidy s" and sc: "scan_ok n ws (mc_cells s) hs ws' (mc_cells s')"
    and q: "refs Q s = map (\<lambda>w. (wt_state w, f (wt_handle w))) ws" "refs Q s' = map (\<lambda>w. (wt_state w, f (wt_handle w))) ws'" "\<And>Q'. Q' \<noteq> Q \<Longrightarrow> refs Q' s' = refs Q' s"
    and w: "mc_woken s' = mc_woken s"
  shows "calm s (fold (wake f) hs s')" "wt_state ` set hs \<subseteq> woken_by {Q} s s'"
    "card (wt_state ` set hs) = length hs" "length hs \<le> n" "length hs < n \<Longrightarrow> waiting {Q} s' = {}"
proof -
  note k = sc [unfolded scan_ok_def]
  show "calm s (fold (wake f) hs s')"
    using scan_calm [OF t, of n ws hs ws' "fold (wake f) hs s'" Q f] sc q fold_wake_woken(1) [of _ hs f s'] fold_wake_woken(2) [of hs _ f s'] k w by simp
  show "wt_state ` set hs \<subseteq> woken_by {Q} s s'" using k q(1) by (auto simp: ptrs_def woken_by_def)
  show "card (wt_state ` set hs) = length hs" using k by (metis distinct_card length_map set_map)
  show "length hs \<le> n" using k by blast
  show "waiting {Q} s' = {}" if "length hs < n" using k q(2) that by (auto simp: waiting_def ptrs_def)
qed

definition scanner :: "('n, 'p, ('n, 'p) waiter option) scan \<Rightarrow> bool" where
  "scanner f \<longleftrightarrow> (\<forall>ws cells h ws' cells'. f ws cells = Some (h, ws', cells') \<longrightarrow> distinct (map wt_state ws) \<longrightarrow> scan_ok 1 ws cells (case h of None \<Rightarrow> [] | Some w \<Rightarrow> [w]) ws' cells') \<and>
     (\<forall>ws cells. (\<forall>w \<in> set ws. cells (wt_state w) \<noteq> None) \<longrightarrow> (\<exists>r. f ws cells = Some r))"

lemma scanners: "scanner notify_first" "scanner pop_first"
  unfolding scanner_def using notify_first_scan pop_first_scan notify_first_total pop_first_total by blast+

lemma wake_one_fold: "wake_one wk None s = fold (wake Waker) (case wk of None \<Rightarrow> [] | Some w \<Rightarrow> [w]) s" "wake_one None th s = fold (wake Thread) (case th of None \<Rightarrow> [] | Some w \<Rightarrow> [w]) s"
  by (simp_all add: wake_one_def split: option.split)

lemma tidy_distinct: "tidy s \<Longrightarrow> distinct (map wt_state (mc_async_receivers s))" "tidy s \<Longrightarrow> distinct (map wt_state (mc_sync_receivers s))"
  "tidy s \<Longrightarrow> distinct (map wt_state (mc_async_senders s))" "tidy s \<Longrightarrow> distinct (map wt_state (mc_sync_senders s))"
  unfolding tidy_def
  by (elim conjE, drule spec [of _ Async_Receivers], simp add: ptrs_def comp_def, elim conjE, drule spec [of _ Sync_Receivers], simp add: ptrs_def comp_def,
      elim conjE, drule spec [of _ Async_Senders], simp add: ptrs_def comp_def, elim conjE, drule spec [of _ Sync_Senders], simp add: ptrs_def comp_def)

lemma tidy_alive: "tidy s \<Longrightarrow> \<forall>w \<in> set (mc_async_receivers s). mc_cells s (wt_state w) \<noteq> None" "tidy s \<Longrightarrow> \<forall>w \<in> set (mc_sync_receivers s). mc_cells s (wt_state w) \<noteq> None"
  "tidy s \<Longrightarrow> \<forall>w \<in> set (mc_async_senders s). mc_cells s (wt_state w) \<noteq> None" "tidy s \<Longrightarrow> \<forall>w \<in> set (mc_sync_senders s). mc_cells s (wt_state w) \<noteq> None"
proof -
  have *: "p \<in> set (ptrs Q s) \<Longrightarrow> mc_cells s p \<noteq> None" if "tidy s" for p Q using that unfolding tidy_def by blast
  show "tidy s \<Longrightarrow> \<forall>w \<in> set (mc_async_receivers s). mc_cells s (wt_state w) \<noteq> None" using * [of _ Async_Receivers] by (auto simp: ptrs_def)
  show "tidy s \<Longrightarrow> \<forall>w \<in> set (mc_sync_receivers s). mc_cells s (wt_state w) \<noteq> None" using * [of _ Sync_Receivers] by (auto simp: ptrs_def)
  show "tidy s \<Longrightarrow> \<forall>w \<in> set (mc_async_senders s). mc_cells s (wt_state w) \<noteq> None" using * [of _ Async_Senders] by (auto simp: ptrs_def)
  show "tidy s \<Longrightarrow> \<forall>w \<in> set (mc_sync_senders s). mc_cells s (wt_state w) \<noteq> None" using * [of _ Sync_Senders] by (auto simp: ptrs_def)
qed

lemma refs_other [simp]:
  "Q \<noteq> Async_Receivers \<Longrightarrow> refs Q (s\<lparr>mc_async_receivers := ws\<rparr>) = refs Q s" "Q \<noteq> Sync_Receivers \<Longrightarrow> refs Q (s\<lparr>mc_sync_receivers := vs\<rparr>) = refs Q s"
  "Q \<noteq> Async_Senders \<Longrightarrow> refs Q (s\<lparr>mc_async_senders := ws\<rparr>) = refs Q s" "Q \<noteq> Sync_Senders \<Longrightarrow> refs Q (s\<lparr>mc_sync_senders := vs\<rparr>) = refs Q s"
  by (cases Q; simp)+

lemma woken_by_mono: "K \<subseteq> K' \<Longrightarrow> woken_by K s s' \<subseteq> woken_by K' s s'"
  by (auto simp: woken_by_def)

lemma waiting_insert: "waiting (insert Q K) s = waiting {Q} s \<union> waiting K s"
  by (auto simp: waiting_def)

lemma notify_receiver_calm:
  assumes t: "tidy s" and n: "notify_receiver f g s = Some (wk, th, s1)" and f: "scanner f" "scanner g"
  shows "calm s (wake_one wk th s1)" "wk \<noteq> None \<or> th \<noteq> None \<or> mpmc_is_full s \<or> waiting receivers s1 = {}"
    "wk \<noteq> None \<or> th \<noteq> None \<Longrightarrow> 1 \<le> card (woken_by receivers s s1)"
proof -
  have all: "calm s (wake_one wk th s1) \<and> (wk \<noteq> None \<or> th \<noteq> None \<or> mpmc_is_full s \<or> waiting receivers s1 = {}) \<and>
    (wk \<noteq> None \<or> th \<noteq> None \<longrightarrow> 1 \<le> card (woken_by receivers s s1))"
  proof (cases "mpmc_is_full s")
    case True
    then show ?thesis using n calm_refl [OF t] by (auto simp: notify_receiver_def wake_one_def)
  next
    case False
    obtain wk1 ws c where a: "f (mc_async_receivers s) (mc_cells s) = Some (wk1, ws, c)" using n False by (auto simp: notify_receiver_def split: Option.bind_splits)
    let ?s = "s\<lparr>mc_async_receivers := ws, mc_cells := c\<rparr>"
    let ?hs = "case wk1 of None \<Rightarrow> [] | Some w \<Rightarrow> [w]"
    have sc: "scan_ok 1 (mc_async_receivers s) (mc_cells s) ?hs ws (mc_cells ?s)" using f(1) a tidy_distinct(1) [OF t] unfolding scanner_def by simp
    have A: "calm s (fold (wake Waker) ?hs ?s)" "wt_state ` set ?hs \<subseteq> woken_by {Async_Receivers} s ?s" "length ?hs < 1 \<Longrightarrow> waiting {Async_Receivers} ?s = {}"
      using scan_wake [OF t sc, of Async_Receivers Waker] by (simp_all del: One_nat_def)
    show ?thesis
    proof (cases wk1)
      case (Some w)
      then have r: "wk = Some w" "th = None" "s1 = ?s" using n False a by (simp_all add: notify_receiver_def)
      have "calm s (wake_one wk th s1)" using A(1) r Some by (simp add: wake_one_def)
      moreover have "wt_state w \<in> woken_by receivers s s1" using A(2) r Some woken_by_mono [of "{Async_Receivers}" receivers s s1] by auto
      then have "1 \<le> card (woken_by receivers s s1)" using woken_by_finite [of receivers s s1] by (metis One_nat_def Suc_leI card_gt_0_iff empty_iff)
      ultimately show ?thesis using r by simp
    next
      case None
      obtain ws2 c2 where b: "g (mc_sync_receivers s) c = Some (th, ws2, c2)" and r: "wk = None" "s1 = ?s\<lparr>mc_sync_receivers := ws2, mc_cells := c2\<rparr>"
        using n False a None by (auto simp: notify_receiver_def split: Option.bind_splits)
      let ?h2 = "case th of None \<Rightarrow> [] | Some w \<Rightarrow> [w]"
      have c1: "calm s ?s" using A(1) None by simp
      note t1 = calm_tidy [OF c1 t]
      have sc2: "scan_ok 1 (mc_sync_receivers ?s) (mc_cells ?s) ?h2 ws2 (mc_cells s1)" using f(2) b tidy_distinct(2) [OF t1] r(2) unfolding scanner_def by simp
      note B = scan_wake [OF t1 sc2, of Sync_Receivers Thread] 
      have B1: "calm ?s (fold (wake Thread) ?h2 s1)" "wt_state ` set ?h2 \<subseteq> woken_by {Sync_Receivers} ?s s1" "length ?h2 < 1 \<Longrightarrow> waiting {Sync_Receivers} s1 = {}"
        using B r(2) by (simp_all del: One_nat_def)
      have "calm s (wake_one wk th s1)" using calm_trans [OF c1 B1(1)] r(1) by (simp add: wake_one_fold)
      moreover have "waiting receivers s1 = {}" if "th = None"
      proof -
        have "waiting {Async_Receivers} ?s = {}" using A(3) None by simp
        moreover have "calm ?s s1" using B1(1) that by simp
        ultimately show ?thesis using calm_waiting [of ?s s1 "{Async_Receivers}"] B1(3) that waiting_insert [of Sync_Receivers "{Async_Receivers}" s1] by simp
      qed
      moreover have "1 \<le> card (woken_by receivers s s1)" if h: "th = Some w" for w
      proof -
        have "wt_state w \<in> woken_by {Sync_Receivers} ?s s1" using B1(2) h by simp
        then have "wt_state w \<in> woken_by receivers s s1" using c1 notifiedD(1,2) [of "wt_state w" s ?s] unfolding woken_by_def calm_def by fastforce
        then show ?thesis using woken_by_finite [of receivers s s1] by (metis One_nat_def Suc_leI card_gt_0_iff empty_iff)
      qed
      ultimately show ?thesis using r(1) by (cases th) simp_all
    qed
  qed
  show "calm s (wake_one wk th s1)" "wk \<noteq> None \<or> th \<noteq> None \<or> mpmc_is_full s \<or> waiting receivers s1 = {}"
    "wk \<noteq> None \<or> th \<noteq> None \<Longrightarrow> 1 \<le> card (woken_by receivers s s1)" using all by blast+
qed

lemma notify_receiver_total: "tidy s \<Longrightarrow> scanner f \<Longrightarrow> scanner g \<Longrightarrow> \<exists>r. notify_receiver f g s = Some r"
proof -
  assume t: "tidy s" and f: "scanner f" "scanner g"
  obtain wk ws c where a: "f (mc_async_receivers s) (mc_cells s) = Some (wk, ws, c)" using f(1) tidy_alive(1) [OF t] unfolding scanner_def by (metis prod_cases3)
  have "scan_ok 1 (mc_async_receivers s) (mc_cells s) (case wk of None \<Rightarrow> [] | Some w \<Rightarrow> [w]) ws c" using f(1) a tidy_distinct(1) [OF t] unfolding scanner_def by blast
  then have "\<forall>w \<in> set (mc_sync_receivers s). c (wt_state w) \<noteq> None" using tidy_alive(2) [OF t] by (auto simp: scan_ok_def)
  then obtain r where "g (mc_sync_receivers s) c = Some r" using f(2) unfolding scanner_def by blast
  then show ?thesis using a by (cases r) (auto simp: notify_receiver_def Let_def)
qed

lemma try_send_core_calm:
  assumes t: "tidy s" and ok: "mpmc_ok s" and r: "try_send_core x s = Some (r, s')"
  shows "calm s s'" "serves receivers (if r = None then 1 else 0) s s'"
proof -
  have "calm s s' \<and> serves receivers (if r = None then 1 else 0) s s'"
  proof (cases "mc_receiver_count s = 0")
    case True
    then show ?thesis using r calm_refl [OF t] by (auto simp: try_send_core_def)
  next
    case False
    then obtain wk th s1 where n: "notify_receiver notify_first notify_first s = Some (wk, th, s1)" using r by (auto simp: try_send_core_def split: Option.bind_splits)
    note c = notify_receiver_calm [OF t n scanners(1) scanners(1)]
    note f = notify_receiver_fifo [OF n ok]
    note e = fifo_same [OF f(2)]
    show ?thesis
    proof (cases "length (mpmc_items s) < mc_capacity s")
      case True
      then obtain q where q: "mpmc_push x s1 = Some (s1\<lparr>mc_queue := q, mc_queue_len := length (mpmc_items s1) + 1\<rparr>)" using mpmc_push_ok [OF f(1), of x] e by metis
      have l: "mc_queue_len s1 < mc_capacity s1" "\<not> mpmc_is_full s" using True f(1) e mpmc_is_full_ok [OF ok] by (auto simp: mpmc_ok_def)
      have "s' = wake_one wk th (s1\<lparr>mc_queue := q, mc_queue_len := length (mpmc_items s1) + 1\<rparr>)" "r = None"
        using r False n q l by (auto simp: try_send_core_def wake_one_def split: if_splits)
      moreover have "wake_one wk th (s1\<lparr>mc_queue := q, mc_queue_len := m\<rparr>) = (wake_one wk th s1)\<lparr>mc_queue := q, mc_queue_len := m\<rparr>" for m
        by (simp add: wake_one_def wake_def split: option.split)
      moreover have "serves receivers 1 s (wake_one wk th s1)" using c(2,3) l(2) by (auto simp: serves_def waiting_def woken_by_def)
      ultimately show ?thesis using c(1) by simp
    next
      case full: False
      then have "wk = None" "th = None" using f(3) by blast+
      then show ?thesis using r False n full f(1) e c(1) by (auto simp: try_send_core_def wake_one_def mpmc_ok_def split: if_splits)
    qed
  qed
  then show "calm s s'" "serves receivers (if r = None then 1 else 0) s s'" by blast+
qed

lemma try_send_core_total: "tidy s \<Longrightarrow> mpmc_ok s \<Longrightarrow> \<exists>r s'. try_send_core x s = Some (r, s')"
proof -
  assume t: "tidy s" and ok: "mpmc_ok s"
  obtain wk th s1 where n: "notify_receiver notify_first notify_first s = Some (wk, th, s1)" using notify_receiver_total [OF t scanners(1) scanners(1)] by auto
  note f = notify_receiver_fifo [OF n ok]
  have "\<exists>s2. mpmc_push x s1 = Some s2" if "wk \<noteq> None \<or> th \<noteq> None \<or> mc_queue_len s1 < mc_capacity s1"
    using mpmc_push_ok [OF f(1), of x] f(3) f(1) that fifo_same [OF f(2)] by (metis mpmc_ok_def)
  then show ?thesis using n by (auto simp: try_send_core_def)
qed

lemma notify_sender_calm:
  assumes t: "tidy s" and n: "notify_sender s = Some s'"
  shows "calm s s'" "serves senders 1 s s'"
proof -
  obtain wk ws c where a: "notify_first (mc_async_senders s) (mc_cells s) = Some (wk, ws, c)" using n by (auto simp: notify_sender_def split: Option.bind_splits)
  let ?s = "s\<lparr>mc_async_senders := ws, mc_cells := c\<rparr>"
  let ?hs = "case wk of None \<Rightarrow> [] | Some w \<Rightarrow> [w]"
  have sc: "scan_ok 1 (mc_async_senders s) (mc_cells s) ?hs ws (mc_cells ?s)" using notify_first_scan [OF a tidy_distinct(3) [OF t]] by simp
  have A: "calm s (fold (wake Waker) ?hs ?s)" "wt_state ` set ?hs \<subseteq> woken_by {Async_Senders} s ?s" "length ?hs < 1 \<Longrightarrow> waiting {Async_Senders} ?s = {}"
    using scan_wake [OF t sc, of Async_Senders Waker] by (simp_all del: One_nat_def)
  have "calm s s' \<and> serves senders 1 s s'"
  proof (cases wk)
    case (Some w)
    then have s': "s' = wake_one wk None ?s" using n a by (simp add: notify_sender_def)
    then have "calm s s'" using A(1) Some by (simp add: wake_one_def)
    moreover have "wt_state w \<in> woken_by senders s s'" using A(2) s' Some by (auto simp: woken_by_def)
    then have "1 \<le> card (woken_by senders s s')" using woken_by_finite [of senders s s'] by (metis One_nat_def Suc_leI card_gt_0_iff empty_iff)
    ultimately show ?thesis by (simp add: serves_def)
  next
    case None
    obtain th ws2 c2 where b: "notify_first (mc_sync_senders s) c = Some (th, ws2, c2)" and r: "s' = wake_one None th (?s\<lparr>mc_sync_senders := ws2, mc_cells := c2\<rparr>)"
      using n a None by (auto simp: notify_sender_def split: Option.bind_splits)
    let ?s2 = "?s\<lparr>mc_sync_senders := ws2, mc_cells := c2\<rparr>"
    let ?h2 = "case th of None \<Rightarrow> [] | Some w \<Rightarrow> [w]"
    have c1: "calm s ?s" using A(1) None by simp
    note t1 = calm_tidy [OF c1 t]
    have sc2: "scan_ok 1 (mc_sync_senders ?s) (mc_cells ?s) ?h2 ws2 (mc_cells ?s2)" using notify_first_scan [of "mc_sync_senders ?s" "mc_cells ?s"] b tidy_distinct(4) [OF t1] by simp
    have B: "calm ?s (fold (wake Thread) ?h2 ?s2)" "wt_state ` set ?h2 \<subseteq> woken_by {Sync_Senders} ?s ?s2" "length ?h2 < 1 \<Longrightarrow> waiting {Sync_Senders} ?s2 = {}"
      using scan_wake [OF t1 sc2, of Sync_Senders Thread] by (simp_all del: One_nat_def)
    have c2: "calm ?s s'" using B(1) r by (simp add: wake_one_fold)
    have "serves senders 1 ?s s'"
    proof (cases th)
      case None
      then have "waiting {Sync_Senders} s' = {}" using B(3) r by (simp add: wake_one_def)
      moreover have "waiting {Async_Senders} s' = {}" using A(3) \<open>wk = None\<close> calm_waiting [OF c2, of "{Async_Senders}"] by simp
      ultimately show ?thesis using waiting_insert [of Sync_Senders "{Async_Senders}" s'] by (simp add: serves_def)
    next
      case (Some w)
      then have "wt_state w \<in> woken_by senders ?s s'" using B(2) r by (auto simp: woken_by_def)
      then have "1 \<le> card (woken_by senders ?s s')" using woken_by_finite [of senders ?s s'] by (metis One_nat_def Suc_leI card_gt_0_iff empty_iff)
      then show ?thesis by (simp add: serves_def)
    qed
    then show ?thesis using calm_trans [OF c1 c2] serves_trans [OF c1 c2 serves_0, of senders 1] by simp
  qed
  then show "calm s s'" "serves senders 1 s s'" by blast+
qed

lemma notify_sender_total: "tidy s \<Longrightarrow> \<exists>s'. notify_sender s = Some s'"
proof -
  assume t: "tidy s"
  obtain wk ws c where a: "notify_first (mc_async_senders s) (mc_cells s) = Some (wk, ws, c)" using notify_first_total [OF tidy_alive(3) [OF t]] by auto
  have "\<forall>w \<in> set (mc_sync_senders s). c (wt_state w) \<noteq> None" using tidy_alive(4) [OF t] notify_first_scan [OF a tidy_distinct(3) [OF t]] by (auto simp: scan_ok_def)
  then obtain r where "notify_first (mc_sync_senders s) c = Some r" using notify_first_total by blast
  then show ?thesis using a by (cases r) (auto simp: notify_sender_def Let_def)
qed

lemma try_recv_core_calm:
  assumes t: "tidy s" and ok: "mpmc_ok s" and r: "try_recv_core s = Some (r, s')"
  shows "calm s s'" "serves senders (case r of Inr _ \<Rightarrow> 1 | Inl _ \<Rightarrow> 0) s s'"
proof -
  have "calm s s' \<and> serves senders (case r of Inr _ \<Rightarrow> 1 | Inl _ \<Rightarrow> 0) s s'"
  proof (cases "mpmc_items s")
    case Nil
    then show ?thesis using r mpmc_pop_front_ok(1) [OF ok] calm_refl [OF t] by (auto simp: try_recv_core_def)
  next
    case (Cons x xs)
    obtain q where q: "mpmc_pop_front s = Some (Some x, s\<lparr>mc_queue := q, mc_queue_len := length xs\<rparr>)" using mpmc_pop_front_ok(2) [OF ok Cons] by blast
    have n: "notify_sender (s\<lparr>mc_queue := q, mc_queue_len := length xs\<rparr>) = Some s'" "r = Inr x" using r q ok by (auto simp: try_recv_core_def mpmc_ok_def split: Option.bind_splits)
    show ?thesis using notify_sender_calm [OF _ n(1)] t n(2) by simp
  qed
  then show "calm s s'" "serves senders (case r of Inr _ \<Rightarrow> 1 | Inl _ \<Rightarrow> 0) s s'" by blast+
qed

lemma try_recv_core_total: "tidy s \<Longrightarrow> mpmc_ok s \<Longrightarrow> \<exists>r s'. try_recv_core s = Some (r, s')"
proof (cases "mpmc_items s")
  case (Cons x xs)
  assume t: "tidy s" and ok: "mpmc_ok s"
  obtain q where q: "mpmc_pop_front s = Some (Some x, s\<lparr>mc_queue := q, mc_queue_len := length xs\<rparr>)" using mpmc_pop_front_ok(2) [OF ok Cons] by blast
  then show ?thesis using notify_sender_total [of "s\<lparr>mc_queue := q, mc_queue_len := length xs\<rparr>"] t by (auto simp: try_recv_core_def)
qed (auto simp: try_recv_core_def mpmc_pop_front_ok(1))

lemma send_batch_loop_calm:
  assumes "send_batch_loop n sent iter s = Some (sent', iter', s')" "tidy s" "mpmc_ok s"
  shows "calm s s' \<and> sent \<le> sent' \<and> serves receivers (sent' - sent) s s'"
  using assms
proof (induction n arbitrary: sent iter s)
  case 0
  then show ?case using calm_refl by auto
next
  case (Suc n)
  obtain wk th s1 where n: "notify_receiver pop_first pop_first s = Some (wk, th, s1)" using Suc.prems(1) by (auto split: Option.bind_splits)
  note c = notify_receiver_calm [OF Suc.prems(2) n scanners(2) scanners(2)]
  note f = notify_receiver_fifo [OF n Suc.prems(3)]
  note e = fifo_same [OF f(2)]
  show ?case
  proof (cases "length (mpmc_items s) < mc_capacity s")
    case True
    have l: "mc_queue_len s1 < mc_capacity s1" "\<not> mpmc_is_full s" using True f(1) e mpmc_is_full_ok [OF Suc.prems(3)] by (auto simp: mpmc_ok_def)
    obtain x ys where i: "iter = x # ys" using Suc.prems(1) n l by (cases iter) (auto split: Option.bind_splits if_splits)
    obtain q where q: "mpmc_push x s1 = Some (s1\<lparr>mc_queue := q, mc_queue_len := length (mpmc_items s1) + 1\<rparr>)" "mpmc_ok (s1\<lparr>mc_queue := q, mc_queue_len := length (mpmc_items s1) + 1\<rparr>)"
      using mpmc_push_ok [OF f(1), of x] e True by metis
    define s2 where "s2 = (wake_one wk th s1)\<lparr>mc_queue := q, mc_queue_len := length (mpmc_items s1) + 1\<rparr>"
    have w: "wake_one wk th (s1\<lparr>mc_queue := q, mc_queue_len := m\<rparr>) = (wake_one wk th s1)\<lparr>mc_queue := q, mc_queue_len := m\<rparr>" for m
      by (simp add: wake_one_def wake_def split: option.split)
    have r: "send_batch_loop n (Suc sent) ys s2 = Some (sent', iter', s')" using Suc.prems(1) n i q(1) l w by (cases "wk = None \<and> th = None") (auto simp: s2_def wake_one_def)
    have c2: "calm s s2" using c(1) by (simp add: s2_def)
    have "serves receivers 1 s s2" using c(2,3) l(2) by (auto simp: s2_def serves_def waiting_def woken_by_def)
    moreover have "mpmc_ok s2" using q(2) unfolding s2_def w [symmetric] by simp
    moreover note IH = Suc.IH [OF r calm_tidy [OF c2 Suc.prems(2)] calculation(2)]
    moreover have "1 + (sent' - Suc sent) = sent' - sent" using IH by linarith
    ultimately show ?thesis using calm_trans [OF c2] serves_trans [OF c2, of s' receivers 1 "sent' - Suc sent"] by simp
  next
    case full: False
    then have "wk = None" "th = None" using f(3) by blast+
    then have "s' = s1" "sent' = sent" "wake_one wk th s1 = s1" using Suc.prems(1) n full f(1) e by (auto simp: mpmc_ok_def wake_one_def split: if_splits)
    then show ?thesis using c(1) by simp
  qed
qed

lemma send_batch_loop_total: "tidy s \<Longrightarrow> mpmc_ok s \<Longrightarrow> n \<le> length iter \<Longrightarrow> \<exists>r. send_batch_loop n sent iter s = Some r"
proof (induction n arbitrary: sent iter s)
  case (Suc n)
  obtain wk th s1 where n: "notify_receiver pop_first pop_first s = Some (wk, th, s1)" using notify_receiver_total [OF Suc.prems(1) scanners(2) scanners(2)] by auto
  note c = notify_receiver_calm [OF Suc.prems(1) n scanners(2) scanners(2)]
  note f = notify_receiver_fifo [OF n Suc.prems(2)]
  note e = fifo_same [OF f(2)]
  obtain x ys where i: "iter = x # ys" using Suc.prems(3) by (cases iter) auto
  have w: "wake_one wk th (s1\<lparr>mc_queue := q, mc_queue_len := m\<rparr>) = (wake_one wk th s1)\<lparr>mc_queue := q, mc_queue_len := m\<rparr>" for m q
    by (simp add: wake_one_def wake_def split: option.split)
  show ?case
  proof (cases "length (mpmc_items s) < mc_capacity s")
    case True
    obtain q where q: "mpmc_push x s1 = Some (s1\<lparr>mc_queue := q, mc_queue_len := length (mpmc_items s1) + 1\<rparr>)" "mpmc_ok (s1\<lparr>mc_queue := q, mc_queue_len := length (mpmc_items s1) + 1\<rparr>)"
      using mpmc_push_ok [OF f(1), of x] e True by metis
    let ?s2 = "wake_one wk th (s1\<lparr>mc_queue := q, mc_queue_len := length (mpmc_items s1) + 1\<rparr>)"
    have "mpmc_ok ?s2" "tidy ?s2" using q(2) calm_tidy [OF c(1) Suc.prems(1)] by (simp, simp add: w)
    then have "\<exists>r. send_batch_loop n (Suc sent) ys ?s2 = Some r" using Suc.IH [of ?s2 ys "Suc sent"] Suc.prems(3) i by simp
    moreover have "mc_queue_len s1 < mc_capacity s1" using True f(1) e by (simp add: mpmc_ok_def)
    ultimately show ?thesis using n i q(1) by (cases "wk = None \<and> th = None") (auto simp: wake_one_def)
  next
    case False
    then have "wk = None" "th = None" "\<not> mc_queue_len s1 < mc_capacity s1" using f e by (blast, blast, simp add: mpmc_ok_def)
    then show ?thesis using n by simp
  qed
qed simp

lemma try_send_batch_core_calm:
  assumes "tidy s" "mpmc_ok s" "try_send_batch_core iter limit s = Some ((k, reason), iter', s')"
  shows "calm s s'" "serves receivers k s s'"
  using assms send_batch_loop_calm [of limit 0 iter s] calm_refl [OF assms(1)] by (auto simp: try_send_batch_core_def split: if_splits Option.bind_splits)

lemma try_send_batch_core_total: "tidy s \<Longrightarrow> mpmc_ok s \<Longrightarrow> limit \<le> length iter \<Longrightarrow> \<exists>k reason iter' s'. try_send_batch_core iter limit s = Some ((k, reason), iter', s')"
  using send_batch_loop_total [of s limit iter 0] by (auto simp: try_send_batch_core_def)

lemma notify_senders_calm:
  assumes t: "tidy s" and n: "notify_senders n s = Some s'"
  shows "calm s s'" "serves senders n s s'"
proof -
  obtain hs ws c where a: "notify_upto n (mc_async_senders s) (mc_cells s) = Some (hs, ws, c)" using n by (auto simp: notify_senders_def split: Option.bind_splits)
  let ?s = "s\<lparr>mc_async_senders := ws, mc_cells := c\<rparr>"
  let ?s1 = "fold (wake Waker) hs ?s"
  have sc: "scan_ok n (mc_async_senders s) (mc_cells s) hs ws (mc_cells ?s)" using notify_upto_scan [OF a tidy_distinct(3) [OF t]] by simp
  note A = scan_wake [OF t sc, of Async_Senders Waker, simplified]
  note t1 = calm_tidy [OF A(1) t]
  obtain h2 ws2 c2 where b: "notify_upto (n - length hs) (mc_sync_senders ?s1) (mc_cells ?s1) = Some (h2, ws2, c2)"
    and s': "s' = fold (wake Thread) h2 (?s1\<lparr>mc_sync_senders := ws2, mc_cells := c2\<rparr>)"
    using n a by (auto simp: notify_senders_def Let_def split: Option.bind_splits)
  let ?s2 = "?s1\<lparr>mc_sync_senders := ws2, mc_cells := c2\<rparr>"
  have sc2: "scan_ok (n - length hs) (mc_sync_senders ?s1) (mc_cells ?s1) h2 ws2 (mc_cells ?s2)" using notify_upto_scan [OF b tidy_distinct(4) [OF t1]] by simp
  have B: "calm ?s1 (fold (wake Thread) h2 ?s2)" "wt_state ` set h2 \<subseteq> woken_by {Sync_Senders} ?s1 ?s2" "card (wt_state ` set h2) = length h2"
    "length h2 \<le> n - length hs" "length h2 < n - length hs \<Longrightarrow> waiting {Sync_Senders} ?s2 = {}"
    using scan_wake [OF t1 sc2, of Sync_Senders Thread] by simp_all
  show "calm s s'" using calm_trans [OF A(1) B(1)] s' by simp
  have "length hs \<le> card (woken_by senders s ?s1)" using A(2,3) card_mono [OF woken_by_finite, of "wt_state ` set hs" senders s ?s1] by (auto simp: woken_by_def)
  then have v1: "serves senders (length hs) s ?s1" by (simp add: serves_def)
  have "wt_state ` set h2 \<subseteq> woken_by senders ?s1 s'" using B(2) s' by (auto simp: woken_by_def)
  from card_mono [OF woken_by_finite this] have "length h2 \<le> card (woken_by senders ?s1 s')" using B(3) by simp
  moreover have "waiting senders s' = {}" if "length h2 < n - length hs"
  proof -
    have "waiting {Async_Senders} ?s = {}" using A(5) that by simp
    then have "waiting {Async_Senders} ?s1 = {}" by (simp add: waiting_def)
    then have "waiting {Async_Senders} s' = {}" using calm_waiting [OF B(1), of "{Async_Senders}"] s' by simp
    moreover have "waiting {Sync_Senders} s' = {}" using B(5) [OF that] s' by (simp add: waiting_def)
    ultimately show ?thesis using waiting_insert [of Sync_Senders "{Async_Senders}" s'] by simp
  qed
  ultimately have "serves senders (n - length hs) ?s1 s'" by (auto simp: serves_def)
  then show "serves senders n s s'" using serves_trans [OF A(1) _ v1, of s' "n - length hs"] B(1) s' A(4) by simp
qed

lemma notify_senders_total: "tidy s \<Longrightarrow> \<exists>s'. notify_senders n s = Some s'"
proof -
  assume t: "tidy s"
  obtain hs ws c where a: "notify_upto n (mc_async_senders s) (mc_cells s) = Some (hs, ws, c)" using notify_upto_total [OF tidy_alive(3) [OF t]] by (metis prod_cases3)
  have "\<forall>w \<in> set (mc_sync_senders s). c (wt_state w) \<noteq> None" using tidy_alive(4) [OF t] notify_upto_scan [OF a tidy_distinct(3) [OF t]] by (auto simp: scan_ok_def)
  then obtain r where "notify_upto (n - length hs) (mc_sync_senders s) c = Some r" using notify_upto_total by blast
  then show ?thesis using a by (cases r) (auto simp: notify_senders_def Let_def)
qed

lemma try_recv_batch_core_calm:
  assumes t: "tidy s" and ok: "mpmc_ok s" and r: "try_recv_batch_core out mx s = Some (r, out', s')"
  shows "calm s s'" "serves senders (length out' - length out) s s'"
proof -
  let ?n = "min mx (length (mpmc_items s))"
  have l: "mc_queue_len s = length (mpmc_items s)" "0 < mc_capacity s" using ok by (simp_all add: mpmc_ok_def)
  have "calm s s' \<and> serves senders (length out' - length out) s s'"
  proof (cases "?n = 0")
    case True
    then show ?thesis using r l calm_refl [OF t] by (auto simp: try_recv_batch_core_def Let_def split: if_splits)
  next
    case False
    obtain q where q: "mpmc_drain_into out ?n s = Some (out @ take ?n (mpmc_items s), s\<lparr>mc_queue := q, mc_queue_len := length (mpmc_items s) - ?n\<rparr>)"
      using mpmc_drain_into_ok [OF ok, of ?n out] by auto
    have n: "notify_senders (?n + (mx - ?n)) (s\<lparr>mc_queue := q, mc_queue_len := length (mpmc_items s) - ?n\<rparr>) = Some s'" "out' = out @ take ?n (mpmc_items s)"
      using r False q l by (auto simp: try_recv_batch_core_def Let_def split: Option.bind_splits)
    show ?thesis using notify_senders_calm [OF _ n(1)] t n(2) by (auto intro: serves_mono)
  qed
  then show "calm s s'" "serves senders (length out' - length out) s s'" by blast+
qed

lemma try_recv_batch_core_total: "tidy s \<Longrightarrow> mpmc_ok s \<Longrightarrow> \<exists>r out' s'. try_recv_batch_core out mx s = Some (r, out', s')"
proof -
  assume t: "tidy s" and ok: "mpmc_ok s"
  let ?n = "min mx (length (mpmc_items s))"
  have l: "mc_queue_len s = length (mpmc_items s)" using ok by (simp add: mpmc_ok_def)
  obtain q where q: "mpmc_drain_into out ?n s = Some (out @ take ?n (mpmc_items s), s\<lparr>mc_queue := q, mc_queue_len := length (mpmc_items s) - ?n\<rparr>)"
    using mpmc_drain_into_ok [OF ok, of ?n out] by auto
  have "tidy (s\<lparr>mc_queue := q, mc_queue_len := length (mpmc_items s) - ?n\<rparr>)" using t by simp
  from notify_senders_total [OF this, of "?n + (mx - ?n)"] obtain s' where
    "notify_senders (?n + (mx - ?n)) (s\<lparr>mc_queue := q, mc_queue_len := length (mpmc_items s) - ?n\<rparr>) = Some s'" by blast
  then show ?thesis using q l by (simp add: try_recv_batch_core_def Let_def)
qed

lemma mpmc_call_calm: "mpmc_call closed c s = Some (r, s') \<Longrightarrow> tidy s \<Longrightarrow> mpmc_ok s \<Longrightarrow> calm s s'"
  by (cases c) (auto simp: calm_refl split: Option.bind_splits if_splits dest: try_send_core_calm try_recv_core_calm try_send_batch_core_calm try_recv_batch_core_calm)

lemma mpmc_call_total:
  assumes t: "tidy s" and ok: "mpmc_ok s"
  shows "\<exists>r s'. mpmc_call closed c s = Some (r, s')"
proof (cases c)
  case (Try_Send x)
  then show ?thesis using try_send_core_total [OF t ok, of x] by (cases closed) auto
next
  case Try_Recv
  then show ?thesis using try_recv_core_total [OF t ok] by (cases closed) auto
next
  case (Try_Send_Batch xs)
  obtain k reason rest s' where "try_send_batch_core xs (length xs) s = Some ((k, reason), rest, s')" using try_send_batch_core_total [OF t ok order.refl, of xs] by blast
  then show ?thesis using Try_Send_Batch by simp
next
  case (Try_Recv_Batch mx)
  obtain r out s' where "try_recv_batch_core [] mx s = Some (r, out, s')" using try_recv_batch_core_total [OF t ok] by blast
  then show ?thesis using Try_Recv_Batch by simp
qed

subsection \<open>Closing\<close>

lemma finish_waiter_calm:
  assumes t: "tidy s" and w: "(wt_state w, f (wt_handle w)) \<in> set (refs Q s)" and st: "st = st_closed_buffered \<or> st = st_success_space \<and> Q \<in> senders"
  obtains s' where "finish_waiter f st w s = Some s'" "calm s s'" "\<And>Q. refs Q s' = refs Q s" "mc_cells s' (wt_state w) \<noteq> Some st_waiting"
proof -
  have q: "wt_state w \<in> set (ptrs Q s)" using w by (auto simp: in_ptrs)
  then obtain c where c: "mc_cells s (wt_state w) = Some c" using t unfolding tidy_def by blast
  show thesis
  proof (cases "c = st_waiting")
    case False
    then show thesis using that [of s] c calm_refl [OF t] by (simp add: finish_waiter_def)
  next
    case True
    let ?s = "wake f w (s\<lparr>mc_cells := (mc_cells s)(wt_state w \<mapsto> st)\<rparr>)"
    have nr: "wt_state w \<notin> set (ptrs Q' s)" if "st = st_success_space" "Q' \<in> receivers" for Q'
      using q t st that unfolding tidy_def by (metis empty_iff insert_iff st_distinct(8) wqueue.distinct(3,5,7,9))
    have "notified p s ?s" for p
    proof (cases "p = wt_state w")
      case p: True
      have "mc_woken ?s p = Some (f (wt_handle w))" "mc_cells ?s p = Some st" using p by (simp_all add: wake_def)
      then show ?thesis using p c True w nr st unfolding notified_def by (auto simp del: refs.simps)
    next
      case False
      then show ?thesis by (auto simp: notified_def wake_def simp del: refs.simps)
    qed
    then have "calm s ?s" using t by (simp add: calm_def tidy_def)
    moreover have "mc_cells ?s (wt_state w) \<noteq> Some st_waiting" using st by auto
    moreover have "finish_waiter f st w s = Some ?s" using c True by (simp add: finish_waiter_def)
    ultimately show thesis using that [of ?s] by simp
  qed
qed

lemma finish_waiters_calm:
  assumes "tidy s" "(\<lambda>w. (wt_state w, f (wt_handle w))) ` set ws \<subseteq> set (refs Q s)" "st = st_closed_buffered \<or> st = st_success_space \<and> Q \<in> senders"
  shows "\<exists>s'. finish_waiters f st ws s = Some s' \<and> calm s s' \<and> (\<forall>Q. refs Q s' = refs Q s) \<and> (\<forall>w \<in> set ws. mc_cells s' (wt_state w) \<noteq> Some st_waiting)"
  using assms
proof (induction ws arbitrary: s)
  case Nil
  then show ?case using calm_refl by auto
next
  case (Cons w ws)
  obtain s1 where 1: "finish_waiter f st w s = Some s1" "calm s s1" "\<And>Q. refs Q s1 = refs Q s" "mc_cells s1 (wt_state w) \<noteq> Some st_waiting"
    using finish_waiter_calm [OF Cons.prems(1), of w f Q st] Cons.prems by auto
  obtain s2 where 2: "finish_waiters f st ws s1 = Some s2" "calm s1 s2" "\<forall>Q. refs Q s2 = refs Q s1" "\<forall>w \<in> set ws. mc_cells s2 (wt_state w) \<noteq> Some st_waiting"
    using Cons.IH [OF calm_tidy [OF 1(2) Cons.prems(1)]] Cons.prems(2,3) 1(3) by auto
  have "mc_cells s2 (wt_state w) \<noteq> Some st_waiting" using 1(4) 2(2) notifiedD(1) [of "wt_state w" s1 s2] unfolding calm_def by auto
  then show ?case using 1 2 calm_trans [OF 1(2) 2(2)] by auto
qed

text \<open>Finishing the waiters of both queues of a side.\<close>

lemma finish_both_calm:
  assumes t: "tidy s" and ss: "(\<lambda>w. (wt_state w, Thread (wt_handle w))) ` set vs \<subseteq> set (refs Q1 s)" and as: "(\<lambda>w. (wt_state w, Waker (wt_handle w))) ` set ws \<subseteq> set (refs Q2 s)"
    and st: "st = st_closed_buffered \<or> st = st_success_space \<and> {Q1, Q2} \<subseteq> senders"
  obtains s1 s2 where "finish_waiters Thread st vs s = Some s1" "finish_waiters Waker st ws s1 = Some s2" "calm s s2"
    "\<forall>p \<in> wt_state ` set vs \<union> wt_state ` set ws. mc_cells s2 p \<noteq> Some st_waiting"
proof -
  have st1: "st = st_closed_buffered \<or> st = st_success_space \<and> Q1 \<in> senders" and st2: "st = st_closed_buffered \<or> st = st_success_space \<and> Q2 \<in> senders" using st by auto
  obtain s1 where 1: "finish_waiters Thread st vs s = Some s1" "calm s s1" "\<forall>Q. refs Q s1 = refs Q s" "\<forall>w \<in> set vs. mc_cells s1 (wt_state w) \<noteq> Some st_waiting"
    using finish_waiters_calm [OF t ss st1] by blast
  obtain s2 where 2: "finish_waiters Waker st ws s1 = Some s2" "calm s1 s2" "\<forall>w \<in> set ws. mc_cells s2 (wt_state w) \<noteq> Some st_waiting"
    using finish_waiters_calm [OF calm_tidy [OF 1(2) t] _ st2, of Waker ws] as 1(3) by auto
  have "mc_cells s2 (wt_state w) \<noteq> Some st_waiting" if "w \<in> set vs" for w
    using 1(4) that 2(2) notifiedD(1) [of "wt_state w" s1 s2] unfolding calm_def by auto
  then show thesis using that 1 2 calm_trans [OF 1(2) 2(2)] by blast
qed

lemma finish_waiters_frame: "finish_waiters f st ws s = Some s' \<Longrightarrow> mc_sync_receivers s' = mc_sync_receivers s \<and> mc_async_receivers s' = mc_async_receivers s \<and>
   mc_sync_senders s' = mc_sync_senders s \<and> mc_async_senders s' = mc_async_senders s"
  by (induction ws arbitrary: s) (auto simp: finish_waiter_def split: Option.bind_splits if_splits)

lemma close_sender_calm:
  assumes t: "tidy s"
  obtains s' where "close_sender s = Some s'" "calm s s'" "mc_sender_count s' = u64_sub (mc_sender_count s) 1" "mc_receiver_count s' = mc_receiver_count s"
    "mc_sender_count s' = 0 \<Longrightarrow> waiting receivers s' = {}"
proof (cases "u64_sub (mc_sender_count s) 1 = 0")
  case False
  then show thesis using that [of "s\<lparr>mc_sender_count := u64_sub (mc_sender_count s) 1\<rparr>"] calm_refl [OF t] by (simp add: close_sender_def Let_def)
next
  case True
  let ?s = "s\<lparr>mc_sender_count := u64_sub (mc_sender_count s) 1\<rparr>"
  have "tidy ?s" using t by simp
  then obtain s1 s2 where f: "finish_waiters Thread st_closed_buffered (mc_sync_receivers ?s) ?s = Some s1" "finish_waiters Waker st_closed_buffered (mc_async_receivers ?s) s1 = Some s2" "calm ?s s2"
    "\<forall>p \<in> wt_state ` set (mc_sync_receivers ?s) \<union> wt_state ` set (mc_async_receivers ?s). mc_cells s2 p \<noteq> Some st_waiting"
    using finish_both_calm [of ?s "mc_sync_receivers ?s" Sync_Receivers "mc_async_receivers ?s" Async_Receivers st_closed_buffered] by auto
  have e: "mc_async_receivers s1 = mc_async_receivers s" "mc_sync_receivers s2 = mc_sync_receivers s" "mc_async_receivers s2 = mc_async_receivers s"
    using finish_waiters_frame [OF f(1)] finish_waiters_frame [OF f(2)] by simp_all
  have "close_sender s = Some s2" using True f(1,2) e(1) by (simp add: close_sender_def Let_def)
  moreover have "mpmc_fifo s2 = mpmc_fifo ?s" using finish_waiters_fifo [OF f(1)] finish_waiters_fifo [OF f(2)] by simp
  moreover have "waiting receivers s2 = {}" using f(4) e by (auto simp: waiting_def ptrs_def)
  ultimately show thesis using that [of s2] f(3) fifo_same [of s2 ?s] by simp
qed

lemma close_receiver_calm:
  assumes t: "tidy s" and c: "0 < mc_capacity s"
  obtains s' where "close_receiver s = Some s'" "calm s s'" "mc_receiver_count s' = u64_sub (mc_receiver_count s) 1" "mc_sender_count s' = mc_sender_count s"
    "mc_receiver_count s' = 0 \<Longrightarrow> waiting senders s' = {}"
proof -
  let ?s = "s\<lparr>mc_receiver_count := u64_sub (mc_receiver_count s) 1\<rparr>"
  let ?real = "u64_sub (mc_receiver_count s) 1 = 0"
  define st vs ws where "st = (if ?real then st_closed_buffered else st_success_space)"
    and "vs = (if ?real then mc_sync_senders s else take 1 (mc_sync_senders s))" and "ws = (if ?real then mc_async_senders s else take 1 (mc_async_senders s))"
  have sub: "set vs \<subseteq> set (mc_sync_senders s)" "set ws \<subseteq> set (mc_async_senders s)" by (auto simp: vs_def ws_def dest: in_set_takeD)
  have h: "tidy ?s" "(\<lambda>w. (wt_state w, Thread (wt_handle w))) ` set vs \<subseteq> set (refs Sync_Senders ?s)" "(\<lambda>w. (wt_state w, Waker (wt_handle w))) ` set ws \<subseteq> set (refs Async_Senders ?s)"
    "st = st_closed_buffered \<or> st = st_success_space \<and> {Sync_Senders, Async_Senders} \<subseteq> senders" using t sub by (simp, auto simp: st_def)
  obtain s1 s2 where f: "finish_waiters Thread st vs ?s = Some s1" "finish_waiters Waker st ws s1 = Some s2" "calm ?s s2"
    "\<forall>p \<in> wt_state ` set vs \<union> wt_state ` set ws. mc_cells s2 p \<noteq> Some st_waiting"
    using finish_both_calm [OF h] .
  have e: "mc_async_senders s1 = mc_async_senders s" "mc_sync_senders s2 = mc_sync_senders s" "mc_async_senders s2 = mc_async_senders s"
    using finish_waiters_frame [OF f(1)] finish_waiters_frame [OF f(2)] by simp_all
  have "close_receiver s = Some s2" using f(1,2) e(1) c by (auto simp: close_receiver_def Let_def st_def vs_def ws_def)
  moreover have "mpmc_fifo s2 = mpmc_fifo ?s" using finish_waiters_fifo [OF f(1)] finish_waiters_fifo [OF f(2)] by simp
  moreover have "waiting senders s2 = {}" if "?real" using f(4) e that by (auto simp: waiting_def ptrs_def vs_def ws_def)
  ultimately show thesis using that [of s2] f(3) fifo_same [of s2 ?s] by simp
qed

end
