(* ===== verification/Mpmc_Safety.thy ===== *)
theory Mpmc_Safety
  imports Mpmc_Flags
begin

section \<open>Memory safety of the bounded MPMC channel\<close>

text \<open>
  Every step keeps the invariant on waiters, unless somebody uses the timed receive or polls a
  registered future that was not woken. So no program panics or follows a dangling pointer, and every
  call returns what the queue of the specification returns.
\<close>

subsection \<open>Steps of one program\<close>

lemma safeD: "safe ts s \<Longrightarrow> ts p = Some t \<Longrightarrow> ptr_ok (Some t) p s"
  unfolding safe_def by metis

lemma safe_step:
  assumes ok: "safe ts s" and s': "mpmc_ok s'" "\<forall>Q. distinct (ptrs Q s')" and o: "\<And>q. q \<noteq> p \<Longrightarrow> notified q s s'" and p: "ptr_ok t' p s'"
  shows "safe (ts(p := t')) s'"
  unfolding safe_def
proof (intro conjI allI)
  fix q
  have "ptr_ok (ts q) q s" using ok by (simp add: safe_def)
  then show "ptr_ok ((ts(p := t')) q) q s'" using p notified_ptr_ok [OF o [of q]] by (cases "q = p") simp_all
qed (use s' in auto)

definition same_shape :: "('a, 't, 'w) task \<Rightarrow> ('a, 't, 'w) task \<Rightarrow> bool" where
  "same_shape t t' \<longleftrightarrow> sits t' = sits t \<and> waits t' = waits t \<and> has_flag t' = has_flag t \<and> dropping t' = dropping t \<and> off_limits t' = off_limits t"

lemma same_shape_ptr_ok: "same_shape t t' \<Longrightarrow> ptr_ok (Some t') p s = ptr_ok (Some t) p s"
  unfolding same_shape_def ptr_ok_def view_ok.simps by (auto split: option.split)

lemma safe_calm:
  assumes ok: "safe ts s" and t: "ts p = Some t" "same_shape t t'" and s': "calm s s'" "mpmc_ok s'"
  shows "safe (ts(p \<mapsto> t')) s'"
proof (rule safe_step [OF ok s'(2)])
  have n: "notified q s s'" for q using s'(1) by (simp add: calm_def)
  show "\<forall>Q. distinct (ptrs Q s')" using s'(1) by (simp add: calm_def)
  show "notified q s s'" for q by (rule n)
  show "ptr_ok (Some t') p s'" using notified_ptr_ok [OF n safeD [OF ok t(1)]] by (simp only: same_shape_ptr_ok [OF t(2)])
qed

lemma safe_calm_only: "safe ts s \<Longrightarrow> calm s s' \<Longrightarrow> mpmc_ok s' \<Longrightarrow> safe ts s'"
proof -
  assume ok: "safe ts s" and c: "calm s s'" "mpmc_ok s'"
  have "ptr_ok (ts p) p s'" for p using notified_ptr_ok [of p s s' "ts p"] ok c(1) by (simp add: safe_def calm_def)
  then show ?thesis using c by (simp add: safe_def calm_def)
qed

text \<open>A step that changes only what belongs to the flag \<open>p\<close>.\<close>

definition only_at :: "'p \<Rightarrow> ('a, 't, 'w, 'p) mpmc \<Rightarrow> ('a, 't, 'w, 'p) mpmc \<Rightarrow> bool" where
  "only_at p s s' \<longleftrightarrow> (\<forall>q. q \<noteq> p \<longrightarrow> mc_cells s' q = mc_cells s q \<and> mc_woken s' q = mc_woken s q \<and> (\<forall>Q r. (q, r) \<in> set (refs Q s') \<longleftrightarrow> (q, r) \<in> set (refs Q s)))"

lemma only_at_notified: "only_at p s s' \<Longrightarrow> q \<noteq> p \<Longrightarrow> notified q s s'"
proof -
  assume o: "only_at p s s'" "q \<noteq> p"
  then have "mc_cells s' q = mc_cells s q" "mc_woken s' q = mc_woken s q" "\<And>Q r. (q, r) \<in> set (refs Q s') \<longleftrightarrow> (q, r) \<in> set (refs Q s)" by (simp_all add: only_at_def del: refs.simps)
  then show ?thesis by (simp add: notified_def in_ptrs del: refs.simps)
qed

lemma safe_only_at:
  assumes "safe ts s" "only_at p s s'" "mpmc_ok s'" "\<forall>Q. distinct (ptrs Q s')" "ptr_ok t' p s'"
  shows "safe (ts(p := t')) s'"
  using safe_step [OF assms(1,3,4) _ assms(5)] only_at_notified [OF assms(2)] by blast

lemma unlink_first_all: "distinct (map wt_state ws) \<Longrightarrow> unlink_first p ws = unlink_all p ws"
  by (induction ws) (auto simp: unlink_all_def image_iff intro!: filter_True [symmetric])

lemma only_at_flag [simp]: "only_at p s (free_flag p s') = only_at p s s'" "only_at p s (queue_flag p s') = only_at p s s'" "only_at p s s"
  "only_at p s (s'\<lparr>mc_cells := (mc_cells s')(p \<mapsto> c)\<rparr>) = only_at p s s'" "only_at p s (s'\<lparr>mc_woken := (mc_woken s')(p \<mapsto> r)\<rparr>) = only_at p s s'"
  by (auto simp: only_at_def free_flag_def queue_flag_def simp del: refs.simps)

lemma flag_refs [simp]: "refs Q (free_flag p s) = refs Q s" "refs Q (queue_flag p s) = refs Q s" "ptrs Q (free_flag p s) = ptrs Q s" "ptrs Q (queue_flag p s) = ptrs Q s"
  by (simp_all add: free_flag_def queue_flag_def)

lemma only_at_unlink:
  "only_at p s (s\<lparr>mc_sync_senders := unlink_all p (mc_sync_senders s)\<rparr>)" "only_at p s (s\<lparr>mc_async_senders := unlink_all p (mc_async_senders s)\<rparr>)"
  "only_at p s (s\<lparr>mc_sync_receivers := unlink_all p (mc_sync_receivers s)\<rparr>)" "only_at p s (s\<lparr>mc_async_receivers := unlink_all p (mc_async_receivers s)\<rparr>)"
proof -
  show "only_at p s (s\<lparr>mc_sync_senders := unlink_all p (mc_sync_senders s)\<rparr>)"
  proof -
    have "(q, r) \<in> set (refs Q (s\<lparr>mc_sync_senders := unlink_all p (mc_sync_senders s)\<rparr>)) \<longleftrightarrow> (q, r) \<in> set (refs Q s)" if "q \<noteq> p" for q Q r using that by (cases Q) (auto simp: unlink_all_def)
    then show ?thesis by (simp add: only_at_def del: refs.simps)
  qed
  show "only_at p s (s\<lparr>mc_async_senders := unlink_all p (mc_async_senders s)\<rparr>)"
  proof -
    have "(q, r) \<in> set (refs Q (s\<lparr>mc_async_senders := unlink_all p (mc_async_senders s)\<rparr>)) \<longleftrightarrow> (q, r) \<in> set (refs Q s)" if "q \<noteq> p" for q Q r using that by (cases Q) (auto simp: unlink_all_def)
    then show ?thesis by (simp add: only_at_def del: refs.simps)
  qed
  show "only_at p s (s\<lparr>mc_sync_receivers := unlink_all p (mc_sync_receivers s)\<rparr>)"
  proof -
    have "(q, r) \<in> set (refs Q (s\<lparr>mc_sync_receivers := unlink_all p (mc_sync_receivers s)\<rparr>)) \<longleftrightarrow> (q, r) \<in> set (refs Q s)" if "q \<noteq> p" for q Q r using that by (cases Q) (auto simp: unlink_all_def)
    then show ?thesis by (simp add: only_at_def del: refs.simps)
  qed
  show "only_at p s (s\<lparr>mc_async_receivers := unlink_all p (mc_async_receivers s)\<rparr>)"
  proof -
    have "(q, r) \<in> set (refs Q (s\<lparr>mc_async_receivers := unlink_all p (mc_async_receivers s)\<rparr>)) \<longleftrightarrow> (q, r) \<in> set (refs Q s)" if "q \<noteq> p" for q Q r using that by (cases Q) (auto simp: unlink_all_def)
    then show ?thesis by (simp add: only_at_def del: refs.simps)
  qed
qed

lemma ptr_okD:
  assumes "ptr_ok (Some t) p s"
  shows "\<not> off_limits t" "p \<in> set (ptrs Q s) \<Longrightarrow> sits t = Some Q" "mc_cells s p = None \<longleftrightarrow> \<not> has_flag t"
    "mc_cells s p = Some c \<Longrightarrow> dropping t \<or> c \<in> {st_waiting, st_success_space, st_closed_buffered}"
    "mc_cells s p = Some st_waiting \<Longrightarrow> waits t \<Longrightarrow> p \<in> set (ptrs (the (sits t)) s)"
    "mc_cells s p = Some c \<Longrightarrow> sits t \<noteq> None \<Longrightarrow> \<not> waits t \<Longrightarrow> c \<noteq> st_waiting"
    "mc_cells s p = Some st_success_space \<Longrightarrow> p \<notin> set (ptrs Sync_Receivers s) \<and> p \<notin> set (ptrs Async_Receivers s)"
  using assms unfolding ptr_ok_def view_ok.simps by (auto split: option.splits)

text \<open>A program that leaves the queue: its flag is gone or is kept by the future.\<close>

lemma safe_leave:
  assumes ok: "safe ts s" and t: "ts p = Some t" and s': "only_at p s s'" "mpmc_ok s'" "\<forall>Q. distinct (ptrs Q s')" "\<And>Q. p \<notin> set (ptrs Q s')"
    and t': "sits t' = None" "\<not> off_limits t'" "mc_cells s' p = None \<and> \<not> has_flag t' \<or> mc_cells s' p = mc_cells s p \<and> has_flag t \<and> has_flag t' \<and> (dropping t \<longrightarrow> dropping t')"
  shows "safe (ts(p \<mapsto> t')) s'"
proof (rule safe_only_at [OF ok s'(1-3)])
  note k = ptr_okD [OF safeD [OF ok t]]
  have w: "\<not> waits t'" using t'(1) by (cases t') (auto split: ssend_pc.splits sbatch_pc.splits srecv_pc.splits rbatch_pc.splits trecv_pc.splits fsend_pc.splits frecv_pc.splits)
  show "ptr_ok (Some t') p s'"
    using s'(4) t' w k(3,4) unfolding ptr_ok_def view_ok.simps by (auto split: option.split)
qed

lemma safe_unlink:
  assumes ok: "safe ts s" and t: "ts p = Some t" "sits t = Some Q" and s': "only_at p s s'" "mpmc_ok s'" "ptrs Q s' = filter (\<lambda>q. q \<noteq> p) (ptrs Q s)" "\<And>Q'. Q' \<noteq> Q \<Longrightarrow> ptrs Q' s' = ptrs Q' s"
    and t': "sits t' = None" "\<not> off_limits t'" "mc_cells s' p = None \<and> \<not> has_flag t' \<or> mc_cells s' p = mc_cells s p \<and> has_flag t' \<and> (dropping t \<longrightarrow> dropping t')"
  shows "safe (ts(p \<mapsto> t')) s'"
proof (rule safe_leave [OF ok t(1) s'(1,2)])
  note k = ptr_okD [OF safeD [OF ok t(1)]]
  show "\<forall>Q. distinct (ptrs Q s')"
  proof
    fix Q' show "distinct (ptrs Q' s')" using ok s'(3,4) by (cases "Q' = Q") (auto simp: safe_def)
  qed
  show "p \<notin> set (ptrs Q' s')" for Q' using k(2) [of Q'] s'(3,4) t(2) by (cases "Q' = Q") auto
  show "mc_cells s' p = None \<and> \<not> has_flag t' \<or> mc_cells s' p = mc_cells s p \<and> has_flag t \<and> has_flag t' \<and> (dropping t \<longrightarrow> dropping t')"
    using t'(3) t(2) by (auto simp: has_flag_def)
qed (use t' in auto)

lemma ptrs_other [simp]:
  "Q \<noteq> Async_Receivers \<Longrightarrow> ptrs Q (s\<lparr>mc_async_receivers := ws\<rparr>) = ptrs Q s" "Q \<noteq> Sync_Receivers \<Longrightarrow> ptrs Q (s\<lparr>mc_sync_receivers := vs\<rparr>) = ptrs Q s"
  "Q \<noteq> Async_Senders \<Longrightarrow> ptrs Q (s\<lparr>mc_async_senders := ws\<rparr>) = ptrs Q s" "Q \<noteq> Sync_Senders \<Longrightarrow> ptrs Q (s\<lparr>mc_sync_senders := vs\<rparr>) = ptrs Q s"
  by (simp_all add: ptrs_def)

lemma ptrs_unlink:
  "ptrs Sync_Senders (s\<lparr>mc_sync_senders := unlink_all p (mc_sync_senders s)\<rparr>) = filter (\<lambda>q. q \<noteq> p) (ptrs Sync_Senders s)"
  "ptrs Async_Senders (s\<lparr>mc_async_senders := unlink_all p (mc_async_senders s)\<rparr>) = filter (\<lambda>q. q \<noteq> p) (ptrs Async_Senders s)"
  "ptrs Sync_Receivers (s\<lparr>mc_sync_receivers := unlink_all p (mc_sync_receivers s)\<rparr>) = filter (\<lambda>q. q \<noteq> p) (ptrs Sync_Receivers s)"
  "ptrs Async_Receivers (s\<lparr>mc_async_receivers := unlink_all p (mc_async_receivers s)\<rparr>) = filter (\<lambda>q. q \<noteq> p) (ptrs Async_Receivers s)"
  by (simp_all add: ptrs_def unlink_all_def filter_map comp_def)

text \<open>The four places where a program takes its waiter out.\<close>

lemma safe_unlinks:
  assumes ok: "safe ts s" and t: "ts p = Some t"
  shows "sits t = Some Sync_Senders \<Longrightarrow> sits t' = None \<Longrightarrow> \<not> has_flag t' \<Longrightarrow> \<not> off_limits t' \<Longrightarrow> safe (ts(p \<mapsto> t')) (free_flag p (s\<lparr>mc_sync_senders := unlink_first p (mc_sync_senders s)\<rparr>))"
    "sits t = Some Sync_Receivers \<Longrightarrow> sits t' = None \<Longrightarrow> \<not> has_flag t' \<Longrightarrow> \<not> off_limits t' \<Longrightarrow> safe (ts(p \<mapsto> t')) (free_flag p (s\<lparr>mc_sync_receivers := unlink_all p (mc_sync_receivers s)\<rparr>))"
    "sits t = Some Async_Senders \<Longrightarrow> sits t' = None \<Longrightarrow> has_flag t' \<Longrightarrow> \<not> off_limits t' \<Longrightarrow> dropping t \<longrightarrow> dropping t' \<Longrightarrow> safe (ts(p \<mapsto> t')) (s\<lparr>mc_async_senders := unlink_all p (mc_async_senders s)\<rparr>)"
    "sits t = Some Async_Receivers \<Longrightarrow> sits t' = None \<Longrightarrow> has_flag t' \<Longrightarrow> \<not> off_limits t' \<Longrightarrow> dropping t \<longrightarrow> dropping t' \<Longrightarrow> safe (ts(p \<mapsto> t')) (s\<lparr>mc_async_receivers := unlink_all p (mc_async_receivers s)\<rparr>)"
proof -
  have m: "mpmc_ok s" using ok by (simp add: safe_def)
  have e: "unlink_first p (mc_sync_senders s) = unlink_all p (mc_sync_senders s)" by (rule unlink_first_all [OF tidy_distinct(4) [OF safe_tidy [OF ok]]])
  show "sits t = Some Sync_Senders \<Longrightarrow> sits t' = None \<Longrightarrow> \<not> has_flag t' \<Longrightarrow> \<not> off_limits t' \<Longrightarrow> safe (ts(p \<mapsto> t')) (free_flag p (s\<lparr>mc_sync_senders := unlink_first p (mc_sync_senders s)\<rparr>))"
    unfolding e by (rule safe_unlink [where Q = Sync_Senders, OF ok t]) (simp_all add: m only_at_unlink ptrs_unlink, simp add: free_flag_def)
  show "sits t = Some Sync_Receivers \<Longrightarrow> sits t' = None \<Longrightarrow> \<not> has_flag t' \<Longrightarrow> \<not> off_limits t' \<Longrightarrow> safe (ts(p \<mapsto> t')) (free_flag p (s\<lparr>mc_sync_receivers := unlink_all p (mc_sync_receivers s)\<rparr>))"
    by (rule safe_unlink [where Q = Sync_Receivers, OF ok t]) (simp_all add: m only_at_unlink ptrs_unlink, simp add: free_flag_def)
  show "sits t = Some Async_Senders \<Longrightarrow> sits t' = None \<Longrightarrow> has_flag t' \<Longrightarrow> \<not> off_limits t' \<Longrightarrow> dropping t \<longrightarrow> dropping t' \<Longrightarrow> safe (ts(p \<mapsto> t')) (s\<lparr>mc_async_senders := unlink_all p (mc_async_senders s)\<rparr>)"
    by (rule safe_unlink [where Q = Async_Senders, OF ok t]) (simp_all add: m only_at_unlink ptrs_unlink)
  show "sits t = Some Async_Receivers \<Longrightarrow> sits t' = None \<Longrightarrow> has_flag t' \<Longrightarrow> \<not> off_limits t' \<Longrightarrow> dropping t \<longrightarrow> dropping t' \<Longrightarrow> safe (ts(p \<mapsto> t')) (s\<lparr>mc_async_receivers := unlink_all p (mc_async_receivers s)\<rparr>)"
    by (rule safe_unlink [where Q = Async_Receivers, OF ok t]) (simp_all add: m only_at_unlink ptrs_unlink)
qed

lemma safe_turn:
  assumes ok: "safe ts s" and t: "ts p = Some t" "mc_cells s p = Some c" "c \<noteq> st_waiting" and t': "sits t' = sits t" "has_flag t' = has_flag t" "dropping t' = dropping t" "\<not> off_limits t'"
  shows "safe (ts(p \<mapsto> t')) s"
proof (rule safe_only_at [OF ok only_at_flag(3)])
  note k = ptr_okD [OF safeD [OF ok t(1)]]
  show "ptr_ok (Some t') p s" using k(2,3,4,7) t t' unfolding ptr_ok_def view_ok.simps by auto
qed (use ok in \<open>auto simp: safe_def\<close>)

lemma safe_enqueue:
  assumes ok: "safe ts s" and t: "ts p = Some t" "sits t = None" and s': "mpmc_ok s'" "refs Q s' = refs Q s @ [(p, r)]" "\<And>Q'. Q' \<noteq> Q \<Longrightarrow> refs Q' s' = refs Q' s"
    and c: "mc_cells s' = (mc_cells s)(p \<mapsto> st_waiting)" "\<And>q. q \<noteq> p \<Longrightarrow> mc_woken s' q = mc_woken s q" and t': "sits t' = Some Q" "waits t'" "\<not> off_limits t'"
  shows "safe (ts(p \<mapsto> t')) s'"
proof (rule safe_only_at [OF ok _ s'(1)])
  note k = ptr_okD [OF safeD [OF ok t(1)]]
  have no: "p \<notin> set (ptrs Q' s)" for Q' using k(2) t(2) by auto
  have r: "set (refs Q' s') = (if Q' = Q then insert (p, r) (set (refs Q' s)) else set (refs Q' s))" for Q' using s'(2,3) by (cases "Q' = Q") auto
  show "only_at p s s'" using c unfolding only_at_def by (simp add: r)
  have in': "p \<in> set (ptrs Q' s') \<longleftrightarrow> Q' = Q" for Q' using no [of Q'] unfolding in_ptrs by (auto simp: r)
  show "\<forall>Q. distinct (ptrs Q s')"
  proof
    fix Q' show "distinct (ptrs Q' s')" using ok no s'(2) s'(3) [of Q'] by (cases "Q' = Q") (auto simp: safe_def ptrs_def)
  qed
  show "ptr_ok (Some t') p s'" using in' t' c(1) unfolding ptr_ok_def view_ok.simps by (auto simp: has_flag_def)
qed

lemma safe_park_sync_sender:
  assumes ok: "safe ts s" and t: "ts p = Some t" "sits t = None" and r: "park_sync_sender th p s = (Parked, s')" and t': "sits t' = Some Sync_Senders" "waits t'" "\<not> off_limits t'"
  shows "safe (ts(p \<mapsto> t')) s'"
proof (rule safe_enqueue [where Q = Sync_Senders, OF ok t])
  have s': "s' = queue_flag p (s\<lparr>mc_sync_senders := mc_sync_senders s @ [\<lparr>wt_handle = th, wt_state = p\<rparr>]\<rparr>)" using r by (simp add: park_sync_sender_def split: if_splits)
  show "refs Sync_Senders s' = refs Sync_Senders s @ [(p, Thread th)]" "\<And>Q'. Q' \<noteq> Sync_Senders \<Longrightarrow> refs Q' s' = refs Q' s" "mpmc_ok s'" using ok unfolding s' by (simp_all add: safe_def)
  show "mc_cells s' = (mc_cells s)(p \<mapsto> st_waiting)" "\<And>q. q \<noteq> p \<Longrightarrow> mc_woken s' q = mc_woken s q" unfolding s' by (simp_all add: queue_flag_def)
qed (use t' in auto)

lemma safe_park_async_sender:
  assumes ok: "safe ts s" and t: "ts p = Some t" "sits t = None" and r: "park_async_sender wk p s = (Parked, s')" and t': "sits t' = Some Async_Senders" "waits t'" "\<not> off_limits t'"
  shows "safe (ts(p \<mapsto> t')) s'"
proof (rule safe_enqueue [where Q = Async_Senders, OF ok t])
  have s': "s' = queue_flag p (s\<lparr>mc_async_senders := mc_async_senders s @ [\<lparr>wt_handle = wk, wt_state = p\<rparr>]\<rparr>)" using r by (simp add: park_async_sender_def split: if_splits)
  show "refs Async_Senders s' = refs Async_Senders s @ [(p, Waker wk)]" "\<And>Q'. Q' \<noteq> Async_Senders \<Longrightarrow> refs Q' s' = refs Q' s" "mpmc_ok s'" using ok unfolding s' by (simp_all add: safe_def)
  show "mc_cells s' = (mc_cells s)(p \<mapsto> st_waiting)" "\<And>q. q \<noteq> p \<Longrightarrow> mc_woken s' q = mc_woken s q" unfolding s' by (simp_all add: queue_flag_def)
qed (use t' in auto)

lemma safe_park_sync_receiver:
  assumes ok: "safe ts s" and t: "ts p = Some t" "sits t = None" and r: "park_sync_receiver th p s = (Parked, s')" and t': "sits t' = Some Sync_Receivers" "waits t'" "\<not> off_limits t'"
  shows "safe (ts(p \<mapsto> t')) s'"
proof (rule safe_enqueue [where Q = Sync_Receivers, OF ok t])
  have s': "s' = queue_flag p (s\<lparr>mc_sync_receivers := mc_sync_receivers s @ [\<lparr>wt_handle = th, wt_state = p\<rparr>]\<rparr>)" using r by (simp add: park_sync_receiver_def split: if_splits)
  show "refs Sync_Receivers s' = refs Sync_Receivers s @ [(p, Thread th)]" "\<And>Q'. Q' \<noteq> Sync_Receivers \<Longrightarrow> refs Q' s' = refs Q' s" "mpmc_ok s'" using ok unfolding s' by (simp_all add: safe_def)
  show "mc_cells s' = (mc_cells s)(p \<mapsto> st_waiting)" "\<And>q. q \<noteq> p \<Longrightarrow> mc_woken s' q = mc_woken s q" unfolding s' by (simp_all add: queue_flag_def)
qed (use t' in auto)

lemma safe_park_async_receiver:
  assumes ok: "safe ts s" and t: "ts p = Some t" "sits t = None" and r: "park_async_receiver wk p s = (Parked, s')" and t': "sits t' = Some Async_Receivers" "waits t'" "\<not> off_limits t'"
  shows "safe (ts(p \<mapsto> t')) s'"
proof (rule safe_enqueue [where Q = Async_Receivers, OF ok t])
  have "p \<notin> set (ptrs Async_Receivers s)" using ptr_okD(2) [OF safeD [OF ok t(1)]] t(2) by auto
  then have "\<not> queued p (mc_async_receivers s)" by (auto simp: queued_def ptrs_def list_ex_iff)
  then have s': "s' = queue_flag p (s\<lparr>mc_async_receivers := mc_async_receivers s @ [\<lparr>wt_handle = wk, wt_state = p\<rparr>]\<rparr>)" using r by (simp add: park_async_receiver_def split: if_splits)
  show "refs Async_Receivers s' = refs Async_Receivers s @ [(p, Waker wk)]" "\<And>Q'. Q' \<noteq> Async_Receivers \<Longrightarrow> refs Q' s' = refs Q' s" "mpmc_ok s'" using ok unfolding s' by (simp_all add: safe_def)
  show "mc_cells s' = (mc_cells s)(p \<mapsto> st_waiting)" "\<And>q. q \<noteq> p \<Longrightarrow> mc_woken s' q = mc_woken s q" unfolding s' by (simp_all add: queue_flag_def)
qed (use t' in auto)

lemma park_retry:
  "park_sync_sender th p s = (r, s') \<Longrightarrow> r \<noteq> Parked \<Longrightarrow> s' = s" "park_async_sender wk p s = (r, s') \<Longrightarrow> r \<noteq> Parked \<Longrightarrow> s' = s"
  "park_sync_receiver th p s = (r, s') \<Longrightarrow> r \<noteq> Parked \<Longrightarrow> s' = s" "park_async_receiver wk p s = (r, s') \<Longrightarrow> r \<noteq> Parked \<Longrightarrow> s' = s"
  by (auto simp: park_sync_sender_def park_async_sender_def park_sync_receiver_def park_async_receiver_def split: if_splits)

lemma safe_same: "safe ts s \<Longrightarrow> ts p = Some t \<Longrightarrow> same_shape t t' \<Longrightarrow> safe (ts(p \<mapsto> t')) s"
proof -
  assume ok: "safe ts s" and t: "ts p = Some t" "same_shape t t'"
  have "mpmc_ok s" using ok by (simp add: safe_def)
  then show ?thesis using safe_calm [OF ok t calm_refl [OF safe_tidy [OF ok]]] by blast
qed

lemma same_shape_refl [simp]: "same_shape t t"
  by (simp add: same_shape_def)

text \<open>A woken blocking receiver is no longer queued when it sees the success.\<close>

lemma safe_free:
  assumes ok: "safe ts s" and t: "ts p = Some t" "sits t = Some Sync_Receivers" "mc_cells s p = Some st_success_space" and t': "sits t' = None" "\<not> has_flag t'" "\<not> off_limits t'"
  shows "safe (ts(p \<mapsto> t')) (free_flag p s)"
proof (rule safe_leave [OF ok t(1)])
  note k = ptr_okD [OF safeD [OF ok t(1)]]
  show "p \<notin> set (ptrs Q (free_flag p s))" for Q using k(2) [of Q] k(7) [OF t(3)] t(2) by auto
  show "mc_cells (free_flag p s) p = None \<and> \<not> has_flag t' \<or> mc_cells (free_flag p s) p = mc_cells s p \<and> has_flag t \<and> has_flag t' \<and> (dropping t \<longrightarrow> dropping t')"
    using t' by (simp add: free_flag_def)
qed (use ok t' in \<open>auto simp: safe_def\<close>)

subsection \<open>The programs\<close>

lemma safe_ok: "safe ts s \<Longrightarrow> mpmc_ok s"
  by (simp add: safe_def)

lemma safe_try_send:
  assumes "safe ts s" "ts p = Some t"
  obtains r s' where "try_send_core x s = Some (r, s')" "r = None \<or> r = Some (Full x) \<or> r = Some (Closed x)" "\<And>t'. same_shape t t' \<Longrightarrow> safe (ts(p \<mapsto> t')) s'"
proof -
  note k = safe_tidy [OF assms(1)] safe_ok [OF assms(1)]
  obtain r s' where r: "try_send_core x s = Some (r, s')" using try_send_core_total [OF k] by blast
  note f = try_send_core_fifo [OF r k(2)]
  have "r = None \<or> r = Some (Full x) \<or> r = Some (Closed x)" using f by (auto simp: fifo_send_def split: if_splits)
  then show thesis using that [OF r] safe_calm [OF assms] try_send_core_calm(1) [OF k r] f by blast
qed

lemma safe_try_recv:
  assumes "safe ts s" "ts p = Some t"
  obtains r s' where "try_recv_core s = Some (r, s')" "\<And>t'. same_shape t t' \<Longrightarrow> safe (ts(p \<mapsto> t')) s'"
proof -
  note k = safe_tidy [OF assms(1)] safe_ok [OF assms(1)]
  obtain r s' where r: "try_recv_core s = Some (r, s')" using try_recv_core_total [OF k] by blast
  then show thesis using that [OF r] safe_calm [OF assms] try_recv_core_calm(1) [OF k r] try_recv_core_fifo [OF r k(2)] by blast
qed

lemma safe_try_recv_batch:
  assumes "safe ts s" "ts p = Some t"
  obtains r out' s' where "try_recv_batch_core out mx s = Some (r, out', s')" "\<And>t'. same_shape t t' \<Longrightarrow> safe (ts(p \<mapsto> t')) s'"
proof -
  note k = safe_tidy [OF assms(1)] safe_ok [OF assms(1)]
  obtain r out' s' where r: "try_recv_batch_core out mx s = Some (r, out', s')" using try_recv_batch_core_total [OF k] by blast
  then show thesis using that [OF r] safe_calm [OF assms] try_recv_batch_core_calm(1) [OF k r] try_recv_batch_core_fifo [OF r k(2)] by blast
qed

lemma safe_try_send_batch:
  assumes "safe ts s" "ts p = Some t" "limit \<le> length iter"
  obtains k reason iter' s' where "try_send_batch_core iter limit s = Some ((k, reason), iter', s')" "\<And>t'. same_shape t t' \<Longrightarrow> safe (ts(p \<mapsto> t')) s'"
proof -
  note k = safe_tidy [OF assms(1)] safe_ok [OF assms(1)]
  obtain n reason iter' s' where r: "try_send_batch_core iter limit s = Some ((n, reason), iter', s')" using try_send_batch_core_total [OF k assms(3)] by blast
  then show thesis using that [OF r] safe_calm [OF assms(1,2)] try_send_batch_core_calm(1) [OF k r] try_send_batch_core_fifo [OF r k(2)] by blast
qed

text \<open>The flag of a parked program holds one of three values.\<close>

lemma safe_flag:
  assumes "safe ts s" "ts p = Some t" "sits t \<noteq> None" "\<not> dropping t"
  obtains (waiting) "mc_cells s p = Some st_waiting" "waits t" | (success) "mc_cells s p = Some st_success_space" | (closed) "mc_cells s p = Some st_closed_buffered"
proof -
  note k = ptr_okD [OF safeD [OF assms(1,2)]]
  obtain c where c: "mc_cells s p = Some c" using k(3) assms(3) by (auto simp: has_flag_def)
  then show thesis using k(4) [OF c] k(6) [OF c] assms(3,4) that by blast
qed

definition safe_next :: "('p \<rightharpoonup> ('a, 't, 'w) task) \<Rightarrow> 'p \<Rightarrow> ('c \<Rightarrow> ('a, 't, 'w) task) \<Rightarrow> ('c \<times> ('a, 't, 'w, 'p) mpmc) option \<Rightarrow> bool" where
  "safe_next ts p C r \<longleftrightarrow> (\<exists>pc' s'. r = Some (pc', s') \<and> safe (ts(p \<mapsto> C pc')) s')"

lemma safe_nextI: "safe (ts(p \<mapsto> C pc')) s' \<Longrightarrow> safe_next ts p C (Some (pc', s'))"
  by (auto simp: safe_next_def)

lemma send_sync_safe:
  assumes ok: "safe ts s" and t: "ts p = Some (Send_Sync th pc)" and d: "\<not> task_done (Send_Sync th pc)"
  shows "safe_next ts p (Send_Sync th) (send_sync th p pc s)"
proof (cases pc)
  case (SS_Try x)
  obtain r s' where r: "try_send_core x s = Some (r, s')" "r = None \<or> r = Some (Full x) \<or> r = Some (Closed x)" "\<And>t'. same_shape (Send_Sync th pc) t' \<Longrightarrow> safe (ts(p \<mapsto> t')) s'"
    using safe_try_send [OF ok t] by blast
  have "safe (ts(p \<mapsto> Send_Sync th (SS_Done e))) s'" "safe (ts(p \<mapsto> Send_Sync th (SS_Park x))) s'" for e using r(3) SS_Try by (simp_all add: same_shape_def has_flag_def)
  then show ?thesis using r(1,2) SS_Try by (auto simp: safe_next_def)
next
  case (SS_Park x)
  obtain r s' where r: "park_sync_sender th p s = (r, s')" by force
  have "safe (ts(p \<mapsto> Send_Sync th (SS_Try x))) s" "safe (ts(p \<mapsto> Send_Sync th (SS_Done e))) s" for e using safe_same [OF ok t] SS_Park by (simp_all add: same_shape_def has_flag_def)
  moreover have "r = Parked \<Longrightarrow> safe (ts(p \<mapsto> Send_Sync th (SS_Wait x))) s'" using safe_park_sync_sender [OF ok t _ _, of th s' "Send_Sync th (SS_Wait x)"] SS_Park r by simp
  ultimately show ?thesis using r park_retry(1) [OF r] SS_Park by (cases r) (auto simp: safe_next_def)
next
  case (SS_Wait x)
  have turn: "safe (ts(p \<mapsto> Send_Sync th (SS_Closed))) s" "safe (ts(p \<mapsto> Send_Sync th (SS_Retry x))) s" if "mc_cells s p = Some c" "c \<noteq> st_waiting" for c
    using safe_turn [OF ok t that] SS_Wait by (simp_all add: has_flag_def)
  show ?thesis
  proof (rule safe_flag [OF ok t])
    show "sits (Send_Sync th pc) \<noteq> None" "\<not> dropping (Send_Sync th pc)" using SS_Wait by simp_all
  qed (use SS_Wait turn ok t in \<open>auto simp: safe_next_def fun_upd_idem\<close>)
next
  case (SS_Retry x)
  then show ?thesis using safe_unlinks(1) [OF ok t, of "Send_Sync th (SS_Try x)"] by (simp add: safe_next_def has_flag_def)
next
  case SS_Closed
  then show ?thesis using safe_unlinks(1) [OF ok t, of "Send_Sync th (SS_Done (Some SendClosed))"] by (simp add: safe_next_def has_flag_def)
qed (use d in auto)

lemma recv_sync_safe:
  assumes ok: "safe ts s" and t: "ts p = Some (Recv_Sync th pc)" and d: "\<not> task_done (Recv_Sync th pc)"
  shows "safe_next ts p (Recv_Sync th) (recv_sync th p pc s)"
proof (cases pc)
  case RS_Try
  obtain r s' where r: "try_recv_core s = Some (r, s')" "\<And>t'. same_shape (Recv_Sync th pc) t' \<Longrightarrow> safe (ts(p \<mapsto> t')) s'" using safe_try_recv [OF ok t] by blast
  have "safe (ts(p \<mapsto> Recv_Sync th (RS_Done e))) s'" "safe (ts(p \<mapsto> Recv_Sync th RS_Park)) s'" for e using r(2) RS_Try by (simp_all add: same_shape_def has_flag_def)
  then show ?thesis using r(1) RS_Try by (auto simp: safe_next_def split: sum.split try_recv_error.split)
next
  case RS_Park
  obtain r s' where r: "park_sync_receiver th p s = (r, s')" by force
  have "safe (ts(p \<mapsto> Recv_Sync th RS_Try)) s" "safe (ts(p \<mapsto> Recv_Sync th (RS_Done e))) s" for e using safe_same [OF ok t] RS_Park by (simp_all add: same_shape_def has_flag_def)
  moreover have "r = Parked \<Longrightarrow> safe (ts(p \<mapsto> Recv_Sync th RS_Wait)) s'" using safe_park_sync_receiver [OF ok t _ _, of th s' "Recv_Sync th RS_Wait"] RS_Park r by simp
  ultimately show ?thesis using r park_retry(3) [OF r] RS_Park by (cases r) (auto simp: safe_next_def)
next
  case RS_Wait
  have turn: "safe (ts(p \<mapsto> Recv_Sync th RS_Closed)) s" if "mc_cells s p = Some st_closed_buffered" using safe_turn [OF ok t that] RS_Wait by (simp add: has_flag_def)
  have free: "safe (ts(p \<mapsto> Recv_Sync th RS_Try)) (free_flag p s)" if "mc_cells s p = Some st_success_space" using safe_free [OF ok t _ that] RS_Wait by (simp add: has_flag_def)
  show ?thesis
  proof (rule safe_flag [OF ok t])
    show "sits (Recv_Sync th pc) \<noteq> None" "\<not> dropping (Recv_Sync th pc)" using RS_Wait by simp_all
  qed (use RS_Wait turn free ok t in \<open>auto simp: safe_next_def fun_upd_idem\<close>)
next
  case RS_Closed
  then show ?thesis using safe_unlinks(2) [OF ok t, of "Recv_Sync th (RS_Done (Inl RecvDisconnected))"] by (simp add: safe_next_def has_flag_def)
qed (use d in auto)

lemma recv_batch_sync_safe:
  assumes ok: "safe ts s" and t: "ts p = Some (Recv_Batch th pc)" and d: "\<not> task_done (Recv_Batch th pc)"
  shows "safe_next ts p (Recv_Batch th) (recv_batch_sync th p pc s)"
proof (cases pc)
  case (RB_Try out mx)
  obtain r out' s' where r: "try_recv_batch_core out mx s = Some (r, out', s')" "\<And>t'. same_shape (Recv_Batch th pc) t' \<Longrightarrow> safe (ts(p \<mapsto> t')) s'" using safe_try_recv_batch [OF ok t] by blast
  have "safe (ts(p \<mapsto> Recv_Batch th (RB_Done e out'))) s'" "safe (ts(p \<mapsto> Recv_Batch th (RB_Park out' mx))) s'" for e using r(2) RB_Try by (simp_all add: same_shape_def has_flag_def)
  then show ?thesis using r(1) RB_Try by (auto simp: safe_next_def split: sum.split try_recv_error.split)
next
  case (RB_Park out mx)
  obtain r s' where r: "park_sync_receiver th p s = (r, s')" by force
  have "safe (ts(p \<mapsto> Recv_Batch th (RB_Try out mx))) s" "safe (ts(p \<mapsto> Recv_Batch th (RB_Done e out))) s" for e using safe_same [OF ok t] RB_Park by (simp_all add: same_shape_def has_flag_def)
  moreover have "r = Parked \<Longrightarrow> safe (ts(p \<mapsto> Recv_Batch th (RB_Wait out mx))) s'" using safe_park_sync_receiver [OF ok t _ _, of th s' "Recv_Batch th (RB_Wait out mx)"] RB_Park r by simp
  ultimately show ?thesis using r park_retry(3) [OF r] RB_Park by (cases r) (auto simp: safe_next_def)
next
  case (RB_Wait out mx)
  have turn: "safe (ts(p \<mapsto> Recv_Batch th (RB_Closed out))) s" if "mc_cells s p = Some st_closed_buffered" using safe_turn [OF ok t that] RB_Wait by (simp add: has_flag_def)
  have free: "safe (ts(p \<mapsto> Recv_Batch th (RB_Try out mx))) (free_flag p s)" if "mc_cells s p = Some st_success_space" using safe_free [OF ok t _ that] RB_Wait by (simp add: has_flag_def)
  show ?thesis
  proof (rule safe_flag [OF ok t])
    show "sits (Recv_Batch th pc) \<noteq> None" "\<not> dropping (Recv_Batch th pc)" using RB_Wait by simp_all
  qed (use RB_Wait turn free ok t in \<open>auto simp: safe_next_def fun_upd_idem\<close>)
next
  case (RB_Closed out)
  then show ?thesis using safe_unlinks(2) [OF ok t, of "Recv_Batch th (RB_Done (Inl RecvDisconnected) out)"] by (simp add: safe_next_def has_flag_def)
qed (use d in auto)

lemma send_future_safe:
  assumes ok: "safe ts s" and t: "ts p = Some (Send_Future pc)" and d: "\<not> task_done (Send_Future pc)" "\<not> task_idle (Send_Future pc)"
  shows "safe_next ts p Send_Future (send_future_step p pc s)"
proof (cases pc)
  case (SF_Check w x)
  have turn: "safe (ts(p \<mapsto> Send_Future (SF_Unlink w x c))) s" if "mc_cells s p = Some c" "c \<noteq> st_waiting" for c using safe_turn [OF ok t that] SF_Check by (simp add: has_flag_def)
  show ?thesis
  proof (rule safe_flag [OF ok t])
    show "sits (Send_Future pc) \<noteq> None" "\<not> dropping (Send_Future pc)" using SF_Check by simp_all
  qed (use SF_Check turn in \<open>auto simp: safe_next_def\<close>)
next
  case (SF_Unlink w x st)
  have e: "unlink_first p (mc_async_senders s) = unlink_all p (mc_async_senders s)" by (rule unlink_first_all [OF tidy_distinct(3) [OF safe_tidy [OF ok]]])
  show ?thesis using SF_Unlink e safe_unlinks(3) [OF ok t, of "Send_Future (SF_Done (Some SendClosed))"] safe_unlinks(3) [OF ok t, of "Send_Future (SF_Try w x)"]
    by (simp add: safe_next_def has_flag_def)
next
  case (SF_Rewake w x)
  then show ?thesis using ptr_okD(1) [OF safeD [OF ok t]] by simp
next
  case (SF_Try w x)
  obtain r s' where r: "try_send_core x s = Some (r, s')" "r = None \<or> r = Some (Full x) \<or> r = Some (Closed x)" "\<And>t'. same_shape (Send_Future pc) t' \<Longrightarrow> safe (ts(p \<mapsto> t')) s'"
    using safe_try_send [OF ok t] by blast
  have "safe (ts(p \<mapsto> Send_Future (SF_Done e))) s'" "safe (ts(p \<mapsto> Send_Future (SF_Park w x))) s'" for e using r(3) SF_Try by (simp_all add: same_shape_def has_flag_def)
  then show ?thesis using r(1,2) SF_Try by (auto simp: safe_next_def)
next
  case (SF_Park w x)
  obtain r s' where r: "park_async_sender w p s = (r, s')" by force
  have "safe (ts(p \<mapsto> Send_Future (SF_Try w x))) s" "safe (ts(p \<mapsto> Send_Future (SF_Done e))) s" for e using safe_same [OF ok t] SF_Park by (simp_all add: same_shape_def has_flag_def)
  moreover have "r = Parked \<Longrightarrow> safe (ts(p \<mapsto> Send_Future (SF_Idle w x))) s'" using safe_park_async_sender [OF ok t _ _, of w s' "Send_Future (SF_Idle w x)"] SF_Park r by simp
  ultimately show ?thesis using r park_retry(2) [OF r] SF_Park by (cases r) (auto simp: safe_next_def)
next
  case SF_Drop
  then show ?thesis using safe_unlinks(3) [OF ok t, of "Send_Future SF_Dropped"] by (simp add: safe_next_def has_flag_def)
qed (use d in auto)

lemma recv_future_safe:
  assumes ok: "safe ts s" and t: "ts p = Some (Recv_Future pc)" and d: "\<not> task_done (Recv_Future pc)" "\<not> task_idle (Recv_Future pc)"
  shows "safe_next ts p Recv_Future (recv_future_step p pc s)"
proof (cases pc)
  case (RF_Check w)
  have turn: "safe (ts(p \<mapsto> Recv_Future RF_Unlink)) s" if "mc_cells s p = Some st_closed_buffered" using safe_turn [OF ok t that] RF_Check by (simp add: has_flag_def)
  have leave: "safe (ts(p \<mapsto> Recv_Future (RF_Try w))) s" if c: "mc_cells s p = Some st_success_space"
  proof (rule safe_leave [OF ok t])
    note k = ptr_okD [OF safeD [OF ok t]]
    show "p \<notin> set (ptrs Q s)" for Q using k(2) [of Q] k(7) [OF c] RF_Check by auto
  qed (use ok RF_Check in \<open>auto simp: safe_def has_flag_def\<close>)
  show ?thesis
  proof (rule safe_flag [OF ok t])
    show "sits (Recv_Future pc) \<noteq> None" "\<not> dropping (Recv_Future pc)" using RF_Check by simp_all
  qed (use RF_Check turn leave in \<open>auto simp: safe_next_def\<close>)
next
  case RF_Unlink
  then show ?thesis using safe_unlinks(4) [OF ok t, of "Recv_Future (RF_Done (Inl RecvDisconnected))"] by (simp add: safe_next_def has_flag_def)
next
  case (RF_Try w)
  obtain r s' where r: "try_recv_core s = Some (r, s')" "\<And>t'. same_shape (Recv_Future pc) t' \<Longrightarrow> safe (ts(p \<mapsto> t')) s'" using safe_try_recv [OF ok t] by blast
  have "safe (ts(p \<mapsto> Recv_Future (RF_Done e))) s'" "safe (ts(p \<mapsto> Recv_Future (RF_Park w))) s'" for e using r(2) RF_Try by (simp_all add: same_shape_def has_flag_def)
  then show ?thesis using r(1) RF_Try by (auto simp: safe_next_def split: sum.split try_recv_error.split)
next
  case (RF_Park w)
  obtain r s' where r: "park_async_receiver w p s = (r, s')" by force
  have "safe (ts(p \<mapsto> Recv_Future (RF_Try w))) s" "safe (ts(p \<mapsto> Recv_Future (RF_Done e))) s" for e using safe_same [OF ok t] RF_Park by (simp_all add: same_shape_def has_flag_def)
  moreover have "r = Parked \<Longrightarrow> safe (ts(p \<mapsto> Recv_Future (RF_Idle w))) s'" using safe_park_async_receiver [OF ok t _ _, of w s' "Recv_Future (RF_Idle w)"] RF_Park r by simp
  ultimately show ?thesis using r park_retry(4) [OF r] RF_Park by (cases r) (auto simp: safe_next_def)
next
  case RF_Drop
  then show ?thesis using safe_unlinks(4) [OF ok t, of "Recv_Future RF_Dropped"] by (simp add: safe_next_def has_flag_def)
qed (use d in auto)

text \<open>
  The counts of a batch fit its items. No item is ever held back: the branch of the code for a pulled
  but unplaced item is not reached.
\<close>

definition batch_ok :: "'a batch \<Rightarrow> bool" where
  "batch_ok b \<longleftrightarrow> bt_pending b = None \<and> bt_total b = bt_sent b + length (bt_iter b) \<and> bt_iter b \<noteq> []"

fun task_fits :: "('a, 't, 'w) task \<Rightarrow> bool" where
  "task_fits (Send_Batch t pc) \<longleftrightarrow> (case pc of SB_Pending b \<Rightarrow> batch_ok b | SB_Iter b \<Rightarrow> batch_ok b | SB_Park b \<Rightarrow> batch_ok b | SB_Wait b \<Rightarrow> batch_ok b
     | SB_Retry b \<Rightarrow> batch_ok b | SB_Closed b \<Rightarrow> batch_ok b | SB_Done _ _ \<Rightarrow> True)"
| "task_fits (Recv_Batch t pc) \<longleftrightarrow> (case pc of RB_Try _ mx \<Rightarrow> 0 < mx | RB_Park _ mx \<Rightarrow> 0 < mx | RB_Wait _ mx \<Rightarrow> 0 < mx | _ \<Rightarrow> True)"
| "task_fits _ \<longleftrightarrow> True"

lemma send_batch_safe:
  assumes ok: "safe ts s" and t: "ts p = Some (Send_Batch th pc)" and d: "\<not> task_done (Send_Batch th pc)" and b: "task_fits (Send_Batch th pc)"
  shows "safe_next ts p (Send_Batch th) (send_batch_iter_sync th p pc s)"
proof (cases pc)
  case (SB_Pending x)
  then show ?thesis using b safe_same [OF ok t, of "Send_Batch th (SB_Iter x)"] by (simp add: batch_ok_def safe_next_def same_shape_def has_flag_def)
next
  case (SB_Iter x)
  have "bt_total x - bt_sent x \<le> length (bt_iter x)" using b SB_Iter by (simp add: batch_ok_def)
  from safe_try_send_batch [OF ok t this] obtain k reason iter' s' where r: "try_send_batch_core (bt_iter x) (bt_total x - bt_sent x) s = Some ((k, reason), iter', s')"
    "\<And>t'. same_shape (Send_Batch th pc) t' \<Longrightarrow> safe (ts(p \<mapsto> t')) s'" by blast
  have "safe (ts(p \<mapsto> Send_Batch th (SB_Done e i))) s'" "safe (ts(p \<mapsto> Send_Batch th (SB_Park y))) s'" for e i y using r(2) SB_Iter by (simp_all add: same_shape_def has_flag_def)
  then show ?thesis using r(1) SB_Iter by (auto simp: safe_next_def Let_def)
next
  case (SB_Park x)
  obtain r s' where r: "park_sync_sender th p s = (r, s')" by force
  have "safe (ts(p \<mapsto> Send_Batch th (SB_Pending x))) s" "safe (ts(p \<mapsto> Send_Batch th (SB_Done e i))) s" for e i using safe_same [OF ok t] SB_Park by (simp_all add: same_shape_def has_flag_def)
  moreover have "r = Parked \<Longrightarrow> safe (ts(p \<mapsto> Send_Batch th (SB_Wait x))) s'" using safe_park_sync_sender [OF ok t _ _, of th s' "Send_Batch th (SB_Wait x)"] SB_Park r by simp
  ultimately show ?thesis using r park_retry(1) [OF r] SB_Park by (cases r) (auto simp: safe_next_def)
next
  case (SB_Wait x)
  have turn: "safe (ts(p \<mapsto> Send_Batch th (SB_Closed x))) s" "safe (ts(p \<mapsto> Send_Batch th (SB_Retry x))) s" if "mc_cells s p = Some c" "c \<noteq> st_waiting" for c
    using safe_turn [OF ok t that] SB_Wait by (simp_all add: has_flag_def)
  show ?thesis
  proof (rule safe_flag [OF ok t])
    show "sits (Send_Batch th pc) \<noteq> None" "\<not> dropping (Send_Batch th pc)" using SB_Wait by simp_all
  qed (use SB_Wait turn ok t in \<open>auto simp: safe_next_def fun_upd_idem\<close>)
next
  case (SB_Retry x)
  then show ?thesis using safe_unlinks(1) [OF ok t, of "Send_Batch th (SB_Pending x)"] by (simp add: safe_next_def has_flag_def)
next
  case (SB_Closed x)
  then show ?thesis using safe_unlinks(1) [OF ok t, of "Send_Batch th (SB_Done (Inl (bt_sent x, bt_pending x)) (bt_iter x))"] by (simp add: safe_next_def has_flag_def)
qed (use d in auto)

lemma task_run_safe:
  assumes ok: "safe ts s" and t: "ts p = Some t" and d: "\<not> task_done t" "\<not> task_idle t" "task_fits t"
  obtains t' s' where "task_run p expired t s = Some (t', s')" "safe (ts(p \<mapsto> t')) s'"
proof -
  have "\<exists>t' s'. task_run p expired t s = Some (t', s') \<and> safe (ts(p \<mapsto> t')) s'"
  proof (cases t)
    case (Send_Sync th pc)
    then show ?thesis using send_sync_safe [OF ok, of p th pc] t d by (auto simp: safe_next_def)
  next
    case (Send_Batch th pc)
    then show ?thesis using send_batch_safe [OF ok, of p th pc] t d by (auto simp: safe_next_def simp del: task_fits.simps)
  next
    case (Recv_Sync th pc)
    then show ?thesis using recv_sync_safe [OF ok, of p th pc] t d by (auto simp: safe_next_def)
  next
    case (Recv_Batch th pc)
    then show ?thesis using recv_batch_sync_safe [OF ok, of p th pc] t d by (auto simp: safe_next_def)
  next
    case (Recv_Timeout th pc)
    then show ?thesis using ptr_okD(1) [OF safeD [OF ok t]] by simp
  next
    case (Send_Future pc)
    then show ?thesis using send_future_safe [OF ok, of p pc] t d by (auto simp: safe_next_def)
  next
    case (Recv_Future pc)
    then show ?thesis using recv_future_safe [OF ok, of p pc] t d by (auto simp: safe_next_def)
  qed
  then show thesis using that by blast
qed

subsection \<open>Every step keeps the invariant\<close>

definition world_ok :: "('a, 't, 'w, 'p, 'h) world \<Rightarrow> bool" where
  "world_ok w \<longleftrightarrow> safe (wd_tasks w) (wd_core w) \<and> (\<forall>p t. wd_tasks w p = Some t \<longrightarrow> task_fits t)"

lemma task_run_live: "task_run p e t s = Some (t', s') \<Longrightarrow> \<not> task_done t \<and> \<not> task_idle t"
  by (cases t) (auto split: ssend_pc.splits sbatch_pc.splits srecv_pc.splits rbatch_pc.splits trecv_pc.splits fsend_pc.splits frecv_pc.splits)

lemma st_no_handoff [simp]: "\<not> flag_handoff st_closed_buffered" "\<not> flag_handoff st_waiting"
  by (simp_all add: flag_handoff_def st_closed_buffered_def st_waiting_def)

lemma send_batch_fits:
  assumes r: "send_batch_iter_sync th p pc s = Some (pc', s')" and ok: "mpmc_ok s" and f: "task_fits (Send_Batch th pc)" and c: "\<And>c. mc_cells s p = Some c \<Longrightarrow> \<not> flag_handoff c"
  shows "task_fits (Send_Batch th pc')"
proof (cases pc)
  case (SB_Iter b)
  obtain k reason iter s1 where t: "try_send_batch_core (bt_iter b) (bt_total b - bt_sent b) s = Some ((k, reason), iter, s1)" using r SB_Iter by (auto split: Option.bind_splits)
  from moves_send_batch [OF this ok] show ?thesis using r SB_Iter t f by (auto simp: Let_def batch_ok_def split: if_splits)
next
  case (SB_Wait b)
  then show ?thesis using r f c by (auto split: Option.bind_splits if_splits)
qed (use r f in \<open>auto simp: batch_ok_def split: option.splits prod.splits park.splits\<close>)

lemma recv_batch_fits: "recv_batch_sync th p pc s = Some (pc', s') \<Longrightarrow> task_fits (Recv_Batch th pc) \<Longrightarrow> task_fits (Recv_Batch th pc')"
  by (cases pc) (auto split: Option.bind_splits sum.splits try_recv_error.splits prod.splits park.splits if_splits)

lemma task_run_fits:
  assumes "task_run p e t s = Some (t', s')" "mpmc_ok s" "task_fits t" "ptr_ok (Some t) p s"
  shows "task_fits t'"
proof (cases t)
  case (Send_Batch th pc)
  have "\<not> flag_handoff c" if "mc_cells s p = Some c" for c using ptr_okD(4) [OF assms(4) that] Send_Batch by auto
  then show ?thesis using send_batch_fits [of th p pc s] assms Send_Batch by (auto simp del: task_fits.simps)
next
  case (Recv_Batch th pc)
  then show ?thesis using recv_batch_fits assms by (auto simp del: task_fits.simps)
qed (use assms in auto)

lemma fits_upd: "\<forall>p t. ts p = Some t \<longrightarrow> task_fits t \<Longrightarrow> task_fits t' \<Longrightarrow> \<forall>q t. (ts(p \<mapsto> t')) q = Some t \<longrightarrow> task_fits t"
  by simp

lemma batch_start_ok: "batch_start xs = SB_Pending b \<Longrightarrow> xs \<noteq> [] \<Longrightarrow> batch_ok b"
  by (auto simp: batch_start_def batch_ok_def)

lemma task_start_shape: "task_start t \<Longrightarrow> \<not> task_timed t \<Longrightarrow> sits t = None \<and> \<not> off_limits t \<and> \<not> dropping t \<and> task_fits t \<and> \<not> waits t"
  by (cases t) (auto simp: recv_batch_start_def intro: batch_start_ok split: ssend_pc.splits sbatch_pc.splits srecv_pc.splits rbatch_pc.splits fsend_pc.splits frecv_pc.splits if_splits)

lemma start_safe:
  assumes ok: "safe ts s" and p: "ts p = None" and t: "task_start t" "\<not> task_timed t"
  shows "safe (ts(p \<mapsto> t)) (task_new_flag t p s)"
proof (rule safe_only_at [OF ok])
  have n: "mc_cells s p = None" "\<And>Q. p \<notin> set (ptrs Q s)" using ok p unfolding safe_def ptr_ok_def by (metis view_ok.simps(1))+
  note k = task_start_shape [OF t]
  show "only_at p s (task_new_flag t p s)" "\<forall>Q. distinct (ptrs Q (task_new_flag t p s))" "mpmc_ok (task_new_flag t p s)" using ok by (cases t; simp add: safe_def)+
  have "mc_cells (task_new_flag t p s) p = (if is_future t then Some st_waiting else None)" "ptrs Q (task_new_flag t p s) = ptrs Q s" for Q using n(1) by (cases t; simp add: queue_flag_def)+
  then show "ptr_ok (Some t) p (task_new_flag t p s)" using n(2) k unfolding ptr_ok_def view_ok.simps by (auto simp: has_flag_def)
qed

lemma done_shape: "task_done t \<Longrightarrow> sits t = None"
  by (cases t) (auto split: ssend_pc.splits sbatch_pc.splits srecv_pc.splits rbatch_pc.splits fsend_pc.splits frecv_pc.splits)

lemma finish_safe:
  assumes ok: "safe ts s" and t: "ts p = Some t" "task_done t"
  shows "safe (ts(p := None)) (free_flag p s)"
proof (rule safe_only_at [OF ok])
  show "ptr_ok None p (free_flag p s)" using ptr_okD(2) [OF safeD [OF ok t(1)]] done_shape [OF t(2)] by (auto simp: ptr_ok_def free_flag_def)
qed (use ok in \<open>auto simp: safe_def\<close>)

lemma poll_safe:
  assumes ok: "safe ts s" and t: "ts p = Some t" "task_poll wk t = Some t'" and c: "\<not> task_registered t \<or> mc_cells s p \<noteq> Some st_waiting"
  shows "safe (ts(p \<mapsto> t')) s" "task_fits t'"
proof -
  note k = ptr_okD [OF safeD [OF ok t(1)]]
  have reg: "safe (ts(p \<mapsto> t')) s" if r: "task_registered t" and s: "sits t' = sits t" "has_flag t' = has_flag t" "dropping t' = dropping t" "\<not> off_limits t'" "has_flag t"
  proof -
    obtain v where v: "mc_cells s p = Some v" using k(3) s(5) by auto
    then have "v \<noteq> st_waiting" using c r by auto
    from safe_turn [OF ok t(1) v this s(1-4)] show ?thesis .
  qed
  show "safe (ts(p \<mapsto> t')) s"
  proof (cases t)
    case (Send_Future pc)
    show ?thesis
    proof (cases pc)
      case (SF_New x)
      then show ?thesis using safe_same [OF ok t(1), of t'] t(2) Send_Future by (auto simp: same_shape_def has_flag_def)
    next
      case (SF_Idle w x)
      then show ?thesis using reg t(2) Send_Future by (auto simp: has_flag_def)
    qed (use t(2) Send_Future in auto)
  next
    case (Recv_Future pc)
    show ?thesis
    proof (cases pc)
      case RF_New
      then show ?thesis using safe_same [OF ok t(1), of t'] t(2) Recv_Future by (auto simp: same_shape_def has_flag_def)
    next
      case (RF_Idle w)
      then show ?thesis using reg t(2) Recv_Future by (auto simp: has_flag_def)
    qed (use t(2) Recv_Future in auto)
  qed (use t(2) in auto)
  show "task_fits t'" using t(2) by (cases t) auto
qed

lemma cancel_safe:
  assumes ok: "safe ts s" and t: "ts p = Some t" "sits t = Some Q" and t': "sits t' = Some Q" "dropping t'" "\<not> waits t'" "\<not> off_limits t'"
  obtains s' where "cancel_flag p s = Some s'" "safe (ts(p \<mapsto> t')) s'"
proof -
  note k = ptr_okD [OF safeD [OF ok t(1)]]
  obtain c where c: "mc_cells s p = Some c" using k(3) t(2) by (auto simp: has_flag_def)
  define s' where "s' = (if c = st_waiting then s\<lparr>mc_cells := (mc_cells s)(p \<mapsto> st_cancelled)\<rparr> else s)"
  have "safe (ts(p \<mapsto> t')) s'"
  proof (rule safe_only_at [OF ok])
    show "only_at p s s'" "mpmc_ok s'" "\<forall>Q. distinct (ptrs Q s')" using ok by (simp_all add: s'_def safe_def)
    have "mc_cells s' p = Some (if c = st_waiting then st_cancelled else c)" "\<And>Q. ptrs Q s' = ptrs Q s" using c by (simp_all add: s'_def)
    then show "ptr_ok (Some t') p s'" using k(2,7) c t t' unfolding ptr_ok_def view_ok.simps by (auto simp: has_flag_def)
  qed
  then show thesis using that [of s'] c by (simp add: cancel_flag_def s'_def)
qed

lemma drop_safe:
  assumes ok: "safe ts s" and t: "ts p = Some t" "task_drop p t s = Some (t', s')"
  shows "safe (ts(p \<mapsto> t')) s'" "task_fits t'"
proof -
  have "safe (ts(p \<mapsto> t')) s' \<and> task_fits t'"
  proof (cases t)
    case (Send_Future pc)
    show ?thesis
    proof (cases pc)
      case (SF_New x)
      have n: "mc_cells s p = None \<longleftrightarrow> False" "\<And>Q. p \<notin> set (ptrs Q s)" using ptr_okD(2,3) [OF safeD [OF ok t(1)]] SF_New Send_Future by (auto simp: has_flag_def)
      have "safe (ts(p \<mapsto> Send_Future SF_Dropped)) s" using safe_leave [OF ok t(1) only_at_flag(3), of "Send_Future SF_Dropped"] n ok SF_New Send_Future by (simp add: safe_def has_flag_def)
      then show ?thesis using t(2) SF_New Send_Future by auto
    next
      case (SF_Idle w x)
      obtain s1 where "cancel_flag p s = Some s1" "safe (ts(p \<mapsto> Send_Future SF_Drop)) s1"
        using cancel_safe [OF ok t(1), of Async_Senders "Send_Future SF_Drop"] SF_Idle Send_Future by auto
      then show ?thesis using t(2) SF_Idle Send_Future by auto
    qed (use t(2) Send_Future in auto)
  next
    case (Recv_Future pc)
    show ?thesis
    proof (cases pc)
      case RF_New
      have n: "mc_cells s p = None \<longleftrightarrow> False" "\<And>Q. p \<notin> set (ptrs Q s)" using ptr_okD(2,3) [OF safeD [OF ok t(1)]] RF_New Recv_Future by (auto simp: has_flag_def)
      have "safe (ts(p \<mapsto> Recv_Future RF_Dropped)) s" using safe_leave [OF ok t(1) only_at_flag(3), of "Recv_Future RF_Dropped"] n ok RF_New Recv_Future by (simp add: safe_def has_flag_def)
      then show ?thesis using t(2) RF_New Recv_Future by auto
    next
      case (RF_Idle w)
      obtain s1 where "cancel_flag p s = Some s1" "safe (ts(p \<mapsto> Recv_Future RF_Drop)) s1"
        using cancel_safe [OF ok t(1), of Async_Receivers "Recv_Future RF_Drop"] RF_Idle Recv_Future by auto
      then show ?thesis using t(2) RF_Idle Recv_Future by auto
    qed (use t(2) Recv_Future in auto)
  qed (use t(2) in auto)
  then show "safe (ts(p \<mapsto> t')) s'" "task_fits t'" by blast+
qed

lemma close_safe:
  assumes ok: "safe ts s"
  shows "\<exists>s'. close_sender s = Some s' \<and> safe ts s'" "\<exists>s'. close_receiver s = Some s' \<and> safe ts s'"
proof -
  note k = safe_tidy [OF ok] safe_ok [OF ok]
  have c: "0 < mc_capacity s" using k(2) by (simp add: mpmc_ok_def)
  obtain s1 where "close_sender s = Some s1" "calm s s1" using close_sender_calm [OF k(1)] by blast
  then show "\<exists>s'. close_sender s = Some s' \<and> safe ts s'" using safe_calm_only [OF ok] close_moves(1) [OF _ k(2)] by (auto simp: moves_def)
  obtain s2 where "close_receiver s = Some s2" "calm s s2" using close_receiver_calm [OF k(1) c] by blast
  then show "\<exists>s'. close_receiver s = Some s' \<and> safe ts s'" using safe_calm_only [OF ok] close_moves(2) [OF _ k(2)] by (auto simp: moves_def)
qed

lemma safe_counts: "safe ts s \<Longrightarrow> safe ts (add_sender s)" "safe ts s \<Longrightarrow> safe ts (add_receiver s)"
  by (auto simp: safe_def add_sender_def add_receiver_def ptr_ok_def)

lemma mpmc_step_safe:
  assumes "mpmc_step L w e w'" "world_ok w" "Timed \<notin> L" "Spurious \<notin> L"
  shows "world_ok w'"
  using assms
proof (induction rule: mpmc_step.induct)
  case (step_start w p t)
  then show ?case using start_safe [of "wd_tasks w" "wd_core w" p t] task_start_shape [of t] by (auto simp: world_ok_def)
next
  case (step_run w p t expired t' s')
  have d: "\<not> task_done t" "\<not> task_idle t" using task_run_live [OF step_run.hyps(2)] by blast+
  have ok: "safe (wd_tasks w) (wd_core w)" "task_fits t" using step_run by (auto simp: world_ok_def)
  obtain t1 s1 where "task_run p expired t (wd_core w) = Some (t1, s1)" "safe ((wd_tasks w)(p \<mapsto> t1)) s1"
    using task_run_safe [OF ok(1) step_run.hyps(1) d ok(2)] by blast
  moreover have "task_fits t'" using task_run_fits [OF step_run.hyps(2) safe_ok [OF ok(1)] ok(2) safeD [OF ok(1) step_run.hyps(1)]] .
  ultimately show ?case using step_run by (auto simp: world_ok_def)
next
  case (step_poll w p t wk t')
  then show ?case using poll_safe [of "wd_tasks w" "wd_core w" p t wk t'] by (auto simp: world_ok_def)
next
  case (step_drop w p t t' s')
  then show ?case using drop_safe [of "wd_tasks w" "wd_core w" p t t' s'] by (auto simp: world_ok_def)
next
  case (step_finish w p t)
  then show ?case using finish_safe [of "wd_tasks w" "wd_core w" p t] by (auto simp: world_ok_def)
next
  case (step_call c w h st closed r s')
  then have ok: "safe (wd_tasks w) (wd_core w)" by (simp add: world_ok_def)
  then show ?case using step_call safe_calm_only [OF ok mpmc_call_calm [OF step_call.hyps(3) safe_tidy [OF ok] safe_ok [OF ok]]] mpmc_call_fifo [OF step_call.hyps(3) safe_ok [OF ok]]
    by (auto simp: world_ok_def)
next
  case (step_clone_sender w h h')
  then show ?case by (auto simp: world_ok_def safe_counts)
next
  case (step_clone_receiver w h h')
  then show ?case by (auto simp: world_ok_def safe_counts)
next
  case (step_close_sender w h s')
  then show ?case using close_safe(1) [of "wd_tasks w" "wd_core w"] by (auto simp: world_ok_def)
next
  case (step_close_receiver w h s')
  then show ?case using close_safe(2) [of "wd_tasks w" "wd_core w"] by (auto simp: world_ok_def)
qed (auto simp: world_ok_def)

lemma mpmc_bounded_safe:
  assumes "mpmc_bounded capacity h = Some w" "capacity \<le> 2 ^ 63"
  shows "world_ok w"
proof -
  note k = mpmc_bounded_ok [OF assms]
  have "wd_tasks w = Map.empty" "mc_cells (wd_core w) = Map.empty" "refs Q (wd_core w) = []" for Q
    using assms(1) by (cases Q; auto simp: mpmc_bounded_def mpmc_new_def split: if_splits Option.bind_splits)+
  then show ?thesis using k(1) by (simp add: world_ok_def safe_def ptr_ok_def ptrs_def)
qed

lemma mpmc_run_safe:
  assumes "mpmc_run L capacity puts gots w" "capacity \<le> 2 ^ 63" "Timed \<notin> L" "Spurious \<notin> L"
  shows "world_ok w"
  using assms by (induction rule: mpmc_run.induct) (auto intro: mpmc_bounded_safe mpmc_step_safe)

subsection \<open>The properties\<close>

text \<open>
  Calls never fail inside the channel (C4). As long as nobody uses the timed receive and registered
  futures are polled only after they were woken, in every reachable state every running program can
  take its next step and every handle can be closed: no step panics, misses an expected item, or
  follows a pointer to a flag that is gone.
\<close>

theorem mpmc_memory_safe:
  assumes "mpmc_run L capacity puts gots w" "capacity \<le> 2 ^ 63" "Timed \<notin> L" "Spurious \<notin> L"
  shows "(\<forall>p t expired. wd_tasks w p = Some t \<longrightarrow> \<not> task_done t \<longrightarrow> \<not> task_idle t \<longrightarrow> task_run p expired t (wd_core w) \<noteq> None) \<and>
    (\<forall>p t. wd_tasks w p = Some t \<longrightarrow> task_idle t \<longrightarrow> task_drop p t (wd_core w) \<noteq> None) \<and>
    close_sender (wd_core w) \<noteq> None \<and> close_receiver (wd_core w) \<noteq> None"
proof (intro conjI allI impI)
  have ok: "safe (wd_tasks w) (wd_core w)" "\<And>p t. wd_tasks w p = Some t \<Longrightarrow> task_fits t" using mpmc_run_safe [OF assms] by (auto simp: world_ok_def)
  show "task_run p expired t (wd_core w) \<noteq> None" if "wd_tasks w p = Some t" "\<not> task_done t" "\<not> task_idle t" for p t expired
    using task_run_safe [OF ok(1) that ok(2) [OF that(1)]] by (metis option.distinct(1))
  show "task_drop p t (wd_core w) \<noteq> None" if t: "wd_tasks w p = Some t" "task_idle t" for p t
  proof -
    have "cancel_flag p (wd_core w) \<noteq> None" if "task_registered t" using ptr_okD(3) [OF safeD [OF ok(1) t(1)]] that
      by (cases t) (auto simp: cancel_flag_def has_flag_def)
    then show ?thesis using t(2) by (cases t) (auto split: fsend_pc.splits frecv_pc.splits)
  qed
  show "close_sender (wd_core w) \<noteq> None" "close_receiver (wd_core w) \<noteq> None" using close_safe [OF ok(1)] by auto
qed

text \<open>A receiver is parked and then woken by a send.\<close>

lemma demo_parked:
  obtains w where "mpmc_demo {} 2 [Start 1 (Recv_Sync 5 RS_Try), Run 1 False, Run 1 False, Call 0 (Try_Send 7)] = Some ([7], [], w)"
    "wd_tasks w 1 = Some (Recv_Sync 5 RS_Wait)" "mc_cells (wd_core w) 1 = Some st_success_space"
proof -
  have "map_option (\<lambda>(puts, gots, w). (puts, gots, wd_tasks w 1, mc_cells (wd_core w) 1)) (mpmc_demo {} 2 [Start 1 (Recv_Sync 5 RS_Try), Run 1 False, Run 1 False, Call 0 (Try_Send 7)]) =
    Some ([7], [], Some (Recv_Sync 5 RS_Wait), Some st_success_space)"
    by (simp add: mpmc_eval)
  then show thesis using that by auto
qed

theorem mpmc_memory_safe_witness:
  "\<exists>w :: (nat, nat, nat, nat, nat) world. mpmc_run {} 2 [7] [] w \<and> wd_tasks w 1 = Some (Recv_Sync 5 RS_Wait) \<and> task_run 1 False (Recv_Sync 5 RS_Wait) (wd_core w) \<noteq> None"
proof -
  obtain w where w: "mpmc_demo {} 2 [Start 1 (Recv_Sync 5 RS_Try), Run 1 False, Run 1 False, Call 0 (Try_Send 7)] = Some ([7], [], w)" "wd_tasks w 1 = Some (Recv_Sync 5 RS_Wait)"
    by (rule demo_parked)
  have "\<not> task_done (Recv_Sync 5 RS_Wait :: (nat, nat, nat) task)" "\<not> task_idle (Recv_Sync 5 RS_Wait :: (nat, nat, nat) task)" by simp_all
  with mpmc_memory_safe [OF mpmc_demo_run [OF w(1)]] w(2) have "task_run 1 False (Recv_Sync 5 RS_Wait) (wd_core w) \<noteq> None" by fastforce
  then show ?thesis using mpmc_demo_run [OF w(1)] w(2) by blast
qed

text \<open>
  Non-blocking calls answer like the specification (C6). In every state that is reachable without the timed receive and
  without polls of a registered future that was not woken, each of the four non-blocking calls returns, on an open and on a closed handle, and its
  result and the channel it leaves are those of the specification. On a closed handle a call is refused and
  changes nothing. On an open one it answers for the bounded queue: \<^verbatim>\<open>Closed\<close> exactly without receivers, \<^verbatim>\<open>Full\<close> exactly at the capacity,
  \<^verbatim>\<open>Disconnected\<close> or \<^verbatim>\<open>Empty\<close> exactly on an empty channel without or with senders, and a batch sends the
  longest prefix that fits and receives the oldest items.
\<close>

theorem mpmc_calls_refine_fifo:
  assumes "mpmc_run L capacity puts gots w" "capacity \<le> 2 ^ 63" "Timed \<notin> L" "Spurious \<notin> L"
  shows "\<exists>r s'. mpmc_call closed c (wd_core w) = Some (r, s') \<and> fifo_call closed c (mpmc_fifo (wd_core w)) = (r, mpmc_fifo s')"
proof -
  have ok: "safe (wd_tasks w) (wd_core w)" using mpmc_run_safe [OF assms] by (auto simp: world_ok_def)
  then obtain r s' where r: "mpmc_call closed c (wd_core w) = Some (r, s')" using mpmc_call_total [OF safe_tidy safe_ok] by blast
  then show ?thesis using mpmc_call_fifo [OF r safe_ok [OF ok]] by blast
qed

theorem mpmc_calls_refine_fifo_witness:
  "\<exists>w :: (nat, nat, nat, nat, nat) world. mpmc_run {} 2 [7] [] w \<and>
     (\<exists>r s'. mpmc_call False (Try_Send_Batch [8, 9]) (wd_core w) = Some (r, s') \<and> fifo_call False (Try_Send_Batch [8, 9]) (mpmc_fifo (wd_core w)) = (r, mpmc_fifo s'))"
proof -
  obtain w where w: "mpmc_demo {} 2 [Start 1 (Recv_Sync 5 RS_Try), Run 1 False, Run 1 False, Call 0 (Try_Send 7)] = Some ([7], [], w)" by (rule demo_parked)
  from mpmc_calls_refine_fifo [OF mpmc_demo_run [OF w], of False "Try_Send_Batch [8, 9]"] mpmc_demo_run [OF w] show ?thesis by (intro exI [of _ w]) simp
qed

end
