(* ===== verification/Mpmc_Wake.thy ===== *)
theory Mpmc_Wake
  imports Mpmc_Safety
begin

section \<open>No lost wake-ups in the bounded MPMC channel\<close>

text \<open>
  A waiter is woken with a hint to try again, not with an item, so another program may be faster. The
  invariant counts: while a receiver is parked, there are at least as many receivers on their way to
  try as there are items, and in the same way senders and free places. The two sides are instances
  of one locale.
\<close>

subsection \<open>One side of the channel\<close>

text \<open>The programs that are on their way to try, as \<open>act\<close> says of a program and its flag.\<close>

definition on_way :: "(('a, 't, 'w) task \<Rightarrow> 8 word option \<Rightarrow> bool) \<Rightarrow> ('p \<rightharpoonup> ('a, 't, 'w) task) \<Rightarrow> ('a, 't, 'w, 'p) mpmc \<Rightarrow> 'p set" where
  "on_way act ts s = {p. \<exists>t. ts p = Some t \<and> act t (mc_cells s p)}"

text \<open>
  \<open>act t c\<close> says that the program \<open>t\<close> with flag \<open>c\<close> is on its way to try, \<open>load\<close> is what the waiters
  of the side wait for, \<open>gate\<close> the number of handles on the other side.
\<close>

locale side =
  fixes K :: "wqueue set" and act :: "('a, 't, 'w) task \<Rightarrow> 8 word option \<Rightarrow> bool" and load :: "('a, 't, 'w, 'p) mpmc \<Rightarrow> nat" and gate :: "('a, 't, 'w, 'p) mpmc \<Rightarrow> nat"
  assumes parked_idle: "waits t \<Longrightarrow> \<not> act t (Some st_waiting)"
    and woken_act: "waits t \<Longrightarrow> sits t = Some Q \<Longrightarrow> Q \<in> K \<Longrightarrow> act t (Some st_success_space)"
    and act_stable: "act t (Some st_waiting) \<Longrightarrow> act t c"
begin

definition lively :: "('p \<rightharpoonup> ('a, 't, 'w) task) \<Rightarrow> ('a, 't, 'w, 'p) mpmc \<Rightarrow> bool" where
  "lively ts s \<longleftrightarrow> (waiting K s \<noteq> {} \<longrightarrow> load s \<le> card (on_way act ts s)) \<and> (gate s = 0 \<longrightarrow> waiting K s = {})"

text \<open>What a step of program \<open>p\<close> has to do for the waiters of the side.\<close>

definition cares :: "'p \<Rightarrow> ('a, 't, 'w) task option \<Rightarrow> ('a, 't, 'w, 'p) mpmc \<Rightarrow> ('a, 't, 'w) task option \<Rightarrow> ('a, 't, 'w, 'p) mpmc \<Rightarrow> bool" where
  "cares p t s t' s' \<longleftrightarrow>
     (waiting K s' \<subseteq> waiting K s \<and> (gate s' = 0 \<longrightarrow> gate s = 0 \<or> waiting K s' = {}) \<or> load s' = 0 \<and> gate s' \<noteq> 0) \<and>
     (load s' = 0 \<or> waiting K s' = {} \<or>
        load s' + (if (\<exists>u. t = Some u \<and> act u (mc_cells s p)) \<and> \<not> (\<exists>u. t' = Some u \<and> act u (mc_cells s' p)) then 1 else 0) \<le> load s + card (woken_by K s s')) \<and>
     p \<notin> woken_by K s s'"

lemma on_way_keep: "notified q s s' \<Longrightarrow> ts q = Some t \<Longrightarrow> act t (mc_cells s q) \<Longrightarrow> act t (mc_cells s' q)"
  using notifiedD(1) [of q s s'] act_stable [of t] by auto

lemma on_way_new: "safe ts s \<Longrightarrow> q \<in> woken_by K s s' \<Longrightarrow> \<exists>t. ts q = Some t \<and> act t (mc_cells s' q) \<and> \<not> act t (mc_cells s q)"
proof -
  assume ok: "safe ts s" and q: "q \<in> woken_by K s s'"
  obtain Q where Q: "Q \<in> K" "q \<in> set (ptrs Q s)" "mc_cells s q = Some st_waiting" "mc_cells s' q = Some st_success_space" using q by (auto simp: woken_by_def)
  have "ts q \<noteq> None" using ok Q(2) unfolding safe_def ptr_ok_def by (metis view_ok.simps(1))
  then obtain t where t: "ts q = Some t" by blast
  note k = ptr_okD [OF safeD [OF ok t]]
  have "sits t = Some Q" "waits t" using k(2) [OF Q(2)] k(6) [OF Q(3)] by auto
  then show ?thesis using t Q woken_act [of t Q] parked_idle [of t] by auto
qed

lemma on_way_finite: "finite (dom ts) \<Longrightarrow> finite (on_way act ts s)"
  by (rule finite_subset [of _ "dom ts"]) (auto simp: on_way_def)

lemma lively_step:
  assumes ok: "safe ts s" and f: "finite (dom ts)" and v: "lively ts s" and n: "\<And>q. q \<noteq> p \<Longrightarrow> notified q s s'" and c: "cares p (ts p) s t' s'"
  shows "lively (ts(p := t')) s'"
  unfolding lively_def
proof (intro conjI impI)
  show "waiting K s' = {}" if "gate s' = 0" using v c that unfolding lively_def cares_def by auto
  assume w: "waiting K s' \<noteq> {}"
  show "load s' \<le> card (on_way act (ts(p := t')) s')"
  proof (cases "load s' = 0")
    case False
    let ?A = "on_way act ts s" and ?A' = "on_way act (ts(p := t')) s'" and ?W = "woken_by K s s'"
    have sub: "waiting K s' \<subseteq> waiting K s" and le: "load s' + (if p \<in> ?A \<and> p \<notin> ?A' then 1 else 0) \<le> load s + card ?W" and pW: "p \<notin> ?W"
      using c False w unfolding cares_def on_way_def by auto
    have "finite (dom (ts(p := t')))" using f by (auto simp: dom_fun_upd)
    then have fin: "finite ?A'" and finA: "finite ?A" using on_way_finite f by blast+
    have keep: "q \<in> ?A'" if a: "q \<in> ?A" "q \<noteq> p" for q
      using a on_way_keep [OF n [OF a(2)]] by (auto simp: on_way_def)
    have new: "q \<in> ?A' \<and> q \<notin> ?A" if q: "q \<in> ?W" for q using on_way_new [OF ok q] pW q by (auto simp: on_way_def)
    have "card (?A - {p}) + card ?W = card ((?A - {p}) \<union> ?W)" using new finA woken_by_finite [of K s s'] by (subst card_Un_disjoint) auto
    also have "\<dots> + (if p \<in> ?A' then 1 else 0) = card ((?A - {p}) \<union> ?W \<union> (if p \<in> ?A' then {p} else {}))"
      using pW finA woken_by_finite [of K s s'] by auto
    also have "\<dots> \<le> card ?A'" using keep new by (intro card_mono [OF fin]) auto
    finally have "card (?A - {p}) + card ?W + (if p \<in> ?A' then 1 else 0) \<le> card ?A'" by (simp del: fun_upd_apply)
    moreover have "card ?A \<le> card (?A - {p}) + (if p \<in> ?A then 1 else 0)" using finA by (auto simp: card_Diff_singleton_if)
    moreover have "load s \<le> card ?A" using v w sub by (auto simp: lively_def)
    ultimately show ?thesis using le by (auto split: if_splits simp del: fun_upd_apply)
  qed simp
qed

text \<open>A step of nobody: a whole call or the closing of a handle.\<close>

lemma lively_calm:
  assumes ok: "safe ts s" and f: "finite (dom ts)" and v: "lively ts s" and n: "calm s s'"
    and c: "load s' = 0 \<or> waiting K s' = {} \<or> load s' \<le> load s + card (woken_by K s s')" and g: "gate s' = 0 \<Longrightarrow> gate s = 0 \<or> waiting K s' = {}"
  shows "lively ts s'"
  unfolding lively_def
proof (intro conjI impI)
  note sub = calm_waiting [OF n, of K]
  show "waiting K s' = {}" if "gate s' = 0" using v g [OF that] sub unfolding lively_def by auto
  assume w: "waiting K s' \<noteq> {}"
  let ?A = "on_way act ts s" and ?A' = "on_way act ts s'" and ?W = "woken_by K s s'"
  have k: "notified q s s'" for q using n by (simp add: calm_def)
  have "card ?A + card ?W = card (?A \<union> ?W)" using on_way_new [OF ok, of _ s'] on_way_finite [OF f] woken_by_finite [of K s s']
    by (subst card_Un_disjoint) (fastforce simp: on_way_def)+
  also have "\<dots> \<le> card ?A'" using on_way_keep [OF k] on_way_new [OF ok, of _ s'] by (intro card_mono on_way_finite [OF f]) (fastforce simp: on_way_def)
  finally have "card ?A + card ?W \<le> card ?A'" .
  moreover have "load s \<le> card ?A" using v w sub by (auto simp: lively_def)
  ultimately show "load s' \<le> card ?A'" using c w by auto
qed

text \<open>The three kinds of steps: one that leaves the load alone, one under the lock, and parking.\<close>

lemma cares_local:
  assumes "waiting K s' \<subseteq> waiting K s" "gate s' = gate s" "load s' = load s" "mc_cells s' p \<noteq> Some st_success_space \<or> mc_cells s p = mc_cells s' p"
    "\<And>u. t = Some u \<Longrightarrow> act u (mc_cells s p) \<Longrightarrow> \<exists>u'. t' = Some u' \<and> act u' (mc_cells s' p)"
  shows "cares p t s t' s'"
  using assms unfolding cares_def woken_by_def by auto

lemma cares_calm:
  assumes "calm s s'" "gate s' = gate s" "\<And>Q. p \<notin> set (ptrs Q s)"
    "load s' = 0 \<or> waiting K s' = {} \<or> load s' + (if (\<exists>u. t = Some u \<and> act u (mc_cells s p)) \<and> \<not> (\<exists>u. t' = Some u \<and> act u (mc_cells s' p)) then 1 else 0) \<le> load s + card (woken_by K s s')"
  shows "cares p t s t' s'"
  using assms calm_waiting [OF assms(1), of K] unfolding cares_def by (auto simp: woken_by_def)

lemma cares_parked: "load s' = 0 \<Longrightarrow> gate s' \<noteq> 0 \<Longrightarrow> mc_cells s' p = Some st_waiting \<Longrightarrow> cares p t s t' s'"
  unfolding cares_def woken_by_def by auto

end

subsection \<open>The two sides\<close>

text \<open>A program is on its way when it runs, or when it was told to try again.\<close>

fun active_recv :: "('a, 't, 'w) task \<Rightarrow> 8 word option \<Rightarrow> bool" where
  "active_recv (Recv_Sync t pc) c \<longleftrightarrow> (case pc of RS_Try \<Rightarrow> True | RS_Park \<Rightarrow> True | RS_Wait \<Rightarrow> c = Some st_success_space | _ \<Rightarrow> False)"
| "active_recv (Recv_Batch t pc) c \<longleftrightarrow> (case pc of RB_Try _ _ \<Rightarrow> True | RB_Park _ _ \<Rightarrow> True | RB_Wait _ _ \<Rightarrow> c = Some st_success_space | _ \<Rightarrow> False)"
| "active_recv (Recv_Future pc) c \<longleftrightarrow> (case pc of RF_Try _ \<Rightarrow> True | RF_Park _ \<Rightarrow> True | RF_Idle _ \<Rightarrow> c = Some st_success_space
     | RF_Check _ \<Rightarrow> c = Some st_success_space | _ \<Rightarrow> False)"
| "active_recv _ c \<longleftrightarrow> False"

fun active_send :: "('a, 't, 'w) task \<Rightarrow> 8 word option \<Rightarrow> bool" where
  "active_send (Send_Sync t pc) c \<longleftrightarrow> (case pc of SS_Try _ \<Rightarrow> True | SS_Park _ \<Rightarrow> True | SS_Retry _ \<Rightarrow> True | SS_Wait _ \<Rightarrow> c = Some st_success_space | _ \<Rightarrow> False)"
| "active_send (Send_Batch t pc) c \<longleftrightarrow> (case pc of SB_Pending _ \<Rightarrow> True | SB_Iter _ \<Rightarrow> True | SB_Park _ \<Rightarrow> True | SB_Retry _ \<Rightarrow> True
     | SB_Wait _ \<Rightarrow> c = Some st_success_space | _ \<Rightarrow> False)"
| "active_send (Send_Future pc) c \<longleftrightarrow> (case pc of SF_Try _ _ \<Rightarrow> True | SF_Park _ _ \<Rightarrow> True | SF_Unlink _ _ st \<Rightarrow> \<not> flag_closed st
     | SF_Idle _ _ \<Rightarrow> c = Some st_success_space | SF_Check _ _ \<Rightarrow> c = Some st_success_space | _ \<Rightarrow> False)"
| "active_send _ c \<longleftrightarrow> False"

text \<open>Receivers wait for items while there are senders, senders for free places while there are receivers.\<close>

definition items_left :: "('a, 't, 'w, 'p) mpmc \<Rightarrow> nat" where
  "items_left s = length (mpmc_items s)"

definition free_places :: "('a, 't, 'w, 'p) mpmc \<Rightarrow> nat" where
  "free_places s = mc_capacity s - length (mpmc_items s)"

lemmas pc_splits = ssend_pc.splits sbatch_pc.splits srecv_pc.splits rbatch_pc.splits fsend_pc.splits frecv_pc.splits

interpretation rx: side receivers active_recv items_left mc_sender_count
proof
  fix t :: "('a, 't, 'w) task" and Q c
  show "waits t \<Longrightarrow> \<not> active_recv t (Some st_waiting)" by (cases t) (auto split: pc_splits)
  show "waits t \<Longrightarrow> sits t = Some Q \<Longrightarrow> Q \<in> receivers \<Longrightarrow> active_recv t (Some st_success_space)" by (cases t) (auto split: pc_splits)
  show "active_recv t (Some st_waiting) \<Longrightarrow> active_recv t c" by (cases t) (auto split: pc_splits)
qed

interpretation tx: side senders active_send free_places mc_receiver_count
proof
  fix t :: "('a, 't, 'w) task" and Q c
  show "waits t \<Longrightarrow> \<not> active_send t (Some st_waiting)" by (cases t) (auto split: pc_splits)
  show "waits t \<Longrightarrow> sits t = Some Q \<Longrightarrow> Q \<in> senders \<Longrightarrow> active_send t (Some st_success_space)" by (cases t) (auto split: pc_splits)
  show "active_send t (Some st_waiting) \<Longrightarrow> active_send t c" by (cases t) (auto split: pc_splits)
qed

end
