(* ===== verification/Mpmc_Progress.thy ===== *)
theory Mpmc_Progress
  imports Mpmc_Wake
begin

section \<open>Progress of the bounded MPMC channel\<close>

text \<open>
  Every step of a program, call, poll, drop and operation on a handle keeps the counting invariant of
  both sides, so that no waiter is left behind while there is something for it.
\<close>

subsection \<open>What a step owes to the waiters\<close>

definition caring :: "'p \<Rightarrow> ('a, 't, 'w) task option \<Rightarrow> ('a, 't, 'w, 'p) mpmc \<Rightarrow> ('a, 't, 'w) task option \<Rightarrow> ('a, 't, 'w, 'p) mpmc \<Rightarrow> bool" where
  "caring p t s t' s' \<longleftrightarrow> (\<forall>q. q \<noteq> p \<longrightarrow> notified q s s') \<and> rx.cares p t s t' s' \<and> tx.cares p t s t' s'"

definition steady :: "('p \<rightharpoonup> ('a, 't, 'w) task) \<Rightarrow> ('a, 't, 'w, 'p) mpmc \<Rightarrow> bool" where
  "steady ts s \<longleftrightarrow> finite (dom ts) \<and> rx.lively ts s \<and> tx.lively ts s"

lemma steady_step: "safe ts s \<Longrightarrow> steady ts s \<Longrightarrow> caring p (ts p) s t' s' \<Longrightarrow> steady (ts(p := t')) s'"
  unfolding steady_def caring_def using rx.lively_step [of ts s p s' t'] tx.lively_step [of ts s p s' t'] by (auto simp: dom_fun_upd)

lemma steady_gates: "steady ts s \<Longrightarrow> mc_receiver_count s = 0 \<Longrightarrow> waiting senders s = {}" "steady ts s \<Longrightarrow> mc_sender_count s = 0 \<Longrightarrow> waiting receivers s = {}"
  by (simp_all add: steady_def rx.lively_def tx.lively_def)

lemma fifo_loads: "mpmc_fifo s' = mpmc_fifo s \<Longrightarrow> items_left s' = items_left s \<and> free_places s' = free_places s \<and> mc_sender_count s' = mc_sender_count s \<and> mc_receiver_count s' = mc_receiver_count s"
  by (simp add: mpmc_fifo_def items_left_def free_places_def)

lemma caring_local:
  assumes o: "only_at p s s'" and f: "mpmc_fifo s' = mpmc_fifo s"
    and w: "\<And>Q. p \<in> set (ptrs Q s') \<Longrightarrow> mc_cells s' p = Some st_waiting \<Longrightarrow> p \<in> set (ptrs Q s) \<and> mc_cells s p = Some st_waiting"
    and c: "mc_cells s' p \<noteq> Some st_success_space \<or> mc_cells s p = mc_cells s' p"
    and a: "\<And>u. t = Some u \<Longrightarrow> active_recv u (mc_cells s p) \<Longrightarrow> \<exists>u'. t' = Some u' \<and> active_recv u' (mc_cells s' p)"
      "\<And>u. t = Some u \<Longrightarrow> active_send u (mc_cells s p) \<Longrightarrow> \<exists>u'. t' = Some u' \<and> active_send u' (mc_cells s' p)"
  shows "caring p t s t' s'"
proof -
  have "waiting K s' \<subseteq> waiting K s" for K
  proof
    fix q assume "q \<in> waiting K s'"
    then obtain Q where Q: "Q \<in> K" "q \<in> set (ptrs Q s')" "mc_cells s' q = Some st_waiting" by (auto simp: waiting_def)
    have "q \<in> set (ptrs Q s) \<and> mc_cells s q = Some st_waiting"
    proof (cases "q = p")
      case True
      then show ?thesis using w [of Q] Q by simp
    next
      case False
      then show ?thesis using o Q unfolding only_at_def in_ptrs by simp
    qed
    then show "q \<in> waiting K s" using Q(1) by (auto simp: waiting_def)
  qed
  then show ?thesis unfolding caring_def
    using rx.cares_local [of s' s p t t'] tx.cares_local [of s' s p t t'] fifo_loads [OF f] c a only_at_notified [OF o] by blast
qed

lemma caring_stay:
  assumes "\<And>u. t = Some u \<Longrightarrow> active_recv u (mc_cells s p) \<Longrightarrow> \<exists>u'. t' = Some u' \<and> active_recv u' (mc_cells s p)"
    "\<And>u. t = Some u \<Longrightarrow> active_send u (mc_cells s p) \<Longrightarrow> \<exists>u'. t' = Some u' \<and> active_send u' (mc_cells s p)"
  shows "caring p t s t' s"
  by (rule caring_local) (use assms in auto)

lemma caring_calm:
  assumes c: "calm s s'" "\<And>Q. p \<notin> set (ptrs Q s)" and g: "mc_sender_count s' = mc_sender_count s" "mc_receiver_count s' = mc_receiver_count s"
    and r: "items_left s' = 0 \<or> waiting receivers s' = {} \<or> items_left s' + (if active_recv t (mc_cells s p) \<and> \<not> active_recv t' (mc_cells s' p) then 1 else 0) \<le> items_left s + card (woken_by receivers s s')"
    and t: "free_places s' = 0 \<or> waiting senders s' = {} \<or> free_places s' + (if active_send t (mc_cells s p) \<and> \<not> active_send t' (mc_cells s' p) then 1 else 0) \<le> free_places s + card (woken_by senders s s')"
  shows "caring p (Some t) s (Some t') s'"
  unfolding caring_def using c g r t rx.cares_calm [of s s' p "Some t" "Some t'"] tx.cares_calm [of s s' p "Some t" "Some t'"] by (simp add: calm_def)

subsection \<open>The sections under the lock\<close>

lemma sits_out: "safe ts s \<Longrightarrow> ts p = Some t \<Longrightarrow> sits t = None \<Longrightarrow> p \<notin> set (ptrs Q s)"
  using ptr_okD(2) [OF safeD] by fastforce

text \<open>What the operations of the specification do to items, free places and counts.\<close>

definition fifo_free :: "'a fifo \<Rightarrow> nat" where
  "fifo_free q = fq_capacity q - length (fq_items q)"

definition same_sides :: "'a fifo \<Rightarrow> 'a fifo \<Rightarrow> bool" where
  "same_sides q q' \<longleftrightarrow> fq_senders q' = fq_senders q \<and> fq_receivers q' = fq_receivers q"

lemma fifo_view: "items_left s = length (fq_items (mpmc_fifo s))" "free_places s = fifo_free (mpmc_fifo s)" "mc_sender_count s = fq_senders (mpmc_fifo s)"
  "mc_receiver_count s = fq_receivers (mpmc_fifo s)" "mpmc_ok s \<Longrightarrow> length (fq_items (mpmc_fifo s)) \<le> fq_capacity (mpmc_fifo s)"
  by (simp_all add: items_left_def free_places_def fifo_free_def mpmc_fifo_def mpmc_ok_def)

lemma fifo_send_load:
  "fifo_send x q = (r, q') \<Longrightarrow> same_sides q q' \<and> length (fq_items q') = length (fq_items q) + (if r = None then 1 else 0) \<and>
     fifo_free q = fifo_free q' + (if r = None then 1 else 0) \<and> (r = None \<or> fq_receivers q = 0 \<or> r = Some (Full x))"
  by (auto simp: fifo_send_def fifo_free_def same_sides_def split: if_splits)

lemma fifo_recv_load:
  "fifo_recv q = (r, q') \<Longrightarrow> length (fq_items q) \<le> fq_capacity q \<Longrightarrow> same_sides q q' \<and> (length (fq_items q') + 1 \<le> length (fq_items q) \<or> length (fq_items q') = 0) \<and>
     fifo_free q' = fifo_free q + (case r of Inr _ \<Rightarrow> 1 | Inl _ \<Rightarrow> 0)"
  by (auto simp: fifo_recv_def fifo_free_def same_sides_def split: list.splits)

lemma fifo_send_batch_load:
  "fifo_send_batch ys limit q = ((k, reason), ys', q') \<Longrightarrow> limit \<le> length ys \<Longrightarrow> same_sides q q' \<and> length (fq_items q') = length (fq_items q) + k \<and> fifo_free q = fifo_free q' + k \<and>
     (reason = Some BatchClosed \<longrightarrow> fq_receivers q = 0)"
  by (auto simp: fifo_send_batch_def fifo_free_def same_sides_def Let_def split: if_splits)

lemma fifo_recv_batch_load:
  "fifo_recv_batch out mx q = (r, out', q') \<Longrightarrow> length (fq_items q) \<le> fq_capacity q \<Longrightarrow> same_sides q q' \<and> (0 < mx \<longrightarrow> length (fq_items q') + 1 \<le> length (fq_items q) \<or> length (fq_items q') = 0) \<and>
     length (fq_items q') \<le> length (fq_items q) \<and> fifo_free q' = fifo_free q + (length out' - length out)"
  by (auto simp: fifo_recv_batch_def fifo_free_def same_sides_def Let_def)

lemma caring_send:
  assumes ok: "safe ts s" "steady ts s" and t: "ts p = Some t" "sits t = None" "\<not> active_recv t (mc_cells s p)" and r: "try_send_core x s = Some (r, s')"
    and a: "r = Some (Full x) \<Longrightarrow> active_send t' (mc_cells s' p)"
  shows "caring p (ts p) s (Some t') s'"
proof -
  note k = safe_tidy [OF ok(1)] safe_ok [OF ok(1)]
  note c = try_send_core_calm [OF k r]
  have f: "mpmc_ok s'" "fifo_send x (mpmc_fifo s) = (r, mpmc_fifo s')" using try_send_core_fifo [OF r k(2)] by auto
  have w: "waiting senders s' = {}" if "mc_receiver_count s = 0" using calm_waiting [OF c(1), of senders] steady_gates(1) [OF ok(2) that] by blast
  show ?thesis unfolding t(1) using c(2) t(3) a w fifo_send_load [OF f(2), unfolded same_sides_def, folded fifo_view(1-4)]
    by (intro caring_calm [OF c(1) sits_out [OF ok(1) t(1,2)]]) (auto simp: serves_def)
qed

lemma caring_recv:
  assumes ok: "safe ts s" "steady ts s" and t: "ts p = Some t" "sits t = None" "\<not> active_send t (mc_cells s p)" and r: "try_recv_core s = Some (r, s')"
  shows "caring p (ts p) s (Some t') s'"
proof -
  note k = safe_tidy [OF ok(1)] safe_ok [OF ok(1)]
  note c = try_recv_core_calm [OF k r]
  have f: "mpmc_ok s'" "fifo_recv (mpmc_fifo s) = (r, mpmc_fifo s')" using try_recv_core_fifo [OF r k(2)] by auto
  show ?thesis unfolding t(1) using c(2) t(3) fifo_recv_load [OF f(2) fifo_view(5) [OF k(2)], unfolded same_sides_def, folded fifo_view(1-4)]
    by (intro caring_calm [OF c(1) sits_out [OF ok(1) t(1,2)]]) (auto simp: serves_def)
qed

lemma caring_send_batch:
  assumes ok: "safe ts s" "steady ts s" and t: "ts p = Some t" "sits t = None" "\<not> active_recv t (mc_cells s p)"
    and r: "try_send_batch_core iter limit s = Some ((k, reason), iter', s')" "limit \<le> length iter"
    and a: "reason \<noteq> Some BatchClosed \<Longrightarrow> k = 0 \<Longrightarrow> active_send t' (mc_cells s' p)"
  shows "caring p (ts p) s (Some t') s'"
proof -
  note m = safe_tidy [OF ok(1)] safe_ok [OF ok(1)]
  note c = try_send_batch_core_calm [OF m r(1)]
  have f: "mpmc_ok s'" "fifo_send_batch iter limit (mpmc_fifo s) = ((k, reason), iter', mpmc_fifo s')" using try_send_batch_core_fifo [OF r(1) m(2)] by auto
  have w: "waiting senders s' = {}" if "mc_receiver_count s = 0" using calm_waiting [OF c(1), of senders] steady_gates(1) [OF ok(2) that] by blast
  show ?thesis unfolding t(1) using c(2) t(3) a w fifo_send_batch_load [OF f(2) r(2), unfolded same_sides_def, folded fifo_view(1-4)]
    by (intro caring_calm [OF c(1) sits_out [OF ok(1) t(1,2)]]) (auto simp: serves_def)
qed

lemma caring_recv_batch:
  assumes ok: "safe ts s" "steady ts s" and t: "ts p = Some t" "sits t = None" "\<not> active_send t (mc_cells s p)"
    and r: "try_recv_batch_core out mx s = Some (r, out', s')" "0 < mx"
  shows "caring p (ts p) s (Some t') s'"
proof -
  note m = safe_tidy [OF ok(1)] safe_ok [OF ok(1)]
  note c = try_recv_batch_core_calm [OF m r(1)]
  have f: "mpmc_ok s'" "fifo_recv_batch out mx (mpmc_fifo s) = (r, out', mpmc_fifo s')" using try_recv_batch_core_fifo [OF r(1) m(2)] by auto
  show ?thesis unfolding t(1) using c(2) t(3) r(2) fifo_recv_batch_load [OF f(2) fifo_view(5) [OF m(2)], unfolded same_sides_def, folded fifo_view(1-4)]
    by (intro caring_calm [OF c(1) sits_out [OF ok(1) t(1,2)]]) (auto simp: serves_def)
qed

text \<open>Parking: a sender is queued only on a full channel with receivers, a receiver only on an empty one with senders.\<close>

lemma caring_enqueue:
  assumes ok: "safe ts s" and t: "ts p = Some t" "sits t = None" and s': "mpmc_fifo s' = mpmc_fifo s" "refs Q s' = refs Q s @ [(p, r)]" "\<And>Q'. Q' \<noteq> Q \<Longrightarrow> refs Q' s' = refs Q' s"
    and c: "mc_cells s' = (mc_cells s)(p \<mapsto> st_waiting)" "\<And>q. q \<noteq> p \<Longrightarrow> mc_woken s' q = mc_woken s q"
    and e: "Q \<in> receivers \<and> items_left s = 0 \<and> mc_sender_count s \<noteq> 0 \<and> \<not> active_send t (mc_cells s p) \<or>
            Q \<in> senders \<and> free_places s = 0 \<and> mc_receiver_count s \<noteq> 0 \<and> \<not> active_recv t (mc_cells s p)"
  shows "caring p (ts p) s (Some t') s'"
proof -
  have r: "set (refs Q' s') = (if Q' = Q then insert (p, r) (set (refs Q' s)) else set (refs Q' s))" for Q' using s'(2,3) by (cases "Q' = Q") auto
  have o: "only_at p s s'" using c unfolding only_at_def by (simp add: r)
  have out: "p \<notin> set (ptrs Q' s)" for Q' by (rule sits_out [OF ok t])
  have p: "ptrs Q' s' = ptrs Q' s" if "Q' \<noteq> Q" for Q' using s'(3) [OF that] by (simp add: ptrs_def)
  have w: "waiting K s' = waiting K s" if "Q \<notin> K" for K
  proof -
    have "Q' \<noteq> Q" if "Q' \<in> K" for Q' using that \<open>Q \<notin> K\<close> by blast
    then show ?thesis using p out c(1) unfolding waiting_def by auto
  qed
  have n: "mc_cells s' p = Some st_waiting" using c(1) by simp
  note f = fifo_loads [OF s'(1)]
  have "rx.cares p (ts p) s (Some t') s' \<and> tx.cares p (ts p) s (Some t') s'"
  proof (cases "Q \<in> receivers")
    case True
    then have "waiting senders s' \<subseteq> waiting senders s" using w [of senders] by auto
    then show ?thesis using rx.cares_parked [OF _ _ n] tx.cares_local [of s' s p "ts p" "Some t'"] f n e t True by auto
  next
    case False
    then have "waiting receivers s' \<subseteq> waiting receivers s" using w [of receivers] by auto
    then show ?thesis using tx.cares_parked [OF _ _ n] rx.cares_local [of s' s p "ts p" "Some t'"] f n e t False by auto
  qed
  then show ?thesis using only_at_notified [OF o] by (simp add: caring_def)
qed

lemma caring_unparked:
  assumes ok: "safe ts s" "steady ts s" and t: "ts p = Some t" "sits t = None"
    and a: "active_recv t (mc_cells s p) \<Longrightarrow> active_recv t' (mc_cells s p) \<or> items_left s = 0" "active_send t (mc_cells s p) \<Longrightarrow> active_send t' (mc_cells s p) \<or> mc_receiver_count s = 0"
  shows "caring p (ts p) s (Some t') s"
  unfolding t(1) using a steady_gates(1) [OF ok(2)] by (intro caring_calm [OF calm_refl [OF safe_tidy [OF ok(1)]] sits_out [OF ok(1) t]]) auto

lemma no_places: "mpmc_ok s \<Longrightarrow> \<not> sender_can_retry s \<Longrightarrow> free_places s = 0"
  by (auto simp: sender_can_retry_def mpmc_ok_def mpmc_is_full_def free_places_def)

lemma caring_park_sync_sender:
  assumes ok: "safe ts s" "steady ts s" and t: "ts p = Some t" "sits t = None" "\<not> active_recv t (mc_cells s p)" and r: "park_sync_sender th p s = (r, s')"
    and a: "r = Park_Retry \<Longrightarrow> active_send t' (mc_cells s p)"
  shows "caring p (ts p) s (Some t') s'"
proof (cases "r = Parked")
  case False
  then show ?thesis using caring_unparked [OF ok t(1,2)] r t(3) a by (auto simp: park_sync_sender_def split: if_splits)
next
  case True
  then have s': "s' = queue_flag p (s\<lparr>mc_sync_senders := mc_sync_senders s @ [\<lparr>wt_handle = th, wt_state = p\<rparr>]\<rparr>)" "\<not> sender_can_retry s" "mc_receiver_count s \<noteq> 0"
    using r by (auto simp: park_sync_sender_def split: if_splits)
  show ?thesis using no_places [OF safe_ok [OF ok(1)] s'(2)] s'(3) t(3)
    by (intro caring_enqueue [where Q = Sync_Senders and r = "Thread th", OF ok(1) t(1,2)]) (simp_all add: s'(1), simp_all add: queue_flag_def)
qed

lemma caring_park_async_sender:
  assumes ok: "safe ts s" "steady ts s" and t: "ts p = Some t" "sits t = None" "\<not> active_recv t (mc_cells s p)" and r: "park_async_sender wk p s = (r, s')"
    and a: "r = Park_Retry \<Longrightarrow> active_send t' (mc_cells s p)"
  shows "caring p (ts p) s (Some t') s'"
proof (cases "r = Parked")
  case False
  then show ?thesis using caring_unparked [OF ok t(1,2)] r t(3) a by (auto simp: park_async_sender_def split: if_splits)
next
  case True
  then have s': "s' = queue_flag p (s\<lparr>mc_async_senders := mc_async_senders s @ [\<lparr>wt_handle = wk, wt_state = p\<rparr>]\<rparr>)" "\<not> sender_can_retry s" "mc_receiver_count s \<noteq> 0"
    using r by (auto simp: park_async_sender_def split: if_splits)
  show ?thesis using no_places [OF safe_ok [OF ok(1)] s'(2)] s'(3) t(3)
    by (intro caring_enqueue [where Q = Async_Senders and r = "Waker wk", OF ok(1) t(1,2)]) (simp_all add: s'(1), simp_all add: queue_flag_def)
qed

lemma caring_park_sync_receiver:
  assumes ok: "safe ts s" "steady ts s" and t: "ts p = Some t" "sits t = None" "\<not> active_send t (mc_cells s p)" and r: "park_sync_receiver th p s = (r, s')"
    and a: "r = Park_Retry \<Longrightarrow> active_recv t' (mc_cells s p)"
  shows "caring p (ts p) s (Some t') s'"
proof -
  have e: "uring_is_empty (mc_queue s) \<Longrightarrow> items_left s = 0" using mpmc_ring_is_empty_ok [OF safe_ok [OF ok(1)]] by (simp add: items_left_def)
  show ?thesis
  proof (cases "r = Parked")
    case False
    then show ?thesis using caring_unparked [OF ok t(1,2)] r t(3) a e by (auto simp: park_sync_receiver_def split: if_splits)
  next
    case True
    then have s': "s' = queue_flag p (s\<lparr>mc_sync_receivers := mc_sync_receivers s @ [\<lparr>wt_handle = th, wt_state = p\<rparr>]\<rparr>)" "uring_is_empty (mc_queue s)" "mc_sender_count s \<noteq> 0"
      using r by (auto simp: park_sync_receiver_def split: if_splits)
    show ?thesis using e [OF s'(2)] s'(3) t(3)
      by (intro caring_enqueue [where Q = Sync_Receivers and r = "Thread th", OF ok(1) t(1,2)]) (simp_all add: s'(1), simp_all add: queue_flag_def)
  qed
qed

lemma caring_park_async_receiver:
  assumes ok: "safe ts s" "steady ts s" and t: "ts p = Some t" "sits t = None" "\<not> active_send t (mc_cells s p)" and r: "park_async_receiver wk p s = (r, s')"
    and a: "r = Park_Retry \<Longrightarrow> active_recv t' (mc_cells s p)"
  shows "caring p (ts p) s (Some t') s'"
proof -
  have e: "mpmc_is_empty s \<Longrightarrow> items_left s = 0" using mpmc_is_empty_ok [OF safe_ok [OF ok(1)]] by (simp add: items_left_def)
  show ?thesis
  proof (cases "r = Parked")
    case False
    then show ?thesis using caring_unparked [OF ok t(1,2)] r t(3) a e by (auto simp: park_async_receiver_def split: if_splits)
  next
    case True
    have "\<not> queued p (mc_async_receivers s)" using sits_out [OF ok(1) t(1,2), of Async_Receivers] by (auto simp: queued_def ptrs_def list_ex_iff)
    then have s': "s' = queue_flag p (s\<lparr>mc_async_receivers := mc_async_receivers s @ [\<lparr>wt_handle = wk, wt_state = p\<rparr>]\<rparr>)" "mpmc_is_empty s" "mc_sender_count s \<noteq> 0"
      using r True by (auto simp: park_async_receiver_def split: if_splits)
    show ?thesis using e [OF s'(2)] s'(3) t(3)
      by (intro caring_enqueue [where Q = Async_Receivers and r = "Waker wk", OF ok(1) t(1,2)]) (simp_all add: s'(1), simp_all add: queue_flag_def)
  qed
qed

subsection \<open>The programs\<close>

text \<open>Leaving a queue, with the flag gone or kept.\<close>

lemma free_flag_gone [simp]: "mc_cells (free_flag p s) p = None"
  by (simp add: free_flag_def)

lemma caring_freed:
  assumes "only_at p s s'" "mpmc_fifo s' = mpmc_fifo s" "mc_cells s' p = None"
    "active_recv t (mc_cells s p) \<Longrightarrow> active_recv t' None" "active_send t (mc_cells s p) \<Longrightarrow> active_send t' None"
  shows "caring p (Some t) s (Some t') s'"
  by (rule caring_local) (use assms in auto)

lemma caring_kept:
  assumes "only_at p s s'" "mpmc_fifo s' = mpmc_fifo s" "mc_cells s' p = mc_cells s p" "\<And>Q. set (ptrs Q s') \<subseteq> set (ptrs Q s)"
    "active_recv t (mc_cells s p) \<Longrightarrow> active_recv t' (mc_cells s p)" "active_send t (mc_cells s p) \<Longrightarrow> active_send t' (mc_cells s p)"
  shows "caring p (Some t) s (Some t') s'"
  by (rule caring_local) (use assms in auto)

lemma caring_unlinks:
  assumes ok: "safe ts s"
  shows "active_send t (mc_cells s p) \<longrightarrow> active_send t' None \<Longrightarrow> active_recv t (mc_cells s p) \<longrightarrow> active_recv t' None \<Longrightarrow>
      caring p (Some t) s (Some t') (free_flag p (s\<lparr>mc_sync_senders := unlink_first p (mc_sync_senders s)\<rparr>))"
    "active_send t (mc_cells s p) \<longrightarrow> active_send t' None \<Longrightarrow> active_recv t (mc_cells s p) \<longrightarrow> active_recv t' None \<Longrightarrow>
      caring p (Some t) s (Some t') (free_flag p (s\<lparr>mc_sync_receivers := unlink_all p (mc_sync_receivers s)\<rparr>))"
    "active_send t (mc_cells s p) \<longrightarrow> active_send t' (mc_cells s p) \<Longrightarrow> active_recv t (mc_cells s p) \<longrightarrow> active_recv t' (mc_cells s p) \<Longrightarrow>
      caring p (Some t) s (Some t') (s\<lparr>mc_async_senders := unlink_all p (mc_async_senders s)\<rparr>)"
    "active_send t (mc_cells s p) \<longrightarrow> active_send t' (mc_cells s p) \<Longrightarrow> active_recv t (mc_cells s p) \<longrightarrow> active_recv t' (mc_cells s p) \<Longrightarrow>
      caring p (Some t) s (Some t') (s\<lparr>mc_async_receivers := unlink_all p (mc_async_receivers s)\<rparr>)"
proof -
  have e: "unlink_first p (mc_sync_senders s) = unlink_all p (mc_sync_senders s)" by (rule unlink_first_all [OF tidy_distinct(4) [OF safe_tidy [OF ok]]])
  have sub: "set (ptrs Q (s\<lparr>mc_async_senders := unlink_all p (mc_async_senders s)\<rparr>)) \<subseteq> set (ptrs Q s)" "set (ptrs Q (s\<lparr>mc_async_receivers := unlink_all p (mc_async_receivers s)\<rparr>)) \<subseteq> set (ptrs Q s)" for Q
    by (cases Q; auto simp: ptrs_unlink)+
  show "active_send t (mc_cells s p) \<longrightarrow> active_send t' None \<Longrightarrow> active_recv t (mc_cells s p) \<longrightarrow> active_recv t' None \<Longrightarrow>
      caring p (Some t) s (Some t') (free_flag p (s\<lparr>mc_sync_senders := unlink_first p (mc_sync_senders s)\<rparr>))"
    unfolding e by (rule caring_freed) (auto simp: only_at_unlink)
  show "active_send t (mc_cells s p) \<longrightarrow> active_send t' None \<Longrightarrow> active_recv t (mc_cells s p) \<longrightarrow> active_recv t' None \<Longrightarrow>
      caring p (Some t) s (Some t') (free_flag p (s\<lparr>mc_sync_receivers := unlink_all p (mc_sync_receivers s)\<rparr>))"
    by (rule caring_freed) (auto simp: only_at_unlink)
  show "active_send t (mc_cells s p) \<longrightarrow> active_send t' (mc_cells s p) \<Longrightarrow> active_recv t (mc_cells s p) \<longrightarrow> active_recv t' (mc_cells s p) \<Longrightarrow>
      caring p (Some t) s (Some t') (s\<lparr>mc_async_senders := unlink_all p (mc_async_senders s)\<rparr>)"
    by (rule caring_kept [OF only_at_unlink(2) _ _ sub(1)]) auto
  show "active_send t (mc_cells s p) \<longrightarrow> active_send t' (mc_cells s p) \<Longrightarrow> active_recv t (mc_cells s p) \<longrightarrow> active_recv t' (mc_cells s p) \<Longrightarrow>
      caring p (Some t) s (Some t') (s\<lparr>mc_async_receivers := unlink_all p (mc_async_receivers s)\<rparr>)"
    by (rule caring_kept [OF only_at_unlink(4) _ _ sub(2)]) auto
qed

text \<open>Reading the own flag: one that is not successful belongs to a program that is not on its way.\<close>

lemma caring_turn: "active_recv t (mc_cells s p) \<longrightarrow> active_recv t' (mc_cells s p) \<Longrightarrow> active_send t (mc_cells s p) \<longrightarrow> active_send t' (mc_cells s p) \<Longrightarrow> caring p (Some t) s (Some t') s"
  by (rule caring_stay) auto

lemma caring_free: "active_recv t (mc_cells s p) \<longrightarrow> active_recv t' None \<Longrightarrow> active_send t (mc_cells s p) \<longrightarrow> active_send t' None \<Longrightarrow> caring p (Some t) s (Some t') (free_flag p s)"
  by (rule caring_freed) auto

lemma flag_cases:
  assumes "safe ts s" "ts p = Some t" "mc_cells s p = Some c" "\<not> dropping t"
  shows "c = st_waiting \<or> c = st_success_space \<or> c = st_closed_buffered"
  using ptr_okD(4) [OF safeD [OF assms(1,2)] assms(3)] assms(4) by auto

lemma send_sync_cares:
  assumes ok: "safe ts s" "steady ts s" and t: "ts p = Some (Send_Sync th pc)" and r: "send_sync th p pc s = Some (pc', s')"
  shows "caring p (ts p) s (Some (Send_Sync th pc')) s'"
proof (cases pc)
  case (SS_Try x)
  then obtain q where q: "try_send_core x s = Some (q, s')" "q = Some (Full x) \<Longrightarrow> pc' = SS_Park x" using r by (auto split: Option.bind_splits option.splits try_send_error.splits)
  show ?thesis by (rule caring_send [OF ok t _ _ q(1)]) (use SS_Try q(2) in auto)
next
  case (SS_Park x)
  then obtain q where q: "park_sync_sender th p s = (q, s')" "q = Park_Retry \<Longrightarrow> pc' = SS_Try x" using r by (auto split: prod.splits park.splits)
  show ?thesis by (rule caring_park_sync_sender [OF ok t _ _ q(1)]) (use SS_Park q(2) in auto)
next
  case (SS_Wait x)
  then obtain c where c: "mc_cells s p = Some c" using r by (auto split: Option.bind_splits)
  have "caring p (ts p) s (Some (Send_Sync th pc')) s" "s' = s" using SS_Wait r c flag_cases [OF ok(1) t c] t by (auto intro!: caring_turn split: if_splits)
  then show ?thesis by simp
next
  case (SS_Retry x)
  then show ?thesis using r t caring_unlinks(1) [OF ok(1)] by auto
next
  case SS_Closed
  then show ?thesis using r t caring_unlinks(1) [OF ok(1)] by auto
qed (use r in auto)

lemma recv_sync_cares:
  assumes ok: "safe ts s" "steady ts s" and t: "ts p = Some (Recv_Sync th pc)" and r: "recv_sync th p pc s = Some (pc', s')"
  shows "caring p (ts p) s (Some (Recv_Sync th pc')) s'"
proof (cases pc)
  case RS_Try
  then obtain q where q: "try_recv_core s = Some (q, s')" using r by (auto split: Option.bind_splits)
  show ?thesis by (rule caring_recv [OF ok t _ _ q(1)]) (use RS_Try in auto)
next
  case RS_Park
  then obtain q where q: "park_sync_receiver th p s = (q, s')" "q = Park_Retry \<Longrightarrow> pc' = RS_Try" using r by (auto split: prod.splits park.splits)
  show ?thesis by (rule caring_park_sync_receiver [OF ok t _ _ q(1)]) (use RS_Park q(2) in auto)
next
  case RS_Wait
  then obtain c where c: "mc_cells s p = Some c" using r by (auto split: Option.bind_splits)
  show ?thesis using RS_Wait r c flag_cases [OF ok(1) t c] t by (auto intro!: caring_turn caring_free split: if_splits)
next
  case RS_Closed
  then show ?thesis using r t caring_unlinks(2) [OF ok(1)] by auto
qed (use r in auto)

lemma recv_batch_cares:
  assumes ok: "safe ts s" "steady ts s" and t: "ts p = Some (Recv_Batch th pc)" "task_fits (Recv_Batch th pc)" and r: "recv_batch_sync th p pc s = Some (pc', s')"
  shows "caring p (ts p) s (Some (Recv_Batch th pc')) s'"
proof (cases pc)
  case (RB_Try out mx)
  then obtain q out' where q: "try_recv_batch_core out mx s = Some (q, out', s')" using r by (auto split: Option.bind_splits)
  show ?thesis by (rule caring_recv_batch [OF ok t(1) _ _ q(1)]) (use RB_Try t in auto)
next
  case (RB_Park out mx)
  then obtain q where q: "park_sync_receiver th p s = (q, s')" "q = Park_Retry \<Longrightarrow> pc' = RB_Try out mx" using r by (auto split: prod.splits park.splits)
  show ?thesis by (rule caring_park_sync_receiver [OF ok t(1) _ _ q(1)]) (use RB_Park q(2) in auto)
next
  case (RB_Wait out mx)
  then obtain c where c: "mc_cells s p = Some c" using r by (auto split: Option.bind_splits)
  show ?thesis using RB_Wait r c flag_cases [OF ok(1) t(1) c] t by (auto intro!: caring_turn caring_free split: if_splits)
next
  case (RB_Closed out)
  then show ?thesis using r t caring_unlinks(2) [OF ok(1)] by auto
qed (use r in auto)

lemma send_batch_cares:
  assumes ok: "safe ts s" "steady ts s" and t: "ts p = Some (Send_Batch th pc)" "task_fits (Send_Batch th pc)" and r: "send_batch_iter_sync th p pc s = Some (pc', s')"
  shows "caring p (ts p) s (Some (Send_Batch th pc')) s'"
proof (cases pc)
  case (SB_Pending b)
  then show ?thesis using r t by (auto simp: batch_ok_def intro!: caring_turn)
next
  case (SB_Iter b)
  then have b: "bt_total b - bt_sent b \<le> length (bt_iter b)" "bt_total b \<noteq> bt_sent b" using t(2) by (auto simp: batch_ok_def)
  obtain k reason iter where q: "try_send_batch_core (bt_iter b) (bt_total b - bt_sent b) s = Some ((k, reason), iter, s')"
    "reason \<noteq> Some BatchClosed \<Longrightarrow> k = 0 \<Longrightarrow> active_send (Send_Batch th pc') (mc_cells s' p)"
    using r SB_Iter b(2) by (auto simp: Let_def split: Option.bind_splits if_splits)
  show ?thesis by (rule caring_send_batch [OF ok t(1) _ _ q(1) b(1)]) (use SB_Iter q(2) in auto)
next
  case (SB_Park b)
  then obtain q where q: "park_sync_sender th p s = (q, s')" "q = Park_Retry \<Longrightarrow> pc' = SB_Pending b" using r by (auto split: prod.splits park.splits)
  show ?thesis by (rule caring_park_sync_sender [OF ok t(1) _ _ q(1)]) (use SB_Park q(2) in auto)
next
  case (SB_Wait b)
  then obtain c where c: "mc_cells s p = Some c" using r by (auto split: Option.bind_splits)
  show ?thesis using SB_Wait r c flag_cases [OF ok(1) t(1) c] t by (auto intro!: caring_turn split: if_splits)
next
  case (SB_Retry b)
  then show ?thesis using r t caring_unlinks(1) [OF ok(1)] by auto
next
  case (SB_Closed b)
  then show ?thesis using r t caring_unlinks(1) [OF ok(1)] by auto
qed (use r in auto)

lemma send_future_cares:
  assumes ok: "safe ts s" "steady ts s" and t: "ts p = Some (Send_Future pc)" and r: "send_future_step p pc s = Some (pc', s')"
  shows "caring p (ts p) s (Some (Send_Future pc')) s'"
proof (cases pc)
  case (SF_Check w x)
  then obtain c where c: "mc_cells s p = Some c" using r by (auto split: Option.bind_splits)
  show ?thesis using SF_Check r c flag_cases [OF ok(1) t c] t by (auto intro!: caring_turn)
next
  case (SF_Unlink w x st)
  have "unlink_first p (mc_async_senders s) = unlink_all p (mc_async_senders s)" by (rule unlink_first_all [OF tidy_distinct(3) [OF safe_tidy [OF ok(1)]]])
  then show ?thesis using SF_Unlink r t caring_unlinks(3) [OF ok(1)] by auto
next
  case (SF_Rewake w x)
  then show ?thesis using ptr_okD(1) [OF safeD [OF ok(1) t]] by simp
next
  case (SF_Try w x)
  then obtain q where q: "try_send_core x s = Some (q, s')" "q = Some (Full x) \<Longrightarrow> pc' = SF_Park w x" using r by (auto split: Option.bind_splits option.splits try_send_error.splits)
  show ?thesis by (rule caring_send [OF ok t _ _ q(1)]) (use SF_Try q(2) in auto)
next
  case (SF_Park w x)
  then obtain q where q: "park_async_sender w p s = (q, s')" "q = Park_Retry \<Longrightarrow> pc' = SF_Try w x" using r by (auto split: prod.splits park.splits)
  show ?thesis by (rule caring_park_async_sender [OF ok t _ _ q(1)]) (use SF_Park q(2) in auto)
next
  case SF_Drop
  then show ?thesis using r t caring_unlinks(3) [OF ok(1)] by auto
qed (use r in auto)

lemma recv_future_cares:
  assumes ok: "safe ts s" "steady ts s" and t: "ts p = Some (Recv_Future pc)" and r: "recv_future_step p pc s = Some (pc', s')"
  shows "caring p (ts p) s (Some (Recv_Future pc')) s'"
proof (cases pc)
  case (RF_Check w)
  then obtain c where c: "mc_cells s p = Some c" using r by (auto split: Option.bind_splits)
  show ?thesis using RF_Check r c flag_cases [OF ok(1) t c] t by (auto intro!: caring_turn)
next
  case RF_Unlink
  then show ?thesis using r t caring_unlinks(4) [OF ok(1)] by auto
next
  case (RF_Try w)
  then obtain q where q: "try_recv_core s = Some (q, s')" using r by (auto split: Option.bind_splits)
  show ?thesis by (rule caring_recv [OF ok t _ _ q(1)]) (use RF_Try in auto)
next
  case (RF_Park w)
  then obtain q where q: "park_async_receiver w p s = (q, s')" "q = Park_Retry \<Longrightarrow> pc' = RF_Try w" using r by (auto split: prod.splits park.splits)
  show ?thesis by (rule caring_park_async_receiver [OF ok t _ _ q(1)]) (use RF_Park q(2) in auto)
next
  case RF_Drop
  then show ?thesis using r t caring_unlinks(4) [OF ok(1)] by auto
qed (use r in auto)

lemma task_run_cares:
  assumes ok: "safe ts s" "steady ts s" and t: "ts p = Some t" "task_fits t" and r: "task_run p expired t s = Some (t', s')"
  shows "caring p (ts p) s (Some t') s'"
proof (cases t)
  case (Recv_Timeout th pc)
  then show ?thesis using ptr_okD(1) [OF safeD [OF ok(1) t(1)]] by simp
qed (use assms send_sync_cares [OF ok] send_batch_cares [OF ok] recv_sync_cares [OF ok] recv_batch_cares [OF ok] send_future_cares [OF ok] recv_future_cares [OF ok] in \<open>auto simp del: task_fits.simps\<close>)

subsection \<open>Steps of the world\<close>

lemma start_cares:
  assumes ok: "safe ts s" and p: "ts p = None"
  shows "caring p (ts p) s (Some t) (task_new_flag t p s)"
proof -
  have "only_at p s (task_new_flag t p s)" "mpmc_fifo (task_new_flag t p s) = mpmc_fifo s" "ptrs Q (task_new_flag t p s) = ptrs Q s" for Q by (cases t; simp)+
  moreover have "p \<notin> set (ptrs Q s)" "mc_cells s p = None" for Q using ok p unfolding safe_def ptr_ok_def by (metis view_ok.simps(1))+
  moreover have "mc_cells (task_new_flag t p s) p \<noteq> Some st_success_space" using calculation(5) by (cases t) (simp_all add: queue_flag_def)
  ultimately show ?thesis using p by (intro caring_local) auto
qed

lemma finish_cares:
  assumes t: "ts p = Some t" "task_done t"
  shows "caring p (ts p) s None (free_flag p s)"
proof -
  have "\<not> active_recv t c" "\<not> active_send t c" for c using t(2) by (cases t; auto split: pc_splits)+
  then show ?thesis using t(1) by (intro caring_local) auto
qed

lemma poll_cares:
  assumes ok: "safe ts s" and t: "ts p = Some t" "task_poll wk t = Some t'"
  shows "caring p (ts p) s (Some t') s"
proof -
  have "active_recv t c \<longrightarrow> active_recv t' c" "active_send t c \<longrightarrow> active_send t' c" for c using t(2)
    by (cases t; auto elim!: send_future_poll.elims recv_future_poll.elims)+
  then show ?thesis using t(1) caring_turn by metis
qed

lemma drop_cares:
  assumes ok: "safe ts s" and t: "ts p = Some t" "task_drop p t s = Some (t', s')" and c: "\<not> task_registered t \<or> mc_cells s p \<noteq> Some st_success_space"
  shows "caring p (ts p) s (Some t') s'"
proof -
  have a: "\<not> active_recv t (mc_cells s p)" "\<not> active_send t (mc_cells s p)" using t(2) c
    by (cases t; auto elim!: send_future_drop.elims recv_future_drop.elims)+
  have "s' = s \<or> cancel_flag p s = Some s'" using t(2) by (cases t) (auto elim!: send_future_drop.elims recv_future_drop.elims split: Option.bind_splits)
  then have "s' = s \<or> s' = s\<lparr>mc_cells := (mc_cells s)(p \<mapsto> st_cancelled)\<rparr>" by (auto simp: cancel_flag_def split: Option.bind_splits if_splits)
  then show ?thesis using a t(1) by (intro caring_local) auto
qed

lemma call_serves:
  assumes "mpmc_call closed c s = Some (r, s')" "tidy s" "mpmc_ok s"
  shows "serves receivers (items_left s' - items_left s) s s'" "serves senders (free_places s' - free_places s) s s'"
    "mc_sender_count s' = mc_sender_count s" "mc_receiver_count s' = mc_receiver_count s"
proof -
  have "serves receivers (items_left s' - items_left s) s s' \<and> serves senders (free_places s' - free_places s) s s' \<and> mc_sender_count s' = mc_sender_count s \<and> mc_receiver_count s' = mc_receiver_count s"
  proof (cases "closed \<or> c = Try_Send_Batch [] \<or> c = Try_Recv_Batch 0")
    case True
    then show ?thesis using mpmc_call_at_once [OF True, of s] assms(1) by (auto simp: serves_def)
  next
    case False
    show ?thesis
    proof (cases c)
      case (Try_Send x)
      then obtain q where q: "try_send_core x s = Some (q, s')" using assms(1) False by (auto split: Option.bind_splits)
      have f: "fifo_send x (mpmc_fifo s) = (q, mpmc_fifo s')" using try_send_core_fifo [OF q assms(3)] by simp
      show ?thesis using try_send_core_calm(2) [OF assms(2,3) q] fifo_send_load [OF f, unfolded same_sides_def, folded fifo_view(1-4)] by auto
    next
      case Try_Recv
      then obtain q where q: "try_recv_core s = Some (q, s')" using assms(1) False by (auto split: Option.bind_splits)
      have f: "fifo_recv (mpmc_fifo s) = (q, mpmc_fifo s')" using try_recv_core_fifo [OF q assms(3)] by simp
      show ?thesis using try_recv_core_calm(2) [OF assms(2,3) q] fifo_recv_load [OF f fifo_view(5) [OF assms(3)], unfolded same_sides_def, folded fifo_view(1-4)] by auto
    next
      case (Try_Send_Batch xs)
      then obtain k reason rest where q: "try_send_batch_core xs (length xs) s = Some ((k, reason), rest, s')" using assms(1) False by (auto split: Option.bind_splits)
      have f: "fifo_send_batch xs (length xs) (mpmc_fifo s) = ((k, reason), rest, mpmc_fifo s')" using try_send_batch_core_fifo [OF q assms(3)] by simp
      show ?thesis using try_send_batch_core_calm(2) [OF assms(2,3) q] fifo_send_batch_load [OF f order.refl, unfolded same_sides_def, folded fifo_view(1-4)] by auto
    next
      case (Try_Recv_Batch mx)
      then obtain q out where q: "try_recv_batch_core [] mx s = Some (q, out, s')" using assms(1) False by (auto split: Option.bind_splits)
      have f: "fifo_recv_batch [] mx (mpmc_fifo s) = (q, out, mpmc_fifo s')" using try_recv_batch_core_fifo [OF q assms(3)] by simp
      show ?thesis using try_recv_batch_core_calm(2) [OF assms(2,3) q] fifo_recv_batch_load [OF f fifo_view(5) [OF assms(3)], unfolded same_sides_def, folded fifo_view(1-4)] by auto
    qed
  qed
  then show "serves receivers (items_left s' - items_left s) s s'" "serves senders (free_places s' - free_places s) s s'"
    "mc_sender_count s' = mc_sender_count s" "mc_receiver_count s' = mc_receiver_count s" by blast+
qed

lemma steady_calm:
  assumes ok: "safe ts s" "steady ts s" "calm s s'" and v: "serves receivers (items_left s' - items_left s) s s'" "serves senders (free_places s' - free_places s) s s'"
    and g: "mc_sender_count s' = 0 \<Longrightarrow> mc_sender_count s = 0 \<or> waiting receivers s' = {}" "mc_receiver_count s' = 0 \<Longrightarrow> mc_receiver_count s = 0 \<or> waiting senders s' = {}"
  shows "steady ts s'"
proof -
  have "items_left s' = 0 \<or> waiting receivers s' = {} \<or> items_left s' \<le> items_left s + card (woken_by receivers s s')" using v(1) by (auto simp: serves_def)
  moreover have "free_places s' = 0 \<or> waiting senders s' = {} \<or> free_places s' \<le> free_places s + card (woken_by senders s s')" using v(2) by (auto simp: serves_def)
  ultimately show ?thesis using ok(2) rx.lively_calm [OF ok(1) _ _ ok(3)] tx.lively_calm [OF ok(1) _ _ ok(3)] g by (auto simp: steady_def)
qed

lemma steady_close:
  assumes ok: "safe ts s" "steady ts s"
  shows "close_sender s = Some s' \<Longrightarrow> steady ts s'" "close_receiver s = Some s' \<Longrightarrow> steady ts s'"
proof -
  note k = safe_tidy [OF ok(1)] safe_ok [OF ok(1)]
  have z: "0 < mc_capacity s" using k(2) by (simp add: mpmc_ok_def)
  show "steady ts s'" if r: "close_sender s = Some s'"
  proof -
    have c: "calm s s'" "mc_receiver_count s' = mc_receiver_count s" "mc_sender_count s' = 0 \<Longrightarrow> waiting receivers s' = {}" using close_sender_calm [OF k(1)] r by (metis option.inject)+
    have "items_left s' = items_left s" "free_places s' = free_places s" using close_moves(1) [OF r k(2)] by (auto simp: moves_def items_left_def free_places_def)
    then show ?thesis using steady_calm [OF ok c(1)] c(2,3) by auto
  qed
  show "steady ts s'" if r: "close_receiver s = Some s'"
  proof -
    have c: "calm s s'" "mc_sender_count s' = mc_sender_count s" "mc_receiver_count s' = 0 \<Longrightarrow> waiting senders s' = {}" using close_receiver_calm [OF k(1) z] r by (metis option.inject)+
    have "items_left s' = items_left s" "free_places s' = free_places s" using close_moves(2) [OF r k(2)] by (auto simp: moves_def items_left_def free_places_def)
    then show ?thesis using steady_calm [OF ok c(1)] c(2,3) by auto
  qed
qed

lemma steady_counts:
  "steady ts s \<Longrightarrow> mc_sender_count s + 1 < 2 ^ 64 \<Longrightarrow> steady ts (add_sender s)" "steady ts s \<Longrightarrow> mc_receiver_count s + 1 < 2 ^ 64 \<Longrightarrow> steady ts (add_receiver s)"
  by (auto simp: steady_def rx.lively_def tx.lively_def add_sender_def add_receiver_def items_left_def free_places_def on_way_def waiting_def ptrs_def)

subsection \<open>Who is woken\<close>

text \<open>The handle a parked program has to be woken through: its thread, or the waker of its last poll.\<close>

fun wakes :: "('a, 't, 'w) task \<Rightarrow> ('t, 'w) wake_ref option" where
  "wakes (Send_Future pc) = (case pc of SF_Idle w _ \<Rightarrow> Some (Waker w) | _ \<Rightarrow> None)"
| "wakes (Recv_Future pc) = (case pc of RF_Idle w \<Rightarrow> Some (Waker w) | _ \<Rightarrow> None)"
| "wakes (Send_Sync t pc) = Some (Thread t)"
| "wakes (Send_Batch t pc) = Some (Thread t)"
| "wakes (Recv_Sync t pc) = Some (Thread t)"
| "wakes (Recv_Batch t pc) = Some (Thread t)"
| "wakes (Recv_Timeout t pc) = Some (Thread t)"

definition reached :: "('a, 't, 'w) task \<Rightarrow> 'p \<Rightarrow> ('a, 't, 'w, 'p) mpmc \<Rightarrow> bool" where
  "reached t p s \<longleftrightarrow> (waits t \<longrightarrow> (\<forall>Q r. (p, r) \<in> set (refs Q s) \<longrightarrow> wakes t = Some r) \<and> (mc_cells s p \<noteq> Some st_waiting \<longrightarrow> mc_woken s p = wakes t))"

lemma notified_reached:
  assumes n: "notified p s s'" and r: "reached t p s"
  shows "reached t p s'"
  unfolding reached_def
proof (intro impI conjI allI)
  assume w: "waits t"
  have old: "\<And>Q r. (p, r) \<in> set (refs Q s) \<Longrightarrow> wakes t = Some r" and c: "mc_cells s p \<noteq> Some st_waiting \<Longrightarrow> mc_woken s p = wakes t" using r w unfolding reached_def by blast+
  show "wakes t = Some r" if "(p, r) \<in> set (refs Q s')" for Q r using n that old unfolding notified_def by blast
  assume "mc_cells s' p \<noteq> Some st_waiting"
  then show "mc_woken s' p = wakes t" using n c old unfolding notified_def by (metis (no_types, lifting))
qed

lemma park_reached:
  assumes "\<And>Q. p \<notin> set (ptrs Q s)"
  shows "park_sync_sender th p s = (Parked, s') \<Longrightarrow> wakes t = Some (Thread th) \<Longrightarrow> reached t p s'"
    "park_async_sender wk p s = (Parked, s') \<Longrightarrow> wakes t = Some (Waker wk) \<Longrightarrow> reached t p s'"
    "park_sync_receiver th p s = (Parked, s') \<Longrightarrow> wakes t = Some (Thread th) \<Longrightarrow> reached t p s'"
    "park_async_receiver wk p s = (Parked, s') \<Longrightarrow> wakes t = Some (Waker wk) \<Longrightarrow> reached t p s'"
proof -
  have new: "reached t p s'" if "mc_cells s' p = Some st_waiting" "wakes t = Some r" "refs Q s' = refs Q s @ [(p, r)]" "\<And>Q'. Q' \<noteq> Q \<Longrightarrow> refs Q' s' = refs Q' s" for r Q
  proof -
    have "r' = r" if "(p, r') \<in> set (refs Q' s')" for Q' r'
      using that assms [of Q'] \<open>refs Q s' = _\<close> \<open>\<And>Q'. Q' \<noteq> Q \<Longrightarrow> refs Q' s' = refs Q' s\<close> [of Q'] unfolding in_ptrs by (cases "Q' = Q") auto
    then show ?thesis using that(1,2) unfolding reached_def by metis
  qed
  show "park_sync_sender th p s = (Parked, s') \<Longrightarrow> wakes t = Some (Thread th) \<Longrightarrow> reached t p s'"
    by (rule new [where Q = Sync_Senders and r = "Thread th"]) (auto simp: park_sync_sender_def queue_flag_def split: if_splits)
  show "park_async_sender wk p s = (Parked, s') \<Longrightarrow> wakes t = Some (Waker wk) \<Longrightarrow> reached t p s'"
    by (rule new [where Q = Async_Senders and r = "Waker wk"]) (auto simp: park_async_sender_def queue_flag_def split: if_splits)
  show "park_sync_receiver th p s = (Parked, s') \<Longrightarrow> wakes t = Some (Thread th) \<Longrightarrow> reached t p s'"
    by (rule new [where Q = Sync_Receivers and r = "Thread th"]) (auto simp: park_sync_receiver_def queue_flag_def split: if_splits)
  have "\<not> queued p (mc_async_receivers s)" using assms [of Async_Receivers] by (auto simp: queued_def ptrs_def list_ex_iff)
  then show "park_async_receiver wk p s = (Parked, s') \<Longrightarrow> wakes t = Some (Waker wk) \<Longrightarrow> reached t p s'"
    by (intro new [where Q = Async_Receivers and r = "Waker wk"]) (auto simp: park_async_receiver_def queue_flag_def split: if_splits)
qed

lemma reached_moving: "\<not> waits t \<Longrightarrow> reached t p s"
  by (simp add: reached_def)

lemma task_run_reached:
  assumes ok: "safe ts s" and t: "ts p = Some t" "reached t p s" and r: "task_run p expired t s = Some (t', s')"
  shows "reached t' p s'"
proof (cases "waits t'")
  case True
  have "sits t = None \<or> t' = t \<and> s' = s" "\<not> off_limits t" using True r ptr_okD(1) [OF safeD [OF ok t(1)]]
    by (cases t; auto simp: Let_def elim!: send_sync.elims send_batch_iter_sync.elims recv_sync.elims recv_batch_sync.elims send_future_step.elims recv_future_step.elims
      split: Option.bind_splits if_splits option.splits prod.splits park.splits sum.splits try_send_error.splits try_recv_error.splits)+
  moreover have "reached t' p s'" if o: "sits t = None" "\<not> off_limits t"
    using True r t(2) o(2) park_reached [OF sits_out [OF ok t(1) o(1)]]
    by (cases t; auto simp: Let_def elim!: send_sync.elims send_batch_iter_sync.elims recv_sync.elims recv_batch_sync.elims send_future_step.elims recv_future_step.elims
      split: Option.bind_splits if_splits option.splits prod.splits park.splits sum.splits try_send_error.splits try_recv_error.splits)
  ultimately show ?thesis using t(2) by auto
qed (rule reached_moving)

subsection \<open>Every run\<close>

definition world_lively :: "('a, 't, 'w, 'p, 'h) world \<Rightarrow> bool" where
  "world_lively w \<longleftrightarrow> steady (wd_tasks w) (wd_core w) \<and> (\<forall>p t. wd_tasks w p = Some t \<longrightarrow> reached t p (wd_core w))"

text \<open>The steps of one program, and the steps of nobody.\<close>

lemma world_lively_program:
  assumes ok: "safe ts s" and v: "steady ts s" "\<And>q t. ts q = Some t \<Longrightarrow> reached t q s" and c: "caring p (ts p) s t' s'" "\<And>t. t' = Some t \<Longrightarrow> reached t p s'"
  shows "steady (ts(p := t')) s' \<and> (\<forall>q t. (ts(p := t')) q = Some t \<longrightarrow> reached t q s')"
proof (intro conjI allI impI)
  show "steady (ts(p := t')) s'" by (rule steady_step [OF ok v(1) c(1)])
  fix q t assume q: "(ts(p := t')) q = Some t"
  show "reached t q s'"
  proof (cases "q = p")
    case True
    then show ?thesis using q c(2) by simp
  next
    case False
    then have "ts q = Some t" using q by simp
    moreover have "notified q s s'" using c(1) False by (simp add: caring_def)
    ultimately show ?thesis using notified_reached [OF _ v(2) [of q t]] by simp
  qed
qed

lemma world_lively_calm: "steady ts s' \<Longrightarrow> (\<And>q t. ts q = Some t \<Longrightarrow> reached t q s) \<Longrightarrow> calm s s' \<Longrightarrow> steady ts s' \<and> (\<forall>q t. ts q = Some t \<longrightarrow> reached t q s')"
  using notified_reached [of _ s s'] by (simp add: calm_def)

lemma reached_counts [simp]: "reached t p (add_sender s) = reached t p s" "reached t p (add_receiver s) = reached t p s"
proof -
  have "refs Q (add_sender s) = refs Q s" "refs Q (add_receiver s) = refs Q s" for Q by (cases Q; simp add: add_sender_def add_receiver_def)+
  then show "reached t p (add_sender s) = reached t p s" "reached t p (add_receiver s) = reached t p s" by (simp_all add: reached_def add_sender_def add_receiver_def)
qed

lemma mpmc_step_lively:
  assumes "mpmc_step L w e w'" "world_ok w" "world_lively w" "Timed \<notin> L" "Spurious \<notin> L" "Dropping \<notin> L"
  shows "world_lively w'"
  using assms
proof (induction rule: mpmc_step.induct)
  case (step_start w p t)
  then have ok: "safe (wd_tasks w) (wd_core w)" "steady (wd_tasks w) (wd_core w)" "\<And>q t. wd_tasks w q = Some t \<Longrightarrow> reached t q (wd_core w)" by (auto simp: world_ok_def world_lively_def)
  have "\<not> waits t" using task_start_shape [of t] step_start by auto
  then show ?case using world_lively_program [OF ok start_cares [OF ok(1) step_start.hyps(1), of t]] reached_moving [of t p] by (simp add: world_lively_def del: fun_upd_apply)
next
  case (step_run w p t expired t' s')
  then have ok: "safe (wd_tasks w) (wd_core w)" "steady (wd_tasks w) (wd_core w)" "\<And>q t. wd_tasks w q = Some t \<Longrightarrow> reached t q (wd_core w)" "task_fits t" by (auto simp: world_ok_def world_lively_def)
  note c = task_run_cares [OF ok(1,2) step_run.hyps(1) ok(4) step_run.hyps(2)]
  show ?case using world_lively_program [OF ok(1-3) c] task_run_reached [OF ok(1) step_run.hyps(1) ok(3) [OF step_run.hyps(1)] step_run.hyps(2)] by (simp add: world_lively_def del: fun_upd_apply)
next
  case (step_poll w p t wk t')
  then have ok: "safe (wd_tasks w) (wd_core w)" "steady (wd_tasks w) (wd_core w)" "\<And>q t. wd_tasks w q = Some t \<Longrightarrow> reached t q (wd_core w)" by (auto simp: world_ok_def world_lively_def)
  have "\<not> waits t'" using step_poll.hyps(2) by (cases t) (auto elim!: send_future_poll.elims recv_future_poll.elims)
  then show ?case using world_lively_program [OF ok poll_cares [OF ok(1) step_poll.hyps(1,2)]] reached_moving [of t' p] by (simp add: world_lively_def del: fun_upd_apply)
next
  case (step_drop w p t t' s')
  then have ok: "safe (wd_tasks w) (wd_core w)" "steady (wd_tasks w) (wd_core w)" "\<And>q t. wd_tasks w q = Some t \<Longrightarrow> reached t q (wd_core w)"
    and d: "\<not> task_registered t \<or> mc_cells (wd_core w) p \<noteq> Some st_success_space" by (auto simp: world_ok_def world_lively_def)
  have "\<not> waits t'" using step_drop.hyps(2) by (cases t) (auto elim!: send_future_drop.elims recv_future_drop.elims split: Option.bind_splits)
  then show ?case using world_lively_program [OF ok drop_cares [OF ok(1) step_drop.hyps(1,2) d]] reached_moving [of t' p] by (simp add: world_lively_def del: fun_upd_apply)
next
  case (step_finish w p t)
  then have ok: "safe (wd_tasks w) (wd_core w)" "steady (wd_tasks w) (wd_core w)" "\<And>q t. wd_tasks w q = Some t \<Longrightarrow> reached t q (wd_core w)" by (auto simp: world_ok_def world_lively_def)
  then show ?case using world_lively_program [OF ok finish_cares [of "wd_tasks w" p t, OF step_finish.hyps]] by (simp add: world_lively_def del: fun_upd_apply)
next
  case (step_call c w h st closed r s')
  then have ok: "safe (wd_tasks w) (wd_core w)" "steady (wd_tasks w) (wd_core w)" "\<And>q t. wd_tasks w q = Some t \<Longrightarrow> reached t q (wd_core w)" by (auto simp: world_ok_def world_lively_def)
  note k = safe_tidy [OF ok(1)] safe_ok [OF ok(1)]
  note m = mpmc_call_calm [OF step_call.hyps(3) k]
  have "steady (wd_tasks w) s'" using steady_calm [OF ok(1,2) m] call_serves [OF step_call.hyps(3) k] by simp
  then show ?case using world_lively_calm [OF _ ok(3) m] by (simp add: world_lively_def)
next
  case (step_close_sender w h s')
  then have ok: "safe (wd_tasks w) (wd_core w)" "steady (wd_tasks w) (wd_core w)" "\<And>q t. wd_tasks w q = Some t \<Longrightarrow> reached t q (wd_core w)" by (auto simp: world_ok_def world_lively_def)
  have "calm (wd_core w) s'" using close_sender_calm [OF safe_tidy [OF ok(1)]] step_close_sender.hyps(2) by (metis option.inject)
  then show ?case using world_lively_calm [OF steady_close(1) [OF ok(1,2) step_close_sender.hyps(2)] ok(3)] by (simp add: world_lively_def)
next
  case (step_close_receiver w h s')
  then have ok: "safe (wd_tasks w) (wd_core w)" "steady (wd_tasks w) (wd_core w)" "\<And>q t. wd_tasks w q = Some t \<Longrightarrow> reached t q (wd_core w)" by (auto simp: world_ok_def world_lively_def)
  have z: "0 < mc_capacity (wd_core w)" using safe_ok [OF ok(1)] by (simp add: mpmc_ok_def)
  have "calm (wd_core w) s'" using close_receiver_calm [OF safe_tidy [OF ok(1)] z] step_close_receiver.hyps(2) by (metis option.inject)
  then show ?case using world_lively_calm [OF steady_close(2) [OF ok(1,2) step_close_receiver.hyps(2)] ok(3)] by (simp add: world_lively_def)
qed (auto simp: world_lively_def steady_counts)

lemma mpmc_bounded_lively:
  assumes "mpmc_bounded capacity h = Some w"
  shows "world_lively w"
proof -
  have "wd_tasks w = Map.empty" "refs Q (wd_core w) = []" for Q
    using assms by (cases Q; auto simp: mpmc_bounded_def mpmc_new_def split: if_splits Option.bind_splits)+
  then show ?thesis by (simp add: world_lively_def steady_def rx.lively_def tx.lively_def waiting_def ptrs_def)
qed

lemma mpmc_run_lively:
  assumes "mpmc_run L capacity puts gots w" "capacity \<le> 2 ^ 63" "Timed \<notin> L" "Spurious \<notin> L" "Dropping \<notin> L"
  shows "world_lively w"
  using assms
proof (induction rule: mpmc_run.induct)
  case (run_step puts gots w xs ys w')
  then show ?case using mpmc_step_lively [OF run_step.hyps(2)] mpmc_run_safe [OF run_step.hyps(1)] by blast
qed (rule mpmc_bounded_lively)

subsection \<open>The properties\<close>

text \<open>
  No wake-up is lost (C2). As long as nobody uses the timed receive, polls a registered future that
  was not woken, or drops a future that was told to try again: while a receiver is parked, some
  sender handle is left and there are at least as many receivers on their way to the channel as there
  are items in it; while a sender is parked, some receiver handle is left and there are at least as
  many senders on their way as there are free places; and every parked program whose flag was moved
  was woken through its own thread, or through the waker of its last poll.
\<close>

theorem mpmc_no_lost_wakeup:
  assumes "mpmc_run L capacity puts gots w" "capacity \<le> 2 ^ 63" "Timed \<notin> L" "Spurious \<notin> L" "Dropping \<notin> L"
  shows "(waiting receivers (wd_core w) \<noteq> {} \<longrightarrow> 0 < mc_sender_count (wd_core w) \<and> length (mpmc_items (wd_core w)) \<le> card (on_way active_recv (wd_tasks w) (wd_core w))) \<and>
    (waiting senders (wd_core w) \<noteq> {} \<longrightarrow> 0 < mc_receiver_count (wd_core w) \<and> mc_capacity (wd_core w) - length (mpmc_items (wd_core w)) \<le> card (on_way active_send (wd_tasks w) (wd_core w))) \<and>
    (\<forall>p t. wd_tasks w p = Some t \<and> waits t \<and> mc_cells (wd_core w) p \<noteq> Some st_waiting \<longrightarrow> mc_woken (wd_core w) p = wakes t)"
proof -
  have v: "world_lively w" by (rule mpmc_run_lively [OF assms])
  then have "rx.lively (wd_tasks w) (wd_core w)" "tx.lively (wd_tasks w) (wd_core w)" by (simp_all add: world_lively_def steady_def)
  moreover have "\<forall>p t. wd_tasks w p = Some t \<and> waits t \<and> mc_cells (wd_core w) p \<noteq> Some st_waiting \<longrightarrow> mc_woken (wd_core w) p = wakes t"
    using v unfolding world_lively_def reached_def by blast
  ultimately show ?thesis unfolding rx.lively_def tx.lively_def items_left_def free_places_def by (metis neq0_conv)
qed

abbreviation two_receivers :: "(nat, nat, nat, nat, nat) action list" where
  "two_receivers \<equiv> [Start 1 (Recv_Sync 5 RS_Try), Run 1 False, Run 1 False, Start 2 (Recv_Sync 6 RS_Try), Run 2 False, Run 2 False, Call 0 (Try_Send 7)]"

lemma demo_two_receivers:
  obtains w where "mpmc_demo {} 2 two_receivers = Some ([7], [], w)" "2 \<in> waiting receivers (wd_core w)" "mpmc_items (wd_core w) = [7]"
    "wd_tasks w 1 = Some (Recv_Sync 5 RS_Wait)" "mc_cells (wd_core w) 1 = Some st_success_space"
proof -
  have "map_option (\<lambda>(puts, gots, w). (puts, gots, 2 \<in> waiting receivers (wd_core w), mpmc_items (wd_core w), wd_tasks w 1, mc_cells (wd_core w) 1)) (mpmc_demo {} 2 two_receivers) =
    Some ([7], [], True, [7], Some (Recv_Sync 5 RS_Wait), Some st_success_space)"
    by (simp add: mpmc_eval waiting_def ptrs_def mpmc_items_def uring_items_def)
  then show thesis using that by auto
qed

theorem mpmc_no_lost_wakeup_witness:
  "\<exists>w :: (nat, nat, nat, nat, nat) world. mpmc_run {} 2 [7] [] w \<and> 2 \<in> waiting receivers (wd_core w) \<and> 1 \<le> card (on_way active_recv (wd_tasks w) (wd_core w)) \<and>
     mc_woken (wd_core w) 1 = Some (Thread 5)"
proof -
  obtain w where w: "mpmc_demo {} 2 two_receivers = Some ([7], [], w)" "2 \<in> waiting receivers (wd_core w)" "mpmc_items (wd_core w) = [7]"
    "wd_tasks w 1 = Some (Recv_Sync 5 RS_Wait)" "mc_cells (wd_core w) 1 = Some st_success_space" by (rule demo_two_receivers)
  note r = mpmc_demo_run [OF w(1)]
  have k: "waiting receivers (wd_core w) \<noteq> {} \<longrightarrow> length (mpmc_items (wd_core w)) \<le> card (on_way active_recv (wd_tasks w) (wd_core w))"
    "\<forall>p t. wd_tasks w p = Some t \<and> waits t \<and> mc_cells (wd_core w) p \<noteq> Some st_waiting \<longrightarrow> mc_woken (wd_core w) p = wakes t"
    using mpmc_no_lost_wakeup [OF r] by simp_all
  have "1 \<le> card (on_way active_recv (wd_tasks w) (wd_core w))" using k(1) w(2,3) by auto
  moreover have "mc_woken (wd_core w) 1 = Some (Thread 5)" using k(2) [rule_format, of 1 "Recv_Sync 5 RS_Wait"] w(4,5) by simp
  ultimately show ?thesis using r w(2) by blast
qed

text \<open>A program on its way is not stuck.\<close>

lemma active_runs: "active_recv t (mc_cells s p) \<or> active_send t (mc_cells s p) \<Longrightarrow> task_run p expired t s = Some (t', s') \<Longrightarrow> t' \<noteq> t"
  by (cases t; auto simp: Let_def elim!: send_sync.elims send_batch_iter_sync.elims recv_sync.elims recv_batch_sync.elims send_future_step.elims recv_future_step.elims
    split: Option.bind_splits if_splits option.splits prod.splits park.splits sum.splits try_send_error.splits try_recv_error.splits)

lemma active_shape: "active_recv t c \<or> active_send t c \<Longrightarrow> \<not> task_done t \<and> (task_idle t \<longrightarrow> waits t \<and> c = Some st_success_space)"
  by (cases t) (auto split: pc_splits)

text \<open>
  No deadlock (C16). As long as nobody uses the timed receive, polls a registered future that was not
  woken, or drops a future that was told to try again: when a receiver is parked although the channel holds an
  item, or a sender is parked although there is a free place, then some program is not blocked: its
  next step is defined and moves it on, or it is a future that was woken and has not been polled yet.
\<close>

theorem mpmc_no_deadlock:
  assumes "mpmc_run L capacity puts gots w" "capacity \<le> 2 ^ 63" "Timed \<notin> L" "Spurious \<notin> L" "Dropping \<notin> L"
    and "p \<in> waiting receivers (wd_core w) \<and> mpmc_items (wd_core w) \<noteq> [] \<or> p \<in> waiting senders (wd_core w) \<and> length (mpmc_items (wd_core w)) < mc_capacity (wd_core w)"
  shows "\<exists>q t. wd_tasks w q = Some t \<and>
    (task_idle t \<and> mc_cells (wd_core w) q = Some st_success_space \<and> mc_woken (wd_core w) q = wakes t \<or>
     (\<exists>t' s'. task_run q expired t (wd_core w) = Some (t', s') \<and> t' \<noteq> t))"
proof -
  have v: "rx.lively (wd_tasks w) (wd_core w)" "tx.lively (wd_tasks w) (wd_core w)" "\<And>p t. wd_tasks w p = Some t \<Longrightarrow> reached t p (wd_core w)"
    using mpmc_run_lively [OF assms(1-5)] by (simp_all add: world_lively_def steady_def)
  have ok: "safe (wd_tasks w) (wd_core w)" "\<And>p t. wd_tasks w p = Some t \<Longrightarrow> task_fits t" using mpmc_run_safe [OF assms(1-4)] by (auto simp: world_ok_def)
  have "0 < card (on_way active_recv (wd_tasks w) (wd_core w)) \<or> 0 < card (on_way active_send (wd_tasks w) (wd_core w))"
    using assms(6)
  proof (elim disjE conjE)
    assume "p \<in> waiting receivers (wd_core w)" "mpmc_items (wd_core w) \<noteq> []"
    then have "length (mpmc_items (wd_core w)) \<le> card (on_way active_recv (wd_tasks w) (wd_core w))" "0 < length (mpmc_items (wd_core w))"
      using v(1) by (auto simp: rx.lively_def items_left_def)
    then show ?thesis by linarith
  next
    assume "p \<in> waiting senders (wd_core w)" "length (mpmc_items (wd_core w)) < mc_capacity (wd_core w)"
    then have "mc_capacity (wd_core w) - length (mpmc_items (wd_core w)) \<le> card (on_way active_send (wd_tasks w) (wd_core w))" "0 < mc_capacity (wd_core w) - length (mpmc_items (wd_core w))"
      using v(2) by (auto simp: tx.lively_def free_places_def)
    then show ?thesis by linarith
  qed
  then have "on_way active_recv (wd_tasks w) (wd_core w) \<noteq> {} \<or> on_way active_send (wd_tasks w) (wd_core w) \<noteq> {}" by (auto simp: card_gt_0_iff)
  then obtain q t where q: "wd_tasks w q = Some t" "active_recv t (mc_cells (wd_core w) q) \<or> active_send t (mc_cells (wd_core w) q)" by (auto simp: on_way_def)
  note a = active_shape [OF q(2)]
  show ?thesis
  proof (cases "task_idle t")
    case True
    then have "mc_woken (wd_core w) q = wakes t" using v(3) [OF q(1)] a by (simp add: reached_def)
    then show ?thesis using q(1) a True by blast
  next
    case False
    obtain t' s' where "task_run q expired t (wd_core w) = Some (t', s')" using task_run_safe [OF ok(1) q(1) _ False ok(2) [OF q(1)]] a by blast
    then show ?thesis using q(1) active_runs [OF q(2)] by blast
  qed
qed

theorem mpmc_no_deadlock_witness:
  "\<exists>w :: (nat, nat, nat, nat, nat) world. mpmc_run {} 2 [7] [] w \<and> 2 \<in> waiting receivers (wd_core w) \<and>
     (\<exists>q t. wd_tasks w q = Some t \<and> (task_idle t \<and> mc_cells (wd_core w) q = Some st_success_space \<and> mc_woken (wd_core w) q = wakes t \<or>
        (\<exists>t' s'. task_run q False t (wd_core w) = Some (t', s') \<and> t' \<noteq> t)))"
proof -
  obtain w where w: "mpmc_demo {} 2 two_receivers = Some ([7], [], w)" "2 \<in> waiting receivers (wd_core w)" "mpmc_items (wd_core w) = [7]" by (rule demo_two_receivers)
  from mpmc_no_deadlock [OF mpmc_demo_run [OF w(1)], of 2 False] w(2,3) mpmc_demo_run [OF w(1)] show ?thesis by (intro exI [of _ w]) simp
qed

end
