(* ===== verification/Mpmc_Liberties.thy ===== *)
theory Mpmc_Liberties
  imports Mpmc_Progress
begin

section \<open>What the conditions on clients rule out\<close>

text \<open>
  Each liberty that the theorems on the bounded MPMC channel exclude is one the interface grants, and
  the channel fails under it. The runs are computed.
\<close>

abbreviation recv_parked :: "nat \<Rightarrow> (nat, nat, nat, nat, nat) action list" where
  "recv_parked p \<equiv> [Start p (Recv_Future RF_New), Poll p p, Run p False, Run p False]"

abbreviation timed_parked :: "nat \<Rightarrow> (nat, nat, nat, nat, nat) action list" where
  "timed_parked p \<equiv> [Start p (Recv_Timeout p RT_Try), Run p False, Run p False]"

lemma timed_panics: "map_option (\<lambda>(puts, gots, w). (wd_tasks w 1, task_run 1 False (Recv_Timeout 1 RT_Last) (wd_core w)))
  (mpmc_demo {Timed} 2 (timed_parked 1 @ [Call 0 (Try_Send 7), Call 0 Try_Recv, Run 1 True])) = Some (Some (Recv_Timeout 1 RT_Last), None)"
  by (simp add: mpmc_eval)

lemma timed_dangles: "map_option (\<lambda>(puts, gots, w). mpmc_call False (Try_Send 7) (wd_core w))
  (mpmc_demo {Timed} 2 (timed_parked 1 @ [Closing_Sender 0, Close_Sender 0, Run 1 False, Run 1 False, Run 1 False, Finish 1, Clone_Sender 0 1])) = Some None"
  by (simp add: mpmc_eval)

lemma spurious_dangles: "map_option (\<lambda>(puts, gots, w). mpmc_call False (Try_Send 8) (wd_core w))
  (mpmc_demo {Spurious} 2 (recv_parked 1 @ recv_parked 2 @ [Call 0 (Try_Send 7), Poll 2 2, Run 2 False, Run 2 False, Finish 2])) = Some None"
  by (simp add: mpmc_eval)

lemma dropping_loses: "map_option (\<lambda>(puts, gots, w). (wd_tasks w = [2 \<mapsto> Recv_Future (RF_Idle 2)], mc_cells (wd_core w) 2, mc_woken (wd_core w) 2, mc_queue_len (wd_core w)))
  (mpmc_demo {Dropping} 2 (recv_parked 1 @ recv_parked 2 @ [Call 0 (Try_Send 7), Drop 1, Run 1 False, Finish 1])) =
  Some (True, Some st_waiting, None, 1)"
  by (simp add: mpmc_eval)

lemma reviving_disconnects: "map_option (\<lambda>(puts, gots, w). (wd_senders w 1, map_option fst (mpmc_call False Try_Recv (wd_core w))))
  (mpmc_demo {Reviving} 2 [Clone_Sender 0 1, Closing_Sender 0, Close_Sender 0, Convert_Sender 0, Closing_Sender 0, Close_Sender 0]) =
  Some (Some Open, Some (Received (Inl Disconnected)))"
  by (simp add: mpmc_eval)

lemma demo_reaches: "map_option (\<lambda>(puts, gots, w). f w) (mpmc_demo L capacity as) = Some v \<Longrightarrow> \<exists>puts gots w. mpmc_run L capacity puts gots w \<and> f w = v"
  by (auto dest: mpmc_demo_run)

text \<open>
  Every condition is needed (C21). With the timed receive, a reachable call panics although it did
  nothing wrong: another receiver took the item it was woken for. With the timed receive and a close,
  or with a future polled before it was woken, a reachable \<^verbatim>\<open>try_send\<close> follows a pointer to a flag that is
  gone. When a future that was told to try again is dropped, a registered receiver that nobody woke
  is left with an item in the channel and no other program. When a closed sender is converted, a
  channel with an open sender reports \<^verbatim>\<open>Disconnected\<close>.
\<close>

theorem mpmc_liberties_needed:
  "(\<exists>puts gots. \<exists>w :: (nat, nat, nat, nat, nat) world. mpmc_run {Timed} 2 puts gots w \<and> wd_tasks w 1 = Some (Recv_Timeout 1 RT_Last) \<and> task_run 1 False (Recv_Timeout 1 RT_Last) (wd_core w) = None) \<and>
   (\<exists>puts gots. \<exists>w :: (nat, nat, nat, nat, nat) world. mpmc_run {Timed} 2 puts gots w \<and> mpmc_call False (Try_Send 7) (wd_core w) = None) \<and>
   (\<exists>puts gots. \<exists>w :: (nat, nat, nat, nat, nat) world. mpmc_run {Spurious} 2 puts gots w \<and> mpmc_call False (Try_Send 8) (wd_core w) = None) \<and>
   (\<exists>puts gots. \<exists>w :: (nat, nat, nat, nat, nat) world. mpmc_run {Dropping} 2 puts gots w \<and> wd_tasks w = [2 \<mapsto> Recv_Future (RF_Idle 2)] \<and>
      mc_cells (wd_core w) 2 = Some st_waiting \<and> mc_woken (wd_core w) 2 = None \<and> mc_queue_len (wd_core w) = 1) \<and>
   (\<exists>puts gots. \<exists>w :: (nat, nat, nat, nat, nat) world. mpmc_run {Reviving} 2 puts gots w \<and> wd_senders w 1 = Some Open \<and>
      map_option fst (mpmc_call False Try_Recv (wd_core w)) = Some (Received (Inl Disconnected)))"
  using demo_reaches [OF timed_panics] demo_reaches [OF timed_dangles] demo_reaches [OF spurious_dangles] demo_reaches [OF dropping_loses] demo_reaches [OF reviving_disconnects]
  by (intro conjI) (blast | auto)+

end
