(* ===== verification/Mpmc_Handles.thy ===== *)
theory Mpmc_Handles
  imports Mpmc_Safety
begin

section \<open>Handles of the bounded MPMC channel\<close>

text \<open>
  The counts behind the lock are the numbers of handles that are not closed, as long as no closed
  handle is turned into an open one by a conversion. So a channel disconnects exactly when the last
  handle of a side is closed.
\<close>

subsection \<open>Programs leave the counts alone\<close>

definition same_counts :: "('a, 't, 'w, 'p) mpmc \<Rightarrow> ('a, 't, 'w, 'p) mpmc \<Rightarrow> bool" where
  "same_counts s s' \<longleftrightarrow> mc_sender_count s' = mc_sender_count s \<and> mc_receiver_count s' = mc_receiver_count s"

lemma same_counts_fields [simp]:
  "same_counts s s" "same_counts s (free_flag p s') = same_counts s s'" "same_counts s (queue_flag p s') = same_counts s s'"
  "same_counts s (s'\<lparr>mc_sync_senders := a\<rparr>) = same_counts s s'" "same_counts s (s'\<lparr>mc_async_senders := b\<rparr>) = same_counts s s'"
  "same_counts s (s'\<lparr>mc_sync_receivers := a\<rparr>) = same_counts s s'" "same_counts s (s'\<lparr>mc_async_receivers := b\<rparr>) = same_counts s s'"
  "same_counts s (s'\<lparr>mc_cells := c\<rparr>) = same_counts s s'" "same_counts s (s'\<lparr>mc_woken := v\<rparr>) = same_counts s s'"
  by (simp_all add: same_counts_def free_flag_def queue_flag_def)

lemma same_counts_fifo: "mpmc_fifo s' = (mpmc_fifo s)\<lparr>fq_items := xs\<rparr> \<Longrightarrow> same_counts s s'"
  by (simp add: same_counts_def mpmc_fifo_def)

lemma counts_send: "try_send_core x s = Some (r, s') \<Longrightarrow> mpmc_ok s \<Longrightarrow> same_counts s s'"
  by (drule (1) try_send_core_fifo) (auto simp: fifo_send_def mpmc_fifo_def same_counts_def split: if_splits)

lemma counts_recv: "try_recv_core s = Some (r, s') \<Longrightarrow> mpmc_ok s \<Longrightarrow> same_counts s s'"
  by (drule (1) try_recv_core_fifo) (auto simp: fifo_recv_def mpmc_fifo_def same_counts_def split: list.splits)

lemma counts_send_batch: "try_send_batch_core iter limit s = Some (r, iter', s') \<Longrightarrow> mpmc_ok s \<Longrightarrow> same_counts s s'"
  by (drule (1) try_send_batch_core_fifo) (auto simp: fifo_send_batch_def mpmc_fifo_def same_counts_def Let_def split: if_splits)

lemma counts_recv_batch: "try_recv_batch_core out mx s = Some (r, out', s') \<Longrightarrow> mpmc_ok s \<Longrightarrow> same_counts s s'"
  by (drule (1) try_recv_batch_core_fifo) (auto simp: fifo_recv_batch_def mpmc_fifo_def same_counts_def Let_def split: if_splits)

lemma counts_park:
  "park_sync_sender t p s = (r, s') \<Longrightarrow> same_counts s s'" "park_async_sender w p s = (r, s') \<Longrightarrow> same_counts s s'"
  "park_sync_receiver t p s = (r, s') \<Longrightarrow> same_counts s s'" "park_async_receiver w p s = (r, s') \<Longrightarrow> same_counts s s'"
  by (auto simp: park_sync_sender_def park_async_sender_def park_sync_receiver_def park_async_receiver_def split: if_splits)

lemmas count_dests = counts_send counts_recv counts_send_batch counts_recv_batch counts_park

lemma send_sync_counts: "send_sync t p pc s = Some (pc', s') \<Longrightarrow> mpmc_ok s \<Longrightarrow> same_counts s s'"
  by (cases pc) (auto split: Option.bind_splits option.splits try_send_error.splits prod.splits park.splits if_splits dest: count_dests)

lemma send_batch_counts: "send_batch_iter_sync t p pc s = Some (pc', s') \<Longrightarrow> mpmc_ok s \<Longrightarrow> same_counts s s'"
  by (cases pc) (auto simp: Let_def split: Option.bind_splits option.splits prod.splits park.splits if_splits dest: count_dests)

lemma recv_sync_counts: "recv_sync t p pc s = Some (pc', s') \<Longrightarrow> mpmc_ok s \<Longrightarrow> same_counts s s'"
  by (cases pc) (auto split: Option.bind_splits sum.splits try_recv_error.splits prod.splits park.splits if_splits dest: count_dests)

lemma recv_batch_counts: "recv_batch_sync t p pc s = Some (pc', s') \<Longrightarrow> mpmc_ok s \<Longrightarrow> same_counts s s'"
  by (cases pc) (auto split: Option.bind_splits sum.splits try_recv_error.splits prod.splits park.splits if_splits dest: count_dests)

lemma recv_timeout_counts: "recv_timeout_sync t p e pc s = Some (pc', s') \<Longrightarrow> mpmc_ok s \<Longrightarrow> same_counts s s'"
  by (cases pc) (auto split: Option.bind_splits sum.splits try_recv_error.splits prod.splits park.splits if_splits dest: count_dests)

lemma send_future_counts: "send_future_step p pc s = Some (pc', s') \<Longrightarrow> mpmc_ok s \<Longrightarrow> same_counts s s'"
  by (cases pc) (auto split: Option.bind_splits option.splits try_send_error.splits prod.splits park.splits if_splits dest: count_dests)

lemma recv_future_counts: "recv_future_step p pc s = Some (pc', s') \<Longrightarrow> mpmc_ok s \<Longrightarrow> same_counts s s'"
  by (cases pc) (auto split: Option.bind_splits sum.splits try_recv_error.splits prod.splits park.splits if_splits dest: count_dests)

lemma task_run_counts: "task_run p e t s = Some (t', s') \<Longrightarrow> mpmc_ok s \<Longrightarrow> same_counts s s'"
  by (cases t) (auto dest: send_sync_counts send_batch_counts recv_sync_counts recv_batch_counts recv_timeout_counts send_future_counts recv_future_counts)

lemma task_drop_counts: "task_drop p t s = Some (t', s') \<Longrightarrow> same_counts s s'"
proof (cases t)
  case (Send_Future pc)
  assume "task_drop p t s = Some (t', s')"
  then show ?thesis using Send_Future by (cases pc) (auto simp: cancel_flag_def split: Option.bind_splits if_splits)
next
  case (Recv_Future pc)
  assume "task_drop p t s = Some (t', s')"
  then show ?thesis using Recv_Future by (cases pc) (auto simp: cancel_flag_def split: Option.bind_splits if_splits)
qed auto

lemma mpmc_call_counts: "mpmc_call closed c s = Some (r, s') \<Longrightarrow> mpmc_ok s \<Longrightarrow> same_counts s s'"
  by (cases c) (auto split: Option.bind_splits if_splits dest: count_dests)

lemma close_counts:
  "close_sender s = Some s' \<Longrightarrow> mc_sender_count s' = u64_sub (mc_sender_count s) 1 \<and> mc_receiver_count s' = mc_receiver_count s"
  "close_receiver s = Some s' \<Longrightarrow> mc_receiver_count s' = u64_sub (mc_receiver_count s) 1 \<and> mc_sender_count s' = mc_sender_count s"
  by (auto simp: close_sender_def close_receiver_def Let_def split: if_splits Option.bind_splits dest!: finish_waiters_fifo fifo_same)

definition handles_ok :: "('a, 't, 'w, 'p, 'h) world \<Rightarrow> bool" where
  "handles_ok w \<longleftrightarrow> counted (wd_senders w) (mc_sender_count (wd_core w)) \<and> counted (wd_receivers w) (mc_receiver_count (wd_core w))"

lemma same_counts_new_flag: "same_counts s (task_new_flag t p s)"
  by (cases t) simp_all

lemma handles_same: "handles_ok w \<Longrightarrow> same_counts (wd_core w) s' \<Longrightarrow> wd_senders w' = wd_senders w \<Longrightarrow> wd_receivers w' = wd_receivers w \<Longrightarrow> wd_core w' = s' \<Longrightarrow> handles_ok w'"
  by (simp add: handles_ok_def same_counts_def)

lemma mpmc_step_handles:
  assumes "mpmc_step L w e w'" "handles_ok w" "mpmc_ok (wd_core w)" "Reviving \<notin> L"
  shows "handles_ok w'"
  using assms
proof (induction rule: mpmc_step.induct)
  case (step_start w p t)
  show ?case by (rule handles_same [OF step_start.prems(1) same_counts_new_flag [of "wd_core w" t p]]) simp_all
next
  case (step_run w p t e t' s')
  show ?case by (rule handles_same [OF step_run.prems(1) task_run_counts [OF step_run.hyps(2) step_run.prems(2)]]) simp_all
next
  case (step_drop w p t t' s')
  show ?case by (rule handles_same [OF step_drop.prems(1) task_drop_counts [OF step_drop.hyps(2)]]) simp_all
next
  case (step_call c w h st closed r s')
  show ?case by (rule handles_same [OF step_call.prems(1) mpmc_call_counts [OF step_call.hyps(3) step_call.prems(2)]]) simp_all
next
  case (step_clone_sender w h h')
  then show ?case using counted_clone [of "wd_senders w" "mc_sender_count (wd_core w)" h'] by (simp add: handles_ok_def add_sender_def)
next
  case (step_clone_receiver w h h')
  then show ?case using counted_clone [of "wd_receivers w" "mc_receiver_count (wd_core w)" h'] by (simp add: handles_ok_def add_receiver_def)
next
  case (step_close_sender w h s')
  then show ?case using counted_close [of "wd_senders w" "mc_sender_count (wd_core w)" h] close_counts(1) [of "wd_core w" s'] by (simp add: handles_ok_def)
next
  case (step_close_receiver w h s')
  then show ?case using counted_close [of "wd_receivers w" "mc_receiver_count (wd_core w)" h] close_counts(2) [of "wd_core w" s'] by (simp add: handles_ok_def)
next
  case (step_finish w p t)
  then show ?case by (simp add: handles_ok_def free_flag_def)
qed (auto simp: handles_ok_def counted_closing)

lemma mpmc_run_handles:
  assumes "mpmc_run L capacity puts gots w" "capacity \<le> 2 ^ 63" "Reviving \<notin> L"
  shows "handles_ok w"
  using assms
proof (induction rule: mpmc_run.induct)
  case (run_new h w)
  then have "mc_sender_count (wd_core w) = 1" "mc_receiver_count (wd_core w) = 1" "wd_senders w = [h \<mapsto> Open]" "wd_receivers w = [h \<mapsto> Open]"
    by (auto simp: mpmc_bounded_def mpmc_new_def split: if_splits Option.bind_splits)
  moreover have "live [h \<mapsto> Open] = {h}" by (auto simp: live_def)
  ultimately show ?case by (simp add: handles_ok_def counted_def)
next
  case (run_step puts gots w xs ys w')
  then show ?case using mpmc_step_handles mpmc_run_ok [OF run_step.hyps(1)] by blast
qed

text \<open>
  Channels disconnect with their last handle (C17). In every reachable state without timed receives,
  unprompted polls and conversions of closed handles, \<^verbatim>\<open>try_recv\<close> answers \<^verbatim>\<open>Disconnected\<close> exactly when its own handle is
  closed, or the ring is empty and every sender handle has been closed, and \<^verbatim>\<open>try_send\<close> answers \<^verbatim>\<open>Closed\<close>, giving the
  item back, exactly when its own handle is closed or every receiver handle has been closed.
\<close>

theorem mpmc_disconnects_exactly:
  assumes "mpmc_run L capacity puts gots w" "capacity \<le> 2 ^ 63" "Timed \<notin> L" "Spurious \<notin> L" "Reviving \<notin> L"
  shows "(map_option fst (mpmc_call closed Try_Recv (wd_core w)) = Some (Received (Inl Disconnected)) \<longleftrightarrow> closed \<or> mpmc_items (wd_core w) = [] \<and> (\<forall>h st. wd_senders w h = Some st \<longrightarrow> st = Shut)) \<and>
    (map_option fst (mpmc_call closed (Try_Send x) (wd_core w)) = Some (Sent_Reply (Some (Closed x))) \<longleftrightarrow> closed \<or> (\<forall>h st. wd_receivers w h = Some st \<longrightarrow> st = Shut))"
proof -
  have z: "n = 0 \<longleftrightarrow> (\<forall>h st. hs h = Some st \<longrightarrow> st = Shut)" if "counted hs n" for hs :: "'e \<rightharpoonup> handle" and n
  proof -
    have "n = 0 \<longleftrightarrow> live hs = {}" using that by (auto simp: counted_def)
    also have "\<dots> \<longleftrightarrow> (\<forall>h st. hs h = Some st \<longrightarrow> st = Shut)" unfolding live_def by simp (metis handle.distinct handle.exhaust option.sel)
    finally show ?thesis .
  qed
  have h: "mc_sender_count (wd_core w) = 0 \<longleftrightarrow> (\<forall>h st. wd_senders w h = Some st \<longrightarrow> st = Shut)" "mc_receiver_count (wd_core w) = 0 \<longleftrightarrow> (\<forall>h st. wd_receivers w h = Some st \<longrightarrow> st = Shut)"
    using mpmc_run_handles [OF assms(1,2,5)] z unfolding handles_ok_def by blast+
  have ok: "safe (wd_tasks w) (wd_core w)" using mpmc_run_safe [OF assms(1-4)] by (simp add: world_ok_def)
  note k = safe_tidy [OF ok] safe_ok [OF ok]
  obtain r1 s1 where 1: "mpmc_call closed Try_Recv (wd_core w) = Some (r1, s1)" using mpmc_call_total [OF k] by blast
  obtain r2 s2 where 2: "mpmc_call closed (Try_Send x) (wd_core w) = Some (r2, s2)" using mpmc_call_total [OF k] by blast
  have "fifo_call closed Try_Recv (mpmc_fifo (wd_core w)) = (r1, mpmc_fifo s1)" "fifo_call closed (Try_Send x) (mpmc_fifo (wd_core w)) = (r2, mpmc_fifo s2)"
    using mpmc_call_fifo [OF 1 k(2)] mpmc_call_fifo [OF 2 k(2)] by blast+
  then have "r1 = Received (Inl Disconnected) \<longleftrightarrow> closed \<or> mpmc_items (wd_core w) = [] \<and> mc_sender_count (wd_core w) = 0" "r2 = Sent_Reply (Some (Closed x)) \<longleftrightarrow> closed \<or> mc_receiver_count (wd_core w) = 0"
    by (auto simp: fifo_call_def fifo_recv_def fifo_send_def fifo_no_items_def split: list.splits if_splits)
  then show ?thesis using 1 2 h by simp
qed

lemma demo_closed:
  "\<exists>puts gots w. mpmc_demo {} 2 [Call 0 (Try_Send 7), Closing_Sender 0, Close_Sender 0, Call 0 Try_Recv] = Some (puts, gots, w) \<and>
     mpmc_items (wd_core w) = [] \<and> wd_senders w = [0 \<mapsto> Shut] \<and> wd_receivers w = [0 \<mapsto> Open]"
  by (simp add: mpmc_eval mpmc_items_def uring_items_def)

theorem mpmc_disconnects_exactly_witness:
  "\<exists>puts gots w. mpmc_demo {} 2 [Call 0 (Try_Send 7), Closing_Sender 0, Close_Sender 0, Call 0 Try_Recv] = Some (puts, gots, w) \<and>
     map_option fst (mpmc_call False Try_Recv (wd_core w)) = Some (Received (Inl Disconnected)) \<and>
     map_option fst (mpmc_call False (Try_Send 8) (wd_core w)) \<noteq> Some (Sent_Reply (Some (Closed 8)))"
proof -
  obtain puts gots w where d: "mpmc_demo {} 2 [Call 0 (Try_Send 7), Closing_Sender 0, Close_Sender 0, Call 0 Try_Recv] = Some (puts, gots, w)"
    "mpmc_items (wd_core w) = []" "wd_senders w = [0 \<mapsto> Shut]" "wd_receivers w = [0 \<mapsto> Open]" using demo_closed by blast
  show ?thesis using mpmc_disconnects_exactly [OF mpmc_demo_run [OF d(1)], of False 8] d by (auto split: if_splits)
qed

end
