(* ===== verification/Rendezvous.thy ===== *)
theory Rendezvous
  imports Prelude Channel_Error "HOL-Library.Word"
begin

section \<open>The core of the rendezvous channels\<close>

text \<open>
  \<^verbatim>\<open>channels/src/internal/rendezvous.rs\<close>, the core that \<^verbatim>\<open>mpmc::rendezvous\<close> and \<^verbatim>\<open>mpsc::rendezvous\<close> share, and the
  futures of both modules. A channel has no buffer: an item moves from the memory of a sender to
  the memory of a receiver inside one section under the lock. The memory of a waiting call, its stack
  frame or its future, is a frame with the state atomic and the slot for the item, and a queued record
  holds its address. A section that follows the address of a frame that is gone, or misses an item it
  expects, has no result. The blocking calls and the futures are programs, one section or one access
  to the own state atomic per step; wake-ups happen after the lock is released, in a step of their own.

  A thread runs one blocking call at a time and is named by the frame of the call. The container of parked
  receivers is a parameter, as in the code: a record of operations stands for the trait \<^verbatim>\<open>ReceiverStore\<close>.
\<close>

subsection \<open>Waiters\<close>

definition rv_waiting :: "8 word" where "rv_waiting = 0"
definition rv_done :: "8 word" where "rv_done = 1"
definition rv_cancelled :: "8 word" where "rv_cancelled = 2"
definition rv_disconnected :: "8 word" where "rv_disconnected = 3"

lemma rv_states [simp]:
  "rv_waiting \<noteq> rv_done" "rv_waiting \<noteq> rv_cancelled" "rv_waiting \<noteq> rv_disconnected" "rv_done \<noteq> rv_waiting" "rv_done \<noteq> rv_cancelled" "rv_done \<noteq> rv_disconnected"
  "rv_cancelled \<noteq> rv_waiting" "rv_cancelled \<noteq> rv_done" "rv_cancelled \<noteq> rv_disconnected" "rv_disconnected \<noteq> rv_waiting" "rv_disconnected \<noteq> rv_done" "rv_disconnected \<noteq> rv_cancelled"
  by (simp_all add: rv_waiting_def rv_done_def rv_cancelled_def rv_disconnected_def)

type_synonym addr = nat

datatype wake_handle = Wake_Thread addr | Wake_Waker nat

record 'a frame =
  fr_state :: "8 word"
  fr_slot :: "'a option"

type_synonym 'a memory = "addr \<rightharpoonup> 'a frame"

record rv_rec =
  rc_owner :: addr
  rc_wake :: wake_handle

definition take_slot :: "addr \<Rightarrow> 'a memory \<Rightarrow> ('a \<times> 'a memory) option" where
  "take_slot p m = do { f \<leftarrow> m p; item \<leftarrow> fr_slot f; Some (item, m(p \<mapsto> f\<lparr>fr_slot := None\<rparr>)) }"

definition store_state :: "addr \<Rightarrow> 8 word \<Rightarrow> 'a memory \<Rightarrow> 'a memory option" where
  "store_state p st m = do { f \<leftarrow> m p; Some (m(p \<mapsto> f\<lparr>fr_state := st\<rparr>)) }"

definition fulfill_receiver :: "rv_rec \<Rightarrow> 'a \<Rightarrow> 'a memory \<Rightarrow> (wake_handle \<times> 'a memory) option" where
  "fulfill_receiver r item m =
     do { f \<leftarrow> m (rc_owner r);
          m \<leftarrow> store_state (rc_owner r) rv_done (m(rc_owner r \<mapsto> f\<lparr>fr_slot := Some item\<rparr>));
          Some (rc_wake r, m) }"

definition fulfill_sender :: "rv_rec \<Rightarrow> 'a memory \<Rightarrow> ('a \<times> wake_handle \<times> 'a memory) option" where
  "fulfill_sender r m =
     do { (item, m) \<leftarrow> take_slot (rc_owner r) m;
          m \<leftarrow> store_state (rc_owner r) rv_done m;
          Some (item, rc_wake r, m) }"

subsection \<open>Queues of waiters\<close>

text \<open>The operations on a \<^verbatim>\<open>VecDeque\<close> of records; records are told apart by their pointers.\<close>

fun refresh_rec :: "addr \<Rightarrow> wake_handle \<Rightarrow> rv_rec list \<Rightarrow> bool \<times> rv_rec list" where
  "refresh_rec p w [] = (False, [])"
| "refresh_rec p w (r # rs) = (if rc_owner r = p then (True, r\<lparr>rc_wake := w\<rparr> # rs) else map_prod id ((#) r) (refresh_rec p w rs))"

fun remove_rec :: "addr \<Rightarrow> rv_rec list \<Rightarrow> rv_rec list" where
  "remove_rec p [] = []"
| "remove_rec p (r # rs) = (if rc_owner r = p then rs else r # remove_rec p rs)"

fun disconnect_recs :: "rv_rec list \<Rightarrow> 'a memory \<Rightarrow> (wake_handle list \<times> 'a memory) option" where
  "disconnect_recs [] m = Some ([], m)"
| "disconnect_recs (r # rs) m =
     do { m \<leftarrow> store_state (rc_owner r) rv_disconnected m; (ws, m) \<leftarrow> disconnect_recs rs m; Some (rc_wake r # ws, m) }"

record ('r, 'a) receiver_store =
  rs_empty :: 'r
  rs_push_receiver :: "rv_rec \<Rightarrow> 'r \<Rightarrow> 'r"
  rs_pop_receiver :: "'r \<Rightarrow> (rv_rec \<times> 'r) option"
  rs_refresh_receiver :: "addr \<Rightarrow> wake_handle \<Rightarrow> 'r \<Rightarrow> bool \<times> 'r"
  rs_remove_receiver :: "addr \<Rightarrow> 'r \<Rightarrow> 'r"
  rs_disconnect_all :: "'r \<Rightarrow> 'a memory \<Rightarrow> (wake_handle list \<times> 'r \<times> 'a memory) option"

definition deque_store :: "(rv_rec list, 'a) receiver_store" where
  "deque_store = \<lparr>
     rs_empty = [],
     rs_push_receiver = (\<lambda>r rs. rs @ [r]),
     rs_pop_receiver = (\<lambda>rs. case rs of [] \<Rightarrow> None | r # rs \<Rightarrow> Some (r, rs)),
     rs_refresh_receiver = refresh_rec,
     rs_remove_receiver = remove_rec,
     rs_disconnect_all = (\<lambda>rs m. do { (ws, m) \<leftarrow> disconnect_recs rs m; Some (ws, [], m) })\<rparr>"

text \<open>
  The single slot of the MPSC channel. Its \<^verbatim>\<open>push_receiver\<close> overwrites the slot; that it is empty is only a
  debug assertion.
\<close>

definition slot_store :: "(rv_rec option, 'a) receiver_store" where
  "slot_store = \<lparr>
     rs_empty = None,
     rs_push_receiver = (\<lambda>r _. Some r),
     rs_pop_receiver = map_option (\<lambda>r. (r, None)),
     rs_refresh_receiver = (\<lambda>p w o'. case o' of Some r \<Rightarrow> (if rc_owner r = p then (True, Some (r\<lparr>rc_wake := w\<rparr>)) else (False, o')) | None \<Rightarrow> (False, o')),
     rs_remove_receiver = (\<lambda>p o'. case o' of Some r \<Rightarrow> (if rc_owner r = p then None else o') | None \<Rightarrow> o'),
     rs_disconnect_all = (\<lambda>o' m. case o' of None \<Rightarrow> Some ([], None, m)
       | Some r \<Rightarrow> do { m \<leftarrow> store_state (rc_owner r) rv_disconnected m; Some ([rc_wake r], None, m) })\<rparr>"

subsection \<open>The core\<close>

text \<open>The fields of \<^verbatim>\<open>Core\<close>, with the memory of the waiters and the handles that were woken.\<close>

record ('r, 'a) rv =
  rv_sender_waiters :: "rv_rec list"
  rv_receivers :: 'r
  rv_sender_count :: nat
  rv_receiver_count :: nat
  rv_mem :: "'a memory"
  rv_woken :: "wake_handle list"

definition rv_new :: "('r, 'a) receiver_store \<Rightarrow> ('r, 'a) rv" where
  "rv_new R = \<lparr>rv_sender_waiters = [], rv_receivers = rs_empty R, rv_sender_count = 1, rv_receiver_count = 1, rv_mem = Map.empty, rv_woken = []\<rparr>"

definition rv_add_sender :: "('r, 'a) rv \<Rightarrow> ('r, 'a) rv" where
  "rv_add_sender s = s\<lparr>rv_sender_count := u64_add (rv_sender_count s) 1\<rparr>"

definition rv_add_receiver :: "('r, 'a) rv \<Rightarrow> ('r, 'a) rv" where
  "rv_add_receiver s = s\<lparr>rv_receiver_count := u64_add (rv_receiver_count s) 1\<rparr>"

text \<open>The sections of \<^verbatim>\<open>drop_sender\<close> and \<^verbatim>\<open>drop_receiver\<close> return the handles to wake after the lock is released.\<close>

definition rv_drop_sender :: "('r, 'a) receiver_store \<Rightarrow> ('r, 'a) rv \<Rightarrow> (wake_handle list \<times> ('r, 'a) rv) option" where
  "rv_drop_sender R s =
     (let s = s\<lparr>rv_sender_count := u64_sub (rv_sender_count s) 1\<rparr> in
      if rv_sender_count s = 0
      then do { (ws, rs, m) \<leftarrow> rs_disconnect_all R (rv_receivers s) (rv_mem s); Some (ws, s\<lparr>rv_receivers := rs, rv_mem := m\<rparr>) }
      else Some ([], s))"

definition rv_drop_receiver :: "('r, 'a) rv \<Rightarrow> (wake_handle list \<times> ('r, 'a) rv) option" where
  "rv_drop_receiver s =
     (let s = s\<lparr>rv_receiver_count := u64_sub (rv_receiver_count s) 1\<rparr> in
      if rv_receiver_count s = 0
      then do { (ws, m) \<leftarrow> disconnect_recs (rv_sender_waiters s) (rv_mem s); Some (ws, s\<lparr>rv_sender_waiters := [], rv_mem := m\<rparr>) }
      else Some ([], s))"

definition rv_wake :: "wake_handle \<Rightarrow> ('r, 'a) rv \<Rightarrow> ('r, 'a) rv" where
  "rv_wake w s = s\<lparr>rv_woken := w # rv_woken s\<rparr>"

text \<open>\<^verbatim>\<open>park\<close> returns when the thread has a token, which it takes, or for no reason.\<close>

definition rv_unparked :: "addr \<Rightarrow> ('r, 'a) rv \<Rightarrow> ('r, 'a) rv" where
  "rv_unparked p s = s\<lparr>rv_woken := removeAll (Wake_Thread p) (rv_woken s)\<rparr>"

subsection \<open>Non-blocking calls\<close>

datatype 'a tsend_pc = TS_Enter 'a | TS_Wake wake_handle | TS_Done "'a try_send_error option"

fun rv_try_send :: "('r, 'a) receiver_store \<Rightarrow> 'a tsend_pc \<Rightarrow> ('r, 'a) rv \<Rightarrow> ('a tsend_pc \<times> ('r, 'a) rv) option" where
  "rv_try_send R (TS_Enter item) s =
     (if rv_receiver_count s = 0 then Some (TS_Done (Some (Closed item)), s)
      else case rs_pop_receiver R (rv_receivers s) of
        Some (r, rs) \<Rightarrow> do { (w, m) \<leftarrow> fulfill_receiver r item (rv_mem s); Some (TS_Wake w, s\<lparr>rv_receivers := rs, rv_mem := m\<rparr>) }
      | None \<Rightarrow> Some (TS_Done (Some (Full item)), s))"
| "rv_try_send R (TS_Wake w) s = Some (TS_Done None, rv_wake w s)"
| "rv_try_send R (TS_Done res) s = None"

datatype 'a tryrecv_pc = TR_Enter | TR_Wake wake_handle 'a | TR_Done "try_recv_error + 'a"

fun rv_try_recv :: "'a tryrecv_pc \<Rightarrow> ('r, 'a) rv \<Rightarrow> ('a tryrecv_pc \<times> ('r, 'a) rv) option" where
  "rv_try_recv TR_Enter s =
     (case rv_sender_waiters s of
        r # rest \<Rightarrow> do { (item, w, m) \<leftarrow> fulfill_sender r (rv_mem s); Some (TR_Wake w item, s\<lparr>rv_sender_waiters := rest, rv_mem := m\<rparr>) }
      | [] \<Rightarrow> Some (TR_Done (Inl (if rv_sender_count s = 0 then Disconnected else Empty)), s))"
| "rv_try_recv (TR_Wake w item) s = Some (TR_Done (Inr item), rv_wake w s)"
| "rv_try_recv (TR_Done res) s = None"

subsection \<open>Sections that match or park\<close>

text \<open>
  What \<^verbatim>\<open>send_blocking\<close> and \<^verbatim>\<open>poll_send\<close> do under the lock: fail, hand the item of the own slot over, or
  park. And what the three receives do under it.
\<close>

datatype send_outcome = Send_Closed | Send_Matched wake_handle | Send_Parked

definition send_section :: "('r, 'a) receiver_store \<Rightarrow> addr \<Rightarrow> wake_handle \<Rightarrow> ('r, 'a) rv \<Rightarrow> (send_outcome \<times> ('r, 'a) rv) option" where
  "send_section R p wake s =
     (if rv_receiver_count s = 0 then Some (Send_Closed, s)
      else case rs_pop_receiver R (rv_receivers s) of
        Some (r, rs) \<Rightarrow>
          do { (item, m) \<leftarrow> take_slot p (rv_mem s);
               (w, m) \<leftarrow> fulfill_receiver r item m;
               Some (Send_Matched w, s\<lparr>rv_receivers := rs, rv_mem := m\<rparr>) }
      | None \<Rightarrow> Some (Send_Parked, s\<lparr>rv_sender_waiters := rv_sender_waiters s @ [\<lparr>rc_owner = p, rc_wake = wake\<rparr>]\<rparr>))"

datatype 'a recv_outcome = Recv_Matched wake_handle 'a | Recv_Closed | Recv_Parked

definition recv_section :: "('r, 'a) receiver_store \<Rightarrow> addr \<Rightarrow> wake_handle \<Rightarrow> ('r, 'a) rv \<Rightarrow> ('a recv_outcome \<times> ('r, 'a) rv) option" where
  "recv_section R p wake s =
     (case rv_sender_waiters s of
        r # rest \<Rightarrow> do { (item, w, m) \<leftarrow> fulfill_sender r (rv_mem s); Some (Recv_Matched w item, s\<lparr>rv_sender_waiters := rest, rv_mem := m\<rparr>) }
      | [] \<Rightarrow>
          (if rv_sender_count s = 0 then Some (Recv_Closed, s)
           else Some (Recv_Parked, s\<lparr>rv_receivers := rs_push_receiver R \<lparr>rc_owner = p, rc_wake = wake\<rparr> (rv_receivers s)\<rparr>)))"

text \<open>The futures store the state once more when they park.\<close>

definition rv_store :: "addr \<Rightarrow> 8 word \<Rightarrow> ('r, 'a) rv \<Rightarrow> ('r, 'a) rv option" where
  "rv_store p st s = map_option (\<lambda>m. s\<lparr>rv_mem := m\<rparr>) (store_state p st (rv_mem s))"

definition rv_load :: "addr \<Rightarrow> ('r, 'a) rv \<Rightarrow> 8 word option" where
  "rv_load p s = map_option fr_state (rv_mem s p)"

definition rv_take :: "addr \<Rightarrow> ('r, 'a) rv \<Rightarrow> ('a \<times> ('r, 'a) rv) option" where
  "rv_take p s = map_option (\<lambda>(item, m). (item, s\<lparr>rv_mem := m\<rparr>)) (take_slot p (rv_mem s))"

subsection \<open>Cancellation\<close>

text \<open>
  \<^verbatim>\<open>cancel_sender\<close> and \<^verbatim>\<open>cancel_receiver\<close> in two steps: the compare-and-exchange of the state, which is not
  under the lock, and the section that removes the record.
\<close>

definition cancel_claim :: "addr \<Rightarrow> ('r, 'a) rv \<Rightarrow> (bool \<times> ('r, 'a) rv) option" where
  "cancel_claim p s = do { st \<leftarrow> rv_load p s;
     (if st = rv_waiting then map_option (Pair True) (rv_store p rv_cancelled s) else Some (False, s)) }"

definition cancel_sender :: "addr \<Rightarrow> ('r, 'a) rv \<Rightarrow> ('r, 'a) rv" where
  "cancel_sender p s = s\<lparr>rv_sender_waiters := remove_rec p (rv_sender_waiters s)\<rparr>"

definition cancel_receiver :: "('r, 'a) receiver_store \<Rightarrow> addr \<Rightarrow> ('r, 'a) rv \<Rightarrow> ('r, 'a) rv" where
  "cancel_receiver R p s = s\<lparr>rv_receivers := rs_remove_receiver R p (rv_receivers s)\<rparr>"

subsection \<open>Blocking calls\<close>

text \<open>\<open>_Check\<close> and \<open>_Sleep\<close> are the load and the \<^verbatim>\<open>park\<close> of \<^verbatim>\<open>park_until_terminal\<close>, \<open>_Load\<close> the load after it.\<close>

datatype bsend_pc = BS_Enter | BS_Wake wake_handle | BS_Check | BS_Sleep | BS_Load | BS_Done "send_error option"

fun send_blocking :: "('r, 'a) receiver_store \<Rightarrow> addr \<Rightarrow> bsend_pc \<Rightarrow> ('r, 'a) rv \<Rightarrow> (bsend_pc \<times> ('r, 'a) rv) option" where
  "send_blocking R p BS_Enter s =
     do { (res, s) \<leftarrow> send_section R p (Wake_Thread p) s;
          Some (case res of Send_Closed \<Rightarrow> BS_Done (Some SendClosed) | Send_Matched w \<Rightarrow> BS_Wake w | Send_Parked \<Rightarrow> BS_Check, s) }"
| "send_blocking R p (BS_Wake w) s = Some (BS_Done None, rv_wake w s)"
| "send_blocking R p BS_Check s = do { st \<leftarrow> rv_load p s; Some (if st = rv_waiting then BS_Sleep else BS_Load, s) }"
| "send_blocking R p BS_Sleep s = Some (BS_Check, rv_unparked p s)"
| "send_blocking R p BS_Load s = do { st \<leftarrow> rv_load p s; Some (BS_Done (if st = rv_done then None else Some SendClosed), s) }"
| "send_blocking R p (BS_Done res) s = None"

datatype 'a brecv_pc = BR_Enter | BR_Wake wake_handle 'a | BR_Check | BR_Sleep | BR_Load | BR_Done "recv_error + 'a"

fun recv_blocking :: "('r, 'a) receiver_store \<Rightarrow> addr \<Rightarrow> 'a brecv_pc \<Rightarrow> ('r, 'a) rv \<Rightarrow> ('a brecv_pc \<times> ('r, 'a) rv) option" where
  "recv_blocking R p BR_Enter s =
     do { (res, s) \<leftarrow> recv_section R p (Wake_Thread p) s;
          Some (case res of Recv_Matched w item \<Rightarrow> BR_Wake w item | Recv_Closed \<Rightarrow> BR_Done (Inl RecvDisconnected) | Recv_Parked \<Rightarrow> BR_Check, s) }"
| "recv_blocking R p (BR_Wake w item) s = Some (BR_Done (Inr item), rv_wake w s)"
| "recv_blocking R p BR_Check s = do { st \<leftarrow> rv_load p s; Some (if st = rv_waiting then BR_Sleep else BR_Load, s) }"
| "recv_blocking R p BR_Sleep s = Some (BR_Check, rv_unparked p s)"
| "recv_blocking R p BR_Load s =
     do { st \<leftarrow> rv_load p s;
          (if st = rv_done then do { (item, s) \<leftarrow> rv_take p s; Some (BR_Done (Inr item), s) } else Some (BR_Done (Inl RecvDisconnected), s)) }"
| "recv_blocking R p (BR_Done res) s = None"

text \<open>\<open>expired\<close> is whether there is a deadline and it has passed when the loop looks at the clock.\<close>

datatype 'a rtimeout_pc = RT_Enter | RT_Wake wake_handle 'a | RT_Check | RT_Clock | RT_Sleep | RT_Cancel | RT_Unlink | RT_Load | RT_Done "recv_error_timeout + 'a"

fun recv_timeout :: "('r, 'a) receiver_store \<Rightarrow> addr \<Rightarrow> bool \<Rightarrow> 'a rtimeout_pc \<Rightarrow> ('r, 'a) rv \<Rightarrow> ('a rtimeout_pc \<times> ('r, 'a) rv) option" where
  "recv_timeout R p expired RT_Enter s =
     do { (res, s) \<leftarrow> recv_section R p (Wake_Thread p) s;
          Some (case res of Recv_Matched w item \<Rightarrow> RT_Wake w item | Recv_Closed \<Rightarrow> RT_Done (Inl TimeoutDisconnected) | Recv_Parked \<Rightarrow> RT_Check, s) }"
| "recv_timeout R p expired (RT_Wake w item) s = Some (RT_Done (Inr item), rv_wake w s)"
| "recv_timeout R p expired RT_Check s = do { st \<leftarrow> rv_load p s; Some (if st = rv_waiting then RT_Clock else RT_Load, s) }"
| "recv_timeout R p expired RT_Clock s = Some (if expired then RT_Cancel else RT_Sleep, s)"
| "recv_timeout R p expired RT_Sleep s = Some (RT_Check, rv_unparked p s)"
| "recv_timeout R p expired RT_Cancel s = do { (won, s) \<leftarrow> cancel_claim p s; Some (if won then RT_Unlink else RT_Load, s) }"
| "recv_timeout R p expired RT_Unlink s = Some (RT_Done (Inl Timeout), cancel_receiver R p s)"
| "recv_timeout R p expired RT_Load s =
     do { st \<leftarrow> rv_load p s;
          (if st = rv_done then do { (item, s) \<leftarrow> rv_take p s; Some (RT_Done (Inr item), s) }
           else Some (RT_Done (Inl (if st = rv_cancelled then Timeout else TimeoutDisconnected)), s)) }"
| "recv_timeout R p expired (RT_Done res) s = None"

subsection \<open>Futures\<close>

text \<open>
  A future between polls is idle, registered with the waker of its last poll or not registered. Inside
  a poll the program counter carries the waker of the poll and whether the future is registered.
\<close>

datatype psend_pc = PS_Idle "nat option" | PS_Poll nat bool | PS_Refresh nat | PS_Reload | PS_Wake wake_handle | PS_Done "send_error option"
  | PS_Cancel | PS_Unlink | PS_Dropped

fun rv_poll_send :: "('r, 'a) receiver_store \<Rightarrow> addr \<Rightarrow> psend_pc \<Rightarrow> ('r, 'a) rv \<Rightarrow> (psend_pc \<times> ('r, 'a) rv) option" where
  "rv_poll_send R p (PS_Poll wk True) s =
     do { st \<leftarrow> rv_load p s;
          Some (if st = rv_waiting then PS_Refresh wk else if st = rv_done then PS_Done None else PS_Done (Some SendClosed), s) }"
| "rv_poll_send R p (PS_Refresh wk) s =
     (let (found, waiters) = refresh_rec p (Wake_Waker wk) (rv_sender_waiters s) in
      Some (if found then PS_Idle (Some wk) else PS_Reload, s\<lparr>rv_sender_waiters := waiters\<rparr>))"
| "rv_poll_send R p PS_Reload s = do { st \<leftarrow> rv_load p s; Some (PS_Done (if st = rv_done then None else Some SendClosed), s) }"
| "rv_poll_send R p (PS_Poll wk False) s =
     do { f \<leftarrow> rv_mem s p;
          (if fr_slot f = None then Some (PS_Done None, s)
           else do { (res, s) \<leftarrow> send_section R p (Wake_Waker wk) s;
                     (case res of Send_Closed \<Rightarrow> Some (PS_Done (Some SendClosed), s) | Send_Matched w \<Rightarrow> Some (PS_Wake w, s)
                      | Send_Parked \<Rightarrow> map_option (Pair (PS_Idle (Some wk))) (rv_store p rv_waiting s)) }) }"
| "rv_poll_send R p (PS_Wake w) s = Some (PS_Done None, rv_wake w s)"
| "rv_poll_send R p PS_Cancel s = do { (won, s) \<leftarrow> cancel_claim p s; Some (if won then PS_Unlink else PS_Dropped, s) }"
| "rv_poll_send R p PS_Unlink s = Some (PS_Dropped, cancel_sender p s)"
| "rv_poll_send R p _ s = None"

datatype 'a precv_pc = PR_Idle "nat option" | PR_Poll nat bool | PR_Refresh nat | PR_Reload | PR_Wake wake_handle 'a | PR_Done "recv_error + 'a"
  | PR_Cancel | PR_Unlink | PR_Dropped

fun rv_poll_recv :: "('r, 'a) receiver_store \<Rightarrow> addr \<Rightarrow> 'a precv_pc \<Rightarrow> ('r, 'a) rv \<Rightarrow> ('a precv_pc \<times> ('r, 'a) rv) option" where
  "rv_poll_recv R p (PR_Poll wk True) s =
     do { st \<leftarrow> rv_load p s;
          (if st = rv_waiting then Some (PR_Refresh wk, s)
           else if st = rv_done then do { (item, s) \<leftarrow> rv_take p s; Some (PR_Done (Inr item), s) }
           else Some (PR_Done (Inl RecvDisconnected), s)) }"
| "rv_poll_recv R p (PR_Refresh wk) s =
     (let (found, rs) = rs_refresh_receiver R p (Wake_Waker wk) (rv_receivers s) in
      Some (if found then PR_Idle (Some wk) else PR_Reload, s\<lparr>rv_receivers := rs\<rparr>))"
| "rv_poll_recv R p PR_Reload s =
     do { st \<leftarrow> rv_load p s;
          (if st = rv_done then do { (item, s) \<leftarrow> rv_take p s; Some (PR_Done (Inr item), s) } else Some (PR_Done (Inl RecvDisconnected), s)) }"
| "rv_poll_recv R p (PR_Poll wk False) s =
     do { (res, s) \<leftarrow> recv_section R p (Wake_Waker wk) s;
          (case res of Recv_Matched w item \<Rightarrow> Some (PR_Wake w item, s) | Recv_Closed \<Rightarrow> Some (PR_Done (Inl RecvDisconnected), s)
           | Recv_Parked \<Rightarrow> map_option (Pair (PR_Idle (Some wk))) (rv_store p rv_waiting s)) }"
| "rv_poll_recv R p (PR_Wake w item) s = Some (PR_Done (Inr item), rv_wake w s)"
| "rv_poll_recv R p PR_Cancel s = do { (won, s) \<leftarrow> cancel_claim p s; Some (if won then PR_Unlink else PR_Dropped, s) }"
| "rv_poll_recv R p PR_Unlink s = Some (PR_Dropped, cancel_receiver R p s)"
| "rv_poll_recv R p _ s = None"

end
