(* ===== verification/Rendezvous_World.thy ===== *)
theory Rendezvous_World
  imports Rendezvous Channel_Handle
begin

section \<open>Rendezvous channels under any interleaving\<close>

text \<open>
  Any number of calls, futures and handles on one rendezvous channel, each step one section under the
  lock, one access to a state atomic, one wake-up, a poll or drop of a future, or an operation on a
  handle. A program is named by the address of its frame, addresses are not used twice, and programs that have
  returned stay in the map with their results. The operations are polymorphic in the items, so an
  item is named by the program that sends it. What was in the slot of a frame when the frame was freed is
  kept in a set of dropped items.

  The flag \<open>many\<close> says whether several receives may wait at a time: always for the MPMC channel, never for
  the MPSC channel, whose documentation promises a single consumer.
\<close>

subsection \<open>Programs\<close>

datatype rv_task = Send_Blocking bsend_pc | Recv_Blocking "addr brecv_pc" | Recv_Timeout "addr rtimeout_pc" | Send_Future psend_pc | Recv_Future "addr precv_pc"
  | Try_Send "addr tsend_pc" | Try_Recv "addr tryrecv_pc" | Waking "wake_handle list"

fun rv_run :: "('r, addr) receiver_store \<Rightarrow> addr \<Rightarrow> bool \<Rightarrow> rv_task \<Rightarrow> ('r, addr) rv \<Rightarrow> (rv_task \<times> ('r, addr) rv) option" where
  "rv_run R p expired (Send_Blocking pc) s = map_option (map_prod Send_Blocking id) (send_blocking R p pc s)"
| "rv_run R p expired (Recv_Blocking pc) s = map_option (map_prod Recv_Blocking id) (recv_blocking R p pc s)"
| "rv_run R p expired (Recv_Timeout pc) s = map_option (map_prod Recv_Timeout id) (recv_timeout R p expired pc s)"
| "rv_run R p expired (Send_Future pc) s = map_option (map_prod Send_Future id) (rv_poll_send R p pc s)"
| "rv_run R p expired (Recv_Future pc) s = map_option (map_prod Recv_Future id) (rv_poll_recv R p pc s)"
| "rv_run R p expired (Try_Send pc) s = map_option (map_prod Try_Send id) (rv_try_send R pc s)"
| "rv_run R p expired (Try_Recv pc) s = map_option (map_prod Try_Recv id) (rv_try_recv pc s)"
| "rv_run R p expired (Waking []) s = None"
| "rv_run R p expired (Waking (w # ws)) s = Some (Waking ws, rv_wake w s)"

text \<open>The first program counters, and the frame a program starts with.\<close>

fun rv_start :: "addr \<Rightarrow> rv_task \<Rightarrow> bool" where
  "rv_start p (Send_Blocking pc) \<longleftrightarrow> pc = BS_Enter"
| "rv_start p (Recv_Blocking pc) \<longleftrightarrow> pc = BR_Enter"
| "rv_start p (Recv_Timeout pc) \<longleftrightarrow> pc = RT_Enter"
| "rv_start p (Send_Future pc) \<longleftrightarrow> pc = PS_Idle None"
| "rv_start p (Recv_Future pc) \<longleftrightarrow> pc = PR_Idle None"
| "rv_start p (Try_Send pc) \<longleftrightarrow> pc = TS_Enter p"
| "rv_start p (Try_Recv pc) \<longleftrightarrow> pc = TR_Enter"
| "rv_start p (Waking ws) \<longleftrightarrow> False"

fun rv_frame :: "addr \<Rightarrow> rv_task \<Rightarrow> addr frame option" where
  "rv_frame p (Send_Blocking pc) = Some \<lparr>fr_state = rv_waiting, fr_slot = Some p\<rparr>"
| "rv_frame p (Send_Future pc) = Some \<lparr>fr_state = rv_waiting, fr_slot = Some p\<rparr>"
| "rv_frame p (Recv_Blocking pc) = Some \<lparr>fr_state = rv_waiting, fr_slot = None\<rparr>"
| "rv_frame p (Recv_Timeout pc) = Some \<lparr>fr_state = rv_waiting, fr_slot = None\<rparr>"
| "rv_frame p (Recv_Future pc) = Some \<lparr>fr_state = rv_waiting, fr_slot = None\<rparr>"
| "rv_frame p _ = None"

text \<open>A poll with a waker, and the start of the drop of a future.\<close>

fun rv_poll :: "nat \<Rightarrow> rv_task \<Rightarrow> rv_task option" where
  "rv_poll wk (Send_Future (PS_Idle reg)) = Some (Send_Future (PS_Poll wk (reg \<noteq> None)))"
| "rv_poll wk (Recv_Future (PR_Idle reg)) = Some (Recv_Future (PR_Poll wk (reg \<noteq> None)))"
| "rv_poll wk _ = None"

fun rv_drop :: "rv_task \<Rightarrow> rv_task option" where
  "rv_drop (Send_Future (PS_Idle reg)) = Some (Send_Future (if reg \<noteq> None then PS_Cancel else PS_Dropped))"
| "rv_drop (Recv_Future (PR_Idle reg)) = Some (Recv_Future (if reg \<noteq> None then PR_Cancel else PR_Dropped))"
| "rv_drop _ = None"

fun rv_returned :: "rv_task \<Rightarrow> bool" where
  "rv_returned (Send_Blocking pc) \<longleftrightarrow> (case pc of BS_Done _ \<Rightarrow> True | _ \<Rightarrow> False)"
| "rv_returned (Recv_Blocking pc) \<longleftrightarrow> (case pc of BR_Done _ \<Rightarrow> True | _ \<Rightarrow> False)"
| "rv_returned (Recv_Timeout pc) \<longleftrightarrow> (case pc of RT_Done _ \<Rightarrow> True | _ \<Rightarrow> False)"
| "rv_returned (Send_Future pc) \<longleftrightarrow> (case pc of PS_Done _ \<Rightarrow> True | PS_Dropped \<Rightarrow> True | _ \<Rightarrow> False)"
| "rv_returned (Recv_Future pc) \<longleftrightarrow> (case pc of PR_Done _ \<Rightarrow> True | PR_Dropped \<Rightarrow> True | _ \<Rightarrow> False)"
| "rv_returned (Try_Send pc) \<longleftrightarrow> (case pc of TS_Done _ \<Rightarrow> True | _ \<Rightarrow> False)"
| "rv_returned (Try_Recv pc) \<longleftrightarrow> (case pc of TR_Done _ \<Rightarrow> True | _ \<Rightarrow> False)"
| "rv_returned (Waking ws) \<longleftrightarrow> ws = []"

fun rv_idle :: "rv_task \<Rightarrow> bool" where
  "rv_idle (Send_Future pc) \<longleftrightarrow> (case pc of PS_Idle _ \<Rightarrow> True | _ \<Rightarrow> False)"
| "rv_idle (Recv_Future pc) \<longleftrightarrow> (case pc of PR_Idle _ \<Rightarrow> True | _ \<Rightarrow> False)"
| "rv_idle _ \<longleftrightarrow> False"

text \<open>Programs that send an item, and receives that may wait.\<close>

fun rv_sends :: "rv_task \<Rightarrow> bool" where
  "rv_sends (Send_Blocking pc) \<longleftrightarrow> True"
| "rv_sends (Send_Future pc) \<longleftrightarrow> True"
| "rv_sends (Try_Send pc) \<longleftrightarrow> True"
| "rv_sends _ \<longleftrightarrow> False"

fun rv_awaits :: "rv_task \<Rightarrow> bool" where
  "rv_awaits (Recv_Blocking pc) \<longleftrightarrow> True"
| "rv_awaits (Recv_Timeout pc) \<longleftrightarrow> True"
| "rv_awaits (Recv_Future pc) \<longleftrightarrow> True"
| "rv_awaits _ \<longleftrightarrow> False"

subsection \<open>Worlds\<close>

record 'r rv_world =
  rw_core :: "('r, addr) rv"
  rw_tasks :: "addr \<rightharpoonup> rv_task"
  rw_senders :: "nat \<rightharpoonup> handle"
  rw_receivers :: "nat \<rightharpoonup> handle"
  rw_dropped :: "addr list"

definition rv_channel :: "('r, addr) receiver_store \<Rightarrow> 'r rv_world" where
  "rv_channel R = \<lparr>rw_core = rv_new R, rw_tasks = Map.empty, rw_senders = [0 \<mapsto> Open], rw_receivers = [0 \<mapsto> Open], rw_dropped = []\<rparr>"

definition frame_item :: "addr frame option \<Rightarrow> addr option" where
  "frame_item fo = Option.bind fo fr_slot"

text \<open>A frame goes away with what is left in its slot.\<close>

definition free_frame :: "addr \<Rightarrow> 'r rv_world \<Rightarrow> 'r rv_world" where
  "free_frame p w = w\<lparr>rw_core := rw_core w\<lparr>rv_mem := (rv_mem (rw_core w))(p := None)\<rparr>,
     rw_dropped := (case frame_item (rv_mem (rw_core w) p) of None \<Rightarrow> rw_dropped w | Some q \<Rightarrow> q # rw_dropped w)\<rparr>"

definition rv_update :: "addr \<Rightarrow> rv_task \<Rightarrow> ('r, addr) rv \<Rightarrow> 'r rv_world \<Rightarrow> 'r rv_world" where
  "rv_update p t s w = w\<lparr>rw_tasks := (rw_tasks w)(p \<mapsto> t), rw_core := s\<rparr>"

inductive rv_step :: "('r, addr) receiver_store \<Rightarrow> bool \<Rightarrow> 'r rv_world \<Rightarrow> 'r rv_world \<Rightarrow> bool" for R many where
  start: "rw_tasks w p = None \<Longrightarrow> rv_start p t \<Longrightarrow>
     many \<or> \<not> rv_awaits t \<or> (\<forall>q u. rw_tasks w q = Some u \<and> rv_awaits u \<longrightarrow> rv_returned u) \<Longrightarrow>
     rv_step R many w (rv_update p t ((rw_core w)\<lparr>rv_mem := (rv_mem (rw_core w))(p := rv_frame p t)\<rparr>) w)"
| run: "rw_tasks w p = Some t \<Longrightarrow> rv_run R p expired t (rw_core w) = Some (t', s') \<Longrightarrow> rv_step R many w (rv_update p t' s' w)"
| poll: "rw_tasks w p = Some t \<Longrightarrow> rv_poll wk t = Some t' \<Longrightarrow> Wake_Waker wk \<notin> set (rv_woken (rw_core w)) \<Longrightarrow> rv_step R many w (rv_update p t' (rw_core w) w)"
| drop: "rw_tasks w p = Some t \<Longrightarrow> rv_drop t = Some t' \<Longrightarrow> rv_step R many w (rv_update p t' (rw_core w) w)"
| free: "rw_tasks w p = Some t \<Longrightarrow> rv_returned t \<Longrightarrow> rv_step R many w (free_frame p w)"
| clone_sender: "rw_senders w h \<noteq> None \<Longrightarrow> rw_senders w h' = None \<Longrightarrow> rv_sender_count (rw_core w) + 1 < 2 ^ 64 \<Longrightarrow>
     rv_step R many w (w\<lparr>rw_senders := (rw_senders w)(h' \<mapsto> Open), rw_core := rv_add_sender (rw_core w)\<rparr>)"
| clone_receiver: "many \<Longrightarrow> rw_receivers w h \<noteq> None \<Longrightarrow> rw_receivers w h' = None \<Longrightarrow> rv_receiver_count (rw_core w) + 1 < 2 ^ 64 \<Longrightarrow>
     rv_step R many w (w\<lparr>rw_receivers := (rw_receivers w)(h' \<mapsto> Open), rw_core := rv_add_receiver (rw_core w)\<rparr>)"
| closing_sender: "rw_senders w h = Some Open \<Longrightarrow> rv_step R many w (w\<lparr>rw_senders := (rw_senders w)(h \<mapsto> Closing)\<rparr>)"
| closing_receiver: "rw_receivers w h = Some Open \<Longrightarrow> rv_step R many w (w\<lparr>rw_receivers := (rw_receivers w)(h \<mapsto> Closing)\<rparr>)"
| close_sender: "rw_senders w h = Some Closing \<Longrightarrow> rw_tasks w p = None \<Longrightarrow> rv_drop_sender R (rw_core w) = Some (ws, s') \<Longrightarrow>
     rv_step R many w (rv_update p (Waking ws) s' (w\<lparr>rw_senders := (rw_senders w)(h \<mapsto> Shut)\<rparr>))"
| close_receiver: "rw_receivers w h = Some Closing \<Longrightarrow> rw_tasks w p = None \<Longrightarrow> rv_drop_receiver (rw_core w) = Some (ws, s') \<Longrightarrow>
     rv_step R many w (rv_update p (Waking ws) s' (w\<lparr>rw_receivers := (rw_receivers w)(h \<mapsto> Shut)\<rparr>))"

inductive rv_reach :: "('r, addr) receiver_store \<Rightarrow> bool \<Rightarrow> 'r rv_world \<Rightarrow> bool" for R many where
  reach_new: "rv_reach R many (rv_channel R)"
| reach_step: "rv_reach R many w \<Longrightarrow> rv_step R many w w' \<Longrightarrow> rv_reach R many w'"

text \<open>\<^verbatim>\<open>mpmc::rendezvous\<close> and \<^verbatim>\<open>mpsc::rendezvous\<close>.\<close>

abbreviation mpmc_rendezvous :: "rv_rec list rv_world \<Rightarrow> bool" where
  "mpmc_rendezvous \<equiv> rv_reach deque_store True"

abbreviation mpsc_rendezvous :: "rv_rec option rv_world \<Rightarrow> bool" where
  "mpsc_rendezvous \<equiv> rv_reach slot_store False"

subsection \<open>Executable runs\<close>

text \<open>A run given by its choices, for examples. It carries the addresses used so far.\<close>

datatype rv_act = Start addr rv_task | Run addr bool | Poll addr nat | Drop addr | Free addr | Closing_Sender nat | Closing_Receiver nat | Close_Sender nat addr | Close_Receiver nat addr

fun rv_perform :: "('r, addr) receiver_store \<Rightarrow> bool \<Rightarrow> addr list \<Rightarrow> rv_act \<Rightarrow> 'r rv_world \<Rightarrow> 'r rv_world option" where
  "rv_perform R many ps (Start p t) w =
     (if rw_tasks w p = None \<and> rv_start p t \<and> (many \<or> \<not> rv_awaits t \<or> list_all (\<lambda>q. case rw_tasks w q of None \<Rightarrow> True | Some u \<Rightarrow> rv_awaits u \<longrightarrow> rv_returned u) ps)
      then Some (rv_update p t ((rw_core w)\<lparr>rv_mem := (rv_mem (rw_core w))(p := rv_frame p t)\<rparr>) w) else None)"
| "rv_perform R many ps (Run p e) w = do { t \<leftarrow> rw_tasks w p; (t', s') \<leftarrow> rv_run R p e t (rw_core w); Some (rv_update p t' s' w) }"
| "rv_perform R many ps (Poll p wk) w =
     do { t \<leftarrow> rw_tasks w p; t' \<leftarrow> rv_poll wk t; (if Wake_Waker wk \<in> set (rv_woken (rw_core w)) then None else Some (rv_update p t' (rw_core w) w)) }"
| "rv_perform R many ps (Drop p) w = do { t \<leftarrow> rw_tasks w p; t' \<leftarrow> rv_drop t; Some (rv_update p t' (rw_core w) w) }"
| "rv_perform R many ps (Free p) w = do { t \<leftarrow> rw_tasks w p; (if rv_returned t then Some (free_frame p w) else None) }"
| "rv_perform R many ps (Closing_Sender h) w = (if rw_senders w h = Some Open then Some (w\<lparr>rw_senders := (rw_senders w)(h \<mapsto> Closing)\<rparr>) else None)"
| "rv_perform R many ps (Closing_Receiver h) w = (if rw_receivers w h = Some Open then Some (w\<lparr>rw_receivers := (rw_receivers w)(h \<mapsto> Closing)\<rparr>) else None)"
| "rv_perform R many ps (Close_Sender h p) w = (if rw_senders w h = Some Closing \<and> rw_tasks w p = None
     then do { (ws, s') \<leftarrow> rv_drop_sender R (rw_core w); Some (rv_update p (Waking ws) s' (w\<lparr>rw_senders := (rw_senders w)(h \<mapsto> Shut)\<rparr>)) } else None)"
| "rv_perform R many ps (Close_Receiver h p) w = (if rw_receivers w h = Some Closing \<and> rw_tasks w p = None
     then do { (ws, s') \<leftarrow> rv_drop_receiver (rw_core w); Some (rv_update p (Waking ws) s' (w\<lparr>rw_receivers := (rw_receivers w)(h \<mapsto> Shut)\<rparr>)) } else None)"

fun act_addrs :: "rv_act \<Rightarrow> addr list" where
  "act_addrs (Start p t) = [p]"
| "act_addrs (Close_Sender h p) = [p]"
| "act_addrs (Close_Receiver h p) = [p]"
| "act_addrs _ = []"

fun rv_performs :: "('r, addr) receiver_store \<Rightarrow> bool \<Rightarrow> addr list \<Rightarrow> rv_act list \<Rightarrow> 'r rv_world \<Rightarrow> 'r rv_world option" where
  "rv_performs R many ps [] w = Some w"
| "rv_performs R many ps (a # as) w = do { w \<leftarrow> rv_perform R many ps a w; rv_performs R many (act_addrs a @ ps) as w }"

definition rv_demo :: "('r, addr) receiver_store \<Rightarrow> bool \<Rightarrow> rv_act list \<Rightarrow> 'r rv_world option" where
  "rv_demo R many as = rv_performs R many [] as (rv_channel R)"

lemma rv_perform_step: "rv_perform R many ps a w = Some w' \<Longrightarrow> \<forall>q. rw_tasks w q \<noteq> None \<longrightarrow> q \<in> set ps \<Longrightarrow> rv_step R many w w'"
proof (cases a)
  case (Start p t)
  assume a: "rv_perform R many ps a w = Some w'" "\<forall>q. rw_tasks w q \<noteq> None \<longrightarrow> q \<in> set ps"
  have "many \<or> \<not> rv_awaits t \<or> (\<forall>q u. rw_tasks w q = Some u \<and> rv_awaits u \<longrightarrow> rv_returned u)"
    using a Start by (fastforce simp: list_all_iff split: if_splits option.splits)
  then show ?thesis using a Start by (auto split: if_splits intro!: rv_step.start)
qed (auto split: if_splits Option.bind_splits intro: rv_step.intros)

lemma rv_perform_addrs: "rv_perform R many ps a w = Some w' \<Longrightarrow> \<forall>q. rw_tasks w q \<noteq> None \<longrightarrow> q \<in> set ps \<Longrightarrow> \<forall>q. rw_tasks w' q \<noteq> None \<longrightarrow> q \<in> set (act_addrs a @ ps)"
  by (cases a) (auto simp: rv_update_def free_frame_def split: if_splits Option.bind_splits)

lemma rv_performs_reach: "rv_performs R many ps as w = Some w' \<Longrightarrow> \<forall>q. rw_tasks w q \<noteq> None \<longrightarrow> q \<in> set ps \<Longrightarrow> rv_reach R many w \<Longrightarrow> rv_reach R many w'"
proof (induction as arbitrary: w ps)
  case (Cons a as)
  obtain v where v: "rv_perform R many ps a w = Some v" "rv_performs R many (act_addrs a @ ps) as v = Some w'" using Cons.prems(1) by (auto split: Option.bind_splits)
  show ?case using Cons.IH [OF v(2)] rv_perform_step [OF v(1) Cons.prems(2)] rv_perform_addrs [OF v(1) Cons.prems(2)] reach_step [OF Cons.prems(3)] by blast
qed simp

lemma rv_demo_reach: "rv_demo R many as = Some w \<Longrightarrow> rv_reach R many w"
  unfolding rv_demo_def by (erule rv_performs_reach [OF _ _ reach_new]) (simp add: rv_channel_def)

lemmas rv_eval = rv_demo_def rv_channel_def rv_new_def rv_update_def free_frame_def frame_item_def deque_store_def slot_store_def send_section_def recv_section_def
  fulfill_receiver_def fulfill_sender_def take_slot_def store_state_def rv_store_def rv_load_def rv_take_def cancel_claim_def cancel_sender_def cancel_receiver_def
  rv_wake_def rv_unparked_def rv_drop_sender_def rv_drop_receiver_def Let_def

text \<open>A blocking receive waits, a blocking send hands over its item and is about to wake it, and the receive has seen that it is done.\<close>

definition demo_pair :: "rv_act list" where
  "demo_pair = [Start 0 (Recv_Blocking BR_Enter), Run 0 False, Start 1 (Send_Blocking BS_Enter), Run 1 False, Run 0 False]"

end
