(* ===== verification/Rendezvous_Safety.thy ===== *)
theory Rendezvous_Safety
  imports Rendezvous_World
begin

section \<open>Rendezvous channels are memory safe\<close>

text \<open>
  The contract of \<^verbatim>\<open>ReceiverStore\<close> as the locale \<open>receiver_queue\<close>: a store shows the list of its parked receivers, and its
  operations are those of a queue, pushing only where another receiver may wait. The locale proves for every
  such store that each queued pointer leads to a frame that is alive and in the right state, so that
  no step panics or follows a dangling pointer; the queue of the MPMC channel and the slot of the MPSC
  channel interpret it.
\<close>

subsection \<open>Owners of records\<close>

definition owners :: "rv_rec list \<Rightarrow> addr set" where
  "owners rs = rc_owner ` set rs"

definition one_each :: "rv_rec list \<Rightarrow> bool" where
  "one_each rs \<longleftrightarrow> distinct (map rc_owner rs)"

lemma owners_simps [simp]:
  "owners [] = {}" "owners (r # rs) = insert (rc_owner r) (owners rs)" "owners (rs @ rs') = owners rs \<union> owners rs'"
  "one_each []" "one_each (r # rs) \<longleftrightarrow> rc_owner r \<notin> owners rs \<and> one_each rs" "one_each (rs @ [r]) \<longleftrightarrow> rc_owner r \<notin> owners rs \<and> one_each rs"
  by (auto simp: owners_def one_each_def)

lemma owners_remove: "one_each rs \<Longrightarrow> owners (remove_rec p rs) = owners rs - {p} \<and> one_each (remove_rec p rs)"
  by (induction rs) auto

lemma owners_refresh: "refresh_rec p w rs = (found, rs') \<Longrightarrow> owners rs' = owners rs \<and> (one_each rs \<longrightarrow> one_each rs') \<and> (found \<longleftrightarrow> p \<in> owners rs)"
  by (induction rs arbitrary: found rs') (auto simp: map_prod_def split: if_splits prod.splits)

lemma owners_empty: "owners rs = {} \<longleftrightarrow> rs = []"
  by (cases rs) auto

subsection \<open>What holds of each program\<close>

text \<open>
  \<open>send_waits\<close> and \<open>recv_waits\<close> describe a waiting program: its record is queued, its state is the given one and
  the slot is untouched; or the record is gone, and the state says what became of it.
\<close>

definition send_waits :: "8 word set \<Rightarrow> bool \<Rightarrow> addr frame option \<Rightarrow> addr \<Rightarrow> bool" where
  "send_waits sts queued fo p \<longleftrightarrow> (\<exists>f. fo = Some f \<and>
     (if queued then fr_slot f = Some p \<and> fr_state f \<in> sts
      else fr_state f = rv_done \<and> fr_slot f = None \<or> fr_state f = rv_disconnected \<and> fr_slot f = Some p))"

definition recv_waits :: "8 word set \<Rightarrow> bool \<Rightarrow> addr frame option \<Rightarrow> bool" where
  "recv_waits sts queued fo \<longleftrightarrow> (\<exists>f. fo = Some f \<and>
     (if queued then fr_slot f = None \<and> fr_state f \<in> sts
      else fr_state f = rv_done \<and> fr_slot f \<noteq> None \<or> fr_state f = rv_disconnected \<and> fr_slot f = None))"

definition holds_slot :: "addr frame option \<Rightarrow> addr option \<Rightarrow> bool" where
  "holds_slot fo x \<longleftrightarrow> (\<exists>f. fo = Some f \<and> fr_slot f = x)"

fun bsend_ok :: "bool \<Rightarrow> addr frame option \<Rightarrow> addr \<Rightarrow> bsend_pc \<Rightarrow> bool" where
  "bsend_ok q fo p BS_Enter \<longleftrightarrow> \<not> q \<and> fo = Some \<lparr>fr_state = rv_waiting, fr_slot = Some p\<rparr>"
| "bsend_ok q fo p (BS_Wake w) \<longleftrightarrow> \<not> q \<and> holds_slot fo None"
| "bsend_ok q fo p BS_Check \<longleftrightarrow> send_waits {rv_waiting} q fo p"
| "bsend_ok q fo p BS_Sleep \<longleftrightarrow> send_waits {rv_waiting} q fo p"
| "bsend_ok q fo p BS_Load \<longleftrightarrow> \<not> q \<and> send_waits {} q fo p"
| "bsend_ok q fo p (BS_Done None) \<longleftrightarrow> \<not> q \<and> frame_item fo = None"
| "bsend_ok q fo p (BS_Done (Some e)) \<longleftrightarrow> \<not> q \<and> (fo = None \<or> holds_slot fo (Some p))"

fun psend_ok :: "bool \<Rightarrow> addr frame option \<Rightarrow> addr \<Rightarrow> psend_pc \<Rightarrow> bool" where
  "psend_ok q fo p (PS_Idle reg) \<longleftrightarrow> (if reg = None then \<not> q \<and> holds_slot fo (Some p) else send_waits {rv_waiting} q fo p)"
| "psend_ok q fo p (PS_Poll wk reg) \<longleftrightarrow> (if reg then send_waits {rv_waiting} q fo p else \<not> q \<and> holds_slot fo (Some p))"
| "psend_ok q fo p (PS_Refresh wk) \<longleftrightarrow> send_waits {rv_waiting} q fo p"
| "psend_ok q fo p PS_Reload \<longleftrightarrow> \<not> q \<and> send_waits {} q fo p"
| "psend_ok q fo p (PS_Wake w) \<longleftrightarrow> \<not> q \<and> holds_slot fo None"
| "psend_ok q fo p (PS_Done None) \<longleftrightarrow> \<not> q \<and> frame_item fo = None"
| "psend_ok q fo p (PS_Done (Some e)) \<longleftrightarrow> \<not> q \<and> (fo = None \<or> holds_slot fo (Some p))"
| "psend_ok q fo p PS_Cancel \<longleftrightarrow> send_waits {rv_waiting} q fo p"
| "psend_ok q fo p PS_Unlink \<longleftrightarrow> send_waits {rv_cancelled} q fo p"
| "psend_ok q fo p PS_Dropped \<longleftrightarrow> \<not> q \<and> (frame_item fo = None \<or> holds_slot fo (Some p))"

fun brecv_ok :: "bool \<Rightarrow> addr frame option \<Rightarrow> addr brecv_pc \<Rightarrow> bool" where
  "brecv_ok q fo BR_Enter \<longleftrightarrow> \<not> q \<and> fo = Some \<lparr>fr_state = rv_waiting, fr_slot = None\<rparr>"
| "brecv_ok q fo (BR_Wake w x) \<longleftrightarrow> \<not> q \<and> holds_slot fo None"
| "brecv_ok q fo BR_Check \<longleftrightarrow> recv_waits {rv_waiting} q fo"
| "brecv_ok q fo BR_Sleep \<longleftrightarrow> recv_waits {rv_waiting} q fo"
| "brecv_ok q fo BR_Load \<longleftrightarrow> \<not> q \<and> recv_waits {} q fo"
| "brecv_ok q fo (BR_Done res) \<longleftrightarrow> \<not> q \<and> frame_item fo = None"

fun trecv_ok :: "bool \<Rightarrow> addr frame option \<Rightarrow> addr rtimeout_pc \<Rightarrow> bool" where
  "trecv_ok q fo RT_Enter \<longleftrightarrow> \<not> q \<and> fo = Some \<lparr>fr_state = rv_waiting, fr_slot = None\<rparr>"
| "trecv_ok q fo (RT_Wake w x) \<longleftrightarrow> \<not> q \<and> holds_slot fo None"
| "trecv_ok q fo RT_Check \<longleftrightarrow> recv_waits {rv_waiting} q fo"
| "trecv_ok q fo RT_Clock \<longleftrightarrow> recv_waits {rv_waiting} q fo"
| "trecv_ok q fo RT_Sleep \<longleftrightarrow> recv_waits {rv_waiting} q fo"
| "trecv_ok q fo RT_Cancel \<longleftrightarrow> recv_waits {rv_waiting} q fo"
| "trecv_ok q fo RT_Unlink \<longleftrightarrow> recv_waits {rv_cancelled} q fo"
| "trecv_ok q fo RT_Load \<longleftrightarrow> \<not> q \<and> recv_waits {} q fo"
| "trecv_ok q fo (RT_Done res) \<longleftrightarrow> \<not> q \<and> (res = Inl Timeout \<or> frame_item fo = None)"

fun precv_ok :: "bool \<Rightarrow> addr frame option \<Rightarrow> addr precv_pc \<Rightarrow> bool" where
  "precv_ok q fo (PR_Idle reg) \<longleftrightarrow> (if reg = None then \<not> q \<and> holds_slot fo None else recv_waits {rv_waiting} q fo)"
| "precv_ok q fo (PR_Poll wk reg) \<longleftrightarrow> (if reg then recv_waits {rv_waiting} q fo else \<not> q \<and> holds_slot fo None)"
| "precv_ok q fo (PR_Refresh wk) \<longleftrightarrow> recv_waits {rv_waiting} q fo"
| "precv_ok q fo PR_Reload \<longleftrightarrow> \<not> q \<and> recv_waits {} q fo"
| "precv_ok q fo (PR_Wake w x) \<longleftrightarrow> \<not> q \<and> holds_slot fo None"
| "precv_ok q fo (PR_Done res) \<longleftrightarrow> \<not> q \<and> frame_item fo = None"
| "precv_ok q fo PR_Cancel \<longleftrightarrow> recv_waits {rv_waiting} q fo"
| "precv_ok q fo PR_Unlink \<longleftrightarrow> recv_waits {rv_cancelled} q fo"
| "precv_ok q fo PR_Dropped \<longleftrightarrow> \<not> q"

fun task_ok :: "bool \<Rightarrow> bool \<Rightarrow> addr frame option \<Rightarrow> addr \<Rightarrow> rv_task \<Rightarrow> bool" where
  "task_ok inS inV fo p (Send_Blocking pc) \<longleftrightarrow> \<not> inV \<and> bsend_ok inS fo p pc"
| "task_ok inS inV fo p (Send_Future pc) \<longleftrightarrow> \<not> inV \<and> psend_ok inS fo p pc"
| "task_ok inS inV fo p (Recv_Blocking pc) \<longleftrightarrow> \<not> inS \<and> brecv_ok inV fo pc"
| "task_ok inS inV fo p (Recv_Timeout pc) \<longleftrightarrow> \<not> inS \<and> trecv_ok inV fo pc"
| "task_ok inS inV fo p (Recv_Future pc) \<longleftrightarrow> \<not> inS \<and> precv_ok inV fo pc"
| "task_ok inS inV fo p _ \<longleftrightarrow> \<not> inS \<and> \<not> inV \<and> fo = None"

lemmas waits_defs = send_waits_def recv_waits_def holds_slot_def frame_item_def

subsection \<open>What a peer does to a waiting program\<close>

text \<open>
  A queued record belongs to a program that has returned neither, and taking it out of the queue, with
  the item moved and the state set, keeps the program in order. The same for a disconnection.
\<close>

lemma task_ok_sender:
  assumes "task_ok True inV fo p t"
  obtains f where "fo = Some f" "fr_slot f = Some p" "\<not> inV" "\<not> rv_returned t" "rv_sends t"
    "task_ok False inV (Some (f\<lparr>fr_slot := None, fr_state := rv_done\<rparr>)) p t" "task_ok False inV (Some (f\<lparr>fr_state := rv_disconnected\<rparr>)) p t"
proof (cases t)
  case (Send_Blocking pc)
  show ?thesis using assms that Send_Blocking by (cases "(True, fo, p, pc)" rule: bsend_ok.cases) (auto simp: waits_defs split: if_splits)
next
  case (Send_Future pc)
  show ?thesis using assms that Send_Future by (cases "(True, fo, p, pc)" rule: psend_ok.cases) (auto simp: waits_defs split: if_splits)
qed (use assms in auto)

lemma task_ok_receiver:
  assumes "task_ok inS True fo p t"
  obtains f where "fo = Some f" "fr_slot f = None" "\<not> inS" "\<not> rv_returned t" "rv_awaits t"
    "\<And>x. task_ok inS False (Some (f\<lparr>fr_slot := Some x, fr_state := rv_done\<rparr>)) p t" "task_ok inS False (Some (f\<lparr>fr_state := rv_disconnected\<rparr>)) p t"
proof (cases t)
  case (Recv_Blocking pc)
  show ?thesis using assms that Recv_Blocking by (cases pc) (auto simp: waits_defs split: if_splits)
next
  case (Recv_Timeout pc)
  show ?thesis using assms that Recv_Timeout by (cases pc) (auto simp: waits_defs split: if_splits)
next
  case (Recv_Future pc)
  show ?thesis using assms that Recv_Future by (cases pc) (auto simp: waits_defs split: if_splits)
qed (use assms in auto)

subsection \<open>The invariant and its updates\<close>

text \<open>
  \<open>T\<close> are the programs, \<open>S\<close> and \<open>V\<close> the queued senders and receivers, \<open>M\<close> the memory. A sender and a receiver
  never wait at the same time.
\<close>

definition rv_inv :: "(addr \<rightharpoonup> rv_task) \<Rightarrow> rv_rec list \<Rightarrow> rv_rec list \<Rightarrow> addr memory \<Rightarrow> bool" where
  "rv_inv T S V M \<longleftrightarrow> one_each S \<and> one_each V \<and> (S = [] \<or> V = []) \<and> (\<forall>p. p \<in> owners S \<or> p \<in> owners V \<longrightarrow> T p \<noteq> None) \<and> (\<forall>p. T p = None \<longrightarrow> M p = None) \<and>
     (\<forall>p t. T p = Some t \<longrightarrow> task_ok (p \<in> owners S) (p \<in> owners V) (M p) p t)"

lemma rv_inv_task: "rv_inv T S V M \<Longrightarrow> T p = Some t \<Longrightarrow> task_ok (p \<in> owners S) (p \<in> owners V) (M p) p t"
  by (simp add: rv_inv_def)

lemma rv_inv_new: "rv_inv T S V M \<Longrightarrow> T p = None \<Longrightarrow> p \<notin> owners S \<and> p \<notin> owners V \<and> M p = None"
  by (auto simp: rv_inv_def)

lemma rv_inv_own: "rv_inv T S V M \<Longrightarrow> task_ok (p \<in> owners S) (p \<in> owners V) fo p t \<Longrightarrow> rv_inv (T(p \<mapsto> t)) S V (M(p := fo))"
  by (auto simp: rv_inv_def)

lemma rv_inv_pc: "rv_inv T S V M \<Longrightarrow> task_ok (p \<in> owners S) (p \<in> owners V) (M p) p t \<Longrightarrow> rv_inv (T(p \<mapsto> t)) S V M"
  using rv_inv_own [of T S V M p "M p" t] by simp

lemma rv_inv_free: "rv_inv T S V M \<Longrightarrow> T p = Some t \<Longrightarrow> task_ok (p \<in> owners S) (p \<in> owners V) None p t \<Longrightarrow> rv_inv T S V (M(p := None))"
  by (auto simp: rv_inv_def)

lemma rv_inv_leave_sender:
  assumes i: "rv_inv T (r # S) V M" and t: "T (rc_owner r) = Some t" "task_ok False False fo (rc_owner r) t"
  shows "rv_inv T S V (M(rc_owner r := fo))"
proof -
  have "task_ok (p \<in> owners S) (p \<in> owners V) ((M(rc_owner r := fo)) p) p u" if "T p = Some u" for p u
    using rv_inv_task [OF i that] that i t by (cases "p = rc_owner r") (simp_all add: rv_inv_def)
  then show ?thesis using i t(1) by (simp add: rv_inv_def)
qed

lemma rv_inv_leave_receiver:
  assumes i: "rv_inv T S (r # V) M" and t: "T (rc_owner r) = Some t" "task_ok False False fo (rc_owner r) t"
  shows "rv_inv T S V (M(rc_owner r := fo))"
proof -
  have "task_ok (p \<in> owners S) (p \<in> owners V) ((M(rc_owner r := fo)) p) p u" if "T p = Some u" for p u
    using rv_inv_task [OF i that] that i t by (cases "p = rc_owner r") (simp_all add: rv_inv_def)
  then show ?thesis using i t(1) by (simp add: rv_inv_def)
qed

lemma rv_inv_sender:
  assumes "rv_inv T (r # S) V M"
  obtains f where "M (rc_owner r) = Some f" "fr_slot f = Some (rc_owner r)" "rv_inv T S V (M(rc_owner r \<mapsto> f\<lparr>fr_slot := None, fr_state := rv_done\<rparr>))"
    "rv_inv T S V (M(rc_owner r \<mapsto> f\<lparr>fr_state := rv_disconnected\<rparr>))" "V = []"
proof -
  obtain t where t: "T (rc_owner r) = Some t" using assms by (auto simp: rv_inv_def)
  then have k: "task_ok True (rc_owner r \<in> owners V) (M (rc_owner r)) (rc_owner r) t" using rv_inv_task [OF assms] by force
  obtain f where f: "M (rc_owner r) = Some f" "fr_slot f = Some (rc_owner r)" "rc_owner r \<notin> owners V"
    "task_ok False False (Some (f\<lparr>fr_slot := None, fr_state := rv_done\<rparr>)) (rc_owner r) t" "task_ok False False (Some (f\<lparr>fr_state := rv_disconnected\<rparr>)) (rc_owner r) t"
    using task_ok_sender [OF k] by metis
  show ?thesis using rv_inv_leave_sender [OF assms t] f assms by (intro that [of f]) (auto simp: rv_inv_def)
qed

lemma rv_inv_receiver:
  assumes "rv_inv T S (r # V) M"
  obtains f where "M (rc_owner r) = Some f" "fr_slot f = None" "\<And>x. rv_inv T S V (M(rc_owner r \<mapsto> f\<lparr>fr_slot := Some x, fr_state := rv_done\<rparr>))"
    "rv_inv T S V (M(rc_owner r \<mapsto> f\<lparr>fr_state := rv_disconnected\<rparr>))" "S = []"
proof -
  obtain t where t: "T (rc_owner r) = Some t" using assms by (auto simp: rv_inv_def)
  then have k: "task_ok (rc_owner r \<in> owners S) True (M (rc_owner r)) (rc_owner r) t" using rv_inv_task [OF assms] by force
  obtain f where f: "M (rc_owner r) = Some f" "fr_slot f = None" "rc_owner r \<notin> owners S"
    "\<And>x. task_ok False False (Some (f\<lparr>fr_slot := Some x, fr_state := rv_done\<rparr>)) (rc_owner r) t" "task_ok False False (Some (f\<lparr>fr_state := rv_disconnected\<rparr>)) (rc_owner r) t"
    using task_ok_receiver [OF k] by metis
  show ?thesis using rv_inv_leave_receiver [OF assms t] f assms by (intro that [of f]) (auto simp: rv_inv_def)
qed

lemma rv_inv_park_sender: "rv_inv T S [] M \<Longrightarrow> p \<notin> owners S \<Longrightarrow> rc_owner r = p \<Longrightarrow> task_ok True False fo p t \<Longrightarrow> rv_inv (T(p \<mapsto> t)) (S @ [r]) [] (M(p := fo))"
  by (auto simp: rv_inv_def)

lemma rv_inv_park_receiver: "rv_inv T [] V M \<Longrightarrow> p \<notin> owners V \<Longrightarrow> rc_owner r = p \<Longrightarrow> task_ok False True fo p t \<Longrightarrow> rv_inv (T(p \<mapsto> t)) [] (V @ [r]) (M(p := fo))"
  by (auto simp: rv_inv_def)

lemma rv_inv_unlink_sender: "rv_inv T S V M \<Longrightarrow> task_ok False (p \<in> owners V) (M p) p t \<Longrightarrow> rv_inv (T(p \<mapsto> t)) (remove_rec p S) V M"
  using owners_remove [of S p] by (auto simp: rv_inv_def owners_empty)

lemma rv_inv_unlink_receiver: "rv_inv T S V M \<Longrightarrow> task_ok (p \<in> owners S) False (M p) p t \<Longrightarrow> rv_inv (T(p \<mapsto> t)) S (remove_rec p V) M"
  using owners_remove [of V p] by (auto simp: rv_inv_def owners_empty)

lemma rv_inv_refresh_sender: "rv_inv T S V M \<Longrightarrow> refresh_rec p w S = (found, S') \<Longrightarrow> rv_inv T S' V M"
  using owners_refresh [of p w S found S'] owners_empty [of S] owners_empty [of S'] by (auto simp: rv_inv_def)

lemma rv_inv_refresh_receiver: "rv_inv T S V M \<Longrightarrow> refresh_rec p w V = (found, V') \<Longrightarrow> rv_inv T S V' M"
  using owners_refresh [of p w V found V'] owners_empty [of V] owners_empty [of V'] by (auto simp: rv_inv_def)

lemma rv_inv_disconnect_senders: "rv_inv T S V M \<Longrightarrow> \<exists>ws M'. disconnect_recs S M = Some (ws, M') \<and> rv_inv T [] V M'"
proof (induction S arbitrary: M)
  case (Cons r S)
  obtain f where f: "M (rc_owner r) = Some f" "rv_inv T S V (M(rc_owner r \<mapsto> f\<lparr>fr_state := rv_disconnected\<rparr>))" using rv_inv_sender [OF Cons.prems] by metis
  show ?case using Cons.IH [OF f(2)] f(1) by (auto simp: store_state_def simp del: fun_upd_apply)
qed simp

lemma rv_inv_disconnect_receivers: "rv_inv T S V M \<Longrightarrow> \<exists>ws M'. disconnect_recs V M = Some (ws, M') \<and> rv_inv T S [] M'"
proof (induction V arbitrary: M)
  case (Cons r V)
  obtain f where f: "M (rc_owner r) = Some f" "rv_inv T S V (M(rc_owner r \<mapsto> f\<lparr>fr_state := rv_disconnected\<rparr>))" using rv_inv_receiver [OF Cons.prems] by metis
  show ?case using Cons.IH [OF f(2)] f(1) by (auto simp: store_state_def simp del: fun_upd_apply)
qed simp

text \<open>The receives that wait or may come to wait.\<close>

definition awaiting :: "(addr \<rightharpoonup> rv_task) \<Rightarrow> addr set" where
  "awaiting T = {p. \<exists>t. T p = Some t \<and> rv_awaits t \<and> \<not> rv_returned t}"

subsection \<open>The contract of a receiver store\<close>

locale receiver_queue =
  fixes R :: "('r, addr) receiver_store" and view :: "'r \<Rightarrow> rv_rec list" and many :: bool
  assumes view_empty: "view (rs_empty R) = []"
    and view_push: "many \<or> view rs = [] \<Longrightarrow> view (rs_push_receiver R r rs) = view rs @ [r]"
    and pop_empty: "view rs = [] \<Longrightarrow> rs_pop_receiver R rs = None"
    and pop_oldest: "view rs = r # rest \<Longrightarrow> \<exists>rs'. rs_pop_receiver R rs = Some (r, rs') \<and> view rs' = rest"
    and view_refresh: "refresh_rec p w (view rs) = (fst (rs_refresh_receiver R p w rs), view (snd (rs_refresh_receiver R p w rs)))"
    and view_remove: "view (rs_remove_receiver R p rs) = remove_rec p (view rs)"
    and view_disconnect: "disconnect_recs (view rs) m = Some (ws, m') \<Longrightarrow> \<exists>rs'. rs_disconnect_all R rs m = Some (ws, rs', m') \<and> view rs' = []"
begin

definition core_ok :: "(addr \<rightharpoonup> rv_task) \<Rightarrow> ('r, addr) rv \<Rightarrow> bool" where
  "core_ok T s \<longleftrightarrow> rv_inv T (rv_sender_waiters s) (view (rv_receivers s)) (rv_mem s) \<and>
     (rv_receiver_count s = 0 \<longrightarrow> rv_sender_waiters s = []) \<and> (rv_sender_count s = 0 \<longrightarrow> view (rv_receivers s) = [])"

lemma core_ok_inv: "core_ok T s \<Longrightarrow> rv_inv T (rv_sender_waiters s) (view (rv_receivers s)) (rv_mem s)"
  by (simp add: core_ok_def)

lemma core_ok_pc: "core_ok T s \<Longrightarrow> task_ok (p \<in> owners (rv_sender_waiters s)) (p \<in> owners (view (rv_receivers s))) (rv_mem s p) p t \<Longrightarrow> core_ok (T(p \<mapsto> t)) s"
  by (auto simp: core_ok_def intro: rv_inv_pc)

lemma core_ok_own:
  "core_ok T s \<Longrightarrow> task_ok (p \<in> owners (rv_sender_waiters s)) (p \<in> owners (view (rv_receivers s))) fo p t \<Longrightarrow> core_ok (T(p \<mapsto> t)) (s\<lparr>rv_mem := (rv_mem s)(p := fo)\<rparr>)"
  by (auto simp: core_ok_def intro: rv_inv_own)

lemma core_ok_woken [simp]: "core_ok T (s\<lparr>rv_woken := ws\<rparr>) = core_ok T s"
  by (simp add: core_ok_def)

lemma send_section_ok:
  assumes ok: "core_ok T s" and p: "p \<notin> owners (rv_sender_waiters s)" "p \<notin> owners (view (rv_receivers s))" "rv_mem s p = Some f" "fr_slot f = Some x"
  obtains (closed) "send_section R p w s = Some (Send_Closed, s)"
  | (matched) wk s' where "send_section R p w s = Some (Send_Matched wk, s')" "rv_mem s' p = Some (f\<lparr>fr_slot := None\<rparr>)"
      "\<And>t. task_ok False False (Some (f\<lparr>fr_slot := None\<rparr>)) p t \<Longrightarrow> core_ok (T(p \<mapsto> t)) s'"
  | (parked) s' where "send_section R p w s = Some (Send_Parked, s')" "rv_mem s' = rv_mem s"
      "\<And>t fo. task_ok True False fo p t \<Longrightarrow> core_ok (T(p \<mapsto> t)) (s'\<lparr>rv_mem := (rv_mem s)(p := fo)\<rparr>)"
proof (cases "rv_receiver_count s = 0")
  case True
  then show ?thesis using closed by (simp add: send_section_def)
next
  case False
  show ?thesis
  proof (cases "view (rv_receivers s)")
    case Nil
    let ?s = "s\<lparr>rv_sender_waiters := rv_sender_waiters s @ [\<lparr>rc_owner = p, rc_wake = w\<rparr>]\<rparr>"
    have "core_ok (T(p \<mapsto> t)) (?s\<lparr>rv_mem := (rv_mem s)(p := fo)\<rparr>)" if "task_ok True False fo p t" for t fo
      using rv_inv_park_sender [of T "rv_sender_waiters s" "rv_mem s" p "\<lparr>rc_owner = p, rc_wake = w\<rparr>" fo t] ok p(1) Nil that False by (simp add: core_ok_def)
    then show ?thesis using parked [of ?s] False pop_empty [OF Nil] by (simp add: send_section_def)
  next
    case (Cons r rest)
    obtain rs' where rs': "rs_pop_receiver R (rv_receivers s) = Some (r, rs')" "view rs' = rest" using pop_oldest [OF Cons] by blast
    have i: "rv_inv T (rv_sender_waiters s) (r # rest) (rv_mem s)" using ok Cons by (simp add: core_ok_def)
    obtain g where g: "rv_mem s (rc_owner r) = Some g" "rv_sender_waiters s = []" by (rule rv_inv_receiver [OF i])
    have n: "rc_owner r \<noteq> p" using p(2) Cons by auto
    let ?m = "(rv_mem s)(p \<mapsto> f\<lparr>fr_slot := None\<rparr>, rc_owner r \<mapsto> g\<lparr>fr_slot := Some x, fr_state := rv_done\<rparr>)"
    have e: "send_section R p w s = Some (Send_Matched (rc_wake r), s\<lparr>rv_receivers := rs', rv_mem := ?m\<rparr>)"
      using False rs'(1) p(3,4) g(1) n by (simp add: send_section_def take_slot_def fulfill_receiver_def store_state_def)
    have "core_ok (T(p \<mapsto> t)) (s\<lparr>rv_receivers := rs', rv_mem := ?m\<rparr>)" if t: "task_ok False False (Some (f\<lparr>fr_slot := None\<rparr>)) p t" for t
    proof -
      have "rv_inv (T(p \<mapsto> t)) (rv_sender_waiters s) (r # rest) ((rv_mem s)(p \<mapsto> f\<lparr>fr_slot := None\<rparr>))" using rv_inv_own [OF i] t p(1,2) Cons by simp
      then have "rv_inv (T(p \<mapsto> t)) (rv_sender_waiters s) rest ?m" by (rule rv_inv_receiver) (use g(1) n in auto)
      then show ?thesis using rs'(2) g(2) ok Cons by (simp add: core_ok_def)
    qed
    then show ?thesis using e n by (intro matched) auto
  qed
qed

lemma recv_section_ok:
  assumes ok: "core_ok T s" and p: "p \<notin> owners (rv_sender_waiters s)" "p \<notin> owners (view (rv_receivers s))" and room: "many \<or> view (rv_receivers s) = []"
  obtains (closed) "recv_section R p w s = Some (Recv_Closed, s)"
  | (matched) wk x s' where "recv_section R p w s = Some (Recv_Matched wk x, s')" "rv_mem s' p = rv_mem s p"
      "\<And>t. task_ok False False (rv_mem s p) p t \<Longrightarrow> core_ok (T(p \<mapsto> t)) s'"
  | (parked) s' where "recv_section R p w s = Some (Recv_Parked, s')" "rv_mem s' = rv_mem s"
      "\<And>t fo. task_ok False True fo p t \<Longrightarrow> core_ok (T(p \<mapsto> t)) (s'\<lparr>rv_mem := (rv_mem s)(p := fo)\<rparr>)"
proof (cases "rv_sender_waiters s")
  case Nil
  show ?thesis
  proof (cases "rv_sender_count s = 0")
    case True
    then show ?thesis using closed Nil by (simp add: recv_section_def)
  next
    case False
    let ?s = "s\<lparr>rv_receivers := rs_push_receiver R \<lparr>rc_owner = p, rc_wake = w\<rparr> (rv_receivers s)\<rparr>"
    have "core_ok (T(p \<mapsto> t)) (?s\<lparr>rv_mem := (rv_mem s)(p := fo)\<rparr>)" if "task_ok False True fo p t" for t fo
      using rv_inv_park_receiver [of T "view (rv_receivers s)" "rv_mem s" p "\<lparr>rc_owner = p, rc_wake = w\<rparr>" fo t] ok p(2) Nil that False view_push [OF room] by (simp add: core_ok_def)
    then show ?thesis using parked [of ?s] False Nil by (simp add: recv_section_def)
  qed
next
  case (Cons r rest)
  have i: "rv_inv T (r # rest) (view (rv_receivers s)) (rv_mem s)" using ok Cons by (simp add: core_ok_def)
  obtain g where g: "rv_mem s (rc_owner r) = Some g" "fr_slot g = Some (rc_owner r)" "view (rv_receivers s) = []" by (rule rv_inv_sender [OF i])
  have n: "rc_owner r \<noteq> p" using p(1) Cons by auto
  let ?m = "(rv_mem s)(rc_owner r \<mapsto> g\<lparr>fr_slot := None, fr_state := rv_done\<rparr>)"
  have e: "recv_section R p w s = Some (Recv_Matched (rc_wake r) (rc_owner r), s\<lparr>rv_sender_waiters := rest, rv_mem := ?m\<rparr>)"
    using Cons g(1,2) by (simp add: recv_section_def take_slot_def fulfill_sender_def store_state_def)
  have "core_ok (T(p \<mapsto> t)) (s\<lparr>rv_sender_waiters := rest, rv_mem := ?m\<rparr>)" if t: "task_ok False False (rv_mem s p) p t" for t
  proof -
    have "rv_inv (T(p \<mapsto> t)) (r # rest) (view (rv_receivers s)) (rv_mem s)" using rv_inv_pc [OF i] t p Cons by simp
    then have "rv_inv (T(p \<mapsto> t)) rest (view (rv_receivers s)) ?m" by (rule rv_inv_sender) (use g(1) in auto)
    then show ?thesis using g(3) ok Cons by (simp add: core_ok_def)
  qed
  then show ?thesis using n by (intro matched [OF e]) auto
qed

lemma core_ok_task: "core_ok T s \<Longrightarrow> T p = Some t \<Longrightarrow> task_ok (p \<in> owners (rv_sender_waiters s)) (p \<in> owners (view (rv_receivers s))) (rv_mem s p) p t"
  by (rule rv_inv_task [OF core_ok_inv])

subsection \<open>Every program keeps the invariant and can go on\<close>

text \<open>The result of a section is a step of the program; parking with an unchanged frame is the special case of the blocking calls.\<close>

lemma parked_same: "(\<And>t fo. task_ok a b fo p t \<Longrightarrow> core_ok (T(p \<mapsto> t)) (s'\<lparr>rv_mem := M(p := fo)\<rparr>)) \<Longrightarrow> rv_mem s' = M \<Longrightarrow> task_ok a b (M p) p t \<Longrightarrow> core_ok (T(p \<mapsto> t)) s'"
  by (metis fun_upd_triv rv.surjective rv.update_convs(5))

lemma send_blocking_ok:
  assumes ok: "core_ok T s" and t: "T p = Some (Send_Blocking pc)" and r: "\<not> rv_returned (Send_Blocking pc)"
  shows "\<exists>pc' s'. send_blocking R p pc s = Some (pc', s') \<and> core_ok (T(p \<mapsto> Send_Blocking pc')) s'"
proof -
  note k = core_ok_task [OF ok t]
  show ?thesis
  proof (cases pc)
    case BS_Enter
    then have k': "p \<notin> owners (rv_sender_waiters s)" "p \<notin> owners (view (rv_receivers s))" "rv_mem s p = Some \<lparr>fr_state = rv_waiting, fr_slot = Some p\<rparr>" using k by auto
    have x: "fr_slot \<lparr>fr_state = rv_waiting, fr_slot = Some p\<rparr> = Some p" by simp
    show ?thesis
    proof (cases rule: send_section_ok [OF ok k' x, where w = "Wake_Thread p", case_names closed matched parked])
      case closed
      then show ?thesis using BS_Enter k' ok by (auto intro!: core_ok_pc simp: holds_slot_def)
    next
      case (matched wk s')
      then show ?thesis using BS_Enter by (auto simp: holds_slot_def)
    next
      case (parked s')
      then show ?thesis using BS_Enter k'(3) by (auto intro!: parked_same [OF parked(3)] simp: send_waits_def)
    qed
  next
    case (BS_Done res)
    then show ?thesis using r by simp
  qed (use ok k in \<open>auto simp: rv_wake_def rv_unparked_def rv_load_def waits_defs intro!: core_ok_pc split: if_splits\<close>)
qed

lemma recv_blocking_ok:
  assumes ok: "core_ok T s" and t: "T p = Some (Recv_Blocking pc)" and r: "\<not> rv_returned (Recv_Blocking pc)" and room: "p \<notin> owners (view (rv_receivers s)) \<Longrightarrow> many \<or> view (rv_receivers s) = []"
  shows "\<exists>pc' s'. recv_blocking R p pc s = Some (pc', s') \<and> core_ok (T(p \<mapsto> Recv_Blocking pc')) s'"
proof -
  note k = core_ok_task [OF ok t]
  show ?thesis
  proof (cases pc)
    case BR_Enter
    then have k': "p \<notin> owners (rv_sender_waiters s)" "p \<notin> owners (view (rv_receivers s))" "rv_mem s p = Some \<lparr>fr_state = rv_waiting, fr_slot = None\<rparr>" using k by auto
    show ?thesis
    proof (cases rule: recv_section_ok [OF ok k'(1,2) room [OF k'(2)], where w = "Wake_Thread p", case_names closed matched parked])
      case closed
      then show ?thesis using BR_Enter k' ok by (auto intro!: core_ok_pc simp: waits_defs)
    next
      case (matched wk x s')
      then show ?thesis using BR_Enter k'(3) by (auto simp: holds_slot_def)
    next
      case (parked s')
      then show ?thesis using BR_Enter k'(3) by (auto intro!: parked_same [OF parked(3)] simp: recv_waits_def)
    qed
  next
    case (BR_Done res)
    then show ?thesis using r by simp
  qed (use ok k in \<open>auto simp: rv_wake_def rv_unparked_def rv_load_def rv_take_def take_slot_def waits_defs intro!: core_ok_pc core_ok_own split: if_splits\<close>)
qed

lemma claim_ok:
  assumes ok: "core_ok T s" and f: "rv_mem s p = Some f"
  shows "\<exists>s'. cancel_claim p s = Some (fr_state f = rv_waiting, s') \<and> (fr_state f \<noteq> rv_waiting \<longrightarrow> s' = s) \<and>
    (fr_state f = rv_waiting \<longrightarrow> s' = s\<lparr>rv_mem := (rv_mem s)(p \<mapsto> f\<lparr>fr_state := rv_cancelled\<rparr>)\<rparr>)"
  using f by (simp add: cancel_claim_def rv_load_def rv_store_def store_state_def)

lemma cancel_receiver_ok: "core_ok T s \<Longrightarrow> task_ok (p \<in> owners (rv_sender_waiters s)) False (rv_mem s p) p t \<Longrightarrow> core_ok (T(p \<mapsto> t)) (cancel_receiver R p s)"
  by (auto simp: core_ok_def cancel_receiver_def view_remove intro: rv_inv_unlink_receiver)

lemma cancel_sender_ok: "core_ok T s \<Longrightarrow> task_ok False (p \<in> owners (view (rv_receivers s))) (rv_mem s p) p t \<Longrightarrow> core_ok (T(p \<mapsto> t)) (cancel_sender p s)"
  by (auto simp: core_ok_def cancel_sender_def intro: rv_inv_unlink_sender)

lemma recv_timeout_ok:
  assumes ok: "core_ok T s" and t: "T p = Some (Recv_Timeout pc)" and r: "\<not> rv_returned (Recv_Timeout pc)" and room: "p \<notin> owners (view (rv_receivers s)) \<Longrightarrow> many \<or> view (rv_receivers s) = []"
  shows "\<exists>pc' s'. recv_timeout R p e pc s = Some (pc', s') \<and> core_ok (T(p \<mapsto> Recv_Timeout pc')) s'"
proof -
  note k = core_ok_task [OF ok t]
  show ?thesis
  proof (cases pc)
    case RT_Enter
    then have k': "p \<notin> owners (rv_sender_waiters s)" "p \<notin> owners (view (rv_receivers s))" "rv_mem s p = Some \<lparr>fr_state = rv_waiting, fr_slot = None\<rparr>" using k by auto
    show ?thesis
    proof (cases rule: recv_section_ok [OF ok k'(1,2) room [OF k'(2)], where w = "Wake_Thread p", case_names closed matched parked])
      case closed
      then show ?thesis using RT_Enter k' ok by (auto intro!: core_ok_pc simp: waits_defs)
    next
      case (matched wk x s')
      then show ?thesis using RT_Enter k'(3) by (auto simp: holds_slot_def)
    next
      case (parked s')
      then show ?thesis using RT_Enter k'(3) by (auto intro!: parked_same [OF parked(3)] simp: recv_waits_def)
    qed
  next
    case RT_Cancel
    then obtain f where f: "rv_mem s p = Some f" using k by (auto simp: recv_waits_def)
    then show ?thesis using claim_ok [OF ok f] RT_Cancel ok k by (auto simp: recv_waits_def intro!: core_ok_pc core_ok_own split: if_splits)
  next
    case RT_Unlink
    then show ?thesis using ok k by (auto intro!: cancel_receiver_ok)
  next
    case (RT_Done res)
    then show ?thesis using r by simp
  qed (use ok k in \<open>auto simp: rv_wake_def rv_unparked_def rv_load_def rv_take_def take_slot_def waits_defs intro!: core_ok_pc core_ok_own split: if_splits\<close>)
qed

lemma refresh_empty: "refresh_rec p w rs = (found, rs') \<Longrightarrow> rs' = [] \<longleftrightarrow> rs = []"
  using owners_refresh [of p w rs found rs'] by (metis owners_empty)

lemma refresh_sender_ok:
  assumes ok: "core_ok T s" and e: "refresh_rec p w (rv_sender_waiters s) = (found, rs)"
  shows "core_ok T (s\<lparr>rv_sender_waiters := rs\<rparr>) \<and> owners rs = owners (rv_sender_waiters s) \<and> (found \<longleftrightarrow> p \<in> owners (rv_sender_waiters s))"
  using owners_refresh [OF e] refresh_empty [OF e] ok rv_inv_refresh_sender [OF core_ok_inv [OF ok] e] by (simp add: core_ok_def)

lemma refresh_receiver_ok:
  assumes ok: "core_ok T s" and e: "rs_refresh_receiver R p w (rv_receivers s) = (found, rs)"
  shows "core_ok T (s\<lparr>rv_receivers := rs\<rparr>) \<and> owners (view rs) = owners (view (rv_receivers s)) \<and> (found \<longleftrightarrow> p \<in> owners (view (rv_receivers s)))"
proof -
  have v: "refresh_rec p w (view (rv_receivers s)) = (found, view rs)" using view_refresh [of p w "rv_receivers s"] e by simp
  show ?thesis using owners_refresh [OF v] refresh_empty [OF v] ok rv_inv_refresh_receiver [OF core_ok_inv [OF ok] v] by (simp add: core_ok_def)
qed

lemma poll_send_ok:
  assumes ok: "core_ok T s" and t: "T p = Some (Send_Future pc)" and r: "\<not> rv_returned (Send_Future pc)" "\<not> rv_idle (Send_Future pc)"
  shows "\<exists>pc' s'. rv_poll_send R p pc s = Some (pc', s') \<and> core_ok (T(p \<mapsto> Send_Future pc')) s'"
proof -
  note k = core_ok_task [OF ok t]
  show ?thesis
  proof (cases pc)
    case (PS_Poll wk reg)
    show ?thesis
    proof (cases reg)
      case True
      then show ?thesis using PS_Poll ok k by (auto simp: rv_load_def waits_defs intro!: core_ok_pc split: if_splits)
    next
      case False
      then obtain f where k': "p \<notin> owners (rv_sender_waiters s)" "p \<notin> owners (view (rv_receivers s))" "rv_mem s p = Some f" "fr_slot f = Some p" using k PS_Poll by (auto simp: holds_slot_def)
      show ?thesis
      proof (cases rule: send_section_ok [OF ok k', where w = "Wake_Waker wk", case_names closed matched parked])
        case closed
        then show ?thesis using PS_Poll False k' ok by (auto intro!: core_ok_pc simp: holds_slot_def)
      next
        case (matched wk s')
        then show ?thesis using PS_Poll False k'(3,4) by (auto simp: holds_slot_def)
      next
        case (parked s')
        then show ?thesis using PS_Poll False k'(3,4) parked(3) [of "Some (f\<lparr>fr_state := rv_waiting\<rparr>)" "Send_Future (PS_Idle (Some wk))"]
          by (auto simp: rv_store_def store_state_def send_waits_def)
      qed
    qed
  next
    case (PS_Refresh wk)
    obtain found rs where e: "refresh_rec p (Wake_Waker wk) (rv_sender_waiters s) = (found, rs)" by (cases "refresh_rec p (Wake_Waker wk) (rv_sender_waiters s)")
    show ?thesis using refresh_sender_ok [OF ok e] e PS_Refresh k by (auto simp: send_waits_def intro!: core_ok_pc)
  next
    case PS_Cancel
    then obtain f where f: "rv_mem s p = Some f" using k by (auto simp: send_waits_def)
    then show ?thesis using claim_ok [OF ok f] PS_Cancel ok k by (auto simp: waits_defs intro!: core_ok_pc core_ok_own split: if_splits)
  next
    case PS_Unlink
    then show ?thesis using ok k by (auto simp: waits_defs intro!: cancel_sender_ok split: if_splits)
  qed (use ok k r in \<open>auto simp: rv_wake_def rv_load_def waits_defs intro!: core_ok_pc split: if_splits\<close>)
qed

lemma poll_recv_ok:
  assumes ok: "core_ok T s" and t: "T p = Some (Recv_Future pc)" and r: "\<not> rv_returned (Recv_Future pc)" "\<not> rv_idle (Recv_Future pc)" and room: "p \<notin> owners (view (rv_receivers s)) \<Longrightarrow> many \<or> view (rv_receivers s) = []"
  shows "\<exists>pc' s'. rv_poll_recv R p pc s = Some (pc', s') \<and> core_ok (T(p \<mapsto> Recv_Future pc')) s'"
proof -
  note k = core_ok_task [OF ok t]
  show ?thesis
  proof (cases pc)
    case (PR_Poll wk reg)
    show ?thesis
    proof (cases reg)
      case True
      then show ?thesis using PR_Poll ok k by (auto simp: rv_load_def rv_take_def take_slot_def waits_defs intro!: core_ok_pc core_ok_own split: if_splits)
    next
      case False
      then obtain f where k': "p \<notin> owners (rv_sender_waiters s)" "p \<notin> owners (view (rv_receivers s))" "rv_mem s p = Some f" "fr_slot f = None" using k PR_Poll by (auto simp: holds_slot_def)
      show ?thesis
      proof (cases rule: recv_section_ok [OF ok k'(1,2) room [OF k'(2)], where w = "Wake_Waker wk", case_names closed matched parked])
        case closed
        then show ?thesis using PR_Poll False k' ok by (auto intro!: core_ok_pc simp: waits_defs)
      next
        case (matched wk x s')
        then show ?thesis using PR_Poll False k'(3,4) by (auto simp: holds_slot_def)
      next
        case (parked s')
        then show ?thesis using PR_Poll False k'(3,4) parked(3) [of "Some (f\<lparr>fr_state := rv_waiting\<rparr>)" "Recv_Future (PR_Idle (Some wk))"]
          by (auto simp: rv_store_def store_state_def recv_waits_def)
      qed
    qed
  next
    case (PR_Refresh wk)
    obtain found rs where e: "rs_refresh_receiver R p (Wake_Waker wk) (rv_receivers s) = (found, rs)" by (cases "rs_refresh_receiver R p (Wake_Waker wk) (rv_receivers s)")
    show ?thesis using refresh_receiver_ok [OF ok e] e PR_Refresh k by (auto simp: recv_waits_def intro!: core_ok_pc)
  next
    case PR_Cancel
    then obtain f where f: "rv_mem s p = Some f" using k by (auto simp: recv_waits_def)
    then show ?thesis using claim_ok [OF ok f] PR_Cancel ok k by (auto simp: waits_defs intro!: core_ok_pc core_ok_own split: if_splits)
  next
    case PR_Unlink
    then show ?thesis using ok k by (auto intro!: cancel_receiver_ok)
  qed (use ok k r in \<open>auto simp: rv_wake_def rv_load_def rv_take_def take_slot_def waits_defs intro!: core_ok_pc core_ok_own split: if_splits\<close>)
qed

lemma try_send_ok:
  assumes ok: "core_ok T s" and t: "T p = Some (Try_Send pc)" and r: "\<not> rv_returned (Try_Send pc)"
  shows "\<exists>pc' s'. rv_try_send R pc s = Some (pc', s') \<and> core_ok (T(p \<mapsto> Try_Send pc')) s'"
proof -
  have own: "core_ok (T(p \<mapsto> Try_Send pc')) s" for pc' using core_ok_task [OF ok t] by (intro core_ok_pc [OF ok]) simp
  show ?thesis
  proof (cases pc)
    case (TS_Enter x)
    show ?thesis
    proof (cases "view (rv_receivers s)")
      case Nil
      then show ?thesis using TS_Enter own pop_empty [OF Nil] by auto
    next
      case (Cons q rest)
      obtain rs' where rs': "rs_pop_receiver R (rv_receivers s) = Some (q, rs')" "view rs' = rest" using pop_oldest [OF Cons] by blast
      have i: "rv_inv (T(p \<mapsto> Try_Send (TS_Wake (rc_wake q)))) (rv_sender_waiters s) (q # rest) (rv_mem s)" using own Cons by (simp add: core_ok_def)
      obtain g where g: "rv_mem s (rc_owner q) = Some g" "rv_inv (T(p \<mapsto> Try_Send (TS_Wake (rc_wake q)))) (rv_sender_waiters s) rest ((rv_mem s)(rc_owner q \<mapsto> g\<lparr>fr_slot := Some x, fr_state := rv_done\<rparr>))" "rv_sender_waiters s = []"
        by (rule rv_inv_receiver [OF i]) blast
      have "rv_sender_count s \<noteq> 0" using ok Cons by (auto simp: core_ok_def)
      then show ?thesis using TS_Enter own rs' g by (auto simp: core_ok_def fulfill_receiver_def store_state_def)
    qed
  qed (use own r in \<open>auto simp: rv_wake_def\<close>)
qed

lemma try_recv_ok:
  assumes ok: "core_ok T s" and t: "T p = Some (Try_Recv pc)" and r: "\<not> rv_returned (Try_Recv pc)"
  shows "\<exists>pc' s'. rv_try_recv pc s = Some (pc', s') \<and> core_ok (T(p \<mapsto> Try_Recv pc')) s'"
proof -
  have own: "core_ok (T(p \<mapsto> Try_Recv pc')) s" for pc' using core_ok_task [OF ok t] by (intro core_ok_pc [OF ok]) simp
  show ?thesis
  proof (cases pc)
    case TR_Enter
    show ?thesis
    proof (cases "rv_sender_waiters s")
      case Nil
      then show ?thesis using TR_Enter own by simp
    next
      case (Cons q rest)
      have i: "rv_inv (T(p \<mapsto> Try_Recv (TR_Wake (rc_wake q) (rc_owner q)))) (q # rest) (view (rv_receivers s)) (rv_mem s)" using own Cons by (simp add: core_ok_def)
      obtain g where g: "rv_mem s (rc_owner q) = Some g" "fr_slot g = Some (rc_owner q)"
        "rv_inv (T(p \<mapsto> Try_Recv (TR_Wake (rc_wake q) (rc_owner q)))) rest (view (rv_receivers s)) ((rv_mem s)(rc_owner q \<mapsto> g\<lparr>fr_slot := None, fr_state := rv_done\<rparr>))" "view (rv_receivers s) = []"
        by (rule rv_inv_sender [OF i])
      have "rv_receiver_count s \<noteq> 0" using ok Cons by (auto simp: core_ok_def)
      then show ?thesis using TR_Enter Cons g by (simp add: core_ok_def fulfill_sender_def take_slot_def store_state_def)
    qed
  qed (use own r in \<open>auto simp: rv_wake_def\<close>)
qed

text \<open>Without \<open>many\<close>, a receive that is about to wait is the only one.\<close>

definition lonely :: "(addr \<rightharpoonup> rv_task) \<Rightarrow> bool" where
  "lonely T \<longleftrightarrow> many \<or> (\<forall>p \<in> awaiting T. \<forall>q \<in> awaiting T. p = q)"

lemma lonely_room:
  assumes ok: "core_ok T s" and l: "lonely T" and t: "T p = Some t" "rv_awaits t" "\<not> rv_returned t" "p \<notin> owners (view (rv_receivers s))"
  shows "many \<or> view (rv_receivers s) = []"
proof (cases "view (rv_receivers s)")
  case (Cons r rest)
  obtain u where u: "T (rc_owner r) = Some u" using core_ok_inv [OF ok] Cons by (auto simp: rv_inv_def)
  have "task_ok (rc_owner r \<in> owners (rv_sender_waiters s)) True (rv_mem s (rc_owner r)) (rc_owner r) u" using core_ok_task [OF ok u] Cons by simp
  then have "rv_awaits u" "\<not> rv_returned u" by (auto elim: task_ok_receiver)
  then have "rc_owner r \<in> awaiting T" "p \<in> awaiting T" using u t by (auto simp: awaiting_def)
  then show ?thesis using l t(4) Cons unfolding lonely_def by auto
qed simp

lemma rv_run_ok:
  assumes ok: "core_ok T s" and l: "lonely T" and t: "T p = Some t" "\<not> rv_returned t" "\<not> rv_idle t"
  shows "\<exists>t' s'. rv_run R p e t s = Some (t', s') \<and> core_ok (T(p \<mapsto> t')) s'"
proof -
  have room: "rv_awaits t \<Longrightarrow> p \<notin> owners (view (rv_receivers s)) \<Longrightarrow> many \<or> view (rv_receivers s) = []" using lonely_room [OF ok l t(1)] t(2) by blast
  show ?thesis
  proof (cases t)
    case (Waking ws)
    then have "task_ok (p \<in> owners (rv_sender_waiters s)) (p \<in> owners (view (rv_receivers s))) (rv_mem s p) p (Waking ws')" for ws' using core_ok_task [OF ok t(1)] by simp
    then show ?thesis using Waking t(2) core_ok_pc [OF ok] by (cases ws) (auto simp: rv_wake_def)
  next
    case (Send_Blocking pc)
    then show ?thesis using send_blocking_ok [OF ok, of p pc] t by auto
  next
    case (Recv_Blocking pc)
    then show ?thesis using recv_blocking_ok [OF ok, of p pc] t room by auto
  next
    case (Recv_Timeout pc)
    then show ?thesis using recv_timeout_ok [OF ok, of p pc e] t room by auto
  next
    case (Send_Future pc)
    then show ?thesis using poll_send_ok [OF ok, of p pc] t by auto
  next
    case (Recv_Future pc)
    then show ?thesis using poll_recv_ok [OF ok, of p pc] t room by auto
  next
    case (Try_Send pc)
    then show ?thesis using try_send_ok [OF ok, of p pc] t by auto
  next
    case (Try_Recv pc)
    then show ?thesis using try_recv_ok [OF ok, of p pc] t by auto
  qed
qed

lemma rv_run_none: "rv_returned t \<or> rv_idle t \<Longrightarrow> rv_run R p e t s = None"
proof (cases t)
  case (Send_Future pc)
  assume "rv_returned t \<or> rv_idle t"
  then show ?thesis using Send_Future by (cases pc) auto
next
  case (Recv_Future pc)
  assume "rv_returned t \<or> rv_idle t"
  then show ?thesis using Recv_Future by (cases pc) auto
qed (auto split: bsend_pc.splits brecv_pc.splits rtimeout_pc.splits tsend_pc.splits tryrecv_pc.splits)

subsection \<open>Every step keeps the invariant\<close>

definition world_ok :: "'r rv_world \<Rightarrow> bool" where
  "world_ok w \<longleftrightarrow> core_ok (rw_tasks w) (rw_core w) \<and> lonely (rw_tasks w)"

lemma lonely_sub: "lonely T \<Longrightarrow> awaiting T' \<subseteq> awaiting T \<Longrightarrow> lonely T'"
  unfolding lonely_def by blast

lemma lonely_update: "lonely T \<Longrightarrow> T p = Some t \<Longrightarrow> \<not> rv_returned t \<Longrightarrow> rv_awaits t' = rv_awaits t \<Longrightarrow> lonely (T(p \<mapsto> t'))"
  by (erule lonely_sub) (auto simp: awaiting_def split: if_splits)

lemma lonely_new:
  assumes "lonely T" "T p = None" "many \<or> \<not> rv_awaits t \<or> (\<forall>q u. T q = Some u \<and> rv_awaits u \<longrightarrow> rv_returned u)"
  shows "lonely (T(p \<mapsto> t))"
proof -
  have "awaiting (T(p \<mapsto> t)) \<subseteq> awaiting T" if "\<not> rv_awaits t" using that by (auto simp: awaiting_def split: if_splits)
  moreover have "awaiting (T(p \<mapsto> t)) \<subseteq> {p}" if "\<forall>q u. T q = Some u \<and> rv_awaits u \<longrightarrow> rv_returned u" using that by (auto simp: awaiting_def split: if_splits)
  ultimately consider "many" | "awaiting (T(p \<mapsto> t)) \<subseteq> awaiting T" | "awaiting (T(p \<mapsto> t)) \<subseteq> {p}" using assms(3) by blast
  then show ?thesis
  proof cases
    case 2
    then show ?thesis by (rule lonely_sub [OF assms(1)])
  qed (unfold lonely_def, blast+)
qed

lemma drop_sender_ok: "core_ok T s \<Longrightarrow> \<exists>ws s'. rv_drop_sender R s = Some (ws, s') \<and> core_ok T s'"
proof (cases "u64_sub (rv_sender_count s) 1 = 0")
  case True
  assume ok: "core_ok T s"
  obtain ws m' where d: "disconnect_recs (view (rv_receivers s)) (rv_mem s) = Some (ws, m')" "rv_inv T (rv_sender_waiters s) [] m'"
    using rv_inv_disconnect_receivers [OF core_ok_inv [OF ok]] by blast
  then show ?thesis using True ok view_disconnect [OF d(1)] by (auto simp: rv_drop_sender_def core_ok_def)
qed (auto simp: rv_drop_sender_def core_ok_def)

lemma drop_receiver_ok: "core_ok T s \<Longrightarrow> \<exists>ws s'. rv_drop_receiver s = Some (ws, s') \<and> core_ok T s'"
proof (cases "u64_sub (rv_receiver_count s) 1 = 0")
  case True
  assume ok: "core_ok T s"
  obtain ws m' where d: "disconnect_recs (rv_sender_waiters s) (rv_mem s) = Some (ws, m')" "rv_inv T [] (view (rv_receivers s)) m'"
    using rv_inv_disconnect_senders [OF core_ok_inv [OF ok]] by blast
  then show ?thesis using True ok by (auto simp: rv_drop_receiver_def core_ok_def)
qed (auto simp: rv_drop_receiver_def core_ok_def)

lemma core_ok_waking: "core_ok T s \<Longrightarrow> T p = None \<Longrightarrow> core_ok (T(p \<mapsto> Waking ws)) s"
  using rv_inv_new [OF core_ok_inv, of T s p] by (intro core_ok_pc) simp_all

end

lemma start_ok: "rv_start p t \<Longrightarrow> task_ok False False (rv_frame p t) p t"
  by (cases t) (auto simp: waits_defs)

lemma poll_ok: "rv_poll wk t = Some t' \<Longrightarrow> task_ok a b fo p t \<Longrightarrow> task_ok a b fo p t'"
  by (cases "(wk, t)" rule: rv_poll.cases) (auto split: if_splits)

lemma drop_ok: "rv_drop t = Some t' \<Longrightarrow> task_ok a b fo p t \<Longrightarrow> task_ok a b fo p t'"
  by (cases t rule: rv_drop.cases) (auto simp: waits_defs split: if_splits)

lemma free_ok: "rv_returned t \<Longrightarrow> task_ok a b fo p t \<Longrightarrow> task_ok a b None p t"
proof (cases t)
  case (Send_Blocking pc)
  assume "rv_returned t" "task_ok a b fo p t"
  then show ?thesis using Send_Blocking by (cases "(a, fo, p, pc)" rule: bsend_ok.cases) (auto simp: waits_defs)
next
  case (Send_Future pc)
  assume "rv_returned t" "task_ok a b fo p t"
  then show ?thesis using Send_Future by (cases "(a, fo, p, pc)" rule: psend_ok.cases) (auto simp: waits_defs)
qed (auto simp: frame_item_def split: brecv_pc.splits rtimeout_pc.splits precv_pc.splits)

lemma rv_poll_kind: "rv_poll wk t = Some t' \<Longrightarrow> rv_idle t \<and> \<not> rv_returned t \<and> rv_awaits t' = rv_awaits t \<and> rv_sends t' = rv_sends t"
  by (cases "(wk, t)" rule: rv_poll.cases) auto

lemma rv_drop_kind: "rv_drop t = Some t' \<Longrightarrow> rv_idle t \<and> \<not> rv_returned t \<and> rv_awaits t' = rv_awaits t \<and> rv_sends t' = rv_sends t"
  by (cases t rule: rv_drop.cases) auto

lemma rv_run_kind: "rv_run R p e t s = Some (t', s') \<Longrightarrow> rv_awaits t' = rv_awaits t \<and> rv_sends t' = rv_sends t"
  by (cases "(R, p, e, t, s)" rule: rv_run.cases) auto

context receiver_queue
begin

lemma rv_step_ok:
  assumes "rv_step R many w w'" "world_ok w"
  shows "world_ok w'"
  using assms
proof (induction rule: rv_step.induct)
  case (start w p t)
  then have ok: "core_ok (rw_tasks w) (rw_core w)" "lonely (rw_tasks w)" by (simp_all add: world_ok_def)
  show ?case using core_ok_own [OF ok(1), of p "rv_frame p t" t] rv_inv_new [OF core_ok_inv [OF ok(1)] start.hyps(1)] start_ok [OF start.hyps(2)] lonely_new [OF ok(2) start.hyps(1,3)]
    by (simp add: world_ok_def rv_update_def)
next
  case (run w p t e t' s')
  then have ok: "core_ok (rw_tasks w) (rw_core w)" "lonely (rw_tasks w)" by (simp_all add: world_ok_def)
  have n: "\<not> rv_returned t" "\<not> rv_idle t" using rv_run_none [of t p e "rw_core w"] run.hyps(2) by auto
  show ?case using rv_run_ok [OF ok run.hyps(1) n, of e] run.hyps(2) lonely_update [OF ok(2) run.hyps(1) n(1)] rv_run_kind [OF run.hyps(2)] by (simp add: world_ok_def rv_update_def)
next
  case (poll w p t wk t')
  then have ok: "core_ok (rw_tasks w) (rw_core w)" "lonely (rw_tasks w)" by (simp_all add: world_ok_def)
  show ?case using core_ok_pc [OF ok(1) poll_ok [OF poll.hyps(2) core_ok_task [OF ok(1) poll.hyps(1)]]] lonely_update [OF ok(2) poll.hyps(1)] rv_poll_kind [OF poll.hyps(2)]
    by (simp add: world_ok_def rv_update_def)
next
  case (drop w p t t')
  then have ok: "core_ok (rw_tasks w) (rw_core w)" "lonely (rw_tasks w)" by (simp_all add: world_ok_def)
  show ?case using core_ok_pc [OF ok(1) drop_ok [OF drop.hyps(2) core_ok_task [OF ok(1) drop.hyps(1)]]] lonely_update [OF ok(2) drop.hyps(1)] rv_drop_kind [OF drop.hyps(2)]
    by (simp add: world_ok_def rv_update_def)
next
  case (free w p t)
  then have ok: "core_ok (rw_tasks w) (rw_core w)" "lonely (rw_tasks w)" by (simp_all add: world_ok_def)
  have "rv_inv (rw_tasks w) (rv_sender_waiters (rw_core w)) (view (rv_receivers (rw_core w))) ((rv_mem (rw_core w))(p := None))"
    using rv_inv_free [OF core_ok_inv [OF ok(1)] free.hyps(1)] free_ok [OF free.hyps(2) core_ok_task [OF ok(1) free.hyps(1)]] by blast
  then show ?case using ok by (simp add: world_ok_def free_frame_def core_ok_def)
next
  case (close_sender w h p ws s')
  then have ok: "core_ok (rw_tasks w) (rw_core w)" "lonely (rw_tasks w)" by (simp_all add: world_ok_def)
  show ?case using drop_sender_ok [OF ok(1)] close_sender.hyps(3) core_ok_waking [of "rw_tasks w" s' p ws] lonely_new [OF ok(2) close_sender.hyps(2), of "Waking ws"] close_sender.hyps(2)
    by (simp add: world_ok_def rv_update_def)
next
  case (close_receiver w h p ws s')
  then have ok: "core_ok (rw_tasks w) (rw_core w)" "lonely (rw_tasks w)" by (simp_all add: world_ok_def)
  show ?case using drop_receiver_ok [OF ok(1)] close_receiver.hyps(3) core_ok_waking [of "rw_tasks w" s' p ws] lonely_new [OF ok(2) close_receiver.hyps(2), of "Waking ws"] close_receiver.hyps(2)
    by (simp add: world_ok_def rv_update_def)
next
  case (clone_receiver w h h')
  then show ?case unfolding world_ok_def by (simp add: core_ok_def rv_add_receiver_def)
qed (auto simp: world_ok_def core_ok_def rv_add_sender_def)

lemma rv_reach_ok: "rv_reach R many w \<Longrightarrow> world_ok w"
proof (induction rule: rv_reach.induct)
  case reach_new
  show ?case using view_empty by (simp add: world_ok_def rv_channel_def rv_new_def core_ok_def rv_inv_def lonely_def awaiting_def)
next
  case (reach_step w w')
  then show ?case by (blast intro: rv_step_ok)
qed

lemma rv_reach_safe:
  assumes "rv_reach R many w"
  shows "(\<forall>p t e. rw_tasks w p = Some t \<and> \<not> rv_returned t \<and> \<not> rv_idle t \<longrightarrow> rv_run R p e t (rw_core w) \<noteq> None) \<and> rv_drop_sender R (rw_core w) \<noteq> None \<and> rv_drop_receiver (rw_core w) \<noteq> None"
proof -
  have ok: "core_ok (rw_tasks w) (rw_core w)" "lonely (rw_tasks w)" using rv_reach_ok [OF assms] by (simp_all add: world_ok_def)
  show ?thesis using rv_run_ok [OF ok] drop_sender_ok [OF ok(1)] drop_receiver_ok [OF ok(1)] by force
qed

end

subsection \<open>The two stores\<close>

interpretation dq: receiver_queue deque_store "\<lambda>rs. rs" True
proof
  fix rs :: "rv_rec list" and r and m m' :: "addr memory" and p w ws rest
  show "rs = [] \<Longrightarrow> rs_pop_receiver deque_store rs = None" by (simp add: deque_store_def)
  show "rs = r # rest \<Longrightarrow> \<exists>rs'. rs_pop_receiver deque_store rs = Some (r, rs') \<and> rs' = rest" by (simp add: deque_store_def)
  show "disconnect_recs rs m = Some (ws, m') \<Longrightarrow> \<exists>rs'. rs_disconnect_all deque_store rs m = Some (ws, rs', m') \<and> rs' = []" by (simp add: deque_store_def)
qed (simp_all add: deque_store_def)

definition slot_view :: "rv_rec option \<Rightarrow> rv_rec list" where
  "slot_view o' = (case o' of None \<Rightarrow> [] | Some r \<Rightarrow> [r])"

interpretation sl: receiver_queue slot_store slot_view False
  by unfold_locales (auto simp: slot_store_def slot_view_def split: option.splits Option.bind_splits)

subsection \<open>Memory safety\<close>

text \<open>
  Rendezvous channels are memory safe (C9). In every reachable state of an MPMC rendezvous channel, and
  of an MPSC one with a single consumer, every program that is not idle and has not returned can take its next step, and
  every handle can be closed: no pointer of a queued record is dangling, no queued sender is without
  its item, and no completed receive finds its slot empty. This covers timeouts and futures dropped at
  any time.
\<close>

theorem rv_memory_safe:
  assumes "mpmc_rendezvous w" "mpsc_rendezvous v"
  shows "(\<forall>p t e. rw_tasks w p = Some t \<and> \<not> rv_returned t \<and> \<not> rv_idle t \<longrightarrow> rv_run deque_store p e t (rw_core w) \<noteq> None) \<and>
    rv_drop_sender deque_store (rw_core w) \<noteq> None \<and> rv_drop_receiver (rw_core w) \<noteq> None \<and>
    (\<forall>p t e. rw_tasks v p = Some t \<and> \<not> rv_returned t \<and> \<not> rv_idle t \<longrightarrow> rv_run slot_store p e t (rw_core v) \<noteq> None) \<and>
    rv_drop_sender slot_store (rw_core v) \<noteq> None \<and> rv_drop_receiver (rw_core v) \<noteq> None"
  using dq.rv_reach_safe [OF assms(1)] sl.rv_reach_safe [OF assms(2)] by blast

theorem rv_memory_safe_witness:
  "\<exists>w v. rv_demo deque_store True demo_pair = Some w \<and> rv_demo slot_store False demo_pair = Some v \<and> rw_tasks w 0 = Some (Recv_Blocking BR_Load) \<and>
     rv_run deque_store 0 False (Recv_Blocking BR_Load) (rw_core w) \<noteq> None \<and> rv_run slot_store 0 False (Recv_Blocking BR_Load) (rw_core v) \<noteq> None"
proof -
  obtain w where w: "rv_demo deque_store True demo_pair = Some w" "rw_tasks w 0 = Some (Recv_Blocking BR_Load)" by (simp add: rv_eval demo_pair_def)
  obtain v where v: "rv_demo slot_store False demo_pair = Some v" "rw_tasks v 0 = Some (Recv_Blocking BR_Load)" by (simp add: rv_eval demo_pair_def)
  have "\<not> rv_returned (Recv_Blocking BR_Load)" "\<not> rv_idle (Recv_Blocking BR_Load)" by simp_all
  then show ?thesis using rv_memory_safe [OF rv_demo_reach [OF w(1)] rv_demo_reach [OF v(1)]] w v by blast
qed

end
