(* ===== verification/Rendezvous_Delivery.thy ===== *)
theory Rendezvous_Delivery
  imports Rendezvous_Safety
begin

section \<open>Rendezvous channels deliver every item once\<close>

text \<open>
  Where the items are: in the slot of a frame, with a call, or dropped. Every step leaves all items in
  place or moves one of them, so that an item is always in exactly one place.
\<close>

subsection \<open>Places\<close>

fun task_item :: "rv_task \<Rightarrow> addr option" where
  "task_item (Recv_Blocking pc) = (case pc of BR_Wake w x \<Rightarrow> Some x | BR_Done (Inr x) \<Rightarrow> Some x | _ \<Rightarrow> None)"
| "task_item (Recv_Timeout pc) = (case pc of RT_Wake w x \<Rightarrow> Some x | RT_Done (Inr x) \<Rightarrow> Some x | _ \<Rightarrow> None)"
| "task_item (Recv_Future pc) = (case pc of PR_Wake w x \<Rightarrow> Some x | PR_Done (Inr x) \<Rightarrow> Some x | _ \<Rightarrow> None)"
| "task_item (Try_Recv pc) = (case pc of TR_Wake w x \<Rightarrow> Some x | TR_Done (Inr x) \<Rightarrow> Some x | _ \<Rightarrow> None)"
| "task_item (Try_Send pc) = (case pc of TS_Enter x \<Rightarrow> Some x | TS_Done (Some err) \<Rightarrow> Some (into_inner err) | _ \<Rightarrow> None)"
| "task_item _ = None"

definition in_frames :: "addr memory \<Rightarrow> addr \<Rightarrow> addr option" where
  "in_frames m = (\<lambda>a. frame_item (m a))"

definition with_calls :: "(addr \<rightharpoonup> rv_task) \<Rightarrow> addr \<Rightarrow> addr option" where
  "with_calls T = (\<lambda>r. Option.bind (T r) task_item)"

datatype place = In_Frame addr | With_Call addr

fun place_item :: "(addr \<Rightarrow> addr option) \<Rightarrow> (addr \<Rightarrow> addr option) \<Rightarrow> place \<Rightarrow> addr option" where
  "place_item F G (In_Frame a) = F a"
| "place_item F G (With_Call r) = G r"

text \<open>The items \<open>Q\<close> are each dropped or in exactly one place.\<close>

definition once :: "addr set \<Rightarrow> addr list \<Rightarrow> ('p \<Rightarrow> addr option) \<Rightarrow> bool" where
  "once Q D P \<longleftrightarrow> Q = set D \<union> ran P \<and> set D \<inter> ran P = {} \<and> inj_on P (dom P)"

lemma once_unique: "once Q D P \<Longrightarrow> P k = Some x \<Longrightarrow> P k' = Some x \<Longrightarrow> k = k'"
  unfolding once_def inj_on_def by (simp add: domI)

lemma once_place:
  assumes o: "once Q D P" and m: "P k = Some x" "P k' = None"
  shows "once Q D (P(k := None, k' := Some x))"
proof -
  let ?P = "P(k := None, k' := Some x)"
  have n: "k \<noteq> k'" using m by auto
  have "(\<exists>i. ?P i = Some y) \<longleftrightarrow> (\<exists>i. P i = Some y)" for y
  proof
    assume "\<exists>i. ?P i = Some y"
    then show "\<exists>i. P i = Some y" using m(1) by (auto split: if_splits)
  next
    assume "\<exists>i. P i = Some y"
    then obtain i where i: "P i = Some y" by blast
    show "\<exists>i. ?P i = Some y"
    proof (cases "i = k")
      case True
      then have "?P k' = Some y" using i m by simp
      then show ?thesis by blast
    next
      case False
      then have "?P i = Some y" using i m by auto
      then show ?thesis by blast
    qed
  qed
  then have r: "ran ?P = ran P" unfolding ran_def by simp
  have "i = j" if "?P i = Some y" "?P j = Some y" for i j y
  proof -
    have s: "P i = Some y \<and> i \<noteq> k \<or> i = k' \<and> y = x" "P j = Some y \<and> j \<noteq> k \<or> j = k' \<and> y = x" using that by (auto split: if_splits)
    then show ?thesis using once_unique [OF o] m(1) by blast
  qed
  then have "inj_on ?P (dom ?P)" unfolding inj_on_def dom_def by (metis (mono_tags, lifting) mem_Collect_eq not_Some_eq)
  then show ?thesis using o r unfolding once_def by simp
qed

lemma once_dropped:
  assumes o: "once Q D P" and k: "P k = Some x"
  shows "once Q (x # D) (P(k := None))"
proof -
  have "(\<exists>i. (P(k := None)) i = Some y) \<longleftrightarrow> (\<exists>i. P i = Some y) \<and> y \<noteq> x" for y using once_unique [OF o k] k by (metis fun_upd_apply option.distinct(1) option.inject)
  then have r: "ran (P(k := None)) = ran P - {x}" unfolding ran_def by blast
  have x: "x \<in> ran P" using k by (rule ranI)
  have "inj_on (P(k := None)) (dom (P(k := None)))" using o unfolding once_def inj_on_def by (simp add: dom_def)
  moreover have "Q = set (x # D) \<union> ran (P(k := None))" "set (x # D) \<inter> ran (P(k := None)) = {}" using o x unfolding once_def r by auto
  ultimately show ?thesis unfolding once_def by simp
qed

lemma once_new: 
  assumes o: "once Q D P" and n: "x \<notin> Q" "P k = None"
  shows "once (insert x Q) D (P(k := Some x))"
proof -
  have "x \<notin> ran P" using o n unfolding once_def by blast
  then have "P j \<noteq> Some x" "Some x \<noteq> P j" for j by (auto simp: ran_def)
  then have "inj_on (P(k := Some x)) (dom (P(k := Some x)))" using o n unfolding once_def inj_on_def by (simp add: dom_def)
  then show ?thesis using o n by (auto simp: once_def)
qed

text \<open>
  A step of a program moves no item, or one from a frame to a frame, from a frame to the program, or from the
  program to a frame. \<open>v\<close> and \<open>v'\<close> are what the program itself holds before and after.
\<close>

definition moves :: "(addr \<Rightarrow> addr option) \<Rightarrow> (addr \<Rightarrow> addr option) \<Rightarrow> addr option \<Rightarrow> addr option \<Rightarrow> bool" where
  "moves F F' v v' \<longleftrightarrow> F' = F \<and> v' = v \<or>
     (\<exists>a b x. F a = Some x \<and> F b = None \<and> F' = F(a := None, b := Some x) \<and> v' = v) \<or>
     (\<exists>a x. F a = Some x \<and> F' = F(a := None) \<and> v = None \<and> v' = Some x) \<or>
     (\<exists>b x. F b = None \<and> F' = F(b := Some x) \<and> v = Some x \<and> v' = None)"

lemma place_item_upd [simp]:
  "place_item (F(a := v)) G = (place_item F G)(In_Frame a := v)" "place_item F (G(r := v)) = (place_item F G)(With_Call r := v)"
proof -
  have "place_item (F(a := v)) G k = ((place_item F G)(In_Frame a := v)) k" "place_item F (G(r := v)) k = ((place_item F G)(With_Call r := v)) k" for k by (cases k; simp)+
  then show "place_item (F(a := v)) G = (place_item F G)(In_Frame a := v)" "place_item F (G(r := v)) = (place_item F G)(With_Call r := v)" by (simp_all add: fun_eq_iff)
qed

lemma once_moves: "once Q D (place_item F G) \<Longrightarrow> moves F F' (G p) v' \<Longrightarrow> once Q D (place_item F' (G(p := v')))"
  unfolding moves_def
proof (elim disjE exE conjE)
  fix a b x assume o: "once Q D (place_item F G)" and m: "F a = Some x" "F b = None" "F' = F(a := None, b := Some x)" "v' = G p"
  then show ?thesis using once_place [OF o, of "In_Frame a" x "In_Frame b"] by simp
next
  fix a x assume o: "once Q D (place_item F G)" and m: "F a = Some x" "F' = F(a := None)" "G p = None" "v' = Some x"
  then show ?thesis using once_place [OF o, of "In_Frame a" x "With_Call p"] by simp
next
  fix b x assume o: "once Q D (place_item F G)" and m: "F b = None" "F' = F(b := Some x)" "G p = Some x" "v' = None"
  then show ?thesis using once_place [OF o, of "With_Call p" x "In_Frame b"] by (simp add: fun_upd_twist)
qed simp

subsection \<open>What the sections move\<close>

lemma in_frames_upd [simp]: "in_frames (m(p := fo)) = (in_frames m)(p := frame_item fo)"
  by (simp add: in_frames_def fun_eq_iff)

lemma frame_item_Some [simp]: "frame_item (Some f) = fr_slot f" "frame_item None = None"
  by (simp_all add: frame_item_def)

lemma in_frames_at: "m p = Some f \<Longrightarrow> in_frames m p = fr_slot f"
  by (simp add: in_frames_def)

lemma in_frames_same: "m p = Some f \<Longrightarrow> fr_slot g = fr_slot f \<Longrightarrow> in_frames (m(p \<mapsto> g)) = in_frames m"
  using in_frames_at [of m p f] by (auto simp: fun_upd_idem_iff simp del: fun_upd_apply)

text \<open>Which frames are there. No program frees a frame before it has returned.\<close>

definition alive :: "addr memory \<Rightarrow> addr \<Rightarrow> bool" where
  "alive m = (\<lambda>p. m p \<noteq> None)"

lemma alive_upd [simp]: "m p = Some f \<Longrightarrow> alive (m(p \<mapsto> g)) = alive m"
  by (auto simp: alive_def)

lemma take_slot_frames: "take_slot p m = Some (x, m') \<Longrightarrow> in_frames m p = Some x \<and> in_frames m' = (in_frames m)(p := None) \<and> alive m' = alive m"
  by (auto simp: take_slot_def in_frames_at simp del: fun_upd_apply split: Option.bind_splits)

lemma store_state_frames: "store_state p st m = Some m' \<Longrightarrow> in_frames m' = in_frames m \<and> alive m' = alive m"
  by (auto simp: store_state_def in_frames_same simp del: fun_upd_apply in_frames_upd split: Option.bind_splits)

lemma fulfill_receiver_frames: "fulfill_receiver r x m = Some (w, m') \<Longrightarrow> in_frames m' = (in_frames m)(rc_owner r := Some x) \<and> alive m' = alive m"
  by (auto simp: fulfill_receiver_def simp del: fun_upd_apply split: Option.bind_splits dest!: store_state_frames)

lemma fulfill_sender_frames: "fulfill_sender r m = Some (x, w, m') \<Longrightarrow> in_frames m (rc_owner r) = Some x \<and> in_frames m' = (in_frames m)(rc_owner r := None) \<and> alive m' = alive m"
  unfolding fulfill_sender_def by (auto split: Option.bind_splits dest!: store_state_frames take_slot_frames)

lemma disconnect_frames: "disconnect_recs rs m = Some (ws, m') \<Longrightarrow> in_frames m' = in_frames m \<and> alive m' = alive m"
  by (induction rs arbitrary: m ws) (auto split: Option.bind_splits dest!: store_state_frames)

lemma rv_take_frames: "rv_take p s = Some (x, s') \<Longrightarrow> in_frames (rv_mem s) p = Some x \<and> in_frames (rv_mem s') = (in_frames (rv_mem s))(p := None) \<and> alive (rv_mem s') = alive (rv_mem s)"
  by (auto simp: rv_take_def dest!: take_slot_frames)

lemma rv_store_frames: "rv_store p st s = Some s' \<Longrightarrow> in_frames (rv_mem s') = in_frames (rv_mem s) \<and> alive (rv_mem s') = alive (rv_mem s)"
  by (auto simp: rv_store_def dest!: store_state_frames)

lemma cancel_claim_frames: "cancel_claim p s = Some (won, s') \<Longrightarrow> in_frames (rv_mem s') = in_frames (rv_mem s) \<and> alive (rv_mem s') = alive (rv_mem s)"
  by (auto simp: cancel_claim_def split: Option.bind_splits if_splits dest!: rv_store_frames)

lemma recv_section_frames:
  "recv_section R p w s = Some (res, s') \<Longrightarrow> alive (rv_mem s') = alive (rv_mem s) \<and>
    (case res of Recv_Matched wk x \<Rightarrow> (\<exists>a. in_frames (rv_mem s) a = Some x \<and> in_frames (rv_mem s') = (in_frames (rv_mem s))(a := None)) | _ \<Rightarrow> in_frames (rv_mem s') = in_frames (rv_mem s))"
  by (auto simp: recv_section_def split: list.splits if_splits Option.bind_splits dest!: fulfill_sender_frames)

lemmas frames_dests = take_slot_frames store_state_frames rv_take_frames rv_store_frames cancel_claim_frames recv_section_frames

lemma moves_stay [simp, intro]: "moves F F v v"
  by (simp add: moves_def)

lemma moves_take: "F a = Some x \<Longrightarrow> moves F (F(a := None)) None (Some x)"
  unfolding moves_def by blast

lemma moves_hand: "F a = Some x \<Longrightarrow> F b = None \<Longrightarrow> moves F (F(a := None, b := Some x)) v v"
  unfolding moves_def by blast

lemma moves_give: "F b = None \<Longrightarrow> moves F (F(b := Some x)) (Some x) None"
  unfolding moves_def by blast

abbreviation moves_by :: "('r, addr) rv \<Rightarrow> ('r, addr) rv \<Rightarrow> rv_task \<Rightarrow> rv_task \<Rightarrow> bool" where
  "moves_by s s' t t' \<equiv> alive (rv_mem s') = alive (rv_mem s) \<and> moves (in_frames (rv_mem s)) (in_frames (rv_mem s')) (task_item t) (task_item t')"

lemma recv_blocking_moves: "recv_blocking R p pc s = Some (pc', s') \<Longrightarrow> moves_by s s' (Recv_Blocking pc) (Recv_Blocking pc')"
  by (cases pc) (auto simp: rv_wake_def rv_unparked_def moves_take split: Option.bind_splits recv_outcome.splits if_splits sum.splits dest!: frames_dests)

lemma recv_timeout_moves: "recv_timeout R p e pc s = Some (pc', s') \<Longrightarrow> moves_by s s' (Recv_Timeout pc) (Recv_Timeout pc')"
  by (cases pc) (auto simp: rv_wake_def rv_unparked_def cancel_receiver_def moves_take split: Option.bind_splits recv_outcome.splits if_splits sum.splits dest!: frames_dests)

lemma poll_recv_moves: "rv_poll_recv R p pc s = Some (pc', s') \<Longrightarrow> moves_by s s' (Recv_Future pc) (Recv_Future pc')"
  by (cases "(R, p, pc, s)" rule: rv_poll_recv.cases) (auto simp: rv_wake_def cancel_receiver_def moves_take split: Option.bind_splits recv_outcome.splits if_splits sum.splits prod.splits dest!: frames_dests)

lemma try_recv_moves: "rv_try_recv pc s = Some (pc', s') \<Longrightarrow> moves_by s s' (Try_Recv pc) (Try_Recv pc')"
  by (cases pc) (auto simp: rv_wake_def moves_take split: Option.bind_splits list.splits sum.splits dest!: fulfill_sender_frames)

context receiver_queue
begin

lemma popped_empty:
  assumes ok: "core_ok T s" and e: "rs_pop_receiver R (rv_receivers s) = Some (r, rs)"
  shows "in_frames (rv_mem s) (rc_owner r) = None" "rc_owner r \<in> owners (view (rv_receivers s))"
proof -
  obtain q rest where v: "view (rv_receivers s) = q # rest" using pop_empty e by (cases "view (rv_receivers s)") auto
  then have q: "q = r" using pop_oldest [OF v] e by auto
  have "rv_inv T (rv_sender_waiters s) (r # rest) (rv_mem s)" using core_ok_inv [OF ok] v q by simp
  then show "in_frames (rv_mem s) (rc_owner r) = None" by (rule rv_inv_receiver) (simp add: in_frames_at)
  show "rc_owner r \<in> owners (view (rv_receivers s))" using v q by simp
qed

lemma send_section_moves:
  assumes ok: "core_ok T s" and e: "send_section R p w s = Some (res, s')" and p: "p \<notin> owners (view (rv_receivers s))"
  shows "alive (rv_mem s') = alive (rv_mem s) \<and> moves (in_frames (rv_mem s)) (in_frames (rv_mem s')) v v"
proof (cases "\<exists>r rs. rv_receiver_count s \<noteq> 0 \<and> rs_pop_receiver R (rv_receivers s) = Some (r, rs)")
  case True
  then obtain r rs where r: "rv_receiver_count s \<noteq> 0" "rs_pop_receiver R (rv_receivers s) = Some (r, rs)" by blast
  then obtain x m m' where m: "take_slot p (rv_mem s) = Some (x, m)" "fulfill_receiver r x m = Some (rc_wake r, m')" "s' = s\<lparr>rv_receivers := rs, rv_mem := m'\<rparr>"
    using e by (auto simp: send_section_def fulfill_receiver_def split: Option.bind_splits)
  have n: "rc_owner r \<noteq> p" using popped_empty(2) [OF ok r(2)] p by auto
  show ?thesis using take_slot_frames [OF m(1)] fulfill_receiver_frames [OF m(2)] m(3) popped_empty(1) [OF ok r(2)] moves_hand [of "in_frames (rv_mem s)" p x "rc_owner r" v] by simp
next
  case False
  then show ?thesis using e by (auto simp: send_section_def split: if_splits option.splits)
qed

lemma send_blocking_moves:
  assumes ok: "core_ok T s" and t: "T p = Some (Send_Blocking pc)" and e: "send_blocking R p pc s = Some (pc', s')"
  shows "moves_by s s' (Send_Blocking pc) (Send_Blocking pc')"
proof (cases pc)
  case BS_Enter
  then show ?thesis using e core_ok_task [OF ok t] send_section_moves [OF ok, of p "Wake_Thread p" _ _ None] by (auto split: Option.bind_splits)
qed (use e in \<open>auto simp: rv_wake_def rv_unparked_def split: Option.bind_splits\<close>)

lemma poll_send_moves:
  assumes ok: "core_ok T s" and t: "T p = Some (Send_Future pc)" and e: "rv_poll_send R p pc s = Some (pc', s')"
  shows "moves_by s s' (Send_Future pc) (Send_Future pc')"
proof (cases "\<exists>wk. pc = PS_Poll wk False")
  case True
  then show ?thesis using e core_ok_task [OF ok t] send_section_moves [OF ok, of p _ _ _ None]
    by (auto split: Option.bind_splits if_splits send_outcome.splits dest!: rv_store_frames)
next
  case False
  then show ?thesis using e by (cases "(R, p, pc, s)" rule: rv_poll_send.cases) (auto simp: rv_wake_def cancel_sender_def split: Option.bind_splits prod.splits dest!: cancel_claim_frames)
qed

lemma try_send_moves:
  assumes ok: "core_ok T s" and e: "rv_try_send R pc s = Some (pc', s')"
  shows "moves_by s s' (Try_Send pc) (Try_Send pc')"
proof (cases pc)
  case (TS_Enter x)
  then show ?thesis using e popped_empty(1) [OF ok] by (auto simp: moves_give split: if_splits option.splits Option.bind_splits dest!: fulfill_receiver_frames)
qed (use e in \<open>auto simp: rv_wake_def\<close>)

lemma rv_run_moves:
  assumes ok: "core_ok T s" and t: "T p = Some t" and e: "rv_run R p e t s = Some (t', s')"
  shows "moves_by s s' t t'"
proof (cases t)
  case (Waking ws)
  then show ?thesis using e by (cases ws) (auto simp: rv_wake_def)
qed (use t e send_blocking_moves [OF ok] recv_blocking_moves recv_timeout_moves poll_send_moves [OF ok] poll_recv_moves try_send_moves [OF ok] try_recv_moves in \<open>fastforce+\<close>)

end

subsection \<open>Items of a world\<close>

definition sending :: "(addr \<rightharpoonup> rv_task) \<Rightarrow> addr set" where
  "sending T = {q. \<exists>t. T q = Some t \<and> rv_sends t}"

fun refused :: "rv_task \<Rightarrow> bool" where
  "refused (Send_Blocking (BS_Done (Some e))) \<longleftrightarrow> True"
| "refused (Send_Future (PS_Done (Some e))) \<longleftrightarrow> True"
| "refused _ \<longleftrightarrow> False"

fun gave_up :: "rv_task \<Rightarrow> bool" where
  "gave_up (Recv_Timeout (RT_Done (Inl Timeout))) \<longleftrightarrow> True"
| "gave_up (Recv_Future PR_Dropped) \<longleftrightarrow> True"
| "gave_up _ \<longleftrightarrow> False"

text \<open>A dropped item was dropped by its own send, or by a receive that gave up.\<close>

definition drops_ok :: "(addr \<rightharpoonup> rv_task) \<Rightarrow> addr list \<Rightarrow> bool" where
  "drops_ok T D \<longleftrightarrow> (\<forall>q \<in> set D. (\<exists>t. T q = Some t \<and> (refused t \<or> t = Send_Future PS_Dropped)) \<or> (\<exists>r u. T r = Some u \<and> gave_up u))"

definition items_ok :: "(addr \<rightharpoonup> rv_task) \<Rightarrow> addr memory \<Rightarrow> addr list \<Rightarrow> bool" where
  "items_ok T M D \<longleftrightarrow> once (sending T) D (place_item (in_frames M) (with_calls T)) \<and> drops_ok T D \<and>
     (\<forall>p pc x. T p = Some (Try_Send pc) \<longrightarrow> task_item (Try_Send pc) = Some x \<longrightarrow> x = p) \<and>
     (\<forall>p t. T p = Some t \<longrightarrow> refused t \<longrightarrow> \<not> alive M p \<longrightarrow> p \<in> set D)"

lemma refused_returned: "refused t \<or> gave_up t \<or> t = Send_Future PS_Dropped \<Longrightarrow> rv_returned t"
  by (cases t rule: refused.cases; cases t rule: gave_up.cases) auto

lemma with_calls_upd: "with_calls (T(p \<mapsto> t)) = (with_calls T)(p := task_item t)"
  by (simp add: with_calls_def fun_eq_iff)

lemma with_calls_at: "T p = Some t \<Longrightarrow> with_calls T p = task_item t" "T p = None \<Longrightarrow> with_calls T p = None"
  by (simp_all add: with_calls_def)

lemma sending_upd: "T p = Some t \<Longrightarrow> rv_sends t' = rv_sends t \<Longrightarrow> sending (T(p \<mapsto> t')) = sending T"
  by (auto simp: sending_def split: if_splits)

lemma sending_new: "T p = None \<Longrightarrow> sending (T(p \<mapsto> t)) = (if rv_sends t then insert p (sending T) else sending T)"
  by (auto simp: sending_def split: if_splits)

lemma drops_ok_upd: "drops_ok T D \<Longrightarrow> T p = None \<or> (\<exists>t. T p = Some t \<and> \<not> rv_returned t) \<Longrightarrow> drops_ok (T(p \<mapsto> t')) D"
  unfolding drops_ok_def using refused_returned by (simp add: fun_upd_apply) (metis option.distinct(1) option.inject)

text \<open>A step of one program that moves its items.\<close>

lemma items_ok_moves:
  assumes i: "items_ok T M D" and t: "T p = Some t" "\<not> rv_returned t" and k: "rv_sends t' = rv_sends t"
    and m: "alive M' = alive M" "moves (in_frames M) (in_frames M') (task_item t) (task_item t')"
    and r: "refused t' \<Longrightarrow> alive M p" and o: "\<And>pc x. t' = Try_Send pc \<Longrightarrow> task_item t' = Some x \<Longrightarrow> x = p"
  shows "items_ok (T(p \<mapsto> t')) M' D"
proof -
  have "once (sending T) D (place_item (in_frames M') ((with_calls T)(p := task_item t')))"
    using i m(2) t(1) by (intro once_moves) (simp_all add: items_ok_def with_calls_at)
  then have "once (sending (T(p \<mapsto> t'))) D (place_item (in_frames M') (with_calls (T(p \<mapsto> t'))))" using sending_upd [of T p t t', OF t(1) k] by (simp add: with_calls_upd)
  moreover have "drops_ok (T(p \<mapsto> t')) D" using i t by (intro drops_ok_upd) (auto simp: items_ok_def)
  moreover have "\<forall>q u. (T(p \<mapsto> t')) q = Some u \<longrightarrow> refused u \<longrightarrow> \<not> alive M' q \<longrightarrow> q \<in> set D" using i r m(1) by (simp add: items_ok_def)
  moreover have "\<forall>q pc x. (T(p \<mapsto> t')) q = Some (Try_Send pc) \<longrightarrow> task_item (Try_Send pc) = Some x \<longrightarrow> x = q" using i o by (simp add: items_ok_def)
  ultimately show ?thesis unfolding items_ok_def by blast
qed

lemma start_item: "rv_start p t \<Longrightarrow> rv_sends t \<Longrightarrow> frame_item (rv_frame p t) = Some p \<and> task_item t = None \<or> frame_item (rv_frame p t) = None \<and> task_item t = Some p"
  "rv_start p t \<Longrightarrow> \<not> rv_sends t \<Longrightarrow> frame_item (rv_frame p t) = None \<and> task_item t = None"
  "rv_start p t \<Longrightarrow> \<not> rv_returned t"
  by (cases t; auto)+

lemma items_ok_start:
  assumes i: "items_ok T M D" and t: "T p = None" "M p = None" "rv_start p t"
  shows "items_ok (T(p \<mapsto> t)) (M(p := rv_frame p t)) D"
proof -
  let ?P = "place_item (in_frames M) (with_calls T)"
  have z: "in_frames M p = None" "with_calls T p = None" using t by (simp_all add: in_frames_def with_calls_at)
  have o: "once (sending T) D ?P" using i by (simp add: items_ok_def)
  have q: "p \<notin> sending T" using t(1) by (simp add: sending_def)
  have "once (sending (T(p \<mapsto> t))) D (place_item (in_frames (M(p := rv_frame p t))) (with_calls (T(p \<mapsto> t))))"
  proof (cases "rv_sends t")
    case True
    from start_item(1) [OF t(3) True] show ?thesis
    proof
      assume e: "frame_item (rv_frame p t) = Some p \<and> task_item t = None"
      then have "with_calls (T(p \<mapsto> t)) = with_calls T" using z(2) by (simp add: with_calls_upd fun_upd_idem)
      then show ?thesis using e once_new [OF o q, of "In_Frame p"] z(1) True sending_new [of T p t, OF t(1)] by simp
    next
      assume e: "frame_item (rv_frame p t) = None \<and> task_item t = Some p"
      then have "in_frames (M(p := rv_frame p t)) = in_frames M" using z(1) by (simp add: fun_upd_idem)
      then show ?thesis using e once_new [OF o q, of "With_Call p"] z(2) True sending_new [of T p t, OF t(1)] by (simp add: with_calls_upd)
    qed
  next
    case False
    then have e: "frame_item (rv_frame p t) = None" "task_item t = None" using start_item(2) [OF t(3)] by auto
    then have "in_frames (M(p := rv_frame p t)) = in_frames M" "with_calls (T(p \<mapsto> t)) = with_calls T" using z by (simp_all add: with_calls_upd fun_upd_idem)
    then show ?thesis using o False sending_new [of T p t, OF t(1)] by simp
  qed
  moreover have "drops_ok (T(p \<mapsto> t)) D" using i t by (intro drops_ok_upd) (auto simp: items_ok_def)
  moreover have "\<forall>q u. (T(p \<mapsto> t)) q = Some u \<longrightarrow> refused u \<longrightarrow> \<not> alive (M(p := rv_frame p t)) q \<longrightarrow> q \<in> set D"
    using i start_item(3) [OF t(3)] refused_returned [of t] by (auto simp: items_ok_def alive_def)
  moreover have "\<forall>q pc x. (T(p \<mapsto> t)) q = Some (Try_Send pc) \<longrightarrow> task_item (Try_Send pc) = Some x \<longrightarrow> x = q" using i t(3) by (auto simp: items_ok_def)
  ultimately show ?thesis unfolding items_ok_def by blast
qed

lemma items_ok_waking:
  assumes i: "items_ok T M D" and t: "T p = None" and m: "in_frames M' = in_frames M" "alive M' = alive M"
  shows "items_ok (T(p \<mapsto> Waking ws)) M' D"
proof -
  have "with_calls (T(p \<mapsto> Waking ws)) = with_calls T" using t by (simp add: with_calls_upd fun_upd_idem with_calls_at)
  moreover have "drops_ok (T(p \<mapsto> Waking ws)) D" using i t by (intro drops_ok_upd) (auto simp: items_ok_def)
  ultimately show ?thesis using i m sending_new [of T p "Waking ws", OF t] by (simp add: items_ok_def)
qed

lemma returned_item:
  assumes "rv_returned t" "task_ok a b fo p t" "frame_item fo = Some q"
  shows "q = p \<and> (refused t \<or> t = Send_Future PS_Dropped) \<or> gave_up t"
proof (cases t)
  case (Send_Blocking pc)
  then show ?thesis using assms by (cases "(a, fo, p, pc)" rule: bsend_ok.cases) (auto simp: waits_defs)
next
  case (Send_Future pc)
  then show ?thesis using assms by (cases "(a, fo, p, pc)" rule: psend_ok.cases) (auto simp: waits_defs)
next
  case (Recv_Timeout pc)
  then show ?thesis using assms by (cases pc) auto
qed (use assms in \<open>auto split: brecv_pc.splits precv_pc.splits\<close>)

lemma refused_slot: "refused t \<Longrightarrow> task_ok a b fo p t \<Longrightarrow> fo = None \<or> frame_item fo = Some p"
  by (cases t rule: refused.cases) (auto simp: waits_defs)

lemma items_ok_free:
  assumes i: "items_ok T M D" and t: "T p = Some t" "rv_returned t" "task_ok a b (M p) p t"
  shows "items_ok T (M(p := None)) (case frame_item (M p) of None \<Rightarrow> D | Some q \<Rightarrow> q # D)"
proof -
  let ?D = "case frame_item (M p) of None \<Rightarrow> D | Some q \<Rightarrow> q # D"
  have "once (sending T) ?D (place_item (in_frames (M(p := None))) (with_calls T))"
  proof (cases "frame_item (M p)")
    case None
    then have "in_frames M p = None" by (simp add: in_frames_def)
    then have "in_frames (M(p := None)) = in_frames M" by (simp add: fun_upd_idem)
    then show ?thesis using i None by (simp add: items_ok_def)
  next
    case (Some q)
    then have "in_frames M p = Some q" by (simp add: in_frames_def)
    then show ?thesis using i Some once_dropped [of "sending T" D "place_item (in_frames M) (with_calls T)" "In_Frame p" q] by (simp add: items_ok_def)
  qed
  moreover have "drops_ok T ?D" using i returned_item [OF t(2,3)] t(1) by (auto simp: items_ok_def drops_ok_def split: option.splits)
  moreover have "q \<in> set ?D" if q: "T q = Some u" "refused u" "\<not> alive (M(p := None)) q" for q u
  proof (cases "q = p")
    case True
    then have "M p = None \<or> frame_item (M p) = Some p" using refused_slot [of t a b "M p" p] q(1,2) t(1,3) by simp
    then show ?thesis using i q True by (auto simp: items_ok_def alive_def)
  next
    case False
    then have "q \<in> set D" using i q by (simp add: items_ok_def alive_def)
    then show ?thesis by (auto split: option.splits)
  qed
  ultimately show ?thesis using i unfolding items_ok_def by blast
qed

lemma send_frame: "task_ok a b fo p t \<Longrightarrow> \<not> rv_returned t \<Longrightarrow> rv_sends t \<Longrightarrow> fo = None \<Longrightarrow> \<exists>pc. t = Try_Send pc"
proof (cases t)
  case (Send_Blocking pc)
  assume "task_ok a b fo p t" "\<not> rv_returned t" "fo = None"
  then show ?thesis using Send_Blocking by (cases "(a, fo, p, pc)" rule: bsend_ok.cases) (auto simp: waits_defs)
next
  case (Send_Future pc)
  assume "task_ok a b fo p t" "\<not> rv_returned t" "fo = None"
  then show ?thesis using Send_Future by (cases "(a, fo, p, pc)" rule: psend_ok.cases) (auto simp: waits_defs split: if_splits)
qed auto

lemma rv_run_try: "rv_run R p e t s = Some (t', s') \<Longrightarrow> (\<exists>pc. t = Try_Send pc) \<longleftrightarrow> (\<exists>pc. t' = Try_Send pc)"
  by (cases "(R, p, e, t, s)" rule: rv_run.cases) auto

lemma rv_run_try_item: "rv_run R p e (Try_Send pc) s = Some (Try_Send pc', s') \<Longrightarrow> task_item (Try_Send pc') = Some x \<Longrightarrow> task_item (Try_Send pc) = Some x"
  by (cases pc) (auto split: if_splits option.splits Option.bind_splits)

lemma poll_item: "rv_poll wk t = Some t' \<Longrightarrow> task_item t' = task_item t \<and> \<not> rv_returned t' \<and> (\<forall>pc. t' \<noteq> Try_Send pc)"
  by (cases "(wk, t)" rule: rv_poll.cases) auto

lemma drop_item: "rv_drop t = Some t' \<Longrightarrow> task_item t' = task_item t \<and> \<not> refused t' \<and> (\<forall>pc. t' \<noteq> Try_Send pc)"
  by (cases t rule: rv_drop.cases) (auto split: if_splits)

context receiver_queue
begin

lemma drop_sender_frames: "core_ok T s \<Longrightarrow> rv_drop_sender R s = Some (ws, s') \<Longrightarrow> in_frames (rv_mem s') = in_frames (rv_mem s) \<and> alive (rv_mem s') = alive (rv_mem s)"
proof -
  assume ok: "core_ok T s" and e: "rv_drop_sender R s = Some (ws, s')"
  obtain us m' where d: "disconnect_recs (view (rv_receivers s)) (rv_mem s) = Some (us, m')" using rv_inv_disconnect_receivers [OF core_ok_inv [OF ok]] by blast
  show ?thesis using e view_disconnect [OF d] disconnect_frames [OF d] by (auto simp: rv_drop_sender_def Let_def split: if_splits)
qed

lemma drop_receiver_frames: "rv_drop_receiver s = Some (ws, s') \<Longrightarrow> in_frames (rv_mem s') = in_frames (rv_mem s) \<and> alive (rv_mem s') = alive (rv_mem s)"
  by (auto simp: rv_drop_receiver_def Let_def split: if_splits Option.bind_splits dest!: disconnect_frames)

lemma run_items:
  assumes ok: "core_ok T s" and t: "T p = Some t" and e: "rv_run R p e t s = Some (t', s')" and i: "items_ok T (rv_mem s) D"
  shows "items_ok (T(p \<mapsto> t')) (rv_mem s') D"
proof -
  have n: "\<not> rv_returned t" using rv_run_none [of t p e s] e by auto
  have k: "rv_sends t' = rv_sends t" using rv_run_kind [OF e] by simp
  have m: "alive (rv_mem s') = alive (rv_mem s)" "moves (in_frames (rv_mem s)) (in_frames (rv_mem s')) (task_item t) (task_item t')" using rv_run_moves [OF ok t e] by auto
  have r: "alive (rv_mem s) p" if "refused t'"
  proof -
    have "rv_sends t'" "\<nexists>pc. t' = Try_Send pc" using that by (cases t' rule: refused.cases; simp)+
    then show ?thesis using send_frame [OF core_ok_task [OF ok t] n] k rv_run_try [OF e] by (auto simp: alive_def)
  qed
  have o: "x = p" if a: "t' = Try_Send pc" "task_item t' = Some x" for pc x
  proof -
    obtain pc0 where "t = Try_Send pc0" using rv_run_try [OF e] a(1) by blast
    then show ?thesis using rv_run_try_item [of R p e pc0 s pc s' x] e a i t unfolding items_ok_def by metis
  qed
  show ?thesis by (rule items_ok_moves [OF i t n k m r o])
qed

lemma rv_step_items:
  assumes "rv_step R many w w'" "world_ok w" "items_ok (rw_tasks w) (rv_mem (rw_core w)) (rw_dropped w)"
  shows "items_ok (rw_tasks w') (rv_mem (rw_core w')) (rw_dropped w')"
  using assms
proof (induction rule: rv_step.induct)
  case (start w p t)
  then show ?case using items_ok_start [of "rw_tasks w" "rv_mem (rw_core w)" "rw_dropped w" p t] rv_inv_new [OF core_ok_inv, of "rw_tasks w" "rw_core w" p]
    by (simp add: rv_update_def world_ok_def del: fun_upd_apply)
next
  case (run w p t e t' s')
  then show ?case using run_items [of "rw_tasks w" "rw_core w" p t e t' s' "rw_dropped w"] by (simp add: rv_update_def world_ok_def del: fun_upd_apply)
next
  case (poll w p t wk t')
  then show ?case using items_ok_moves [of "rw_tasks w" "rv_mem (rw_core w)" "rw_dropped w" p t t' "rv_mem (rw_core w)"] rv_poll_kind [OF poll.hyps(2)] poll_item [OF poll.hyps(2)] refused_returned [of t']
    by (auto simp: rv_update_def simp del: fun_upd_apply)
next
  case (drop w p t t')
  then show ?case using items_ok_moves [of "rw_tasks w" "rv_mem (rw_core w)" "rw_dropped w" p t t' "rv_mem (rw_core w)"] rv_drop_kind [OF drop.hyps(2)] drop_item [OF drop.hyps(2)]
    by (auto simp: rv_update_def simp del: fun_upd_apply)
next
  case (free w p t)
  then show ?case using items_ok_free [of "rw_tasks w" "rv_mem (rw_core w)" "rw_dropped w" p t] core_ok_task [of "rw_tasks w" "rw_core w" p t] by (simp add: free_frame_def world_ok_def del: fun_upd_apply)
next
  case (close_sender w h p ws s')
  then show ?case using items_ok_waking [of "rw_tasks w" "rv_mem (rw_core w)" "rw_dropped w" p "rv_mem s'" ws] drop_sender_frames [of "rw_tasks w" "rw_core w" ws s'] by (simp add: rv_update_def world_ok_def del: fun_upd_apply)
next
  case (close_receiver w h p ws s')
  then show ?case using items_ok_waking [of "rw_tasks w" "rv_mem (rw_core w)" "rw_dropped w" p "rv_mem s'" ws] drop_receiver_frames [of "rw_core w" ws s'] by (simp add: rv_update_def world_ok_def del: fun_upd_apply)
qed (simp_all add: rv_add_sender_def rv_add_receiver_def)

lemma rv_reach_items: "rv_reach R many w \<Longrightarrow> items_ok (rw_tasks w) (rv_mem (rw_core w)) (rw_dropped w)"
proof (induction rule: rv_reach.induct)
  case reach_new
  have "place_item (in_frames Map.empty) (with_calls Map.empty) k = None" for k by (cases k) (simp_all add: in_frames_def with_calls_def)
  then have "once {} [] (place_item (in_frames Map.empty) (with_calls Map.empty))" by (auto simp: once_def ran_def inj_on_def)
  then show ?case by (simp add: rv_channel_def rv_new_def items_ok_def sending_def drops_ok_def)
next
  case (reach_step w w')
  then show ?case using rv_step_items rv_reach_ok by blast
qed

end

subsection \<open>Who has an item\<close>

lemma send_owner:
  assumes "task_ok a b fo p t" "frame_item fo = Some q" "rv_sends t"
  shows "q = p \<and> t \<noteq> Send_Blocking (BS_Done None) \<and> t \<noteq> Send_Future (PS_Done None) \<and> (\<forall>pc. t \<noteq> Try_Send pc)"
proof (cases t)
  case (Send_Blocking pc)
  then show ?thesis using assms by (cases "(a, fo, p, pc)" rule: bsend_ok.cases) (auto simp: waits_defs split: if_splits)
next
  case (Send_Future pc)
  then show ?thesis using assms by (cases "(a, fo, p, pc)" rule: psend_ok.cases) (auto simp: waits_defs split: if_splits)
qed (use assms in auto)

lemma frame_owner: "task_ok a b fo p t \<Longrightarrow> frame_item fo = Some q \<Longrightarrow> rv_sends t \<or> rv_awaits t \<and> (rv_returned t \<longrightarrow> gave_up t)"
  using returned_item [of t a b fo p q] refused_returned by (cases t) (auto elim: refused.elims)

fun succeeded :: "rv_task \<Rightarrow> bool" where
  "succeeded (Send_Blocking (BS_Done None)) \<longleftrightarrow> True"
| "succeeded (Send_Future (PS_Done None)) \<longleftrightarrow> True"
| "succeeded (Try_Send (TS_Done None)) \<longleftrightarrow> True"
| "succeeded _ \<longleftrightarrow> False"

fun received :: "rv_task \<Rightarrow> addr option" where
  "received (Recv_Blocking pc) = (case pc of BR_Done (Inr x) \<Rightarrow> Some x | _ \<Rightarrow> None)"
| "received (Recv_Timeout pc) = (case pc of RT_Done (Inr x) \<Rightarrow> Some x | _ \<Rightarrow> None)"
| "received (Recv_Future pc) = (case pc of PR_Done (Inr x) \<Rightarrow> Some x | _ \<Rightarrow> None)"
| "received (Try_Recv pc) = (case pc of TR_Done (Inr x) \<Rightarrow> Some x | _ \<Rightarrow> None)"
| "received _ = None"

lemma received_item: "received t = Some q \<Longrightarrow> task_item t = Some q \<and> \<not> rv_sends t"
  by (cases t) (auto split: brecv_pc.splits rtimeout_pc.splits precv_pc.splits tryrecv_pc.splits sum.splits)

context receiver_queue
begin

text \<open>Received items were sent, are received once, and their send did not fail.\<close>

lemma received_once:
  assumes "rv_reach R many w" "rw_tasks w r = Some u" "received u = Some q"
  shows "\<exists>t. rw_tasks w q = Some t \<and> rv_sends t \<and> \<not> refused t \<and> (\<forall>err. t \<noteq> Try_Send (TS_Done (Some err)))"
    and "rw_tasks w r' = Some u' \<Longrightarrow> received u' = Some q \<Longrightarrow> r' = r"
proof -
  let ?P = "place_item (in_frames (rv_mem (rw_core w))) (with_calls (rw_tasks w))"
  have ok: "core_ok (rw_tasks w) (rw_core w)" using rv_reach_ok [OF assms(1)] by (simp add: world_ok_def)
  have i: "items_ok (rw_tasks w) (rv_mem (rw_core w)) (rw_dropped w)" by (rule rv_reach_items [OF assms(1)])
  then have o: "once (sending (rw_tasks w)) (rw_dropped w) ?P" by (simp add: items_ok_def)
  have at: "?P (With_Call r) = Some q" using received_item [OF assms(3)] assms(2) by (simp add: with_calls_at)
  then have q: "q \<in> sending (rw_tasks w)" "q \<notin> set (rw_dropped w)" using o ranI [of ?P, OF at] unfolding once_def by blast+
  then obtain t where t: "rw_tasks w q = Some t" "rv_sends t" by (auto simp: sending_def)
  have f: "in_frames (rv_mem (rw_core w)) q \<noteq> Some q" using once_unique [OF o at, of "In_Frame q"] by auto
  have "\<not> refused t"
  proof
    assume "refused t"
    then have "rv_mem (rw_core w) q = None \<or> in_frames (rv_mem (rw_core w)) q = Some q" using refused_slot [OF _ core_ok_task [OF ok t(1)]] by (simp add: in_frames_def)
    then have "\<not> alive (rv_mem (rw_core w)) q" using f by (simp add: alive_def)
    then show False using i t(1) \<open>refused t\<close> q(2) by (simp add: items_ok_def)
  qed
  moreover have "t \<noteq> Try_Send (TS_Done (Some err))" for err
  proof
    assume e: "t = Try_Send (TS_Done (Some err))"
    then have "into_inner err = q" using i t(1) by (simp add: items_ok_def)
    then have "?P (With_Call q) = Some q" using e t(1) by (simp add: with_calls_at)
    then have "q = r" using once_unique [OF o at, of "With_Call q"] by simp
    then show False using received_item [OF assms(3)] assms(2) t by simp
  qed
  ultimately show "\<exists>t. rw_tasks w q = Some t \<and> rv_sends t \<and> \<not> refused t \<and> (\<forall>err. t \<noteq> Try_Send (TS_Done (Some err)))" using t by blast
  show "r' = r" if "rw_tasks w r' = Some u'" "received u' = Some q"
    using once_unique [OF o at, of "With_Call r'"] received_item [OF that(2)] that(1) by (simp add: with_calls_at)
qed

text \<open>The item of a successful send is with a receive, or a receive has given up.\<close>

lemma succeeded_delivered:
  assumes "rv_reach R many w" "rw_tasks w q = Some t" "succeeded t"
  shows "(\<exists>r u. rw_tasks w r = Some u \<and> (task_item u = Some q \<and> \<not> rv_sends u \<or> rv_awaits u \<and> frame_item (rv_mem (rw_core w) r) = Some q \<and> (rv_returned u \<longrightarrow> gave_up u))) \<or>
    q \<in> set (rw_dropped w) \<and> (\<exists>r u. rw_tasks w r = Some u \<and> gave_up u)"
proof -
  let ?F = "in_frames (rv_mem (rw_core w))" and ?G = "with_calls (rw_tasks w)"
  have ok: "core_ok (rw_tasks w) (rw_core w)" using rv_reach_ok [OF assms(1)] by (simp add: world_ok_def)
  have i: "items_ok (rw_tasks w) (rv_mem (rw_core w)) (rw_dropped w)" by (rule rv_reach_items [OF assms(1)])
  have s: "rv_sends t" "\<not> refused t" "t \<noteq> Send_Future PS_Dropped" "task_item t = None" using assms(3) by (cases t rule: succeeded.cases; simp)+
  have "q \<in> set (rw_dropped w) \<or> q \<in> ran (place_item ?F ?G)" using i assms(2) s(1) by (auto simp: items_ok_def once_def sending_def)
  then consider "q \<in> set (rw_dropped w)" | a where "?F a = Some q" | r where "?G r = Some q" unfolding ran_def by clarsimp (metis place.exhaust place_item.simps)
  then show ?thesis
  proof cases
    case 1
    then show ?thesis using i s(2,3) assms(2) by (auto simp: items_ok_def drops_ok_def)
  next
    case (2 a)
    then have m: "frame_item (rv_mem (rw_core w) a) = Some q" by (simp add: in_frames_def)
    obtain u where u: "rw_tasks w a = Some u" using rv_inv_new [OF core_ok_inv [OF ok], of a] m by (cases "rw_tasks w a") auto
    note k = core_ok_task [OF ok u]
    have "\<not> rv_sends u"
    proof
      assume "rv_sends u"
      from send_owner [OF k m this] have "a = q" "\<not> succeeded u" by (auto elim: succeeded.elims)
      then show False using u assms(2,3) by simp
    qed
    then show ?thesis using frame_owner [OF k m] u m by blast
  next
    case (3 r)
    then obtain u where u: "rw_tasks w r = Some u" "task_item u = Some q" by (auto simp: with_calls_def split: Option.bind_splits)
    have "\<not> rv_sends u"
    proof
      assume "rv_sends u"
      then obtain pc where "u = Try_Send pc" using u(2) by (cases u) auto
      then have "r = q" using i u unfolding items_ok_def by metis
      then show False using u s(4) assms(2) by simp
    qed
    then show ?thesis using u by blast
  qed
qed

lemma one_place:
  assumes "rv_reach R many w" "rw_tasks w q = Some t" "rv_sends t"
  shows "if q \<in> set (rw_dropped w) then \<forall>k. place_item (in_frames (rv_mem (rw_core w))) (with_calls (rw_tasks w)) k \<noteq> Some q
    else \<exists>!k. place_item (in_frames (rv_mem (rw_core w))) (with_calls (rw_tasks w)) k = Some q"
proof -
  let ?P = "place_item (in_frames (rv_mem (rw_core w))) (with_calls (rw_tasks w))"
  have o: "once (sending (rw_tasks w)) (rw_dropped w) ?P" using rv_reach_items [OF assms(1)] by (simp add: items_ok_def)
  have "q \<in> sending (rw_tasks w)" using assms(2,3) by (simp add: sending_def)
  then have "q \<in> set (rw_dropped w) \<and> q \<notin> ran ?P \<or> q \<notin> set (rw_dropped w) \<and> q \<in> ran ?P" using o unfolding once_def by blast
  then show ?thesis using once_unique [OF o] unfolding ran_def by auto
qed

end

subsection \<open>Delivery\<close>

definition delivers_once :: "'r rv_world \<Rightarrow> bool" where
  "delivers_once w \<longleftrightarrow>
     (\<forall>q t. rw_tasks w q = Some t \<and> rv_sends t \<longrightarrow>
        (if q \<in> set (rw_dropped w) then \<forall>k. place_item (in_frames (rv_mem (rw_core w))) (with_calls (rw_tasks w)) k \<noteq> Some q
         else \<exists>!k. place_item (in_frames (rv_mem (rw_core w))) (with_calls (rw_tasks w)) k = Some q)) \<and>
     (\<forall>r u q. rw_tasks w r = Some u \<and> received u = Some q \<longrightarrow>
        (\<exists>t. rw_tasks w q = Some t \<and> rv_sends t \<and> \<not> refused t \<and> (\<forall>err. t \<noteq> Try_Send (TS_Done (Some err)))) \<and>
        (\<forall>r' u'. rw_tasks w r' = Some u' \<and> received u' = Some q \<longrightarrow> r' = r)) \<and>
     (\<forall>q t. rw_tasks w q = Some t \<and> succeeded t \<longrightarrow>
        (\<exists>r u. rw_tasks w r = Some u \<and> (task_item u = Some q \<and> \<not> rv_sends u \<or> rv_awaits u \<and> frame_item (rv_mem (rw_core w) r) = Some q \<and> (rv_returned u \<longrightarrow> gave_up u))) \<or>
        q \<in> set (rw_dropped w) \<and> (\<exists>r u. rw_tasks w r = Some u \<and> gave_up u))"

context receiver_queue
begin

lemma rv_reach_delivers:
  assumes "rv_reach R many w"
  shows "delivers_once w"
  unfolding delivers_once_def
proof (intro conjI allI impI; elim conjE)
  fix q t assume "rw_tasks w q = Some t" "rv_sends t"
  then show "if q \<in> set (rw_dropped w) then \<forall>k. place_item (in_frames (rv_mem (rw_core w))) (with_calls (rw_tasks w)) k \<noteq> Some q
    else \<exists>!k. place_item (in_frames (rv_mem (rw_core w))) (with_calls (rw_tasks w)) k = Some q" by (rule one_place [OF assms])
next
  fix r u q assume u: "rw_tasks w r = Some u" "received u = Some q"
  show "\<exists>t. rw_tasks w q = Some t \<and> rv_sends t \<and> \<not> refused t \<and> (\<forall>err. t \<noteq> Try_Send (TS_Done (Some err)))" by (rule received_once(1) [OF assms u])
  fix r' u' assume "rw_tasks w r' = Some u'" "received u' = Some q"
  then show "r' = r" by (rule received_once(2) [OF assms u])
qed (rule succeeded_delivered [OF assms])

end

text \<open>
  Items are delivered once (C18). In every reachable state of both channels each sent item is in exactly
  one place, a frame, a call, or dropped; an item is received at most once, and never when its send
  returned an error; and the item of a send that returned \<^verbatim>\<open>Ok\<close> is with a receive, received or in its slot, unless a
  receive gave up by timeout or by dropping its future.
\<close>

theorem rv_delivers_once:
  assumes "mpmc_rendezvous w" "mpsc_rendezvous v"
  shows "delivers_once w \<and> delivers_once v"
  using dq.rv_reach_delivers [OF assms(1)] sl.rv_reach_delivers [OF assms(2)] by blast

theorem rv_delivers_once_witness:
  "\<exists>w v. rv_demo deque_store True (demo_pair @ [Run 0 False, Run 1 False]) = Some w \<and> rv_demo slot_store False (demo_pair @ [Run 0 False, Run 1 False]) = Some v \<and>
     map_option received (rw_tasks w 0) = Some (Some 1) \<and> map_option succeeded (rw_tasks w 1) = Some True \<and> delivers_once w \<and> delivers_once v"
proof -
  obtain w where w: "rv_demo deque_store True (demo_pair @ [Run 0 False, Run 1 False]) = Some w" "map_option received (rw_tasks w 0) = Some (Some 1)" "map_option succeeded (rw_tasks w 1) = Some True"
    by (simp add: rv_eval demo_pair_def)
  obtain v where v: "rv_demo slot_store False (demo_pair @ [Run 0 False, Run 1 False]) = Some v" by (simp add: rv_eval demo_pair_def)
  show ?thesis using rv_delivers_once [OF rv_demo_reach [OF w(1)] rv_demo_reach [OF v]] w v by blast
qed

end
