(* ===== verification/Rendezvous_Wake.thy ===== *)
theory Rendezvous_Wake
  imports Rendezvous_Delivery
begin

section \<open>Nobody sleeps through a rendezvous\<close>

text \<open>
  Wake-ups happen after the lock is released. A waiting program whose record is gone from the queue
  was woken through its own handle, or some program is about to wake it. Together with the counts of
  handles this shows that whoever sleeps is queued on a connected channel on which no peer waits, or has a
  wake-up coming.
\<close>

subsection \<open>Wake-ups\<close>

text \<open>\<open>sleeps\<close>: the handle through which a program is woken that sleeps, or is about to without another look at its state. \<open>parks\<close>: the handle in the record of a parked program, unless a poll is changing it.\<close>

fun sleeps :: "addr \<Rightarrow> rv_task \<Rightarrow> wake_handle option" where
  "sleeps p (Send_Blocking pc) = (if pc = BS_Sleep then Some (Wake_Thread p) else None)"
| "sleeps p (Recv_Blocking pc) = (if pc = BR_Sleep then Some (Wake_Thread p) else None)"
| "sleeps p (Recv_Timeout pc) = (if pc \<in> {RT_Clock, RT_Sleep} then Some (Wake_Thread p) else None)"
| "sleeps p (Send_Future pc) = (case pc of PS_Idle reg \<Rightarrow> map_option Wake_Waker reg | _ \<Rightarrow> None)"
| "sleeps p (Recv_Future pc) = (case pc of PR_Idle reg \<Rightarrow> map_option Wake_Waker reg | _ \<Rightarrow> None)"
| "sleeps p _ = None"

fun parks :: "addr \<Rightarrow> rv_task \<Rightarrow> wake_handle option" where
  "parks p (Send_Blocking pc) = (if pc \<in> {BS_Check, BS_Sleep} then Some (Wake_Thread p) else None)"
| "parks p (Recv_Blocking pc) = (if pc \<in> {BR_Check, BR_Sleep} then Some (Wake_Thread p) else None)"
| "parks p (Recv_Timeout pc) = (if pc \<in> {RT_Check, RT_Clock, RT_Sleep} then Some (Wake_Thread p) else None)"
| "parks p t = sleeps p t"

fun pending :: "rv_task \<Rightarrow> wake_handle list" where
  "pending (Send_Blocking pc) = (case pc of BS_Wake w \<Rightarrow> [w] | _ \<Rightarrow> [])"
| "pending (Recv_Blocking pc) = (case pc of BR_Wake w x \<Rightarrow> [w] | _ \<Rightarrow> [])"
| "pending (Recv_Timeout pc) = (case pc of RT_Wake w x \<Rightarrow> [w] | _ \<Rightarrow> [])"
| "pending (Send_Future pc) = (case pc of PS_Wake w \<Rightarrow> [w] | _ \<Rightarrow> [])"
| "pending (Recv_Future pc) = (case pc of PR_Wake w x \<Rightarrow> [w] | _ \<Rightarrow> [])"
| "pending (Try_Send pc) = (case pc of TS_Wake w \<Rightarrow> [w] | _ \<Rightarrow> [])"
| "pending (Try_Recv pc) = (case pc of TR_Wake w x \<Rightarrow> [w] | _ \<Rightarrow> [])"
| "pending (Waking ws) = ws"

definition coming :: "(addr \<rightharpoonup> rv_task) \<Rightarrow> wake_handle list \<Rightarrow> wake_handle \<Rightarrow> bool" where
  "coming T W h \<longleftrightarrow> h \<in> set W \<or> (\<exists>q u. T q = Some u \<and> h \<in> set (pending u))"

definition wakes_ok :: "(addr \<rightharpoonup> rv_task) \<Rightarrow> rv_rec list \<Rightarrow> rv_rec list \<Rightarrow> wake_handle list \<Rightarrow> bool" where
  "wakes_ok T S V W \<longleftrightarrow> (\<forall>r \<in> set S \<union> set V. \<forall>t h. T (rc_owner r) = Some t \<longrightarrow> parks (rc_owner r) t = Some h \<longrightarrow> rc_wake r = h) \<and>
     (\<forall>p t h. T p = Some t \<longrightarrow> sleeps p t = Some h \<longrightarrow> p \<in> owners S \<or> p \<in> owners V \<or> coming T W h)"

lemma sleeps_parks: "sleeps p t = Some h \<Longrightarrow> parks p t = Some h"
  by (cases t) (auto split: if_splits)

lemma sleeps_thread: "sleeps q u = Some (Wake_Thread p) \<Longrightarrow> p = q"
  by (cases u) (auto split: if_splits psend_pc.splits precv_pc.splits)

lemma coming_upd: "coming T W h \<Longrightarrow> T p = Some t \<Longrightarrow> h \<in> set W \<union> set (pending t) \<longrightarrow> h \<in> set W' \<union> set (pending t') \<Longrightarrow> coming (T(p \<mapsto> t')) W' h"
  unfolding coming_def by (metis Un_iff fun_upd_apply option.inject)

lemma wakes_ok_pc:
  assumes w: "wakes_ok T S V W" and t: "T p = Some t"
    and a: "\<And>h. parks p t' = Some h \<Longrightarrow> parks p t = Some h \<or> p \<notin> owners S \<and> p \<notin> owners V"
    and b: "\<And>h. sleeps p t' = Some h \<Longrightarrow> p \<in> owners S \<or> p \<in> owners V \<or> sleeps p t = Some h \<and> set W \<union> set (pending t) \<subseteq> set W' \<union> set (pending t')"
    and c: "set W \<union> set (pending t) \<subseteq> insert (Wake_Thread p) (set W' \<union> set (pending t'))"
  shows "wakes_ok (T(p \<mapsto> t')) S V W'"
  unfolding wakes_ok_def
proof (intro conjI ballI allI impI)
  fix r u h assume r: "r \<in> set S \<union> set V" and u: "(T(p \<mapsto> t')) (rc_owner r) = Some u" and h: "parks (rc_owner r) u = Some h"
  have o: "rc_owner r \<in> owners S \<or> rc_owner r \<in> owners V" using r by (auto simp: owners_def)
  show "rc_wake r = h"
  proof (cases "rc_owner r = p")
    case True
    then have "parks p t = Some h" using a [of h] u h o by auto
    then show ?thesis using w r t True unfolding wakes_ok_def by blast
  next
    case False
    then show ?thesis using w r u h unfolding wakes_ok_def by simp
  qed
next
  fix q u h assume u: "(T(p \<mapsto> t')) q = Some u" and h: "sleeps q u = Some h"
  show "q \<in> owners S \<or> q \<in> owners V \<or> coming (T(p \<mapsto> t')) W' h"
  proof (cases "q = p")
    case True
    moreover have "coming (T(p \<mapsto> t')) W' h" if "coming T W h" "set W \<union> set (pending t) \<subseteq> set W' \<union> set (pending t')" using coming_upd [OF that(1) t, of W' t'] that(2) by blast
    moreover have "p \<in> owners S \<or> p \<in> owners V \<or> coming T W h" if "sleeps p t = Some h" using w t that unfolding wakes_ok_def by blast
    ultimately show ?thesis using b [of h] u h by auto
  next
    case False
    then have "h \<noteq> Wake_Thread p" using sleeps_thread h by blast
    then have "h \<in> set W \<union> set (pending t) \<longrightarrow> h \<in> set W' \<union> set (pending t')" using c by blast
    moreover have "q \<in> owners S \<or> q \<in> owners V \<or> coming T W h" using w u h False unfolding wakes_ok_def by simp
    ultimately show ?thesis using coming_upd [of T W h p t W' t'] t by blast
  qed
qed

lemma wakes_ok_leave_sender: "wakes_ok T (r # S) V W \<Longrightarrow> coming T W (rc_wake r) \<Longrightarrow> wakes_ok T S V W"
  unfolding wakes_ok_def by (simp add: owners_def) (metis sleeps_parks)

lemma wakes_ok_leave_receiver: "wakes_ok T S (r # V) W \<Longrightarrow> coming T W (rc_wake r) \<Longrightarrow> wakes_ok T S V W"
  unfolding wakes_ok_def by (simp add: owners_def) (metis sleeps_parks)

text \<open>The own record of a program is queued, refreshed or removed, the others stay.\<close>

lemma wakes_ok_own:
  assumes w: "wakes_ok T S V W" and t: "T p = Some t" "pending t = []"
    and r: "\<And>r. r \<in> set S' \<union> set V' \<Longrightarrow> if rc_owner r = p then \<forall>h. parks p t' = Some h \<longrightarrow> rc_wake r = h else r \<in> set S \<union> set V"
    and o: "\<And>q. q \<noteq> p \<Longrightarrow> q \<in> owners S \<or> q \<in> owners V \<Longrightarrow> q \<in> owners S' \<or> q \<in> owners V'"
    and b: "\<And>h. sleeps p t' = Some h \<Longrightarrow> p \<in> owners S' \<or> p \<in> owners V'"
  shows "wakes_ok (T(p \<mapsto> t')) S' V' W"
  unfolding wakes_ok_def
proof (intro conjI ballI allI impI)
  fix q u h assume q: "q \<in> set S' \<union> set V'" and u: "(T(p \<mapsto> t')) (rc_owner q) = Some u" and h: "parks (rc_owner q) u = Some h"
  show "rc_wake q = h"
  proof (cases "rc_owner q = p")
    case True
    then show ?thesis using r [OF q] u h by simp
  next
    case False
    then have "q \<in> set S \<union> set V" "T (rc_owner q) = Some u" using r [OF q] u by simp_all
    then show ?thesis using w h unfolding wakes_ok_def by blast
  qed
next
  fix q u h assume u: "(T(p \<mapsto> t')) q = Some u" and h: "sleeps q u = Some h"
  show "q \<in> owners S' \<or> q \<in> owners V' \<or> coming (T(p \<mapsto> t')) W h"
  proof (cases "q = p")
    case True
    then show ?thesis using b [of h] u h by auto
  next
    case False
    then have "q \<in> owners S \<or> q \<in> owners V \<or> coming T W h" using w u h unfolding wakes_ok_def by simp
    then show ?thesis using o [OF False] coming_upd [of T W h p t W t'] t by auto
  qed
qed

lemma set_remove: "one_each rs \<Longrightarrow> r \<in> set (remove_rec p rs) \<longleftrightarrow> r \<in> set rs \<and> rc_owner r \<noteq> p"
  by (induction rs) (auto simp: owners_def)

lemma owner_in: "r \<in> set rs \<Longrightarrow> rc_owner r \<in> owners rs"
  by (simp add: owners_def)

lemma set_refresh: "refresh_rec p w rs = (found, rs') \<Longrightarrow> one_each rs \<Longrightarrow> r \<in> set rs' \<Longrightarrow> if rc_owner r = p then rc_wake r = w else r \<in> set rs"
proof (induction rs arbitrary: found rs')
  case (Cons a rs)
  show ?case
  proof (cases "rc_owner a = p")
    case True
    then have "r = a\<lparr>rc_wake := w\<rparr> \<or> r \<in> set rs" using Cons.prems by auto
    then show ?thesis using True Cons.prems(2) owner_in [of r rs] by auto
  next
    case False
    obtain f us where e: "refresh_rec p w rs = (f, us)" by (cases "refresh_rec p w rs")
    then have "r = a \<or> r \<in> set us" using Cons.prems False by (auto simp: map_prod_def)
    then show ?thesis using Cons.IH [OF e] Cons.prems(2) False by (auto split: if_splits)
  qed
qed simp

text \<open>All records of a queue are taken out, and a new program wakes them.\<close>

lemma wakes_ok_waking:
  assumes w: "wakes_ok T S V W" and p: "T p = None" and s: "set S' \<union> set V' \<subseteq> set S \<union> set V" and l: "\<And>r. r \<in> set S \<union> set V \<Longrightarrow> r \<in> set S' \<union> set V' \<or> rc_wake r \<in> set ws"
  shows "wakes_ok (T(p \<mapsto> Waking ws)) S' V' W"
  unfolding wakes_ok_def
proof (intro conjI ballI allI impI)
  fix q u h assume q: "q \<in> set S' \<union> set V'" and u: "(T(p \<mapsto> Waking ws)) (rc_owner q) = Some u" and h: "parks (rc_owner q) u = Some h"
  have "u = Waking ws \<or> T (rc_owner q) = Some u" using u by (auto split: if_splits)
  then show "rc_wake q = h" using w h q s unfolding wakes_ok_def by auto
next
  fix q u h assume u: "(T(p \<mapsto> Waking ws)) q = Some u" and h: "sleeps q u = Some h"
  then have t: "T q = Some u" by (auto split: if_splits)
  have c: "coming (T(p \<mapsto> Waking ws)) W h" if "coming T W h \<or> h \<in> set ws"
  proof (cases "\<exists>a v. T a = Some v \<and> h \<in> set (pending v)")
    case True
    then obtain a v where "T a = Some v" "h \<in> set (pending v)" by blast
    moreover from this have "(T(p \<mapsto> Waking ws)) a = Some v" using p by auto
    ultimately show ?thesis unfolding coming_def by blast
  next
    case False
    then have "h \<in> set W \<or> h \<in> set ws" using that unfolding coming_def by blast
    moreover have "(T(p \<mapsto> Waking ws)) p = Some (Waking ws)" by simp
    ultimately show ?thesis unfolding coming_def by (metis pending.simps(8))
  qed
  consider "coming T W h" | r where "r \<in> set S \<union> set V" "rc_owner r = q" using w t h unfolding wakes_ok_def owners_def by blast
  then show "q \<in> owners S' \<or> q \<in> owners V' \<or> coming (T(p \<mapsto> Waking ws)) W h"
  proof cases
    case 1
    then show ?thesis using c by blast
  next
    case (2 r)
    then have "rc_wake r = h" using w t sleeps_parks [OF h] unfolding wakes_ok_def by blast
    then show ?thesis using l [OF 2(1)] 2(2) c unfolding owners_def by blast
  qed
qed

lemma disconnect_wakes: "disconnect_recs rs m = Some (ws, m') \<Longrightarrow> ws = map rc_wake rs"
  by (induction rs arbitrary: m ws) (auto split: Option.bind_splits)

lemma wakes_ok_start: "wakes_ok T S V W \<Longrightarrow> T p = None \<Longrightarrow> p \<notin> owners S \<and> p \<notin> owners V \<Longrightarrow> sleeps p t = None \<Longrightarrow> wakes_ok (T(p \<mapsto> t)) S V W"
  unfolding wakes_ok_def coming_def owners_def by (auto split: if_splits) (metis option.distinct(1))+

subsection \<open>What the sections do to the queues\<close>

context receiver_queue
begin

definition wk :: "(addr \<rightharpoonup> rv_task) \<Rightarrow> ('r, addr) rv \<Rightarrow> bool" where
  "wk T s \<longleftrightarrow> wakes_ok T (rv_sender_waiters s) (view (rv_receivers s)) (rv_woken s)"

lemma send_section_queues:
  assumes "send_section R p w s = Some (res, s')"
  obtains (closed) "res = Send_Closed" "s' = s"
  | (matched) r where "res = Send_Matched (rc_wake r)" "view (rv_receivers s) = r # view (rv_receivers s')" "rv_sender_waiters s' = rv_sender_waiters s" "rv_woken s' = rv_woken s"
  | (parked) "res = Send_Parked" "rv_sender_waiters s' = rv_sender_waiters s @ [\<lparr>rc_owner = p, rc_wake = w\<rparr>]" "rv_receivers s' = rv_receivers s" "rv_woken s' = rv_woken s"
proof (cases "rv_receiver_count s = 0")
  case True
  then show ?thesis using assms by (intro closed) (auto simp: send_section_def)
next
  case False
  show ?thesis
  proof (cases "view (rv_receivers s)")
    case Nil
    then show ?thesis using assms False pop_empty [OF Nil] by (intro parked) (auto simp: send_section_def)
  next
    case (Cons r rest)
    obtain rs' where "rs_pop_receiver R (rv_receivers s) = Some (r, rs')" "view rs' = rest" using pop_oldest [OF Cons] by blast
    then show ?thesis using assms False Cons by (intro matched [of r]) (auto simp: send_section_def fulfill_receiver_def split: Option.bind_splits)
  qed
qed

lemma recv_section_queues:
  assumes "recv_section R p w s = Some (res, s')" and room: "many \<or> view (rv_receivers s) = []"
  obtains (closed) "res = Recv_Closed" "s' = s"
  | (matched) r x where "res = Recv_Matched (rc_wake r) x" "rv_sender_waiters s = r # rv_sender_waiters s'" "rv_receivers s' = rv_receivers s" "rv_woken s' = rv_woken s"
  | (parked) "res = Recv_Parked" "rv_sender_waiters s' = rv_sender_waiters s" "view (rv_receivers s') = view (rv_receivers s) @ [\<lparr>rc_owner = p, rc_wake = w\<rparr>]" "rv_woken s' = rv_woken s"
proof (cases "rv_sender_waiters s")
  case Nil
  then show ?thesis using assms view_push [OF room] closed parked by (auto simp: recv_section_def split: if_splits)
next
  case (Cons r rest)
  then show ?thesis using assms matched [of r] by (auto simp: recv_section_def fulfill_sender_def split: Option.bind_splits)
qed

text \<open>A program that does not touch the queues.\<close>

lemma wk_pc:
  assumes "wk T s" "T p = Some t" "rv_sender_waiters s' = rv_sender_waiters s" "rv_receivers s' = rv_receivers s"
    and "\<And>h. parks p t' = Some h \<Longrightarrow> parks p t = Some h \<or> p \<notin> owners (rv_sender_waiters s) \<and> p \<notin> owners (view (rv_receivers s))"
    and "\<And>h. sleeps p t' = Some h \<Longrightarrow> p \<in> owners (rv_sender_waiters s) \<or> p \<in> owners (view (rv_receivers s)) \<or> sleeps p t = Some h \<and> set (rv_woken s) \<union> set (pending t) \<subseteq> set (rv_woken s') \<union> set (pending t')"
    and "set (rv_woken s) \<union> set (pending t) \<subseteq> insert (Wake_Thread p) (set (rv_woken s') \<union> set (pending t'))"
  shows "wk (T(p \<mapsto> t')) s'"
  using wakes_ok_pc [of T "rv_sender_waiters s" "view (rv_receivers s)" "rv_woken s" p t t' "rv_woken s'"] assms unfolding wk_def by simp

lemma wk_match_sender:
  assumes w: "wk T s" "T p = Some t" and q: "rv_sender_waiters s = r # rv_sender_waiters s'" "view (rv_receivers s') = view (rv_receivers s)" "rv_woken s' = rv_woken s"
    and t: "parks p t' = None" "sleeps p t' = None" "pending t = []" "pending t' = [rc_wake r]"
  shows "wk (T(p \<mapsto> t')) s'"
proof -
  have "wakes_ok (T(p \<mapsto> t')) (rv_sender_waiters s) (view (rv_receivers s)) (rv_woken s)" using w t unfolding wk_def by (intro wakes_ok_pc [of T _ _ _ p t]) auto
  moreover have "coming (T(p \<mapsto> t')) (rv_woken s) (rc_wake r)" unfolding coming_def using t(4) by (metis fun_upd_same list.set_intros(1))
  ultimately show ?thesis using wakes_ok_leave_sender q unfolding wk_def by metis
qed

lemma wk_match_receiver:
  assumes w: "wk T s" "T p = Some t" and q: "view (rv_receivers s) = r # view (rv_receivers s')" "rv_sender_waiters s' = rv_sender_waiters s" "rv_woken s' = rv_woken s"
    and t: "parks p t' = None" "sleeps p t' = None" "pending t = []" "pending t' = [rc_wake r]"
  shows "wk (T(p \<mapsto> t')) s'"
proof -
  have "wakes_ok (T(p \<mapsto> t')) (rv_sender_waiters s) (view (rv_receivers s)) (rv_woken s)" using w t unfolding wk_def by (intro wakes_ok_pc [of T _ _ _ p t]) auto
  moreover have "coming (T(p \<mapsto> t')) (rv_woken s) (rc_wake r)" unfolding coming_def using t(4) by (metis fun_upd_same list.set_intros(1))
  ultimately show ?thesis using wakes_ok_leave_receiver q unfolding wk_def by metis
qed

lemma wk_park:
  assumes w: "wk T s" "T p = Some t" "pending t = []" "rv_woken s' = rv_woken s" and t: "\<And>h. parks p t' = Some h \<Longrightarrow> h = wh"
    and p: "p \<notin> owners (rv_sender_waiters s)" "p \<notin> owners (view (rv_receivers s))"
    and q: "rv_sender_waiters s' = rv_sender_waiters s @ [\<lparr>rc_owner = p, rc_wake = wh\<rparr>] \<and> view (rv_receivers s') = view (rv_receivers s) \<or>
      rv_sender_waiters s' = rv_sender_waiters s \<and> view (rv_receivers s') = view (rv_receivers s) @ [\<lparr>rc_owner = p, rc_wake = wh\<rparr>]"
  shows "wk (T(p \<mapsto> t')) s'"
proof -
  have n: "rc_owner r \<noteq> p" if "r \<in> set (rv_sender_waiters s) \<union> set (view (rv_receivers s))" for r using that p owner_in by blast
  show ?thesis unfolding wk_def w(4)
  proof (rule wakes_ok_own [OF w(1) [unfolded wk_def] w(2,3)])
    fix r assume "r \<in> set (rv_sender_waiters s') \<union> set (view (rv_receivers s'))"
    then have "r = \<lparr>rc_owner = p, rc_wake = wh\<rparr> \<or> r \<in> set (rv_sender_waiters s) \<union> set (view (rv_receivers s))" using q by auto
    then show "if rc_owner r = p then \<forall>h. parks p t' = Some h \<longrightarrow> rc_wake r = h else r \<in> set (rv_sender_waiters s) \<union> set (view (rv_receivers s))"
    proof
      assume "r = \<lparr>rc_owner = p, rc_wake = wh\<rparr>"
      then show ?thesis using t by fastforce
    next
      assume "r \<in> set (rv_sender_waiters s) \<union> set (view (rv_receivers s))"
      then show ?thesis using n [of r] by simp
    qed
  qed (use q in auto)
qed

subsection \<open>Every program keeps the wake-ups\<close>

lemma waiting_queued:
  "send_waits {rv_waiting} q fo p \<Longrightarrow> map_option fr_state fo = Some rv_waiting \<Longrightarrow> q"
  "recv_waits {rv_waiting} q fo \<Longrightarrow> map_option fr_state fo = Some rv_waiting \<Longrightarrow> q"
  by (auto simp: waits_defs split: if_splits)

lemma send_blocking_wk:
  assumes ok: "core_ok T s" and w: "wk T s" and t: "T p = Some (Send_Blocking pc)" and e: "send_blocking R p pc s = Some (pc', s')"
  shows "wk (T(p \<mapsto> Send_Blocking pc')) s'"
proof (cases pc)
  case BS_Enter
  then obtain res where s: "send_section R p (Wake_Thread p) s = Some (res, s')" "pc' = (case res of Send_Closed \<Rightarrow> BS_Done (Some SendClosed) | Send_Matched w \<Rightarrow> BS_Wake w | Send_Parked \<Rightarrow> BS_Check)"
    using e by (auto split: Option.bind_splits)
  have k: "p \<notin> owners (rv_sender_waiters s)" "p \<notin> owners (view (rv_receivers s))" using core_ok_task [OF ok t] BS_Enter by auto
  show ?thesis
  proof (cases rule: send_section_queues [OF s(1), case_names closed matched parked])
    case closed
    then show ?thesis using w t s(2) BS_Enter by (intro wk_pc [OF w t]) auto
  next
    case (matched r)
    then show ?thesis using s(2) BS_Enter by (intro wk_match_receiver [OF w t matched(2)]) auto
  next
    case parked
    then show ?thesis using s(2) BS_Enter k by (intro wk_park [OF w t, where wh = "Wake_Thread p"]) auto
  qed
next
  case BS_Check
  then show ?thesis using e core_ok_task [OF ok t] waiting_queued(1) by (intro wk_pc [OF w t]) (auto simp: rv_load_def split: Option.bind_splits if_splits)
qed (use e in \<open>auto simp: rv_wake_def rv_unparked_def split: Option.bind_splits if_splits intro!: wk_pc [OF w t]\<close>)

lemma wk_unlink_receiver:
  assumes ok: "core_ok T s" and w: "wk T s" and t: "T p = Some t" and k: "pending t = []" "parks p t' = None" "sleeps p t' = None"
  shows "wk (T(p \<mapsto> t')) (cancel_receiver R p s)"
proof -
  have o: "one_each (view (rv_receivers s))" using core_ok_inv [OF ok] by (simp add: rv_inv_def)
  show ?thesis unfolding wk_def cancel_receiver_def
    by (simp add: view_remove, rule wakes_ok_own [OF w [unfolded wk_def] t k(1)]) (use k set_remove [OF o] owners_remove [OF o] owner_in in auto)
qed

lemma wk_unlink_sender:
  assumes ok: "core_ok T s" and w: "wk T s" and t: "T p = Some t" and k: "pending t = []" "parks p t' = None" "sleeps p t' = None"
  shows "wk (T(p \<mapsto> t')) (cancel_sender p s)"
proof -
  have o: "one_each (rv_sender_waiters s)" using core_ok_inv [OF ok] by (simp add: rv_inv_def)
  show ?thesis unfolding wk_def cancel_sender_def
    by (simp, rule wakes_ok_own [OF w [unfolded wk_def] t k(1)]) (use k set_remove [OF o] owners_remove [OF o] owner_in in auto)
qed

lemma recv_blocking_wk:
  assumes ok: "core_ok T s" and w: "wk T s" and t: "T p = Some (Recv_Blocking pc)" and e: "recv_blocking R p pc s = Some (pc', s')" and room: "p \<notin> owners (view (rv_receivers s)) \<Longrightarrow> many \<or> view (rv_receivers s) = []"
  shows "wk (T(p \<mapsto> Recv_Blocking pc')) s'"
proof (cases pc)
  case BR_Enter
  then obtain res where s: "recv_section R p (Wake_Thread p) s = Some (res, s')" "pc' = (case res of Recv_Matched w item \<Rightarrow> BR_Wake w item | Recv_Closed \<Rightarrow> BR_Done (Inl RecvDisconnected) | Recv_Parked \<Rightarrow> BR_Check)"
    using e by (auto split: Option.bind_splits)
  have k: "p \<notin> owners (rv_sender_waiters s)" "p \<notin> owners (view (rv_receivers s))" using core_ok_task [OF ok t] BR_Enter by auto
  show ?thesis
  proof (cases rule: recv_section_queues [OF s(1) room [OF k(2)], case_names closed matched parked])
    case closed
    then show ?thesis using w t s(2) BR_Enter by (intro wk_pc [OF w t]) auto
  next
    case (matched r x)
    then show ?thesis using s(2) BR_Enter by (intro wk_match_sender [OF w t matched(2)]) auto
  next
    case parked
    then show ?thesis using s(2) BR_Enter k by (intro wk_park [OF w t, where wh = "Wake_Thread p"]) auto
  qed
next
  case BR_Check
  then show ?thesis using e core_ok_task [OF ok t] waiting_queued(2) by (intro wk_pc [OF w t]) (auto simp: rv_load_def split: Option.bind_splits if_splits)
qed (use e in \<open>auto simp: rv_wake_def rv_unparked_def rv_take_def cancel_claim_def rv_store_def split: Option.bind_splits if_splits intro!: wk_pc [OF w t]\<close>)

lemma recv_timeout_wk:
  assumes ok: "core_ok T s" and w: "wk T s" and t: "T p = Some (Recv_Timeout pc)" and e: "recv_timeout R p ex pc s = Some (pc', s')" and room: "p \<notin> owners (view (rv_receivers s)) \<Longrightarrow> many \<or> view (rv_receivers s) = []"
  shows "wk (T(p \<mapsto> Recv_Timeout pc')) s'"
proof (cases pc)
  case RT_Enter
  then obtain res where s: "recv_section R p (Wake_Thread p) s = Some (res, s')" "pc' = (case res of Recv_Matched w item \<Rightarrow> RT_Wake w item | Recv_Closed \<Rightarrow> RT_Done (Inl TimeoutDisconnected) | Recv_Parked \<Rightarrow> RT_Check)"
    using e by (auto split: Option.bind_splits)
  have k: "p \<notin> owners (rv_sender_waiters s)" "p \<notin> owners (view (rv_receivers s))" using core_ok_task [OF ok t] RT_Enter by auto
  show ?thesis
  proof (cases rule: recv_section_queues [OF s(1) room [OF k(2)], case_names closed matched parked])
    case closed
    then show ?thesis using w t s(2) RT_Enter by (intro wk_pc [OF w t]) auto
  next
    case (matched r x)
    then show ?thesis using s(2) RT_Enter by (intro wk_match_sender [OF w t matched(2)]) auto
  next
    case parked
    then show ?thesis using s(2) RT_Enter k by (intro wk_park [OF w t, where wh = "Wake_Thread p"]) auto
  qed
next
  case RT_Check
  then show ?thesis using e core_ok_task [OF ok t] waiting_queued(2) by (intro wk_pc [OF w t]) (auto simp: rv_load_def split: Option.bind_splits if_splits)
next
  case RT_Unlink
  then show ?thesis using e wk_unlink_receiver [OF ok w t, of "Recv_Timeout pc'"] by auto
qed (use e in \<open>auto simp: rv_wake_def rv_unparked_def rv_take_def cancel_claim_def rv_store_def split: Option.bind_splits if_splits intro!: wk_pc [OF w t]\<close>)

lemma try_send_wk:
  assumes w: "wk T s" and t: "T p = Some (Try_Send pc)" and e: "rv_try_send R pc s = Some (pc', s')"
  shows "wk (T(p \<mapsto> Try_Send pc')) s'"
proof (cases pc)
  case (TS_Enter x)
  show ?thesis
  proof (cases "\<exists>r rest. rv_receiver_count s \<noteq> 0 \<and> view (rv_receivers s) = r # rest")
    case True
    then obtain r rest where r: "rv_receiver_count s \<noteq> 0" "view (rv_receivers s) = r # rest" by blast
    obtain rs' where "rs_pop_receiver R (rv_receivers s) = Some (r, rs')" "view rs' = rest" using pop_oldest [OF r(2)] by blast
    then have "pc' = TS_Wake (rc_wake r)" "view (rv_receivers s) = r # view (rv_receivers s')" "rv_sender_waiters s' = rv_sender_waiters s" "rv_woken s' = rv_woken s"
      using e r TS_Enter by (auto simp: fulfill_receiver_def split: Option.bind_splits)
    then show ?thesis using TS_Enter by (intro wk_match_receiver [OF w t]) auto
  next
    case False
    then have "view (rv_receivers s) = [] \<or> rv_receiver_count s = 0" by (cases "view (rv_receivers s)") auto
    then show ?thesis using e pop_empty [of "rv_receivers s"] TS_Enter by (intro wk_pc [OF w t]) (auto split: if_splits)
  qed
qed (use e in \<open>auto simp: rv_wake_def intro!: wk_pc [OF w t]\<close>)

lemma try_recv_wk:
  assumes w: "wk T s" and t: "T p = Some (Try_Recv pc)" and e: "rv_try_recv pc s = Some (pc', s')"
  shows "wk (T(p \<mapsto> Try_Recv pc')) s'"
proof (cases pc)
  case TR_Enter
  show ?thesis
  proof (cases "rv_sender_waiters s")
    case Nil
    then show ?thesis using e TR_Enter by (intro wk_pc [OF w t]) auto
  next
    case (Cons r rest)
    then obtain x where "pc' = TR_Wake (rc_wake r) x" "rv_sender_waiters s = r # rv_sender_waiters s'" "rv_receivers s' = rv_receivers s" "rv_woken s' = rv_woken s"
      using e TR_Enter by (auto simp: fulfill_sender_def split: Option.bind_splits)
    then show ?thesis using TR_Enter by (intro wk_match_sender [OF w t]) auto
  qed
qed (use e in \<open>auto simp: rv_wake_def intro!: wk_pc [OF w t]\<close>)

lemma wk_refresh_sender:
  assumes ok: "core_ok T s" and w: "wk T s" and t: "T p = Some t" "pending t = []" and e: "refresh_rec p wh (rv_sender_waiters s) = (found, S')"
    and q: "p \<notin> owners (view (rv_receivers s))" and k: "\<And>h. parks p t' = Some h \<Longrightarrow> h = wh" "\<And>h. sleeps p t' = Some h \<Longrightarrow> found"
  shows "wk (T(p \<mapsto> t')) (s\<lparr>rv_sender_waiters := S'\<rparr>)"
proof -
  have i: "one_each (rv_sender_waiters s)" using core_ok_inv [OF ok] by (simp add: rv_inv_def)
  show ?thesis unfolding wk_def
  proof (simp, rule wakes_ok_own [OF w [unfolded wk_def] t])
    fix r assume "r \<in> set S' \<union> set (view (rv_receivers s))"
    then show "if rc_owner r = p then \<forall>h. parks p t' = Some h \<longrightarrow> rc_wake r = h else r \<in> set (rv_sender_waiters s) \<union> set (view (rv_receivers s))"
      using set_refresh [OF e i, of r] q owner_in [of r "view (rv_receivers s)"] k(1) by (auto split: if_splits)
  qed (use owners_refresh [OF e] k(2) in auto)
qed

lemma wk_refresh_receiver:
  assumes ok: "core_ok T s" and w: "wk T s" and t: "T p = Some t" "pending t = []" and e: "rs_refresh_receiver R p wh (rv_receivers s) = (found, rs)"
    and q: "p \<notin> owners (rv_sender_waiters s)" and k: "\<And>h. parks p t' = Some h \<Longrightarrow> h = wh" "\<And>h. sleeps p t' = Some h \<Longrightarrow> found"
  shows "wk (T(p \<mapsto> t')) (s\<lparr>rv_receivers := rs\<rparr>)"
proof -
  have v: "refresh_rec p wh (view (rv_receivers s)) = (found, view rs)" using view_refresh [of p wh "rv_receivers s"] e by simp
  have i: "one_each (view (rv_receivers s))" using core_ok_inv [OF ok] by (simp add: rv_inv_def)
  show ?thesis unfolding wk_def
  proof (simp, rule wakes_ok_own [OF w [unfolded wk_def] t])
    fix r assume "r \<in> set (rv_sender_waiters s) \<union> set (view rs)"
    then show "if rc_owner r = p then \<forall>h. parks p t' = Some h \<longrightarrow> rc_wake r = h else r \<in> set (rv_sender_waiters s) \<union> set (view (rv_receivers s))"
      using set_refresh [OF v i, of r] q owner_in [of r "rv_sender_waiters s"] k(1) by (auto split: if_splits)
  qed (use owners_refresh [OF v] k(2) in auto)
qed

lemma quiet_queues:
  "rv_take p s = Some (x, s') \<Longrightarrow> rv_sender_waiters s' = rv_sender_waiters s \<and> rv_receivers s' = rv_receivers s \<and> rv_woken s' = rv_woken s"
  "rv_store p st s = Some s' \<Longrightarrow> rv_sender_waiters s' = rv_sender_waiters s \<and> rv_receivers s' = rv_receivers s \<and> rv_woken s' = rv_woken s"
  "cancel_claim p s = Some (won, s') \<Longrightarrow> rv_sender_waiters s' = rv_sender_waiters s \<and> rv_receivers s' = rv_receivers s \<and> rv_woken s' = rv_woken s"
  by (auto simp: rv_take_def rv_store_def cancel_claim_def split: Option.bind_splits if_splits)

lemma poll_send_wk:
  assumes ok: "core_ok T s" and w: "wk T s" and t: "T p = Some (Send_Future pc)" and e: "rv_poll_send R p pc s = Some (pc', s')"
  shows "wk (T(p \<mapsto> Send_Future pc')) s'"
proof -
  have v: "p \<notin> owners (view (rv_receivers s))" using core_ok_task [OF ok t] by simp
  consider (fresh) wk where "pc = PS_Poll wk False" | (refresh) wk where "pc = PS_Refresh wk" | (unlink) "pc = PS_Unlink" | (plain) "\<forall>wk. pc \<noteq> PS_Poll wk False \<and> pc \<noteq> PS_Refresh wk" "pc \<noteq> PS_Unlink" by blast
  then show ?thesis
  proof cases
    case (fresh k)
    then have p: "p \<notin> owners (rv_sender_waiters s)" using core_ok_task [OF ok t] by simp
    show ?thesis
    proof (cases "\<exists>f. rv_mem s p = Some f \<and> fr_slot f = None")
      case True
      then show ?thesis using fresh e by (intro wk_pc [OF w t]) auto
    next
      case False
      then obtain res s1 where s: "send_section R p (Wake_Waker k) s = Some (res, s1)"
        "(case res of Send_Closed \<Rightarrow> Some (PS_Done (Some SendClosed), s1) | Send_Matched w \<Rightarrow> Some (PS_Wake w, s1) | Send_Parked \<Rightarrow> map_option (Pair (PS_Idle (Some k))) (rv_store p rv_waiting s1)) = Some (pc', s')"
        using fresh e by (auto split: Option.bind_splits)
      show ?thesis
      proof (cases rule: send_section_queues [OF s(1), case_names closed matched parked])
        case closed
        then show ?thesis using s(2) fresh by (intro wk_pc [OF w t]) auto
      next
        case (matched r)
        then have "s' = s1" "pc' = PS_Wake (rc_wake r)" using s(2) by auto
        then show ?thesis using wk_match_receiver [OF w t matched(2-4), of "Send_Future pc'"] fresh by simp
      next
        case parked
        then have "pc' = PS_Idle (Some k)" "rv_sender_waiters s' = rv_sender_waiters s1" "rv_receivers s' = rv_receivers s1" "rv_woken s' = rv_woken s1" using s(2) quiet_queues(2) [of p rv_waiting s1] by auto
        then show ?thesis using wk_park [OF w t, of s' "Send_Future pc'" "Wake_Waker k"] parked fresh p v by simp
      qed
    qed
  next
    case (refresh k)
    obtain found S' where r: "refresh_rec p (Wake_Waker k) (rv_sender_waiters s) = (found, S')" by (cases "refresh_rec p (Wake_Waker k) (rv_sender_waiters s)")
    then have c: "pc' = (if found then PS_Idle (Some k) else PS_Reload)" "s' = s\<lparr>rv_sender_waiters := S'\<rparr>" using e refresh by auto
    show ?thesis unfolding c(2) by (rule wk_refresh_sender [OF ok w t _ r v]) (use c(1) refresh in \<open>simp_all split: if_splits\<close>)
  next
    case unlink
    then show ?thesis using e wk_unlink_sender [OF ok w t, of "Send_Future pc'"] by auto
  next
    case plain
    then show ?thesis using e by (cases "(R, p, pc, s)" rule: rv_poll_send.cases) (auto simp: rv_wake_def cancel_claim_def rv_store_def split: Option.bind_splits if_splits intro!: wk_pc [OF w t])
  qed
qed

lemma poll_recv_wk:
  assumes ok: "core_ok T s" and w: "wk T s" and t: "T p = Some (Recv_Future pc)" and e: "rv_poll_recv R p pc s = Some (pc', s')" and room: "p \<notin> owners (view (rv_receivers s)) \<Longrightarrow> many \<or> view (rv_receivers s) = []"
  shows "wk (T(p \<mapsto> Recv_Future pc')) s'"
proof -
  have v: "p \<notin> owners (rv_sender_waiters s)" using core_ok_task [OF ok t] by simp
  consider (fresh) wk where "pc = PR_Poll wk False" | (refresh) wk where "pc = PR_Refresh wk" | (unlink) "pc = PR_Unlink" | (plain) "\<forall>wk. pc \<noteq> PR_Poll wk False \<and> pc \<noteq> PR_Refresh wk" "pc \<noteq> PR_Unlink" by blast
  then show ?thesis
  proof cases
    case (fresh k)
    then have p: "p \<notin> owners (view (rv_receivers s))" using core_ok_task [OF ok t] by simp
    obtain res s1 where s: "recv_section R p (Wake_Waker k) s = Some (res, s1)"
      "(case res of Recv_Matched w item \<Rightarrow> Some (PR_Wake w item, s1) | Recv_Closed \<Rightarrow> Some (PR_Done (Inl RecvDisconnected), s1) | Recv_Parked \<Rightarrow> map_option (Pair (PR_Idle (Some k))) (rv_store p rv_waiting s1)) = Some (pc', s')"
      using fresh e by (auto split: Option.bind_splits)
    show ?thesis
    proof (cases rule: recv_section_queues [OF s(1) room [OF p], case_names closed matched parked])
      case closed
      then show ?thesis using s(2) fresh by (intro wk_pc [OF w t]) auto
    next
      case (matched r x)
      then have "s' = s1" "pc' = PR_Wake (rc_wake r) x" using s(2) by auto
      then show ?thesis using wk_match_sender [OF w t matched(2), of "Recv_Future pc'"] matched(3,4) fresh by simp
    next
      case parked
      then have "pc' = PR_Idle (Some k)" "rv_sender_waiters s' = rv_sender_waiters s1" "rv_receivers s' = rv_receivers s1" "rv_woken s' = rv_woken s1" using s(2) quiet_queues(2) [of p rv_waiting s1] by auto
      then show ?thesis using wk_park [OF w t, of s' "Recv_Future pc'" "Wake_Waker k"] parked fresh p v by simp
    qed
  next
    case (refresh k)
    obtain found rs where r: "rs_refresh_receiver R p (Wake_Waker k) (rv_receivers s) = (found, rs)" by (cases "rs_refresh_receiver R p (Wake_Waker k) (rv_receivers s)")
    then have c: "pc' = (if found then PR_Idle (Some k) else PR_Reload)" "s' = s\<lparr>rv_receivers := rs\<rparr>" using e refresh by auto
    show ?thesis unfolding c(2) by (rule wk_refresh_receiver [OF ok w t _ r v]) (use c(1) refresh in \<open>simp_all split: if_splits\<close>)
  next
    case unlink
    then show ?thesis using e wk_unlink_receiver [OF ok w t, of "Recv_Future pc'"] by auto
  next
    case plain
    have "rv_sender_waiters s' = rv_sender_waiters s" "rv_receivers s' = rv_receivers s" "parks p (Recv_Future pc') = None" "set (rv_woken s) \<union> set (pending (Recv_Future pc)) \<subseteq> set (rv_woken s') \<union> set (pending (Recv_Future pc'))"
      using plain e by (cases "(R, p, pc, s)" rule: rv_poll_recv.cases; auto simp: rv_wake_def split: Option.bind_splits if_splits dest!: quiet_queues)+
    then show ?thesis using sleeps_parks [of p "Recv_Future pc'"] by (intro wk_pc [OF w t]) auto
  qed
qed

lemma rv_run_wk:
  assumes ok: "core_ok T s" and l: "lonely T" and w: "wk T s" and t: "T p = Some t" and e: "rv_run R p ex t s = Some (t', s')"
  shows "wk (T(p \<mapsto> t')) s'"
proof -
  have n: "\<not> rv_returned t" using rv_run_none [of t p ex s] e by auto
  have room: "rv_awaits t \<Longrightarrow> p \<notin> owners (view (rv_receivers s)) \<Longrightarrow> many \<or> view (rv_receivers s) = []" using lonely_room [OF ok l t _ n] by blast
  show ?thesis
  proof (cases t)
    case (Send_Blocking pc)
    then show ?thesis using e t send_blocking_wk [OF ok w, of p pc] by auto
  next
    case (Recv_Blocking pc)
    then show ?thesis using e t room recv_blocking_wk [OF ok w, of p pc] by auto
  next
    case (Recv_Timeout pc)
    then show ?thesis using e t room recv_timeout_wk [OF ok w, of p pc ex] by auto
  next
    case (Send_Future pc)
    then show ?thesis using e t poll_send_wk [OF ok w, of p pc] by auto
  next
    case (Recv_Future pc)
    then show ?thesis using e t room poll_recv_wk [OF ok w, of p pc] by auto
  next
    case (Try_Send pc)
    then show ?thesis using e t try_send_wk [OF w, of p pc] by auto
  next
    case (Try_Recv pc)
    then show ?thesis using e t try_recv_wk [OF w, of p pc] by auto
  next
    case (Waking ws)
    then show ?thesis using e n by (cases ws) (auto simp: rv_wake_def intro!: wk_pc [OF w t])
  qed
qed

end

subsection \<open>Counts of handles\<close>

definition keeps_counts :: "('r, 'a) rv \<Rightarrow> ('r, 'a) rv \<Rightarrow> bool" where
  "keeps_counts s s' \<longleftrightarrow> rv_sender_count s' = rv_sender_count s \<and> rv_receiver_count s' = rv_receiver_count s"

lemma keeps_counts_simps [simp]:
  "keeps_counts s s" "keeps_counts s (rv_wake w s)" "keeps_counts s (rv_unparked p s)" "keeps_counts s (cancel_sender p s)" "keeps_counts s (cancel_receiver R p s)"
  "keeps_counts s (s\<lparr>rv_sender_waiters := S, rv_mem := m\<rparr>)" "keeps_counts s (s\<lparr>rv_receivers := rs, rv_mem := m\<rparr>)" "keeps_counts s (s\<lparr>rv_sender_waiters := S\<rparr>)" "keeps_counts s (s\<lparr>rv_receivers := rs\<rparr>)"
  by (simp_all add: keeps_counts_def rv_wake_def rv_unparked_def cancel_sender_def cancel_receiver_def)

lemma keeps_counts_dests:
  "send_section R p w s = Some (res, s') \<Longrightarrow> keeps_counts s s'" "recv_section R p w s = Some (res', s') \<Longrightarrow> keeps_counts s s'"
  "rv_take p s = Some (x, s') \<Longrightarrow> keeps_counts s s'" "rv_store p st s = Some s' \<Longrightarrow> keeps_counts s s'" "cancel_claim p s = Some (won, s') \<Longrightarrow> keeps_counts s s'"
  by (auto simp: send_section_def recv_section_def rv_take_def rv_store_def cancel_claim_def keeps_counts_def split: if_splits option.splits list.splits Option.bind_splits)

lemma keeps_counts_trans: "keeps_counts s s' \<Longrightarrow> keeps_counts s' s'' \<Longrightarrow> keeps_counts s s''"
  by (simp add: keeps_counts_def)

lemma program_counts:
  "send_blocking R p b1 s = Some (b1', s') \<Longrightarrow> keeps_counts s s'" "recv_blocking R p b2 s = Some (b2', s') \<Longrightarrow> keeps_counts s s'"
  "recv_timeout R p e b3 s = Some (b3', s') \<Longrightarrow> keeps_counts s s'" "rv_try_send R b4 s = Some (b4', s') \<Longrightarrow> keeps_counts s s'" "rv_try_recv b5 s = Some (b5', s') \<Longrightarrow> keeps_counts s s'"
  by (cases b1, auto split: Option.bind_splits dest: keeps_counts_dests)
    (cases b2, auto split: Option.bind_splits if_splits dest: keeps_counts_dests,
     cases b3, auto split: Option.bind_splits if_splits dest: keeps_counts_dests,
     cases b4, auto split: Option.bind_splits if_splits option.splits,
     cases b5, auto split: Option.bind_splits list.splits)

lemma future_counts:
  "rv_poll_send R p c1 s = Some (c1', s') \<Longrightarrow> keeps_counts s s'" "rv_poll_recv R p c2 s = Some (c2', s') \<Longrightarrow> keeps_counts s s'"
  by (cases "(R, p, c1, s)" rule: rv_poll_send.cases, auto split: Option.bind_splits if_splits prod.splits send_outcome.splits dest: keeps_counts_dests keeps_counts_trans)
    (cases "(R, p, c2, s)" rule: rv_poll_recv.cases, auto split: Option.bind_splits if_splits prod.splits recv_outcome.splits dest: keeps_counts_dests keeps_counts_trans)

lemma rv_run_counts: "rv_run R p e t s = Some (t', s') \<Longrightarrow> keeps_counts s s'"
  by (cases "(R, p, e, t, s)" rule: rv_run.cases) (auto dest: program_counts future_counts)

definition rv_counted :: "'r rv_world \<Rightarrow> bool" where
  "rv_counted w \<longleftrightarrow> counted (rw_senders w) (rv_sender_count (rw_core w)) \<and> counted (rw_receivers w) (rv_receiver_count (rw_core w))"

lemma drop_counts:
  "rv_drop_sender R s = Some (ws, s') \<Longrightarrow> rv_sender_count s' = u64_sub (rv_sender_count s) 1 \<and> rv_receiver_count s' = rv_receiver_count s"
  "rv_drop_receiver s = Some (ws, s') \<Longrightarrow> rv_receiver_count s' = u64_sub (rv_receiver_count s) 1 \<and> rv_sender_count s' = rv_sender_count s"
  by (auto simp: rv_drop_sender_def rv_drop_receiver_def Let_def split: if_splits Option.bind_splits)

lemma rv_step_counted: "rv_step R many w w' \<Longrightarrow> rv_counted w \<Longrightarrow> rv_counted w'"
proof (induction rule: rv_step.induct)
  case (run w p t e t' s')
  then show ?case using rv_run_counts [OF run.hyps(2)] by (simp add: rv_counted_def rv_update_def keeps_counts_def)
next
  case (clone_sender w h h')
  then show ?case using counted_clone [of "rw_senders w" "rv_sender_count (rw_core w)" h'] by (simp add: rv_counted_def rv_add_sender_def)
next
  case (clone_receiver w h h')
  then show ?case using counted_clone [of "rw_receivers w" "rv_receiver_count (rw_core w)" h'] by (simp add: rv_counted_def rv_add_receiver_def)
next
  case (close_sender w h p ws s')
  then show ?case using counted_close [of "rw_senders w" "rv_sender_count (rw_core w)" h] drop_counts(1) [OF close_sender.hyps(3)] by (simp add: rv_counted_def rv_update_def)
next
  case (close_receiver w h p ws s')
  then show ?case using counted_close [of "rw_receivers w" "rv_receiver_count (rw_core w)" h] drop_counts(2) [OF close_receiver.hyps(3)] by (simp add: rv_counted_def rv_update_def)
qed (auto simp: rv_counted_def rv_update_def free_frame_def counted_closing)

lemma rv_reach_counted: "rv_reach R many w \<Longrightarrow> rv_counted w"
proof (induction rule: rv_reach.induct)
  case reach_new
  have "live [0 \<mapsto> Open] = {0 :: nat}" by (auto simp: live_def)
  then show ?case by (simp add: rv_counted_def rv_channel_def rv_new_def counted_def)
qed (rule rv_step_counted)

lemma counted_some: "counted hs n \<Longrightarrow> n \<noteq> 0 \<Longrightarrow> \<exists>h st. hs h = Some st \<and> st \<noteq> Shut"
  unfolding counted_def live_def by (metis (mono_tags, lifting) card.empty empty_Collect_eq handle.distinct(3,5))

subsection \<open>Every step keeps the wake-ups\<close>

lemma start_sleeps: "rv_start p t \<Longrightarrow> sleeps p t = None"
  by (cases t) auto

lemma poll_sleeps: "rv_poll wh t = Some t' \<Longrightarrow> parks p t' = None \<and> sleeps p t' = None \<and> pending t' = pending t"
  by (cases "(wh, t)" rule: rv_poll.cases) auto

lemma drop_sleeps: "rv_drop t = Some t' \<Longrightarrow> parks p t' = None \<and> sleeps p t' = None \<and> pending t' = pending t"
  by (cases t rule: rv_drop.cases) auto

context receiver_queue
begin

lemma drop_sender_wk:
  assumes ok: "core_ok T s" and w: "wk T s" and p: "T p = None" and e: "rv_drop_sender R s = Some (ws, s')"
  shows "wk (T(p \<mapsto> Waking ws)) s'"
proof (cases "u64_sub (rv_sender_count s) 1 = 0")
  case True
  obtain us m' where d: "disconnect_recs (view (rv_receivers s)) (rv_mem s) = Some (us, m')" using rv_inv_disconnect_receivers [OF core_ok_inv [OF ok]] by blast
  then have u: "us = map rc_wake (view (rv_receivers s))" by (rule disconnect_wakes)
  have q: "ws = us" "rv_sender_waiters s' = rv_sender_waiters s" "view (rv_receivers s') = []" "rv_woken s' = rv_woken s"
    using e True view_disconnect [OF d] by (auto simp: rv_drop_sender_def Let_def)
  show ?thesis unfolding wk_def q(2-4) by (rule wakes_ok_waking [OF w [unfolded wk_def] p]) (use q(1) u in auto)
next
  case False
  then have q: "ws = []" "rv_sender_waiters s' = rv_sender_waiters s" "rv_receivers s' = rv_receivers s" "rv_woken s' = rv_woken s" using e by (auto simp: rv_drop_sender_def Let_def)
  show ?thesis unfolding wk_def q(2-4) by (rule wakes_ok_waking [OF w [unfolded wk_def] p]) auto
qed

lemma drop_receiver_wk:
  assumes w: "wk T s" and p: "T p = None" and e: "rv_drop_receiver s = Some (ws, s')"
  shows "wk (T(p \<mapsto> Waking ws)) s'"
proof (cases "u64_sub (rv_receiver_count s) 1 = 0")
  case True
  then obtain m' where d: "disconnect_recs (rv_sender_waiters s) (rv_mem s) = Some (ws, m')" and q: "rv_sender_waiters s' = []" "rv_receivers s' = rv_receivers s" "rv_woken s' = rv_woken s"
    using e by (auto simp: rv_drop_receiver_def Let_def split: Option.bind_splits)
  show ?thesis unfolding wk_def q by (rule wakes_ok_waking [OF w [unfolded wk_def] p]) (use disconnect_wakes [OF d] in auto)
next
  case False
  then have q: "ws = []" "rv_sender_waiters s' = rv_sender_waiters s" "rv_receivers s' = rv_receivers s" "rv_woken s' = rv_woken s" using e by (auto simp: rv_drop_receiver_def Let_def)
  show ?thesis unfolding wk_def q(2-4) by (rule wakes_ok_waking [OF w [unfolded wk_def] p]) auto
qed

lemma rv_step_wk:
  assumes "rv_step R many w w'" "world_ok w" "wk (rw_tasks w) (rw_core w)"
  shows "wk (rw_tasks w') (rw_core w')"
  using assms
proof (induction rule: rv_step.induct)
  case (start w p t)
  have "p \<notin> owners (rv_sender_waiters (rw_core w)) \<and> p \<notin> owners (view (rv_receivers (rw_core w)))"
    using rv_inv_new [OF core_ok_inv, of "rw_tasks w" "rw_core w" p] start.hyps(1) start.prems(1) by (simp add: world_ok_def)
  then show ?case using wakes_ok_start [OF start.prems(2) [unfolded wk_def] start.hyps(1) _ start_sleeps [OF start.hyps(2)]] by (simp add: wk_def rv_update_def del: fun_upd_apply)
next
  case (run w p t e t' s')
  then show ?case using rv_run_wk [of "rw_tasks w" "rw_core w" p t e t' s'] by (simp add: rv_update_def world_ok_def del: fun_upd_apply)
next
  case (poll w p t wh t')
  then show ?case using wk_pc [OF poll.prems(2) poll.hyps(1), of "rw_core w" t'] poll_sleeps [OF poll.hyps(2), of p] by (auto simp: rv_update_def simp del: fun_upd_apply)
next
  case (drop w p t t')
  then show ?case using wk_pc [OF drop.prems(2) drop.hyps(1), of "rw_core w" t'] drop_sleeps [OF drop.hyps(2), of p] by (auto simp: rv_update_def simp del: fun_upd_apply)
next
  case (close_sender w h p ws s')
  then show ?case using drop_sender_wk [of "rw_tasks w" "rw_core w" p ws s'] by (simp add: rv_update_def world_ok_def del: fun_upd_apply)
next
  case (close_receiver w h p ws s')
  then show ?case using drop_receiver_wk [of "rw_tasks w" "rw_core w" p ws s'] by (simp add: rv_update_def del: fun_upd_apply)
qed (simp_all add: wk_def free_frame_def rv_add_sender_def rv_add_receiver_def)

lemma rv_reach_wk: "rv_reach R many w \<Longrightarrow> wk (rw_tasks w) (rw_core w)"
proof (induction rule: rv_reach.induct)
  case reach_new
  show ?case using view_empty by (simp add: wk_def wakes_ok_def rv_channel_def rv_new_def)
next
  case (reach_step w w')
  then show ?case using rv_step_wk rv_reach_ok by blast
qed

end

text \<open>
  A program that sleeps has a wake-up coming, or its record with the handle it sleeps on is queued and the
  other side has a handle that is not closed. Senders and receivers are never queued at the same time.
\<close>

definition sleeps_rightly :: "('r \<Rightarrow> rv_rec list) \<Rightarrow> 'r rv_world \<Rightarrow> bool" where
  "sleeps_rightly view w \<longleftrightarrow> (rv_sender_waiters (rw_core w) = [] \<or> view (rv_receivers (rw_core w)) = []) \<and>
     (\<forall>p t h. rw_tasks w p = Some t \<and> sleeps p t = Some h \<longrightarrow> coming (rw_tasks w) (rv_woken (rw_core w)) h \<or>
        (\<exists>r \<in> set (rv_sender_waiters (rw_core w)). rc_owner r = p \<and> rc_wake r = h) \<and> (\<exists>k st. rw_receivers w k = Some st \<and> st \<noteq> Shut) \<or>
        (\<exists>r \<in> set (view (rv_receivers (rw_core w))). rc_owner r = p \<and> rc_wake r = h) \<and> (\<exists>k st. rw_senders w k = Some st \<and> st \<noteq> Shut))"

context receiver_queue
begin

lemma rv_reach_sleeps:
  assumes "rv_reach R many w"
  shows "sleeps_rightly view w"
  unfolding sleeps_rightly_def
proof (intro conjI allI impI; (elim conjE)?)
  let ?S = "rv_sender_waiters (rw_core w)" and ?V = "view (rv_receivers (rw_core w))"
  have ok: "core_ok (rw_tasks w) (rw_core w)" using rv_reach_ok [OF assms] by (simp add: world_ok_def)
  then show "?S = [] \<or> ?V = []" by (simp add: core_ok_def rv_inv_def)
  fix p t h assume t: "rw_tasks w p = Some t" and h: "sleeps p t = Some h"
  have k: "wakes_ok (rw_tasks w) ?S ?V (rv_woken (rw_core w))" using rv_reach_wk [OF assms] by (simp add: wk_def)
  have m: "rc_wake r = h" if "r \<in> set ?S \<union> set ?V" "rc_owner r = p" for r using k that t sleeps_parks [OF h] unfolding wakes_ok_def by blast
  have c: "counted (rw_senders w) (rv_sender_count (rw_core w))" "counted (rw_receivers w) (rv_receiver_count (rw_core w))" using rv_reach_counted [OF assms] by (simp_all add: rv_counted_def)
  have n: "?S \<noteq> [] \<Longrightarrow> rv_receiver_count (rw_core w) \<noteq> 0" "?V \<noteq> [] \<Longrightarrow> rv_sender_count (rw_core w) \<noteq> 0" using ok by (auto simp: core_ok_def)
  consider "coming (rw_tasks w) (rv_woken (rw_core w)) h" | r where "r \<in> set ?S" "rc_owner r = p" | r where "r \<in> set ?V" "rc_owner r = p"
    using k t h unfolding wakes_ok_def owners_def by blast
  then show "coming (rw_tasks w) (rv_woken (rw_core w)) h \<or> (\<exists>r \<in> set ?S. rc_owner r = p \<and> rc_wake r = h) \<and> (\<exists>k st. rw_receivers w k = Some st \<and> st \<noteq> Shut) \<or>
    (\<exists>r \<in> set ?V. rc_owner r = p \<and> rc_wake r = h) \<and> (\<exists>k st. rw_senders w k = Some st \<and> st \<noteq> Shut)"
  proof cases
    case (2 r)
    then have "?S \<noteq> []" by auto
    then show ?thesis using 2 m [of r] counted_some [OF c(2) n(1)] by blast
  next
    case (3 r)
    then have "?V \<noteq> []" by auto
    then show ?thesis using 3 m [of r] counted_some [OF c(1) n(2)] by blast
  qed simp
qed

end

definition demo_sleep :: "rv_act list" where
  "demo_sleep = [Start 0 (Recv_Blocking BR_Enter), Run 0 False, Run 0 False]"

text \<open>
  No wake-up is lost (C19). In every reachable state of both channels no sender and receiver wait at the
  same time, and every program that sleeps has been woken through its own handle, or some program is about
  to wake it, or it is queued under that handle and the other side still has a handle that is not closed.
\<close>

theorem rv_no_lost_wakeup:
  assumes "mpmc_rendezvous w" "mpsc_rendezvous v"
  shows "sleeps_rightly (\<lambda>rs. rs) w \<and> sleeps_rightly slot_view v"
  using dq.rv_reach_sleeps [OF assms(1)] sl.rv_reach_sleeps [OF assms(2)] by blast

theorem rv_no_lost_wakeup_witness:
  "\<exists>w v. rv_demo deque_store True demo_sleep = Some w \<and> rv_demo slot_store False demo_sleep = Some v \<and> map_option (sleeps 0) (rw_tasks w 0) = Some (Some (Wake_Thread 0)) \<and>
     sleeps_rightly (\<lambda>rs. rs) w \<and> sleeps_rightly slot_view v"
proof -
  obtain w where w: "rv_demo deque_store True demo_sleep = Some w" "map_option (sleeps 0) (rw_tasks w 0) = Some (Some (Wake_Thread 0))" by (simp add: rv_eval demo_sleep_def)
  obtain v where v: "rv_demo slot_store False demo_sleep = Some v" by (simp add: rv_eval demo_sleep_def)
  show ?thesis using rv_no_lost_wakeup [OF rv_demo_reach [OF w(1)] rv_demo_reach [OF v]] w v by blast
qed

subsection \<open>What cancelling breaks\<close>

text \<open>
  The state is set to cancelled without the lock, and a peer does not look at it. So a peer can still
  complete the handoff between that and the removal of the record.
\<close>

definition demo_loss :: "rv_act list" where
  "demo_loss = [Start 0 (Recv_Timeout RT_Enter), Run 0 False, Run 0 False, Run 0 True, Run 0 True, Start 1 (Send_Blocking BS_Enter), Run 1 False, Run 1 False, Run 0 True, Free 0]"

definition demo_ghost :: "rv_act list" where
  "demo_ghost = [Start 0 (Send_Future (PS_Idle None)), Poll 0 7, Run 0 False, Drop 0, Run 0 False, Start 1 (Try_Recv TR_Enter), Run 1 False, Run 1 False]"

definition demo_two :: "rv_act list" where
  "demo_two = [Start 0 (Recv_Future (PR_Idle None)), Poll 0 5, Run 0 False, Start 1 (Recv_Future (PR_Idle None)), Poll 1 6, Run 1 False, Poll 0 7, Run 0 False, Run 0 False, Run 0 False]"

text \<open>
  Cancellation races with a handoff (C20). A reachable MPMC channel has a send that returned \<^verbatim>\<open>Ok\<close> and whose item is
  dropped, since the receive it was handed to returned \<^verbatim>\<open>Timeout\<close>. Another one has a send future whose
  cancellation has won and whose item was received. And in an MPSC channel with two receive futures
  at a time the first one reports a disconnection while the sender is open.
\<close>

theorem rv_cancel_races:
  "(\<exists>w. mpmc_rendezvous w \<and> rw_tasks w 0 = Some (Recv_Timeout (RT_Done (Inl Timeout))) \<and> rw_tasks w 1 = Some (Send_Blocking (BS_Done None)) \<and> 1 \<in> set (rw_dropped w)) \<and>
   (\<exists>w. mpmc_rendezvous w \<and> rw_tasks w 0 = Some (Send_Future PS_Unlink) \<and> rw_tasks w 1 = Some (Try_Recv (TR_Done (Inr 0)))) \<and>
   (\<exists>w. rv_reach slot_store True w \<and> rw_tasks w 0 = Some (Recv_Future (PR_Done (Inl RecvDisconnected))) \<and> rw_senders w 0 = Some Open)"
proof -
  obtain w where w: "rv_demo deque_store True demo_loss = Some w" "rw_tasks w 0 = Some (Recv_Timeout (RT_Done (Inl Timeout)))" "rw_tasks w 1 = Some (Send_Blocking (BS_Done None))" "1 \<in> set (rw_dropped w)"
    by (simp add: rv_eval demo_loss_def)
  obtain v where v: "rv_demo deque_store True demo_ghost = Some v" "rw_tasks v 0 = Some (Send_Future PS_Unlink)" "rw_tasks v 1 = Some (Try_Recv (TR_Done (Inr 0)))"
    by (simp add: rv_eval demo_ghost_def)
  obtain u where u: "rv_demo slot_store True demo_two = Some u" "rw_tasks u 0 = Some (Recv_Future (PR_Done (Inl RecvDisconnected)))" "rw_senders u 0 = Some Open"
    by (simp add: rv_eval demo_two_def)
  show ?thesis using rv_demo_reach [OF w(1)] w(2-4) rv_demo_reach [OF v(1)] v(2,3) rv_demo_reach [OF u(1)] u(2,3) by blast
qed

end
