(* ===== verification/Spec2Isabelle.thy ===== *)
theory Spec2Isabelle
  imports Lru_Fifo Clock Sieve Random_Null S3fifo Slru Arc_Policy Tinylfu Hpolicy Shard_Builtin Oneshot_Wake Histogram Mpmc_Liberties Mpmc_Handles Rendezvous_Wake
begin

text \<open>
  Verification of the cache and channel core of the \<^verbatim>\<open>fibre\<close> repository.

  \<^bold>\<open>The program.\<close> \<^verbatim>\<open>fibre\<close> is a workspace of Rust crates. The crate \<^verbatim>\<open>cache\<close> is a concurrent cache: its keys
  are spread over shards, each a hash table behind a lock with an eviction policy, a timer wheel for
  expiry and a log of reads that are applied to the policy later. The crate \<^verbatim>\<open>channels\<close> holds channels for
  threads and asynchronous tasks; modelled are the oneshot channel, the bounded
  channel with many producers and consumers, and the rendezvous channels with many producers. Of the crate \<^verbatim>\<open>stats\<close> the histogram is modelled. The
  crates for dependency injection, logging and tracing are not modelled.

  \<^bold>\<open>Conventions.\<close> An operation that can panic, index out of range, miss an expected value or follow a
  dangling pointer returns an option, and \<^term>\<open>None\<close> is that event. Loops without a structural bound are
  partial functions into the option type, so that \<^term>\<open>None\<close> is also a loop that does not return; the
  theorems prove that they return. Unsigned 64-bit arithmetic is written out on natural numbers
  (\<open>u64_add\<close>, \<open>u64_sub\<close>) or uses words of 64 bits where bits matter; state flags are words of 8 bits. Arithmetic is that of a
  release build: an overflow of \<open>+\<close> or \<open>-\<close> wraps, and debug assertions are not checked. Code that is not
  part of the repository is a parameter: the generational arena (\<open>Arena\<close>), the hash table of \<^verbatim>\<open>hashbrown\<close>
  (\<open>Hash_Table\<close>), the \<^verbatim>\<open>AtomicWaker\<close> of \<^verbatim>\<open>futures-util\<close> (\<open>Oneshot\<close>), hash functions, clocks and random choices.
  Each comes with its documented laws as a predicate or a locale, and with an instance that satisfies
  them and runs the examples.

  \<^bold>\<open>Shared theories.\<close> \<open>Prelude\<close> has the arithmetic of machine integers, vectors, keyed lists and costs; \<open>Dll\<close> the
  doubly linked lists that are threaded through nodes; \<open>Arena\<close> the arena; \<open>Float64\<close> the rounding of
  \<^verbatim>\<open>f64\<close> products and quotients that size the segments; \<open>Ring_Index\<close> positions in a ring under a mask;
  \<open>Channel_Error\<close> and \<open>Channel_Handle\<close> the errors and the life of the handles that the channels share.

  \<^bold>\<open>Eviction policies over keys\<close> (\<^verbatim>\<open>cache/src/policy\<close>). \<open>Policy\<close> states the contract of the trait \<^verbatim>\<open>CachePolicy\<close> as
  locales: \<open>loose_policy\<close> (answers name keys of the shard), \<open>cache_policy\<close> (the tracked keys and costs follow the
  shard), \<open>freeing_policy\<close> (an eviction pays what was asked for or empties the policy), \<open>victim_loop\<close> (the loop that
  several policies share). A history of calls is a list of operations, and the lemmas of the locales
  lift the contract of one call to every history. The policies interpret them: \<open>Lru_List\<close> and \<open>Lru_Fifo\<close> (\<^verbatim>\<open>lru_list.rs\<close>,
  \<^verbatim>\<open>lru.rs\<close>, \<^verbatim>\<open>fifo.rs\<close>), \<open>Clock\<close> (\<^verbatim>\<open>clock.rs\<close>), \<open>Sieve\<close> (\<^verbatim>\<open>sieve.rs\<close>), \<open>Random_Null\<close> (\<^verbatim>\<open>random.rs\<close>, \<^verbatim>\<open>null.rs\<close>), \<open>S3fifo\<close> (\<^verbatim>\<open>s3fifo.rs\<close>),
  \<open>Slru\<close> (\<^verbatim>\<open>slru.rs\<close>), \<open>Arc_Policy\<close> (\<^verbatim>\<open>arc.rs\<close>, which meets the loose contract only) and \<open>Tinylfu\<close> (\<^verbatim>\<open>tinylfu.rs\<close>) with
  the frequency sketch of \<open>Sketch\<close>. Shown are: no call panics, every eviction loop ends, the answers stay in
  step with the shard, the victims are the ones the policy promises, and estimates are never too low.

  \<^bold>\<open>Policies of a shard\<close> (\<^verbatim>\<open>cache/src/hpolicy.rs\<close>). \<open>Slab\<close> models the slab of nodes with generations, \<open>Shard_Policy\<close> the
  read ring and the contract \<open>shard_policy\<close>, \<open>Htinylfu\<close> and \<open>Hs3fifo\<close> the two built-in policies, \<open>Hpolicy\<close> their
  dispatch \<^verbatim>\<open>Builtin\<close>. The contract holds for up to \<open>2 ^ 32 - 1\<close> admissions, the range of the node ids.

  \<^bold>\<open>A shard\<close> (\<^verbatim>\<open>cache/src/entry.rs\<close>, \<^verbatim>\<open>time.rs\<close>, \<^verbatim>\<open>store.rs\<close>, \<^verbatim>\<open>select.rs\<close>, \<^verbatim>\<open>task/timer.rs\<close>, \<^verbatim>\<open>task/read_log.rs\<close>). \<open>Timer_Wheel\<close> shows that a
  wheel fires exactly the timers that are due; \<open>Read_Log\<close> that concurrent pushes and a drain lose and
  invent no read, one atomic operation at a time; \<open>Shard_Map\<close> defines the operations of a shard on its
  table, timers, counters and policy; \<open>Shard_Builtin\<close> composes them: under any history the table, the cost total,
  the timers and the policy agree, inserts keep the budget, and sweeps remove exactly what expired.

  \<^bold>\<open>The oneshot channel\<close> (\<^verbatim>\<open>channels/src/oneshot\<close>). \<open>Oneshot\<close> has one definition per operation, split at its atomic
  accesses; \<open>Oneshot_Protocol\<close> the step relation of any number of senders and one receiver; \<open>Oneshot_Safety\<close> delivery
  and memory safety; \<open>Oneshot_Wake\<close> the wake-up of the receiver, and the interleaving in which it is lost.

  \<^bold>\<open>The bounded MPMC channel\<close> (\<^verbatim>\<open>channels/src/mpmc_v2\<close>, \<^verbatim>\<open>internal/unsynchronized_ring.rs\<close>). \<open>Unsync_Ring\<close> is the ring with
  counters that wrap. \<open>Mpmc_Core\<close> has the critical sections of \<^verbatim>\<open>core.rs\<close>, of the blocking calls and futures, and of
  the handles, each one operation on the state behind the lock, since the lock serialises them. \<open>Mpmc_Tasks\<close> has
  the blocking calls of \<^verbatim>\<open>sync_impl.rs\<close> and the futures of \<^verbatim>\<open>async_impl.rs\<close> as programs that take one critical section or one
  access to their flag per step. \<open>Mpmc_World\<close> runs any number of them, non-blocking calls and operations on
  handles in any order; a set of liberties says which unusual uses the clients make. \<open>Mpmc_Fifo\<close> states the
  channel as a bounded queue and shows the refinement. \<open>Mpmc_Flags\<close> and \<open>Mpmc_Safety\<close> relate every queued pointer to a
  flag that is alive. \<open>Mpmc_Wake\<close> (the locale \<open>side\<close>, interpreted for receivers and for senders) and \<open>Mpmc_Progress\<close> count the
  programs on their way against items and free places. \<open>Mpmc_Handles\<close> relates the counts to the open handles. \<open>Mpmc_Liberties\<close>
  shows that each condition of these theorems is needed. The non-blocking calls check the closed flag of their handle. The wake-ups that a
  close sends after its critical section are one step with it.

  \<^bold>\<open>The rendezvous channels\<close> (\<^verbatim>\<open>channels/src/internal/rendezvous.rs\<close>, \<^verbatim>\<open>mpmc_v2/rendezvous.rs\<close>, \<^verbatim>\<open>mpsc/rendezvous.rs\<close>). \<open>Rendezvous\<close>
  has the core, with the stack frames and futures of waiting calls as an explicit memory that queued records point
  to, and the calls and futures as programs. The trait \<^verbatim>\<open>ReceiverStore\<close> is a record of operations, with the
  queue of the MPMC channel and the slot of the MPSC channel as its values. \<open>Rendezvous_World\<close> is the step relation.
  \<open>Rendezvous_Safety\<close> states the contract of the store as the locale \<open>receiver_queue\<close>, interprets it for both stores and shows that no
  program follows a dangling pointer; \<open>Rendezvous_Delivery\<close> that items are delivered once; \<open>Rendezvous_Wake\<close> that no wake-up is lost, and
  the races between giving up and a handoff. For the MPSC channel the theorems take one receive at a time, as its
  documentation promises.

  \<^bold>\<open>Histograms\<close> (\<^verbatim>\<open>stats/src/histogram.rs\<close>). \<open>Histogram\<close> shows the documented precision of buckets and quantiles, and that
  merging histograms equals recording all their values in one, whatever the order.

  \<^bold>\<open>Bounds.\<close> A capacity of the MPMC channel is at most \<open>2 ^ 63\<close>, above which rounding up to a power of two overflows;
  the number of handles stays below \<open>2 ^ 64\<close>. Costs of a shard sum up to less than \<open>2 ^ 64\<close> where a theorem says so.
  No fuel is used: loops are partial functions, and that they return is part of the theorems.

  \<^bold>\<open>Not modelled.\<close> Memory orderings weaker than sequential consistency: for this reason the lock-free
  queues of the \<^verbatim>\<open>mpsc\<close>, \<^verbatim>\<open>spmc\<close>, \<^verbatim>\<open>spsc\<close> and unbounded channels, the locks and the left-right structure, whose
  correctness rests on acquire and release accesses, are left out, and the modelled channels are shown
  for sequentially consistent accesses. The batch futures and the stream of the MPMC channel, which
  repeat the single-item futures, and its blocking calls and futures on a closed handle, which are
  refused at once. The accessors of the channels, and the conversions and immediate refusals of
  closed handles of the rendezvous channels. The cache handles, builder, iterators, snapshots
  and loaders, which route calls to shards, run closures of the user and start threads. Drops of keys
  and values that are shared by reference counts. The remaining crates, which configure, format and
  report.
\<close>

end
